(* ===== verification/Prs_Prelude.thy ===== *)
theory Prs_Prelude
  imports Main "HOL-Library.Word"
begin

text \<open>
  Shared vocabulary of the development: the machine types of \<^verbatim>\<open>include/prs/pal/types.h\<close> for the
  64-bit (amd64) configuration, the result codes of \<^verbatim>\<open>include/prs/result.h\<close>, the constants of
  \<^verbatim>\<open>include/prs/config.h\<close>, and the generic facts on words, bit masks and lists that the component
  theories use. The collections \<open>prs_bits\<close> (unsigned readings of masked words), \<open>prs_consts\<close>
  (values of the configuration constants) and \<open>prs_inv\<close> (introduction of component invariants)
  carry the component proofs.
\<close>

unbundle bit_operations_syntax

named_theorems prs_bits
named_theorems prs_consts
named_theorems prs_inv

section \<open>Machine types\<close>

type_synonym u8 = "8 word"
type_synonym u32 = "32 word"
type_synonym u64 = "64 word"

type_synonym prs_object_id_t = u32
type_synonym prs_ticks_t = u32
type_synonym prs_task_prio_t = u32

text \<open>A pointer is a 64-bit word and the null pointer is 0; where a function returns a pointer
  or null, the model returns an option.\<close>

type_synonym ptr = u64

section \<open>Result codes\<close>

datatype prs_result =
    PRS_OK | PRS_UNKNOWN | PRS_NOT_IMPLEMENTED | PRS_OUT_OF_MEMORY | PRS_PLATFORM_ERROR
  | PRS_INVALID_STATE | PRS_NOT_FOUND | PRS_ALREADY_EXISTS | PRS_EMPTY | PRS_LOCKED | PRS_TIMEOUT

section \<open>Configuration constants\<close>

definition PRS_MAX_TASK_PRIO :: nat where
  "PRS_MAX_TASK_PRIO = 32"

definition PRS_MAX_OBJECTS :: u64 where
  "PRS_MAX_OBJECTS = 4096"

definition PRS_MAX_STACK_SIZE :: u64 where
  "PRS_MAX_STACK_SIZE = 1 * 1024 * 1024"

definition PRS_MAX_GPD_ENTRIES :: u64 where
  "PRS_MAX_GPD_ENTRIES = PRS_MAX_OBJECTS * 4"

definition PRS_HZ :: nat where
  "PRS_HZ = 1000"

definition PRS_OBJECT_ID_INVALID :: prs_object_id_t where
  "PRS_OBJECT_ID_INVALID = 0"

lemmas PRS_config_defs [prs_consts] =
  PRS_MAX_TASK_PRIO_def PRS_MAX_OBJECTS_def PRS_MAX_STACK_SIZE_def PRS_MAX_GPD_ENTRIES_def
  PRS_HZ_def PRS_OBJECT_ID_INVALID_def

section \<open>Words as numbers\<close>

lemma unat_and_mask_eq [prs_bits]:
  "unat ((w :: 'a::len word) AND mask n) = unat w mod 2 ^ n"
  by (simp flip: take_bit_eq_mask add: unsigned_take_bit_eq)
    (simp add: take_bit_eq_mod)

lemma and_shifted_mask_eq:
  "(w :: 'a::len word) AND push_bit k (mask n) = push_bit k (take_bit n (drop_bit k w))"
  by (rule bit_word_eqI) (auto simp: bit_simps)

lemma unat_push_bit_small:
  assumes "unat (w :: 'a::len word) < 2 ^ n" and "k + n \<le> LENGTH('a)"
  shows "unat (push_bit k w) = unat w * 2 ^ k"
proof -
  have "unat w * 2 ^ k < 2 ^ n * 2 ^ k"
    using assms(1) by simp
  also have "\<dots> = 2 ^ (k + n)"
    by (simp add: power_add mult.commute)
  also have "\<dots> \<le> (2 :: nat) ^ LENGTH('a)"
    using assms(2) by (simp add: power_increasing)
  finally have "unat w * 2 ^ k < 2 ^ LENGTH('a)" .
  then have "take_bit LENGTH('a) (push_bit k (unat w)) = unat w * 2 ^ k"
    by (simp add: take_bit_eq_mod push_bit_eq_mult)
  then show ?thesis
    by (simp add: unsigned_push_bit_eq)
qed

lemma unat_take_drop_less: "unat (take_bit n (drop_bit k (w :: 'a::len word))) < 2 ^ n"
  by (simp add: unsigned_take_bit_eq)

lemma unat_and_shifted_mask:
  assumes "k + n \<le> LENGTH('a)"
  shows "unat ((w :: 'a::len word) AND push_bit k (mask n)) = (unat w div 2 ^ k mod 2 ^ n) * 2 ^ k"
proof -
  have "unat (w AND push_bit k (mask n)) = unat (take_bit n (drop_bit k w)) * 2 ^ k"
    unfolding and_shifted_mask_eq
    using assms by (intro unat_push_bit_small [OF unat_take_drop_less]) simp
  also have "unat (take_bit n (drop_bit k w)) = take_bit n (drop_bit k (unat w))"
    by (simp add: unsigned_take_bit_eq unat_drop_bit_eq)
  finally show ?thesis
    by (simp add: take_bit_eq_mod drop_bit_eq_div)
qed

lemma word_eq_iff_unat:
  "(v :: 'a::len word) = w \<longleftrightarrow> unat v = unat w"
  by (rule word_unat_eq_iff)

lemma unat_two_power [simp]:
  assumes "k < LENGTH('a::len)"
  shows "unat ((2 :: 'a word) ^ k) = 2 ^ k"
proof -
  have "unat ((2 :: 'a word) ^ k) = unat (word_of_nat (2 ^ k) :: 'a word)" by simp
  also have "\<dots> = 2 ^ k" using assms by (simp only: unat_of_nat) simp
  finally show ?thesis .
qed

lemma unat_add_no_wrap:
  assumes "unat (a :: 'a::len word) + unat b < 2 ^ LENGTH('a)"
  shows "unat (a + b) = unat a + unat b"
  using assms by (simp add: unat_word_ariths)

lemma unat_add_one_less:
  assumes "(i :: 'a::len word) < e"
  shows "unat (i + 1) = unat i + 1"
proof -
  have "unat i < unat e" using assms by (simp add: word_less_nat_alt)
  moreover have "unat e < 2 ^ LENGTH('a)" by (rule unsigned_less)
  ultimately have "unat i + unat (1 :: 'a word) < 2 ^ LENGTH('a)" by (simp only: unat_1)
  from unat_add_no_wrap [OF this] show ?thesis by simp
qed

lemma unat_minus_no_wrap:
  assumes "unat (b :: 'a::len word) \<le> unat a"
  shows "unat (a - b) = unat a - unat b"
  using assms by (simp add: unat_sub word_le_nat_alt)

lemma power2_minus_one_mask:
  assumes "unat (m :: 'a::len word) = 2 ^ k"
  shows "m - 1 = mask k"
proof -
  have "m = 2 ^ k"
  proof -
    have "m = word_of_nat (unat m)" by simp
    also have "\<dots> = 2 ^ k" by (simp add: assms)
    finally show ?thesis .
  qed
  then show ?thesis by (simp add: mask_eq_exp_minus_1)
qed

section \<open>Lists\<close>

lemma in_set_nth_update:
  "x \<in> set (xs[i := y]) \<Longrightarrow> x = y \<or> x \<in> set xs"
  by (meson insertE set_update_subset_insert subsetD)

lemma list_all_nth_update:
  "(\<forall>j < length xs. P j (xs ! j)) \<Longrightarrow> P i y \<Longrightarrow> (\<forall>j < length xs. P j (xs[i := y] ! j))"
  by (metis nth_list_update_eq nth_list_update_neq)

section \<open>Rounds\<close>

text \<open>A window of \<open>n\<close> consecutive numbers meets every residue.\<close>

lemma window_covers:
  assumes "(n :: nat) > 0" and "e < n"
  obtains j where "w \<le> j" "j < w + n" "j mod n = e"
proof -
  let ?j = "w + (e + n - w mod n) mod n"
  have "?j mod n = (w mod n + (e + n - w mod n)) mod n" by (simp add: mod_simps)
  also have "\<dots> = e"
    using mod_le_divisor [OF assms(1), of w] assms(2) by (simp add: le_add_diff_inverse trans_le_add2)
  finally show thesis
    using that [of ?j] assms(1) by simp
qed

section \<open>Threads\<close>

text \<open>The number of threads whose place in the program satisfies a predicate.\<close>

definition pc_count :: "('a \<Rightarrow> bool) \<Rightarrow> ('i::finite \<Rightarrow> 'a) \<Rightarrow> int" where
  "pc_count P pc = int (card {p. P (pc p)})"

lemma pc_count_upd: "pc_count P (pc(p := x)) = pc_count P pc + of_bool (P x) - of_bool (P (pc p))"
proof -
  define S where "S = {q. P (pc q)}"
  have u: "{q. P ((pc(p := x)) q)} = (if P x then insert p (S - {p}) else S - {p})" by (auto simp: S_def)
  have m: "P (pc p) \<longleftrightarrow> p \<in> S" by (simp add: S_def)
  have "int (card S) = int (card (S - {p})) + of_bool (p \<in> S)"
    using card_Suc_Diff1 [of S p] by (cases "p \<in> S") simp_all
  moreover have "int (card (if P x then insert p (S - {p}) else S - {p})) = int (card (S - {p})) + of_bool (P x)"
    using card_insert_disjoint [of "S - {p}" p] by (cases "P x") (simp_all del: insert_Diff_single)
  ultimately show ?thesis unfolding pc_count_def u m S_def [symmetric] by linarith
qed

lemma pc_count_nonneg: "0 \<le> pc_count P pc"
  by (simp add: pc_count_def)

lemma pc_count_pos: "P (pc p) \<Longrightarrow> 1 \<le> pc_count P pc"
proof -
  assume "P (pc p)"
  then have "{p} \<subseteq> {q. P (pc q)}" by simp
  from card_mono [OF _ this] show ?thesis by (simp add: pc_count_def)
qed

lemma pc_count_zero: "pc_count P pc = 0 \<longleftrightarrow> (\<forall>p. \<not> P (pc p))"
  by (simp add: pc_count_def)

end
