(* ===== verification/Atomic.thy ===== *)
theory Atomic
  imports Prs_Prelude
begin

text \<open>
  The atomic primitives of \<^verbatim>\<open>include/prs/pal/atomic.h\<close> and the compare-exchange loop that the lock-free
  components share. A loop of the shape

  \<^verbatim>\<open>  do { ...decide... } while (!compare_exchange_weak(&cell, &expected, new)); \<close>

  is its body: from the expected value it either returns (\<open>Give\<close>) or proposes a new value and the
  result it will return once the exchange succeeds (\<open>Swap\<close>). \<open>cas_run\<close> runs the body with no
  interference, \<open>cas_loop\<close> runs the loop against any sequence of values that other threads leave
  in the cell (and any spurious failures), and \<open>cas_step\<close> is the step relation of any number of
  threads that run such loops on one cell.
\<close>

section \<open>Primitives\<close>

definition atomic_compare_exchange :: "'h \<Rightarrow> 'h \<Rightarrow> 'h \<Rightarrow> bool \<times> 'h \<times> 'h" where
  \<comment> \<open>cell, expected, new: success, the cell after, the expected variable after\<close>
  "atomic_compare_exchange cell expected v =
     (if cell = expected then (True, v, expected) else (False, cell, cell))"

definition atomic_exchange :: "'h \<Rightarrow> 'h \<Rightarrow> 'h \<times> 'h" where
  \<comment> \<open>the value before, the cell after\<close>
  "atomic_exchange cell v = (cell, v)"

definition atomic_fetch_add :: "'a::len word \<Rightarrow> 'a word \<Rightarrow> 'a word \<times> 'a word" where
  "atomic_fetch_add cell v = (cell, cell + v)"

definition atomic_fetch_sub :: "'a::len word \<Rightarrow> 'a word \<Rightarrow> 'a word \<times> 'a word" where
  "atomic_fetch_sub cell v = (cell, cell - v)"

definition atomic_fetch_or :: "'a::len word \<Rightarrow> 'a word \<Rightarrow> 'a word \<times> 'a word" where
  "atomic_fetch_or cell v = (cell, cell OR v)"

definition atomic_fetch_and :: "'a::len word \<Rightarrow> 'a word \<Rightarrow> 'a word \<times> 'a word" where
  "atomic_fetch_and cell v = (cell, cell AND v)"

section \<open>Compare-exchange loops\<close>

datatype ('h, 'r) cas_body = Give 'r | Swap 'h 'r

text \<open>The loop when no other thread writes the cell: one load, one decision, one exchange.\<close>

fun cas_run :: "('h \<Rightarrow> ('h, 'r) cas_body) \<Rightarrow> 'h \<Rightarrow> 'h \<times> 'r" where
  "cas_run body h = (case body h of Give r \<Rightarrow> (h, r) | Swap v r \<Rightarrow> (v, r))"

text \<open>The loop under interference: each attempt meets a value of the cell and may fail spuriously
  (the first component), as the weak exchange is allowed to.\<close>

fun cas_loop :: "('h \<Rightarrow> ('h, 'r) cas_body) \<Rightarrow> 'h \<Rightarrow> (bool \<times> 'h) list \<Rightarrow> ('h, 'r) cas_body option" where
  "cas_loop body e ms =
     (case body e of
        Give r \<Rightarrow> Some (Give r)
      | Swap v r \<Rightarrow>
          (case ms of
             [] \<Rightarrow> None
           | (spurious, m) # ms' \<Rightarrow>
               (if spurious then cas_loop body m ms'
                else (case atomic_compare_exchange m e v of
                        (ok, m', e') \<Rightarrow> if ok then Some (Swap m' r) else cas_loop body e' ms'))))"

declare cas_loop.simps [simp del]

lemma cas_loop_retry:
  assumes "body e = Swap v r" and "sp \<or> m \<noteq> e"
  shows "cas_loop body e ((sp, m) # ms) = cas_loop body m ms"
  using assms by (auto simp: cas_loop.simps [of body e] atomic_compare_exchange_def)

lemma cas_loop_hit:
  "body e = Swap v r \<Longrightarrow> cas_loop body e ((False, e) # ms) = Some (Swap v r)"
  by (simp add: cas_loop.simps [of body e] atomic_compare_exchange_def)

lemma cas_loop_Give [simp]:
  "body e = Give r \<Longrightarrow> cas_loop body e ms = Some (Give r)"
  by (simp add: cas_loop.simps [of body e])

lemma cas_loop_Nil: "body e = Swap v r \<Longrightarrow> cas_loop body e [] = None"
  by (simp add: cas_loop.simps [of body e])

lemma cas_loop_swap_linear:
  assumes "cas_loop body e ms = Some (Swap v r)"
  shows "\<exists>m. (False, m) \<in> set ms \<and> body m = Swap v r"
  using assms
proof (induction ms arbitrary: e)
  case Nil
  then show ?case by (cases "body e") (simp_all add: cas_loop_Nil)
next
  case (Cons x ms)
  obtain sp m where x: "x = (sp, m)" by (cases x)
  show ?case
  proof (cases "body e")
    case (Give r')
    with Cons.prems show ?thesis by simp
  next
    case (Swap v' r')
    show ?thesis
    proof (cases "sp \<or> m \<noteq> e")
      case True
      with Cons.prems have "cas_loop body m ms = Some (Swap v r)"
        by (simp add: x cas_loop_retry [of body e v' r', OF Swap])
      from Cons.IH [OF this] show ?thesis by auto
    next
      case False
      with Cons.prems Swap show ?thesis by (auto simp: x cas_loop_hit)
    qed
  qed
qed

lemma cas_loop_give_linear:
  assumes "cas_loop body e ms = Some (Give r)"
  shows "\<exists>m \<in> insert e (snd ` set ms). body m = Give r"
  using assms
proof (induction ms arbitrary: e)
  case Nil
  then show ?case by (cases "body e") (simp_all add: cas_loop_Nil)
next
  case (Cons x ms)
  obtain sp m where x: "x = (sp, m)" by (cases x)
  show ?case
  proof (cases "body e")
    case (Give r')
    with Cons.prems show ?thesis by simp
  next
    case (Swap v' r')
    show ?thesis
    proof (cases "sp \<or> m \<noteq> e")
      case True
      with Cons.prems have "cas_loop body m ms = Some (Give r)"
        by (simp add: x cas_loop_retry [of body e v' r', OF Swap])
      from Cons.IH [OF this] show ?thesis by (auto simp: x)
    next
      case False
      with Cons.prems Swap show ?thesis by (auto simp: x cas_loop_hit)
    qed
  qed
qed

text \<open>Progress: the loop ends at the latest at an attempt that no other thread and no spurious
  failure disturbs.\<close>

lemma cas_loop_progress:
  "\<exists>out. cas_loop body e (pre @ [(b, m), (False, m)]) = Some out"
proof (induction pre arbitrary: e)
  case Nil
  show ?case
    by (cases "body e"; cases "body m")
      (auto simp: cas_loop.simps [of body e] cas_loop.simps [of body m] atomic_compare_exchange_def)
next
  case (Cons x pre)
  obtain sp y where x: "x = (sp, y)" by (cases x)
  show ?case
  proof (cases "body e")
    case (Give r)
    then show ?thesis by (simp add: cas_loop.simps [of body e])
  next
    case (Swap v r)
    with x Cons.IH show ?thesis
      by (auto simp: cas_loop.simps [of body e] atomic_compare_exchange_def)
  qed
qed

lemma cas_loop_undisturbed:
  "cas_loop body e [(False, e)] = Some (body e)"
  by (cases "body e") (simp_all add: cas_loop.simps [of body e] atomic_compare_exchange_def)

section \<open>Threads racing on one cell\<close>

text \<open>Every thread is idle or in the middle of an operation, holding the value it expects.
  \<open>hist\<close> records the successful exchanges in their order; it is a ghost of the proof.\<close>

record ('h, 'op) cas_sys =
  cell :: 'h
  busy :: "nat \<Rightarrow> ('op \<times> 'h) option"
  hist :: "'op list"

inductive cas_step ::
  "('op \<Rightarrow> 'h \<Rightarrow> ('h, 'r) cas_body) \<Rightarrow> ('h, 'op) cas_sys \<Rightarrow> ('h, 'op) cas_sys \<Rightarrow> bool"
  for body where
  load: "busy s t = None \<Longrightarrow>
    cas_step body s (s\<lparr>busy := (busy s)(t := Some (op, cell s))\<rparr>)"
| give: "busy s t = Some (op, e) \<Longrightarrow> body op e = Give r \<Longrightarrow>
    cas_step body s (s\<lparr>busy := (busy s)(t := None)\<rparr>)"
| swap: "busy s t = Some (op, e) \<Longrightarrow> body op e = Swap v r \<Longrightarrow> cell s = e \<Longrightarrow>
    cas_step body s (s\<lparr>cell := v, busy := (busy s)(t := None), hist := hist s @ [op]\<rparr>)"
| retry: "busy s t = Some (op, e) \<Longrightarrow> body op e = Swap v r \<Longrightarrow>
    cas_step body s (s\<lparr>busy := (busy s)(t := Some (op, cell s))\<rparr>)"

definition cas_init :: "'h \<Rightarrow> ('h, 'op) cas_sys" where
  "cas_init h = \<lparr>cell = h, busy = (\<lambda>_. None), hist = []\<rparr>"

inductive cas_reach ::
  "('op \<Rightarrow> 'h \<Rightarrow> ('h, 'r) cas_body) \<Rightarrow> 'h \<Rightarrow> ('h, 'op) cas_sys \<Rightarrow> bool"
  for body h0 where
  start: "cas_reach body h0 (cas_init h0)"
| step: "cas_reach body h0 s \<Longrightarrow> cas_step body s s' \<Longrightarrow> cas_reach body h0 s'"

text \<open>Linearizability: the cell always holds what the successful operations, run one after the
  other with no interference, make of the initial value.\<close>

fun cas_replay :: "('op \<Rightarrow> 'h \<Rightarrow> ('h, 'r) cas_body) \<Rightarrow> 'h \<Rightarrow> 'op list \<Rightarrow> 'h" where
  "cas_replay body h [] = h"
| "cas_replay body h (op # ops) = cas_replay body (fst (cas_run (body op) h)) ops"

lemma cas_replay_append [simp]:
  "cas_replay body h (xs @ ys) = cas_replay body (cas_replay body h xs) ys"
  by (induction xs arbitrary: h) simp_all

lemma cas_reach_replay:
  "cas_reach body h0 s \<Longrightarrow> cell s = cas_replay body h0 (hist s)"
proof (induction rule: cas_reach.induct)
  case start
  show ?case by (simp add: cas_init_def)
next
  case (step s s')
  from step.hyps(2) step.IH show ?case
    by (cases rule: cas_step.cases) auto
qed

lemma cas_reach_swaps:
  assumes "cas_reach body h0 s"
    and "J h0 []"
    and "\<And>h ops op v r. J h ops \<Longrightarrow> body op h = Swap v r \<Longrightarrow> J v (ops @ [op])"
  shows "J (cell s) (hist s)"
  using assms(1)
proof (induction rule: cas_reach.induct)
  case start
  show ?case using assms(2) by (simp add: cas_init_def)
next
  case (step s s')
  from step.hyps(2) step.IH show ?case
    by (cases rule: cas_step.cases) (auto intro: assms(3))
qed

section \<open>The contract of a reference-counted cell\<close>

text \<open>
  The pool, the pointer directory and the object directory all keep a reference count in a header
  that \<open>lock\<close> and \<open>unlock\<close> update with a compare-exchange loop. The contract says what a
  successful exchange does to the count and to the identity stored in the header. Its lemmas hold for
  any number of threads.
\<close>

datatype refop = Lock | Unlock

locale refcounted =
  fixes refs :: "'h \<Rightarrow> nat"
    and live :: "'h \<Rightarrow> bool"
    and owner :: "'h \<Rightarrow> 'i"
    and body :: "'i \<Rightarrow> refop \<Rightarrow> 'h \<Rightarrow> ('h, 'r) cas_body"
  assumes lock_swap: "live h = (0 < refs h) \<Longrightarrow> body i Lock h = Swap v r \<Longrightarrow> 0 < refs h \<and> refs v = refs h + 1"
    and unlock_swap: "live h = (0 < refs h) \<Longrightarrow> body i Unlock h = Swap v r \<Longrightarrow> 0 < refs h \<and> refs v = refs h - 1"
    and swap_live: "live h = (0 < refs h) \<Longrightarrow> body i op h = Swap v r \<Longrightarrow> live v = (0 < refs v)"
    and swap_owner: "body i op h = Swap v r \<Longrightarrow> owner h = i \<and> owner v = i"
begin

lemma live_iff_referenced:
  assumes "cas_reach (body i) h0 s" and "live h0 = (0 < refs h0)"
  shows "live (cell s) = (0 < refs (cell s))"
proof (rule cas_reach_swaps [OF assms(1), where J = "\<lambda>h ops. live h = (0 < refs h)"])
  show "live h0 = (0 < refs h0)" by (rule assms(2))
  show "live v = (0 < refs v)" if "live h = (0 < refs h)" "body i op h = Swap v r" for h v op r
    using that by (rule swap_live)
qed

lemma refs_balance:
  assumes "cas_reach (body i) h0 s" and "live h0 = (0 < refs h0)"
  shows "refs (cell s) + count_list (hist s) Unlock = refs h0 + count_list (hist s) Lock"
proof -
  have "live (cell s) = (0 < refs (cell s))
    \<and> refs (cell s) + count_list (hist s) Unlock = refs h0 + count_list (hist s) Lock"
  proof (rule cas_reach_swaps [OF assms(1), where
        J = "\<lambda>h ops. live h = (0 < refs h) \<and> refs h + count_list ops Unlock = refs h0 + count_list ops Lock"])
    fix h ops op v r
    assume J: "live h = (0 < refs h) \<and> refs h + count_list ops Unlock = refs h0 + count_list ops Lock"
      and sw: "body i op h = Swap v r"
    note live = conjunct1 [OF J] and bal = conjunct2 [OF J]
    have "refs v + count_list (ops @ [op]) Unlock = refs h0 + count_list (ops @ [op]) Lock"
    proof (cases op)
      case Lock
      then show ?thesis using lock_swap [OF live, of i v r] sw bal by simp
    next
      case Unlock
      then show ?thesis using unlock_swap [OF live, of i v r] sw bal by (cases "refs h") simp_all
    qed
    then show "live v = (0 < refs v)
        \<and> refs v + count_list (ops @ [op]) Unlock = refs h0 + count_list (ops @ [op]) Lock"
      using swap_live [OF live sw] by (rule conjI [rotated])
  qed (use assms(2) in simp)
  then show ?thesis ..
qed

lemma owner_stable:
  assumes "cas_reach (body i) h0 s" and "owner h0 = i"
  shows "owner (cell s) = i"
  by (rule cas_reach_swaps [OF assms(1), where J = "\<lambda>h ops. owner h = i"])
    (use assms(2) swap_owner in auto)

lemma dead_stays_dead:
  assumes "cas_reach (body i) h0 s" and "live h0 = (0 < refs h0)" and "refs h0 = 0"
  shows "cell s = h0"
proof -
  have no: "body i op h0 \<noteq> Swap v r" for op v r
    using assms(2,3) lock_swap [of h0 i v r] unlock_swap [of h0 i v r] by (cases op) auto
  have "cell s = h0 \<and> hist s = []"
    by (rule cas_reach_swaps [OF assms(1), where J = "\<lambda>h ops. h = h0 \<and> ops = []"])
      (use no in auto)
  then show ?thesis ..
qed

end

end
