(* ===== verification/Refdir.thy ===== *)
theory Refdir
  imports Atomic
begin

text \<open>
  The contract that the pool, the pointer directory and the object directory keep towards their
  clients: a directory maps live IDs to reference counts; \<open>lock\<close> adds a reference to a live ID
  and fails on any other, \<open>unlock\<close> drops one and says whether it was the last, and an ID whose
  last reference is gone is no longer live. The lemmas of the contract are about sequences of such
  calls.
\<close>

section \<open>Sequences of calls\<close>

text \<open>\<open>refs_run\<close> is the count that a sequence of calls leads to, or \<open>None\<close> if the count
  leaves the range \<open>1 .. limit\<close> on the way.\<close>

fun refs_run :: "nat \<Rightarrow> nat \<Rightarrow> refop list \<Rightarrow> nat option" where
  "refs_run limit n [] = Some n"
| "refs_run limit n (Lock # ops) = (if n < limit then refs_run limit (n + 1) ops else None)"
| "refs_run limit n (Unlock # ops) = (if 1 < n then refs_run limit (n - 1) ops else None)"

fun dir_run :: "('s \<Rightarrow> 'i \<Rightarrow> 's \<times> bool) \<Rightarrow> ('s \<Rightarrow> 'i \<Rightarrow> 's \<times> bool) \<Rightarrow> 's \<Rightarrow> 'i \<Rightarrow> refop list \<Rightarrow> 's" where
  "dir_run lock unlock s i [] = s"
| "dir_run lock unlock s i (Lock # ops) = dir_run lock unlock (fst (lock s i)) i ops"
| "dir_run lock unlock s i (Unlock # ops) = dir_run lock unlock (fst (unlock s i)) i ops"

lemma refs_run_count:
  "refs_run limit n ops = Some m \<Longrightarrow> m + count_list ops Unlock = n + count_list ops Lock"
  by (induction limit n ops rule: refs_run.induct) (auto split: if_splits)

lemma refs_run_pos: "refs_run limit n ops = Some m \<Longrightarrow> 0 < n \<Longrightarrow> 0 < m"
  by (induction limit n ops rule: refs_run.induct) (auto split: if_splits)

section \<open>The contract\<close>

locale ref_directory =
  fixes wf :: "'s \<Rightarrow> bool"
    and view :: "'s \<Rightarrow> 'i \<rightharpoonup> nat"
    and lock :: "'s \<Rightarrow> 'i \<Rightarrow> 's \<times> bool"
    and unlock :: "'s \<Rightarrow> 'i \<Rightarrow> 's \<times> bool"
    and limit :: nat
  assumes lock_hit: "wf s \<Longrightarrow> view s i = Some n \<Longrightarrow> 0 < n \<Longrightarrow> n < limit \<Longrightarrow>
      \<exists>s'. lock s i = (s', True) \<and> wf s' \<and> view s' = (view s)(i \<mapsto> n + 1)"
    and lock_miss: "wf s \<Longrightarrow> view s i = None \<Longrightarrow> lock s i = (s, False)"
    and unlock_shared: "wf s \<Longrightarrow> view s i = Some n \<Longrightarrow> 1 < n \<Longrightarrow>
      \<exists>s'. unlock s i = (s', False) \<and> wf s' \<and> view s' = (view s)(i \<mapsto> n - 1)"
    and unlock_final: "wf s \<Longrightarrow> view s i = Some 1 \<Longrightarrow>
      \<exists>s'. unlock s i = (s', True) \<and> wf s' \<and> view s' = (view s)(i := None)"
begin

lemma lock_unlock_restores:
  assumes "wf s" and "view s i = Some n" and "0 < n" and "n < limit"
  shows "view (fst (unlock (fst (lock s i)) i)) = view s \<and> \<not> snd (unlock (fst (lock s i)) i)"
proof -
  obtain s' where s': "lock s i = (s', True)" "wf s'" "view s' = (view s)(i \<mapsto> n + 1)"
    using lock_hit [OF assms] by blast
  then obtain s'' where s'': "unlock s' i = (s'', False)" "view s'' = (view s')(i \<mapsto> n)"
    using unlock_shared [of s' i "n + 1"] assms(3) by auto
  have "(view s')(i \<mapsto> n) = view s" using s'(3) assms(2) by (auto simp: fun_eq_iff)
  with s' s'' show ?thesis by simp
qed

text \<open>As long as every prefix of the calls leaves a reference, the ID stays live, no other ID is
  touched and the count is the initial one plus the locks minus the unlocks.\<close>

lemma run_keeps_live:
  assumes "wf s" and "view s i = Some n" and "0 < n" and "refs_run limit n ops = Some m"
  shows "wf (dir_run lock unlock s i ops)
    \<and> view (dir_run lock unlock s i ops) = (view s)(i \<mapsto> m)"
  using assms
proof (induction ops arbitrary: s n)
  case Nil
  then show ?case by (auto simp: fun_eq_iff)
next
  case (Cons op ops)
  show ?case
  proof (cases op)
    case Lock
    then have lt: "n < limit" and run: "refs_run limit (n + 1) ops = Some m"
      using Cons.prems(4) by (auto split: if_splits)
    obtain s' where s': "lock s i = (s', True)" "wf s'" "view s' = (view s)(i \<mapsto> n + 1)"
      using lock_hit [OF Cons.prems(1-3) lt] by blast
    show ?thesis using Cons.IH [OF s'(2) _ _ run] s' Lock by (auto simp: fun_eq_iff)
  next
    case Unlock
    then have gt: "1 < n" and run: "refs_run limit (n - 1) ops = Some m"
      using Cons.prems(4) by (auto split: if_splits)
    obtain s' where s': "unlock s i = (s', False)" "wf s'" "view s' = (view s)(i \<mapsto> n - 1)"
      using unlock_shared [OF Cons.prems(1,2) gt] by blast
    show ?thesis using Cons.IH [OF s'(2) _ _ run] s' gt Unlock by (auto simp: fun_eq_iff)
  qed
qed

text \<open>Dropping the last reference after such calls frees the ID, and a later lock fails.\<close>

lemma run_then_free:
  assumes "wf s" and "view s i = Some n" and "0 < n" and "refs_run limit n ops = Some 1"
  shows "\<exists>s'. unlock (dir_run lock unlock s i ops) i = (s', True)
    \<and> view s' = (view s)(i := None) \<and> lock s' i = (s', False)"
proof -
  let ?t = "dir_run lock unlock s i ops"
  from run_keeps_live [OF assms] have t: "wf ?t" "view ?t = (view s)(i \<mapsto> 1)" by simp_all
  then obtain s' where "unlock ?t i = (s', True)" "wf s'" "view s' = (view ?t)(i := None)"
    using unlock_final [of ?t i] by auto
  with t show ?thesis using lock_miss [of s' i] by auto
qed

end

end
