(* ===== verification/Bitops.thy ===== *)
theory Bitops
  imports Prs_Prelude
begin

text \<open>
  The bit operations of \<^verbatim>\<open>include/prs/pal/bitops.h\<close>. With GCC the searches for the highest and
  lowest set bit use the compiler's builtins, modelled as the counts of leading and trailing zeros;
  the portable loops of the two macros are modelled beside them. The lemmas say which bit the searches
  find, that the alignment and the rounding to a power of two give the least admissible value, and
  what the portable search for the lowest bit misses.
\<close>

section \<open>Definitions\<close>

definition builtin_ctz :: "'a::len word \<Rightarrow> nat" where
  "builtin_ctz v = length (takeWhile (\<lambda>i. \<not> bit v i) [0 ..< LENGTH('a)])"

definition builtin_clz :: "'a::len word \<Rightarrow> nat" where
  "builtin_clz v = length (takeWhile (\<lambda>i. \<not> bit v i) (rev [0 ..< LENGTH('a)]))"

definition prs_bitops_hsb :: "'a::len word \<Rightarrow> int" where
  "prs_bitops_hsb v = (if v = 0 then -1 else int LENGTH('a) - int (builtin_clz v) - 1)"

definition prs_bitops_lsb :: "'a::len word \<Rightarrow> int" where
  "prs_bitops_lsb v = (if v = 0 then -1 else int (builtin_ctz v))"

definition prs_bitops_hsb_uint64 :: "u64 \<Rightarrow> int" where
  "prs_bitops_hsb_uint64 v = prs_bitops_hsb v"

definition prs_bitops_hsb_uint32 :: "u32 \<Rightarrow> int" where
  "prs_bitops_hsb_uint32 v = prs_bitops_hsb v"

definition prs_bitops_lsb_uint64 :: "u64 \<Rightarrow> int" where
  "prs_bitops_lsb_uint64 v = prs_bitops_lsb v"

definition prs_bitops_lsb_uint32 :: "u32 \<Rightarrow> int" where
  "prs_bitops_lsb_uint32 v = prs_bitops_lsb v"

text \<open>The portable loops: the positions are tried in the order of the macro's \<^verbatim>\<open>for\<close>.\<close>

fun bitops_search :: "'a::len word \<Rightarrow> nat list \<Rightarrow> int" where
  "bitops_search v [] = -1"
| "bitops_search v (pos # ps) = (if v AND push_bit pos 1 \<noteq> 0 then int pos else bitops_search v ps)"

definition PRS_BITOPS_HSB :: "'a::len word \<Rightarrow> int" where
  "PRS_BITOPS_HSB v = bitops_search v (rev [0 ..< LENGTH('a)])"

definition PRS_BITOPS_LSB :: "'a::len word \<Rightarrow> int" where
  "PRS_BITOPS_LSB v = bitops_search v [0 ..< LENGTH('a) - 1]"

definition prs_bitops_next_power_of_2 :: "u64 \<Rightarrow> u64" where
  "prs_bitops_next_power_of_2 v0 =
     (let v = v0 - 1;
          v = v OR drop_bit 1 v;
          v = v OR drop_bit 2 v;
          v = v OR drop_bit 4 v;
          v = v OR drop_bit 8 v;
          v = v OR drop_bit 16 v;
          v = v OR drop_bit 32 v
      in v + 1)"

definition prs_bitops_align_size :: "u64 \<Rightarrow> u64 \<Rightarrow> u64" where
  "prs_bitops_align_size sz align =
     (let msk = align - 1 in (sz + msk) AND NOT msk)"

definition prs_bitops_is_power_of_2 :: "u64 \<Rightarrow> bool" where
  "prs_bitops_is_power_of_2 val \<longleftrightarrow> val \<noteq> 0 \<and> \<not> (val AND (val - 1) \<noteq> 0)"

section \<open>Searches for a set bit\<close>

lemma and_one_bit_iff: "(v :: 'a::len word) AND push_bit n 1 \<noteq> 0 \<longleftrightarrow> bit v n"
  by (simp only: bit_iff_and_push_bit_not_eq_0)

lemma length_takeWhile_upt:
  assumes "i < n" "P i" "\<forall>j < i. \<not> P j"
  shows "length (takeWhile (\<lambda>j. \<not> P j) [0 ..< n]) = i"
proof -
  have "[0 ..< n] = [0 ..< i] @ i # [Suc i ..< n]"
    using assms(1) by (metis le_add1 less_imp_le_nat plus_nat.add_0 upt_add_eq_append upt_conv_Cons le_add_diff_inverse)
  then show ?thesis using assms by (simp add: takeWhile_append)
qed

lemma length_takeWhile_rev_upt:
  assumes "i < n" "P i" "\<forall>j. i < j \<and> j < n \<longrightarrow> \<not> P j"
  shows "length (takeWhile (\<lambda>j. \<not> P j) (rev [0 ..< n])) = n - i - 1"
proof -
  have "[0 ..< n] = [0 ..< i] @ i # [Suc i ..< n]"
    using assms(1) by (metis le_add1 less_imp_le_nat plus_nat.add_0 upt_add_eq_append upt_conv_Cons le_add_diff_inverse)
  then show ?thesis using assms by (simp add: takeWhile_append)
qed

lemma word_has_lowest_bit:
  assumes "(v :: 'a::len word) \<noteq> 0"
  obtains i where "i < LENGTH('a)" "bit v i" "\<forall>j < i. \<not> bit v j"
proof -
  from assms obtain k where "bit v k" by (auto simp: bit_eq_iff)
  let ?i = "LEAST i. bit v i"
  have "bit v ?i" by (rule LeastI) (rule \<open>bit v k\<close>)
  moreover have "\<forall>j < ?i. \<not> bit v j" using not_less_Least by blast
  moreover have "?i < LENGTH('a)" using \<open>bit v ?i\<close> by (rule bit_imp_le_length)
  ultimately show thesis by (rule that [rotated 1])
qed

lemma word_has_highest_bit:
  assumes "(v :: 'a::len word) \<noteq> 0"
  obtains i where "i < LENGTH('a)" "bit v i" "\<forall>j. i < j \<longrightarrow> \<not> bit v j"
proof -
  from assms obtain k where k: "bit v k" by (auto simp: bit_eq_iff)
  have bound: "\<And>y. bit v y \<Longrightarrow> y \<le> LENGTH('a)"
    using bit_imp_le_length less_imp_le by blast
  let ?i = "GREATEST i. bit v i"
  have i: "bit v ?i" using k bound by (rule GreatestI_nat)
  have "\<forall>j. ?i < j \<longrightarrow> \<not> bit v j"
    using Greatest_le_nat [of "bit v", OF _ bound] by (meson not_less)
  with i show thesis using that bit_imp_le_length by blast
qed

lemma prs_bitops_lsb_char:
  assumes "i < LENGTH('a)" "bit (v :: 'a::len word) i" "\<forall>j < i. \<not> bit v j"
  shows "prs_bitops_lsb v = int i"
proof -
  have "v \<noteq> 0" using assms(2) by auto
  then show ?thesis
    using length_takeWhile_upt [of i "LENGTH('a)" "bit v"] assms
    by (simp add: prs_bitops_lsb_def builtin_ctz_def)
qed

lemma prs_bitops_hsb_char:
  assumes "i < LENGTH('a)" "bit (v :: 'a::len word) i" "\<forall>j. i < j \<longrightarrow> \<not> bit v j"
  shows "prs_bitops_hsb v = int i"
proof -
  have "v \<noteq> 0" using assms(2) by auto
  then show ?thesis
    using length_takeWhile_rev_upt [of i "LENGTH('a)" "bit v"] assms
    by (simp add: prs_bitops_hsb_def builtin_clz_def)
qed

lemma bitops_search_first:
  assumes "bit (v :: 'a::len word) p" and "\<forall>q \<in> set pre. \<not> bit v q"
  shows "bitops_search v (pre @ p # post) = int p"
  using assms(2)
proof (induction pre)
  case Nil
  from assms(1) have "v AND push_bit p 1 \<noteq> 0" using and_one_bit_iff by blast
  then show ?case by simp
next
  case (Cons q pre)
  have "\<not> bit v q" using Cons.prems by simp
  then have "\<not> (v AND push_bit q 1 \<noteq> 0)" using and_one_bit_iff by blast
  then show ?case using Cons by simp
qed

lemma bitops_search_none:
  assumes "\<forall>q \<in> set ps. \<not> bit (v :: 'a::len word) q"
  shows "bitops_search v ps = -1"
  using assms
proof (induction ps)
  case (Cons q ps)
  have "\<not> (v AND push_bit q 1 \<noteq> 0)" using and_one_bit_iff Cons.prems by auto
  then show ?case using Cons by simp
qed simp

lemma hsb_gcc_portable:
  "PRS_BITOPS_HSB (v :: 'a::len word) = prs_bitops_hsb v"
proof (cases "v = 0")
  case True
  then show ?thesis by (simp add: PRS_BITOPS_HSB_def prs_bitops_hsb_def bitops_search_none)
next
  case False
  then obtain i where i: "i < LENGTH('a)" "bit v i" "\<forall>j. i < j \<longrightarrow> \<not> bit v j"
    by (rule word_has_highest_bit)
  then have "rev [0 ..< LENGTH('a)] = rev [Suc i ..< LENGTH('a)] @ i # rev [0 ..< i]"
    by (metis append.assoc append_Cons append_Nil less_imp_le_nat rev.simps(2) rev_append
        upt_conv_Cons upt_add_eq_append le_add_diff_inverse zero_le)
  with i have "PRS_BITOPS_HSB v = int i"
    unfolding PRS_BITOPS_HSB_def by (simp add: bitops_search_first)
  with i show ?thesis by (simp add: prs_bitops_hsb_char)
qed

lemma lsb_portable_misses_top_bit:
  "PRS_BITOPS_LSB (v :: 'a::len word) =
     (if v = push_bit (LENGTH('a) - 1) 1 then -1 else prs_bitops_lsb v)"
proof (cases "v = 0")
  case True
  then show ?thesis by (simp add: PRS_BITOPS_LSB_def prs_bitops_lsb_def bitops_search_none)
next
  case False
  then obtain i where i: "i < LENGTH('a)" "bit v i" "\<forall>j < i. \<not> bit v j"
    by (rule word_has_lowest_bit)
  have lsb: "prs_bitops_lsb v = int i" using i by (rule prs_bitops_lsb_char)
  show ?thesis
  proof (cases "i = LENGTH('a) - 1")
    case True
    have "v = push_bit (LENGTH('a) - 1) 1"
    proof (rule bit_word_eqI)
      fix n assume n: "n < LENGTH('a)"
      then show "bit v n \<longleftrightarrow> bit (push_bit (LENGTH('a) - 1) 1 :: 'a word) n"
        using i True by (cases "n = i") (auto simp: bit_exp_iff)
    qed
    moreover have "PRS_BITOPS_LSB v = -1"
      unfolding PRS_BITOPS_LSB_def using i True by (intro bitops_search_none) auto
    ultimately show ?thesis by simp
  next
    case False
    then have less: "i < LENGTH('a) - 1" using i(1) by simp
    then have "[0 ..< LENGTH('a) - 1] = [0 ..< i] @ i # [Suc i ..< LENGTH('a) - 1]"
      by (metis le_add1 less_imp_le_nat plus_nat.add_0 upt_add_eq_append upt_conv_Cons
          le_add_diff_inverse)
    then have "PRS_BITOPS_LSB v = int i"
      unfolding PRS_BITOPS_LSB_def using i by (simp add: bitops_search_first)
    moreover have "v \<noteq> push_bit (LENGTH('a) - 1) 1"
      using i(2) False by (auto simp: bit_exp_iff)
    ultimately show ?thesis using lsb by simp
  qed
qed

lemma hsb_bounds:
  assumes "(v :: 'a::len word) \<noteq> 0"
  shows "prs_bitops_hsb v \<ge> 0" and "prs_bitops_hsb v < int LENGTH('a)"
    and "2 ^ nat (prs_bitops_hsb v) \<le> unat v" and "unat v < 2 ^ Suc (nat (prs_bitops_hsb v))"
proof -
  obtain i where i: "i < LENGTH('a)" "bit v i" "\<forall>j. i < j \<longrightarrow> \<not> bit v j"
    using assms by (rule word_has_highest_bit)
  have hsb: "prs_bitops_hsb v = int i" using i by (rule prs_bitops_hsb_char)
  show "prs_bitops_hsb v \<ge> 0" and "prs_bitops_hsb v < int LENGTH('a)"
    using hsb i(1) by simp_all
  have "drop_bit i v \<noteq> 0" using i(2) by (auto simp: bit_iff_odd_drop_bit)
  then have "unat (drop_bit i v) \<noteq> 0" by (simp only: unat_eq_0 not_False_eq_True)
  then have "drop_bit i (unat v) \<noteq> 0" by (simp only: unat_drop_bit_eq not_False_eq_True)
  then have "unat v div 2 ^ i \<noteq> 0" by (simp only: drop_bit_eq_div not_False_eq_True)
  then show "2 ^ nat (prs_bitops_hsb v) \<le> unat v" using hsb by (simp add: div_eq_0_iff)
  have "take_bit (Suc i) v = v"
    by (rule bit_word_eqI) (metis bit_take_bit_iff i(3) less_Suc_eq_le not_less)
  then have "unat v = take_bit (Suc i) (unat v)" by (metis unsigned_take_bit_eq)
  then show "unat v < 2 ^ Suc (nat (prs_bitops_hsb v))"
    using hsb by (metis nat_int take_bit_nat_less_exp)
qed

lemma lsb_bit:
  assumes "(v :: 'a::len word) \<noteq> 0"
  obtains i where "prs_bitops_lsb v = int i" "i < LENGTH('a)" "bit v i" "\<forall>j < i. \<not> bit v j"
proof -
  obtain i where i: "i < LENGTH('a)" "bit v i" "\<forall>j < i. \<not> bit v j"
    using assms by (rule word_has_lowest_bit)
  then show thesis using that prs_bitops_lsb_char by blast
qed

section \<open>Powers of two and alignment\<close>

lemma is_power_of_2_iff:
  "prs_bitops_is_power_of_2 v \<longleftrightarrow> (\<exists>k < 64. v = push_bit k 1)"
proof
  assume l: "prs_bitops_is_power_of_2 v"
  then have nz: "v \<noteq> 0" and and0: "v AND (v - 1) = 0"
    by (simp_all add: prs_bitops_is_power_of_2_def)
  obtain i where i: "i < 64" "bit v i" "\<forall>j. i < j \<longrightarrow> \<not> bit v j"
    using nz by (rule word_has_highest_bit) simp
  have "v = push_bit i 1"
  proof (rule ccontr)
    assume ne: "v \<noteq> push_bit i 1"
    have le: "2 ^ i \<le> unat v" and lt: "unat v < 2 ^ Suc i"
      using hsb_bounds(3,4) [OF nz] prs_bitops_hsb_char [of i v] i by simp_all
    have "unat (push_bit i (1 :: u64)) = 2 ^ i"
      using i(1) by simp
    then have gt: "2 ^ i < unat v" using ne le by (metis word_eq_iff_unat le_neq_implies_less)
    then have um: "unat (v - 1) = unat v - 1" by (simp add: unat_minus_one nz)
    have "unat (v - 1) div 2 ^ i = 1"
      using gt lt um by (intro div_nat_eqI) simp_all
    then have "bit (unat (v - 1)) i" by (simp add: bit_iff_odd)
    then have "bit (v - 1) i" by (simp add: bit_unsigned_iff)
    with i(2) have "bit (v AND (v - 1)) i" by (simp add: bit_and_iff)
    then show False using and0 by simp
  qed
  then show "\<exists>k < 64. v = push_bit k 1" using i(1) by blast
next
  assume "\<exists>k < 64. v = push_bit k 1"
  then obtain k where k: "k < 64" "v = push_bit k 1" by blast
  then have v: "v = 2 ^ k" by simp
  have "v - 1 = mask k" using v by (simp add: mask_eq_exp_minus_1)
  then have "v AND (v - 1) = 0"
    unfolding k(2) by (auto intro!: bit_word_eqI simp: bit_simps)
  moreover have "unat v = 2 ^ k" using k(1) v by simp
  then have "v \<noteq> 0" by (metis power_not_zero unat_0 zero_neq_numeral)
  ultimately show "prs_bitops_is_power_of_2 v" by (simp add: prs_bitops_is_power_of_2_def)
qed

lemma unat_align_size:
  assumes "unat align = 2 ^ k" and "unat sz + 2 ^ k \<le> 2 ^ 64"
  shows "unat (prs_bitops_align_size sz align) = (unat sz + (2 ^ k - 1)) div 2 ^ k * 2 ^ k"
proof -
  let ?s = "sz + mask k :: u64"
  have "(2 :: nat) ^ k < 2 ^ 64"
    using unsigned_less [of align, where ?'a = nat] assms(1) by simp
  then have k: "k < 64" by (rule power_less_imp_less_exp [rotated]) simp
  have m: "align - 1 = mask k" using assms(1) by (rule power2_minus_one_mask)
  have um: "unat (mask k :: u64) = 2 ^ k - 1"
    using k assms(1) m by (metis unat_minus_one power_not_zero unat_0 zero_neq_numeral)
  have us: "unat ?s = unat sz + (2 ^ k - 1)"
  proof -
    have "unat sz + (2 ^ k - 1) < 2 ^ 64" using assms(2) by simp
    then show ?thesis using um by (subst unat_add_no_wrap) simp_all
  qed
  have "?s AND NOT (mask k) = push_bit k (drop_bit k ?s)"
    by (rule bit_word_eqI) (auto simp: bit_simps)
  then have "unat (?s AND NOT (mask k)) = unat (push_bit k (drop_bit k ?s))" by simp
  also have "\<dots> = unat (drop_bit k ?s) * 2 ^ k"
  proof (rule unat_push_bit_small [where n = "64 - k"])
    have "unat ?s < 2 ^ k * 2 ^ (64 - k)"
      using unsigned_less [of ?s, where ?'a = nat] k by (simp flip: power_add)
    then have "unat ?s div 2 ^ k < 2 ^ (64 - k)"
      by (simp add: less_mult_imp_div_less mult.commute)
    then show "unat (drop_bit k ?s) < 2 ^ (64 - k)"
      by (simp only: unat_drop_bit_eq) (simp only: drop_bit_eq_div)
  qed (use k in simp)
  also have "unat (drop_bit k ?s) = unat ?s div 2 ^ k"
    by (simp only: unat_drop_bit_eq) (simp only: drop_bit_eq_div)
  finally show ?thesis
    using us by (simp add: prs_bitops_align_size_def m Let_def)
qed

text \<open>The aligned size is the least multiple of the alignment that is at least the size.\<close>

lemma align_size_least:
  assumes "unat align = 2 ^ k" and "unat sz + 2 ^ k \<le> 2 ^ 64"
  shows "unat align dvd unat (prs_bitops_align_size sz align)"
    and "unat sz \<le> unat (prs_bitops_align_size sz align)"
    and "\<And>m. unat align dvd m \<Longrightarrow> unat sz \<le> m \<Longrightarrow> unat (prs_bitops_align_size sz align) \<le> m"
proof -
  let ?a = "unat (prs_bitops_align_size sz align)"
  have a: "?a = (unat sz + (2 ^ k - 1)) div 2 ^ k * 2 ^ k"
    using assms by (rule unat_align_size)
  have split: "unat sz + (2 ^ k - 1) = ?a + (unat sz + (2 ^ k - 1)) mod 2 ^ k"
    using a by (simp add: div_mult_mod_eq)
  have "(unat sz + (2 ^ k - 1)) mod 2 ^ k < 2 ^ k" by simp
  then have lt: "unat sz + (2 ^ k - 1) < ?a + 2 ^ k" using split by linarith
  have pos: "(1 :: nat) \<le> 2 ^ k" by simp
  show "unat align dvd ?a" using a assms(1) by simp
  show "unat sz \<le> ?a" using lt pos by linarith
  fix m assume "unat align dvd m" and ge: "unat sz \<le> m"
  then obtain q where q: "m = 2 ^ k * q" using assms(1) by (auto elim: dvdE)
  have "(unat sz + (2 ^ k - 1)) div 2 ^ k \<le> (q * 2 ^ k + (2 ^ k - 1)) div 2 ^ k"
    by (rule div_le_mono) (use ge q in \<open>simp add: mult.commute\<close>)
  also have "\<dots> = q" by (subst div_mult_self3) simp_all
  finally show "?a \<le> m" using a q by (simp add: mult.commute)
qed

text \<open>Smearing the highest bit downwards, stage by stage: after a shift by \<open>n\<close> every bit sees a
  window of twice the width.\<close>

lemma smear_stage:
  assumes "\<And>i. bit (s :: u64) i \<longleftrightarrow> (\<exists>j. i \<le> j \<and> j < i + n \<and> bit w j)"
  shows "bit (s OR drop_bit n s) i \<longleftrightarrow> (\<exists>j. i \<le> j \<and> j < i + 2 * n \<and> bit w j)"
proof -
  have "bit (s OR drop_bit n s) i \<longleftrightarrow> bit s i \<or> bit s (n + i)"
    by (simp add: bit_or_iff bit_drop_bit_eq)
  also have "\<dots> \<longleftrightarrow> (\<exists>j. i \<le> j \<and> j < i + 2 * n \<and> bit w j)"
  proof
    assume "bit s i \<or> bit s (n + i)"
    then show "\<exists>j. i \<le> j \<and> j < i + 2 * n \<and> bit w j"
      unfolding assms
      by (metis (no_types) add.assoc add.commute le_add2 le_trans less_le_trans mult_2 nat_add_left_cancel_le)
  next
    assume "\<exists>j. i \<le> j \<and> j < i + 2 * n \<and> bit w j"
    then obtain j where "i \<le> j" "j < i + 2 * n" "bit w j" by blast
    then show "bit s i \<or> bit s (n + i)"
      unfolding assms by (cases "j < i + n") auto
  qed
  finally show ?thesis .
qed

definition smear :: "u64 \<Rightarrow> u64" where
  "smear v =
     (let v = v OR drop_bit 1 v; v = v OR drop_bit 2 v; v = v OR drop_bit 4 v;
          v = v OR drop_bit 8 v; v = v OR drop_bit 16 v in v OR drop_bit 32 v)"

lemma bit_smear: "bit (smear w) i \<longleftrightarrow> (\<exists>j \<ge> i. bit w j)"
proof -
  have "\<And>i. bit w i \<longleftrightarrow> (\<exists>j. i \<le> j \<and> j < i + 1 \<and> bit w j)"
    by (metis less_add_one less_Suc_eq_le add.commute le_antisym order_refl plus_1_eq_Suc)
  note s1 = smear_stage [OF this]
  note s2 = smear_stage [OF s1]
  note s4 = smear_stage [OF s2]
  note s8 = smear_stage [OF s4]
  note s16 = smear_stage [OF s8]
  note s32 = smear_stage [OF s16]
  have "bit (smear w) i \<longleftrightarrow> (\<exists>j \<ge> i. j < i + 64 \<and> bit w j)"
    using s32 [of i] by (simp add: smear_def Let_def)
  also have "\<dots> \<longleftrightarrow> (\<exists>j \<ge> i. bit w j)"
    using bit_imp_le_length [of w] by (auto, fastforce)
  finally show ?thesis .
qed

lemma next_power_of_2_correct:
  assumes "1 < v" and "v \<le> push_bit 63 1"
  shows "\<exists>k. 0 < k \<and> k \<le> 63 \<and> unat (prs_bitops_next_power_of_2 v) = 2 ^ k
      \<and> unat v \<le> 2 ^ k \<and> 2 ^ (k - 1) < unat v"
proof -
  let ?w = "v - 1"
  have uv: "1 < unat v" "unat v \<le> 2 ^ 63"
    using assms by (simp_all add: word_less_nat_alt word_le_nat_alt)
  then have uw: "unat ?w = unat v - 1" by (simp add: unat_minus_one word_eq_iff_unat)
  then have wnz: "?w \<noteq> 0" using uv by auto
  obtain i where i: "i < 64" "bit ?w i" "\<forall>j. i < j \<longrightarrow> \<not> bit ?w j"
    using wnz by (rule word_has_highest_bit) simp
  have bounds: "2 ^ i \<le> unat ?w" "unat ?w < 2 ^ Suc i"
    using hsb_bounds(3,4) [OF wnz] prs_bitops_hsb_char [of i ?w] i by simp_all
  have "2 ^ i < (2 :: nat) ^ 63" using bounds(1) uv uw by linarith
  then have i63: "i < 63" by (rule power_less_imp_less_exp [rotated]) simp
  have "smear ?w = mask (Suc i)"
  proof (rule bit_word_eqI)
    fix n assume "n < LENGTH(64)"
    moreover have "(\<exists>j \<ge> n. bit ?w j) \<longleftrightarrow> n < Suc i"
      using i(2,3) by (metis less_Suc_eq_le not_less order.trans)
    ultimately show "bit (smear ?w) n \<longleftrightarrow> bit (mask (Suc i) :: u64) n"
      by (simp add: bit_smear bit_mask_iff)
  qed
  then have "prs_bitops_next_power_of_2 v = 2 ^ Suc i"
    by (simp add: prs_bitops_next_power_of_2_def smear_def Let_def mask_eq_exp_minus_1)
  then have "unat (prs_bitops_next_power_of_2 v) = 2 ^ Suc i"
    using i63 unat_two_power [where ?'a = 64 and k = "Suc i"] by simp
  then show ?thesis
    using bounds uw uv i63 by (intro exI [of _ "Suc i"]) auto
qed

section \<open>Properties\<close>

text \<open>C4: The portable loop for the highest set bit agrees with the GCC version on every word of
  every width; the portable loop for the lowest set bit agrees except on the word in which only the
  top bit is set, where it reports that no bit is set.\<close>

theorem bitops_portable_searches:
  "PRS_BITOPS_HSB (v :: 'a::len word) = prs_bitops_hsb v
   \<and> PRS_BITOPS_LSB v = (if v = push_bit (LENGTH('a) - 1) 1 then -1 else prs_bitops_lsb v)"
  by (simp only: hsb_gcc_portable lsb_portable_misses_top_bit)

text \<open>prs_bitops_align_size returns the least multiple of a power-of-two alignment that is not
  below the size, and prs_bitops_next_power_of_2 the least power of two that is not below its
  argument, which prs_bitops_is_power_of_2 accepts, as long as the result fits in 64 bits.\<close>

theorem bitops_rounding:
  assumes "unat align = 2 ^ k" and "unat sz + 2 ^ k \<le> 2 ^ 64" and "1 < v" and "v \<le> push_bit 63 1"
  shows "unat (prs_bitops_align_size sz align) = (LEAST m. unat align dvd m \<and> unat sz \<le> m)
    \<and> (\<exists>j \<le> 63. prs_bitops_next_power_of_2 v = push_bit j 1 \<and> unat v \<le> 2 ^ j \<and> 2 ^ j < 2 * unat v)
    \<and> prs_bitops_is_power_of_2 (prs_bitops_next_power_of_2 v)"
proof -
  have "unat (prs_bitops_align_size sz align) = (LEAST m. unat align dvd m \<and> unat sz \<le> m)"
    using align_size_least [OF assms(1,2)] by (intro Least_equality [symmetric]) blast+
  moreover obtain j where j: "0 < j" "j \<le> 63" "unat (prs_bitops_next_power_of_2 v) = 2 ^ j"
      "unat v \<le> 2 ^ j" "2 ^ (j - 1) < unat v"
    using next_power_of_2_correct [OF assms(3,4)] by blast
  moreover have "prs_bitops_next_power_of_2 v = push_bit j 1"
    using j(2,3) by (simp add: word_eq_iff_unat)
  moreover have "2 ^ j < 2 * unat v"
    using j(1,5) by (cases j) simp_all
  moreover have "j < 64" using j(2) by simp
  ultimately show ?thesis using is_power_of_2_iff by blast
qed

theorem bitops_rounding_witness:
  "unat (prs_bitops_align_size 13 8) = (LEAST m. 8 dvd m \<and> 13 \<le> m)
    \<and> prs_bitops_is_power_of_2 (prs_bitops_next_power_of_2 5)"
  using bitops_rounding [of 8 3 13 5] by simp

end
