(* ===== verification/Pool.thy ===== *)
theory Pool
  imports Refdir Bitops
begin

text \<open>
  The lock-free pool of \<^verbatim>\<open>prs/lib/ds/pool.c\<close>: a fixed array of entries whose 64-bit header packs an
  allocation bit, an 11-bit reference count and a 52-bit ID. An operation on an ID works on the entry
  at index \<open>id & max_entries_mask\<close>. The payload of an entry is a type parameter. The model is
  the configuration with \<^verbatim>\<open>PRS_RUN_TIME_CHECKING\<close> (as \<^verbatim>\<open>config.h\<close> sets it) and without assertions;
  the log lines of the run-time checks are not modelled. The invariant \<open>pool_wf\<close> says which IDs
  an entry may carry, and \<open>pool_view\<close> abstracts a pool to the finite map from live IDs to
  reference counts, which every operation refines.
\<close>

section \<open>The header word\<close>

definition PRS_POOL_REFCNT_SHIFT :: nat where
  "PRS_POOL_REFCNT_SHIFT = 52"

definition PRS_POOL_REFCNT_BITS :: nat where
  "PRS_POOL_REFCNT_BITS = 11"

definition PRS_POOL_REFCNT_INC :: u64 where
  "PRS_POOL_REFCNT_INC = push_bit PRS_POOL_REFCNT_SHIFT 1"

definition PRS_POOL_REFCNT_MASK :: u64 where
  "PRS_POOL_REFCNT_MASK = push_bit PRS_POOL_REFCNT_SHIFT (push_bit PRS_POOL_REFCNT_BITS 1 - 1)"

definition PRS_POOL_ALLOC_SHIFT :: nat where
  "PRS_POOL_ALLOC_SHIFT = PRS_POOL_REFCNT_SHIFT + PRS_POOL_REFCNT_BITS"

definition PRS_POOL_ALLOC_MASK :: u64 where
  "PRS_POOL_ALLOC_MASK = push_bit PRS_POOL_ALLOC_SHIFT 1"

definition PRS_POOL_ID_MASK :: u64 where
  "PRS_POOL_ID_MASK = PRS_POOL_REFCNT_INC - 1"

definition PRS_POOL_ID_INVALID :: u64 where
  "PRS_POOL_ID_INVALID = -1"

definition PRS_POOL_GET_ID :: "u64 \<Rightarrow> u64" where
  "PRS_POOL_GET_ID header = header AND PRS_POOL_ID_MASK"

definition PRS_POOL_TEST_REFCNT :: "u64 \<Rightarrow> u64" where
  "PRS_POOL_TEST_REFCNT header = header AND PRS_POOL_REFCNT_MASK"

definition PRS_POOL_GET_REFCNT :: "u64 \<Rightarrow> u64" where
  "PRS_POOL_GET_REFCNT header = drop_bit PRS_POOL_REFCNT_SHIFT (PRS_POOL_TEST_REFCNT header)"

definition PRS_POOL_TEST_ALLOC :: "u64 \<Rightarrow> u64" where
  "PRS_POOL_TEST_ALLOC header = header AND PRS_POOL_ALLOC_MASK"

lemmas pool_const_defs =
  PRS_POOL_REFCNT_SHIFT_def PRS_POOL_REFCNT_BITS_def PRS_POOL_REFCNT_INC_def
  PRS_POOL_REFCNT_MASK_def PRS_POOL_ALLOC_SHIFT_def PRS_POOL_ALLOC_MASK_def
  PRS_POOL_ID_MASK_def PRS_POOL_ID_INVALID_def

lemmas pool_macro_defs =
  PRS_POOL_GET_ID_def PRS_POOL_TEST_REFCNT_def PRS_POOL_GET_REFCNT_def PRS_POOL_TEST_ALLOC_def

section \<open>Data\<close>

record 'd prs_pool_entry =
  pe_header :: u64
  pe_data :: 'd

record 'd prs_pool =
  pool_addr :: ptr
  pool_area :: "ptr option"
  pool_entries_addr :: ptr
  pool_entries :: "'d prs_pool_entry list"
  pool_data_size :: u64
  pool_entry_size :: u64
  pool_max_entries :: u64
  pool_max_entries_mask :: u64
  pool_write_index :: u64

record prs_pool_create_params =
  pp_max_entries :: u64
  pp_data_size :: u64
  pp_area :: "ptr option"

text \<open>Layout on amd64: \<^verbatim>\<open>offsetof(struct prs_pool_entry, data)\<close> and \<^verbatim>\<open>sizeof(struct prs_pool)\<close>.\<close>

definition pool_data_offset :: u64 where
  "pool_data_offset = 8"

definition pool_sizeof :: u64 where
  "pool_sizeof = 56"

definition prs_pool_get_entry :: "'d prs_pool \<Rightarrow> u64 \<Rightarrow> nat" where
  "prs_pool_get_entry pool pid = unat (pid AND pool_max_entries_mask pool)"

definition pool_entry_addr :: "'d prs_pool \<Rightarrow> nat \<Rightarrow> ptr" where
  "pool_entry_addr pool index = pool_entries_addr pool + word_of_nat index * pool_entry_size pool"

definition pool_data_ptr :: "'d prs_pool \<Rightarrow> nat \<Rightarrow> ptr" where
  "pool_data_ptr pool index = pool_entry_addr pool index + pool_data_offset"

definition pool_header :: "'d prs_pool \<Rightarrow> nat \<Rightarrow> u64" where
  "pool_header pool index = pe_header (pool_entries pool ! index)"

definition pool_set_header :: "'d prs_pool \<Rightarrow> nat \<Rightarrow> u64 \<Rightarrow> 'd prs_pool" where
  "pool_set_header pool index h =
     pool\<lparr>pool_entries := (pool_entries pool)[index := (pool_entries pool ! index)\<lparr>pe_header := h\<rparr>]\<rparr>"

definition pool_set_data :: "'d prs_pool \<Rightarrow> nat \<Rightarrow> 'd \<Rightarrow> 'd prs_pool" where
  "pool_set_data pool index d =
     pool\<lparr>pool_entries := (pool_entries pool)[index := (pool_entries pool ! index)\<lparr>pe_data := d\<rparr>]\<rparr>"

section \<open>Creation and destruction\<close>

definition prs_pool_struct_size :: "prs_pool_create_params \<Rightarrow> u64" where
  "prs_pool_struct_size params =
     (let entry_size = pp_data_size params + pool_data_offset
      in pool_sizeof + entry_size * pp_max_entries params)"

text \<open>\<open>pool_mem\<close> and \<open>entries_mem\<close> are what the two calls of \<^verbatim>\<open>prs_pal_malloc_zero\<close> return;
  \<open>initial\<close> is the contents of the entry array: zeroed memory, or what the caller's area holds.
  The result is the pool or null, and the pointers that the cleanup frees.\<close>

definition prs_pool_create ::
  "prs_pool_create_params \<Rightarrow> 'd prs_pool_entry list \<Rightarrow> ptr option \<Rightarrow> ptr option
    \<Rightarrow> 'd prs_pool option \<times> ptr list" where
  "prs_pool_create params initial pool_mem entries_mem =
     (let entry_size = pp_data_size params + pool_data_offset;
          fill = (\<lambda>addr area entries_addr.
            (let pool = \<lparr>pool_addr = addr, pool_area = area, pool_entries_addr = entries_addr,
                   pool_entries = initial, pool_data_size = pp_data_size params,
                   pool_entry_size = entry_size, pool_max_entries = pp_max_entries params,
                   pool_max_entries_mask = pp_max_entries params - 1, pool_write_index = 1\<rparr>
             in pool_set_header pool (prs_pool_get_entry pool 0) PRS_POOL_ALLOC_MASK))
      in case pp_area params of
           Some area \<Rightarrow> (Some (fill area (Some area) (area + pool_sizeof)), [])
         | None \<Rightarrow>
             (case pool_mem of
                None \<Rightarrow> (None, [])
              | Some addr \<Rightarrow>
                  (case entries_mem of
                     None \<Rightarrow> (None, [addr])
                   | Some entries_addr \<Rightarrow> (Some (fill addr None entries_addr), []))))"

text \<open>The pointers passed to \<^verbatim>\<open>prs_pal_free\<close>.\<close>

definition prs_pool_destroy :: "'d prs_pool \<Rightarrow> ptr list" where
  "prs_pool_destroy pool =
     (case pool_area pool of None \<Rightarrow> [pool_entries_addr pool, pool_addr pool] | Some _ \<Rightarrow> [])"

section \<open>Allocation\<close>

definition prs_pool_alloc_body :: "u64 \<Rightarrow> u64 \<Rightarrow> (u64, unit) cas_body" where
  "prs_pool_alloc_body i header =
     (if PRS_POOL_TEST_ALLOC header \<noteq> 0 then Give ()
      else if PRS_POOL_GET_ID header = i then Give ()
      else Swap (PRS_POOL_ALLOC_MASK OR (i AND PRS_POOL_ID_MASK)) ())"

function prs_pool_alloc_loop :: "'d prs_pool \<Rightarrow> u64 \<Rightarrow> u64 \<Rightarrow> 'd prs_pool \<times> ptr option \<times> u64" where
  "prs_pool_alloc_loop pool i lim =
     (if i < lim then
        (let entry = prs_pool_get_entry pool i
         in case prs_pool_alloc_body i (pool_header pool entry) of
              Give _ \<Rightarrow> prs_pool_alloc_loop pool (i + 1) lim
            | Swap new_header _ \<Rightarrow>
                ((pool_set_header pool entry new_header)\<lparr>pool_write_index := i + 1\<rparr>,
                 Some (pool_data_ptr pool entry), i))
      else (pool, None, PRS_POOL_ID_INVALID))"
  by pat_completeness auto
termination
proof (relation "measure (\<lambda>(pool, i, lim). unat lim - unat i)", goal_cases)
  case (2 pool i lim entry x)
  then have "unat i < unat lim" by (simp add: word_less_nat_alt)
  moreover have "unat (i + 1) = unat i + 1" using 2(1) by (rule unat_add_one_less)
  ultimately show ?case by simp
qed simp

declare prs_pool_alloc_loop.simps [simp del]

definition prs_pool_alloc :: "'d prs_pool \<Rightarrow> 'd prs_pool \<times> ptr option \<times> u64" where
  "prs_pool_alloc pool =
     (let write_index = pool_write_index pool;
          lim = write_index + pool_max_entries pool
      in prs_pool_alloc_loop pool write_index lim)"

definition prs_pool_free :: "'d prs_pool \<Rightarrow> u64 \<Rightarrow> 'd prs_pool" where
  "prs_pool_free pool pid =
     (let entry = prs_pool_get_entry pool pid; header = pool_header pool entry
      in if \<not> PRS_POOL_TEST_ALLOC header \<noteq> 0 then pool
         else if PRS_POOL_TEST_REFCNT header \<noteq> 0 then pool
         else pool_set_header pool entry pid)"

definition prs_pool_lock_first :: "'d prs_pool \<Rightarrow> u64 \<Rightarrow> 'd prs_pool" where
  "prs_pool_lock_first pool pid =
     (let entry = prs_pool_get_entry pool pid; header = pool_header pool entry
      in if PRS_POOL_GET_ID header \<noteq> pid then pool
         else if \<not> PRS_POOL_TEST_ALLOC header \<noteq> 0 then pool
         else if PRS_POOL_TEST_REFCNT header \<noteq> 0 then pool
         else pool_set_header pool entry (PRS_POOL_REFCNT_INC OR header))"

definition prs_pool_alloc_and_lock :: "'d prs_pool \<Rightarrow> 'd \<Rightarrow> 'd prs_pool \<times> ptr option \<times> u64" where
  "prs_pool_alloc_and_lock pool data =
     (case prs_pool_alloc pool of
        (pool', None, pid) \<Rightarrow> (pool', None, pid)
      | (pool', Some result, pid) \<Rightarrow>
          (let pool'' = pool_set_data pool' (prs_pool_get_entry pool' pid) data
           in (prs_pool_lock_first pool'' pid, Some result, pid)))"

section \<open>References\<close>

definition prs_pool_lock_body :: "u64 \<Rightarrow> u64 \<Rightarrow> (u64, bool) cas_body" where
  "prs_pool_lock_body pid header =
     (if PRS_POOL_GET_ID header \<noteq> pid then Give False
      else if \<not> PRS_POOL_TEST_ALLOC header \<noteq> 0 then Give False
      else if \<not> PRS_POOL_TEST_REFCNT header \<noteq> 0 then Give False
      else if PRS_POOL_TEST_REFCNT header = PRS_POOL_REFCNT_MASK then Give False
      else Swap (header + PRS_POOL_REFCNT_INC) True)"

definition prs_pool_lock :: "'d prs_pool \<Rightarrow> u64 \<Rightarrow> 'd prs_pool \<times> ptr option" where
  "prs_pool_lock pool pid =
     (if pid = PRS_POOL_ID_INVALID then (pool, None)
      else (let entry = prs_pool_get_entry pool pid
            in case cas_run (prs_pool_lock_body pid) (pool_header pool entry) of
                 (h, locked) \<Rightarrow>
                   if locked then (pool_set_header pool entry h, Some (pool_data_ptr pool entry))
                   else (pool, None)))"

text \<open>The result of the loop of \<^verbatim>\<open>prs_pool_unlock_internal\<close>: \<open>None\<close> for an early
  \<^verbatim>\<open>return PRS_FALSE\<close>, otherwise the value of \<open>last\<close>.\<close>

definition prs_pool_unlock_body :: "bool \<Rightarrow> bool \<Rightarrow> u64 \<Rightarrow> u64 \<Rightarrow> (u64, bool option) cas_body" where
  "prs_pool_unlock_body try_final has_destructor pid header =
     (if PRS_POOL_GET_ID header \<noteq> pid then Give None
      else if \<not> PRS_POOL_TEST_ALLOC header \<noteq> 0 then Give None
      else (let refcnt = PRS_POOL_TEST_REFCNT header
            in if \<not> refcnt \<noteq> 0 then Give None
               else (let is_last = (refcnt = PRS_POOL_REFCNT_INC)
                     in if try_final \<and> \<not> is_last then Give None
                        else (let new_header = header - PRS_POOL_REFCNT_INC;
                                  new_header = (if is_last \<and> \<not> has_destructor
                                    then new_header AND NOT PRS_POOL_ALLOC_MASK else new_header)
                              in Swap new_header (Some is_last)))))"

text \<open>The destructor is a function of the caller: it may write the entry's data and changes a
  world that does not contain the pool.\<close>

definition prs_pool_unlock_internal ::
  "'d prs_pool \<Rightarrow> 'w \<Rightarrow> u64 \<Rightarrow> bool \<Rightarrow> ('d \<Rightarrow> 'w \<Rightarrow> 'd \<times> 'w) option \<Rightarrow> 'd prs_pool \<times> 'w \<times> bool" where
  "prs_pool_unlock_internal pool w pid try_final destructor =
     (if pid = PRS_POOL_ID_INVALID then (pool, w, False)
      else (let entry = prs_pool_get_entry pool pid
            in case cas_run (prs_pool_unlock_body try_final (destructor \<noteq> None) pid) (pool_header pool entry) of
                 (_, None) \<Rightarrow> (pool, w, False)
               | (new_header, Some is_last) \<Rightarrow>
                   (let pool' = pool_set_header pool entry new_header
                    in case destructor of
                         Some d \<Rightarrow>
                           (if is_last then
                              (case d (pe_data (pool_entries pool' ! entry)) w of
                                 (data, w') \<Rightarrow>
                                   (pool_set_header (pool_set_data pool' entry data) entry
                                      (new_header AND PRS_POOL_ID_MASK), w', is_last))
                            else (pool', w, is_last))
                       | None \<Rightarrow> (pool', w, is_last))))"

definition prs_pool_unlock :: "'d prs_pool \<Rightarrow> u64 \<Rightarrow> 'd prs_pool \<times> bool" where
  "prs_pool_unlock pool pid =
     (case prs_pool_unlock_internal pool () pid False None of (pool', _, r) \<Rightarrow> (pool', r))"

definition prs_pool_try_unlock_final :: "'d prs_pool \<Rightarrow> u64 \<Rightarrow> 'd prs_pool \<times> bool" where
  "prs_pool_try_unlock_final pool pid =
     (case prs_pool_unlock_internal pool () pid True None of (pool', _, r) \<Rightarrow> (pool', r))"

definition prs_pool_unlock_dest ::
  "'d prs_pool \<Rightarrow> 'w \<Rightarrow> u64 \<Rightarrow> ('d \<Rightarrow> 'w \<Rightarrow> 'd \<times> 'w) \<Rightarrow> 'd prs_pool \<times> 'w \<times> bool" where
  "prs_pool_unlock_dest pool w pid destructor =
     prs_pool_unlock_internal pool w pid False (Some destructor)"

definition prs_pool_try_unlock_final_dest ::
  "'d prs_pool \<Rightarrow> 'w \<Rightarrow> u64 \<Rightarrow> ('d \<Rightarrow> 'w \<Rightarrow> 'd \<times> 'w) \<Rightarrow> 'd prs_pool \<times> 'w \<times> bool" where
  "prs_pool_try_unlock_final_dest pool w pid destructor =
     prs_pool_unlock_internal pool w pid True (Some destructor)"

section \<open>From data pointers back to IDs\<close>

definition prs_pool_data_to_entry :: "ptr \<Rightarrow> ptr" where
  "prs_pool_data_to_entry data = data - pool_data_offset"

definition prs_pool_get_id :: "'d prs_pool \<Rightarrow> ptr \<Rightarrow> u64" where
  "prs_pool_get_id pool data =
     (let entry = prs_pool_data_to_entry data;
          diff = entry - pool_entries_addr pool;
          index = diff div pool_entry_size pool;
          header = pool_header pool (unat index)
      in PRS_POOL_GET_ID header)"

section \<open>Reading headers\<close>

text \<open>The three fields of a header as numbers.\<close>

definition hdr_id :: "u64 \<Rightarrow> nat" where
  "hdr_id h = unat h mod 2 ^ 52"

definition hdr_refs :: "u64 \<Rightarrow> nat" where
  "hdr_refs h = unat h div 2 ^ 52 mod 2 ^ 11"

definition hdr_alloc :: "u64 \<Rightarrow> bool" where
  "hdr_alloc h \<longleftrightarrow> 2 ^ 63 \<le> unat h"

lemma pool_const_values [prs_consts]:
  "PRS_POOL_REFCNT_INC = 2 ^ 52"
  "PRS_POOL_REFCNT_MASK = push_bit 52 (mask 11)"
  "PRS_POOL_ALLOC_MASK = 2 ^ 63"
  "PRS_POOL_ID_MASK = mask 52"
  by (simp_all add: pool_const_defs mask_eq_exp_minus_1)

lemma unat_GET_ID [prs_bits]: "unat (PRS_POOL_GET_ID h) = hdr_id h"
  by (simp only: PRS_POOL_GET_ID_def pool_const_values unat_and_mask_eq hdr_id_def)

lemma unat_TEST_REFCNT [prs_bits]: "unat (PRS_POOL_TEST_REFCNT h) = hdr_refs h * 2 ^ 52"
  unfolding PRS_POOL_TEST_REFCNT_def pool_const_values hdr_refs_def
  by (rule unat_and_shifted_mask) simp

lemma TEST_REFCNT_eq_0 [simp]: "PRS_POOL_TEST_REFCNT h = 0 \<longleftrightarrow> hdr_refs h = 0"
  by (simp add: word_eq_iff_unat unat_TEST_REFCNT)

lemma TEST_ALLOC_eq_0 [simp]: "PRS_POOL_TEST_ALLOC h = 0 \<longleftrightarrow> \<not> hdr_alloc h"
proof -
  have "unat (h AND push_bit 63 (mask 1)) = (unat h div 2 ^ 63 mod 2 ^ 1) * 2 ^ 63"
    by (rule unat_and_shifted_mask) simp
  moreover have "PRS_POOL_TEST_ALLOC h = h AND push_bit 63 (mask 1)"
    by (simp add: PRS_POOL_TEST_ALLOC_def pool_const_values mask_eq_exp_minus_1)
  moreover have "unat h div 2 ^ 63 < 2"
    using unsigned_less [of h, where ?'a = nat] by simp
  ultimately show ?thesis
    by (simp add: word_eq_iff_unat hdr_alloc_def not_le div_eq_0_iff)
qed

lemma GET_ID_eq_iff [simp]:
  "PRS_POOL_GET_ID h = i \<longleftrightarrow> hdr_id h = unat i"
  by (simp add: word_eq_iff_unat unat_GET_ID)

lemma TEST_REFCNT_eq_MASK [simp]: "PRS_POOL_TEST_REFCNT h = PRS_POOL_REFCNT_MASK \<longleftrightarrow> hdr_refs h = 2047"
proof -
  have "unat PRS_POOL_REFCNT_MASK = 2047 * 2 ^ 52" by (simp add: pool_const_defs)
  then show ?thesis by (simp add: word_eq_iff_unat unat_TEST_REFCNT)
qed

lemma TEST_REFCNT_eq_INC [simp]: "PRS_POOL_TEST_REFCNT h = PRS_POOL_REFCNT_INC \<longleftrightarrow> hdr_refs h = 1"
proof -
  have "unat PRS_POOL_REFCNT_INC = 2 ^ 52" by (simp add: pool_const_defs)
  then show ?thesis by (simp add: word_eq_iff_unat unat_TEST_REFCNT)
qed

text \<open>A header is determined by its fields.\<close>

lemma unat_header:
  "unat h = (if hdr_alloc h then 2 ^ 63 else 0) + hdr_refs h * 2 ^ 52 + hdr_id h"
proof -
  have lt: "unat h < 2 ^ 64" using unsigned_less [of h, where ?'a = nat] by simp
  let ?q = "unat h div 2 ^ 52"
  have q: "unat h = ?q * 2 ^ 52 + hdr_id h"
    unfolding hdr_id_def by (rule div_mult_mod_eq [symmetric])
  have q2: "?q = ?q div 2 ^ 11 * 2 ^ 11 + hdr_refs h"
    unfolding hdr_refs_def by (rule div_mult_mod_eq [symmetric])
  have q3: "?q div 2 ^ 11 = unat h div 2 ^ 63"
    by (simp add: div_mult2_eq [symmetric])
  have "unat h div 2 ^ 63 = (if hdr_alloc h then 1 else 0)"
    using lt by (auto simp: hdr_alloc_def div_nat_eqI)
  with q q2 q3 show ?thesis by (simp split: if_splits)
qed

lemma hdr_refs_less: "hdr_refs h < 2048"
  by (simp add: hdr_refs_def)

lemma hdr_id_less: "hdr_id h < 2 ^ 52"
  by (simp add: hdr_id_def)

lemma header_fields:
  assumes "unat h = (if a then 2 ^ 63 else 0) + r * 2 ^ 52 + i" and "r < 2048" and "i < 2 ^ 52"
  shows "hdr_alloc h = a" "hdr_refs h = r" "hdr_id h = i"
proof -
  have low: "r * 2 ^ 52 + i < 2 ^ 63"
    using assms(2,3) by simp
  have h: "unat h = ((if a then 2 ^ 11 else 0) + r) * 2 ^ 52 + i"
    using assms(1) by simp
  have q: "unat h div 2 ^ 52 = (if a then 2 ^ 11 else 0) + r"
    unfolding h using assms(3) by (subst div_mult_self3) (simp_all del: power_numeral)
  have "unat h mod 2 ^ 52 = i mod 2 ^ 52" unfolding h by (rule mod_mult_self3)
  then show "hdr_id h = i" using assms(3) by (simp add: hdr_id_def)
  show "hdr_refs h = r" unfolding hdr_refs_def q using assms(2) by simp
  show "hdr_alloc h = a" using low by (auto simp: hdr_alloc_def assms(1))
qed

text \<open>What the operations do to the fields.\<close>

lemma unat_ALLOC_MASK: "unat PRS_POOL_ALLOC_MASK = 2 ^ 63"
  by (simp add: pool_const_defs)

lemma unat_REFCNT_INC: "unat PRS_POOL_REFCNT_INC = 2 ^ 52"
  by (simp add: pool_const_defs)

lemma alloc_header_fields:
  fixes i :: u64
  defines "h \<equiv> PRS_POOL_ALLOC_MASK OR (i AND PRS_POOL_ID_MASK)"
  shows "hdr_alloc h" "hdr_refs h = 0" "hdr_id h = unat i mod 2 ^ 52"
proof -
  have "h = PRS_POOL_ALLOC_MASK + (i AND PRS_POOL_ID_MASK)"
    unfolding h_def pool_const_values
    by (rule disjunctive_add_eq_or [symmetric]) (rule bit_word_eqI, auto simp: bit_simps simp del: power_numeral)
  moreover have u: "unat (i AND PRS_POOL_ID_MASK) = unat i mod 2 ^ 52"
    unfolding pool_const_values by (rule unat_and_mask_eq)
  moreover have "unat i mod 2 ^ 52 < 2 ^ 52" by simp
  ultimately have "unat h = (if True then 2 ^ 63 else 0) + 0 * 2 ^ 52 + unat i mod 2 ^ 52"
    by (simp add: unat_add_no_wrap unat_ALLOC_MASK)
  from header_fields [OF this] show "hdr_alloc h" "hdr_refs h = 0" "hdr_id h = unat i mod 2 ^ 52"
    by simp_all
qed

lemma inc_header_fields:
  assumes "hdr_refs h < 2047"
  shows "hdr_alloc (h + PRS_POOL_REFCNT_INC) = hdr_alloc h"
    and "hdr_refs (h + PRS_POOL_REFCNT_INC) = hdr_refs h + 1"
    and "hdr_id (h + PRS_POOL_REFCNT_INC) = hdr_id h"
proof -
  have "unat h + 2 ^ 52 < 2 ^ 64"
    using assms hdr_id_less [of h] by (subst unat_header) simp
  then have "unat (h + PRS_POOL_REFCNT_INC) = unat h + 2 ^ 52"
    by (subst unat_add_no_wrap) (simp_all add: unat_REFCNT_INC)
  also have "\<dots> = (if hdr_alloc h then 2 ^ 63 else 0) + (hdr_refs h + 1) * 2 ^ 52 + hdr_id h"
    by (subst unat_header) simp
  finally have u: "unat (h + PRS_POOL_REFCNT_INC)
      = (if hdr_alloc h then 2 ^ 63 else 0) + (hdr_refs h + 1) * 2 ^ 52 + hdr_id h" .
  from header_fields [OF u _ hdr_id_less] assms show
    "hdr_alloc (h + PRS_POOL_REFCNT_INC) = hdr_alloc h"
    "hdr_refs (h + PRS_POOL_REFCNT_INC) = hdr_refs h + 1"
    "hdr_id (h + PRS_POOL_REFCNT_INC) = hdr_id h" by simp_all
qed

lemma first_header_eq:
  assumes "hdr_refs h = 0"
  shows "PRS_POOL_REFCNT_INC OR h = h + PRS_POOL_REFCNT_INC"
proof -
  have "push_bit 52 (take_bit 11 (drop_bit 52 h)) = 0"
    using assms TEST_REFCNT_eq_0 [of h]
    unfolding PRS_POOL_TEST_REFCNT_def pool_const_values and_shifted_mask_eq by blast
  then have "\<not> bit (push_bit 52 (take_bit 11 (drop_bit 52 h))) 52" by simp
  then have nb: "\<not> bit h 52" by (simp add: bit_simps)
  have "PRS_POOL_REFCNT_INC + h = PRS_POOL_REFCNT_INC OR h"
    unfolding pool_const_values
    by (rule disjunctive_add_eq_or) (rule bit_word_eqI, use nb in \<open>auto simp: bit_simps simp del: power_numeral\<close>)
  then show ?thesis by (simp add: add.commute)
qed

lemma dec_header_fields:
  assumes "0 < hdr_refs h"
  shows "hdr_alloc (h - PRS_POOL_REFCNT_INC) = hdr_alloc h"
    and "hdr_refs (h - PRS_POOL_REFCNT_INC) = hdr_refs h - 1"
    and "hdr_id (h - PRS_POOL_REFCNT_INC) = hdr_id h"
proof -
  have "2 ^ 52 \<le> unat h"
    using assms by (subst unat_header) simp
  then have "unat (h - PRS_POOL_REFCNT_INC) = unat h - 2 ^ 52"
    by (subst unat_minus_no_wrap) (simp_all add: unat_REFCNT_INC)
  also have "\<dots> = (if hdr_alloc h then 2 ^ 63 else 0) + (hdr_refs h - 1) * 2 ^ 52 + hdr_id h"
    using assms by (subst unat_header) (simp add: diff_mult_distrib)
  finally have u: "unat (h - PRS_POOL_REFCNT_INC)
      = (if hdr_alloc h then 2 ^ 63 else 0) + (hdr_refs h - 1) * 2 ^ 52 + hdr_id h" .
  have "hdr_refs h - 1 < 2048" using hdr_refs_less [of h] by simp
  from header_fields [OF u this hdr_id_less] show
    "hdr_alloc (h - PRS_POOL_REFCNT_INC) = hdr_alloc h"
    "hdr_refs (h - PRS_POOL_REFCNT_INC) = hdr_refs h - 1"
    "hdr_id (h - PRS_POOL_REFCNT_INC) = hdr_id h" by simp_all
qed

lemma clear_alloc_fields:
  shows "\<not> hdr_alloc (h AND NOT PRS_POOL_ALLOC_MASK)"
    and "hdr_refs (h AND NOT PRS_POOL_ALLOC_MASK) = hdr_refs h"
    and "hdr_id (h AND NOT PRS_POOL_ALLOC_MASK) = hdr_id h"
proof -
  have eq: "h AND NOT PRS_POOL_ALLOC_MASK = h AND mask 63"
    unfolding pool_const_values by (rule bit_word_eqI) (auto simp: bit_simps simp del: power_numeral)
  have "unat (h AND mask 63) = unat h mod 2 ^ 63" by (rule unat_and_mask_eq)
  also have "\<dots> = hdr_refs h * 2 ^ 52 + hdr_id h"
    using hdr_refs_less [of h] hdr_id_less [of h] by (subst unat_header) (simp add: add.assoc)
  finally have u: "unat (h AND NOT PRS_POOL_ALLOC_MASK)
      = (if False then 2 ^ 63 else 0) + hdr_refs h * 2 ^ 52 + hdr_id h"
    unfolding eq by simp
  from header_fields [OF u hdr_refs_less hdr_id_less] show
    "\<not> hdr_alloc (h AND NOT PRS_POOL_ALLOC_MASK)"
    "hdr_refs (h AND NOT PRS_POOL_ALLOC_MASK) = hdr_refs h"
    "hdr_id (h AND NOT PRS_POOL_ALLOC_MASK) = hdr_id h" by simp_all
qed

lemma id_header_fields:
  assumes "unat h < 2 ^ 52"
  shows "\<not> hdr_alloc h" "hdr_refs h = 0" "hdr_id h = unat h"
proof -
  have u: "unat h = (if False then 2 ^ 63 else 0) + 0 * 2 ^ 52 + unat h" by simp
  from header_fields [OF u _ assms] show "\<not> hdr_alloc h" "hdr_refs h = 0" "hdr_id h = unat h"
    by simp_all
qed

lemma mask_id_fields:
  shows "\<not> hdr_alloc (h AND PRS_POOL_ID_MASK)" "hdr_refs (h AND PRS_POOL_ID_MASK) = 0"
    "hdr_id (h AND PRS_POOL_ID_MASK) = hdr_id h"
proof -
  have "unat (h AND PRS_POOL_ID_MASK) = hdr_id h"
    using unat_GET_ID by (simp add: PRS_POOL_GET_ID_def)
  with hdr_id_less [of h] id_header_fields [of "h AND PRS_POOL_ID_MASK"] show
    "\<not> hdr_alloc (h AND PRS_POOL_ID_MASK)" "hdr_refs (h AND PRS_POOL_ID_MASK) = 0"
    "hdr_id (h AND PRS_POOL_ID_MASK) = hdr_id h" by simp_all
qed

lemmas header_field_simps =
  alloc_header_fields inc_header_fields dec_header_fields clear_alloc_fields mask_id_fields

section \<open>Well-formed pools\<close>

text \<open>
  An entry that is allocated, or was allocated before, carries an ID that selects its own index, and
  every ID is below the write index. References exist only on allocated entries, and entry 0 stays
  reserved from creation on.
\<close>

definition pool_wf :: "'d prs_pool \<Rightarrow> bool" where
  "pool_wf pool \<longleftrightarrow>
     (\<exists>k. 0 < k \<and> k < 52 \<and> unat (pool_max_entries pool) = 2 ^ k)
     \<and> pool_max_entries_mask pool = pool_max_entries pool - 1
     \<and> length (pool_entries pool) = unat (pool_max_entries pool)
     \<and> 0 < unat (pool_write_index pool)
     \<and> hdr_alloc (pool_header pool 0) \<and> hdr_refs (pool_header pool 0) = 0
     \<and> hdr_id (pool_header pool 0) = 0
     \<and> (\<forall>j < length (pool_entries pool).
          hdr_id (pool_header pool j) < unat (pool_write_index pool)
          \<and> (0 < hdr_refs (pool_header pool j) \<longrightarrow> hdr_alloc (pool_header pool j))
          \<and> (hdr_alloc (pool_header pool j) \<longrightarrow>
               hdr_id (pool_header pool j) mod length (pool_entries pool) = j))"

text \<open>There are still IDs: the write index stays clear of the 52 bits of an ID for one more round.\<close>

definition pool_ids_left :: "'d prs_pool \<Rightarrow> bool" where
  "pool_ids_left pool \<longleftrightarrow> unat (pool_write_index pool) + unat (pool_max_entries pool) \<le> 2 ^ 52"

text \<open>The abstraction: live IDs with their reference counts.\<close>

definition pool_view :: "'d prs_pool \<Rightarrow> u64 \<rightharpoonup> nat" where
  "pool_view pool pid =
     (let h = pool_header pool (prs_pool_get_entry pool pid)
      in if hdr_alloc h \<and> hdr_id h = unat pid then Some (hdr_refs h) else None)"

lemma prs_pool_get_entry_mod:
  assumes "pool_wf pool"
  shows "prs_pool_get_entry pool pid = unat pid mod length (pool_entries pool)"
proof -
  obtain k where k: "unat (pool_max_entries pool) = 2 ^ k"
    and m: "pool_max_entries_mask pool = pool_max_entries pool - 1"
    and l: "length (pool_entries pool) = unat (pool_max_entries pool)"
    using assms by (auto simp: pool_wf_def)
  have "pool_max_entries_mask pool = mask k" using m power2_minus_one_mask [OF k] by simp
  then show ?thesis using k l by (simp add: prs_pool_get_entry_def unat_and_mask_eq)
qed

lemma pool_wf_length:
  assumes "pool_wf pool"
  shows "1 < length (pool_entries pool)" "length (pool_entries pool) < 2 ^ 52"
proof -
  obtain k where k: "0 < k" "k < 52" "length (pool_entries pool) = 2 ^ k"
    using assms by (auto simp: pool_wf_def)
  then have "(2 :: nat) ^ 1 \<le> 2 ^ k" by (intro power_increasing) simp_all
  with k(3) show "1 < length (pool_entries pool)" by simp
  have "(2 :: nat) ^ k < 2 ^ 52" by (rule power_strict_increasing) (use k(2) in simp_all)
  with k(3) show "length (pool_entries pool) < 2 ^ 52" by simp
qed

lemma get_entry_less:
  "pool_wf pool \<Longrightarrow> prs_pool_get_entry pool pid < length (pool_entries pool)"
  using pool_wf_length(1) [of pool] by (simp add: prs_pool_get_entry_mod) (meson less_trans zero_less_Suc mod_less_divisor)

lemma pool_header_set_header:
  "i < length (pool_entries pool) \<Longrightarrow>
   pool_header (pool_set_header pool i h) j = (if j = i then h else pool_header pool j)"
  by (simp add: pool_header_def pool_set_header_def nth_list_update)

lemma pool_set_header_simps [simp]:
  "pool_max_entries (pool_set_header pool i h) = pool_max_entries pool"
  "pool_max_entries_mask (pool_set_header pool i h) = pool_max_entries_mask pool"
  "pool_write_index (pool_set_header pool i h) = pool_write_index pool"
  "length (pool_entries (pool_set_header pool i h)) = length (pool_entries pool)"
  "pool_entry_size (pool_set_header pool i h) = pool_entry_size pool"
  "pool_entries_addr (pool_set_header pool i h) = pool_entries_addr pool"
  "prs_pool_get_entry (pool_set_header pool i h) pid = prs_pool_get_entry pool pid"
  "pool_data_ptr (pool_set_header pool i h) j = pool_data_ptr pool j"
  by (simp_all add: pool_set_header_def prs_pool_get_entry_def pool_data_ptr_def pool_entry_addr_def)

lemma pool_set_data_simps [simp]:
  "pool_max_entries (pool_set_data pool i d) = pool_max_entries pool"
  "pool_max_entries_mask (pool_set_data pool i d) = pool_max_entries_mask pool"
  "pool_write_index (pool_set_data pool i d) = pool_write_index pool"
  "length (pool_entries (pool_set_data pool i d)) = length (pool_entries pool)"
  "prs_pool_get_entry (pool_set_data pool i d) pid = prs_pool_get_entry pool pid"
  "pool_header (pool_set_data pool i d) j = pool_header pool j"
  by (simp_all add: pool_set_data_def prs_pool_get_entry_def pool_header_def nth_list_update)
    (metis list_update_beyond not_le nth_list_update_eq nth_list_update_neq prs_pool_entry.simps(1)
      prs_pool_entry.surjective prs_pool_entry.update_convs(2))

lemma pool_wf_set_data [simp]: "pool_wf (pool_set_data pool i d) = pool_wf pool"
  by (simp add: pool_wf_def)

lemma pool_view_set_data [simp]: "pool_view (pool_set_data pool i d) = pool_view pool"
  by (rule ext) (simp add: pool_view_def)

text \<open>Replacing a header keeps a pool well-formed when the new header respects the rules of its
  index, and changes the view only at the ID that the entry carries.\<close>

lemma pool_wf_set_header [prs_inv]:
  assumes "pool_wf pool" and "i < length (pool_entries pool)" and "i \<noteq> 0"
    and "hdr_id h < unat (pool_write_index pool)"
    and "0 < hdr_refs h \<longrightarrow> hdr_alloc h"
    and "hdr_alloc h \<longrightarrow> hdr_id h mod length (pool_entries pool) = i"
  shows "pool_wf (pool_set_header pool i h)"
  using assms by (auto simp: pool_wf_def pool_header_set_header)

lemma pool_view_set_header:
  assumes "pool_wf pool" and "i < length (pool_entries pool)"
    and "hdr_id h mod length (pool_entries pool) = i"
    and "hdr_id h = hdr_id (pool_header pool i) \<or> \<not> hdr_alloc (pool_header pool i)"
  shows "pool_view (pool_set_header pool i h) =
    (pool_view pool)(word_of_nat (hdr_id h) := (if hdr_alloc h then Some (hdr_refs h) else None))"
proof (rule ext)
  fix pid :: u64
  have uid: "unat (word_of_nat (hdr_id h) :: u64) = hdr_id h"
    using hdr_id_less [of h] by (simp add: unat_of_nat)
  show "pool_view (pool_set_header pool i h) pid = ((pool_view pool)(word_of_nat (hdr_id h) :=
      (if hdr_alloc h then Some (hdr_refs h) else None))) pid"
  proof (cases "unat pid = hdr_id h")
    case True
    then have "pid = word_of_nat (hdr_id h)" using uid by (simp add: word_eq_iff_unat)
    then show ?thesis
      using assms True uid
      by (simp add: pool_view_def prs_pool_get_entry_mod pool_header_set_header Let_def)
  next
    case False
    then have "pid \<noteq> word_of_nat (hdr_id h)" using uid by auto
    then show ?thesis
      using assms False
      by (auto simp: pool_view_def pool_header_set_header Let_def)
  qed
qed

section \<open>Allocation\<close>

lemma alloc_body_cases:
  assumes "pool_wf pool" and "i < length (pool_entries pool)"
    and "unat (pool_write_index pool) \<le> unat j"
  shows "prs_pool_alloc_body j (pool_header pool i) =
    (if hdr_alloc (pool_header pool i) then Give ()
     else Swap (PRS_POOL_ALLOC_MASK OR (j AND PRS_POOL_ID_MASK)) ())"
proof -
  have "hdr_id (pool_header pool i) < unat (pool_write_index pool)"
    using assms(1,2) by (simp add: pool_wf_def)
  then show ?thesis using assms(3) by (auto simp: prs_pool_alloc_body_def)
qed

text \<open>The search stops at the first index, counting from the write index, whose entry is free.\<close>

definition pool_alloc_at :: "'d prs_pool \<Rightarrow> u64 \<Rightarrow> 'd prs_pool" where
  "pool_alloc_at pool j =
     (pool_set_header pool (prs_pool_get_entry pool j)
        (PRS_POOL_ALLOC_MASK OR (j AND PRS_POOL_ID_MASK)))\<lparr>pool_write_index := j + 1\<rparr>"

lemma prs_pool_alloc_loop_cases:
  assumes "pool_wf pool" and "unat (pool_write_index pool) \<le> unat i"
  shows "(prs_pool_alloc_loop pool i lim = (pool, None, PRS_POOL_ID_INVALID)
      \<and> (\<forall>j. i \<le> j \<and> j < lim \<longrightarrow> hdr_alloc (pool_header pool (prs_pool_get_entry pool j))))
    \<or> (\<exists>j. i \<le> j \<and> j < lim \<and> \<not> hdr_alloc (pool_header pool (prs_pool_get_entry pool j))
        \<and> prs_pool_alloc_loop pool i lim
            = (pool_alloc_at pool j, Some (pool_data_ptr pool (prs_pool_get_entry pool j)), j))"
  using assms
proof (induction pool i lim rule: prs_pool_alloc_loop.induct)
  case (1 pool i lim)
  let ?e = "prs_pool_get_entry pool i"
  have body: "prs_pool_alloc_body i (pool_header pool ?e) =
      (if hdr_alloc (pool_header pool ?e) then Give ()
       else Swap (PRS_POOL_ALLOC_MASK OR (i AND PRS_POOL_ID_MASK)) ())"
    using "1.prems" by (intro alloc_body_cases get_entry_less)
  show ?case
  proof (cases "i < lim \<and> hdr_alloc (pool_header pool ?e)")
    case True
    then have eq: "prs_pool_alloc_loop pool i lim = prs_pool_alloc_loop pool (i + 1) lim"
      by (subst prs_pool_alloc_loop.simps) (simp add: body Let_def)
    have suc: "unat (i + 1) = unat i + 1" using True unat_add_one_less [of i lim] by simp
    have ge: "\<And>j. i + 1 \<le> j \<longleftrightarrow> i \<le> j \<and> j \<noteq> i"
      using suc by (auto simp: word_le_nat_alt word_eq_iff_unat)
    have "unat (pool_write_index pool) \<le> unat (i + 1)" using "1.prems" suc by simp
    from "1.IH" [OF _ refl _ "1.prems"(1) this] True body
    show ?thesis unfolding eq ge by auto
  next
    case False
    show ?thesis
    proof (cases "i < lim")
      case True
      with False have "prs_pool_alloc_loop pool i lim
          = (pool_alloc_at pool i, Some (pool_data_ptr pool ?e), i)"
        by (subst prs_pool_alloc_loop.simps) (simp add: body Let_def pool_alloc_at_def)
      with True False show ?thesis by auto
    next
      case ge: False
      then have "prs_pool_alloc_loop pool i lim = (pool, None, PRS_POOL_ID_INVALID)"
        by (subst prs_pool_alloc_loop.simps) simp
      with ge show ?thesis by auto
    qed
  qed
qed

lemma pool_alloc_at_wf:
  assumes "pool_wf pool" and "unat (pool_write_index pool) \<le> unat j" and "unat j < 2 ^ 52"
    and "\<not> hdr_alloc (pool_header pool (prs_pool_get_entry pool j))"
  shows "pool_wf (pool_alloc_at pool j)"
    and "pool_view pool j = None"
    and "pool_view (pool_alloc_at pool j) = (pool_view pool)(j \<mapsto> 0)"
proof -
  let ?i = "prs_pool_get_entry pool j"
  let ?h = "PRS_POOL_ALLOC_MASK OR (j AND PRS_POOL_ID_MASK)"
  have i: "?i < length (pool_entries pool)" using assms(1) by (rule get_entry_less)
  have fields: "hdr_alloc ?h" "hdr_refs ?h = 0" "hdr_id ?h = unat j"
    using alloc_header_fields [of j] assms(3) by simp_all
  have i0: "?i \<noteq> 0" using assms(1,4) unfolding pool_wf_def by metis
  have suc: "unat (j + 1) = unat j + 1"
    using assms(3) unat_add_no_wrap [of j 1] by simp
  have "pool_wf (pool\<lparr>pool_write_index := j + 1\<rparr>)"
    using assms(1,2) suc by (fastforce simp: pool_wf_def pool_header_def)
  then have "pool_wf (pool_set_header (pool\<lparr>pool_write_index := j + 1\<rparr>) ?i ?h)"
    by (rule pool_wf_set_header)
      (use i i0 fields suc assms(1) in \<open>simp_all add: prs_pool_get_entry_mod\<close>)
  moreover have "pool_set_header (pool\<lparr>pool_write_index := j + 1\<rparr>) ?i ?h = pool_alloc_at pool j"
    by (simp add: pool_alloc_at_def pool_set_header_def)
  ultimately show "pool_wf (pool_alloc_at pool j)" by simp
  show "pool_view pool j = None" using assms(4) by (simp add: pool_view_def Let_def)
  have "pool_view (pool_set_header pool ?i ?h) = (pool_view pool)(j \<mapsto> 0)"
    using pool_view_set_header [OF assms(1) i, of ?h] fields assms(1,4)
    by (simp add: prs_pool_get_entry_mod)
  moreover have "pool_view (pool_alloc_at pool j) = pool_view (pool_set_header pool ?i ?h)"
    by (rule ext) (simp add: pool_view_def pool_alloc_at_def pool_header_def prs_pool_get_entry_def)
  ultimately show "pool_view (pool_alloc_at pool j) = (pool_view pool)(j \<mapsto> 0)" by simp
qed

lemma prs_pool_alloc_cases:
  assumes wf: "pool_wf pool" and left: "pool_ids_left pool"
  obtains (full) "prs_pool_alloc pool = (pool, None, PRS_POOL_ID_INVALID)"
      "\<forall>e < length (pool_entries pool). hdr_alloc (pool_header pool e)"
  | (found) j where "pool_write_index pool \<le> j" "unat j < 2 ^ 52"
      "\<not> hdr_alloc (pool_header pool (prs_pool_get_entry pool j))"
      "prs_pool_alloc pool
        = (pool_alloc_at pool j, Some (pool_data_ptr pool (prs_pool_get_entry pool j)), j)"
proof -
  let ?w = "pool_write_index pool" and ?n = "length (pool_entries pool)"
  let ?lim = "?w + pool_max_entries pool"
  have n: "unat (pool_max_entries pool) = ?n" using wf by (simp add: pool_wf_def)
  have sum: "unat ?w + ?n \<le> 2 ^ 52" using left n by (simp add: pool_ids_left_def)
  then have lim: "unat ?lim = unat ?w + ?n"
    using n by (subst unat_add_no_wrap) simp_all
  have def: "prs_pool_alloc pool = prs_pool_alloc_loop pool ?w ?lim"
    by (simp add: prs_pool_alloc_def Let_def)
  from prs_pool_alloc_loop_cases [OF wf order_refl, of ?lim] show thesis
  proof (elim disjE conjE exE)
    assume none: "prs_pool_alloc_loop pool ?w ?lim = (pool, None, PRS_POOL_ID_INVALID)"
      and all: "\<forall>j. ?w \<le> j \<and> j < ?lim \<longrightarrow> hdr_alloc (pool_header pool (prs_pool_get_entry pool j))"
    have "hdr_alloc (pool_header pool e)" if e: "e < ?n" for e
    proof -
      from e have "0 < ?n" by (rule le_less_trans [OF le0])
      then obtain j where j: "unat ?w \<le> j" "j < unat ?w + ?n" "j mod ?n = e"
        using e by (rule window_covers)
      have "unat (word_of_nat j :: u64) = j"
        using j(2) sum by (simp add: unat_of_nat)
      then have "?w \<le> word_of_nat j" "word_of_nat j < ?lim" "prs_pool_get_entry pool (word_of_nat j) = e"
        using j lim wf by (simp_all add: word_le_nat_alt word_less_nat_alt prs_pool_get_entry_mod)
      then show ?thesis using all by metis
    qed
    then show thesis using none def full by simp
  next
    fix j assume "?w \<le> j" "j < ?lim"
      and "\<not> hdr_alloc (pool_header pool (prs_pool_get_entry pool j))"
      and "prs_pool_alloc_loop pool ?w ?lim
        = (pool_alloc_at pool j, Some (pool_data_ptr pool (prs_pool_get_entry pool j)), j)"
    moreover from \<open>j < ?lim\<close> have "unat j < 2 ^ 52"
      using lim sum by (simp add: word_less_nat_alt)
    ultimately show thesis using def found by simp
  qed
qed

section \<open>Operations on a live entry\<close>

lemma pool_view_Some_iff:
  "pool_view pool pid = Some n \<longleftrightarrow>
     (let h = pool_header pool (prs_pool_get_entry pool pid)
      in hdr_alloc h \<and> hdr_id h = unat pid \<and> hdr_refs h = n)"
  by (auto simp: pool_view_def Let_def)

lemma pool_view_invalid [simp]: "pool_view pool PRS_POOL_ID_INVALID = None"
proof -
  have "unat PRS_POOL_ID_INVALID = 2 ^ 64 - 1" by (simp add: pool_const_defs unsigned_minus_1_eq_mask mask_eq_exp_minus_1)
  then have "hdr_id h \<noteq> unat PRS_POOL_ID_INVALID" for h
    using hdr_id_less [of h] by simp
  then show ?thesis by (simp add: pool_view_def)
qed

lemma live_set_header:
  assumes "pool_wf pool" and "pool_view pool pid = Some n" and "0 < n \<or> pid \<noteq> 0"
    and "hdr_id h = unat pid" and "0 < hdr_refs h \<longrightarrow> hdr_alloc h"
  shows "pool_wf (pool_set_header pool (prs_pool_get_entry pool pid) h)"
    and "pool_view (pool_set_header pool (prs_pool_get_entry pool pid) h) =
      (pool_view pool)(pid := (if hdr_alloc h then Some (hdr_refs h) else None))"
proof -
  let ?i = "prs_pool_get_entry pool pid"
  have old: "hdr_alloc (pool_header pool ?i)" "hdr_id (pool_header pool ?i) = unat pid"
      "hdr_refs (pool_header pool ?i) = n"
    using assms(2) by (simp_all add: pool_view_Some_iff Let_def)
  have i: "?i < length (pool_entries pool)" using assms(1) by (rule get_entry_less)
  have "?i \<noteq> 0"
  proof
    assume "?i = 0"
    then have "n = 0" and "unat pid = 0"
      using assms(1) old by (simp_all add: pool_wf_def)
    with assms(3) show False by (simp add: word_eq_iff_unat)
  qed
  with i old assms show "pool_wf (pool_set_header pool ?i h)"
    by (intro pool_wf_set_header) (auto simp: pool_wf_def prs_pool_get_entry_mod)
  show "pool_view (pool_set_header pool ?i h) =
      (pool_view pool)(pid := (if hdr_alloc h then Some (hdr_refs h) else None))"
    using pool_view_set_header [OF assms(1) i, of h] old assms(1,4)
    by (simp add: prs_pool_get_entry_mod)
qed

lemma lock_live:
  assumes "pool_wf pool" and "pool_view pool pid = Some n" and "0 < n" and "n < 2047"
  shows "\<exists>pool'. prs_pool_lock pool pid = (pool', Some (pool_data_ptr pool (prs_pool_get_entry pool pid)))
    \<and> pool_wf pool' \<and> pool_view pool' = (pool_view pool)(pid \<mapsto> n + 1)"
proof -
  let ?h = "pool_header pool (prs_pool_get_entry pool pid)"
  have old: "hdr_alloc ?h" "hdr_id ?h = unat pid" "hdr_refs ?h = n"
    using assms(2) by (simp_all add: pool_view_Some_iff Let_def)
  have inv: "pid \<noteq> PRS_POOL_ID_INVALID" using assms(2) by auto
  have run: "prs_pool_lock pool pid =
      (pool_set_header pool (prs_pool_get_entry pool pid) (?h + PRS_POOL_REFCNT_INC),
       Some (pool_data_ptr pool (prs_pool_get_entry pool pid)))"
    using old assms(3,4) inv by (simp add: prs_pool_lock_def prs_pool_lock_body_def Let_def)
  have "hdr_alloc (?h + PRS_POOL_REFCNT_INC)" "hdr_refs (?h + PRS_POOL_REFCNT_INC) = n + 1"
      "hdr_id (?h + PRS_POOL_REFCNT_INC) = unat pid"
    using inc_header_fields [of ?h] old assms(4) by simp_all
  with live_set_header [OF assms(1,2), of "?h + PRS_POOL_REFCNT_INC"] assms(3) run
  show ?thesis by auto
qed

lemma lock_dead:
  assumes "pool_view pool pid \<in> {None, Some 0, Some 2047}"
  shows "prs_pool_lock pool pid = (pool, None)"
  using assms
  by (auto simp: prs_pool_lock_def prs_pool_lock_body_def Let_def pool_view_def split: if_splits)

lemma unlock_internal_dead:
  assumes "pool_view pool pid \<in> {None, Some 0}"
  shows "prs_pool_unlock_internal pool w pid try_final destructor = (pool, w, False)"
  using assms
  by (auto simp: prs_pool_unlock_internal_def prs_pool_unlock_body_def Let_def pool_view_def
      split: if_splits)

lemma unlock_internal_shared:
  assumes "pool_wf pool" and "pool_view pool pid = Some n" and "1 < n"
  shows "\<exists>pool'. prs_pool_unlock_internal pool w pid False destructor = (pool', w, False)
    \<and> pool_wf pool' \<and> pool_view pool' = (pool_view pool)(pid \<mapsto> n - 1)"
proof -
  let ?h = "pool_header pool (prs_pool_get_entry pool pid)"
  have old: "hdr_alloc ?h" "hdr_id ?h = unat pid" "hdr_refs ?h = n"
    using assms(2) by (simp_all add: pool_view_Some_iff Let_def)
  have inv: "pid \<noteq> PRS_POOL_ID_INVALID" using assms(2) by auto
  have run: "prs_pool_unlock_internal pool w pid False destructor =
      (pool_set_header pool (prs_pool_get_entry pool pid) (?h - PRS_POOL_REFCNT_INC), w, False)"
    using old assms(3) inv
    by (auto simp: prs_pool_unlock_internal_def prs_pool_unlock_body_def Let_def split: option.splits)
  have "hdr_alloc (?h - PRS_POOL_REFCNT_INC)" "hdr_refs (?h - PRS_POOL_REFCNT_INC) = n - 1"
      "hdr_id (?h - PRS_POOL_REFCNT_INC) = unat pid"
    using dec_header_fields [of ?h] old assms(3) by simp_all
  with live_set_header [OF assms(1,2), of "?h - PRS_POOL_REFCNT_INC"] assms(3) run
  show ?thesis by auto
qed

lemma unlock_internal_try_shared:
  assumes "pool_view pool pid = Some n" and "n \<noteq> 1"
  shows "prs_pool_unlock_internal pool w pid True destructor = (pool, w, False)"
  using assms
  by (auto simp: prs_pool_unlock_internal_def prs_pool_unlock_body_def Let_def pool_view_def
      split: if_splits)

lemma unlock_internal_final:
  assumes "pool_wf pool" and "pool_view pool pid = Some 1"
  shows "\<exists>pool'. prs_pool_unlock_internal pool w pid try_final None = (pool', w, True)
    \<and> pool_wf pool' \<and> pool_view pool' = (pool_view pool)(pid := None)"
proof -
  let ?h = "pool_header pool (prs_pool_get_entry pool pid)"
  let ?h' = "(?h - PRS_POOL_REFCNT_INC) AND NOT PRS_POOL_ALLOC_MASK"
  have old: "hdr_alloc ?h" "hdr_id ?h = unat pid" "hdr_refs ?h = 1"
    using assms(2) by (simp_all add: pool_view_Some_iff Let_def)
  have inv: "pid \<noteq> PRS_POOL_ID_INVALID" using assms(2) by auto
  have run: "prs_pool_unlock_internal pool w pid try_final None =
      (pool_set_header pool (prs_pool_get_entry pool pid) ?h', w, True)"
    using old inv
    by (simp add: prs_pool_unlock_internal_def prs_pool_unlock_body_def Let_def)
  have "\<not> hdr_alloc ?h'" "hdr_refs ?h' = 0" "hdr_id ?h' = unat pid"
    using dec_header_fields [of ?h] clear_alloc_fields [of "?h - PRS_POOL_REFCNT_INC"] old
    by simp_all
  with live_set_header [OF assms, of ?h'] run show ?thesis by auto
qed

lemma entry_update_commute:
  "(e\<lparr>pe_data := d, pe_header := h\<rparr> :: 'd prs_pool_entry) = e\<lparr>pe_header := h, pe_data := d\<rparr>"
  by (cases e) simp

lemma pool_set_header_data_header:
  "pool_set_header (pool_set_data (pool_set_header pool i h) i d) i h'
     = pool_set_data (pool_set_header pool i h') i d"
  by (cases "i < length (pool_entries pool)")
    (simp_all add: pool_set_header_def pool_set_data_def entry_update_commute list_update_beyond)

lemma unlock_internal_final_dest:
  assumes "pool_wf pool" and "pool_view pool pid = Some 1"
    and "d (pe_data (pool_entries pool ! prs_pool_get_entry pool pid)) w = (data, w')"
  shows "\<exists>pool'. prs_pool_unlock_internal pool w pid try_final (Some d) = (pool', w', True)
    \<and> pool_wf pool' \<and> pool_view pool' = (pool_view pool)(pid := None)"
proof -
  let ?i = "prs_pool_get_entry pool pid"
  let ?h = "pool_header pool ?i"
  let ?h' = "(?h - PRS_POOL_REFCNT_INC) AND PRS_POOL_ID_MASK"
  have old: "hdr_alloc ?h" "hdr_id ?h = unat pid" "hdr_refs ?h = 1"
    using assms(2) by (simp_all add: pool_view_Some_iff Let_def)
  have inv: "pid \<noteq> PRS_POOL_ID_INVALID" using assms(2) by auto
  have same: "pe_data (pool_entries (pool_set_header pool ?i h) ! ?i) = pe_data (pool_entries pool ! ?i)" for h
    using get_entry_less [OF assms(1)] by (simp add: pool_set_header_def)
  have run: "prs_pool_unlock_internal pool w pid try_final (Some d) =
      (pool_set_data (pool_set_header pool ?i ?h') ?i data, w', True)"
    using old inv assms(3)
    by (simp add: prs_pool_unlock_internal_def prs_pool_unlock_body_def Let_def same
        pool_set_header_data_header)
  have "\<not> hdr_alloc ?h'" "hdr_refs ?h' = 0" "hdr_id ?h' = unat pid"
    using dec_header_fields [of ?h] mask_id_fields [of "?h - PRS_POOL_REFCNT_INC"] old by simp_all
  with live_set_header [OF assms(1,2), of ?h'] run show ?thesis by auto
qed

lemma lock_first_live:
  assumes "pool_wf pool" and "pool_view pool pid = Some 0" and "pid \<noteq> 0"
  shows "pool_wf (prs_pool_lock_first pool pid)"
    and "pool_view (prs_pool_lock_first pool pid) = (pool_view pool)(pid \<mapsto> 1)"
proof -
  let ?h = "pool_header pool (prs_pool_get_entry pool pid)"
  have old: "hdr_alloc ?h" "hdr_id ?h = unat pid" "hdr_refs ?h = 0"
    using assms(2) by (simp_all add: pool_view_Some_iff Let_def)
  have run: "prs_pool_lock_first pool pid =
      pool_set_header pool (prs_pool_get_entry pool pid) (?h + PRS_POOL_REFCNT_INC)"
    using old by (simp add: prs_pool_lock_first_def Let_def first_header_eq)
  have "hdr_alloc (?h + PRS_POOL_REFCNT_INC)" "hdr_refs (?h + PRS_POOL_REFCNT_INC) = 1"
      "hdr_id (?h + PRS_POOL_REFCNT_INC) = unat pid"
    using inc_header_fields [of ?h] old by simp_all
  with live_set_header [OF assms(1,2), of "?h + PRS_POOL_REFCNT_INC"] assms(3) run
  show "pool_wf (prs_pool_lock_first pool pid)"
    and "pool_view (prs_pool_lock_first pool pid) = (pool_view pool)(pid \<mapsto> 1)" by auto
qed

lemma free_live:
  assumes "pool_wf pool" and "pool_view pool pid = Some 0" and "pid \<noteq> 0"
  shows "pool_wf (prs_pool_free pool pid)"
    and "pool_view (prs_pool_free pool pid) = (pool_view pool)(pid := None)"
proof -
  let ?h = "pool_header pool (prs_pool_get_entry pool pid)"
  have old: "hdr_alloc ?h" "hdr_id ?h = unat pid" "hdr_refs ?h = 0"
    using assms(2) by (simp_all add: pool_view_Some_iff Let_def)
  have "unat pid < 2 ^ 52" using hdr_id_less [of ?h] old by simp
  note f = id_header_fields [OF this]
  have run: "prs_pool_free pool pid = pool_set_header pool (prs_pool_get_entry pool pid) pid"
    using old by (simp add: prs_pool_free_def Let_def)
  with live_set_header [OF assms(1,2), of pid] assms(3) f
  show "pool_wf (prs_pool_free pool pid)"
    and "pool_view (prs_pool_free pool pid) = (pool_view pool)(pid := None)" by auto
qed

section \<open>The contracts\<close>

definition pool_lock_ok :: "'d prs_pool \<Rightarrow> u64 \<Rightarrow> 'd prs_pool \<times> bool" where
  "pool_lock_ok pool pid = (case prs_pool_lock pool pid of (pool', p) \<Rightarrow> (pool', p \<noteq> None))"

interpretation pool_dir: ref_directory pool_wf pool_view pool_lock_ok prs_pool_unlock 2047
proof unfold_locales
  fix s :: "'d prs_pool" and i n
  assume "pool_wf s" "pool_view s i = Some n" "0 < n" "n < 2047"
  then show "\<exists>s'. pool_lock_ok s i = (s', True) \<and> pool_wf s' \<and> pool_view s' = (pool_view s)(i \<mapsto> n + 1)"
    using lock_live by (fastforce simp: pool_lock_ok_def)
next
  fix s :: "'d prs_pool" and i
  assume "pool_view s i = None"
  then show "pool_lock_ok s i = (s, False)" by (simp add: pool_lock_ok_def lock_dead)
next
  fix s :: "'d prs_pool" and i n
  assume "pool_wf s" "pool_view s i = Some n" "1 < n"
  then show "\<exists>s'. prs_pool_unlock s i = (s', False) \<and> pool_wf s' \<and> pool_view s' = (pool_view s)(i \<mapsto> n - 1)"
    using unlock_internal_shared [of s i n "()" None] by (auto simp: prs_pool_unlock_def)
next
  fix s :: "'d prs_pool" and i
  assume "pool_wf s" "pool_view s i = Some 1"
  then show "\<exists>s'. prs_pool_unlock s i = (s', True) \<and> pool_wf s' \<and> pool_view s' = (pool_view s)(i := None)"
    using unlock_internal_final [of s i "()" False] by (auto simp: prs_pool_unlock_def)
qed

text \<open>The two loops on one header, as operations of racing threads.\<close>

definition pool_ref_body :: "u64 \<Rightarrow> refop \<Rightarrow> u64 \<Rightarrow> (u64, unit) cas_body" where
  "pool_ref_body pid op h =
     (case op of
        Lock \<Rightarrow> map_cas_body (\<lambda>x. x) (\<lambda>_. ()) (prs_pool_lock_body pid h)
      | Unlock \<Rightarrow> map_cas_body (\<lambda>x. x) (\<lambda>_. ()) (prs_pool_unlock_body False False pid h))"

lemma pool_ref_body_Swap:
  assumes "pool_ref_body pid op h = Swap v r"
  shows "hdr_id h = unat pid" "hdr_alloc h" "0 < hdr_refs h" "hdr_id v = unat pid"
    and "op = Lock \<Longrightarrow> hdr_refs v = hdr_refs h + 1 \<and> hdr_alloc v"
    and "op = Unlock \<Longrightarrow> hdr_refs v = hdr_refs h - 1 \<and> (hdr_alloc v \<longleftrightarrow> 1 < hdr_refs h)"
proof -
  show basic: "hdr_id h = unat pid" "hdr_alloc h" "0 < hdr_refs h"
    using assms
    by (auto simp: pool_ref_body_def prs_pool_lock_body_def prs_pool_unlock_body_def Let_def
        split: refop.splits if_splits)
  have lock: "v = h + PRS_POOL_REFCNT_INC \<and> hdr_refs h < 2047" if "op = Lock"
    using assms that hdr_refs_less [of h]
    by (auto simp: pool_ref_body_def prs_pool_lock_body_def split: if_splits)
  have unlock: "v = (if hdr_refs h = 1 then (h - PRS_POOL_REFCNT_INC) AND NOT PRS_POOL_ALLOC_MASK
      else h - PRS_POOL_REFCNT_INC)" if "op = Unlock"
    using assms that
    by (auto simp: pool_ref_body_def prs_pool_unlock_body_def Let_def split: if_splits)
  show "hdr_refs v = hdr_refs h + 1 \<and> hdr_alloc v" if "op = Lock"
    using lock [OF that] basic inc_header_fields [of h] by auto
  show "hdr_refs v = hdr_refs h - 1 \<and> (hdr_alloc v \<longleftrightarrow> 1 < hdr_refs h)" if "op = Unlock"
    using unlock [OF that] basic dec_header_fields [of h] clear_alloc_fields
    by (auto split: if_splits)
  show "hdr_id v = unat pid"
    using lock unlock basic inc_header_fields [of h] dec_header_fields [of h] clear_alloc_fields
    by (cases op) (auto split: if_splits)
qed

interpretation pool_cell: refcounted hdr_refs hdr_alloc PRS_POOL_GET_ID pool_ref_body
proof unfold_locales
  fix i h v r assume "pool_ref_body i Lock h = Swap v r"
  then show "0 < hdr_refs h \<and> hdr_refs v = hdr_refs h + 1"
    using pool_ref_body_Swap [of i Lock h v r] by simp
next
  fix i h v r assume "pool_ref_body i Unlock h = Swap v r"
  then show "0 < hdr_refs h \<and> hdr_refs v = hdr_refs h - 1"
    using pool_ref_body_Swap [of i Unlock h v r] by simp
next
  fix i op h v r assume "pool_ref_body i op h = Swap v r"
  then show "hdr_alloc v = (0 < hdr_refs v)"
    using pool_ref_body_Swap [of i op h v r] by (cases op) auto
next
  fix i op h v r assume "pool_ref_body i op h = Swap v r"
  then show "PRS_POOL_GET_ID h = i \<and> PRS_POOL_GET_ID v = i"
    using pool_ref_body_Swap [of i op h v r] by simp
qed

section \<open>A fresh pool\<close>

lemma ALLOC_MASK_fields:
  "hdr_alloc PRS_POOL_ALLOC_MASK" "hdr_refs PRS_POOL_ALLOC_MASK = 0" "hdr_id PRS_POOL_ALLOC_MASK = 0"
  by (simp_all add: hdr_alloc_def hdr_refs_def hdr_id_def unat_ALLOC_MASK)

lemma prs_pool_create_fresh:
  assumes "unat (pp_max_entries params) = 2 ^ k" and "0 < k" and "k < 52"
    and "length initial = 2 ^ k" and "\<forall>e \<in> set initial. pe_header e = 0"
    and "pp_area params = None"
  shows "\<exists>pool. prs_pool_create params initial (Some addr) (Some entries_addr) = (Some pool, [])
    \<and> pool_wf pool \<and> pool_view pool = [0 \<mapsto> 0] \<and> pool_write_index pool = 1
    \<and> pool_max_entries pool = pp_max_entries params \<and> pool_area pool = None
    \<and> (\<forall>e. 0 < e \<and> e < length (pool_entries pool) \<longrightarrow> \<not> hdr_alloc (pool_header pool e))"
proof -
  define pool0 where "pool0 = \<lparr>pool_addr = addr, pool_area = None, pool_entries_addr = entries_addr,
    pool_entries = initial, pool_data_size = pp_data_size params,
    pool_entry_size = pp_data_size params + pool_data_offset, pool_max_entries = pp_max_entries params,
    pool_max_entries_mask = pp_max_entries params - 1, pool_write_index = 1\<rparr>"
  let ?pool = "pool_set_header pool0 0 PRS_POOL_ALLOC_MASK"
  have e0: "prs_pool_get_entry pool0 0 = 0" by (simp add: prs_pool_get_entry_def)
  have len: "0 < length initial" using assms(4) by simp
  have hdr: "pool_header ?pool e = (if e = 0 then PRS_POOL_ALLOC_MASK else 0)"
    if "e < length initial" for e
    using that assms(5)
    by (auto simp: pool_header_def pool_set_header_def pool0_def nth_list_update)
  have z: "\<not> hdr_alloc 0" "hdr_refs 0 = 0" "hdr_id 0 = 0"
    by (simp_all add: hdr_alloc_def hdr_refs_def hdr_id_def)
  have "pool_wf ?pool"
    using assms(1-4) len hdr ALLOC_MASK_fields z
    by (auto simp: pool_wf_def pool0_def)
  moreover have "pool_view ?pool = [0 \<mapsto> 0]"
  proof (rule ext)
    fix pid
    have "prs_pool_get_entry ?pool pid < length initial"
      using get_entry_less [OF \<open>pool_wf ?pool\<close>, of pid] by (simp add: pool0_def)
    note h = hdr [OF this]
    show "pool_view ?pool pid = [0 \<mapsto> 0] pid"
    proof (cases "pid = 0")
      case True
      then show ?thesis using h e0 ALLOC_MASK_fields by (simp add: pool_view_def Let_def)
    next
      case False
      then have "unat pid \<noteq> 0" by (simp add: word_eq_iff_unat)
      then show ?thesis
        using False h ALLOC_MASK_fields z by (simp add: pool_view_def Let_def split: if_splits)
    qed
  qed
  moreover have "prs_pool_create params initial (Some addr) (Some entries_addr) = (Some ?pool, [])"
    using assms(6) e0 by (simp add: prs_pool_create_def Let_def pool0_def)
  moreover have "pool_write_index ?pool = 1" "pool_max_entries ?pool = pp_max_entries params"
      "pool_area ?pool = None" "length (pool_entries ?pool) = length initial"
    by (simp_all add: pool0_def pool_set_header_def)
  moreover have "\<forall>e. 0 < e \<and> e < length initial \<longrightarrow> \<not> hdr_alloc (pool_header ?pool e)"
    using hdr z by simp
  ultimately show ?thesis by (intro exI [of _ ?pool] conjI) simp_all
qed

section \<open>Any sequence of calls\<close>

datatype 'd pool_call =
    PAlloc | PAllocAndLock 'd | PFree u64 | PLockFirst u64
  | PLock u64 | PUnlock u64 | PTryUnlockFinal u64

fun pool_exec :: "'d prs_pool \<Rightarrow> 'd pool_call \<Rightarrow> 'd prs_pool" where
  "pool_exec pool PAlloc = fst (prs_pool_alloc pool)"
| "pool_exec pool (PAllocAndLock d) = fst (prs_pool_alloc_and_lock pool d)"
| "pool_exec pool (PFree pid) = prs_pool_free pool pid"
| "pool_exec pool (PLockFirst pid) = prs_pool_lock_first pool pid"
| "pool_exec pool (PLock pid) = fst (prs_pool_lock pool pid)"
| "pool_exec pool (PUnlock pid) = fst (prs_pool_unlock pool pid)"
| "pool_exec pool (PTryUnlockFinal pid) = fst (prs_pool_try_unlock_final pool pid)"

text \<open>The documented discipline: free and lock_first are called on an entry that was just
  allocated and never locked; every other call may be made with any ID, stale ones included.\<close>

fun pool_call_ok :: "'d prs_pool \<Rightarrow> 'd pool_call \<Rightarrow> bool" where
  "pool_call_ok pool PAlloc = pool_ids_left pool"
| "pool_call_ok pool (PAllocAndLock d) = pool_ids_left pool"
| "pool_call_ok pool (PFree pid) = (pool_view pool pid = Some 0 \<and> pid \<noteq> 0)"
| "pool_call_ok pool (PLockFirst pid) = (pool_view pool pid = Some 0 \<and> pid \<noteq> 0)"
| "pool_call_ok pool _ = True"

inductive pool_reach :: "'d prs_pool \<Rightarrow> 'd prs_pool \<Rightarrow> bool" for pool0 where
  start: "pool_reach pool0 pool0"
| call: "pool_reach pool0 pool \<Longrightarrow> pool_call_ok pool c \<Longrightarrow> pool_reach pool0 (pool_exec pool c)"

text \<open>What one call may do: keep the pool well-formed, never lower the write index, and never
  make an ID below the write index live again.\<close>

definition pool_evolves :: "'d prs_pool \<Rightarrow> 'd prs_pool \<Rightarrow> bool" where
  "pool_evolves pool pool' \<longleftrightarrow> pool_wf pool' \<and> pool_write_index pool \<le> pool_write_index pool'
     \<and> (\<forall>pid. pool_view pool pid = None \<and> pid < pool_write_index pool \<longrightarrow> pool_view pool' pid = None)"

lemma pool_evolvesI:
  assumes "pool_wf pool'" and "pool_write_index pool' = pool_write_index pool"
    and "pool_view pool' = pool_view pool \<or>
      (\<exists>pid v. pool_view pool' = (pool_view pool)(pid := v) \<and> pool_view pool pid \<noteq> None)"
  shows "pool_evolves pool pool'"
  using assms by (auto simp: pool_evolves_def)

lemma pool_evolves_refl: "pool_wf pool \<Longrightarrow> pool_evolves pool pool"
  by (rule pool_evolvesI) simp_all

lemma pool_evolves_trans:
  "pool_evolves p q \<Longrightarrow> pool_evolves q r \<Longrightarrow> pool_evolves p r"
  unfolding pool_evolves_def by (meson order.trans less_le_trans)

lemma write_index_unchanged [simp]:
  "pool_write_index (fst (prs_pool_lock pool pid)) = pool_write_index pool"
  "pool_write_index (fst (prs_pool_unlock_internal pool w pid tf d)) = pool_write_index pool"
  "pool_write_index (prs_pool_free pool pid) = pool_write_index pool"
  "pool_write_index (prs_pool_lock_first pool pid) = pool_write_index pool"
  by (auto simp: prs_pool_lock_def prs_pool_unlock_internal_def prs_pool_free_def
      prs_pool_lock_first_def Let_def split: prod.splits option.splits)

lemma lock_evolves:
  assumes "pool_wf pool"
  shows "pool_evolves pool (fst (prs_pool_lock pool pid))"
proof (cases "pool_view pool pid \<in> {None, Some 0, Some 2047}")
  case True
  from lock_dead [OF this] assms show ?thesis by (simp add: pool_evolves_refl)
next
  case False
  then obtain n where n: "pool_view pool pid = Some n" "0 < n" "n \<noteq> 2047" by auto
  then have "n < 2048"
    using hdr_refs_less [of "pool_header pool (prs_pool_get_entry pool pid)"]
    by (simp add: pool_view_Some_iff Let_def)
  with n(3) have "n < 2047" by simp
  with lock_live [OF assms n(1,2)] obtain pool' p where
    r: "prs_pool_lock pool pid = (pool', p)" "pool_wf pool'"
      "pool_view pool' = (pool_view pool)(pid \<mapsto> n + 1)" by blast
  then show ?thesis using n write_index_unchanged(1) [of pool pid]
    by (intro pool_evolvesI) auto
qed

lemma unlock_internal_evolves:
  assumes "pool_wf pool"
  shows "pool_evolves pool (fst (prs_pool_unlock_internal pool w pid tf None))"
proof -
  consider "pool_view pool pid \<in> {None, Some 0}" | "pool_view pool pid = Some 1"
    | n where "pool_view pool pid = Some n" "1 < n"
    by (metis One_nat_def insertCI less_one linorder_neqE_nat not_Some_eq)
  then show ?thesis
  proof cases
    case 1
    then show ?thesis using assms by (simp add: unlock_internal_dead pool_evolves_refl)
  next
    case 2
    with unlock_internal_final [OF assms 2, of w tf] obtain pool' where
      r: "prs_pool_unlock_internal pool w pid tf None = (pool', w, True)" "pool_wf pool'"
        "pool_view pool' = (pool_view pool)(pid := None)" by blast
    then show ?thesis using 2 write_index_unchanged(2) [of pool w pid tf None]
      by (intro pool_evolvesI) auto
  next
    case 3
    show ?thesis
    proof (cases tf)
      case True
      then show ?thesis
        using unlock_internal_try_shared [OF 3(1), of w None] 3(2) assms by (simp add: pool_evolves_refl)
    next
      case False
      with unlock_internal_shared [OF assms 3, of w None] obtain pool' where
        r: "prs_pool_unlock_internal pool w pid tf None = (pool', w, False)" "pool_wf pool'"
          "pool_view pool' = (pool_view pool)(pid \<mapsto> n - 1)" by auto
      then show ?thesis using 3 write_index_unchanged(2) [of pool w pid tf None]
        by (intro pool_evolvesI) auto
    qed
  qed
qed

lemma alloc_evolves:
  assumes "pool_wf pool" and "pool_ids_left pool"
  shows "pool_evolves pool (fst (prs_pool_alloc pool))"
  using assms
proof (cases rule: prs_pool_alloc_cases)
  case full
  then show ?thesis using assms(1) by (simp add: pool_evolves_refl)
next
  case (found j)
  have ge: "unat (pool_write_index pool) \<le> unat j" using found(1) by (simp add: word_le_nat_alt)
  note at = pool_alloc_at_wf [OF assms(1) ge found(2,3)]
  have "unat (j + 1) = unat j + 1" using found(2) unat_add_no_wrap [of j 1] by simp
  then have "pool_write_index pool \<le> pool_write_index (pool_alloc_at pool j)"
    using ge by (simp add: pool_alloc_at_def word_le_nat_alt)
  with found at show ?thesis by (auto simp: pool_evolves_def)
qed

lemma alloc_and_lock_evolves:
  assumes "pool_wf pool" and "pool_ids_left pool"
  shows "pool_evolves pool (fst (prs_pool_alloc_and_lock pool d))"
  using assms
proof (cases rule: prs_pool_alloc_cases)
  case full
  then show ?thesis using assms(1) by (simp add: prs_pool_alloc_and_lock_def pool_evolves_refl)
next
  case (found j)
  have ge: "unat (pool_write_index pool) \<le> unat j" using found(1) by (simp add: word_le_nat_alt)
  note at = pool_alloc_at_wf [OF assms(1) ge found(2,3)]
  let ?p = "pool_set_data (pool_alloc_at pool j) (prs_pool_get_entry (pool_alloc_at pool j) j) d"
  have j0: "j \<noteq> 0" using ge assms(1) by (auto simp: pool_wf_def)
  have p: "pool_wf ?p" "pool_view ?p j = Some 0" using at by simp_all
  have "pool_evolves pool (pool_alloc_at pool j)" using alloc_evolves [OF assms] found(4) by simp
  then have "pool_evolves pool ?p" by (simp add: pool_evolves_def)
  moreover have "pool_evolves ?p (prs_pool_lock_first ?p j)"
    using lock_first_live [OF p j0] p(2) by (intro pool_evolvesI) auto
  ultimately show ?thesis
    using found(4) by (simp add: prs_pool_alloc_and_lock_def Let_def) (rule pool_evolves_trans)
qed

lemma pool_exec_evolves:
  assumes "pool_wf pool" and "pool_call_ok pool c"
  shows "pool_evolves pool (pool_exec pool c)"
proof (cases c)
  case (PFree pid)
  then show ?thesis
    using assms free_live [of pool pid] by (auto intro!: pool_evolvesI)
next
  case (PLockFirst pid)
  then show ?thesis
    using assms lock_first_live [of pool pid] by (auto intro!: pool_evolvesI)
next
  case (PUnlock pid)
  then show ?thesis
    using unlock_internal_evolves [OF assms(1), of "()" pid False]
    by (auto simp: prs_pool_unlock_def split: prod.splits)
next
  case (PTryUnlockFinal pid)
  then show ?thesis
    using unlock_internal_evolves [OF assms(1), of "()" pid True]
    by (auto simp: prs_pool_try_unlock_final_def split: prod.splits)
qed (use assms in \<open>simp_all add: alloc_evolves alloc_and_lock_evolves lock_evolves\<close>)

lemma pool_reach_evolves:
  assumes "pool_reach pool0 pool" and "pool_wf pool0"
  shows "pool_evolves pool0 pool"
  using assms
proof (induction rule: pool_reach.induct)
  case start
  then show ?case by (simp add: pool_evolves_refl)
next
  case (call pool c)
  then have "pool_evolves pool0 pool" and "pool_wf pool" by (simp_all add: pool_evolves_def)
  with call.hyps(2) show ?case by (blast intro: pool_evolves_trans pool_exec_evolves)
qed

section \<open>Properties\<close>

text \<open>An empty pool of two usable entries, for the witnesses.\<close>

definition pool_example :: "nat prs_pool" where
  "pool_example =
     (case prs_pool_create \<lparr>pp_max_entries = 4, pp_data_size = 8, pp_area = None\<rparr>
             (replicate 4 \<lparr>pe_header = 0, pe_data = 0\<rparr>) (Some 4096) (Some 8192) of
        (Some pool, _) \<Rightarrow> pool
      | (None, _) \<Rightarrow> undefined)"


lemma pool_example_fresh:
  "pool_wf pool_example" "pool_view pool_example = [0 \<mapsto> 0]" "pool_ids_left pool_example"
proof -
  let ?params = "\<lparr>pp_max_entries = 4, pp_data_size = 8, pp_area = None\<rparr>"
  let ?init = "replicate 4 \<lparr>pe_header = 0, pe_data = 0 :: nat\<rparr>"
  obtain pool where pool: "prs_pool_create ?params ?init (Some 4096) (Some 8192) = (Some pool, [])"
      "pool_wf pool" "pool_view pool = [0 \<mapsto> 0]" "pool_write_index pool = 1"
      "pool_max_entries pool = 4"
    using prs_pool_create_fresh [of ?params 2 ?init 4096 8192] by auto
  then show "pool_wf pool_example" "pool_view pool_example = [0 \<mapsto> 0]" "pool_ids_left pool_example"
    by (simp_all add: pool_example_def pool_ids_left_def)
qed


text \<open>C2: From a well-formed pool, every sequence of pool calls that follows the documented
  discipline keeps the pool well-formed, and an ID below the write index that is not live never
  becomes live again: prs_pool_lock on such a stale ID returns null and changes nothing, whatever
  happened to its entry since.\<close>

theorem pool_stale_id_stays_dead:
  assumes "pool_wf pool0" and "pool_reach pool0 pool"
    and "pool_view pool0 pid = None" and "pid < pool_write_index pool0"
  shows "pool_wf pool \<and> pool_view pool pid = None \<and> prs_pool_lock pool pid = (pool, None)"
proof -
  from pool_reach_evolves [OF assms(2,1)] assms(3,4)
  have "pool_wf pool" "pool_view pool pid = None" by (simp_all add: pool_evolves_def)
  then show ?thesis by (simp add: lock_dead)
qed

text \<open>A pool in which the first entry was allocated and freed again.\<close>

definition pool_example_used :: "nat prs_pool" where
  "pool_example_used = pool_exec (pool_exec pool_example PAlloc) (PFree 1)"

lemma pool_example_alloc:
  "pool_wf (pool_exec pool_example PAlloc)"
  "pool_view (pool_exec pool_example PAlloc) = [0 \<mapsto> 0, 1 \<mapsto> 0]"
proof -
  have "snd (prs_pool_alloc pool_example) = (Some 8216, 1)" by code_simp
  then obtain pool' where p: "prs_pool_alloc pool_example = (pool', Some 8216, 1)"
    by (metis prod.collapse)
  from pool_example_fresh(1,3) show "pool_wf (pool_exec pool_example PAlloc)"
    and "pool_view (pool_exec pool_example PAlloc) = [0 \<mapsto> 0, 1 \<mapsto> 0]"
    by (cases rule: prs_pool_alloc_cases;
        use p pool_alloc_at_wf [OF pool_example_fresh(1)] pool_example_fresh(2) in
          \<open>auto simp: word_le_nat_alt\<close>)+
qed

theorem pool_stale_id_stays_dead_witness:
  "pool_wf (pool_exec pool_example_used PAlloc)
    \<and> prs_pool_lock (pool_exec pool_example_used PAlloc) 1 = (pool_exec pool_example_used PAlloc, None)"
proof -
  have ok: "pool_call_ok (pool_exec pool_example PAlloc) (PFree 1)"
    using pool_example_alloc(2) by simp
  have live: "pool_view (pool_exec pool_example PAlloc) 1 = Some 0"
    using pool_example_alloc(2) by simp
  have wf: "pool_wf pool_example_used" and none: "pool_view pool_example_used 1 = None"
    using free_live [OF pool_example_alloc(1) live] by (simp_all add: pool_example_used_def)
  have idx: "pool_write_index pool_example_used = 2" by code_simp
  have max: "pool_max_entries pool_example_used = 4" by code_simp
  have "pool_reach pool_example_used (pool_exec pool_example_used PAlloc)"
    by (rule pool_reach.call [OF pool_reach.start]) (simp add: pool_ids_left_def idx max)
  from pool_stale_id_stays_dead [OF wf this none] idx show ?thesis by simp
qed

text \<open>C1: However many threads run the loops of prs_pool_lock and prs_pool_unlock on one entry,
  interleaved in any way and with any spurious failures of the weak exchange, the header always counts
  the references: the initial count plus the successful locks minus the successful unlocks. The ID in
  the header does not change, and the entry is allocated exactly as long as the count is positive.\<close>

theorem pool_concurrent_refcount:
  assumes "cas_reach (pool_ref_body pid) h0 s"
    and "PRS_POOL_GET_ID h0 = pid" and "hdr_alloc h0" and "0 < hdr_refs h0"
  shows "hdr_refs (cell s) + count_list (hist s) Unlock = hdr_refs h0 + count_list (hist s) Lock
    \<and> PRS_POOL_GET_ID (cell s) = pid
    \<and> (hdr_alloc (cell s) \<longleftrightarrow> 0 < hdr_refs (cell s))"
  using pool_cell.refs_balance [OF assms(1)] pool_cell.owner_stable [OF assms(1,2)]
    pool_cell.live_iff_referenced [OF assms(1)] assms(3,4)
  by blast

text \<open>The header of entry 5 with one reference, and a run in which one thread locks between the load
  and the exchange of another.\<close>

definition pool_race_header :: u64 where
  "pool_race_header = PRS_POOL_ALLOC_MASK OR PRS_POOL_REFCNT_INC OR 5"

lemma pool_race_header_value: "pool_race_header = 0x8010000000000005"
  by (simp add: pool_race_header_def pool_const_defs)

lemma pool_race_header_fields:
  "PRS_POOL_GET_ID pool_race_header = 5" "hdr_alloc pool_race_header" "hdr_refs pool_race_header = 1"
  by (simp_all add: pool_race_header_value PRS_POOL_GET_ID_def pool_const_defs hdr_alloc_def
      hdr_refs_def)

lemma pool_race_swaps:
  "pool_ref_body 5 Lock pool_race_header = Swap (pool_race_header + PRS_POOL_REFCNT_INC) ()"
  "\<exists>v. pool_ref_body 5 Unlock pool_race_header = Swap v ()"
proof -
  show "pool_ref_body 5 Lock pool_race_header = Swap (pool_race_header + PRS_POOL_REFCNT_INC) ()"
    by code_simp
  have "pool_ref_body 5 Unlock pool_race_header = Swap 5 ()" by code_simp
  then show "\<exists>v. pool_ref_body 5 Unlock pool_race_header = Swap v ()" by blast
qed

lemma pool_race:
  "cas_reach (pool_ref_body 5) pool_race_header
     \<lparr>cell = pool_race_header + PRS_POOL_REFCNT_INC,
      busy = (\<lambda>_. None)(0 := Some (Unlock, pool_race_header + PRS_POOL_REFCNT_INC)),
      hist = [Lock]\<rparr>"
proof -
  let ?h = pool_race_header and ?b = "pool_ref_body 5"
  obtain v where un: "?b Unlock ?h = Swap v ()" using pool_race_swaps(2) by blast
  have s1: "cas_reach ?b ?h \<lparr>cell = ?h, busy = (\<lambda>_. None)(0 := Some (Unlock, ?h)), hist = []\<rparr>"
    using cas_reach.step [OF cas_reach.start cas_step.load [where t = 0 and op = Unlock]]
    by (simp add: cas_init_def)
  have s2: "cas_reach ?b ?h \<lparr>cell = ?h,
      busy = (\<lambda>_. None)(0 := Some (Unlock, ?h), 1 := Some (Lock, ?h)), hist = []\<rparr>"
    using cas_reach.step [OF s1 cas_step.load [where t = 1 and op = Lock]] by simp
  have s3: "cas_reach ?b ?h \<lparr>cell = ?h + PRS_POOL_REFCNT_INC,
      busy = (\<lambda>_. None)(0 := Some (Unlock, ?h)), hist = [Lock]\<rparr>"
    using cas_reach.step [OF s2 cas_step.swap [where t = 1 and op = Lock and e = "?h"
      and v = "?h + PRS_POOL_REFCNT_INC" and r = "()"]] pool_race_swaps(1)
    by (simp add: fun_upd_twist)
  show ?thesis
    using cas_reach.step [OF s3 cas_step.retry [where t = 0 and op = Unlock and e = "?h"
      and v = v and r = "()"]] un
    by simp
qed

theorem pool_concurrent_refcount_witness:
  "hdr_refs (pool_race_header + PRS_POOL_REFCNT_INC) = 2
    \<and> hdr_alloc (pool_race_header + PRS_POOL_REFCNT_INC)"
  using pool_concurrent_refcount [OF pool_race pool_race_header_fields(1,2)]
  by (simp add: pool_race_header_fields)

text \<open>Any sequence of prs_pool_lock and prs_pool_unlock on a live ID that never drops the last
  reference and never passes 2047 keeps the pool well-formed, changes no other ID and leaves the
  initial count plus the locks minus the unlocks; if that is one, the next unlock reports the last
  reference, the ID is gone and prs_pool_lock on it fails.\<close>

theorem pool_references_run:
  assumes "pool_wf pool" and "pool_view pool pid = Some n" and "0 < n"
    and "refs_run 2047 n ops = Some m"
  shows "m + count_list ops Unlock = n + count_list ops Lock
    \<and> pool_view (dir_run pool_lock_ok prs_pool_unlock pool pid ops) = (pool_view pool)(pid \<mapsto> m)
    \<and> (m = 1 \<longrightarrow> (\<exists>pool'. prs_pool_unlock (dir_run pool_lock_ok prs_pool_unlock pool pid ops) pid = (pool', True)
          \<and> pool_view pool' = (pool_view pool)(pid := None) \<and> pool_lock_ok pool' pid = (pool', False)))"
  using pool_dir.run_keeps_live [OF assms] pool_dir.run_then_free [OF assms(1-3), of ops]
    refs_run_count [OF assms(4)] assms(4)
  by blast

lemma pool_example_locked:
  "pool_wf (pool_exec (pool_exec pool_example PAlloc) (PLockFirst 1))"
  "pool_view (pool_exec (pool_exec pool_example PAlloc) (PLockFirst 1)) = [0 \<mapsto> 0, 1 \<mapsto> 1]"
proof -
  have live: "pool_view (pool_exec pool_example PAlloc) 1 = Some 0"
    using pool_example_alloc(2) by simp
  show "pool_wf (pool_exec (pool_exec pool_example PAlloc) (PLockFirst 1))"
    "pool_view (pool_exec (pool_exec pool_example PAlloc) (PLockFirst 1)) = [0 \<mapsto> 0, 1 \<mapsto> 1]"
    using lock_first_live [OF pool_example_alloc(1) live] pool_example_alloc(2) by auto
qed

theorem pool_references_run_witness:
  "\<exists>pool'. prs_pool_unlock (dir_run pool_lock_ok prs_pool_unlock
        (pool_exec (pool_exec pool_example PAlloc) (PLockFirst 1)) 1 [Lock, Lock, Unlock, Unlock]) 1
      = (pool', True) \<and> pool_lock_ok pool' 1 = (pool', False)"
  using pool_references_run [OF pool_example_locked(1), of 1 1 "[Lock, Lock, Unlock, Unlock]" 1]
    pool_example_locked(2)
  by auto

text \<open>The addresses of the entries do not wrap around.\<close>

definition pool_fits :: "'d prs_pool \<Rightarrow> bool" where
  "pool_fits pool \<longleftrightarrow> 0 < pool_entry_size pool
     \<and> length (pool_entries pool) * unat (pool_entry_size pool) < 2 ^ 64"

lemma pool_index_of_data_ptr:
  assumes "pool_fits pool" and "index < length (pool_entries pool)"
  shows "unat ((prs_pool_data_to_entry (pool_data_ptr pool index) - pool_entries_addr pool)
    div pool_entry_size pool) = index"
proof -
  let ?e = "unat (pool_entry_size pool)"
  have e: "0 < ?e" using assms(1) by (simp add: pool_fits_def word_less_nat_alt)
  have "index * ?e \<le> length (pool_entries pool) * ?e" using assms(2) by simp
  then have lt: "index * ?e < 2 ^ 64" using assms(1) unfolding pool_fits_def by linarith
  moreover have "index * 1 \<le> index * ?e" using e by (intro mult_le_mono2) simp
  ultimately have i: "index < 2 ^ 64" by linarith
  have "prs_pool_data_to_entry (pool_data_ptr pool index) - pool_entries_addr pool
      = word_of_nat index * pool_entry_size pool"
    by (simp add: prs_pool_data_to_entry_def pool_data_ptr_def pool_entry_addr_def)
  moreover have "unat (word_of_nat index * pool_entry_size pool) = index * ?e"
    using lt i by (simp add: unat_word_ariths unat_of_nat)
  ultimately show ?thesis using e by (simp add: unat_div)
qed

text \<open>prs_pool_get_id is the inverse of prs_pool_lock: on the pointer that a successful lock
  returned it yields the ID that was locked, for any pool whose entry array fits in memory.\<close>

theorem pool_get_id_of_lock:
  assumes "pool_wf pool" and "pool_fits pool" and "pool_view pool pid = Some n"
    and "0 < n" and "n < 2047"
  shows "\<exists>pool' p. prs_pool_lock pool pid = (pool', Some p) \<and> prs_pool_get_id pool' p = pid"
proof -
  let ?i = "prs_pool_get_entry pool pid"
  obtain pool' where run: "prs_pool_lock pool pid = (pool', Some (pool_data_ptr pool ?i))"
      and wf: "pool_wf pool'" and v: "pool_view pool' = (pool_view pool)(pid \<mapsto> n + 1)"
    using lock_live [OF assms(1,3,4,5)] by blast
  have shape: "\<exists>h. pool' = pool_set_header pool ?i h"
    using run by (auto simp: prs_pool_lock_def Let_def split: if_splits prod.splits)
  then have same: "pool_fits pool'" "length (pool_entries pool') = length (pool_entries pool)"
      "pool_data_ptr pool ?i = pool_data_ptr pool' ?i" "prs_pool_get_entry pool' pid = ?i"
    using assms(2) by (auto simp: pool_fits_def)
  have idx: "unat ((prs_pool_data_to_entry (pool_data_ptr pool ?i) - pool_entries_addr pool')
      div pool_entry_size pool') = ?i"
    using pool_index_of_data_ptr [OF same(1)] get_entry_less [OF assms(1)] same(2,3) by simp
  have "pool_view pool' pid = Some (n + 1)" using v by simp
  then have "prs_pool_get_id pool' (pool_data_ptr pool ?i) = pid"
    using idx same(4) by (simp add: prs_pool_get_id_def Let_def pool_view_Some_iff)
  with run show ?thesis by blast
qed

theorem pool_get_id_of_lock_witness:
  "\<exists>pool' p. prs_pool_lock (pool_exec (pool_exec pool_example PAlloc) (PLockFirst 1)) 1 = (pool', Some p)
     \<and> prs_pool_get_id pool' p = 1"
proof -
  let ?p = "pool_exec (pool_exec pool_example PAlloc) (PLockFirst 1)"
  have "length (pool_entries ?p) = 4" "pool_entry_size ?p = 16" by code_simp+
  then have "pool_fits ?p" by (simp add: pool_fits_def)
  from pool_get_id_of_lock [OF pool_example_locked(1) this, of 1 1] pool_example_locked(2)
  show ?thesis by simp
qed

text \<open>The last unlock with a destructor runs it exactly once on the entry's data, after the
  references are gone and before the entry can be allocated again, and then frees the entry; an unlock
  that is not the last one does not run it, and the try variant then changes nothing.\<close>

theorem pool_unlock_dest_correct:
  assumes "pool_wf pool" and "pool_view pool pid = Some n" and "0 < n"
  shows "(case d (pe_data (pool_entries pool ! prs_pool_get_entry pool pid)) w of (data, w') \<Rightarrow>
      \<exists>pool'. prs_pool_unlock_dest pool w pid d = (pool', if n = 1 then w' else w, n = 1)
        \<and> pool_wf pool'
        \<and> pool_view pool' = (pool_view pool)(pid := (if n = 1 then None else Some (n - 1))))
    \<and> (1 < n \<longrightarrow> prs_pool_try_unlock_final_dest pool w pid d = (pool, w, False))"
proof -
  obtain data w' where d: "d (pe_data (pool_entries pool ! prs_pool_get_entry pool pid)) w = (data, w')"
    by fastforce
  show ?thesis
  proof (cases "n = 1")
    case True
    then show ?thesis
      using unlock_internal_final_dest [where pool = pool and pid = pid and d = d and w = w, OF assms(1) _ d]
        assms(2) d
      by (simp add: prs_pool_unlock_dest_def)
  next
    case False
    then have "1 < n" using assms(3) by simp
    then show ?thesis
      using unlock_internal_shared [OF assms(1,2), of w "Some d"] d False
        unlock_internal_try_shared [OF assms(2) False, of w "Some d"]
      by (simp add: prs_pool_unlock_dest_def prs_pool_try_unlock_final_dest_def)
  qed
qed

theorem pool_unlock_dest_correct_witness:
  "\<exists>pool'. prs_pool_unlock_dest (pool_exec (pool_exec pool_example PAlloc) (PLockFirst 1)) [3 :: nat] 1
      (\<lambda>data log. (0, data # log)) = (pool', [0, 3], True) \<and> pool_view pool' = [0 \<mapsto> 0]"
proof -
  let ?p = "pool_exec (pool_exec pool_example PAlloc) (PLockFirst 1)"
  have "pe_data (pool_entries ?p ! prs_pool_get_entry ?p 1) = 0" by code_simp
  with pool_unlock_dest_correct [where d = "\<lambda>data log. (0, data # log)" and w = "[3]" and n = 1,
      OF pool_example_locked(1), of 1]
    pool_example_locked(2)
  show ?thesis by auto
qed

text \<open>The header keeps 52 bits of the ID but prs_pool_lock, prs_pool_lock_first and the unlock
  functions compare them with all 64 bits of the caller's ID. An entry allocated under an ID of
  2 ^ 52 or more can never be locked: every such call leaves the pool as it is, so the entry that
  prs_pool_alloc_and_lock returns has no reference.\<close>

theorem pool_wide_id_never_locks:
  assumes "2 ^ 52 \<le> unat pid"
  shows "prs_pool_lock pool pid = (pool, None) \<and> prs_pool_lock_first pool pid = pool
    \<and> prs_pool_unlock pool pid = (pool, False) \<and> prs_pool_try_unlock_final pool pid = (pool, False)"
proof -
  have ne: "hdr_id h \<noteq> unat pid" for h using hdr_id_less [of h] assms by simp
  then have "pool_view pool pid = None" by (simp add: pool_view_def)
  then show ?thesis
    using ne by (simp add: lock_dead unlock_internal_dead prs_pool_unlock_def
      prs_pool_try_unlock_final_def prs_pool_lock_first_def Let_def)
qed

theorem pool_wide_id_never_locks_witness:
  "prs_pool_lock pool_example 0x10000000000001 = (pool_example, None)"
  using pool_wide_id_never_locks [of "0x10000000000001" pool_example] by simp

end
