(* ===== verification/Idtable.thy ===== *)
theory Idtable
  imports Prs_Prelude
begin

text \<open>
  What the pointer directory and the object directory share: a table of entries in which the entry at
  index \<open>i mod size\<close> is the only one that can carry the ID \<open>i\<close>, and a write index from
  which allocation scans one full round of IDs. An entry says whether it is taken and which ID it
  carries. The table is abstracted to the partial map from live IDs to entries; the lemmas say what
  writing an entry does to that map and that the scan misses no free entry. IDs and indices are
  natural numbers here; the clients prove that their machine words do not wrap around.
\<close>

section \<open>Tables\<close>

definition tab_view :: "('e \<Rightarrow> bool) \<Rightarrow> ('e \<Rightarrow> nat) \<Rightarrow> 'e list \<Rightarrow> nat \<rightharpoonup> 'e" where
  "tab_view taken ident es i =
     (let e = es ! (i mod length es) in if taken e \<and> ident e = i then Some e else None)"

definition tab_ok :: "('e \<Rightarrow> bool) \<Rightarrow> ('e \<Rightarrow> nat) \<Rightarrow> 'e list \<Rightarrow> nat \<Rightarrow> bool" where
  "tab_ok taken ident es w \<longleftrightarrow> es \<noteq> [] \<and> 0 < w
     \<and> (\<forall>j < length es. ident (es ! j) < w \<and> (taken (es ! j) \<longrightarrow> ident (es ! j) mod length es = j))"

text \<open>The IDs that the allocation scan accepts, and the first of them in a window.\<close>

definition tab_free :: "('e \<Rightarrow> bool) \<Rightarrow> ('e \<Rightarrow> nat) \<Rightarrow> 'e list \<Rightarrow> nat \<Rightarrow> bool" where
  "tab_free taken ident es i \<longleftrightarrow>
     \<not> taken (es ! (i mod length es)) \<and> ident (es ! (i mod length es)) \<noteq> i"

lemma upt_head: "i < j \<Longrightarrow> [i ..< j] = i # [Suc i ..< j]"
  by (rule upt_conv_Cons)

lemma find_upt_None: "find P [i ..< j] = None \<longleftrightarrow> (\<forall>k. i \<le> k \<and> k < j \<longrightarrow> \<not> P k)"
  by (auto simp: find_None_iff)

lemma find_upt_Some:
  "find P [i ..< j] = Some k \<Longrightarrow> i \<le> k \<and> k < j \<and> P k"
  by (auto simp: find_Some_iff)

section \<open>The contract of an entry\<close>

locale id_table =
  fixes taken :: "'e \<Rightarrow> bool"
    and ident :: "'e \<Rightarrow> nat"
    and blank :: "'e \<Rightarrow> bool"
    and limit :: nat
  assumes blank_free: "blank e \<Longrightarrow> \<not> taken e"
    and blank_ident: "blank e \<Longrightarrow> ident e = 0"
    and ident_less: "ident e < limit"
begin

lemma fresh_table:
  assumes "es \<noteq> []" and "\<forall>e \<in> set es. blank e"
  shows "tab_ok taken ident es 1" and "tab_view taken ident es = Map.empty"
proof -
  have "blank (es ! j)" if "j < length es" for j using assms(2) that by simp
  then show "tab_ok taken ident es 1" and "tab_view taken ident es = Map.empty"
    using assms(1) blank_free blank_ident
    by (auto simp: tab_ok_def tab_view_def fun_eq_iff Let_def)
qed

lemma view_Some:
  "tab_view taken ident es i = Some e \<longleftrightarrow> e = es ! (i mod length es) \<and> taken e \<and> ident e = i"
  by (auto simp: tab_view_def Let_def)

lemma wide_never_live: "limit \<le> i \<Longrightarrow> tab_view taken ident es i = None"
  using ident_less [of "es ! (i mod length es)"] by (auto simp: tab_view_def Let_def)

lemma live_below:
  assumes "tab_ok taken ident es w" and "tab_view taken ident es i = Some e"
  shows "i < w"
proof -
  have "i mod length es < length es" using assms(1) by (simp add: tab_ok_def)
  then have "ident (es ! (i mod length es)) < w" using assms(1) by (simp add: tab_ok_def)
  then show ?thesis using assms(2) view_Some by metis
qed

text \<open>Writing the entry of a live ID.\<close>

lemma set_live:
  assumes "tab_ok taken ident es w" and "tab_view taken ident es i = Some e" and "ident e' = i"
  shows "tab_ok taken ident (es[i mod length es := e']) w"
    and "tab_view taken ident (es[i mod length es := e'])
      = (tab_view taken ident es)(i := (if taken e' then Some e' else None))"
proof -
  let ?j = "i mod length es"
  have j: "?j < length es" and iw: "i < w"
    using assms(1) live_below [OF assms(1,2)] by (auto simp: tab_ok_def)
  show "tab_ok taken ident (es[?j := e']) w"
    using assms(1,3) j iw by (auto simp: tab_ok_def nth_list_update)
  have old: "taken (es ! ?j)" "ident (es ! ?j) = i" using assms(2) by (auto simp: view_Some)
  show "tab_view taken ident (es[?j := e'])
      = (tab_view taken ident es)(i := (if taken e' then Some e' else None))"
    using j assms(3) old by (auto simp: tab_view_def fun_eq_iff Let_def nth_list_update)
qed

text \<open>Taking a free entry under an ID from the write index on.\<close>

lemma set_fresh:
  assumes "tab_ok taken ident es w" and "\<not> taken (es ! (i mod length es))" and "w \<le> i"
    and "ident e' = i" and "taken e'"
  shows "tab_ok taken ident (es[i mod length es := e']) (Suc i)"
    and "tab_view taken ident es i = None"
    and "tab_view taken ident (es[i mod length es := e']) = (tab_view taken ident es)(i \<mapsto> e')"
proof -
  let ?j = "i mod length es"
  have j: "?j < length es" using assms(1) by (auto simp: tab_ok_def)
  show "tab_ok taken ident (es[?j := e']) (Suc i)"
    using assms j by (fastforce simp: tab_ok_def nth_list_update)
  show "tab_view taken ident es i = None" using assms(2) by (simp add: tab_view_def)
  show "tab_view taken ident (es[?j := e']) = (tab_view taken ident es)(i \<mapsto> e')"
  proof (rule ext)
    fix k
    show "tab_view taken ident (es[?j := e']) k = ((tab_view taken ident es)(i \<mapsto> e')) k"
      using j assms(2,4,5) by (cases "k mod length es = ?j") (auto simp: tab_view_def Let_def)
  qed
qed

text \<open>From the write index on, an ID is acceptable exactly if its entry is free; a round that
  accepts none has seen every entry taken.\<close>

lemma free_iff:
  assumes "tab_ok taken ident es w" and "w \<le> i"
  shows "tab_free taken ident es i \<longleftrightarrow> \<not> taken (es ! (i mod length es))"
proof -
  have "i mod length es < length es" using assms(1) by (simp add: tab_ok_def)
  then have "ident (es ! (i mod length es)) < w" using assms(1) by (simp add: tab_ok_def)
  then show ?thesis using assms(2) by (auto simp: tab_free_def)
qed

lemma scan_full:
  assumes "tab_ok taken ident es w"
    and "find (tab_free taken ident es) [w ..< w + length es] = None" and "j < length es"
  shows "taken (es ! j)"
proof -
  have "0 < length es" using assms(3) by (rule le_less_trans [OF le0])
  then obtain i where "w \<le> i" "i < w + length es" "i mod length es = j"
    using assms(3) by (rule window_covers)
  then show ?thesis using assms(1,2) free_iff by (auto simp: find_upt_None)
qed

lemma scan_found:
  assumes "tab_ok taken ident es w"
    and "find (tab_free taken ident es) [w ..< w + length es] = Some i"
  shows "w \<le> i" and "i < w + length es" and "\<not> taken (es ! (i mod length es))"
  using find_upt_Some [OF assms(2)] by (auto simp: tab_free_def)

end

end
