(* ===== verification/Pd.thy ===== *)
theory Pd
  imports Refdir Idtable
begin

text \<open>
  The pointer directory of \<^verbatim>\<open>prs/lib/ds/pd.c\<close>: a table of pointers under 64-bit headers that pack a
  12-bit reference count and a 52-bit ID, and the global pointer directory of \<^verbatim>\<open>prs/gpd.c\<close>. Pointers
  are 64-bit words with 0 for null, as the functions return them. The table lemmas of \<open>Idtable\<close>
  give the invariant and the abstraction; \<open>Refdir\<close> and \<open>Atomic\<close> give the lemmas on
  sequences of calls and on racing threads.
\<close>

section \<open>The header word\<close>

definition PRS_PD_REFCNT_SHIFT :: nat where
  "PRS_PD_REFCNT_SHIFT = 52"

definition PRS_PD_REFCNT_BITS :: nat where
  "PRS_PD_REFCNT_BITS = 12"

definition PRS_PD_REFCNT_INC :: u64 where
  "PRS_PD_REFCNT_INC = push_bit PRS_PD_REFCNT_SHIFT 1"

definition PRS_PD_REFCNT_MASK :: u64 where
  "PRS_PD_REFCNT_MASK = push_bit PRS_PD_REFCNT_SHIFT (push_bit PRS_PD_REFCNT_BITS 1 - 1)"

definition PRS_PD_ID_MASK :: u64 where
  "PRS_PD_ID_MASK = PRS_PD_REFCNT_INC - 1"

definition PRS_PD_ID_INVALID :: u64 where
  "PRS_PD_ID_INVALID = -1"

definition PRS_PD_GET_ID :: "u64 \<Rightarrow> u64" where
  "PRS_PD_GET_ID header = header AND PRS_PD_ID_MASK"

definition PRS_PD_TEST_REFCNT :: "u64 \<Rightarrow> u64" where
  "PRS_PD_TEST_REFCNT header = header AND PRS_PD_REFCNT_MASK"

definition PRS_PD_GET_REFCNT :: "u64 \<Rightarrow> u64" where
  "PRS_PD_GET_REFCNT header = drop_bit PRS_PD_REFCNT_SHIFT (PRS_PD_TEST_REFCNT header)"

lemmas pd_const_defs =
  PRS_PD_REFCNT_SHIFT_def PRS_PD_REFCNT_BITS_def PRS_PD_REFCNT_INC_def PRS_PD_REFCNT_MASK_def
  PRS_PD_ID_MASK_def PRS_PD_ID_INVALID_def

section \<open>Data\<close>

record prs_pd_entry =
  pde_header :: u64
  pde_ptr :: ptr

record prs_pd =
  pd_addr :: ptr
  pd_area :: "ptr option"
  pd_entries_addr :: ptr
  pd_entries :: "prs_pd_entry list"
  pd_max_entries :: u64
  pd_max_entries_mask :: u64
  pd_write_index :: u64

record prs_pd_create_params =
  pdp_max_entries :: u64
  pdp_area :: "ptr option"

text \<open>\<^verbatim>\<open>sizeof(struct prs_pd)\<close> and \<^verbatim>\<open>sizeof(struct prs_pd_entry)\<close> on amd64.\<close>

definition pd_sizeof :: u64 where
  "pd_sizeof = 40"

definition pd_entry_sizeof :: u64 where
  "pd_entry_sizeof = 16"

definition prs_pd_get_entry :: "prs_pd \<Rightarrow> u64 \<Rightarrow> nat" where
  "prs_pd_get_entry pd pid = unat (pid AND pd_max_entries_mask pd)"

definition pd_set_entry :: "prs_pd \<Rightarrow> nat \<Rightarrow> prs_pd_entry \<Rightarrow> prs_pd" where
  "pd_set_entry pd index e = pd\<lparr>pd_entries := (pd_entries pd)[index := e]\<rparr>"

definition prs_pd_struct_size :: "prs_pd_create_params \<Rightarrow> u64" where
  "prs_pd_struct_size params = pd_sizeof + pd_entry_sizeof * pdp_max_entries params"

text \<open>\<open>pd_mem\<close> and \<open>entries_mem\<close> are what the two calls of \<^verbatim>\<open>prs_pal_malloc_zero\<close> return;
  \<open>initial\<close> is the contents of the entry array: zeroed memory, or what the caller's area holds.
  The result is the directory or null, and the pointers that the cleanup frees.\<close>

definition prs_pd_create ::
  "prs_pd_create_params \<Rightarrow> prs_pd_entry list \<Rightarrow> ptr option \<Rightarrow> ptr option \<Rightarrow> prs_pd option \<times> ptr list" where
  "prs_pd_create params initial pd_mem entries_mem =
     (let fill = (\<lambda>addr area entries_addr.
            \<lparr>pd_addr = addr, pd_area = area, pd_entries_addr = entries_addr, pd_entries = initial,
             pd_max_entries = pdp_max_entries params,
             pd_max_entries_mask = pdp_max_entries params - 1, pd_write_index = 1\<rparr>)
      in case pdp_area params of
           Some area \<Rightarrow> (Some (fill area (Some area) (area + pd_sizeof)), [])
         | None \<Rightarrow>
             (case pd_mem of
                None \<Rightarrow> (None, [])
              | Some addr \<Rightarrow>
                  (case entries_mem of
                     None \<Rightarrow> (None, [addr])
                   | Some entries_addr \<Rightarrow> (Some (fill addr None entries_addr), []))))"

text \<open>The pointers passed to \<^verbatim>\<open>prs_pal_free\<close>.\<close>

definition prs_pd_destroy :: "prs_pd \<Rightarrow> ptr list" where
  "prs_pd_destroy pd =
     (case pd_area pd of None \<Rightarrow> [pd_entries_addr pd, pd_addr pd] | Some _ \<Rightarrow> [])"

section \<open>Operations\<close>

definition prs_pd_alloc_body :: "u64 \<Rightarrow> u64 \<Rightarrow> (u64, unit) cas_body" where
  "prs_pd_alloc_body i header =
     (if PRS_PD_TEST_REFCNT header \<noteq> 0 then Give ()
      else if PRS_PD_GET_ID header = i then Give ()
      else Swap (PRS_PD_REFCNT_INC OR (i AND PRS_PD_ID_MASK)) ())"

function prs_pd_alloc_loop :: "prs_pd \<Rightarrow> ptr \<Rightarrow> u64 \<Rightarrow> u64 \<Rightarrow> prs_pd \<times> prs_result \<times> u64" where
  "prs_pd_alloc_loop pd p i lim =
     (if i < lim then
        (let entry = prs_pd_get_entry pd i
         in case prs_pd_alloc_body i (pde_header (pd_entries pd ! entry)) of
              Give _ \<Rightarrow> prs_pd_alloc_loop pd p (i + 1) lim
            | Swap new_header _ \<Rightarrow>
                ((pd_set_entry pd entry \<lparr>pde_header = new_header, pde_ptr = p\<rparr>)
                   \<lparr>pd_write_index := i + 1\<rparr>, PRS_OK, i))
      else (pd, PRS_OUT_OF_MEMORY, PRS_PD_ID_INVALID))"
  by pat_completeness auto
termination
proof (relation "measure (\<lambda>(pd, p, i, lim). unat lim - unat i)", goal_cases)
  case (2 pd p i lim entry x)
  then have "unat i < unat lim" by (simp add: word_less_nat_alt)
  moreover have "unat (i + 1) = unat i + 1" using 2(1) by (rule unat_add_one_less)
  ultimately show ?case by simp
qed simp

declare prs_pd_alloc_loop.simps [simp del]

definition prs_pd_alloc_and_lock :: "prs_pd \<Rightarrow> ptr \<Rightarrow> prs_pd \<times> prs_result \<times> u64" where
  "prs_pd_alloc_and_lock pd p =
     (let write_index = pd_write_index pd;
          lim = write_index + pd_max_entries pd
      in prs_pd_alloc_loop pd p write_index lim)"

definition prs_pd_lock_body :: "u64 \<Rightarrow> u64 \<Rightarrow> (u64, bool) cas_body" where
  "prs_pd_lock_body pid header =
     (if PRS_PD_GET_ID header \<noteq> pid then Give False
      else if \<not> PRS_PD_TEST_REFCNT header \<noteq> 0 then Give False
      else if PRS_PD_TEST_REFCNT header = PRS_PD_REFCNT_MASK then Give False
      else Swap (header + PRS_PD_REFCNT_INC) True)"

definition prs_pd_lock :: "prs_pd \<Rightarrow> u64 \<Rightarrow> prs_pd \<times> ptr" where
  "prs_pd_lock pd pid =
     (if pid = PRS_PD_ID_INVALID then (pd, 0)
      else (let entry = prs_pd_get_entry pd pid; e = pd_entries pd ! entry
            in case cas_run (prs_pd_lock_body pid) (pde_header e) of
                 (h, locked) \<Rightarrow>
                   if locked then (pd_set_entry pd entry (e\<lparr>pde_header := h\<rparr>), pde_ptr e) else (pd, 0)))"

text \<open>The result of the loop: \<open>None\<close> for an early \<^verbatim>\<open>return PRS_FALSE\<close>, otherwise \<open>last\<close>.\<close>

definition prs_pd_unlock_body :: "u64 \<Rightarrow> u64 \<Rightarrow> (u64, bool option) cas_body" where
  "prs_pd_unlock_body pid header =
     (if PRS_PD_GET_ID header \<noteq> pid then Give None
      else (let refcnt = PRS_PD_TEST_REFCNT header
            in if \<not> refcnt \<noteq> 0 then Give None
               else Swap (header - PRS_PD_REFCNT_INC) (Some (refcnt = PRS_PD_REFCNT_INC))))"

definition prs_pd_unlock :: "prs_pd \<Rightarrow> u64 \<Rightarrow> prs_pd \<times> bool" where
  "prs_pd_unlock pd pid =
     (if pid = PRS_PD_ID_INVALID then (pd, False)
      else (let entry = prs_pd_get_entry pd pid; e = pd_entries pd ! entry
            in case cas_run (prs_pd_unlock_body pid) (pde_header e) of
                 (_, None) \<Rightarrow> (pd, False)
               | (h, Some is_last) \<Rightarrow> (pd_set_entry pd entry (e\<lparr>pde_header := h\<rparr>), is_last)))"

section \<open>The global pointer directory\<close>

text \<open>\<^verbatim>\<open>prs_gpd_init\<close> either stores a directory or ends the program with a fatal error (\<open>None\<close>).
  The static variable is the state; \<open>prs_gpd_get\<close> reads it.\<close>

type_synonym gpd_state = "prs_pd option"

definition prs_gpd_init :: "ptr option \<Rightarrow> ptr option \<Rightarrow> gpd_state option" where
  "prs_gpd_init pd_mem entries_mem =
     (case prs_pd_create \<lparr>pdp_max_entries = PRS_MAX_GPD_ENTRIES, pdp_area = None\<rparr>
             (replicate (unat PRS_MAX_GPD_ENTRIES) \<lparr>pde_header = 0, pde_ptr = 0\<rparr>) pd_mem entries_mem of
        (None, _) \<Rightarrow> None
      | (Some pd, _) \<Rightarrow> Some (Some pd))"

definition prs_gpd_uninit :: "gpd_state \<Rightarrow> ptr list" where
  "prs_gpd_uninit s = (case s of None \<Rightarrow> [] | Some pd \<Rightarrow> prs_pd_destroy pd)"

definition prs_gpd_get :: "gpd_state \<Rightarrow> prs_pd option" where
  "prs_gpd_get s = s"

section \<open>Reading headers\<close>

definition pd_hid :: "u64 \<Rightarrow> nat" where
  "pd_hid h = unat h mod 2 ^ 52"

definition pd_refs :: "u64 \<Rightarrow> nat" where
  "pd_refs h = unat h div 2 ^ 52"

lemma pd_const_values [prs_consts]:
  "PRS_PD_REFCNT_INC = 2 ^ 52"
  "PRS_PD_REFCNT_MASK = push_bit 52 (mask 12)"
  "PRS_PD_ID_MASK = mask 52"
  by (simp_all add: pd_const_defs mask_eq_exp_minus_1)

lemma unat_pd_header: "unat h = pd_refs h * 2 ^ 52 + pd_hid h"
  unfolding pd_refs_def pd_hid_def by (rule div_mult_mod_eq [symmetric])

lemma pd_refs_less: "pd_refs h < 4096"
proof -
  have "unat h < 4096 * 2 ^ 52" using unsigned_less [of h, where ?'a = nat] by simp
  then show ?thesis unfolding pd_refs_def by (simp only: less_mult_imp_div_less)
qed

lemma pd_hid_less: "pd_hid h < 2 ^ 52"
  by (simp add: pd_hid_def)

lemma pd_header_fields:
  assumes "unat h = r * 2 ^ 52 + i" and "i < 2 ^ 52"
  shows "pd_refs h = r" "pd_hid h = i"
proof -
  show "pd_refs h = r"
    unfolding pd_refs_def assms(1) using assms(2) by (subst div_mult_self3) (simp_all del: power_numeral)
  have "unat h mod 2 ^ 52 = i mod 2 ^ 52" unfolding assms(1) by (rule mod_mult_self3)
  then show "pd_hid h = i" using assms(2) by (simp add: pd_hid_def)
qed

lemma unat_PD_GET_ID [prs_bits]: "unat (PRS_PD_GET_ID h) = pd_hid h"
  by (simp only: PRS_PD_GET_ID_def pd_const_values unat_and_mask_eq pd_hid_def)

lemma unat_PD_TEST_REFCNT [prs_bits]: "unat (PRS_PD_TEST_REFCNT h) = pd_refs h * 2 ^ 52"
proof -
  have "unat (PRS_PD_TEST_REFCNT h) = (unat h div 2 ^ 52 mod 2 ^ 12) * 2 ^ 52"
    unfolding PRS_PD_TEST_REFCNT_def pd_const_values by (rule unat_and_shifted_mask) simp
  then show ?thesis using pd_refs_less [of h] by (simp add: pd_refs_def)
qed

lemma unat_PD_INC: "unat PRS_PD_REFCNT_INC = 2 ^ 52"
  by (simp add: pd_const_defs)

lemma PD_TEST_REFCNT_eq_0 [simp]: "PRS_PD_TEST_REFCNT h = 0 \<longleftrightarrow> pd_refs h = 0"
  by (simp add: word_eq_iff_unat unat_PD_TEST_REFCNT)

lemma PD_TEST_REFCNT_eq_INC [simp]: "PRS_PD_TEST_REFCNT h = PRS_PD_REFCNT_INC \<longleftrightarrow> pd_refs h = 1"
  by (simp add: word_eq_iff_unat unat_PD_TEST_REFCNT unat_PD_INC)

lemma PD_TEST_REFCNT_eq_MASK [simp]: "PRS_PD_TEST_REFCNT h = PRS_PD_REFCNT_MASK \<longleftrightarrow> pd_refs h = 4095"
proof -
  have "unat PRS_PD_REFCNT_MASK = 4095 * 2 ^ 52" by (simp add: pd_const_defs)
  then show ?thesis by (simp add: word_eq_iff_unat unat_PD_TEST_REFCNT)
qed

lemma PD_GET_ID_eq_iff [simp]: "PRS_PD_GET_ID h = i \<longleftrightarrow> pd_hid h = unat i"
  by (simp add: word_eq_iff_unat unat_PD_GET_ID)

lemma pd_alloc_header_fields:
  "pd_refs (PRS_PD_REFCNT_INC OR (i AND PRS_PD_ID_MASK)) = 1"
  "pd_hid (PRS_PD_REFCNT_INC OR (i AND PRS_PD_ID_MASK)) = unat i mod 2 ^ 52"
proof -
  let ?h = "PRS_PD_REFCNT_INC OR (i AND PRS_PD_ID_MASK)"
  have "?h = PRS_PD_REFCNT_INC + (i AND PRS_PD_ID_MASK)"
    unfolding pd_const_values
    by (rule disjunctive_add_eq_or [symmetric]) (rule bit_word_eqI, auto simp: bit_simps simp del: power_numeral)
  moreover have "unat (i AND PRS_PD_ID_MASK) = unat i mod 2 ^ 52"
    unfolding pd_const_values by (rule unat_and_mask_eq)
  moreover have "unat i mod 2 ^ 52 < 2 ^ 52" by simp
  ultimately have "unat ?h = 1 * 2 ^ 52 + unat i mod 2 ^ 52"
    by (simp add: unat_add_no_wrap unat_PD_INC)
  from pd_header_fields [OF this] show "pd_refs ?h = 1" "pd_hid ?h = unat i mod 2 ^ 52" by simp_all
qed

lemma pd_inc_fields:
  assumes "pd_refs h < 4095"
  shows "pd_refs (h + PRS_PD_REFCNT_INC) = pd_refs h + 1" "pd_hid (h + PRS_PD_REFCNT_INC) = pd_hid h"
proof -
  have "unat h + 2 ^ 52 < 2 ^ 64"
    using assms pd_hid_less [of h] by (subst unat_pd_header) simp
  then have "unat (h + PRS_PD_REFCNT_INC) = unat h + 2 ^ 52"
    by (subst unat_add_no_wrap) (simp_all add: unat_PD_INC)
  also have "\<dots> = (pd_refs h + 1) * 2 ^ 52 + pd_hid h" by (subst unat_pd_header) simp
  finally show "pd_refs (h + PRS_PD_REFCNT_INC) = pd_refs h + 1" "pd_hid (h + PRS_PD_REFCNT_INC) = pd_hid h"
    using pd_header_fields pd_hid_less by blast+
qed

lemma pd_dec_fields:
  assumes "0 < pd_refs h"
  shows "pd_refs (h - PRS_PD_REFCNT_INC) = pd_refs h - 1" "pd_hid (h - PRS_PD_REFCNT_INC) = pd_hid h"
proof -
  have "2 ^ 52 \<le> unat h" using assms by (subst unat_pd_header) simp
  then have "unat (h - PRS_PD_REFCNT_INC) = unat h - 2 ^ 52"
    by (subst unat_minus_no_wrap) (simp_all add: unat_PD_INC)
  also have "\<dots> = (pd_refs h - 1) * 2 ^ 52 + pd_hid h"
    using assms by (subst unat_pd_header) (simp add: diff_mult_distrib)
  finally show "pd_refs (h - PRS_PD_REFCNT_INC) = pd_refs h - 1" "pd_hid (h - PRS_PD_REFCNT_INC) = pd_hid h"
    using pd_header_fields pd_hid_less by blast+
qed

section \<open>Well-formed directories\<close>

definition pde_taken :: "prs_pd_entry \<Rightarrow> bool" where
  "pde_taken e \<longleftrightarrow> 0 < pd_refs (pde_header e)"

definition pde_ident :: "prs_pd_entry \<Rightarrow> nat" where
  "pde_ident e = pd_hid (pde_header e)"

interpretation pd_tab: id_table pde_taken pde_ident "\<lambda>e. pde_header e = 0" "2 ^ 52"
  by unfold_locales (auto simp: pde_taken_def pde_ident_def pd_refs_def pd_hid_def)

text \<open>The registered pointers are not null, so that the result of \<open>prs_pd_lock\<close> tells whether
  the ID was live.\<close>

definition pd_wf :: "prs_pd \<Rightarrow> bool" where
  "pd_wf pd \<longleftrightarrow>
     (\<exists>k. 0 < k \<and> k < 52 \<and> unat (pd_max_entries pd) = 2 ^ k)
     \<and> pd_max_entries_mask pd = pd_max_entries pd - 1
     \<and> length (pd_entries pd) = unat (pd_max_entries pd)
     \<and> tab_ok pde_taken pde_ident (pd_entries pd) (unat (pd_write_index pd))
     \<and> (\<forall>e \<in> set (pd_entries pd). pde_taken e \<longrightarrow> pde_ptr e \<noteq> 0)"

definition pd_ids_left :: "prs_pd \<Rightarrow> bool" where
  "pd_ids_left pd \<longleftrightarrow> unat (pd_write_index pd) + unat (pd_max_entries pd) \<le> 2 ^ 52"

text \<open>The abstraction: live IDs, their entries, and their reference counts.\<close>

definition pd_live :: "prs_pd \<Rightarrow> u64 \<rightharpoonup> prs_pd_entry" where
  "pd_live pd pid = tab_view pde_taken pde_ident (pd_entries pd) (unat pid)"

definition pd_view :: "prs_pd \<Rightarrow> u64 \<rightharpoonup> nat" where
  "pd_view pd pid = map_option (\<lambda>e. pd_refs (pde_header e)) (pd_live pd pid)"

definition pd_pointer :: "prs_pd \<Rightarrow> u64 \<rightharpoonup> ptr" where
  "pd_pointer pd pid = map_option pde_ptr (pd_live pd pid)"

lemma prs_pd_get_entry_mod:
  assumes "pd_wf pd"
  shows "prs_pd_get_entry pd pid = unat pid mod length (pd_entries pd)"
proof -
  obtain k where k: "unat (pd_max_entries pd) = 2 ^ k"
    and m: "pd_max_entries_mask pd = pd_max_entries pd - 1"
    and l: "length (pd_entries pd) = unat (pd_max_entries pd)"
    using assms by (auto simp: pd_wf_def)
  have "pd_max_entries_mask pd = mask k" using m power2_minus_one_mask [OF k] by simp
  then show ?thesis using k l by (simp add: prs_pd_get_entry_def unat_and_mask_eq)
qed

lemma pd_live_Some:
  assumes "pd_wf pd"
  shows "pd_live pd pid = Some e \<longleftrightarrow> e = pd_entries pd ! prs_pd_get_entry pd pid
    \<and> 0 < pd_refs (pde_header e) \<and> pd_hid (pde_header e) = unat pid"
  using assms
  by (simp add: pd_live_def pd_tab.view_Some prs_pd_get_entry_mod pde_taken_def pde_ident_def)

lemma pd_live_None:
  assumes "pd_wf pd"
  shows "pd_live pd pid = None \<longleftrightarrow> pd_refs (pde_header (pd_entries pd ! prs_pd_get_entry pd pid)) = 0
    \<or> pd_hid (pde_header (pd_entries pd ! prs_pd_get_entry pd pid)) \<noteq> unat pid"
  using pd_live_Some [OF assms, of pid] by (metis neq0_conv not_Some_eq)

lemma pd_entries_nonempty: "pd_wf pd \<Longrightarrow> prs_pd_get_entry pd pid < length (pd_entries pd)"
  unfolding prs_pd_get_entry_mod
  by (rule mod_less_divisor) (metis length_greater_0_conv pd_wf_def tab_ok_def)

lemma pd_live_invalid: "pd_live pd PRS_PD_ID_INVALID = None"
  unfolding pd_live_def
  by (rule pd_tab.wide_never_live)
    (simp add: pd_const_defs unsigned_minus_1_eq_mask mask_eq_exp_minus_1)

lemma pd_live_ptr: "pd_wf pd \<Longrightarrow> pd_live pd pid = Some e \<Longrightarrow> pde_ptr e \<noteq> 0"
  using pd_entries_nonempty [of pd pid]
  by (auto simp: pd_live_Some pd_wf_def pde_taken_def)

text \<open>Writing the header of a live entry.\<close>

lemma pd_set_live:
  assumes "pd_wf pd" and "pd_live pd pid = Some e" and "pd_hid h = unat pid"
  defines "pd' \<equiv> pd_set_entry pd (prs_pd_get_entry pd pid) (e\<lparr>pde_header := h\<rparr>)"
  shows "pd_wf pd'" and "pd_write_index pd' = pd_write_index pd"
    and "pd_live pd' = (pd_live pd)(pid := (if 0 < pd_refs h then Some (e\<lparr>pde_header := h\<rparr>) else None))"
proof -
  let ?i = "unat pid mod length (pd_entries pd)" and ?e = "e\<lparr>pde_header := h\<rparr>"
  have ok: "tab_ok pde_taken pde_ident (pd_entries pd) (unat (pd_write_index pd))"
    using assms(1) by (simp add: pd_wf_def)
  have l: "tab_view pde_taken pde_ident (pd_entries pd) (unat pid) = Some e"
    using assms(2) by (simp add: pd_live_def)
  have e': "pde_ident ?e = unat pid" using assms(3) by (simp add: pde_ident_def)
  note set = pd_tab.set_live [OF ok l e']
  have pd': "pd' = pd\<lparr>pd_entries := (pd_entries pd)[?i := ?e]\<rparr>"
    using assms(1) by (simp add: pd'_def pd_set_entry_def prs_pd_get_entry_mod)
  have "pde_ptr ?e \<noteq> 0" using pd_live_ptr [OF assms(1,2)] by simp
  then have "\<forall>x \<in> set ((pd_entries pd)[?i := ?e]). pde_taken x \<longrightarrow> pde_ptr x \<noteq> 0"
    using assms(1) in_set_nth_update by (fastforce simp: pd_wf_def)
  then show "pd_wf pd'" using assms(1) set(1) by (simp add: pd_wf_def pd')
  show "pd_write_index pd' = pd_write_index pd" by (simp add: pd')
  show "pd_live pd' = (pd_live pd)(pid := (if 0 < pd_refs h then Some ?e else None))"
    by (auto simp: fun_eq_iff pd_live_def pd' set(2) pde_taken_def word_eq_iff_unat)
qed

section \<open>Allocation\<close>

definition pd_alloc_at :: "prs_pd \<Rightarrow> ptr \<Rightarrow> u64 \<Rightarrow> prs_pd" where
  "pd_alloc_at pd p j = (pd_set_entry pd (prs_pd_get_entry pd j)
     \<lparr>pde_header = PRS_PD_REFCNT_INC OR (j AND PRS_PD_ID_MASK), pde_ptr = p\<rparr>)\<lparr>pd_write_index := j + 1\<rparr>"

lemma prs_pd_alloc_loop_find:
  assumes "pd_wf pd"
  shows "prs_pd_alloc_loop pd p i lim =
    (case find (tab_free pde_taken pde_ident (pd_entries pd)) [unat i ..< unat lim] of
       None \<Rightarrow> (pd, PRS_OUT_OF_MEMORY, PRS_PD_ID_INVALID)
     | Some j \<Rightarrow> (pd_alloc_at pd p (word_of_nat j), PRS_OK, word_of_nat j))"
  using assms
proof (induction pd p i lim rule: prs_pd_alloc_loop.induct)
  case (1 pd p i lim)
  let ?h = "pde_header (pd_entries pd ! prs_pd_get_entry pd i)"
  have free: "tab_free pde_taken pde_ident (pd_entries pd) (unat i) \<longleftrightarrow> pd_refs ?h = 0 \<and> pd_hid ?h \<noteq> unat i"
    using "1.prems" by (simp add: tab_free_def prs_pd_get_entry_mod pde_taken_def pde_ident_def)
  show ?case
  proof (cases "i < lim")
    case True
    then have up: "[unat i ..< unat lim] = unat i # [unat (i + 1) ..< unat lim]"
      using upt_head [of "unat i" "unat lim"] unat_add_one_less [OF True]
      by (simp add: word_less_nat_alt)
    show ?thesis
      using True "1.IH" [OF True refl _ "1.prems"] free up
      by (subst prs_pd_alloc_loop.simps) (auto simp: prs_pd_alloc_body_def Let_def pd_alloc_at_def)
  next
    case False
    then show ?thesis
      by (subst prs_pd_alloc_loop.simps) (simp add: word_less_nat_alt)
  qed
qed

lemma pd_alloc_at_wf:
  assumes "pd_wf pd" and "p \<noteq> 0" and "unat (pd_write_index pd) \<le> unat j" and "unat j < 2 ^ 52"
    and "\<not> pde_taken (pd_entries pd ! (unat j mod length (pd_entries pd)))"
  shows "pd_wf (pd_alloc_at pd p j)" and "pd_live pd j = None"
    and "\<exists>e. pd_live (pd_alloc_at pd p j) = (pd_live pd)(j \<mapsto> e) \<and> pde_ptr e = p \<and> pd_refs (pde_header e) = 1"
    and "unat (pd_write_index (pd_alloc_at pd p j)) = unat j + 1"
proof -
  let ?i = "unat j mod length (pd_entries pd)"
  let ?e = "\<lparr>pde_header = PRS_PD_REFCNT_INC OR (j AND PRS_PD_ID_MASK), pde_ptr = p\<rparr>"
  have ok: "tab_ok pde_taken pde_ident (pd_entries pd) (unat (pd_write_index pd))"
    using assms(1) by (simp add: pd_wf_def)
  have e: "pde_ident ?e = unat j" "pde_taken ?e"
    using assms(4) by (simp_all add: pde_ident_def pde_taken_def pd_alloc_header_fields)
  note set = pd_tab.set_fresh [OF ok assms(5,3) e]
  have at: "pd_alloc_at pd p j = pd\<lparr>pd_entries := (pd_entries pd)[?i := ?e], pd_write_index := j + 1\<rparr>"
    using assms(1) by (simp add: pd_alloc_at_def pd_set_entry_def prs_pd_get_entry_mod)
  have suc: "unat (j + 1) = unat j + 1" using assms(4) unat_add_no_wrap [of j 1] by simp
  have "\<forall>x \<in> set ((pd_entries pd)[?i := ?e]). pde_taken x \<longrightarrow> pde_ptr x \<noteq> 0"
    using assms(1,2) in_set_nth_update by (fastforce simp: pd_wf_def)
  then show "pd_wf (pd_alloc_at pd p j)" using assms(1) set(1) suc by (simp add: pd_wf_def at)
  show "pd_live pd j = None" using set(2) by (simp add: pd_live_def)
  have "pd_live (pd_alloc_at pd p j) = (pd_live pd)(j \<mapsto> ?e)"
    by (auto simp: fun_eq_iff pd_live_def at set(3) word_eq_iff_unat)
  then show "\<exists>e. pd_live (pd_alloc_at pd p j) = (pd_live pd)(j \<mapsto> e) \<and> pde_ptr e = p \<and> pd_refs (pde_header e) = 1"
    by (intro exI [of _ ?e]) (simp add: pd_alloc_header_fields)
  show "unat (pd_write_index (pd_alloc_at pd p j)) = unat j + 1" using suc by (simp add: at)
qed

lemma prs_pd_alloc_cases:
  assumes "pd_wf pd" and "pd_ids_left pd"
  obtains (full) "prs_pd_alloc_and_lock pd p = (pd, PRS_OUT_OF_MEMORY, PRS_PD_ID_INVALID)"
      "\<forall>e \<in> set (pd_entries pd). pde_taken e"
  | (found) j where "unat (pd_write_index pd) \<le> unat j" "unat j < 2 ^ 52"
      "\<not> pde_taken (pd_entries pd ! (unat j mod length (pd_entries pd)))"
      "prs_pd_alloc_and_lock pd p = (pd_alloc_at pd p j, PRS_OK, j)"
proof -
  let ?w = "unat (pd_write_index pd)" and ?n = "length (pd_entries pd)"
  let ?find = "find (tab_free pde_taken pde_ident (pd_entries pd)) [?w ..< ?w + ?n]"
  have n: "unat (pd_max_entries pd) = ?n" using assms(1) by (simp add: pd_wf_def)
  have sum: "?w + ?n \<le> 2 ^ 52" using assms(2) n by (simp add: pd_ids_left_def)
  have lim: "unat (pd_write_index pd + pd_max_entries pd) = ?w + ?n"
    using n sum by (subst unat_add_no_wrap) simp_all
  have run: "prs_pd_alloc_and_lock pd p = (case ?find of
      None \<Rightarrow> (pd, PRS_OUT_OF_MEMORY, PRS_PD_ID_INVALID)
    | Some j \<Rightarrow> (pd_alloc_at pd p (word_of_nat j), PRS_OK, word_of_nat j))"
    by (simp add: prs_pd_alloc_and_lock_def prs_pd_alloc_loop_find [OF assms(1)] lim Let_def)
  have ok: "tab_ok pde_taken pde_ident (pd_entries pd) ?w" using assms(1) by (simp add: pd_wf_def)
  show thesis
  proof (cases ?find)
    case None
    then have "\<forall>e \<in> set (pd_entries pd). pde_taken e"
      using pd_tab.scan_full [OF ok None] by (auto simp: in_set_conv_nth)
    then show thesis using run None full by simp
  next
    case (Some j)
    note f = pd_tab.scan_found [OF ok Some]
    have "unat (word_of_nat j :: u64) = j" using f(2) sum by (simp add: unat_of_nat)
    then show thesis
      using run Some f sum found [of "word_of_nat j"] by simp
  qed
qed

section \<open>References\<close>

lemma pd_lock_live:
  assumes "pd_wf pd" and "pd_live pd pid = Some e" and "pd_refs (pde_header e) < 4095"
  shows "\<exists>pd'. prs_pd_lock pd pid = (pd', pde_ptr e) \<and> pd_wf pd'
    \<and> pd_write_index pd' = pd_write_index pd
    \<and> pd_live pd' = (pd_live pd)(pid \<mapsto> e\<lparr>pde_header := pde_header e + PRS_PD_REFCNT_INC\<rparr>)"
proof -
  let ?h = "pde_header e + PRS_PD_REFCNT_INC"
  have e: "e = pd_entries pd ! prs_pd_get_entry pd pid" "0 < pd_refs (pde_header e)"
      "pd_hid (pde_header e) = unat pid"
    using assms(2) unfolding pd_live_Some [OF assms(1)] by blast+
  have "pid \<noteq> PRS_PD_ID_INVALID" using assms(2) pd_live_invalid by auto
  then have run: "prs_pd_lock pd pid
      = (pd_set_entry pd (prs_pd_get_entry pd pid) (e\<lparr>pde_header := ?h\<rparr>), pde_ptr e)"
    using e assms(3) by (simp add: prs_pd_lock_def prs_pd_lock_body_def Let_def)
  have "pd_hid ?h = unat pid" "0 < pd_refs ?h" using pd_inc_fields [OF assms(3)] e by simp_all
  with pd_set_live [OF assms(1,2), of ?h] run show ?thesis by simp
qed

lemma pd_lock_dead:
  assumes "pd_wf pd" and "pd_live pd pid = None"
  shows "prs_pd_lock pd pid = (pd, 0)" and "prs_pd_unlock pd pid = (pd, False)"
  using assms
  by (auto simp: prs_pd_lock_def prs_pd_unlock_def prs_pd_lock_body_def prs_pd_unlock_body_def Let_def
      pd_live_None)

lemma pd_unlock_live:
  assumes "pd_wf pd" and "pd_live pd pid = Some e"
  shows "\<exists>pd'. prs_pd_unlock pd pid = (pd', pd_refs (pde_header e) = 1) \<and> pd_wf pd'
    \<and> pd_write_index pd' = pd_write_index pd
    \<and> pd_live pd' = (pd_live pd)(pid := (if pd_refs (pde_header e) = 1 then None
        else Some (e\<lparr>pde_header := pde_header e - PRS_PD_REFCNT_INC\<rparr>)))"
proof -
  let ?h = "pde_header e - PRS_PD_REFCNT_INC"
  have e: "e = pd_entries pd ! prs_pd_get_entry pd pid" "0 < pd_refs (pde_header e)"
      "pd_hid (pde_header e) = unat pid"
    using assms(2) unfolding pd_live_Some [OF assms(1)] by blast+
  have "pid \<noteq> PRS_PD_ID_INVALID" using assms(2) pd_live_invalid by auto
  then have run: "prs_pd_unlock pd pid
      = (pd_set_entry pd (prs_pd_get_entry pd pid) (e\<lparr>pde_header := ?h\<rparr>), pd_refs (pde_header e) = 1)"
    using e by (simp add: prs_pd_unlock_def prs_pd_unlock_body_def Let_def)
  have "pd_hid ?h = unat pid" "pd_refs ?h = pd_refs (pde_header e) - 1"
    using pd_dec_fields e by simp_all
  with pd_set_live [OF assms, of ?h] run e(2) show ?thesis by simp
qed

definition pd_lock_ok :: "prs_pd \<Rightarrow> u64 \<Rightarrow> prs_pd \<times> bool" where
  "pd_lock_ok pd pid = (case prs_pd_lock pd pid of (pd', p) \<Rightarrow> (pd', p \<noteq> 0))"

lemma pd_view_Some: "pd_view pd pid = Some n \<longleftrightarrow> (\<exists>e. pd_live pd pid = Some e \<and> pd_refs (pde_header e) = n)"
  by (auto simp: pd_view_def)

interpretation pd_dir: ref_directory pd_wf pd_view pd_lock_ok prs_pd_unlock 4095
proof unfold_locales
  fix s i n assume a: "pd_wf s" "pd_view s i = Some n" "0 < n" "n < 4095"
  then obtain e where e: "pd_live s i = Some e" "pd_refs (pde_header e) = n" by (auto simp: pd_view_Some)
  obtain s' where s': "prs_pd_lock s i = (s', pde_ptr e)" "pd_wf s'"
      "pd_live s' = (pd_live s)(i \<mapsto> e\<lparr>pde_header := pde_header e + PRS_PD_REFCNT_INC\<rparr>)"
    using pd_lock_live [OF a(1) e(1)] e(2) a(4) by auto
  then have "pd_view s' = (pd_view s)(i \<mapsto> n + 1)"
    using e a(4) pd_inc_fields(1) by (auto simp: pd_view_def fun_eq_iff)
  then show "\<exists>s'. pd_lock_ok s i = (s', True) \<and> pd_wf s' \<and> pd_view s' = (pd_view s)(i \<mapsto> n + 1)"
    using s' pd_live_ptr [OF a(1) e(1)] by (simp add: pd_lock_ok_def)
next
  fix s i assume "pd_wf s" "pd_view s i = None"
  then show "pd_lock_ok s i = (s, False)" by (simp add: pd_lock_ok_def pd_view_def pd_lock_dead)
next
  fix s i n assume a: "pd_wf s" "pd_view s i = Some n" "1 < n"
  then obtain e where e: "pd_live s i = Some e" "pd_refs (pde_header e) = n" by (auto simp: pd_view_Some)
  obtain s' where s': "prs_pd_unlock s i = (s', False)" "pd_wf s'"
      "pd_live s' = (pd_live s)(i \<mapsto> e\<lparr>pde_header := pde_header e - PRS_PD_REFCNT_INC\<rparr>)"
    using pd_unlock_live [OF a(1) e(1)] e(2) a(3) by auto
  then have "pd_view s' = (pd_view s)(i \<mapsto> n - 1)"
    using e a(3) pd_dec_fields(1) by (auto simp: pd_view_def fun_eq_iff)
  then show "\<exists>s'. prs_pd_unlock s i = (s', False) \<and> pd_wf s' \<and> pd_view s' = (pd_view s)(i \<mapsto> n - 1)"
    using s' by simp
next
  fix s i assume a: "pd_wf s" "pd_view s i = Some 1"
  then obtain e where e: "pd_live s i = Some e" "pd_refs (pde_header e) = 1" by (auto simp: pd_view_Some)
  show "\<exists>s'. prs_pd_unlock s i = (s', True) \<and> pd_wf s' \<and> pd_view s' = (pd_view s)(i := None)"
    using pd_unlock_live [OF a(1) e(1)] e(2) by (auto simp: pd_view_def fun_eq_iff)
qed

definition pd_ref_body :: "u64 \<Rightarrow> refop \<Rightarrow> u64 \<Rightarrow> (u64, unit) cas_body" where
  "pd_ref_body pid op h =
     (case op of
        Lock \<Rightarrow> map_cas_body (\<lambda>x. x) (\<lambda>_. ()) (prs_pd_lock_body pid h)
      | Unlock \<Rightarrow> map_cas_body (\<lambda>x. x) (\<lambda>_. ()) (prs_pd_unlock_body pid h))"

lemma pd_ref_body_Swap:
  assumes "pd_ref_body pid op h = Swap v r"
  shows "pd_hid h = unat pid" and "0 < pd_refs h" and "pd_hid v = unat pid"
    and "pd_refs v = (case op of Lock \<Rightarrow> pd_refs h + 1 | Unlock \<Rightarrow> pd_refs h - 1)"
proof -
  have "pd_hid h = unat pid \<and> 0 < pd_refs h \<and>
    (case op of Lock \<Rightarrow> v = h + PRS_PD_REFCNT_INC \<and> pd_refs h < 4095 | Unlock \<Rightarrow> v = h - PRS_PD_REFCNT_INC)"
    using assms pd_refs_less [of h]
    by (auto simp: pd_ref_body_def prs_pd_lock_body_def prs_pd_unlock_body_def Let_def
        split: refop.splits if_splits)
  then show "pd_hid h = unat pid" and "0 < pd_refs h" and "pd_hid v = unat pid"
    and "pd_refs v = (case op of Lock \<Rightarrow> pd_refs h + 1 | Unlock \<Rightarrow> pd_refs h - 1)"
    using pd_inc_fields [of h] pd_dec_fields [of h] by (auto split: refop.splits)
qed

interpretation pd_cell: refcounted pd_refs "\<lambda>h. 0 < pd_refs h" PRS_PD_GET_ID pd_ref_body
  by unfold_locales (use pd_ref_body_Swap in \<open>force split: refop.splits\<close>)+

section \<open>Any sequence of calls\<close>

datatype pd_call = PdAlloc ptr | PdLock u64 | PdUnlock u64

fun pd_exec :: "prs_pd \<Rightarrow> pd_call \<Rightarrow> prs_pd" where
  "pd_exec pd (PdAlloc p) = fst (prs_pd_alloc_and_lock pd p)"
| "pd_exec pd (PdLock pid) = fst (prs_pd_lock pd pid)"
| "pd_exec pd (PdUnlock pid) = fst (prs_pd_unlock pd pid)"

fun pd_call_ok :: "prs_pd \<Rightarrow> pd_call \<Rightarrow> bool" where
  "pd_call_ok pd (PdAlloc p) = (pd_ids_left pd \<and> p \<noteq> 0)"
| "pd_call_ok pd _ = True"

inductive pd_reach :: "prs_pd \<Rightarrow> prs_pd \<Rightarrow> bool" for pd0 where
  start: "pd_reach pd0 pd0"
| call: "pd_reach pd0 pd \<Longrightarrow> pd_call_ok pd c \<Longrightarrow> pd_reach pd0 (pd_exec pd c)"

text \<open>What one call may do: keep the directory well-formed, never lower the write index, never make
  an ID below it live again, and never change the pointer of an ID that stays live.\<close>

definition pd_evolves :: "prs_pd \<Rightarrow> prs_pd \<Rightarrow> bool" where
  "pd_evolves pd pd' \<longleftrightarrow> pd_wf pd' \<and> unat (pd_write_index pd) \<le> unat (pd_write_index pd')
     \<and> (\<forall>pid. unat pid < unat (pd_write_index pd) \<longrightarrow>
          pd_pointer pd' pid = None \<or> pd_pointer pd' pid = pd_pointer pd pid)"

lemma pd_evolves_refl: "pd_wf pd \<Longrightarrow> pd_evolves pd pd"
  by (simp add: pd_evolves_def)

lemma pd_evolves_trans: "pd_evolves p q \<Longrightarrow> pd_evolves q r \<Longrightarrow> pd_evolves p r"
  unfolding pd_evolves_def by (metis (no_types, lifting) order.trans less_le_trans)

lemma pd_evolves_live:
  assumes "pd_wf pd'" and "pd_write_index pd' = pd_write_index pd" and "pd_live pd pid = Some e"
    and "pd_live pd' = (pd_live pd)(pid := v)" and "v = None \<or> map_option pde_ptr v = Some (pde_ptr e)"
  shows "pd_evolves pd pd'"
  using assms by (auto simp: pd_evolves_def pd_pointer_def)

lemma pd_exec_evolves:
  assumes "pd_wf pd" and "pd_call_ok pd c"
  shows "pd_evolves pd (pd_exec pd c)"
proof (cases c)
  case (PdAlloc p)
  then have ok: "pd_ids_left pd" "p \<noteq> 0" using assms(2) by simp_all
  from assms(1) ok(1) show ?thesis
  proof (cases rule: prs_pd_alloc_cases [where p = p])
    case full
    then show ?thesis using PdAlloc assms(1) by (simp add: pd_evolves_refl)
  next
    case (found j)
    obtain e where "pd_live (pd_alloc_at pd p j) = (pd_live pd)(j \<mapsto> e)"
      using pd_alloc_at_wf(3) [OF assms(1) ok(2) found(1-3)] by blast
    then show ?thesis
      using pd_alloc_at_wf(1,4) [OF assms(1) ok(2) found(1-3)] found(1,4) PdAlloc
      by (auto simp: pd_evolves_def pd_pointer_def)
  qed
next
  case (PdLock pid)
  show ?thesis
  proof (cases "pd_live pd pid")
    case None
    then show ?thesis using PdLock assms(1) by (simp add: pd_lock_dead pd_evolves_refl)
  next
    case (Some e)
    show ?thesis
    proof (cases "pd_refs (pde_header e) < 4095")
      case True
      then show ?thesis
        using pd_lock_live [OF assms(1) Some True] PdLock Some by (auto intro: pd_evolves_live)
    next
      case False
      then have "pd_refs (pde_header e) = 4095" using pd_refs_less [of "pde_header e"] by simp
      moreover have "e = pd_entries pd ! prs_pd_get_entry pd pid"
        using Some unfolding pd_live_Some [OF assms(1)] by blast
      ultimately have "prs_pd_lock pd pid = (pd, 0)"
        by (auto simp: prs_pd_lock_def prs_pd_lock_body_def Let_def)
      then show ?thesis using PdLock assms(1) by (simp add: pd_evolves_refl)
    qed
  qed
next
  case (PdUnlock pid)
  show ?thesis
  proof (cases "pd_live pd pid")
    case None
    then show ?thesis using PdUnlock assms(1) by (simp add: pd_lock_dead pd_evolves_refl)
  next
    case (Some e)
    then show ?thesis
      using pd_unlock_live [OF assms(1) Some] PdUnlock
      by (auto intro!: pd_evolves_live split: if_splits)
  qed
qed

lemma pd_reach_evolves:
  assumes "pd_reach pd0 pd" and "pd_wf pd0"
  shows "pd_evolves pd0 pd"
  using assms
proof (induction rule: pd_reach.induct)
  case start
  then show ?case by (simp add: pd_evolves_refl)
next
  case (call pd c)
  then have "pd_evolves pd0 pd" and "pd_wf pd" by (simp_all add: pd_evolves_def)
  with call.hyps(2) show ?case by (blast intro: pd_evolves_trans pd_exec_evolves)
qed

lemma prs_pd_create_fresh:
  assumes "unat (pdp_max_entries params) = 2 ^ k" and "0 < k" and "k < 52"
    and "length initial = 2 ^ k" and "\<forall>e \<in> set initial. pde_header e = 0"
    and "prs_pd_create params initial pd_mem entries_mem = (Some pd, freed)"
  shows "pd_wf pd" and "pd_live pd = Map.empty" and "pd_ids_left pd" and "freed = []"
    and "pd_write_index pd = 1" and "pd_entries pd = initial"
proof -
  have f: "pd_entries pd = initial" "pd_max_entries pd = pdp_max_entries params"
      "pd_max_entries_mask pd = pdp_max_entries params - 1" "pd_write_index pd = 1" "freed = []"
    using assms(6) by (auto simp: prs_pd_create_def Let_def split: option.splits)
  then show "freed = []" "pd_write_index pd = 1" "pd_entries pd = initial" by simp_all
  have ne: "initial \<noteq> []" using assms(4) by auto
  note fresh = pd_tab.fresh_table [OF ne assms(5)]
  have "\<forall>e \<in> set initial. \<not> pde_taken e" using assms(5) by (simp add: pde_taken_def pd_refs_def)
  then show "pd_wf pd" using assms(1-4) f fresh(1) by (auto simp: pd_wf_def)
  show "pd_live pd = Map.empty" using fresh(2) f(1) by (auto simp: pd_live_def fun_eq_iff)
  have "(2 :: nat) ^ k \<le> 2 ^ 51" using assms(3) by (intro power_increasing) simp_all
  then show "pd_ids_left pd" using assms(1) f by (simp add: pd_ids_left_def)
qed

section \<open>Properties\<close>

text \<open>A directory of four entries, for the witnesses.\<close>

definition pd_example :: prs_pd where
  "pd_example =
     (case prs_pd_create \<lparr>pdp_max_entries = 4, pdp_area = None\<rparr>
             (replicate 4 \<lparr>pde_header = 0, pde_ptr = 0\<rparr>) (Some 4096) (Some 8192) of
        (Some pd, _) \<Rightarrow> pd
      | (None, _) \<Rightarrow> undefined)"

lemma pd_example_fresh: "pd_wf pd_example" "pd_live pd_example = Map.empty" "pd_ids_left pd_example"
proof -
  let ?params = "\<lparr>pdp_max_entries = 4, pdp_area = None\<rparr>"
  let ?init = "replicate 4 \<lparr>pde_header = 0, pde_ptr = 0\<rparr>"
  obtain pd where pd: "prs_pd_create ?params ?init (Some 4096) (Some 8192) = (Some pd, [])"
    by (simp add: prs_pd_create_def Let_def)
  from prs_pd_create_fresh [OF _ _ _ _ _ pd, of 2] have "pd_wf pd" "pd_live pd = Map.empty" "pd_ids_left pd"
    by simp_all
  with pd show "pd_wf pd_example" "pd_live pd_example = Map.empty" "pd_ids_left pd_example"
    by (simp_all add: pd_example_def)
qed

text \<open>In a well-formed directory with IDs left, prs_pd_alloc_and_lock of a pointer that is not null
  either finds every entry referenced, changes nothing and returns PRS_OUT_OF_MEMORY with the invalid
  ID, or it returns PRS_OK with an ID that was not live and not below the write index, under which
  prs_pd_lock then returns exactly that pointer; the other IDs keep their entries.\<close>

theorem pd_alloc_lock_roundtrip:
  assumes "pd_wf pd" and "pd_ids_left pd" and "p \<noteq> 0"
  shows "case prs_pd_alloc_and_lock pd p of (pd', r, pid) \<Rightarrow>
      pd_wf pd' \<and>
      (if r = PRS_OK then
         pd_live pd pid = None \<and> unat (pd_write_index pd) \<le> unat pid \<and> pd_view pd' pid = Some 1
         \<and> snd (prs_pd_lock pd' pid) = p
         \<and> (\<forall>other. other \<noteq> pid \<longrightarrow> pd_live pd' other = pd_live pd other)
       else r = PRS_OUT_OF_MEMORY \<and> pd' = pd \<and> pid = PRS_PD_ID_INVALID
         \<and> (\<forall>e \<in> set (pd_entries pd). 0 < pd_refs (pde_header e)))"
  using assms(1,2)
proof (cases rule: prs_pd_alloc_cases [where p = p])
  case full
  then show ?thesis using assms(1) by (simp add: pde_taken_def)
next
  case (found j)
  note at = pd_alloc_at_wf [OF assms(1,3) found(1-3)]
  obtain e where e: "pd_live (pd_alloc_at pd p j) = (pd_live pd)(j \<mapsto> e)" "pde_ptr e = p"
      "pd_refs (pde_header e) = 1" using at(3) by blast
  then have l: "pd_live (pd_alloc_at pd p j) j = Some e" by simp
  from pd_lock_live [OF at(1) l] e have "snd (prs_pd_lock (pd_alloc_at pd p j) j) = p" by auto
  then show ?thesis using found at(1,2) e by (simp add: pd_view_def)
qed

theorem pd_alloc_lock_roundtrip_witness:
  "case prs_pd_alloc_and_lock pd_example 77 of (pd', r, pid) \<Rightarrow>
     r = PRS_OK \<and> pid = 1 \<and> pd_view pd' 1 = Some 1 \<and> snd (prs_pd_lock pd' 1) = 77"
proof -
  have "snd (prs_pd_alloc_and_lock pd_example 77) = (PRS_OK, 1)" by code_simp
  then obtain pd' where "prs_pd_alloc_and_lock pd_example 77 = (pd', PRS_OK, 1)"
    by (metis prod.collapse)
  then show ?thesis using pd_alloc_lock_roundtrip [OF pd_example_fresh(1,3), of 77] by simp
qed

text \<open>Over any sequence of calls (with any IDs, stale ones included) a well-formed directory stays
  well-formed and an ID once handed out never changes its pointer: prs_pd_lock on it returns the pointer
  it was registered with, or null once it is no longer live; a dead ID stays dead.\<close>

theorem pd_pointer_stable:
  assumes "pd_wf pd0" and "pd_reach pd0 pd" and "unat pid < unat (pd_write_index pd0)"
  shows "pd_wf pd \<and> (case pd_pointer pd0 pid of
      None \<Rightarrow> prs_pd_lock pd pid = (pd, 0)
    | Some p \<Rightarrow> snd (prs_pd_lock pd pid) = p \<or> snd (prs_pd_lock pd pid) = 0)"
proof -
  from pd_reach_evolves [OF assms(2,1)] assms(3) have wf: "pd_wf pd"
    and ptr: "pd_pointer pd pid = None \<or> pd_pointer pd pid = pd_pointer pd0 pid"
    by (auto simp: pd_evolves_def)
  show ?thesis
  proof (cases "pd_live pd pid")
    case None
    then show ?thesis using wf by (auto simp: pd_lock_dead split: option.splits)
  next
    case (Some e)
    then have "pd_pointer pd0 pid = Some (pde_ptr e)" using ptr by (simp add: pd_pointer_def)
    moreover have "e = pd_entries pd ! prs_pd_get_entry pd pid"
      using Some unfolding pd_live_Some [OF wf] by blast
    then have "snd (prs_pd_lock pd pid) \<in> {0, pde_ptr e}"
      by (auto simp: prs_pd_lock_def Let_def split: prod.splits)
    ultimately show ?thesis using wf by auto
  qed
qed

theorem pd_pointer_stable_witness:
  "snd (prs_pd_lock (pd_exec (pd_exec pd_example (PdAlloc 77)) (PdUnlock 1)) 1) = 0
   \<and> pd_wf (pd_exec (pd_exec pd_example (PdAlloc 77)) (PdUnlock 1))"
proof -
  let ?old = "pd_exec pd_example (PdAlloc 77)" and ?pd = "pd_exec (pd_exec pd_example (PdAlloc 77)) (PdUnlock 1)"
  have "pd_evolves pd_example ?old"
    using pd_exec_evolves [OF pd_example_fresh(1), of "PdAlloc 77"] pd_example_fresh(3) by simp
  then have wf: "pd_wf ?old" by (simp add: pd_evolves_def)
  have "pd_reach ?old ?pd" by (rule pd_reach.call [OF pd_reach.start]) simp
  moreover have "pd_write_index ?old = 2" by code_simp
  ultimately have "pd_wf ?pd" using pd_pointer_stable [OF wf, of ?pd 1] by simp
  moreover have "snd (prs_pd_lock ?pd 1) = 0" by code_simp
  ultimately show ?thesis by simp
qed

text \<open>Any sequence of prs_pd_lock and prs_pd_unlock on a live ID that keeps a reference counts
  exactly; after it, dropping the last reference is reported, and the ID can no longer be locked. The
  same count holds in the header when any number of threads race in the two loops.\<close>

theorem pd_references:
  assumes "pd_wf pd" and "pd_view pd pid = Some n" and "0 < n" and "refs_run 4095 n ops = Some m"
    and "cas_reach (pd_ref_body pid) h0 s" and "0 < pd_refs h0"
  shows "pd_view (dir_run pd_lock_ok prs_pd_unlock pd pid ops) = (pd_view pd)(pid \<mapsto> m)
    \<and> (m = 1 \<longrightarrow> (\<exists>pd'. prs_pd_unlock (dir_run pd_lock_ok prs_pd_unlock pd pid ops) pid = (pd', True)
          \<and> pd_view pd' = (pd_view pd)(pid := None) \<and> pd_lock_ok pd' pid = (pd', False)))
    \<and> pd_refs (cell s) + count_list (hist s) Unlock = pd_refs h0 + count_list (hist s) Lock"
  using pd_dir.run_keeps_live [OF assms(1-4)] pd_dir.run_then_free [OF assms(1-3), of ops] assms(4)
    pd_cell.refs_balance [OF assms(5)]
  by blast

theorem pd_references_witness:
  "\<exists>pd'. prs_pd_unlock (dir_run pd_lock_ok prs_pd_unlock (pd_exec pd_example (PdAlloc 77)) 1 [Lock, Unlock]) 1
     = (pd', True) \<and> pd_lock_ok pd' 1 = (pd', False)"
proof -
  let ?pd = "pd_exec pd_example (PdAlloc 77)"
  have run: "snd (prs_pd_alloc_and_lock pd_example 77) = (PRS_OK, 1)" by code_simp
  have "pd_evolves pd_example ?pd"
    using pd_exec_evolves [OF pd_example_fresh(1), of "PdAlloc 77"] pd_example_fresh(3) by simp
  then have wf: "pd_wf ?pd" by (simp add: pd_evolves_def)
  have e: "pd_entries ?pd ! prs_pd_get_entry ?pd 1
      = \<lparr>pde_header = PRS_PD_REFCNT_INC OR (1 AND PRS_PD_ID_MASK), pde_ptr = 77\<rparr>" by code_simp
  have "pd_live ?pd 1 = Some (pd_entries ?pd ! prs_pd_get_entry ?pd 1)"
    unfolding pd_live_Some [OF wf] e by (simp add: pd_alloc_header_fields)
  then have "pd_view ?pd 1 = Some 1" 
    unfolding pd_view_def by (simp only: e pd_alloc_header_fields option.map prs_pd_entry.simps)
  moreover have "0 < pd_refs PRS_PD_REFCNT_INC" by (simp add: pd_refs_def unat_PD_INC)
  ultimately show ?thesis
    using pd_references [OF wf _ _ _ cas_reach.start, of 1 1 "[Lock, Unlock]" 1] by auto
qed

end
