(* ===== verification/God.thy ===== *)
theory God
  imports Refdir Idtable
begin

text \<open>
  The global object directory of \<^verbatim>\<open>prs/god.c\<close>: objects under 32-bit IDs, with 64-bit headers that pack
  the ID, three flags (reserved, used, marked for deletion) and a 12-bit reference count. The functions
  of an object (\<^verbatim>\<open>struct prs_object_ops\<close> of \<^verbatim>\<open>include/prs/object.h\<close>) are reached through a pointer; the
  model takes the table of functions behind these pointers as a parameter. A function may itself call
  the directory, so it transforms the pair of the directory and the rest of the world.
\<close>

section \<open>The header word\<close>

definition PRS_GOD_HEADER_BITS :: nat where
  "PRS_GOD_HEADER_BITS = 64"

definition PRS_GOD_ID_BITS :: nat where
  "PRS_GOD_ID_BITS = 32"

definition PRS_GOD_NONID_BITS :: nat where
  "PRS_GOD_NONID_BITS = PRS_GOD_HEADER_BITS - PRS_GOD_ID_BITS"

definition PRS_GOD_HEADER_ID :: u64 where
  "PRS_GOD_HEADER_ID = push_bit PRS_GOD_NONID_BITS (push_bit PRS_GOD_ID_BITS 1 - 1)"

definition PRS_GOD_HEADER_RESERVED :: u64 where
  "PRS_GOD_HEADER_RESERVED = 0x4000"

definition PRS_GOD_HEADER_USED :: u64 where
  "PRS_GOD_HEADER_USED = 0x2000"

definition PRS_GOD_HEADER_DELETE_MARK :: u64 where
  "PRS_GOD_HEADER_DELETE_MARK = 0x1000"

definition PRS_GOD_HEADER_REFCNT :: u64 where
  "PRS_GOD_HEADER_REFCNT = 0xFFF"

definition PRS_GOD_TEST_FLAG :: "u64 \<Rightarrow> u64 \<Rightarrow> u64" where
  "PRS_GOD_TEST_FLAG header flag = header AND flag"

definition PRS_GOD_GET_ID :: "u64 \<Rightarrow> u64" where
  "PRS_GOD_GET_ID flags = drop_bit PRS_GOD_NONID_BITS (flags AND PRS_GOD_HEADER_ID)"

definition PRS_GOD_SET_ID :: "prs_object_id_t \<Rightarrow> u64" where
  "PRS_GOD_SET_ID oid = push_bit PRS_GOD_NONID_BITS (ucast oid)"

lemmas god_const_defs =
  PRS_GOD_HEADER_BITS_def PRS_GOD_ID_BITS_def PRS_GOD_NONID_BITS_def PRS_GOD_HEADER_ID_def
  PRS_GOD_HEADER_RESERVED_def PRS_GOD_HEADER_USED_def PRS_GOD_HEADER_DELETE_MARK_def
  PRS_GOD_HEADER_REFCNT_def

section \<open>Data\<close>

record 's prs_object_ops =
  op_destroy :: "(ptr \<Rightarrow> 's \<Rightarrow> 's) option"
  op_free :: "(ptr \<Rightarrow> 's \<Rightarrow> 's) option"
  op_print :: "(ptr \<Rightarrow> 's \<Rightarrow> 's \<times> string list) option"

record prs_god_entry =
  goe_header :: u64
  goe_object :: ptr
  goe_ops :: ptr

record prs_god =
  god_addr :: ptr
  god_entries_addr :: ptr
  god_entries :: "prs_god_entry list"
  god_max_entries :: u32
  god_max_entries_mask :: u32
  god_write_index :: u32

text \<open>The state that the callbacks work on, and the functions behind the pointers to operations.\<close>

type_synonym 'w god_world = "prs_god \<times> 'w"
type_synonym 'w god_ops = "ptr \<Rightarrow> 'w god_world prs_object_ops"

definition prs_god_get_entry :: "prs_god \<Rightarrow> prs_object_id_t \<Rightarrow> nat" where
  "prs_god_get_entry god oid = unat (oid AND god_max_entries_mask god)"

definition god_entry :: "prs_god \<Rightarrow> prs_object_id_t \<Rightarrow> prs_god_entry" where
  "god_entry god oid = god_entries god ! prs_god_get_entry god oid"

definition god_set_entry :: "prs_god \<Rightarrow> nat \<Rightarrow> prs_god_entry \<Rightarrow> prs_god" where
  "god_set_entry god index e = god\<lparr>god_entries := (god_entries god)[index := e]\<rparr>"

definition god_set_header :: "prs_god \<Rightarrow> prs_object_id_t \<Rightarrow> u64 \<Rightarrow> prs_god" where
  "god_set_header god oid h =
     god_set_entry god (prs_god_get_entry god oid) ((god_entry god oid)\<lparr>goe_header := h\<rparr>)"

section \<open>Creation and destruction\<close>

text \<open>When the first allocation fails, the cleanup of \<^verbatim>\<open>prs_god_create\<close> reads \<^verbatim>\<open>god->entries\<close> through the
  null pointer; the model keeps that as an outcome of its own.\<close>

datatype god_creation = GodCreated prs_god | GodFailed prs_result "ptr list" | GodNullDereference

definition prs_god_create :: "u64 \<Rightarrow> ptr option \<Rightarrow> ptr option \<Rightarrow> god_creation" where
  "prs_god_create max_entries god_mem entries_mem =
     (case god_mem of
        None \<Rightarrow> GodNullDereference
      | Some addr \<Rightarrow>
          (case entries_mem of
             None \<Rightarrow> GodFailed PRS_OUT_OF_MEMORY [addr]
           | Some entries_addr \<Rightarrow>
               (let god = \<lparr>god_addr = addr, god_entries_addr = entries_addr,
                      god_entries = replicate (unat max_entries)
                        \<lparr>goe_header = 0, goe_object = 0, goe_ops = 0\<rparr>,
                      god_max_entries = ucast max_entries,
                      god_max_entries_mask = ucast max_entries - 1, god_write_index = 1\<rparr>
                in GodCreated (god_set_entry god 0 ((god_entries god ! 0)
                     \<lparr>goe_header := PRS_GOD_HEADER_RESERVED OR PRS_GOD_HEADER_USED\<rparr>)))))"

definition prs_god_destroy :: "prs_god \<Rightarrow> ptr list" where
  "prs_god_destroy god = [god_entries_addr god, god_addr god]"

section \<open>Registering an object\<close>

definition prs_god_alloc_body :: "prs_object_id_t \<Rightarrow> u64 \<Rightarrow> (u64, unit) cas_body" where
  "prs_god_alloc_body i header =
     (if PRS_GOD_TEST_FLAG header PRS_GOD_HEADER_RESERVED \<noteq> 0 then Give ()
      else if PRS_GOD_GET_ID header = ucast i then Give ()
      else Swap (PRS_GOD_SET_ID i OR PRS_GOD_HEADER_RESERVED OR 1) ())"

function prs_god_alloc_loop ::
  "prs_god \<Rightarrow> ptr \<Rightarrow> ptr \<Rightarrow> u32 \<Rightarrow> u32 \<Rightarrow> prs_god \<times> prs_object_id_t" where
  "prs_god_alloc_loop god object ops i lim =
     (if i < lim then
        (case prs_god_alloc_body i (goe_header (god_entry god i)) of
           Give _ \<Rightarrow> prs_god_alloc_loop god object ops (i + 1) lim
         | Swap new_header _ \<Rightarrow>
             ((god_set_entry god (prs_god_get_entry god i)
                 \<lparr>goe_header = new_header OR PRS_GOD_HEADER_USED, goe_object = object, goe_ops = ops\<rparr>)
                 \<lparr>god_write_index := i + 1\<rparr>, i))
      else (god, PRS_OBJECT_ID_INVALID))"
  by pat_completeness auto
termination
proof (relation "measure (\<lambda>(god, object, ops, i, lim). unat lim - unat i)", goal_cases)
  case (2 god object ops i lim x)
  then have "unat i < unat lim" by (simp add: word_less_nat_alt)
  moreover have "unat (i + 1) = unat i + 1" using 2(1) by (rule unat_add_one_less)
  ultimately show ?case by simp
qed simp

declare prs_god_alloc_loop.simps [simp del]

definition prs_god_alloc_and_lock :: "prs_god \<Rightarrow> ptr \<Rightarrow> ptr \<Rightarrow> prs_god \<times> prs_object_id_t" where
  "prs_god_alloc_and_lock god object ops =
     (let write_index = god_write_index god;
          lim = write_index + god_max_entries god
      in prs_god_alloc_loop god object ops write_index lim)"

section \<open>References\<close>

text \<open>The loop of \<^verbatim>\<open>prs_god_free\<close> ends with the current header cut down to its ID, whatever the
  header was when it was first read.\<close>

definition prs_god_free :: "'w god_ops \<Rightarrow> 'w god_world \<Rightarrow> prs_object_id_t \<Rightarrow> 'w god_world" where
  "prs_god_free ops_of s oid =
     (if oid = PRS_OBJECT_ID_INVALID then s
      else (let e = god_entry (fst s) oid;
                (god, w) = (case op_free (ops_of (goe_ops e)) of None \<Rightarrow> s | Some f \<Rightarrow> f (goe_object e) s);
                (new_header, _) = cas_run (\<lambda>header. Swap (header AND PRS_GOD_HEADER_ID) ())
                  (goe_header (god_entry god oid))
            in (god_set_header god oid new_header, w)))"

definition prs_god_find :: "prs_god \<Rightarrow> prs_object_id_t \<Rightarrow> ptr" where
  "prs_god_find god oid = (if oid = PRS_OBJECT_ID_INVALID then 0 else goe_object (god_entry god oid))"

definition prs_god_lock_body :: "prs_object_id_t \<Rightarrow> u64 \<Rightarrow> (u64, bool) cas_body" where
  "prs_god_lock_body oid header =
     (if PRS_GOD_GET_ID header \<noteq> ucast oid then Give False
      else if \<not> PRS_GOD_TEST_FLAG header PRS_GOD_HEADER_USED \<noteq> 0 then Give False
      else if PRS_GOD_TEST_FLAG header PRS_GOD_HEADER_DELETE_MARK \<noteq> 0 then Give False
      else if PRS_GOD_TEST_FLAG header PRS_GOD_HEADER_REFCNT = PRS_GOD_HEADER_REFCNT then Give False
      else Swap (header + 1) True)"

text \<open>Whether the entry was locked; the entry is the one at the ID's index.\<close>

definition prs_god_lock_entry :: "prs_god \<Rightarrow> prs_object_id_t \<Rightarrow> prs_god \<times> bool" where
  "prs_god_lock_entry god oid =
     (if oid = PRS_OBJECT_ID_INVALID then (god, False)
      else (case cas_run (prs_god_lock_body oid) (goe_header (god_entry god oid)) of
              (h, locked) \<Rightarrow> if locked then (god_set_header god oid h, True) else (god, False)))"

definition prs_god_lock :: "prs_god \<Rightarrow> prs_object_id_t \<Rightarrow> prs_god \<times> ptr" where
  "prs_god_lock god oid =
     (case prs_god_lock_entry god oid of
        (god', True) \<Rightarrow> (god', goe_object (god_entry god' oid))
      | (god', False) \<Rightarrow> (god', 0))"

text \<open>The loops of the two unlock functions differ in what they do with a count above one. The
  outcome is \<open>Inl\<close> for an early return and \<open>Inr\<close> with the new header otherwise.\<close>

definition prs_god_unlock_body :: "prs_object_id_t \<Rightarrow> u64 \<Rightarrow> (u64, unit + u64) cas_body" where
  "prs_god_unlock_body oid header =
     (if PRS_GOD_GET_ID header \<noteq> ucast oid then Give (Inl ())
      else if \<not> PRS_GOD_TEST_FLAG header PRS_GOD_HEADER_USED \<noteq> 0 then Give (Inl ())
      else (let refcnt = PRS_GOD_TEST_FLAG header PRS_GOD_HEADER_REFCNT
            in if refcnt = 1 then
                 (let new_header = (header OR PRS_GOD_HEADER_DELETE_MARK) AND NOT PRS_GOD_HEADER_REFCNT
                  in Swap new_header (Inr new_header))
               else if refcnt = 0 then Give (Inl ())
               else (let new_header = header - 1 in Swap new_header (Inr new_header))))"

definition prs_god_unlock :: "'w god_ops \<Rightarrow> 'w god_world \<Rightarrow> prs_object_id_t \<Rightarrow> 'w god_world" where
  "prs_god_unlock ops_of s oid =
     (if oid = PRS_OBJECT_ID_INVALID then s
      else (case cas_run (prs_god_unlock_body oid) (goe_header (god_entry (fst s) oid)) of
              (_, Inl _) \<Rightarrow> s
            | (_, Inr new_header) \<Rightarrow>
                (let s' = (god_set_header (fst s) oid new_header, snd s)
                 in if PRS_GOD_TEST_FLAG new_header PRS_GOD_HEADER_REFCNT = 0
                    then prs_god_free ops_of s' oid else s')))"

definition prs_god_try_unlock_final_body :: "prs_object_id_t \<Rightarrow> u64 \<Rightarrow> (u64, prs_result + u64) cas_body" where
  "prs_god_try_unlock_final_body oid header =
     (if PRS_GOD_GET_ID header \<noteq> ucast oid then Give (Inl PRS_INVALID_STATE)
      else if \<not> PRS_GOD_TEST_FLAG header PRS_GOD_HEADER_USED \<noteq> 0 then Give (Inl PRS_INVALID_STATE)
      else (let refcnt = PRS_GOD_TEST_FLAG header PRS_GOD_HEADER_REFCNT
            in if refcnt = 1 then
                 (let new_header = (header OR PRS_GOD_HEADER_DELETE_MARK) AND NOT PRS_GOD_HEADER_REFCNT
                  in Swap new_header (Inr new_header))
               else if refcnt = 0 then Give (Inl PRS_INVALID_STATE)
               else Give (Inl PRS_LOCKED)))"

definition prs_god_try_unlock_final ::
  "'w god_ops \<Rightarrow> 'w god_world \<Rightarrow> prs_object_id_t \<Rightarrow> 'w god_world \<times> prs_result" where
  "prs_god_try_unlock_final ops_of s oid =
     (if oid = PRS_OBJECT_ID_INVALID then (s, PRS_NOT_FOUND)
      else (case cas_run (prs_god_try_unlock_final_body oid) (goe_header (god_entry (fst s) oid)) of
              (_, Inl r) \<Rightarrow> (s, r)
            | (_, Inr new_header) \<Rightarrow>
                (prs_god_free ops_of (god_set_header (fst s) oid new_header, snd s) oid, PRS_OK)))"

definition prs_god_object_destroy ::
  "'w god_ops \<Rightarrow> 'w god_world \<Rightarrow> prs_object_id_t \<Rightarrow> 'w god_world \<times> prs_result" where
  "prs_god_object_destroy ops_of s oid =
     (case prs_god_lock_entry (fst s) oid of
        (god, False) \<Rightarrow> ((god, snd s), PRS_NOT_FOUND)
      | (god, True) \<Rightarrow>
          (let e = god_entry god oid;
               s' = (case op_destroy (ops_of (goe_ops e)) of
                       None \<Rightarrow> (god, snd s) | Some f \<Rightarrow> f (goe_object e) (god, snd s))
           in (prs_god_unlock ops_of s' oid, PRS_OK)))"

text \<open>The lines that \<^verbatim>\<open>prs_god_print\<close> passes to the caller's function.\<close>

datatype god_line = GodEntryLine u32 u64 u64 | GodNoPrint | GodNoReference | GodObjectLine string

definition prs_god_print_entry ::
  "'w god_ops \<Rightarrow> 'w god_world \<Rightarrow> u32 \<Rightarrow> 'w god_world \<times> god_line list" where
  "prs_god_print_entry ops_of s i =
     (let header = goe_header (god_entry (fst s) i)
      in if \<not> PRS_GOD_TEST_FLAG header PRS_GOD_HEADER_USED \<noteq> 0 then (s, [])
         else (let oid = ucast (PRS_GOD_GET_ID header);
                   line = GodEntryLine oid (PRS_GOD_TEST_FLAG header PRS_GOD_HEADER_REFCNT) header
               in case prs_god_lock_entry (fst s) oid of
                    (god, False) \<Rightarrow> ((god, snd s), [line, GodNoReference])
                  | (god, True) \<Rightarrow>
                      (let e = god_entry god i;
                           (s', out) = (case op_print (ops_of (goe_ops e)) of
                              None \<Rightarrow> ((god, snd s), [GodNoPrint])
                            | Some f \<Rightarrow> map_prod (\<lambda>x. x) (map GodObjectLine) (f (goe_object e) (god, snd s)))
                       in (prs_god_unlock ops_of s' oid, line # out))))"

fun god_print_loop ::
  "'w god_ops \<Rightarrow> 'w god_world \<Rightarrow> nat list \<Rightarrow> 'w god_world \<times> god_line list" where
  "god_print_loop ops_of s [] = (s, [])"
| "god_print_loop ops_of s (i # is) =
     (let (s', out) = prs_god_print_entry ops_of s (word_of_nat i);
          (s'', out') = god_print_loop ops_of s' is
      in (s'', out @ out'))"

definition prs_god_print :: "'w god_ops \<Rightarrow> 'w god_world \<Rightarrow> 'w god_world \<times> god_line list" where
  "prs_god_print ops_of s = god_print_loop ops_of s [1 ..< unat (god_max_entries (fst s))]"

section \<open>Reading headers\<close>

definition god_hid :: "u64 \<Rightarrow> nat" where
  "god_hid h = unat h div 2 ^ 32"

definition god_refs :: "u64 \<Rightarrow> nat" where
  "god_refs h = unat h mod 2 ^ 12"

lemma god_flag_masks:
  "PRS_GOD_HEADER_RESERVED = push_bit 14 1" "PRS_GOD_HEADER_USED = push_bit 13 1"
  "PRS_GOD_HEADER_DELETE_MARK = push_bit 12 1" "PRS_GOD_HEADER_REFCNT = mask 12"
  "PRS_GOD_HEADER_ID = push_bit 32 (mask 32)"
  by (simp_all add: god_const_defs mask_eq_exp_minus_1)

lemma god_hid_eq: "god_hid h = unat (drop_bit 32 h)"
  by (simp only: god_hid_def unat_drop_bit_eq) (simp only: drop_bit_eq_div)

lemma god_refs_eq: "god_refs h = unat (take_bit 12 h)"
  by (simp only: god_refs_def unsigned_take_bit_eq) (simp only: take_bit_eq_mod)

lemma god_hid_less: "god_hid h < 2 ^ 32"
proof -
  have "unat h < 2 ^ 32 * 2 ^ 32" using unsigned_less [of h, where ?'a = nat] by simp
  then show ?thesis unfolding god_hid_def by (simp only: less_mult_imp_div_less)
qed

lemma god_refs_less: "god_refs h < 4096"
  by (simp add: god_refs_def)

lemma GOD_GET_ID_eq_iff [simp]: "PRS_GOD_GET_ID h = ucast (i :: u32) \<longleftrightarrow> god_hid h = unat i"
proof -
  have "PRS_GOD_GET_ID h = drop_bit 32 h"
    unfolding PRS_GOD_GET_ID_def god_flag_masks PRS_GOD_NONID_BITS_def PRS_GOD_HEADER_BITS_def PRS_GOD_ID_BITS_def
    by (rule bit_word_eqI) (auto simp: bit_simps dest: bit_imp_le_length)
  moreover have "unat (ucast i :: u64) = unat i"
    using unsigned_less [of i, where ?'a = nat] by (simp add: unsigned_ucast_eq take_bit_nat_eq_self)
  ultimately show ?thesis by (simp add: word_eq_iff_unat god_hid_eq)
qed

lemma and_push_bit_one: "((h :: u64) AND push_bit n 1 = 0) \<longleftrightarrow> \<not> bit h n"
proof
  assume "h AND push_bit n 1 = 0"
  then have "\<not> bit (h AND push_bit n 1) n" by simp
  then show "\<not> bit h n" using bit_imp_le_length [of h n] by (auto simp: bit_simps)
next
  assume "\<not> bit h n"
  then show "h AND push_bit n 1 = 0" by (auto intro!: bit_word_eqI simp: bit_simps)
qed

lemma GOD_TEST_flags [simp]:
  "PRS_GOD_TEST_FLAG h PRS_GOD_HEADER_RESERVED = 0 \<longleftrightarrow> \<not> bit h 14"
  "PRS_GOD_TEST_FLAG h PRS_GOD_HEADER_USED = 0 \<longleftrightarrow> \<not> bit h 13"
  "PRS_GOD_TEST_FLAG h PRS_GOD_HEADER_DELETE_MARK = 0 \<longleftrightarrow> \<not> bit h 12"
  unfolding PRS_GOD_TEST_FLAG_def god_flag_masks by (rule and_push_bit_one)+

lemma unat_GOD_REFCNT: "unat (PRS_GOD_TEST_FLAG h PRS_GOD_HEADER_REFCNT) = god_refs h"
  unfolding PRS_GOD_TEST_FLAG_def god_flag_masks god_refs_def by (rule unat_and_mask_eq)

lemma GOD_TEST_REFCNT [simp]:
  "PRS_GOD_TEST_FLAG h PRS_GOD_HEADER_REFCNT = 0 \<longleftrightarrow> god_refs h = 0"
  "PRS_GOD_TEST_FLAG h PRS_GOD_HEADER_REFCNT = 1 \<longleftrightarrow> god_refs h = 1"
  "PRS_GOD_TEST_FLAG h PRS_GOD_HEADER_REFCNT = PRS_GOD_HEADER_REFCNT \<longleftrightarrow> god_refs h = 4095"
  by (simp_all add: word_eq_iff_unat unat_GOD_REFCNT) (simp add: PRS_GOD_HEADER_REFCNT_def)

text \<open>The bits above the count, and what the operations do to them.\<close>

lemma god_high_bits:
  assumes "drop_bit 12 h = drop_bit 12 (h' :: u64)" and "12 \<le> n"
  shows "bit h n \<longleftrightarrow> bit h' n"
proof -
  have "bit (drop_bit 12 h) (n - 12) \<longleftrightarrow> bit (drop_bit 12 h') (n - 12)" using assms(1) by simp
  then show ?thesis using assms(2) by (simp add: bit_drop_bit_eq)
qed

lemma god_high_fields:
  assumes "drop_bit 12 h = drop_bit 12 (h' :: u64)"
  shows "god_hid h = god_hid h'" "bit h 14 = bit h' 14" "bit h 13 = bit h' 13" "bit h 12 = bit h' 12"
proof -
  have "drop_bit 20 (drop_bit 12 h) = drop_bit 20 (drop_bit 12 h')" using assms by simp
  then show "god_hid h = god_hid h'" by (simp add: god_hid_eq)
qed (use god_high_bits [OF assms] in simp_all)

lemma drop_bit_eqI_unat: "unat h div 2 ^ n = unat h' div 2 ^ n \<Longrightarrow> drop_bit n h = drop_bit n (h' :: u64)"
  by (simp add: word_eq_iff_unat unat_drop_bit_eq) (simp only: drop_bit_eq_div)

lemma god_inc_fields:
  assumes "god_refs h < 4095"
  shows "god_refs (h + 1) = god_refs h + 1" "drop_bit 12 (h + 1) = drop_bit 12 h"
proof -
  let ?q = "unat h div 2 ^ 12"
  have h: "unat h = ?q * 2 ^ 12 + god_refs h" unfolding god_refs_def by (rule div_mult_mod_eq [symmetric])
  have "?q < 2 ^ 52"
    using unsigned_less [of h, where ?'a = nat] by (intro less_mult_imp_div_less) simp
  then have "unat h + 1 < 2 ^ 64" using h assms by simp
  then have u: "unat (h + 1) = ?q * 2 ^ 12 + (god_refs h + 1)"
    using h by (subst unat_add_no_wrap) simp_all
  have "god_refs (h + 1) = (god_refs h + 1) mod 2 ^ 12"
    unfolding god_refs_def [of "h + 1"] u by (rule mod_mult_self3)
  then show "god_refs (h + 1) = god_refs h + 1" using assms by simp
  have "unat (h + 1) div 2 ^ 12 = ?q"
    unfolding u using assms by (subst div_mult_self3) simp_all
  then show "drop_bit 12 (h + 1) = drop_bit 12 h" by (rule drop_bit_eqI_unat)
qed

lemma god_dec_fields:
  assumes "0 < god_refs h"
  shows "god_refs (h - 1) = god_refs h - 1" "drop_bit 12 (h - 1) = drop_bit 12 h"
proof -
  have "unat h \<noteq> 0" using assms by (auto simp: god_refs_def)
  then have "unat (h - 1) = unat h - 1" using unat_minus_no_wrap [of 1 h] by simp
  have "god_refs (h - 1) < 4095"
  proof (rule ccontr)
    assume "\<not> god_refs (h - 1) < 4095"
    then have "(unat h - 1) mod 4096 = 4095"
      using god_refs_less [of "h - 1"] \<open>unat (h - 1) = unat h - 1\<close> by (simp add: god_refs_def)
    moreover obtain k where "unat h = Suc k" using \<open>unat h \<noteq> 0\<close> by (cases "unat h") auto
    ultimately have "unat h mod 4096 = 0" by (simp add: mod_Suc)
    then show False using assms by (simp add: god_refs_def)
  qed
  from god_inc_fields [OF this] show "god_refs (h - 1) = god_refs h - 1" "drop_bit 12 (h - 1) = drop_bit 12 h"
    by simp_all
qed

lemma god_mark_fields:
  fixes h :: u64
  defines "m \<equiv> (h OR PRS_GOD_HEADER_DELETE_MARK) AND NOT PRS_GOD_HEADER_REFCNT"
  shows "god_refs m = 0" "bit m 12" "bit m 13 = bit h 13" "bit m 14 = bit h 14" "god_hid m = god_hid h"
proof -
  have "take_bit 12 m = 0" "drop_bit 32 m = drop_bit 32 h"
    unfolding m_def god_flag_masks
    by (rule bit_word_eqI, auto simp: bit_simps simp del: power_numeral push_bit_of_1 dest: bit_imp_le_length)+
  then show "god_refs m = 0" "god_hid m = god_hid h" by (simp_all add: god_refs_eq god_hid_eq)
  show "bit m 12" "bit m 13 = bit h 13" "bit m 14 = bit h 14"
    unfolding m_def god_flag_masks by (simp_all add: bit_simps)
qed

lemma god_free_fields:
  fixes h :: u64
  defines "m \<equiv> h AND PRS_GOD_HEADER_ID"
  shows "god_refs m = 0" "\<not> bit m 12" "\<not> bit m 13" "\<not> bit m 14" "god_hid m = god_hid h"
proof -
  have "take_bit 12 m = 0" "drop_bit 32 m = drop_bit 32 h"
    unfolding m_def god_flag_masks by (rule bit_word_eqI, auto simp: bit_simps dest: bit_imp_le_length)+
  then show "god_refs m = 0" "god_hid m = god_hid h" by (simp_all add: god_refs_eq god_hid_eq)
  show "\<not> bit m 12" "\<not> bit m 13" "\<not> bit m 14"
    unfolding m_def god_flag_masks by (simp_all add: bit_simps)
qed

lemma god_new_fields:
  fixes i :: u32
  defines "h \<equiv> PRS_GOD_SET_ID i OR PRS_GOD_HEADER_RESERVED OR 1 OR PRS_GOD_HEADER_USED"
  shows "god_refs h = 1" "\<not> bit h 12" "bit h 13" "bit h 14" "god_hid h = unat i"
proof -
  have set: "PRS_GOD_SET_ID i = push_bit 32 (ucast i)"
    by (simp add: PRS_GOD_SET_ID_def god_const_defs)
  have "take_bit 12 h = 1" "drop_bit 32 h = ucast i"
    unfolding h_def set god_flag_masks
    by (rule bit_word_eqI, auto simp: bit_simps simp del: power_numeral push_bit_of_1 dest: bit_imp_le_length)+
  then show "god_refs h = 1" "god_hid h = unat i"
    using unsigned_less [of i, where ?'a = nat]
    by (simp_all add: god_refs_eq god_hid_eq unsigned_ucast_eq take_bit_nat_eq_self)
  show "\<not> bit h 12" "bit h 13" "bit h 14"
    unfolding h_def set god_flag_masks by (simp_all add: bit_simps)
qed

section \<open>Well-formed directories\<close>

definition goe_taken :: "prs_god_entry \<Rightarrow> bool" where
  "goe_taken e = bit (goe_header e) 14"

definition goe_ident :: "prs_god_entry \<Rightarrow> nat" where
  "goe_ident e = god_hid (goe_header e)"

interpretation god_tab: id_table goe_taken goe_ident "\<lambda>e. goe_header e = 0" "2 ^ 32"
proof unfold_locales
  show "\<not> goe_taken e" "goe_ident e = 0" if "goe_header e = 0" for e
    using that by (simp_all add: goe_taken_def goe_ident_def god_hid_def)
  show "goe_ident e < 2 ^ 32" for e unfolding goe_ident_def by (rule god_hid_less)
qed

text \<open>An entry in use has a reference or is marked for deletion, never both; its object is not null.\<close>

definition god_entry_ok :: "prs_god_entry \<Rightarrow> bool" where
  "god_entry_ok e \<longleftrightarrow>
     (let h = goe_header e
      in if bit h 14
         then bit h 13 \<and> bit h 12 = (god_refs h = 0) \<and> goe_object e \<noteq> 0
         else \<not> bit h 13 \<and> \<not> bit h 12 \<and> god_refs h = 0)"

definition god_wf :: "prs_god \<Rightarrow> bool" where
  "god_wf god \<longleftrightarrow>
     (\<exists>k. 0 < k \<and> k < 32 \<and> unat (god_max_entries god) = 2 ^ k)
     \<and> god_max_entries_mask god = god_max_entries god - 1
     \<and> length (god_entries god) = unat (god_max_entries god)
     \<and> tab_ok goe_taken goe_ident (god_entries god) (unat (god_write_index god))
     \<and> goe_header (god_entries god ! 0) = PRS_GOD_HEADER_RESERVED OR PRS_GOD_HEADER_USED
     \<and> (\<forall>j. 0 < j \<and> j < length (god_entries god) \<longrightarrow> god_entry_ok (god_entries god ! j))"

definition god_ids_left :: "prs_god \<Rightarrow> bool" where
  "god_ids_left god \<longleftrightarrow> unat (god_write_index god) + unat (god_max_entries god) < 2 ^ 32"

text \<open>The entry that carries an ID, whether or not it can still be locked; the entries that can; and
  their reference counts.\<close>

definition god_taken :: "prs_god \<Rightarrow> prs_object_id_t \<rightharpoonup> prs_god_entry" where
  "god_taken god oid = tab_view goe_taken goe_ident (god_entries god) (unat oid)"

definition god_live :: "prs_god \<Rightarrow> prs_object_id_t \<rightharpoonup> prs_god_entry" where
  "god_live god oid =
     (case god_taken god oid of
        None \<Rightarrow> None
      | Some e \<Rightarrow> if oid \<noteq> 0 \<and> \<not> bit (goe_header e) 12 then Some e else None)"

definition god_view :: "prs_god \<Rightarrow> prs_object_id_t \<rightharpoonup> nat" where
  "god_view god oid = map_option (\<lambda>e. god_refs (goe_header e)) (god_live god oid)"

lemma prs_god_get_entry_mod:
  assumes "god_wf god"
  shows "prs_god_get_entry god oid = unat oid mod length (god_entries god)"
proof -
  obtain k where k: "unat (god_max_entries god) = 2 ^ k"
    and m: "god_max_entries_mask god = god_max_entries god - 1"
    and l: "length (god_entries god) = unat (god_max_entries god)"
    using assms by (auto simp: god_wf_def)
  have "god_max_entries_mask god = mask k" using m power2_minus_one_mask [OF k] by simp
  then show ?thesis using k l by (simp add: prs_god_get_entry_def unat_and_mask_eq)
qed

lemma god_entry_less:
  assumes "god_wf god"
  shows "prs_god_get_entry god oid < length (god_entries god)"
proof -
  have "0 < length (god_entries god)" using assms by (auto simp: god_wf_def)
  then show ?thesis unfolding prs_god_get_entry_mod [OF assms] by (rule mod_less_divisor)
qed

lemma god_taken_Some:
  assumes "god_wf god"
  shows "god_taken god oid = Some e \<longleftrightarrow>
    e = god_entry god oid \<and> bit (goe_header e) 14 \<and> god_hid (goe_header e) = unat oid"
  using assms
  by (simp add: god_taken_def god_tab.view_Some god_entry_def prs_god_get_entry_mod goe_taken_def goe_ident_def)

text \<open>An ID other than 0 that carries its entry is not at index 0, whose header has the ID 0.\<close>

lemma god_taken_ok:
  assumes "god_wf god" and "god_taken god oid = Some e" and "oid \<noteq> 0"
  shows "prs_god_get_entry god oid \<noteq> 0" and "god_entry_ok e"
proof -
  have e: "e = god_entries god ! prs_god_get_entry god oid" "god_hid (goe_header e) = unat oid"
    using assms(2) unfolding god_taken_Some [OF assms(1)] god_entry_def by blast+
  have "god_hid (PRS_GOD_HEADER_RESERVED OR PRS_GOD_HEADER_USED) = 0"
    by (simp add: god_hid_def god_const_defs)
  then show ne: "prs_god_get_entry god oid \<noteq> 0"
    using e assms(1,3) by (metis god_wf_def unat_eq_zero)
  show "god_entry_ok e" using e(1) ne god_entry_less [OF assms(1)] assms(1) by (simp add: god_wf_def)
qed

lemma god_live_Some:
  assumes "god_wf god"
  shows "god_live god oid = Some e \<longleftrightarrow> god_taken god oid = Some e \<and> oid \<noteq> 0 \<and> 0 < god_refs (goe_header e)"
proof -
  have "god_live god oid = Some e \<longleftrightarrow> god_taken god oid = Some e \<and> oid \<noteq> 0 \<and> \<not> bit (goe_header e) 12"
    by (auto simp: god_live_def split: option.splits)
  moreover have "\<not> bit (goe_header e) 12 \<longleftrightarrow> 0 < god_refs (goe_header e)"
    if "god_taken god oid = Some e" "oid \<noteq> 0"
    using god_taken_ok(2) [OF assms that] that(1) unfolding god_taken_Some [OF assms]
    by (auto simp: god_entry_ok_def Let_def)
  ultimately show ?thesis by blast
qed

lemma god_live_fields:
  assumes "god_wf god" and "god_live god oid = Some e"
  shows "oid \<noteq> 0" "e = god_entry god oid" "bit (goe_header e) 14" "bit (goe_header e) 13"
    "\<not> bit (goe_header e) 12" "0 < god_refs (goe_header e)" "god_hid (goe_header e) = unat oid"
    "goe_object e \<noteq> 0" "god_taken god oid = Some e"
proof -
  show t: "god_taken god oid = Some e" and n: "oid \<noteq> 0" and r: "0 < god_refs (goe_header e)"
    using assms(2) unfolding god_live_Some [OF assms(1)] by blast+
  show f: "e = god_entry god oid" "bit (goe_header e) 14" "god_hid (goe_header e) = unat oid"
    using t unfolding god_taken_Some [OF assms(1)] by blast+
  show "bit (goe_header e) 13" "\<not> bit (goe_header e) 12" "goe_object e \<noteq> 0"
    using god_taken_ok(2) [OF assms(1) t n] f(2) r by (simp_all add: god_entry_ok_def Let_def)
qed

text \<open>Writing the header of an entry that carries the ID.\<close>

lemma god_set_taken:
  assumes "god_wf god" and "god_taken god oid = Some e" and "oid \<noteq> 0"
    and "god_hid h = unat oid" and "god_entry_ok (e\<lparr>goe_header := h\<rparr>)"
  defines "god' \<equiv> god_set_header god oid h" and "e' \<equiv> e\<lparr>goe_header := h\<rparr>"
  shows "god_wf god'" and "god_write_index god' = god_write_index god"
    and "god_taken god' = (god_taken god)(oid := (if bit h 14 then Some e' else None))"
    and "god_live god' = (god_live god)(oid := (if bit h 14 \<and> \<not> bit h 12 then Some e' else None))"
    and "god_entry god' oid = e'"
proof -
  let ?i = "unat oid mod length (god_entries god)"
  have ok: "tab_ok goe_taken goe_ident (god_entries god) (unat (god_write_index god))"
    using assms(1) by (simp add: god_wf_def)
  have t: "tab_view goe_taken goe_ident (god_entries god) (unat oid) = Some e"
    using assms(2) by (simp add: god_taken_def)
  have id: "goe_ident e' = unat oid" using assms(4) by (simp add: goe_ident_def e'_def)
  have te: "goe_taken e' = bit h 14" by (simp add: goe_taken_def e'_def)
  note set = god_tab.set_live [OF ok t id]
  have e: "e = god_entry god oid" using assms(2) unfolding god_taken_Some [OF assms(1)] by blast
  have i: "?i = prs_god_get_entry god oid" using assms(1) by (simp add: prs_god_get_entry_mod)
  have i0: "?i \<noteq> 0" using god_taken_ok(1) [OF assms(1-3)] i by simp
  have il: "?i < length (god_entries god)" using god_entry_less [OF assms(1)] i by simp
  have god': "god' = god\<lparr>god_entries := (god_entries god)[?i := e']\<rparr>"
    using e i by (simp add: god'_def god_set_header_def god_set_entry_def e'_def)
  have "\<forall>j. 0 < j \<and> j < length (god_entries god) \<longrightarrow> god_entry_ok ((god_entries god)[?i := e'] ! j)"
    using assms(1,5) il by (auto simp: god_wf_def nth_list_update e'_def)
  then show "god_wf god'" using assms(1) set(1) i0 by (simp add: god_wf_def god')
  show "god_write_index god' = god_write_index god" by (simp add: god')
  show tk: "god_taken god' = (god_taken god)(oid := (if bit h 14 then Some e' else None))"
    using te by (auto simp: fun_eq_iff god_taken_def god' set(2) word_eq_iff_unat)
  show "god_live god' = (god_live god)(oid := (if bit h 14 \<and> \<not> bit h 12 then Some e' else None))"
    using assms(3) by (auto simp: fun_eq_iff god_live_def tk e'_def)
  show "god_entry god' oid = e'" using il i by (simp add: god_entry_def god' prs_god_get_entry_def)
qed

section \<open>Registering\<close>

definition god_alloc_at :: "prs_god \<Rightarrow> ptr \<Rightarrow> ptr \<Rightarrow> u32 \<Rightarrow> prs_god" where
  "god_alloc_at god object ops j = (god_set_entry god (prs_god_get_entry god j)
     \<lparr>goe_header = PRS_GOD_SET_ID j OR PRS_GOD_HEADER_RESERVED OR 1 OR PRS_GOD_HEADER_USED,
      goe_object = object, goe_ops = ops\<rparr>)\<lparr>god_write_index := j + 1\<rparr>"

lemma prs_god_alloc_loop_find:
  assumes "god_wf god"
  shows "prs_god_alloc_loop god object ops i lim =
    (case find (tab_free goe_taken goe_ident (god_entries god)) [unat i ..< unat lim] of
       None \<Rightarrow> (god, PRS_OBJECT_ID_INVALID)
     | Some j \<Rightarrow> (god_alloc_at god object ops (word_of_nat j), word_of_nat j))"
  using assms
proof (induction god object ops i lim rule: prs_god_alloc_loop.induct)
  case (1 god object ops i lim)
  let ?h = "goe_header (god_entry god i)"
  have free: "tab_free goe_taken goe_ident (god_entries god) (unat i) \<longleftrightarrow> \<not> bit ?h 14 \<and> god_hid ?h \<noteq> unat i"
    using "1.prems" by (simp add: tab_free_def god_entry_def prs_god_get_entry_mod goe_taken_def goe_ident_def)
  show ?case
  proof (cases "i < lim")
    case True
    then have up: "[unat i ..< unat lim] = unat i # [unat (i + 1) ..< unat lim]"
      using upt_head [of "unat i" "unat lim"] unat_add_one_less [OF True]
      by (simp add: word_less_nat_alt)
    show ?thesis
      using True "1.IH" [OF True _ "1.prems"] free up
      by (subst prs_god_alloc_loop.simps)
        (auto simp: prs_god_alloc_body_def god_alloc_at_def or.assoc)
  next
    case False
    then show ?thesis
      by (subst prs_god_alloc_loop.simps) (simp add: word_less_nat_alt)
  qed
qed

lemma god_alloc_at_wf:
  fixes ops :: ptr
  assumes "god_wf god" and "object \<noteq> 0" and "unat (god_write_index god) \<le> unat j"
    and "unat j + 1 < 2 ^ 32" and "\<not> goe_taken (god_entries god ! (unat j mod length (god_entries god)))"
  defines "god' \<equiv> god_alloc_at god object ops j"
  shows "god_wf god'" and "god_taken god j = None" and "j \<noteq> 0"
    and "\<exists>e. god_taken god' = (god_taken god)(j \<mapsto> e) \<and> god_live god' = (god_live god)(j \<mapsto> e)
      \<and> goe_object e = object \<and> goe_ops e = ops \<and> god_refs (goe_header e) = 1"
    and "unat (god_write_index god') = unat j + 1"
proof -
  let ?i = "unat j mod length (god_entries god)"
  let ?h = "PRS_GOD_SET_ID j OR PRS_GOD_HEADER_RESERVED OR 1 OR PRS_GOD_HEADER_USED"
  let ?e = "\<lparr>goe_header = ?h, goe_object = object, goe_ops = ops\<rparr>"
  have ok: "tab_ok goe_taken goe_ident (god_entries god) (unat (god_write_index god))"
    using assms(1) by (simp add: god_wf_def)
  have e: "goe_ident ?e = unat j" "goe_taken ?e"
    by (simp_all only: goe_ident_def goe_taken_def prs_god_entry.simps god_new_fields)
  note set = god_tab.set_fresh [OF ok assms(5,3) e]
  have god': "god' = god\<lparr>god_entries := (god_entries god)[?i := ?e], god_write_index := j + 1\<rparr>"
    using assms(1) by (simp add: god'_def god_alloc_at_def god_set_entry_def prs_god_get_entry_mod)
  have suc: "unat (j + 1) = unat j + 1" using assms(4) unat_add_no_wrap [of j 1] by simp
  show "j \<noteq> 0" using assms(3) ok by (auto simp: tab_ok_def)
  have "goe_taken (god_entries god ! 0)"
    using assms(1) by (simp add: god_wf_def goe_taken_def god_flag_masks bit_simps)
  then have i0: "?i \<noteq> 0" using assms(5) by metis
  have "god_entry_ok ?e" using assms(2) god_new_fields [of j] by (simp add: god_entry_ok_def Let_def)
  then have "\<forall>k. 0 < k \<and> k < length (god_entries god) \<longrightarrow> god_entry_ok ((god_entries god)[?i := ?e] ! k)"
    using assms(1) by (auto simp: god_wf_def nth_list_update)
  then show "god_wf god'" using assms(1) set(1) suc i0 by (simp add: god_wf_def god')
  show "god_taken god j = None" using set(2) by (simp add: god_taken_def)
  have tk: "god_taken god' = (god_taken god)(j \<mapsto> ?e)"
    by (auto simp: fun_eq_iff god_taken_def god' set(3) word_eq_iff_unat)
  moreover have "god_live god' = (god_live god)(j \<mapsto> ?e)"
    using \<open>j \<noteq> 0\<close> god_new_fields(2) [of j] by (simp add: fun_eq_iff god_live_def tk)
  ultimately show "\<exists>e. god_taken god' = (god_taken god)(j \<mapsto> e) \<and> god_live god' = (god_live god)(j \<mapsto> e)
      \<and> goe_object e = object \<and> goe_ops e = ops \<and> god_refs (goe_header e) = 1"
    by (intro exI [of _ ?e]) (simp add: god_new_fields)
  show "unat (god_write_index god') = unat j + 1" using suc by (simp add: god')
qed

lemma prs_god_alloc_cases:
  assumes "god_wf god" and "god_ids_left god"
  obtains (full) "prs_god_alloc_and_lock god object ops = (god, PRS_OBJECT_ID_INVALID)"
      "\<forall>e \<in> set (god_entries god). goe_taken e"
  | (found) j where "unat (god_write_index god) \<le> unat j" "unat j + 1 < 2 ^ 32"
      "\<not> goe_taken (god_entries god ! (unat j mod length (god_entries god)))"
      "prs_god_alloc_and_lock god object ops = (god_alloc_at god object ops j, j)"
proof -
  let ?w = "unat (god_write_index god)" and ?n = "length (god_entries god)"
  let ?find = "find (tab_free goe_taken goe_ident (god_entries god)) [?w ..< ?w + ?n]"
  have n: "unat (god_max_entries god) = ?n" using assms(1) by (simp add: god_wf_def)
  have sum: "?w + ?n < 2 ^ 32" using assms(2) n by (simp add: god_ids_left_def)
  have lim: "unat (god_write_index god + god_max_entries god) = ?w + ?n"
    using n sum by (subst unat_add_no_wrap) simp_all
  have run: "prs_god_alloc_and_lock god object ops = (case ?find of
      None \<Rightarrow> (god, PRS_OBJECT_ID_INVALID)
    | Some j \<Rightarrow> (god_alloc_at god object ops (word_of_nat j), word_of_nat j))"
    by (simp add: prs_god_alloc_and_lock_def prs_god_alloc_loop_find [OF assms(1)] lim Let_def)
  have ok: "tab_ok goe_taken goe_ident (god_entries god) ?w" using assms(1) by (simp add: god_wf_def)
  show thesis
  proof (cases ?find)
    case None
    then have "\<forall>e \<in> set (god_entries god). goe_taken e"
      using god_tab.scan_full [OF ok None] by (auto simp: in_set_conv_nth)
    then show thesis using run None full by simp
  next
    case (Some j)
    note f = god_tab.scan_found [OF ok Some]
    have "unat (word_of_nat j :: u32) = j" using f(2) sum by (simp add: unat_of_nat)
    then show thesis using run Some f sum found [of "word_of_nat j"] by simp
  qed
qed

section \<open>How calls change a directory\<close>

text \<open>A call keeps the directory well-formed, never lowers the write index, never makes an ID below it
  live again or changes its object, and leaves alone every entry that is marked for deletion: such an
  entry belongs to the call that is freeing it.\<close>

definition god_evolves :: "prs_god \<Rightarrow> prs_god \<Rightarrow> bool" where
  "god_evolves god god' \<longleftrightarrow> god_wf god' \<and> unat (god_write_index god) \<le> unat (god_write_index god')
     \<and> (\<forall>oid e'. unat oid < unat (god_write_index god) \<and> god_live god' oid = Some e' \<longrightarrow>
          (\<exists>e. god_live god oid = Some e \<and> goe_object e' = goe_object e \<and> goe_ops e' = goe_ops e))
     \<and> (\<forall>oid e. oid \<noteq> 0 \<and> god_taken god oid = Some e \<and> bit (goe_header e) 12 \<longrightarrow>
          god_taken god' oid = Some e)"

lemma god_evolves_refl: "god_wf god \<Longrightarrow> god_evolves god god"
  by (simp add: god_evolves_def)

lemma god_evolves_trans:
  assumes "god_evolves p q" and "god_evolves q r"
  shows "god_evolves p r"
  unfolding god_evolves_def
proof (intro conjI allI impI)
  show "god_wf r" and "unat (god_write_index p) \<le> unat (god_write_index r)"
    using assms by (auto simp: god_evolves_def)
  fix oid e'
  assume "unat oid < unat (god_write_index p) \<and> god_live r oid = Some e'"
  then have a: "unat oid < unat (god_write_index p)" "unat oid < unat (god_write_index q)"
      "god_live r oid = Some e'"
    using assms(1) by (auto simp: god_evolves_def)
  then obtain e where "god_live q oid = Some e" "goe_object e' = goe_object e" "goe_ops e' = goe_ops e"
    using assms(2) unfolding god_evolves_def by metis
  with a(1) show "\<exists>e. god_live p oid = Some e \<and> goe_object e' = goe_object e \<and> goe_ops e' = goe_ops e"
    using assms(1) unfolding god_evolves_def by metis
next
  fix oid e
  assume "oid \<noteq> 0 \<and> god_taken p oid = Some e \<and> bit (goe_header e) 12"
  then show "god_taken r oid = Some e" using assms by (simp add: god_evolves_def)
qed

lemma god_evolves_live:
  assumes "god_wf god" and "god_live god oid = Some e" and "god_hid h = unat oid"
    and "god_entry_ok (e\<lparr>goe_header := h\<rparr>)"
  shows "god_evolves god (god_set_header god oid h)"
proof -
  note f = god_live_fields [OF assms(1,2)]
  note set = god_set_taken [OF assms(1) f(9) f(1) assms(3,4)]
  show ?thesis
    unfolding god_evolves_def set(2-4)
    using set(1) assms(2) f(5,9) by (auto split: if_splits)
qed

lemma god_lock_entry_live:
  assumes "god_wf god" and "god_live god oid = Some e" and "god_refs (goe_header e) < 4095"
  defines "god' \<equiv> god_set_header god oid (goe_header e + 1)"
  shows "prs_god_lock_entry god oid = (god', True)" and "prs_god_lock god oid = (god', goe_object e)"
    and "god_evolves god god'"
    and "god_live god' = (god_live god)(oid \<mapsto> e\<lparr>goe_header := goe_header e + 1\<rparr>)"
proof -
  note f = god_live_fields [OF assms(1,2)]
  note inc = god_inc_fields [OF assms(3)]
  note hi = god_high_fields [OF inc(2)]
  have ok: "god_entry_ok (e\<lparr>goe_header := goe_header e + 1\<rparr>)"
    using f inc(1) hi by (simp add: god_entry_ok_def Let_def)
  have hid: "god_hid (goe_header e + 1) = unat oid" using hi f by simp
  note set = god_set_taken [OF assms(1) f(9) f(1) hid ok]
  show run: "prs_god_lock_entry god oid = (god', True)"
    using f assms(3)
    by (simp add: prs_god_lock_entry_def prs_god_lock_body_def god'_def PRS_OBJECT_ID_INVALID_def)
  show "prs_god_lock god oid = (god', goe_object e)"
    using run set(5) by (simp add: prs_god_lock_def god'_def)
  show "god_evolves god god'" unfolding god'_def using assms(1,2) hid ok by (rule god_evolves_live)
  show "god_live god' = (god_live god)(oid \<mapsto> e\<lparr>goe_header := goe_header e + 1\<rparr>)"
    using set(4) hi f by (simp add: god'_def)
qed

lemma god_dead_header:
  assumes "god_wf god" and "god_live god oid = None" and "oid \<noteq> 0"
    and "god_hid (goe_header (god_entry god oid)) = unat oid" and "bit (goe_header (god_entry god oid)) 13"
  shows "bit (goe_header (god_entry god oid)) 12" and "god_refs (goe_header (god_entry god oid)) = 0"
proof -
  let ?e = "god_entry god oid"
  have "god_hid (PRS_GOD_HEADER_RESERVED OR PRS_GOD_HEADER_USED) = 0"
    by (simp add: god_hid_def god_const_defs)
  then have "prs_god_get_entry god oid \<noteq> 0"
    using assms(1,3,4) unfolding god_entry_def by (metis god_wf_def unat_eq_zero)
  then have ok: "god_entry_ok ?e"
    using assms(1) god_entry_less [OF assms(1), of oid] by (simp add: god_wf_def god_entry_def)
  then have b14: "bit (goe_header ?e) 14" using assms(5) by (auto simp: god_entry_ok_def Let_def split: if_splits)
  then have "god_taken god oid = Some ?e" using assms(4) unfolding god_taken_Some [OF assms(1)] by simp
  then show "bit (goe_header ?e) 12" using assms(2,3) by (auto simp: god_live_def split: if_splits)
  then show "god_refs (goe_header ?e) = 0" using ok b14 by (simp add: god_entry_ok_def Let_def)
qed

lemma god_dead:
  assumes "god_wf god" and "god_live god oid = None"
  shows "prs_god_lock_entry god oid = (god, False)" and "prs_god_lock god oid = (god, 0)"
    and "prs_god_unlock ops_of (god, w) oid = (god, w)"
    and "fst (prs_god_try_unlock_final ops_of (god, w) oid) = (god, w)"
    and "snd (prs_god_try_unlock_final ops_of (god, w) oid) \<noteq> PRS_OK"
proof -
  show l: "prs_god_lock_entry god oid = (god, False)"
    using god_dead_header [OF assms]
    by (auto simp: prs_god_lock_entry_def prs_god_lock_body_def PRS_OBJECT_ID_INVALID_def)
  then show "prs_god_lock god oid = (god, 0)" by (simp add: prs_god_lock_def)
  show "prs_god_unlock ops_of (god, w) oid = (god, w)"
    using god_dead_header [OF assms]
    by (auto simp: prs_god_unlock_def prs_god_unlock_body_def PRS_OBJECT_ID_INVALID_def Let_def)
  show "fst (prs_god_try_unlock_final ops_of (god, w) oid) = (god, w)"
      "snd (prs_god_try_unlock_final ops_of (god, w) oid) \<noteq> PRS_OK"
    using god_dead_header [OF assms]
    by (auto simp: prs_god_try_unlock_final_def prs_god_try_unlock_final_body_def
        PRS_OBJECT_ID_INVALID_def Let_def)
qed

text \<open>The functions of the objects respect the directory: they use it through calls.\<close>

definition god_op_ok :: "(ptr \<Rightarrow> 'w god_world \<Rightarrow> 'w god_world) \<Rightarrow> bool" where
  "god_op_ok f \<longleftrightarrow> (\<forall>object s. god_wf (fst s) \<longrightarrow> god_evolves (fst s) (fst (f object s)))"

definition god_ops_ok :: "'w god_ops \<Rightarrow> bool" where
  "god_ops_ok ops_of \<longleftrightarrow>
     (\<forall>p f. op_free (ops_of p) = Some f \<or> op_destroy (ops_of p) = Some f \<longrightarrow> god_op_ok f)
     \<and> (\<forall>p f. op_print (ops_of p) = Some f \<longrightarrow> god_op_ok (\<lambda>object s. fst (f object s)))"

text \<open>The free function of an entry, as the last unlock calls it.\<close>

definition god_free_call :: "'w god_ops \<Rightarrow> prs_god_entry \<Rightarrow> 'w god_world \<Rightarrow> 'w god_world" where
  "god_free_call ops_of e s =
     (case op_free (ops_of (goe_ops e)) of None \<Rightarrow> s | Some f \<Rightarrow> f (goe_object e) s)"

lemma god_free_call_evolves:
  "god_ops_ok ops_of \<Longrightarrow> god_wf (fst s) \<Longrightarrow> god_evolves (fst s) (fst (god_free_call ops_of e s))"
proof (cases "op_free (ops_of (goe_ops e))")
  case None
  assume "god_wf (fst s)"
  then show ?thesis using None by (simp add: god_free_call_def god_evolves_refl)
next
  case (Some f)
  assume "god_ops_ok ops_of" "god_wf (fst s)"
  then have "god_op_ok f" using Some unfolding god_ops_ok_def by blast
  then show ?thesis using Some \<open>god_wf (fst s)\<close> by (simp add: god_free_call_def god_op_ok_def del: split_paired_All)
qed

definition god_marked :: "prs_god \<Rightarrow> prs_object_id_t \<Rightarrow> prs_god" where
  "god_marked god oid = god_set_header god oid
     ((goe_header (god_entry god oid) OR PRS_GOD_HEADER_DELETE_MARK) AND NOT PRS_GOD_HEADER_REFCNT)"

lemma god_unlock_last:
  assumes "god_wf god" and "god_live god oid = Some e" and "god_refs (goe_header e) = 1"
    and "god_ops_ok ops_of"
  shows "god_evolves god (god_marked god oid)" and "god_live (god_marked god oid) = (god_live god)(oid := None)"
    and "prs_god_unlock ops_of (god, w) oid = prs_god_free ops_of (god_marked god oid, w) oid"
    and "prs_god_try_unlock_final ops_of (god, w) oid = (prs_god_free ops_of (god_marked god oid, w) oid, PRS_OK)"
    and "\<exists>god'. prs_god_free ops_of (god_marked god oid, w) oid
        = (god', snd (god_free_call ops_of e (god_marked god oid, w)))
      \<and> god_evolves god god' \<and> god_taken god' oid = None
      \<and> god_live god' = god_live (fst (god_free_call ops_of e (god_marked god oid, w)))"
proof -
  let ?m = "(goe_header e OR PRS_GOD_HEADER_DELETE_MARK) AND NOT PRS_GOD_HEADER_REFCNT"
  let ?em = "e\<lparr>goe_header := ?m\<rparr>"
  note f = god_live_fields [OF assms(1,2)]
  note mark = god_mark_fields [of "goe_header e"]
  have ok: "god_entry_ok ?em" using f mark by (simp add: god_entry_ok_def Let_def)
  have hid: "god_hid ?m = unat oid" using mark f by simp
  have m: "god_marked god oid = god_set_header god oid ?m" using f(2) by (simp add: god_marked_def)
  note set = god_set_taken [OF assms(1) f(9) f(1) hid ok, folded m]
  show ev: "god_evolves god (god_marked god oid)"
    unfolding m using assms(1,2) hid ok by (rule god_evolves_live)
  show live: "god_live (god_marked god oid) = (god_live god)(oid := None)" using set(4) mark by simp
  show "prs_god_unlock ops_of (god, w) oid = prs_god_free ops_of (god_marked god oid, w) oid"
    using f assms(3) mark m
    by (simp add: prs_god_unlock_def prs_god_unlock_body_def Let_def PRS_OBJECT_ID_INVALID_def)
  show "prs_god_try_unlock_final ops_of (god, w) oid = (prs_god_free ops_of (god_marked god oid, w) oid, PRS_OK)"
    using f assms(3) mark m
    by (simp add: prs_god_try_unlock_final_def prs_god_try_unlock_final_body_def Let_def
        PRS_OBJECT_ID_INVALID_def)
  obtain god2 w2 where cb: "god_free_call ops_of e (god_marked god oid, w) = (god2, w2)" by fastforce
  have tm: "god_taken (god_marked god oid) oid = Some ?em" using set(3) mark f by simp
  have ev2: "god_evolves (god_marked god oid) god2"
    using god_free_call_evolves [OF assms(4), of "(god_marked god oid, w)" e] set(1) cb by simp
  then have wf2: "god_wf god2" and t2: "god_taken god2 oid = Some ?em"
    using tm f(1) mark(2) by (simp_all add: god_evolves_def)
  let ?h = "goe_header ?em AND PRS_GOD_HEADER_ID"
  note fr = god_free_fields [of "goe_header ?em"]
  have "god_entry_ok (?em\<lparr>goe_header := ?h\<rparr>)" using fr by (simp add: god_entry_ok_def Let_def)
  note set3 = god_set_taken [OF wf2 t2 f(1) _ this]
  have e2: "god_entry god2 oid = ?em" using t2 unfolding god_taken_Some [OF wf2] by simp
  let ?god' = "god_set_header god2 oid ?h"
  have call: "(case op_free (ops_of (goe_ops ?em)) of None \<Rightarrow> (god_marked god oid, w)
      | Some f \<Rightarrow> f (goe_object ?em) (god_marked god oid, w)) = (god2, w2)"
    using cb by (simp add: god_free_call_def cong: option.case_cong)
  have run: "prs_god_free ops_of (god_marked god oid, w) oid = (?god', w2)"
    using f(1) call e2
    by (simp add: prs_god_free_def Let_def PRS_OBJECT_ID_INVALID_def set(5))
  have hid': "god_hid ?h = unat oid" using fr hid by simp
  note s3 = set3 [OF hid']
  have l3: "god_live ?god' = god_live god2"
  proof -
    have "god_live god2 oid = None" using t2 mark by (simp add: god_live_def)
    then show ?thesis using s3(4) fr by auto
  qed
  have t3: "god_taken ?god' = (god_taken god2)(oid := None)" using s3(3) fr by simp
  have "god_evolves god god2" using ev ev2 by (rule god_evolves_trans)
  then have "god_evolves god ?god'"
    using s3(1,2) l3 t3 f(5,9) by (auto simp: god_evolves_def)
  then show "\<exists>god'. prs_god_free ops_of (god_marked god oid, w) oid
        = (god', snd (god_free_call ops_of e (god_marked god oid, w)))
      \<and> god_evolves god god' \<and> god_taken god' oid = None
      \<and> god_live god' = god_live (fst (god_free_call ops_of e (god_marked god oid, w)))"
    using run l3 t3 cb by (intro exI [of _ ?god']) simp
qed

lemma god_unlock_shared:
  assumes "god_wf god" and "god_live god oid = Some e" and "1 < god_refs (goe_header e)"
  defines "god' \<equiv> god_set_header god oid (goe_header e - 1)"
  shows "prs_god_unlock ops_of (god, w) oid = (god', w)"
    and "prs_god_try_unlock_final ops_of (god, w) oid = ((god, w), PRS_LOCKED)"
    and "god_evolves god god'"
    and "god_live god' = (god_live god)(oid \<mapsto> e\<lparr>goe_header := goe_header e - 1\<rparr>)"
proof -
  note f = god_live_fields [OF assms(1,2)]
  have dec: "god_refs (goe_header e - 1) = god_refs (goe_header e) - 1"
      "drop_bit 12 (goe_header e - 1) = drop_bit 12 (goe_header e)"
    using god_dec_fields [OF f(6)] by simp_all
  note hi = god_high_fields [OF dec(2)]
  have ok: "god_entry_ok (e\<lparr>goe_header := goe_header e - 1\<rparr>)"
    using f dec(1) hi assms(3) by (simp add: god_entry_ok_def Let_def)
  have hid: "god_hid (goe_header e - 1) = unat oid" using hi f by simp
  show "prs_god_unlock ops_of (god, w) oid = (god', w)"
    using f assms(3) dec(1)
    by (simp add: prs_god_unlock_def prs_god_unlock_body_def Let_def PRS_OBJECT_ID_INVALID_def god'_def)
  show "prs_god_try_unlock_final ops_of (god, w) oid = ((god, w), PRS_LOCKED)"
    using f assms(3)
    by (simp add: prs_god_try_unlock_final_def prs_god_try_unlock_final_body_def Let_def
        PRS_OBJECT_ID_INVALID_def)
  show "god_evolves god god'" unfolding god'_def using assms(1,2) hid ok by (rule god_evolves_live)
  show "god_live god' = (god_live god)(oid \<mapsto> e\<lparr>goe_header := goe_header e - 1\<rparr>)"
    using god_set_taken(4) [OF assms(1) f(9) f(1) hid ok] hi f by (simp add: god'_def)
qed

text \<open>A lock that is undone restores the directory.\<close>

lemma god_lock_unlock:
  assumes "god_wf god" and "god_live god oid = Some e" and "god_refs (goe_header e) < 4095"
  shows "prs_god_unlock ops_of (god_set_header god oid (goe_header e + 1), w) oid = (god, w)"
proof -
  let ?god = "god_set_header god oid (goe_header e + 1)" and ?e = "e\<lparr>goe_header := goe_header e + 1\<rparr>"
  note lock = god_lock_entry_live [OF assms]
  have wf: "god_wf ?god" using lock(3) by (simp add: god_evolves_def)
  have live: "god_live ?god oid = Some ?e" using lock(4) by simp
  have "1 < god_refs (goe_header ?e)"
    using god_inc_fields(1) [OF assms(3)] god_live_fields(6) [OF assms(1,2)] by simp
  from god_unlock_shared(1) [OF wf live this]
  have "prs_god_unlock ops_of (?god, w) oid = (god_set_header ?god oid (goe_header e), w)" by simp
  moreover have "god_set_header ?god oid (goe_header e) = god"
  proof -
    let ?i = "prs_god_get_entry god oid"
    have i: "?i < length (god_entries god)" by (rule god_entry_less [OF assms(1)])
    have e: "god_entries god ! ?i = e"
      using god_live_fields(2) [OF assms(1,2)] by (simp add: god_entry_def)
    have "(god_entries god)[?i := e] = god_entries god" using e by (metis list_update_id)
    then show ?thesis
      using i e by (simp add: god_set_header_def god_set_entry_def god_entry_def prs_god_get_entry_def)
  qed
  ultimately show ?thesis by simp
qed

section \<open>Any sequence of calls\<close>

lemma god_lock_entry_evolves:
  assumes "god_wf god"
  shows "god_evolves god (fst (prs_god_lock_entry god oid))"
proof (cases "god_live god oid")
  case None
  then show ?thesis using assms by (simp add: god_dead god_evolves_refl)
next
  case (Some e)
  note f = god_live_fields [OF assms Some]
  show ?thesis
  proof (cases "god_refs (goe_header e) < 4095")
    case True
    then show ?thesis using god_lock_entry_live [OF assms Some] by simp
  next
    case False
    then have "god_refs (goe_header e) = 4095" using god_refs_less [of "goe_header e"] by simp
    then have "prs_god_lock_entry god oid = (god, False)"
      using f by (simp add: prs_god_lock_entry_def prs_god_lock_body_def)
    then show ?thesis using assms by (simp add: god_evolves_refl)
  qed
qed

lemma god_unlock_evolves:
  assumes "god_wf (fst s)" and "god_ops_ok ops_of"
  shows "god_evolves (fst s) (fst (prs_god_unlock ops_of s oid))"
    and "god_evolves (fst s) (fst (fst (prs_god_try_unlock_final ops_of s oid)))"
proof -
  obtain god w where s: "s = (god, w)" by fastforce
  have wf: "god_wf god" using assms(1) s by simp
  consider "god_live god oid = None"
    | e where "god_live god oid = Some e" "god_refs (goe_header e) = 1"
    | e where "god_live god oid = Some e" "1 < god_refs (goe_header e)"
    using god_live_fields(6) [OF wf] by (metis less_one linorder_neqE_nat not_Some_eq not_less_zero)
  then have "god_evolves god (fst (prs_god_unlock ops_of (god, w) oid))
    \<and> god_evolves god (fst (fst (prs_god_try_unlock_final ops_of (god, w) oid)))"
  proof cases
    case 1
    then show ?thesis using wf by (simp add: god_dead god_evolves_refl)
  next
    case (2 e)
    note u = god_unlock_last(3-5) [where w = w, OF wf 2 assms(2)]
    then show ?thesis by auto
  next
    case (3 e)
    then show ?thesis using wf by (simp add: god_unlock_shared [OF wf 3] god_evolves_refl)
  qed
  then show "god_evolves (fst s) (fst (prs_god_unlock ops_of s oid))"
    and "god_evolves (fst s) (fst (fst (prs_god_try_unlock_final ops_of s oid)))"
    by (simp_all add: s)
qed

lemma god_op_evolves:
  assumes "god_op_ok f" and "god_wf (fst s)"
  shows "god_evolves (fst s) (fst (f object s))"
  using assms unfolding god_op_ok_def by blast

lemma god_object_destroy_evolves:
  assumes "god_wf (fst s)" and "god_ops_ok ops_of"
  shows "god_evolves (fst s) (fst (fst (prs_god_object_destroy ops_of s oid)))"
proof -
  obtain god b where l: "prs_god_lock_entry (fst s) oid = (god, b)" by fastforce
  have ev: "god_evolves (fst s) god" using god_lock_entry_evolves [OF assms(1), of oid] l by simp
  then have wf: "god_wf god" by (simp add: god_evolves_def)
  let ?e = "god_entry god oid"
  let ?s = "case op_destroy (ops_of (goe_ops ?e)) of None \<Rightarrow> (god, snd s) | Some f \<Rightarrow> f (goe_object ?e) (god, snd s)"
  have ev2: "god_evolves god (fst ?s)"
  proof (cases "op_destroy (ops_of (goe_ops ?e))")
    case None
    then show ?thesis using wf by (simp add: god_evolves_refl)
  next
    case (Some f)
    then have "god_op_ok f" using assms(2) unfolding god_ops_ok_def by blast
    from god_op_evolves [OF this, of "(god, snd s)"] wf Some show ?thesis by simp
  qed
  then have "god_wf (fst ?s)" by (simp add: god_evolves_def)
  from god_unlock_evolves(1) [OF this assms(2), of oid] ev ev2 l show ?thesis
    by (cases b) (auto simp: prs_god_object_destroy_def Let_def intro: god_evolves_trans)
qed

lemma god_print_entry_evolves:
  assumes "god_wf (fst s)" and "god_ops_ok ops_of"
  shows "god_evolves (fst s) (fst (fst (prs_god_print_entry ops_of s i)))"
proof -
  let ?oid = "ucast (PRS_GOD_GET_ID (goe_header (god_entry (fst s) i))) :: u32"
  obtain god b where l: "prs_god_lock_entry (fst s) ?oid = (god, b)" by fastforce
  have ev: "god_evolves (fst s) god" using god_lock_entry_evolves [OF assms(1), of ?oid] l by simp
  then have wf: "god_wf god" by (simp add: god_evolves_def)
  let ?e = "god_entry god i"
  obtain s' out where p: "(case op_print (ops_of (goe_ops ?e)) of
      None \<Rightarrow> ((god, snd s), [GodNoPrint])
    | Some f \<Rightarrow> map_prod (\<lambda>x. x) (map GodObjectLine) (f (goe_object ?e) (god, snd s))) = (s', out)"
    by fastforce
  have ev2: "god_evolves god (fst s')"
  proof (cases "op_print (ops_of (goe_ops ?e))")
    case None
    then show ?thesis using wf p by (auto simp: god_evolves_refl)
  next
    case (Some f)
    then have "god_op_ok (\<lambda>object s. fst (f object s))" using assms(2) unfolding god_ops_ok_def by blast
    from god_op_evolves [OF this, of "(god, snd s)" "goe_object ?e"] wf Some p show ?thesis
      by (auto simp: map_prod_def split: prod.splits)
  qed
  then have "god_wf (fst s')" by (simp add: god_evolves_def)
  from god_unlock_evolves(1) [OF this assms(2), of ?oid] ev ev2 l p show ?thesis
    by (cases b) (auto simp: prs_god_print_entry_def Let_def assms(1) god_evolves_refl intro: god_evolves_trans)
qed

lemma god_print_loop_evolves:
  assumes "god_wf (fst s)" and "god_ops_ok ops_of"
  shows "god_evolves (fst s) (fst (fst (god_print_loop ops_of s is)))"
  using assms(1)
proof (induction "is" arbitrary: s)
  case Nil
  then show ?case by (simp add: god_evolves_refl)
next
  case (Cons i "is")
  obtain s' out where p: "prs_god_print_entry ops_of s (word_of_nat i) = (s', out)" by fastforce
  have ev: "god_evolves (fst s) (fst s')"
    using god_print_entry_evolves [OF Cons.prems assms(2), of "word_of_nat i"] p by simp
  then have "god_wf (fst s')" by (simp add: god_evolves_def)
  from god_evolves_trans [OF ev Cons.IH [OF this]] p show ?case by (simp add: split_beta)
qed

datatype god_call =
    GodAlloc ptr ptr | GodLock prs_object_id_t | GodUnlock prs_object_id_t
  | GodTryUnlockFinal prs_object_id_t | GodObjectDestroy prs_object_id_t | GodPrint

fun god_exec :: "'w god_ops \<Rightarrow> 'w god_world \<Rightarrow> god_call \<Rightarrow> 'w god_world" where
  "god_exec ops_of s (GodAlloc object ops) = (fst (prs_god_alloc_and_lock (fst s) object ops), snd s)"
| "god_exec ops_of s (GodLock oid) = (fst (prs_god_lock (fst s) oid), snd s)"
| "god_exec ops_of s (GodUnlock oid) = prs_god_unlock ops_of s oid"
| "god_exec ops_of s (GodTryUnlockFinal oid) = fst (prs_god_try_unlock_final ops_of s oid)"
| "god_exec ops_of s (GodObjectDestroy oid) = fst (prs_god_object_destroy ops_of s oid)"
| "god_exec ops_of s GodPrint = fst (prs_god_print ops_of s)"

fun god_call_ok :: "prs_god \<Rightarrow> god_call \<Rightarrow> bool" where
  "god_call_ok god (GodAlloc object ops) = (god_ids_left god \<and> object \<noteq> 0)"
| "god_call_ok god _ = True"

inductive god_reach :: "'w god_ops \<Rightarrow> 'w god_world \<Rightarrow> 'w god_world \<Rightarrow> bool" for ops_of s0 where
  start: "god_reach ops_of s0 s0"
| call: "god_reach ops_of s0 s \<Longrightarrow> god_call_ok (fst s) c \<Longrightarrow> god_reach ops_of s0 (god_exec ops_of s c)"

lemma god_alloc_evolves:
  assumes "god_wf god" and "god_ids_left god" and "object \<noteq> 0"
  shows "god_evolves god (fst (prs_god_alloc_and_lock god object ops))"
  using assms(1,2)
proof (cases rule: prs_god_alloc_cases [where object = object and ops = ops])
  case full
  then show ?thesis using assms(1) by (simp add: god_evolves_refl)
next
  case (found j)
  note at = god_alloc_at_wf(1,4,5) [where ops = ops, OF assms(1,3) found(1-3)]
    and new = god_alloc_at_wf(2) [OF assms(1,3) found(1-3)]
  obtain e where e: "god_taken (god_alloc_at god object ops j) = (god_taken god)(j \<mapsto> e)"
      "god_live (god_alloc_at god object ops j) = (god_live god)(j \<mapsto> e)"
    using at(2) by blast
  have "god_evolves god (god_alloc_at god object ops j)"
    unfolding god_evolves_def using at(1,3) new e found(1) by auto
  then show ?thesis using found(4) by simp
qed

lemma god_exec_evolves:
  assumes "god_wf (fst s)" and "god_ops_ok ops_of" and "god_call_ok (fst s) c"
  shows "god_evolves (fst s) (fst (god_exec ops_of s c))"
proof (cases c)
  case (GodAlloc object ops)
  then show ?thesis using god_alloc_evolves [OF assms(1)] assms(3) by simp
next
  case (GodLock oid)
  then show ?thesis
    using god_lock_entry_evolves [OF assms(1), of oid] by (auto simp: prs_god_lock_def split: prod.splits bool.splits)
qed (use assms(1,2) in \<open>simp_all add: god_unlock_evolves god_object_destroy_evolves prs_god_print_def
       god_print_loop_evolves\<close>)

lemma god_reach_evolves:
  assumes "god_reach ops_of s0 s" and "god_wf (fst s0)" and "god_ops_ok ops_of"
  shows "god_evolves (fst s0) (fst s)"
  using assms(1)
proof (induction rule: god_reach.induct)
  case start
  show ?case using assms(2) by (rule god_evolves_refl)
next
  case (call s c)
  then have "god_wf (fst s)" by (simp add: god_evolves_def)
  from god_evolves_trans [OF call.IH god_exec_evolves [OF this assms(3) call.hyps(2)]] show ?case .
qed

section \<open>Racing threads\<close>

definition god_ref_body :: "prs_object_id_t \<Rightarrow> refop \<Rightarrow> u64 \<Rightarrow> (u64, unit) cas_body" where
  "god_ref_body oid op h =
     (case op of
        Lock \<Rightarrow> map_cas_body (\<lambda>x. x) (\<lambda>_. ()) (prs_god_lock_body oid h)
      | Unlock \<Rightarrow> map_cas_body (\<lambda>x. x) (\<lambda>_. ()) (prs_god_unlock_body oid h))"

definition god_lockable :: "u64 \<Rightarrow> bool" where
  "god_lockable h \<longleftrightarrow> bit h 13 \<and> \<not> bit h 12"

definition god_owner :: "u64 \<Rightarrow> prs_object_id_t" where
  "god_owner h = word_of_nat (god_hid h)"

lemma god_owner_iff: "god_owner h = i \<longleftrightarrow> god_hid h = unat i"
  using god_hid_less [of h] by (auto simp: god_owner_def word_eq_iff_unat unat_of_nat)

lemma god_ref_body_Swap:
  assumes "god_ref_body i op h = Swap v r"
  shows "god_hid h = unat i" and "god_hid v = unat i"
    and "god_lockable h = (0 < god_refs h) \<Longrightarrow> 0 < god_refs h \<and> god_lockable v = (0 < god_refs v)
      \<and> god_refs v = (case op of Lock \<Rightarrow> god_refs h + 1 | Unlock \<Rightarrow> god_refs h - 1)"
proof -
  let ?m = "(h OR PRS_GOD_HEADER_DELETE_MARK) AND NOT PRS_GOD_HEADER_REFCNT"
  have c: "god_hid h = unat i \<and> bit h 13 \<and>
    (case op of Lock \<Rightarrow> \<not> bit h 12 \<and> god_refs h < 4095 \<and> v = h + 1
      | Unlock \<Rightarrow> god_refs h \<noteq> 0 \<and> v = (if god_refs h = 1 then ?m else h - 1))"
    using assms god_refs_less [of h]
    by (auto simp: god_ref_body_def prs_god_lock_body_def prs_god_unlock_body_def Let_def
        split: refop.splits if_splits)
  then show "god_hid h = unat i" ..
  have inc: "god_refs h < 4095 \<Longrightarrow> god_refs (h + 1) = god_refs h + 1 \<and> god_hid (h + 1) = god_hid h
      \<and> god_lockable (h + 1) = god_lockable h"
    using god_inc_fields [of h] god_high_fields [of "h + 1" h] by (simp add: god_lockable_def)
  have dec: "0 < god_refs h \<Longrightarrow> god_refs (h - 1) = god_refs h - 1 \<and> god_hid (h - 1) = god_hid h
      \<and> god_lockable (h - 1) = god_lockable h"
    using god_dec_fields [of h] god_high_fields [of "h - 1" h] by (simp add: god_lockable_def)
  have mark: "god_refs ?m = 0 \<and> god_hid ?m = god_hid h \<and> \<not> god_lockable ?m"
    using god_mark_fields [of h] by (simp add: god_lockable_def)
  show "god_hid v = unat i"
    using c inc dec mark by (auto split: refop.splits if_splits)
  show "0 < god_refs h \<and> god_lockable v = (0 < god_refs v)
      \<and> god_refs v = (case op of Lock \<Rightarrow> god_refs h + 1 | Unlock \<Rightarrow> god_refs h - 1)"
    if "god_lockable h = (0 < god_refs h)"
  proof (cases op)
    case Lock
    then have v: "v = h + 1" "god_refs h < 4095" "god_lockable h" using c by (auto simp: god_lockable_def)
    then show ?thesis using inc that Lock by simp
  next
    case Unlock
    then have v: "v = (if god_refs h = 1 then ?m else h - 1)" "0 < god_refs h" using c by auto
    then show ?thesis using dec mark that Unlock by auto
  qed
qed

interpretation god_cell: refcounted god_refs god_lockable god_owner god_ref_body
proof unfold_locales
  fix h i v r assume "god_lockable h = (0 < god_refs h)" "god_ref_body i Lock h = Swap v r"
  then show "0 < god_refs h \<and> god_refs v = god_refs h + 1"
    using god_ref_body_Swap(3) [of i Lock h v r] by simp
next
  fix h i v r assume "god_lockable h = (0 < god_refs h)" "god_ref_body i Unlock h = Swap v r"
  then show "0 < god_refs h \<and> god_refs v = god_refs h - 1"
    using god_ref_body_Swap(3) [of i Unlock h v r] by simp
next
  fix h i op v r assume "god_lockable h = (0 < god_refs h)" "god_ref_body i op h = Swap v r"
  then show "god_lockable v = (0 < god_refs v)" using god_ref_body_Swap(3) [of i op h v r] by simp
next
  fix i op h v r assume "god_ref_body i op h = Swap v r"
  then show "god_owner h = i \<and> god_owner v = i"
    unfolding god_owner_iff using god_ref_body_Swap(1,2) by blast
qed

section \<open>A fresh directory\<close>

lemma prs_god_create_fresh:
  assumes "unat max_entries = 2 ^ k" and "0 < k" and "k < 32"
  shows "\<exists>god. prs_god_create max_entries (Some addr) (Some entries_addr) = GodCreated god
    \<and> god_wf god \<and> god_live god = Map.empty \<and> god_write_index god = 1
    \<and> unat (god_max_entries god) = 2 ^ k"
proof -
  let ?z = "\<lparr>goe_header = 0, goe_object = 0, goe_ops = 0\<rparr>"
  let ?e0 = "\<lparr>goe_header = PRS_GOD_HEADER_RESERVED OR PRS_GOD_HEADER_USED, goe_object = 0, goe_ops = 0\<rparr>"
  define es where "es = (replicate (2 ^ k) ?z)[0 := ?e0]"
  let ?god = "\<lparr>god_addr = addr, god_entries_addr = entries_addr, god_entries = es,
    god_max_entries = ucast max_entries, god_max_entries_mask = ucast max_entries - 1, god_write_index = 1\<rparr>"
  have "(2 :: nat) ^ k < 2 ^ 32" using assms(3) by (intro power_strict_increasing) simp_all
  then have um: "unat (ucast max_entries :: u32) = 2 ^ k"
    using assms(1,3) by (simp add: unsigned_ucast_eq take_bit_nat_eq_self)
  have run: "prs_god_create max_entries (Some addr) (Some entries_addr) = GodCreated ?god"
    using assms(1) by (simp add: prs_god_create_def god_set_entry_def es_def)
  have z: "\<not> goe_taken ?z" "goe_ident ?z = 0" "god_entry_ok ?z"
    by (simp_all add: goe_taken_def goe_ident_def god_hid_def god_entry_ok_def god_refs_def)
  have e0: "goe_ident ?e0 = 0" by (simp add: goe_ident_def god_hid_def god_const_defs)
  have len: "length es = 2 ^ k" by (simp add: es_def)
  have nth: "es ! j = (if j = 0 then ?e0 else ?z)" if "j < 2 ^ k" for j
    using that by (simp add: es_def nth_list_update)
  have "es \<noteq> []" using len by auto
  then have "tab_ok goe_taken goe_ident es 1"
    unfolding tab_ok_def len using nth z e0 by simp
  then have wf: "god_wf ?god"
    unfolding god_wf_def using nth len um assms(2,3) z by auto
  moreover have "god_live ?god = Map.empty"
  proof (rule ext)
    fix oid
    have lt: "prs_god_get_entry ?god oid < 2 ^ k" using god_entry_less [OF wf, of oid] len by simp
    show "god_live ?god oid = None"
    proof (rule ccontr)
      assume "god_live ?god oid \<noteq> None"
      then obtain e where l: "god_live ?god oid = Some e" by blast
      note f = god_live_fields [OF wf l]
      have "prs_god_get_entry ?god oid \<noteq> 0" by (rule god_taken_ok(1) [OF wf f(9,1)])
      then have "e = ?z" using f(2) nth [OF lt] by (simp add: god_entry_def)
      then show False using f(3) by simp
    qed
  qed
  ultimately show ?thesis using run um by (intro exI [of _ ?god]) simp
qed

section \<open>Properties\<close>

text \<open>A directory of four entries, and objects whose free function records them.\<close>

definition god_example :: prs_god where
  "god_example = (case prs_god_create 4 (Some 4096) (Some 8192) of GodCreated god \<Rightarrow> god | _ \<Rightarrow> undefined)"

definition god_example_ops :: "ptr list god_ops" where
  "god_example_ops p =
     \<lparr>op_destroy = None, op_free = Some (\<lambda>object (god, log). (god, object # log)), op_print = None\<rparr>"

lemma god_example_fresh: "god_wf god_example" "god_live god_example = Map.empty" "god_ids_left god_example"
  using prs_god_create_fresh [of 4 2 4096 8192]
  by (auto simp: god_example_def god_ids_left_def)

lemma god_example_ops_ok: "god_ops_ok god_example_ops"
  by (simp add: god_ops_ok_def god_op_ok_def god_example_ops_def god_evolves_refl)

lemma god_example_alloc:
  obtains god where "prs_god_alloc_and_lock god_example 77 5 = (god, 1)" "god_wf god"
    "god_evolves god_example god" "unat (god_write_index god) = 2"
    "\<exists>e. god_live god = [1 \<mapsto> e] \<and> goe_object e = 77 \<and> goe_ops e = 5 \<and> god_refs (goe_header e) = 1"
proof -
  have r: "snd (prs_god_alloc_and_lock god_example 77 5) = 1"
      "god_write_index (fst (prs_god_alloc_and_lock god_example 77 5)) = 2" by code_simp+
  have ev: "god_evolves god_example (fst (prs_god_alloc_and_lock god_example 77 5))"
    using god_alloc_evolves [OF god_example_fresh(1,3), of 77 5] by simp
  from god_example_fresh(1,3) show thesis
  proof (cases rule: prs_god_alloc_cases [where object = 77 and ops = 5])
    case full
    then show thesis using r by (simp add: PRS_OBJECT_ID_INVALID_def)
  next
    case (found j)
    have seventy: "(77 :: ptr) \<noteq> 0" by simp
    note at = god_alloc_at_wf(1,4) [where ops = 5, OF god_example_fresh(1) seventy found(1-3)]
    have "j = 1" using r(1) found(4) by simp
    then show thesis using that [of "god_alloc_at god_example 77 5 1"] at found(4) r ev god_example_fresh(2)
      by auto
  qed
qed

text \<open>In a well-formed directory with IDs left, registering an object that is not null either finds
  every entry reserved, changes nothing and returns the invalid ID, or returns an ID that no entry
  carries and that is not below the write index; prs_god_lock on that ID then returns the object and the
  count goes from one to two, and no other live ID is affected.\<close>

theorem god_alloc_lock_roundtrip:
  assumes "god_wf god" and "god_ids_left god" and "object \<noteq> 0"
  shows "case prs_god_alloc_and_lock god object ops of (god', oid) \<Rightarrow>
      god_wf god' \<and>
      (if oid = PRS_OBJECT_ID_INVALID then god' = god \<and> (\<forall>e \<in> set (god_entries god). bit (goe_header e) 14)
       else god_taken god oid = None \<and> unat (god_write_index god) \<le> unat oid
         \<and> god_view god' = (god_view god)(oid \<mapsto> 1)
         \<and> snd (prs_god_lock god' oid) = object
         \<and> god_view (fst (prs_god_lock god' oid)) = (god_view god)(oid \<mapsto> 2))"
  using assms(1,2)
proof (cases rule: prs_god_alloc_cases [where object = object and ops = ops])
  case full
  then show ?thesis using assms(1) by (simp add: goe_taken_def)
next
  case (found j)
  let ?god = "god_alloc_at god object ops j"
  note at = god_alloc_at_wf(1,4) [where ops = ops, OF assms(1,3) found(1-3)]
    and new = god_alloc_at_wf(2,3) [OF assms(1,3) found(1-3)]
  obtain e where e: "god_live ?god = (god_live god)(j \<mapsto> e)" "goe_object e = object"
      "god_refs (goe_header e) = 1"
    using at(2) by blast
  have l: "god_live ?god j = Some e" "god_refs (goe_header e) < 4095" using e by simp_all
  note lock = god_lock_entry_live [OF at(1) l]
  have "god_view ?god = (god_view god)(j \<mapsto> 1)" using e by (auto simp: fun_eq_iff god_view_def)
  moreover have "god_view (fst (prs_god_lock ?god j)) = (god_view god)(j \<mapsto> 2)"
    using lock(2,4) e god_inc_fields(1) [OF l(2)] by (auto simp: fun_eq_iff god_view_def)
  ultimately show ?thesis
    using found(1,4) at(1) new lock(2) e(2) by (simp add: PRS_OBJECT_ID_INVALID_def)
qed

theorem god_alloc_lock_roundtrip_witness:
  "case prs_god_alloc_and_lock god_example 77 5 of (god', oid) \<Rightarrow>
     oid = 1 \<and> snd (prs_god_lock god' 1) = 77 \<and> god_view (fst (prs_god_lock god' 1)) 1 = Some 2"
proof -
  obtain god where "prs_god_alloc_and_lock god_example 77 5 = (god, 1)" by (rule god_example_alloc)
  then show ?thesis
    using god_alloc_lock_roundtrip [OF god_example_fresh(1,3), of 77 5]
    by (simp add: PRS_OBJECT_ID_INVALID_def)
qed

text \<open>C6: The last unlock of an object first makes its ID unlockable, then calls the object's free
  function once with the object, and then frees the entry; prs_god_try_unlock_final does the same and
  returns PRS_OK. The free function may itself use the directory through its calls. An unlock that is
  not the last one calls nothing, and the try variant then returns PRS_LOCKED and changes nothing.\<close>

theorem god_last_unlock_frees:
  assumes "god_wf god" and "god_ops_ok ops_of" and "god_live god oid = Some e"
  shows "if god_refs (goe_header e) = 1
    then (\<exists>god'. prs_god_unlock ops_of (god, w) oid = (god', snd (god_free_call ops_of e (god_marked god oid, w)))
          \<and> prs_god_try_unlock_final ops_of (god, w) oid = (prs_god_unlock ops_of (god, w) oid, PRS_OK)
          \<and> prs_god_lock (god_marked god oid) oid = (god_marked god oid, 0)
          \<and> god_taken god' oid = None \<and> god_wf god' \<and> prs_god_lock god' oid = (god', 0))
    else prs_god_try_unlock_final ops_of (god, w) oid = ((god, w), PRS_LOCKED)
      \<and> (\<exists>god'. prs_god_unlock ops_of (god, w) oid = (god', w)
          \<and> god_view god' = (god_view god)(oid \<mapsto> god_refs (goe_header e) - 1))"
proof (cases "god_refs (goe_header e) = 1")
  case True
  note u = god_unlock_last [OF assms(1,3) True assms(2)]
  obtain god' where run: "prs_god_free ops_of (god_marked god oid, w) oid
        = (god', snd (god_free_call ops_of e (god_marked god oid, w)))"
      and ev: "god_evolves god god'" and t: "god_taken god' oid = None" using u(5) by blast
  have wf: "god_wf god'" "god_wf (god_marked god oid)" using ev u(1) by (simp_all add: god_evolves_def)
  have "god_live god' oid = None" using t by (simp add: god_live_def)
  moreover have "god_live (god_marked god oid) oid = None" using u(2) by simp
  ultimately have dead: "prs_god_lock god' oid = (god', 0)"
      "prs_god_lock (god_marked god oid) oid = (god_marked god oid, 0)"
    using god_dead(2) wf by blast+
  show ?thesis
    using True u(3,4) run t wf dead by (intro if_P [THEN iffD2]) simp_all
next
  case False
  then have gt: "1 < god_refs (goe_header e)" using god_live_fields(6) [OF assms(1,3)] by simp
  have "god_view (god_set_header god oid (goe_header e - 1)) = (god_view god)(oid \<mapsto> god_refs (goe_header e) - 1)"
    using god_unlock_shared(4) [OF assms(1,3) gt] god_dec_fields(1) [of "goe_header e"] gt
    by (auto simp: fun_eq_iff god_view_def)
  then show ?thesis using False by (simp add: god_unlock_shared [OF assms(1,3) gt])
qed

theorem god_last_unlock_frees_witness:
  "case prs_god_unlock god_example_ops (fst (prs_god_alloc_and_lock god_example 77 5), []) 1 of
     (god', log) \<Rightarrow> log = [77] \<and> prs_god_lock god' 1 = (god', 0)"
proof -
  obtain god e where g: "prs_god_alloc_and_lock god_example 77 5 = (god, 1)" "god_wf god"
      "god_live god 1 = Some e" "goe_object e = 77" "god_refs (goe_header e) = 1"
    by (rule god_example_alloc) auto
  have "snd (god_free_call god_example_ops e (god_marked god 1, [])) = [77]"
    using g(4) by (simp add: god_free_call_def god_example_ops_def)
  then show ?thesis
    using god_last_unlock_frees [OF g(2) god_example_ops_ok g(3), of "[]"] g(1,5) by auto
qed

text \<open>C5: Over any sequence of directory calls with any IDs, with object functions that use the
  directory only through its calls, a well-formed directory stays well-formed and an ID once handed out
  names one object for ever: prs_god_lock on it returns that object, or null once its last reference is
  gone; an ID that is dead stays dead.\<close>

theorem god_object_stable:
  assumes "god_wf (fst s0)" and "god_ops_ok ops_of" and "god_reach ops_of s0 s"
    and "unat oid < unat (god_write_index (fst s0))"
  shows "god_wf (fst s) \<and> (case god_live (fst s0) oid of
      None \<Rightarrow> prs_god_lock (fst s) oid = (fst s, 0)
    | Some e \<Rightarrow> snd (prs_god_lock (fst s) oid) = goe_object e \<or> prs_god_lock (fst s) oid = (fst s, 0))"
proof -
  have ev: "god_evolves (fst s0) (fst s)" using god_reach_evolves [OF assms(3,1,2)] .
  then have wf: "god_wf (fst s)" by (simp add: god_evolves_def)
  show ?thesis
  proof (cases "god_live (fst s) oid")
    case None
    then show ?thesis using wf god_dead(2) [OF wf None] by (simp split: option.splits)
  next
    case (Some e')
    then obtain e where e: "god_live (fst s0) oid = Some e" "goe_object e' = goe_object e"
      using ev assms(4) unfolding god_evolves_def by blast
    note f = god_live_fields [OF wf Some]
    have "snd (prs_god_lock (fst s) oid) = goe_object e' \<or> prs_god_lock (fst s) oid = (fst s, 0)"
    proof (cases "god_refs (goe_header e') < 4095")
      case True
      then show ?thesis using god_lock_entry_live(2) [OF wf Some True] by simp
    next
      case False
      then have "god_refs (goe_header e') = 4095" using god_refs_less [of "goe_header e'"] by simp
      then show ?thesis
        using f by (simp add: prs_god_lock_def prs_god_lock_entry_def prs_god_lock_body_def)
    qed
    then show ?thesis using wf e by simp
  qed
qed

theorem god_object_stable_witness:
  "let s = (fst (prs_god_alloc_and_lock god_example 77 5), []);
       s' = god_exec god_example_ops (god_exec god_example_ops s (GodLock 1)) GodPrint
   in god_wf (fst s') \<and> snd (prs_god_lock (fst s') 1) = 77"
proof -
  obtain god e where g: "prs_god_alloc_and_lock god_example 77 5 = (god, 1)" "god_wf god"
      "unat (god_write_index god) = 2" "god_live god 1 = Some e" "goe_object e = 77"
    by (rule god_example_alloc) auto
  let ?s = "(fst (prs_god_alloc_and_lock god_example 77 5), [] :: ptr list)"
  let ?t = "god_exec god_example_ops (god_exec god_example_ops ?s (GodLock 1)) GodPrint"
  have r: "god_reach god_example_ops ?s ?t"
    by (intro god_reach.call god_reach.start) simp_all
  have l: "snd (prs_god_lock (fst ?t) 1) = 77" by code_simp
  have "god_wf (fst ?s)" using g by simp
  from god_object_stable [OF this god_example_ops_ok r, of 1] g l show ?thesis by (simp add: Let_def)
qed



text \<open>The scan of prs_god_alloc_and_lock ends at the 32-bit sum of the write index and the number
  of entries. Once that sum wraps around, the scan is empty: every further registration fails and
  leaves the directory as it is, even if every entry is free.\<close>

theorem god_alloc_stuck_after_wrap:
  assumes "2 ^ 32 \<le> unat (god_write_index god) + unat (god_max_entries god)"
  shows "prs_god_alloc_and_lock god object ops = (god, PRS_OBJECT_ID_INVALID)"
proof -
  let ?w = "god_write_index god" and ?n = "god_max_entries god"
  have n: "unat ?n < 2 ^ 32" and w: "unat ?w < 2 ^ 32"
    using unsigned_less [of ?n, where ?'a = nat] unsigned_less [of ?w, where ?'a = nat] by simp_all
  have "unat (?w + ?n) = (unat ?w + unat ?n) mod 2 ^ 32" by (simp add: unat_word_ariths)
  also have "\<dots> = unat ?w + unat ?n - 2 ^ 32" using assms n w by (simp add: mod_if)
  finally have "\<not> ?w < ?w + ?n" using n assms by (simp add: word_less_nat_alt)
  then show ?thesis
    by (simp add: prs_god_alloc_and_lock_def Let_def prs_god_alloc_loop.simps)
qed

theorem god_alloc_stuck_after_wrap_witness:
  "prs_god_alloc_and_lock (god_example\<lparr>god_write_index := -4\<rparr>) 77 5
     = (god_example\<lparr>god_write_index := -4\<rparr>, PRS_OBJECT_ID_INVALID)"
proof -
  have "god_max_entries god_example = 4" by code_simp
  moreover have "unat (-4 :: u32) = 4294967292" by simp
  ultimately show ?thesis
    using god_alloc_stuck_after_wrap [of "god_example\<lparr>god_write_index := -4\<rparr>" 77 5] by simp
qed

end
