(* ===== verification/Dlink.thy ===== *)
theory Dlink
  imports Prs_Prelude
begin

text \<open>
  Doubly linked nodes in memory, as the two list implementations and their clients see them: \<open>nx\<close>
  and \<open>pv\<close> are the next and previous pointers of all nodes, 0 is null. \<open>chain\<close> says that the
  nodes of a list are linked in its order between two given ends. The lemmas are about writing the
  pointers at the seams; the contract \<open>node_list\<close> is what a list promises to code that appends at
  the tail and takes from the head.
\<close>

section \<open>Chains\<close>

definition first_or :: "ptr list \<Rightarrow> ptr \<Rightarrow> ptr" where
  "first_or xs q = (case xs of [] \<Rightarrow> q | x # _ \<Rightarrow> x)"

definition last_or :: "ptr list \<Rightarrow> ptr \<Rightarrow> ptr" where
  "last_or xs p = (if xs = [] then p else last xs)"

fun chain :: "(ptr \<Rightarrow> ptr) \<Rightarrow> (ptr \<Rightarrow> ptr) \<Rightarrow> ptr \<Rightarrow> ptr list \<Rightarrow> ptr \<Rightarrow> bool" where
  "chain nx pv p [] q \<longleftrightarrow> True"
| "chain nx pv p (x # xs) q \<longleftrightarrow> pv x = p \<and> nx x = first_or xs q \<and> chain nx pv x xs q"

lemma first_or_simps [simp]: "first_or [] q = q" "first_or (x # xs) q = x"
  by (simp_all add: first_or_def)

lemma last_or_simps [simp]: "last_or [] p = p" "last_or (xs @ [x]) p = x" "last_or (x # xs) p = last_or xs x"
  by (simp_all add: last_or_def)

lemma first_or_append [simp]: "first_or (xs @ ys) q = first_or xs (first_or ys q)"
  by (cases xs) simp_all

lemma last_or_append [simp]: "last_or (xs @ ys) p = last_or ys (last_or xs p)"
  by (cases ys rule: rev_cases) (simp_all add: last_or_def)

lemma last_or_in: "xs \<noteq> [] \<Longrightarrow> last_or xs p \<in> set xs"
  by (simp add: last_or_def)

lemma last_or_eq: "last_or xs p = p \<or> last_or xs p \<in> set xs"
  by (simp add: last_or_def)

lemma first_or_in: "xs \<noteq> [] \<Longrightarrow> first_or xs q \<in> set xs"
  by (cases xs) simp_all

lemma first_or_eq: "first_or xs q = q \<or> first_or xs q \<in> set xs"
  by (cases xs) simp_all

lemma chain_append:
  "chain nx pv p (xs @ ys) q \<longleftrightarrow> chain nx pv p xs (first_or ys q) \<and> chain nx pv (last_or xs p) ys q"
  by (induction xs arbitrary: p) auto

lemma chain_frame:
  assumes "\<forall>x \<in> set xs. nx' x = nx x \<and> pv' x = pv x"
  shows "chain nx' pv' p xs q = chain nx pv p xs q"
  using assms by (induction xs arbitrary: p) auto

text \<open>Relinking the right end of a chain, and its left end.\<close>

lemma chain_relink_last:
  assumes "chain nx pv p xs q" and "distinct xs" and "xs \<noteq> [] \<longrightarrow> nx' (last xs) = q'"
    and "\<forall>x \<in> set xs. x \<noteq> last xs \<longrightarrow> nx' x = nx x" and "\<forall>x \<in> set xs. pv' x = pv x"
  shows "chain nx' pv' p xs q'"
  using assms
proof (induction xs arbitrary: p)
  case (Cons x xs)
  show ?case
  proof (cases "xs = []")
    case False
    then have "last xs \<in> set xs" "x \<noteq> last xs" using Cons.prems(2) by auto
    moreover have "chain nx' pv' x xs q'" using Cons.IH Cons.prems False by simp
    moreover have "first_or xs q' = first_or xs q" using False by (cases xs) simp_all
    ultimately show ?thesis using Cons.prems False by simp
  qed (use Cons.prems in simp)
qed simp

lemma chain_relink_first:
  assumes "chain nx pv p xs q" and "distinct xs" and "xs \<noteq> [] \<longrightarrow> pv' (hd xs) = p'"
    and "\<forall>x \<in> set xs. x \<noteq> hd xs \<longrightarrow> pv' x = pv x" and "\<forall>x \<in> set xs. nx' x = nx x"
  shows "chain nx' pv' p' xs q"
proof (cases xs)
  case (Cons x ys)
  have "chain nx pv x ys q" using assms(1) Cons by simp
  then have "chain nx' pv' x ys q"
    using chain_frame [of ys nx' nx pv' pv x q] assms(2,4,5) Cons by (metis distinct.simps(2) list.sel(1) list.set_intros(2))
  then show ?thesis using assms(1,3,5) Cons by simp
qed simp

text \<open>The list between the two null ends: what head and tail must be.\<close>

definition linked :: "(ptr \<Rightarrow> ptr) \<Rightarrow> (ptr \<Rightarrow> ptr) \<Rightarrow> ptr \<Rightarrow> ptr \<Rightarrow> ptr list \<Rightarrow> bool" where
  "linked nx pv head tail xs \<longleftrightarrow>
     distinct xs \<and> 0 \<notin> set xs \<and> chain nx pv 0 xs 0 \<and> head = first_or xs 0 \<and> tail = last_or xs 0"

lemma linked_length:
  assumes "linked nx pv head tail xs"
  shows "length xs < 2 ^ 64"
proof -
  have "finite (UNIV :: ptr set)" by simp
  have "set xs \<subset> (UNIV :: ptr set)" using assms by (auto simp: linked_def)
  then have "card (set xs) < card (UNIV :: ptr set)" by (rule psubset_card_mono [rotated]) simp
  then show ?thesis using assms by (simp add: linked_def distinct_card card_word)
qed

lemma linked_next:
  assumes "linked nx pv head tail (ys @ x # zs)"
  shows "nx x = first_or zs 0" and "pv x = last_or ys 0"
  using assms by (simp_all add: linked_def chain_append)

text \<open>Inserting a node between \<open>ys\<close> and \<open>zs\<close>.\<close>

lemma linked_insert:
  assumes "linked nx pv head tail (ys @ zs)" and "node \<noteq> 0" and "node \<notin> set (ys @ zs)"
    and "next = first_or zs 0" and "prev = last_or ys 0"
  defines "nx1 \<equiv> nx(node := next)" and "pv1 \<equiv> pv(node := prev)"
  shows "linked (if prev \<noteq> 0 then nx1(prev := node) else nx1) (if next \<noteq> 0 then pv1(next := node) else pv1)
    (if next = head then node else head) (if prev = tail then node else tail) (ys @ node # zs)"
proof -
  let ?nx = "if prev \<noteq> 0 then nx1(prev := node) else nx1"
  let ?pv = "if next \<noteq> 0 then pv1(next := node) else pv1"
  have d: "distinct ys" "distinct zs" "set ys \<inter> set zs = {}" "0 \<notin> set ys" "0 \<notin> set zs"
      "node \<notin> set ys" "node \<notin> set zs"
    and c: "chain nx pv 0 ys next" "chain nx pv prev zs 0"
    and h: "head = first_or ys next" "tail = last_or zs prev"
    using assms(1-5) by (auto simp: linked_def chain_append)
  have p: "ys \<noteq> [] \<Longrightarrow> prev = last ys \<and> prev \<in> set ys \<and> prev \<noteq> 0" "ys = [] \<Longrightarrow> prev = 0"
    using d assms(5) by (metis last_in_set last_or_def)+
  have n: "zs \<noteq> [] \<Longrightarrow> next = hd zs \<and> next \<in> set zs \<and> next \<noteq> 0" "zs = [] \<Longrightarrow> next = 0"
    using d assms(4) by (cases zs; force)+
  have pz: "prev \<notin> set zs" and ny: "next \<notin> set ys" and pn: "prev \<noteq> node" "next \<noteq> node"
    using p n d assms(2) by (cases "ys = []"; cases "zs = []"; auto)+
  have "chain ?nx ?pv 0 ys node"
    by (rule chain_relink_last [OF c(1) d(1)]) (use p n d ny in \<open>auto simp: nx1_def pv1_def\<close>)
  moreover have "chain ?nx ?pv node zs 0"
    by (rule chain_relink_first [OF c(2) d(2)]) (use p n d pz in \<open>auto simp: nx1_def pv1_def\<close>)
  moreover have "?pv node = prev" "?nx node = next" using pn by (auto simp: nx1_def pv1_def)
  ultimately have "chain ?nx ?pv 0 (ys @ node # zs) 0"
    using assms(4,5) by (simp add: chain_append)
  moreover have "(if next = head then node else head) = first_or (ys @ node # zs) 0"
    using h(1) p n d ny by (cases ys) auto
  moreover have "(if prev = tail then node else tail) = last_or (ys @ node # zs) 0"
    using h(2) p n d pz last_or_in [of zs prev] by (cases "zs = []") (auto simp: last_or_def)
  ultimately show ?thesis using d assms(2) by (auto simp: linked_def)
qed

text \<open>Taking a node out. The links of the node itself may be anything afterwards.\<close>

lemma linked_remove:
  assumes "linked nx pv head tail (ys @ node # zs)" and "next = nx node" and "prev = pv node"
    and "\<forall>x. x \<noteq> node \<longrightarrow> nx' x = (if prev \<noteq> 0 then nx(prev := next) else nx) x"
    and "\<forall>x. x \<noteq> node \<longrightarrow> pv' x = (if next \<noteq> 0 then pv(next := prev) else pv) x"
  shows "linked nx' pv' (if node = head then next else head) (if node = tail then prev else tail) (ys @ zs)"
proof -
  have d: "distinct ys" "distinct zs" "set ys \<inter> set zs = {}" "0 \<notin> set ys" "0 \<notin> set zs"
      "node \<notin> set ys" "node \<notin> set zs" "node \<noteq> 0"
    and c: "chain nx pv 0 ys node" "chain nx pv node zs 0"
    and np: "next = first_or zs 0" "prev = last_or ys 0"
    and h: "head = first_or ys node" "tail = last_or zs node"
    using assms(1-3) by (auto simp: linked_def chain_append)
  have p: "ys \<noteq> [] \<Longrightarrow> prev = last ys \<and> prev \<in> set ys \<and> prev \<noteq> 0" "ys = [] \<Longrightarrow> prev = 0"
    using d np(2) by (metis last_in_set last_or_def)+
  have n: "zs \<noteq> [] \<Longrightarrow> next = hd zs \<and> next \<in> set zs \<and> next \<noteq> 0" "zs = [] \<Longrightarrow> next = 0"
    using d np(1) by (cases zs; force)+
  have pz: "prev \<notin> set zs" and ny: "next \<notin> set ys"
    using p n d by (cases "ys = []"; cases "zs = []"; auto)+
  have ney: "\<forall>x \<in> set ys. x \<noteq> node" "\<forall>x \<in> set zs. x \<noteq> node" using d by auto
  have "chain nx' pv' 0 ys next"
    by (rule chain_relink_last [OF c(1) d(1)]) (use p n d ny ney assms(4,5) in auto)
  moreover have "chain nx' pv' prev zs 0"
    by (rule chain_relink_first [OF c(2) d(2)]) (use p n d pz ney assms(4,5) in auto)
  ultimately have "chain nx' pv' 0 (ys @ zs) 0" using np by (simp add: chain_append)
  moreover have "(if node = head then next else head) = first_or (ys @ zs) 0"
    using h(1) np d by (cases ys) auto
  moreover have "(if node = tail then prev else tail) = last_or (ys @ zs) 0"
    using h(2) np d last_or_in [of zs] by (cases "zs = []") (auto simp: last_or_def)
  ultimately show ?thesis using d by (simp add: linked_def)
qed

section \<open>The contract of a list of nodes\<close>

locale node_list =
  fixes rep :: "'s \<Rightarrow> ptr list \<Rightarrow> bool"
    and can_push :: "'s \<Rightarrow> ptr \<Rightarrow> bool"
    and push :: "'s \<Rightarrow> ptr \<Rightarrow> 's"
    and pull :: "'s \<Rightarrow> ptr \<Rightarrow> 's"
    and front :: "'s \<Rightarrow> ptr"
  assumes rep_front: "rep s xs \<Longrightarrow> front s = first_or xs 0"
    and rep_null: "rep s xs \<Longrightarrow> 0 \<notin> set xs"
    and push_rep: "rep s xs \<Longrightarrow> can_push s x \<Longrightarrow> x \<notin> set xs \<Longrightarrow> rep (push s x) (xs @ [x])"
    and pull_rep: "rep s (ys @ x # zs) \<Longrightarrow> rep (pull s x) (ys @ zs)"
begin

text \<open>Taking from the head until the list is empty yields its nodes in order.\<close>

fun take_front :: "nat \<Rightarrow> 's \<Rightarrow> ptr list \<times> 's" where
  "take_front 0 s = ([], s)"
| "take_front (Suc n) s =
     (if front s = 0 then ([], s)
      else (case take_front n (pull s (front s)) of (xs, t) \<Rightarrow> (front s # xs, t)))"

lemma drain:
  assumes "rep s xs" and "length xs \<le> n"
  shows "fst (take_front n s) = xs \<and> rep (snd (take_front n s)) [] \<and> front (snd (take_front n s)) = 0"
  using assms
proof (induction n arbitrary: s xs)
  case 0
  then show ?case using rep_front by auto
next
  case (Suc n)
  show ?case
  proof (cases xs)
    case Nil
    then show ?thesis using Suc.prems rep_front by auto
  next
    case (Cons x ys)
    have "front s = x" "x \<noteq> 0" using Suc.prems(1) Cons rep_front rep_null by fastforce+
    moreover have "rep (pull s x) ys" using pull_rep [of s "[]" x ys] Suc.prems(1) Cons by simp
    note IH = Suc.IH [OF this]
    ultimately show ?thesis using IH Suc.prems(2) Cons by (simp split: prod.split) fastforce
  qed
qed

text \<open>A front that is pushed back to the tail rotates the list.\<close>

lemma rotate_front:
  assumes "rep s (x # xs)" and "can_push (pull s x) x" and "x \<notin> set xs"
  shows "rep (push (pull s (front s)) (front s)) (xs @ [x])"
proof -
  have "front s = x" using rep_front [OF assms(1)] by simp
  moreover have "rep (pull s x) xs" using pull_rep [of s "[]" x xs] assms(1) by simp
  ultimately show ?thesis using push_rep assms(2,3) by simp
qed

end

end
