(* ===== verification/Idllist.thy ===== *)
theory Idllist
  imports Dlink
begin

text \<open>
  The intrusive doubly linked list of \<^verbatim>\<open>prs/lib/ds/idllist.c\<close>. The nodes are embedded in the clients'
  structures; the memory maps every node address to its two pointers, so that lists that share nodes
  share the memory. A null \<open>before\<close> appends at the tail. The loops over a list are partial
  functions: on a memory that is not a list they need not end, and that they do end on a list is a lemma.
\<close>

section \<open>Data and operations\<close>

record prs_idllist_node =
  in_next :: ptr
  in_prev :: ptr

type_synonym idl_mem = "ptr \<Rightarrow> prs_idllist_node"

record prs_idllist =
  idl_head :: ptr
  idl_tail :: ptr
  idl_node_offset :: u64
  idl_size :: u64

definition prs_idllist_create :: "u64 \<Rightarrow> ptr option \<Rightarrow> prs_idllist option" where
  "prs_idllist_create node_offset memory =
     (case memory of
        None \<Rightarrow> None
      | Some _ \<Rightarrow> Some \<lparr>idl_head = 0, idl_tail = 0, idl_node_offset = node_offset, idl_size = 0\<rparr>)"

definition prs_idllist_insert_before :: "idl_mem \<times> prs_idllist \<Rightarrow> ptr \<Rightarrow> ptr \<Rightarrow> idl_mem \<times> prs_idllist" where
  "prs_idllist_insert_before s before node =
     (let (m, l) = s
      in if in_next (m node) \<noteq> 0 then s
         else if in_prev (m node) \<noteq> 0 then s
         else (let nxt = before;
                   prv = (if before \<noteq> 0 then in_prev (m before) else idl_tail l);
                   m = m(node := \<lparr>in_next = nxt, in_prev = prv\<rparr>);
                   m = (if nxt \<noteq> 0 then m(nxt := (m nxt)\<lparr>in_prev := node\<rparr>) else m);
                   m = (if prv \<noteq> 0 then m(prv := (m prv)\<lparr>in_next := node\<rparr>) else m);
                   head = (if nxt = idl_head l then node else idl_head l);
                   tail = (if prv = idl_tail l then node else idl_tail l)
               in (m, l\<lparr>idl_head := head, idl_tail := tail, idl_size := idl_size l + 1\<rparr>)))"

definition prs_idllist_remove :: "idl_mem \<times> prs_idllist \<Rightarrow> ptr \<Rightarrow> idl_mem \<times> prs_idllist" where
  "prs_idllist_remove s node =
     (let (m, l) = s;
          nxt = in_next (m node);
          prv = in_prev (m node);
          m = (if nxt \<noteq> 0 then m(nxt := (m nxt)\<lparr>in_prev := prv\<rparr>) else m);
          m = (if prv \<noteq> 0 then m(prv := (m prv)\<lparr>in_next := nxt\<rparr>) else m);
          head = (if node = idl_head l then nxt else idl_head l);
          tail = (if node = idl_tail l then prv else idl_tail l);
          m = m(node := (m node)\<lparr>in_next := 0, in_prev := 0\<rparr>)
      in (m, l\<lparr>idl_head := head, idl_tail := tail, idl_size := idl_size l - 1\<rparr>))"

definition prs_idllist_begin :: "prs_idllist \<Rightarrow> ptr" where
  "prs_idllist_begin l = idl_head l"

definition prs_idllist_end :: "prs_idllist \<Rightarrow> ptr" where
  "prs_idllist_end l = 0"

definition prs_idllist_next :: "idl_mem \<times> prs_idllist \<Rightarrow> ptr \<Rightarrow> ptr" where
  "prs_idllist_next s node = in_next (fst s node)"

definition prs_idllist_get_data :: "prs_idllist \<Rightarrow> ptr \<Rightarrow> ptr" where
  "prs_idllist_get_data l node = node - idl_node_offset l"

definition prs_idllist_empty :: "prs_idllist \<Rightarrow> bool" where
  "prs_idllist_empty l \<longleftrightarrow> idl_size l = 0"

partial_function (option) idl_foreach_search ::
  "idl_mem \<times> prs_idllist \<Rightarrow> ptr \<Rightarrow> ptr \<Rightarrow> bool option" where
  "idl_foreach_search s node search =
     (if search = prs_idllist_end (snd s) then Some False
      else if search = node then Some True
      else idl_foreach_search s node (prs_idllist_next s search))"

definition prs_idllist_is_inserted :: "idl_mem \<times> prs_idllist \<Rightarrow> ptr \<Rightarrow> bool option" where
  "prs_idllist_is_inserted s node = idl_foreach_search s node (prs_idllist_begin (snd s))"

partial_function (option) idl_destroy_loop :: "idl_mem \<times> prs_idllist \<Rightarrow> (idl_mem \<times> prs_idllist) option" where
  "idl_destroy_loop s =
     (let node = prs_idllist_begin (snd s)
      in if node \<noteq> 0 then idl_destroy_loop (prs_idllist_remove s node) else Some s)"

text \<open>The memory that is left; the list itself is freed.\<close>

definition prs_idllist_destroy :: "idl_mem \<times> prs_idllist \<Rightarrow> idl_mem option" where
  "prs_idllist_destroy s = map_option fst (idl_destroy_loop s)"

declare idl_foreach_search.simps [code] idl_destroy_loop.simps [code]

definition prs_idllist_size :: "prs_idllist \<Rightarrow> u64" where
  "prs_idllist_size l = idl_size l"

section \<open>Lists in memory\<close>

definition idl_nx :: "idl_mem \<Rightarrow> ptr \<Rightarrow> ptr" where
  "idl_nx m x = in_next (m x)"

definition idl_pv :: "idl_mem \<Rightarrow> ptr \<Rightarrow> ptr" where
  "idl_pv m x = in_prev (m x)"

definition idl_rep :: "idl_mem \<times> prs_idllist \<Rightarrow> ptr list \<Rightarrow> bool" where
  "idl_rep s xs \<longleftrightarrow>
     linked (idl_nx (fst s)) (idl_pv (fst s)) (idl_head (snd s)) (idl_tail (snd s)) xs
     \<and> idl_size (snd s) = word_of_nat (length xs)"

definition idl_unlinked :: "idl_mem \<Rightarrow> ptr \<Rightarrow> bool" where
  "idl_unlinked m node \<longleftrightarrow> node \<noteq> 0 \<and> in_next (m node) = 0 \<and> in_prev (m node) = 0"

lemma idl_rep_create: "prs_idllist_create off (Some a) = Some l \<Longrightarrow> idl_rep (m, l) []"
  by (auto simp: prs_idllist_create_def idl_rep_def linked_def)

lemma idl_rep_begin: "idl_rep s xs \<Longrightarrow> prs_idllist_begin (snd s) = first_or xs 0"
  by (simp add: idl_rep_def linked_def prs_idllist_begin_def)

lemma idl_rep_nodes: "idl_rep s xs \<Longrightarrow> distinct xs \<and> 0 \<notin> set xs"
  by (simp add: idl_rep_def linked_def)

lemma idl_rep_next: "idl_rep s (ys @ x # zs) \<Longrightarrow> prs_idllist_next s x = first_or zs 0"
  using linked_next(1) by (fastforce simp: idl_rep_def prs_idllist_next_def idl_nx_def)

lemma idl_rep_size:
  assumes "idl_rep s xs"
  shows "unat (prs_idllist_size (snd s)) = length xs" and "prs_idllist_empty (snd s) \<longleftrightarrow> xs = []"
proof -
  have "length xs < 2 ^ 64" using assms linked_length by (auto simp: idl_rep_def)
  then show u: "unat (prs_idllist_size (snd s)) = length xs"
    using assms by (simp add: idl_rep_def prs_idllist_size_def unat_of_nat)
  then show "prs_idllist_empty (snd s) \<longleftrightarrow> xs = []"
    by (metis length_0_conv prs_idllist_empty_def prs_idllist_size_def unat_eq_zero)
qed

text \<open>A list depends only on its own nodes.\<close>

lemma idl_rep_frame:
  assumes "idl_rep (m, l) xs" and "\<forall>x \<in> set xs. m' x = m x"
  shows "idl_rep (m', l) xs"
proof -
  have "chain (idl_nx m') (idl_pv m') 0 xs 0 = chain (idl_nx m) (idl_pv m) 0 xs 0"
    using assms(2) by (intro chain_frame) (simp add: idl_nx_def idl_pv_def)
  then show ?thesis using assms(1) by (simp add: idl_rep_def linked_def)
qed

lemma idl_insert_rep:
  assumes "idl_rep (m, l) (ys @ zs)" and "idl_unlinked m node" and "node \<notin> set (ys @ zs)"
    and "prs_idllist_insert_before (m, l) (first_or zs 0) node = (m', l')"
  shows "idl_rep (m', l') (ys @ node # zs)"
    and "\<forall>x. x \<notin> insert node (set (ys @ zs)) \<longrightarrow> m' x = m x"
    and "idl_node_offset l' = idl_node_offset l"
proof -
  let ?n = "first_or zs 0" and ?p = "last_or ys 0"
  have lk: "linked (idl_nx m) (idl_pv m) (idl_head l) (idl_tail l) (ys @ zs)"
    and sz: "idl_size l = word_of_nat (length (ys @ zs))"
    using assms(1) by (simp_all add: idl_rep_def)
  have prv: "(if ?n \<noteq> 0 then in_prev (m ?n) else idl_tail l) = ?p"
  proof (cases zs)
    case Nil
    then show ?thesis using lk by (simp add: linked_def)
  next
    case (Cons z zs')
    then have "in_prev (m z) = ?p" "z \<noteq> 0"
      using lk linked_next(2) [of "idl_nx m" "idl_pv m" "idl_head l" "idl_tail l" ys z zs']
      by (auto simp: linked_def idl_pv_def)
    then show ?thesis using Cons by simp
  qed
  have free: "in_next (m node) = 0" "in_prev (m node) = 0" "node \<noteq> 0"
    using assms(2) by (simp_all add: idl_unlinked_def)
  let ?m1 = "m(node := \<lparr>in_next = ?n, in_prev = ?p\<rparr>)"
  let ?m2 = "if ?n \<noteq> 0 then ?m1(?n := (?m1 ?n)\<lparr>in_prev := node\<rparr>) else ?m1"
  let ?m3 = "if ?p \<noteq> 0 then ?m2(?p := (?m2 ?p)\<lparr>in_next := node\<rparr>) else ?m2"
  have run: "m' = ?m3" "l' = l\<lparr>idl_head := (if ?n = idl_head l then node else idl_head l),
      idl_tail := (if ?p = idl_tail l then node else idl_tail l), idl_size := idl_size l + 1\<rparr>"
    using assms(4) free prv by (auto simp: prs_idllist_insert_before_def Let_def)
  note ins = linked_insert [OF lk free(3) assms(3) refl refl]
  have nx: "idl_nx m' = (if ?p \<noteq> 0 then (idl_nx m)(node := ?n, ?p := node) else (idl_nx m)(node := ?n))"
    and pv: "idl_pv m' = (if ?n \<noteq> 0 then (idl_pv m)(node := ?p, ?n := node) else (idl_pv m)(node := ?p))"
    by (auto simp: run(1) idl_nx_def idl_pv_def fun_eq_iff)
  show "idl_rep (m', l') (ys @ node # zs)"
    unfolding idl_rep_def fst_conv snd_conv nx pv using ins sz by (simp add: run(2))
  have "?n \<in> insert 0 (set zs)" "?p \<in> insert 0 (set ys)"
    using first_or_eq [of zs 0] last_or_eq [of ys 0] by auto
  then show "\<forall>x. x \<notin> insert node (set (ys @ zs)) \<longrightarrow> m' x = m x"
    unfolding run(1) by (auto split: if_splits)
  show "idl_node_offset l' = idl_node_offset l" by (simp add: run(2))
qed

lemma idl_remove_rep:
  assumes "idl_rep (m, l) (ys @ node # zs)" and "prs_idllist_remove (m, l) node = (m', l')"
  shows "idl_rep (m', l') (ys @ zs)" and "idl_unlinked m' node"
    and "\<forall>x. x \<notin> set (ys @ node # zs) \<longrightarrow> m' x = m x"
    and "idl_node_offset l' = idl_node_offset l"
proof -
  let ?n = "in_next (m node)" and ?p = "in_prev (m node)"
  have lk: "linked (idl_nx m) (idl_pv m) (idl_head l) (idl_tail l) (ys @ node # zs)"
    and sz: "idl_size l = word_of_nat (length (ys @ node # zs))"
    using assms(1) by (simp_all add: idl_rep_def)
  have np: "?n = first_or zs 0" "?p = last_or ys 0"
    using linked_next [OF lk] by (simp_all add: idl_nx_def idl_pv_def)
  let ?m1 = "if ?n \<noteq> 0 then m(?n := (m ?n)\<lparr>in_prev := ?p\<rparr>) else m"
  let ?m2 = "if ?p \<noteq> 0 then ?m1(?p := (?m1 ?p)\<lparr>in_next := ?n\<rparr>) else ?m1"
  have run: "m' = ?m2(node := (?m2 node)\<lparr>in_next := 0, in_prev := 0\<rparr>)"
      "l' = l\<lparr>idl_head := (if node = idl_head l then ?n else idl_head l),
        idl_tail := (if node = idl_tail l then ?p else idl_tail l), idl_size := idl_size l - 1\<rparr>"
    using assms(2) by (auto simp: prs_idllist_remove_def Let_def)
  have nx: "\<forall>x. x \<noteq> node \<longrightarrow> idl_nx m' x = (if ?p \<noteq> 0 then (idl_nx m)(?p := ?n) else idl_nx m) x"
    and pv: "\<forall>x. x \<noteq> node \<longrightarrow> idl_pv m' x = (if ?n \<noteq> 0 then (idl_pv m)(?n := ?p) else idl_pv m) x"
    by (auto simp: run(1) idl_nx_def idl_pv_def)
  have at: "?n = idl_nx m node" "?p = idl_pv m node" by (simp_all add: idl_nx_def idl_pv_def)
  note rem = linked_remove [OF lk at nx pv]
  show "idl_rep (m', l') (ys @ zs)" using rem sz by (simp add: idl_rep_def run(2))
  have "node \<noteq> 0" using lk by (auto simp: linked_def)
  then show "idl_unlinked m' node" by (simp add: idl_unlinked_def run(1))
  have "?n \<in> insert 0 (set zs)" "?p \<in> insert 0 (set ys)"
    unfolding np using first_or_eq [of zs 0] last_or_eq [of ys 0] by auto
  then show "\<forall>x. x \<notin> set (ys @ node # zs) \<longrightarrow> m' x = m x"
    unfolding run(1) by (auto split: if_splits)
  show "idl_node_offset l' = idl_node_offset l" by (simp add: run(2))
qed

interpretation idl: node_list idl_rep "\<lambda>s. idl_unlinked (fst s)"
  "\<lambda>s. prs_idllist_insert_before s 0" prs_idllist_remove "\<lambda>s. prs_idllist_begin (snd s)"
proof unfold_locales
  fix s :: "idl_mem \<times> prs_idllist" and xs ys zs x
  show "prs_idllist_begin (snd s) = first_or xs 0" and "0 \<notin> set xs" if "idl_rep s xs"
    using that idl_rep_begin idl_rep_nodes by blast+
  show "idl_rep (prs_idllist_insert_before s 0 x) (xs @ [x])"
    if "idl_rep s xs" "idl_unlinked (fst s) x" "x \<notin> set xs"
    using that idl_insert_rep(1) [of "fst s" "snd s" xs "[]" x] by (cases "prs_idllist_insert_before s 0 x") simp
  show "idl_rep (prs_idllist_remove s x) (ys @ zs)" if "idl_rep s (ys @ x # zs)"
    using that idl_remove_rep(1) [of "fst s" "snd s" ys x zs] by (cases "prs_idllist_remove s x") simp
qed

section \<open>Loops\<close>

lemma idl_search_suffix:
  assumes "idl_rep s (ys @ zs)"
  shows "idl_foreach_search s node (first_or zs 0) = Some (node \<in> set zs)"
  using assms
proof (induction zs arbitrary: ys)
  case Nil
  then show ?case by (subst idl_foreach_search.simps) (simp add: prs_idllist_end_def)
next
  case (Cons z zs)
  have z: "z \<noteq> 0" using idl_rep_nodes [OF Cons.prems] by auto
  have "idl_foreach_search s node (first_or zs 0) = Some (node \<in> set zs)"
    using Cons.IH [of "ys @ [z]"] Cons.prems by simp
  then show ?case
    using z idl_rep_next [OF Cons.prems]
    by (subst idl_foreach_search.simps) (auto simp: prs_idllist_end_def)
qed

lemma idl_destroy_loop_returns:
  assumes "idl_rep s xs"
  shows "\<exists>m l. idl_destroy_loop s = Some (m, l) \<and> idl_rep (m, l) [] \<and> (\<forall>x \<in> set xs. idl_unlinked m x)
    \<and> (\<forall>x. x \<notin> set xs \<longrightarrow> m x = fst s x)"
  using assms
proof (induction xs arbitrary: s)
  case Nil
  then show ?case
    using idl_rep_begin [OF Nil] by (cases s) (subst idl_destroy_loop.simps, simp)
next
  case (Cons x xs)
  obtain m' l' where r: "prs_idllist_remove s x = (m', l')" by fastforce
  have rep: "idl_rep (fst s, snd s) ([] @ x # xs)" using Cons.prems by simp
  note rm = idl_remove_rep [OF rep, simplified, OF r]
  have x: "x \<noteq> 0" "x \<notin> set xs" using idl_rep_nodes [OF Cons.prems] by auto
  have step: "idl_destroy_loop s = idl_destroy_loop (m', l')"
    using idl_rep_begin [OF Cons.prems] x r by (subst idl_destroy_loop.simps) simp
  have "idl_rep (m', l') xs" using rm(1) by simp
  from Cons.IH [OF this] obtain m l where IH: "idl_destroy_loop (m', l') = Some (m, l)" "idl_rep (m, l) []"
      "\<forall>y \<in> set xs. idl_unlinked m y" "\<forall>y. y \<notin> set xs \<longrightarrow> m y = m' y" by auto
  moreover have "idl_unlinked m x" using rm(2) IH(4) x(2) by (simp add: idl_unlinked_def)
  ultimately show ?case using step rm(3) by auto
qed

section \<open>Properties\<close>

text \<open>Three nodes of a list with node offset 16, and two that are in no list.\<close>

definition idl_example :: "idl_mem \<times> prs_idllist" where
  "idl_example =
     (\<lambda>x. if x = 100 then \<lparr>in_next = 200, in_prev = 0\<rparr>
          else if x = 200 then \<lparr>in_next = 300, in_prev = 100\<rparr>
          else if x = 300 then \<lparr>in_next = 0, in_prev = 200\<rparr>
          else \<lparr>in_next = 0, in_prev = 0\<rparr>,
      \<lparr>idl_head = 100, idl_tail = 300, idl_node_offset = 16, idl_size = 3\<rparr>)"

lemma idl_example_rep: "idl_rep idl_example [100, 200, 300]"
  by (simp add: idl_rep_def idl_example_def linked_def idl_nx_def idl_pv_def last_or_def)

text \<open>Inserting an unlinked node before a node of the list (or at the tail, when before is null)
  yields the list with the node at that place, with the right size, and writes no node outside the list;
  removing the node again restores the memory and the list exactly.\<close>

theorem idllist_insert_remove:
  assumes "idl_rep (m, l) (ys @ zs)" and "idl_unlinked m node" and "node \<notin> set (ys @ zs)"
  shows "case prs_idllist_insert_before (m, l) (first_or zs 0) node of (m', l') \<Rightarrow>
      idl_rep (m', l') (ys @ node # zs)
      \<and> unat (prs_idllist_size l') = Suc (length (ys @ zs))
      \<and> (\<forall>x. x \<notin> insert node (set (ys @ zs)) \<longrightarrow> m' x = m x)
      \<and> prs_idllist_remove (m', l') node = (m, l)"
proof -
  obtain m' l' where run: "prs_idllist_insert_before (m, l) (first_or zs 0) node = (m', l')" by fastforce
  note ins = idl_insert_rep [OF assms run]
  obtain m'' l'' where rm: "prs_idllist_remove (m', l') node = (m'', l'')" by fastforce
  note rem = idl_remove_rep [OF ins(1) rm]
  have lk: "linked (idl_nx m) (idl_pv m) (idl_head l) (idl_tail l) (ys @ zs)"
    and sz: "idl_size l = word_of_nat (length (ys @ zs))"
    using assms(1) by (simp_all add: idl_rep_def)
  have "m'' x = m x" for x
  proof (cases "x = node")
    case True
    then show ?thesis using rem(2) assms(2) by (simp add: idl_unlinked_def prs_idllist_node.equality)
  next
    case ne: False
    show ?thesis
    proof (cases "x \<in> set (ys @ zs)")
      case True
      then obtain as bs where ab: "ys @ zs = as @ x # bs" by (metis split_list)
      have "linked (idl_nx m'') (idl_pv m'') (idl_head l'') (idl_tail l'') (as @ x # bs)"
        using rem(1) ab by (simp add: idl_rep_def)
      from linked_next [OF this] linked_next [OF lk [unfolded ab]]
      show ?thesis by (simp add: idl_nx_def idl_pv_def prs_idllist_node.equality)
    next
      case False
      then show ?thesis using rem(3) ins(2) ne by simp
    qed
  qed
  moreover have "l'' = l"
  proof (rule prs_idllist.equality)
    show "idl_head l'' = idl_head l" "idl_tail l'' = idl_tail l" "idl_size l'' = idl_size l"
      using rem(1) assms(1) by (simp_all add: idl_rep_def linked_def)
  qed (use rem(4) ins(3) in simp_all)
  ultimately have "prs_idllist_remove (m', l') node = (m, l)" using rm by auto
  moreover have "unat (prs_idllist_size l') = Suc (length (ys @ zs))"
    using idl_rep_size(1) [OF ins(1)] by simp
  ultimately show ?thesis using run ins by simp
qed

theorem idllist_insert_remove_witness:
  "case prs_idllist_insert_before idl_example 200 400 of (m', l') \<Rightarrow>
     idl_rep (m', l') [100, 400, 200, 300] \<and> prs_idllist_remove (m', l') 400 = idl_example"
proof -
  have "idl_unlinked (fst idl_example) 400" by (simp add: idl_unlinked_def idl_example_def)
  with idllist_insert_remove [of "fst idl_example" "snd idl_example" "[100]" "[200, 300]" 400] idl_example_rep
  show ?thesis by auto
qed

text \<open>On a list in memory the loops end: prs_idllist_is_inserted decides whether a node is in the
  list, and prs_idllist_destroy unlinks every node of it and touches no other node. Draining from the
  head yields the nodes in order.\<close>

theorem idllist_loops_end:
  assumes "idl_rep s xs"
  shows "prs_idllist_is_inserted s node = Some (node \<in> set xs)
    \<and> (\<exists>m. prs_idllist_destroy s = Some m
        \<and> (\<forall>x. if x \<in> set xs then idl_unlinked m x else m x = fst s x))
    \<and> fst (idl.take_front (length xs) s) = xs"
proof -
  have "idl_rep s ([] @ xs)" using assms by simp
  from idl_search_suffix [OF this] have "prs_idllist_is_inserted s node = Some (node \<in> set xs)"
    using idl_rep_begin [OF assms] by (simp add: prs_idllist_is_inserted_def)
  moreover obtain m l where "idl_destroy_loop s = Some (m, l)" "\<forall>x \<in> set xs. idl_unlinked m x"
      "\<forall>x. x \<notin> set xs \<longrightarrow> m x = fst s x"
    using idl_destroy_loop_returns [OF assms] by blast
  then have "\<exists>m. prs_idllist_destroy s = Some m
      \<and> (\<forall>x. if x \<in> set xs then idl_unlinked m x else m x = fst s x)"
    by (simp add: prs_idllist_destroy_def)
  ultimately show ?thesis using idl.drain [OF assms order_refl] by blast
qed

theorem idllist_loops_end_witness:
  "prs_idllist_is_inserted idl_example 300 = Some True
    \<and> prs_idllist_is_inserted idl_example 400 = Some False"
  using idllist_loops_end [OF idl_example_rep, of 300] idllist_loops_end [OF idl_example_rep, of 400]
  by simp

end
