(* ===== verification/Dllist.thy ===== *)
theory Dllist
  imports Dlink
begin

text \<open>
  The doubly linked list of \<^verbatim>\<open>prs/lib/ds/dllist.c\<close>, which allocates its nodes. What \<^verbatim>\<open>prs_pal_malloc\<close>
  returns for a node is an argument of the insertion; the nodes that a removal frees are part of its
  result. A null \<open>before\<close> appends at the tail.
\<close>

section \<open>Data and operations\<close>

record prs_dllist_node =
  dn_next :: ptr
  dn_prev :: ptr
  dn_data :: ptr

type_synonym dl_mem = "ptr \<Rightarrow> prs_dllist_node"

record prs_dllist =
  dl_addr :: ptr
  dl_head :: ptr
  dl_tail :: ptr
  dl_size :: u64

definition prs_dllist_create :: "ptr option \<Rightarrow> prs_dllist option" where
  "prs_dllist_create memory =
     map_option (\<lambda>addr. \<lparr>dl_addr = addr, dl_head = 0, dl_tail = 0, dl_size = 0\<rparr>) memory"

definition prs_dllist_insert_before ::
  "dl_mem \<times> prs_dllist \<Rightarrow> ptr \<Rightarrow> ptr \<Rightarrow> ptr option \<Rightarrow> (dl_mem \<times> prs_dllist) \<times> prs_result" where
  "prs_dllist_insert_before s before data memory =
     (case memory of
        None \<Rightarrow> (s, PRS_OUT_OF_MEMORY)
      | Some node \<Rightarrow>
          (let (m, l) = s;
               nxt = before;
               prv = (if before \<noteq> 0 then dn_prev (m before) else dl_tail l);
               m = m(node := \<lparr>dn_next = nxt, dn_prev = prv, dn_data = data\<rparr>);
               m = (if nxt \<noteq> 0 then m(nxt := (m nxt)\<lparr>dn_prev := node\<rparr>) else m);
               m = (if prv \<noteq> 0 then m(prv := (m prv)\<lparr>dn_next := node\<rparr>) else m);
               head = (if nxt = dl_head l then node else dl_head l);
               tail = (if prv = dl_tail l then node else dl_tail l)
           in ((m, l\<lparr>dl_head := head, dl_tail := tail, dl_size := dl_size l + 1\<rparr>), PRS_OK)))"

text \<open>The node itself is passed to \<^verbatim>\<open>prs_pal_free\<close>.\<close>

definition prs_dllist_remove :: "dl_mem \<times> prs_dllist \<Rightarrow> ptr \<Rightarrow> dl_mem \<times> prs_dllist" where
  "prs_dllist_remove s node =
     (let (m, l) = s;
          nxt = dn_next (m node);
          prv = dn_prev (m node);
          m = (if nxt \<noteq> 0 then m(nxt := (m nxt)\<lparr>dn_prev := prv\<rparr>) else m);
          m = (if prv \<noteq> 0 then m(prv := (m prv)\<lparr>dn_next := nxt\<rparr>) else m);
          head = (if node = dl_head l then nxt else dl_head l);
          tail = (if node = dl_tail l then prv else dl_tail l)
      in (m, l\<lparr>dl_head := head, dl_tail := tail, dl_size := dl_size l - 1\<rparr>))"

definition prs_dllist_begin :: "prs_dllist \<Rightarrow> ptr" where
  "prs_dllist_begin l = dl_head l"

definition prs_dllist_end :: "prs_dllist \<Rightarrow> ptr" where
  "prs_dllist_end l = 0"

definition prs_dllist_next :: "dl_mem \<times> prs_dllist \<Rightarrow> ptr \<Rightarrow> ptr" where
  "prs_dllist_next s node = dn_next (fst s node)"

definition prs_dllist_get_data :: "dl_mem \<times> prs_dllist \<Rightarrow> ptr \<Rightarrow> ptr" where
  "prs_dllist_get_data s node = dn_data (fst s node)"

definition prs_dllist_empty :: "prs_dllist \<Rightarrow> bool" where
  "prs_dllist_empty l \<longleftrightarrow> dl_size l = 0"

definition prs_dllist_size :: "prs_dllist \<Rightarrow> u64" where
  "prs_dllist_size l = dl_size l"

text \<open>The loop of \<^verbatim>\<open>prs_dllist_destroy\<close> with the pointers it frees, and the macro \<^verbatim>\<open>prs_dllist_foreach\<close>
  as the list of data that a loop over the list visits.\<close>

partial_function (option) dl_destroy_loop :: "dl_mem \<times> prs_dllist \<Rightarrow> ptr list option" where
  "dl_destroy_loop s =
     (let node = prs_dllist_begin (snd s)
      in if node \<noteq> 0
         then Option.bind (dl_destroy_loop (prs_dllist_remove s node)) (\<lambda>freed. Some (node # freed))
         else Some [])"

definition prs_dllist_destroy :: "dl_mem \<times> prs_dllist \<Rightarrow> ptr list option" where
  "prs_dllist_destroy s = map_option (\<lambda>freed. freed @ [dl_addr (snd s)]) (dl_destroy_loop s)"

partial_function (option) dl_foreach :: "dl_mem \<times> prs_dllist \<Rightarrow> ptr \<Rightarrow> ptr list option" where
  "dl_foreach s node =
     (if node = prs_dllist_end (snd s) then Some []
      else Option.bind (dl_foreach s (prs_dllist_next s node))
             (\<lambda>ds. Some (prs_dllist_get_data s node # ds)))"

declare dl_destroy_loop.simps [code] dl_foreach.simps [code]

section \<open>Lists in memory\<close>

definition dl_nx :: "dl_mem \<Rightarrow> ptr \<Rightarrow> ptr" where
  "dl_nx m x = dn_next (m x)"

definition dl_pv :: "dl_mem \<Rightarrow> ptr \<Rightarrow> ptr" where
  "dl_pv m x = dn_prev (m x)"

definition dl_rep :: "dl_mem \<times> prs_dllist \<Rightarrow> ptr list \<Rightarrow> bool" where
  "dl_rep s xs \<longleftrightarrow>
     linked (dl_nx (fst s)) (dl_pv (fst s)) (dl_head (snd s)) (dl_tail (snd s)) xs
     \<and> dl_size (snd s) = word_of_nat (length xs)"

text \<open>The data that a list holds, in order.\<close>

definition dl_data :: "dl_mem \<Rightarrow> ptr list \<Rightarrow> ptr list" where
  "dl_data m xs = map (\<lambda>x. dn_data (m x)) xs"

lemma dl_rep_create: "prs_dllist_create (Some a) = Some l \<Longrightarrow> dl_rep (m, l) []"
  by (auto simp: prs_dllist_create_def dl_rep_def linked_def)

lemma dl_rep_begin: "dl_rep s xs \<Longrightarrow> prs_dllist_begin (snd s) = first_or xs 0"
  by (simp add: dl_rep_def linked_def prs_dllist_begin_def)

lemma dl_rep_nodes: "dl_rep s xs \<Longrightarrow> distinct xs \<and> 0 \<notin> set xs"
  by (simp add: dl_rep_def linked_def)

lemma dl_rep_next: "dl_rep s (ys @ x # zs) \<Longrightarrow> prs_dllist_next s x = first_or zs 0"
  using linked_next(1) by (fastforce simp: dl_rep_def prs_dllist_next_def dl_nx_def)

lemma dl_rep_size:
  assumes "dl_rep s xs"
  shows "unat (prs_dllist_size (snd s)) = length xs" and "prs_dllist_empty (snd s) \<longleftrightarrow> xs = []"
proof -
  have "length xs < 2 ^ 64" using assms linked_length by (auto simp: dl_rep_def)
  then show u: "unat (prs_dllist_size (snd s)) = length xs"
    using assms by (simp add: dl_rep_def prs_dllist_size_def unat_of_nat)
  then show "prs_dllist_empty (snd s) \<longleftrightarrow> xs = []"
    by (metis length_0_conv prs_dllist_empty_def prs_dllist_size_def unat_eq_zero)
qed

lemma dl_insert_rep:
  assumes "dl_rep (m, l) (ys @ zs)" and "node \<noteq> 0" and "node \<notin> set (ys @ zs)"
    and "prs_dllist_insert_before (m, l) (first_or zs 0) data (Some node) = ((m', l'), r)"
  shows "r = PRS_OK" and "dl_rep (m', l') (ys @ node # zs)"
    and "dl_data m' (ys @ node # zs) = dl_data m ys @ data # dl_data m zs"
    and "\<forall>x. x \<notin> insert node (set (ys @ zs)) \<longrightarrow> m' x = m x" and "dl_addr l' = dl_addr l"
proof -
  let ?n = "first_or zs 0" and ?p = "last_or ys 0"
  have lk: "linked (dl_nx m) (dl_pv m) (dl_head l) (dl_tail l) (ys @ zs)"
    and sz: "dl_size l = word_of_nat (length (ys @ zs))"
    using assms(1) by (simp_all add: dl_rep_def)
  have prv: "(if ?n \<noteq> 0 then dn_prev (m ?n) else dl_tail l) = ?p"
  proof (cases zs)
    case Nil
    then show ?thesis using lk by (simp add: linked_def)
  next
    case (Cons z zs')
    then have "dn_prev (m z) = ?p" "z \<noteq> 0"
      using lk linked_next(2) [of "dl_nx m" "dl_pv m" "dl_head l" "dl_tail l" ys z zs']
      by (auto simp: linked_def dl_pv_def)
    then show ?thesis using Cons by simp
  qed
  let ?m1 = "m(node := \<lparr>dn_next = ?n, dn_prev = ?p, dn_data = data\<rparr>)"
  let ?m2 = "if ?n \<noteq> 0 then ?m1(?n := (?m1 ?n)\<lparr>dn_prev := node\<rparr>) else ?m1"
  let ?m3 = "if ?p \<noteq> 0 then ?m2(?p := (?m2 ?p)\<lparr>dn_next := node\<rparr>) else ?m2"
  have run: "m' = ?m3" "l' = l\<lparr>dl_head := (if ?n = dl_head l then node else dl_head l),
      dl_tail := (if ?p = dl_tail l then node else dl_tail l), dl_size := dl_size l + 1\<rparr>" "r = PRS_OK"
    using assms(4) prv by (auto simp: prs_dllist_insert_before_def Let_def)
  show "r = PRS_OK" "dl_addr l' = dl_addr l" using run by simp_all
  note ins = linked_insert [OF lk assms(2,3) refl refl]
  have nx: "dl_nx m' = (if ?p \<noteq> 0 then (dl_nx m)(node := ?n, ?p := node) else (dl_nx m)(node := ?n))"
    and pv: "dl_pv m' = (if ?n \<noteq> 0 then (dl_pv m)(node := ?p, ?n := node) else (dl_pv m)(node := ?p))"
    by (auto simp: run(1) dl_nx_def dl_pv_def fun_eq_iff)
  show "dl_rep (m', l') (ys @ node # zs)"
    unfolding dl_rep_def fst_conv snd_conv nx pv using ins sz by (simp add: run(2))
  have in_list: "?n \<in> insert 0 (set zs)" "?p \<in> insert 0 (set ys)"
    using first_or_eq [of zs 0] last_or_eq [of ys 0] by auto
  then show "\<forall>x. x \<notin> insert node (set (ys @ zs)) \<longrightarrow> m' x = m x"
    unfolding run(1) by (auto split: if_splits)
  have "dn_data (m' x) = (if x = node then data else dn_data (m x))" for x
    unfolding run(1) using in_list assms(2,3) by (auto split: if_splits)
  then show "dl_data m' (ys @ node # zs) = dl_data m ys @ data # dl_data m zs"
    using assms(3) by (auto simp: dl_data_def)
qed

lemma dl_remove_rep:
  assumes "dl_rep (m, l) (ys @ node # zs)" and "prs_dllist_remove (m, l) node = (m', l')"
  shows "dl_rep (m', l') (ys @ zs)" and "dl_data m' (ys @ zs) = dl_data m (ys @ zs)"
    and "\<forall>x. x \<notin> set (ys @ zs) \<longrightarrow> m' x = m x" and "dl_addr l' = dl_addr l"
proof -
  let ?n = "dn_next (m node)" and ?p = "dn_prev (m node)"
  have lk: "linked (dl_nx m) (dl_pv m) (dl_head l) (dl_tail l) (ys @ node # zs)"
    and sz: "dl_size l = word_of_nat (length (ys @ node # zs))"
    using assms(1) by (simp_all add: dl_rep_def)
  have np: "?n = first_or zs 0" "?p = last_or ys 0"
    using linked_next [OF lk] by (simp_all add: dl_nx_def dl_pv_def)
  let ?m1 = "if ?n \<noteq> 0 then m(?n := (m ?n)\<lparr>dn_prev := ?p\<rparr>) else m"
  have run: "m' = (if ?p \<noteq> 0 then ?m1(?p := (?m1 ?p)\<lparr>dn_next := ?n\<rparr>) else ?m1)"
      "l' = l\<lparr>dl_head := (if node = dl_head l then ?n else dl_head l),
        dl_tail := (if node = dl_tail l then ?p else dl_tail l), dl_size := dl_size l - 1\<rparr>"
    using assms(2) by (auto simp: prs_dllist_remove_def Let_def)
  have nx: "\<forall>x. x \<noteq> node \<longrightarrow> dl_nx m' x = (if ?p \<noteq> 0 then (dl_nx m)(?p := ?n) else dl_nx m) x"
    and pv: "\<forall>x. x \<noteq> node \<longrightarrow> dl_pv m' x = (if ?n \<noteq> 0 then (dl_pv m)(?n := ?p) else dl_pv m) x"
    by (auto simp: run(1) dl_nx_def dl_pv_def)
  have at: "?n = dl_nx m node" "?p = dl_pv m node" by (simp_all add: dl_nx_def dl_pv_def)
  note rem = linked_remove [OF lk at nx pv]
  show "dl_rep (m', l') (ys @ zs)" using rem sz by (simp add: dl_rep_def run(2))
  have "?n \<in> insert 0 (set zs)" "?p \<in> insert 0 (set ys)"
    unfolding np using first_or_eq [of zs 0] last_or_eq [of ys 0] by auto
  then show "\<forall>x. x \<notin> set (ys @ zs) \<longrightarrow> m' x = m x"
    unfolding run(1) by (auto split: if_splits)
  have "dn_data (m' x) = dn_data (m x)" for x unfolding run(1) by simp
  then show "dl_data m' (ys @ zs) = dl_data m (ys @ zs)" by (simp add: dl_data_def)
  show "dl_addr l' = dl_addr l" by (simp add: run(2))
qed

interpretation dll: node_list dl_rep "\<lambda>_ x. x \<noteq> 0"
  "\<lambda>s x. fst (prs_dllist_insert_before s 0 data (Some x))" prs_dllist_remove
  "\<lambda>s. prs_dllist_begin (snd s)" for data
proof unfold_locales
  fix s :: "dl_mem \<times> prs_dllist" and xs ys zs x
  show "prs_dllist_begin (snd s) = first_or xs 0" and "0 \<notin> set xs" if "dl_rep s xs"
    using that dl_rep_begin dl_rep_nodes by blast+
  show "dl_rep (fst (prs_dllist_insert_before s 0 data (Some x))) (xs @ [x])"
    if "dl_rep s xs" "x \<noteq> 0" "x \<notin> set xs"
  proof -
    obtain m' l' r where r: "prs_dllist_insert_before s 0 data (Some x) = ((m', l'), r)"
      by (metis prod.collapse)
    then show ?thesis using that dl_insert_rep(2) [of "fst s" "snd s" xs "[]" x data m' l' r] by simp
  qed
  show "dl_rep (prs_dllist_remove s x) (ys @ zs)" if "dl_rep s (ys @ x # zs)"
    using that dl_remove_rep(1) [of "fst s" "snd s" ys x zs] by (cases "prs_dllist_remove s x") simp
qed

section \<open>Loops\<close>

lemma dl_foreach_suffix:
  assumes "dl_rep s (ys @ zs)"
  shows "dl_foreach s (first_or zs 0) = Some (dl_data (fst s) zs)"
  using assms
proof (induction zs arbitrary: ys)
  case Nil
  then show ?case by (subst dl_foreach.simps) (simp add: prs_dllist_end_def dl_data_def)
next
  case (Cons z zs)
  have z: "z \<noteq> 0" using dl_rep_nodes [OF Cons.prems] by auto
  have "dl_foreach s (first_or zs 0) = Some (dl_data (fst s) zs)"
    using Cons.IH [of "ys @ [z]"] Cons.prems by simp
  then show ?case
    using z dl_rep_next [OF Cons.prems]
    by (subst dl_foreach.simps) (simp add: prs_dllist_end_def prs_dllist_get_data_def dl_data_def)
qed

lemma dl_destroy_loop_returns:
  assumes "dl_rep s xs"
  shows "dl_destroy_loop s = Some xs"
  using assms
proof (induction xs arbitrary: s)
  case Nil
  then show ?case using dl_rep_begin [OF Nil] by (subst dl_destroy_loop.simps) simp
next
  case (Cons x xs)
  have x: "x \<noteq> 0" using dl_rep_nodes [OF Cons.prems] by auto
  have "dl_rep (prs_dllist_remove s x) xs"
    using dll.pull_rep [of s "[]" x xs] Cons.prems by simp
  from Cons.IH [OF this] show ?case
    using dl_rep_begin [OF Cons.prems] x by (subst dl_destroy_loop.simps) simp
qed

section \<open>Properties\<close>

definition dl_example :: "dl_mem \<times> prs_dllist" where
  "dl_example =
     (\<lambda>x. if x = 100 then \<lparr>dn_next = 200, dn_prev = 0, dn_data = 7\<rparr>
          else if x = 200 then \<lparr>dn_next = 0, dn_prev = 100, dn_data = 8\<rparr>
          else \<lparr>dn_next = 0, dn_prev = 0, dn_data = 0\<rparr>,
      \<lparr>dl_addr = 64, dl_head = 100, dl_tail = 200, dl_size = 2\<rparr>)"

lemma dl_example_rep: "dl_rep dl_example [100, 200]"
  by (simp add: dl_rep_def dl_example_def linked_def dl_nx_def dl_pv_def last_or_def)

text \<open>A list refines the sequence of its data: when the node can be allocated, inserting before a
  node (or at the tail, when before is null) puts the data at that place; when it cannot, the call
  returns PRS_OUT_OF_MEMORY and changes nothing; removing a node removes exactly its data; the size is
  the length of the sequence.\<close>

theorem dllist_refines_sequence:
  assumes "dl_rep (m, l) (ys @ zs)" and "node \<noteq> 0" and "node \<notin> set (ys @ zs)"
  shows "prs_dllist_insert_before (m, l) before data None = ((m, l), PRS_OUT_OF_MEMORY)
    \<and> (case prs_dllist_insert_before (m, l) (first_or zs 0) data (Some node) of ((m', l'), r) \<Rightarrow>
        r = PRS_OK \<and> dl_rep (m', l') (ys @ node # zs)
        \<and> dl_data m' (ys @ node # zs) = dl_data m ys @ data # dl_data m zs
        \<and> unat (prs_dllist_size l') = Suc (length (ys @ zs))
        \<and> (case prs_dllist_remove (m', l') node of (m'', l'') \<Rightarrow>
            dl_rep (m'', l'') (ys @ zs) \<and> dl_data m'' (ys @ zs) = dl_data m (ys @ zs)))"
proof -
  obtain m' l' r where run: "prs_dllist_insert_before (m, l) (first_or zs 0) data (Some node) = ((m', l'), r)"
    by (metis prod.collapse)
  note ins = dl_insert_rep [OF assms run]
  obtain m'' l'' where rm: "prs_dllist_remove (m', l') node = (m'', l'')" by fastforce
  note rem = dl_remove_rep [OF ins(2) rm]
  have "dl_data m' (ys @ zs) = dl_data m (ys @ zs)"
    using ins(3) by (simp add: dl_data_def)
  then show ?thesis
    using run rm ins rem dl_rep_size(1) [OF ins(2)] by (simp add: prs_dllist_insert_before_def)
qed

theorem dllist_refines_sequence_witness:
  "case prs_dllist_insert_before dl_example 0 9 (Some 300) of ((m', l'), r) \<Rightarrow>
     r = PRS_OK \<and> dl_rep (m', l') [100, 200, 300] \<and> dl_data m' [100, 200, 300] = [7, 8, 9]"
proof -
  have "dl_data (fst dl_example) [100, 200] = [7, 8]" by (simp add: dl_data_def dl_example_def)
  then show ?thesis
    using dllist_refines_sequence [of "fst dl_example" "snd dl_example" "[100, 200]" "[]" 300 0 9]
      dl_example_rep
    by (auto simp: dl_data_def)
qed

text \<open>On a list in memory prs_dllist_foreach ends and visits the data in order, and
  prs_dllist_destroy ends and frees every node of the list once, in order, and then the list.\<close>

theorem dllist_loops_end:
  assumes "dl_rep s xs"
  shows "dl_foreach s (prs_dllist_begin (snd s)) = Some (dl_data (fst s) xs)
    \<and> prs_dllist_destroy s = Some (xs @ [dl_addr (snd s)]) \<and> distinct xs"
  using dl_foreach_suffix [of s "[]" xs] dl_destroy_loop_returns [OF assms] dl_rep_nodes [OF assms]
    dl_rep_begin [OF assms] assms
  by (simp add: prs_dllist_destroy_def)

theorem dllist_loops_end_witness:
  "prs_dllist_destroy dl_example = Some [100, 200, 64]"
  using dllist_loops_end [OF dl_example_rep] by (simp add: dl_example_def)

end
