(* ===== verification/Revq.thy ===== *)
theory Revq
  imports Dlink Atomic
begin

text \<open>
  What the two multi-producer single-consumer queues share. Producers push at the head, so the next
  pointers run from the youngest node to the oldest; the consumer completes the previous pointers when
  it needs them, up to the node where it stopped last. \<open>revq\<close> describes such a queue: the nodes
  pushed since then have null previous pointers, the older ones form a doubly linked chain. The loop that
  completes the chain is a partial function; that it ends on a queue is a lemma.
\<close>

section \<open>The loop that completes the chain\<close>

text \<open>The do-while loop of \<^verbatim>\<open>prs_mpsciq_build_reverse\<close> and \<^verbatim>\<open>prs_mpscq_build_reverse\<close>: the new
  previous pointers, and the value of \<open>prev\<close> at the end.\<close>

partial_function (option) reverse_loop ::
  "(ptr \<Rightarrow> ptr) \<Rightarrow> (ptr \<Rightarrow> ptr) \<Rightarrow> ptr \<Rightarrow> ptr \<Rightarrow> ((ptr \<Rightarrow> ptr) \<times> ptr) option" where
  "reverse_loop nx pv node rtail =
     (let prev = node; node = nx prev; pv = (if node \<noteq> 0 then pv(node := prev) else pv)
      in if node \<noteq> rtail then reverse_loop nx pv node rtail else Some (pv, prev))"

declare reverse_loop.simps [code]

fun nexts :: "(ptr \<Rightarrow> ptr) \<Rightarrow> ptr list \<Rightarrow> bool" where
  "nexts nx [] \<longleftrightarrow> True"
| "nexts nx (x # xs) \<longleftrightarrow> nx x = first_or xs 0 \<and> nexts nx xs"

lemma chain_nexts: "chain nx pv p xs 0 \<Longrightarrow> nexts nx xs"
  by (induction xs arbitrary: p) auto

lemma nexts_append: "nexts nx (xs @ ys) \<Longrightarrow> nexts nx ys"
  by (induction xs) auto

lemma nexts_frame: "\<forall>x \<in> set xs. nx' x = nx x \<Longrightarrow> nexts nx' xs = nexts nx xs"
  by (induction xs) auto

lemma reverse_loop_returns:
  assumes "nexts nx (u # us @ rs)" and "chain nx pv 0 rs 0" and "distinct (u # us @ rs)"
    and "0 \<notin> set (u # us @ rs)"
  shows "\<exists>pv'. reverse_loop nx pv u (first_or rs 0) = Some (pv', last_or us u)
    \<and> chain nx pv' (pv u) (u # us @ rs) 0 \<and> (\<forall>x. x \<notin> set (us @ rs) \<longrightarrow> pv' x = pv x)"
  using assms
proof (induction us arbitrary: u pv)
  case Nil
  show ?case
  proof (cases rs)
    case Nil
    then show ?thesis using Nil.prems by (subst reverse_loop.simps) simp
  next
    case (Cons r rs')
    have "chain nx (pv(r := u)) u rs 0"
      by (rule chain_relink_first [OF Nil.prems(2)]) (use Nil.prems Cons in auto)
    then show ?thesis using Nil.prems Cons by (subst reverse_loop.simps) simp
  qed
next
  case (Cons v us)
  let ?pv = "pv(v := u)"
  have rt: "v \<noteq> first_or rs 0" using Cons.prems first_or_eq [of rs 0] by auto
  have v: "v \<noteq> 0" "v \<notin> set (us @ rs)" "u \<notin> set (v # us @ rs)" using Cons.prems by auto
  have "chain nx ?pv 0 rs 0"
    using Cons.prems(2) chain_frame [of rs nx nx ?pv pv 0 0] v by simp
  moreover have "nexts nx (v # us @ rs)" "distinct (v # us @ rs)" "0 \<notin> set (v # us @ rs)"
    using Cons.prems by simp_all
  ultimately obtain pv' where
    IH: "reverse_loop nx ?pv v (first_or rs 0) = Some (pv', last_or us v)"
      "chain nx pv' (?pv v) (v # us @ rs) 0" "\<forall>x. x \<notin> set (us @ rs) \<longrightarrow> pv' x = ?pv x"
    using Cons.IH [of v ?pv] by blast
  have "reverse_loop nx pv u (first_or rs 0) = Some (pv', last_or us v)"
    using IH(1) rt v Cons.prems(1) by (subst reverse_loop.simps) simp
  moreover have "chain nx pv' (pv u) (u # (v # us) @ rs) 0"
    using IH(2,3) v Cons.prems(1) by simp
  ultimately show ?case using IH(3) by simp
qed

section \<open>Queues in memory\<close>

text \<open>\<open>xs\<close> is the queue from the oldest node to the youngest.\<close>

definition revq :: "(ptr \<Rightarrow> ptr) \<Rightarrow> (ptr \<Rightarrow> ptr) \<Rightarrow> ptr \<Rightarrow> ptr \<Rightarrow> ptr \<Rightarrow> ptr list \<Rightarrow> bool" where
  "revq nx pv head rtail rhead xs \<longleftrightarrow> distinct xs \<and> 0 \<notin> set xs
     \<and> (\<exists>us rs. rev xs = us @ rs \<and> nexts nx (us @ rs) \<and> (\<forall>u \<in> set us. pv u = 0) \<and> chain nx pv 0 rs 0
          \<and> head = first_or (us @ rs) 0 \<and> rtail = first_or rs 0 \<and> rhead = last_or rs 0)"

lemma revqE:
  assumes "revq nx pv head rtail rhead xs"
  obtains us rs where "rev xs = us @ rs" "nexts nx (us @ rs)" "\<forall>u \<in> set us. pv u = 0" "chain nx pv 0 rs 0"
    "head = first_or (us @ rs) 0" "rtail = first_or rs 0" "rhead = last_or rs 0"
    "distinct (us @ rs)" "0 \<notin> set (us @ rs)" "set xs = set (us @ rs)"
proof -
  obtain us rs where e: "rev xs = us @ rs" "nexts nx (us @ rs)" "\<forall>u \<in> set us. pv u = 0" "chain nx pv 0 rs 0"
    "head = first_or (us @ rs) 0" "rtail = first_or rs 0" "rhead = last_or rs 0"
    "distinct xs" "0 \<notin> set xs" using assms by (auto simp: revq_def)
  moreover have "set xs = set (us @ rs)" using arg_cong [OF e(1), of set] by simp
  moreover have "distinct (us @ rs)" using e(1,8) by (metis distinct_rev)
  ultimately show thesis using that by metis
qed

text \<open>A queue whose chain is complete.\<close>

lemma settled_revq:
  assumes "linked nx pv head rhead (rev xs)" and "rtail = head"
  shows "revq nx pv head rtail rhead xs"
  unfolding revq_def
proof (intro conjI exI)
  show "rev xs = [] @ rev xs" by simp
qed (use assms chain_nexts in \<open>auto simp: linked_def\<close>)

lemma revq_frame:
  assumes "revq nx pv head rtail rhead xs" and "\<forall>x \<in> set xs. nx' x = nx x \<and> pv' x = pv x"
  shows "revq nx' pv' head rtail rhead xs"
proof -
  from assms(1) obtain us rs where e: "rev xs = us @ rs" "nexts nx (us @ rs)" "\<forall>u \<in> set us. pv u = 0"
    "chain nx pv 0 rs 0" "head = first_or (us @ rs) 0" "rtail = first_or rs 0" "rhead = last_or rs 0"
    "distinct xs" "0 \<notin> set xs" by (auto simp: revq_def)
  have s: "set xs = set (us @ rs)" using arg_cong [OF e(1), of set] by simp
  have "nexts nx' (us @ rs)" using e(2) assms(2) s nexts_frame [of "us @ rs" nx' nx] by simp
  moreover have "chain nx' pv' 0 rs 0" using e(4) assms(2) s chain_frame [of rs nx' nx pv' pv 0 0] by simp
  moreover have "\<forall>u \<in> set us. pv' u = 0" using e(3) assms(2) s by simp
  ultimately show ?thesis using e unfolding revq_def by blast
qed

lemma revq_push:
  assumes "revq nx pv head rtail rhead xs" and "node \<noteq> 0" and "node \<notin> set xs" and "pv node = 0"
  shows "revq (nx(node := head)) pv node rtail rhead (xs @ [node])"
proof -
  from assms(1) obtain us rs where e: "rev xs = us @ rs" "nexts nx (us @ rs)" "\<forall>u \<in> set us. pv u = 0"
    "chain nx pv 0 rs 0" "head = first_or (us @ rs) 0" "rtail = first_or rs 0" "rhead = last_or rs 0"
    "distinct xs" "0 \<notin> set xs" by (auto simp: revq_def)
  have s: "set xs = set (us @ rs)" using arg_cong [OF e(1), of set] by simp
  have "nexts (nx(node := head)) (us @ rs)"
    using e(2) s assms(3) nexts_frame [of "us @ rs" "nx(node := head)" nx] by auto
  moreover have "chain (nx(node := head)) pv 0 rs 0"
    using e(4) s assms(3) chain_frame [of rs "nx(node := head)" nx pv pv 0 0] by auto
  ultimately show ?thesis
    unfolding revq_def
    by (intro conjI exI [of _ "node # us"] exI [of _ rs]) (use e assms(2-4) in auto)
qed

text \<open>Completing the chain.\<close>

lemma revq_build:
  assumes "revq nx pv head rtail rhead xs"
  shows "if head \<noteq> rtail
    then (\<exists>pv' pr. reverse_loop nx pv head rtail = Some (pv', pr)
      \<and> linked nx pv' head (if rhead = 0 then pr else rhead) (rev xs)
      \<and> (\<forall>x. x \<notin> set xs \<longrightarrow> pv' x = pv x))
    else linked nx pv head rhead (rev xs)"
proof -
  from assms obtain us rs where e: "rev xs = us @ rs" "nexts nx (us @ rs)" "\<forall>u \<in> set us. pv u = 0"
    "chain nx pv 0 rs 0" "head = first_or (us @ rs) 0" "rtail = first_or rs 0" "rhead = last_or rs 0"
    "distinct (us @ rs)" "0 \<notin> set (us @ rs)" "set xs = set (us @ rs)" by (rule revqE)
  show ?thesis
  proof (cases us)
    case Nil
    then show ?thesis using e by (simp add: linked_def)
  next
    case (Cons u us')
    have ne: "head \<noteq> rtail" using e Cons first_or_eq [of rs 0] by auto
    obtain pv' where loop: "reverse_loop nx pv u (first_or rs 0) = Some (pv', last_or us' u)"
        "chain nx pv' (pv u) (u # us' @ rs) 0" "\<forall>x. x \<notin> set (us' @ rs) \<longrightarrow> pv' x = pv x"
      using reverse_loop_returns [of nx u us' rs pv] e Cons by auto
    have "(if rhead = 0 then last_or us' u else rhead) = last_or (u # us' @ rs) 0"
    proof (cases "rs = []")
      case False
      then have "last rs \<noteq> 0" using e(9) last_in_set [of rs] by (auto simp del: last_in_set)
      then show ?thesis using False e(7) by (simp add: last_or_def)
    qed (use e(7) in simp)
    then have "linked nx pv' head (if rhead = 0 then last_or us' u else rhead) (rev xs)"
      using loop(2) e Cons by (simp add: linked_def)
    then show ?thesis using ne loop e Cons by auto
  qed
qed

text \<open>Removing the youngest node, whether or not the chain reaches it, and removing any node from a
  complete chain. The links of the removed node may be anything afterwards.\<close>

lemma revq_remove_head:
  assumes "revq nx pv node rtail rhead (xs @ [node])"
    and "\<forall>x. x \<noteq> node \<longrightarrow> nx' x = nx x"
    and "\<forall>x. x \<noteq> node \<longrightarrow> pv' x = (if nx node \<noteq> 0 then pv(nx node := pv node) else pv) x"
  shows "pv node = 0" and "revq nx' pv' (nx node) (if node = rtail then nx node else rtail)
    (if node = rhead then pv node else rhead) xs"
proof -
  from assms(1) obtain us rs where e: "rev (xs @ [node]) = us @ rs" "nexts nx (us @ rs)"
    "\<forall>u \<in> set us. pv u = 0" "chain nx pv 0 rs 0" "rtail = first_or rs 0" "rhead = last_or rs 0"
    "distinct (us @ rs)" "0 \<notin> set (us @ rs)" by (rule revqE)
  have d: "distinct xs" "0 \<notin> set xs" "node \<notin> set xs" using assms(1) by (auto simp: revq_def)
  show pn: "pv node = 0" using e(1,3,4) by (cases us) auto
  have pv0: "pv' x = (if x = nx node \<and> x \<noteq> 0 then 0 else pv x)" if "x \<noteq> node" for x
    using assms(3) that pn by auto
  show "revq nx' pv' (nx node) (if node = rtail then nx node else rtail)
      (if node = rhead then pv node else rhead) xs"
  proof (cases us)
    case Nil
    then have rs: "rs = node # rev xs" using e(1) by simp
    have "linked nx pv node rhead ([] @ node # rev xs)" using e rs Nil by (simp add: linked_def)
    from linked_remove [OF this refl refl, of nx' pv'] assms(2,3) pn
    have "linked nx' pv' (nx node) (if node = rhead then pv node else rhead) (rev xs)" by simp
    from settled_revq [OF this] show ?thesis using e(5) rs by simp
  next
    case (Cons u us')
    then have u: "u = node" "rev xs = us' @ rs" using e(1) by simp_all
    have nn: "nx node = first_or (us' @ rs) 0" using e(2) Cons u by simp
    have ne: "\<forall>x \<in> set (us' @ rs). x \<noteq> node" using e(7) Cons u by auto
    have "pv (first_or rs 0) = 0" if "rs \<noteq> []" using that e(4) by (cases rs) simp_all
    then have pvn: "pv (nx node) = 0" if "nx node \<noteq> 0" using that nn e(3) Cons by (cases us'; cases rs) auto
    have same: "pv' x = pv x" if "x \<in> set (us' @ rs)" for x using pv0 pvn ne that by auto
    have "nexts nx' (us' @ rs)"
      using e(2) Cons ne assms(2) nexts_frame [of "us' @ rs" nx' nx] by simp
    moreover have "chain nx' pv' 0 rs 0"
      using e(4) ne same assms(2) chain_frame [of rs nx' nx pv' pv 0 0] by simp
    moreover have "node \<noteq> rtail" "node \<noteq> rhead"
      using e(5-8) Cons u first_or_eq [of rs 0] last_or_eq [of rs 0] by auto
    ultimately show ?thesis
      unfolding revq_def
      by (intro conjI exI [of _ us'] exI [of _ rs]) (use d u nn same e Cons in auto)
  qed
qed

lemma linked_remove_inner:
  assumes "linked nx pv head rhead (as @ node # bs)" and "node \<noteq> head"
    and "\<forall>x. x \<noteq> node \<longrightarrow> nx' x = (if pv node \<noteq> 0 then nx(pv node := nx node) else nx) x"
    and "\<forall>x. x \<noteq> node \<longrightarrow> pv' x = (if nx node \<noteq> 0 then pv(nx node := pv node) else pv) x"
  shows "revq nx' pv' head head (if node = rhead then pv node else rhead) (rev (as @ bs))"
proof -
  have "linked nx' pv' (if node = head then nx node else head) (if node = rhead then pv node else rhead) (as @ bs)"
    using linked_remove [OF assms(1) refl refl assms(3,4)] .
  then show ?thesis using assms(2) by (intro settled_revq) simp_all
qed

section \<open>The contract of a queue\<close>

text \<open>A queue is a list of nodes that may rearrange its bookkeeping before it shows its front.\<close>

locale node_queue = node_list +
  fixes settle :: "'a \<Rightarrow> 'a"
  assumes settle_rep: "rep s xs \<Longrightarrow> rep (settle s) xs"
begin

fun drain_queue :: "nat \<Rightarrow> 'a \<Rightarrow> ptr list \<times> 'a" where
  "drain_queue 0 s = ([], s)"
| "drain_queue (Suc n) s =
     (if front s = 0 then ([], settle s)
      else (case drain_queue n (pull (settle s) (front s)) of (xs, t) \<Rightarrow> (front s # xs, t)))"

lemma drain_queue_all:
  assumes "rep s xs" and "length xs < n"
  shows "fst (drain_queue n s) = xs \<and> rep (snd (drain_queue n s)) []"
  using assms
proof (induction n arbitrary: s xs)
  case (Suc n)
  show ?case
  proof (cases xs)
    case Nil
    then show ?thesis using Suc.prems rep_front settle_rep by auto
  next
    case (Cons x ys)
    have f: "front s = x" "x \<noteq> 0" using Suc.prems(1) Cons rep_front rep_null by fastforce+
    have "rep (pull (settle s) x) ys"
      using pull_rep [of "settle s" "[]" x ys] settle_rep [OF Suc.prems(1)] Cons by simp
    from Suc.IH [OF this] Suc.prems(2) Cons f show ?thesis by (simp split: prod.split) fastforce
  qed
qed simp

end

end
