(* ===== verification/Mpsciq.thy ===== *)
theory Mpsciq
  imports Revq
begin

text \<open>
  The intrusive multi-producer single-consumer queue of \<^verbatim>\<open>prs/lib/ds/mpsciq.c\<close>. The nodes are embedded
  in the clients' structures; their two fields are two arrays indexed by the node address, so that queues
  that share nodes share the memory. Producers only run the exchange loop of the push; the other
  operations belong to the single consumer. Operations that complete the chain return \<open>None\<close> if
  their loop does not end.
\<close>

section \<open>Data\<close>

record prs_mpsciq_nodes =
  iqn_next :: "ptr \<Rightarrow> ptr"
  iqn_prev :: "ptr \<Rightarrow> ptr"

record prs_mpsciq =
  iq_addr :: ptr
  iq_head :: ptr
  iq_reverse_tail :: ptr
  iq_reverse_head :: ptr
  iq_node_offset :: u64

type_synonym iq_state = "prs_mpsciq_nodes \<times> prs_mpsciq"

section \<open>Operations\<close>

definition prs_mpsciq_create :: "u64 \<Rightarrow> ptr option \<Rightarrow> prs_mpsciq option" where
  "prs_mpsciq_create node_offset memory =
     map_option (\<lambda>addr. \<lparr>iq_addr = addr, iq_head = 0, iq_reverse_tail = 0, iq_reverse_head = 0,
       iq_node_offset = node_offset\<rparr>) memory"

text \<open>The pointer that is freed; the nodes belong to the users.\<close>

definition prs_mpsciq_destroy :: "prs_mpsciq \<Rightarrow> ptr list" where
  "prs_mpsciq_destroy q = [iq_addr q]"

definition prs_mpsciq_build_reverse :: "iq_state \<Rightarrow> ptr \<Rightarrow> iq_state option" where
  "prs_mpsciq_build_reverse s head =
     (let (m, q) = s
      in if head \<noteq> iq_reverse_tail q then
           (case reverse_loop (iqn_next m) (iqn_prev m) head (iq_reverse_tail q) of
              None \<Rightarrow> None
            | Some (pv, prev) \<Rightarrow>
                (let q = (if iq_reverse_head q = 0 then q\<lparr>iq_reverse_head := prev\<rparr> else q)
                 in Some (m\<lparr>iqn_prev := pv\<rparr>, q\<lparr>iq_reverse_tail := head\<rparr>)))
         else Some s)"

text \<open>The exchange loop of the push: the value that the head had when the exchange succeeded is what
  \<^verbatim>\<open>node->next\<close> holds.\<close>

definition prs_mpsciq_push_body :: "ptr \<Rightarrow> ptr \<Rightarrow> (ptr, ptr) cas_body" where
  "prs_mpsciq_push_body node head = Swap node head"

definition prs_mpsciq_push :: "iq_state \<Rightarrow> ptr \<Rightarrow> iq_state" where
  "prs_mpsciq_push s node =
     (let (m, q) = s
      in if iqn_next m node \<noteq> 0 then s
         else if iqn_prev m node \<noteq> 0 then s
         else (case cas_run (prs_mpsciq_push_body node) (iq_head q) of
                 (head, nxt) \<Rightarrow> (m\<lparr>iqn_next := (iqn_next m)(node := nxt)\<rparr>, q\<lparr>iq_head := head\<rparr>)))"

definition prs_mpsciq_remove :: "iq_state \<Rightarrow> ptr \<Rightarrow> iq_state option" where
  "prs_mpsciq_remove s node =
     (let (m, q) = s;
          head = iq_head q;
          (q, head) = (if node = head
             then (case atomic_compare_exchange (iq_head q) head (iqn_next m head) of
                     (_, cur, expected) \<Rightarrow> (q\<lparr>iq_head := cur\<rparr>, expected))
             else (q, head))
      in case (if node \<noteq> head then prs_mpsciq_build_reverse (m, q) head else Some (m, q)) of
           None \<Rightarrow> None
         | Some (m, q) \<Rightarrow>
             (let nxt = iqn_next m node;
                  m = (if nxt \<noteq> 0 then m\<lparr>iqn_prev := (iqn_prev m)(nxt := iqn_prev m node)\<rparr> else m);
                  q = (if node = iq_reverse_head q then q\<lparr>iq_reverse_head := iqn_prev m node\<rparr> else q);
                  prv = iqn_prev m node;
                  m = (if prv \<noteq> 0 then m\<lparr>iqn_next := (iqn_next m)(prv := iqn_next m node)\<rparr> else m);
                  q = (if node = iq_reverse_tail q then q\<lparr>iq_reverse_tail := iqn_next m node\<rparr> else q);
                  m = m\<lparr>iqn_next := (iqn_next m)(node := 0)\<rparr>;
                  m = m\<lparr>iqn_prev := (iqn_prev m)(node := 0)\<rparr>
              in Some (m, q)))"

definition prs_mpsciq_begin :: "iq_state \<Rightarrow> (iq_state \<times> ptr) option" where
  "prs_mpsciq_begin s =
     (case prs_mpsciq_build_reverse s (iq_head (snd s)) of
        None \<Rightarrow> None
      | Some s' \<Rightarrow> Some (s', iq_reverse_head (snd s')))"

definition prs_mpsciq_rbegin :: "prs_mpsciq \<Rightarrow> ptr" where
  "prs_mpsciq_rbegin q = iq_head q"

definition prs_mpsciq_end :: "prs_mpsciq \<Rightarrow> ptr" where
  "prs_mpsciq_end q = 0"

definition prs_mpsciq_next :: "iq_state \<Rightarrow> ptr \<Rightarrow> ptr" where
  "prs_mpsciq_next s node = iqn_prev (fst s) node"

definition prs_mpsciq_prev :: "iq_state \<Rightarrow> ptr \<Rightarrow> ptr" where
  "prs_mpsciq_prev s node = iqn_next (fst s) node"

definition prs_mpsciq_get_data :: "prs_mpsciq \<Rightarrow> ptr \<Rightarrow> ptr" where
  "prs_mpsciq_get_data q node = node - iq_node_offset q"

partial_function (option) iq_foreach_search :: "iq_state \<Rightarrow> ptr \<Rightarrow> ptr \<Rightarrow> bool option" where
  "iq_foreach_search s node search =
     (if search = prs_mpsciq_end (snd s) then Some False
      else if search = node then Some True
      else iq_foreach_search s node (prs_mpsciq_next s search))"

declare iq_foreach_search.simps [code]

definition prs_mpsciq_is_inserted :: "iq_state \<Rightarrow> ptr \<Rightarrow> (iq_state \<times> bool) option" where
  "prs_mpsciq_is_inserted s node =
     (case prs_mpsciq_begin s of
        None \<Rightarrow> None
      | Some (s', first) \<Rightarrow> map_option (Pair s') (iq_foreach_search s' node first))"

section \<open>Queues in memory\<close>

text \<open>From the oldest node to the youngest.\<close>

definition iq_rep :: "iq_state \<Rightarrow> ptr list \<Rightarrow> bool" where
  "iq_rep s xs \<longleftrightarrow> revq (iqn_next (fst s)) (iqn_prev (fst s)) (iq_head (snd s))
     (iq_reverse_tail (snd s)) (iq_reverse_head (snd s)) xs"

definition iq_settled :: "iq_state \<Rightarrow> ptr list \<Rightarrow> bool" where
  "iq_settled s xs \<longleftrightarrow> linked (iqn_next (fst s)) (iqn_prev (fst s)) (iq_head (snd s))
     (iq_reverse_head (snd s)) (rev xs) \<and> iq_reverse_tail (snd s) = iq_head (snd s)"

definition iq_unlinked :: "prs_mpsciq_nodes \<Rightarrow> ptr \<Rightarrow> bool" where
  "iq_unlinked m node \<longleftrightarrow> node \<noteq> 0 \<and> iqn_next m node = 0 \<and> iqn_prev m node = 0"

text \<open>Two memories agree outside a set of nodes.\<close>

definition iq_same_outside :: "ptr set \<Rightarrow> prs_mpsciq_nodes \<Rightarrow> prs_mpsciq_nodes \<Rightarrow> bool" where
  "iq_same_outside A m m' \<longleftrightarrow> (\<forall>x. x \<notin> A \<longrightarrow> iqn_next m' x = iqn_next m x \<and> iqn_prev m' x = iqn_prev m x)"

lemma iq_settled_rep: "iq_settled s xs \<Longrightarrow> iq_rep s xs"
  by (simp add: iq_settled_def iq_rep_def settled_revq)

lemma iq_rep_nodes: "iq_rep s xs \<Longrightarrow> distinct xs \<and> 0 \<notin> set xs"
  by (simp add: iq_rep_def revq_def)

lemma iq_rep_create: "prs_mpsciq_create off (Some a) = Some q \<Longrightarrow> iq_rep (m, q) []"
  by (auto simp: prs_mpsciq_create_def iq_rep_def revq_def)

lemma iq_rep_head: "iq_rep (m, q) xs \<Longrightarrow> iq_head q = last_or xs 0"
  by (auto simp: iq_rep_def last_or_def first_or_def hd_rev [symmetric] split: list.splits elim!: revqE)

lemma iq_rep_frame:
  assumes "iq_rep (m, q) xs" and "iq_same_outside A m m'" and "A \<inter> set xs = {}"
  shows "iq_rep (m', q) xs"
proof -
  have "\<forall>x \<in> set xs. iqn_next m' x = iqn_next m x \<and> iqn_prev m' x = iqn_prev m x"
    using assms(2,3) by (auto simp: iq_same_outside_def)
  then show ?thesis using assms(1) revq_frame by (auto simp: iq_rep_def)
qed

lemma iq_push_rep:
  assumes "iq_rep (m, q) xs" and "iq_unlinked m node" and "node \<notin> set xs"
    and "prs_mpsciq_push (m, q) node = (m', q')"
  shows "iq_rep (m', q') (xs @ [node])" and "iq_same_outside {node} m m'"
    and "iq_head q' = node" and "iq_node_offset q' = iq_node_offset q"
proof -
  have run: "m' = m\<lparr>iqn_next := (iqn_next m)(node := iq_head q)\<rparr>" "q' = q\<lparr>iq_head := node\<rparr>"
    using assms(2,4) by (auto simp: prs_mpsciq_push_def prs_mpsciq_push_body_def iq_unlinked_def)
  show "iq_rep (m', q') (xs @ [node])"
    using revq_push [of "iqn_next m" "iqn_prev m"] assms(1-3) by (simp add: iq_rep_def run iq_unlinked_def)
  show "iq_same_outside {node} m m'" by (simp add: iq_same_outside_def run)
  show "iq_head q' = node" "iq_node_offset q' = iq_node_offset q" by (simp_all add: run)
qed

lemma iq_build_rep:
  assumes "iq_rep (m, q) xs"
  obtains m' q' where "prs_mpsciq_build_reverse (m, q) (iq_head q) = Some (m', q')" "iq_settled (m', q') xs"
    "iq_same_outside (set xs) m m'" "iq_head q' = iq_head q" "iqn_next m' = iqn_next m"
    "iq_node_offset q' = iq_node_offset q"
proof (cases "iq_head q = iq_reverse_tail q")
  case True
  have "iq_settled (m, q) xs"
    using revq_build [of "iqn_next m" "iqn_prev m" "iq_head q" "iq_reverse_tail q" "iq_reverse_head q" xs]
      assms True by (simp add: iq_rep_def iq_settled_def)
  then show thesis using True by (intro that [of m q])
      (simp_all add: prs_mpsciq_build_reverse_def iq_same_outside_def)
next
  case False
  from revq_build [of "iqn_next m" "iqn_prev m" "iq_head q" "iq_reverse_tail q" "iq_reverse_head q" xs]
  obtain pv pr where loop: "reverse_loop (iqn_next m) (iqn_prev m) (iq_head q) (iq_reverse_tail q) = Some (pv, pr)"
      "linked (iqn_next m) pv (iq_head q) (if iq_reverse_head q = 0 then pr else iq_reverse_head q) (rev xs)"
      "\<forall>x. x \<notin> set xs \<longrightarrow> pv x = iqn_prev m x"
    using assms False by (auto simp: iq_rep_def)
  show thesis
    by (rule that [of "m\<lparr>iqn_prev := pv\<rparr>" "(if iq_reverse_head q = 0 then q\<lparr>iq_reverse_head := pr\<rparr> else q)
        \<lparr>iq_reverse_tail := iq_head q\<rparr>"])
      (use False loop in \<open>auto simp: prs_mpsciq_build_reverse_def Let_def iq_settled_def iq_same_outside_def\<close>)
qed

lemma iq_begin_rep:
  assumes "iq_rep (m, q) xs"
  obtains m' q' where "prs_mpsciq_begin (m, q) = Some ((m', q'), first_or xs 0)" "iq_settled (m', q') xs"
    "iq_same_outside (set xs) m m'" "iq_node_offset q' = iq_node_offset q"
proof -
  obtain m' q' where b: "prs_mpsciq_build_reverse (m, q) (iq_head q) = Some (m', q')" "iq_settled (m', q') xs"
    "iq_same_outside (set xs) m m'" "iq_node_offset q' = iq_node_offset q"
    using iq_build_rep [OF assms] by metis
  have "iq_reverse_head q' = last_or (rev xs) 0" using b(2) by (simp add: iq_settled_def linked_def)
  also have "\<dots> = first_or xs 0" by (cases xs) (simp_all add: last_or_def)
  finally show thesis using that b by (simp add: prs_mpsciq_begin_def)
qed

lemma iq_settled_next:
  assumes "iq_settled s (as @ x # bs)"
  shows "prs_mpsciq_next s x = first_or bs 0" and "prs_mpsciq_prev s x = last_or as 0"
proof -
  have l: "linked (iqn_next (fst s)) (iqn_prev (fst s)) (iq_head (snd s)) (iq_reverse_head (snd s))
      (rev bs @ x # rev as)"
    using assms by (simp add: iq_settled_def)
  have "last_or (rev bs) 0 = first_or bs 0" "first_or (rev as) 0 = last_or as 0"
    by (cases bs; simp add: last_or_def) (cases as rule: rev_cases; simp add: last_or_def)
  then show "prs_mpsciq_next s x = first_or bs 0" "prs_mpsciq_prev s x = last_or as 0"
    using linked_next [OF l] by (simp_all add: prs_mpsciq_next_def prs_mpsciq_prev_def)
qed

text \<open>Removing any node of the queue.\<close>

lemma iq_remove_rep:
  assumes "iq_rep (m, q) (as @ node # bs)"
  obtains m' q' where "prs_mpsciq_remove (m, q) node = Some (m', q')" "iq_rep (m', q') (as @ bs)"
    "iq_unlinked m' node" "iq_same_outside (set (as @ node # bs)) m m'" "iq_node_offset q' = iq_node_offset q"
proof (cases "node = iq_head q")
  case True
  have bs: "bs = []"
  proof (rule ccontr)
    assume "bs \<noteq> []"
    then have "iq_head q \<in> set bs" using iq_rep_head [OF assms] by (simp add: last_or_def)
    then show False using iq_rep_nodes [OF assms] True by simp
  qed
  let ?n = "iqn_next m node" and ?p = "iqn_prev m node"
  let ?nx = "(iqn_next m)(node := 0)"
  let ?pv = "(if ?n \<noteq> 0 then (iqn_prev m)(?n := ?p) else iqn_prev m)(node := 0)"
  have rep: "revq (iqn_next m) (iqn_prev m) node (iq_reverse_tail q) (iq_reverse_head q) (as @ [node])"
    using assms True bs by (simp add: iq_rep_def)
  have p0: "?p = 0" by (rule revq_remove_head(1) [OF rep, of ?nx ?pv]) auto
  have new: "revq ?nx ?pv ?n (if node = iq_reverse_tail q then ?n else iq_reverse_tail q)
      (if node = iq_reverse_head q then ?p else iq_reverse_head q) as"
    by (rule revq_remove_head(2) [OF rep]) auto
  have nn: "node \<noteq> 0" "?n \<noteq> node"
  proof -
    from rep obtain us rs where "rev (as @ [node]) = us @ rs" "nexts (iqn_next m) (us @ rs)"
      "distinct (us @ rs)" "0 \<notin> set (us @ rs)" by (rule revqE)
    then have "nexts (iqn_next m) (node # rev as)" "distinct (node # rev as)" "0 \<notin> set (node # rev as)"
      by (metis rev.simps(2) rev_append rev_rev_ident append.left_neutral rev.simps(1) append_Cons)+
    then show "node \<noteq> 0" "?n \<noteq> node" using first_or_eq [of "rev as" 0] by auto
  qed
  have "?n \<in> insert 0 (set as)"
  proof -
    from new obtain us rs where "rev as = us @ rs" "?n = first_or (us @ rs) 0" by (rule revqE)
    then show ?thesis using first_or_eq [of "rev as" 0] by (metis insertCI set_rev)
  qed
  then show thesis
    using nn p0 new True bs
    by (intro that [of "m\<lparr>iqn_next := ?nx, iqn_prev := ?pv\<rparr>"
          "q\<lparr>iq_head := ?n, iq_reverse_tail := (if node = iq_reverse_tail q then ?n else iq_reverse_tail q),
             iq_reverse_head := (if node = iq_reverse_head q then ?p else iq_reverse_head q)\<rparr>"])
      (auto simp: prs_mpsciq_remove_def atomic_compare_exchange_def Let_def iq_rep_def iq_unlinked_def
        iq_same_outside_def)
next
  case False
  obtain m1 q1 where b: "prs_mpsciq_build_reverse (m, q) (iq_head q) = Some (m1, q1)"
    "iq_settled (m1, q1) (as @ node # bs)" "iq_same_outside (set (as @ node # bs)) m m1"
    "iq_head q1 = iq_head q" "iq_node_offset q1 = iq_node_offset q"
    using iq_build_rep [OF assms] by metis
  let ?n = "iqn_next m1 node" and ?p = "iqn_prev m1 node"
  let ?nx = "(if ?p \<noteq> 0 then (iqn_next m1)(?p := ?n) else iqn_next m1)(node := 0)"
  let ?pv = "(if ?n \<noteq> 0 then (iqn_prev m1)(?n := ?p) else iqn_prev m1)(node := 0)"
  have l: "linked (iqn_next m1) (iqn_prev m1) (iq_head q1) (iq_reverse_head q1) (rev bs @ node # rev as)"
    and rt: "iq_reverse_tail q1 = iq_head q1"
    using b(2) by (simp_all add: iq_settled_def)
  have np: "?n = first_or (rev as) 0" "?p = last_or (rev bs) 0" using linked_next [OF l] by simp_all
  have nodes: "distinct (rev bs @ node # rev as)" "0 \<notin> set (rev bs @ node # rev as)"
    using l by (simp_all add: linked_def)
  have sets: "?n \<in> insert 0 (set as)" "?p \<in> insert 0 (set bs)"
    unfolding np using first_or_eq [of "rev as" 0] last_or_eq [of "rev bs" 0] by auto
  have ne: "node \<noteq> 0" "?n \<noteq> node" "?p \<noteq> node" using nodes sets by auto
  have "revq ?nx ?pv (iq_head q1) (iq_head q1) (if node = iq_reverse_head q1 then ?p else iq_reverse_head q1)
      (rev (rev bs @ rev as))"
    by (rule linked_remove_inner [OF l]) (use False b(4) in auto)
  then have new: "revq ?nx ?pv (iq_head q1) (iq_head q1)
      (if node = iq_reverse_head q1 then ?p else iq_reverse_head q1) (as @ bs)" by simp
  have run: "prs_mpsciq_remove (m, q) node
      = Some (m1\<lparr>iqn_next := ?nx, iqn_prev := ?pv\<rparr>,
          if node = iq_reverse_head q1 then q1\<lparr>iq_reverse_head := ?p\<rparr> else q1)"
    using False b(1,4) rt ne
    by (auto simp: prs_mpsciq_remove_def Let_def)
  show thesis
    by (rule that [OF run])
      (use new ne b(3,5) rt sets in \<open>auto simp: iq_rep_def iq_unlinked_def iq_same_outside_def\<close>)
qed

interpretation iq: node_queue iq_rep "\<lambda>s. iq_unlinked (fst s)" prs_mpsciq_push
  "\<lambda>s x. the (prs_mpsciq_remove s x)" "\<lambda>s. snd (the (prs_mpsciq_begin s))"
  "\<lambda>s. fst (the (prs_mpsciq_begin s))"
proof unfold_locales
  fix s :: iq_state and xs ys zs x
  show "snd (the (prs_mpsciq_begin s)) = first_or xs 0" if "iq_rep s xs"
    using that by (cases s) (auto elim: iq_begin_rep)
  show "0 \<notin> set xs" if "iq_rep s xs" using that iq_rep_nodes by blast
  show "iq_rep (prs_mpsciq_push s x) (xs @ [x])"
    if "iq_rep s xs" "iq_unlinked (fst s) x" "x \<notin> set xs"
    using that by (cases s; cases "prs_mpsciq_push s x") (auto intro: iq_push_rep)
  show "iq_rep (the (prs_mpsciq_remove s x)) (ys @ zs)" if "iq_rep s (ys @ x # zs)"
    using that by (cases s) (auto elim: iq_remove_rep)
  show "iq_rep (fst (the (prs_mpsciq_begin s))) xs" if "iq_rep s xs"
    using that by (cases s) (auto elim!: iq_begin_rep intro: iq_settled_rep)
qed

section \<open>Producers and the consumer\<close>

lemma iq_fold_push:
  assumes "iq_rep s xs" and "distinct (xs @ ns)" and "\<forall>n \<in> set ns. iq_unlinked (fst s) n"
  shows "iq_rep (fold (\<lambda>n s. prs_mpsciq_push s n) ns s) (xs @ ns)
    \<and> iq_head (snd (fold (\<lambda>n s. prs_mpsciq_push s n) ns s)) = cas_replay prs_mpsciq_push_body (iq_head (snd s)) ns"
  using assms
proof (induction ns arbitrary: s xs)
  case (Cons n ns)
  obtain m q m' q' where s: "s = (m, q)" and r: "prs_mpsciq_push (m, q) n = (m', q')" by fastforce
  have pre: "iq_rep (m, q) xs" "iq_unlinked m n" "n \<notin> set xs" using Cons.prems s by auto
  note p = iq_push_rep [OF pre r]
  have "\<forall>k \<in> set ns. iq_unlinked m' k"
    using Cons.prems(2,3) p(2) s by (auto simp: iq_unlinked_def iq_same_outside_def)
  with Cons.IH [OF p(1)] Cons.prems(2) show ?case
    using r s p(3) by (simp add: prs_mpsciq_push_body_def)
qed simp

lemma iq_search_suffix:
  assumes "iq_settled s (as @ bs)"
  shows "iq_foreach_search s node (first_or bs 0) = Some (node \<in> set bs)"
  using assms
proof (induction bs arbitrary: as)
  case Nil
  then show ?case by (subst iq_foreach_search.simps) (simp add: prs_mpsciq_end_def)
next
  case (Cons b bs)
  have b: "b \<noteq> 0" using iq_rep_nodes [OF iq_settled_rep [OF Cons.prems]] by auto
  have "iq_foreach_search s node (first_or bs 0) = Some (node \<in> set bs)"
    using Cons.IH [of "as @ [b]"] Cons.prems by simp
  then show ?case
    using b iq_settled_next(1) [OF Cons.prems]
    by (subst iq_foreach_search.simps) (auto simp: prs_mpsciq_end_def)
qed

section \<open>Properties\<close>

text \<open>An empty queue, and a memory in which no node is linked.\<close>

definition iq_example :: iq_state where
  "iq_example = (\<lparr>iqn_next = \<lambda>_. 0, iqn_prev = \<lambda>_. 0\<rparr>,
     \<lparr>iq_addr = 64, iq_head = 0, iq_reverse_tail = 0, iq_reverse_head = 0, iq_node_offset = 8\<rparr>)"

lemma iq_example_rep: "iq_rep iq_example []"
  by (simp add: iq_example_def iq_rep_def revq_def)



text \<open>Removing any node of a queue, the youngest included, returns, takes exactly that node out,
  leaves it unlinked so that it can be pushed again, and writes no node outside the queue; then
  prs_mpsciq_is_inserted returns, finds exactly the nodes that are left, and the first of them is what
  prs_mpsciq_begin returns.\<close>

theorem mpsciq_remove_correct:
  assumes "iq_rep (m, q) (as @ node # bs)"
  shows "\<exists>m' q'. prs_mpsciq_remove (m, q) node = Some (m', q') \<and> iq_rep (m', q') (as @ bs)
    \<and> iq_unlinked m' node \<and> iq_same_outside (set (as @ node # bs)) m m'
    \<and> map_option snd (prs_mpsciq_begin (m', q')) = Some (first_or (as @ bs) 0)
    \<and> map_option snd (prs_mpsciq_is_inserted (m', q') x) = Some (x \<in> set (as @ bs))"
proof -
  obtain m' q' where r: "prs_mpsciq_remove (m, q) node = Some (m', q')" "iq_rep (m', q') (as @ bs)"
    "iq_unlinked m' node" "iq_same_outside (set (as @ node # bs)) m m'"
    using assms by (rule iq_remove_rep)
  obtain m'' q'' where b: "prs_mpsciq_begin (m', q') = Some ((m'', q''), first_or (as @ bs) 0)"
    "iq_settled (m'', q'') ([] @ (as @ bs))"
    using iq_begin_rep [OF r(2)] by (metis append_Nil)
  have "map_option snd (prs_mpsciq_is_inserted (m', q') x) = Some (x \<in> set (as @ bs))"
    using b(1) iq_search_suffix [OF b(2), of x] by (simp add: prs_mpsciq_is_inserted_def)
  then show ?thesis using r b(1) by auto
qed

theorem mpsciq_remove_correct_witness:
  "\<exists>m' q'. prs_mpsciq_remove (prs_mpsciq_push (prs_mpsciq_push iq_example 200) 100) 200 = Some (m', q')
     \<and> iq_rep (m', q') [100] \<and> iq_unlinked m' 200"
proof -
  let ?t = "prs_mpsciq_push (prs_mpsciq_push iq_example 200) 100"
  have "iq_rep ?t [200, 100]"
    using iq_fold_push [OF iq_example_rep, of "[200, 100]"] by (simp add: iq_unlinked_def iq_example_def)
  then have "iq_rep (fst ?t, snd ?t) ([] @ 200 # [100])" by simp
  from mpsciq_remove_correct [OF this, of 0] show ?thesis by auto
qed

end
