(* ===== verification/Mpscq.thy ===== *)
theory Mpscq
  imports Revq
begin

text \<open>
  The multi-producer single-consumer queue of \<^verbatim>\<open>prs/lib/ds/mpscq.c\<close>, which allocates its nodes. The
  fields of the nodes are arrays indexed by the node address; what \<^verbatim>\<open>prs_pal_malloc\<close> returns for a node
  is an argument of the push, and the node of a removal is the one that is freed.
\<close>

section \<open>Data\<close>

record prs_mpscq_nodes =
  qn_next :: "ptr \<Rightarrow> ptr"
  qn_prev :: "ptr \<Rightarrow> ptr"
  qn_data :: "ptr \<Rightarrow> ptr"

record prs_mpscq =
  mq_addr :: ptr
  mq_head :: ptr
  mq_reverse_tail :: ptr
  mq_reverse_head :: ptr

type_synonym mq_state = "prs_mpscq_nodes \<times> prs_mpscq"

section \<open>Operations\<close>

definition prs_mpscq_create :: "ptr option \<Rightarrow> prs_mpscq option" where
  "prs_mpscq_create memory =
     map_option (\<lambda>addr. \<lparr>mq_addr = addr, mq_head = 0, mq_reverse_tail = 0, mq_reverse_head = 0\<rparr>) memory"

definition prs_mpscq_build_reverse :: "mq_state \<Rightarrow> ptr \<Rightarrow> mq_state option" where
  "prs_mpscq_build_reverse s head =
     (let (m, q) = s
      in if head \<noteq> mq_reverse_tail q then
           (case reverse_loop (qn_next m) (qn_prev m) head (mq_reverse_tail q) of
              None \<Rightarrow> None
            | Some (pv, prev) \<Rightarrow>
                (let q = (if mq_reverse_head q = 0 then q\<lparr>mq_reverse_head := prev\<rparr> else q)
                 in Some (m\<lparr>qn_prev := pv\<rparr>, q\<lparr>mq_reverse_tail := head\<rparr>)))
         else Some s)"

definition prs_mpscq_push_body :: "ptr \<Rightarrow> ptr \<Rightarrow> (ptr, ptr) cas_body" where
  "prs_mpscq_push_body node head = Swap node head"

definition prs_mpscq_push :: "mq_state \<Rightarrow> ptr \<Rightarrow> ptr option \<Rightarrow> mq_state \<times> prs_result" where
  "prs_mpscq_push s data memory =
     (case memory of
        None \<Rightarrow> (s, PRS_OUT_OF_MEMORY)
      | Some node \<Rightarrow>
          (let (m, q) = s;
               m = m\<lparr>qn_prev := (qn_prev m)(node := 0), qn_data := (qn_data m)(node := data)\<rparr>
           in case cas_run (prs_mpscq_push_body node) (mq_head q) of
                (head, nxt) \<Rightarrow>
                  ((m\<lparr>qn_next := (qn_next m)(node := nxt)\<rparr>, q\<lparr>mq_head := head\<rparr>), PRS_OK)))"

text \<open>The loop that moves the head past the node, if the node is the head: \<open>True\<close> when the
  exchange succeeded, and then \<^verbatim>\<open>head\<close> is still the node.\<close>

definition prs_mpscq_remove_body :: "ptr \<Rightarrow> ptr \<Rightarrow> ptr \<Rightarrow> (ptr, bool) cas_body" where
  "prs_mpscq_remove_body node nxt head = (if node \<noteq> head then Give False else Swap nxt True)"

definition prs_mpscq_remove :: "mq_state \<Rightarrow> ptr \<Rightarrow> mq_state option" where
  "prs_mpscq_remove s node =
     (let (m, q) = s
      in case cas_run (prs_mpscq_remove_body node (qn_next m (mq_head q))) (mq_head q) of
           (head, moved) \<Rightarrow>
             (case (if moved then Some (m, q\<lparr>mq_head := head\<rparr>) else prs_mpscq_build_reverse (m, q) head) of
                None \<Rightarrow> None
              | Some (m, q) \<Rightarrow>
                  (let nxt = qn_next m node;
                       m = (if nxt \<noteq> 0 then m\<lparr>qn_prev := (qn_prev m)(nxt := qn_prev m node)\<rparr> else m);
                       q = (if node = mq_reverse_head q then q\<lparr>mq_reverse_head := qn_prev m node\<rparr> else q);
                       prv = qn_prev m node;
                       m = (if prv \<noteq> 0 then m\<lparr>qn_next := (qn_next m)(prv := qn_next m node)\<rparr> else m);
                       q = (if node = mq_reverse_tail q then q\<lparr>mq_reverse_tail := qn_next m node\<rparr> else q)
                   in Some (m, q))))"

definition prs_mpscq_begin :: "mq_state \<Rightarrow> (mq_state \<times> ptr) option" where
  "prs_mpscq_begin s =
     (case prs_mpscq_build_reverse s (mq_head (snd s)) of
        None \<Rightarrow> None
      | Some s' \<Rightarrow> Some (s', mq_reverse_head (snd s')))"

definition prs_mpscq_rbegin :: "prs_mpscq \<Rightarrow> ptr" where
  "prs_mpscq_rbegin q = mq_head q"

definition prs_mpscq_end :: "prs_mpscq \<Rightarrow> ptr" where
  "prs_mpscq_end q = 0"

definition prs_mpscq_next :: "mq_state \<Rightarrow> ptr \<Rightarrow> ptr" where
  "prs_mpscq_next s node = qn_prev (fst s) node"

definition prs_mpscq_prev :: "mq_state \<Rightarrow> ptr \<Rightarrow> ptr" where
  "prs_mpscq_prev s node = qn_next (fst s) node"

definition prs_mpscq_get_data :: "mq_state \<Rightarrow> ptr \<Rightarrow> ptr" where
  "prs_mpscq_get_data s node = qn_data (fst s) node"

partial_function (option) mq_foreach_search :: "mq_state \<Rightarrow> ptr \<Rightarrow> ptr \<Rightarrow> bool option" where
  "mq_foreach_search s node search =
     (if search = prs_mpscq_end (snd s) then Some False
      else if search = node then Some True
      else mq_foreach_search s node (prs_mpscq_next s search))"

definition prs_mpscq_is_inserted :: "mq_state \<Rightarrow> ptr \<Rightarrow> (mq_state \<times> bool) option" where
  "prs_mpscq_is_inserted s node =
     (case prs_mpscq_begin s of
        None \<Rightarrow> None
      | Some (s', first) \<Rightarrow> map_option (Pair s') (mq_foreach_search s' node first))"

text \<open>The pointers that \<^verbatim>\<open>prs_mpscq_destroy\<close> frees, in order.\<close>

partial_function (option) mq_destroy_loop :: "mq_state \<Rightarrow> ptr list option" where
  "mq_destroy_loop s =
     Option.bind (prs_mpscq_begin s) (\<lambda>(s, node).
       if node \<noteq> 0
       then Option.bind (prs_mpscq_remove s node)
              (\<lambda>s. Option.bind (mq_destroy_loop s) (\<lambda>freed. Some (node # freed)))
       else Some [])"

definition prs_mpscq_destroy :: "mq_state \<Rightarrow> ptr list option" where
  "prs_mpscq_destroy s = map_option (\<lambda>freed. freed @ [mq_addr (snd s)]) (mq_destroy_loop s)"

declare mq_foreach_search.simps [code] mq_destroy_loop.simps [code]

section \<open>Queues in memory\<close>

definition mq_rep :: "mq_state \<Rightarrow> ptr list \<Rightarrow> bool" where
  "mq_rep s xs \<longleftrightarrow> revq (qn_next (fst s)) (qn_prev (fst s)) (mq_head (snd s))
     (mq_reverse_tail (snd s)) (mq_reverse_head (snd s)) xs"

definition mq_settled :: "mq_state \<Rightarrow> ptr list \<Rightarrow> bool" where
  "mq_settled s xs \<longleftrightarrow> linked (qn_next (fst s)) (qn_prev (fst s)) (mq_head (snd s))
     (mq_reverse_head (snd s)) (rev xs) \<and> mq_reverse_tail (snd s) = mq_head (snd s)"

text \<open>The data of a queue, from the oldest to the youngest.\<close>

definition mq_data :: "mq_state \<Rightarrow> ptr list \<Rightarrow> ptr list" where
  "mq_data s xs = map (qn_data (fst s)) xs"

lemma mq_settled_rep: "mq_settled s xs \<Longrightarrow> mq_rep s xs"
  by (simp add: mq_settled_def mq_rep_def settled_revq)

lemma mq_rep_nodes: "mq_rep s xs \<Longrightarrow> distinct xs \<and> 0 \<notin> set xs"
  by (simp add: mq_rep_def revq_def)

lemma mq_rep_head: "mq_rep (m, q) xs \<Longrightarrow> mq_head q = last_or xs 0"
  by (auto simp: mq_rep_def last_or_def first_or_def hd_rev [symmetric] split: list.splits elim!: revqE)

lemma mq_push_rep:
  assumes "mq_rep (m, q) xs" and "node \<noteq> 0" and "node \<notin> set xs"
    and "prs_mpscq_push (m, q) data (Some node) = ((m', q'), r)"
  shows "r = PRS_OK" and "mq_rep (m', q') (xs @ [node])"
    and "mq_data (m', q') (xs @ [node]) = mq_data (m, q) xs @ [data]" and "mq_head q' = node"
    and "mq_addr q' = mq_addr q"
proof -
  have run: "m' = m\<lparr>qn_prev := (qn_prev m)(node := 0), qn_data := (qn_data m)(node := data),
      qn_next := (qn_next m)(node := mq_head q)\<rparr>" "q' = q\<lparr>mq_head := node\<rparr>" "r = PRS_OK"
    using assms(4) by (auto simp: prs_mpscq_push_def prs_mpscq_push_body_def Let_def)
  have "revq (qn_next m) (qn_prev m) (mq_head q) (mq_reverse_tail q) (mq_reverse_head q) xs"
    using assms(1) by (simp add: mq_rep_def)
  moreover have "\<forall>x \<in> set xs. qn_next m x = qn_next m x \<and> ((qn_prev m)(node := 0)) x = qn_prev m x"
    using assms(3) by auto
  ultimately have "revq (qn_next m) ((qn_prev m)(node := 0)) (mq_head q) (mq_reverse_tail q) (mq_reverse_head q) xs"
    by (rule revq_frame)
  then have "revq ((qn_next m)(node := mq_head q)) ((qn_prev m)(node := 0)) node (mq_reverse_tail q)
      (mq_reverse_head q) (xs @ [node])"
    using assms(2,3) by (rule revq_push) simp
  then show "mq_rep (m', q') (xs @ [node])" by (simp add: mq_rep_def run)
  show "mq_data (m', q') (xs @ [node]) = mq_data (m, q) xs @ [data]"
    using assms(3) by (auto simp: mq_data_def run)
  show "r = PRS_OK" "mq_head q' = node" "mq_addr q' = mq_addr q" by (simp_all add: run)
qed

lemma mq_build_rep:
  assumes "mq_rep (m, q) xs"
  obtains m' q' where "prs_mpscq_build_reverse (m, q) (mq_head q) = Some (m', q')" "mq_settled (m', q') xs"
    "mq_head q' = mq_head q" "qn_data m' = qn_data m" "mq_addr q' = mq_addr q"
proof (cases "mq_head q = mq_reverse_tail q")
  case True
  have "mq_settled (m, q) xs"
    using revq_build [of "qn_next m" "qn_prev m" "mq_head q" "mq_reverse_tail q" "mq_reverse_head q" xs]
      assms True by (simp add: mq_rep_def mq_settled_def)
  then show thesis using True by (intro that [of m q]) (simp_all add: prs_mpscq_build_reverse_def)
next
  case False
  from revq_build [of "qn_next m" "qn_prev m" "mq_head q" "mq_reverse_tail q" "mq_reverse_head q" xs]
  obtain pv pr where loop: "reverse_loop (qn_next m) (qn_prev m) (mq_head q) (mq_reverse_tail q) = Some (pv, pr)"
      "linked (qn_next m) pv (mq_head q) (if mq_reverse_head q = 0 then pr else mq_reverse_head q) (rev xs)"
    using assms False by (auto simp: mq_rep_def)
  show thesis
    by (rule that [of "m\<lparr>qn_prev := pv\<rparr>" "(if mq_reverse_head q = 0 then q\<lparr>mq_reverse_head := pr\<rparr> else q)
        \<lparr>mq_reverse_tail := mq_head q\<rparr>"])
      (use False loop in \<open>auto simp: prs_mpscq_build_reverse_def Let_def mq_settled_def\<close>)
qed

lemma mq_begin_rep:
  assumes "mq_rep (m, q) xs"
  obtains m' q' where "prs_mpscq_begin (m, q) = Some ((m', q'), first_or xs 0)" "mq_settled (m', q') xs"
    "qn_data m' = qn_data m" "mq_addr q' = mq_addr q"
proof -
  obtain m' q' where b: "prs_mpscq_build_reverse (m, q) (mq_head q) = Some (m', q')" "mq_settled (m', q') xs"
    "qn_data m' = qn_data m" "mq_addr q' = mq_addr q"
    using mq_build_rep [OF assms] by metis
  have "mq_reverse_head q' = last_or (rev xs) 0" using b(2) by (simp add: mq_settled_def linked_def)
  also have "\<dots> = first_or xs 0" by (cases xs) (simp_all add: last_or_def)
  finally show thesis using that b by (simp add: prs_mpscq_begin_def)
qed

lemma mq_remove_rep:
  assumes "mq_rep (m, q) (as @ node # bs)"
  obtains m' q' where "prs_mpscq_remove (m, q) node = Some (m', q')" "mq_rep (m', q') (as @ bs)"
    "qn_data m' = qn_data m" "mq_addr q' = mq_addr q"
proof (cases "node = mq_head q")
  case True
  have bs: "bs = []"
  proof (rule ccontr)
    assume "bs \<noteq> []"
    then have "mq_head q \<in> set bs" using mq_rep_head [OF assms] by (simp add: last_or_def)
    then show False using mq_rep_nodes [OF assms] True by simp
  qed
  let ?n = "qn_next m node" and ?p = "qn_prev m node"
  let ?pv = "if ?n \<noteq> 0 then (qn_prev m)(?n := ?p) else qn_prev m"
  have rep: "revq (qn_next m) (qn_prev m) node (mq_reverse_tail q) (mq_reverse_head q) (as @ [node])"
    using assms True bs by (simp add: mq_rep_def)
  have p0: "?p = 0" by (rule revq_remove_head(1) [OF rep, of "qn_next m" ?pv]) auto
  have new: "revq (qn_next m) ?pv ?n (if node = mq_reverse_tail q then ?n else mq_reverse_tail q)
      (if node = mq_reverse_head q then ?p else mq_reverse_head q) as"
    by (rule revq_remove_head(2) [OF rep]) auto
  have "?pv node = 0" using p0 by auto
  then show thesis
    using p0 new True bs
    by (intro that [of "m\<lparr>qn_prev := ?pv\<rparr>"
          "q\<lparr>mq_head := ?n, mq_reverse_tail := (if node = mq_reverse_tail q then ?n else mq_reverse_tail q),
             mq_reverse_head := (if node = mq_reverse_head q then ?p else mq_reverse_head q)\<rparr>"])
      (auto simp: prs_mpscq_remove_def prs_mpscq_remove_body_def Let_def mq_rep_def)
next
  case False
  obtain m1 q1 where b: "prs_mpscq_build_reverse (m, q) (mq_head q) = Some (m1, q1)"
    "mq_settled (m1, q1) (as @ node # bs)" "mq_head q1 = mq_head q" "qn_data m1 = qn_data m"
    "mq_addr q1 = mq_addr q"
    using mq_build_rep [OF assms] by metis
  let ?n = "qn_next m1 node" and ?p = "qn_prev m1 node"
  let ?nx = "if ?p \<noteq> 0 then (qn_next m1)(?p := ?n) else qn_next m1"
  let ?pv = "if ?n \<noteq> 0 then (qn_prev m1)(?n := ?p) else qn_prev m1"
  have l: "linked (qn_next m1) (qn_prev m1) (mq_head q1) (mq_reverse_head q1) (rev bs @ node # rev as)"
    and rt: "mq_reverse_tail q1 = mq_head q1"
    using b(2) by (simp_all add: mq_settled_def)
  have np: "?n = first_or (rev as) 0" "?p = last_or (rev bs) 0" using linked_next [OF l] by simp_all
  have nodes: "distinct (rev bs @ node # rev as)" "0 \<notin> set (rev bs @ node # rev as)"
    using l by (simp_all add: linked_def)
  have sets: "?n \<in> insert 0 (set as)" "?p \<in> insert 0 (set bs)"
    unfolding np using first_or_eq [of "rev as" 0] last_or_eq [of "rev bs" 0] by auto
  have ne: "?n \<noteq> node" "?p \<noteq> node" using nodes sets by auto
  have "revq ?nx ?pv (mq_head q1) (mq_head q1) (if node = mq_reverse_head q1 then ?p else mq_reverse_head q1)
      (rev (rev bs @ rev as))"
    by (rule linked_remove_inner [OF l]) (use False b(3) in auto)
  then have new: "revq ?nx ?pv (mq_head q1) (mq_head q1)
      (if node = mq_reverse_head q1 then ?p else mq_reverse_head q1) (as @ bs)" by simp
  have run: "prs_mpscq_remove (m, q) node
      = Some (m1\<lparr>qn_next := ?nx, qn_prev := ?pv\<rparr>,
          if node = mq_reverse_head q1 then q1\<lparr>mq_reverse_head := ?p\<rparr> else q1)"
    using False b(1,3) rt ne
    by (auto simp: prs_mpscq_remove_def prs_mpscq_remove_body_def Let_def)
  show thesis
    by (rule that [OF run]) (use new b(4,5) rt in \<open>auto simp: mq_rep_def\<close>)
qed

interpretation mq: node_queue mq_rep "\<lambda>_ x. x \<noteq> 0" "\<lambda>s x. fst (prs_mpscq_push s data (Some x))"
  "\<lambda>s x. the (prs_mpscq_remove s x)" "\<lambda>s. snd (the (prs_mpscq_begin s))"
  "\<lambda>s. fst (the (prs_mpscq_begin s))" for data
proof unfold_locales
  fix s :: mq_state and xs ys zs x
  show "snd (the (prs_mpscq_begin s)) = first_or xs 0" if "mq_rep s xs"
    using that by (cases s) (auto elim: mq_begin_rep)
  show "0 \<notin> set xs" if "mq_rep s xs" using that mq_rep_nodes by blast
  show "mq_rep (fst (prs_mpscq_push s data (Some x))) (xs @ [x])"
    if "mq_rep s xs" "x \<noteq> 0" "x \<notin> set xs"
    using that mq_push_rep(2) [of "fst s" "snd s" xs x data]
    by (cases s; cases "prs_mpscq_push s data (Some x)") auto
  show "mq_rep (the (prs_mpscq_remove s x)) (ys @ zs)" if "mq_rep s (ys @ x # zs)"
    using that by (cases s) (auto elim: mq_remove_rep)
  show "mq_rep (fst (the (prs_mpscq_begin s))) xs" if "mq_rep s xs"
    using that by (cases s) (auto elim!: mq_begin_rep intro: mq_settled_rep)
qed

lemma mq_destroy_loop_returns:
  assumes "mq_rep s xs"
  shows "mq_destroy_loop s = Some xs"
  using assms
proof (induction xs arbitrary: s)
  case Nil
  obtain m q where s: "s = (m, q)" by fastforce
  obtain m' q' where "prs_mpscq_begin (m, q) = Some ((m', q'), 0)"
    using mq_begin_rep [of m q "[]"] Nil s by (metis first_or_simps(1))
  then show ?case using s by (subst mq_destroy_loop.simps) simp
next
  case (Cons x xs)
  obtain m q where s: "s = (m, q)" by fastforce
  have x: "x \<noteq> 0" using mq_rep_nodes [OF Cons.prems] by auto
  obtain m' q' where b: "prs_mpscq_begin (m, q) = Some ((m', q'), x)" "mq_settled (m', q') (x # xs)"
    using mq_begin_rep [of m q "x # xs"] Cons.prems s by (metis first_or_simps(2))
  obtain m'' q'' where r: "prs_mpscq_remove (m', q') x = Some (m'', q'')" "mq_rep (m'', q'') xs"
    using mq_remove_rep [of m' q' "[]" x xs] mq_settled_rep [OF b(2)] by (metis append_Nil)
  show ?case using Cons.IH [OF r(2)] b(1) r(1) x s by (subst mq_destroy_loop.simps) simp
qed

lemma mq_fold_push:
  assumes "mq_rep s xs" and "distinct (xs @ map fst ps)" and "0 \<notin> fst ` set ps"
  shows "let t = fold (\<lambda>(n, d) s. fst (prs_mpscq_push s d (Some n))) ps s in
    mq_rep t (xs @ map fst ps) \<and> mq_data t (xs @ map fst ps) = mq_data s xs @ map snd ps
    \<and> mq_head (snd t) = cas_replay prs_mpscq_push_body (mq_head (snd s)) (map fst ps)
    \<and> mq_addr (snd t) = mq_addr (snd s)"
  using assms
proof (induction ps arbitrary: s xs)
  case (Cons p ps)
  obtain n d m q m' q' r where s: "p = (n, d)" "s = (m, q)"
    and r: "prs_mpscq_push (m, q) d (Some n) = ((m', q'), r)" by (metis prod.collapse)
  have pre: "mq_rep (m, q) xs" "n \<noteq> 0" "n \<notin> set xs" using Cons.prems s by auto
  note pu = mq_push_rep [OF pre r]
  have "0 \<notin> fst ` set ps" "distinct ((xs @ [n]) @ map fst ps)" using Cons.prems(2,3) s by auto
  with Cons.IH [OF pu(2)] show ?case
    using r s pu(3-5) by (simp add: prs_mpscq_push_body_def Let_def)
qed (simp add: mq_data_def)

section \<open>Properties\<close>

definition mq_example :: mq_state where
  "mq_example = (\<lparr>qn_next = \<lambda>_. 0, qn_prev = \<lambda>_. 0, qn_data = \<lambda>_. 0\<rparr>,
     \<lparr>mq_addr = 64, mq_head = 0, mq_reverse_tail = 0, mq_reverse_head = 0\<rparr>)"

lemma mq_example_rep: "mq_rep mq_example []"
  by (simp add: mq_example_def mq_rep_def revq_def)

text \<open>However the exchange loops of racing producers interleave, the head is what the successful
  pushes, one after the other, make of it, and the queue holds their data behind the old data in that
  order; destroying it returns and frees every node once, oldest first, and then the queue.\<close>

theorem mpscq_concurrent_fifo:
  assumes "mq_rep s xs" and "cas_reach prs_mpscq_push_body (mq_head (snd s)) c"
    and "hist c = map fst ps" and "distinct (xs @ map fst ps)" and "0 \<notin> fst ` set ps"
  defines "t \<equiv> fold (\<lambda>(n, d) s. fst (prs_mpscq_push s d (Some n))) ps s"
  shows "mq_head (snd t) = cell c \<and> mq_data t (xs @ map fst ps) = mq_data s xs @ map snd ps
    \<and> fst (mq.drain_queue (Suc (length xs + length ps)) t) = xs @ map fst ps
    \<and> prs_mpscq_destroy t = Some (xs @ map fst ps @ [mq_addr (snd s)])"
proof -
  have rep: "mq_rep t (xs @ map fst ps)" and "mq_data t (xs @ map fst ps) = mq_data s xs @ map snd ps"
    and "mq_head (snd t) = cell c" and "mq_addr (snd t) = mq_addr (snd s)"
    using mq_fold_push [OF assms(1,4,5)] cas_reach_replay [OF assms(2)] assms(3)
    by (simp_all add: t_def Let_def)
  moreover have "fst (mq.drain_queue (Suc (length xs + length ps)) t) = xs @ map fst ps"
    using mq.drain_queue_all [OF rep, of "Suc (length xs + length ps)"] by simp
  ultimately show ?thesis
    using mq_destroy_loop_returns [OF rep] by (simp add: prs_mpscq_destroy_def)
qed

theorem mpscq_concurrent_fifo_witness:
  "prs_mpscq_destroy (fst (prs_mpscq_push mq_example 7 (Some 100))) = Some [100, 64]"
proof -
  have s1: "cas_reach prs_mpscq_push_body 0 \<lparr>cell = 0, busy = (\<lambda>_. None)(0 := Some (100, 0)), hist = []\<rparr>"
    using cas_reach.step [OF cas_reach.start cas_step.load [where t = 0 and op = 100]]
    by (simp add: cas_init_def)
  have s2: "cas_reach prs_mpscq_push_body 0 \<lparr>cell = 100, busy = (\<lambda>_. None), hist = [100]\<rparr>"
    using cas_reach.step [OF s1 cas_step.swap [where t = 0 and op = 100 and e = 0 and v = 100 and r = 0]]
    by (simp add: prs_mpscq_push_body_def)
  have "mq_head (snd mq_example) = 0" "mq_addr (snd mq_example) = 64" by (simp_all add: mq_example_def)
  with mpscq_concurrent_fifo [OF mq_example_rep, of "\<lparr>cell = 100, busy = (\<lambda>_. None), hist = [100]\<rparr>" "[(100, 7)]"] s2
  show ?thesis by simp
qed

text \<open>A push that cannot allocate returns PRS_OUT_OF_MEMORY and changes nothing; removing any node
  of a queue returns and takes out exactly that node and its data.\<close>

theorem mpscq_remove_correct:
  assumes "mq_rep (m, q) (as @ node # bs)"
  shows "prs_mpscq_push (m, q) data None = ((m, q), PRS_OUT_OF_MEMORY)
    \<and> (\<exists>s'. prs_mpscq_remove (m, q) node = Some s' \<and> mq_rep s' (as @ bs)
        \<and> mq_data s' (as @ bs) = mq_data (m, q) as @ mq_data (m, q) bs
        \<and> map_option snd (prs_mpscq_begin s') = Some (first_or (as @ bs) 0))"
proof -
  obtain m' q' where r: "prs_mpscq_remove (m, q) node = Some (m', q')" "mq_rep (m', q') (as @ bs)"
    "qn_data m' = qn_data m"
    using assms by (rule mq_remove_rep)
  moreover obtain s'' where "prs_mpscq_begin (m', q') = Some (s'', first_or (as @ bs) 0)"
    using mq_begin_rep [OF r(2)] by metis
  ultimately show ?thesis by (auto simp: prs_mpscq_push_def mq_data_def)
qed

theorem mpscq_remove_correct_witness:
  "\<exists>s'. prs_mpscq_remove (fst (prs_mpscq_push (fst (prs_mpscq_push mq_example 7 (Some 100))) 8 (Some 200))) 100
      = Some s' \<and> mq_rep s' [200] \<and> mq_data s' [200] = [8]"
proof -
  let ?t = "fst (prs_mpscq_push (fst (prs_mpscq_push mq_example 7 (Some 100))) 8 (Some 200))"
  have t: "mq_rep ?t [100, 200]" "mq_data ?t [100, 200] = [7, 8]"
    using mq_fold_push [OF mq_example_rep, of "[(100, 7), (200, 8)]"] by (simp_all add: Let_def mq_data_def)
  then have "mq_rep (fst ?t, snd ?t) ([] @ 100 # [200])" by simp
  from mpscq_remove_correct [OF this, of 0] t(2) show ?thesis by (auto simp: mq_data_def)
qed

end
