(* ===== verification/Task.thy ===== *)
theory Task
  imports Atomic
begin

text \<open>
  The state of a task as \<^verbatim>\<open>prs/task.c\<close> keeps it: a token that packs the state, the cause of the last
  unblocking and a version count. Blocking returns the token; unblocking exchanges it atomically, so that
  an event that the task no longer waits for cannot wake it. The model covers the token operations and
  the accessors of \<^verbatim>\<open>struct prs_task\<close>; whether the task is the current one is an argument, and the
  call of \<^verbatim>\<open>prs_sched_ready\<close> is part of the result of an unblocking.
\<close>

section \<open>Tokens\<close>

datatype prs_task_state =
    PRS_TASK_STATE_STOPPED | PRS_TASK_STATE_READY | PRS_TASK_STATE_RUNNING
  | PRS_TASK_STATE_BLOCKED | PRS_TASK_STATE_ZOMBIE

fun task_state_code :: "prs_task_state \<Rightarrow> u64" where
  "task_state_code PRS_TASK_STATE_STOPPED = 0"
| "task_state_code PRS_TASK_STATE_READY = 1"
| "task_state_code PRS_TASK_STATE_RUNNING = 2"
| "task_state_code PRS_TASK_STATE_BLOCKED = 3"
| "task_state_code PRS_TASK_STATE_ZOMBIE = 4"

definition PRS_TASK_STATE_BITS :: nat where
  "PRS_TASK_STATE_BITS = 4"

definition PRS_TASK_CAUSE_BITS :: nat where
  "PRS_TASK_CAUSE_BITS = 8"

definition PRS_TASK_STATE_MASK :: u64 where
  "PRS_TASK_STATE_MASK = push_bit PRS_TASK_STATE_BITS 1 - 1"

definition PRS_TASK_CAUSE_MASK :: u64 where
  "PRS_TASK_CAUSE_MASK = push_bit PRS_TASK_STATE_BITS (push_bit PRS_TASK_CAUSE_BITS 1 - 1)"

definition PRS_TASK_COUNT_MASK :: u64 where
  "PRS_TASK_COUNT_MASK = NOT (PRS_TASK_STATE_MASK OR PRS_TASK_CAUSE_MASK)"

definition PRS_TASK_GET_STATE :: "u64 \<Rightarrow> u64" where
  "PRS_TASK_GET_STATE token = token AND PRS_TASK_STATE_MASK"

definition PRS_TASK_GET_CAUSE :: "u64 \<Rightarrow> u8" where
  "PRS_TASK_GET_CAUSE token = ucast (drop_bit PRS_TASK_STATE_BITS (token AND PRS_TASK_CAUSE_MASK))"

definition PRS_TASK_GET_COUNT :: "u64 \<Rightarrow> u64" where
  "PRS_TASK_GET_COUNT token =
     drop_bit (PRS_TASK_STATE_BITS + PRS_TASK_CAUSE_BITS) (token AND PRS_TASK_COUNT_MASK)"

definition PRS_TASK_SET_TOKEN :: "u64 \<Rightarrow> u8 \<Rightarrow> u64 \<Rightarrow> u64" where
  "PRS_TASK_SET_TOKEN s ca co =
     push_bit (PRS_TASK_STATE_BITS + PRS_TASK_CAUSE_BITS) co
     OR (push_bit PRS_TASK_STATE_BITS (ucast ca) AND PRS_TASK_CAUSE_MASK)
     OR (s AND PRS_TASK_STATE_MASK)"

definition PRS_TASK_COUNT_INCREMENT :: u64 where
  "PRS_TASK_COUNT_INCREMENT = push_bit (PRS_TASK_STATE_BITS + PRS_TASK_CAUSE_BITS) 1"

lemmas task_const_defs =
  PRS_TASK_STATE_BITS_def PRS_TASK_CAUSE_BITS_def PRS_TASK_STATE_MASK_def PRS_TASK_CAUSE_MASK_def
  PRS_TASK_COUNT_MASK_def PRS_TASK_COUNT_INCREMENT_def

section \<open>Tasks\<close>

record prs_task =
  task_id :: prs_object_id_t
  task_name :: string
  task_userdata :: ptr
  task_stack :: ptr
  task_stack_size :: u64
  task_prio :: prs_task_prio_t
  task_proc_id :: prs_object_id_t
  task_sched_id :: prs_object_id_t
  task_sched_userdata :: ptr
  task_token :: u64
  task_context :: ptr
  task_entry :: ptr
  task_msgq :: ptr

definition prs_task_get_id :: "prs_task \<Rightarrow> prs_object_id_t" where
  "prs_task_get_id task = task_id task"

definition prs_task_get_prio :: "prs_task \<Rightarrow> prs_task_prio_t" where
  "prs_task_get_prio task = task_prio task"

text \<open>The task with its new priority, and whether the current worker is signalled; for another task
  the function logs an error instead.\<close>

definition prs_task_set_prio :: "prs_task \<Rightarrow> prs_task_prio_t \<Rightarrow> bool \<Rightarrow> prs_task \<times> bool" where
  "prs_task_set_prio task prio is_current_task = (task\<lparr>task_prio := prio\<rparr>, is_current_task)"

definition prs_task_get_state :: "prs_task \<Rightarrow> u64" where
  "prs_task_get_state task = PRS_TASK_GET_STATE (task_token task)"

definition prs_task_change_state :: "prs_task \<Rightarrow> prs_task_state \<Rightarrow> prs_task" where
  "prs_task_change_state task new_state =
     (let token = task_token task;
          new_token = PRS_TASK_SET_TOKEN (task_state_code new_state) (PRS_TASK_GET_CAUSE token)
            (PRS_TASK_GET_COUNT token + PRS_TASK_COUNT_INCREMENT)
      in task\<lparr>task_token := new_token\<rparr>)"

definition prs_task_block :: "prs_task \<Rightarrow> prs_task \<times> u64" where
  "prs_task_block task =
     (let token = task_token task;
          new_token = PRS_TASK_SET_TOKEN (task_state_code PRS_TASK_STATE_BLOCKED) 0
            (PRS_TASK_GET_COUNT token + PRS_TASK_COUNT_INCREMENT)
      in (task\<lparr>task_token := new_token\<rparr>, new_token))"

text \<open>The task, the result, and whether \<^verbatim>\<open>prs_sched_ready\<close> is called for it.\<close>

definition prs_task_unblock :: "prs_task \<Rightarrow> u64 \<Rightarrow> u8 \<Rightarrow> bool \<Rightarrow> prs_task \<times> bool \<times> bool" where
  "prs_task_unblock task token cause is_current_task =
     (let new_state = (if is_current_task then PRS_TASK_STATE_RUNNING else PRS_TASK_STATE_READY);
          new_token = PRS_TASK_SET_TOKEN (task_state_code new_state) cause
            (PRS_TASK_GET_COUNT token + PRS_TASK_COUNT_INCREMENT);
          (result, cur, _) = atomic_compare_exchange (task_token task) token new_token
      in (task\<lparr>task_token := cur\<rparr>, result, result \<and> \<not> is_current_task))"

definition prs_task_get_last_unblock_cause :: "prs_task \<Rightarrow> u8" where
  "prs_task_get_last_unblock_cause task = PRS_TASK_GET_CAUSE (task_token task)"

section \<open>Fields of tokens\<close>

lemma task_masks:
  "PRS_TASK_STATE_MASK = mask 4" "PRS_TASK_CAUSE_MASK = push_bit 4 (mask 8)"
  "PRS_TASK_COUNT_MASK = NOT (mask 12)" "PRS_TASK_COUNT_INCREMENT = 4096"
proof -
  show s: "PRS_TASK_STATE_MASK = mask 4" and c: "PRS_TASK_CAUSE_MASK = push_bit 4 (mask 8)"
    by (simp_all add: task_const_defs mask_eq_exp_minus_1)
  show "PRS_TASK_COUNT_MASK = NOT (mask 12)"
    unfolding PRS_TASK_COUNT_MASK_def s c by (simp add: mask_eq_exp_minus_1)
  show "PRS_TASK_COUNT_INCREMENT = 4096" by (simp add: task_const_defs)
qed

lemma SET_TOKEN_eq:
  "PRS_TASK_SET_TOKEN s ca co = push_bit 12 co OR push_bit 4 (ucast ca) OR take_bit 4 s"
proof -
  have "push_bit 4 (ucast ca :: u64) AND push_bit 4 (mask 8) = push_bit 4 (ucast ca)"
    by (rule bit_word_eqI) (auto simp: bit_simps dest: bit_imp_le_length)
  then show ?thesis
    by (simp add: PRS_TASK_SET_TOKEN_def task_masks PRS_TASK_STATE_BITS_def PRS_TASK_CAUSE_BITS_def
        take_bit_eq_mask)
qed

lemma GET_COUNT_eq: "PRS_TASK_GET_COUNT token = drop_bit 12 token"
  unfolding PRS_TASK_GET_COUNT_def task_masks PRS_TASK_STATE_BITS_def PRS_TASK_CAUSE_BITS_def
  by (rule bit_word_eqI) (auto simp: bit_simps dest: bit_imp_le_length)

lemma GET_SET_TOKEN:
  "PRS_TASK_GET_STATE (PRS_TASK_SET_TOKEN s ca co) = take_bit 4 s"
  "PRS_TASK_GET_CAUSE (PRS_TASK_SET_TOKEN s ca co) = ca"
  "PRS_TASK_GET_COUNT (PRS_TASK_SET_TOKEN s ca co) = take_bit 52 co"
proof -
  show "PRS_TASK_GET_STATE (PRS_TASK_SET_TOKEN s ca co) = take_bit 4 s"
    unfolding PRS_TASK_GET_STATE_def SET_TOKEN_eq task_masks
    by (rule bit_word_eqI) (auto simp: bit_simps)
  show "PRS_TASK_GET_CAUSE (PRS_TASK_SET_TOKEN s ca co) = ca"
    unfolding PRS_TASK_GET_CAUSE_def SET_TOKEN_eq task_masks PRS_TASK_STATE_BITS_def
    by (rule bit_word_eqI) (auto simp: bit_simps)
  show "PRS_TASK_GET_COUNT (PRS_TASK_SET_TOKEN s ca co) = take_bit 52 co"
    unfolding GET_COUNT_eq SET_TOKEN_eq
    by (rule bit_word_eqI) (auto simp: bit_simps dest: bit_imp_le_length)
qed

lemma state_code_small: "take_bit 4 (task_state_code s) = task_state_code s"
  by (cases s) simp_all

lemma state_code_inj: "task_state_code s = task_state_code s' \<longleftrightarrow> s = s'"
  by (cases s; cases s') simp_all

definition task_version :: "u64 \<Rightarrow> nat" where
  "task_version token = unat (PRS_TASK_GET_COUNT token)"

lemma task_version_less: "task_version token < 2 ^ 52"
proof -
  have "unat token < 2 ^ 52 * 2 ^ 12" using unsigned_less [of token, where ?'a = nat] by simp
  then have "unat token div 2 ^ 12 < 2 ^ 52" by (simp only: less_mult_imp_div_less)
  moreover have "task_version token = unat token div 2 ^ 12"
    unfolding task_version_def GET_COUNT_eq by (simp only: unat_drop_bit_eq) (simp only: drop_bit_eq_div)
  ultimately show ?thesis by simp
qed

lemma version_step:
  "task_version (PRS_TASK_SET_TOKEN s ca (PRS_TASK_GET_COUNT token + PRS_TASK_COUNT_INCREMENT))
     = (task_version token + 4096) mod 2 ^ 52"
proof -
  have small: "task_version token + 4096 < 2 ^ 64" using task_version_less [of token] by simp
  have "unat (PRS_TASK_GET_COUNT token + PRS_TASK_COUNT_INCREMENT) = task_version token + 4096"
    unfolding task_version_def task_masks using small by (subst unat_add_no_wrap) (simp_all add: task_version_def)
  then show ?thesis
    unfolding task_version_def GET_SET_TOKEN
    by (simp only: unsigned_take_bit_eq) (simp only: take_bit_eq_mod task_version_def)
qed

lemma token_changes:
  "PRS_TASK_SET_TOKEN s ca (PRS_TASK_GET_COUNT token + PRS_TASK_COUNT_INCREMENT) \<noteq> token"
proof -
  have "(task_version token + 4096) mod 2 ^ 52 \<noteq> task_version token"
  proof (cases "task_version token + 4096 < 2 ^ 52")
    case True
    then show ?thesis by simp
  next
    case False
    then have "(task_version token + 4096) mod 2 ^ 52 = task_version token + 4096 - 2 ^ 52"
      using task_version_less [of token] by (subst mod_if) simp
    then show ?thesis using False by simp
  qed
  then show ?thesis using version_step [of s ca token] by metis
qed

section \<open>Sequences of state changes\<close>

datatype task_op = TaskChange prs_task_state | TaskBlock | TaskUnblock u64 u8 bool

fun task_exec :: "prs_task \<Rightarrow> task_op \<Rightarrow> prs_task" where
  "task_exec task (TaskChange s) = prs_task_change_state task s"
| "task_exec task TaskBlock = fst (prs_task_block task)"
| "task_exec task (TaskUnblock token cause cur) = fst (prs_task_unblock task token cause cur)"

text \<open>How often the token changes on the way: an unblocking with the wrong token changes nothing.\<close>

fun task_changes :: "prs_task \<Rightarrow> task_op list \<Rightarrow> nat" where
  "task_changes task [] = 0"
| "task_changes task (op # ops) =
     (case op of
        TaskUnblock token cause cur \<Rightarrow>
          (if task_token task = token then 1 else 0) + task_changes (task_exec task op) ops
      | _ \<Rightarrow> 1 + task_changes (task_exec task op) ops)"

lemma unblock_cases:
  "prs_task_unblock task token cause cur =
     (if task_token task = token
      then (task\<lparr>task_token := PRS_TASK_SET_TOKEN
               (task_state_code (if cur then PRS_TASK_STATE_RUNNING else PRS_TASK_STATE_READY)) cause
               (PRS_TASK_GET_COUNT token + PRS_TASK_COUNT_INCREMENT)\<rparr>, True, \<not> cur)
      else (task, False, False))"
  by (simp add: prs_task_unblock_def atomic_compare_exchange_def Let_def)

lemma task_exec_version:
  "task_version (task_token (task_exec task op)) =
     (task_version (task_token task) + 4096 * task_changes task [op]) mod 2 ^ 52"
  using task_version_less [of "task_token task"]
  by (cases op)
    (simp_all add: prs_task_change_state_def prs_task_block_def unblock_cases Let_def version_step)

lemma task_changes_Cons:
  "task_changes task (op # ops) = task_changes task [op] + task_changes (task_exec task op) ops"
  by (cases op) simp_all

lemma task_run_version:
  "task_version (task_token (fold (\<lambda>op t. task_exec t op) ops task))
     = (task_version (task_token task) + 4096 * task_changes task ops) mod 2 ^ 52"
proof (induction ops arbitrary: task)
  case Nil
  then show ?case using task_version_less [of "task_token task"] by simp
next
  case (Cons op ops)
  let ?v = "task_version (task_token task)" and ?a = "task_changes task [op]"
    and ?b = "task_changes (task_exec task op) ops"
  have "task_version (task_token (fold (\<lambda>op t. task_exec t op) (op # ops) task))
      = ((?v + 4096 * ?a) mod 2 ^ 52 + 4096 * ?b) mod 2 ^ 52"
    using Cons.IH [of "task_exec task op"] task_exec_version [of task op] by simp
  also have "\<dots> = (?v + 4096 * ?a + 4096 * ?b) mod 2 ^ 52" by (rule mod_add_left_eq)
  also have "?v + 4096 * ?a + 4096 * ?b = ?v + 4096 * task_changes task (op # ops)"
    unfolding task_changes_Cons [of task op ops] by simp
  finally show ?case .
qed

section \<open>Properties\<close>

definition task_example :: prs_task where
  "task_example = \<lparr>task_id = 1, task_name = ''t'', task_userdata = 0, task_stack = 0, task_stack_size = 0,
     task_prio = 0, task_proc_id = 0, task_sched_id = 0, task_sched_userdata = 0,
     task_token = PRS_TASK_SET_TOKEN 2 0 0, task_context = 0, task_entry = 0, task_msgq = 0\<rparr>"

text \<open>A token made from a state, a cause and a count gives them back, the count modulo 2 ^ 52.
  Blocking leaves the task blocked with cause 0 and returns its token; changing the state keeps the
  cause; a successful unblocking leaves the task running or ready with the given cause.\<close>

theorem task_token_roundtrip:
  "PRS_TASK_GET_STATE (PRS_TASK_SET_TOKEN (task_state_code s) ca co) = task_state_code s
   \<and> PRS_TASK_GET_CAUSE (PRS_TASK_SET_TOKEN (task_state_code s) ca co) = ca
   \<and> PRS_TASK_GET_COUNT (PRS_TASK_SET_TOKEN (task_state_code s) ca co) = take_bit 52 co
   \<and> (case prs_task_block task of (task', token) \<Rightarrow>
        prs_task_get_state task' = task_state_code PRS_TASK_STATE_BLOCKED \<and> token = task_token task'
        \<and> prs_task_get_last_unblock_cause task' = 0
        \<and> (case prs_task_unblock task' token cause cur of (task'', r, ready) \<Rightarrow>
             r \<and> ready = (\<not> cur) \<and> prs_task_get_last_unblock_cause task'' = cause
             \<and> prs_task_get_state task''
                 = task_state_code (if cur then PRS_TASK_STATE_RUNNING else PRS_TASK_STATE_READY)))
   \<and> prs_task_get_state (prs_task_change_state task s) = task_state_code s
   \<and> prs_task_get_last_unblock_cause (prs_task_change_state task s) = prs_task_get_last_unblock_cause task"
  by (simp add: GET_SET_TOKEN state_code_small [simplified] prs_task_block_def prs_task_get_state_def
      prs_task_get_last_unblock_cause_def prs_task_change_state_def unblock_cases Let_def)

text \<open>C10: Of any number of sources that hold the token of one blocking, in whatever order their exchanges
  happen, exactly the first unblocks the task, its cause is the one recorded, and the task is made ready
  at most once; all others find the token changed and do nothing.\<close>

theorem task_unblocked_once:
  assumes "task_token task = token"
  shows "case prs_task_unblock task token cause cur of (task', r, ready) \<Rightarrow>
    r \<and> ready = (\<not> cur)
    \<and> fold (\<lambda>(cause, cur) (t, n). case prs_task_unblock t token cause cur of
           (t', r, _) \<Rightarrow> (t', if r then n + 1 else n)) rest (task', 1 :: nat) = (task', 1)
    \<and> prs_task_get_last_unblock_cause task' = cause"
proof -
  let ?new = "PRS_TASK_SET_TOKEN
    (task_state_code (if cur then PRS_TASK_STATE_RUNNING else PRS_TASK_STATE_READY)) cause
    (PRS_TASK_GET_COUNT token + PRS_TASK_COUNT_INCREMENT)"
  have ne: "?new \<noteq> token" by (rule token_changes)
  have "fold (\<lambda>(cause, cur) (t, n). case prs_task_unblock t token cause cur of
           (t', r, _) \<Rightarrow> (t', if r then n + 1 else n)) rest (t, 1) = (t, 1 :: nat)"
    if "task_token t \<noteq> token" for t
    using that by (induction rest) (auto simp: unblock_cases)
  with ne assms show ?thesis
    by (simp add: unblock_cases prs_task_get_last_unblock_cause_def GET_SET_TOKEN)
qed

theorem task_unblocked_once_witness:
  "case prs_task_unblock task_example (PRS_TASK_SET_TOKEN 2 0 0) 9 False of (task', r, ready) \<Rightarrow>
     r \<and> prs_task_unblock task' (PRS_TASK_SET_TOKEN 2 0 0) 5 False = (task', False, False)"
proof -
  have "task_token task_example = PRS_TASK_SET_TOKEN 2 0 0" by (simp add: task_example_def)
  from task_unblocked_once [where cause = 9 and cur = False and rest = "[(5, False)]", OF this] show ?thesis
    by (auto simp: unblock_cases split: if_splits)
qed

text \<open>A token becomes stale: after any sequence of state changes, blockings and unblockings the
  version is the old one only if the number of times the token changed is a multiple of 2 ^ 40 (the
  count advances in steps of 4096, so 12 of its 52 bits never change). Otherwise an unblocking with the
  old token fails and changes nothing.\<close>

theorem task_stale_token_rejected:
  fixes task :: prs_task and ops :: "task_op list"
  defines "task' \<equiv> fold (\<lambda>op t. task_exec t op) ops task"
  shows "(task_version (task_token task') = task_version (task_token task)) = (2 ^ 40 dvd task_changes task ops)
    \<and> (\<not> 2 ^ 40 dvd task_changes task ops \<longrightarrow>
         prs_task_unblock task' (task_token task) cause cur = (task', False, False))"
proof -
  let ?v = "task_version (task_token task)" and ?n = "task_changes task ops"
  have lt: "?v < 2 ^ 52" by (rule task_version_less)
  have run: "task_version (task_token task') = (?v + 4096 * ?n) mod 2 ^ 52"
    unfolding task'_def by (rule task_run_version)
  have "(?v + 4096 * ?n) mod 2 ^ 52 = ?v \<longleftrightarrow> (?v + 4096 * ?n) mod 2 ^ 52 = ?v mod 2 ^ 52"
    using lt by simp
  also have "\<dots> \<longleftrightarrow> 2 ^ 52 dvd (?v + 4096 * ?n) - ?v"
    by (rule mod_eq_dvd_iff_nat) simp
  also have "\<dots> \<longleftrightarrow> (2 :: nat) ^ 12 * 2 ^ 40 dvd 2 ^ 12 * ?n" by simp
  also have "\<dots> \<longleftrightarrow> 2 ^ 40 dvd ?n" by (rule nat_mult_dvd_cancel1) simp
  finally have eq: "(task_version (task_token task') = ?v) = (2 ^ 40 dvd ?n)" using run by simp
  moreover have "task_token task' \<noteq> task_token task" if "\<not> 2 ^ 40 dvd ?n" using eq that by auto
  ultimately show ?thesis by (simp add: unblock_cases)
qed

theorem task_stale_token_rejected_witness:
  "prs_task_unblock (prs_task_change_state task_example PRS_TASK_STATE_READY) (task_token task_example) 7 False
     = (prs_task_change_state task_example PRS_TASK_STATE_READY, False, False)"
  using task_stale_token_rejected [of "[TaskChange PRS_TASK_STATE_READY]" task_example 7 False] by simp

end
