(* ===== verification/Event.thy ===== *)
theory Event
  imports God Task
begin

text \<open>
  The blocking event of \<^verbatim>\<open>prs/event.c\<close>: it holds the token of one blocking of a task and counts the
  sources that may still signal it. The tasks live in a memory beside the object directory, which is where
  a signal looks the task up; the calls of \<^verbatim>\<open>prs_sched_ready\<close> are recorded as the list of tasks made
  ready.
\<close>

section \<open>Data and operations\<close>

record prs_event =
  ev_addr :: ptr
  ev_task_id :: prs_object_id_t
  ev_token :: u64
  ev_initial_refcnt :: u64
  ev_refcnt :: u64

record task_world =
  tw_tasks :: "ptr \<Rightarrow> prs_task"
  tw_ready :: "ptr list"
  tw_current :: ptr

definition PRS_EVENT_STATE_SIGNALED :: u64 where
  "PRS_EVENT_STATE_SIGNALED = 1"

definition PRS_EVENT_STATE_FREED :: u64 where
  "PRS_EVENT_STATE_FREED = 2"

text \<open>A failed allocation is fatal (\<open>None\<close>).\<close>

definition prs_event_create :: "task_world \<Rightarrow> ptr \<Rightarrow> u64 \<Rightarrow> ptr option \<Rightarrow> (task_world \<times> prs_event) option" where
  "prs_event_create w task refcnt memory =
     (case memory of
        None \<Rightarrow> None
      | Some addr \<Rightarrow>
          (case prs_task_block (tw_tasks w task) of
             (t, token) \<Rightarrow>
               Some (w\<lparr>tw_tasks := (tw_tasks w)(task := t)\<rparr>,
                     \<lparr>ev_addr = addr, ev_task_id = task_id t, ev_token = token,
                      ev_initial_refcnt = refcnt, ev_refcnt = refcnt\<rparr>)))"

text \<open>The pointer that is freed.\<close>

definition prs_event_destroy :: "prs_event \<Rightarrow> ptr list" where
  "prs_event_destroy event = [ev_addr event]"

text \<open>\<^verbatim>\<open>prs_task_unblock\<close> on a task in memory, with the call of the scheduler.\<close>

definition event_unblock :: "task_world \<Rightarrow> ptr \<Rightarrow> u64 \<Rightarrow> u8 \<Rightarrow> task_world \<times> bool" where
  "event_unblock w p token ty =
     (case prs_task_unblock (tw_tasks w p) token ty (p = tw_current w) of
        (t, result, ready) \<Rightarrow>
          (w\<lparr>tw_tasks := (tw_tasks w)(p := t),
             tw_ready := (if ready then tw_ready w @ [p] else tw_ready w)\<rparr>, result))"

text \<open>The state, the event after the call, the flags, and the pointers freed.\<close>

definition prs_event_unref_internal ::
  "task_world god_ops \<Rightarrow> task_world god_world \<Rightarrow> prs_event \<Rightarrow> bool \<Rightarrow> u8
    \<Rightarrow> task_world god_world \<times> prs_event \<times> u64 \<times> ptr list" where
  "prs_event_unref_internal ops_of s event signal ty =
     (let oid = ev_task_id event;
          token = ev_token event;
          (refcnt, cur) = atomic_fetch_sub (ev_refcnt event) 1;
          event' = event\<lparr>ev_refcnt := cur\<rparr>;
          (state, freed) = (if refcnt = 1 then (PRS_EVENT_STATE_FREED, prs_event_destroy event) else (0, []))
      in if signal then
           (case prs_god_lock (fst s) oid of
              (god, task) \<Rightarrow>
                if task \<noteq> 0 then
                  (let (w, success) = event_unblock (snd s) task token ty;
                       s' = prs_god_unlock ops_of (god, w) oid
                   in (s', event', if success then state else state OR PRS_EVENT_STATE_SIGNALED, freed))
                else ((god, snd s), event', state OR PRS_EVENT_STATE_SIGNALED, freed))
         else (s, event', state, freed))"

definition prs_event_signal ::
  "task_world god_ops \<Rightarrow> task_world god_world \<Rightarrow> prs_event \<Rightarrow> u8
    \<Rightarrow> task_world god_world \<times> prs_event \<times> u64 \<times> ptr list" where
  "prs_event_signal ops_of s event ty = prs_event_unref_internal ops_of s event True ty"

definition prs_event_unref ::
  "task_world god_ops \<Rightarrow> task_world god_world \<Rightarrow> prs_event
    \<Rightarrow> task_world god_world \<times> prs_event \<times> u64 \<times> ptr list" where
  "prs_event_unref ops_of s event = prs_event_unref_internal ops_of s event False 0"

definition prs_event_cancel :: "prs_event \<Rightarrow> ptr list" where
  "prs_event_cancel event = prs_event_destroy event"

section \<open>One call\<close>

text \<open>The task is registered, it is at \<open>p\<close>, and the lock does not run into the limit.\<close>

definition event_task_at :: "prs_god \<Rightarrow> prs_object_id_t \<Rightarrow> ptr \<Rightarrow> bool" where
  "event_task_at god oid p \<longleftrightarrow> god_wf god \<and>
     (\<exists>e. god_live god oid = Some e \<and> god_refs (goe_header e) < 4095 \<and> goe_object e = p)"

definition event_flags :: "prs_event \<Rightarrow> u64" where
  "event_flags event = (if ev_refcnt event = 1 then PRS_EVENT_STATE_FREED else 0)"

lemma event_unblock_stale:
  "task_token (tw_tasks w p) \<noteq> token \<Longrightarrow> event_unblock w p token ty = (w, False)"
  by (simp add: event_unblock_def unblock_cases)

lemma event_unblock_fresh:
  assumes "task_token (tw_tasks w p) = token"
  obtains t where "event_unblock w p token ty = (w\<lparr>tw_tasks := (tw_tasks w)(p := t),
      tw_ready := (if p = tw_current w then tw_ready w else tw_ready w @ [p])\<rparr>, True)"
    and "task_token t \<noteq> token" and "prs_task_get_last_unblock_cause t = ty"
proof -
  let ?cur = "p = tw_current w"
  let ?new = "PRS_TASK_SET_TOKEN
    (task_state_code (if ?cur then PRS_TASK_STATE_RUNNING else PRS_TASK_STATE_READY)) ty
    (PRS_TASK_GET_COUNT token + PRS_TASK_COUNT_INCREMENT)"
  have "?new \<noteq> token" by (rule token_changes)
  then show thesis
    using assms that [of "(tw_tasks w p)\<lparr>task_token := ?new\<rparr>"]
    by (simp add: event_unblock_def unblock_cases prs_task_get_last_unblock_cause_def GET_SET_TOKEN)
qed

lemma event_step:
  assumes "event_task_at god (ev_task_id event) p"
  shows "prs_event_unref_internal ops_of (god, w) event signal ty =
    (let (w', success) = (if signal then event_unblock w p (ev_token event) ty else (w, True))
     in ((god, w'), event\<lparr>ev_refcnt := ev_refcnt event - 1\<rparr>,
         if success then event_flags event else event_flags event OR PRS_EVENT_STATE_SIGNALED,
         if ev_refcnt event = 1 then [ev_addr event] else []))"
proof -
  obtain e where e: "god_wf god" "god_live god (ev_task_id event) = Some e" "god_refs (goe_header e) < 4095"
      "goe_object e = p" using assms by (auto simp: event_task_at_def)
  have p: "p \<noteq> 0" using god_live_fields(8) [OF e(1,2)] e(4) by simp
  note lock = god_lock_entry_live(2) [OF e(1-3)]
  show ?thesis
    using lock p e(4)
    by (cases "event_unblock w p (ev_token event) ty")
      (simp add: prs_event_unref_internal_def atomic_fetch_sub_def Let_def event_flags_def prs_event_destroy_def
        god_lock_unlock [OF e(1-3)])
qed

section \<open>All sources\<close>

text \<open>The calls of the sources, in the order in which they happen: whether they signal, and with which
  type.\<close>

fun event_run ::
  "task_world god_ops \<Rightarrow> task_world god_world \<Rightarrow> prs_event \<Rightarrow> (bool \<times> u8) list
    \<Rightarrow> task_world god_world \<times> u64 list \<times> ptr list" where
  "event_run ops_of s event [] = (s, [], [])"
| "event_run ops_of s event ((signal, ty) # calls) =
     (let (s', event', state, freed) = prs_event_unref_internal ops_of s event signal ty;
          (s'', states, freed') = event_run ops_of s' event' calls
      in (s'', state # states, freed @ freed'))"

text \<open>The types of the signals that report success.\<close>

definition event_winners :: "(bool \<times> u8) list \<Rightarrow> u64 list \<Rightarrow> u8 list" where
  "event_winners calls states =
     map (\<lambda>(c, _). snd c) (filter (\<lambda>(c, st). fst c \<and> st AND PRS_EVENT_STATE_SIGNALED = 0) (zip calls states))"

lemma event_winners_Cons:
  "event_winners ((signal, ty) # calls) (st # states) =
     (if signal \<and> st AND PRS_EVENT_STATE_SIGNALED = 0 then ty # event_winners calls states
      else event_winners calls states)"
  by (simp add: event_winners_def)

lemma event_flag_bits:
  "event_flags event AND PRS_EVENT_STATE_SIGNALED = 0"
  "PRS_EVENT_STATE_SIGNALED \<noteq> 0"
  "event_flags event AND PRS_EVENT_STATE_FREED = 0 \<longleftrightarrow> ev_refcnt event \<noteq> 1"
  "(event_flags event OR PRS_EVENT_STATE_SIGNALED) AND PRS_EVENT_STATE_FREED = 0 \<longleftrightarrow> ev_refcnt event \<noteq> 1"
  by (simp_all add: event_flags_def PRS_EVENT_STATE_FREED_def PRS_EVENT_STATE_SIGNALED_def)

lemma event_run_result:
  assumes "event_task_at god (ev_task_id event) p"
  shows "\<exists>w' states freed. event_run ops_of (god, w) event calls = ((god, w'), states, freed)
    \<and> length states = length calls
    \<and> event_winners calls states =
        (if task_token (tw_tasks w p) = ev_token event then take 1 (map snd (filter fst calls)) else [])
    \<and> (event_winners calls states = [] \<longrightarrow> w' = w)
    \<and> (\<forall>ty. event_winners calls states = [ty] \<longrightarrow>
         prs_task_get_last_unblock_cause (tw_tasks w' p) = ty
         \<and> tw_ready w' = (if p = tw_current w then tw_ready w else tw_ready w @ [p]))"
  using assms
proof (induction calls arbitrary: event w)
  case Nil
  then show ?case by (simp add: event_winners_def)
next
  case (Cons c calls)
  obtain signal ty where c: "c = (signal, ty)" by fastforce
  let ?event = "event\<lparr>ev_refcnt := ev_refcnt event - 1\<rparr>"
  have at: "event_task_at god (ev_task_id ?event) p" using Cons.prems by simp
  note step = event_step [OF Cons.prems, of ops_of w signal ty]
  note IH = Cons.IH [OF at]
  show ?case
  proof (cases "signal \<and> task_token (tw_tasks w p) = ev_token event")
    case True
    then have fresh: "task_token (tw_tasks w p) = ev_token event" ..
    obtain t where t: "event_unblock w p (ev_token event) ty = (w\<lparr>tw_tasks := (tw_tasks w)(p := t),
        tw_ready := (if p = tw_current w then tw_ready w else tw_ready w @ [p])\<rparr>, True)"
      and ne: "task_token t \<noteq> ev_token event" and cause: "prs_task_get_last_unblock_cause t = ty"
      by (rule event_unblock_fresh [OF fresh])
    let ?w = "w\<lparr>tw_tasks := (tw_tasks w)(p := t),
        tw_ready := (if p = tw_current w then tw_ready w else tw_ready w @ [p])\<rparr>"
    obtain states freed where r: "event_run ops_of (god, ?w) ?event calls = ((god, ?w), states, freed)"
        "length states = length calls" "event_winners calls states = []"
    proof -
      have stale: "(task_token (tw_tasks ?w p) = ev_token ?event) = False" using ne by simp
      show thesis using IH [of ?w] that unfolding stale if_False by blast
    qed
    have run: "\<exists>f. event_run ops_of (god, w) event (c # calls) = ((god, ?w), event_flags event # states, f)"
      using True c step t r(1) by simp
    have win: "event_winners (c # calls) (event_flags event # states) = [ty]"
      using True c r(3) by (simp add: event_winners_Cons event_flag_bits)
    obtain f where f: "event_run ops_of (god, w) event (c # calls) = ((god, ?w), event_flags event # states, f)"
      using run by blast
    show ?thesis
      by (rule exI [of _ ?w], rule exI [of _ "event_flags event # states"], rule exI [of _ f],
          unfold win, intro conjI) (use f r(2) True c cause in simp_all)
  next
    case False
    then have st: "(if signal then event_unblock w p (ev_token event) ty else (w, True)) = (w, \<not> signal)"
      using event_unblock_stale by auto
    have same: "ev_token ?event = ev_token event" by simp
    obtain w' states freed where r: "event_run ops_of (god, w) ?event calls = ((god, w'), states, freed)"
        "length states = length calls"
        "event_winners calls states =
          (if task_token (tw_tasks w p) = ev_token event then take 1 (map snd (filter fst calls)) else [])"
        "event_winners calls states = [] \<longrightarrow> w' = w"
        "\<forall>ty. event_winners calls states = [ty] \<longrightarrow>
          prs_task_get_last_unblock_cause (tw_tasks w' p) = ty
          \<and> tw_ready w' = (if p = tw_current w then tw_ready w else tw_ready w @ [p])"
      using IH [of w] unfolding same by blast
    let ?st = "if \<not> signal then event_flags event else event_flags event OR PRS_EVENT_STATE_SIGNALED"
    have run: "\<exists>f. event_run ops_of (god, w) event (c # calls) = ((god, w'), ?st # states, f)"
      using c step r(1) unfolding st by simp
    then obtain f where f: "event_run ops_of (god, w) event (c # calls) = ((god, w'), ?st # states, f)"
      by blast
    have win: "event_winners (c # calls) (?st # states) = event_winners calls states"
      using c by (simp add: event_winners_Cons event_flag_bits)
    have spec: "(if task_token (tw_tasks w p) = ev_token event then take 1 (map snd (filter fst (c # calls))) else [])
        = event_winners calls states"
      using False c r(3) by auto
    show ?thesis
      by (rule exI [of _ w'], rule exI [of _ "?st # states"], rule exI [of _ f],
          unfold win spec, intro conjI) (use f r(2,4,5) in simp_all)
  qed
qed

lemma event_run_freed:
  assumes "event_task_at god (ev_task_id event) p" and "unat (ev_refcnt event) = length calls" and "calls \<noteq> []"
  shows "case event_run ops_of (god, w) event calls of (s', states, freed) \<Rightarrow>
    map (\<lambda>st. st AND PRS_EVENT_STATE_FREED \<noteq> 0) states = replicate (length calls - 1) False @ [True]
    \<and> freed = [ev_addr event]"
  using assms
proof (induction calls arbitrary: event w)
  case (Cons c calls)
  obtain signal ty where c: "c = (signal, ty)" by fastforce
  let ?event = "event\<lparr>ev_refcnt := ev_refcnt event - 1\<rparr>"
  have at: "event_task_at god (ev_task_id ?event) p" using Cons.prems(1) by simp
  obtain w1 ok where uw: "(if signal then event_unblock w p (ev_token event) ty else (w, True)) = (w1, ok)"
    by fastforce
  note step = event_step [OF Cons.prems(1), of ops_of w signal ty, unfolded uw]
  have "ev_refcnt event \<noteq> 0" using Cons.prems(2) by auto
  then have u: "unat (ev_refcnt ?event) = length calls"
    using Cons.prems(2) unat_minus_one [of "ev_refcnt event"] by simp
  have one: "ev_refcnt event = 1 \<longleftrightarrow> calls = []"
    using Cons.prems(2) by (auto simp: word_eq_iff_unat)
  obtain s2 states2 freed2 where run: "event_run ops_of (god, w1) ?event calls = (s2, states2, freed2)"
    by (metis prod.collapse)
  show ?case
  proof (cases "calls = []")
    case True
    then show ?thesis using c step run one by (simp add: event_flag_bits)
  next
    case False
    then obtain n where n: "length calls = Suc n" by (cases calls) auto
    from Cons.IH [OF at u False, of w1] show ?thesis
      using c step run one False n by (simp add: event_flag_bits)
  qed
qed simp

section \<open>Properties\<close>

definition event_world_example :: task_world where
  "event_world_example = \<lparr>tw_tasks = (\<lambda>_. task_example), tw_ready = [], tw_current = 3\<rparr>"

definition event_example :: prs_event where
  "event_example = (case prs_event_create event_world_example 77 2 (Some 500) of
     Some (_, event) \<Rightarrow> event | None \<Rightarrow> undefined)"

definition event_blocked_example :: task_world where
  "event_blocked_example = (case prs_event_create event_world_example 77 2 (Some 500) of
     Some (w, _) \<Rightarrow> w | None \<Rightarrow> undefined)"

text \<open>C9: An event created for a registered task with a count of n, and released by n sources in any order,
  each with prs_event_signal or prs_event_unref: the first signal, and no other, reports that it unblocked
  the task; the task keeps its type as the cause and is made ready exactly once (unless it is the
  current one); the last source, and no other, is told that the event is freed, and it is freed exactly
  once. The references that the signals take on the task are given back. Without a signal the tasks
  are unchanged.\<close>

theorem event_exactly_once:
  assumes "prs_event_create w0 p refcnt (Some addr) = Some (w, event)"
    and "event_task_at god (task_id (tw_tasks w0 p)) p"
    and "unat refcnt = length calls" and "calls \<noteq> []"
  shows "\<exists>w' states. event_run ops_of (god, w) event calls = ((god, w'), states, [addr])
    \<and> event_winners calls states = take 1 (map snd (filter fst calls))
    \<and> map (\<lambda>st. st AND PRS_EVENT_STATE_FREED \<noteq> 0) states = replicate (length calls - 1) False @ [True]
    \<and> (case map snd (filter fst calls) of
         [] \<Rightarrow> w' = w
       | ty # _ \<Rightarrow> prs_task_get_last_unblock_cause (tw_tasks w' p) = ty
           \<and> tw_ready w' = (if p = tw_current w then tw_ready w else tw_ready w @ [p]))"
proof -
  have ev: "ev_addr event = addr" "ev_task_id event = task_id (tw_tasks w0 p)" "ev_refcnt event = refcnt"
      "task_token (tw_tasks w p) = ev_token event"
    using assms(1) by (auto simp: prs_event_create_def prs_task_block_def Let_def)
  have at: "event_task_at god (ev_task_id event) p" using assms(2) ev(2) by simp
  obtain w' states freed where r: "event_run ops_of (god, w) event calls = ((god, w'), states, freed)"
      "event_winners calls states = take 1 (map snd (filter fst calls))"
      "event_winners calls states = [] \<longrightarrow> w' = w"
      "\<forall>ty. event_winners calls states = [ty] \<longrightarrow>
         prs_task_get_last_unblock_cause (tw_tasks w' p) = ty
         \<and> tw_ready w' = (if p = tw_current w then tw_ready w else tw_ready w @ [p])"
    using event_run_result [OF at, of ops_of w calls] ev(4) by metis
  have "unat (ev_refcnt event) = length calls" using assms(3) ev(3) by simp
  note freed = event_run_freed [OF at this assms(4), of ops_of w, unfolded r(1) prod.case]
  show ?thesis
  proof (cases "map snd (filter fst calls)")
    case Nil
    then show ?thesis unfolding r(1) using r freed ev(1) by (intro exI [of _ w'] exI [of _ states]) simp
  next
    case (Cons ty tys)
    then show ?thesis unfolding r(1) using r freed ev(1) by (intro exI [of _ w'] exI [of _ states]) simp
  qed
qed

theorem event_exactly_once_witness:
  "\<exists>god w' states.
     event_run (\<lambda>_. \<lparr>op_destroy = None, op_free = None, op_print = None\<rparr>) (god, event_blocked_example) event_example
       [(True, 9), (True, 5)] = ((god, w'), states, [500])
     \<and> event_winners [(True, 9), (True, 5)] states = [9]
     \<and> prs_task_get_last_unblock_cause (tw_tasks w' 77) = 9 \<and> tw_ready w' = [77]"
proof -
  obtain god e where g: "prs_god_alloc_and_lock god_example 77 5 = (god, 1)" "god_wf god"
      "god_live god 1 = Some e" "goe_object e = 77" "god_refs (goe_header e) = 1"
    by (rule god_example_alloc) auto
  have create: "prs_event_create event_world_example 77 2 (Some 500)
      = Some (event_blocked_example, event_example)"
    by (simp add: event_example_def event_blocked_example_def prs_event_create_def split: prod.splits)
  have at: "event_task_at god (task_id (tw_tasks event_world_example 77)) 77"
    using g by (auto simp: event_task_at_def event_world_example_def task_example_def)
  have w: "tw_ready event_blocked_example = []" "tw_current event_blocked_example = 3"
    by (simp_all add: event_blocked_example_def prs_event_create_def event_world_example_def split: prod.splits)
  show ?thesis
    using event_exactly_once [OF create at, of "[(True, 9), (True, 5)]"
      "\<lambda>_. \<lparr>op_destroy = None, op_free = None, op_print = None\<rparr>"] w
    by (intro exI [of _ god]) (simp del: event_run.simps, blast)
qed

end
