(* ===== verification/Schedq.thy ===== *)
theory Schedq
  imports God Task Mpsciq Bitops
begin

text \<open>
  What the two scheduler implementations \<^verbatim>\<open>prs/sched/swprio.c\<close> and \<^verbatim>\<open>prs/sched/swcoop.c\<close> share: the
  memory they work on, the block that links a task into the queues of its scheduler, and queues of such
  blocks. A scheduler runs beside the object directory, because removing a task gives back the scheduler's
  reference on it, which may call the task's free function. The last section is the contract that
  \<^verbatim>\<open>include/prs/sched.h\<close> states for an implementation.
\<close>

section \<open>Memory\<close>

text \<open>The tasks, the field \<open>task\<close> of every \<^verbatim>\<open>struct prs_sched_task_userdata\<close> and the queue nodes inside
  them, all by address; the workers of \<^verbatim>\<open>sched_data->workers\<close> in the order of that list, and the task
  each of them runs; and, in their order, the calls of \<^verbatim>\<open>prs_worker_interrupt\<close>, of
  \<^verbatim>\<open>prs_worker_signal\<close> and of \<^verbatim>\<open>prs_pal_free\<close>.\<close>

record sched_world =
  sw_tasks :: "ptr \<Rightarrow> prs_task"
  sw_udtask :: "ptr \<Rightarrow> ptr"
  sw_nodes :: prs_mpsciq_nodes
  sw_workers :: "ptr list"
  sw_current :: "ptr \<Rightarrow> prs_object_id_t"
  sw_interrupted :: "ptr list"
  sw_signaled :: "ptr list"
  sw_freed :: "ptr list"

text \<open>Offsets of the two nodes in \<^verbatim>\<open>struct prs_sched_task_userdata\<close>; a node is two pointers.\<close>

definition ud_ready_node :: u64 where
  "ud_ready_node = 8"

definition ud_remove_node :: u64 where
  "ud_remove_node = 24"

definition sw_set_task :: "sched_world \<Rightarrow> ptr \<Rightarrow> prs_task \<Rightarrow> sched_world" where
  "sw_set_task w p t = w\<lparr>sw_tasks := (sw_tasks w)(p := t)\<rparr>"

definition sw_change_state :: "sched_world \<Rightarrow> ptr \<Rightarrow> prs_task_state \<Rightarrow> sched_world" where
  "sw_change_state w p new_state = sw_set_task w p (prs_task_change_state (sw_tasks w p) new_state)"

text \<open>A block that \<^verbatim>\<open>prs_pal_malloc_zero\<close> returns has null links.\<close>

definition ud_zeroed :: "ptr \<Rightarrow> prs_mpsciq_nodes \<Rightarrow> prs_mpsciq_nodes" where
  "ud_zeroed u m = m\<lparr>iqn_next := (iqn_next m)(u + ud_ready_node := 0, u + ud_remove_node := 0),
     iqn_prev := (iqn_prev m)(u + ud_ready_node := 0, u + ud_remove_node := 0)\<rparr>"

text \<open>The loop of the two remove functions: the first worker that runs the task is interrupted.\<close>

definition sched_interrupt_running :: "sched_world \<Rightarrow> prs_object_id_t \<Rightarrow> sched_world" where
  "sched_interrupt_running w oid =
     (case filter (\<lambda>worker. sw_current w worker = oid) (sw_workers w) of
        [] \<Rightarrow> w
      | worker # _ \<Rightarrow> w\<lparr>sw_interrupted := sw_interrupted w @ [worker]\<rparr>)"

section \<open>Queues of blocks\<close>

definition udq :: "prs_mpsciq_nodes \<Rightarrow> prs_mpsciq \<Rightarrow> u64 \<Rightarrow> ptr list \<Rightarrow> bool" where
  "udq m q off us \<longleftrightarrow> iq_node_offset q = off \<and> iq_rep (m, q) (map (\<lambda>u. u + off) us)"

abbreviation ud_nodes :: "u64 \<Rightarrow> ptr list \<Rightarrow> ptr set" where
  "ud_nodes off us \<equiv> (\<lambda>u. u + off) ` set us"

lemma ud_node_iff [simp]: "u + off \<in> ud_nodes off us \<longleftrightarrow> u \<in> set us"
  by auto

lemma iq_unlinked_frame: "iq_unlinked m x \<Longrightarrow> iq_same_outside A m m' \<Longrightarrow> x \<notin> A \<Longrightarrow> iq_unlinked m' x"
  by (simp add: iq_unlinked_def iq_same_outside_def)

lemma udq_distinct: "udq m q off us \<Longrightarrow> distinct us \<and> 0 \<notin> ud_nodes off us"
  by (auto simp: udq_def dest!: iq_rep_nodes simp: distinct_map)

lemma udq_frame:
  "udq m q off us \<Longrightarrow> iq_same_outside A m m' \<Longrightarrow> A \<inter> ud_nodes off us = {} \<Longrightarrow> udq m' q off us"
  by (auto simp: udq_def elim!: iq_rep_frame)

lemma udq_create: "prs_mpsciq_create off (Some a) = Some q \<Longrightarrow> udq m q off []"
  by (auto simp: udq_def prs_mpsciq_create_def iq_rep_def revq_def)

lemma udq_begin:
  assumes "udq m q off us"
  obtains m' q' where "prs_mpsciq_begin (m, q) = Some ((m', q'), if us = [] then 0 else hd us + off)"
    and "udq m' q' off us" and "iq_same_outside (ud_nodes off us) m m'"
proof -
  have "iq_rep (m, q) (map (\<lambda>u. u + off) us)" and off: "iq_node_offset q = off"
    using assms by (simp_all add: udq_def)
  from iq_begin_rep [OF this(1)] obtain m' q' where
    b: "prs_mpsciq_begin (m, q) = Some ((m', q'), first_or (map (\<lambda>u. u + off) us) 0)"
      "iq_settled (m', q') (map (\<lambda>u. u + off) us)" "iq_same_outside (set (map (\<lambda>u. u + off) us)) m m'"
      "iq_node_offset q' = iq_node_offset q" by metis
  show thesis
    by (rule that [of m' q']) (use b off in \<open>cases us; auto simp: udq_def intro: iq_settled_rep\<close>)+
qed

lemma udq_push:
  assumes "udq m q off us" and "iq_unlinked m (u + off)" and "u \<notin> set us"
  obtains m' q' where "prs_mpsciq_push (m, q) (u + off) = (m', q')"
    and "udq m' q' off (us @ [u])" and "iq_same_outside {u + off} m m'"
proof -
  obtain m' q' where p: "prs_mpsciq_push (m, q) (u + off) = (m', q')" by fastforce
  have "iq_rep (m, q) (map (\<lambda>u. u + off) us)" "u + off \<notin> set (map (\<lambda>u. u + off) us)"
    using assms(1,3) by (auto simp: udq_def)
  note r = iq_push_rep [OF this(1) assms(2) this(2) p]
  show thesis by (rule that [OF p]) (use r assms(1) in \<open>auto simp: udq_def\<close>)
qed

lemma udq_remove:
  assumes "udq m q off (as @ u # bs)"
  obtains m' q' where "prs_mpsciq_remove (m, q) (u + off) = Some (m', q')"
    and "udq m' q' off (as @ bs)" and "iq_unlinked m' (u + off)"
    and "iq_same_outside (ud_nodes off (as @ u # bs)) m m'"
proof -
  have "iq_rep (m, q) (map (\<lambda>u. u + off) as @ (u + off) # map (\<lambda>u. u + off) bs)"
    using assms by (simp add: udq_def)
  from iq_remove_rep [OF this] obtain m' q' where r:
    "prs_mpsciq_remove (m, q) (u + off) = Some (m', q')" "iq_unlinked m' (u + off)"
    "iq_rep (m', q') (map (\<lambda>u. u + off) as @ map (\<lambda>u. u + off) bs)"
    "iq_same_outside (set (map (\<lambda>u. u + off) as @ (u + off) # map (\<lambda>u. u + off) bs)) m m'"
    "iq_node_offset q' = iq_node_offset q" by metis
  show thesis by (rule that [OF r(1)]) (use r assms in \<open>auto simp: udq_def image_Un\<close>)
qed

lemma udq_is_inserted:
  assumes "udq m q off us"
  obtains m' q' where "prs_mpsciq_is_inserted (m, q) (u + off) = Some ((m', q'), u \<in> set us)"
    and "udq m' q' off us" and "iq_same_outside (ud_nodes off us) m m'"
proof -
  have "iq_rep (m, q) (map (\<lambda>u. u + off) us)" and off: "iq_node_offset q = off"
    using assms by (simp_all add: udq_def)
  from iq_begin_rep [OF this(1)] obtain m' q' where
    b: "prs_mpsciq_begin (m, q) = Some ((m', q'), first_or (map (\<lambda>u. u + off) us) 0)"
      "iq_settled (m', q') (map (\<lambda>u. u + off) us)" "iq_same_outside (set (map (\<lambda>u. u + off) us)) m m'"
      "iq_node_offset q' = iq_node_offset q" by metis
  have "iq_settled (m', q') ([] @ map (\<lambda>u. u + off) us)" using b(2) by simp
  from iq_search_suffix [OF this, of "u + off"]
  have "prs_mpsciq_is_inserted (m, q) (u + off) = Some ((m', q'), u \<in> set us)"
    using b(1) by (auto simp: prs_mpsciq_is_inserted_def)
  then show thesis
    by (rule that) (use b off in \<open>auto simp: udq_def intro: iq_settled_rep\<close>)
qed

lemma udq_get_data: "udq m q off us \<Longrightarrow> prs_mpsciq_get_data q (u + off) = u"
  by (simp add: udq_def prs_mpsciq_get_data_def)

section \<open>The free functions of tasks\<close>

text \<open>The free function of a task releases memory that belongs to the task alone: its message queue, its
  context and its stack. It uses neither the object directory nor the memory of the scheduler.\<close>

definition sched_quiet :: "'w god_ops \<Rightarrow> bool" where
  "sched_quiet ops_of \<longleftrightarrow> (\<forall>p f. op_free (ops_of p) = Some f \<longrightarrow> (\<forall>object s. f object s = s))"

text \<open>The directory after an unlock.\<close>

definition god_release :: "prs_god \<Rightarrow> prs_object_id_t \<Rightarrow> prs_god" where
  "god_release god oid =
     fst (prs_god_unlock (\<lambda>_. \<lparr>op_destroy = None, op_free = None, op_print = None\<rparr>) (god, ()) oid)"

lemma god_unlock_quiet:
  assumes "sched_quiet ops_of"
  shows "prs_god_unlock ops_of (god, w) oid = (god_release god oid, w)"
proof -
  let ?none = "\<lambda>_. \<lparr>op_destroy = None, op_free = None, op_print = None\<rparr> :: unit god_world prs_object_ops"
  have "prs_god_free ops_of (g, w) oid = (fst (prs_god_free ?none (g, ()) oid), w)" for g
  proof -
    have "(case op_free (ops_of p) of None \<Rightarrow> (g, w) | Some f \<Rightarrow> f object (g, w)) = (g, w)" for p object
      using assms unfolding sched_quiet_def by (cases "op_free (ops_of p)") simp_all
    then show ?thesis by (simp add: prs_god_free_def Let_def)
  qed
  then show ?thesis by (simp add: prs_god_unlock_def god_release_def Let_def split: prod.split sum.split)
qed

section \<open>States of tasks\<close>

text \<open>The nodes of different blocks do not overlap.\<close>

definition ud_blocks :: "ptr set \<Rightarrow> bool" where
  "ud_blocks U \<longleftrightarrow> (\<forall>u \<in> U. \<forall>v \<in> U. u + ud_ready_node \<noteq> v + ud_remove_node)"

definition sched_is_running :: "sched_world \<Rightarrow> ptr \<Rightarrow> bool" where
  "sched_is_running w task \<longleftrightarrow>
     task \<noteq> 0 \<and> prs_task_get_state (sw_tasks w task) = task_state_code PRS_TASK_STATE_RUNNING"

lemma sw_change_state_fields [simp]:
  "sw_nodes (sw_change_state w t st) = sw_nodes w" "sw_udtask (sw_change_state w t st) = sw_udtask w"
  "sw_freed (sw_change_state w t st) = sw_freed w"
  "task_sched_userdata (sw_tasks (sw_change_state w t st) t') = task_sched_userdata (sw_tasks w t')"
  "task_prio (sw_tasks (sw_change_state w t st) t') = task_prio (sw_tasks w t')"
  "task_id (sw_tasks (sw_change_state w t st) t') = task_id (sw_tasks w t')"
  by (simp_all add: sw_change_state_def sw_set_task_def prs_task_change_state_def Let_def)

lemma sw_change_state_get:
  "prs_task_get_state (sw_tasks (sw_change_state w t st) t') =
     (if t' = t then task_state_code st else prs_task_get_state (sw_tasks w t'))"
  by (simp add: sw_change_state_def sw_set_task_def prs_task_change_state_def prs_task_get_state_def Let_def
      GET_SET_TOKEN state_code_small [simplified])

lemma sched_is_running_nodes [simp]: "sched_is_running (w\<lparr>sw_nodes := m\<rparr>) t = sched_is_running w t"
  by (simp add: sched_is_running_def)

lemma sched_is_running_state [simp]:
  "sched_is_running (sw_change_state w t st) t' =
     (if t' = t then t \<noteq> 0 \<and> st = PRS_TASK_STATE_RUNNING else sched_is_running w t')"
  by (cases st) (auto simp: sched_is_running_def sw_change_state_get)

lemma filter_neq_split:
  assumes "distinct us" and "u \<in> set us"
  obtains as bs where "us = as @ u # bs" "filter (\<lambda>v. v \<noteq> u) us = as @ bs"
proof -
  obtain as bs where s: "us = as @ u # bs" using assms(2) by (auto simp: in_set_conv_decomp)
  have "filter (\<lambda>v. v \<noteq> u) as = as" "filter (\<lambda>v. v \<noteq> u) bs = bs"
    using assms(1) s by (auto simp: filter_id_conv)
  then show thesis using that [OF s] s by simp
qed

text \<open>What the removal of a task, and of several, does to the world.\<close>

definition sched_removed :: "sched_world \<Rightarrow> ptr \<Rightarrow> sched_world" where
  "sched_removed w u =
     (let t = sw_udtask w u in
      w\<lparr>sw_tasks := (sw_tasks w)(t := (prs_task_change_state (sw_tasks w t) PRS_TASK_STATE_ZOMBIE)
          \<lparr>task_sched_userdata := 0\<rparr>),
        sw_freed := sw_freed w @ [u]\<rparr>)"

fun sched_removed_all :: "sched_world \<Rightarrow> ptr list \<Rightarrow> sched_world" where
  "sched_removed_all w [] = w"
| "sched_removed_all w (u # us) = sched_removed_all (sched_removed w u) us"

lemma sched_removed_nodes: "sched_removed (w\<lparr>sw_nodes := m\<rparr>) u = (sched_removed w u)\<lparr>sw_nodes := m\<rparr>"
  by (cases w) (simp add: sched_removed_def Let_def)

lemma sched_removed_all_nodes:
  "sched_removed_all (w\<lparr>sw_nodes := m\<rparr>) us = (sched_removed_all w us)\<lparr>sw_nodes := m\<rparr>"
  by (induction us arbitrary: w) (simp_all add: sched_removed_nodes)

lemma sched_removed_fields:
  "sw_udtask (sched_removed w u) = sw_udtask w" "sw_nodes (sched_removed w u) = sw_nodes w"
  "t \<noteq> sw_udtask w u \<Longrightarrow> sw_tasks (sched_removed w u) t = sw_tasks w t"
  "sw_freed (sched_removed w u) = sw_freed w @ [u]"
  by (simp_all add: sched_removed_def Let_def)

lemma sched_removed_all_fields:
  "sw_udtask (sched_removed_all w us) = sw_udtask w" "sw_nodes (sched_removed_all w us) = sw_nodes w"
  "t \<notin> sw_udtask w ` set us \<Longrightarrow> sw_tasks (sched_removed_all w us) t = sw_tasks w t"
  "sw_freed (sched_removed_all w us) = sw_freed w @ us"
  by (induction us arbitrary: w) (simp_all add: sched_removed_fields)

lemma sched_removed_all_running:
  "t \<notin> sw_udtask w ` set us \<Longrightarrow> sched_is_running (sched_removed_all w us) t = sched_is_running w t"
  by (simp add: sched_is_running_def sched_removed_all_fields)

text \<open>Objects without any function.\<close>

definition no_ops :: "'w god_ops" where
  "no_ops p = \<lparr>op_destroy = None, op_free = None, op_print = None\<rparr>"

lemma no_ops_quiet: "sched_quiet no_ops"
  by (simp add: sched_quiet_def no_ops_def)

section \<open>The contract of a scheduler\<close>

text \<open>What \<^verbatim>\<open>include/prs/sched.h\<close> asks of \<^verbatim>\<open>get_next\<close> when no task runs: a scheduler with ready blocks
  hands out the task of the first of them, in an order of its own, and one without reports no task.\<close>

locale task_dispatcher =
  fixes waiting :: "'s \<Rightarrow> ptr list \<Rightarrow> bool"
    and next_task :: "'s \<Rightarrow> ('s \<times> ptr) option"
    and task_at :: "'s \<Rightarrow> ptr \<Rightarrow> ptr"
  assumes no_task: "waiting s [] \<Longrightarrow> \<exists>s'. next_task s = Some (s', 0) \<and> waiting s' []"
    and first_task: "waiting s (u # us) \<Longrightarrow>
      \<exists>s'. next_task s = Some (s', task_at s u) \<and> waiting s' us \<and> task_at s' = task_at s"
begin

text \<open>The tasks that \<open>n\<close> decisions hand out, each of which blocks at once.\<close>

fun dispatch :: "nat \<Rightarrow> 's \<Rightarrow> (ptr list \<times> 's) option" where
  "dispatch 0 s = Some ([], s)"
| "dispatch (Suc n) s =
     (case next_task s of
        None \<Rightarrow> None
      | Some (s', t) \<Rightarrow> map_option (\<lambda>(ts, s''). (t # ts, s'')) (dispatch n s'))"

lemma dispatch_all:
  "waiting s us \<Longrightarrow> \<exists>s'. dispatch (length us) s = Some (map (task_at s) us, s') \<and> waiting s' []"
proof (induction us arbitrary: s)
  case (Cons u us)
  obtain s1 where s1: "next_task s = Some (s1, task_at s u)" "waiting s1 us" "task_at s1 = task_at s"
    using first_task [OF Cons.prems] by blast
  with Cons.IH [OF s1(2)] show ?case by auto
qed simp

lemma dispatch_then_idle:
  assumes "waiting s us"
  shows "\<exists>s' s''. dispatch (length us) s = Some (map (task_at s) us, s') \<and> next_task s' = Some (s'', 0)"
  using dispatch_all [OF assms] no_task by blast

end

end
