(* ===== verification/Swprio.thy ===== *)
theory Swprio
  imports Schedq
begin

text \<open>
  The preemptive priority scheduler of \<^verbatim>\<open>prs/sched/swprio.c\<close>: one ready queue for each of the 32
  priorities, a mask with a bit for every queue that may hold a task, and a queue of tasks to remove.
  The lowest priority value runs first.
\<close>

section \<open>Data\<close>

record prs_sched_swprio =
  sp_addr :: ptr
  sp_ready_mask :: prs_task_prio_t
  sp_readyq :: "prs_mpsciq list"
  sp_removeq :: prs_mpsciq

definition sp_set_readyq :: "prs_sched_swprio \<Rightarrow> nat \<Rightarrow> prs_mpsciq \<Rightarrow> prs_sched_swprio" where
  "sp_set_readyq sp prio q = sp\<lparr>sp_readyq := (sp_readyq sp)[prio := q]\<rparr>"

definition sp_mask_or :: "prs_sched_swprio \<Rightarrow> nat \<Rightarrow> prs_sched_swprio" where
  "sp_mask_or sp prio = sp\<lparr>sp_ready_mask := snd (atomic_fetch_or (sp_ready_mask sp) (push_bit prio 1))\<rparr>"

definition sp_mask_clear :: "prs_sched_swprio \<Rightarrow> nat \<Rightarrow> prs_sched_swprio" where
  "sp_mask_clear sp prio =
     sp\<lparr>sp_ready_mask := snd (atomic_fetch_and (sp_ready_mask sp) (NOT (push_bit prio 1)))\<rparr>"

type_synonym sp_state = "sched_world \<times> prs_sched_swprio"

section \<open>Creation and destruction\<close>

text \<open>The results of the allocations of the queues in the order in which they are made; after a failure
  no more are made and the queues created so far are freed, then the scheduler.\<close>

datatype swprio_init_result =
    SwprioReady prs_sched_swprio
  | SwprioNoMemory "ptr list"
  | SwprioFatal

fun swprio_init_queues :: "ptr option list \<Rightarrow> prs_mpsciq list \<Rightarrow> prs_mpsciq list + prs_mpsciq list" where
  "swprio_init_queues [] qs = Inr qs"
| "swprio_init_queues (memory # memories) qs =
     (case prs_mpsciq_create ud_ready_node memory of
        None \<Rightarrow> Inl qs
      | Some q \<Rightarrow> swprio_init_queues memories (qs @ [q]))"

definition prs_sched_swprio_init ::
  "ptr option \<Rightarrow> ptr option list \<Rightarrow> ptr option \<Rightarrow> swprio_init_result" where
  "prs_sched_swprio_init memory queue_memories removeq_memory =
     (case memory of
        None \<Rightarrow> SwprioNoMemory []
      | Some addr \<Rightarrow>
          (case swprio_init_queues (take PRS_MAX_TASK_PRIO queue_memories) [] of
             Inl created \<Rightarrow> SwprioNoMemory (concat (map prs_mpsciq_destroy created) @ [addr])
           | Inr qs \<Rightarrow>
               (case prs_mpsciq_create ud_remove_node removeq_memory of
                  None \<Rightarrow> SwprioFatal
                | Some removeq \<Rightarrow>
                    SwprioReady \<lparr>sp_addr = addr, sp_ready_mask = 0, sp_readyq = qs, sp_removeq = removeq\<rparr>)))"

definition prs_sched_swprio_uninit :: "prs_sched_swprio \<Rightarrow> ptr list \<times> prs_result" where
  "prs_sched_swprio_uninit sp =
     (prs_mpsciq_destroy (sp_removeq sp) @ concat (map prs_mpsciq_destroy (sp_readyq sp)) @ [sp_addr sp], PRS_OK)"

section \<open>The next task\<close>

text \<open>Taking a removed task out of the ready queue of its priority, if it is there; \<open>None\<close> if a
  queue loop does not end. The accesses to \<^verbatim>\<open>readyq[prio]\<close> are undefined for a priority of 32 and more.\<close>

definition swprio_unready :: "sp_state \<Rightarrow> ptr \<Rightarrow> nat \<Rightarrow> sp_state option" where
  "swprio_unready s ud prio =
     (let (w, sp) = s in
      Option.bind (prs_mpsciq_is_inserted (sw_nodes w, sp_readyq sp ! prio) (ud + ud_ready_node))
        (\<lambda>((m, q), inserted).
           if \<not> inserted then Some (w\<lparr>sw_nodes := m\<rparr>, sp_set_readyq sp prio q)
           else Option.bind (prs_mpsciq_remove (m, q) (ud + ud_ready_node))
             (\<lambda>(m, q). Option.bind (prs_mpsciq_begin (m, q))
                (\<lambda>((m, q), node).
                   if node \<noteq> 0 then Some (w\<lparr>sw_nodes := m\<rparr>, sp_set_readyq sp prio q)
                   else (let sp = sp_mask_clear sp prio in
                         Option.bind (prs_mpsciq_begin (m, q))
                           (\<lambda>((m, q), node).
                              Some (w\<lparr>sw_nodes := m\<rparr>,
                                if node \<noteq> 0 then sp_mask_or (sp_set_readyq sp prio q) prio
                                else sp_set_readyq sp prio q)))))))"

text \<open>The loop over the tasks to remove. The result says whether it went through; it stops at the
  current task.\<close>

partial_function (option) swprio_remove_loop ::
  "sched_world god_ops \<Rightarrow> sched_world god_world \<Rightarrow> prs_sched_swprio \<Rightarrow> ptr \<Rightarrow> ptr
    \<Rightarrow> (sched_world god_world \<times> prs_sched_swprio \<times> bool) option" where
  "swprio_remove_loop ops_of s sp current_task remove_node =
     (if remove_node = 0 then Some (s, sp, True)
      else
        (let (god, w) = s;
             ud = prs_mpsciq_get_data (sp_removeq sp) remove_node;
             removed_task = sw_udtask w ud
         in if current_task = removed_task then Some (s, sp, False)
            else Option.bind (swprio_unready (w, sp) ud (unat (task_prio (sw_tasks w removed_task))))
              (\<lambda>(w, sp).
                 let w = sw_change_state w removed_task PRS_TASK_STATE_ZOMBIE;
                     w = sw_set_task w removed_task ((sw_tasks w removed_task)\<lparr>task_sched_userdata := 0\<rparr>)
                 in Option.bind (prs_mpsciq_remove (sw_nodes w, sp_removeq sp) remove_node)
                   (\<lambda>(m, q).
                      let sp = sp\<lparr>sp_removeq := q\<rparr>;
                          w = w\<lparr>sw_nodes := m, sw_freed := sw_freed w @ [ud]\<rparr>;
                          (god, w) = prs_god_unlock ops_of (god, w) (task_id (sw_tasks w removed_task))
                      in Option.bind (prs_mpsciq_begin (sw_nodes w, sp_removeq sp))
                        (\<lambda>((m, q), remove_node).
                           swprio_remove_loop ops_of (god, w\<lparr>sw_nodes := m\<rparr>) (sp\<lparr>sp_removeq := q\<rparr>)
                             current_task remove_node)))))"

declare swprio_remove_loop.simps [code]

text \<open>The loop over the ready mask: the priority and the node found.\<close>

partial_function (option) swprio_select ::
  "sp_state \<Rightarrow> prs_task_prio_t \<Rightarrow> (sp_state \<times> (nat \<times> ptr) option) option" where
  "swprio_select s ready_mask =
     (if ready_mask = 0 then Some (s, None)
      else
        (let (w, sp) = s;
             prio = nat (prs_bitops_lsb_uint32 ready_mask)
         in Option.bind (prs_mpsciq_begin (sw_nodes w, sp_readyq sp ! prio))
           (\<lambda>((m, q), node).
              if node \<noteq> 0 then Some ((w\<lparr>sw_nodes := m\<rparr>, sp_set_readyq sp prio q), Some (prio, node))
              else (let sp = sp_mask_clear sp prio in
                    Option.bind (prs_mpsciq_begin (m, q))
                      (\<lambda>((m, q), node).
                         if node \<noteq> 0 then
                           Some ((w\<lparr>sw_nodes := m\<rparr>, sp_mask_or (sp_set_readyq sp prio q) prio), Some (prio, node))
                         else swprio_select (w\<lparr>sw_nodes := m\<rparr>, sp_set_readyq sp prio q)
                           (ready_mask AND NOT (push_bit prio 1)))))))"

declare swprio_select.simps [code]

text \<open>A task that is put at the end of the ready queue of its priority.\<close>

definition swprio_push_ready :: "sp_state \<Rightarrow> ptr \<Rightarrow> sp_state" where
  "swprio_push_ready s task =
     (let (w, sp) = s;
          t = sw_tasks w task;
          prio = unat (task_prio t);
          (m, q) = prs_mpsciq_push (sw_nodes w, sp_readyq sp ! prio) (task_sched_userdata t + ud_ready_node)
      in (w\<lparr>sw_nodes := m\<rparr>, sp_mask_or (sp_set_readyq sp prio q) prio))"

text \<open>The state, the decision flag and the next task: first what follows the removals.\<close>

definition swprio_decide ::
  "sched_world god_world \<Rightarrow> prs_sched_swprio \<Rightarrow> ptr
    \<Rightarrow> (sched_world god_world \<times> prs_sched_swprio \<times> bool \<times> ptr) option" where
  "swprio_decide s sp current_task =
     (let (god, w) = s in
      Option.bind (swprio_select (w, sp) (sp_ready_mask sp)) (\<lambda>((w, sp), found).
        case found of
          None \<Rightarrow> Some ((god, w), sp, True, if sched_is_running w current_task then current_task else 0)
        | Some (next_prio, node) \<Rightarrow>
            (let running = sched_is_running w current_task in
             if running \<and> \<not> unat (task_prio (sw_tasks w current_task)) > next_prio
             then Some ((god, w), sp, True, current_task)
             else
               (let (w, sp) = (if running
                     then (let (w, sp) = swprio_push_ready (w, sp) current_task
                           in (sw_change_state w current_task PRS_TASK_STATE_READY, sp))
                     else (w, sp));
                    readyq = sp_readyq sp ! next_prio;
                    userdata = prs_mpsciq_get_data readyq node
                in Option.bind (prs_mpsciq_remove (sw_nodes w, readyq) node) (\<lambda>(m, q).
                     let next_task = sw_udtask w userdata;
                         w = w\<lparr>sw_nodes := m\<rparr>
                     in Some ((god, sw_change_state w next_task PRS_TASK_STATE_RUNNING),
                          sp_set_readyq sp next_prio q, True, next_task))))))"

definition prs_sched_swprio_get_next ::
  "sched_world god_ops \<Rightarrow> sched_world god_world \<Rightarrow> prs_sched_swprio \<Rightarrow> ptr
    \<Rightarrow> (sched_world god_world \<times> prs_sched_swprio \<times> bool \<times> ptr) option" where
  "prs_sched_swprio_get_next ops_of s sp current_task =
     Option.bind (prs_mpsciq_begin (sw_nodes (snd s), sp_removeq sp)) (\<lambda>((m, q), remove_node).
     Option.bind (swprio_remove_loop ops_of (fst s, (snd s)\<lparr>sw_nodes := m\<rparr>) (sp\<lparr>sp_removeq := q\<rparr>)
       current_task remove_node) (\<lambda>(s, sp, done).
     if \<not> done then Some (s, sp, False, 0) else swprio_decide s sp current_task))"

section \<open>Ready, add, remove\<close>

text \<open>The loop over the workers: the state, the worker and its priority. The task that a worker runs is
  locked for the comparison.\<close>

definition swprio_lowest_step ::
  "sched_world god_ops \<Rightarrow> ptr \<Rightarrow> sched_world god_world \<times> ptr \<times> nat \<Rightarrow> sched_world god_world \<times> ptr \<times> nat" where
  "swprio_lowest_step ops_of worker acc =
     (let (s, lowest_worker, lowest_prio) = acc;
          current_task_id = sw_current (snd s) worker;
          (god, current_task) = (if current_task_id \<noteq> PRS_OBJECT_ID_INVALID
             then prs_god_lock (fst s) current_task_id else (fst s, 0));
          w = snd s;
          prio = unat (task_prio (sw_tasks w current_task));
          (lowest_worker, lowest_prio) =
            (if current_task = 0 then (worker, PRS_MAX_TASK_PRIO)
             else if prio > lowest_prio then (worker, prio)
             else (lowest_worker, lowest_prio));
          s = (if current_task \<noteq> 0 then prs_god_unlock ops_of (god, w) current_task_id else (god, w))
      in (s, lowest_worker, lowest_prio))"

definition prs_sched_swprio_ready ::
  "sched_world god_ops \<Rightarrow> sched_world god_world \<Rightarrow> prs_sched_swprio \<Rightarrow> ptr
    \<Rightarrow> sched_world god_world \<times> prs_sched_swprio \<times> prs_result" where
  "prs_sched_swprio_ready ops_of s sp task =
     (let (god, w) = s;
          (w, sp) = swprio_push_ready (w, sp) task;
          ((god, w), lowest_worker, lowest_prio) =
            fold (swprio_lowest_step ops_of) (sw_workers w) ((god, w), 0, 0);
          w = (if lowest_worker \<noteq> 0 \<and> unat (task_prio (sw_tasks w task)) < lowest_prio
               then w\<lparr>sw_interrupted := sw_interrupted w @ [lowest_worker]\<rparr> else w)
      in ((god, w), sp, PRS_OK))"

text \<open>The block is allocated zeroed, so its nodes are not linked.\<close>

definition prs_sched_swprio_add ::
  "sched_world god_ops \<Rightarrow> sched_world god_world \<Rightarrow> prs_sched_swprio \<Rightarrow> ptr \<Rightarrow> ptr option
    \<Rightarrow> sched_world god_world \<times> prs_sched_swprio \<times> prs_result" where
  "prs_sched_swprio_add ops_of s sp task memory =
     (case memory of
        None \<Rightarrow> (s, sp, PRS_OUT_OF_MEMORY)
      | Some userdata \<Rightarrow>
          (let (god, w) = s;
               w = w\<lparr>sw_nodes := ud_zeroed userdata (sw_nodes w)\<rparr>;
               w = sw_set_task w task ((sw_tasks w task)\<lparr>task_sched_userdata := userdata\<rparr>);
               w = w\<lparr>sw_udtask := (sw_udtask w)(userdata := task)\<rparr>;
               (god, _) = prs_god_lock god (task_id (sw_tasks w task));
               w = sw_change_state w task PRS_TASK_STATE_READY
           in prs_sched_swprio_ready ops_of (god, w) sp task))"

definition prs_sched_swprio_remove ::
  "sched_world \<Rightarrow> prs_sched_swprio \<Rightarrow> ptr \<Rightarrow> sched_world \<times> prs_sched_swprio \<times> prs_result" where
  "prs_sched_swprio_remove w sp task =
     (let prev_state = prs_task_get_state (sw_tasks w task) in
      if prev_state \<noteq> task_state_code PRS_TASK_STATE_STOPPED then
        (let userdata = task_sched_userdata (sw_tasks w task);
             w = sw_change_state w task PRS_TASK_STATE_STOPPED;
             (m, q) = prs_mpsciq_push (sw_nodes w, sp_removeq sp) (userdata + ud_remove_node);
             w = w\<lparr>sw_nodes := m\<rparr>;
             sp = sp\<lparr>sp_removeq := q\<rparr>;
             w = (if prev_state = task_state_code PRS_TASK_STATE_RUNNING
                  then sched_interrupt_running w (task_id (sw_tasks w task)) else w)
         in (w, sp, PRS_OK))
      else (w, sp, PRS_OK))"

section \<open>Schedulers in memory\<close>

text \<open>\<open>U\<close> is the set of the blocks of the scheduler's tasks, \<open>rq\<close> gives the ready queue of
  every priority and \<open>rem\<close> the queue of the tasks to remove, all as blocks, oldest first.\<close>

definition sp_rep ::
  "ptr set \<Rightarrow> prs_mpsciq_nodes \<Rightarrow> prs_sched_swprio \<Rightarrow> (nat \<Rightarrow> ptr list) \<Rightarrow> ptr list \<Rightarrow> bool" where
  "sp_rep U m sp rq rem \<longleftrightarrow>
     length (sp_readyq sp) = 32 \<and> ud_blocks U \<and> set rem \<subseteq> U
     \<and> udq m (sp_removeq sp) ud_remove_node rem
     \<and> (\<forall>i < 32. set (rq i) \<subseteq> U \<and> udq m (sp_readyq sp ! i) ud_ready_node (rq i)
          \<and> (rq i \<noteq> [] \<longrightarrow> bit (sp_ready_mask sp) i))
     \<and> (\<forall>i < 32. \<forall>j < 32. i \<noteq> j \<longrightarrow> set (rq i) \<inter> set (rq j) = {})
     \<and> (\<forall>u \<in> U. u \<notin> set rem \<longrightarrow> iq_unlinked m (u + ud_remove_node))
     \<and> (\<forall>u \<in> U. (\<forall>i < 32. u \<notin> set (rq i)) \<longrightarrow> iq_unlinked m (u + ud_ready_node))"

lemma sp_mask_bits [simp]:
  "bit (sp_ready_mask (sp_mask_or sp i)) j \<longleftrightarrow> bit (sp_ready_mask sp) j \<or> j = i \<and> i < 32"
  "bit (sp_ready_mask (sp_mask_clear sp i)) j \<longleftrightarrow> bit (sp_ready_mask sp) j \<and> j \<noteq> i"
  by (auto simp: sp_mask_or_def sp_mask_clear_def atomic_fetch_or_def atomic_fetch_and_def bit_simps
      dest: bit_imp_le_length)

lemma sp_mask_fields [simp]:
  "sp_readyq (sp_mask_or sp i) = sp_readyq sp" "sp_removeq (sp_mask_or sp i) = sp_removeq sp"
  "sp_readyq (sp_mask_clear sp i) = sp_readyq sp" "sp_removeq (sp_mask_clear sp i) = sp_removeq sp"
  "sp_ready_mask (sp_set_readyq sp i q) = sp_ready_mask sp" "sp_removeq (sp_set_readyq sp i q) = sp_removeq sp"
  "sp_readyq (sp_set_readyq sp i q) = (sp_readyq sp)[i := q]"
  by (simp_all add: sp_mask_or_def sp_mask_clear_def sp_set_readyq_def)

lemma sp_rep_queue: "sp_rep U m sp rq rem \<Longrightarrow> i < 32 \<Longrightarrow> udq m (sp_readyq sp ! i) ud_ready_node (rq i)"
  by (simp add: sp_rep_def)

lemma sp_repD:
  assumes "sp_rep U m sp rq rem"
  shows "length (sp_readyq sp) = 32" and "ud_blocks U" and "set rem \<subseteq> U"
    and "udq m (sp_removeq sp) ud_remove_node rem"
    and "\<And>i. i < 32 \<Longrightarrow> set (rq i) \<subseteq> U"
    and "\<And>i. i < 32 \<Longrightarrow> udq m (sp_readyq sp ! i) ud_ready_node (rq i)"
    and "\<And>i. i < 32 \<Longrightarrow> rq i \<noteq> [] \<Longrightarrow> bit (sp_ready_mask sp) i"
    and "\<And>i j. i < 32 \<Longrightarrow> j < 32 \<Longrightarrow> i \<noteq> j \<Longrightarrow> set (rq i) \<inter> set (rq j) = {}"
    and "\<And>u. u \<in> U \<Longrightarrow> u \<notin> set rem \<Longrightarrow> iq_unlinked m (u + ud_remove_node)"
    and "\<And>u. u \<in> U \<Longrightarrow> \<forall>i < 32. u \<notin> set (rq i) \<Longrightarrow> iq_unlinked m (u + ud_ready_node)"
  using assms unfolding sp_rep_def by blast+

text \<open>An operation on one ready queue that writes only nodes of blocks that are in no other.\<close>

lemma sp_rep_ready:
  assumes "sp_rep U m sp rq rem" and "i < 32" and "udq m' q ud_ready_node us"
    and "iq_same_outside (ud_nodes ud_ready_node vs) m m'" and "set us \<subseteq> set vs" and "set vs \<subseteq> U"
    and "\<forall>j < 32. j \<noteq> i \<longrightarrow> set vs \<inter> set (rq j) = {}"
    and "set (rq i) \<subseteq> set vs" and "\<forall>u \<in> set vs - set us. iq_unlinked m' (u + ud_ready_node)"
    and "us \<noteq> [] \<longrightarrow> bit (sp_ready_mask sp') i"
    and "\<forall>j. j \<noteq> i \<longrightarrow> bit (sp_ready_mask sp') j = bit (sp_ready_mask sp) j"
    and "sp_readyq sp' = (sp_readyq sp)[i := q]" and "sp_removeq sp' = sp_removeq sp"
  shows "sp_rep U m' sp' (rq(i := us)) rem"
proof -
  note r = sp_repD [OF assms(1)]
  have blocks: "u + ud_ready_node \<noteq> v + ud_remove_node" if "u \<in> set vs" "v \<in> U" for u v
    using r(2) assms(6) that unfolding ud_blocks_def by blast
  have removeq: "udq m' (sp_removeq sp) ud_remove_node rem"
  proof (rule udq_frame [OF _ assms(4)])
    show "udq m (sp_removeq sp) ud_remove_node rem" by (rule r(4))
    show "ud_nodes ud_ready_node vs \<inter> ud_nodes ud_remove_node rem = {}" using r(3) blocks by blast
  qed
  have queue: "udq m' (sp_readyq sp ! j) ud_ready_node (rq j)" if "j < 32" "j \<noteq> i" for j
  proof (rule udq_frame [OF _ assms(4)])
    show "udq m (sp_readyq sp ! j) ud_ready_node (rq j)" using r(6) that by simp
    have "set vs \<inter> set (rq j) = {}" using assms(7) that by simp
    then show "ud_nodes ud_ready_node vs \<inter> ud_nodes ud_ready_node (rq j) = {}" by auto
  qed
  from queue have "set ((rq(i := us)) j) \<subseteq> U \<and> udq m' (sp_readyq sp' ! j) ud_ready_node ((rq(i := us)) j)
      \<and> ((rq(i := us)) j \<noteq> [] \<longrightarrow> bit (sp_ready_mask sp') j)" if "j < 32" for j
    using r(1,5,7) assms(2,3,5,6,10-12) that by (cases "j = i") simp_all
  note queues = this
  have "set us \<inter> set (rq j) = {}" if "j < 32" "j \<noteq> i" for j
    using assms(5,7) that by auto
  then have disj: "set ((rq(i := us)) j) \<inter> set ((rq(i := us)) k) = {}" if "j < 32" "k < 32" "j \<noteq> k" for j k
    using r(8) that by (cases "j = i"; cases "k = i") (simp_all add: Int_commute)
  note queues disj
  moreover have "iq_unlinked m' (u + ud_remove_node)" if "u \<in> U" "u \<notin> set rem" for u
  proof -
    have "u + ud_remove_node \<notin> ud_nodes ud_ready_node vs" using blocks that(1) by force
    then show ?thesis using r(9) that assms(4) by (simp add: iq_unlinked_def iq_same_outside_def)
  qed
  moreover have "iq_unlinked m' (u + ud_ready_node)" if "u \<in> U" "\<forall>j < 32. u \<notin> set ((rq(i := us)) j)" for u
  proof (cases "u \<in> set vs")
    case True
    then show ?thesis using that(2) assms(2,9) by (auto split: if_splits)
  next
    case False
    then have "u + ud_ready_node \<notin> ud_nodes ud_ready_node vs" by auto
    moreover have "\<forall>j < 32. u \<notin> set (rq j)" using False that(2) assms(8) by (auto split: if_splits)
    ultimately show ?thesis using r(10) that(1) assms(4) by (simp add: iq_unlinked_def iq_same_outside_def)
  qed
  ultimately show ?thesis
    using r(1-3) assms(12,13) removeq unfolding sp_rep_def by (simp del: fun_upd_apply)
qed

text \<open>An operation on the queue of the tasks to remove.\<close>

lemma sp_rep_remove:
  assumes "sp_rep U m sp rq rem" and "udq m' q ud_remove_node us"
    and "iq_same_outside (ud_nodes ud_remove_node vs) m m'" and "set us \<subseteq> set vs" and "set vs \<subseteq> U"
    and "set rem \<subseteq> set vs" and "\<forall>u \<in> set vs - set us. iq_unlinked m' (u + ud_remove_node)"
  shows "sp_rep U m' (sp\<lparr>sp_removeq := q\<rparr>) rq us"
proof -
  note r = sp_repD [OF assms(1)]
  have blocks: "u + ud_ready_node \<noteq> v + ud_remove_node" if "u \<in> U" "v \<in> set vs" for u v
    using r(2) assms(5) that unfolding ud_blocks_def by blast
  have "udq m' (sp_readyq sp ! j) ud_ready_node (rq j)" if "j < 32" for j
  proof (rule udq_frame [OF _ assms(3)])
    show "udq m (sp_readyq sp ! j) ud_ready_node (rq j)" using r(6) that by simp
    have "u + ud_ready_node \<noteq> v + ud_remove_node" if "u \<in> set (rq j)" "v \<in> set vs" for u v
      using r(5) blocks that \<open>j < 32\<close> by blast
    then show "ud_nodes ud_remove_node vs \<inter> ud_nodes ud_ready_node (rq j) = {}" by fastforce
  qed
  moreover have "iq_unlinked m' (u + ud_ready_node)" if "u \<in> U" "\<forall>i < 32. u \<notin> set (rq i)" for u
  proof -
    have "u + ud_ready_node \<notin> ud_nodes ud_remove_node vs" using blocks that(1) by force
    then show ?thesis using r(10) that assms(3) by (simp add: iq_unlinked_def iq_same_outside_def)
  qed
  moreover have "iq_unlinked m' (u + ud_remove_node)" if "u \<in> U" "u \<notin> set us" for u
  proof (cases "u \<in> set vs")
    case True
    then show ?thesis using that(2) assms(7) by auto
  next
    case False
    then have "u + ud_remove_node \<notin> ud_nodes ud_remove_node vs" "u \<notin> set rem" using assms(6) by auto
    then show ?thesis using r(9) that(1) assms(3) by (simp add: iq_unlinked_def iq_same_outside_def)
  qed
  ultimately show ?thesis using r(1,2,5,7,8) assms(2) unfolding sp_rep_def
    by (simp add: subset_trans [OF assms(4,5)])
qed

lemma sp_rep_shrink: "sp_rep U m sp rq rem \<Longrightarrow> V \<subseteq> U \<Longrightarrow> set rem \<subseteq> V \<Longrightarrow> \<forall>i < 32. set (rq i) \<subseteq> V
    \<Longrightarrow> sp_rep V m sp rq rem"
  by (simp add: sp_rep_def ud_blocks_def subset_iff)

section \<open>The next task is the oldest of the highest priority\<close>

definition swprio_top :: "(nat \<Rightarrow> ptr list) \<Rightarrow> (nat \<times> ptr) option" where
  "swprio_top rq =
     (case filter (\<lambda>i. rq i \<noteq> []) [0 ..< 32] of [] \<Rightarrow> None | i # _ \<Rightarrow> Some (i, hd (rq i)))"

lemma swprio_top_Some:
  assumes "i < 32" and "rq i \<noteq> []" and "\<forall>j < i. rq j = []"
  shows "swprio_top rq = Some (i, hd (rq i))"
proof -
  have "[0 ..< 32] = [0 ..< i] @ i # [Suc i ..< 32]"
    using assms(1) upt_add_eq_append [of 0 i "32 - i"] upt_conv_Cons [of i 32] by simp
  then show ?thesis using assms(2,3) by (simp add: swprio_top_def)
qed

lemma swprio_top_None: "swprio_top rq = None \<longleftrightarrow> (\<forall>i < 32. rq i = [])"
proof -
  have "swprio_top rq = None \<longleftrightarrow> filter (\<lambda>i. rq i \<noteq> []) [0 ..< 32] = []"
    by (simp add: swprio_top_def split: list.split)
  then show ?thesis by (auto simp: filter_empty_conv)
qed

lemma swprio_topE:
  assumes "swprio_top rq = Some (i, u)"
  shows "i < 32" "rq i \<noteq> []" "u = hd (rq i)" "\<forall>j < i. rq j = []"
proof -
  obtain k where "k < 32" "rq k \<noteq> []" using assms swprio_top_None [of rq] by (metis option.distinct(1))
  then have ex: "\<exists>k. k < 32 \<and> rq k \<noteq> []" by blast
  define l where "l = (LEAST k. k < 32 \<and> rq k \<noteq> [])"
  have "l < 32" "rq l \<noteq> []" using LeastI_ex [OF ex] by (simp_all add: l_def)
  moreover have "\<forall>j < l. rq j = []" using not_less_Least \<open>l < 32\<close> unfolding l_def by fastforce
  ultimately show "i < 32" "rq i \<noteq> []" "u = hd (rq i)" "\<forall>j < i. rq j = []"
    using swprio_top_Some [of l rq] assms by auto
qed

lemma swprio_select_correct:
  assumes "sp_rep U (sw_nodes w) sp rq rem" and "\<forall>i < 32. rq i \<noteq> [] \<longrightarrow> bit M i"
  shows "\<exists>m' sp'. swprio_select (w, sp) M = Some ((w\<lparr>sw_nodes := m'\<rparr>, sp'),
      map_option (\<lambda>(i, u). (i, u + ud_ready_node)) (swprio_top rq))
    \<and> sp_rep U m' sp' rq rem"
  using assms
proof (induction "unat M" arbitrary: M w sp rule: less_induct)
  case less
  show ?case
  proof (cases "M = 0")
    case True
    then have "swprio_top rq = None" using less.prems(2) by (simp add: swprio_top_None)
    then show ?thesis
      using True less.prems(1) by (intro exI [of _ "sw_nodes w"] exI [of _ sp], subst swprio_select.simps) simp
  next
    case False
    obtain i where i: "prs_bitops_lsb M = int i" "i < 32" "bit M i" "\<forall>j < i. \<not> bit M j"
      using lsb_bit [OF False] by auto
    have lower: "\<forall>j < i. rq j = []" using less.prems(2) i(2,4) by (meson less_trans)
    note q0 = sp_rep_queue [OF less.prems(1) i(2)]
    obtain m1 q1 where b1: "prs_mpsciq_begin (sw_nodes w, sp_readyq sp ! i)
        = Some ((m1, q1), if rq i = [] then 0 else hd (rq i) + ud_ready_node)"
        "udq m1 q1 ud_ready_node (rq i)" "iq_same_outside (ud_nodes ud_ready_node (rq i)) (sw_nodes w) m1"
      by (rule udq_begin [OF q0])
    have sub: "set (rq i) \<subseteq> U" "\<forall>j < 32. j \<noteq> i \<longrightarrow> set (rq i) \<inter> set (rq j) = {}"
      using less.prems(1) i(2) by (auto simp: sp_rep_def)
    have same: "rq(i := rq i) = rq" by simp
    show ?thesis
    proof (cases "rq i = []")
      case ne: False
      then have nz: "hd (rq i) + ud_ready_node \<noteq> 0" using udq_distinct [OF q0] by (metis hd_in_set image_eqI)
      have "sp_rep U m1 (sp_set_readyq sp i q1) (rq(i := rq i)) rem"
        by (rule sp_rep_ready [OF less.prems(1) i(2) b1(2,3) subset_refl sub(1,2) subset_refl])
          (use less.prems(1) i(2) in \<open>auto simp: sp_rep_def\<close>)
      then have "sp_rep U m1 (sp_set_readyq sp i q1) rq rem" by simp
      then show ?thesis
        using False ne b1(1) nz i(1) swprio_top_Some [OF i(2) ne lower]
        by (intro exI [of _ m1] exI [of _ "sp_set_readyq sp i q1"], subst swprio_select.simps)
          (simp add: prs_bitops_lsb_uint32_def)
    next
      case e: True
      obtain m2 q2 where b2: "prs_mpsciq_begin (m1, q1) = Some ((m2, q2), if rq i = [] then 0 else hd (rq i) + ud_ready_node)"
          "udq m2 q2 ud_ready_node (rq i)" "iq_same_outside (ud_nodes ud_ready_node (rq i)) m1 m2"
        by (rule udq_begin [OF b1(2)])
      let ?sp = "sp_set_readyq (sp_mask_clear sp i) i q2" and ?M = "M AND NOT (push_bit i 1)"
      have out: "iq_same_outside (ud_nodes ud_ready_node (rq i)) (sw_nodes w) m2"
        using b1(3) b2(3) by (simp add: iq_same_outside_def)
      have "sp_rep U m2 ?sp (rq(i := rq i)) rem"
        by (rule sp_rep_ready [OF less.prems(1) i(2) b2(2) out subset_refl sub(1,2) subset_refl]) (use e in simp_all)
      then have rep: "sp_rep U m2 ?sp rq rem" by simp
      have bits: "\<forall>j < 32. rq j \<noteq> [] \<longrightarrow> bit ?M j" using less.prems(2) e by (auto simp: bit_simps)
      have lt: "unat ?M < unat M"
      proof -
        have "\<not> bit ?M i" by (simp add: bit_simps)
        then have "?M \<noteq> M" using i(3) by metis
        moreover have "?M \<le> M" by (rule word_and_le2)
        ultimately show ?thesis by (simp add: word_le_nat_alt word_unat_eq_iff)
      qed
      from less.hyps [OF lt, of "w\<lparr>sw_nodes := m2\<rparr>" ?sp] rep bits obtain m' sp' where
        "swprio_select (w\<lparr>sw_nodes := m2\<rparr>, ?sp) ?M = Some ((w\<lparr>sw_nodes := m'\<rparr>, sp'),
            map_option (\<lambda>(i, u). (i, u + ud_ready_node)) (swprio_top rq))" "sp_rep U m' sp' rq rem"
        by auto
      then show ?thesis
        using False e b1(1) b2(1) i(1)
        by (intro exI [of _ m'] exI [of _ sp'], subst swprio_select.simps)
          (simp add: prs_bitops_lsb_uint32_def)
    qed
  qed
qed

section \<open>Removing tasks\<close>

text \<open>Each block belongs to a task that points back to it, and its ready queue is that of the task's
  priority.\<close>

definition sp_link :: "ptr set \<Rightarrow> sched_world \<Rightarrow> (nat \<Rightarrow> ptr list) \<Rightarrow> bool" where
  "sp_link U w rq \<longleftrightarrow>
     (\<forall>u \<in> U. sw_udtask w u \<noteq> 0
        \<and> task_sched_userdata (sw_tasks w (sw_udtask w u)) = u
        \<and> unat (task_prio (sw_tasks w (sw_udtask w u))) < 32
        \<and> (\<forall>i < 32. u \<in> set (rq i) \<longrightarrow> i = unat (task_prio (sw_tasks w (sw_udtask w u)))))"

lemma swprio_unready_correct:
  assumes "sp_rep U (sw_nodes w) sp rq rem" and "p < 32"
  shows "\<exists>m' sp'. swprio_unready (w, sp) u p = Some (w\<lparr>sw_nodes := m'\<rparr>, sp')
    \<and> sp_rep U m' sp' (rq(p := filter (\<lambda>v. v \<noteq> u) (rq p))) rem"
proof -
  note q0 = sp_rep_queue [OF assms]
  have sub: "set (rq p) \<subseteq> U" "\<forall>j < 32. j \<noteq> p \<longrightarrow> set (rq p) \<inter> set (rq j) = {}"
    and bits: "rq p \<noteq> [] \<Longrightarrow> bit (sp_ready_mask sp) p"
    using assms by (auto simp: sp_rep_def)
  obtain m1 q1 where i1: "prs_mpsciq_is_inserted (sw_nodes w, sp_readyq sp ! p) (u + ud_ready_node)
      = Some ((m1, q1), u \<in> set (rq p))" "udq m1 q1 ud_ready_node (rq p)"
      "iq_same_outside (ud_nodes ud_ready_node (rq p)) (sw_nodes w) m1"
    by (rule udq_is_inserted [OF q0])
  show ?thesis
  proof (cases "u \<in> set (rq p)")
    case False
    then have same: "filter (\<lambda>v. v \<noteq> u) (rq p) = rq p" by (auto simp: filter_id_conv)
    have "sp_rep U m1 (sp_set_readyq sp p q1) (rq(p := rq p)) rem"
      by (rule sp_rep_ready [OF assms(1,2) i1(2,3) subset_refl sub subset_refl]) (use bits in simp_all)
    then show ?thesis using i1(1) False by (simp add: swprio_unready_def same) blast
  next
    case True
    have "distinct (rq p)" using udq_distinct [OF q0] by simp
    then obtain as bs where d: "rq p = as @ u # bs" "filter (\<lambda>v. v \<noteq> u) (rq p) = as @ bs"
      using True by (rule filter_neq_split)
    obtain m2 q2 where r2: "prs_mpsciq_remove (m1, q1) (u + ud_ready_node) = Some (m2, q2)"
        "udq m2 q2 ud_ready_node (as @ bs)" "iq_same_outside (ud_nodes ud_ready_node (as @ u # bs)) m1 m2"
        "iq_unlinked m2 (u + ud_ready_node)"
      using udq_remove [of m1 q1 ud_ready_node as u bs] i1(2) d(1) by metis
    obtain m3 q3 where b3: "prs_mpsciq_begin (m2, q2)
        = Some ((m3, q3), if as @ bs = [] then 0 else hd (as @ bs) + ud_ready_node)"
        "udq m3 q3 ud_ready_node (as @ bs)" "iq_same_outside (ud_nodes ud_ready_node (as @ bs)) m2 m3"
      by (rule udq_begin [OF r2(2)])
    have out3: "iq_same_outside (ud_nodes ud_ready_node (rq p)) (sw_nodes w) m3"
      using i1(3) r2(3) b3(3) unfolding d(1) iq_same_outside_def by auto
    have sub': "set (as @ bs) \<subseteq> set (rq p)" using d(1) by auto
    have u3: "iq_unlinked m3 (u + ud_ready_node)"
      by (rule iq_unlinked_frame [OF r2(4) b3(3)]) (use \<open>distinct (rq p)\<close> d(1) in auto)
    have only: "set (rq p) - set (as @ bs) = {u}" using \<open>distinct (rq p)\<close> d(1) by auto
    show ?thesis
    proof (cases "as @ bs = []")
      case ne: False
      then have nz: "hd (as @ bs) + ud_ready_node \<noteq> 0"
        using udq_distinct [OF b3(2)] by (metis hd_in_set image_eqI)
      have "sp_rep U m3 (sp_set_readyq sp p q3) (rq(p := as @ bs)) rem"
        by (rule sp_rep_ready [OF assms(1,2) b3(2) out3 sub' sub subset_refl]) (use bits d u3 only in simp_all)
      then show ?thesis using i1(1) True r2(1) b3(1) nz ne by (simp add: swprio_unready_def d(2)) blast
    next
      case e: True
      obtain m4 q4 where b4: "prs_mpsciq_begin (m3, q3)
          = Some ((m4, q4), if as @ bs = [] then 0 else hd (as @ bs) + ud_ready_node)"
          "udq m4 q4 ud_ready_node (as @ bs)" "iq_same_outside (ud_nodes ud_ready_node (as @ bs)) m3 m4"
        by (rule udq_begin [OF b3(2)])
      have out4: "iq_same_outside (ud_nodes ud_ready_node (rq p)) (sw_nodes w) m4"
        using out3 b4(3) e unfolding iq_same_outside_def by auto
      have u4: "iq_unlinked m4 (u + ud_ready_node)"
        by (rule iq_unlinked_frame [OF u3 b4(3)]) (use e in simp)
      have "sp_rep U m4 (sp_set_readyq (sp_mask_clear sp p) p q4) (rq(p := as @ bs)) rem"
        by (rule sp_rep_ready [OF assms(1,2) b4(2) out4 sub' sub subset_refl]) (use e u4 only in simp_all)
      then show ?thesis using i1(1) True r2(1) b3(1) b4(1) e by (simp add: swprio_unready_def d(2) Let_def) blast
    qed
  qed
qed

lemma sp_rep_cong: "\<forall>i < 32. rq' i = rq i \<Longrightarrow> sp_rep U m sp rq rem \<Longrightarrow> sp_rep U m sp rq' rem"
  by (simp add: sp_rep_def)

lemma sp_link_inj: "sp_link U w rq \<Longrightarrow> u \<in> U \<Longrightarrow> v \<in> U \<Longrightarrow> sw_udtask w u = sw_udtask w v \<Longrightarrow> u = v"
  unfolding sp_link_def by metis

lemma swprio_removed_link:
  assumes "sp_link U w rq" and "u \<in> U"
  shows "sp_link (U - {u}) (sched_removed w u\<lparr>sw_nodes := m\<rparr>) (\<lambda>i. filter (\<lambda>v. v \<noteq> u) (rq i))"
proof -
  have "sw_udtask w v \<noteq> sw_udtask w u" if "v \<in> U - {u}" for v
    using sp_link_inj [OF assms, of v] that by auto
  then show ?thesis using assms(1) by (auto simp: sp_link_def sched_removed_def Let_def)
qed

lemma swprio_remove_step:
  assumes "sched_quiet ops_of" and "sp_rep U (sw_nodes w) sp rq (u # rem)" and "sp_link U w rq"
    and "sw_udtask w u \<noteq> current"
  obtains m' sp' where
    "swprio_remove_loop ops_of (god, w) sp current (u + ud_remove_node) =
       swprio_remove_loop ops_of (god_release god (task_id (sw_tasks w (sw_udtask w u))),
           (sched_removed w u)\<lparr>sw_nodes := m'\<rparr>) sp' current
         (if rem = [] then 0 else hd rem + ud_remove_node)"
    and "sp_rep (U - {u}) m' sp' (\<lambda>i. filter (\<lambda>v. v \<noteq> u) (rq i)) rem"
proof -
  let ?t = "sw_udtask w u" and ?rq = "\<lambda>i. filter (\<lambda>v. v \<noteq> u) (rq i)"
  let ?p = "unat (task_prio (sw_tasks w ?t))"
  have uU: "u \<in> U" and sub: "set (u # rem) \<subseteq> U" and q: "udq (sw_nodes w) (sp_removeq sp) ud_remove_node (u # rem)"
    using assms(2) by (auto simp: sp_rep_def)
  have p: "?p < 32" and own: "\<forall>i < 32. u \<in> set (rq i) \<longrightarrow> i = ?p" using assms(3) uU by (auto simp: sp_link_def)
  have nz: "u + ud_remove_node \<noteq> 0" and du: "u \<notin> set rem" using udq_distinct [OF q] by auto
  obtain m1 sp1 where s1: "swprio_unready (w, sp) u ?p = Some (w\<lparr>sw_nodes := m1\<rparr>, sp1)"
      "sp_rep U m1 sp1 (rq(?p := ?rq ?p)) (u # rem)"
    using swprio_unready_correct [OF assms(2) p, of u] by blast
  have rep1: "sp_rep U m1 sp1 ?rq (u # rem)"
    by (rule sp_rep_cong [OF _ s1(2)]) (use own in \<open>auto simp: filter_id_conv\<close>)
  have q1: "udq m1 (sp_removeq sp1) ud_remove_node ([] @ u # rem)" using rep1 by (simp add: sp_rep_def)
  obtain m2 q2 where r2: "prs_mpsciq_remove (m1, sp_removeq sp1) (u + ud_remove_node) = Some (m2, q2)"
      "udq m2 q2 ud_remove_node ([] @ rem)" "iq_unlinked m2 (u + ud_remove_node)"
      "iq_same_outside (ud_nodes ud_remove_node ([] @ u # rem)) m1 m2"
    by (rule udq_remove [OF q1])
  have q2: "udq m2 q2 ud_remove_node rem" using r2(2) by simp
  obtain m3 q3 where b3: "prs_mpsciq_begin (m2, q2) = Some ((m3, q3), if rem = [] then 0 else hd rem + ud_remove_node)"
      "udq m3 q3 ud_remove_node rem" "iq_same_outside (ud_nodes ud_remove_node rem) m2 m3"
    by (rule udq_begin [OF q2])
  have out: "iq_same_outside (ud_nodes ud_remove_node (u # rem)) m1 m3"
    using r2(4) b3(3) unfolding iq_same_outside_def by auto
  have u3: "iq_unlinked m3 (u + ud_remove_node)"
    by (rule iq_unlinked_frame [OF r2(3) b3(3)]) (use du in simp)
  have "sp_rep U m3 (sp1\<lparr>sp_removeq := q3\<rparr>) ?rq rem"
    by (rule sp_rep_remove [OF rep1 b3(2) out _ sub]) (use u3 in auto)
  then have rep: "sp_rep (U - {u}) m3 (sp1\<lparr>sp_removeq := q3\<rparr>) ?rq rem"
    by (rule sp_rep_shrink) (use rep1 du in \<open>auto simp: sp_rep_def\<close>)
  have run: "swprio_remove_loop ops_of (god, w) sp current (u + ud_remove_node) =
       swprio_remove_loop ops_of (god_release god (task_id (sw_tasks w ?t)),
           (sched_removed w u)\<lparr>sw_nodes := m3\<rparr>) (sp1\<lparr>sp_removeq := q3\<rparr>) current
         (if rem = [] then 0 else hd rem + ud_remove_node)"
    using nz assms(4) s1(1) r2(1) b3(1)
    by (subst swprio_remove_loop.simps)
      (simp add: udq_get_data [OF q] sw_change_state_def sw_set_task_def sched_removed_def Let_def
        god_unlock_quiet [OF assms(1)] prs_task_change_state_def)
  show thesis by (rule that [OF run rep])
qed

text \<open>The loop ends, whether it goes through all tasks or stops at the current one.\<close>

lemma swprio_remove_loop_prefix:
  assumes "sched_quiet ops_of" and "sp_rep U (sw_nodes w) sp rq (us @ rem)" and "sp_link U w rq"
    and "\<forall>u \<in> set us. sw_udtask w u \<noteq> current"
  shows "\<exists>m' sp'. swprio_remove_loop ops_of (god, w) sp current
      (if us @ rem = [] then 0 else hd (us @ rem) + ud_remove_node)
    = swprio_remove_loop ops_of (fold (\<lambda>u g. god_release g (task_id (sw_tasks w (sw_udtask w u)))) us god,
        (sched_removed_all w us)\<lparr>sw_nodes := m'\<rparr>) sp' current (if rem = [] then 0 else hd rem + ud_remove_node)
    \<and> sp_rep (U - set us) m' sp' (\<lambda>i. filter (\<lambda>u. u \<notin> set us) (rq i)) rem
    \<and> sp_link (U - set us) ((sched_removed_all w us)\<lparr>sw_nodes := m'\<rparr>) (\<lambda>i. filter (\<lambda>u. u \<notin> set us) (rq i))"
  using assms(2-4)
proof (induction us arbitrary: U w sp rq god)
  case Nil
  then show ?case by (intro exI [of _ "sw_nodes w"] exI [of _ sp]) simp
next
  case (Cons u us)
  let ?rq = "\<lambda>i. filter (\<lambda>v. v \<noteq> u) (rq i)"
  have cur: "sw_udtask w u \<noteq> current" and rep: "sp_rep U (sw_nodes w) sp rq (u # us @ rem)"
    using Cons.prems by simp_all
  have uU: "u \<in> U" and "set us \<subseteq> U" and "u \<notin> set us"
    using rep udq_distinct [of "sw_nodes w" "sp_removeq sp" ud_remove_node "u # us @ rem"] by (auto simp: sp_rep_def)
  then have ne: "\<forall>v \<in> set us. sw_udtask w v \<noteq> sw_udtask w u" using sp_link_inj [OF Cons.prems(2)] by blast
  obtain m1 sp1 where s1: "swprio_remove_loop ops_of (god, w) sp current (u + ud_remove_node) =
       swprio_remove_loop ops_of (god_release god (task_id (sw_tasks w (sw_udtask w u))),
           (sched_removed w u)\<lparr>sw_nodes := m1\<rparr>) sp1 current
         (if us @ rem = [] then 0 else hd (us @ rem) + ud_remove_node)"
      "sp_rep (U - {u}) m1 sp1 ?rq (us @ rem)"
    by (rule swprio_remove_step [OF assms(1) rep Cons.prems(2) cur])
  let ?w = "(sched_removed w u)\<lparr>sw_nodes := m1\<rparr>"
  have link: "sp_link (U - {u}) ?w ?rq" by (rule swprio_removed_link [OF Cons.prems(2) uU])
  have rep1: "sp_rep (U - {u}) (sw_nodes ?w) sp1 ?rq (us @ rem)" using s1(2) by simp
  have cur1: "\<forall>v \<in> set us. sw_udtask ?w v \<noteq> current" using Cons.prems(3) by (simp add: sched_removed_fields)
  have ids: "fold (\<lambda>v g. god_release g (task_id (sw_tasks ?w (sw_udtask ?w v)))) us g
      = fold (\<lambda>v g. god_release g (task_id (sw_tasks w (sw_udtask w v)))) us g" for g
    by (rule fold_cong) (use ne in \<open>auto simp: sched_removed_fields\<close>)
  have sets: "U - {u} - set us = U - set (u # us)"
    "(\<lambda>i. filter (\<lambda>v. v \<notin> set us) (?rq i)) = (\<lambda>i. filter (\<lambda>v. v \<notin> set (u # us)) (rq i))"
    by (auto simp: fun_eq_iff intro: filter_cong)
  from Cons.IH [OF rep1 link cur1, of "god_release god (task_id (sw_tasks w (sw_udtask w u)))"]
  show ?case
    unfolding sets ids sched_removed_all_nodes using s1(1) by simp
qed

section \<open>One scheduling decision\<close>

lemma swprio_push_ready_correct:
  assumes "sp_rep U (sw_nodes w) sp rq rem" and "task_sched_userdata (sw_tasks w t) = c" and "c \<in> U"
    and "p = unat (task_prio (sw_tasks w t))" and "p < 32" and "\<forall>i < 32. c \<notin> set (rq i)"
  shows "\<exists>m' sp'. swprio_push_ready (w, sp) t = (w\<lparr>sw_nodes := m'\<rparr>, sp')
    \<and> sp_rep U m' sp' (rq(p := rq p @ [c])) rem"
proof -
  note r = sp_repD [OF assms(1)]
  have "iq_unlinked (sw_nodes w) (c + ud_ready_node)" using r(10) assms(3,6) by simp
  moreover have cp: "c \<notin> set (rq p)" using assms(5,6) by simp
  ultimately obtain m' q' where push: "prs_mpsciq_push (sw_nodes w, sp_readyq sp ! p) (c + ud_ready_node) = (m', q')"
      "udq m' q' ud_ready_node (rq p @ [c])" "iq_same_outside {c + ud_ready_node} (sw_nodes w) m'"
    using udq_push [OF r(6) [OF assms(5)]] by metis
  have out: "iq_same_outside (ud_nodes ud_ready_node (rq p @ [c])) (sw_nodes w) m'"
    using push(3) by (simp add: iq_same_outside_def)
  have sub: "set (rq p @ [c]) \<subseteq> U" using r(5) [OF assms(5)] assms(3) by simp
  have disj: "\<forall>j < 32. j \<noteq> p \<longrightarrow> set (rq p @ [c]) \<inter> set (rq j) = {}"
    using r(8) [OF assms(5)] assms(6) by auto
  have "sp_rep U m' (sp_mask_or (sp_set_readyq sp p q') p) (rq(p := rq p @ [c])) rem"
    by (rule sp_rep_ready [OF assms(1,5) push(2) out subset_refl sub disj]) (use assms(5) in auto)
  then show ?thesis using push(1) assms(2,4) by (simp add: swprio_push_ready_def Let_def) blast
qed

lemma swprio_take_correct:
  assumes "sp_rep U (sw_nodes w) sp rq rem" and "i < 32" and "rq i = u # us"
  shows "\<exists>m' q'. prs_mpsciq_remove (sw_nodes w, sp_readyq sp ! i) (u + ud_ready_node) = Some (m', q')
    \<and> sp_rep U m' (sp_set_readyq sp i q') (rq(i := us)) rem"
proof -
  note r = sp_repD [OF assms(1)]
  have q: "udq (sw_nodes w) (sp_readyq sp ! i) ud_ready_node ([] @ u # us)" using r(6) [OF assms(2)] assms(3) by simp
  obtain m' q' where rem: "prs_mpsciq_remove (sw_nodes w, sp_readyq sp ! i) (u + ud_ready_node) = Some (m', q')"
      "udq m' q' ud_ready_node ([] @ us)" "iq_unlinked m' (u + ud_ready_node)"
      "iq_same_outside (ud_nodes ud_ready_node ([] @ u # us)) (sw_nodes w) m'"
    by (rule udq_remove [OF q])
  have q': "udq m' q' ud_ready_node us"
    and out: "iq_same_outside (ud_nodes ud_ready_node (rq i)) (sw_nodes w) m'" using rem(2,4) assms(3) by simp_all
  have sub: "set us \<subseteq> set (rq i)" "\<forall>j < 32. j \<noteq> i \<longrightarrow> set (rq i) \<inter> set (rq j) = {}"
    using r(8) [OF assms(2)] assms(3) by auto
  have "sp_rep U m' (sp_set_readyq sp i q') (rq(i := us)) rem"
    by (rule sp_rep_ready [OF assms(1,2) q' out sub(1) r(5) [OF assms(2)] sub(2) subset_refl])
      (use r(7) [OF assms(2)] assms(3) rem(3) in auto)
  then show ?thesis using rem(1) by blast
qed

lemma sp_link_state [simp]: "sp_link U (sw_change_state w t st) rq = sp_link U w rq"
  by (simp add: sp_link_def)

lemma sp_link_nodes [simp]: "sp_link U (w\<lparr>sw_nodes := m\<rparr>) rq = sp_link U w rq"
  by (simp add: sp_link_def)

text \<open>The invariant: queues, links, and no running task in a queue.\<close>

definition sp_inv :: "ptr set \<Rightarrow> sched_world \<Rightarrow> prs_sched_swprio \<Rightarrow> (nat \<Rightarrow> ptr list) \<Rightarrow> ptr list \<Rightarrow> bool" where
  "sp_inv U w sp rq rem \<longleftrightarrow> sp_rep U (sw_nodes w) sp rq rem \<and> sp_link U w rq
     \<and> (\<forall>i < 32. \<forall>u \<in> set (rq i). \<not> sched_is_running w (sw_udtask w u))"

text \<open>The specification: with the queues and the running task (its priority and block), the queues
  afterwards and the block of the next task.\<close>

definition swprio_spec ::
  "(nat \<Rightarrow> ptr list) \<Rightarrow> (nat \<times> ptr) option \<Rightarrow> (nat \<Rightarrow> ptr list) \<times> ptr option" where
  "swprio_spec rq run =
     (case swprio_top rq of
        None \<Rightarrow> (rq, map_option snd run)
      | Some (i, u) \<Rightarrow>
          (case run of
             None \<Rightarrow> (rq(i := tl (rq i)), Some u)
           | Some (p, c) \<Rightarrow>
               if p \<le> i then (rq, Some c) else (rq(i := tl (rq i), p := rq p @ [c]), Some u)))"

text \<open>The running task that \<^verbatim>\<open>get_next\<close> is called with.\<close>

definition sp_running :: "sched_world \<Rightarrow> ptr \<Rightarrow> (nat \<times> ptr) option" where
  "sp_running w current =
     (if sched_is_running w current
      then Some (unat (task_prio (sw_tasks w current)), task_sched_userdata (sw_tasks w current)) else None)"

definition sp_task :: "sched_world \<Rightarrow> ptr option \<Rightarrow> ptr" where
  "sp_task w c = (case c of None \<Rightarrow> 0 | Some u \<Rightarrow> sw_udtask w u)"

lemma sp_invD:
  assumes "sp_inv U w sp rq rem"
  shows "sp_rep U (sw_nodes w) sp rq rem" and "sp_link U w rq"
    and "i < 32 \<Longrightarrow> u \<in> set (rq i) \<Longrightarrow> \<not> sched_is_running w (sw_udtask w u)"
  using assms by (simp_all add: sp_inv_def)

text \<open>Taking the first task of a queue out and running it.\<close>

lemma swprio_run_next:
  assumes "sp_inv U w sp rq rem" and "i < 32" and "rq i = u # us"
  shows "\<exists>m' q'. prs_mpsciq_remove (sw_nodes w, sp_readyq sp ! i) (u + ud_ready_node) = Some (m', q')
    \<and> sp_inv U (sw_change_state (w\<lparr>sw_nodes := m'\<rparr>) (sw_udtask w u) PRS_TASK_STATE_RUNNING)
        (sp_set_readyq sp i q') (rq(i := us)) rem"
proof -
  have rep: "sp_rep U (sw_nodes w) sp rq rem" and link: "sp_link U w rq"
    and run: "\<And>j v. j < 32 \<Longrightarrow> v \<in> set (rq j) \<Longrightarrow> \<not> sched_is_running w (sw_udtask w v)"
    using assms(1) by (auto simp: sp_inv_def)
  note r = sp_repD [OF rep]
  obtain m' q' where t: "prs_mpsciq_remove (sw_nodes w, sp_readyq sp ! i) (u + ud_ready_node) = Some (m', q')"
      "sp_rep U m' (sp_set_readyq sp i q') (rq(i := us)) rem"
    using swprio_take_correct [OF rep assms(2,3)] by blast
  have old: "v \<in> set (rq j) \<and> v \<noteq> u" if "j < 32" "v \<in> set ((rq(i := us)) j)" for j v
  proof (cases "j = i")
    case True
    then show ?thesis using that assms(3) udq_distinct [OF r(6) [OF assms(2)]] by auto
  next
    case False
    then show ?thesis using that assms(3) r(8) [OF assms(2) that(1)] by auto
  qed
  have uU: "u \<in> U" using r(5) [OF assms(2)] assms(3) by simp
  have "sp_link U w (rq(i := us))"
    unfolding sp_link_def
  proof (intro ballI conjI allI impI)
    fix v assume v: "v \<in> U"
    then show "sw_udtask w v \<noteq> 0" "task_sched_userdata (sw_tasks w (sw_udtask w v)) = v"
      "unat (task_prio (sw_tasks w (sw_udtask w v))) < 32" using link by (simp_all add: sp_link_def)
    fix j assume j: "j < (32 :: nat)" "v \<in> set ((rq(i := us)) j)"
    then show "j = unat (task_prio (sw_tasks w (sw_udtask w v)))"
      using link v old [OF j] by (simp add: sp_link_def)
  qed
  moreover have "\<not> sched_is_running (sw_change_state (w\<lparr>sw_nodes := m'\<rparr>) (sw_udtask w u) PRS_TASK_STATE_RUNNING)
      (sw_udtask w v)" if "j < 32" "v \<in> set ((rq(i := us)) j)" for j v
  proof -
    have "v \<in> U" using r(5) [OF that(1)] old [OF that] by blast
    then have "sw_udtask w v \<noteq> sw_udtask w u" using sp_link_inj [OF link _ uU] old [OF that] by blast
    then show ?thesis using run [OF that(1)] old [OF that] by simp
  qed
  ultimately show ?thesis using t by (auto simp: sp_inv_def)
qed

lemma sp_link_push:
  assumes "sp_link U w rq" and "p = unat (task_prio (sw_tasks w (sw_udtask w c)))"
  shows "sp_link U w (rq(p := rq p @ [c]))"
  unfolding sp_link_def
proof (intro ballI conjI allI impI)
  fix v assume v: "v \<in> U"
  then show "sw_udtask w v \<noteq> 0" "task_sched_userdata (sw_tasks w (sw_udtask w v)) = v"
    "unat (task_prio (sw_tasks w (sw_udtask w v))) < 32" using assms(1) by (simp_all add: sp_link_def)
  fix j assume j: "j < (32 :: nat)" "v \<in> set ((rq(p := rq p @ [c])) j)"
  show "j = unat (task_prio (sw_tasks w (sw_udtask w v)))"
  proof (cases "j = p \<and> v = c")
    case True
    then show ?thesis using assms(2) by simp
  next
    case False
    then have "v \<in> set (rq j)" using j(2) by (auto split: if_splits)
    then show ?thesis using assms(1) v j(1) by (simp add: sp_link_def)
  qed
qed

text \<open>A ready task is put at the end of its queue.\<close>

lemma swprio_enqueue_ready:
  assumes "sp_inv U w sp rq rem" and "c \<in> U" and "t = sw_udtask w c" and "p = unat (task_prio (sw_tasks w t))"
    and "\<forall>i < 32. c \<notin> set (rq i)" and "\<not> sched_is_running w t"
  shows "\<exists>m' sp'. swprio_push_ready (w, sp) t = (w\<lparr>sw_nodes := m'\<rparr>, sp')
    \<and> sp_inv U (w\<lparr>sw_nodes := m'\<rparr>) sp' (rq(p := rq p @ [c])) rem"
proof -
  note link = sp_invD(2) [OF assms(1)]
  have p: "p < 32" and t: "task_sched_userdata (sw_tasks w t) = c"
    using link assms(2-4) by (simp_all add: sp_link_def)
  obtain m' sp' where push: "swprio_push_ready (w, sp) t = (w\<lparr>sw_nodes := m'\<rparr>, sp')"
      "sp_rep U m' sp' (rq(p := rq p @ [c])) rem"
    using swprio_push_ready_correct [OF sp_invD(1) [OF assms(1)] t assms(2,4) p assms(5)] by blast
  have "sp_link U w (rq(p := rq p @ [c]))" using sp_link_push [OF link] assms(3,4) by simp
  moreover have "\<not> sched_is_running w (sw_udtask w v)"
    if "j < 32" "v \<in> set ((rq(p := rq p @ [c])) j)" for j v
    using sp_invD(3) [OF assms(1) that(1), of v] that(2) assms(3,6) by (auto split: if_splits)
  ultimately have "sp_inv U (w\<lparr>sw_nodes := m'\<rparr>) sp' (rq(p := rq p @ [c])) rem"
    using push(2) unfolding sp_inv_def by simp
  then show ?thesis using push(1) by blast
qed

text \<open>Putting a task that is not running into the ready queue of its priority.\<close>

lemma swprio_enqueue:
  assumes "sp_inv U w sp rq rem" and "c \<in> U" and "t = sw_udtask w c" and "p = unat (task_prio (sw_tasks w t))"
    and "\<forall>i < 32. c \<notin> set (rq i)" and "st \<noteq> PRS_TASK_STATE_RUNNING"
  shows "\<exists>m' sp'. swprio_push_ready (w, sp) t = (w\<lparr>sw_nodes := m'\<rparr>, sp')
    \<and> sp_inv U (sw_change_state (w\<lparr>sw_nodes := m'\<rparr>) t st) sp' (rq(p := rq p @ [c])) rem"
proof -
  have rep: "sp_rep U (sw_nodes w) sp rq rem" and link: "sp_link U w rq"
    and run: "\<And>j v. j < 32 \<Longrightarrow> v \<in> set (rq j) \<Longrightarrow> \<not> sched_is_running w (sw_udtask w v)"
    using assms(1) by (auto simp: sp_inv_def)
  have p: "p < 32" and t: "task_sched_userdata (sw_tasks w t) = c" "t \<noteq> 0"
    using link assms(2-4) by (simp_all add: sp_link_def)
  obtain m' sp' where push: "swprio_push_ready (w, sp) t = (w\<lparr>sw_nodes := m'\<rparr>, sp')"
      "sp_rep U m' sp' (rq(p := rq p @ [c])) rem"
    using swprio_push_ready_correct [OF rep t(1) assms(2,4) p assms(5)] by blast
  have link': "sp_link U w (rq(p := rq p @ [c]))" using sp_link_push [OF link] assms(3,4) by simp
  have idle: "\<not> sched_is_running (sw_change_state (w\<lparr>sw_nodes := m'\<rparr>) t st) (sw_udtask w v)"
    if "j < 32" "v \<in> set ((rq(p := rq p @ [c])) j)" for j v
    using run [OF that(1), of v] that(2) assms(3,6) by (auto split: if_splits)
  have "sp_inv U (sw_change_state (w\<lparr>sw_nodes := m'\<rparr>) t st) sp' (rq(p := rq p @ [c])) rem"
    unfolding sp_inv_def
  proof (intro conjI allI impI ballI)
    show "sp_rep U (sw_nodes (sw_change_state (w\<lparr>sw_nodes := m'\<rparr>) t st)) sp' (rq(p := rq p @ [c])) rem"
      using push(2) by simp
    show "sp_link U (sw_change_state (w\<lparr>sw_nodes := m'\<rparr>) t st) (rq(p := rq p @ [c]))" using link' by simp
  qed (use idle in simp)
  then show ?thesis using push(1) by blast
qed

lemma swprio_decide_correct:
  assumes "sp_inv U w sp rq []" and "current = 0 \<or> (\<exists>c \<in> U. sw_udtask w c = current)"
    and "swprio_spec rq (sp_running w current) = (rq', chosen)"
  shows "\<exists>w' sp'. swprio_decide (god, w) sp current = Some ((god, w'), sp', True, sp_task w chosen)
    \<and> sp_inv U w' sp' rq' [] \<and> (chosen \<noteq> None \<longrightarrow> sched_is_running w' (sp_task w chosen))
    \<and> sw_freed w' = sw_freed w \<and> sw_udtask w' = sw_udtask w
    \<and> (\<forall>t. t \<noteq> sp_task w chosen \<longrightarrow> t \<noteq> current \<longrightarrow> sw_tasks w' t = sw_tasks w t)"
proof -
  have rep: "sp_rep U (sw_nodes w) sp rq []" and link: "sp_link U w rq"
    and run: "\<And>j v. j < 32 \<Longrightarrow> v \<in> set (rq j) \<Longrightarrow> \<not> sched_is_running w (sw_udtask w v)"
    using assms(1) by (auto simp: sp_inv_def)
  have c: "task_sched_userdata (sw_tasks w current) \<in> U"
      "sw_udtask w (task_sched_userdata (sw_tasks w current)) = current"
    if "sched_is_running w current"
    using assms(2) that link by (auto simp: sched_is_running_def sp_link_def)
  let ?c = "task_sched_userdata (sw_tasks w current)" and ?p = "unat (task_prio (sw_tasks w current))"
  obtain m1 sp1 where sel: "swprio_select (w, sp) (sp_ready_mask sp) = Some ((w\<lparr>sw_nodes := m1\<rparr>, sp1),
      map_option (\<lambda>(i, u). (i, u + ud_ready_node)) (swprio_top rq))" "sp_rep U m1 sp1 rq []"
    using swprio_select_correct [OF rep] sp_repD(7) [OF rep] by blast
  let ?w = "w\<lparr>sw_nodes := m1\<rparr>"
  have inv1: "sp_inv U ?w sp1 rq []" using sel(2) assms(1) by (simp add: sp_inv_def)
  show ?thesis
  proof (cases "swprio_top rq")
    case None
    then show ?thesis
      using sel(1) inv1 assms(3) c
      by (auto simp: swprio_decide_def swprio_spec_def sp_running_def sp_task_def split: if_splits)
  next
    case (Some iu)
    obtain i u where iu: "iu = (i, u)" by fastforce
    note top = swprio_topE [OF Some [unfolded iu]]
    obtain us where us: "rq i = u # us" using top(2,3) by (cases "rq i") simp_all
    have unz: "sw_udtask w u \<noteq> 0" using link sp_repD(5) [OF rep top(1)] us by (simp add: sp_link_def)
    have get: "prs_mpsciq_get_data (sp_readyq sp1 ! i) (u + ud_ready_node) = u"
      by (rule udq_get_data [OF sp_repD(6) [OF sel(2) top(1)]])
    show ?thesis
    proof (cases "sched_is_running w current \<and> ?p \<le> i")
      case True
      then show ?thesis
        using sel(1) inv1 assms(3) c Some iu
        by (auto simp: swprio_decide_def swprio_spec_def sp_running_def sp_task_def)
    next
      case ahead: False
      show ?thesis
      proof (cases "sched_is_running w current")
        case False
        obtain m2 q2 where t: "prs_mpsciq_remove (sw_nodes ?w, sp_readyq sp1 ! i) (u + ud_ready_node) = Some (m2, q2)"
            "sp_inv U (sw_change_state (?w\<lparr>sw_nodes := m2\<rparr>) (sw_udtask ?w u) PRS_TASK_STATE_RUNNING)
              (sp_set_readyq sp1 i q2) (rq(i := us)) []"
          using swprio_run_next [OF inv1 top(1) us] by blast
        let ?w2 = "sw_change_state (?w\<lparr>sw_nodes := m2\<rparr>) (sw_udtask ?w u) PRS_TASK_STATE_RUNNING"
        have "swprio_decide (god, w) sp current = Some ((god, ?w2), sp_set_readyq sp1 i q2, True, sw_udtask w u)"
          using sel(1) t(1) Some iu False get by (simp add: swprio_decide_def Let_def)
        moreover have "rq' = rq(i := us)" "chosen = Some u"
          using assms(3) Some iu False us by (auto simp: swprio_spec_def sp_running_def)
        moreover have "sched_is_running ?w2 (sw_udtask w u)" using unz by simp
        moreover have "sw_tasks ?w2 t = sw_tasks w t" if "t \<noteq> sw_udtask w u" for t
          using that by (simp add: sw_change_state_def sw_set_task_def)
        ultimately show ?thesis
          using t(2) by (intro exI [of _ ?w2] exI [of _ "sp_set_readyq sp1 i q2"]) (simp add: sp_task_def)
      next
        case True
        have out: "\<forall>j < 32. ?c \<notin> set (rq j)" using run c(2) [OF True] True by metis
        obtain m2 sp2 where push: "swprio_push_ready (?w, sp1) current = (?w\<lparr>sw_nodes := m2\<rparr>, sp2)"
            "sp_inv U (sw_change_state (?w\<lparr>sw_nodes := m2\<rparr>) current PRS_TASK_STATE_READY) sp2 (rq(?p := rq ?p @ [?c])) []"
          using swprio_enqueue [OF inv1 c(1) [OF True], of current ?p PRS_TASK_STATE_READY] c(2) [OF True] out by auto
        let ?w2 = "sw_change_state (?w\<lparr>sw_nodes := m2\<rparr>) current PRS_TASK_STATE_READY"
        have pi: "?p \<noteq> i" using ahead True by auto
        then have us2: "(rq(?p := rq ?p @ [?c])) i = u # us" using us by simp
        obtain m3 q3 where t: "prs_mpsciq_remove (sw_nodes ?w2, sp_readyq sp2 ! i) (u + ud_ready_node) = Some (m3, q3)"
            "sp_inv U (sw_change_state (?w2\<lparr>sw_nodes := m3\<rparr>) (sw_udtask ?w2 u) PRS_TASK_STATE_RUNNING)
              (sp_set_readyq sp2 i q3) (rq(?p := rq ?p @ [?c], i := us)) []"
          using swprio_run_next [OF push(2) top(1) us2] by blast
        let ?w3 = "sw_change_state (?w2\<lparr>sw_nodes := m3\<rparr>) (sw_udtask ?w2 u) PRS_TASK_STATE_RUNNING"
        have get2: "prs_mpsciq_get_data (sp_readyq sp2 ! i) (u + ud_ready_node) = u"
          by (rule udq_get_data [OF sp_repD(6) [OF sp_invD(1) [OF push(2)] top(1)]])
        have "swprio_decide (god, w) sp current = Some ((god, ?w3), sp_set_readyq sp2 i q3, True, sw_udtask w u)"
          using sel(1) t(1) Some iu True ahead get2 push(1) by (simp add: swprio_decide_def Let_def)
        moreover have "rq' = rq(?p := rq ?p @ [?c], i := us)" "chosen = Some u"
          using assms(3) Some iu True us ahead pi by (auto simp: swprio_spec_def sp_running_def fun_upd_twist)
        moreover have "sched_is_running ?w3 (sw_udtask w u)" using unz by simp
        moreover have "sw_tasks ?w3 t = sw_tasks w t" if "t \<noteq> sw_udtask w u" "t \<noteq> current" for t
          using that by (simp add: sw_change_state_def sw_set_task_def)
        ultimately show ?thesis
          using t(2) by (intro exI [of _ ?w3] exI [of _ "sp_set_readyq sp2 i q3"]) (simp add: sp_task_def)
      qed
    qed
  qed
qed

text \<open>The first call of the remove loop.\<close>

lemma swprio_get_next_begin:
  assumes "sp_rep U (sw_nodes w) sp rq rem"
  obtains m1 sp1 where "sp_rep U m1 sp1 rq rem"
    and "prs_sched_swprio_get_next ops_of (god, w) sp current =
      Option.bind (swprio_remove_loop ops_of (god, w\<lparr>sw_nodes := m1\<rparr>) sp1 current
        (if rem = [] then 0 else hd rem + ud_remove_node))
      (\<lambda>(s, sp, done). if \<not> done then Some (s, sp, False, 0) else swprio_decide s sp current)"
proof -
  obtain m1 q1 where b: "prs_mpsciq_begin (sw_nodes w, sp_removeq sp)
      = Some ((m1, q1), if rem = [] then 0 else hd rem + ud_remove_node)"
      "udq m1 q1 ud_remove_node rem" "iq_same_outside (ud_nodes ud_remove_node rem) (sw_nodes w) m1"
    by (rule udq_begin [OF sp_repD(4) [OF assms]])
  have "sp_rep U m1 (sp\<lparr>sp_removeq := q1\<rparr>) rq rem"
    by (rule sp_rep_remove [OF assms b(2,3)]) (use sp_repD(3) [OF assms] in auto)
  then show thesis by (rule that) (simp add: prs_sched_swprio_get_next_def b(1))
qed

lemma sp_inv_removed:
  assumes "sp_inv U w sp rq rem" and "rem = us @ vs"
    and "sp_rep (U - set us) m sp' (\<lambda>i. filter (\<lambda>u. u \<notin> set us) (rq i)) vs"
    and "sp_link (U - set us) ((sched_removed_all w us)\<lparr>sw_nodes := m\<rparr>) (\<lambda>i. filter (\<lambda>u. u \<notin> set us) (rq i))"
  shows "sp_inv (U - set us) ((sched_removed_all w us)\<lparr>sw_nodes := m\<rparr>) sp' (\<lambda>i. filter (\<lambda>u. u \<notin> set us) (rq i)) vs"
proof -
  have rep: "sp_rep U (sw_nodes w) sp rq rem" and link: "sp_link U w rq" using assms(1) by (simp_all add: sp_inv_def)
  have sub: "set us \<subseteq> U" using sp_repD(3) [OF rep] assms(2) by simp
  have "\<not> sched_is_running (sched_removed_all w us) (sw_udtask w u)"
    if "i < 32" "u \<in> set (rq i)" "u \<notin> set us" for i u
  proof -
    have "u \<in> U" using sp_repD(5) [OF rep that(1)] that(2) by blast
    then have "sw_udtask w u \<notin> sw_udtask w ` set us" using sp_link_inj [OF link] sub that(3) by blast
    then show ?thesis using assms(1) that(1,2) by (simp add: sp_inv_def sched_removed_all_running)
  qed
  then show ?thesis using assms(3,4) by (simp add: sp_inv_def sched_removed_all_fields)
qed

section \<open>New tasks\<close>

lemma swprio_init_queues_ok:
  "swprio_init_queues (map Some addrs) qs = Inr (qs @ map (\<lambda>a. the (prs_mpsciq_create ud_ready_node (Some a))) addrs)"
  by (induction addrs arbitrary: qs) (simp_all add: prs_mpsciq_create_def)

lemma swprio_init_ready:
  assumes "length addrs = 32"
  shows "\<exists>sp. prs_sched_swprio_init (Some addr) (map Some addrs) (Some a) = SwprioReady sp"
proof -
  have "\<exists>q. prs_mpsciq_create ud_remove_node (Some a) = Some q" by (simp add: prs_mpsciq_create_def)
  then show ?thesis
    using assms by (auto simp: prs_sched_swprio_init_def PRS_MAX_TASK_PRIO_def swprio_init_queues_ok take_map)
qed

lemma swprio_init_inv:
  assumes "prs_sched_swprio_init (Some addr) (map Some addrs) (Some a) = SwprioReady sp" and "length addrs = 32"
  shows "sp_inv {} w sp (\<lambda>_. []) []"
proof -
  have len: "length (take 32 addrs) = 32" using assms(2) by simp
  have sp: "sp_readyq sp = map (\<lambda>a. the (prs_mpsciq_create ud_ready_node (Some a))) addrs"
      "sp_removeq sp = the (prs_mpsciq_create ud_remove_node (Some a))"
    using assms by (auto simp: prs_sched_swprio_init_def PRS_MAX_TASK_PRIO_def swprio_init_queues_ok take_map
        split: option.splits)
  have "udq m (the (prs_mpsciq_create off (Some a))) off []" for m off a
    by (rule udq_create [of off a]) (simp add: prs_mpsciq_create_def)
  then show ?thesis using assms(2) by (simp add: sp_inv_def sp_rep_def sp_link_def sp ud_blocks_def)
qed

text \<open>A zeroed block that overlaps no other joins the blocks.\<close>

lemma sp_inv_new_block:
  assumes "sp_inv U w sp rq rem" and "u \<notin> U" and "ud_blocks (insert u U)"
    and "u + ud_ready_node \<noteq> 0" and "u + ud_remove_node \<noteq> 0"
    and "t \<noteq> 0" and "t \<notin> sw_udtask w ` U" and "unat (task_prio (sw_tasks w t)) < 32"
  shows "sp_inv (insert u U) (w\<lparr>sw_nodes := ud_zeroed u (sw_nodes w),
      sw_tasks := (sw_tasks w)(t := (sw_tasks w t)\<lparr>task_sched_userdata := u\<rparr>),
      sw_udtask := (sw_udtask w)(u := t)\<rparr>) sp rq rem"
proof -
  let ?m = "ud_zeroed u (sw_nodes w)" and ?A = "{u + ud_ready_node, u + ud_remove_node}"
  note rep = sp_invD(1) [OF assms(1)] and link = sp_invD(2) [OF assms(1)]
  note r = sp_repD [OF rep]
  have out: "iq_same_outside ?A (sw_nodes w) ?m" by (auto simp: iq_same_outside_def ud_zeroed_def)
  have un: "iq_unlinked ?m (u + ud_ready_node)" "iq_unlinked ?m (u + ud_remove_node)"
    using assms(4,5) by (auto simp: iq_unlinked_def ud_zeroed_def)
  have apart: "v + ud_ready_node \<notin> ?A" "v + ud_remove_node \<notin> ?A" if "v \<in> U" for v
  proof -
    have "v \<noteq> u" using assms(2) that by blast
    moreover have "v + ud_ready_node \<noteq> u + ud_remove_node" "u + ud_ready_node \<noteq> v + ud_remove_node"
      using assms(3) that unfolding ud_blocks_def by blast+
    ultimately show "v + ud_ready_node \<notin> ?A" "v + ud_remove_node \<notin> ?A" by auto
  qed
  have q: "udq ?m (sp_readyq sp ! i) ud_ready_node (rq i)" if "i < 32" for i
  proof (rule udq_frame [OF r(6) [OF that] out])
    show "?A \<inter> ud_nodes ud_ready_node (rq i) = {}"
      using apart(1) [OF subsetD [OF r(5) [OF that]]] unfolding disjoint_iff by (metis (no_types, lifting) imageE)
  qed
  have qr: "udq ?m (sp_removeq sp) ud_remove_node rem"
  proof (rule udq_frame [OF r(4) out])
    show "?A \<inter> ud_nodes ud_remove_node rem = {}"
      using apart(2) [OF subsetD [OF r(3)]] unfolding disjoint_iff by (metis (no_types, lifting) imageE)
  qed
  have fr: "u \<notin> set (rq i)" if "i < 32" for i using r(5) [OF that] assms(2) by blast
  have ur: "iq_unlinked ?m (v + ud_ready_node)" if "v \<in> insert u U" "\<forall>i < 32. v \<notin> set (rq i)" for v
  proof (cases "v = u")
    case False
    then have "v \<in> U" using that(1) by simp
    then show ?thesis using iq_unlinked_frame [OF r(10) [OF _ that(2)] out apart(1)] by simp
  qed (use un in simp)
  have um: "iq_unlinked ?m (v + ud_remove_node)" if "v \<in> insert u U" "v \<notin> set rem" for v
  proof (cases "v = u")
    case False
    then have "v \<in> U" using that(1) by simp
    then show ?thesis using iq_unlinked_frame [OF r(9) [OF _ that(2)] out apart(2)] by simp
  qed (use un in simp)
  have "sp_rep (insert u U) ?m sp rq rem"
    unfolding sp_rep_def
    using r(1,7,8) assms(3) qr q subset_insertI2 [OF r(3)] subset_insertI2 [OF r(5)]
    by (intro conjI) (blast intro: ur um)+
  note rep' = this
  let ?w = "w\<lparr>sw_nodes := ?m, sw_tasks := (sw_tasks w)(t := (sw_tasks w t)\<lparr>task_sched_userdata := u\<rparr>),
      sw_udtask := (sw_udtask w)(u := t)\<rparr>"
  have ne: "sw_udtask w v \<noteq> t" "v \<noteq> u" if "v \<in> U" for v using that assms(2,7) by auto
  have link': "sp_link (insert u U) ?w rq"
    unfolding sp_link_def
  proof
    fix v assume v: "v \<in> insert u U"
    show "sw_udtask ?w v \<noteq> 0 \<and> task_sched_userdata (sw_tasks ?w (sw_udtask ?w v)) = v
      \<and> unat (task_prio (sw_tasks ?w (sw_udtask ?w v))) < 32
      \<and> (\<forall>i < 32. v \<in> set (rq i) \<longrightarrow> i = unat (task_prio (sw_tasks ?w (sw_udtask ?w v))))"
    proof (cases "v = u")
      case True
      then show ?thesis using assms(6,8) fr by simp
    next
      case False
      then have "v \<in> U" using v by simp
      then show ?thesis using ne(1) [OF \<open>v \<in> U\<close>] False link by (simp add: sp_link_def)
    qed
  qed
  have "\<not> sched_is_running ?w (sw_udtask ?w v)" if "i < 32" "v \<in> set (rq i)" for i v
  proof -
    have "v \<in> U" using r(5) [OF that(1)] that(2) by blast
    then show ?thesis using sp_invD(3) [OF assms(1) that] ne [OF \<open>v \<in> U\<close>] by (simp add: sched_is_running_def)
  qed
  then show ?thesis unfolding sp_inv_def using rep' link' by simp
qed

section \<open>The worker to interrupt\<close>

text \<open>The priority at which a worker can be interrupted: that of its task, or 32 for a worker without
  a task.\<close>

definition sw_worker_prio :: "prs_god \<Rightarrow> sched_world \<Rightarrow> ptr \<Rightarrow> nat" where
  "sw_worker_prio god w worker =
     (case god_live god (sw_current w worker) of
        None \<Rightarrow> 32 | Some e \<Rightarrow> unat (task_prio (sw_tasks w (goe_object e))))"

definition sw_workers_ok :: "prs_god \<Rightarrow> sched_world \<Rightarrow> ptr list \<Rightarrow> bool" where
  "sw_workers_ok god w ws \<longleftrightarrow> god_wf god \<and> 0 \<notin> set ws
     \<and> (\<forall>worker \<in> set ws. \<forall>e. god_live god (sw_current w worker) = Some e \<longrightarrow>
          god_refs (goe_header e) < 4095 \<and> unat (task_prio (sw_tasks w (goe_object e))) < 32)"

lemma swprio_lowest_step_eq:
  assumes "sw_workers_ok god w [worker]"
  shows "swprio_lowest_step ops_of worker ((god, w), lw, lp) =
    ((god, w), if god_live god (sw_current w worker) = None \<or> lp < sw_worker_prio god w worker then worker else lw,
     if god_live god (sw_current w worker) = None then 32 else max lp (sw_worker_prio god w worker))"
proof (cases "god_live god (sw_current w worker)")
  case None
  have wf: "god_wf god" using assms by (simp add: sw_workers_ok_def)
  then show ?thesis
    using None god_dead(2) [OF wf None] by (simp add: swprio_lowest_step_def PRS_MAX_TASK_PRIO_def Let_def)
next
  case (Some e)
  have wf: "god_wf god" and ref: "god_refs (goe_header e) < 4095" using assms Some by (simp_all add: sw_workers_ok_def)
  note f = god_live_fields(1,8) [OF wf Some]
  show ?thesis
    using f Some god_lock_entry_live(2) [OF wf Some ref]
    by (auto simp: swprio_lowest_step_def PRS_OBJECT_ID_INVALID_def Let_def god_lock_unlock [OF wf Some ref]
        sw_worker_prio_def)
qed

lemma sw_worker_prio_le: "sw_workers_ok god w ws \<Longrightarrow> worker \<in> set ws \<Longrightarrow> sw_worker_prio god w worker \<le> 32"
  by (auto simp: sw_worker_prio_def sw_workers_ok_def less_imp_le split: option.split)

text \<open>The loop finds the greatest priority and a worker that has it.\<close>

lemma swprio_lowest_fold:
  assumes "sw_workers_ok god w ws" and "lp \<le> 32"
  shows "\<exists>lw'. fold (swprio_lowest_step ops_of) ws ((god, w), lw, lp) =
      ((god, w), lw', fold max (map (sw_worker_prio god w) ws) lp)
    \<and> (lw' = lw \<and> fold max (map (sw_worker_prio god w) ws) lp = lp
       \<or> lw' \<in> set ws \<and> sw_worker_prio god w lw' = fold max (map (sw_worker_prio god w) ws) lp)"
  using assms
proof (induction ws arbitrary: lw lp)
  case (Cons x ws)
  let ?p = "sw_worker_prio god w x"
  have ok: "sw_workers_ok god w [x]" "sw_workers_ok god w ws" using Cons.prems(1) by (auto simp: sw_workers_ok_def)
  have le: "?p \<le> 32" using sw_worker_prio_le [OF ok(1)] by simp
  have new: "(if god_live god (sw_current w x) = None then 32 else max lp ?p) = max ?p lp"
    using Cons.prems(2) by (simp add: sw_worker_prio_def max_def)
  let ?lw = "if god_live god (sw_current w x) = None \<or> lp < ?p then x else lw"
  have lw: "?lw = lw \<and> ?p \<le> lp \<or> ?lw = x \<and> ?p = max ?p lp"
    using Cons.prems(2) by (auto simp: sw_worker_prio_def)
  have "max ?p lp \<le> 32" using le Cons.prems(2) by simp
  from Cons.IH [OF ok(2) this, of ?lw] obtain lw' where IH:
    "fold (swprio_lowest_step ops_of) ws ((god, w), ?lw, max ?p lp) =
      ((god, w), lw', fold max (map (sw_worker_prio god w) ws) (max ?p lp))"
    "lw' = ?lw \<and> fold max (map (sw_worker_prio god w) ws) (max ?p lp) = max ?p lp
      \<or> lw' \<in> set ws \<and> sw_worker_prio god w lw' = fold max (map (sw_worker_prio god w) ws) (max ?p lp)" by blast
  have "fold (swprio_lowest_step ops_of) (x # ws) ((god, w), lw, lp) =
      ((god, w), lw', fold max (map (sw_worker_prio god w) ws) (max ?p lp))"
    using IH(1) by (simp only: fold_simps swprio_lowest_step_eq [OF ok(1)] new)
  moreover have "fold max (map (sw_worker_prio god w) (x # ws)) lp = fold max (map (sw_worker_prio god w) ws) (max ?p lp)"
    by simp
  ultimately show ?case using IH(2) lw by (metis list.set_intros(1,2) max.absorb2)
qed simp

lemma fold_max_ge: "t < fold max (xs :: nat list) lp \<longleftrightarrow> (\<exists>x \<in> set xs. t < x) \<or> t < lp"
  by (induction xs arbitrary: lp) (auto simp: less_max_iff_disj)

lemma swprio_ready_result:
  assumes "sp_inv U w sp rq rem" and "c \<in> U" and "t = sw_udtask w c" and "p = unat (task_prio (sw_tasks w t))"
    and "\<forall>i < 32. c \<notin> set (rq i)" and "\<not> sched_is_running w t" and "sw_workers_ok god w (sw_workers w)"
  shows "\<exists>w' sp'. prs_sched_swprio_ready ops_of (god, w) sp t = ((god, w'), sp', PRS_OK)
    \<and> sp_inv U w' sp' (rq(p := rq p @ [c])) rem
    \<and> sw_tasks w' = sw_tasks w \<and> sw_udtask w' = sw_udtask w
    \<and> sw_workers w' = sw_workers w \<and> sw_current w' = sw_current w
    \<and> (if \<exists>x \<in> set (sw_workers w). p < sw_worker_prio god w x
       then \<exists>x \<in> set (sw_workers w). sw_interrupted w' = sw_interrupted w @ [x]
              \<and> (\<forall>y \<in> set (sw_workers w). sw_worker_prio god w y \<le> sw_worker_prio god w x)
       else sw_interrupted w' = sw_interrupted w)"
proof -
  obtain m' sp' where push: "swprio_push_ready (w, sp) t = (w\<lparr>sw_nodes := m'\<rparr>, sp')"
      "sp_inv U (w\<lparr>sw_nodes := m'\<rparr>) sp' (rq(p := rq p @ [c])) rem"
    using swprio_enqueue_ready [OF assms(1-6)] by blast
  let ?w = "w\<lparr>sw_nodes := m'\<rparr>" and ?prios = "map (sw_worker_prio god w) (sw_workers w)"
  have same: "sw_worker_prio god ?w = sw_worker_prio god w" "sw_workers_ok god ?w (sw_workers w)"
    using assms(7) by (simp_all add: fun_eq_iff sw_worker_prio_def sw_workers_ok_def split: option.split)
  obtain lw where lw: "fold (swprio_lowest_step ops_of) (sw_workers w) ((god, ?w), 0, 0) = ((god, ?w), lw, fold max ?prios 0)"
      "lw = 0 \<and> fold max ?prios 0 = 0 \<or> lw \<in> set (sw_workers w) \<and> sw_worker_prio god w lw = fold max ?prios 0"
    using swprio_lowest_fold [OF same(2), of 0 ops_of 0] unfolding same(1) by auto
  have nz: "0 \<notin> set (sw_workers w)" using assms(7) by (simp add: sw_workers_ok_def)
  have ge: "sw_worker_prio god w y \<le> fold max ?prios 0" if "y \<in> set (sw_workers w)" for y
    using fold_max_ge [of "fold max ?prios 0" ?prios 0] that by (metis imageI less_irrefl list.set_map not_le)
  have some: "(\<exists>x \<in> set (sw_workers w). p < sw_worker_prio god w x) \<longleftrightarrow> p < fold max ?prios 0"
    by (simp add: fold_max_ge)
  have run: "prs_sched_swprio_ready ops_of (god, w) sp t = ((god, if lw \<noteq> 0 \<and> p < fold max ?prios 0
      then ?w\<lparr>sw_interrupted := sw_interrupted w @ [lw]\<rparr> else ?w), sp', PRS_OK)"
    using push(1) lw(1) assms(4) by (simp add: prs_sched_swprio_ready_def)
  show ?thesis
  proof (cases "p < fold max ?prios 0")
    case True
    then have l: "lw \<in> set (sw_workers w)" "sw_worker_prio god w lw = fold max ?prios 0" "lw \<noteq> 0"
      using lw(2) nz by auto
    have inv: "sp_inv U (?w\<lparr>sw_interrupted := sw_interrupted w @ [lw]\<rparr>) sp' (rq(p := rq p @ [c])) rem"
      using push(2) by (simp add: sp_inv_def sp_link_def sched_is_running_def)
    show ?thesis
      using run True l inv ge some
      by (intro exI [of _ "?w\<lparr>sw_interrupted := sw_interrupted w @ [lw]\<rparr>"] exI [of _ sp']) auto
  next
    case False
    then show ?thesis using run push(2) some by (intro exI [of _ ?w] exI [of _ sp']) simp
  qed
qed

lemma sp_inv_state:
  assumes "sp_inv U w sp rq rem" and "st \<noteq> PRS_TASK_STATE_RUNNING"
  shows "sp_inv U (sw_change_state w t st) sp rq rem"
  using assms by (simp add: sp_inv_def)

text \<open>Adding a task: it joins the scheduler as a ready task, and the scheduler holds a reference on it.\<close>

lemma swprio_add_result:
  assumes "sp_inv U w sp rq rem" and "u \<notin> U" and "ud_blocks (insert u U)"
    and "u + ud_ready_node \<noteq> 0" and "u + ud_remove_node \<noteq> 0"
    and "t \<noteq> 0" and "t \<notin> sw_udtask w ` U" and "unat (task_prio (sw_tasks w t)) < 32"
    and "god' = fst (prs_god_lock god (task_id (sw_tasks w t)))" and "sw_workers_ok god' w (sw_workers w)"
    and "p = unat (task_prio (sw_tasks w t))"
  shows "\<exists>w' sp'. prs_sched_swprio_add ops_of (god, w) sp t (Some u) = ((god', w'), sp', PRS_OK)
    \<and> sp_inv (insert u U) w' sp' (rq(p := rq p @ [u])) rem \<and> sw_udtask w' = (sw_udtask w)(u := t)
    \<and> prs_task_get_state (sw_tasks w' t) = task_state_code PRS_TASK_STATE_READY
    \<and> sw_workers w' = sw_workers w \<and> sw_current w' = sw_current w
    \<and> (\<forall>x. task_prio (sw_tasks w' x) = task_prio (sw_tasks w x))"
proof -
  let ?w1 = "w\<lparr>sw_nodes := ud_zeroed u (sw_nodes w),
      sw_tasks := (sw_tasks w)(t := (sw_tasks w t)\<lparr>task_sched_userdata := u\<rparr>),
      sw_udtask := (sw_udtask w)(u := t)\<rparr>"
  let ?w2 = "sw_change_state ?w1 t PRS_TASK_STATE_READY"
  have inv: "sp_inv (insert u U) ?w2 sp rq rem"
    by (rule sp_inv_state [OF sp_inv_new_block [OF assms(1-8)]]) simp
  have fr: "\<forall>i < 32. u \<notin> set (rq i)"
    using sp_repD(5) [OF sp_invD(1) [OF assms(1)]] assms(2) by blast
  have tasks: "task_prio (sw_tasks ?w2 x) = task_prio (sw_tasks w x)" for x by simp
  have ok: "sw_workers_ok god' ?w2 (sw_workers ?w2)"
    using assms(10) unfolding sw_workers_ok_def tasks by (simp add: sw_change_state_def sw_set_task_def)
  have t: "t = sw_udtask ?w2 u" "p = unat (task_prio (sw_tasks ?w2 t))" "\<not> sched_is_running ?w2 t"
    using assms(11) by simp_all
  obtain w' sp' where r: "prs_sched_swprio_ready ops_of (god', ?w2) sp t = ((god', w'), sp', PRS_OK)"
      "sp_inv (insert u U) w' sp' (rq(p := rq p @ [u])) rem"
      "sw_tasks w' = sw_tasks ?w2" "sw_udtask w' = sw_udtask ?w2"
      "sw_workers w' = sw_workers ?w2" "sw_current w' = sw_current ?w2"
    using swprio_ready_result [OF inv insertI1 t(1,2) fr t(3) ok, of ops_of] by blast
  have "prs_sched_swprio_add ops_of (god, w) sp t (Some u) = prs_sched_swprio_ready ops_of (god', ?w2) sp t"
    using assms(9) by (simp add: prs_sched_swprio_add_def sw_set_task_def split: prod.split)
  moreover have "sw_workers ?w2 = sw_workers w" "sw_current ?w2 = sw_current w"
    by (simp_all add: sw_change_state_def sw_set_task_def)
  ultimately show ?thesis using r by (simp add: sw_change_state_get)
qed

section \<open>The whole function\<close>

lemma swprio_get_next_result:
  assumes "sched_quiet ops_of" and "sp_inv U w sp rq rem"
    and "current = 0 \<or> (\<exists>c \<in> U - set rem. sw_udtask w c = current)"
    and "swprio_spec (\<lambda>i. filter (\<lambda>u. u \<notin> set rem) (rq i)) (sp_running w current) = (rq', chosen)"
  shows "\<exists>w' sp'. prs_sched_swprio_get_next ops_of (god, w) sp current =
      Some ((fold (\<lambda>u g. god_release g (task_id (sw_tasks w (sw_udtask w u)))) rem god, w'), sp', True,
        sp_task w chosen)
    \<and> sp_inv (U - set rem) w' sp' rq' []
    \<and> (chosen \<noteq> None \<longrightarrow> sched_is_running w' (sp_task w chosen))
    \<and> sw_freed w' = sw_freed w @ rem \<and> sw_udtask w' = sw_udtask w"
proof -
  have rep: "sp_rep U (sw_nodes w) sp rq rem" and link: "sp_link U w rq" using assms(2) by (simp_all add: sp_inv_def)
  obtain m1 sp1 where b: "sp_rep U m1 sp1 rq rem"
    "prs_sched_swprio_get_next ops_of (god, w) sp current =
      Option.bind (swprio_remove_loop ops_of (god, w\<lparr>sw_nodes := m1\<rparr>) sp1 current
        (if rem = [] then 0 else hd rem + ud_remove_node))
      (\<lambda>(s, sp, done). if \<not> done then Some (s, sp, False, 0) else swprio_decide s sp current)"
    by (rule swprio_get_next_begin [OF rep])
  let ?w = "w\<lparr>sw_nodes := m1\<rparr>" and ?rq = "\<lambda>i. filter (\<lambda>u. u \<notin> set rem) (rq i)"
  let ?god = "fold (\<lambda>u g. god_release g (task_id (sw_tasks w (sw_udtask w u)))) rem god"
  have sub: "set rem \<subseteq> U" by (rule sp_repD(3) [OF rep])
  have nocur: "\<forall>u \<in> set rem. sw_udtask w u \<noteq> current"
  proof
    fix u assume u: "u \<in> set rem"
    then have "sw_udtask w u \<noteq> 0" using sub link by (auto simp: sp_link_def)
    with assms(3) show "sw_udtask w u \<noteq> current" using sp_link_inj [OF link, of u] u sub by (metis DiffE subsetD)
  qed
  have "sp_rep U (sw_nodes ?w) sp1 rq (rem @ [])" "sp_link U ?w rq" "\<forall>u \<in> set rem. sw_udtask ?w u \<noteq> current"
    using b(1) link nocur by simp_all
  from swprio_remove_loop_prefix [OF assms(1) this, of god] obtain m2 sp2 where l:
    "swprio_remove_loop ops_of (god, ?w) sp1 current (if rem = [] then 0 else hd rem + ud_remove_node)
      = swprio_remove_loop ops_of (?god, (sched_removed_all w rem)\<lparr>sw_nodes := m2\<rparr>) sp2 current 0"
    "sp_rep (U - set rem) m2 sp2 ?rq []"
    "sp_link (U - set rem) (sched_removed_all w rem) ?rq"
    unfolding sched_removed_all_nodes append_Nil2 by simp blast
  let ?w2 = "(sched_removed_all w rem)\<lparr>sw_nodes := m2\<rparr>"
  have inv2: "sp_inv (U - set rem) ?w2 sp2 ?rq []"
    using sp_inv_removed [OF assms(2), of rem "[]" m2 sp2] l(2,3) by simp
  have run: "prs_sched_swprio_get_next ops_of (god, w) sp current = swprio_decide (?god, ?w2) sp2 current"
    using b(2) l(1) by (simp add: swprio_remove_loop.simps [where remove_node = 0])
  have cur: "current \<notin> sw_udtask w ` set rem" using nocur by auto
  have "current = 0 \<or> (\<exists>c \<in> U - set rem. sw_udtask ?w2 c = current)"
    using assms(3) by (simp add: sched_removed_all_fields)
  moreover have "sp_running ?w2 current = sp_running w current"
    using cur by (simp add: sp_running_def sched_removed_all_running sched_removed_all_fields)
  then have spec: "swprio_spec ?rq (sp_running ?w2 current) = (rq', chosen)" using assms(4) by (simp only:)
  moreover have "sp_task ?w2 chosen = sp_task w chosen"
    by (simp add: sp_task_def sched_removed_all_fields split: option.split)
  ultimately show ?thesis
    using swprio_decide_correct [OF inv2 _ spec, of ?god] run by (auto simp: sched_removed_all_fields)
qed

section \<open>The order of the dispatch\<close>

text \<open>All ready blocks, the highest priority first.\<close>

definition swprio_order :: "(nat \<Rightarrow> ptr list) \<Rightarrow> ptr list" where
  "swprio_order rq = concat (map rq [0 ..< 32])"

lemma swprio_order_top:
  assumes "swprio_top rq = Some (i, u)"
  shows "swprio_order rq = u # swprio_order (rq(i := tl (rq i)))"
proof -
  note t = swprio_topE [OF assms]
  have sp: "[0 ..< 32] = [0 ..< i] @ i # [Suc i ..< 32]"
    using t(1) upt_add_eq_append [of 0 i "32 - i"] upt_conv_Cons [of i 32] by simp
  have e: "concat (map rq [0 ..< i]) = []" "concat (map (rq(i := tl (rq i))) [0 ..< i]) = []"
    "map (rq(i := tl (rq i))) [Suc i ..< 32] = map rq [Suc i ..< 32]" using t(4) by auto
  have "rq i = u # tl (rq i)" using t(2,3) by simp
  then show ?thesis
    by (simp only: swprio_order_def sp map_append concat_append e list.map concat.simps fun_upd_same append_Nil)
      (metis append_Cons)
qed

lemma swprio_order_empty: "swprio_order rq = [] \<longleftrightarrow> swprio_top rq = None"
  by (auto simp: swprio_order_def swprio_top_None)

type_synonym sp_system = "sched_world god_world \<times> prs_sched_swprio"

definition swprio_waiting :: "sp_system \<Rightarrow> ptr list \<Rightarrow> bool" where
  "swprio_waiting s us \<longleftrightarrow> (\<exists>U rq. sp_inv U (snd (fst s)) (snd s) rq [] \<and> us = swprio_order rq)"

definition swprio_next :: "sp_system \<Rightarrow> (sp_system \<times> ptr) option" where
  "swprio_next s =
     (case prs_sched_swprio_get_next no_ops (fst s) (snd s) 0 of
        Some (s', sp', True, t) \<Rightarrow> Some ((s', sp'), t) | _ \<Rightarrow> None)"

lemma swprio_next_result:
  assumes "sp_inv U w sp rq []" and "swprio_spec rq None = (rq', chosen)"
  shows "\<exists>w' sp'. swprio_next ((god, w), sp) = Some (((god, w'), sp'), sp_task w chosen)
    \<and> sp_inv U w' sp' rq' [] \<and> sw_udtask w' = sw_udtask w"
proof -
  have "swprio_spec (\<lambda>i. filter (\<lambda>u. u \<notin> set []) (rq i)) (sp_running w 0) = (rq', chosen)"
    using assms(2) by (simp add: sp_running_def sched_is_running_def)
  from swprio_get_next_result [OF no_ops_quiet assms(1) _ this, of god] show ?thesis
    by (auto simp: swprio_next_def)
qed

interpretation swprio: task_dispatcher swprio_waiting swprio_next "\<lambda>s. sw_udtask (snd (fst s))"
proof unfold_locales
  fix s :: sp_system and u us
  obtain god w sp where s: "s = ((god, w), sp)" by (metis prod.collapse)
  show "\<exists>s'. swprio_next s = Some (s', 0) \<and> swprio_waiting s' []" if "swprio_waiting s []"
  proof -
    from that obtain U rq where inv: "sp_inv U w sp rq []" "[] = swprio_order rq"
      unfolding swprio_waiting_def s fst_conv snd_conv by blast
    then have "swprio_top rq = None" using swprio_order_empty [of rq] by simp
    then have "swprio_spec rq None = (rq, None)" by (simp add: swprio_spec_def)
    from swprio_next_result [OF inv(1) this, of god] show ?thesis
      using inv(2) unfolding swprio_waiting_def s by (auto simp: sp_task_def) blast
  qed
  show "\<exists>s'. swprio_next s = Some (s', sw_udtask (snd (fst s)) u) \<and> swprio_waiting s' us
      \<and> sw_udtask (snd (fst s')) = sw_udtask (snd (fst s))" if "swprio_waiting s (u # us)"
  proof -
    from that obtain U rq where inv: "sp_inv U w sp rq []" "swprio_order rq = u # us"
      unfolding swprio_waiting_def s fst_conv snd_conv by metis
    then obtain i v where top: "swprio_top rq = Some (i, v)" using swprio_order_empty [of rq] by fastforce
    then have v: "v = u" "swprio_order (rq(i := tl (rq i))) = us" using swprio_order_top [OF top] inv(2) by simp_all
    have "swprio_spec rq None = (rq(i := tl (rq i)), Some u)" using top v by (simp add: swprio_spec_def)
    from swprio_next_result [OF inv(1) this, of god] show ?thesis
      using s v(2) by (auto simp: swprio_waiting_def sp_task_def) blast
  qed
qed

section \<open>Properties\<close>

text \<open>Two tasks of priorities 5 and 3 in a new scheduler.\<close>

definition swprio_example_world :: sched_world where
  "swprio_example_world = \<lparr>sw_tasks = (\<lambda>p. task_example\<lparr>task_prio := (if p = 77 then 5 else 3)\<rparr>),
     sw_udtask = (\<lambda>_. 0), sw_nodes = \<lparr>iqn_next = \<lambda>_. 0, iqn_prev = \<lambda>_. 0\<rparr>, sw_workers = [900],
     sw_current = (\<lambda>_. 0), sw_interrupted = [], sw_signaled = [], sw_freed = []\<rparr>"

lemma swprio_example:
  obtains w sp where "sp_inv {1000, 2000} w sp ((\<lambda>_. [])(5 := [1000], 3 := [2000])) []"
    and "sw_udtask w 1000 = 77" "sw_udtask w 2000 = 88" "sw_workers w = [900]" "sw_current w = (\<lambda>_. 0)"
proof -
  obtain sp0 where init: "prs_sched_swprio_init (Some 1) (map Some (map word_of_nat [10 ..< 42])) (Some 2)
      = SwprioReady sp0"
    using swprio_init_ready [of "map word_of_nat [10 ..< 42]" 1 2] by auto
  let ?w = swprio_example_world
  have inv0: "sp_inv {} ?w sp0 (\<lambda>_. []) []" by (rule swprio_init_inv [OF init]) simp
  have live: "god_live god_example oid = None" for oid by (simp add: god_example_fresh(2))
  note lock = god_dead(2) [OF god_example_fresh(1) live]
  have ok: "sw_workers_ok god_example w [900]" for w by (simp add: sw_workers_ok_def god_example_fresh live)
  have prio: "task_prio (sw_tasks ?w x) = (if x = 77 then 5 else 3)" and wks: "sw_workers ?w = [900]" for x
    by (simp_all add: swprio_example_world_def)
  have off: "ud_blocks {1000, 2000}" "ud_blocks {1000}"
      "1000 + ud_ready_node \<noteq> 0" "1000 + ud_remove_node \<noteq> 0" "2000 + ud_ready_node \<noteq> 0" "2000 + ud_remove_node \<noteq> 0"
    by (simp_all add: ud_blocks_def ud_ready_node_def ud_remove_node_def)
  have l: "god_example = fst (prs_god_lock god_example oid)" for oid by (simp add: lock)
  have k1: "sw_workers_ok god_example ?w (sw_workers ?w)" unfolding wks by (rule ok)
  have p1: "unat (task_prio (sw_tasks ?w 77)) < 32" "5 = unat (task_prio (sw_tasks ?w 77))" by (simp_all add: prio)
  have f1: "(1000 :: ptr) \<notin> {}" "(77 :: ptr) \<noteq> 0" "77 \<notin> sw_udtask ?w ` {}" by simp_all
  note add1 = swprio_add_result [OF inv0 f1(1) off(2-4) f1(2,3) p1(1) l k1 p1(2), of no_ops]
  obtain w1 sp1 where s1: "sp_inv {1000} w1 sp1 ((\<lambda>_. [])(5 := [] @ [1000])) []"
      "sw_udtask w1 = (sw_udtask ?w)(1000 := 77)" "sw_workers w1 = sw_workers ?w" "sw_current w1 = sw_current ?w"
      "\<forall>x. task_prio (sw_tasks w1 x) = task_prio (sw_tasks ?w x)"
    using add1 by blast
  have k2: "sw_workers_ok god_example w1 (sw_workers w1)" unfolding s1(3) wks by (rule ok)
  have p2: "unat (task_prio (sw_tasks w1 88)) < 32" "3 = unat (task_prio (sw_tasks w1 88))" using s1(5) by (simp_all add: prio)
  have f2: "(2000 :: ptr) \<notin> {1000}" "(88 :: ptr) \<noteq> 0" "88 \<notin> sw_udtask w1 ` {1000}" using s1(2) by simp_all
  note add2 = swprio_add_result [OF s1(1) f2(1) off(1) [unfolded insert_commute [of 1000]] off(5,6) f2(2,3) p2(1) l k2 p2(2), of no_ops]
  obtain w2 sp2 where s2: "sp_inv {2000, 1000} w2 sp2
        ((\<lambda>_. [])(5 := [] @ [1000], 3 := ((\<lambda>_. [])(5 := [] @ [1000])) (3 :: nat) @ [2000])) []"
      "sw_udtask w2 = (sw_udtask w1)(2000 := 88)" "sw_workers w2 = sw_workers w1" "sw_current w2 = sw_current w1"
    using add2 by blast
  show thesis
    by (rule that [of w2 sp2]) (use s1(2-4) s2 in \<open>simp_all add: insert_commute [of 1000] swprio_example_world_def\<close>)
qed

text \<open>C11: With the ready queues and the tasks to remove in memory and a current task, if any, that is not
  one of the latter, get_next returns a decision, and it is the specified one: the removed tasks leave
  the queues, their blocks are freed and the references on them given back; then the oldest task of the
  highest non-empty priority runs, except that a running task is replaced only by a strictly higher
  priority, and in that case goes to the end of its own queue as a ready task. The chosen task is
  running, and the invariant holds again.\<close>

theorem swprio_get_next_refines:
  assumes "sched_quiet ops_of" and "sp_inv U w sp rq rem"
    and "current = 0 \<or> (\<exists>c \<in> U - set rem. sw_udtask w c = current)"
    and "swprio_spec (\<lambda>i. filter (\<lambda>u. u \<notin> set rem) (rq i)) (sp_running w current) = (rq', chosen)"
  shows "\<exists>w' sp'. prs_sched_swprio_get_next ops_of (god, w) sp current =
      Some ((fold (\<lambda>u g. god_release g (task_id (sw_tasks w (sw_udtask w u)))) rem god, w'), sp', True,
        sp_task w chosen)
    \<and> sp_inv (U - set rem) w' sp' rq' []
    \<and> (chosen \<noteq> None \<longrightarrow> sched_is_running w' (sp_task w chosen))
    \<and> sw_freed w' = sw_freed w @ rem"
  using swprio_get_next_result [OF assms] by blast

theorem swprio_get_next_refines_witness:
  "\<exists>w sp w' sp' rq'. prs_sched_swprio_get_next no_ops (god_example, w) sp 0 = Some ((god_example, w'), sp', True, 88)
     \<and> sched_is_running w' 88 \<and> sp_inv {1000, 2000} w' sp' rq' [] \<and> rq' 5 = [1000] \<and> rq' 3 = []"
proof -
  obtain w sp where e: "sp_inv {1000, 2000} w sp ((\<lambda>_. [])(5 := [1000], 3 := [2000])) []"
      "sw_udtask w 1000 = 77" "sw_udtask w 2000 = 88" by (rule swprio_example)
  let ?rq = "(\<lambda>_ :: nat. [])(5 := [1000 :: ptr], 3 := [2000])"
  have "swprio_top ?rq = Some (3, hd (?rq 3))" by (rule swprio_top_Some) auto
  then have spec: "swprio_spec ?rq (sp_running w 0) = (?rq(3 := []), Some 2000)"
    by (simp add: swprio_spec_def sp_running_def sched_is_running_def)
  have "(\<lambda>i. filter (\<lambda>u. u \<notin> set []) (?rq i)) = ?rq" by (rule ext) simp
  then have "swprio_spec (\<lambda>i. filter (\<lambda>u. u \<notin> set []) (?rq i)) (sp_running w 0) = (?rq(3 := []), Some 2000)"
    using spec by (simp only:)
  from swprio_get_next_refines [OF no_ops_quiet e(1) _ this, of god_example] e(3)
  obtain w' sp' where "prs_sched_swprio_get_next no_ops (god_example, w) sp 0 = Some ((god_example, w'), sp', True, 88)"
      "sched_is_running w' 88" "sp_inv {1000, 2000} w' sp' (?rq(3 := [])) []" by (auto simp: sp_task_def)
  moreover have "(?rq(3 := [])) 5 = [1000]" "(?rq(3 := [])) 3 = []" by simp_all
  ultimately show ?thesis by blast
qed

text \<open>Making a task ready puts it at the end of the queue of its priority and changes no task. It
  interrupts exactly one worker if some worker has no task or runs a task of a lower priority (a greater
  value), and that worker is one that can be interrupted by the most priorities; otherwise it
  interrupts none. The references taken on the tasks of the workers are given back.\<close>

theorem swprio_ready_interrupts:
  assumes "sp_inv U w sp rq rem" and "c \<in> U" and "t = sw_udtask w c" and "p = unat (task_prio (sw_tasks w t))"
    and "\<forall>i < 32. c \<notin> set (rq i)" and "\<not> sched_is_running w t" and "sw_workers_ok god w (sw_workers w)"
  shows "\<exists>w' sp'. prs_sched_swprio_ready ops_of (god, w) sp t = ((god, w'), sp', PRS_OK)
    \<and> sp_inv U w' sp' (rq(p := rq p @ [c])) rem \<and> sw_tasks w' = sw_tasks w
    \<and> (if \<exists>x \<in> set (sw_workers w). p < sw_worker_prio god w x
       then \<exists>x \<in> set (sw_workers w). sw_interrupted w' = sw_interrupted w @ [x]
              \<and> (\<forall>y \<in> set (sw_workers w). sw_worker_prio god w y \<le> sw_worker_prio god w x)
       else sw_interrupted w' = sw_interrupted w)"
  using swprio_ready_result [OF assms, of ops_of] by blast

theorem swprio_ready_interrupts_witness:
  "\<exists>w sp w' sp' rq. prs_sched_swprio_ready no_ops (god_example, w) sp 77 = ((god_example, w'), sp', PRS_OK)
     \<and> sp_inv {1000} w' sp' rq [] \<and> rq 5 = [1000] \<and> sw_interrupted w' = [900]"
proof -
  obtain sp where init: "prs_sched_swprio_init (Some 1) (map Some (map word_of_nat [10 ..< 42])) (Some 2) = SwprioReady sp"
    using swprio_init_ready [of "map word_of_nat [10 ..< 42]" 1 2] by auto
  let ?ex = swprio_example_world
  let ?w = "?ex\<lparr>sw_nodes := ud_zeroed 1000 (sw_nodes ?ex),
      sw_tasks := (sw_tasks ?ex)(77 := (sw_tasks ?ex 77)\<lparr>task_sched_userdata := 1000\<rparr>),
      sw_udtask := (sw_udtask ?ex)(1000 := 77)\<rparr>"
  let ?w2 = "sw_change_state ?w 77 PRS_TASK_STATE_READY"
  have inv0: "sp_inv {} ?ex sp (\<lambda>_. []) []" by (rule swprio_init_inv [OF init]) simp
  have "sp_inv {1000} ?w sp (\<lambda>_. []) []"
    using sp_inv_new_block [OF inv0, where u = 1000 and t = 77]
    by (simp add: ud_blocks_def ud_ready_node_def ud_remove_node_def swprio_example_world_def)
  then have inv: "sp_inv {1000} ?w2 sp (\<lambda>_. []) []" by (rule sp_inv_state) simp
  have wks: "sw_workers ?w2 = [900]" "sw_interrupted ?w2 = []" "sw_udtask ?w2 1000 = 77"
    by (simp_all add: sw_change_state_def sw_set_task_def swprio_example_world_def)
  have idle: "task_prio (sw_tasks ?w2 77) = 5" "\<not> sched_is_running ?w2 77"
    by (simp_all add: swprio_example_world_def)
  have ok: "sw_workers_ok god_example ?w2 (sw_workers ?w2)" "sw_worker_prio god_example ?w2 900 = 32"
    unfolding wks(1) by (simp_all add: sw_workers_ok_def sw_worker_prio_def god_example_fresh)
  obtain w' sp' where "prs_sched_swprio_ready no_ops (god_example, ?w2) sp 77 = ((god_example, w'), sp', PRS_OK)"
      "sp_inv {1000} w' sp' ((\<lambda>_. [])(5 := [] @ [1000])) []" "sw_interrupted w' = [900]"
    using swprio_ready_interrupts [OF inv, of 1000 77 5 god_example no_ops] wks idle ok by auto
  moreover have "((\<lambda>_. [])(5 := [] @ [1000 :: ptr])) (5 :: nat) = [1000]" by simp
  ultimately show ?thesis by blast
qed

text \<open>C12: As long as no task runs, the decisions hand out every ready task exactly once, the highest
  priority first and the oldest first within a priority, and then report that there is no task.\<close>

theorem swprio_dispatch_order:
  assumes "sp_inv U w sp rq []"
  shows "\<exists>s' s''. swprio.dispatch (length (swprio_order rq)) ((god, w), sp) = Some (map (sw_udtask w) (swprio_order rq), s')
    \<and> swprio_next s' = Some (s'', 0)"
proof -
  have "swprio_waiting ((god, w), sp) (swprio_order rq)" using assms by (auto simp: swprio_waiting_def)
  from swprio.dispatch_then_idle [OF this] show ?thesis by simp
qed

theorem swprio_dispatch_order_witness:
  "\<exists>w sp s' s''. swprio.dispatch 2 ((god_example, w), sp) = Some ([88, 77], s') \<and> swprio_next s' = Some (s'', 0)"
proof -
  obtain w sp where e: "sp_inv {1000, 2000} w sp ((\<lambda>_. [])(5 := [1000], 3 := [2000])) []"
      "sw_udtask w 1000 = 77" "sw_udtask w 2000 = 88" by (rule swprio_example)
  have o: "swprio_order ((\<lambda>_. [])(5 := [1000], 3 := [2000])) = [2000, 1000]" by (simp add: swprio_order_def upt_rec)
  from swprio_dispatch_order [OF e(1), of god_example] e(2,3) show ?thesis
    unfolding o by (intro exI [of _ w] exI [of _ sp]) (simp add: numeral_2_eq_2 del: swprio.dispatch.simps)
qed

end
