(* ===== verification/Swcoop.thy ===== *)
theory Swcoop
  imports Schedq
begin

text \<open>
  The cooperative scheduler of \<^verbatim>\<open>prs/sched/swcoop.c\<close>: one ready queue for all tasks and a queue of tasks
  to remove. A running task keeps running until it blocks.
\<close>

section \<open>Data\<close>

record prs_sched_swcoop =
  sc_addr :: ptr
  sc_readyq :: prs_mpsciq
  sc_removeq :: prs_mpsciq

section \<open>Operations\<close>

datatype swcoop_init_result =
    SwcoopReady prs_sched_swcoop
  | SwcoopNoMemory "ptr list"
  | SwcoopFatal

definition prs_sched_swcoop_init :: "ptr option \<Rightarrow> ptr option \<Rightarrow> ptr option \<Rightarrow> swcoop_init_result" where
  "prs_sched_swcoop_init memory readyq_memory removeq_memory =
     (case memory of
        None \<Rightarrow> SwcoopNoMemory []
      | Some addr \<Rightarrow>
          (case prs_mpsciq_create ud_ready_node readyq_memory of
             None \<Rightarrow> SwcoopNoMemory [addr]
           | Some readyq \<Rightarrow>
               (case prs_mpsciq_create ud_remove_node removeq_memory of
                  None \<Rightarrow> SwcoopFatal
                | Some removeq \<Rightarrow> SwcoopReady \<lparr>sc_addr = addr, sc_readyq = readyq, sc_removeq = removeq\<rparr>)))"

definition prs_sched_swcoop_uninit :: "prs_sched_swcoop \<Rightarrow> ptr list \<times> prs_result" where
  "prs_sched_swcoop_uninit sc =
     (prs_mpsciq_destroy (sc_removeq sc) @ prs_mpsciq_destroy (sc_readyq sc) @ [sc_addr sc], PRS_OK)"

text \<open>Taking a removed task out of the ready queue, if it is there.\<close>

definition swcoop_unready :: "sched_world \<times> prs_sched_swcoop \<Rightarrow> ptr \<Rightarrow> (sched_world \<times> prs_sched_swcoop) option" where
  "swcoop_unready s ud =
     (let (w, sc) = s in
      Option.bind (prs_mpsciq_is_inserted (sw_nodes w, sc_readyq sc) (ud + ud_ready_node))
        (\<lambda>((m, q), inserted).
           if \<not> inserted then Some (w\<lparr>sw_nodes := m\<rparr>, sc\<lparr>sc_readyq := q\<rparr>)
           else Option.bind (prs_mpsciq_remove (m, q) (ud + ud_ready_node))
             (\<lambda>(m, q). Some (w\<lparr>sw_nodes := m\<rparr>, sc\<lparr>sc_readyq := q\<rparr>))))"

text \<open>The loop over the tasks to remove; it stops at the current task.\<close>

partial_function (option) swcoop_remove_loop ::
  "sched_world god_ops \<Rightarrow> sched_world god_world \<Rightarrow> prs_sched_swcoop \<Rightarrow> ptr \<Rightarrow> ptr
    \<Rightarrow> (sched_world god_world \<times> prs_sched_swcoop \<times> bool) option" where
  "swcoop_remove_loop ops_of s sc current_task remove_node =
     (if remove_node = 0 then Some (s, sc, True)
      else
        (let (god, w) = s;
             ud = prs_mpsciq_get_data (sc_removeq sc) remove_node;
             removed_task = sw_udtask w ud
         in if current_task = removed_task then Some (s, sc, False)
            else Option.bind (swcoop_unready (w, sc) ud)
              (\<lambda>(w, sc).
                 let w = sw_change_state w removed_task PRS_TASK_STATE_ZOMBIE;
                     w = sw_set_task w removed_task ((sw_tasks w removed_task)\<lparr>task_sched_userdata := 0\<rparr>)
                 in Option.bind (prs_mpsciq_remove (sw_nodes w, sc_removeq sc) remove_node)
                   (\<lambda>(m, q).
                      let sc = sc\<lparr>sc_removeq := q\<rparr>;
                          w = w\<lparr>sw_nodes := m, sw_freed := sw_freed w @ [ud]\<rparr>;
                          (god, w) = prs_god_unlock ops_of (god, w) (task_id (sw_tasks w removed_task))
                      in Option.bind (prs_mpsciq_begin (sw_nodes w, sc_removeq sc))
                        (\<lambda>((m, q), remove_node).
                           swcoop_remove_loop ops_of (god, w\<lparr>sw_nodes := m\<rparr>) (sc\<lparr>sc_removeq := q\<rparr>)
                             current_task remove_node)))))"

declare swcoop_remove_loop.simps [code]

text \<open>The state, the decision flag and the next task.\<close>

definition prs_sched_swcoop_get_next ::
  "sched_world god_ops \<Rightarrow> sched_world god_world \<Rightarrow> prs_sched_swcoop \<Rightarrow> ptr
    \<Rightarrow> (sched_world god_world \<times> prs_sched_swcoop \<times> bool \<times> ptr) option" where
  "prs_sched_swcoop_get_next ops_of s sc current_task =
     Option.bind (prs_mpsciq_begin (sw_nodes (snd s), sc_removeq sc)) (\<lambda>((m, q), remove_node).
     Option.bind (swcoop_remove_loop ops_of (fst s, (snd s)\<lparr>sw_nodes := m\<rparr>) (sc\<lparr>sc_removeq := q\<rparr>)
       current_task remove_node) (\<lambda>((god, w), sc, done).
     if \<not> done then Some ((god, w), sc, False, 0)
     else if sched_is_running w current_task then Some ((god, w), sc, True, current_task)
     else Option.bind (prs_mpsciq_begin (sw_nodes w, sc_readyq sc)) (\<lambda>((m, q), node).
       if node = 0 then Some ((god, w\<lparr>sw_nodes := m\<rparr>), sc\<lparr>sc_readyq := q\<rparr>, True, 0)
       else (let userdata = prs_mpsciq_get_data q node in
             Option.bind (prs_mpsciq_remove (m, q) node) (\<lambda>(m, q).
               let next_task = sw_udtask w userdata;
                   w = sw_change_state (w\<lparr>sw_nodes := m\<rparr>) next_task PRS_TASK_STATE_RUNNING
               in Some ((god, w), sc\<lparr>sc_readyq := q\<rparr>, True, next_task))))))"

text \<open>The last worker of the list is signalled; a scheduler has one. The result is that of
  \<^verbatim>\<open>prs_worker_signal\<close>, a parameter here.\<close>

definition prs_sched_swcoop_ready ::
  "(ptr \<Rightarrow> prs_result) \<Rightarrow> sched_world \<Rightarrow> prs_sched_swcoop \<Rightarrow> ptr
    \<Rightarrow> sched_world \<times> prs_sched_swcoop \<times> prs_result" where
  "prs_sched_swcoop_ready signal_result w sc task =
     (let ud = task_sched_userdata (sw_tasks w task);
          (m, q) = prs_mpsciq_push (sw_nodes w, sc_readyq sc) (ud + ud_ready_node);
          worker = fold (\<lambda>sched_worker _. sched_worker) (sw_workers w) 0
      in (w\<lparr>sw_nodes := m, sw_signaled := sw_signaled w @ [worker]\<rparr>, sc\<lparr>sc_readyq := q\<rparr>, signal_result worker))"

definition prs_sched_swcoop_add ::
  "(ptr \<Rightarrow> prs_result) \<Rightarrow> sched_world god_world \<Rightarrow> prs_sched_swcoop \<Rightarrow> ptr \<Rightarrow> ptr option
    \<Rightarrow> sched_world god_world \<times> prs_sched_swcoop \<times> prs_result" where
  "prs_sched_swcoop_add signal_result s sc task memory =
     (case memory of
        None \<Rightarrow> (s, sc, PRS_OUT_OF_MEMORY)
      | Some userdata \<Rightarrow>
          (let (god, w) = s;
               w = w\<lparr>sw_nodes := ud_zeroed userdata (sw_nodes w)\<rparr>;
               w = sw_set_task w task ((sw_tasks w task)\<lparr>task_sched_userdata := userdata\<rparr>);
               w = w\<lparr>sw_udtask := (sw_udtask w)(userdata := task)\<rparr>;
               (god, _) = prs_god_lock god (task_id (sw_tasks w task));
               w = sw_change_state w task PRS_TASK_STATE_READY;
               (w, sc, result) = prs_sched_swcoop_ready signal_result w sc task
           in ((god, w), sc, result)))"

definition prs_sched_swcoop_remove ::
  "sched_world \<Rightarrow> prs_sched_swcoop \<Rightarrow> ptr \<Rightarrow> sched_world \<times> prs_sched_swcoop \<times> prs_result" where
  "prs_sched_swcoop_remove w sc task =
     (let prev_state = prs_task_get_state (sw_tasks w task) in
      if prev_state \<noteq> task_state_code PRS_TASK_STATE_STOPPED then
        (let userdata = task_sched_userdata (sw_tasks w task);
             w = sw_change_state w task PRS_TASK_STATE_STOPPED;
             (m, q) = prs_mpsciq_push (sw_nodes w, sc_removeq sc) (userdata + ud_remove_node);
             w = w\<lparr>sw_nodes := m\<rparr>;
             sc = sc\<lparr>sc_removeq := q\<rparr>;
             w = (if prev_state = task_state_code PRS_TASK_STATE_RUNNING
                  then sched_interrupt_running w (task_id (sw_tasks w task)) else w)
         in (w, sc, PRS_OK))
      else (w, sc, PRS_OK))"

section \<open>Schedulers in memory\<close>

definition sc_rep ::
  "ptr set \<Rightarrow> prs_mpsciq_nodes \<Rightarrow> prs_sched_swcoop \<Rightarrow> ptr list \<Rightarrow> ptr list \<Rightarrow> bool" where
  "sc_rep U m sc rq rem \<longleftrightarrow>
     ud_blocks U \<and> set rq \<subseteq> U \<and> set rem \<subseteq> U
     \<and> udq m (sc_readyq sc) ud_ready_node rq \<and> udq m (sc_removeq sc) ud_remove_node rem
     \<and> (\<forall>u \<in> U. u \<notin> set rq \<longrightarrow> iq_unlinked m (u + ud_ready_node))
     \<and> (\<forall>u \<in> U. u \<notin> set rem \<longrightarrow> iq_unlinked m (u + ud_remove_node))"

lemma sc_repD:
  assumes "sc_rep U m sc rq rem"
  shows "ud_blocks U" and "set rq \<subseteq> U" and "set rem \<subseteq> U"
    and "udq m (sc_readyq sc) ud_ready_node rq" and "udq m (sc_removeq sc) ud_remove_node rem"
    and "\<And>u. u \<in> U \<Longrightarrow> u \<notin> set rq \<Longrightarrow> iq_unlinked m (u + ud_ready_node)"
    and "\<And>u. u \<in> U \<Longrightarrow> u \<notin> set rem \<Longrightarrow> iq_unlinked m (u + ud_remove_node)"
  using assms unfolding sc_rep_def by blast+

text \<open>An operation on one queue leaves the other alone.\<close>

lemma sc_apart:
  assumes "ud_blocks U" and "set vs \<subseteq> U" and "u \<in> U"
  shows "u + ud_remove_node \<notin> ud_nodes ud_ready_node vs" and "u + ud_ready_node \<notin> ud_nodes ud_remove_node vs"
proof -
  have "v \<in> U" if "v \<in> set vs" for v using assms(2) that by blast
  then have ne: "v + ud_ready_node \<noteq> u + ud_remove_node" "u + ud_ready_node \<noteq> v + ud_remove_node"
    if "v \<in> set vs" for v
    using assms(1,3) that unfolding ud_blocks_def by blast+
  show "u + ud_remove_node \<notin> ud_nodes ud_ready_node vs" "u + ud_ready_node \<notin> ud_nodes ud_remove_node vs"
    using ne by fastforce+
qed

lemma sc_rep_ready:
  assumes "sc_rep U m sc rq rem" and "udq m' q ud_ready_node us"
    and "iq_same_outside (ud_nodes ud_ready_node vs) m m'" and "set us \<subseteq> set vs" and "set vs \<subseteq> U"
    and "set rq \<subseteq> set vs" and "\<forall>u \<in> set vs - set us. iq_unlinked m' (u + ud_ready_node)"
  shows "sc_rep U m' (sc\<lparr>sc_readyq := q\<rparr>) us rem"
proof -
  note r = sc_repD [OF assms(1)]
  note apart = sc_apart(1) [OF r(1) assms(5)]
  have "udq m' (sc_removeq sc) ud_remove_node rem"
  proof (rule udq_frame [OF r(5) assms(3)])
    show "ud_nodes ud_ready_node vs \<inter> ud_nodes ud_remove_node rem = {}"
      using apart [OF subsetD [OF r(3)]] unfolding disjoint_iff by (metis (no_types, lifting) imageE)
  qed
  moreover have "iq_unlinked m' (u + ud_remove_node)" if "u \<in> U" "u \<notin> set rem" for u
    using iq_unlinked_frame [OF r(7) [OF that] assms(3) apart [OF that(1)]] .
  moreover have "iq_unlinked m' (u + ud_ready_node)" if "u \<in> U" "u \<notin> set us" for u
  proof (cases "u \<in> set vs")
    case True
    then show ?thesis using that(2) assms(7) by simp
  next
    case False
    then have "u \<notin> set rq" using assms(6) by blast
    then show ?thesis using iq_unlinked_frame [OF r(6) [OF that(1)] assms(3)] False by simp
  qed
  moreover have "set us \<subseteq> U" using assms(4,5) by (rule subset_trans)
  ultimately show ?thesis using r(1,3) assms(2) unfolding sc_rep_def by simp
qed

lemma sc_rep_remove:
  assumes "sc_rep U m sc rq rem" and "udq m' q ud_remove_node us"
    and "iq_same_outside (ud_nodes ud_remove_node vs) m m'" and "set us \<subseteq> set vs" and "set vs \<subseteq> U"
    and "set rem \<subseteq> set vs" and "\<forall>u \<in> set vs - set us. iq_unlinked m' (u + ud_remove_node)"
  shows "sc_rep U m' (sc\<lparr>sc_removeq := q\<rparr>) rq us"
proof -
  note r = sc_repD [OF assms(1)]
  note apart = sc_apart(2) [OF r(1) assms(5)]
  have "udq m' (sc_readyq sc) ud_ready_node rq"
  proof (rule udq_frame [OF r(4) assms(3)])
    show "ud_nodes ud_remove_node vs \<inter> ud_nodes ud_ready_node rq = {}"
      using apart [OF subsetD [OF r(2)]] unfolding disjoint_iff by (metis (no_types, lifting) imageE)
  qed
  moreover have "iq_unlinked m' (u + ud_ready_node)" if "u \<in> U" "u \<notin> set rq" for u
    using iq_unlinked_frame [OF r(6) [OF that] assms(3) apart [OF that(1)]] .
  moreover have "iq_unlinked m' (u + ud_remove_node)" if "u \<in> U" "u \<notin> set us" for u
  proof (cases "u \<in> set vs")
    case True
    then show ?thesis using that(2) assms(7) by simp
  next
    case False
    then have "u \<notin> set rem" using assms(6) by blast
    then show ?thesis using iq_unlinked_frame [OF r(7) [OF that(1)] assms(3)] False by simp
  qed
  moreover have "set us \<subseteq> U" using assms(4,5) by (rule subset_trans)
  ultimately show ?thesis using r(1,2) assms(2) unfolding sc_rep_def by simp
qed

lemma sc_rep_shrink:
  "sc_rep U m sc rq rem \<Longrightarrow> V \<subseteq> U \<Longrightarrow> set rem \<subseteq> V \<Longrightarrow> set rq \<subseteq> V \<Longrightarrow> sc_rep V m sc rq rem"
  by (simp add: sc_rep_def ud_blocks_def subset_iff)

section \<open>Removing tasks\<close>

definition sc_link :: "ptr set \<Rightarrow> sched_world \<Rightarrow> bool" where
  "sc_link U w \<longleftrightarrow>
     (\<forall>u \<in> U. sw_udtask w u \<noteq> 0 \<and> task_sched_userdata (sw_tasks w (sw_udtask w u)) = u)"

lemma sc_link_inj: "sc_link U w \<Longrightarrow> u \<in> U \<Longrightarrow> v \<in> U \<Longrightarrow> sw_udtask w u = sw_udtask w v \<Longrightarrow> u = v"
  unfolding sc_link_def by metis

lemma sc_link_changes [simp]:
  "sc_link U (w\<lparr>sw_nodes := m\<rparr>) = sc_link U w" "sc_link U (sw_change_state w t st) = sc_link U w"
  by (simp_all add: sc_link_def)

lemma swcoop_unready_correct:
  assumes "sc_rep U (sw_nodes w) sc rq rem"
  shows "\<exists>m' sc'. swcoop_unready (w, sc) u = Some (w\<lparr>sw_nodes := m'\<rparr>, sc')
    \<and> sc_rep U m' sc' (filter (\<lambda>v. v \<noteq> u) rq) rem"
proof -
  note r = sc_repD [OF assms]
  obtain m1 q1 where i1: "prs_mpsciq_is_inserted (sw_nodes w, sc_readyq sc) (u + ud_ready_node)
      = Some ((m1, q1), u \<in> set rq)" "udq m1 q1 ud_ready_node rq"
      "iq_same_outside (ud_nodes ud_ready_node rq) (sw_nodes w) m1"
    by (rule udq_is_inserted [OF r(4)])
  show ?thesis
  proof (cases "u \<in> set rq")
    case False
    then have same: "filter (\<lambda>v. v \<noteq> u) rq = rq" by (auto simp: filter_id_conv)
    have "sc_rep U m1 (sc\<lparr>sc_readyq := q1\<rparr>) rq rem"
      by (rule sc_rep_ready [OF assms i1(2,3) subset_refl r(2) subset_refl]) simp
    then show ?thesis using i1(1) False by (simp add: swcoop_unready_def same) blast
  next
    case True
    have dist: "distinct rq" using udq_distinct [OF r(4)] by simp
    then obtain as bs where d: "rq = as @ u # bs" "filter (\<lambda>v. v \<noteq> u) rq = as @ bs"
      using True by (rule filter_neq_split)
    obtain m2 q2 where r2: "prs_mpsciq_remove (m1, q1) (u + ud_ready_node) = Some (m2, q2)"
        "udq m2 q2 ud_ready_node (as @ bs)" "iq_same_outside (ud_nodes ud_ready_node (as @ u # bs)) m1 m2"
        "iq_unlinked m2 (u + ud_ready_node)"
      using udq_remove [of m1 q1 ud_ready_node as u bs] i1(2) d(1) by metis
    have out: "iq_same_outside (ud_nodes ud_ready_node rq) (sw_nodes w) m2"
      using i1(3) r2(3) unfolding d(1) iq_same_outside_def by auto
    have "set rq - set (as @ bs) = {u}" "set (as @ bs) \<subseteq> set rq" using dist d(1) by auto
    then have "sc_rep U m2 (sc\<lparr>sc_readyq := q2\<rparr>) (as @ bs) rem"
      using r2(4) by (intro sc_rep_ready [OF assms r2(2) out _ r(2) subset_refl]) simp_all
    then show ?thesis using i1(1) True r2(1) by (simp add: swcoop_unready_def d(2)) blast
  qed
qed

lemma swcoop_removed_link:
  assumes "sc_link U w" and "u \<in> U"
  shows "sc_link (U - {u}) (sched_removed w u\<lparr>sw_nodes := m\<rparr>)"
proof -
  have "sw_udtask w v \<noteq> sw_udtask w u" if "v \<in> U - {u}" for v
    using sc_link_inj [OF assms, of v] that by auto
  then show ?thesis using assms(1) by (auto simp: sc_link_def sched_removed_def Let_def)
qed

lemma swcoop_remove_step:
  assumes "sched_quiet ops_of" and "sc_rep U (sw_nodes w) sc rq (u # rem)" and "sw_udtask w u \<noteq> current"
  obtains m' sc' where
    "swcoop_remove_loop ops_of (god, w) sc current (u + ud_remove_node) =
       swcoop_remove_loop ops_of (god_release god (task_id (sw_tasks w (sw_udtask w u))),
           (sched_removed w u)\<lparr>sw_nodes := m'\<rparr>) sc' current
         (if rem = [] then 0 else hd rem + ud_remove_node)"
    and "sc_rep (U - {u}) m' sc' (filter (\<lambda>v. v \<noteq> u) rq) rem"
proof -
  let ?t = "sw_udtask w u" and ?rq = "filter (\<lambda>v. v \<noteq> u) rq"
  note r = sc_repD [OF assms(2)]
  have nz: "u + ud_remove_node \<noteq> 0" and du: "u \<notin> set rem" using udq_distinct [OF r(5)] by auto
  obtain m1 sc1 where s1: "swcoop_unready (w, sc) u = Some (w\<lparr>sw_nodes := m1\<rparr>, sc1)"
      "sc_rep U m1 sc1 ?rq (u # rem)"
    using swcoop_unready_correct [OF assms(2), of u] by blast
  have q1: "udq m1 (sc_removeq sc1) ud_remove_node ([] @ u # rem)" using sc_repD(5) [OF s1(2)] by simp
  obtain m2 q2 where r2: "prs_mpsciq_remove (m1, sc_removeq sc1) (u + ud_remove_node) = Some (m2, q2)"
      "udq m2 q2 ud_remove_node ([] @ rem)" "iq_unlinked m2 (u + ud_remove_node)"
      "iq_same_outside (ud_nodes ud_remove_node ([] @ u # rem)) m1 m2"
    by (rule udq_remove [OF q1])
  have q2: "udq m2 q2 ud_remove_node rem" using r2(2) by simp
  obtain m3 q3 where b3: "prs_mpsciq_begin (m2, q2) = Some ((m3, q3), if rem = [] then 0 else hd rem + ud_remove_node)"
      "udq m3 q3 ud_remove_node rem" "iq_same_outside (ud_nodes ud_remove_node rem) m2 m3"
    by (rule udq_begin [OF q2])
  have out: "iq_same_outside (ud_nodes ud_remove_node (u # rem)) m1 m3"
    using r2(4) b3(3) unfolding iq_same_outside_def by auto
  have u3: "iq_unlinked m3 (u + ud_remove_node)"
    by (rule iq_unlinked_frame [OF r2(3) b3(3)]) (use du in simp)
  have "sc_rep U m3 (sc1\<lparr>sc_removeq := q3\<rparr>) ?rq rem"
    by (rule sc_rep_remove [OF s1(2) b3(2) out _ r(3)]) (use u3 in auto)
  then have rep: "sc_rep (U - {u}) m3 (sc1\<lparr>sc_removeq := q3\<rparr>) ?rq rem"
    by (rule sc_rep_shrink) (use r(2,3) du in auto)
  have run: "swcoop_remove_loop ops_of (god, w) sc current (u + ud_remove_node) =
       swcoop_remove_loop ops_of (god_release god (task_id (sw_tasks w ?t)),
           (sched_removed w u)\<lparr>sw_nodes := m3\<rparr>) (sc1\<lparr>sc_removeq := q3\<rparr>) current
         (if rem = [] then 0 else hd rem + ud_remove_node)"
    using nz assms(3) s1(1) r2(1) b3(1)
    by (subst swcoop_remove_loop.simps)
      (simp add: udq_get_data [OF r(5)] sw_change_state_def sw_set_task_def sched_removed_def Let_def
        god_unlock_quiet [OF assms(1)] prs_task_change_state_def)
  show thesis by (rule that [OF run rep])
qed

lemma swcoop_remove_loop_prefix:
  assumes "sched_quiet ops_of" and "sc_rep U (sw_nodes w) sc rq (us @ rem)" and "sc_link U w"
    and "\<forall>u \<in> set us. sw_udtask w u \<noteq> current"
  shows "\<exists>m' sc'. swcoop_remove_loop ops_of (god, w) sc current
      (if us @ rem = [] then 0 else hd (us @ rem) + ud_remove_node)
    = swcoop_remove_loop ops_of (fold (\<lambda>u g. god_release g (task_id (sw_tasks w (sw_udtask w u)))) us god,
        (sched_removed_all w us)\<lparr>sw_nodes := m'\<rparr>) sc' current (if rem = [] then 0 else hd rem + ud_remove_node)
    \<and> sc_rep (U - set us) m' sc' (filter (\<lambda>u. u \<notin> set us) rq) rem
    \<and> sc_link (U - set us) ((sched_removed_all w us)\<lparr>sw_nodes := m'\<rparr>)"
  using assms(2-4)
proof (induction us arbitrary: U w sc rq god)
  case Nil
  then show ?case by (intro exI [of _ "sw_nodes w"] exI [of _ sc]) simp
next
  case (Cons u us)
  let ?rq = "filter (\<lambda>v. v \<noteq> u) rq"
  have cur: "sw_udtask w u \<noteq> current" and rep: "sc_rep U (sw_nodes w) sc rq (u # us @ rem)"
    using Cons.prems by simp_all
  have uU: "u \<in> U" and "set us \<subseteq> U" and "u \<notin> set us"
    using sc_repD(3) [OF rep] udq_distinct [OF sc_repD(5) [OF rep]] by auto
  then have ne: "\<forall>v \<in> set us. sw_udtask w v \<noteq> sw_udtask w u" using sc_link_inj [OF Cons.prems(2)] by blast
  obtain m1 sc1 where s1: "swcoop_remove_loop ops_of (god, w) sc current (u + ud_remove_node) =
       swcoop_remove_loop ops_of (god_release god (task_id (sw_tasks w (sw_udtask w u))),
           (sched_removed w u)\<lparr>sw_nodes := m1\<rparr>) sc1 current
         (if us @ rem = [] then 0 else hd (us @ rem) + ud_remove_node)"
      "sc_rep (U - {u}) m1 sc1 ?rq (us @ rem)"
    by (rule swcoop_remove_step [OF assms(1) rep cur])
  let ?w = "(sched_removed w u)\<lparr>sw_nodes := m1\<rparr>"
  have link: "sc_link (U - {u}) ?w" by (rule swcoop_removed_link [OF Cons.prems(2) uU])
  have rep1: "sc_rep (U - {u}) (sw_nodes ?w) sc1 ?rq (us @ rem)" using s1(2) by simp
  have cur1: "\<forall>v \<in> set us. sw_udtask ?w v \<noteq> current" using Cons.prems(3) by (simp add: sched_removed_fields)
  have ids: "fold (\<lambda>v g. god_release g (task_id (sw_tasks ?w (sw_udtask ?w v)))) us g
      = fold (\<lambda>v g. god_release g (task_id (sw_tasks w (sw_udtask w v)))) us g" for g
    by (rule fold_cong) (use ne in \<open>auto simp: sched_removed_fields\<close>)
  have sets: "U - {u} - set us = U - set (u # us)"
    "filter (\<lambda>v. v \<notin> set us) ?rq = filter (\<lambda>v. v \<notin> set (u # us)) rq"
    by (auto intro: filter_cong)
  from Cons.IH [OF rep1 link cur1, of "god_release god (task_id (sw_tasks w (sw_udtask w u)))"]
  show ?case
    unfolding sets ids sched_removed_all_nodes using s1(1) by simp
qed

section \<open>The decision\<close>

definition sc_inv :: "ptr set \<Rightarrow> sched_world \<Rightarrow> prs_sched_swcoop \<Rightarrow> ptr list \<Rightarrow> ptr list \<Rightarrow> bool" where
  "sc_inv U w sc rq rem \<longleftrightarrow> sc_rep U (sw_nodes w) sc rq rem \<and> sc_link U w
     \<and> (\<forall>u \<in> set rq. \<not> sched_is_running w (sw_udtask w u))"

text \<open>The specification: the queue afterwards and the next task.\<close>

definition swcoop_spec :: "ptr list \<Rightarrow> bool \<Rightarrow> (ptr \<Rightarrow> ptr) \<Rightarrow> ptr \<Rightarrow> ptr list \<times> ptr" where
  "swcoop_spec rq running task_at current =
     (if running then (rq, current) else case rq of [] \<Rightarrow> ([], 0) | u # us \<Rightarrow> (us, task_at u))"

text \<open>What follows the removals.\<close>

lemma swcoop_decide:
  assumes "sc_inv U w sc rq []" and "\<not> sched_is_running w current"
  shows "\<exists>w' sc'. Option.bind (prs_mpsciq_begin (sw_nodes w, sc_readyq sc)) (\<lambda>((m, q), node).
       if node = 0 then Some ((god, w\<lparr>sw_nodes := m\<rparr>), sc\<lparr>sc_readyq := q\<rparr>, True, 0)
       else (let userdata = prs_mpsciq_get_data q node in
             Option.bind (prs_mpsciq_remove (m, q) node) (\<lambda>(m, q).
               let next_task = sw_udtask w userdata;
                   w = sw_change_state (w\<lparr>sw_nodes := m\<rparr>) next_task PRS_TASK_STATE_RUNNING
               in Some ((god, w), sc\<lparr>sc_readyq := q\<rparr>, True, next_task))))
      = Some ((god, w'), sc', True, snd (swcoop_spec rq False (sw_udtask w) current))
    \<and> sc_inv U w' sc' (fst (swcoop_spec rq False (sw_udtask w) current)) []
    \<and> (rq \<noteq> [] \<longrightarrow> sched_is_running w' (snd (swcoop_spec rq False (sw_udtask w) current)))
    \<and> sw_freed w' = sw_freed w \<and> sw_udtask w' = sw_udtask w"
proof -
  have rep: "sc_rep U (sw_nodes w) sc rq []" and link: "sc_link U w"
    and idle: "\<forall>u \<in> set rq. \<not> sched_is_running w (sw_udtask w u)" using assms(1) by (simp_all add: sc_inv_def)
  note r = sc_repD [OF rep]
  obtain m1 q1 where b1: "prs_mpsciq_begin (sw_nodes w, sc_readyq sc)
      = Some ((m1, q1), if rq = [] then 0 else hd rq + ud_ready_node)" "udq m1 q1 ud_ready_node rq"
      "iq_same_outside (ud_nodes ud_ready_node rq) (sw_nodes w) m1"
    by (rule udq_begin [OF r(4)])
  have rep1: "sc_rep U m1 (sc\<lparr>sc_readyq := q1\<rparr>) rq []"
    by (rule sc_rep_ready [OF rep b1(2,3) subset_refl r(2) subset_refl]) simp
  show ?thesis
  proof (cases rq)
    case Nil
    have "sc_inv U (w\<lparr>sw_nodes := m1\<rparr>) (sc\<lparr>sc_readyq := q1\<rparr>) [] []"
      using rep1 link Nil by (simp add: sc_inv_def)
    then show ?thesis using b1(1) Nil
      by (intro exI [of _ "w\<lparr>sw_nodes := m1\<rparr>"] exI [of _ "sc\<lparr>sc_readyq := q1\<rparr>"]) (simp add: swcoop_spec_def)
  next
    case (Cons u us)
    let ?t = "sw_udtask w u"
    have q1: "udq m1 q1 ud_ready_node ([] @ u # us)" using b1(2) Cons by simp
    obtain m2 q2 where r2: "prs_mpsciq_remove (m1, q1) (u + ud_ready_node) = Some (m2, q2)"
        "udq m2 q2 ud_ready_node ([] @ us)" "iq_unlinked m2 (u + ud_ready_node)"
        "iq_same_outside (ud_nodes ud_ready_node ([] @ u # us)) m1 m2"
      by (rule udq_remove [OF q1])
    have q2: "udq m2 q2 ud_ready_node us" using r2(2) by simp
    have out: "iq_same_outside (ud_nodes ud_ready_node rq) (sw_nodes w) m2"
      using b1(3) r2(4) Cons unfolding iq_same_outside_def by simp
    let ?w = "sw_change_state (w\<lparr>sw_nodes := m2\<rparr>) ?t PRS_TASK_STATE_RUNNING"
    have rep2: "sc_rep U m2 (sc\<lparr>sc_readyq := q2\<rparr>) us []"
      by (rule sc_rep_ready [OF rep q2 out _ r(2) subset_refl]) (use Cons r2(3) in auto)
    have nz: "u + ud_ready_node \<noteq> 0" and du: "u \<notin> set us" using udq_distinct [OF q1] by auto
    have uU: "u \<in> U" "set us \<subseteq> U" using r(2) Cons by auto
    have "\<not> sched_is_running ?w (sw_udtask w v)" if "v \<in> set us" for v
    proof -
      have "sw_udtask w v \<noteq> ?t" using sc_link_inj [OF link, of v u] uU that du by auto
      then show ?thesis using idle that Cons by simp
    qed
    then have inv: "sc_inv U ?w (sc\<lparr>sc_readyq := q2\<rparr>) us []"
      unfolding sc_inv_def using rep2 link by simp
    have "?t \<noteq> 0" using link uU by (simp add: sc_link_def)
    then have running: "sched_is_running ?w ?t" by simp
    have spec: "swcoop_spec rq False (sw_udtask w) current = (us, ?t)" by (simp add: swcoop_spec_def Cons)
    show ?thesis
      unfolding spec fst_conv snd_conv using b1(1) r2(1) inv running nz Cons udq_get_data [OF q1]
      by (intro exI [of _ ?w] exI [of _ "sc\<lparr>sc_readyq := q2\<rparr>"]) (simp add: Let_def)
  qed
qed

lemma swcoop_get_next_result:
  assumes "sched_quiet ops_of" and "sc_inv U w sc rq rem"
    and "current = 0 \<or> (\<exists>c \<in> U - set rem. sw_udtask w c = current)"
    and "swcoop_spec (filter (\<lambda>u. u \<notin> set rem) rq) (sched_is_running w current) (sw_udtask w) current = (rq', task)"
  shows "\<exists>w' sc'. prs_sched_swcoop_get_next ops_of (god, w) sc current =
      Some ((fold (\<lambda>u g. god_release g (task_id (sw_tasks w (sw_udtask w u)))) rem god, w'), sc', True, task)
    \<and> sc_inv (U - set rem) w' sc' rq' []
    \<and> (task \<noteq> 0 \<longrightarrow> sched_is_running w' task)
    \<and> sw_freed w' = sw_freed w @ rem \<and> sw_udtask w' = sw_udtask w"
proof -
  have rep: "sc_rep U (sw_nodes w) sc rq rem" and link: "sc_link U w"
    and idle: "\<forall>u \<in> set rq. \<not> sched_is_running w (sw_udtask w u)" using assms(2) by (simp_all add: sc_inv_def)
  note r = sc_repD [OF rep]
  obtain m1 q1 where b: "prs_mpsciq_begin (sw_nodes w, sc_removeq sc)
      = Some ((m1, q1), if rem = [] then 0 else hd rem + ud_remove_node)"
      "udq m1 q1 ud_remove_node rem" "iq_same_outside (ud_nodes ud_remove_node rem) (sw_nodes w) m1"
    by (rule udq_begin [OF r(5)])
  let ?w = "w\<lparr>sw_nodes := m1\<rparr>" and ?sc = "sc\<lparr>sc_removeq := q1\<rparr>" and ?rq = "filter (\<lambda>u. u \<notin> set rem) rq"
  let ?god = "fold (\<lambda>u g. god_release g (task_id (sw_tasks w (sw_udtask w u)))) rem god"
  have nocur: "\<forall>u \<in> set rem. sw_udtask w u \<noteq> current"
  proof
    fix u assume u: "u \<in> set rem"
    then have "sw_udtask w u \<noteq> 0" using r(3) link by (auto simp: sc_link_def)
    with assms(3) show "sw_udtask w u \<noteq> current" using sc_link_inj [OF link, of u] u r(3) by (metis DiffE subsetD)
  qed
  have "sc_rep U m1 ?sc rq rem" by (rule sc_rep_remove [OF rep b(2,3) subset_refl r(3) subset_refl]) simp
  then have "sc_rep U (sw_nodes ?w) ?sc rq (rem @ [])" "sc_link U ?w" "\<forall>u \<in> set rem. sw_udtask ?w u \<noteq> current"
    using link nocur by simp_all
  from swcoop_remove_loop_prefix [OF assms(1) this, of god] obtain m2 sc2 where l:
    "swcoop_remove_loop ops_of (god, ?w) ?sc current (if rem = [] then 0 else hd rem + ud_remove_node)
      = swcoop_remove_loop ops_of (?god, (sched_removed_all w rem)\<lparr>sw_nodes := m2\<rparr>) sc2 current 0"
    "sc_rep (U - set rem) m2 sc2 ?rq []" "sc_link (U - set rem) (sched_removed_all w rem)"
    unfolding sched_removed_all_nodes append_Nil2 by simp blast
  let ?w2 = "(sched_removed_all w rem)\<lparr>sw_nodes := m2\<rparr>"
  have other: "sw_udtask w u \<notin> sw_udtask w ` set rem" if "u \<in> set ?rq" for u
    using sc_link_inj [OF link, of u] that r(2,3) by auto
  have inv2: "sc_inv (U - set rem) ?w2 sc2 ?rq []"
    using l(2,3) idle other by (auto simp: sc_inv_def sched_removed_all_fields sched_removed_all_running)
  have cur: "current \<notin> sw_udtask w ` set rem" using nocur by auto
  have run2: "sched_is_running ?w2 current = sched_is_running w current"
    by (simp add: sched_removed_all_running [OF cur])
  note fields = sched_removed_all_fields(1,4)
  note loop = l(1) [unfolded swcoop_remove_loop.simps [where remove_node = 0]]
  show ?thesis
  proof (cases "sched_is_running w current")
    case True
    then have "rq' = ?rq" "task = current" using assms(4) by (simp_all add: swcoop_spec_def)
    moreover have "prs_sched_swcoop_get_next ops_of (god, w) sc current = Some ((?god, ?w2), sc2, True, current)"
      using b(1) loop True run2 by (simp add: prs_sched_swcoop_get_next_def)
    ultimately show ?thesis using inv2 True run2 fields by auto
  next
    case False
    have spec: "swcoop_spec ?rq False (sw_udtask ?w2) current = (rq', task)"
      using assms(4) False by (simp add: fields)
    have nz: "task \<noteq> 0 \<Longrightarrow> ?rq \<noteq> []" using spec by (auto simp: swcoop_spec_def)
    have "\<not> sched_is_running ?w2 current" using False run2 by simp
    from swcoop_decide [OF inv2 this, of ?god, unfolded spec fst_conv snd_conv]
    obtain w' sc' where d: "Option.bind (prs_mpsciq_begin (sw_nodes ?w2, sc_readyq sc2)) (\<lambda>((m, q), node).
       if node = 0 then Some ((?god, ?w2\<lparr>sw_nodes := m\<rparr>), sc2\<lparr>sc_readyq := q\<rparr>, True, 0)
       else (let userdata = prs_mpsciq_get_data q node in
             Option.bind (prs_mpsciq_remove (m, q) node) (\<lambda>(m, q).
               let next_task = sw_udtask ?w2 userdata;
                   w = sw_change_state (?w2\<lparr>sw_nodes := m\<rparr>) next_task PRS_TASK_STATE_RUNNING
               in Some ((?god, w), sc2\<lparr>sc_readyq := q\<rparr>, True, next_task))))
        = Some ((?god, w'), sc', True, task)" "sc_inv (U - set rem) w' sc' rq' []"
      "?rq \<noteq> [] \<longrightarrow> sched_is_running w' task" "sw_freed w' = sw_freed ?w2" "sw_udtask w' = sw_udtask ?w2" by blast
    have "prs_sched_swcoop_get_next ops_of (god, w) sc current = Some ((?god, w'), sc', True, task)"
      using b(1) loop False run2 d(1) by (simp add: prs_sched_swcoop_get_next_def)
    then show ?thesis using d nz fields by auto
  qed
qed

section \<open>The order of the dispatch\<close>

type_synonym sc_system = "sched_world god_world \<times> prs_sched_swcoop"

definition swcoop_waiting :: "sc_system \<Rightarrow> ptr list \<Rightarrow> bool" where
  "swcoop_waiting s us \<longleftrightarrow> (\<exists>U. sc_inv U (snd (fst s)) (snd s) us [])"

definition swcoop_next :: "sc_system \<Rightarrow> (sc_system \<times> ptr) option" where
  "swcoop_next s =
     (case prs_sched_swcoop_get_next no_ops (fst s) (snd s) 0 of
        Some (s', sc', True, t) \<Rightarrow> Some ((s', sc'), t) | _ \<Rightarrow> None)"

lemma swcoop_next_result:
  assumes "sc_inv U w sc rq []" and "swcoop_spec rq False (sw_udtask w) 0 = (rq', task)"
  shows "\<exists>w' sc'. swcoop_next ((god, w), sc) = Some (((god, w'), sc'), task)
    \<and> sc_inv U w' sc' rq' [] \<and> sw_udtask w' = sw_udtask w"
proof -
  have "swcoop_spec (filter (\<lambda>u. u \<notin> set []) rq) (sched_is_running w 0) (sw_udtask w) 0 = (rq', task)"
    using assms(2) by (simp add: sched_is_running_def)
  from swcoop_get_next_result [OF no_ops_quiet assms(1) _ this, of god] show ?thesis
    by (auto simp: swcoop_next_def)
qed

interpretation swcoop: task_dispatcher swcoop_waiting swcoop_next "\<lambda>s. sw_udtask (snd (fst s))"
proof unfold_locales
  fix s :: sc_system and u us
  obtain god w sc where s: "s = ((god, w), sc)" by (metis prod.collapse)
  show "\<exists>s'. swcoop_next s = Some (s', 0) \<and> swcoop_waiting s' []" if "swcoop_waiting s []"
  proof -
    from that obtain U where "sc_inv U w sc [] []" unfolding swcoop_waiting_def s by auto
    from swcoop_next_result [OF this, of "[]" 0 god] show ?thesis
      unfolding s by (auto simp: swcoop_waiting_def swcoop_spec_def)
  qed
  show "\<exists>s'. swcoop_next s = Some (s', sw_udtask (snd (fst s)) u) \<and> swcoop_waiting s' us
      \<and> sw_udtask (snd (fst s')) = sw_udtask (snd (fst s))" if "swcoop_waiting s (u # us)"
  proof -
    from that obtain U where "sc_inv U w sc (u # us) []" unfolding swcoop_waiting_def s by auto
    from swcoop_next_result [OF this, of us "sw_udtask w u" god] show ?thesis
      unfolding s by (auto simp: swcoop_waiting_def swcoop_spec_def)
  qed
qed

section \<open>New and ready tasks\<close>

lemma swcoop_init_inv:
  assumes "prs_sched_swcoop_init (Some a) (Some b) (Some c) = SwcoopReady sc"
  shows "sc_inv {} w sc [] []"
proof -
  have sc: "sc_readyq sc = the (prs_mpsciq_create ud_ready_node (Some b))"
      "sc_removeq sc = the (prs_mpsciq_create ud_remove_node (Some c))"
    using assms by (auto simp: prs_sched_swcoop_init_def split: option.splits)
  have "udq m (the (prs_mpsciq_create off (Some a))) off []" for m off a
    by (rule udq_create [of off a]) (simp add: prs_mpsciq_create_def)
  then show ?thesis by (simp add: sc_inv_def sc_rep_def sc_link_def sc ud_blocks_def)
qed

text \<open>A ready task joins the queue, and one worker is signalled.\<close>

lemma swcoop_ready_result:
  assumes "sc_inv U w sc rq rem" and "c \<in> U" and "t = sw_udtask w c" and "c \<notin> set rq"
    and "\<not> sched_is_running w t"
  shows "\<exists>w' sc'. prs_sched_swcoop_ready sig w sc t = (w', sc', sig (last_or (sw_workers w) 0))
    \<and> sc_inv U w' sc' (rq @ [c]) rem \<and> sw_tasks w' = sw_tasks w \<and> sw_udtask w' = sw_udtask w
    \<and> sw_signaled w' = sw_signaled w @ [last_or (sw_workers w) 0]"
proof -
  have rep: "sc_rep U (sw_nodes w) sc rq rem" and link: "sc_link U w"
    and idle: "\<forall>u \<in> set rq. \<not> sched_is_running w (sw_udtask w u)" using assms(1) by (simp_all add: sc_inv_def)
  note r = sc_repD [OF rep]
  have ud: "task_sched_userdata (sw_tasks w t) = c" using link assms(2,3) by (simp add: sc_link_def)
  obtain m' q' where push: "prs_mpsciq_push (sw_nodes w, sc_readyq sc) (c + ud_ready_node) = (m', q')"
      "udq m' q' ud_ready_node (rq @ [c])" "iq_same_outside {c + ud_ready_node} (sw_nodes w) m'"
    using udq_push [OF r(4) r(6) [OF assms(2,4)] assms(4)] by blast
  have out: "iq_same_outside (ud_nodes ud_ready_node (rq @ [c])) (sw_nodes w) m'"
    using push(3) by (simp add: iq_same_outside_def)
  have rep': "sc_rep U m' (sc\<lparr>sc_readyq := q'\<rparr>) (rq @ [c]) rem"
    by (rule sc_rep_ready [OF rep push(2) out subset_refl]) (use r(2) assms(2) in auto)
  have last_worker: "fold (\<lambda>x _. x) ws p = last_or ws p" for ws :: "ptr list" and p
    by (induction ws arbitrary: p) simp_all
  let ?w = "w\<lparr>sw_nodes := m', sw_signaled := sw_signaled w @ [last_or (sw_workers w) 0]\<rparr>"
  have run: "prs_sched_swcoop_ready sig w sc t = (?w, sc\<lparr>sc_readyq := q'\<rparr>, sig (last_or (sw_workers w) 0))"
    using push(1) ud by (simp add: prs_sched_swcoop_ready_def last_worker Let_def)
  have "sc_link U ?w" "\<And>x. sched_is_running ?w x = sched_is_running w x"
    using link by (simp_all add: sc_link_def sched_is_running_def)
  then have "sc_inv U ?w (sc\<lparr>sc_readyq := q'\<rparr>) (rq @ [c]) rem"
    using rep' idle assms(3,5) by (simp add: sc_inv_def)
  then show ?thesis using run by simp
qed

lemma sc_inv_new_block:
  assumes "sc_inv U w sc rq rem" and "u \<notin> U" and "ud_blocks (insert u U)"
    and "u + ud_ready_node \<noteq> 0" and "u + ud_remove_node \<noteq> 0" and "t \<noteq> 0" and "t \<notin> sw_udtask w ` U"
  shows "sc_inv (insert u U) (w\<lparr>sw_nodes := ud_zeroed u (sw_nodes w),
      sw_tasks := (sw_tasks w)(t := (sw_tasks w t)\<lparr>task_sched_userdata := u\<rparr>),
      sw_udtask := (sw_udtask w)(u := t)\<rparr>) sc rq rem"
proof -
  let ?m = "ud_zeroed u (sw_nodes w)" and ?A = "{u + ud_ready_node, u + ud_remove_node}"
  have rep: "sc_rep U (sw_nodes w) sc rq rem" and link: "sc_link U w"
    and idle: "\<forall>u \<in> set rq. \<not> sched_is_running w (sw_udtask w u)" using assms(1) by (simp_all add: sc_inv_def)
  note r = sc_repD [OF rep]
  have out: "iq_same_outside ?A (sw_nodes w) ?m" by (auto simp: iq_same_outside_def ud_zeroed_def)
  have un: "iq_unlinked ?m (u + ud_ready_node)" "iq_unlinked ?m (u + ud_remove_node)"
    using assms(4,5) by (auto simp: iq_unlinked_def ud_zeroed_def)
  have apart: "v + ud_ready_node \<notin> ?A" "v + ud_remove_node \<notin> ?A" if "v \<in> U" for v
  proof -
    have "v \<noteq> u" using assms(2) that by blast
    moreover have "v + ud_ready_node \<noteq> u + ud_remove_node" "u + ud_ready_node \<noteq> v + ud_remove_node"
      using assms(3) that unfolding ud_blocks_def by blast+
    ultimately show "v + ud_ready_node \<notin> ?A" "v + ud_remove_node \<notin> ?A" by auto
  qed
  have "?A \<inter> ud_nodes ud_ready_node rq = {}" "?A \<inter> ud_nodes ud_remove_node rem = {}"
    using apart(1) [OF subsetD [OF r(2)]] apart(2) [OF subsetD [OF r(3)]]
    unfolding disjoint_iff by (metis (no_types, lifting) imageE)+
  then have q: "udq ?m (sc_readyq sc) ud_ready_node rq" "udq ?m (sc_removeq sc) ud_remove_node rem"
    using udq_frame [OF r(4) out] udq_frame [OF r(5) out] by blast+
  have ur: "iq_unlinked ?m (v + ud_ready_node)" if "v \<in> insert u U" "v \<notin> set rq" for v
  proof (cases "v = u")
    case False
    then have "v \<in> U" using that(1) by simp
    then show ?thesis using iq_unlinked_frame [OF r(6) [OF _ that(2)] out apart(1)] by simp
  qed (use un in simp)
  have um: "iq_unlinked ?m (v + ud_remove_node)" if "v \<in> insert u U" "v \<notin> set rem" for v
  proof (cases "v = u")
    case False
    then have "v \<in> U" using that(1) by simp
    then show ?thesis using iq_unlinked_frame [OF r(7) [OF _ that(2)] out apart(2)] by simp
  qed (use un in simp)
  have rep': "sc_rep (insert u U) ?m sc rq rem"
    unfolding sc_rep_def using assms(3) q subset_insertI2 [OF r(2)] subset_insertI2 [OF r(3)]
    by (intro conjI) (blast intro: ur um)+
  let ?w = "w\<lparr>sw_nodes := ?m, sw_tasks := (sw_tasks w)(t := (sw_tasks w t)\<lparr>task_sched_userdata := u\<rparr>),
      sw_udtask := (sw_udtask w)(u := t)\<rparr>"
  have ne: "sw_udtask w v \<noteq> t" "v \<noteq> u" if "v \<in> U" for v using that assms(2,7) by auto
  have "sc_link (insert u U) ?w" using link ne assms(6) by (simp add: sc_link_def)
  moreover have "\<not> sched_is_running ?w (sw_udtask ?w v)" if "v \<in> set rq" for v
  proof -
    have "v \<in> U" using r(2) that by blast
    then show ?thesis using idle that ne [OF \<open>v \<in> U\<close>] by (simp add: sched_is_running_def)
  qed
  ultimately show ?thesis unfolding sc_inv_def using rep' by simp
qed

lemma swcoop_add_result:
  assumes "sc_inv U w sc rq rem" and "u \<notin> U" and "ud_blocks (insert u U)"
    and "u + ud_ready_node \<noteq> 0" and "u + ud_remove_node \<noteq> 0" and "t \<noteq> 0" and "t \<notin> sw_udtask w ` U"
  shows "\<exists>w' sc'. prs_sched_swcoop_add sig (god, w) sc t (Some u)
      = ((fst (prs_god_lock god (task_id (sw_tasks w t))), w'), sc', sig (last_or (sw_workers w) 0))
    \<and> sc_inv (insert u U) w' sc' (rq @ [u]) rem \<and> sw_udtask w' = (sw_udtask w)(u := t)
    \<and> prs_task_get_state (sw_tasks w' t) = task_state_code PRS_TASK_STATE_READY"
proof -
  let ?w1 = "w\<lparr>sw_nodes := ud_zeroed u (sw_nodes w),
      sw_tasks := (sw_tasks w)(t := (sw_tasks w t)\<lparr>task_sched_userdata := u\<rparr>),
      sw_udtask := (sw_udtask w)(u := t)\<rparr>"
  let ?w2 = "sw_change_state ?w1 t PRS_TASK_STATE_READY"
  have inv: "sc_inv (insert u U) ?w2 sc rq rem"
    using sc_inv_new_block [OF assms] by (simp add: sc_inv_def)
  have fr: "u \<notin> set rq" using sc_repD(2) assms(1,2) unfolding sc_inv_def by blast
  have t: "t = sw_udtask ?w2 u" "\<not> sched_is_running ?w2 t" by simp_all
  have wk: "sw_workers ?w2 = sw_workers w" by (simp add: sw_change_state_def sw_set_task_def)
  from swcoop_ready_result [OF inv insertI1 t(1) fr t(2), of sig] obtain w' sc' where
    r: "prs_sched_swcoop_ready sig ?w2 sc t = (w', sc', sig (last_or (sw_workers w) 0))"
    "sc_inv (insert u U) w' sc' (rq @ [u]) rem" "sw_tasks w' = sw_tasks ?w2" "sw_udtask w' = sw_udtask ?w2"
    unfolding wk by blast
  have "prs_sched_swcoop_add sig (god, w) sc t (Some u)
      = ((fst (prs_god_lock god (task_id (sw_tasks w t))), w'), sc', sig (last_or (sw_workers w) 0))"
    using r(1) by (simp add: prs_sched_swcoop_add_def sw_set_task_def split: prod.split)
  then show ?thesis using r by (simp add: sw_change_state_get)
qed

section \<open>Properties\<close>

definition swcoop_example_world :: sched_world where
  "swcoop_example_world = \<lparr>sw_tasks = (\<lambda>_. task_example), sw_udtask = (\<lambda>_. 0),
     sw_nodes = \<lparr>iqn_next = \<lambda>_. 0, iqn_prev = \<lambda>_. 0\<rparr>, sw_workers = [900],
     sw_current = (\<lambda>_. 0), sw_interrupted = [], sw_signaled = [], sw_freed = []\<rparr>"

text \<open>C13: With the ready queue and the tasks to remove in memory and a current task, if any, that is not
  one of the latter, get_next of the cooperative scheduler returns a decision: the removed tasks leave
  the queue, their blocks are freed and the references on them given back; a running task goes on;
  otherwise the oldest ready task runs, and without one there is no task.\<close>

theorem swcoop_get_next_refines:
  assumes "sched_quiet ops_of" and "sc_inv U w sc rq rem"
    and "current = 0 \<or> (\<exists>c \<in> U - set rem. sw_udtask w c = current)"
    and "swcoop_spec (filter (\<lambda>u. u \<notin> set rem) rq) (sched_is_running w current) (sw_udtask w) current = (rq', task)"
  shows "\<exists>w' sc'. prs_sched_swcoop_get_next ops_of (god, w) sc current =
      Some ((fold (\<lambda>u g. god_release g (task_id (sw_tasks w (sw_udtask w u)))) rem god, w'), sc', True, task)
    \<and> sc_inv (U - set rem) w' sc' rq' []
    \<and> (task \<noteq> 0 \<longrightarrow> sched_is_running w' task)
    \<and> sw_freed w' = sw_freed w @ rem"
  using swcoop_get_next_result [OF assms, of god] by blast

theorem swcoop_get_next_refines_witness:
  "\<exists>w sc w' sc'. prs_sched_swcoop_get_next no_ops (god_example, w) sc 0 = Some ((god_example, w'), sc', True, 77)
     \<and> sched_is_running w' 77 \<and> sc_inv {1000} w' sc' [] []"
proof -
  obtain sc0 where init: "prs_sched_swcoop_init (Some 1) (Some 2) (Some 3) = SwcoopReady sc0"
    by (auto simp: prs_sched_swcoop_init_def prs_mpsciq_create_def)
  have off: "(1000 :: ptr) \<notin> {}" "ud_blocks {1000}" "1000 + ud_ready_node \<noteq> 0" "1000 + ud_remove_node \<noteq> 0"
      "(77 :: ptr) \<noteq> 0" "77 \<notin> sw_udtask swcoop_example_world ` {}"
    by (simp_all add: ud_blocks_def ud_ready_node_def ud_remove_node_def)
  note add = swcoop_add_result [OF swcoop_init_inv [OF init] off, of "\<lambda>_. PRS_OK" god_example]
  obtain w sc where e: "sc_inv {1000} w sc ([] @ [1000]) []" "sw_udtask w = (sw_udtask swcoop_example_world)(1000 := 77)"
    using add by blast
  have "swcoop_spec (filter (\<lambda>u. u \<notin> set []) ([] @ [1000])) (sched_is_running w 0) (sw_udtask w) 0 = ([], 77)"
    by (simp add: swcoop_spec_def sched_is_running_def e(2))
  from swcoop_get_next_refines [OF no_ops_quiet e(1) _ this, of god_example] show ?thesis by auto
qed

end
