(* ===== verification/Str.thy ===== *)
theory Str
  imports Prs_Prelude
begin

text \<open>
  The string functions of \<^verbatim>\<open>prs/lib/str.c\<close>. A destination is the memory from its first byte on, which is
  not bounded: that the functions stay within the buffer is a property. Source strings are the characters
  before the terminator, and they do not overlap the destination.
\<close>

section \<open>Functions\<close>

text \<open>The loop: the bytes of the destination, and the position it stops at (\<^verbatim>\<open>d - dst\<close>, which is \<^verbatim>\<open>pos\<close>).\<close>

fun str_append_loop :: "(nat \<Rightarrow> char) \<Rightarrow> string \<Rightarrow> nat \<Rightarrow> nat \<Rightarrow> (nat \<Rightarrow> char) \<times> nat" where
  "str_append_loop dst [] pos lim = (dst, pos)"
| "str_append_loop dst (c # s) pos lim =
     (if pos < lim then str_append_loop (dst(pos := c)) s (pos + 1) lim else (dst, pos))"

definition prs_str_append :: "(nat \<Rightarrow> char) \<Rightarrow> string \<Rightarrow> nat \<Rightarrow> nat \<Rightarrow> (nat \<Rightarrow> char) \<times> nat" where
  "prs_str_append dst src offset max_size =
     (case str_append_loop dst src offset max_size of (dst', pos) \<Rightarrow> (dst'(pos := CHR 0x00), pos))"

definition prs_str_copy :: "(nat \<Rightarrow> char) \<Rightarrow> string \<Rightarrow> nat \<Rightarrow> (nat \<Rightarrow> char) \<times> nat" where
  "prs_str_copy dst src max_size = prs_str_append dst src 0 max_size"

text \<open>The C library's \<^verbatim>\<open>vsnprintf\<close> on a text that the format and the arguments produce, or \<open>None\<close> for
  an encoding error: it writes at most \<open>n\<close> bytes, the last one a terminator, and returns the length of
  the whole text as an \<^verbatim>\<open>int\<close>.\<close>

definition write_string :: "(nat \<Rightarrow> char) \<Rightarrow> nat \<Rightarrow> string \<Rightarrow> nat \<Rightarrow> char" where
  "write_string dst offset t = (\<lambda>i. if offset \<le> i \<and> i < offset + length t then t ! (i - offset) else dst i)"

definition vsnprintf :: "(nat \<Rightarrow> char) \<Rightarrow> nat \<Rightarrow> u64 \<Rightarrow> string option \<Rightarrow> (nat \<Rightarrow> char) \<times> 32 word" where
  "vsnprintf dst offset n text =
     (case text of
        None \<Rightarrow> (dst, - 1)
      | Some t \<Rightarrow>
          (if n = 0 then dst else write_string dst offset (take (unat n - 1) t @ [CHR 0x00]), word_of_nat (length t)))"

text \<open>The sizes are \<^verbatim>\<open>int\<close>s; their difference is converted to \<^verbatim>\<open>size_t\<close>, and so is the result when it is
  compared.\<close>

definition prs_str_append_vprintf ::
  "(nat \<Rightarrow> char) \<Rightarrow> 32 word \<Rightarrow> 32 word \<Rightarrow> string option \<Rightarrow> (nat \<Rightarrow> char) \<times> 32 word" where
  "prs_str_append_vprintf dst offset max_size text =
     (let n = (scast (max_size - offset) :: u64);
          (dst', r) = vsnprintf dst (unat offset) n text
      in if (scast r :: u64) > n - 1 then (dst', 0) else (dst', offset + r))"

definition prs_str_append_printf ::
  "(nat \<Rightarrow> char) \<Rightarrow> 32 word \<Rightarrow> 32 word \<Rightarrow> string option \<Rightarrow> (nat \<Rightarrow> char) \<times> 32 word" where
  "prs_str_append_printf dst offset max_size text = prs_str_append_vprintf dst offset max_size text"

definition prs_str_vprintf :: "(nat \<Rightarrow> char) \<Rightarrow> 32 word \<Rightarrow> string option \<Rightarrow> (nat \<Rightarrow> char) \<times> 32 word" where
  "prs_str_vprintf dst max_size text = prs_str_append_vprintf dst 0 max_size text"

definition prs_str_printf :: "(nat \<Rightarrow> char) \<Rightarrow> 32 word \<Rightarrow> string option \<Rightarrow> (nat \<Rightarrow> char) \<times> 32 word" where
  "prs_str_printf dst max_size text = prs_str_append_vprintf dst 0 max_size text"

section \<open>Lemmas\<close>

lemma write_string_Nil [simp]: "write_string dst offset [] = dst"
  by (rule ext) (auto simp: write_string_def)

lemma write_string_Cons: "write_string dst offset (c # t) = write_string (dst(offset := c)) (offset + 1) t"
  by (auto simp: write_string_def fun_eq_iff nth_Cons')

lemma write_string_snoc: "write_string dst offset (t @ [c]) = (write_string dst offset t)(offset + length t := c)"
  by (auto simp: write_string_def fun_eq_iff nth_append)

text \<open>The loop copies what fits.\<close>

lemma str_append_loop_eq:
  assumes "pos \<le> lim"
  shows "str_append_loop dst src pos lim =
    (write_string dst pos (take (lim - pos) src), pos + min (length src) (lim - pos))"
  using assms
proof (induction src arbitrary: dst pos)
  case (Cons c src)
  show ?case
  proof (cases "pos < lim")
    case True
    then have "lim - pos = Suc (lim - (pos + 1))" by simp
    then show ?thesis using True Cons.IH [of "pos + 1" "dst(pos := c)"] by (simp add: write_string_Cons del: fun_upd_apply)
  next
    case False
    then show ?thesis using Cons.prems by simp
  qed
qed simp

lemma str_append_eq:
  assumes "offset \<le> max_size"
  shows "prs_str_append dst src offset max_size =
    (write_string dst offset (take (max_size - offset) src @ [CHR 0x00]),
     offset + min (length src) (max_size - offset))"
  using assms by (simp add: prs_str_append_def str_append_loop_eq write_string_snoc)

text \<open>The value of the signed conversions.\<close>

lemma scast_small:
  assumes "unat (v :: 32 word) < 2 ^ 31"
  shows "unat (scast v :: u64) = unat v"
proof -
  have u: "uint v = int (unat v)" by simp
  have "int (unat v) < int (2 ^ 31)" using assms by (simp only: of_nat_less_iff)
  then have lt: "int (unat v) < 2 ^ 31" by (simp only: of_nat_power of_nat_numeral)
  have "sint v = signed_take_bit 31 (int (unat v))" unfolding sint_uint u by simp
  also have "\<dots> = int (unat v)" by (rule signed_take_bit_int_eq_self) (use lt in \<open>simp_all del: of_nat_unat\<close>)
  finally have "(scast v :: u64) = word_of_nat (unat v)" by (simp add: scast_eq)
  then have "unat (scast v :: u64) = unat v mod 2 ^ 64" by (simp only: unat_of_nat) simp
  then show ?thesis using assms by simp
qed

lemma scast_difference:
  assumes "offset \<le> max_size" and "unat max_size < 2 ^ 31"
  shows "unat (scast (max_size - offset :: 32 word) :: u64) = unat max_size - unat offset"
proof -
  have d: "unat (max_size - offset) = unat max_size - unat offset" using assms(1) by (simp add: unat_sub)
  then have "unat (max_size - offset) < 2 ^ 31" using assms(2) by simp
  from scast_small [OF this] d show ?thesis by simp
qed

text \<open>The value of a formatted append.\<close>

lemma str_vprintf_eq:
  assumes "offset \<le> max_size" and "unat max_size < 2 ^ 31" and "unat max_size + length t < 2 ^ 31"
  shows "prs_str_append_vprintf dst offset max_size (Some t) =
      (if offset = max_size then (dst, offset + word_of_nat (length t))
       else if unat offset + length t < unat max_size then (write_string dst (unat offset) (t @ [CHR 0x00]), offset + word_of_nat (length t))
       else (write_string dst (unat offset) (take (unat max_size - unat offset - 1) t @ [CHR 0x00]), 0))"
    and "unat (offset + word_of_nat (length t)) = unat offset + length t"
proof -
  let ?n = "scast (max_size - offset) :: u64" and ?r = "word_of_nat (length t) :: 32 word"
  have n: "unat ?n = unat max_size - unat offset" by (rule scast_difference [OF assms(1,2)])
  have r: "unat ?r = length t" using assms(3) by (simp add: unat_of_nat)
  have "unat (scast ?r :: u64) = unat ?r" by (rule scast_small) (use r assms(3) in simp)
  then have sr: "unat (scast ?r :: u64) = length t" using r by simp
  have le: "unat offset \<le> unat max_size" using assms(1) by (simp add: word_le_nat_alt)
  have "unat offset + length t < 2 ^ 32" using le assms(3) by simp
  then have sum: "unat (offset + ?r) = unat offset + length t"
    using unat_add_no_wrap [of offset ?r] r by simp
  then show "unat (offset + ?r) = unat offset + length t" .
  show "prs_str_append_vprintf dst offset max_size (Some t) =
      (if offset = max_size then (dst, offset + ?r)
       else if unat offset + length t < unat max_size then (write_string dst (unat offset) (t @ [CHR 0x00]), offset + ?r)
       else (write_string dst (unat offset) (take (unat max_size - unat offset - 1) t @ [CHR 0x00]), 0))"
  proof (cases "offset = max_size")
    case True
    then have "\<not> (scast ?r :: u64) > ?n - 1" by (simp add: word_not_simps)
    then show ?thesis using True by (simp add: prs_str_append_vprintf_def vsnprintf_def)
  next
    case False
    then have lt: "unat offset < unat max_size" using le by (simp add: word_unat_eq_iff)
    then have "?n \<noteq> 0" using n by (auto simp: unat_0_iff [symmetric])
    then have n1: "unat (?n - 1) = unat max_size - unat offset - 1" using n by (simp add: unat_minus_one)
    have cmp: "(scast ?r :: u64) > ?n - 1 \<longleftrightarrow> unat max_size \<le> unat offset + length t"
      using n1 sr lt by (auto simp: word_less_nat_alt)
    show ?thesis
      using False cmp lt n \<open>?n \<noteq> 0\<close> by (auto simp: prs_str_append_vprintf_def vsnprintf_def Let_def)
  qed
qed

section \<open>Properties\<close>

text \<open>prs_str_append copies as many characters as there are bytes left in the buffer, puts the
  terminator after them and returns its position; it writes nothing before the offset and nothing after
  the terminator. The terminator is inside the buffer exactly when the text fits together with it;
  otherwise it is written to the byte after the end of the buffer.\<close>

theorem str_append_bounds:
  assumes "offset \<le> max_size"
  shows "case prs_str_append dst src offset max_size of (dst', pos) \<Rightarrow>
    pos = offset + min (length src) (max_size - offset)
    \<and> dst' pos = CHR 0x00 \<and> (\<forall>k < pos - offset. dst' (offset + k) = src ! k)
    \<and> (\<forall>i. i < offset \<or> pos < i \<longrightarrow> dst' i = dst i)
    \<and> (if offset + length src < max_size then pos < max_size else pos = max_size)"
  using assms by (auto simp: str_append_eq write_string_def nth_append)

theorem str_append_bounds_witness:
  "case prs_str_append (\<lambda>_. CHR ''x'') ''abcd'' 0 4 of (dst', pos) \<Rightarrow> pos = 4 \<and> dst' 4 = CHR 0x00"
  using str_append_bounds [of 0 4 "''abcd''" "\<lambda>_. CHR ''x''"] by auto

text \<open>prs_str_append_vprintf with an offset inside the buffer writes only bytes of the buffer. A text
  that fits with its terminator is there in full, and the result is the position after it; a longer one
  is cut, with a terminator in the last byte, and the result is 0. With an offset at the end of the
  buffer nothing is written, no terminator either, and the result is a position outside the buffer.\<close>

theorem str_printf_bounds:
  assumes "offset \<le> max_size" and "unat max_size < 2 ^ 31" and "unat max_size + length t < 2 ^ 31"
  shows "case prs_str_append_vprintf dst offset max_size (Some t) of (dst', r) \<Rightarrow>
    (\<forall>i. i < unat offset \<or> unat max_size \<le> i \<longrightarrow> dst' i = dst i)
    \<and> (if offset = max_size then dst' = dst \<and> unat r = unat max_size + length t
       else if unat offset + length t < unat max_size
       then unat r = unat offset + length t \<and> dst' (unat r) = CHR 0x00 \<and> (\<forall>k < length t. dst' (unat offset + k) = t ! k)
       else r = 0 \<and> dst' (unat max_size - 1) = CHR 0x00)"
proof -
  have "unat offset < unat max_size" if "offset \<noteq> max_size"
    using assms(1) that by (simp add: word_le_nat_alt word_unat_eq_iff)
  then show ?thesis using str_vprintf_eq(2) [OF assms] by (auto simp: str_vprintf_eq(1) [OF assms] write_string_def nth_append)
qed

theorem str_printf_bounds_witness:
  "snd (prs_str_append_vprintf (\<lambda>_. CHR ''x'') 1 4 (Some ''abcd'')) = 0
   \<and> fst (prs_str_append_vprintf (\<lambda>_. CHR ''x'') 1 4 (Some ''abcd'')) 3 = CHR 0x00"
  using str_printf_bounds [of 1 4 "''abcd''" "\<lambda>_. CHR ''x''"] by (simp split: prod.splits)

end
