(* ===== verification/Mem.thy ===== *)
theory Mem
  imports Bitops
begin

text \<open>
  Virtual memory: \<^verbatim>\<open>prs/pal/posix/mem.c\<close> for Linux. The state is the protection of every mapped byte;
  the answer of a system call (an address, or whether it failed) is an argument, because the kernel gives
  it, and the effect of a call that succeeds is the documented one. Error reports only go to the log.
\<close>

section \<open>The system calls\<close>

type_synonym os_memory = "ptr \<Rightarrow> u32 option"

definition PROT_NONE :: u32 where "PROT_NONE = 0"
definition PROT_READ :: u32 where "PROT_READ = 1"
definition PROT_WRITE :: u32 where "PROT_WRITE = 2"
definition PROT_EXEC :: u32 where "PROT_EXEC = 4"
definition MAP_PRIVATE :: u32 where "MAP_PRIVATE = 0x02"
definition MAP_ANONYMOUS :: u32 where "MAP_ANONYMOUS = 0x20"
definition MAP_LOCKED :: u32 where "MAP_LOCKED = 0x2000"
definition MAP_HUGETLB :: u32 where "MAP_HUGETLB = 0x40000"
definition MAP_HUGE_SHIFT :: nat where "MAP_HUGE_SHIFT = 26"
definition MAP_FAILED :: ptr where "MAP_FAILED = - 1"

lemmas PROT_defs = PROT_NONE_def PROT_READ_def PROT_WRITE_def PROT_EXEC_def

text \<open>A byte is in the area of \<open>size\<close> bytes from \<open>p\<close> on when its distance from \<open>p\<close> is smaller.\<close>

definition in_area :: "ptr \<Rightarrow> u64 \<Rightarrow> ptr \<Rightarrow> bool" where
  "in_area p bytes a \<longleftrightarrow> a - p < bytes"

definition set_area :: "os_memory \<Rightarrow> ptr \<Rightarrow> u64 \<Rightarrow> u32 option \<Rightarrow> os_memory" where
  "set_area mem p bytes v = (\<lambda>a. if in_area p bytes a then v else mem a)"

definition mmap :: "os_memory \<Rightarrow> ptr \<Rightarrow> u64 \<Rightarrow> u32 \<Rightarrow> u32 \<Rightarrow> os_memory \<times> ptr" where
  "mmap mem answer bytes prot flags =
     (if answer = MAP_FAILED then (mem, answer) else (set_area mem answer bytes (Some prot), answer))"

definition munmap :: "os_memory \<Rightarrow> bool \<Rightarrow> ptr \<Rightarrow> u64 \<Rightarrow> os_memory" where
  "munmap mem fails p bytes = (if fails then mem else set_area mem p bytes None)"

definition mprotect :: "os_memory \<Rightarrow> bool \<Rightarrow> ptr \<Rightarrow> u64 \<Rightarrow> u32 \<Rightarrow> os_memory" where
  "mprotect mem fails p bytes prot = (if fails then mem else set_area mem p bytes (Some prot))"

section \<open>Operations\<close>

definition PRS_PAL_MEM_FLAG_NONE :: u32 where "PRS_PAL_MEM_FLAG_NONE = 0x00000000"
definition PRS_PAL_MEM_FLAG_READ :: u32 where "PRS_PAL_MEM_FLAG_READ = 0x00000001"
definition PRS_PAL_MEM_FLAG_WRITE :: u32 where "PRS_PAL_MEM_FLAG_WRITE = 0x00000002"
definition PRS_PAL_MEM_FLAG_EXECUTE :: u32 where "PRS_PAL_MEM_FLAG_EXECUTE = 0x00000004"
definition PRS_PAL_MEM_FLAG_GUARD_ONLY :: u32 where "PRS_PAL_MEM_FLAG_GUARD_ONLY = 0x00000008"
definition PRS_PAL_MEM_FLAG_COMMIT :: u32 where "PRS_PAL_MEM_FLAG_COMMIT = 0x80000000"
definition PRS_PAL_MEM_FLAG_LOCK :: u32 where "PRS_PAL_MEM_FLAG_LOCK = 0x40000000"
definition PRS_PAL_MEM_FLAG_LARGE_PAGE :: u32 where "PRS_PAL_MEM_FLAG_LARGE_PAGE = 0x20000000"

definition PRS_PAL_MEM_FLAG_ALL_PROTECTION :: u32 where
  "PRS_PAL_MEM_FLAG_ALL_PROTECTION =
     (PRS_PAL_MEM_FLAG_READ OR PRS_PAL_MEM_FLAG_WRITE OR PRS_PAL_MEM_FLAG_EXECUTE OR PRS_PAL_MEM_FLAG_GUARD_ONLY)"

lemmas MEM_FLAG_defs =
  PRS_PAL_MEM_FLAG_NONE_def PRS_PAL_MEM_FLAG_READ_def PRS_PAL_MEM_FLAG_WRITE_def PRS_PAL_MEM_FLAG_EXECUTE_def
  PRS_PAL_MEM_FLAG_GUARD_ONLY_def PRS_PAL_MEM_FLAG_COMMIT_def PRS_PAL_MEM_FLAG_LOCK_def
  PRS_PAL_MEM_FLAG_LARGE_PAGE_def PRS_PAL_MEM_FLAG_ALL_PROTECTION_def

definition prs_pal_mem_protect_flags :: "u32 \<Rightarrow> u32" where
  "prs_pal_mem_protect_flags flags =
     (let prot = PROT_NONE;
          prot = (if flags AND PRS_PAL_MEM_FLAG_READ \<noteq> 0 then prot OR PROT_READ else prot);
          prot = (if flags AND PRS_PAL_MEM_FLAG_WRITE \<noteq> 0 then prot OR PROT_WRITE else prot);
          prot = (if flags AND PRS_PAL_MEM_FLAG_EXECUTE \<noteq> 0 then prot OR PROT_EXEC else prot)
      in prot)"

definition prs_pal_mem_map :: "u64 \<Rightarrow> os_memory \<Rightarrow> ptr \<Rightarrow> u64 \<Rightarrow> u32 \<Rightarrow> os_memory \<times> ptr" where
  "prs_pal_mem_map huge_page_size mem answer bytes flags =
     (let prot = PROT_NONE;
          mmap_flags = MAP_PRIVATE OR MAP_ANONYMOUS;
          prot = (if flags AND PRS_PAL_MEM_FLAG_COMMIT \<noteq> 0
                  then if flags AND PRS_PAL_MEM_FLAG_ALL_PROTECTION \<noteq> 0
                       then prs_pal_mem_protect_flags flags else prot
                  else prot);
          mmap_flags = (if flags AND PRS_PAL_MEM_FLAG_LARGE_PAGE \<noteq> 0
                        then mmap_flags OR MAP_HUGETLB
                             OR push_bit MAP_HUGE_SHIFT (word_of_int (prs_bitops_hsb_uint64 huge_page_size))
                        else mmap_flags);
          mmap_flags = (if flags AND PRS_PAL_MEM_FLAG_LOCK \<noteq> 0 then mmap_flags OR MAP_LOCKED else mmap_flags)
      in mmap mem answer bytes prot mmap_flags)"

definition prs_pal_mem_unmap :: "os_memory \<Rightarrow> bool \<Rightarrow> ptr \<Rightarrow> u64 \<Rightarrow> os_memory" where
  "prs_pal_mem_unmap mem fails p bytes = munmap mem fails p bytes"

definition prs_pal_mem_commit :: "os_memory \<Rightarrow> bool \<Rightarrow> ptr \<Rightarrow> u64 \<Rightarrow> u32 \<Rightarrow> os_memory" where
  "prs_pal_mem_commit mem fails p bytes flags =
     (let prot = prs_pal_mem_protect_flags flags in mprotect mem fails p bytes prot)"

definition prs_pal_mem_uncommit :: "os_memory \<Rightarrow> bool \<Rightarrow> ptr \<Rightarrow> u64 \<Rightarrow> os_memory" where
  "prs_pal_mem_uncommit mem fails p bytes = mprotect mem fails p bytes PROT_NONE"

definition prs_pal_mem_protect :: "os_memory \<Rightarrow> bool \<Rightarrow> ptr \<Rightarrow> u64 \<Rightarrow> u32 \<Rightarrow> os_memory" where
  "prs_pal_mem_protect mem fails p bytes flags =
     (let prot = prs_pal_mem_protect_flags flags in mprotect mem fails p bytes prot)"

section \<open>Lemmas\<close>

text \<open>The protection of a set of flags is exactly its three access flags.\<close>

lemma or_if_bit:
  "(if (w :: u32) AND 2 ^ k \<noteq> 0 then p OR 2 ^ k else p) = p OR (w AND 2 ^ k)"
  by (rule bit_word_eqI) (auto simp: and_exp_eq_0_iff_not_bit bit_simps)

lemma protect_flags_low_bits: "prs_pal_mem_protect_flags flags = flags AND mask 3"
proof -
  have s: "(2 :: u32) ^ Suc 0 = 2" "(2 :: u32) ^ 0 = 1" "(2 :: u32) ^ 2 = 4" by simp_all
  have "prs_pal_mem_protect_flags flags = ((flags AND 1) OR (flags AND 2)) OR (flags AND 4)"
    unfolding prs_pal_mem_protect_flags_def PROT_defs MEM_FLAG_defs Let_def
      or_if_bit [of flags 0, unfolded s] or_if_bit [of flags "Suc 0", unfolded s] or_if_bit [of flags 2, unfolded s]
    by simp
  also have "\<dots> = flags AND (1 OR 2 OR 4)" by (simp only: bit.conj_disj_distrib or.assoc)
  finally show ?thesis by (simp add: mask_eq_exp_minus_1)
qed

lemma mem_commit_read_write:
  "prs_pal_mem_commit mem False p bytes (PRS_PAL_MEM_FLAG_READ OR PRS_PAL_MEM_FLAG_WRITE) =
     set_area mem p bytes (Some (PROT_READ OR PROT_WRITE))"
  by (simp add: prs_pal_mem_commit_def protect_flags_low_bits mprotect_def PROT_defs MEM_FLAG_defs Let_def mask_numeral)

lemma mem_map_reserve:
  assumes "answer \<noteq> MAP_FAILED"
  shows "prs_pal_mem_map huge mem answer bytes 0 = (set_area mem answer bytes (Some PROT_NONE), answer)"
  using assms by (simp add: prs_pal_mem_map_def mmap_def Let_def)

lemma mem_map_failed: "prs_pal_mem_map huge mem MAP_FAILED bytes flags = (mem, MAP_FAILED)"
  by (simp add: prs_pal_mem_map_def mmap_def Let_def)

end
