(* ===== verification/Stack.thy ===== *)
theory Stack
  imports Mem
begin

text \<open>
  The stack allocator of \<^verbatim>\<open>prs/alloc/stack.c\<close>, in its version for Linux (no extra and no guard pages). A
  stack is an area of \<^verbatim>\<open>PRS_MAX_STACK_SIZE\<close> reserved bytes of which the upper end is committed; its name is
  the address of its upper end. The page size is an argument, as are the answers of the system calls.
\<close>

section \<open>Operations\<close>

definition prs_stack_create ::
  "u64 \<Rightarrow> os_memory \<Rightarrow> ptr \<Rightarrow> bool \<Rightarrow> u64 \<Rightarrow> os_memory \<times> (ptr \<times> u64) option" where
  "prs_stack_create page_size mem map_answer commit_fails requested =
     (let aligned_size = prs_bitops_align_size requested page_size in
      if aligned_size > PRS_MAX_STACK_SIZE then (mem, None)
      else
        (let (mem, stack_bottom) = prs_pal_mem_map 0 mem map_answer PRS_MAX_STACK_SIZE 0 in
         if stack_bottom = 0 then (mem, None)
         else
           (let protected_size = PRS_MAX_STACK_SIZE - aligned_size;
                stack_limit = stack_bottom + protected_size;
                mem = prs_pal_mem_commit mem commit_fails stack_limit aligned_size
                        (PRS_PAL_MEM_FLAG_READ OR PRS_PAL_MEM_FLAG_WRITE);
                stack = stack_bottom + PRS_MAX_STACK_SIZE
            in (mem, Some (stack, aligned_size)))))"

definition prs_stack_destroy :: "os_memory \<Rightarrow> bool \<Rightarrow> ptr \<Rightarrow> os_memory" where
  "prs_stack_destroy mem unmap_fails stack =
     (let stack_bottom = stack - PRS_MAX_STACK_SIZE
      in prs_pal_mem_unmap mem unmap_fails stack_bottom PRS_MAX_STACK_SIZE)"

text \<open>The new size is returned when the stack could be grown.\<close>

definition prs_stack_grow ::
  "u64 \<Rightarrow> os_memory \<Rightarrow> bool \<Rightarrow> ptr \<Rightarrow> u64 \<Rightarrow> ptr \<Rightarrow> os_memory \<times> u64 option" where
  "prs_stack_grow page_size mem commit_fails stack old_size failed_ptr =
     (let required_size = stack - failed_ptr;
          grow_size = prs_bitops_align_size required_size page_size;
          aligned_new_size = prs_bitops_align_size required_size page_size
      in if aligned_new_size > PRS_MAX_STACK_SIZE then (mem, None)
         else
           (let stack_bottom = stack - PRS_MAX_STACK_SIZE;
                protected_size = PRS_MAX_STACK_SIZE - aligned_new_size;
                stack_limit = stack_bottom + protected_size
            in (prs_pal_mem_commit mem commit_fails stack_limit grow_size
                  (PRS_PAL_MEM_FLAG_READ OR PRS_PAL_MEM_FLAG_WRITE),
                Some aligned_new_size)))"

definition prs_stack_address_in_range :: "ptr \<Rightarrow> ptr \<Rightarrow> bool" where
  "prs_stack_address_in_range stack address \<longleftrightarrow>
     (let start = stack - PRS_MAX_STACK_SIZE in address \<ge> start \<and> address < stack)"

section \<open>The state of a stack\<close>

text \<open>Of the area below \<open>stack\<close> exactly the upper \<open>n\<close> bytes can be accessed.\<close>

definition stack_state :: "os_memory \<Rightarrow> ptr \<Rightarrow> u64 \<Rightarrow> bool" where
  "stack_state mem stack n \<longleftrightarrow> n \<le> PRS_MAX_STACK_SIZE
     \<and> (\<forall>off < PRS_MAX_STACK_SIZE. mem (stack - PRS_MAX_STACK_SIZE + off) =
          Some (if PRS_MAX_STACK_SIZE - n \<le> off then PROT_READ OR PROT_WRITE else PROT_NONE))"

lemma in_area_from_limit:
  assumes "n \<le> m" and "off < (m :: u64)" and "unat m < 2 ^ 63"
  shows "in_area (b + (m - n)) n (b + off) \<longleftrightarrow> m - n \<le> off"
proof -
  have d: "unat (m - n) = unat m - unat n" using assms(1) by (simp add: unat_sub)
  have nm: "unat n \<le> unat m" using assms(1) by (simp add: word_le_nat_alt)
  have om: "unat off < unat m" using assms(2) by (simp add: word_less_nat_alt)
  show ?thesis
  proof (cases "m - n \<le> off")
    case True
    then have "unat (off - (m - n)) = unat off - (unat m - unat n)" using d by (simp add: unat_sub)
    moreover have "unat m - unat n \<le> unat off" using True d by (simp add: word_le_nat_alt)
    ultimately have "unat (off - (m - n)) < unat n" using om nm by linarith
    then show ?thesis using True by (simp add: in_area_def word_less_nat_alt)
  next
    case False
    then have lt: "unat off < unat m - unat n" using d by (simp add: word_le_nat_alt)
    have "unat (off - (m - n)) = unat off + 2 ^ 64 - (unat m - unat n)"
      using lt nm unfolding unat_sub_if' [of off] d by simp
    then have "\<not> unat (off - (m - n)) < unat n" using assms(3) nm by simp
    then show ?thesis using False by (simp add: in_area_def word_less_nat_alt)
  qed
qed

lemma max_stack_small: "unat PRS_MAX_STACK_SIZE < 2 ^ 63"
  by (simp add: PRS_MAX_STACK_SIZE_def)

text \<open>Committing the upper \<open>n\<close> bytes of an area of which at most these were committed.\<close>

lemma stack_state_commit:
  assumes "n \<le> PRS_MAX_STACK_SIZE" and "old \<le> n"
    and "\<And>off. off < PRS_MAX_STACK_SIZE \<Longrightarrow> mem (stack - PRS_MAX_STACK_SIZE + off) =
          Some (if PRS_MAX_STACK_SIZE - old \<le> off then PROT_READ OR PROT_WRITE else PROT_NONE)"
  shows "stack_state (set_area mem (stack - PRS_MAX_STACK_SIZE + (PRS_MAX_STACK_SIZE - n)) n
           (Some (PROT_READ OR PROT_WRITE))) stack n"
proof -
  have "PRS_MAX_STACK_SIZE - n \<le> PRS_MAX_STACK_SIZE - old"
    using assms(1,2) by (simp add: word_le_nat_alt unat_sub)
  then have "PRS_MAX_STACK_SIZE - n \<le> off" if "PRS_MAX_STACK_SIZE - old \<le> off" for off
    using that by (rule order_trans)
  note grows = this
  define b where "b = stack - PRS_MAX_STACK_SIZE"
  have "set_area mem (b + (PRS_MAX_STACK_SIZE - n)) n (Some (PROT_READ OR PROT_WRITE)) (b + off) =
      Some (if PRS_MAX_STACK_SIZE - n \<le> off then PROT_READ OR PROT_WRITE else PROT_NONE)"
    if "off < PRS_MAX_STACK_SIZE" for off
    using assms(3) [OF that] in_area_from_limit [OF assms(1) that max_stack_small] grows [of off]
    by (auto simp: set_area_def simp flip: b_def)
  then show ?thesis
    using assms(1) unfolding stack_state_def b_def by blast
qed

lemma stack_area:
  "in_area (stack - PRS_MAX_STACK_SIZE) PRS_MAX_STACK_SIZE (stack - PRS_MAX_STACK_SIZE + off)
     \<longleftrightarrow> off < PRS_MAX_STACK_SIZE"
  by (simp add: in_area_def)

lemma in_area_limit_subset:
  assumes "n \<le> PRS_MAX_STACK_SIZE"
    and "in_area (stack - PRS_MAX_STACK_SIZE + (PRS_MAX_STACK_SIZE - n)) n a"
  shows "in_area (stack - PRS_MAX_STACK_SIZE) PRS_MAX_STACK_SIZE a"
proof -
  let ?x = "a - (stack - PRS_MAX_STACK_SIZE + (PRS_MAX_STACK_SIZE - n))"
  have x: "unat ?x < unat n" using assms(2) by (simp add: in_area_def word_less_nat_alt)
  have n: "unat (PRS_MAX_STACK_SIZE - n) = unat PRS_MAX_STACK_SIZE - unat n"
    using assms(1) by (simp add: unat_sub)
  have nm: "unat n \<le> unat PRS_MAX_STACK_SIZE" using assms(1) by (simp add: word_le_nat_alt)
  have e: "a - (stack - PRS_MAX_STACK_SIZE) = ?x + (PRS_MAX_STACK_SIZE - n)" by (simp add: algebra_simps)
  have lt: "unat ?x + unat (PRS_MAX_STACK_SIZE - n) < unat PRS_MAX_STACK_SIZE" using x n nm by linarith
  then have "unat ?x + unat (PRS_MAX_STACK_SIZE - n) < 2 ^ LENGTH(64)" using max_stack_small by simp
  from unat_add_no_wrap [OF this] lt show ?thesis
    unfolding in_area_def e word_less_nat_alt by simp
qed

section \<open>Correctness\<close>

text \<open>The aligned size of a request that is at most the maximum.\<close>

lemma stack_aligned_size:
  assumes "unat page_size = 2 ^ k" and "k \<le> 20" and "requested \<le> PRS_MAX_STACK_SIZE"
  shows "prs_bitops_align_size requested page_size \<le> PRS_MAX_STACK_SIZE"
    and "requested \<le> prs_bitops_align_size requested page_size"
    and "unat page_size dvd unat (prs_bitops_align_size requested page_size)"
proof -
  have "(2 :: nat) ^ k \<le> 2 ^ 20" using assms(2) by (rule power_increasing) simp
  moreover have m: "unat PRS_MAX_STACK_SIZE = 2 ^ 20" by (simp add: PRS_MAX_STACK_SIZE_def)
  moreover have r: "unat requested \<le> unat PRS_MAX_STACK_SIZE" using assms(3) by (simp add: word_le_nat_alt)
  ultimately have "unat requested + 2 ^ k \<le> 2 ^ 64" by simp
  note least = align_size_least [OF assms(1) this]
  have "unat page_size dvd unat PRS_MAX_STACK_SIZE" unfolding assms(1) m using assms(2) by (rule le_imp_power_dvd)
  from least(3) [OF this r] least(1,2)
  show "prs_bitops_align_size requested page_size \<le> PRS_MAX_STACK_SIZE"
    "requested \<le> prs_bitops_align_size requested page_size"
    "unat page_size dvd unat (prs_bitops_align_size requested page_size)"
    by (simp_all add: word_le_nat_alt)
qed

lemma stack_create_ok:
  assumes "unat page_size = 2 ^ k" and "k \<le> 20" and "requested \<le> PRS_MAX_STACK_SIZE"
    and "bottom \<noteq> 0" and "bottom \<noteq> MAP_FAILED"
  obtains mem' n where "prs_stack_create page_size mem bottom False requested = (mem', Some (bottom + PRS_MAX_STACK_SIZE, n))"
    and "n = prs_bitops_align_size requested page_size"
    and "stack_state mem' (bottom + PRS_MAX_STACK_SIZE) n"
    and "\<And>a. \<not> in_area bottom PRS_MAX_STACK_SIZE a \<Longrightarrow> mem' a = mem a"
proof -
  let ?n = "prs_bitops_align_size requested page_size" and ?s = "bottom + PRS_MAX_STACK_SIZE"
  let ?m = "set_area mem bottom PRS_MAX_STACK_SIZE (Some PROT_NONE)"
  let ?m' = "set_area ?m (bottom + (PRS_MAX_STACK_SIZE - ?n)) ?n (Some (PROT_READ OR PROT_WRITE))"
  note al = stack_aligned_size [OF assms(1-3)]
  have c: "prs_stack_create page_size mem bottom False requested = (?m', Some (?s, ?n))"
    using al(1) assms(4,5) by (simp add: prs_stack_create_def mem_map_reserve mem_commit_read_write Let_def not_less)
  have "stack_state (set_area ?m (?s - PRS_MAX_STACK_SIZE + (PRS_MAX_STACK_SIZE - ?n)) ?n (Some (PROT_READ OR PROT_WRITE))) ?s ?n"
  proof (rule stack_state_commit [OF al(1), of 0])
    fix off assume "off < PRS_MAX_STACK_SIZE"
    then show "?m (?s - PRS_MAX_STACK_SIZE + off) =
      Some (if PRS_MAX_STACK_SIZE - 0 \<le> off then PROT_READ OR PROT_WRITE else PROT_NONE)"
      using stack_area [of ?s off] by (auto simp: set_area_def)
  qed simp
  then have "stack_state ?m' ?s ?n" by simp
  moreover have "?m' a = mem a" if "\<not> in_area bottom PRS_MAX_STACK_SIZE a" for a
    using that in_area_limit_subset [OF al(1), of ?s a] by (auto simp: set_area_def)
  ultimately show thesis by (rule that [OF c refl])
qed

text \<open>An access below the committed part, but inside the area.\<close>

lemma stack_grow_ok:
  assumes "unat page_size = 2 ^ k" and "k \<le> 20" and "stack_state mem stack old"
    and "stack - failed \<le> PRS_MAX_STACK_SIZE" and "old \<le> stack - failed"
  obtains mem' n where "prs_stack_grow page_size mem False stack old failed = (mem', Some n)"
    and "n = prs_bitops_align_size (stack - failed) page_size"
    and "stack_state mem' stack n" and "stack - failed \<le> n" and "n \<le> PRS_MAX_STACK_SIZE"
    and "\<And>a. \<not> in_area (stack - PRS_MAX_STACK_SIZE) PRS_MAX_STACK_SIZE a \<Longrightarrow> mem' a = mem a"
proof -
  let ?n = "prs_bitops_align_size (stack - failed) page_size"
  let ?m = "set_area mem (stack - PRS_MAX_STACK_SIZE + (PRS_MAX_STACK_SIZE - ?n)) ?n (Some (PROT_READ OR PROT_WRITE))"
  note al = stack_aligned_size [OF assms(1,2,4)]
  have g: "prs_stack_grow page_size mem False stack old failed = (?m, Some ?n)"
    using al(1) by (simp add: prs_stack_grow_def mem_commit_read_write Let_def not_less)
  have "stack_state ?m stack ?n"
    using assms(3) order_trans [OF assms(5) al(2)]
    by (intro stack_state_commit [OF al(1), of old]) (auto simp: stack_state_def)
  moreover have "?m a = mem a" if "\<not> in_area (stack - PRS_MAX_STACK_SIZE) PRS_MAX_STACK_SIZE a" for a
    using that in_area_limit_subset [OF al(1), of stack a] by (auto simp: set_area_def)
  ultimately show thesis using al(1,2) by (intro that [OF g refl]) auto
qed

text \<open>What an address needs to be in the range, and what it then can do.\<close>

lemma stack_in_range_distance:
  assumes "PRS_MAX_STACK_SIZE \<le> stack" and "prs_stack_address_in_range stack a"
  shows "stack - a \<le> PRS_MAX_STACK_SIZE" and "stack - a \<noteq> 0"
    and "a = stack - PRS_MAX_STACK_SIZE + (PRS_MAX_STACK_SIZE - (stack - a))"
proof -
  have r: "stack - PRS_MAX_STACK_SIZE \<le> a" "a < stack"
    using assms(2) by (simp_all add: prs_stack_address_in_range_def Let_def)
  then have "unat (stack - a) = unat stack - unat a" by (simp add: unat_sub)
  moreover have "unat stack - unat PRS_MAX_STACK_SIZE \<le> unat a"
    using r(1) assms(1) by (simp add: word_le_nat_alt unat_sub)
  ultimately show "stack - a \<le> PRS_MAX_STACK_SIZE" by (simp add: word_le_nat_alt)
  show "stack - a \<noteq> 0" using r(2) by auto
qed simp

lemma stack_state_access:
  assumes "stack_state mem stack n" and "stack - a \<le> PRS_MAX_STACK_SIZE" and "stack - a \<noteq> 0"
  shows "mem a = Some (if stack - a \<le> n then PROT_READ OR PROT_WRITE else PROT_NONE)"
proof -
  let ?off = "PRS_MAX_STACK_SIZE - (stack - a)"
  have n: "n \<le> PRS_MAX_STACK_SIZE" using assms(1) by (simp add: stack_state_def)
  have o: "unat ?off = unat PRS_MAX_STACK_SIZE - unat (stack - a)" using assms(2) by (simp add: unat_sub)
  have pos: "0 < unat (stack - a)" using assms(3) by (simp add: unat_gt_0)
  have le: "unat (stack - a) \<le> unat PRS_MAX_STACK_SIZE" using assms(2) by (simp add: word_le_nat_alt)
  have "?off < PRS_MAX_STACK_SIZE" unfolding word_less_nat_alt o using pos le by linarith
  moreover have "PRS_MAX_STACK_SIZE - n \<le> ?off \<longleftrightarrow> stack - a \<le> n"
    using n le unfolding word_le_nat_alt o by (auto simp: unat_sub word_le_nat_alt)
  moreover have "stack - PRS_MAX_STACK_SIZE + ?off = a" by simp
  ultimately show ?thesis using assms(1) by (auto simp: stack_state_def)
qed

lemma stack_destroy_ok:
  "prs_stack_destroy mem False stack a = (if in_area (stack - PRS_MAX_STACK_SIZE) PRS_MAX_STACK_SIZE a then None else mem a)"
  by (simp add: prs_stack_destroy_def prs_pal_mem_unmap_def munmap_def set_area_def)

text \<open>A mapping that fails is not noticed: the function returns a stack with nothing behind it.\<close>

lemma stack_create_map_failed:
  assumes "prs_bitops_align_size requested page_size \<le> PRS_MAX_STACK_SIZE"
  shows "prs_stack_create page_size mem MAP_FAILED True requested =
    (mem, Some (MAP_FAILED + PRS_MAX_STACK_SIZE, prs_bitops_align_size requested page_size))"
proof -
  have "MAP_FAILED \<noteq> 0" by (simp add: MAP_FAILED_def)
  then show ?thesis
    using assms by (simp add: prs_stack_create_def mem_map_failed prs_pal_mem_commit_def mprotect_def Let_def not_less)
qed

end
