(* ===== verification/Proc.thy ===== *)
theory Proc
  imports Mpscq Idllist God
begin

text \<open>
  Processes, \<^verbatim>\<open>prs/proc.c\<close>: the command line parser and the table of the text ranges of the loaded processes.
\<close>

section \<open>The command line parser\<close>

text \<open>The two passes of \<^verbatim>\<open>prs_proc_parse_cmdline\<close> over its copy of the command line. The first counts the
  arguments; the second stores a terminator over each delimiter it passes and collects the offsets of the
  arguments. A pass never reads a character that it has overwritten.\<close>

fun cmdline_count :: "string \<Rightarrow> bool \<Rightarrow> bool \<Rightarrow> nat \<Rightarrow> nat" where
  "cmdline_count [] in_quote in_arg argc = argc"
| "cmdline_count (c # p) in_quote in_arg argc =
     (if c = CHR '' ''
      then cmdline_count p in_quote (if \<not> in_quote \<and> in_arg then False else in_arg) argc
      else
        (let in_quote = (if c = CHR 0x22 then \<not> in_quote else in_quote)
         in if \<not> in_arg then cmdline_count p in_quote True (argc + 1) else cmdline_count p in_quote in_arg argc))"

fun cmdline_split :: "nat \<Rightarrow> string \<Rightarrow> bool \<Rightarrow> bool \<Rightarrow> string \<times> nat list" where
  "cmdline_split pos [] in_quote in_arg = ([], [])"
| "cmdline_split pos (c # p) in_quote in_arg =
     (if c = CHR '' '' then
        (if \<not> in_quote \<and> in_arg then apfst ((#) (CHR 0x00)) (cmdline_split (pos + 1) p in_quote False)
         else apfst ((#) c) (cmdline_split (pos + 1) p in_quote in_arg))
      else
        (let in_quote = (if c = CHR 0x22 then \<not> in_quote else in_quote);
             d = (if c = CHR 0x22 then CHR 0x00 else c)
         in if \<not> in_arg
            then map_prod ((#) d) ((#) (if in_quote then pos + 1 else pos)) (cmdline_split (pos + 1) p in_quote True)
            else apfst ((#) d) (cmdline_split (pos + 1) p in_quote in_arg)))"

text \<open>The parameters of the main function: \<^verbatim>\<open>argc\<close>, the arguments that were stored in the array of \<^verbatim>\<open>argc\<close>
  entries, and the buffer they point into. A missing buffer is fatal; the array is not checked.\<close>

record prs_proc_main_params =
  pm_argc :: nat
  pm_argv :: "nat list"
  pm_buffer :: string

definition prs_proc_parse_cmdline :: "ptr option \<Rightarrow> string \<Rightarrow> prs_proc_main_params option" where
  "prs_proc_parse_cmdline buffer_memory cmdline =
     (case buffer_memory of
        None \<Rightarrow> None
      | Some _ \<Rightarrow>
          (let argc = cmdline_count cmdline False False 0;
               (buffer, argv) = cmdline_split 0 cmdline False False
           in Some \<lparr>pm_argc = argc, pm_argv = argv, pm_buffer = buffer\<rparr>))"

text \<open>The string that an offset into the buffer points to.\<close>

definition c_string_at :: "string \<Rightarrow> nat \<Rightarrow> string" where
  "c_string_at buffer offset = takeWhile (\<lambda>c. c \<noteq> CHR 0x00) (drop offset buffer)"

section \<open>The range table\<close>

record prs_proc_range =
  range_base :: u64
  range_size :: u64

record prs_proc_data =
  pd_range_table :: "prs_proc_range list"
  pd_range_table_count :: nat

text \<open>The search from the last entry down; \<open>n\<close> is the index plus 1.\<close>

fun range_table_search :: "prs_proc_range list \<Rightarrow> nat \<Rightarrow> nat option" where
  "range_table_search table 0 = None"
| "range_table_search table (Suc i) =
     (if range_base (table ! i) = 0 then Some i else range_table_search table i)"

definition prs_proc_range_table_add :: "prs_proc_data \<Rightarrow> u64 \<Rightarrow> u64 \<Rightarrow> (prs_proc_data \<times> nat) option" where
  "prs_proc_range_table_add d base bytes =
     (let count = pd_range_table_count d;
          index = (case range_table_search (pd_range_table d) count of None \<Rightarrow> count | Some i \<Rightarrow> i)
      in if index \<ge> unat PRS_MAX_OBJECTS then None
         else
           (let d = d\<lparr>pd_range_table := (pd_range_table d)[index := \<lparr>range_base = base, range_size = bytes\<rparr>]\<rparr>;
                d = (if index \<ge> count then d\<lparr>pd_range_table_count := index + 1\<rparr> else d)
            in Some (d, index)))"

definition prs_proc_range_table_del :: "prs_proc_data \<Rightarrow> nat \<Rightarrow> prs_proc_data option" where
  "prs_proc_range_table_del d index =
     (if index \<ge> unat PRS_MAX_OBJECTS then None
      else Some (d\<lparr>pd_range_table := (pd_range_table d)[index := \<lparr>range_base = 0, range_size = 0\<rparr>]\<rparr>))"

fun is_user_text_loop :: "prs_proc_range list \<Rightarrow> u64 \<Rightarrow> bool" where
  "is_user_text_loop [] ip = False"
| "is_user_text_loop (r # ranges) ip =
     (let base = range_base r in
      if base \<noteq> 0 \<and> base < ip then
        (let n = range_size r in
         if n \<noteq> 0 \<and> ip < base + n then True else is_user_text_loop ranges ip)
      else is_user_text_loop ranges ip)"

definition prs_proc_is_user_text :: "prs_proc_data \<Rightarrow> u64 \<Rightarrow> bool" where
  "prs_proc_is_user_text d instr_ptr =
     is_user_text_loop (take (pd_range_table_count d) (pd_range_table d)) instr_ptr"

section \<open>The parser\<close>

lemma cmdline_count_acc: "cmdline_count p q a n = n + cmdline_count p q a 0"
proof (induction p arbitrary: q a n)
  case (Cons c p)
  show ?case
    using Cons.IH [of _ _ n] Cons.IH [of _ _ "Suc n"] Cons.IH [of _ _ "Suc 0"] by (simp add: Let_def)
qed simp

text \<open>The passes agree on the number of arguments, so the second stays inside the array.\<close>

lemma cmdline_split_count: "length (snd (cmdline_split pos p q a)) = cmdline_count p q a 0"
proof (induction p arbitrary: pos q a)
  case (Cons c p)
  show ?case using Cons.IH cmdline_count_acc [of p _ _ 1] by (auto simp: Let_def)
qed simp

lemma cmdline_split_length: "length (fst (cmdline_split pos p q a)) = length p"
  by (induction pos p q a rule: cmdline_split.induct) (auto simp: Let_def)

lemma cmdline_split_offsets: "off \<in> set (snd (cmdline_split pos p q a)) \<Longrightarrow> pos \<le> off \<and> off \<le> pos + length p"
  by (induction pos p q a rule: cmdline_split.induct) (fastforce simp: Let_def split: if_splits)+


text \<open>A command line for given arguments: an argument with a space, and the empty one, is put in quotes.\<close>

definition plain_arg :: "string \<Rightarrow> bool" where
  "plain_arg s \<longleftrightarrow> s \<noteq> [] \<and> CHR '' '' \<notin> set s \<and> CHR 0x22 \<notin> set s"

definition show_arg :: "string \<Rightarrow> string" where
  "show_arg s = (if plain_arg s then s else CHR 0x22 # s @ [CHR 0x22])"

fun show_args :: "string list \<Rightarrow> string" where
  "show_args [] = []"
| "show_args [s] = show_arg s"
| "show_args (s # t # ts) = show_arg s @ CHR '' '' # show_args (t # ts)"

lemma cmdline_split_in_arg:
  assumes "CHR '' '' \<notin> set s" and "CHR 0x22 \<notin> set s"
  shows "cmdline_split pos (s @ r) False True = apfst ((@) s) (cmdline_split (pos + length s) r False True)"
  using assms by (induction s arbitrary: pos) (auto simp: Let_def apfst_def map_prod_def split: prod.splits)

lemma cmdline_split_in_quote:
  assumes "CHR 0x22 \<notin> set s"
  shows "cmdline_split pos (s @ r) True True = apfst ((@) s) (cmdline_split (pos + length s) r True True)"
  using assms by (induction s arbitrary: pos) (auto simp: Let_def apfst_def map_prod_def split: prod.splits)

text \<open>One argument: what is left in the buffer, and where it starts.\<close>

lemma cmdline_split_show_arg:
  assumes "CHR 0x22 \<notin> set s" and "CHR 0x00 \<notin> set s"
  obtains pre post where "length (pre @ s @ post) = length (show_arg s)"
    and "post = [] \<or> hd post = CHR 0x00"
    and "\<And>pos r. cmdline_split pos (show_arg s @ r) False False =
           map_prod ((@) (pre @ s @ post)) ((#) (pos + length pre)) (cmdline_split (pos + length (show_arg s)) r False True)"
proof (cases "plain_arg s")
  case True
  then obtain c s' where s: "s = c # s'" "c \<noteq> CHR '' ''" "c \<noteq> CHR 0x22" "CHR '' '' \<notin> set s'" "CHR 0x22 \<notin> set s'"
    by (cases s) (auto simp: plain_arg_def)
  show thesis
    by (rule that [of "[]" "[]"])
      (use True s in \<open>auto simp: show_arg_def cmdline_split_in_arg Let_def apfst_def map_prod_def split: prod.splits\<close>)
next
  case False
  show thesis
    by (rule that [of "[CHR 0x00]" "[CHR 0x00]"])
      (use False assms in \<open>auto simp: show_arg_def cmdline_split_in_quote Let_def apfst_def map_prod_def split: prod.splits\<close>)
qed

lemma c_string_at_here:
  assumes "CHR 0x00 \<notin> set s" and "post = [] \<or> hd post = CHR 0x00"
  shows "c_string_at (pre @ s @ post) (length pre) = s"
  using assms by (cases post) (auto simp: c_string_at_def takeWhile_append)

lemma cmdline_roundtrip_from:
  assumes "\<forall>s \<in> set args. CHR 0x22 \<notin> set s \<and> CHR 0x00 \<notin> set s"
  shows "case cmdline_split (length front) (show_args args) False False of (buffer, argv) \<Rightarrow>
    map (c_string_at (front @ buffer)) argv = args"
  using assms
proof (induction args arbitrary: front rule: show_args.induct)
  case (2 s)
  have "CHR 0x22 \<notin> set s" "CHR 0x00 \<notin> set s" using 2 by simp_all
  from cmdline_split_show_arg [OF this] obtain pre post where p: "post = [] \<or> hd post = CHR 0x00"
    "\<And>pos r. cmdline_split pos (show_arg s @ r) False False =
       map_prod ((@) (pre @ s @ post)) ((#) (pos + length pre)) (cmdline_split (pos + length (show_arg s)) r False True)"
    by metis
  then show ?case
    using 2 c_string_at_here [of s post "front @ pre"] p(2) [of "length front" "[]"] by simp
next
  case (3 s t ts)
  have "CHR 0x22 \<notin> set s" "CHR 0x00 \<notin> set s" using 3(2) by simp_all
  from cmdline_split_show_arg [OF this] obtain pre post where p: "length (pre @ s @ post) = length (show_arg s)"
    "post = [] \<or> hd post = CHR 0x00"
    "\<And>pos r. cmdline_split pos (show_arg s @ r) False False =
       map_prod ((@) (pre @ s @ post)) ((#) (pos + length pre)) (cmdline_split (pos + length (show_arg s)) r False True)"
    by metis
  let ?front = "front @ pre @ s @ post @ [CHR 0x00]"
  obtain buffer argv where b: "cmdline_split (length ?front) (show_args (t # ts)) False False = (buffer, argv)"
    by fastforce
  have l: "length front + length (show_arg s) + 1 = length ?front" using p(1) by simp
  have "cmdline_split (length front + length (show_arg s)) (CHR '' '' # show_args (t # ts)) False True =
    (CHR 0x00 # buffer, argv)"
    using b l by (simp add: add.assoc)
  then have "cmdline_split (length front) (show_args (s # t # ts)) False False =
    ((pre @ s @ post) @ CHR 0x00 # buffer, (length front + length pre) # argv)"
    using p(3) [of "length front" "CHR '' '' # show_args (t # ts)"] by simp
  moreover have "map (c_string_at (?front @ buffer)) argv = t # ts"
    using 3(1) [of ?front] 3(2) b by simp
  moreover have "c_string_at ((front @ pre) @ s @ (post @ CHR 0x00 # buffer)) (length (front @ pre)) = s"
    by (rule c_string_at_here) (use 3(2) p(2) in \<open>auto simp: hd_append\<close>)
  ultimately show ?case by simp
qed simp

section \<open>The table\<close>

text \<open>The table refines a map from the index that a process holds to its range.\<close>

definition ranges_rep :: "prs_proc_data \<Rightarrow> (nat \<rightharpoonup> prs_proc_range) \<Rightarrow> bool" where
  "ranges_rep d m \<longleftrightarrow> length (pd_range_table d) = unat PRS_MAX_OBJECTS
     \<and> pd_range_table_count d \<le> unat PRS_MAX_OBJECTS \<and> dom m \<subseteq> {..<pd_range_table_count d}
     \<and> (\<forall>i < pd_range_table_count d. m i = (if range_base (pd_range_table d ! i) = 0 then None
          else Some (pd_range_table d ! i)))"

lemma ranges_repD:
  assumes "ranges_rep d m"
  shows "length (pd_range_table d) = unat PRS_MAX_OBJECTS" and "pd_range_table_count d \<le> unat PRS_MAX_OBJECTS"
    and "dom m \<subseteq> {..<pd_range_table_count d}"
    and "i < pd_range_table_count d \<Longrightarrow> m i = (if range_base (pd_range_table d ! i) = 0 then None
          else Some (pd_range_table d ! i))"
  using assms by (simp_all add: ranges_rep_def)

lemma range_table_search_Some:
  "range_table_search table n = Some i \<Longrightarrow> i < n \<and> range_base (table ! i) = 0"
  by (induction n) (auto split: if_splits)

lemma range_table_search_None:
  "range_table_search table n = None \<Longrightarrow> i < n \<Longrightarrow> range_base (table ! i) \<noteq> 0"
  by (induction n) (auto simp: less_Suc_eq split: if_splits)

text \<open>An entry that is free, or the one after the last, takes a range.\<close>

lemma ranges_rep_store:
  assumes "ranges_rep d m" and "i \<le> pd_range_table_count d" and "i < unat PRS_MAX_OBJECTS" and "m i = None"
    and "range_base r \<noteq> 0"
  shows "ranges_rep (d\<lparr>pd_range_table := (pd_range_table d)[i := r],
    pd_range_table_count := max (pd_range_table_count d) (i + 1)\<rparr>) (m(i \<mapsto> r))"
proof -
  note d = ranges_repD [OF assms(1)]
  have "(m(i \<mapsto> r)) j = (if range_base ((pd_range_table d)[i := r] ! j) = 0 then None
      else Some ((pd_range_table d)[i := r] ! j))" if "j < max (pd_range_table_count d) (i + 1)" for j
    using that assms(2,3,5) d(1) d(4) [of j] by (cases "j = i") auto
  then show ?thesis
    using assms(3) d(1-3) unfolding ranges_rep_def by auto
qed

lemma range_table_add_cases:
  assumes "ranges_rep d m" and "base \<noteq> 0"
  shows "case prs_proc_range_table_add d base bytes of
    None \<Rightarrow> dom m = {..<unat PRS_MAX_OBJECTS}
  | Some (d', i) \<Rightarrow> i < unat PRS_MAX_OBJECTS \<and> m i = None
      \<and> ranges_rep d' (m(i \<mapsto> \<lparr>range_base = base, range_size = bytes\<rparr>))"
proof -
  note d = ranges_repD [OF assms(1)]
  let ?c = "pd_range_table_count d" and ?r = "\<lparr>range_base = base, range_size = bytes\<rparr>"
  show ?thesis
  proof (cases "range_table_search (pd_range_table d) ?c")
    case None
    have full: "i \<in> dom m" if "i < ?c" for i
      using d(4) [OF that] range_table_search_None [OF None that] by auto
    show ?thesis
    proof (cases "?c \<ge> unat PRS_MAX_OBJECTS")
      case True
      then have "dom m = {..<unat PRS_MAX_OBJECTS}" using full d(2,3) by (auto intro: antisym)
      then show ?thesis using None True by (simp add: prs_proc_range_table_add_def)
    next
      case False
      have free: "m ?c = None" using d(3) by (auto simp: domIff)
      from ranges_rep_store [OF assms(1) _ _ free, of ?r] False assms(2)
      have "ranges_rep (d\<lparr>pd_range_table := (pd_range_table d)[?c := ?r], pd_range_table_count := ?c + 1\<rparr>) (m(?c \<mapsto> ?r))"
        by simp
      then show ?thesis using None False free by (simp add: prs_proc_range_table_add_def Let_def)
    qed
  next
    case (Some i)
    from range_table_search_Some [OF this] have i: "i < ?c" "m i = None" using d(4) [of i] by auto
    from ranges_rep_store [OF assms(1) _ _ i(2), of ?r] i(1) d(2) assms(2)
    have "ranges_rep (d\<lparr>pd_range_table := (pd_range_table d)[i := ?r], pd_range_table_count := max ?c (i + 1)\<rparr>) (m(i \<mapsto> ?r))"
      by simp
    moreover have "max ?c (i + 1) = ?c" using i(1) by simp
    ultimately have "ranges_rep (d\<lparr>pd_range_table := (pd_range_table d)[i := ?r], pd_range_table_count := ?c\<rparr>) (m(i \<mapsto> ?r))"
      by simp
    moreover have "d\<lparr>pd_range_table := (pd_range_table d)[i := ?r], pd_range_table_count := ?c\<rparr> =
        d\<lparr>pd_range_table := (pd_range_table d)[i := ?r]\<rparr>" by simp
    ultimately show ?thesis using Some i d(2) by (simp add: prs_proc_range_table_add_def Let_def)
  qed
qed

lemma range_table_del_ok:
  assumes "ranges_rep d m" and "m i \<noteq> None"
  shows "\<exists>d'. prs_proc_range_table_del d i = Some d' \<and> ranges_rep d' (m(i := None))"
proof -
  note d = ranges_repD [OF assms(1)]
  let ?r = "\<lparr>range_base = 0, range_size = 0\<rparr>"
  have i: "i < pd_range_table_count d" using d(3) assms(2) by auto
  have "(m(i := None)) j = (if range_base ((pd_range_table d)[i := ?r] ! j) = 0 then None
      else Some ((pd_range_table d)[i := ?r] ! j))" if "j < pd_range_table_count d" for j
    using that i d(1,2) d(4) [OF that] by (cases "j = i") auto
  then have "ranges_rep (d\<lparr>pd_range_table := (pd_range_table d)[i := ?r]\<rparr>) (m(i := None))"
    using d(1-3) by (auto simp: ranges_rep_def)
  then show ?thesis using i d(2) by (simp add: prs_proc_range_table_del_def)
qed

lemma is_user_text_loop_iff:
  "is_user_text_loop ranges ip \<longleftrightarrow>
     (\<exists>r \<in> set ranges. range_base r \<noteq> 0 \<and> range_base r < ip \<and> range_size r \<noteq> 0 \<and> ip < range_base r + range_size r)"
  by (induction ranges) (auto simp: Let_def)

lemma is_user_text_iff:
  assumes "ranges_rep d m"
  shows "prs_proc_is_user_text d ip \<longleftrightarrow>
    (\<exists>r \<in> ran m. range_base r < ip \<and> range_size r \<noteq> 0 \<and> ip < range_base r + range_size r)"
proof -
  note d = ranges_repD [OF assms]
  have mem: "r \<in> set (take (pd_range_table_count d) (pd_range_table d)) \<longleftrightarrow>
      (\<exists>i < pd_range_table_count d. pd_range_table d ! i = r)" for r
    using d(1,2) by (auto simp: in_set_conv_nth)
  have "r \<in> ran m \<longleftrightarrow> (\<exists>i < pd_range_table_count d. pd_range_table d ! i = r) \<and> range_base r \<noteq> 0" for r
  proof
    assume "r \<in> ran m"
    then obtain i where i: "m i = Some r" by (auto simp: ran_def)
    then have "i < pd_range_table_count d" using d(3) by auto
    then show "(\<exists>i < pd_range_table_count d. pd_range_table d ! i = r) \<and> range_base r \<noteq> 0"
      using i d(4) [of i] by (auto split: if_splits)
  next
    assume "(\<exists>i < pd_range_table_count d. pd_range_table d ! i = r) \<and> range_base r \<noteq> 0"
    then show "r \<in> ran m" using d(4) by (force simp: ran_def)
  qed
  then show ?thesis
    unfolding prs_proc_is_user_text_def is_user_text_loop_iff using mem by auto
qed

section \<open>Properties\<close>

text \<open>Every command line: the second pass of prs_proc_parse_cmdline finds as many arguments as the first
  counted, so it stays inside the array of argc entries, every argument points into the buffer or to its
  terminator, and the buffer keeps its length.\<close>

theorem proc_cmdline_bounds:
  "case prs_proc_parse_cmdline (Some memory) cmdline of
     None \<Rightarrow> False
   | Some params \<Rightarrow> length (pm_argv params) = pm_argc params \<and> length (pm_buffer params) = length cmdline
       \<and> (\<forall>k < pm_argc params. pm_argv params ! k \<le> length cmdline)"
proof -
  obtain buffer argv where b: "cmdline_split 0 cmdline False False = (buffer, argv)" by fastforce
  have "argv ! k \<le> length cmdline" if "k < length argv" for k
    using cmdline_split_offsets [of "argv ! k" 0 cmdline False False] b that by simp
  then show ?thesis
    using cmdline_split_count [of 0 cmdline False False] cmdline_split_length [of 0 cmdline False False] b
    by (simp add: prs_proc_parse_cmdline_def)
qed

theorem proc_cmdline_bounds_witness:
  "pm_argc (the (prs_proc_parse_cmdline (Some 8) ''a bc'')) = 2
   \<and> length (pm_argv (the (prs_proc_parse_cmdline (Some 8) ''a bc''))) = 2"
proof -
  have "pm_argc (the (prs_proc_parse_cmdline (Some 8) ''a bc'')) = 2" by (simp add: prs_proc_parse_cmdline_def Let_def)
  then show ?thesis
    using proc_cmdline_bounds [where memory = 8 and cmdline = "''a bc''"] by (auto split: option.splits)
qed

text \<open>C16: Arguments without quote characters, joined by spaces and put in quotes where they contain a space
  or are empty, are what prs_proc_parse_cmdline returns.\<close>

theorem proc_cmdline_roundtrip:
  assumes "\<forall>s \<in> set args. CHR 0x22 \<notin> set s \<and> CHR 0x00 \<notin> set s"
  shows "case prs_proc_parse_cmdline (Some memory) (show_args args) of
    None \<Rightarrow> False
  | Some params \<Rightarrow> pm_argc params = length args
      \<and> map (c_string_at (pm_buffer params)) (pm_argv params) = args"
proof -
  obtain buffer argv where b: "cmdline_split 0 (show_args args) False False = (buffer, argv)" by fastforce
  have "map (c_string_at buffer) argv = args" using cmdline_roundtrip_from [OF assms, of "[]"] b by simp
  moreover from this have "length argv = length args" by (metis length_map)
  ultimately show ?thesis
    using b cmdline_split_count [of 0 "show_args args" False False] by (simp add: prs_proc_parse_cmdline_def)
qed

theorem proc_cmdline_roundtrip_witness:
  "case prs_proc_parse_cmdline (Some 8) (show_args [''run'', ''a b'', []]) of
     None \<Rightarrow> False
   | Some params \<Rightarrow> pm_argc params = 3
       \<and> map (c_string_at (pm_buffer params)) (pm_argv params) = [''run'', ''a b'', []]"
  using proc_cmdline_roundtrip [where args = "[''run'', ''a b'', []]" and memory = 8] by (simp split: option.splits)

text \<open>The range table implements a map from indices to the ranges of the loaded processes: adding a
  range takes a free index and leaves every other range alone, and is fatal only when PRS_MAX_OBJECTS
  processes are loaded; deleting removes exactly the range of its index; and an instruction pointer is
  user text exactly when it lies strictly between the base and the end of a loaded range, so that the
  first byte of a process is not.\<close>

theorem proc_ranges_refine:
  assumes "ranges_rep d m"
  shows "(base \<noteq> 0 \<longrightarrow>
      (case prs_proc_range_table_add d base bytes of
         None \<Rightarrow> dom m = {..<unat PRS_MAX_OBJECTS}
       | Some (d', i) \<Rightarrow> i < unat PRS_MAX_OBJECTS \<and> m i = None
           \<and> ranges_rep d' (m(i \<mapsto> \<lparr>range_base = base, range_size = bytes\<rparr>))))
    \<and> (m j \<noteq> None \<longrightarrow> (\<exists>d'. prs_proc_range_table_del d j = Some d' \<and> ranges_rep d' (m(j := None))))
    \<and> (prs_proc_is_user_text d ip \<longleftrightarrow>
         (\<exists>r \<in> ran m. range_base r < ip \<and> range_size r \<noteq> 0 \<and> ip < range_base r + range_size r))"
  using range_table_add_cases [OF assms] range_table_del_ok [OF assms] is_user_text_iff [OF assms] by blast

lemma ranges_rep_zeroed:
  "ranges_rep \<lparr>pd_range_table = replicate (unat PRS_MAX_OBJECTS) \<lparr>range_base = 0, range_size = 0\<rparr>,
     pd_range_table_count = 0\<rparr> Map.empty"
  by (simp add: ranges_rep_def)

theorem proc_ranges_refine_witness:
  "\<not> prs_proc_is_user_text \<lparr>pd_range_table = replicate (unat PRS_MAX_OBJECTS) \<lparr>range_base = 0, range_size = 0\<rparr>,
     pd_range_table_count = 0\<rparr> 0x400000
   \<and> prs_proc_range_table_add \<lparr>pd_range_table = replicate (unat PRS_MAX_OBJECTS) \<lparr>range_base = 0, range_size = 0\<rparr>,
     pd_range_table_count = 0\<rparr> 0x400000 4096 \<noteq> None"
proof -
  have "0 \<in> {..<unat PRS_MAX_OBJECTS}" by (simp add: PRS_MAX_OBJECTS_def)
  then have "dom Map.empty \<noteq> {..<unat PRS_MAX_OBJECTS}" by auto
  then show ?thesis
    using proc_ranges_refine [OF ranges_rep_zeroed, where base = "0x400000" and bytes = 4096 and ip = "0x400000"] by (auto split: option.splits)
qed

end
