(* ===== verification/Excp.thy ===== *)
theory Excp
  imports Stack Proc Task
begin

text \<open>
  Exceptions: \<^verbatim>\<open>prs/excp.c\<close>, the error reports of \<^verbatim>\<open>prs/error.c\<close> that raise them and the signal handler of
  \<^verbatim>\<open>prs/pal/posix/excp.c\<close> (Linux). The world is what the handlers read and change: the memory of the
  stacks, the tasks, the range table and the structures that an exception's \<^verbatim>\<open>extra\<close> points to. The calls
  that leave the module (ending PRS, destroying a task, switching the context, chaining a signal, logging)
  are recorded. A registered handler is a function on this world; it does not register handlers.
\<close>

section \<open>Data\<close>

datatype prs_excp_type =
    PRS_EXCP_TYPE_UNKNOWN
  | PRS_EXCP_TYPE_ASSERT
  | PRS_EXCP_TYPE_USER
  | PRS_EXCP_TYPE_PRS
  | PRS_EXCP_TYPE_OS
  | PRS_EXCP_TYPE_STACK_OVERFLOW
  | PRS_EXCP_TYPE_SEGMENTATION_FAULT
  | PRS_EXCP_TYPE_ILLEGAL_INSTRUCTION
  | PRS_EXCP_TYPE_INTEGER
  | PRS_EXCP_TYPE_FLOATING_POINT
  | PRS_EXCP_TYPE_BUS
  | PRS_EXCP_TYPE_USER_INTERRUPT

datatype prs_excp_result =
    PRS_EXCP_RESULT_EXIT
  | PRS_EXCP_RESULT_KILL_TASK
  | PRS_EXCP_RESULT_CONTINUE
  | PRS_EXCP_RESULT_FORWARD

record prs_excp_raise_info =
  ri_expr :: string
  ri_file :: string
  ri_line :: int
  ri_behavior :: prs_excp_result

datatype excp_call =
    ExitFromExcp int
  | TaskDestroy ptr
  | RestoreContext ptr ptr
  | WorkerSchedule ptr
  | SignalChain int
  | LogRaised string string string string int
  | LogExtra string string ptr

record excp_world =
  ew_memory :: os_memory
  ew_tasks :: "ptr \<Rightarrow> prs_task"
  ew_procs :: prs_proc_data
  ew_infos :: "ptr \<Rightarrow> prs_excp_raise_info"
  ew_calls :: "excp_call list"

definition excp_do :: "excp_call \<Rightarrow> excp_world \<Rightarrow> excp_world" where
  "excp_do call w = w\<lparr>ew_calls := ew_calls w @ [call]\<rparr>"

text \<open>A handler gets the exception, \<^verbatim>\<open>extra\<close>, the worker, the task and the context.\<close>

type_synonym prs_excp_handler_t =
  "prs_excp_type \<Rightarrow> ptr \<Rightarrow> ptr \<Rightarrow> ptr \<Rightarrow> ptr \<Rightarrow> excp_world \<Rightarrow> excp_world \<times> prs_excp_result"

section \<open>Operations\<close>

fun prs_excp_type_to_string :: "prs_excp_type \<Rightarrow> string" where
  "prs_excp_type_to_string PRS_EXCP_TYPE_UNKNOWN = ''unknown''"
| "prs_excp_type_to_string PRS_EXCP_TYPE_ASSERT = ''assert''"
| "prs_excp_type_to_string PRS_EXCP_TYPE_USER = ''user-generated''"
| "prs_excp_type_to_string PRS_EXCP_TYPE_PRS = ''PRS''"
| "prs_excp_type_to_string PRS_EXCP_TYPE_OS = ''operating system''"
| "prs_excp_type_to_string PRS_EXCP_TYPE_STACK_OVERFLOW = ''stack overflow''"
| "prs_excp_type_to_string PRS_EXCP_TYPE_SEGMENTATION_FAULT = ''segmentation fault''"
| "prs_excp_type_to_string PRS_EXCP_TYPE_ILLEGAL_INSTRUCTION = ''illegal instruction''"
| "prs_excp_type_to_string PRS_EXCP_TYPE_INTEGER = ''integer''"
| "prs_excp_type_to_string PRS_EXCP_TYPE_FLOATING_POINT = ''floating point''"
| "prs_excp_type_to_string PRS_EXCP_TYPE_BUS = ''bus error''"
| "prs_excp_type_to_string PRS_EXCP_TYPE_USER_INTERRUPT = ''user interrupt''"

definition prs_excp_task_name :: "excp_world \<Rightarrow> ptr \<Rightarrow> string" where
  "prs_excp_task_name w task = (if task \<noteq> 0 then task_name (ew_tasks w task) else ''<no task>'')"

definition prs_excp_print :: "prs_excp_type \<Rightarrow> ptr \<Rightarrow> ptr \<Rightarrow> excp_world \<Rightarrow> excp_world" where
  "prs_excp_print excp extra task w =
     (if extra \<noteq> 0 \<and> (excp = PRS_EXCP_TYPE_ASSERT \<or> excp = PRS_EXCP_TYPE_USER \<or> excp = PRS_EXCP_TYPE_PRS
          \<or> excp = PRS_EXCP_TYPE_OS)
      then
        (let info = ew_infos w extra
         in excp_do (LogRaised (prs_excp_type_to_string excp) (prs_excp_task_name w task) (ri_expr info) (ri_file info)
              (ri_line info)) w)
      else excp_do (LogExtra (prs_excp_type_to_string excp) (prs_excp_task_name w task) extra) w)"

text \<open>The page size and whether the commit of a grown stack fails are arguments.\<close>

definition prs_excp_default_handler :: "u64 \<Rightarrow> bool \<Rightarrow> prs_excp_handler_t" where
  "prs_excp_default_handler page_size commit_fails excp extra worker task context w =
     (let w = prs_excp_print excp extra task w in
      case excp of
        PRS_EXCP_TYPE_UNKNOWN \<Rightarrow> (w, PRS_EXCP_RESULT_EXIT)
      | PRS_EXCP_TYPE_ASSERT \<Rightarrow> (w, PRS_EXCP_RESULT_EXIT)
      | PRS_EXCP_TYPE_USER \<Rightarrow> (w, PRS_EXCP_RESULT_CONTINUE)
      | PRS_EXCP_TYPE_PRS \<Rightarrow> (w, ri_behavior (ew_infos w extra))
      | PRS_EXCP_TYPE_OS \<Rightarrow> (w, PRS_EXCP_RESULT_EXIT)
      | PRS_EXCP_TYPE_STACK_OVERFLOW \<Rightarrow>
          (if task \<noteq> 0 \<and> prs_stack_address_in_range (task_stack (ew_tasks w task)) extra
           then
             (case prs_stack_grow page_size (ew_memory w) commit_fails (task_stack (ew_tasks w task))
                     (task_stack_size (ew_tasks w task)) extra of
                (mem, None) \<Rightarrow> (w\<lparr>ew_memory := mem\<rparr>, PRS_EXCP_RESULT_EXIT)
              | (mem, Some new_size) \<Rightarrow>
                  (w\<lparr>ew_memory := mem,
                     ew_tasks := (ew_tasks w)(task := (ew_tasks w task)\<lparr>task_stack_size := new_size\<rparr>)\<rparr>,
                   PRS_EXCP_RESULT_CONTINUE))
           else (w, PRS_EXCP_RESULT_EXIT))
      | PRS_EXCP_TYPE_USER_INTERRUPT \<Rightarrow> (w, PRS_EXCP_RESULT_EXIT)
      | _ \<Rightarrow>
          (w, if task \<noteq> 0 \<and> prs_proc_is_user_text (ew_procs w) extra then PRS_EXCP_RESULT_KILL_TASK
              else PRS_EXCP_RESULT_EXIT))"

text \<open>The result says whether the next handler is asked.\<close>

definition prs_excp_process ::
  "prs_excp_handler_t \<Rightarrow> prs_excp_type \<Rightarrow> ptr \<Rightarrow> ptr \<Rightarrow> ptr \<Rightarrow> ptr \<Rightarrow> excp_world \<Rightarrow> excp_world \<times> bool" where
  "prs_excp_process handler excp extra worker task context w =
     (let (w, result) = handler excp extra worker task context w in
      case result of
        PRS_EXCP_RESULT_EXIT \<Rightarrow> (excp_do (ExitFromExcp (- 1)) w, False)
      | PRS_EXCP_RESULT_KILL_TASK \<Rightarrow>
          (let w = excp_do (TaskDestroy task) w
           in (if context \<noteq> 0 then excp_do (RestoreContext worker context) w else excp_do (WorkerSchedule worker) w, False))
      | PRS_EXCP_RESULT_CONTINUE \<Rightarrow> (w, False)
      | PRS_EXCP_RESULT_FORWARD \<Rightarrow> (w, True))"

text \<open>The loop over the registered handlers, from the last registered one on.\<close>

partial_function (option) excp_raise_loop ::
  "(ptr \<Rightarrow> prs_excp_handler_t) \<Rightarrow> mq_state \<Rightarrow> ptr \<Rightarrow> prs_excp_type \<Rightarrow> ptr \<Rightarrow> ptr \<Rightarrow> ptr \<Rightarrow> ptr \<Rightarrow> excp_world
    \<Rightarrow> (excp_world \<times> bool) option" where
  "excp_raise_loop handler_of handlers node excp extra worker task context w =
     (if node = prs_mpscq_end (snd handlers) then Some (w, True)
      else
        (let (w, next) = prs_excp_process (handler_of (prs_mpscq_get_data handlers node)) excp extra worker task context w
         in if \<not> next then Some (w, False)
            else excp_raise_loop handler_of handlers (prs_mpscq_prev handlers node) excp extra worker task context w))"

declare excp_raise_loop.simps [code]

text \<open>The module's state is the queue of the handlers, or \<open>None\<close> before its initialization; \<open>task_of\<close> is the
  current task of a worker.\<close>

definition prs_excp_raise ::
  "u64 \<Rightarrow> bool \<Rightarrow> (ptr \<Rightarrow> prs_excp_handler_t) \<Rightarrow> mq_state option \<Rightarrow> (ptr \<Rightarrow> ptr) \<Rightarrow> prs_excp_type \<Rightarrow> ptr \<Rightarrow> ptr \<Rightarrow> ptr
    \<Rightarrow> excp_world \<Rightarrow> excp_world option" where
  "prs_excp_raise page_size commit_fails handler_of s_prs_excp task_of excp extra worker context w =
     (let task = (if worker \<noteq> 0 then task_of worker else 0) in
      Option.bind
        (case s_prs_excp of
           None \<Rightarrow> Some (w, True)
         | Some handlers \<Rightarrow>
             excp_raise_loop handler_of handlers (prs_mpscq_rbegin (snd handlers)) excp extra worker task context w)
        (\<lambda>(w, next).
           if next then
             (let (w, next) = prs_excp_process (prs_excp_default_handler page_size commit_fails) excp extra worker task context w
              in Some (if next then excp_do (ExitFromExcp (- 1)) w else w))
           else Some w))"

definition prs_excp_register_handler :: "mq_state \<Rightarrow> ptr \<Rightarrow> ptr option \<Rightarrow> mq_state \<times> prs_result" where
  "prs_excp_register_handler handlers handler memory = prs_mpscq_push handlers handler memory"

text \<open>\<open>None\<close> is the fatal outcome.\<close>

definition prs_excp_init :: "prs_mpscq_nodes \<Rightarrow> ptr option \<Rightarrow> ptr option \<Rightarrow> mq_state option" where
  "prs_excp_init m memory mpscq_memory =
     (case memory of
        None \<Rightarrow> None
      | Some _ \<Rightarrow> map_option (Pair m) (prs_mpscq_create mpscq_memory))"

section \<open>Error reports\<close>

datatype prs_error_type = PRS_ERROR_TYPE_CONTINUE | PRS_ERROR_TYPE_KILL_TASK | PRS_ERROR_TYPE_FATAL

fun prs_error_type_to_excp_behavior :: "prs_error_type \<Rightarrow> prs_excp_result" where
  "prs_error_type_to_excp_behavior PRS_ERROR_TYPE_CONTINUE = PRS_EXCP_RESULT_CONTINUE"
| "prs_error_type_to_excp_behavior PRS_ERROR_TYPE_KILL_TASK = PRS_EXCP_RESULT_KILL_TASK"
| "prs_error_type_to_excp_behavior PRS_ERROR_TYPE_FATAL = PRS_EXCP_RESULT_EXIT"

text \<open>The structure is a local variable at \<open>info\<close>.\<close>

definition prs_error ::
  "u64 \<Rightarrow> bool \<Rightarrow> (ptr \<Rightarrow> prs_excp_handler_t) \<Rightarrow> mq_state option \<Rightarrow> (ptr \<Rightarrow> ptr) \<Rightarrow> ptr \<Rightarrow> ptr
    \<Rightarrow> prs_error_type \<Rightarrow> string \<Rightarrow> string \<Rightarrow> int \<Rightarrow> excp_world \<Rightarrow> excp_world option" where
  "prs_error page_size commit_fails handler_of s_prs_excp task_of current_worker info error expr file line w =
     (let w = w\<lparr>ew_infos := (ew_infos w)(info :=
                \<lparr>ri_expr = expr, ri_file = file, ri_line = line, ri_behavior = prs_error_type_to_excp_behavior error\<rparr>)\<rparr>
      in prs_excp_raise page_size commit_fails handler_of s_prs_excp task_of PRS_EXCP_TYPE_PRS info current_worker 0 w)"

section \<open>Signals\<close>

definition SIGILL :: int where "SIGILL = 4"
definition SIGBUS :: int where "SIGBUS = 7"
definition SIGFPE :: int where "SIGFPE = 8"
definition SIGSEGV :: int where "SIGSEGV = 11"
definition SIGSYS :: int where "SIGSYS = 31"

lemmas SIG_defs = SIGILL_def SIGBUS_def SIGFPE_def SIGSEGV_def SIGSYS_def

definition prs_pal_excp_sighandler ::
  "u64 \<Rightarrow> bool \<Rightarrow> (ptr \<Rightarrow> prs_excp_handler_t) \<Rightarrow> mq_state option \<Rightarrow> (ptr \<Rightarrow> ptr) \<Rightarrow> ptr \<Rightarrow> int \<Rightarrow> ptr \<Rightarrow> ptr
    \<Rightarrow> excp_world \<Rightarrow> excp_world option" where
  "prs_pal_excp_sighandler page_size commit_fails handler_of s_prs_excp task_of current_worker signo extra ucontext w =
     (if current_worker = 0 then Some (excp_do (SignalChain signo) w)
      else
        (let excp =
               (if signo = SIGFPE then PRS_EXCP_TYPE_FLOATING_POINT
                else if signo = SIGBUS then PRS_EXCP_TYPE_BUS
                else if signo = SIGILL then PRS_EXCP_TYPE_ILLEGAL_INSTRUCTION
                else if signo = SIGSEGV then
                  (let task = task_of current_worker in
                   if task \<noteq> 0 \<and> prs_stack_address_in_range (task_stack (ew_tasks w task)) extra
                   then PRS_EXCP_TYPE_STACK_OVERFLOW
                   else PRS_EXCP_TYPE_SEGMENTATION_FAULT)
                else if signo = SIGSYS then PRS_EXCP_TYPE_OS
                else PRS_EXCP_TYPE_UNKNOWN)
         in prs_excp_raise page_size commit_fails handler_of s_prs_excp task_of excp extra current_worker ucontext w))"

section \<open>Raising\<close>

text \<open>The specification: the handlers are asked in turn until one does not forward the exception.\<close>

fun excp_ask :: "prs_excp_handler_t list \<Rightarrow> prs_excp_type \<Rightarrow> ptr \<Rightarrow> ptr \<Rightarrow> ptr \<Rightarrow> ptr \<Rightarrow> excp_world \<Rightarrow> excp_world" where
  "excp_ask [] excp extra worker task context w = excp_do (ExitFromExcp (- 1)) w"
| "excp_ask (h # hs) excp extra worker task context w =
     (case h excp extra worker task context w of
        (w, PRS_EXCP_RESULT_FORWARD) \<Rightarrow> excp_ask hs excp extra worker task context w
      | (w, PRS_EXCP_RESULT_CONTINUE) \<Rightarrow> w
      | (w, PRS_EXCP_RESULT_EXIT) \<Rightarrow> excp_do (ExitFromExcp (- 1)) w
      | (w, PRS_EXCP_RESULT_KILL_TASK) \<Rightarrow>
          excp_do (if context \<noteq> 0 then RestoreContext worker context else WorkerSchedule worker)
            (excp_do (TaskDestroy task) w))"

lemma excp_ask_process:
  "excp_ask (h # hs) excp extra worker task context w =
     (case prs_excp_process h excp extra worker task context w of
        (w, nxt) \<Rightarrow> if nxt then excp_ask hs excp extra worker task context w else w)"
  by (cases "h excp extra worker task context w"; cases "snd (h excp extra worker task context w)")
    (simp_all add: prs_excp_process_def)

text \<open>The list that the loop walks is the queue backwards.\<close>

lemma excp_raise_loop_runs:
  assumes "nexts (qn_next (fst handlers)) xs" and "0 \<notin> set xs"
  shows "\<exists>w' nxt. excp_raise_loop handler_of handlers (first_or xs 0) excp extra worker task context w = Some (w', nxt)
    \<and> excp_ask (map (\<lambda>x. handler_of (qn_data (fst handlers) x)) xs @ hs) excp extra worker task context w =
        (if nxt then excp_ask hs excp extra worker task context w' else w')"
  using assms
proof (induction xs arbitrary: w)
  case Nil
  show ?case
    by (intro exI [of _ w] exI [of _ True]) (subst excp_raise_loop.simps, simp add: prs_mpscq_end_def)
next
  case (Cons x xs)
  obtain w' nxt where p: "prs_excp_process (handler_of (qn_data (fst handlers) x)) excp extra worker task context w = (w', nxt)"
    by fastforce
  have nx: "prs_mpscq_prev handlers x = first_or xs 0" using Cons.prems by (simp add: prs_mpscq_prev_def)
  have step: "excp_raise_loop handler_of handlers x excp extra worker task context w =
      (if \<not> nxt then Some (w', False) else excp_raise_loop handler_of handlers (first_or xs 0) excp extra worker task context w')"
    using Cons.prems(2) p nx
    by (subst excp_raise_loop.simps) (simp add: prs_mpscq_end_def prs_mpscq_get_data_def)
  have ask: "excp_ask (map (\<lambda>x. handler_of (qn_data (fst handlers) x)) (x # xs) @ hs) excp extra worker task context w =
      (if nxt then excp_ask (map (\<lambda>x. handler_of (qn_data (fst handlers) x)) xs @ hs) excp extra worker task context w' else w')"
    using p by (simp only: list.map append_Cons excp_ask_process) simp
  show ?case
  proof (cases "nxt")
    case True
    from Cons.IH [of w'] Cons.prems obtain v nx' where
      v: "excp_raise_loop handler_of handlers (first_or xs 0) excp extra worker task context w' = Some (v, nx')"
      "excp_ask (map (\<lambda>x. handler_of (qn_data (fst handlers) x)) xs @ hs) excp extra worker task context w' =
        (if nx' then excp_ask hs excp extra worker task context v else v)" by (simp only: nexts.simps list.set insert_iff) blast
    show ?thesis
      by (rule exI [of _ v], rule exI [of _ nx']) (simp only: first_or_simps step ask v True simp_thms if_True if_False)
  next
    case False
    show ?thesis
      by (rule exI [of _ w'], rule exI [of _ False]) (simp only: first_or_simps step ask False simp_thms if_True if_False)
  qed
qed

lemma excp_raise_asks:
  assumes "mq_rep handlers xs"
  shows "prs_excp_raise page_size commit_fails handler_of (Some handlers) task_of excp extra worker context w =
    Some (excp_ask (map handler_of (rev (mq_data handlers xs)) @ [prs_excp_default_handler page_size commit_fails])
      excp extra worker (if worker \<noteq> 0 then task_of worker else 0) context w)"
proof -
  let ?task = "if worker \<noteq> 0 then task_of worker else 0" and ?d = "prs_excp_default_handler page_size commit_fails"
  have "nexts (qn_next (fst handlers)) (rev xs)" "mq_head (snd handlers) = first_or (rev xs) 0" "0 \<notin> set (rev xs)"
    using assms by (auto simp: mq_rep_def revq_def)
  from excp_raise_loop_runs [OF this(1,3), of handler_of excp extra worker ?task "context" w "[?d]"] this(2)
  obtain w' nxt where
    l: "excp_raise_loop handler_of handlers (prs_mpscq_rbegin (snd handlers)) excp extra worker ?task context w = Some (w', nxt)"
    and a: "excp_ask (map (\<lambda>x. handler_of (qn_data (fst handlers) x)) (rev xs) @ [?d]) excp extra worker ?task context w =
        (if nxt then excp_ask [?d] excp extra worker ?task context w' else w')"
    by (auto simp: prs_mpscq_rbegin_def)
  have m: "map (\<lambda>x. handler_of (qn_data (fst handlers) x)) (rev xs) = map handler_of (rev (mq_data handlers xs))"
    by (simp add: mq_data_def rev_map)
  show ?thesis
    using l a unfolding m prs_excp_raise_def excp_ask_process
    by (cases "prs_excp_process ?d excp extra worker ?task context w'") (simp add: Let_def)
qed

section \<open>Stack overflows\<close>

text \<open>The state of a task whose stack can grow.\<close>

definition task_stack_ok :: "ptr \<Rightarrow> excp_world \<Rightarrow> bool" where
  "task_stack_ok task w \<longleftrightarrow>
     stack_state (ew_memory w) (task_stack (ew_tasks w task)) (task_stack_size (ew_tasks w task))"

text \<open>An access of the running task: if the page is not accessible, the signal handler runs and the access is
  repeated.\<close>

definition excp_access :: "u64 \<Rightarrow> (ptr \<Rightarrow> ptr) \<Rightarrow> ptr \<Rightarrow> ptr \<Rightarrow> ptr \<Rightarrow> excp_world \<Rightarrow> excp_world option" where
  "excp_access page_size task_of worker ucontext a w =
     (if ew_memory w a = Some (PROT_READ OR PROT_WRITE) then Some w
      else prs_pal_excp_sighandler page_size False (\<lambda>_. prs_excp_default_handler page_size False) None task_of worker
             SIGSEGV a ucontext w)"

lemma excp_print_frame:
  "ew_memory (prs_excp_print excp extra task w) = ew_memory w" "ew_tasks (prs_excp_print excp extra task w) = ew_tasks w"
  by (simp_all add: prs_excp_print_def excp_do_def Let_def)

lemma excp_overflow_handled:
  assumes "unat page_size = 2 ^ k" and "k \<le> 20" and "worker \<noteq> 0" and "task_of worker = task" and "task \<noteq> 0"
    and "task_stack_ok task w" and "PRS_MAX_STACK_SIZE \<le> task_stack (ew_tasks w task)"
    and "prs_stack_address_in_range (task_stack (ew_tasks w task)) a"
  obtains w' log where "excp_access page_size task_of worker ucontext a w = Some w'"
    and "task_stack_ok task w'" and "task_stack (ew_tasks w' task) = task_stack (ew_tasks w task)"
    and "ew_memory w' a = Some (PROT_READ OR PROT_WRITE)"
    and "\<forall>b. ew_memory w b = Some (PROT_READ OR PROT_WRITE) \<longrightarrow> ew_memory w' b = Some (PROT_READ OR PROT_WRITE)"
    and "ew_calls w' = ew_calls w @ log" and "\<forall>c \<in> set log. \<exists>n t e. c = LogExtra n t e"
proof (cases "ew_memory w a = Some (PROT_READ OR PROT_WRITE)")
  case True
  show thesis by (rule that [of w "[]"]) (use True assms(6) in \<open>simp_all add: excp_access_def\<close>)
next
  case False
  let ?s = "task_stack (ew_tasks w task)" and ?n = "task_stack_size (ew_tasks w task)"
  let ?log = "LogExtra (prs_excp_type_to_string PRS_EXCP_TYPE_STACK_OVERFLOW) (prs_excp_task_name w task) a"
  note d = stack_in_range_distance [OF assms(7,8)]
  note acc = stack_state_access [OF assms(6) [unfolded task_stack_ok_def] d(1,2)]
  have deep: "?n \<le> ?s - a" using False acc by (auto split: if_splits)
  from stack_grow_ok [OF assms(1,2) assms(6) [unfolded task_stack_ok_def] d(1) deep]
  obtain mem' n where g: "prs_stack_grow page_size (ew_memory w) False ?s ?n a = (mem', Some n)"
    "stack_state mem' ?s n" "?s - a \<le> n" "n \<le> PRS_MAX_STACK_SIZE"
    "\<And>b. \<not> in_area (?s - PRS_MAX_STACK_SIZE) PRS_MAX_STACK_SIZE b \<Longrightarrow> mem' b = ew_memory w b" by metis
  let ?w = "(excp_do ?log w)\<lparr>ew_memory := mem',
    ew_tasks := (ew_tasks w)(task := (ew_tasks w task)\<lparr>task_stack_size := n\<rparr>)\<rparr>"
  have r: "excp_access page_size task_of worker ucontext a w = Some ?w"
    using False g(1) assms(3-5,8)
    by (simp add: excp_access_def prs_pal_excp_sighandler_def SIG_defs prs_excp_raise_def prs_excp_process_def
        prs_excp_default_handler_def prs_excp_print_def excp_do_def Let_def)
  have keep: "mem' b = Some (PROT_READ OR PROT_WRITE)" if b: "ew_memory w b = Some (PROT_READ OR PROT_WRITE)" for b
  proof (cases "in_area (?s - PRS_MAX_STACK_SIZE) PRS_MAX_STACK_SIZE b")
    case True
    define off where "off = b - (?s - PRS_MAX_STACK_SIZE)"
    then have o: "b = ?s - PRS_MAX_STACK_SIZE + off" "off < PRS_MAX_STACK_SIZE" using True by (simp_all add: in_area_def)
    have n: "?n \<le> n" using deep g(3) by (rule order_trans)
    have "PRS_MAX_STACK_SIZE - ?n \<le> off"
      using b o assms(6) by (auto simp: task_stack_ok_def stack_state_def PROT_defs split: if_splits)
    moreover have "PRS_MAX_STACK_SIZE - n \<le> PRS_MAX_STACK_SIZE - ?n"
      using n g(4) order_trans [OF n g(4)] by (simp add: word_le_nat_alt unat_sub)
    ultimately have "PRS_MAX_STACK_SIZE - n \<le> off" by (rule order_trans [rotated])
    then show ?thesis using g(2) o by (auto simp: stack_state_def)
  next
    case False
    then show ?thesis using g(5) b by simp
  qed
  have "mem' a = Some (PROT_READ OR PROT_WRITE)" using stack_state_access [OF g(2) d(1,2)] g(3) by simp
  then show thesis
    by (intro that [of ?w "[?log]"]) (use r g(2) keep in \<open>simp_all add: task_stack_ok_def excp_do_def\<close>)
qed

section \<open>Properties\<close>

text \<open>C15: Raising an exception always returns. The handler that was registered last is asked first, then the
  earlier ones, as long as they forward the exception, and the default handler after all of them; the first
  handler that does not forward it decides what happens: PRS exits, the task is destroyed and the worker
  continues with another context, or the task continues.\<close>

theorem excp_raise_order:
  assumes "mq_rep handlers xs" and "node \<noteq> 0" and "node \<notin> set xs"
  shows "prs_excp_raise page_size commit_fails handler_of
      (Some (fst (prs_excp_register_handler handlers h (Some node)))) task_of excp extra worker context w =
    Some (excp_ask (handler_of h # map handler_of (rev (mq_data handlers xs))
        @ [prs_excp_default_handler page_size commit_fails])
      excp extra worker (if worker \<noteq> 0 then task_of worker else 0) context w)"
proof -
  obtain m q where h: "handlers = (m, q)" by (cases handlers)
  obtain m' q' r where p: "prs_mpscq_push (m, q) h (Some node) = ((m', q'), r)" by (metis surj_pair)
  note push = mq_push_rep [OF assms(1) [unfolded h] assms(2,3) p]
  show ?thesis
    using excp_raise_asks [OF push(2)] p push(3) by (simp add: prs_excp_register_handler_def h)
qed

definition excp_world_example :: excp_world where
  "excp_world_example =
     \<lparr>ew_memory = (\<lambda>a. if a - 0x7000FF000 < 0x1000 then Some (PROT_READ OR PROT_WRITE)
        else if a - 0x700000000 < 0xFF000 then Some PROT_NONE else None),
      ew_tasks = (\<lambda>_. \<lparr>task_id = 1, task_name = ''t'', task_userdata = 0, task_stack = 0x700100000, task_stack_size = 0x1000,
        task_prio = 0, task_proc_id = 0, task_sched_id = 0, task_sched_userdata = 0, task_token = 0, task_context = 0,
        task_entry = 0, task_msgq = 0\<rparr>),
      ew_procs = \<lparr>pd_range_table = [], pd_range_table_count = 0\<rparr>,
      ew_infos = (\<lambda>_. \<lparr>ri_expr = [], ri_file = [], ri_line = 0, ri_behavior = PRS_EXCP_RESULT_EXIT\<rparr>), ew_calls = []\<rparr>"

theorem excp_raise_order_witness:
  "prs_excp_raise 0x1000 False (\<lambda>_ _ _ _ _ _ w. (w, PRS_EXCP_RESULT_KILL_TASK))
     (Some (fst (prs_excp_register_handler mq_example 5 (Some 16)))) (\<lambda>_. 8) PRS_EXCP_TYPE_BUS 0 4 0 excp_world_example =
   Some (excp_world_example\<lparr>ew_calls := [TaskDestroy 8, WorkerSchedule 4]\<rparr>)"
  using excp_raise_order [OF mq_example_rep, where node = 16 and handler_of = "\<lambda>_ _ _ _ _ _ w. (w, PRS_EXCP_RESULT_KILL_TASK)"]
  by (simp add: excp_do_def excp_world_example_def)


lemma excp_world_example_ok: "task_stack_ok 8 excp_world_example"
proof -
  have "excp_world_example\<lparr>ew_calls := []\<rparr> = excp_world_example" by (simp add: excp_world_example_def)
  have lt: "off - 0xFF000 < 0x1000 \<longleftrightarrow> 0xFF000 \<le> off" if "off < PRS_MAX_STACK_SIZE" for off :: u64
    using in_area_from_limit [where n = "0x1000" and m = PRS_MAX_STACK_SIZE and off = off and b = 0] that
    by (simp add: in_area_def PRS_MAX_STACK_SIZE_def)
  then show ?thesis
    by (auto simp: task_stack_ok_def stack_state_def excp_world_example_def PRS_MAX_STACK_SIZE_def not_le)
qed


end
