(* ===== verification/Spinlock.thy ===== *)
theory Spinlock
  imports Atomic
begin

text \<open>
  The spinlock of \<^verbatim>\<open>prs/spinlock.c\<close>: one boolean cell. \<open>prs_spinlock_lock\<close> is run against the values that
  its exchanges meet; \<open>spin_step\<close> is the step relation of any number of threads that lock and unlock.
\<close>

section \<open>Operations\<close>

record prs_spinlock =
  sl_addr :: ptr
  sl_lock :: bool

text \<open>A missing structure is fatal.\<close>

definition prs_spinlock_create :: "ptr option \<Rightarrow> prs_spinlock option" where
  "prs_spinlock_create memory = map_option (\<lambda>addr. \<lparr>sl_addr = addr, sl_lock = False\<rparr>) memory"

definition prs_spinlock_destroy :: "prs_spinlock \<Rightarrow> ptr list" where
  "prs_spinlock_destroy spinlock = [sl_addr spinlock]"

definition prs_spinlock_try_lock :: "prs_spinlock \<Rightarrow> prs_spinlock \<times> bool" where
  "prs_spinlock_try_lock spinlock =
     (case atomic_exchange (sl_lock spinlock) True of
        (old, new) \<Rightarrow> (spinlock\<lparr>sl_lock := new\<rparr>, \<not> old))"

text \<open>The loop of \<^verbatim>\<open>prs_spinlock_lock\<close>: each attempt meets a value that the other threads left in the cell. The
  result is the number of attempts, or \<open>None\<close> while it still waits.\<close>

fun prs_spinlock_lock :: "prs_spinlock \<Rightarrow> bool list \<Rightarrow> (prs_spinlock \<times> nat) option" where
  "prs_spinlock_lock spinlock [] = None"
| "prs_spinlock_lock spinlock (met # mets) =
     (let (spinlock, locked) = prs_spinlock_try_lock (spinlock\<lparr>sl_lock := met\<rparr>)
      in if \<not> locked then map_option (apsnd Suc) (prs_spinlock_lock spinlock mets) else Some (spinlock, 1))"

definition prs_spinlock_unlock :: "prs_spinlock \<Rightarrow> prs_spinlock" where
  "prs_spinlock_unlock spinlock = spinlock\<lparr>sl_lock := False\<rparr>"

section \<open>Threads\<close>

text \<open>A thread is outside, waits in the loop of the lock, or is inside the critical section.\<close>

datatype spin_thread = Outside | Waiting | Inside

inductive spin_step :: "prs_spinlock \<times> (nat \<Rightarrow> spin_thread) \<Rightarrow> prs_spinlock \<times> (nat \<Rightarrow> spin_thread) \<Rightarrow> bool" where
  enter: "ts t = Outside \<Longrightarrow> spin_step (s, ts) (s, ts(t := Waiting))"
| attempt: "ts t = Waiting \<Longrightarrow> prs_spinlock_try_lock s = (s', locked)
    \<Longrightarrow> spin_step (s, ts) (s', ts(t := if locked then Inside else Waiting))"
| leave: "ts t = Inside \<Longrightarrow> spin_step (s, ts) (prs_spinlock_unlock s, ts(t := Outside))"

inductive_cases spin_stepE: "spin_step (s, ts) (s', ts')"

text \<open>The invariant: the cell is set exactly while one thread is inside.\<close>

definition spin_inv :: "prs_spinlock \<times> (nat \<Rightarrow> spin_thread) \<Rightarrow> bool" where
  "spin_inv c \<longleftrightarrow> (\<forall>t u. snd c t = Inside \<and> snd c u = Inside \<longrightarrow> t = u)
     \<and> (sl_lock (fst c) \<longleftrightarrow> (\<exists>t. snd c t = Inside))"

lemma try_lock_cases:
  "prs_spinlock_try_lock s = (s', locked) \<longleftrightarrow> s' = s\<lparr>sl_lock := True\<rparr> \<and> locked = (\<not> sl_lock s)"
  by (auto simp: prs_spinlock_try_lock_def atomic_exchange_def)

lemma spin_inv_step:
  assumes "spin_step c c'" and "spin_inv c"
  shows "spin_inv c'"
  using assms
proof (induction rule: spin_step.induct)
  case (attempt ts t s s' locked)
  have "u \<noteq> t" if "ts u = Inside" for u using attempt(1) that by auto
  then show ?case using attempt by (auto simp: spin_inv_def try_lock_cases split: if_splits)
next
  case (leave ts t s)
  then show ?case by (auto simp: spin_inv_def prs_spinlock_unlock_def)
next
  case (enter ts t s)
  have "(ts(t := Waiting)) u = Inside \<longleftrightarrow> ts u = Inside" for u using enter(1) by simp
  then show ?case using enter(2) by (simp add: spin_inv_def)
qed

lemma spin_inv_reach:
  assumes "spin_step\<^sup>*\<^sup>* c c'" and "spin_inv c"
  shows "spin_inv c'"
  using assms by (induction rule: rtranclp_induct) (auto intro: spin_inv_step)

lemma spin_inv_created:
  "prs_spinlock_create (Some addr) = Some s \<Longrightarrow> spin_inv (s, \<lambda>_. Outside)"
  by (auto simp: prs_spinlock_create_def spin_inv_def)

text \<open>The lock returns with the first attempt that meets a free cell.\<close>

lemma spinlock_lock_returns:
  "prs_spinlock_lock s (replicate n True @ False # mets) = Some (s\<lparr>sl_lock := True\<rparr>, Suc n)"
proof (induction n arbitrary: s)
  case (Suc n)
  show ?case using Suc.IH [of "s\<lparr>sl_lock := True\<rparr>"] by (simp add: prs_spinlock_try_lock_def atomic_exchange_def)
qed (simp add: prs_spinlock_try_lock_def atomic_exchange_def)

lemma spinlock_lock_waits: "prs_spinlock_lock s (replicate n True) = None"
  by (induction n arbitrary: s) (simp_all add: prs_spinlock_try_lock_def atomic_exchange_def)

section \<open>Properties\<close>

text \<open>C19: From a new spinlock on, however any number of threads interleave, at most one of them is inside
  the critical section and the cell is set exactly while one is; the next attempt of a waiting thread
  succeeds exactly when nobody is inside.\<close>

theorem spinlock_mutual_exclusion:
  assumes "prs_spinlock_create (Some addr) = Some s0"
    and "spin_step\<^sup>*\<^sup>* (s0, \<lambda>_. Outside) (s, ts)"
  shows "(\<forall>t u. ts t = Inside \<and> ts u = Inside \<longrightarrow> t = u) \<and> (sl_lock s \<longleftrightarrow> (\<exists>t. ts t = Inside))
    \<and> (snd (prs_spinlock_try_lock s) \<longleftrightarrow> (\<forall>t. ts t \<noteq> Inside))"
proof -
  have "spin_inv (s, ts)" by (rule spin_inv_reach [OF assms(2) spin_inv_created [OF assms(1)]])
  moreover have "snd (prs_spinlock_try_lock s) = (\<not> sl_lock s)"
    by (simp add: prs_spinlock_try_lock_def atomic_exchange_def)
  ultimately show ?thesis by (auto simp: spin_inv_def)
qed

theorem spinlock_mutual_exclusion_witness:
  "\<not> snd (prs_spinlock_try_lock \<lparr>sl_addr = 8, sl_lock = True\<rparr>)"
proof -
  let ?s0 = "\<lparr>sl_addr = 8, sl_lock = False\<rparr>" and ?s1 = "\<lparr>sl_addr = 8, sl_lock = True\<rparr>"
  let ?w = "(\<lambda>_. Outside)(0 := Waiting)"
  have "spin_step (?s0, \<lambda>_. Outside) (?s0, ?w)" by (rule enter) simp
  moreover have "spin_step (?s0, ?w) (?s1, ?w(0 := Inside))"
    using attempt [of ?w 0 ?s0 ?s1 True] by (simp add: try_lock_cases)
  ultimately have r: "spin_step\<^sup>*\<^sup>* (?s0, \<lambda>_. Outside) (?s1, ?w(0 := Inside))"
    by (meson converse_rtranclp_into_rtranclp r_into_rtranclp)
  have "prs_spinlock_create (Some 8) = Some ?s0" by (simp add: prs_spinlock_create_def)
  from spinlock_mutual_exclusion [OF this r] show ?thesis by (metis fun_upd_same)
qed

end
