(* ===== verification/Mpmcq.thy ===== *)
theory Mpmcq
  imports Pd
begin

text \<open>
  The multi-producer multi-consumer queue of \<^verbatim>\<open>prs/lib/ds/mpmcq.c\<close>. Nodes are named by IDs of a pointer
  directory, which counts the references to them. The memory holds the directory, the fields of the nodes
  by address and the addresses that were freed; what \<^verbatim>\<open>prs_pal_malloc_zero\<close> returns is an argument. The
  operations are modelled for one thread at a time: every atomic operation is there, and nothing happens
  between them.
\<close>

section \<open>Data\<close>

record mpmcq_memory =
  mm_pd :: prs_pd
  mm_next :: "ptr \<Rightarrow> u64"
  mm_consumed :: "ptr \<Rightarrow> bool"
  mm_data :: "ptr \<Rightarrow> ptr"
  mm_freed :: "ptr list"

record prs_mpmcq_locked_node =
  ln_node :: ptr
  ln_id :: u64

record prs_mpmcq =
  mc_addr :: ptr
  mc_owns_pd :: bool
  mc_head :: u64
  mc_tail :: u64

type_synonym mc_state = "mpmcq_memory \<times> prs_mpmcq"

section \<open>Operations\<close>

definition prs_mpmcq_alloc_node :: "mpmcq_memory \<Rightarrow> ptr \<Rightarrow> ptr option \<Rightarrow> mpmcq_memory \<times> prs_mpmcq_locked_node" where
  "prs_mpmcq_alloc_node m data memory =
     (case memory of
        None \<Rightarrow> (m, \<lparr>ln_node = 0, ln_id = 0\<rparr>)
      | Some node \<Rightarrow>
          (case prs_pd_alloc_and_lock (mm_pd m) node of
             (pd, result, pid) \<Rightarrow>
               (if result \<noteq> PRS_OK then (m\<lparr>mm_pd := pd, mm_freed := mm_freed m @ [node]\<rparr>, \<lparr>ln_node = 0, ln_id = pid\<rparr>)
                else (m\<lparr>mm_pd := pd, mm_data := (mm_data m)(node := data), mm_consumed := (mm_consumed m)(node := False),
                        mm_next := (mm_next m)(node := PRS_PD_ID_INVALID)\<rparr>,
                      \<lparr>ln_node = node, ln_id = pid\<rparr>))))"

text \<open>The ID is the value of the cell that is locked.\<close>

definition prs_mpmcq_lock :: "mpmcq_memory \<Rightarrow> u64 \<Rightarrow> mpmcq_memory \<times> prs_mpmcq_locked_node" where
  "prs_mpmcq_lock m pid =
     (if pid = PRS_PD_ID_INVALID then (m, \<lparr>ln_node = 0, ln_id = pid\<rparr>)
      else (case prs_pd_lock (mm_pd m) pid of (pd, node) \<Rightarrow> (m\<lparr>mm_pd := pd\<rparr>, \<lparr>ln_node = node, ln_id = pid\<rparr>)))"

definition prs_mpmcq_unlock :: "mpmcq_memory \<Rightarrow> prs_mpmcq_locked_node \<Rightarrow> mpmcq_memory" where
  "prs_mpmcq_unlock m locked_node =
     (case prs_pd_unlock (mm_pd m) (ln_id locked_node) of
        (pd, must_free) \<Rightarrow>
          (if must_free then m\<lparr>mm_pd := pd, mm_freed := mm_freed m @ [ln_node locked_node]\<rparr> else m\<lparr>mm_pd := pd\<rparr>))"

definition prs_mpmcq_struct_size :: u64 where
  "prs_mpmcq_struct_size = 32"

record prs_mpmcq_create_params =
  mcp_area :: ptr
  mcp_pd :: "prs_pd option"
  mcp_pd_params :: "prs_pd_create_params option"

text \<open>The directory is the caller's, or one that is created; \<open>initial\<close> is the zeroed array of its entries.
  The result is the queue with the directory, and what was freed.\<close>

definition prs_mpmcq_create ::
  "prs_mpmcq_create_params \<Rightarrow> ptr option \<Rightarrow> prs_pd_entry list \<Rightarrow> ptr option \<Rightarrow> ptr option
    \<Rightarrow> (prs_mpmcq \<times> prs_pd) option \<times> ptr list" where
  "prs_mpmcq_create params memory initial pd_mem entries_mem =
     (case (if mcp_area params \<noteq> 0 then Some (mcp_area params) else memory) of
        None \<Rightarrow> (None, [])
      | Some addr \<Rightarrow>
          (case mcp_pd params of
             Some pd \<Rightarrow> (Some (\<lparr>mc_addr = addr, mc_owns_pd = False, mc_head = PRS_PD_ID_INVALID, mc_tail = PRS_PD_ID_INVALID\<rparr>, pd), [])
           | None \<Rightarrow>
               (let pd_params = (case mcp_pd_params params of None \<Rightarrow> \<lparr>pdp_max_entries = 4096, pdp_area = None\<rparr> | Some p \<Rightarrow> p)
                in case prs_pd_create pd_params initial pd_mem entries_mem of
                     (None, freed) \<Rightarrow> (None, freed @ [addr])
                   | (Some pd, freed) \<Rightarrow>
                       (Some (\<lparr>mc_addr = addr, mc_owns_pd = True, mc_head = PRS_PD_ID_INVALID, mc_tail = PRS_PD_ID_INVALID\<rparr>, pd), freed))))"

text \<open>The loop of the push, from the locked tail on.\<close>

partial_function (option) mpmcq_push_loop ::
  "u64 \<Rightarrow> mc_state \<Rightarrow> prs_mpmcq_locked_node \<Rightarrow> mc_state option" where
  "mpmcq_push_loop new_id s tail =
     (let (m, q) = s; tail_id = ln_id tail in
      if ln_node tail \<noteq> 0 then
        (let (m, nxt) = prs_mpmcq_lock m (mm_next m (ln_node tail)) in
         if ln_node nxt \<noteq> 0 then
           (let (_, cell, _) = atomic_compare_exchange (mc_tail q) tail_id (ln_id nxt)
            in mpmcq_push_loop new_id (prs_mpmcq_unlock m tail, q\<lparr>mc_tail := cell\<rparr>) nxt)
         else
           (let (tail_next_set, cell, _) = atomic_compare_exchange (mm_next m (ln_node tail)) (ln_id nxt) new_id;
                m = m\<lparr>mm_next := (mm_next m)(ln_node tail := cell)\<rparr>
            in if \<not> tail_next_set then
                 (let m = prs_mpmcq_unlock m tail; (m, tail) = prs_mpmcq_lock m (mc_tail q)
                  in mpmcq_push_loop new_id (m, q) tail)
               else
                 (let m = prs_mpmcq_unlock m tail;
                      (_, cell, _) = atomic_compare_exchange (mc_tail q) tail_id new_id
                  in Some (m, q\<lparr>mc_tail := cell\<rparr>))))
      else
        (let (tail_set, cell, _) = atomic_compare_exchange (mc_tail q) tail_id new_id;
             q = q\<lparr>mc_tail := cell\<rparr>
         in if tail_set then Some (m, q\<lparr>mc_head := new_id\<rparr>)
            else (let (m, tail) = prs_mpmcq_lock m (mc_tail q) in mpmcq_push_loop new_id (m, q) tail)))"

definition prs_mpmcq_push :: "mc_state \<Rightarrow> ptr \<Rightarrow> ptr option \<Rightarrow> (mc_state \<times> prs_result) option" where
  "prs_mpmcq_push s data memory =
     (let (m, q) = s; (m, new_node) = prs_mpmcq_alloc_node m data memory in
      if ln_node new_node = 0 then Some ((m, q), PRS_OUT_OF_MEMORY)
      else
        (let (m, tail) = prs_mpmcq_lock m (mc_tail q)
         in map_option (\<lambda>s. (s, PRS_OK)) (mpmcq_push_loop (ln_id new_node) (m, q) tail)))"

text \<open>The loop of the pop; \<open>data\<close> is what was stored through the caller's pointer.\<close>

partial_function (option) mpmcq_pop_loop ::
  "mc_state \<Rightarrow> ptr option \<Rightarrow> prs_mpmcq_locked_node \<Rightarrow> (mc_state \<times> prs_result \<times> ptr option) option" where
  "mpmcq_pop_loop s data test_node =
     (let (m, q) = s in
      if ln_node test_node \<noteq> 0 then
        (let (already_consumed, cell) = atomic_exchange (mm_consumed m (ln_node test_node)) True;
             m = m\<lparr>mm_consumed := (mm_consumed m)(ln_node test_node := cell)\<rparr>;
             data = (if \<not> already_consumed then Some (mm_data m (ln_node test_node)) else data);
             (m, nxt) = prs_mpmcq_lock m (mm_next m (ln_node test_node))
         in if ln_node nxt \<noteq> 0 then
              (let (success, cell, _) = atomic_compare_exchange (mc_head q) (ln_id test_node) (ln_id nxt);
                   q = q\<lparr>mc_head := cell\<rparr>;
                   m = (if success then prs_mpmcq_unlock m test_node else m)
               in if already_consumed
                  then mpmcq_pop_loop (prs_mpmcq_unlock m test_node, q) data nxt
                  else Some ((prs_mpmcq_unlock (prs_mpmcq_unlock m nxt) test_node, q), PRS_OK, data))
            else
              (let m = prs_mpmcq_unlock m test_node
               in if already_consumed then Some ((m, q), PRS_EMPTY, data) else Some ((m, q), PRS_OK, data)))
      else
        (let prev_head_id = ln_id test_node; (m, test_node) = prs_mpmcq_lock m (mc_head q)
         in if ln_id test_node \<noteq> prev_head_id then mpmcq_pop_loop (m, q) data test_node
            else Some ((m, q), PRS_UNKNOWN, data)))"

definition prs_mpmcq_pop :: "mc_state \<Rightarrow> (mc_state \<times> prs_result \<times> ptr option) option" where
  "prs_mpmcq_pop s =
     (let (m, q) = s; (m, test_node) = prs_mpmcq_lock m (mc_head q) in mpmcq_pop_loop (m, q) None test_node)"

text \<open>The loop that drains the queue, and what is freed after it.\<close>

partial_function (option) mpmcq_drain :: "mc_state \<Rightarrow> mc_state option" where
  "mpmcq_drain s =
     Option.bind (prs_mpmcq_pop s) (\<lambda>(s, result, _). if result = PRS_OK then mpmcq_drain s else Some s)"

definition prs_mpmcq_destroy :: "mc_state \<Rightarrow> mpmcq_memory option" where
  "prs_mpmcq_destroy s =
     map_option (\<lambda>(m, q). m\<lparr>mm_freed := mm_freed m @ (if mc_owns_pd q then [pd_addr (mm_pd m)] else []) @ [mc_addr q]\<rparr>)
       (mpmcq_drain s)"

declare mpmcq_push_loop.simps [code] mpmcq_pop_loop.simps [code] mpmcq_drain.simps [code]

section \<open>The directory as the queue sees it\<close>

text \<open>The references and the pointer of each ID.\<close>

lemma pd_lock_view:
  assumes "pd_wf pd" and "pd_view pd i = Some n" and "pd_pointer pd i = Some p" and "n < 4095"
  obtains pd' where "prs_pd_lock pd i = (pd', p)" "pd_wf pd'" "pd_view pd' = (pd_view pd)(i \<mapsto> n + 1)"
    "pd_pointer pd' = pd_pointer pd" "pd_write_index pd' = pd_write_index pd"
proof -
  obtain e where e: "pd_live pd i = Some e" "pd_refs (pde_header e) = n" "pde_ptr e = p"
    using assms(2,3) by (auto simp: pd_view_def pd_pointer_def)
  from pd_lock_live [OF assms(1) e(1)] e assms(4) obtain pd' where
    l: "prs_pd_lock pd i = (pd', p)" "pd_wf pd'" "pd_write_index pd' = pd_write_index pd"
      "pd_live pd' = (pd_live pd)(i \<mapsto> e\<lparr>pde_header := pde_header e + PRS_PD_REFCNT_INC\<rparr>)" by auto
  have "pd_view pd' = (pd_view pd)(i \<mapsto> n + 1)" "pd_pointer pd' = pd_pointer pd"
    using l(4) e assms(4) pd_inc_fields(1) [of "pde_header e"]
    by (auto simp: pd_view_def pd_pointer_def fun_eq_iff)
  then show thesis by (rule that [OF l(1,2) _ _ l(3)])
qed

lemma pd_unlock_view:
  assumes "pd_wf pd" and "pd_view pd i = Some n" and "pd_pointer pd i = Some p"
  obtains pd' where "prs_pd_unlock pd i = (pd', n = 1)" "pd_wf pd'"
    "pd_view pd' = (pd_view pd)(i := (if n = 1 then None else Some (n - 1)))"
    "pd_pointer pd' = (pd_pointer pd)(i := (if n = 1 then None else Some p))" "pd_write_index pd' = pd_write_index pd"
proof -
  obtain e where e: "pd_live pd i = Some e" "pd_refs (pde_header e) = n" "pde_ptr e = p"
    using assms(2,3) by (auto simp: pd_view_def pd_pointer_def)
  have pos: "0 < pd_refs (pde_header e)" using e(1) unfolding pd_live_Some [OF assms(1)] by blast
  from pd_unlock_live [OF assms(1) e(1)] e(2) obtain pd' where
    l: "prs_pd_unlock pd i = (pd', n = 1)" "pd_wf pd'" "pd_write_index pd' = pd_write_index pd"
      "pd_live pd' = (pd_live pd)(i := (if n = 1 then None
         else Some (e\<lparr>pde_header := pde_header e - PRS_PD_REFCNT_INC\<rparr>)))" by auto
  have "pd_view pd' = (pd_view pd)(i := (if n = 1 then None else Some (n - 1)))"
    "pd_pointer pd' = (pd_pointer pd)(i := (if n = 1 then None else Some p))"
    using l(4) e pd_dec_fields(1) [OF pos] by (auto simp: pd_view_def pd_pointer_def fun_eq_iff)
  then show thesis by (rule that [OF l(1,2) _ _ l(3)])
qed

lemma pd_alloc_view:
  assumes "pd_wf pd" and "pd_ids_left pd" and "node \<noteq> 0" and "\<exists>e \<in> set (pd_entries pd). \<not> pde_taken e"
  obtains pd' j where "prs_pd_alloc_and_lock pd node = (pd', PRS_OK, j)" "pd_wf pd'" "pd_view pd j = None"
    "j \<noteq> PRS_PD_ID_INVALID" "pd_view pd' = (pd_view pd)(j \<mapsto> 1)" "pd_pointer pd' = (pd_pointer pd)(j \<mapsto> node)"
  using assms(1,2)
proof (cases rule: prs_pd_alloc_cases [where p = node])
  case full
  then show thesis using assms(4) by blast
next
  case (found j)
  note w = pd_alloc_at_wf [OF assms(1,3) found(1-3)]
  then obtain e where e: "pd_live (pd_alloc_at pd node j) = (pd_live pd)(j \<mapsto> e)" "pde_ptr e = node" "pd_refs (pde_header e) = 1"
    by blast
  show thesis
  proof (rule that [OF found(4) w(1)])
    show "pd_view pd j = None" using w(2) by (simp add: pd_view_def)
    show "j \<noteq> PRS_PD_ID_INVALID" using found(2) by (auto simp: PRS_PD_ID_INVALID_def unsigned_minus_1_eq_mask mask_eq_exp_minus_1)
    show "pd_view (pd_alloc_at pd node j) = (pd_view pd)(j \<mapsto> 1)"
      "pd_pointer (pd_alloc_at pd node j) = (pd_pointer pd)(j \<mapsto> node)"
      using e by (auto simp: pd_view_def pd_pointer_def fun_eq_iff)
  qed
qed

lemma pd_view_pointer: "pd_view pd i = None \<longleftrightarrow> pd_pointer pd i = None"
  by (simp add: pd_view_def pd_pointer_def)

lemma pd_view_invalid: "pd_view pd PRS_PD_ID_INVALID = None"
  by (simp add: pd_view_def pd_live_invalid)

section \<open>Queues in memory\<close>

text \<open>The ID of the first node of a list, as a cell holds it.\<close>

definition first_id :: "(u64 \<times> ptr) list \<Rightarrow> u64" where
  "first_id cs = (case cs of [] \<Rightarrow> PRS_PD_ID_INVALID | (i, _) # _ \<Rightarrow> i)"

definition last_id :: "(u64 \<times> ptr) list \<Rightarrow> u64" where
  "last_id cs = (if cs = [] then PRS_PD_ID_INVALID else fst (last cs))"

lemma first_id_simps [simp]: "first_id [] = PRS_PD_ID_INVALID" "first_id ((i, p) # cs) = i"
  by (simp_all add: first_id_def)

lemma last_id_simps [simp]: "last_id [] = PRS_PD_ID_INVALID" "last_id (cs @ [(i, p)]) = i"
  by (simp_all add: last_id_def)

text \<open>Each node is registered under its ID with one reference, and its next ID is that of its successor.\<close>

fun mc_links :: "mpmcq_memory \<Rightarrow> (u64 \<times> ptr) list \<Rightarrow> bool" where
  "mc_links m [] \<longleftrightarrow> True"
| "mc_links m ((i, p) # cs) \<longleftrightarrow> pd_view (mm_pd m) i = Some 1 \<and> pd_pointer (mm_pd m) i = Some p \<and> p \<noteq> 0
     \<and> mm_next m p = first_id cs \<and> mc_links m cs"

text \<open>Only the first node may be consumed; the elements are the data of the others.\<close>

definition mc_rep :: "mc_state \<Rightarrow> (u64 \<times> ptr) list \<Rightarrow> ptr list \<Rightarrow> bool" where
  "mc_rep s cs xs \<longleftrightarrow> (case s of (m, q) \<Rightarrow>
     pd_wf (mm_pd m) \<and> mc_links m cs \<and> distinct (map fst cs) \<and> distinct (map snd cs)
     \<and> mc_head q = first_id cs \<and> mc_tail q = last_id cs
     \<and> (\<forall>p \<in> snd ` set (tl cs). \<not> mm_consumed m p)
     \<and> xs = map (mm_data m) (filter (\<lambda>p. \<not> mm_consumed m p) (map snd cs)))"

lemma mc_links_frame:
  assumes "mc_links m cs"
    and "\<And>i. i \<in> fst ` set cs \<Longrightarrow> pd_view (mm_pd m') i = pd_view (mm_pd m) i \<and> pd_pointer (mm_pd m') i = pd_pointer (mm_pd m) i"
    and "\<And>p. p \<in> snd ` set cs \<Longrightarrow> mm_next m' p = mm_next m p"
  shows "mc_links m' cs"
  using assms by (induction cs rule: mc_links.induct) auto

lemma mc_links_append:
  "mc_links m (cs @ [(i, p)]) \<Longrightarrow> \<exists>n. mc_links m [(i, p)] \<and> mm_next m p = PRS_PD_ID_INVALID"
  by (induction cs) auto

lemma mc_links_live: "mc_links m cs \<Longrightarrow> (i, p) \<in> set cs \<Longrightarrow> pd_view (mm_pd m) i = Some 1 \<and> pd_pointer (mm_pd m) i = Some p \<and> p \<noteq> 0"
  by (induction m cs rule: mc_links.induct) auto

text \<open>Appending a node: the last node's next ID changes, and the new node is registered.\<close>

lemma mc_links_snoc:
  assumes "mc_links m cs" and "distinct (map snd cs)" and "p \<notin> snd ` set cs" and "p \<noteq> 0"
    and "pd_view (mm_pd m') j = Some 1" and "pd_pointer (mm_pd m') j = Some p" and "mm_next m' p = PRS_PD_ID_INVALID"
    and "\<And>i. i \<in> fst ` set cs \<Longrightarrow> pd_view (mm_pd m') i = pd_view (mm_pd m) i \<and> pd_pointer (mm_pd m') i = pd_pointer (mm_pd m) i"
    and "\<And>x. x \<in> snd ` set cs \<Longrightarrow> mm_next m' x = (if x = snd (last cs) then j else mm_next m x)"
  shows "mc_links m' (cs @ [(j, p)])"
  using assms(1-3,8,9)
proof (induction cs)
  case Nil
  then show ?case using assms(4-7) by simp
next
  case (Cons c cs)
  obtain i x where c: "c = (i, x)" by (cases c)
  show ?case
  proof (cases "cs = []")
    case True
    then show ?thesis using Cons.prems assms(4-7) by (simp add: c)
  next
    case False
    then have ne: "x \<noteq> snd (last cs)" using Cons.prems(2) by (auto simp: c)
    have "mc_links m' (cs @ [(j, p)])"
      using Cons.prems False by (intro Cons.IH) (auto simp: c)
    moreover have "first_id (cs @ [(j, p)]) = first_id cs" using False by (cases cs) (auto simp: first_id_def)
    ultimately show ?thesis using Cons.prems False ne by (auto simp: c)
  qed
qed

lemma mc_lock_none [simp]: "prs_mpmcq_lock m PRS_PD_ID_INVALID = (m, \<lparr>ln_node = 0, ln_id = PRS_PD_ID_INVALID\<rparr>)"
  by (simp add: prs_mpmcq_lock_def)

lemma mc_lock_live:
  assumes "pd_wf (mm_pd m)" and "pd_view (mm_pd m) i = Some n" and "pd_pointer (mm_pd m) i = Some p" and "n < 4095"
  obtains pd' where "prs_mpmcq_lock m i = (m\<lparr>mm_pd := pd'\<rparr>, \<lparr>ln_node = p, ln_id = i\<rparr>)" "pd_wf pd'"
    "pd_view pd' = (pd_view (mm_pd m))(i \<mapsto> n + 1)" "pd_pointer pd' = pd_pointer (mm_pd m)"
proof -
  have i: "i \<noteq> PRS_PD_ID_INVALID" using assms(2) pd_view_invalid by auto
  show thesis
    by (rule pd_lock_view [OF assms]) (use i in \<open>auto simp: prs_mpmcq_lock_def intro: that\<close>)
qed

text \<open>An unlock that leaves a reference, and the last one.\<close>

lemma mc_unlock_shared:
  assumes "pd_wf (mm_pd m)" and "pd_view (mm_pd m) i = Some (n + 2)" and "pd_pointer (mm_pd m) i = Some p"
  obtains pd' where "prs_mpmcq_unlock m \<lparr>ln_node = p, ln_id = i\<rparr> = m\<lparr>mm_pd := pd'\<rparr>" "pd_wf pd'"
    "pd_view pd' = (pd_view (mm_pd m))(i \<mapsto> n + 1)" "pd_pointer pd' = pd_pointer (mm_pd m)"
proof (rule pd_unlock_view [OF assms])
  fix pd' assume "prs_pd_unlock (mm_pd m) i = (pd', n + 2 = 1)" "pd_wf pd'"
    "pd_view pd' = (pd_view (mm_pd m))(i := if n + 2 = 1 then None else Some (n + 2 - 1))"
    "pd_pointer pd' = (pd_pointer (mm_pd m))(i := if n + 2 = 1 then None else Some p)"
  then show thesis using assms(3) by (intro that [of pd']) (auto simp: prs_mpmcq_unlock_def)
qed

lemma mc_unlock_last:
  assumes "pd_wf (mm_pd m)" and "pd_view (mm_pd m) i = Some 1" and "pd_pointer (mm_pd m) i = Some p"
  obtains pd' where "prs_mpmcq_unlock m \<lparr>ln_node = p, ln_id = i\<rparr> = m\<lparr>mm_pd := pd', mm_freed := mm_freed m @ [p]\<rparr>" "pd_wf pd'"
    "pd_view pd' = (pd_view (mm_pd m))(i := None)" "pd_pointer pd' = (pd_pointer (mm_pd m))(i := None)"
  by (rule pd_unlock_view [OF assms]) (auto simp: prs_mpmcq_unlock_def intro: that)

text \<open>The loop of the push with a tail that has no successor.\<close>

lemma mc_push_loop_tail:
  assumes "pd_wf (mm_pd m)" and "pd_view (mm_pd m) i = Some 2" and "pd_pointer (mm_pd m) i = Some p" and "p \<noteq> 0"
    and "mm_next m p = PRS_PD_ID_INVALID" and "mc_tail q = i"
  obtains pd' where "mpmcq_push_loop j (m, q) \<lparr>ln_node = p, ln_id = i\<rparr> =
      Some (m\<lparr>mm_next := (mm_next m)(p := j), mm_pd := pd'\<rparr>, q\<lparr>mc_tail := j\<rparr>)"
    "pd_wf pd'" "pd_view pd' = (pd_view (mm_pd m))(i \<mapsto> 1)" "pd_pointer pd' = pd_pointer (mm_pd m)"
proof -
  let ?m = "m\<lparr>mm_next := (mm_next m)(p := j)\<rparr>"
  show thesis
  proof (rule mc_unlock_shared [of ?m i 0 p])
    fix pd' assume u: "prs_mpmcq_unlock ?m \<lparr>ln_node = p, ln_id = i\<rparr> = ?m\<lparr>mm_pd := pd'\<rparr>" "pd_wf pd'"
      "pd_view pd' = (pd_view (mm_pd ?m))(i \<mapsto> 0 + 1)" "pd_pointer pd' = pd_pointer (mm_pd ?m)"
    have "mpmcq_push_loop j (m, q) \<lparr>ln_node = p, ln_id = i\<rparr> = Some (?m\<lparr>mm_pd := pd'\<rparr>, q\<lparr>mc_tail := j\<rparr>)"
      using assms(4-6) u(1) by (subst mpmcq_push_loop.simps) (simp add: atomic_compare_exchange_def)
    then show thesis using u by (intro that [of pd']) auto
  qed (use assms in \<open>simp_all add: numeral_2_eq_2\<close>)
qed

lemma mc_push_rep:
  assumes "mc_rep (m, q) cs xs" and "pd_ids_left (mm_pd m)" and "\<exists>e \<in> set (pd_entries (mm_pd m)). \<not> pde_taken e"
    and "node \<noteq> 0" and "node \<notin> snd ` set cs"
  obtains m' q' j where "prs_mpmcq_push (m, q) data (Some node) = Some ((m', q'), PRS_OK)"
    "mc_rep (m', q') (cs @ [(j, node)]) (xs @ [data])" "mm_freed m' = mm_freed m" "mc_addr q' = mc_addr q" "mc_owns_pd q' = mc_owns_pd q"
proof -
  have r: "pd_wf (mm_pd m)" "mc_links m cs" "distinct (map fst cs)" "distinct (map snd cs)" "mc_head q = first_id cs"
    "mc_tail q = last_id cs" "\<forall>p \<in> snd ` set (tl cs). \<not> mm_consumed m p"
    "xs = map (mm_data m) (filter (\<lambda>p. \<not> mm_consumed m p) (map snd cs))"
    using assms(1) by (simp_all add: mc_rep_def)
  obtain pd j where a: "prs_pd_alloc_and_lock (mm_pd m) node = (pd, PRS_OK, j)" "pd_wf pd" "pd_view (mm_pd m) j = None"
    "j \<noteq> PRS_PD_ID_INVALID" "pd_view pd = (pd_view (mm_pd m))(j \<mapsto> 1)" "pd_pointer pd = (pd_pointer (mm_pd m))(j \<mapsto> node)"
    by (rule pd_alloc_view [OF r(1) assms(2,4,3)])
  let ?m = "m\<lparr>mm_pd := pd, mm_data := (mm_data m)(node := data), mm_consumed := (mm_consumed m)(node := False),
    mm_next := (mm_next m)(node := PRS_PD_ID_INVALID)\<rparr>"
  have al: "prs_mpmcq_alloc_node m data (Some node) = (?m, \<lparr>ln_node = node, ln_id = j\<rparr>)"
    using a(1) by (simp add: prs_mpmcq_alloc_node_def)
  have j: "j \<notin> fst ` set cs" using mc_links_live [OF r(2)] a(3) by fastforce
  have fresh: "snd c \<noteq> node" if "c \<in> set cs" for c using assms(5) that by force
  have data: "map (mm_data ?m) (filter (\<lambda>p. \<not> mm_consumed ?m p) (map snd (cs @ [(j, node)]))) = xs @ [data]"
    using r(8) fresh by (fastforce simp: filter_map o_def intro!: filter_cong map_cong)
  have cons: "\<forall>p \<in> snd ` set (tl (cs @ [(j, node)])). \<not> mm_consumed ?m p"
    using r(7) assms(5) by (cases cs) auto
  have fs: "distinct (map fst (cs @ [(j, node)]))" "distinct (map snd (cs @ [(j, node)]))"
    using r(3,4) j assms(5) by auto
  show thesis
  proof (cases cs rule: rev_cases)
    case Nil
    have "mc_rep (?m, q\<lparr>mc_tail := j, mc_head := j\<rparr>) [(j, node)] [data]"
      using Nil r(8) a assms(4) by (simp add: mc_rep_def first_id_def last_id_def)
    moreover have "prs_mpmcq_push (m, q) data (Some node) = Some ((?m, q\<lparr>mc_tail := j, mc_head := j\<rparr>), PRS_OK)"
      using Nil al r(6) assms(4)
      by (simp add: prs_mpmcq_push_def) (subst mpmcq_push_loop.simps, simp add: atomic_compare_exchange_def)
    ultimately show thesis using Nil r(8) by (intro that [of ?m "q\<lparr>mc_tail := j, mc_head := j\<rparr>" j]) auto
  next
    case (snoc cs' c)
    obtain i p where c: "c = (i, p)" by (cases c)
    have t: "pd_view (mm_pd m) i = Some 1" "pd_pointer (mm_pd m) i = Some p" "p \<noteq> 0" "mm_next m p = PRS_PD_ID_INVALID"
      using mc_links_live [OF r(2), of i p] mc_links_append [of m cs' i p] r(2) snoc c by auto
    have ne: "i \<noteq> j" "p \<noteq> node" using j assms(5) snoc c by auto
    have f: "pd_wf (mm_pd ?m)" "pd_view (mm_pd ?m) i = Some 1" "pd_pointer (mm_pd ?m) i = Some p" using t a ne by simp_all
    obtain pd1 where l: "prs_mpmcq_lock ?m i = (?m\<lparr>mm_pd := pd1\<rparr>, \<lparr>ln_node = p, ln_id = i\<rparr>)" "pd_wf pd1"
      "pd_view pd1 = (pd_view (mm_pd ?m))(i \<mapsto> 1 + 1)" "pd_pointer pd1 = pd_pointer (mm_pd ?m)"
      by (rule mc_lock_live [OF f]) simp
    define m1 where "m1 = ?m\<lparr>mm_pd := pd1\<rparr>"
    have tl: "mc_tail q = i" using r(6) snoc c by simp
    have g: "pd_wf (mm_pd m1)" "pd_view (mm_pd m1) i = Some 2" "pd_pointer (mm_pd m1) i = Some p" "mm_next m1 p = PRS_PD_ID_INVALID"
      using l(2-4) t ne a by (simp_all add: m1_def)
    obtain pd2 where u: "mpmcq_push_loop j (m1, q) \<lparr>ln_node = p, ln_id = i\<rparr> =
        Some (m1\<lparr>mm_next := (mm_next m1)(p := j), mm_pd := pd2\<rparr>, q\<lparr>mc_tail := j\<rparr>)"
      "pd_wf pd2" "pd_view pd2 = (pd_view (mm_pd m1))(i \<mapsto> 1)" "pd_pointer pd2 = pd_pointer (mm_pd m1)"
      by (rule mc_push_loop_tail [OF g(1-3) t(3) g(4) tl])
    define m2 where "m2 = m1\<lparr>mm_next := (mm_next m1)(p := j), mm_pd := pd2\<rparr>"
    have view: "pd_view (mm_pd m2) = (pd_view (mm_pd m))(j \<mapsto> 1)" "pd_pointer (mm_pd m2) = (pd_pointer (mm_pd m))(j \<mapsto> node)"
      using u(3,4) l(3,4) a(5,6) ne t(1) by (auto simp: fun_eq_iff m1_def m2_def)
    have flds: "mm_next m2 = (mm_next m)(node := PRS_PD_ID_INVALID, p := j)" "mm_data m2 = mm_data ?m"
      "mm_consumed m2 = mm_consumed ?m" "mm_freed m2 = mm_freed m" "pd_wf (mm_pd m2)"
      using u(2) by (simp_all add: m1_def m2_def)
    have "mc_links m2 (cs @ [(j, node)])"
    proof (rule mc_links_snoc [OF r(2,4)])
      show "mm_next m2 x = (if x = snd (last cs) then j else mm_next m x)" if "x \<in> snd ` set cs" for x
        using that assms(5) snoc c by (auto simp: flds)
      show "pd_view (mm_pd m2) x = pd_view (mm_pd m) x \<and> pd_pointer (mm_pd m2) x = pd_pointer (mm_pd m) x"
        if "x \<in> fst ` set cs" for x using that j by (auto simp: view)
    qed (use assms(4,5) ne in \<open>simp_all add: view flds\<close>)
    moreover have "first_id (cs @ [(j, node)]) = first_id cs" using snoc by (cases cs') (auto simp: first_id_def split: prod.splits)
    ultimately have "mc_rep (m2, q\<lparr>mc_tail := j\<rparr>) (cs @ [(j, node)]) (xs @ [data])"
      using fs data cons r(5) by (simp add: mc_rep_def flds del: map_append filter_append)
    moreover have "prs_mpmcq_push (m, q) data (Some node) = Some ((m2, q\<lparr>mc_tail := j\<rparr>), PRS_OK)"
      using al l(1) u(1) tl assms(4) by (simp add: prs_mpmcq_push_def m1_def m2_def)
    ultimately show thesis using flds(4) by (intro that [of m2 "q\<lparr>mc_tail := j\<rparr>" j]) simp_all
  qed
qed

text \<open>The loop of the pop at a locked node that is not consumed: without a successor the node stays, with one
  it is freed.\<close>

lemma mc_pop_loop_last:
  assumes "pd_wf (mm_pd m)" and "pd_view (mm_pd m) i = Some 2" and "pd_pointer (mm_pd m) i = Some p" and "p \<noteq> 0"
    and "mm_next m p = PRS_PD_ID_INVALID"
  obtains pd' where "mpmcq_pop_loop (m, q) data \<lparr>ln_node = p, ln_id = i\<rparr> =
      Some ((m\<lparr>mm_consumed := (mm_consumed m)(p := True), mm_pd := pd'\<rparr>, q),
        if mm_consumed m p then (PRS_EMPTY, data) else (PRS_OK, Some (mm_data m p)))"
    "pd_wf pd'" "pd_view pd' = (pd_view (mm_pd m))(i \<mapsto> 0 + 1)" "pd_pointer pd' = pd_pointer (mm_pd m)"
proof -
  define m1 where "m1 = m\<lparr>mm_consumed := (mm_consumed m)(p := True)\<rparr>"
  have f: "pd_wf (mm_pd m1)" "pd_view (mm_pd m1) i = Some (0 + 2)" "pd_pointer (mm_pd m1) i = Some p"
    using assms(1-3) by (simp_all add: m1_def)
  obtain pd' where u: "prs_mpmcq_unlock m1 \<lparr>ln_node = p, ln_id = i\<rparr> = m1\<lparr>mm_pd := pd'\<rparr>" "pd_wf pd'"
    "pd_view pd' = (pd_view (mm_pd m1))(i \<mapsto> 0 + 1)" "pd_pointer pd' = pd_pointer (mm_pd m1)"
    by (rule mc_unlock_shared [OF f])
  show thesis
  proof (rule that)
    show "mpmcq_pop_loop (m, q) data \<lparr>ln_node = p, ln_id = i\<rparr> =
      Some ((m\<lparr>mm_consumed := (mm_consumed m)(p := True), mm_pd := pd'\<rparr>, q),
        if mm_consumed m p then (PRS_EMPTY, data) else (PRS_OK, Some (mm_data m p)))"
      using assms(4,5) u(1) by (subst mpmcq_pop_loop.simps) (simp add: atomic_exchange_def m1_def)
  qed (use u in \<open>simp_all add: m1_def\<close>)
qed

lemma mc_pop_loop_next:
  assumes "pd_wf (mm_pd m)" and "pd_view (mm_pd m) i = Some 2" and "pd_pointer (mm_pd m) i = Some p" and "p \<noteq> 0"
    and "mm_next m p = i'" and "pd_view (mm_pd m) i' = Some 1" and "pd_pointer (mm_pd m) i' = Some p'" and "p' \<noteq> 0"
    and "i \<noteq> i'" and "mc_head q = i"
  obtains m' q' where "mm_next m' = mm_next m" "mm_data m' = mm_data m" "mm_consumed m' = (mm_consumed m)(p := True)"
    "mm_freed m' = mm_freed m @ [p]" "pd_wf (mm_pd m')" "pd_pointer (mm_pd m') = (pd_pointer (mm_pd m))(i := None)"
    "q' = q\<lparr>mc_head := i'\<rparr>"
    "if mm_consumed m p
     then mpmcq_pop_loop (m, q) data \<lparr>ln_node = p, ln_id = i\<rparr> = mpmcq_pop_loop (m', q') data \<lparr>ln_node = p', ln_id = i'\<rparr>
       \<and> pd_view (mm_pd m') = (pd_view (mm_pd m))(i := None, i' \<mapsto> 2)
     else mpmcq_pop_loop (m, q) data \<lparr>ln_node = p, ln_id = i\<rparr> = Some ((m', q'), PRS_OK, Some (mm_data m p))
       \<and> pd_view (mm_pd m') = (pd_view (mm_pd m))(i := None)"
proof -
  define m1 where "m1 = m\<lparr>mm_consumed := (mm_consumed m)(p := True)\<rparr>"
  have f1: "pd_wf (mm_pd m1)" "pd_view (mm_pd m1) i' = Some 1" "pd_pointer (mm_pd m1) i' = Some p'"
    using assms by (simp_all add: m1_def)
  obtain pd1 where l: "prs_mpmcq_lock m1 i' = (m1\<lparr>mm_pd := pd1\<rparr>, \<lparr>ln_node = p', ln_id = i'\<rparr>)" "pd_wf pd1"
    "pd_view pd1 = (pd_view (mm_pd m1))(i' \<mapsto> 1 + 1)" "pd_pointer pd1 = pd_pointer (mm_pd m1)"
    by (rule mc_lock_live [OF f1]) simp
  define m2 where "m2 = m1\<lparr>mm_pd := pd1\<rparr>"
  have f2: "pd_wf (mm_pd m2)" "pd_view (mm_pd m2) i = Some (0 + 2)" "pd_pointer (mm_pd m2) i = Some p"
    using assms l(2-4) by (simp_all add: m1_def m2_def)
  obtain pd2 where u: "prs_mpmcq_unlock m2 \<lparr>ln_node = p, ln_id = i\<rparr> = m2\<lparr>mm_pd := pd2\<rparr>" "pd_wf pd2"
    "pd_view pd2 = (pd_view (mm_pd m2))(i \<mapsto> 0 + 1)" "pd_pointer pd2 = pd_pointer (mm_pd m2)"
    by (rule mc_unlock_shared [OF f2])
  define m3 where "m3 = m2\<lparr>mm_pd := pd2\<rparr>"
  have v3: "pd_view (mm_pd m3) = (pd_view (mm_pd m))(i' \<mapsto> 2, i \<mapsto> 1)" "pd_pointer (mm_pd m3) = pd_pointer (mm_pd m)"
    "pd_wf (mm_pd m3)"
    using l(3,4) u(2-4) by (simp_all add: m1_def m2_def m3_def numeral_2_eq_2)
  have flds: "mm_next m3 = mm_next m" "mm_data m3 = mm_data m" "mm_consumed m3 = (mm_consumed m)(p := True)" "mm_freed m3 = mm_freed m"
    by (simp_all add: m1_def m2_def m3_def)
  have step: "mpmcq_pop_loop (m, q) data \<lparr>ln_node = p, ln_id = i\<rparr> =
      (if mm_consumed m p then mpmcq_pop_loop (prs_mpmcq_unlock m3 \<lparr>ln_node = p, ln_id = i\<rparr>, q\<lparr>mc_head := i'\<rparr>) data \<lparr>ln_node = p', ln_id = i'\<rparr>
       else Some ((prs_mpmcq_unlock (prs_mpmcq_unlock m3 \<lparr>ln_node = p', ln_id = i'\<rparr>) \<lparr>ln_node = p, ln_id = i\<rparr>, q\<lparr>mc_head := i'\<rparr>),
         PRS_OK, Some (mm_data m p)))"
    using assms(4,5,8,10) l(1) u(1)
    by (subst mpmcq_pop_loop.simps) (simp add: atomic_exchange_def atomic_compare_exchange_def m1_def m2_def m3_def)
  show thesis
  proof (cases "mm_consumed m p")
    case True
    have f3: "pd_wf (mm_pd m3)" "pd_view (mm_pd m3) i = Some 1" "pd_pointer (mm_pd m3) i = Some p"
      using v3 assms(3) by simp_all
    obtain pd3 where w: "prs_mpmcq_unlock m3 \<lparr>ln_node = p, ln_id = i\<rparr> = m3\<lparr>mm_pd := pd3, mm_freed := mm_freed m3 @ [p]\<rparr>"
      "pd_wf pd3" "pd_view pd3 = (pd_view (mm_pd m3))(i := None)" "pd_pointer pd3 = (pd_pointer (mm_pd m3))(i := None)"
      by (rule mc_unlock_last [OF f3])
    have "pd_view pd3 = (pd_view (mm_pd m))(i := None, i' \<mapsto> 2)" using w(3) v3(1) assms(9) by auto
    then show thesis
      using True step w v3 flds by (intro that [of "m3\<lparr>mm_pd := pd3, mm_freed := mm_freed m3 @ [p]\<rparr>"]) simp_all
  next
    case False
    have f3: "pd_wf (mm_pd m3)" "pd_view (mm_pd m3) i' = Some (0 + 2)" "pd_pointer (mm_pd m3) i' = Some p'"
      using v3 assms(7,9) by simp_all
    obtain pd3 where w: "prs_mpmcq_unlock m3 \<lparr>ln_node = p', ln_id = i'\<rparr> = m3\<lparr>mm_pd := pd3\<rparr>" "pd_wf pd3"
      "pd_view pd3 = (pd_view (mm_pd m3))(i' \<mapsto> 0 + 1)" "pd_pointer pd3 = pd_pointer (mm_pd m3)"
      by (rule mc_unlock_shared [OF f3])
    define m4 where "m4 = m3\<lparr>mm_pd := pd3\<rparr>"
    have f4: "pd_wf (mm_pd m4)" "pd_view (mm_pd m4) i = Some 1" "pd_pointer (mm_pd m4) i = Some p"
      using v3 w assms(3,9) by (simp_all add: m4_def)
    obtain pd4 where x: "prs_mpmcq_unlock m4 \<lparr>ln_node = p, ln_id = i\<rparr> = m4\<lparr>mm_pd := pd4, mm_freed := mm_freed m4 @ [p]\<rparr>"
      "pd_wf pd4" "pd_view pd4 = (pd_view (mm_pd m4))(i := None)" "pd_pointer pd4 = (pd_pointer (mm_pd m4))(i := None)"
      by (rule mc_unlock_last [OF f4])
    have "pd_view pd4 = (pd_view (mm_pd m))(i := None)" "pd_pointer pd4 = (pd_pointer (mm_pd m))(i := None)"
      using x(3,4) w(3,4) v3(1,2) assms(6,9) by (auto simp: fun_eq_iff m4_def)
    then show thesis
      using False step w(1) x(1,2) flds
      by (intro that [of "m4\<lparr>mm_pd := pd4, mm_freed := mm_freed m4 @ [p]\<rparr>"]) (simp_all add: m4_def)
  qed
qed

text \<open>A queue whose first node is locked by the running pop.\<close>

definition mc_held :: "mc_state \<Rightarrow> u64 \<Rightarrow> ptr \<Rightarrow> (u64 \<times> ptr) list \<Rightarrow> bool" where
  "mc_held s i p cs \<longleftrightarrow> (case s of (m, q) \<Rightarrow>
     pd_wf (mm_pd m) \<and> pd_view (mm_pd m) i = Some 2 \<and> pd_pointer (mm_pd m) i = Some p \<and> p \<noteq> 0
     \<and> mm_next m p = first_id cs \<and> mc_links m cs \<and> distinct (map fst ((i, p) # cs)) \<and> distinct (map snd ((i, p) # cs))
     \<and> mc_head q = i \<and> mc_tail q = last_id ((i, p) # cs) \<and> (\<forall>x \<in> snd ` set cs. \<not> mm_consumed m x))"

lemma mc_heldD:
  assumes "mc_held (m, q) i p cs"
  shows "pd_wf (mm_pd m)" "pd_view (mm_pd m) i = Some 2" "pd_pointer (mm_pd m) i = Some p" "p \<noteq> 0"
    "mm_next m p = first_id cs" "mc_links m cs" "i \<notin> fst ` set cs" "p \<notin> snd ` set cs"
    "distinct (map fst cs)" "distinct (map snd cs)" "mc_head q = i" "mc_tail q = last_id ((i, p) # cs)"
    "\<forall>x \<in> snd ` set cs. \<not> mm_consumed m x"
  using assms by (simp_all add: mc_held_def)

lemma filter_unconsumed:
  assumes "\<forall>x \<in> snd ` set cs. \<not> mm_consumed m x"
  shows "filter (\<lambda>p. \<not> mm_consumed m p) (map snd cs) = map snd cs"
  using assms by (auto simp: filter_id_conv)

lemma mc_held_last:
  assumes "mc_held (m, q) i p []"
  obtains m' where "mpmcq_pop_loop (m, q) data \<lparr>ln_node = p, ln_id = i\<rparr> =
      Some ((m', q), if mm_consumed m p then (PRS_EMPTY, data) else (PRS_OK, Some (mm_data m p)))"
    "mc_rep (m', q) [(i, p)] []" "mm_freed m' = mm_freed m"
proof -
  note h = mc_heldD [OF assms]
  have nx: "mm_next m p = PRS_PD_ID_INVALID" using h(5) by simp
  obtain pd' where l: "mpmcq_pop_loop (m, q) data \<lparr>ln_node = p, ln_id = i\<rparr> =
      Some ((m\<lparr>mm_consumed := (mm_consumed m)(p := True), mm_pd := pd'\<rparr>, q),
        if mm_consumed m p then (PRS_EMPTY, data) else (PRS_OK, Some (mm_data m p)))"
    "pd_wf pd'" "pd_view pd' = (pd_view (mm_pd m))(i \<mapsto> 0 + 1)" "pd_pointer pd' = pd_pointer (mm_pd m)"
    by (rule mc_pop_loop_last [OF h(1-4) nx])
  show thesis
    by (rule that [OF l(1)]) (use l(2-4) h in \<open>simp_all add: mc_rep_def last_id_def\<close>)
qed

lemma mc_held_next:
  assumes "mc_held (m, q) i p ((i', p') # cs)"
  obtains m' q' where "mm_data m' = mm_data m" "mm_consumed m' = (mm_consumed m)(p := True)" "mm_freed m' = mm_freed m @ [p]"
    "mc_addr q' = mc_addr q" "mc_owns_pd q' = mc_owns_pd q"
    "if mm_consumed m p
     then mpmcq_pop_loop (m, q) data \<lparr>ln_node = p, ln_id = i\<rparr> = mpmcq_pop_loop (m', q') data \<lparr>ln_node = p', ln_id = i'\<rparr>
       \<and> mc_held (m', q') i' p' cs
     else mpmcq_pop_loop (m, q) data \<lparr>ln_node = p, ln_id = i\<rparr> = Some ((m', q'), PRS_OK, Some (mm_data m p))
       \<and> mc_rep (m', q') ((i', p') # cs) (map (mm_data m) (map snd ((i', p') # cs)))"
proof -
  note h = mc_heldD [OF assms]
  have l: "mm_next m p = i'" "pd_view (mm_pd m) i' = Some 1" "pd_pointer (mm_pd m) i' = Some p'" "p' \<noteq> 0" "i \<noteq> i'"
    using h by auto
  obtain m' q' where n: "mm_next m' = mm_next m" "mm_data m' = mm_data m" "mm_consumed m' = (mm_consumed m)(p := True)"
    "mm_freed m' = mm_freed m @ [p]" "pd_wf (mm_pd m')" "pd_pointer (mm_pd m') = (pd_pointer (mm_pd m))(i := None)"
    "q' = q\<lparr>mc_head := i'\<rparr>"
    "if mm_consumed m p
     then mpmcq_pop_loop (m, q) data \<lparr>ln_node = p, ln_id = i\<rparr> = mpmcq_pop_loop (m', q') data \<lparr>ln_node = p', ln_id = i'\<rparr>
       \<and> pd_view (mm_pd m') = (pd_view (mm_pd m))(i := None, i' \<mapsto> 2)
     else mpmcq_pop_loop (m, q) data \<lparr>ln_node = p, ln_id = i\<rparr> = Some ((m', q'), PRS_OK, Some (mm_data m p))
       \<and> pd_view (mm_pd m') = (pd_view (mm_pd m))(i := None)"
    by (rule mc_pop_loop_next [OF h(1-4) l h(11)])
  have cons: "\<forall>x \<in> snd ` set ((i', p') # cs). \<not> mm_consumed m' x" using h(13,8) n(3) by auto
  have tl: "mc_tail q' = last_id ((i', p') # cs)" using h(12) n(7) by (simp add: last_id_def)
  show thesis
  proof (rule that [OF n(2,3,4)])
    show "if mm_consumed m p
     then mpmcq_pop_loop (m, q) data \<lparr>ln_node = p, ln_id = i\<rparr> = mpmcq_pop_loop (m', q') data \<lparr>ln_node = p', ln_id = i'\<rparr>
       \<and> mc_held (m', q') i' p' cs
     else mpmcq_pop_loop (m, q) data \<lparr>ln_node = p, ln_id = i\<rparr> = Some ((m', q'), PRS_OK, Some (mm_data m p))
       \<and> mc_rep (m', q') ((i', p') # cs) (map (mm_data m) (map snd ((i', p') # cs)))"
    proof (cases "mm_consumed m p")
      case True
      then have v: "pd_view (mm_pd m') = (pd_view (mm_pd m))(i := None, i' \<mapsto> 2)" using n(8) by simp
      have "mc_links m' cs"
        by (rule mc_links_frame [of m]) (use h(6,7,9) v n(1,6) in auto)
      then have "mc_held (m', q') i' p' cs"
        using h n(1,5,6,7) v l tl cons by (simp add: mc_held_def)
      then show ?thesis using True n(8) by simp
    next
      case False
      then have v: "pd_view (mm_pd m') = (pd_view (mm_pd m))(i := None)" using n(8) by simp
      have "mc_links m' ((i', p') # cs)"
        by (rule mc_links_frame [OF h(6)]) (use h(7) v n(1,6) in auto)
      then have "mc_rep (m', q') ((i', p') # cs) (map (mm_data m) (map snd ((i', p') # cs)))"
        using h(9,10) n(2,5,7) tl filter_unconsumed [OF cons] cons by (simp add: mc_rep_def)
      then show ?thesis using False n(8) by simp
    qed
  qed (simp_all add: n(7))
qed

text \<open>Popping the locked node when it is not consumed.\<close>

lemma mc_held_pop:
  assumes "mc_held (m, q) i p cs" and "\<not> mm_consumed m p"
  obtains m' q' cs' fs where "mpmcq_pop_loop (m, q) data \<lparr>ln_node = p, ln_id = i\<rparr> = Some ((m', q'), PRS_OK, Some (mm_data m p))"
    "mc_rep (m', q') cs' (map (mm_data m) (map snd cs))" "(i, p) # cs = fs @ cs'" "cs' \<noteq> []"
    "mm_freed m' = mm_freed m @ map snd fs" "mc_addr q' = mc_addr q" "mc_owns_pd q' = mc_owns_pd q"
proof (cases cs)
  case Nil
  obtain m' where e: "mpmcq_pop_loop (m, q) data \<lparr>ln_node = p, ln_id = i\<rparr> =
      Some ((m', q), if mm_consumed m p then (PRS_EMPTY, data) else (PRS_OK, Some (mm_data m p)))"
    "mc_rep (m', q) [(i, p)] []" "mm_freed m' = mm_freed m"
    by (rule mc_held_last [OF assms(1) [unfolded Nil]])
  show thesis
    by (rule that [of m' q "[(i, p)]" "[]"]) (use e assms(2) Nil in simp_all)
next
  case (Cons c cs2)
  obtain i' p' where c: "c = (i', p')" by (cases c)
  obtain m' q' where e: "mm_data m' = mm_data m" "mm_consumed m' = (mm_consumed m)(p := True)" "mm_freed m' = mm_freed m @ [p]"
    "mc_addr q' = mc_addr q" "mc_owns_pd q' = mc_owns_pd q"
    "if mm_consumed m p
     then mpmcq_pop_loop (m, q) data \<lparr>ln_node = p, ln_id = i\<rparr> = mpmcq_pop_loop (m', q') data \<lparr>ln_node = p', ln_id = i'\<rparr>
       \<and> mc_held (m', q') i' p' cs2
     else mpmcq_pop_loop (m, q) data \<lparr>ln_node = p, ln_id = i\<rparr> = Some ((m', q'), PRS_OK, Some (mm_data m p))
       \<and> mc_rep (m', q') ((i', p') # cs2) (map (mm_data m) (map snd ((i', p') # cs2)))"
    by (rule mc_held_next [OF assms(1) [unfolded Cons c]])
  show thesis
    by (rule that [of m' q' "(i', p') # cs2" "[(i, p)]"]) (use e assms(2) Cons c in simp_all)
qed

text \<open>The lock with which the pop starts.\<close>

lemma mc_pop_locks:
  assumes "mc_rep (m, q) ((i, p) # cs) xs"
  obtains m1 where "prs_mpmcq_pop (m, q) = mpmcq_pop_loop (m1, q) None \<lparr>ln_node = p, ln_id = i\<rparr>" "mc_held (m1, q) i p cs"
    "mm_data m1 = mm_data m" "mm_consumed m1 = mm_consumed m" "mm_freed m1 = mm_freed m"
    "xs = (if mm_consumed m p then [] else [mm_data m p]) @ map (mm_data m) (map snd cs)"
proof -
  have r: "pd_wf (mm_pd m)" "mc_links m ((i, p) # cs)" "distinct (map fst ((i, p) # cs))" "distinct (map snd ((i, p) # cs))"
    "mc_head q = i" "mc_tail q = last_id ((i, p) # cs)" "\<forall>x \<in> snd ` set cs. \<not> mm_consumed m x"
    "xs = map (mm_data m) (filter (\<lambda>p. \<not> mm_consumed m p) (map snd ((i, p) # cs)))"
    using assms by (simp_all add: mc_rep_def)
  have f: "pd_view (mm_pd m) i = Some 1" "pd_pointer (mm_pd m) i = Some p" using r(2) by simp_all
  obtain pd1 where l: "prs_mpmcq_lock m i = (m\<lparr>mm_pd := pd1\<rparr>, \<lparr>ln_node = p, ln_id = i\<rparr>)" "pd_wf pd1"
    "pd_view pd1 = (pd_view (mm_pd m))(i \<mapsto> 1 + 1)" "pd_pointer pd1 = pd_pointer (mm_pd m)"
    by (rule mc_lock_live [OF r(1) f]) simp
  define m1 where "m1 = m\<lparr>mm_pd := pd1\<rparr>"
  have "mc_links m1 cs" by (rule mc_links_frame [of m]) (use r(2,3) l(3,4) in \<open>auto simp: m1_def\<close>)
  then have held: "mc_held (m1, q) i p cs"
    using r l(2-4) f by (simp add: mc_held_def m1_def numeral_2_eq_2)
  show thesis
    by (rule that [OF _ held]) (use r(5,8) l(1) filter_unconsumed [OF r(7)] in \<open>simp_all add: prs_mpmcq_pop_def m1_def\<close>)
qed

text \<open>The pop from any state of the queue.\<close>

lemma mc_pop_rep:
  assumes "mc_rep (m, q) cs xs"
  obtains m' q' cs' fs where "prs_mpmcq_pop (m, q) = Some ((m', q'),
      case xs of [] \<Rightarrow> (if cs = [] then PRS_UNKNOWN else PRS_EMPTY, None) | x # _ \<Rightarrow> (PRS_OK, Some x))"
    "mc_rep (m', q') cs' (tl xs)" "cs = fs @ cs'" "cs \<noteq> [] \<longrightarrow> cs' \<noteq> []" "mm_freed m' = mm_freed m @ map snd fs"
    "mc_addr q' = mc_addr q" "mc_owns_pd q' = mc_owns_pd q"
proof (cases cs)
  case Nil
  then have "xs = []" "mc_head q = PRS_PD_ID_INVALID" using assms by (simp_all add: mc_rep_def)
  then have "prs_mpmcq_pop (m, q) = Some ((m, q), PRS_UNKNOWN, None)"
    by (simp add: prs_mpmcq_pop_def) (subst mpmcq_pop_loop.simps, simp)
  then show thesis using assms Nil \<open>xs = []\<close> by (intro that [of m q "[]" "[]"]) simp_all
next
  case (Cons c cs1)
  obtain i p where c: "c = (i, p)" by (cases c)
  obtain m1 where l: "prs_mpmcq_pop (m, q) = mpmcq_pop_loop (m1, q) None \<lparr>ln_node = p, ln_id = i\<rparr>" "mc_held (m1, q) i p cs1"
    "mm_data m1 = mm_data m" "mm_consumed m1 = mm_consumed m" "mm_freed m1 = mm_freed m"
    "xs = (if mm_consumed m p then [] else [mm_data m p]) @ map (mm_data m) (map snd cs1)"
    by (rule mc_pop_locks [OF assms [unfolded Cons c]])
  consider "\<not> mm_consumed m1 p" | "mm_consumed m1 p" "cs1 = []" | i' p' cs2 where "mm_consumed m1 p" "cs1 = (i', p') # cs2"
    by (metis list.exhaust surj_pair)
  then show thesis
  proof cases
    case 1
    obtain m' q' cs' fs where e: "mpmcq_pop_loop (m1, q) None \<lparr>ln_node = p, ln_id = i\<rparr> = Some ((m', q'), PRS_OK, Some (mm_data m1 p))"
      "mc_rep (m', q') cs' (map (mm_data m1) (map snd cs1))" "(i, p) # cs1 = fs @ cs'" "cs' \<noteq> []"
      "mm_freed m' = mm_freed m1 @ map snd fs" "mc_addr q' = mc_addr q" "mc_owns_pd q' = mc_owns_pd q"
      by (rule mc_held_pop [OF l(2) 1])
    show thesis
      by (rule that [of m' q' cs' fs]) (use e l 1 Cons c in simp_all)
  next
    case 2
    obtain m' where e: "mpmcq_pop_loop (m1, q) None \<lparr>ln_node = p, ln_id = i\<rparr> =
        Some ((m', q), if mm_consumed m1 p then (PRS_EMPTY, None) else (PRS_OK, Some (mm_data m1 p)))"
      "mc_rep (m', q) [(i, p)] []" "mm_freed m' = mm_freed m1"
      by (rule mc_held_last [OF l(2) [unfolded 2]])
    show thesis
      by (rule that [of m' q "[(i, p)]" "[]"]) (use e l 2 Cons c in simp_all)
  next
    case 3
    obtain v r where e: "mm_data v = mm_data m1" "mm_consumed v = (mm_consumed m1)(p := True)" "mm_freed v = mm_freed m1 @ [p]"
      "mc_addr r = mc_addr q" "mc_owns_pd r = mc_owns_pd q"
      "if mm_consumed m1 p
       then mpmcq_pop_loop (m1, q) None \<lparr>ln_node = p, ln_id = i\<rparr> = mpmcq_pop_loop (v, r) None \<lparr>ln_node = p', ln_id = i'\<rparr>
         \<and> mc_held (v, r) i' p' cs2
       else mpmcq_pop_loop (m1, q) None \<lparr>ln_node = p, ln_id = i\<rparr> = Some ((v, r), PRS_OK, Some (mm_data m1 p))
         \<and> mc_rep (v, r) ((i', p') # cs2) (map (mm_data m1) (map snd ((i', p') # cs2)))"
      by (rule mc_held_next [OF l(2) [unfolded 3]])
    have h2: "mc_held (v, r) i' p' cs2" using e(6) 3 by simp
    have "\<not> mm_consumed v p'" using mc_heldD(8,13) [OF l(2)] e(2) 3 by auto
    from h2 this obtain m' q' cs' fs where w: "mpmcq_pop_loop (v, r) None \<lparr>ln_node = p', ln_id = i'\<rparr> = Some ((m', q'), PRS_OK, Some (mm_data v p'))"
      "mc_rep (m', q') cs' (map (mm_data v) (map snd cs2))" "(i', p') # cs2 = fs @ cs'" "cs' \<noteq> []"
      "mm_freed m' = mm_freed v @ map snd fs" "mc_addr q' = mc_addr r" "mc_owns_pd q' = mc_owns_pd r"
      by (rule mc_held_pop)
    have "prs_mpmcq_pop (m, q) = Some ((m', q'), PRS_OK, Some (mm_data m p'))" using l(1,3) e(1,6) w(1) 3 by simp
    moreover have "xs = mm_data m p' # map (mm_data m) (map snd cs2)" using l(4,6) 3 by simp
    ultimately show thesis
      by (intro that [of m' q' cs' "(i, p) # fs"]) (use w(2-7) e(1,3-5) l(3,5) 3(2) Cons c in simp_all)
  qed
qed

text \<open>Draining leaves the last node, which is never freed.\<close>

lemma mc_rep_empty:
  assumes "mc_rep (m, q) cs []"
  shows "length cs \<le> 1"
proof (cases cs)
  case (Cons c cs1)
  then have "\<forall>p \<in> snd ` set cs1. \<not> mm_consumed m p" "filter (\<lambda>p. \<not> mm_consumed m p) (map snd (c # cs1)) = []"
    using assms by (simp_all add: mc_rep_def)
  then have "cs1 = []" by (cases cs1) (auto split: if_splits)
  then show ?thesis using Cons by simp
qed simp

lemma mc_drain_rep:
  assumes "mc_rep (m, q) cs xs"
  shows "\<exists>m' q'. mpmcq_drain (m, q) = Some (m', q') \<and> mm_freed m' = mm_freed m @ map snd (butlast cs)
    \<and> mc_addr q' = mc_addr q \<and> mc_owns_pd q' = mc_owns_pd q"
  using assms
proof (induction xs arbitrary: m q cs)
  case Nil
  obtain m' q' cs' fs where e: "prs_mpmcq_pop (m, q) = Some ((m', q'), (if cs = [] then PRS_UNKNOWN else PRS_EMPTY, None))"
    "cs = fs @ cs'" "cs \<noteq> [] \<longrightarrow> cs' \<noteq> []" "mm_freed m' = mm_freed m @ map snd fs"
    "mc_addr q' = mc_addr q" "mc_owns_pd q' = mc_owns_pd q"
    by (rule mc_pop_rep [OF Nil]) auto
  have "fs = []" "butlast cs = []" using mc_rep_empty [OF Nil] e(2,3) by (cases fs; cases cs; auto)+
  then show ?case using e by (subst mpmcq_drain.simps) simp
next
  case (Cons x xs)
  obtain m' q' cs' fs where e: "prs_mpmcq_pop (m, q) = Some ((m', q'), PRS_OK, Some x)" "mc_rep (m', q') cs' xs"
    "cs = fs @ cs'" "cs \<noteq> [] \<longrightarrow> cs' \<noteq> []" "mm_freed m' = mm_freed m @ map snd fs"
    "mc_addr q' = mc_addr q" "mc_owns_pd q' = mc_owns_pd q"
    by (rule mc_pop_rep [OF Cons.prems]) auto
  have "cs \<noteq> []" using Cons.prems by (auto simp: mc_rep_def)
  then have "butlast cs = fs @ butlast cs'" using e(3,4) by (simp add: butlast_append)
  then show ?case
    using Cons.IH [OF e(2)] e by (subst mpmcq_drain.simps) auto
qed

section \<open>Properties\<close>


definition mpmcq_example :: mc_state where
  "mpmcq_example = (\<lparr>mm_pd = pd_example, mm_next = \<lambda>_. 0, mm_consumed = \<lambda>_. False, mm_data = \<lambda>_. 0, mm_freed = []\<rparr>,
     \<lparr>mc_addr = 64, mc_owns_pd = False, mc_head = PRS_PD_ID_INVALID, mc_tail = PRS_PD_ID_INVALID\<rparr>)"

lemma mpmcq_example_rep: "mc_rep mpmcq_example [] []"
  by (simp add: mpmcq_example_def mc_rep_def pd_example_fresh)

lemma pd_example_room: "\<exists>e \<in> set (pd_entries pd_example). \<not> pde_taken e"
proof -
  have "pd_refs (0 :: u64) = 0" by (simp add: pd_refs_def)
  then show ?thesis by (simp add: pd_example_def prs_pd_create_def pde_taken_def Let_def)
qed


end
