(* ===== verification/Timer.thy ===== *)
theory Timer
  imports Bitops Pool
begin

text \<open>
  The timer wheels of \<^verbatim>\<open>prs/timer.c\<close>. An entry is a block of the timer's pool and is named by its pool ID (the
  pool turns the one into the other, \<^verbatim>\<open>prs_pool_get_id\<close>). The intrusive lists of the wheels and the queue of
  the new requests hold IDs, as the sequences that the list and queue components implement. The calls that
  signal or release an event are recorded.
\<close>

section \<open>Data\<close>

definition PRS_MAX_TIMER_WHEELS :: nat where
  "PRS_MAX_TIMER_WHEELS = 4"

definition PRS_MAX_TIMER_BITS_PER_WHEEL :: nat where
  "PRS_MAX_TIMER_BITS_PER_WHEEL = (4 * 8) div PRS_MAX_TIMER_WHEELS"

definition PRS_MAX_TIMER_SLOTS_PER_WHEEL :: nat where
  "PRS_MAX_TIMER_SLOTS_PER_WHEEL = 2 ^ PRS_MAX_TIMER_BITS_PER_WHEEL"

lemma timer_consts [simp]:
  "PRS_MAX_TIMER_WHEELS = 4" "PRS_MAX_TIMER_BITS_PER_WHEEL = 8" "PRS_MAX_TIMER_SLOTS_PER_WHEEL = 256"
  by (simp_all add: PRS_MAX_TIMER_WHEELS_def PRS_MAX_TIMER_BITS_PER_WHEEL_def PRS_MAX_TIMER_SLOTS_PER_WHEEL_def)

record prs_timer_entry =
  te_start :: prs_ticks_t
  te_end :: prs_ticks_t
  te_event :: ptr
  te_event_type :: u8

record prs_timer =
  tm_addr :: ptr
  tm_list_addr :: "nat \<Rightarrow> nat \<Rightarrow> ptr"
  tm_lists :: "nat \<Rightarrow> nat \<Rightarrow> u64 list"
  tm_tmp_list_addr :: ptr
  tm_tmp_list :: "u64 list"
  tm_pool :: "prs_timer_entry prs_pool"
  tm_queued_addr :: ptr
  tm_queued :: "u64 list"
  tm_now :: prs_ticks_t

datatype timer_call = EventSignal ptr u8 | EventUnref ptr

type_synonym timer_state = "prs_timer \<times> timer_call list"

text \<open>The entry of an ID.\<close>

definition timer_entry :: "prs_timer \<Rightarrow> u64 \<Rightarrow> prs_timer_entry" where
  "timer_entry timer eid = pe_data (pool_entries (tm_pool timer) ! prs_pool_get_entry (tm_pool timer) eid)"

section \<open>Operations\<close>

text \<open>\<open>sizeof(struct prs_timer_entry)\<close> on amd64.\<close>

definition timer_entry_sizeof :: u64 where
  "timer_entry_sizeof = 64"

text \<open>The addresses that the allocations of the lists return are arguments. After a failure the function
  returns null; its cleanup then reads fields that were never written, so that what it frees is not
  determined.\<close>

definition prs_timer_create ::
  "ptr option \<Rightarrow> (nat \<Rightarrow> nat \<Rightarrow> ptr option) \<Rightarrow> ptr option \<Rightarrow> prs_timer_entry prs_pool_entry list \<Rightarrow> ptr option \<Rightarrow> ptr option
    \<Rightarrow> ptr option \<Rightarrow> prs_ticks_t \<Rightarrow> prs_timer option" where
  "prs_timer_create memory list_memory tmp_memory initial pool_mem entries_mem queued_memory clock =
     (case memory of
        None \<Rightarrow> None
      | Some addr \<Rightarrow>
          (if \<exists>wheel \<in> set [0 ..< PRS_MAX_TIMER_WHEELS]. \<exists>slot \<in> set [0 ..< PRS_MAX_TIMER_SLOTS_PER_WHEEL].
                list_memory wheel slot = None
           then None
           else
             (case tmp_memory of
                None \<Rightarrow> None
              | Some tmp \<Rightarrow>
                  (case prs_pool_create \<lparr>pp_max_entries = PRS_MAX_OBJECTS * 16, pp_data_size = timer_entry_sizeof, pp_area = None\<rparr>
                          initial pool_mem entries_mem of
                     (None, _) \<Rightarrow> None
                   | (Some pool, _) \<Rightarrow>
                       (case queued_memory of
                          None \<Rightarrow> None
                        | Some queued \<Rightarrow>
                            Some \<lparr>tm_addr = addr, tm_list_addr = (\<lambda>wheel slot. the (list_memory wheel slot)),
                                  tm_lists = (\<lambda>_ _. []), tm_tmp_list_addr = tmp, tm_tmp_list = [], tm_pool = pool,
                                  tm_queued_addr = queued, tm_queued = [], tm_now = clock\<rparr>)))))"

text \<open>What is freed.\<close>

definition prs_timer_destroy :: "prs_timer \<Rightarrow> ptr list" where
  "prs_timer_destroy timer =
     [tm_queued_addr timer, tm_tmp_list_addr timer]
     @ concat (map (\<lambda>wheel. map (tm_list_addr timer wheel) [0 ..< PRS_MAX_TIMER_SLOTS_PER_WHEEL]) [0 ..< PRS_MAX_TIMER_WHEELS])
     @ prs_pool_destroy (tm_pool timer) @ [tm_addr timer]"

text \<open>\<open>None\<close> is the fatal outcome; \<open>clock\<close> is what \<^verbatim>\<open>prs_clock_get\<close> returns.\<close>

definition prs_timer_queue :: "prs_timer \<Rightarrow> prs_ticks_t \<Rightarrow> ptr \<Rightarrow> u8 \<Rightarrow> prs_ticks_t \<Rightarrow> (prs_timer \<times> u64) option" where
  "prs_timer_queue timer clock event event_type timeout =
     (case prs_pool_alloc (tm_pool timer) of
        (pool, None, entry_id) \<Rightarrow> None
      | (pool, Some _, entry_id) \<Rightarrow>
          (if entry_id = PRS_POOL_ID_INVALID then None
           else
             (let entry = \<lparr>te_start = clock, te_end = clock + timeout, te_event = event, te_event_type = event_type\<rparr>;
                  pool = pool_set_data pool (prs_pool_get_entry pool entry_id) entry;
                  pool = prs_pool_lock_first pool entry_id;
                  (pool, _) = prs_pool_lock pool entry_id
              in Some (timer\<lparr>tm_pool := pool, tm_queued := tm_queued timer @ [entry_id]\<rparr>, entry_id))))"

definition prs_timer_get_start :: "prs_timer_entry \<Rightarrow> prs_ticks_t" where
  "prs_timer_get_start entry = te_start entry"

definition prs_timer_cancel :: "prs_timer \<Rightarrow> u64 \<Rightarrow> prs_timer" where
  "prs_timer_cancel timer eid = timer\<lparr>tm_pool := fst (prs_pool_unlock (tm_pool timer) eid)\<rparr>"

definition prs_timer_hsb :: "prs_ticks_t \<Rightarrow> int" where
  "prs_timer_hsb ticks = prs_bitops_hsb_uint32 ticks"

definition prs_timer_event_destructor :: "prs_timer_entry \<Rightarrow> timer_call list \<Rightarrow> prs_timer_entry \<times> timer_call list" where
  "prs_timer_event_destructor entry calls = (entry, calls @ [EventUnref (te_event entry)])"

text \<open>The difference of the ticks is computed in 32 bits and then converted to the 64-bit \<^verbatim>\<open>prs_int_t\<close>.\<close>

definition prs_timer_queue_internal :: "timer_state \<Rightarrow> u64 \<Rightarrow> timer_state" where
  "prs_timer_queue_internal s eid =
     (let (timer, calls) = s;
          entry = timer_entry timer eid;
          delay = sint (ucast (te_end entry - tm_now timer) :: u64)
      in if delay \<le> 0
         then (timer\<lparr>tm_pool := fst (prs_pool_unlock (tm_pool timer) eid)\<rparr>,
               calls @ [EventSignal (te_event entry) (te_event_type entry)])
         else
           (let (pool, calls, canceled) =
                  prs_pool_try_unlock_final_dest (tm_pool timer) calls eid prs_timer_event_destructor;
                timer = timer\<lparr>tm_pool := pool\<rparr>
            in if canceled then (timer, calls)
               else
                 (let hsb = prs_timer_hsb (word_of_int delay);
                      wheel = nat (hsb div int PRS_MAX_TIMER_BITS_PER_WHEEL);
                      wheel_shift = wheel * PRS_MAX_TIMER_BITS_PER_WHEEL;
                      slot = unat ((drop_bit wheel_shift (te_end entry) - (if wheel \<noteq> 0 then 1 else 0))
                               AND word_of_nat (PRS_MAX_TIMER_SLOTS_PER_WHEEL - 1))
                  in (timer\<lparr>tm_lists := (tm_lists timer)(wheel := (tm_lists timer wheel)(slot := tm_lists timer wheel slot @ [eid]))\<rparr>,
                      calls))))"

text \<open>The loops of the tick over the wheels and their slots. A shift by 32 bits or more is undefined in C:
  its result is the parameter \<open>wide\<close>. The inner loop moves the whole list of a slot behind the temporary
  list.\<close>

definition timer_shift :: "(u32 \<Rightarrow> nat \<Rightarrow> u32) \<Rightarrow> u32 \<Rightarrow> nat \<Rightarrow> u32" where
  "timer_shift wide v n = (if n < 32 then drop_bit n v else wide v n)"

definition timer_take_slot :: "nat \<Rightarrow> nat \<Rightarrow> prs_timer \<Rightarrow> prs_timer" where
  "timer_take_slot wheel slot timer =
     timer\<lparr>tm_tmp_list := tm_tmp_list timer @ tm_lists timer wheel slot,
           tm_lists := (tm_lists timer)(wheel := (tm_lists timer wheel)(slot := []))\<rparr>"

definition timer_take_wheel :: "(u32 \<Rightarrow> nat \<Rightarrow> u32) \<Rightarrow> prs_ticks_t \<Rightarrow> nat \<Rightarrow> prs_timer \<Rightarrow> prs_timer" where
  "timer_take_wheel wide elapsed wheel timer =
     (let slot_mask = word_of_nat (PRS_MAX_TIMER_SLOTS_PER_WHEEL - 1) :: u32;
          first_slot = unat (drop_bit (wheel * PRS_MAX_TIMER_BITS_PER_WHEEL) (tm_now timer) AND slot_mask);
          elapsed_slots = sint (timer_shift wide elapsed (wheel * PRS_MAX_TIMER_SLOTS_PER_WHEEL));
          elapsed_slots = (if elapsed_slots > int PRS_MAX_TIMER_SLOTS_PER_WHEEL then int PRS_MAX_TIMER_SLOTS_PER_WHEEL
                           else elapsed_slots)
      in fold (\<lambda>i. timer_take_slot wheel (first_slot + i)) [0 ..< nat elapsed_slots] timer)"

text \<open>The number of wheels: the division is one of unsigned 64-bit numbers, as \<^verbatim>\<open>sizeof\<close> makes it.\<close>

definition timer_max_wheel :: "prs_ticks_t \<Rightarrow> int" where
  "timer_max_wheel changed =
     sint (ucast ((word_of_int (prs_timer_hsb changed) :: u64) div word_of_nat PRS_MAX_TIMER_BITS_PER_WHEEL + 1) :: u32)"

definition prs_timer_tick :: "(u32 \<Rightarrow> nat \<Rightarrow> u32) \<Rightarrow> prs_ticks_t \<Rightarrow> timer_state \<Rightarrow> timer_state" where
  "prs_timer_tick wide now s =
     (let (timer, calls) = s;
          elapsed = now - tm_now timer;
          changed = now XOR tm_now timer;
          timer = fold (timer_take_wheel wide elapsed) [0 ..< nat (timer_max_wheel changed)] timer;
          tmp = tm_tmp_list timer;
          (timer, calls) = fold (\<lambda>eid s. prs_timer_queue_internal s eid) tmp (timer\<lparr>tm_tmp_list := []\<rparr>, calls);
          timer = timer\<lparr>tm_now := now\<rparr>;
          queued = tm_queued timer
      in fold (\<lambda>eid s. prs_timer_queue_internal s eid) queued (timer\<lparr>tm_queued := []\<rparr>, calls))"

section \<open>Ticks as numbers\<close>

text \<open>The clock and the ends of the timers as unbounded numbers, of which the words hold the low 32 bits.\<close>

lemma unat_tick: "unat (word_of_nat T :: u32) = T mod 2 ^ 32"
  by (simp only: unat_of_nat) simp

lemma unat_drop_bits: "unat (drop_bit n (v :: u32)) = unat v div 2 ^ n"
  by (simp only: unat_drop_bit_eq) (simp only: drop_bit_eq_div)

lemma div_mod_window:
  assumes "a + 8 \<le> 32"
  shows "(T mod 2 ^ 32) div 2 ^ a mod 256 = T div 2 ^ a mod (256 :: nat)"
proof -
  have "T mod 2 ^ 32 div 2 ^ a = T div 2 ^ a mod 2 ^ (32 - a)"
    using drop_bit_take_bit [of a 32 T] by (simp only: drop_bit_eq_div take_bit_eq_mod)
  moreover have "(2 :: nat) ^ (32 - a) = 256 * 2 ^ (24 - a)"
    using assms power_add [of "2 :: nat" 8 "24 - a"] by simp
  ultimately show ?thesis by (simp add: mod_mod_cancel)
qed

lemma unat_slot:
  assumes "w < 4"
  shows "unat (drop_bit (w * 8) (word_of_nat T :: u32) AND 255) = T div 2 ^ (w * 8) mod 256"
proof -
  have m: "(255 :: u32) = mask 8" by (simp add: mask_eq_exp_minus_1)
  have "unat (drop_bit (w * 8) (word_of_nat T :: u32) AND 255) = unat (drop_bit (w * 8) (word_of_nat T :: u32)) mod 2 ^ 8"
    unfolding m by (rule unat_and_mask_eq)
  also have "\<dots> = (T mod 2 ^ 32) div 2 ^ (w * 8) mod 256"
    by (simp only: unat_drop_bits unat_tick) simp
  finally show ?thesis using div_mod_window [of "w * 8" T] assms by simp
qed

lemma unat_slot_before:
  assumes "w < 4"
  shows "unat ((drop_bit (w * 8) (word_of_nat T :: u32) - 1) AND 255) = (T div 2 ^ (w * 8) + 255) mod 256"
proof -
  have m: "(255 :: u32) = mask 8" by (simp add: mask_eq_exp_minus_1)
  let ?v = "drop_bit (w * 8) (word_of_nat T :: u32)"
  have d: "unat ?v mod 256 = T div 2 ^ (w * 8) mod 256"
    using unat_slot [OF assms, of T] unfolding m by (simp only: unat_and_mask_eq) simp
  have "unat ((?v - 1) AND 255) = unat (?v - 1) mod 256" unfolding m by (simp only: unat_and_mask_eq) simp
  also have "\<dots> = (unat ?v + 255) mod 256"
  proof (cases "?v = 0")
    case True
    then have "?v - 1 = - 1" by simp
    then show ?thesis using True by (simp add: unsigned_minus_1_eq_mask mask_eq_exp_minus_1)
  next
    case False
    then have "unat (?v - 1) = unat ?v - 1" by (rule unat_minus_one)
    moreover have "0 < unat ?v" using False by (simp only: unat_gt_0 not_False_eq_True)
    then have "unat ?v + 255 = (unat ?v - 1) + 256" by linarith
    ultimately show ?thesis by (simp only: mod_add_self2)
  qed
  also have "\<dots> = (unat ?v mod 256 + 255) mod 256" by (simp add: mod_simps)
  finally show ?thesis unfolding d by (simp add: mod_simps)
qed

text \<open>The wheels that a tick from \<open>T\<close> to \<open>T + 1\<close> looks at are those whose lower bits all roll over.\<close>

lemma ucast_small:
  assumes "unat (v :: u64) = n" and "n < 2 ^ 32"
  shows "(ucast v :: u32) = word_of_nat n"
proof -
  have "unat (ucast v :: u32) = n mod 2 ^ 32"
    using assms(1) by (simp only: unsigned_ucast_eq take_bit_eq_mod) simp
  then show ?thesis by (simp only: word_eq_iff_unat unat_tick)
qed

lemma timer_max_wheel_eq:
  assumes "changed \<noteq> 0"
  shows "timer_max_wheel changed = prs_timer_hsb changed div 8 + 1"
proof -
  note b = hsb_bounds(1,2) [OF assms]
  let ?h = "nat (prs_timer_hsb changed)"
  have h: "prs_timer_hsb changed = int ?h" "?h < 32"
    using b by (simp_all add: prs_timer_hsb_def prs_bitops_hsb_uint32_def)
  have "unat ((word_of_int (prs_timer_hsb changed) :: u64) div 8 + 1) = ?h div 8 + 1"
  proof -
    have "unat (word_of_nat ?h :: u64) = ?h" using h(2) by (simp add: unat_of_nat)
    then have d: "unat ((word_of_nat ?h :: u64) div 8) = ?h div 8" by (simp add: unat_div)
    have "unat ((word_of_nat ?h :: u64) div 8) + unat (1 :: u64) < 2 ^ 64" using d h(2) by simp
    from unat_add_no_wrap [of "(word_of_nat ?h :: u64) div 8" 1] this d h(1) show ?thesis by simp
  qed
  then have "(ucast ((word_of_int (prs_timer_hsb changed) :: u64) div 8 + 1) :: u32) = word_of_nat (?h div 8 + 1)"
    by (rule ucast_small) (use h(2) in simp)
  moreover have "sint (word_of_nat (?h div 8 + 1) :: u32) = int (?h div 8 + 1)"
  proof -
    have "?h div 8 < 4" using h(2) by simp
    then have "?h div 8 = 0 \<or> ?h div 8 = 1 \<or> ?h div 8 = 2 \<or> ?h div 8 = 3" by linarith
    then show ?thesis by auto
  qed
  ultimately show ?thesis using h(1) by (simp add: timer_max_wheel_def zdiv_int)
qed

lemma div_rolls:
  assumes "(0 :: nat) < m"
  shows "Suc T div m = T div m + (if T mod m = m - 1 then 1 else 0)"
  unfolding div_Suc mod_Suc using assms by (cases m) auto

lemma Suc_mod_neq: "(1 :: nat) < m \<Longrightarrow> Suc a mod m \<noteq> a mod m"
  by (auto simp: mod_Suc)

lemma tick_changed_iff:
  assumes "w < 4"
  shows "drop_bit (w * 8) (word_of_nat (T + 1) XOR word_of_nat T :: u32) \<noteq> 0 \<longleftrightarrow> T mod 2 ^ (w * 8) = 2 ^ (w * 8) - 1"
proof -
  let ?k = "w * 8"
  have k: "?k < 32" using assms by simp
  have dx: "drop_bit ?k (a XOR b) \<noteq> 0 \<longleftrightarrow> drop_bit ?k a \<noteq> drop_bit ?k b" for a b :: u32
    by (simp add: drop_bit_xor) (metis (no_types, lifting) xor.assoc xor.left_neutral xor_self_eq xor.right_neutral)
  have u: "unat (drop_bit ?k (word_of_nat X :: u32)) = X div 2 ^ ?k mod 2 ^ (32 - ?k)" for X
    using drop_bit_take_bit [of ?k 32 X] unfolding unat_drop_bits unat_tick by (simp only: drop_bit_eq_div take_bit_eq_mod)
  have pos2: "(0 :: nat) < 2" by simp
  have pos: "(1 :: nat) < 2 ^ (32 - ?k)" using k by (intro one_less_power) simp_all
  have "drop_bit ?k (word_of_nat (T + 1) :: u32) \<noteq> drop_bit ?k (word_of_nat T) \<longleftrightarrow>
      (T + 1) div 2 ^ ?k mod 2 ^ (32 - ?k) \<noteq> T div 2 ^ ?k mod 2 ^ (32 - ?k)"
    by (simp only: word_eq_iff_unat u)
  also have "\<dots> \<longleftrightarrow> T mod 2 ^ ?k = 2 ^ ?k - 1"
    unfolding div_rolls [of "2 ^ ?k" T, simplified Suc_eq_plus1, OF zero_less_power [OF pos2]]
    using Suc_mod_neq [OF pos, of "T div 2 ^ ?k"] by (simp split: if_splits)
  finally show ?thesis by (simp only: dx)
qed

lemma wheel_looked_at:
  assumes "w < 4"
  shows "w < nat (timer_max_wheel (word_of_nat (T + 1) XOR word_of_nat T)) \<longleftrightarrow> T mod 2 ^ (w * 8) = 2 ^ (w * 8) - 1"
    and "nat (timer_max_wheel (word_of_nat (T + 1) XOR word_of_nat T)) \<le> 4"
proof -
  define c where "c = (word_of_nat (T + 1) XOR word_of_nat T :: u32)"
  have c: "c \<noteq> 0" using tick_changed_iff [of 0 T] by (auto simp: c_def)
  define h where "h = nat (prs_bitops_hsb c)"
  have h: "prs_timer_hsb c = int h" "h < 32" "2 ^ h \<le> unat c" "unat c < 2 ^ Suc h"
    using hsb_bounds [OF c] by (simp_all add: prs_timer_hsb_def prs_bitops_hsb_uint32_def nat_less_iff h_def)
  have "timer_max_wheel c = int (h div 8 + 1)" unfolding timer_max_wheel_eq [OF c] h(1) by (simp add: zdiv_int)
  then have m: "nat (timer_max_wheel c) = h div 8 + 1" by (simp only: nat_int)
  then show "nat (timer_max_wheel (word_of_nat (T + 1) XOR word_of_nat T)) \<le> 4"
    using h(2) unfolding c_def by simp
  have "w < nat (timer_max_wheel c) \<longleftrightarrow> w * 8 \<le> h" using m by (simp add: less_Suc_eq_le less_eq_div_iff_mult_less_eq)
  also have "\<dots> \<longleftrightarrow> 2 ^ (w * 8) \<le> unat c"
  proof
    assume "w * 8 \<le> h"
    then have "(2 :: nat) ^ (w * 8) \<le> 2 ^ h" by (rule power_increasing) simp
    then show "2 ^ (w * 8) \<le> unat c" using h(3) by (rule order_trans)
  next
    assume "2 ^ (w * 8) \<le> unat c"
    then have "(2 :: nat) ^ (w * 8) < 2 ^ Suc h" using h(4) by (rule le_less_trans)
    then have "w * 8 < Suc h" by (rule power_less_imp_less_exp [rotated]) simp
    then show "w * 8 \<le> h" by simp
  qed
  also have "\<dots> \<longleftrightarrow> unat c div 2 ^ (w * 8) \<noteq> 0" by (simp add: div_eq_0_iff not_less)
  also have "\<dots> \<longleftrightarrow> drop_bit (w * 8) c \<noteq> 0" by (simp only: unat_drop_bits [symmetric] unat_eq_0)
  also have "\<dots> \<longleftrightarrow> T mod 2 ^ (w * 8) = 2 ^ (w * 8) - 1" unfolding c_def by (rule tick_changed_iff [OF assms])
  finally show "w < nat (timer_max_wheel (word_of_nat (T + 1) XOR word_of_nat T)) \<longleftrightarrow> T mod 2 ^ (w * 8) = 2 ^ (w * 8) - 1"
    unfolding c_def .
qed

section \<open>Where an entry waits\<close>

text \<open>The slot of an end \<open>E\<close> in a wheel, the tick at which the wheel's loop gets to it, and the places an entry
  can be at tick \<open>T\<close>.\<close>

definition slot_of :: "nat \<Rightarrow> nat \<Rightarrow> nat" where
  "slot_of E w = (if w = 0 then E mod 256 else (E div 2 ^ (w * 8) + 255) mod 256)"

definition due :: "nat \<Rightarrow> nat \<Rightarrow> nat" where
  "due E w = (if w = 0 then E else E div 2 ^ (w * 8) * 2 ^ (w * 8) - 1)"

definition place :: "nat \<Rightarrow> nat \<Rightarrow> nat \<Rightarrow> bool" where
  "place T E w \<longleftrightarrow> w < 4 \<and> T \<le> due E w \<and> 2 ^ (w * 8) \<le> E + (if w = 0 then 1 else 0)
     \<and> E div 2 ^ (w * 8) \<le> T div 2 ^ (w * 8) + (if w = 0 then 255 else 256)"

definition slot_taken :: "nat \<Rightarrow> nat \<Rightarrow> nat \<Rightarrow> bool" where
  "slot_taken T w s \<longleftrightarrow> T mod 2 ^ (w * 8) = 2 ^ (w * 8) - 1 \<and> s = T div 2 ^ (w * 8) mod 256"

lemma mod_256_window:
  assumes "(p :: nat) mod 256 = r mod 256" and "p \<le> r" and "r \<le> p + 255"
  shows "p = r"
proof -
  have "256 dvd r - p" using assms(1,2) by (metis mod_eq_dvd_iff_nat)
  moreover have "r - p < 256" using assms(2,3) by linarith
  ultimately have "r - p = 0" by (metis dvd_imp_le not_less neq0_conv)
  then show ?thesis using assms(2) by simp
qed

lemma block_parts:
  assumes "(r :: nat) < B"
  shows "(q * B + r) mod B = r" and "(q * B + r) div B = q"
  using assms by simp_all

text \<open>The block of a wheel that an end lies in.\<close>

lemma due_block:
  assumes "0 < w" and "2 ^ (w * 8) \<le> E"
  shows "due E w mod 2 ^ (w * 8) = 2 ^ (w * 8) - 1" and "due E w div 2 ^ (w * 8) + 1 = E div 2 ^ (w * 8)"
    and "due E w < E" and "due E w + 1 = E div 2 ^ (w * 8) * 2 ^ (w * 8)"
proof -
  let ?B = "(2 :: nat) ^ (w * 8)"
  obtain q where q: "E div ?B = Suc q" using assms(2) by (metis div_eq_0_iff not0_implies_Suc not_less power_not_zero zero_neq_numeral)
  have d: "due E w = q * ?B + (?B - 1)" using assms(1) q by (simp add: due_def)
  have "?B - 1 < ?B" by simp
  from block_parts [OF this, of q] show "due E w mod ?B = ?B - 1" "due E w div ?B + 1 = E div ?B"
    unfolding d q by (simp_all only: Suc_eq_plus1)
  show s: "due E w + 1 = E div ?B * ?B" using d q by simp
  have "E div ?B * ?B \<le> E" by simp
  with s show "due E w < E" by linarith
qed

lemma slot_taken_iff:
  assumes "place T E w"
  shows "slot_taken T w (slot_of E w) \<longleftrightarrow> T = due E w"
proof (cases "w = 0")
  case True
  then show ?thesis
    using assms mod_256_window [of T E] by (auto simp: slot_taken_def slot_of_def place_def due_def)
next
  case False
  let ?B = "(2 :: nat) ^ (w * 8)"
  have p: "T \<le> due E w" "?B \<le> E" "E div ?B \<le> T div ?B + 256" using assms False by (simp_all add: place_def)
  note d = due_block [OF _ p(2)]
  show ?thesis
  proof
    assume t: "slot_taken T w (slot_of E w)"
    then have m: "T mod ?B = ?B - 1" and s: "(E div ?B + 255) mod 256 = T div ?B mod 256"
      using False by (auto simp: slot_taken_def slot_of_def)
    obtain q where q: "E div ?B = Suc q" using d(2) False by (metis Suc_eq_plus1 neq0_conv)
    have "T div ?B mod 256 = q mod 256" using s mod_add_self2 [of q 256] unfolding q by simp
    moreover have "T div ?B \<le> q" using div_le_mono [OF p(1), of ?B] d(2) q False by simp
    moreover have "q \<le> T div ?B + 255" using p(3) q by simp
    ultimately have "T div ?B = q" by (rule mod_256_window)
    then have "T = q * ?B + (?B - 1)" using m by (metis div_mult_mod_eq)
    then show "T = due E w" using False q by (simp add: due_def)
  next
    assume "T = due E w"
    moreover have "(E div ?B + 255) mod 256 = due E w div ?B mod 256"
    proof -
      have "E div ?B + 255 = due E w div ?B + 256" using d(2) False by linarith
      then show ?thesis by (simp only: mod_add_self2)
    qed
    ultimately show "slot_taken T w (slot_of E w)" using d(1) False by (simp add: slot_taken_def slot_of_def)
  qed
qed

lemma place_later:
  assumes "place T E w" and "T \<noteq> due E w"
  shows "place (T + 1) E w"
proof -
  let ?k = "if w = 0 then 255 else 256 :: nat"
  have p: "w < 4" "T \<le> due E w" "2 ^ (w * 8) \<le> E + (if w = 0 then 1 else 0)" "E div 2 ^ (w * 8) \<le> T div 2 ^ (w * 8) + ?k"
    using assms(1) by (simp_all add: place_def)
  have "T div 2 ^ (w * 8) + ?k \<le> (T + 1) div 2 ^ (w * 8) + ?k" by (intro add_right_mono div_le_mono) simp
  with p(4) have "E div 2 ^ (w * 8) \<le> (T + 1) div 2 ^ (w * 8) + ?k" by (rule order_trans)
  moreover have "T + 1 \<le> due E w" using p(2) assms(2) by linarith
  ultimately show ?thesis using p(1,3) unfolding place_def by blast
qed

text \<open>The wheel of a delay.\<close>

lemma place_of_delay:
  assumes "T < E" and "2 ^ (w * 8) \<le> E - T" and "E - T < 2 ^ (w * 8 + 8)" and "w < 4"
  shows "place T E w"
proof -
  let ?B = "(2 :: nat) ^ (w * 8)"
  have lt: "E - T < 256 * ?B" using assms(3) by (simp add: power_add)
  have "T \<le> due E w"
  proof (cases "w = 0")
    case False
    have "T + ?B \<le> E" using assms(1,2) by linarith
    then have "(T + ?B) div ?B \<le> E div ?B" by (rule div_le_mono)
    moreover have "(T + ?B) div ?B = T div ?B + 1" by (rule div_add_self2) simp
    ultimately have "T div ?B + 1 \<le> E div ?B" by (simp only:)
    then have "(T div ?B + 1) * ?B \<le> E div ?B * ?B" by (rule mult_le_mono1)
    moreover have "T < (T div ?B + 1) * ?B" using dividend_less_div_times [of ?B T] by (simp add: add.commute)
    ultimately show ?thesis using False by (simp add: due_def)
  qed (use assms(1) in \<open>simp add: due_def\<close>)
  moreover have "E div ?B \<le> T div ?B + (if w = 0 then 255 else 256)"
  proof (cases "w = 0")
    case False
    have "E \<le> T + 256 * ?B" using lt assms(1) by linarith
    from div_le_mono [OF this, of ?B] have "E div ?B \<le> (T + 256 * ?B) div ?B" .
    also have "(T + 256 * ?B) div ?B = 256 + T div ?B" by (rule div_mult_self1) simp
    finally show ?thesis using False by simp
  qed (use lt assms(1) in simp)
  ultimately show ?thesis using assms by (simp add: place_def)
qed

lemma place_requeued:
  assumes "T < E" and "2 ^ (w * 8) \<le> E - T" and "E - T < 2 ^ (w * 8 + 8)" and "w < 4" and "E mod 256 \<noteq> 255"
  shows "place (T + 1) E w"
proof (rule place_later [OF place_of_delay [OF assms(1-4)]])
  show "T \<noteq> due E w"
  proof (cases "w = 0")
    case False
    let ?B = "(2 :: nat) ^ (w * 8)"
    have B: "?B \<le> E" using assms(2) by linarith
    show ?thesis
    proof
      assume "T = due E w"
      then have "T + 1 = E div ?B * ?B" using due_block(4) [OF _ B] False by simp
      then have "E = T + 1 + E mod ?B" using div_mult_mod_eq [of E ?B] by simp
      moreover have "E mod ?B < ?B" by simp
      ultimately have e: "E mod ?B = ?B - 1" using assms(2) by linarith
      have "256 dvd ?B" using False by (cases w) (simp_all add: power_add)
      then have "E mod 256 = (?B - 1) mod 256" using e by (metis mod_mod_cancel)
      also have "\<dots> = 255"
      proof -
        obtain r where "?B = 256 * Suc r"
          using \<open>256 dvd ?B\<close> by (metis dvdE mult_0_right not0_implies_Suc power_not_zero zero_neq_numeral)
        then have "?B - 1 = 255 + r * 256" by simp
        then show ?thesis by (simp only: mod_mult_self1) simp
      qed
      finally show False using assms(5) by simp
    qed
  qed (use assms(1) in \<open>simp add: due_def\<close>)
qed

section \<open>One request\<close>

text \<open>Unlocking a pool entry writes its header only, if the destructor leaves the data.\<close>

lemma unlock_internal_data:
  assumes "\<forall>d x w. destructor = Some d \<longrightarrow> fst (d x w) = x"
  shows "pe_data (pool_entries (fst (prs_pool_unlock_internal pool w pid try_final destructor)) ! i) = pe_data (pool_entries pool ! i)"
    and "prs_pool_get_entry (fst (prs_pool_unlock_internal pool w pid try_final destructor)) j = prs_pool_get_entry pool j"
proof -
  have h: "pe_data (pool_entries (pool_set_header p k h) ! i) = pe_data (pool_entries p ! i)" for p k h
    by (cases "k < length (pool_entries p)") (simp_all add: pool_set_header_def nth_list_update list_update_beyond not_less)
  have dt: "pe_data (pool_entries (pool_set_data p k (pe_data (pool_entries p ! k))) ! i) = pe_data (pool_entries p ! i)" for p :: "'a prs_pool" and k
    by (cases "k < length (pool_entries p)") (simp_all add: pool_set_data_def nth_list_update list_update_beyond not_less)
  have g: "prs_pool_get_entry (pool_set_header p k h) j = prs_pool_get_entry p j"
    "prs_pool_get_entry (pool_set_data p k x) j = prs_pool_get_entry p j" for p :: "'a prs_pool" and k h x
    by (simp_all add: prs_pool_get_entry_def pool_set_header_def pool_set_data_def)
  have d: "fst (d x w) = x" if "destructor = Some d" for d x w using assms that by blast
  show "pe_data (pool_entries (fst (prs_pool_unlock_internal pool w pid try_final destructor)) ! i) = pe_data (pool_entries pool ! i)"
    unfolding prs_pool_unlock_internal_def Let_def
    by (auto simp: h dt split: prod.splits option.splits) (metis d dt fst_conv h)+
  show "prs_pool_get_entry (fst (prs_pool_unlock_internal pool w pid try_final destructor)) j = prs_pool_get_entry pool j"
    unfolding prs_pool_unlock_internal_def Let_def by (auto simp: g split: prod.splits option.splits)
qed

lemma unlock_internal_other:
  assumes "pool_wf pool" and "e \<noteq> f"
  shows "pool_wf (fst (prs_pool_unlock_internal pool w f try_final destructor))"
    and "pool_view (fst (prs_pool_unlock_internal pool w f try_final destructor)) e = pool_view pool e"
proof -
  consider "pool_view pool f \<in> {None, Some 0}" | "pool_view pool f = Some 1" | n where "pool_view pool f = Some n" "1 < n"
    by (metis One_nat_def insertCI less_one linorder_neqE_nat not_Some_eq)
  then have "pool_wf (fst (prs_pool_unlock_internal pool w f try_final destructor))
    \<and> pool_view (fst (prs_pool_unlock_internal pool w f try_final destructor)) e = pool_view pool e"
  proof cases
    case 1
    then show ?thesis using assms(1) by (simp add: unlock_internal_dead)
  next
    case 2
    show ?thesis
    proof (cases destructor)
      case None
      with unlock_internal_final [OF assms(1) 2, of w try_final] assms(2) show ?thesis by auto
    next
      case (Some d)
      obtain x w' where "d (pe_data (pool_entries pool ! prs_pool_get_entry pool f)) w = (x, w')" by fastforce
      from unlock_internal_final_dest [where d = d, OF assms(1) 2 this, of try_final] Some assms(2) show ?thesis by auto
    qed
  next
    case 3
    show ?thesis
    proof (cases try_final)
      case True
      then show ?thesis using unlock_internal_try_shared [OF 3(1), of w destructor] 3(2) assms(1) by simp
    next
      case False
      with unlock_internal_shared [OF assms(1) 3, of w destructor] assms(2) show ?thesis by auto
    qed
  qed
  then show "pool_wf (fst (prs_pool_unlock_internal pool w f try_final destructor))"
    "pool_view (fst (prs_pool_unlock_internal pool w f try_final destructor)) e = pool_view pool e" by simp_all
qed

lemma timer_destructor_data: "fst (prs_timer_event_destructor x w) = x"
  by (simp add: prs_timer_event_destructor_def)

text \<open>The two outcomes of a request that is not canceled.\<close>

definition timer_put :: "nat \<Rightarrow> nat \<Rightarrow> u64 \<Rightarrow> prs_timer \<Rightarrow> prs_timer" where
  "timer_put wheel slot eid timer =
     timer\<lparr>tm_lists := (tm_lists timer)(wheel := (tm_lists timer wheel)(slot := tm_lists timer wheel slot @ [eid]))\<rparr>"

definition wheel_of :: "prs_ticks_t \<Rightarrow> nat" where
  "wheel_of delay = nat (prs_timer_hsb delay div 8)"

lemma delay_value: "sint (ucast (v :: u32) :: u64) = int (unat v)"
proof -
  have up: "uint (ucast v :: u64) = uint v" by (rule uint_up_ucast) (simp add: is_up)
  have "uint v < 2 ^ 32" using uint_lt2p [of v] by simp
  moreover have "- (2 ^ 63) \<le> uint v" using uint_ge_0 [of v] by (rule order_trans [rotated]) simp
  ultimately have "signed_take_bit 63 (uint v) = uint v" by (intro signed_take_bit_int_eq_self) simp_all
  then show ?thesis using up by (simp add: sint_uint)
qed

lemma wheel_of_bounds:
  assumes "v \<noteq> 0"
  shows "wheel_of v < 4" and "2 ^ (wheel_of v * 8) \<le> unat v" and "unat v < 2 ^ (wheel_of v * 8 + 8)"
proof -
  define h where "h = nat (prs_bitops_hsb v)"
  have h: "prs_timer_hsb v = int h" "h < 32" "2 ^ h \<le> unat v" "unat v < 2 ^ Suc h"
    using hsb_bounds [OF assms] by (simp_all add: prs_timer_hsb_def prs_bitops_hsb_uint32_def nat_less_iff h_def)
  have w: "wheel_of v = h div 8" unfolding wheel_of_def h(1) by (simp add: zdiv_int [of h 8, simplified, symmetric])
  show "wheel_of v < 4" using w h(2) by simp
  have "(2 :: nat) ^ (wheel_of v * 8) \<le> 2 ^ h" by (rule power_increasing) (simp_all add: w)
  then show "2 ^ (wheel_of v * 8) \<le> unat v" using h(3) by (rule order_trans)
  have "Suc h \<le> wheel_of v * 8 + 8" unfolding w by simp
  then have "(2 :: nat) ^ Suc h \<le> 2 ^ (wheel_of v * 8 + 8)" by (rule power_increasing) simp
  with h(4) show "unat v < 2 ^ (wheel_of v * 8 + 8)" by (rule less_le_trans)
qed

lemma queue_internal_eq:
  "prs_timer_queue_internal (t, c) e =
     (let d = timer_entry t e; v = te_end d - tm_now t in
      if v = 0 then (t\<lparr>tm_pool := fst (prs_pool_unlock (tm_pool t) e)\<rparr>, c @ [EventSignal (te_event d) (te_event_type d)])
      else
        (case prs_pool_try_unlock_final_dest (tm_pool t) c e prs_timer_event_destructor of
           (pool, c, canceled) \<Rightarrow>
             (if canceled then (t\<lparr>tm_pool := pool\<rparr>, c)
              else (timer_put (wheel_of v)
                     (unat ((drop_bit (wheel_of v * 8) (te_end d) - (if wheel_of v \<noteq> 0 then 1 else 0)) AND 255)) e
                     (t\<lparr>tm_pool := pool\<rparr>), c))))"
proof -
  have z: "int (unat v) \<le> 0 \<longleftrightarrow> v = 0" for v :: u32 by (simp only: of_nat_le_0_iff unat_eq_0)
  have b: "(word_of_int (int (unat v)) :: u32) = v" for v by simp
  show ?thesis
    unfolding prs_timer_queue_internal_def Let_def delay_value z b timer_consts
    by (simp add: wheel_of_def timer_put_def split: prod.splits)
qed

text \<open>The calls about one event.\<close>

definition ev_calls :: "ptr \<Rightarrow> timer_call list \<Rightarrow> timer_call list" where
  "ev_calls ev = filter (\<lambda>c. case c of EventSignal x _ \<Rightarrow> x = ev | EventUnref x \<Rightarrow> x = ev)"

text \<open>The other entries that wait belong to other events.\<close>

definition foreign :: "u64 \<Rightarrow> ptr \<Rightarrow> prs_timer \<Rightarrow> bool" where
  "foreign e ev t \<longleftrightarrow> (\<forall>w s. \<forall>f \<in> set (tm_lists t w s). f \<noteq> e \<longrightarrow> te_event (timer_entry t f) \<noteq> ev)"

text \<open>What a step about other entries leaves of an entry and its event.\<close>

definition timer_frame :: "u64 \<Rightarrow> ptr \<Rightarrow> timer_state \<Rightarrow> timer_state \<Rightarrow> bool" where
  "timer_frame e ev s s' \<longleftrightarrow>
     pool_wf (tm_pool (fst s')) \<and> pool_view (tm_pool (fst s')) e = pool_view (tm_pool (fst s)) e
     \<and> timer_entry (fst s') = timer_entry (fst s)
     \<and> (\<forall>w sl. count_list (tm_lists (fst s') w sl) e = count_list (tm_lists (fst s) w sl) e)
     \<and> (foreign e ev (fst s) \<longrightarrow> foreign e ev (fst s'))
     \<and> tm_now (fst s') = tm_now (fst s) \<and> tm_tmp_list (fst s') = tm_tmp_list (fst s)
     \<and> tm_queued (fst s') = tm_queued (fst s) \<and> ev_calls ev (snd s') = ev_calls ev (snd s)"

lemma timer_frame_refl: "pool_wf (tm_pool (fst s)) \<Longrightarrow> timer_frame e ev s s"
  by (simp add: timer_frame_def)

lemma timer_frame_trans: "timer_frame e ev s s' \<Longrightarrow> timer_frame e ev s' s'' \<Longrightarrow> timer_frame e ev s s''"
  by (simp add: timer_frame_def)

lemma timer_entry_unlock:
  assumes "\<forall>d x w. destructor = Some d \<longrightarrow> fst (d x w) = x"
  shows "timer_entry (t\<lparr>tm_pool := fst (prs_pool_unlock_internal (tm_pool t) w f try_final destructor)\<rparr>) = timer_entry t"
  using unlock_internal_data [OF assms] by (simp add: timer_entry_def fun_eq_iff)

lemma timer_frame_unlock:
  assumes "pool_wf (tm_pool t)" and "f \<noteq> e" and "\<forall>d x w. destructor = Some d \<longrightarrow> fst (d x w) = x"
    and "ev_calls ev c' = ev_calls ev c"
  shows "timer_frame e ev (t, c) (t\<lparr>tm_pool := fst (prs_pool_unlock_internal (tm_pool t) w f try_final destructor)\<rparr>, c')"
  using unlock_internal_other [OF assms(1), of e f w try_final destructor] assms(2,4)
    timer_entry_unlock [OF assms(3), of t w f try_final]
  by (simp add: timer_frame_def foreign_def)

lemma timer_frame_put:
  assumes "pool_wf (tm_pool t)" and "f \<noteq> e" and "te_event (timer_entry t f) \<noteq> ev"
  shows "timer_frame e ev (t, c) (timer_put w s f t, c)"
  using assms by (auto simp: timer_frame_def timer_put_def timer_entry_def foreign_def)

lemma pool_unlock_fst: "fst (prs_pool_unlock pool f) = fst (prs_pool_unlock_internal pool () f False None)"
  by (simp add: prs_pool_unlock_def split: prod.splits)

lemma try_final_calls:
  "prs_pool_try_unlock_final_dest pool c f prs_timer_event_destructor = (pool', c', b) \<Longrightarrow>
     c' = c \<or> c' = c @ [EventUnref (te_event (pe_data (pool_entries pool ! prs_pool_get_entry pool f)))]"
proof -
  have "pe_data (pool_entries (pool_set_header pool k h) ! k) = pe_data (pool_entries pool ! k)" for k h
    by (cases "k < length (pool_entries pool)") (simp_all add: pool_set_header_def list_update_beyond not_less)
  then show "prs_pool_try_unlock_final_dest pool c f prs_timer_event_destructor = (pool', c', b) \<Longrightarrow>
     c' = c \<or> c' = c @ [EventUnref (te_event (pe_data (pool_entries pool ! prs_pool_get_entry pool f)))]"
    by (auto simp: prs_pool_try_unlock_final_dest_def prs_pool_unlock_internal_def prs_timer_event_destructor_def Let_def
        split: if_splits prod.splits option.splits)
qed

lemma queue_internal_other:
  assumes "pool_wf (tm_pool t)" and "f \<noteq> e" and "te_event (timer_entry t f) \<noteq> ev"
  shows "timer_frame e ev (t, c) (prs_timer_queue_internal (t, c) f)"
proof (cases "te_end (timer_entry t f) = tm_now t")
  case True
  then show ?thesis
    using timer_frame_unlock [OF assms(1,2), of None ev "c @ [EventSignal (te_event (timer_entry t f)) (te_event_type (timer_entry t f))]" c]
      assms(3) by (simp add: queue_internal_eq pool_unlock_fst ev_calls_def Let_def)
next
  case False
  obtain pool c' b where r: "prs_pool_try_unlock_final_dest (tm_pool t) c f prs_timer_event_destructor = (pool, c', b)"
    by (metis surj_pair)
  have calls: "ev_calls ev c' = ev_calls ev c"
    using try_final_calls [OF r] assms(3) by (auto simp: ev_calls_def timer_entry_def)
  have pool: "pool = fst (prs_pool_unlock_internal (tm_pool t) c f True (Some prs_timer_event_destructor))"
    using r by (simp add: prs_pool_try_unlock_final_dest_def)
  have u: "timer_frame e ev (t, c) (t\<lparr>tm_pool := pool\<rparr>, c')"
    unfolding pool by (rule timer_frame_unlock [OF assms(1,2) _ calls]) (auto simp: timer_destructor_data)
  then have "pool_wf pool" "timer_entry (t\<lparr>tm_pool := pool\<rparr>) = timer_entry t" by (simp_all add: timer_frame_def)
  from timer_frame_put [of "t\<lparr>tm_pool := pool\<rparr>" f e ev] this assms(2,3)
  have p: "timer_frame e ev (t\<lparr>tm_pool := pool\<rparr>, c') (timer_put w s f (t\<lparr>tm_pool := pool\<rparr>), c')" for w s by simp
  show ?thesis
    using False r u timer_frame_trans [OF u p] by (simp add: queue_internal_eq Let_def)
qed

lemma queue_fold_others:
  assumes "pool_wf (tm_pool (fst s))" and "\<forall>f \<in> set fs. f \<noteq> e \<and> te_event (timer_entry (fst s) f) \<noteq> ev"
  shows "timer_frame e ev s (fold (\<lambda>f s. prs_timer_queue_internal s f) fs s)"
  using assms
proof (induction fs arbitrary: s)
  case Nil
  then show ?case by (simp add: timer_frame_refl)
next
  case (Cons f fs)
  obtain t c where s: "s = (t, c)" by (cases s)
  have q: "timer_frame e ev s (prs_timer_queue_internal s f)"
    using queue_internal_other [of t f e ev c] Cons.prems s by simp
  then have "pool_wf (tm_pool (fst (prs_timer_queue_internal s f)))"
    "timer_entry (fst (prs_timer_queue_internal s f)) = timer_entry (fst s)" by (simp_all add: timer_frame_def)
  with Cons.IH [of "prs_timer_queue_internal s f"] Cons.prems(2) timer_frame_trans [OF q] show ?case by simp
qed

text \<open>The request itself: it is signaled when its end is now, and else it is put in a list.\<close>

lemma queue_internal_self:
  assumes "pool_wf (tm_pool t)" and "pool_view (tm_pool t) e = Some 2"
  shows "te_end (timer_entry t e) = tm_now t \<Longrightarrow>
      \<exists>pool. prs_timer_queue_internal (t, c) e =
        (t\<lparr>tm_pool := pool\<rparr>, c @ [EventSignal (te_event (timer_entry t e)) (te_event_type (timer_entry t e))])
      \<and> pool_wf pool \<and> pool_view pool e = Some 1 \<and> timer_entry (t\<lparr>tm_pool := pool\<rparr>) = timer_entry t"
    and "te_end (timer_entry t e) - tm_now t = v \<Longrightarrow> v \<noteq> 0 \<Longrightarrow>
      prs_timer_queue_internal (t, c) e =
        (timer_put (wheel_of v)
          (unat ((drop_bit (wheel_of v * 8) (te_end (timer_entry t e)) - (if wheel_of v \<noteq> 0 then 1 else 0)) AND 255)) e t, c)"
proof -
  assume now: "te_end (timer_entry t e) = tm_now t"
  from unlock_internal_shared [OF assms, of "()" None] obtain pool where
    p: "prs_pool_unlock_internal (tm_pool t) () e False None = (pool, (), False)" "pool_wf pool"
      "pool_view pool = (pool_view (tm_pool t))(e \<mapsto> 2 - 1)" by auto
  have "timer_entry (t\<lparr>tm_pool := pool\<rparr>) = timer_entry t"
    using timer_entry_unlock [of None t "()" e False] p(1) by simp
  with now p show "\<exists>pool. prs_timer_queue_internal (t, c) e =
        (t\<lparr>tm_pool := pool\<rparr>, c @ [EventSignal (te_event (timer_entry t e)) (te_event_type (timer_entry t e))])
      \<and> pool_wf pool \<and> pool_view pool e = Some 1 \<and> timer_entry (t\<lparr>tm_pool := pool\<rparr>) = timer_entry t"
    by (auto simp: queue_internal_eq pool_unlock_fst Let_def)
next
  assume v: "te_end (timer_entry t e) - tm_now t = v" "v \<noteq> 0"
  then have "te_end (timer_entry t e) \<noteq> tm_now t" by auto
  moreover
  have "prs_pool_try_unlock_final_dest (tm_pool t) c e prs_timer_event_destructor = (tm_pool t, c, False)"
    unfolding prs_pool_try_unlock_final_dest_def by (rule unlock_internal_try_shared [OF assms(2)]) simp
  ultimately show "prs_timer_queue_internal (t, c) e =
        (timer_put (wheel_of v)
          (unat ((drop_bit (wheel_of v * 8) (te_end (timer_entry t e)) - (if wheel_of v \<noteq> 0 then 1 else 0)) AND 255)) e t, c)"
    using v(1) by (simp add: queue_internal_eq Let_def)
qed

section \<open>One tick\<close>

text \<open>A tick of one: each wheel that is looked at gives up one slot. The wide shift of the elapsed time is
  needed for the upper wheels; the hypothesis on it is what the shift instructions of the processor do.\<close>

definition amd64_shift :: "u32 \<Rightarrow> nat \<Rightarrow> u32" where
  "amd64_shift v n = drop_bit (n mod 32) v"

definition slot_at :: "nat \<Rightarrow> nat \<Rightarrow> nat" where
  "slot_at T w = T div 2 ^ (w * 8) mod 256"

lemma take_wheel_one:
  assumes "w < 4" and "tm_now t = word_of_nat T"
  shows "timer_take_wheel amd64_shift 1 w t = timer_take_slot w (slot_at T w) t"
proof -
  have sh: "timer_shift amd64_shift 1 (w * 256) = 1"
    by (cases "w = 0") (simp_all add: timer_shift_def amd64_shift_def mod_mult_right_eq [of w 256 32, symmetric])
  have f: "unat (drop_bit (w * 8) (tm_now t) AND 255) = slot_at T w"
    unfolding assms(2) slot_at_def by (rule unat_slot [OF assms(1)])
  show ?thesis unfolding timer_take_wheel_def Let_def timer_consts by (simp add: sh f)
qed

lemma take_wheels:
  assumes "n \<le> 4" and "tm_now t = word_of_nat T" and "tm_tmp_list t = []"
  shows "fold (timer_take_wheel amd64_shift 1) [0 ..< n] t =
    t\<lparr>tm_tmp_list := concat (map (\<lambda>w. tm_lists t w (slot_at T w)) [0 ..< n]),
      tm_lists := (\<lambda>w s. if w < n \<and> s = slot_at T w then [] else tm_lists t w s)\<rparr>"
  using assms(1)
proof (induction n)
  case 0
  then show ?case using assms(3) by simp
next
  case (Suc n)
  let ?t = "t\<lparr>tm_tmp_list := concat (map (\<lambda>w. tm_lists t w (slot_at T w)) [0 ..< n]),
      tm_lists := (\<lambda>w s. if w < n \<and> s = slot_at T w then [] else tm_lists t w s)\<rparr>"
  have "fold (timer_take_wheel amd64_shift 1) [0 ..< Suc n] t = timer_take_wheel amd64_shift 1 n ?t"
    using Suc by simp
  also have "\<dots> = timer_take_slot n (slot_at T n) ?t"
    by (rule take_wheel_one) (use Suc.prems assms(2) in simp_all)
  also have "\<dots> = t\<lparr>tm_tmp_list := concat (map (\<lambda>w. tm_lists t w (slot_at T w)) [0 ..< Suc n]),
      tm_lists := (\<lambda>w s. if w < Suc n \<and> s = slot_at T w then [] else tm_lists t w s)\<rparr>"
    by (auto simp: timer_take_slot_def fun_eq_iff less_Suc_eq)
  finally show ?case .
qed

text \<open>The state in which the requests of a tick are handled.\<close>

definition tick_lists :: "nat \<Rightarrow> prs_timer \<Rightarrow> u64 list" where
  "tick_lists T t = concat (map (\<lambda>w. tm_lists t w (slot_at T w))
     [0 ..< nat (timer_max_wheel (word_of_nat (T + 1) XOR word_of_nat T))])"

definition tick_left :: "nat \<Rightarrow> prs_timer \<Rightarrow> prs_timer" where
  "tick_left T t = t\<lparr>
     tm_lists := (\<lambda>w s. if w < nat (timer_max_wheel (word_of_nat (T + 1) XOR word_of_nat T)) \<and> s = slot_at T w then []
        else tm_lists t w s),
     tm_tmp_list := []\<rparr>"

definition tick_queue :: "prs_ticks_t \<Rightarrow> timer_state \<Rightarrow> timer_state" where
  "tick_queue now s = fold (\<lambda>f s. prs_timer_queue_internal s f) (tm_queued (fst s)) ((fst s)\<lparr>tm_now := now, tm_queued := []\<rparr>, snd s)"

lemma tick_eq:
  assumes "tm_now t = word_of_nat T" and "tm_tmp_list t = []"
  shows "prs_timer_tick amd64_shift (word_of_nat (T + 1)) (t, c) =
    tick_queue (word_of_nat (T + 1)) (fold (\<lambda>f s. prs_timer_queue_internal s f) (tick_lists T t) (tick_left T t, c))"
proof -
  have one: "word_of_nat (T + 1) - tm_now t = 1" using assms(1) by simp
  have n: "nat (timer_max_wheel (word_of_nat (T + 1) XOR word_of_nat T)) \<le> 4" by (rule wheel_looked_at(2) [of 0]) simp
  note tw = take_wheels [OF n assms]
  show ?thesis
    unfolding prs_timer_tick_def Let_def prod.case one
    unfolding assms(1) tw
    by (simp add: tick_queue_def tick_lists_def tick_left_def split: prod.splits)
qed

lemma tick_lists_count:
  assumes "\<And>w s. count_list (tm_lists t w s) e = (if w = v \<and> s = u then k else 0)" and "v < 4"
  shows "count_list (tick_lists T t) e = (if slot_taken T v u then k else 0)"
proof -
  have cc: "count_list (concat (map g [0 ..< n])) e = (if v < n \<and> slot_at T v = u then k else 0)"
    if "\<And>w. count_list (g w) e = (if w = v \<and> slot_at T w = u then k else 0)" for n and g :: "nat \<Rightarrow> u64 list"
    by (induction n) (auto simp: that less_Suc_eq)
  show ?thesis
    unfolding tick_lists_def slot_taken_def
    using cc [of "\<lambda>w. tm_lists t w (slot_at T w)"] assms(1) wheel_looked_at(1) [OF assms(2), of T]
    by (auto simp: slot_at_def)
qed

lemma tick_left_count:
  assumes "\<And>w s. count_list (tm_lists t w s) e = (if w = v \<and> s = u then k else 0)" and "v < 4"
  shows "count_list (tm_lists (tick_left T t) w s) e = (if w = v \<and> s = u \<and> \<not> slot_taken T v u then k else 0)"
  using assms wheel_looked_at(1) [OF assms(2), of T] by (auto simp: tick_left_def slot_taken_def slot_at_def)

lemma tick_left_frame:
  "tm_pool (tick_left T t) = tm_pool t" "timer_entry (tick_left T t) = timer_entry t" "tm_now (tick_left T t) = tm_now t"
  "tm_queued (tick_left T t) = tm_queued t" "tm_tmp_list (tick_left T t) = []" "foreign e ev t \<Longrightarrow> foreign e ev (tick_left T t)"
  by (auto simp: tick_left_def timer_entry_def foreign_def)

lemma tick_lists_foreign:
  assumes "foreign e ev t" and "f \<in> set (tick_lists T t)" and "f \<noteq> e"
  shows "te_event (timer_entry t f) \<noteq> ev"
  using assms by (auto simp: tick_lists_def foreign_def)

text \<open>A timer between two ticks, an entry that waits in it, and one that has left it.\<close>

definition timer_idle :: "nat \<Rightarrow> u64 \<Rightarrow> ptr \<Rightarrow> prs_timer \<Rightarrow> bool" where
  "timer_idle T e ev t \<longleftrightarrow> pool_wf (tm_pool t) \<and> tm_now t = word_of_nat T \<and> tm_tmp_list t = [] \<and> foreign e ev t"

definition parked :: "nat \<Rightarrow> u64 \<Rightarrow> prs_timer_entry \<Rightarrow> nat \<Rightarrow> nat \<Rightarrow> prs_timer \<Rightarrow> bool" where
  "parked T e d w sl t \<longleftrightarrow> timer_idle T e (te_event d) t \<and> tm_queued t = [] \<and> pool_view (tm_pool t) e = Some 2
     \<and> timer_entry t e = d \<and> w < 4 \<and> (\<forall>v s. count_list (tm_lists t v s) e = (if v = w \<and> s = sl then 1 else 0))"

text \<open>An entry that waits is in the slot of its end, and that slot is taken when the end is near.\<close>

definition waiting :: "nat \<Rightarrow> nat \<Rightarrow> u64 \<Rightarrow> prs_timer_entry \<Rightarrow> nat \<Rightarrow> prs_timer \<Rightarrow> bool" where
  "waiting T E e d w t \<longleftrightarrow> parked T e d w (slot_of E w) t \<and> te_end d = word_of_nat E \<and> place T E w"

definition gone :: "nat \<Rightarrow> u64 \<Rightarrow> ptr \<Rightarrow> prs_timer \<Rightarrow> bool" where
  "gone T e ev t \<longleftrightarrow> timer_idle T e ev t \<and> tm_queued t = [] \<and> (\<forall>v s. count_list (tm_lists t v s) e = 0)"

lemma count_list_one:
  assumes "count_list xs e = 1"
  obtains as bs where "xs = as @ e # bs" "e \<notin> set as" "e \<notin> set bs"
proof -
  have "e \<in> set xs" using assms by (metis count_notin zero_neq_one)
  then obtain as bs where x: "xs = as @ e # bs" "e \<notin> set as" by (meson split_list_first)
  then have "count_list bs e = 0" using assms by (simp add: count_notin)
  then have "e \<notin> set bs" by (simp add: count_list_0_iff)
  with x show thesis by (rule that)
qed

lemma tick_queue_empty:
  assumes "tm_queued t = []"
  shows "tick_queue now (t, c) = (t\<lparr>tm_now := now\<rparr>, c)"
  using assms by (simp add: tick_queue_def)

text \<open>The requests of a tick when the entry is not among them.\<close>

lemma tick_others:
  assumes "timer_idle T e ev t" and "e \<notin> set (tick_lists T t)"
  shows "timer_frame e ev (tick_left T t, c) (fold (\<lambda>f s. prs_timer_queue_internal s f) (tick_lists T t) (tick_left T t, c))"
proof (rule queue_fold_others)
  show "pool_wf (tm_pool (fst (tick_left T t, c)))" using assms(1) by (simp add: timer_idle_def tick_left_frame)
  show "\<forall>f \<in> set (tick_lists T t). f \<noteq> e \<and> te_event (timer_entry (fst (tick_left T t, c)) f) \<noteq> ev"
    using assms tick_lists_foreign [of e ev t] by (auto simp: timer_idle_def tick_left_frame)
qed

lemma tick_frame_idle:
  assumes "timer_idle T e ev t" and "timer_frame e ev (tick_left T t, c) (t', c')" and "tm_queued t = []"
  shows "timer_idle (T + 1) e ev (t'\<lparr>tm_now := word_of_nat (T + 1)\<rparr>)" and "tm_queued t' = []"
  using assms tick_left_frame(6) [of e ev t T]
  by (auto simp: timer_frame_def timer_idle_def tick_left_frame foreign_def timer_entry_def)

lemma tick_gone:
  assumes "gone T e ev t"
  shows "case prs_timer_tick amd64_shift (word_of_nat (T + 1)) (t, c) of
    (t', c') \<Rightarrow> gone (T + 1) e ev t' \<and> ev_calls ev c' = ev_calls ev c"
proof -
  have i: "timer_idle T e ev t" "tm_queued t = []" "\<And>v s. count_list (tm_lists t v s) e = 0" using assms by (simp_all add: gone_def)
  then have now: "tm_now t = word_of_nat T" "tm_tmp_list t = []" by (simp_all add: timer_idle_def)
  have "count_list (tick_lists T t) e = 0" using tick_lists_count [of t e 0 0 0 T] i(3) by simp
  then have n: "e \<notin> set (tick_lists T t)" by (simp add: count_list_0_iff)
  obtain t' c' where f: "fold (\<lambda>f s. prs_timer_queue_internal s f) (tick_lists T t) (tick_left T t, c) = (t', c')" by fastforce
  note fr = tick_others [OF i(1) n, of c, unfolded f]
  note id = tick_frame_idle [OF i(1) fr i(2)]
  have "count_list (tm_lists t' v s) e = 0" for v s
    using fr tick_left_count [of t e 0 0 0 T v s] i(3) by (simp add: timer_frame_def)
  moreover have "ev_calls ev c' = ev_calls ev c" using fr by (simp add: timer_frame_def)
  ultimately show ?thesis using id unfolding tick_eq [OF now] f by (simp add: tick_queue_empty gone_def)
qed

lemma tick_not_taken:
  assumes "parked T e d w sl t" and "\<not> slot_taken T w sl"
  shows "case prs_timer_tick amd64_shift (word_of_nat (T + 1)) (t, c) of
    (t', c') \<Rightarrow> parked (T + 1) e d w sl t' \<and> ev_calls (te_event d) c' = ev_calls (te_event d) c"
proof -
  have i: "timer_idle T e (te_event d) t" "tm_queued t = []" "pool_view (tm_pool t) e = Some 2" "timer_entry t e = d"
    "w < 4" "\<And>v s. count_list (tm_lists t v s) e = (if v = w \<and> s = sl then 1 else 0)"
    using assms(1) by (simp_all add: parked_def)
  then have now: "tm_now t = word_of_nat T" "tm_tmp_list t = []" by (simp_all add: timer_idle_def)
  have "count_list (tick_lists T t) e = 0" using tick_lists_count [OF i(6,5), of T] assms(2) by simp
  then have n: "e \<notin> set (tick_lists T t)" by (simp add: count_list_0_iff)
  obtain t' c' where f: "fold (\<lambda>f s. prs_timer_queue_internal s f) (tick_lists T t) (tick_left T t, c) = (t', c')" by fastforce
  note fr = tick_others [OF i(1) n, of c, unfolded f]
  note id = tick_frame_idle [OF i(1) fr i(2)]
  have "count_list (tm_lists t' v s) e = (if v = w \<and> s = sl then 1 else 0)" for v s
    using fr tick_left_count [OF i(6,5), of T v s] assms(2) by (simp add: timer_frame_def)
  moreover have "pool_view (tm_pool t') e = Some 2" "timer_entry t' e = d" "ev_calls (te_event d) c' = ev_calls (te_event d) c"
    using fr i(3,4) by (simp_all add: timer_frame_def tick_left_frame)
  moreover have "timer_entry (t'\<lparr>tm_now := word_of_nat (T + 1)\<rparr>) e = timer_entry t' e" by (simp add: timer_entry_def)
  ultimately show ?thesis
    using id i(5) unfolding tick_eq [OF now] f by (simp add: tick_queue_empty parked_def)
qed

lemma tick_not_due:
  assumes "waiting T E e d w t" and "T \<noteq> due E w"
  shows "case prs_timer_tick amd64_shift (word_of_nat (T + 1)) (t, c) of
    (t', c') \<Rightarrow> waiting (T + 1) E e d w t' \<and> ev_calls (te_event d) c' = ev_calls (te_event d) c"
proof -
  have "parked T e d w (slot_of E w) t" and p: "place T E w" and en: "te_end d = word_of_nat E"
    using assms(1) by (simp_all add: waiting_def)
  moreover have "\<not> slot_taken T w (slot_of E w)" using slot_taken_iff [OF p] assms(2) by simp
  ultimately show ?thesis
    using tick_not_taken [of T e d w "slot_of E w" t c] place_later [OF p assms(2)] by (simp add: waiting_def split: prod.splits)
qed

text \<open>The request of the entry among those of a list: the ones before and after it leave it alone.\<close>

lemma queue_fold_split:
  assumes "timer_idle T e (te_event (timer_entry t e)) t" and "xs = as @ e # bs" and "e \<notin> set as" and "e \<notin> set bs"
    and "\<And>f. f \<in> set xs \<Longrightarrow> f \<noteq> e \<Longrightarrow> te_event (timer_entry t f) \<noteq> te_event (timer_entry t e)"
    and "\<And>t1 c1. timer_frame e (te_event (timer_entry t e)) (t, c) (t1, c1) \<Longrightarrow>
      pool_wf (tm_pool (fst (prs_timer_queue_internal (t1, c1) e)))
      \<and> timer_entry (fst (prs_timer_queue_internal (t1, c1) e)) = timer_entry t"
  obtains t1 c1 t' c' where "timer_frame e (te_event (timer_entry t e)) (t, c) (t1, c1)"
    and "fold (\<lambda>f s. prs_timer_queue_internal s f) xs (t, c) = (t', c')"
    and "timer_frame e (te_event (timer_entry t e)) (prs_timer_queue_internal (t1, c1) e) (t', c')"
proof -
  let ?ev = "te_event (timer_entry t e)" and ?fold = "fold (\<lambda>f s. prs_timer_queue_internal s f)"
  have f1: "timer_frame e ?ev (t, c) (?fold as (t, c))"
    by (rule queue_fold_others) (use assms(1,2,3,5) in \<open>auto simp: timer_idle_def\<close>)
  obtain t1 c1 where s1: "?fold as (t, c) = (t1, c1)" by fastforce
  obtain t' c' where s': "?fold bs (prs_timer_queue_internal (t1, c1) e) = (t', c')" by fastforce
  have "timer_frame e ?ev (prs_timer_queue_internal (t1, c1) e) (?fold bs (prs_timer_queue_internal (t1, c1) e))"
    by (rule queue_fold_others) (use assms(2,4,5) assms(6) [OF f1 [unfolded s1]] in auto)
  then show thesis using f1 s1 s' assms(2) by (intro that [of t1 c1 t' c']) simp_all
qed

lemma word_delay:
  assumes "T \<le> E" and "E - T < 2 ^ 32"
  shows "unat (word_of_nat E - word_of_nat T :: u32) = E - T"
proof -
  have "(word_of_nat E - word_of_nat T :: u32) = word_of_nat (E - T)" using assms(1) by (simp add: of_nat_diff)
  then show ?thesis using assms(2) by (simp only: unat_tick) simp
qed

lemma put_slot:
  assumes "w < 4"
  shows "unat ((drop_bit (w * 8) (word_of_nat E :: u32) - (if w \<noteq> 0 then 1 else 0)) AND 255) = slot_of E w"
  using unat_slot [OF assms, of E] unat_slot_before [OF assms, of E] by (cases "w = 0") (simp_all add: slot_of_def)

text \<open>The request of an entry whose end is in the future.\<close>

lemma queue_internal_put:
  assumes "pool_wf (tm_pool t)" and "pool_view (tm_pool t) e = Some 2" and "te_end (timer_entry t e) = word_of_nat E"
    and "tm_now t = word_of_nat T" and "T < E" and "E - T < 2 ^ 32"
  obtains w where "prs_timer_queue_internal (t, c) e = (timer_put w (slot_of E w) e t, c)"
    "w < 4" "2 ^ (w * 8) \<le> E - T" "E - T < 2 ^ (w * 8 + 8)"
proof -
  let ?v = "word_of_nat E - word_of_nat T :: u32"
  have u: "unat ?v = E - T" using assms(5,6) by (intro word_delay) simp_all
  then have v: "?v \<noteq> 0" using assms(5) by (auto simp: word_eq_iff_unat)
  note b = wheel_of_bounds [OF v, unfolded u]
  have "te_end (timer_entry t e) - tm_now t = ?v" using assms(3,4) by simp
  from queue_internal_self(2) [OF assms(1,2) this v, of c] b show thesis
    unfolding assms(3) put_slot [OF b(1)] by (intro that)
qed

lemma timer_put_frame:
  "tm_pool (timer_put w s e t) = tm_pool t" "timer_entry (timer_put w s e t) = timer_entry t" "tm_now (timer_put w s e t) = tm_now t"
  "tm_tmp_list (timer_put w s e t) = tm_tmp_list t" "tm_queued (timer_put w s e t) = tm_queued t"
  "foreign e ev t \<Longrightarrow> foreign e ev (timer_put w s e t)"
  "count_list (tm_lists (timer_put w s e t) v u) e = count_list (tm_lists t v u) e + (if v = w \<and> u = s then 1 else 0)"
  by (auto simp: timer_put_def timer_entry_def foreign_def)

lemma tick_due:
  assumes "waiting T E e d w t" and "T = due E w"
    and "\<forall>t1 c1. pool_wf (tm_pool t1) \<and> pool_view (tm_pool t1) e = Some 2 \<and> timer_entry t1 e = d \<and> tm_now t1 = word_of_nat T
      \<longrightarrow> pool_wf (tm_pool (fst (prs_timer_queue_internal (t1, c1) e)))
        \<and> timer_entry (fst (prs_timer_queue_internal (t1, c1) e)) = timer_entry t1"
  obtains t1 c1 t' c' where "timer_idle T e (te_event d) t1" "pool_view (tm_pool t1) e = Some 2" "timer_entry t1 e = d"
    "tm_queued t1 = []" "\<forall>v s. count_list (tm_lists t1 v s) e = 0" "ev_calls (te_event d) c1 = ev_calls (te_event d) c"
    "timer_frame e (te_event d) (prs_timer_queue_internal (t1, c1) e) (t', c')"
    "prs_timer_tick amd64_shift (word_of_nat (T + 1)) (t, c) = tick_queue (word_of_nat (T + 1)) (t', c')"
proof -
  have i: "timer_idle T e (te_event d) t" "tm_queued t = []" "pool_view (tm_pool t) e = Some 2" "timer_entry t e = d"
    "place T E w" "\<And>v s. count_list (tm_lists t v s) e = (if v = w \<and> s = slot_of E w then 1 else 0)"
    using assms(1) by (simp_all add: waiting_def parked_def)
  then have now: "tm_now t = word_of_nat T" "tm_tmp_list t = []" and w: "w < 4" by (simp_all add: timer_idle_def place_def)
  have tk: "slot_taken T w (slot_of E w)" using slot_taken_iff [OF i(5)] assms(2) by simp
  have "count_list (tick_lists T t) e = 1" using tick_lists_count [OF i(6) w, of T] tk by simp
  then obtain as bs where x: "tick_lists T t = as @ e # bs" "e \<notin> set as" "e \<notin> set bs" by (rule count_list_one)
  let ?t = "tick_left T t"
  have left: "timer_idle T e (te_event (timer_entry ?t e)) ?t" "timer_entry ?t = timer_entry t"
    using i(1,4) tick_left_frame(6) [of e "te_event d" t T] by (simp_all add: timer_idle_def tick_left_frame)
  have frame: "pool_wf (tm_pool t1)" "pool_view (tm_pool t1) e = Some 2" "timer_entry t1 = timer_entry t" "tm_now t1 = word_of_nat T"
    if "timer_frame e (te_event (timer_entry ?t e)) (?t, c) (t1, c1)" for t1 c1
    using that i(3) now by (simp_all add: timer_frame_def tick_left_frame)
  obtain t1 c1 t' c' where f1: "timer_frame e (te_event (timer_entry ?t e)) (?t, c) (t1, c1)"
    and f: "fold (\<lambda>f s. prs_timer_queue_internal s f) (tick_lists T t) (?t, c) = (t', c')"
    and f2: "timer_frame e (te_event (timer_entry ?t e)) (prs_timer_queue_internal (t1, c1) e) (t', c')"
  proof (rule queue_fold_split [OF left(1) x])
    show "te_event (timer_entry ?t f) \<noteq> te_event (timer_entry ?t e)" if "f \<in> set (tick_lists T t)" "f \<noteq> e" for f
      using tick_lists_foreign [of e "te_event d" t f T] i(1,4) left(2) that by (simp add: timer_idle_def)
    show "pool_wf (tm_pool (fst (prs_timer_queue_internal (t1, c1) e)))
      \<and> timer_entry (fst (prs_timer_queue_internal (t1, c1) e)) = timer_entry ?t"
      if "timer_frame e (te_event (timer_entry ?t e)) (?t, c) (t1, c1)" for t1 c1
      using assms(3) frame [OF that] i(4) left(2) by simp
  qed
  show thesis
  proof (rule that [OF _ _ _ _ _ _ f2 [unfolded left(2) i(4)]])
    show "timer_idle T e (te_event d) t1" "timer_entry t1 e = d" "pool_view (tm_pool t1) e = Some 2" "tm_queued t1 = []"
      "ev_calls (te_event d) c1 = ev_calls (te_event d) c"
      using f1 left i(2,4) frame [OF f1] by (simp_all add: timer_frame_def timer_idle_def tick_left_frame)
    show "\<forall>v s. count_list (tm_lists t1 v s) e = 0"
      using f1 tick_left_count [OF i(6) w, of T] tk by (simp add: timer_frame_def)
    show "prs_timer_tick amd64_shift (word_of_nat (T + 1)) (t, c) = tick_queue (word_of_nat (T + 1)) (t', c')"
      unfolding tick_eq [OF now] f ..
  qed
qed

lemma timer_now_frame:
  "timer_entry (t\<lparr>tm_now := now\<rparr>) = timer_entry t" "foreign e ev (t\<lparr>tm_now := now\<rparr>) = foreign e ev t"
  by (simp_all add: timer_entry_def foreign_def fun_eq_iff)

text \<open>In an upper wheel the entry is put into the slot of what remains.\<close>

lemma tick_due_again:
  assumes "waiting T E e d w t" and "T = due E w" and "0 < w"
  shows "case prs_timer_tick amd64_shift (word_of_nat (T + 1)) (t, c) of
    (t', c') \<Rightarrow> (\<exists>w'. parked (T + 1) e d w' (slot_of E w') t' \<and> 2 ^ (w' * 8) \<le> E - T \<and> E - T < 2 ^ (w' * 8 + 8))
      \<and> ev_calls (te_event d) c' = ev_calls (te_event d) c"
proof -
  have i: "te_end d = word_of_nat E" "place T E w" using assms(1) by (simp_all add: waiting_def)
  then have w: "w < 4" and B: "2 ^ (w * 8) \<le> E" using assms(3) by (simp_all add: place_def)
  have lt: "T < E" using due_block(3) [OF assms(3) B] assms(2) by simp
  have "E mod 2 ^ (w * 8) < 2 ^ (w * 8)" by simp
  then have "E - T \<le> 2 ^ (w * 8)"
    using due_block(4) [OF assms(3) B] assms(2) div_mult_mod_eq [of E "2 ^ (w * 8)"] by linarith
  moreover have "(2 :: nat) ^ (w * 8) < 2 ^ 32" using w by (intro power_strict_increasing) simp_all
  ultimately have small: "E - T < 2 ^ 32" by (rule le_less_trans)
  have self: "\<exists>w'. prs_timer_queue_internal (t1, c1) e = (timer_put w' (slot_of E w') e t1, c1)
      \<and> w' < 4 \<and> 2 ^ (w' * 8) \<le> E - T \<and> E - T < 2 ^ (w' * 8 + 8)"
    if g: "pool_wf (tm_pool t1)" "pool_view (tm_pool t1) e = Some 2" "timer_entry t1 e = d" "tm_now t1 = word_of_nat T" for t1 c1
    by (rule queue_internal_put [OF g(1,2) _ g(4) lt small, of c1])
      (use g(3) i(1) in \<open>simp, blast\<close>)
  have keep: "\<forall>t1 c1. pool_wf (tm_pool t1) \<and> pool_view (tm_pool t1) e = Some 2 \<and> timer_entry t1 e = d \<and> tm_now t1 = word_of_nat T
      \<longrightarrow> pool_wf (tm_pool (fst (prs_timer_queue_internal (t1, c1) e)))
        \<and> timer_entry (fst (prs_timer_queue_internal (t1, c1) e)) = timer_entry t1"
  proof (intro allI impI, elim conjE)
    fix t1 c1 assume g: "pool_wf (tm_pool t1)" "pool_view (tm_pool t1) e = Some 2" "timer_entry t1 e = d" "tm_now t1 = word_of_nat T"
    show "pool_wf (tm_pool (fst (prs_timer_queue_internal (t1, c1) e)))
        \<and> timer_entry (fst (prs_timer_queue_internal (t1, c1) e)) = timer_entry t1"
      using self [OF g, of c1] g(1) by (auto simp: timer_put_frame)
  qed
  obtain t1 c1 t' c' where t: "timer_idle T e (te_event d) t1" "pool_view (tm_pool t1) e = Some 2" "timer_entry t1 e = d"
    "tm_queued t1 = []" "\<forall>v s. count_list (tm_lists t1 v s) e = 0" "ev_calls (te_event d) c1 = ev_calls (te_event d) c"
    and f: "timer_frame e (te_event d) (prs_timer_queue_internal (t1, c1) e) (t', c')"
    and tick: "prs_timer_tick amd64_shift (word_of_nat (T + 1)) (t, c) = tick_queue (word_of_nat (T + 1)) (t', c')"
    by (rule tick_due [OF assms(1,2) keep, of c])
  from self [of t1 c1] t obtain w' where q: "prs_timer_queue_internal (t1, c1) e = (timer_put w' (slot_of E w') e t1, c1)"
    "w' < 4" "2 ^ (w' * 8) \<le> E - T" "E - T < 2 ^ (w' * 8 + 8)" by (auto simp: timer_idle_def)
  have "foreign e (te_event d) t'" using f q(1) t(1) timer_put_frame(6) [of e "te_event d"] by (simp add: timer_frame_def timer_idle_def)
  then have "parked (T + 1) e d w' (slot_of E w') (t'\<lparr>tm_now := word_of_nat (T + 1)\<rparr>) \<and> ev_calls (te_event d) c' = ev_calls (te_event d) c"
    using f q(1,2) t by (simp add: parked_def timer_idle_def timer_frame_def timer_put_frame timer_now_frame)
  moreover have "tm_queued t' = []" using f q(1) t(4) by (simp add: timer_frame_def timer_put_frame)
  ultimately show ?thesis using q(3,4) unfolding tick by (auto simp: tick_queue_empty)
qed

text \<open>That is a lower wheel, except when the end is the last tick of a block.\<close>

lemma tick_due_upper:
  assumes "waiting T E e d w t" and "T = due E w" and "0 < w" and "E mod 256 \<noteq> 255"
  shows "case prs_timer_tick amd64_shift (word_of_nat (T + 1)) (t, c) of
    (t', c') \<Rightarrow> (\<exists>w'. waiting (T + 1) E e d w' t') \<and> ev_calls (te_event d) c' = ev_calls (te_event d) c"
proof -
  have i: "te_end d = word_of_nat E" "place T E w" using assms(1) by (simp_all add: waiting_def)
  then have "2 ^ (w * 8) \<le> E" using assms(3) by (simp add: place_def)
  then have lt: "T < E" using due_block(3) [OF assms(3)] assms(2) by simp
  have "place (T + 1) E w'" if "parked (T + 1) e d w' (slot_of E w') t'" "2 ^ (w' * 8) \<le> E - T" "E - T < 2 ^ (w' * 8 + 8)" for w' t'
    using place_requeued [OF lt that(2,3) _ assms(4)] that(1) by (simp add: parked_def)
  then show ?thesis using tick_due_again [OF assms(1-3), of c] i(1) by (auto simp: waiting_def split: prod.splits)
qed

text \<open>In the lowest wheel the event is signaled.\<close>

lemma tick_due_fires:
  assumes "waiting T E e d 0 t" and "T = E"
  shows "case prs_timer_tick amd64_shift (word_of_nat (T + 1)) (t, c) of
    (t', c') \<Rightarrow> gone (T + 1) e (te_event d) t'
      \<and> ev_calls (te_event d) c' = ev_calls (te_event d) c @ [EventSignal (te_event d) (te_event_type d)]"
proof -
  have i: "te_end d = word_of_nat E" using assms(1) by (simp add: waiting_def)
  have du: "T = due E 0" using assms(2) by (simp add: due_def)
  have self: "\<exists>pool. prs_timer_queue_internal (t1, c1) e = (t1\<lparr>tm_pool := pool\<rparr>, c1 @ [EventSignal (te_event d) (te_event_type d)])
      \<and> pool_wf pool \<and> pool_view pool e = Some 1 \<and> timer_entry (t1\<lparr>tm_pool := pool\<rparr>) = timer_entry t1"
    if "pool_wf (tm_pool t1)" "pool_view (tm_pool t1) e = Some 2" "timer_entry t1 e = d" "tm_now t1 = word_of_nat T" for t1 c1
    using queue_internal_self(1) [OF that(1,2), of c1] that(3,4) i assms(2) by simp
  have keep: "\<forall>t1 c1. pool_wf (tm_pool t1) \<and> pool_view (tm_pool t1) e = Some 2 \<and> timer_entry t1 e = d \<and> tm_now t1 = word_of_nat T
      \<longrightarrow> pool_wf (tm_pool (fst (prs_timer_queue_internal (t1, c1) e)))
        \<and> timer_entry (fst (prs_timer_queue_internal (t1, c1) e)) = timer_entry t1"
  proof (intro allI impI, elim conjE)
    fix t1 c1 assume g: "pool_wf (tm_pool t1)" "pool_view (tm_pool t1) e = Some 2" "timer_entry t1 e = d" "tm_now t1 = word_of_nat T"
    show "pool_wf (tm_pool (fst (prs_timer_queue_internal (t1, c1) e)))
        \<and> timer_entry (fst (prs_timer_queue_internal (t1, c1) e)) = timer_entry t1"
      using self [OF g, of c1] g(1) by (auto simp: timer_put_frame)
  qed
  obtain t1 c1 t' c' where t: "timer_idle T e (te_event d) t1" "pool_view (tm_pool t1) e = Some 2" "timer_entry t1 e = d"
    "tm_queued t1 = []" "\<forall>v s. count_list (tm_lists t1 v s) e = 0" "ev_calls (te_event d) c1 = ev_calls (te_event d) c"
    and f: "timer_frame e (te_event d) (prs_timer_queue_internal (t1, c1) e) (t', c')"
    and tick: "prs_timer_tick amd64_shift (word_of_nat (T + 1)) (t, c) = tick_queue (word_of_nat (T + 1)) (t', c')"
    by (rule tick_due [OF assms(1) du keep, of c])
  from self [of t1 c1] t obtain pool where q: "prs_timer_queue_internal (t1, c1) e = (t1\<lparr>tm_pool := pool\<rparr>, c1 @ [EventSignal (te_event d) (te_event_type d)])"
    "pool_wf pool" "timer_entry (t1\<lparr>tm_pool := pool\<rparr>) = timer_entry t1" by (auto simp: timer_idle_def)
  have "foreign e (te_event d) (t1\<lparr>tm_pool := pool\<rparr>)" using t(1) q(3) by (simp add: timer_idle_def foreign_def)
  then have "gone (T + 1) e (te_event d) (t'\<lparr>tm_now := word_of_nat (T + 1)\<rparr>)
      \<and> ev_calls (te_event d) c' = ev_calls (te_event d) c @ [EventSignal (te_event d) (te_event_type d)]"
    using f q t by (simp add: gone_def timer_idle_def timer_frame_def timer_now_frame) (simp add: ev_calls_def)
  moreover have "tm_queued t' = []" using f q(1) t(4) by (simp add: timer_frame_def)
  ultimately show ?thesis unfolding tick by (auto simp: tick_queue_empty)
qed

section \<open>Requests\<close>

lemma pool_header_data: "pe_data (pool_entries (pool_set_header pool k h) ! i) = pe_data (pool_entries pool ! i)"
  by (cases "k < length (pool_entries pool)") (simp_all add: pool_set_header_def nth_list_update list_update_beyond not_less)

lemma pool_ops_data:
  "pe_data (pool_entries (prs_pool_lock_first pool e) ! i) = pe_data (pool_entries pool ! i)"
  "prs_pool_get_entry (prs_pool_lock_first pool e) f = prs_pool_get_entry pool f"
  "pe_data (pool_entries (fst (prs_pool_lock pool e)) ! i) = pe_data (pool_entries pool ! i)"
  "prs_pool_get_entry (fst (prs_pool_lock pool e)) f = prs_pool_get_entry pool f"
  "pe_data (pool_entries (pool_alloc_at pool e) ! i) = pe_data (pool_entries pool ! i)"
  "prs_pool_get_entry (pool_alloc_at pool e) f = prs_pool_get_entry pool f"
  by (auto simp: prs_pool_lock_first_def prs_pool_lock_def pool_alloc_at_def pool_header_data prs_pool_get_entry_def
      Let_def split: prod.splits)

text \<open>A new request has a fresh ID with two references, and no other entry changes.\<close>

lemma timer_queue_ok:
  assumes "pool_wf (tm_pool t)" and "pool_ids_left (tm_pool t)"
    and "prs_timer_queue t clock ev ty timeout = Some (t', e)"
  obtains pool where "t' = t\<lparr>tm_pool := pool, tm_queued := tm_queued t @ [e]\<rparr>" "pool_wf pool"
    "pool_view (tm_pool t) e = None" "pool_view pool e = Some 2"
    "timer_entry t' e = \<lparr>te_start = clock, te_end = clock + timeout, te_event = ev, te_event_type = ty\<rparr>"
    "\<forall>f. pool_view (tm_pool t) f \<noteq> None \<longrightarrow> timer_entry t' f = timer_entry t f"
  using assms(1,2)
proof (cases rule: prs_pool_alloc_cases)
  case full
  then show thesis using assms(3) by (simp add: prs_timer_queue_def)
next
  case (found j)
  let ?d = "\<lparr>te_start = clock, te_end = clock + timeout, te_event = ev, te_event_type = ty\<rparr>"
  let ?p1 = "pool_alloc_at (tm_pool t) j"
  let ?i = "prs_pool_get_entry (tm_pool t) j"
  let ?p2 = "pool_set_data ?p1 ?i ?d"
  let ?p3 = "prs_pool_lock_first ?p2 j"
  have wi: "unat (pool_write_index (tm_pool t)) \<le> unat j" using found(1) by (simp add: word_le_nat_alt)
  note a = pool_alloc_at_wf [OF assms(1) wi found(2,3)]
  have j0: "j \<noteq> 0" using wi assms(1) by (auto simp: pool_wf_def)
  have v2: "pool_wf ?p2" "pool_view ?p2 j = Some 0" using a(1,3) by simp_all
  note f = lock_first_live [OF v2 j0]
  have "pool_view ?p3 j = Some 1" using f(2) by simp
  from lock_live [OF f(1) this] obtain p4 where
    l: "fst (prs_pool_lock ?p3 j) = p4" "pool_wf p4" "pool_view p4 = (pool_view ?p3)(j \<mapsto> 1 + 1)" by auto
  have run: "prs_timer_queue t clock ev ty timeout = Some (t\<lparr>tm_pool := p4, tm_queued := tm_queued t @ [j]\<rparr>, j)"
    using found(2,4) l(1) by (auto simp: prs_timer_queue_def pool_ops_data Let_def pool_const_defs unsigned_minus_1_eq_mask
        mask_eq_exp_minus_1 split: prod.splits)
  have e: "e = j" "t' = t\<lparr>tm_pool := p4, tm_queued := tm_queued t @ [j]\<rparr>" using run assms(3) by simp_all
  have i: "?i < length (pool_entries (tm_pool t))" by (rule get_entry_less [OF assms(1)])
  have data: "pe_data (pool_entries p4 ! prs_pool_get_entry p4 f) =
      (if prs_pool_get_entry (tm_pool t) f = ?i then ?d else pe_data (pool_entries (tm_pool t) ! prs_pool_get_entry (tm_pool t) f))" for f
    using i unfolding l(1) [symmetric]
    by (simp add: pool_ops_data) (simp add: pool_set_data_def nth_list_update pool_ops_data pool_alloc_at_def pool_set_header_def)
  show thesis
  proof (rule that [OF e(2) [folded e(1)] l(2)])
    show "pool_view (tm_pool t) e = None" using a(2) e(1) by simp
    show "pool_view p4 e = Some 2" using l(3) e(1) by (simp add: numeral_2_eq_2)
    show "timer_entry t' e = ?d" using data [of j] e by (simp add: timer_entry_def)
    show "\<forall>f. pool_view (tm_pool t) f \<noteq> None \<longrightarrow> timer_entry t' f = timer_entry t f"
    proof (intro allI impI)
      fix f assume "pool_view (tm_pool t) f \<noteq> None"
      then have "prs_pool_get_entry (tm_pool t) f \<noteq> ?i" using found(3) by (auto simp: pool_view_def Let_def split: if_splits)
      then show "timer_entry t' f = timer_entry t f" using data [of f] e(2) by (simp add: timer_entry_def)
    qed
  qed
qed

text \<open>The first tick after the request.\<close>

lemma tick_queued:
  assumes "timer_idle T e (te_event d) t" and "tm_queued t = qs @ [e]" and "\<forall>f \<in> set qs. f \<noteq> e \<and> te_event (timer_entry t f) \<noteq> te_event d"
    and "pool_view (tm_pool t) e = Some 2" and "timer_entry t e = d" and "te_end d = word_of_nat E" and "T < E" and "E \<le> T + 2 ^ 32"
    and "\<forall>v s. count_list (tm_lists t v s) e = 0"
  shows "case prs_timer_tick amd64_shift (word_of_nat (T + 1)) (t, c) of
    (t', c') \<Rightarrow> if E = T + 1
      then gone (T + 1) e (te_event d) t'
        \<and> ev_calls (te_event d) c' = ev_calls (te_event d) c @ [EventSignal (te_event d) (te_event_type d)]
      else (\<exists>w. waiting (T + 1) E e d w t' \<and> 2 ^ (w * 8) \<le> E - (T + 1) \<and> E - (T + 1) < 2 ^ (w * 8 + 8))
        \<and> ev_calls (te_event d) c' = ev_calls (te_event d) c"
proof -
  have now: "tm_now t = word_of_nat T" "tm_tmp_list t = []" using assms(1) by (simp_all add: timer_idle_def)
  have "count_list (tick_lists T t) e = 0" using tick_lists_count [of t e 0 0 0 T] assms(9) by simp
  then have n: "e \<notin> set (tick_lists T t)" by (simp add: count_list_0_iff)
  obtain t1 c1 where f1: "fold (\<lambda>f s. prs_timer_queue_internal s f) (tick_lists T t) (tick_left T t, c) = (t1, c1)" by fastforce
  note fr1 = tick_others [OF assms(1) n, of c, unfolded f1]
  define t2 where "t2 = t1\<lparr>tm_now := word_of_nat (T + 1), tm_queued := []\<rparr>"
  have t2: "pool_wf (tm_pool t2)" "pool_view (tm_pool t2) e = Some 2" "timer_entry t2 = timer_entry t"
    "tm_now t2 = word_of_nat (T + 1)" "tm_tmp_list t2 = []" "tm_queued t2 = []" "\<forall>v s. count_list (tm_lists t2 v s) e = 0"
    "foreign e (te_event d) t2" "tm_queued t1 = qs @ [e]"
    using fr1 assms(1,2,4) tick_left_frame(6) [of e "te_event d" t T] tick_left_count [of t e 0 0 0 T] assms(9)
    by (auto simp: t2_def timer_frame_def timer_idle_def tick_left_frame timer_entry_def foreign_def fun_eq_iff)
  have "timer_frame e (te_event d) (t2, c1) (fold (\<lambda>f s. prs_timer_queue_internal s f) qs (t2, c1))"
    by (rule queue_fold_others) (use t2(1,3) assms(3) in simp_all)
  then obtain t3 c3 where f3: "fold (\<lambda>f s. prs_timer_queue_internal s f) qs (t2, c1) = (t3, c3)"
    and fr3: "timer_frame e (te_event d) (t2, c1) (t3, c3)" by (metis surj_pair)
  have t3: "pool_wf (tm_pool t3)" "pool_view (tm_pool t3) e = Some 2" "timer_entry t3 e = d"
    "tm_now t3 = word_of_nat (T + 1)" "tm_tmp_list t3 = []" "tm_queued t3 = []" "\<forall>v s. count_list (tm_lists t3 v s) e = 0"
    "foreign e (te_event d) t3" "ev_calls (te_event d) c3 = ev_calls (te_event d) c"
    using fr3 fr1 t2 assms(5) by (simp_all add: timer_frame_def)
  have tick: "prs_timer_tick amd64_shift (word_of_nat (T + 1)) (t, c) = prs_timer_queue_internal (t3, c3) e"
    unfolding tick_eq [OF now] f1 tick_queue_def using f3 t2(9) by (simp add: t2_def)
  show ?thesis
  proof (cases "E = T + 1")
    case True
    from queue_internal_self(1) [OF t3(1,2), of c3] t3(3,4) assms(6) True obtain pool where
      q: "prs_timer_queue_internal (t3, c3) e = (t3\<lparr>tm_pool := pool\<rparr>, c3 @ [EventSignal (te_event d) (te_event_type d)])"
        "pool_wf pool" "timer_entry (t3\<lparr>tm_pool := pool\<rparr>) = timer_entry t3" by auto
    have "gone (T + 1) e (te_event d) (t3\<lparr>tm_pool := pool\<rparr>)"
      using q t3 by (simp add: gone_def timer_idle_def foreign_def)
    then show ?thesis using tick q(1) True t3(9) by (simp add: ev_calls_def)
  next
    case False
    then have lt: "T + 1 < E" "E - (T + 1) < 2 ^ 32" using assms(7,8) by linarith+
    have en: "te_end (timer_entry t3 e) = word_of_nat E" using t3(3) assms(6) by simp
    obtain w where q: "prs_timer_queue_internal (t3, c3) e = (timer_put w (slot_of E w) e t3, c3)"
      "w < 4" "2 ^ (w * 8) \<le> E - (T + 1)" "E - (T + 1) < 2 ^ (w * 8 + 8)"
      by (rule queue_internal_put [OF t3(1,2) en t3(4) lt])
    have "waiting (T + 1) E e d w (timer_put w (slot_of E w) e t3)"
      using t3 assms(6) place_of_delay [OF lt(1) q(3,4,2)]
      by (simp add: waiting_def parked_def timer_idle_def timer_put_frame place_def)
    then show ?thesis using tick q(1,3,4) False t3(9) by auto
  qed
qed

section \<open>The ticks of the clock\<close>

text \<open>The clock counts one by one and ticks the timer each time, \<open>n\<close> times from \<open>T\<close>.\<close>

definition timer_run :: "nat \<Rightarrow> nat \<Rightarrow> timer_state \<Rightarrow> timer_state" where
  "timer_run T n s = fold (\<lambda>k. prs_timer_tick amd64_shift (word_of_nat (T + k + 1))) [0 ..< n] s"

lemma timer_run_0 [simp]: "timer_run T 0 s = s"
  by (simp add: timer_run_def)

lemma timer_run_Suc: "timer_run T (Suc n) s = prs_timer_tick amd64_shift (word_of_nat (T + n + 1)) (timer_run T n s)"
  by (simp add: timer_run_def)

lemma timer_run_add: "timer_run T (m + n) s = timer_run (T + m) n (timer_run T m s)"
  by (induction n) (simp_all add: timer_run_Suc add.assoc)

lemma timer_run_first: "timer_run T (Suc n) s = timer_run (T + 1) n (prs_timer_tick amd64_shift (word_of_nat (T + 1)) s)"
  by (induction n) (simp_all add: timer_run_Suc)

text \<open>What holds of a request that ends at \<open>E\<close> when the clock is at \<open>T\<close>, with the calls \<open>c\<close> that preceded it.\<close>

definition on_time :: "nat \<Rightarrow> nat \<Rightarrow> u64 \<Rightarrow> prs_timer_entry \<Rightarrow> timer_call list \<Rightarrow> timer_state \<Rightarrow> bool" where
  "on_time T E e d c s \<longleftrightarrow>
     (if T \<le> E
      then (\<exists>w. waiting T E e d w (fst s) \<and> (E mod 256 \<noteq> 255 \<or> w = 0)) \<and> ev_calls (te_event d) (snd s) = ev_calls (te_event d) c
      else gone T e (te_event d) (fst s)
        \<and> ev_calls (te_event d) (snd s) = ev_calls (te_event d) c @ [EventSignal (te_event d) (te_event_type d)])"

lemma due_le: "due E w \<le> E"
  by (auto simp: due_def intro: order_trans [OF diff_le_self])

lemma tick_on_time:
  assumes "on_time T E e d c s"
  shows "on_time (T + 1) E e d c (prs_timer_tick amd64_shift (word_of_nat (T + 1)) s)"
proof (cases "T \<le> E")
  case False
  then show ?thesis using assms tick_gone [of T e "te_event d" "fst s" "snd s"] by (auto simp: on_time_def split: prod.splits)
next
  case True
  then obtain w where w: "waiting T E e d w (fst s)" "E mod 256 \<noteq> 255 \<or> w = 0"
    and c: "ev_calls (te_event d) (snd s) = ev_calls (te_event d) c"
    using assms by (auto simp: on_time_def)
  have pl: "place T E w" using w(1) by (simp add: waiting_def)
  show ?thesis
  proof (cases "T = due E w")
    case not_due: False
    then have "T + 1 \<le> E" using pl due_le [of E w] by (simp add: place_def)
    then show ?thesis using tick_not_due [OF w(1) not_due, of "snd s"] w(2) c by (auto simp: on_time_def split: prod.splits)
  next
    case now: True
    show ?thesis
    proof (cases "w = 0")
      case True
      then have TE: "T = E" using now by (simp add: due_def)
      from tick_due_fires [OF w(1) [unfolded True] TE, of "snd s"] c TE show ?thesis by (auto simp: on_time_def split: prod.splits)
    next
      case False
      then have up: "0 < w" "E mod 256 \<noteq> 255" and B: "2 ^ (w * 8) \<le> E" using w(2) pl by (simp_all add: place_def)
      have "T + 1 \<le> E" using due_block(3) [OF up(1) B] now by simp
      then show ?thesis using tick_due_upper [OF w(1) now up, of "snd s"] up(2) c by (auto simp: on_time_def split: prod.splits)
    qed
  qed
qed

lemma run_on_time:
  assumes "on_time T E e d c s"
  shows "on_time (T + n) E e d c (timer_run T n s)"
proof (induction n)
  case (Suc n)
  then show ?case using tick_on_time [OF Suc] by (simp add: timer_run_Suc)
qed (simp add: assms)

lemma run_gone:
  assumes "gone T e ev (fst s)"
  shows "gone (T + n) e ev (fst (timer_run T n s)) \<and> ev_calls ev (snd (timer_run T n s)) = ev_calls ev (snd s)"
proof (induction n)
  case (Suc n)
  then show ?case
    using tick_gone [of "T + n" e ev "fst (timer_run T n s)" "snd (timer_run T n s)"] by (simp add: timer_run_Suc split: prod.splits)
qed (simp add: assms)

text \<open>A timer to which requests can be added: its clock is at \<open>T\<close>, and the requests that wait have IDs of the pool
  and other events than \<open>ev\<close>.\<close>

definition timer_ready :: "nat \<Rightarrow> ptr \<Rightarrow> prs_timer \<Rightarrow> bool" where
  "timer_ready T ev t \<longleftrightarrow> pool_wf (tm_pool t) \<and> pool_ids_left (tm_pool t) \<and> tm_now t = word_of_nat T \<and> tm_tmp_list t = []
     \<and> (\<forall>w s. \<forall>f \<in> set (tm_lists t w s). pool_view (tm_pool t) f \<noteq> None \<and> te_event (timer_entry t f) \<noteq> ev)
     \<and> (\<forall>f \<in> set (tm_queued t). pool_view (tm_pool t) f \<noteq> None \<and> te_event (timer_entry t f) \<noteq> ev)"

text \<open>The number of ticks of a timeout: zero stands for a whole round of the clock.\<close>

definition timeout_ticks :: "prs_ticks_t \<Rightarrow> nat" where
  "timeout_ticks timeout = (if timeout = 0 then 2 ^ 32 else unat timeout)"

lemma timeout_ticks_bounds: "0 < timeout_ticks timeout" "timeout_ticks timeout \<le> 2 ^ 32"
  "word_of_nat T + timeout = (word_of_nat (T + timeout_ticks timeout) :: u32)"
proof -
  show "0 < timeout_ticks timeout" using unat_gt_0 [of timeout] by (simp add: timeout_ticks_def)
  show "timeout_ticks timeout \<le> 2 ^ 32" using unsigned_less [of timeout, where ?'a = nat] by (simp add: timeout_ticks_def)
  have "(4294967296 :: u32) = 0" by simp
  then show "word_of_nat T + timeout = (word_of_nat (T + timeout_ticks timeout) :: u32)" by (simp add: timeout_ticks_def)
qed

lemma queued_first_tick:
  assumes "timer_ready T ev t" and "prs_timer_queue t (word_of_nat T) ev ty timeout = Some (t', e)"
  shows "\<exists>d. te_event d = ev \<and> te_event_type d = ty \<and> (let s = prs_timer_tick amd64_shift (word_of_nat (T + 1)) (t', c) in
    if timeout_ticks timeout = 1
    then gone (T + 1) e ev (fst s) \<and> ev_calls ev (snd s) = ev_calls ev c @ [EventSignal ev ty]
    else (\<exists>w. waiting (T + 1) (T + timeout_ticks timeout) e d w (fst s) \<and> 2 ^ (w * 8) < timeout_ticks timeout
        \<and> timeout_ticks timeout \<le> 2 ^ (w * 8 + 8)) \<and> ev_calls ev (snd s) = ev_calls ev c)"
proof -
  define E where "E = T + timeout_ticks timeout"
  define d where "d = \<lparr>te_start = word_of_nat T, te_end = word_of_nat T + timeout, te_event = ev, te_event_type = ty\<rparr>"
  have r: "pool_wf (tm_pool t)" "pool_ids_left (tm_pool t)" "tm_now t = word_of_nat T" "tm_tmp_list t = []"
    "\<And>w s f. f \<in> set (tm_lists t w s) \<Longrightarrow> pool_view (tm_pool t) f \<noteq> None \<and> te_event (timer_entry t f) \<noteq> ev"
    "\<And>f. f \<in> set (tm_queued t) \<Longrightarrow> pool_view (tm_pool t) f \<noteq> None \<and> te_event (timer_entry t f) \<noteq> ev"
    using assms(1) unfolding timer_ready_def by blast+
  obtain pool where q: "t' = t\<lparr>tm_pool := pool, tm_queued := tm_queued t @ [e]\<rparr>" "pool_wf pool"
    "pool_view (tm_pool t) e = None" "pool_view pool e = Some 2" "timer_entry t' e = d"
    "\<forall>f. pool_view (tm_pool t) f \<noteq> None \<longrightarrow> timer_entry t' f = timer_entry t f"
    unfolding d_def by (rule timer_queue_ok [OF r(1,2) assms(2)])
  have d: "te_event d = ev" "te_event_type d = ty" "te_end d = word_of_nat E"
    using timeout_ticks_bounds(3) [of T timeout] by (simp_all add: d_def E_def)
  have others: "f \<noteq> e \<and> te_event (timer_entry t' f) \<noteq> te_event d"
    if "f \<in> set (tm_lists t w s) \<or> f \<in> set (tm_queued t)" for f w s
    using that r(5,6) q(3,6) d(1) by metis
  have idle: "timer_idle T e (te_event d) t'" using others q(1,2) r(3,4) by (auto simp: timer_idle_def foreign_def)
  have cnt: "\<forall>v s. count_list (tm_lists t' v s) e = 0" using others q(1) by (auto simp: count_list_0_iff)
  have qd: "tm_queued t' = tm_queued t @ [e]" "\<forall>f \<in> set (tm_queued t). f \<noteq> e \<and> te_event (timer_entry t' f) \<noteq> te_event d"
    "pool_view (tm_pool t') e = Some 2" using others q(1,4) by auto
  have TE: "T < E" "E \<le> T + 2 ^ 32" using timeout_ticks_bounds(1,2) [of timeout] by (simp_all add: E_def)
  have one: "timeout_ticks timeout = 1 \<longleftrightarrow> E = T + 1" and
    le: "2 ^ (w * 8) \<le> E - (T + 1) \<longleftrightarrow> 2 ^ (w * 8) < timeout_ticks timeout" "E - (T + 1) < 2 ^ (w * 8 + 8) \<longleftrightarrow> timeout_ticks timeout \<le> 2 ^ (w * 8 + 8)" for w
    using timeout_ticks_bounds(1) [of timeout] by (auto simp: E_def)
  show ?thesis
    using tick_queued [OF idle qd q(5) d(3) TE cnt, of c] d(1,2) unfolding one E_def [symmetric]
    by (intro exI [of _ d]) (auto simp: le [unfolded Suc_eq_plus1 [symmetric]] split: prod.splits if_splits)
qed

lemma queued_on_time:
  assumes "timer_ready T ev t" and "prs_timer_queue t (word_of_nat T) ev ty timeout = Some (t', e)"
    and "(T + timeout_ticks timeout) mod 256 \<noteq> 255 \<or> timeout_ticks timeout \<le> 256"
  shows "\<exists>d. te_event d = ev \<and> te_event_type d = ty \<and> (let s = prs_timer_tick amd64_shift (word_of_nat (T + 1)) (t', c) in
    if timeout_ticks timeout = 1
    then gone (T + 1) e ev (fst s) \<and> ev_calls ev (snd s) = ev_calls ev c @ [EventSignal ev ty]
    else on_time (T + 1) (T + timeout_ticks timeout) e d c s)"
proof -
  have low: "w = 0" if "2 ^ (w * 8) < timeout_ticks timeout" "timeout_ticks timeout \<le> 256" for w
  proof -
    have "(2 :: nat) ^ (w * 8) < 2 ^ 8" using that by simp
    from power_less_imp_less_exp [OF _ this] show ?thesis by simp
  qed
  have "T + 1 \<le> T + timeout_ticks timeout" using timeout_ticks_bounds(1) [of timeout] by simp
  then show ?thesis
    using queued_first_tick [OF assms(1,2), of c] low assms(3) by (auto simp: Let_def on_time_def split: if_splits)
qed


text \<open>A timer at tick 1000 with a pool of four entries, and a request of 300 ticks.\<close>

definition timer_example :: prs_timer where
  "timer_example =
     \<lparr>tm_addr = 64, tm_list_addr = (\<lambda>w s. word_of_nat (w * 256 + s)), tm_lists = (\<lambda>_ _. []), tm_tmp_list_addr = 72, tm_tmp_list = [],
      tm_pool = the (fst (prs_pool_create \<lparr>pp_max_entries = 4, pp_data_size = timer_entry_sizeof, pp_area = None\<rparr>
        (replicate 4 \<lparr>pe_header = 0, pe_data = \<lparr>te_start = 0, te_end = 0, te_event = 0, te_event_type = 0\<rparr>\<rparr>) (Some 4096) (Some 8192))),
      tm_queued_addr = 80, tm_queued = [], tm_now = 1000\<rparr>"

lemma timer_example_ready: "timer_ready 1000 96 timer_example"
proof -
  let ?params = "\<lparr>pp_max_entries = 4, pp_data_size = timer_entry_sizeof, pp_area = None\<rparr>"
  let ?init = "replicate 4 \<lparr>pe_header = 0, pe_data = \<lparr>te_start = 0, te_end = 0, te_event = 0, te_event_type = 0\<rparr>\<rparr>"
  obtain pool where "prs_pool_create ?params ?init (Some 4096) (Some 8192) = (Some pool, [])"
      "pool_wf pool" "pool_write_index pool = 1" "pool_max_entries pool = 4"
    using prs_pool_create_fresh [of ?params 2 ?init 4096 8192] by auto
  then show ?thesis by (simp add: timer_ready_def timer_example_def pool_ids_left_def)
qed


section \<open>The last tick of a block\<close>

text \<open>An entry of an upper wheel that ends at the last tick of a block of that wheel goes back into the slot it was taken
  from, which is not looked at for another round of the wheel: the event is not signaled on time.\<close>

lemma slot_not_taken_again:
  assumes "0 < w" and "2 ^ (w * 8) \<le> E" and "due E w < T'" and "T' < due E w + 256 * 2 ^ (w * 8)"
  shows "\<not> slot_taken T' w (slot_of E w)"
proof
  let ?B = "(2 :: nat) ^ (w * 8)" and ?D = "due E w"
  note d = due_block [OF assms(1,2)]
  assume "slot_taken T' w (slot_of E w)"
  then have m: "T' mod ?B = ?B - 1" and s: "(E div ?B + 255) mod 256 = T' div ?B mod 256"
    using assms(1) by (auto simp: slot_taken_def slot_of_def)
  have "E div ?B + 255 = ?D div ?B + 256" using d(2) by linarith
  then have q: "?D div ?B mod 256 = T' div ?B mod 256" using s by (simp only: mod_add_self2)
  have le: "?D div ?B \<le> T' div ?B" using assms(3) by (intro div_le_mono) simp
  have "T' div ?B * ?B < ?D div ?B * ?B + 256 * ?B"
    using assms(4) m d(1) div_mult_mod_eq [of T' ?B] div_mult_mod_eq [of ?D ?B] by linarith
  then have "T' div ?B * ?B < (?D div ?B + 256) * ?B" by (simp only: add_mult_distrib)
  then have "T' div ?B < ?D div ?B + 256" by simp
  then have "?D div ?B = T' div ?B" by (intro mod_256_window [OF q le]) simp
  then have "?D = T'" using d(1) m div_mult_mod_eq [of T' ?B] div_mult_mod_eq [of ?D ?B] by metis
  then show False using assms(3) by simp
qed

lemma wheel_unique:
  assumes "2 ^ (w' * 8) \<le> (2 :: nat) ^ (w * 8)" and "(2 :: nat) ^ (w * 8) < 2 ^ (w' * 8 + 8)"
  shows "w' = w"
  using assms by (auto simp: power_increasing_iff power_strict_increasing_iff)

lemma run_until_due:
  assumes "waiting T E e d w (fst s)" and "T + n \<le> due E w"
  shows "waiting (T + n) E e d w (fst (timer_run T n s)) \<and> ev_calls (te_event d) (snd (timer_run T n s)) = ev_calls (te_event d) (snd s)"
  using assms(2)
proof (induction n)
  case (Suc n)
  then have "T + n \<noteq> due E w" by simp
  from tick_not_due [OF _ this, of e d "fst (timer_run T n s)" "snd (timer_run T n s)"] Suc show ?case
    by (simp add: timer_run_Suc split: prod.splits)
qed (use assms(1) in simp)

lemma timer_missed_block:
  assumes "waiting T E e d w t" and "T = due E w" and "0 < w" and "E mod 2 ^ (w * 8) = 2 ^ (w * 8) - 1"
    and "n \<le> 256 * 2 ^ (w * 8)"
  shows "ev_calls (te_event d) (snd (timer_run T n (t, c))) = ev_calls (te_event d) c"
proof (cases n)
  case (Suc m)
  let ?B = "(2 :: nat) ^ (w * 8)" and ?s = "prs_timer_tick amd64_shift (word_of_nat (T + 1)) (t, c)"
  have B: "?B \<le> E" using assms(1,3) by (simp add: waiting_def place_def)
  have "E - T = ?B"
    using due_block(4) [OF assms(3) B] assms(2,4) div_mult_mod_eq [of E ?B] by (cases ?B) simp_all
  then obtain w' where w': "parked (T + 1) e d w' (slot_of E w') (fst ?s)" "2 ^ (w' * 8) \<le> ?B" "?B < 2 ^ (w' * 8 + 8)"
      "ev_calls (te_event d) (snd ?s) = ev_calls (te_event d) c"
    using tick_due_again [OF assms(1-3), of c] by (auto simp del: power_increasing_iff power_strict_increasing_iff split: prod.splits)
  then have s: "parked (T + 1) e d w (slot_of E w) (fst ?s)" "ev_calls (te_event d) (snd ?s) = ev_calls (te_event d) c"
    using wheel_unique [OF w'(2,3)] by simp_all
  have "parked (T + 1 + k) e d w (slot_of E w) (fst (timer_run (T + 1) k ?s))
      \<and> ev_calls (te_event d) (snd (timer_run (T + 1) k ?s)) = ev_calls (te_event d) c" if "k < 256 * ?B" for k
    using that
  proof (induction k)
    case (Suc k)
    have "\<not> slot_taken (T + 1 + k) w (slot_of E w)"
      using Suc.prems assms(2) by (intro slot_not_taken_again [OF assms(3) B]) simp_all
    then show ?case
      using Suc tick_not_taken [of "T + 1 + k" e d w "slot_of E w" "fst (timer_run (T + 1) k ?s)" "snd (timer_run (T + 1) k ?s)"]
      by (simp add: timer_run_Suc split: prod.splits)
  qed (use s in simp)
  then show ?thesis using assms(5) unfolding Suc timer_run_first by simp
qed simp

text \<open>A request that goes to the upper wheel \<open>w\<close> and ends at the last tick of a block of that wheel is missed: its event
  is not signaled at its end, nor at any of the next \<open>255 * 2 ^ (8 * w)\<close> ticks.\<close>

theorem timer_misses_block_end:
  assumes "timer_ready T ev t" and "prs_timer_queue t (word_of_nat T) ev ty timeout = Some (t', e)"
    and "0 < w" and "2 ^ (w * 8) < timeout_ticks timeout" and "timeout_ticks timeout \<le> 2 ^ (w * 8 + 8)"
    and "(T + timeout_ticks timeout) mod 2 ^ (w * 8) = 2 ^ (w * 8) - 1" and "n \<le> timeout_ticks timeout + 255 * 2 ^ (w * 8)"
  shows "ev_calls ev (snd (timer_run T n (t', c))) = ev_calls ev c"
proof (cases n)
  case (Suc m)
  let ?s = "prs_timer_tick amd64_shift (word_of_nat (T + 1)) (t', c)" and ?E = "T + timeout_ticks timeout" and ?B = "(2 :: nat) ^ (w * 8)"
  have "timeout_ticks timeout \<noteq> 1" using assms(4) by auto
  then obtain d v where d: "te_event d = ev" and wt: "waiting (T + 1) ?E e d v (fst ?s)" "2 ^ (v * 8) < timeout_ticks timeout"
      "timeout_ticks timeout \<le> 2 ^ (v * 8 + 8)" and c: "ev_calls ev (snd ?s) = ev_calls ev c"
    using queued_first_tick [OF assms(1,2), of c] unfolding Let_def by auto
  have "(2 :: nat) ^ (v * 8) < 2 ^ (w * 8 + 8)" "(2 :: nat) ^ (w * 8) < 2 ^ (v * 8 + 8)"
    using wt(2,3) assms(4,5) by linarith+
  from this [THEN power_less_imp_less_exp [rotated]] have "v = w" by simp
  with wt have w: "waiting (T + 1) ?E e d w (fst ?s)" by simp
  have B: "?B \<le> ?E" "T + 1 \<le> due ?E w" using w assms(3) by (simp_all add: waiting_def place_def)
  have D: "due ?E w + 256 * ?B = ?E + 255 * ?B"
    using due_block(4) [OF assms(3) B(1)] assms(6) div_mult_mod_eq [of ?E ?B] by (cases ?B) simp_all
  show ?thesis
  proof (cases "T + n \<le> due ?E w")
    case True
    then have "T + 1 + m \<le> due ?E w" using Suc by simp
    from run_until_due [OF w this] show ?thesis using c d unfolding Suc timer_run_first by simp
  next
    case False
    define k where "k = due ?E w - (T + 1)"
    have k: "T + 1 + k = due ?E w" "m = k + (m - k)" "m - k \<le> 256 * ?B" using B(2) False Suc D assms(7) by (simp_all add: k_def)
    let ?r = "timer_run (T + 1) k ?s"
    from run_until_due [OF w, of k] k(1) have r: "waiting (due ?E w) ?E e d w (fst ?r)" "ev_calls ev (snd ?r) = ev_calls ev c"
      using c d by simp_all
    have "timer_run T n (t', c) = timer_run (due ?E w) (m - k) ?r"
      unfolding Suc timer_run_first using timer_run_add [of "T + 1" k "m - k" ?s] k(1,2) by metis
    then show ?thesis using timer_missed_block [OF r(1) refl assms(3,6) k(3), of "snd ?r"] r(2) d by simp
  qed
qed simp

theorem timer_misses_block_end_witness:
  "\<exists>t'. prs_timer_queue timer_example 1000 96 3 279 = Some (t', 1) \<and> ev_calls 96 (snd (timer_run 1000 65559 (t', []))) = []"
proof -
  have "map_option snd (prs_timer_queue timer_example 1000 96 3 279) = Some 1" by code_simp
  then obtain t' where q: "prs_timer_queue timer_example 1000 96 3 279 = Some (t', 1)" by auto
  then have q': "prs_timer_queue timer_example (word_of_nat 1000) 96 3 279 = Some (t', 1)" by simp
  show ?thesis
    using timer_misses_block_end [OF timer_example_ready q', of 1 65559 "[]"] q by (simp add: timeout_ticks_def ev_calls_def)
qed

end
