(* ===== verification/Clock.thy ===== *)
theory Clock
  imports Timer Spinlock
begin

text \<open>
  The clock of \<^verbatim>\<open>prs/clock.c\<close> with the conversions of \<^verbatim>\<open>prs/ticks.h\<close>: the tick counter and the entry that the
  periodic timer of the platform calls. The structure and the counter are one state, and the calls that the
  timer makes are recorded beside them.
\<close>

section \<open>Operations\<close>

record prs_clock =
  ck_addr :: ptr
  ck_pit :: ptr
  ck_timer :: prs_timer
  ck_spinlock :: prs_spinlock

record clock_state =
  cs_clock :: prs_clock
  cs_ticks :: prs_ticks_t
  cs_calls :: "timer_call list"

text \<open>The conversions compute in the 32 bits of \<^verbatim>\<open>prs_ticks_t\<close>.\<close>

definition PRS_TICKS_FROM_SECS :: "u32 \<Rightarrow> prs_ticks_t" where
  "PRS_TICKS_FROM_SECS secs = secs * word_of_nat PRS_HZ"

definition PRS_TICKS_FROM_MS :: "u32 \<Rightarrow> prs_ticks_t" where
  "PRS_TICKS_FROM_MS ms = ms * word_of_nat PRS_HZ div 1000"

definition PRS_TICKS_FROM_US :: "u32 \<Rightarrow> prs_ticks_t" where
  "PRS_TICKS_FROM_US us = us * word_of_nat PRS_HZ div 1000000"

definition PRS_TICKS_TO_SECS :: "prs_ticks_t \<Rightarrow> u32" where
  "PRS_TICKS_TO_SECS ticks = ticks div word_of_nat PRS_HZ"

definition PRS_TICKS_TO_MS :: "prs_ticks_t \<Rightarrow> u32" where
  "PRS_TICKS_TO_MS ticks = ticks * 1000 div word_of_nat PRS_HZ"

definition PRS_TICKS_TO_US :: "prs_ticks_t \<Rightarrow> u32" where
  "PRS_TICKS_TO_US ticks = ticks * 1000000 div word_of_nat PRS_HZ"

definition prs_clock_get :: "clock_state \<Rightarrow> prs_ticks_t" where
  "prs_clock_get s = cs_ticks s"

definition prs_clock_timer :: "clock_state \<Rightarrow> prs_timer" where
  "prs_clock_timer s = ck_timer (cs_clock s)"

text \<open>\<open>None\<close> is the fatal outcome of an entry that finds another one inside.\<close>

definition prs_clock_entry :: "(u32 \<Rightarrow> nat \<Rightarrow> u32) \<Rightarrow> clock_state \<Rightarrow> clock_state option" where
  "prs_clock_entry wide s =
     (let clock = cs_clock s;
          (spinlock, locked) = prs_spinlock_try_lock (ck_spinlock clock);
          clock = clock\<lparr>ck_spinlock := spinlock\<rparr>
      in if \<not> locked then None
         else
           (let (_, ticks) = atomic_fetch_add (cs_ticks s) 1;
                s = s\<lparr>cs_clock := clock, cs_ticks := ticks\<rparr>;
                (timer, calls) = prs_timer_tick wide (prs_clock_get s) (ck_timer clock, cs_calls s);
                clock = clock\<lparr>ck_timer := timer\<rparr>;
                clock = clock\<lparr>ck_spinlock := prs_spinlock_unlock (ck_spinlock clock)\<rparr>
            in Some (s\<lparr>cs_clock := clock, cs_calls := calls\<rparr>)))"

text \<open>The result, the state if the clock is there, and what the cleanup frees. What the parts answer is given
  by the arguments: the timer that \<^verbatim>\<open>prs_timer_create\<close> makes from the current tick, the memory of the
  spinlock (without which its creation is fatal) and the periodic timer.\<close>

definition prs_clock_init ::
  "ptr option \<Rightarrow> (prs_ticks_t \<Rightarrow> prs_timer option) \<Rightarrow> ptr option \<Rightarrow> ptr option
    \<Rightarrow> (prs_result \<times> clock_state option \<times> ptr list) option" where
  "prs_clock_init memory timer_create spinlock_memory pit_create =
     (case memory of
        None \<Rightarrow> Some (PRS_OUT_OF_MEMORY, None, [])
      | Some addr \<Rightarrow>
          (case timer_create 0 of
             None \<Rightarrow> Some (PRS_UNKNOWN, None, [addr])
           | Some timer \<Rightarrow>
               (case prs_spinlock_create spinlock_memory of
                  None \<Rightarrow> None
                | Some spinlock \<Rightarrow>
                    (case pit_create of
                       None \<Rightarrow> Some (PRS_UNKNOWN, None, [addr])
                     | Some pit \<Rightarrow>
                         Some (PRS_OK,
                           Some \<lparr>cs_clock = \<lparr>ck_addr = addr, ck_pit = pit, ck_timer = timer, ck_spinlock = spinlock\<rparr>,
                                 cs_ticks = 0, cs_calls = []\<rparr>, [])))))"

text \<open>The periodic timer that is destroyed and what is freed: the timer and the structure stay, for the tasks
  that still run.\<close>

definition prs_clock_uninit :: "clock_state \<Rightarrow> ptr \<times> ptr list" where
  "prs_clock_uninit s = (ck_pit (cs_clock s), prs_spinlock_destroy (ck_spinlock (cs_clock s)))"

section \<open>Conversions\<close>

text \<open>The milliseconds that convert exactly are those whose product does not wrap around: less than 72 minutes, with a result
  that has room for 49 days.\<close>

lemma unat_mult_mod: "unat (a * b :: u32) = unat a * unat b mod 2 ^ 32"
  by (simp only: unat_word_ariths) simp

lemma ticks_ms_exact: "unat (PRS_TICKS_FROM_MS ms) = unat ms \<longleftrightarrow> unat ms \<le> 4294967"
proof -
  have "unat (PRS_TICKS_FROM_MS ms) = unat ms * 1000 mod 2 ^ 32 div 1000"
    by (simp only: PRS_TICKS_FROM_MS_def PRS_HZ_def unat_div unat_mult_mod) simp
  moreover have "unat ms * 1000 mod 2 ^ 32 div 1000 = unat ms \<longleftrightarrow> unat ms \<le> 4294967"
  proof
    assume "unat ms \<le> 4294967"
    then show "unat ms * 1000 mod 2 ^ 32 div 1000 = unat ms" by simp
  next
    assume eq: "unat ms * 1000 mod 2 ^ 32 div 1000 = unat ms"
    have "unat ms * 1000 mod 2 ^ 32 div 1000 \<le> (2 ^ 32 - 1) div 1000" by (intro div_le_mono) (simp add: less_Suc_eq_le [symmetric])
    with eq show "unat ms \<le> 4294967" by simp
  qed
  ultimately show ?thesis by simp
qed

lemma ticks_ms_roundtrip: "unat ms \<le> 4294967 \<Longrightarrow> PRS_TICKS_TO_MS (PRS_TICKS_FROM_MS ms) = ms"
proof -
  assume le: "unat ms \<le> 4294967"
  have "unat (PRS_TICKS_TO_MS (PRS_TICKS_FROM_MS ms)) = unat (PRS_TICKS_FROM_MS ms) * 1000 mod 2 ^ 32 div 1000"
    by (simp only: PRS_TICKS_TO_MS_def PRS_HZ_def unat_div unat_mult_mod) simp
  then show ?thesis using ticks_ms_exact [of ms] le by (simp add: word_eq_iff_unat)
qed

section \<open>Entries\<close>

definition clock_run :: "(u32 \<Rightarrow> nat \<Rightarrow> u32) \<Rightarrow> nat \<Rightarrow> clock_state \<Rightarrow> clock_state option" where
  "clock_run wide n s = ((\<lambda>r. Option.bind r (prs_clock_entry wide)) ^^ n) (Some s)"

lemma clock_entry_once:
  assumes "\<not> sl_lock (ck_spinlock (cs_clock s))"
  obtains s' where "prs_clock_entry wide s = Some s'" "cs_ticks s' = cs_ticks s + 1" "\<not> sl_lock (ck_spinlock (cs_clock s'))"
    "(ck_timer (cs_clock s'), cs_calls s') = prs_timer_tick wide (cs_ticks s + 1) (ck_timer (cs_clock s), cs_calls s)"
proof -
  obtain timer calls where "prs_timer_tick wide (cs_ticks s + 1) (ck_timer (cs_clock s), cs_calls s) = (timer, calls)" by fastforce
  then show thesis
    using assms that
    by (simp add: prs_clock_entry_def prs_spinlock_try_lock_def atomic_exchange_def atomic_fetch_add_def prs_clock_get_def
        prs_spinlock_unlock_def Let_def)
qed

lemma clock_entry_double: "sl_lock (ck_spinlock (cs_clock s)) \<Longrightarrow> prs_clock_entry wide s = None"
  by (simp add: prs_clock_entry_def prs_spinlock_try_lock_def atomic_exchange_def Let_def)

lemma clock_run_timer:
  assumes "\<not> sl_lock (ck_spinlock (cs_clock s))" and "cs_ticks s = word_of_nat T"
  shows "\<exists>s'. clock_run amd64_shift n s = Some s' \<and> cs_ticks s' = word_of_nat (T + n) \<and> \<not> sl_lock (ck_spinlock (cs_clock s'))
    \<and> (ck_timer (cs_clock s'), cs_calls s') = timer_run T n (ck_timer (cs_clock s), cs_calls s)"
proof (induction n)
  case 0
  then show ?case using assms by (simp add: clock_run_def)
next
  case (Suc n)
  then obtain s1 where s1: "clock_run amd64_shift n s = Some s1" "cs_ticks s1 = word_of_nat (T + n)" "\<not> sl_lock (ck_spinlock (cs_clock s1))"
    "(ck_timer (cs_clock s1), cs_calls s1) = timer_run T n (ck_timer (cs_clock s), cs_calls s)" by blast
  obtain s' where s': "prs_clock_entry amd64_shift s1 = Some s'" "cs_ticks s' = cs_ticks s1 + 1" "\<not> sl_lock (ck_spinlock (cs_clock s'))"
    "(ck_timer (cs_clock s'), cs_calls s') = prs_timer_tick amd64_shift (cs_ticks s1 + 1) (ck_timer (cs_clock s1), cs_calls s1)"
    by (rule clock_entry_once [OF s1(3)])
  have run: "clock_run amd64_shift (Suc n) s = Some s'" using s1(1) s'(1) by (simp add: clock_run_def)
  have t: "cs_ticks s1 + 1 = word_of_nat (T + n + 1)" using s1(2) by simp
  show ?case
    by (rule exI [of _ s']) (use run s' s1(4) t in \<open>simp add: timer_run_Suc\<close>)
qed

lemma timer_create_ready:
  assumes "prs_timer_create memory list_memory tmp_memory initial pool_mem entries_mem queued_memory (word_of_nat T) = Some t"
    and "length initial = 65536" and "\<forall>e \<in> set initial. pe_header e = 0"
  shows "timer_ready T ev t"
proof -
  let ?params = "\<lparr>pp_max_entries = PRS_MAX_OBJECTS * 16, pp_data_size = timer_entry_sizeof, pp_area = None\<rparr>"
  obtain pool fr where pool: "prs_pool_create ?params initial pool_mem entries_mem = (Some pool, fr)"
    and t: "tm_pool t = pool" "tm_now t = word_of_nat T" "tm_tmp_list t = []" "tm_lists t = (\<lambda>_ _. [])" "tm_queued t = []"
    using assms(1) by (auto simp: prs_timer_create_def split: option.splits if_splits prod.splits)
  obtain a b where "pool_mem = Some a" "entries_mem = Some b"
    using pool by (auto simp: prs_pool_create_def split: option.splits if_splits)
  then show ?thesis
    using prs_pool_create_fresh [of ?params 16 initial a b] assms(2,3) pool t
    by (auto simp: timer_ready_def pool_ids_left_def PRS_MAX_OBJECTS_def)
qed

section \<open>Properties\<close>

text \<open>After a successful prs_clock_init the timer accepts requests of every event, and the entries of the clock are the
  ticks of the timer one by one: after any number \<open>n\<close> of calls of prs_clock_entry that do not overlap, none was fatal, the clock shows \<open>n\<close>
  modulo \<open>2 ^ 32\<close>, the lock is free, and the timer and its calls are those of \<open>n\<close> ticks.\<close>

theorem clock_entries_tick:
  assumes "prs_clock_init memory (prs_timer_create timer_mem list_mem tmp_mem initial pool_mem entries_mem queued_mem) spinlock_mem pit
      = Some (result, Some s, freed)"
    and "length initial = 65536" and "\<forall>e \<in> set initial. pe_header e = 0"
  shows "result = PRS_OK \<and> freed = [] \<and> timer_ready 0 ev (prs_clock_timer s)
    \<and> (\<exists>s'. clock_run amd64_shift n s = Some s' \<and> unat (prs_clock_get s') = n mod 2 ^ 32 \<and> \<not> sl_lock (ck_spinlock (cs_clock s'))
      \<and> (prs_clock_timer s', cs_calls s') = timer_run 0 n (prs_clock_timer s, []))"
proof -
  obtain timer where t: "prs_timer_create timer_mem list_mem tmp_mem initial pool_mem entries_mem queued_mem (word_of_nat 0) = Some timer"
    and s: "result = PRS_OK" "freed = []" "ck_timer (cs_clock s) = timer" "cs_ticks s = word_of_nat 0" "cs_calls s = []"
      "\<not> sl_lock (ck_spinlock (cs_clock s))"
    using assms(1) by (auto simp: prs_clock_init_def prs_spinlock_create_def split: option.splits)
  have "timer_ready 0 ev timer" by (rule timer_create_ready [OF t assms(2,3)])
  then show ?thesis
    using clock_run_timer [OF s(6,4), of n] s by (auto simp: prs_clock_timer_def prs_clock_get_def unat_tick)
qed

theorem clock_entries_tick_witness:
  "\<exists>s s'. prs_clock_init (Some 64) (prs_timer_create (Some 128) (\<lambda>w s. Some (word_of_nat (4096 + w * 256 + s))) (Some 72)
        (replicate 65536 \<lparr>pe_header = 0, pe_data = \<lparr>te_start = 0, te_end = 0, te_event = 0, te_event_type = 0\<rparr>\<rparr>) (Some 80) (Some 88) (Some 96))
      (Some 104) (Some 112) = Some (PRS_OK, Some s, [])
    \<and> clock_run amd64_shift 3 s = Some s' \<and> unat (prs_clock_get s') = 3"
proof -
  let ?init = "replicate 65536 \<lparr>pe_header = 0, pe_data = \<lparr>te_start = 0, te_end = 0, te_event = 0, te_event_type = 0\<rparr>\<rparr>"
  let ?params = "\<lparr>pp_max_entries = PRS_MAX_OBJECTS * 16, pp_data_size = timer_entry_sizeof, pp_area = None\<rparr>"
  obtain pool where p: "prs_pool_create ?params ?init (Some 80) (Some 88) = (Some pool, [])"
    using prs_pool_create_fresh [of ?params 16 ?init 80 88] by (auto simp: PRS_MAX_OBJECTS_def)
  define create where "create = prs_timer_create (Some 128) (\<lambda>w s. Some (word_of_nat (4096 + w * 256 + s))) (Some 72) ?init (Some 80) (Some 88) (Some 96)"
  obtain timer where t: "create 0 = Some timer" using p by (auto simp: create_def prs_timer_create_def)
  define s where "s = \<lparr>cs_clock = \<lparr>ck_addr = 64, ck_pit = 112, ck_timer = timer, ck_spinlock = \<lparr>sl_addr = 104, sl_lock = False\<rparr>\<rparr>,
    cs_ticks = 0, cs_calls = []\<rparr>"
  have i: "prs_clock_init (Some 64) create (Some 104) (Some 112) = Some (PRS_OK, Some s, [])"
    using t by (simp add: prs_clock_init_def prs_spinlock_create_def s_def)
  obtain s' where "clock_run amd64_shift 3 s = Some s'" "unat (prs_clock_get s') = 3"
    using clock_entries_tick [OF i [unfolded create_def], of 0 3] by auto
  then show ?thesis using i unfolding create_def by blast
qed

end
