(* ===== verification/Sem.thy ===== *)
theory Sem
  imports Event Timer
begin

text \<open>
  The semaphore of \<^verbatim>\<open>prs/sem.c\<close>. The queue of the waiting events holds the sequence of pointers that the
  multi-producer multi-consumer queue implements; the events are a memory, and the tasks are beside the object
  directory. A call that ends in \<^verbatim>\<open>prs_sched_schedule\<close> is cut there: the operation returns what has to be
  done, and what follows when the task runs again is an operation of its own.
\<close>

section \<open>Data\<close>

definition PRS_SEM_EVENT_TYPE_SIGNAL :: u8 where
  "PRS_SEM_EVENT_TYPE_SIGNAL = 1"

definition PRS_SEM_EVENT_TYPE_TIMEOUT :: u8 where
  "PRS_SEM_EVENT_TYPE_TIMEOUT = 2"

record prs_sem =
  sem_addr :: ptr
  sem_id :: prs_object_id_t
  sem_max_count :: u64
  sem_count :: u64
  sem_waitq_addr :: ptr
  sem_waitq :: "ptr list"

record prs_sem_create_params =
  sp_max_count :: u64
  sp_initial_count :: u64

record sem_system =
  ss_sem :: prs_sem
  ss_events :: "ptr \<Rightarrow> prs_event"
  ss_dir :: "task_world god_world"

text \<open>How a call ends: the process stops, the task is killed, the call returns, or the scheduler is called.\<close>

datatype sem_end = SemFatal | SemKilled | SemReturn prs_result | SemSchedule "u64 option"

section \<open>Life time\<close>

text \<open>The queue lives on the global pointer directory. What is freed.\<close>

definition prs_sem_object_free :: "prs_sem \<Rightarrow> ptr list" where
  "prs_sem_object_free sem = (if sem_waitq_addr sem \<noteq> 0 then [sem_waitq_addr sem] else []) @ [sem_addr sem]"

text \<open>The directory after the call, the semaphore, and what the cleanup frees.\<close>

definition prs_sem_create ::
  "prs_god \<Rightarrow> ptr \<Rightarrow> prs_sem_create_params \<Rightarrow> ptr option \<Rightarrow> ptr option \<Rightarrow> prs_god \<times> prs_sem option \<times> ptr list" where
  "prs_sem_create god ops params memory waitq_memory =
     (case memory of
        None \<Rightarrow> (god, None, [])
      | Some addr \<Rightarrow>
          (case waitq_memory of
             None \<Rightarrow> (god, None, [addr])
           | Some waitq \<Rightarrow>
               (let (god, oid) = prs_god_alloc_and_lock god addr ops
                in if oid = PRS_OBJECT_ID_INVALID then (god, None, [addr])
                   else (god,
                     Some \<lparr>sem_addr = addr, sem_id = oid, sem_max_count = sp_max_count params,
                           sem_count = sp_initial_count params, sem_waitq_addr = waitq, sem_waitq = []\<rparr>, []))))"

definition prs_sem_destroy :: "'w god_ops \<Rightarrow> 'w god_world \<Rightarrow> prs_sem \<Rightarrow> 'w god_world" where
  "prs_sem_destroy ops_of s sem = prs_god_unlock ops_of s (sem_id sem)"

definition prs_sem_object_destroy :: "'w god_ops \<Rightarrow> 'w god_world \<Rightarrow> prs_sem \<Rightarrow> 'w god_world" where
  "prs_sem_object_destroy ops_of s sem = prs_sem_destroy ops_of s sem"

section \<open>Waiting and signaling\<close>

text \<open>The loop of \<^verbatim>\<open>prs_sem_signal_once\<close> over the queue: what is left of the queue, the events, the directory
  with the tasks, the result and the pointers freed.\<close>

fun sem_signal_loop ::
  "task_world god_ops \<Rightarrow> ptr \<Rightarrow> ptr list \<Rightarrow> (ptr \<Rightarrow> prs_event) \<Rightarrow> task_world god_world
    \<Rightarrow> ptr list \<times> (ptr \<Rightarrow> prs_event) \<times> task_world god_world \<times> bool \<times> ptr list" where
  "sem_signal_loop ops_of self_event [] events s = ([], events, s, False, [])"
| "sem_signal_loop ops_of self_event (pop_event # q) events s =
     (if pop_event = 0 then (q, events, s, False, [])
      else
        (let (s, event, event_state, freed) = prs_event_signal ops_of s (events pop_event) PRS_SEM_EVENT_TYPE_SIGNAL;
             events = events(pop_event := event)
         in if event_state AND PRS_EVENT_STATE_SIGNALED = 0
            then
              (if pop_event = self_event
               then (q, events, s, True,
                     freed @ (if event_state AND PRS_EVENT_STATE_FREED = 0 then prs_event_cancel event else []))
               else (q, events, s, False, freed))
            else
              (let (q, events, s, result, freed') = sem_signal_loop ops_of self_event q events s
               in (q, events, s, result, freed @ freed'))))"

definition prs_sem_signal_once :: "task_world god_ops \<Rightarrow> sem_system \<Rightarrow> ptr \<Rightarrow> sem_system \<times> bool \<times> ptr list" where
  "prs_sem_signal_once ops_of sys self_event =
     (let (q, events, s, result, freed) = sem_signal_loop ops_of self_event (sem_waitq (ss_sem sys)) (ss_events sys) (ss_dir sys)
      in (sys\<lparr>ss_sem := (ss_sem sys)\<lparr>sem_waitq := q\<rparr>, ss_events := events, ss_dir := s\<rparr>, result, freed))"

text \<open>The steps that the operations are made of: an event for the current task goes into the queue, and the
  counter goes down or up.\<close>

definition sem_wait_push :: "sem_system \<Rightarrow> ptr \<Rightarrow> u64 \<Rightarrow> ptr option \<Rightarrow> (sem_system \<times> ptr) option" where
  "sem_wait_push sys task refcnt memory =
     (case prs_event_create (snd (ss_dir sys)) task refcnt memory of
        None \<Rightarrow> None
      | Some (w, event) \<Rightarrow>
          Some (sys\<lparr>ss_sem := (ss_sem sys)\<lparr>sem_waitq := sem_waitq (ss_sem sys) @ [ev_addr event]\<rparr>,
                    ss_events := (ss_events sys)(ev_addr event := event),
                    ss_dir := (fst (ss_dir sys), w)\<rparr>, ev_addr event))"

definition sem_fetch_sub :: "sem_system \<Rightarrow> sem_system \<times> int" where
  "sem_fetch_sub sys =
     (let (val, cur) = atomic_fetch_sub (sem_count (ss_sem sys)) 1
      in (sys\<lparr>ss_sem := (ss_sem sys)\<lparr>sem_count := cur\<rparr>\<rparr>, sint val))"

definition sem_fetch_add :: "sem_system \<Rightarrow> sem_system \<times> int" where
  "sem_fetch_add sys =
     (let (val, cur) = atomic_fetch_add (sem_count (ss_sem sys)) 1
      in (sys\<lparr>ss_sem := (ss_sem sys)\<lparr>sem_count := cur\<rparr>\<rparr>, sint val))"

text \<open>A push that fails kills the task, which is then blocked for an event that is in no queue.\<close>

definition sem_wait_kill :: "sem_system \<Rightarrow> ptr \<Rightarrow> u64 \<Rightarrow> ptr option \<Rightarrow> sem_system \<times> sem_end" where
  "sem_wait_kill sys task refcnt memory =
     (case prs_event_create (snd (ss_dir sys)) task refcnt memory of
        None \<Rightarrow> (sys, SemFatal)
      | Some (w, event) \<Rightarrow>
          (sys\<lparr>ss_events := (ss_events sys)(ev_addr event := event), ss_dir := (fst (ss_dir sys), w)\<rparr>, SemKilled))"

definition prs_sem_wait ::
  "task_world god_ops \<Rightarrow> sem_system \<Rightarrow> ptr option \<Rightarrow> bool \<Rightarrow> sem_system \<times> sem_end \<times> ptr list" where
  "prs_sem_wait ops_of sys memory push_ok =
     (let task = tw_current (snd (ss_dir sys))
      in if \<not> push_ok then (let (sys, e) = sem_wait_kill sys task 1 memory in (sys, e, []))
         else
           (case sem_wait_push sys task 1 memory of
              None \<Rightarrow> (sys, SemFatal, [])
            | Some (sys, push_event) \<Rightarrow>
                (let (sys, val) = sem_fetch_sub sys
                 in if val > 0
                    then (let (sys, signaled, freed) = prs_sem_signal_once ops_of sys push_event
                          in (sys, if signaled then SemReturn PRS_OK else SemSchedule None, freed))
                    else (sys, SemSchedule None, []))))"

text \<open>The timer is that of the clock. A timer entry that cannot be had is fatal.\<close>

definition prs_sem_wait_timeout ::
  "task_world god_ops \<Rightarrow> sem_system \<Rightarrow> prs_timer \<Rightarrow> prs_ticks_t \<Rightarrow> ptr option \<Rightarrow> bool \<Rightarrow> prs_ticks_t
    \<Rightarrow> sem_system \<times> prs_timer \<times> sem_end \<times> ptr list" where
  "prs_sem_wait_timeout ops_of sys timer clock memory push_ok timeout =
     (let task = tw_current (snd (ss_dir sys))
      in if \<not> push_ok then (let (sys, e) = sem_wait_kill sys task 2 memory in (sys, timer, e, []))
         else
           (case sem_wait_push sys task 2 memory of
              None \<Rightarrow> (sys, timer, SemFatal, [])
            | Some (sys, push_event) \<Rightarrow>
                (let (sys, val) = sem_fetch_sub sys;
                     (sys, signaled, freed) = (if val > 0 then prs_sem_signal_once ops_of sys push_event else (sys, False, []))
                 in if signaled then (sys, timer, SemReturn PRS_OK, freed)
                    else
                      (case prs_timer_queue timer clock push_event PRS_SEM_EVENT_TYPE_TIMEOUT timeout of
                         None \<Rightarrow> (sys, timer, SemFatal, freed)
                       | Some (timer, entry_id) \<Rightarrow> (sys, timer, SemSchedule (Some entry_id), freed)))))"

text \<open>What follows the call of the scheduler.\<close>

definition sem_wait_timeout_resume :: "sem_system \<Rightarrow> prs_timer \<Rightarrow> ptr \<Rightarrow> u64 \<Rightarrow> prs_timer \<times> prs_result" where
  "sem_wait_timeout_resume sys timer task entry_id =
     (let timer = prs_timer_cancel timer entry_id;
          event_type = prs_task_get_last_unblock_cause (tw_tasks (snd (ss_dir sys)) task)
      in (timer, if event_type = PRS_SEM_EVENT_TYPE_SIGNAL then PRS_OK else PRS_TIMEOUT))"

definition prs_sem_signal :: "task_world god_ops \<Rightarrow> sem_system \<Rightarrow> sem_system \<times> ptr list" where
  "prs_sem_signal ops_of sys =
     (let (sys, val) = sem_fetch_add sys
      in if val < 0
         then (let (sys, _, freed) = prs_sem_signal_once ops_of sys 0 in (sys, freed))
         else (sys, []))"

section \<open>Threads\<close>

text \<open>Where a task is in prs_sem_wait or prs_sem_signal: outside, behind the push of its event, behind a decrement of
  a positive count, in the scheduler, or behind an increment of a negative count.\<close>

datatype sem_pc = SIdle | SPushed ptr | SPop ptr | SBlocked ptr | SSignal

record sem_config =
  sc_sys :: sem_system
  sc_pc :: "ptr \<Rightarrow> sem_pc"
  sc_signals :: nat
  sc_done :: nat

definition sem_as :: "ptr \<Rightarrow> sem_system \<Rightarrow> sem_system" where
  "sem_as p sys = sys\<lparr>ss_dir := (fst (ss_dir sys), (snd (ss_dir sys))\<lparr>tw_current := p\<rparr>)\<rparr>"

text \<open>The steps of any number of tasks: the push of a new event, the decrement, the pop with its signal, the return from
  the scheduler of a task that is not blocked any more, the increment, and its pop with the signal. The configuration counts
  the signals and the waits that have returned.\<close>

inductive sem_step :: "task_world god_ops \<Rightarrow> sem_config \<Rightarrow> sem_config \<Rightarrow> bool" for ops_of where
  push: "sc_pc c p = SIdle \<Longrightarrow> event_task_at (fst (ss_dir (sc_sys c))) (task_id (tw_tasks (snd (ss_dir (sc_sys c))) p)) p
    \<Longrightarrow> a \<noteq> 0 \<Longrightarrow> a \<notin> set (sem_waitq (ss_sem (sc_sys c))) \<Longrightarrow> sem_wait_push (sem_as p (sc_sys c)) p 1 (Some a) = Some (sys, e)
    \<Longrightarrow> sem_step ops_of c (c\<lparr>sc_sys := sys, sc_pc := (sc_pc c)(p := SPushed e)\<rparr>)"
| decrement: "sc_pc c p = SPushed a \<Longrightarrow> sem_fetch_sub (sc_sys c) = (sys, val)
    \<Longrightarrow> sem_step ops_of c (c\<lparr>sc_sys := sys, sc_pc := (sc_pc c)(p := if val > 0 then SPop a else SBlocked a)\<rparr>)"
| pop: "sc_pc c p = SPop a \<Longrightarrow> prs_sem_signal_once ops_of (sem_as p (sc_sys c)) a = (sys, signaled, freed)
    \<Longrightarrow> sem_step ops_of c (c\<lparr>sc_sys := sys, sc_pc := (sc_pc c)(p := if signaled then SIdle else SBlocked a),
          sc_done := sc_done c + (if signaled then 1 else 0)\<rparr>)"
| resume: "sc_pc c p = SBlocked a
    \<Longrightarrow> prs_task_get_state (tw_tasks (snd (ss_dir (sc_sys c))) p) \<noteq> task_state_code PRS_TASK_STATE_BLOCKED
    \<Longrightarrow> sem_step ops_of c (c\<lparr>sc_pc := (sc_pc c)(p := SIdle), sc_done := sc_done c + 1\<rparr>)"
| increment: "sc_pc c p = SIdle \<Longrightarrow> sem_fetch_add (sc_sys c) = (sys, val)
    \<Longrightarrow> sem_step ops_of c (c\<lparr>sc_sys := sys, sc_pc := (sc_pc c)(p := if val < 0 then SSignal else SIdle),
          sc_signals := sc_signals c + 1\<rparr>)"
| signal: "sc_pc c p = SSignal \<Longrightarrow> prs_sem_signal_once ops_of (sem_as p (sc_sys c)) 0 = (sys, signaled, freed)
    \<Longrightarrow> sem_step ops_of c (c\<lparr>sc_sys := sys, sc_pc := (sc_pc c)(p := SIdle)\<rparr>)"

fun is_pushed :: "sem_pc \<Rightarrow> bool" where
  "is_pushed (SPushed a) = True"
| "is_pushed _ = False"

fun is_popping :: "sem_pc \<Rightarrow> bool" where
  "is_popping (SPop a) = True"
| "is_popping SSignal = True"
| "is_popping _ = False"

fun is_taken :: "sem_pc \<Rightarrow> bool" where
  "is_taken (SPop a) = True"
| "is_taken (SBlocked a) = True"
| "is_taken _ = False"

fun sem_holds :: "sem_pc \<Rightarrow> ptr \<Rightarrow> bool" where
  "sem_holds (SPushed a) b = (a = b)"
| "sem_holds (SPop a) b = (a = b)"
| "sem_holds (SBlocked a) b = (a = b)"
| "sem_holds _ b = False"

text \<open>The event \<open>a\<close> of the queue belongs to task \<open>p\<close>, which is blocked for it.\<close>

definition sem_queued :: "sem_system \<Rightarrow> (ptr \<Rightarrow> sem_pc) \<Rightarrow> ptr \<Rightarrow> ptr \<Rightarrow> bool" where
  "sem_queued sys pc p a \<longleftrightarrow> a \<noteq> 0 \<and> sem_holds (pc p) a
     \<and> event_task_at (fst (ss_dir sys)) (ev_task_id (ss_events sys a)) p
     \<and> task_token (tw_tasks (snd (ss_dir sys)) p) = ev_token (ss_events sys a)
     \<and> PRS_TASK_GET_STATE (ev_token (ss_events sys a)) = task_state_code PRS_TASK_STATE_BLOCKED"

definition sem_blocked :: "sem_system \<Rightarrow> ptr \<Rightarrow> bool" where
  "sem_blocked sys p \<longleftrightarrow> prs_task_get_state (tw_tasks (snd (ss_dir sys)) p) = task_state_code PRS_TASK_STATE_BLOCKED"

definition sem_inv :: "int \<Rightarrow> sem_config \<Rightarrow> bool" where
  "sem_inv c0 c \<longleftrightarrow>
     (let sys = sc_sys c; pc = sc_pc c; q = sem_waitq (ss_sem sys); val = sint (sem_count (ss_sem sys))
      in distinct q \<and> (\<forall>a \<in> set q. \<exists>p. sem_queued sys pc p a)
         \<and> (\<forall>p. (\<exists>a. sem_holds (pc p) a) \<and> sem_blocked sys p \<longrightarrow> (\<exists>a \<in> set q. sem_queued sys pc p a))
         \<and> int (length q) = pc_count is_pushed pc + pc_count is_popping pc + max 0 (- val)
         \<and> val = c0 + int (sc_signals c) - int (sc_done c) - pc_count is_taken pc)"

lemma sem_invD:
  assumes "sem_inv c0 c"
  shows "distinct (sem_waitq (ss_sem (sc_sys c)))"
    and "\<And>a. a \<in> set (sem_waitq (ss_sem (sc_sys c))) \<Longrightarrow> \<exists>p. sem_queued (sc_sys c) (sc_pc c) p a"
    and "\<And>p a. sem_holds (sc_pc c p) a \<Longrightarrow> sem_blocked (sc_sys c) p \<Longrightarrow> \<exists>a \<in> set (sem_waitq (ss_sem (sc_sys c))). sem_queued (sc_sys c) (sc_pc c) p a"
    and "int (length (sem_waitq (ss_sem (sc_sys c)))) =
      pc_count is_pushed (sc_pc c) + pc_count is_popping (sc_pc c) + max 0 (- sint (sem_count (ss_sem (sc_sys c))))"
    and "sint (sem_count (ss_sem (sc_sys c))) = c0 + int (sc_signals c) - int (sc_done c) - pc_count is_taken (sc_pc c)"
  using assms unfolding sem_inv_def Let_def by blast+

lemma sem_invI:
  assumes "distinct (sem_waitq (ss_sem (sc_sys c)))"
    and "\<And>a. a \<in> set (sem_waitq (ss_sem (sc_sys c))) \<Longrightarrow> \<exists>p. sem_queued (sc_sys c) (sc_pc c) p a"
    and "\<And>p a. sem_holds (sc_pc c p) a \<Longrightarrow> sem_blocked (sc_sys c) p \<Longrightarrow> \<exists>a \<in> set (sem_waitq (ss_sem (sc_sys c))). sem_queued (sc_sys c) (sc_pc c) p a"
    and "int (length (sem_waitq (ss_sem (sc_sys c)))) =
      pc_count is_pushed (sc_pc c) + pc_count is_popping (sc_pc c) + max 0 (- sint (sem_count (ss_sem (sc_sys c))))"
    and "sint (sem_count (ss_sem (sc_sys c))) = c0 + int (sc_signals c) - int (sc_done c) - pc_count is_taken (sc_pc c)"
  shows "sem_inv c0 c"
  using assms unfolding sem_inv_def Let_def by blast

lemma sem_inv_parts:
  assumes "sc_sys c = sys" and "sc_pc c = pc" and "sc_signals c = S" and "sc_done c = D"
    and "distinct (sem_waitq (ss_sem sys))"
    and "\<And>a. a \<in> set (sem_waitq (ss_sem sys)) \<Longrightarrow> \<exists>p. sem_queued sys pc p a"
    and "\<And>p a. sem_holds (pc p) a \<Longrightarrow> sem_blocked sys p \<Longrightarrow> \<exists>a \<in> set (sem_waitq (ss_sem sys)). sem_queued sys pc p a"
    and "int (length (sem_waitq (ss_sem sys))) = pc_count is_pushed pc + pc_count is_popping pc + max 0 (- sint (sem_count (ss_sem sys)))"
    and "sint (sem_count (ss_sem sys)) = c0 + int S - int D - pc_count is_taken pc"
  shows "sem_inv c0 c"
  using assms(5-) unfolding assms(1-4) [symmetric] by (rule sem_invI)

lemma sem_holds_unique: "sem_holds x a \<Longrightarrow> sem_holds x b \<Longrightarrow> a = b"
  by (cases x) simp_all

text \<open>The queue is not longer than the tasks that hold an event, nor than there are IDs of objects.\<close>

lemma sem_queue_bounds:
  assumes "sem_inv c0 c"
  shows "int (length (sem_waitq (ss_sem (sc_sys c)))) \<le> pc_count is_pushed (sc_pc c) + pc_count is_taken (sc_pc c)"
    and "int (length (sem_waitq (ss_sem (sc_sys c)))) \<le> 2 ^ 32"
proof -
  let ?q = "sem_waitq (ss_sem (sc_sys c))"
  note i = sem_invD [OF assms]
  from i(2) obtain own where own: "\<And>a. a \<in> set ?q \<Longrightarrow> sem_queued (sc_sys c) (sc_pc c) (own a) a" by metis
  have inj: "inj_on own (set ?q)"
  proof (rule inj_onI)
    fix a b assume "a \<in> set ?q" "b \<in> set ?q" "own a = own b"
    then show "a = b" using own [of a] own [of b] sem_holds_unique [of "sc_pc c (own b)" a b] by (auto simp: sem_queued_def)
  qed
  have len: "length ?q = card (own ` set ?q)" using i(1) inj by (simp add: card_image distinct_card)
  have sub: "own ` set ?q \<subseteq> {p. is_pushed (sc_pc c p)} \<union> {p. is_taken (sc_pc c p)}"
  proof
    fix p assume "p \<in> own ` set ?q"
    then obtain a where "sem_holds (sc_pc c p) a" using own by (auto simp: sem_queued_def)
    then show "p \<in> {p. is_pushed (sc_pc c p)} \<union> {p. is_taken (sc_pc c p)}" by (cases "sc_pc c p") auto
  qed
  have "card (own ` set ?q) \<le> card ({p. is_pushed (sc_pc c p)} \<union> {p. is_taken (sc_pc c p)})"
    using sub by (intro card_mono) simp_all
  also have "\<dots> \<le> card {p. is_pushed (sc_pc c p)} + card {p. is_taken (sc_pc c p)}" by (rule card_Un_le)
  finally show "int (length ?q) \<le> pc_count is_pushed (sc_pc c) + pc_count is_taken (sc_pc c)"
    using len by (simp add: pc_count_def)
  let ?ident = "\<lambda>a. ev_task_id (ss_events (sc_sys c) a)"
  have "inj_on ?ident (set ?q)"
  proof (rule inj_onI)
    fix a b assume ab: "a \<in> set ?q" "b \<in> set ?q" "?ident a = ?ident b"
    then have "own a = own b" using own [of a] own [of b] by (auto simp: sem_queued_def event_task_at_def)
    then show "a = b" using inj ab by (simp add: inj_on_eq_iff)
  qed
  then have "length ?q = card (?ident ` set ?q)" using i(1) by (simp add: card_image distinct_card)
  also have "\<dots> \<le> CARD(32 word)" by (rule card_mono) simp_all
  finally have "length ?q \<le> 2 ^ 32" by (simp add: card_word)
  then show "int (length ?q) \<le> 2 ^ 32" by simp
qed

text \<open>A pop meets an event whose task is blocked for it, and unblocks that task.\<close>

lemma sem_signal_once_head:
  assumes "sem_queued sys pc p a" and "sem_waitq (ss_sem sys) = a # q"
  obtains sys' t freed where "prs_sem_signal_once ops_of sys self = (sys', a = self, freed)"
    "sem_waitq (ss_sem sys') = q" "sem_count (ss_sem sys') = sem_count (ss_sem sys)" "fst (ss_dir sys') = fst (ss_dir sys)"
    "tw_tasks (snd (ss_dir sys')) = (tw_tasks (snd (ss_dir sys)))(p := t)" "\<forall>b. b \<noteq> a \<longrightarrow> ss_events sys' b = ss_events sys b"
    "prs_task_get_state t \<noteq> task_state_code PRS_TASK_STATE_BLOCKED"
proof -
  obtain god w where s: "ss_dir sys = (god, w)" by fastforce
  let ?ev = "ss_events sys a" and ?cur = "p = tw_current (snd (ss_dir sys))"
  let ?t = "(tw_tasks w p)\<lparr>task_token := PRS_TASK_SET_TOKEN
    (task_state_code (if p = tw_current w then PRS_TASK_STATE_RUNNING else PRS_TASK_STATE_READY)) PRS_SEM_EVENT_TYPE_SIGNAL
    (PRS_TASK_GET_COUNT (ev_token ?ev) + PRS_TASK_COUNT_INCREMENT)\<rparr>"
  let ?w = "w\<lparr>tw_tasks := (tw_tasks w)(p := ?t), tw_ready := (if p \<noteq> tw_current w then tw_ready w @ [p] else tw_ready w)\<rparr>"
  have a: "a \<noteq> 0" "event_task_at god (ev_task_id ?ev) p" "task_token (tw_tasks w p) = ev_token ?ev"
    using assms(1) s by (simp_all add: sem_queued_def)
  have "event_unblock w p (ev_token ?ev) PRS_SEM_EVENT_TYPE_SIGNAL = (?w, True)"
    using a(3) by (simp add: event_unblock_def unblock_cases)
  then obtain e1 fr where sig: "prs_event_signal ops_of (god, w) ?ev PRS_SEM_EVENT_TYPE_SIGNAL = ((god, ?w), e1, event_flags ?ev, fr)"
    unfolding prs_event_signal_def event_step [OF a(2)] by auto
  define w1 where "w1 = ?w"
  obtain freed where once: "prs_sem_signal_once ops_of sys self =
      (sys\<lparr>ss_sem := (ss_sem sys)\<lparr>sem_waitq := q\<rparr>, ss_events := (ss_events sys)(a := e1), ss_dir := (god, w1)\<rparr>, a = self, freed)"
    using a(1) s assms(2) sig [folded w1_def]
    by (cases "a = self") (simp_all add: prs_sem_signal_once_def event_flag_bits Let_def)
  have "prs_task_get_state ?t \<noteq> task_state_code PRS_TASK_STATE_BLOCKED"
    by (simp add: prs_task_get_state_def GET_SET_TOKEN)
  then show thesis by (intro that [OF once]) (simp_all add: s w1_def)
qed

lemma sem_as_same [simp]:
  "ss_sem (sem_as p sys) = ss_sem sys" "ss_events (sem_as p sys) = ss_events sys" "fst (ss_dir (sem_as p sys)) = fst (ss_dir sys)"
  "tw_tasks (snd (ss_dir (sem_as p sys))) = tw_tasks (snd (ss_dir sys))"
  by (simp_all add: sem_as_def)

lemma sem_queued_as [simp]: "sem_queued (sem_as p sys) pc = sem_queued sys pc" "sem_blocked (sem_as p sys) = sem_blocked sys"
  by (simp_all add: sem_queued_def sem_blocked_def fun_eq_iff)

text \<open>What a pop leaves of the invariant of the queue, whatever the task that pops does next.\<close>

lemma sem_inv_pop:
  assumes "sem_inv c0 c" and "is_popping (sc_pc c p)" and "prs_sem_signal_once ops_of (sem_as p (sc_sys c)) self = (sys, signaled, freed)"
    and "\<And>a. sem_holds x a \<Longrightarrow> sem_holds (sc_pc c p) a"
    and "\<And>a. sem_holds (sc_pc c p) a \<Longrightarrow> \<not> sem_holds x a \<Longrightarrow> signaled \<and> self = a"
  shows "distinct (sem_waitq (ss_sem sys))"
    and "\<And>a. a \<in> set (sem_waitq (ss_sem sys)) \<Longrightarrow> \<exists>p'. sem_queued sys ((sc_pc c)(p := x)) p' a"
    and "\<And>p' a. sem_holds (((sc_pc c)(p := x)) p') a \<Longrightarrow> sem_blocked sys p'
      \<Longrightarrow> \<exists>a \<in> set (sem_waitq (ss_sem sys)). sem_queued sys ((sc_pc c)(p := x)) p' a"
    and "int (length (sem_waitq (ss_sem sys))) = int (length (sem_waitq (ss_sem (sc_sys c)))) - 1"
    and "sem_count (ss_sem sys) = sem_count (ss_sem (sc_sys c))"
proof -
  let ?q = "sem_waitq (ss_sem (sc_sys c))"
  note i = sem_invD [OF assms(1)]
  have "1 \<le> int (length ?q)"
    using i(4) pc_count_pos [of is_popping "sc_pc c" p, OF assms(2)] pc_count_nonneg [of is_pushed "sc_pc c"] by linarith
  then obtain a q where q: "?q = a # q" by (cases ?q) auto
  then obtain o1 where o1: "sem_queued (sc_sys c) (sc_pc c) o1 a" using i(2) [of a] by auto
  obtain t where r: "signaled = (a = self)" "sem_waitq (ss_sem sys) = q" "sem_count (ss_sem sys) = sem_count (ss_sem (sc_sys c))"
    "fst (ss_dir sys) = fst (ss_dir (sc_sys c))" "tw_tasks (snd (ss_dir sys)) = (tw_tasks (snd (ss_dir (sc_sys c))))(o1 := t)"
    "\<forall>b. b \<noteq> a \<longrightarrow> ss_events sys b = ss_events (sc_sys c) b" "prs_task_get_state t \<noteq> task_state_code PRS_TASK_STATE_BLOCKED"
  proof (rule sem_signal_once_head [of "sem_as p (sc_sys c)" "sc_pc c" o1 a q ops_of self])
    show "sem_queued (sem_as p (sc_sys c)) (sc_pc c) o1 a" using o1 by simp
    show "sem_waitq (ss_sem (sem_as p (sc_sys c))) = a # q" using q by simp
  qed (use assms(3) that in simp)
  have aq: "a \<notin> set q" "distinct q" using i(1) q by simp_all
  show "distinct (sem_waitq (ss_sem sys))" using r(2) aq by simp
  show "int (length (sem_waitq (ss_sem sys))) = int (length ?q) - 1" using r(2) q by simp
  show "sem_count (ss_sem sys) = sem_count (ss_sem (sc_sys c))" by (rule r(3))
  have keep: "sem_queued sys ((sc_pc c)(p := x)) p' b" if b: "b \<in> set q" and qd: "sem_queued (sc_sys c) (sc_pc c) p' b" for p' b
  proof -
    have ne: "b \<noteq> a" using b aq(1) by auto
    have "p' \<noteq> o1" using qd o1 ne sem_holds_unique by (auto simp: sem_queued_def)
    moreover have "sem_holds (((sc_pc c)(p := x)) p') b"
    proof (cases "p' = p")
      case True
      then show ?thesis using qd assms(5) [of b] r(1) ne by (auto simp: sem_queued_def)
    qed (use qd in \<open>simp add: sem_queued_def\<close>)
    ultimately show ?thesis using qd r(4-6) ne by (simp add: sem_queued_def)
  qed
  show "\<exists>p'. sem_queued sys ((sc_pc c)(p := x)) p' b" if "b \<in> set (sem_waitq (ss_sem sys))" for b
    using keep i(2) [of b] that q r(2) by auto
  show "\<exists>b \<in> set (sem_waitq (ss_sem sys)). sem_queued sys ((sc_pc c)(p := x)) p' b"
    if h: "sem_holds (((sc_pc c)(p := x)) p') b" and bl: "sem_blocked sys p'" for p' b
  proof -
    have ne: "p' \<noteq> o1" using bl r(5,7) by (auto simp: sem_blocked_def)
    have "sem_holds (sc_pc c p') b" using h assms(4) by (cases "p' = p") simp_all
    moreover have "sem_blocked (sc_sys c) p'" using bl ne r(5) by (simp add: sem_blocked_def)
    ultimately obtain b' where b': "b' \<in> set ?q" "sem_queued (sc_sys c) (sc_pc c) p' b'" using i(3) by blast
    have "b' \<noteq> a" using b'(2) o1 ne by (auto simp: sem_queued_def event_task_at_def)
    then show ?thesis using keep [of b' p'] b' q r(2) by auto
  qed
qed

lemma sint_pred: "- (2 ^ 63) < sint (v :: u64) \<Longrightarrow> sint (v - 1) = sint v - 1"
  using sint_ge [of v] sint_lt [of v] by (simp add: sint_word_ariths(2) signed_take_bit_int_eq_self)

lemma sint_succ: "sint (v :: u64) < 2 ^ 63 - 1 \<Longrightarrow> sint (v + 1) = sint v + 1"
  using sint_ge [of v] sint_lt [of v] by (simp add: sint_word_ariths(1) signed_take_bit_int_eq_self)

text \<open>Steps that leave the queue, the events and the tasks alone and the events that the tasks hold too.\<close>

lemma sem_queue_kept:
  assumes "sem_inv c0 c" and "sem_holds x = sem_holds (sc_pc c p)"
    and "sem_waitq (ss_sem sys) = sem_waitq (ss_sem (sc_sys c))" "ss_events sys = ss_events (sc_sys c)" "ss_dir sys = ss_dir (sc_sys c)"
  shows "distinct (sem_waitq (ss_sem sys))"
    and "\<And>a. a \<in> set (sem_waitq (ss_sem sys)) \<Longrightarrow> \<exists>p'. sem_queued sys ((sc_pc c)(p := x)) p' a"
    and "\<And>p' a. sem_holds (((sc_pc c)(p := x)) p') a \<Longrightarrow> sem_blocked sys p'
      \<Longrightarrow> \<exists>a \<in> set (sem_waitq (ss_sem sys)). sem_queued sys ((sc_pc c)(p := x)) p' a"
proof -
  have h: "sem_holds (((sc_pc c)(p := x)) p') = sem_holds (sc_pc c p')" for p' using assms(2) by simp
  have qd: "sem_queued sys ((sc_pc c)(p := x)) p' = sem_queued (sc_sys c) (sc_pc c) p'" "sem_blocked sys p' = sem_blocked (sc_sys c) p'" for p'
    unfolding sem_queued_def sem_blocked_def h assms(4,5) by simp_all
  note i = sem_invD [OF assms(1)]
  show "distinct (sem_waitq (ss_sem sys))" unfolding assms(3) by (rule i(1))
  show "\<exists>p'. sem_queued sys ((sc_pc c)(p := x)) p' a" if "a \<in> set (sem_waitq (ss_sem sys))" for a
    using i(2) that unfolding assms(3) qd by blast
  show "\<exists>a \<in> set (sem_waitq (ss_sem sys)). sem_queued sys ((sc_pc c)(p := x)) p' a"
    if "sem_holds (((sc_pc c)(p := x)) p') a" "sem_blocked sys p'" for p' a
    using i(3) that unfolding assms(3) qd h by blast
qed

lemma sem_inv_push:
  assumes inv: "sem_inv c0 c" and pc: "sc_pc c p = SIdle"
    and at: "event_task_at (fst (ss_dir (sc_sys c))) (task_id (tw_tasks (snd (ss_dir (sc_sys c))) p)) p"
    and a: "a \<noteq> 0" "a \<notin> set (sem_waitq (ss_sem (sc_sys c)))" and run: "sem_wait_push (sem_as p (sc_sys c)) p 1 (Some a) = Some (sys, e)"
  shows "sem_inv c0 (c\<lparr>sc_sys := sys, sc_pc := (sc_pc c)(p := SPushed e)\<rparr>)"
proof -
  let ?sys = "sc_sys c" and ?q = "sem_waitq (ss_sem (sc_sys c))" and ?pc = "(sc_pc c)(p := SPushed a)"
  note i = sem_invD [OF inv]
  obtain t tok where t: "prs_task_block (tw_tasks (snd (ss_dir ?sys)) p) = (t, tok)" by fastforce
  then have tok: "task_token t = tok" "task_id t = task_id (tw_tasks (snd (ss_dir ?sys)) p)"
    "PRS_TASK_GET_STATE tok = task_state_code PRS_TASK_STATE_BLOCKED"
    by (auto simp: prs_task_block_def Let_def GET_SET_TOKEN)
  have r: "e = a" "sem_waitq (ss_sem sys) = ?q @ [a]" "sem_count (ss_sem sys) = sem_count (ss_sem ?sys)"
    "fst (ss_dir sys) = fst (ss_dir ?sys)" "tw_tasks (snd (ss_dir sys)) = (tw_tasks (snd (ss_dir ?sys)))(p := t)"
    "ss_events sys = (ss_events ?sys)(a := \<lparr>ev_addr = a, ev_task_id = task_id t, ev_token = tok, ev_initial_refcnt = 1, ev_refcnt = 1\<rparr>)"
    using run t by (auto simp: sem_wait_push_def prs_event_create_def sem_as_def)
  have new: "sem_queued sys ?pc p a" using a(1) at tok r(4-6) by (simp add: sem_queued_def)
  have old: "sem_queued sys ?pc p' b" if "b \<in> set ?q" "sem_queued ?sys (sc_pc c) p' b" for p' b
  proof -
    have "b \<noteq> a" "p' \<noteq> p" using that a(2) pc by (auto simp: sem_queued_def)
    then show ?thesis using that(2) r(4-6) by (simp add: sem_queued_def)
  qed
  show ?thesis unfolding r(1)
  proof (rule sem_inv_parts [where sys = sys and pc = ?pc and S = "sc_signals c" and D = "sc_done c"])
    show "distinct (sem_waitq (ss_sem sys))" using i(1) a(2) r(2) by simp
    show "\<exists>p'. sem_queued sys ?pc p' b" if "b \<in> set (sem_waitq (ss_sem sys))" for b
      using that new old i(2) [of b] r(2) by auto
    show "\<exists>b \<in> set (sem_waitq (ss_sem sys)). sem_queued sys ?pc p' b" if "sem_holds (?pc p') b" "sem_blocked sys p'" for p' b
    proof (cases "p' = p")
      case False
      then have "sem_holds (sc_pc c p') b" "sem_blocked ?sys p'" using that r(5) by (simp_all add: sem_blocked_def)
      then show ?thesis using i(3) old r(2) by fastforce
    qed (use new r(2) in auto)
    show "int (length (sem_waitq (ss_sem sys))) = pc_count is_pushed ?pc + pc_count is_popping ?pc + max 0 (- sint (sem_count (ss_sem sys)))"
      using i(4) pc r(2,3) by (simp add: pc_count_upd)
    show "sint (sem_count (ss_sem sys)) = c0 + int (sc_signals c) - int (sc_done c) - pc_count is_taken ?pc"
      using i(5) pc r(3) by (simp add: pc_count_upd)
  qed simp_all
qed

lemma sem_inv_step:
  assumes "sem_step ops_of c c'" and "sem_inv c0 c" and "c0 + int (sc_signals c') < 2 ^ 63"
  shows "sem_inv c0 c'"
  using assms
proof (induction rule: sem_step.induct)
  case (push c p a sys e)
  show ?case by (rule sem_inv_push) (use push in simp_all)
next
  case (decrement c p a sys val)
  let ?v = "sem_count (ss_sem (sc_sys c))" and ?x = "if 0 < val then SPop a else SBlocked a"
  note i = sem_invD [OF decrement.prems(1)]
  have s: "val = sint ?v" "sys = (sc_sys c)\<lparr>ss_sem := (ss_sem (sc_sys c))\<lparr>sem_count := ?v - 1\<rparr>\<rparr>"
    using decrement.hyps by (auto simp: sem_fetch_sub_def atomic_fetch_sub_def)
  have "- sint ?v \<le> 2 ^ 32"
    using i(4) sem_queue_bounds(2) [OF decrement.prems(1)] pc_count_nonneg [of is_pushed "sc_pc c"] pc_count_nonneg [of is_popping "sc_pc c"]
      max.cobounded2 [of "- sint ?v" 0] by linarith
  then have "- (2 ^ 63) < sint ?v" by simp
  then have v: "sint (?v - 1) = val - 1" unfolding s(1) by (rule sint_pred)
  have h: "sem_holds ?x = sem_holds (sc_pc c p)" using decrement.hyps by (auto simp: fun_eq_iff)
  show ?case
    by (rule sem_invI) (use sem_queue_kept [OF decrement.prems(1) h, of sys] i(4,5) v s decrement.hyps in \<open>simp_all add: pc_count_upd max_def\<close>)
next
  case (pop c p a sys signaled freed)
  let ?x = "if signaled then SIdle else SBlocked a"
  note i = sem_invD [OF pop.prems(1)]
  have po: "is_popping (sc_pc c p)" using pop.hyps by simp
  have h: "\<And>b. sem_holds ?x b \<Longrightarrow> sem_holds (sc_pc c p) b" "\<And>b. sem_holds (sc_pc c p) b \<Longrightarrow> \<not> sem_holds ?x b \<Longrightarrow> signaled \<and> a = b"
    using pop.hyps by (auto split: if_splits)
  show ?case
    by (rule sem_invI) (use sem_inv_pop [where x = ?x, OF pop.prems(1) po pop.hyps(2) h] i(4,5) pop.hyps in \<open>simp_all add: pc_count_upd\<close>)
next
  case (resume c p a)
  note i = sem_invD [OF resume.prems(1)]
  have nb: "\<not> sem_blocked (sc_sys c) p" using resume.hyps by (simp add: sem_blocked_def)
  have q: "sem_queued (sc_sys c) ((sc_pc c)(p := SIdle)) p' b" if "sem_queued (sc_sys c) (sc_pc c) p' b" for p' b
    using that nb by (auto simp: sem_queued_def sem_blocked_def prs_task_get_state_def)
  show ?case
  proof (rule sem_inv_parts [where sys = "sc_sys c" and pc = "(sc_pc c)(p := SIdle)" and S = "sc_signals c" and D = "sc_done c + 1"])
    show "distinct (sem_waitq (ss_sem (sc_sys c)))" by (rule i(1))
    show "\<exists>p'. sem_queued (sc_sys c) ((sc_pc c)(p := SIdle)) p' b" if "b \<in> set (sem_waitq (ss_sem (sc_sys c)))" for b
      using i(2) [OF that] q by blast
    show "\<exists>b \<in> set (sem_waitq (ss_sem (sc_sys c))). sem_queued (sc_sys c) ((sc_pc c)(p := SIdle)) p' b"
      if "sem_holds (((sc_pc c)(p := SIdle)) p') b" "sem_blocked (sc_sys c) p'" for p' b
    proof -
      have "sem_holds (sc_pc c p') b" using that(1) by (cases "p' = p") simp_all
      then show ?thesis using i(3) [OF _ that(2)] q by blast
    qed
  qed (use i(4,5) resume.hyps in \<open>simp_all add: pc_count_upd\<close>)
next
  case (increment c p sys val)
  let ?v = "sem_count (ss_sem (sc_sys c))" and ?x = "if val < 0 then SSignal else SIdle"
  note i = sem_invD [OF increment.prems(1)]
  have s: "val = sint ?v" "sys = (sc_sys c)\<lparr>ss_sem := (ss_sem (sc_sys c))\<lparr>sem_count := ?v + 1\<rparr>\<rparr>"
    using increment.hyps by (auto simp: sem_fetch_add_def atomic_fetch_add_def)
  have "sint ?v < 2 ^ 63 - 1" using i(5) increment.prems(2) pc_count_nonneg [of is_taken "sc_pc c"] by simp
  then have v: "sint (?v + 1) = val + 1" unfolding s(1) by (rule sint_succ)
  have h: "sem_holds ?x = sem_holds (sc_pc c p)" using increment.hyps by (auto simp: fun_eq_iff)
  show ?case
    by (rule sem_invI) (use sem_queue_kept [OF increment.prems(1) h, of sys] i(4,5) v s increment.hyps in \<open>simp_all add: pc_count_upd max_def\<close>)
next
  case (signal c p sys signaled freed)
  note i = sem_invD [OF signal.prems(1)]
  have po: "is_popping (sc_pc c p)" using signal.hyps by simp
  have h: "\<And>b. sem_holds SIdle b \<Longrightarrow> sem_holds (sc_pc c p) b" "\<And>b. sem_holds (sc_pc c p) b \<Longrightarrow> \<not> sem_holds SIdle b \<Longrightarrow> signaled \<and> 0 = b"
    using signal.hyps by simp_all
  show ?case
    by (rule sem_invI) (use sem_inv_pop [where x = SIdle, OF signal.prems(1) po signal.hyps(2) h] i(4,5) signal.hyps in \<open>simp_all add: pc_count_upd\<close>)
qed

lemma sem_signals_mono: "sem_step ops_of c c' \<Longrightarrow> sc_signals c \<le> sc_signals c'"
  by (induction rule: sem_step.induct) simp_all

lemma sem_inv_reach:
  assumes "(sem_step ops_of)\<^sup>*\<^sup>* c c'" and "sem_inv c0 c" and "c0 + int (sc_signals c') < 2 ^ 63"
  shows "sem_inv c0 c'"
  using assms
proof (induction rule: rtranclp_induct)
  case (step c1 c2)
  have "c0 + int (sc_signals c1) < 2 ^ 63" using sem_signals_mono [OF step.hyps(2)] step.prems(2) by simp
  with step show ?case by (intro sem_inv_step [OF step.hyps(2)]) simp_all
qed

text \<open>A new semaphore before anybody uses it.\<close>

definition sem_start :: "prs_sem \<Rightarrow> (ptr \<Rightarrow> prs_event) \<Rightarrow> task_world god_world \<Rightarrow> sem_config" where
  "sem_start sem events dir = \<lparr>sc_sys = \<lparr>ss_sem = sem, ss_events = events, ss_dir = dir\<rparr>, sc_pc = (\<lambda>_. SIdle), sc_signals = 0, sc_done = 0\<rparr>"

lemma sem_inv_start:
  assumes "prs_sem_create god ops params memory waitq_memory = (god', Some sem, freed)" and "0 \<le> sint (sp_initial_count params)"
  shows "sem_inv (sint (sp_initial_count params)) (sem_start sem events dir)"
proof -
  have "sem_waitq sem = []" "sem_count sem = sp_initial_count params"
    using assms(1) by (auto simp: prs_sem_create_def Let_def split: option.splits prod.splits if_splits)
  then show ?thesis using assms(2) by (simp add: sem_start_def sem_inv_def pc_count_def)
qed

lemma sem_done_bound:
  assumes "sem_inv c0 c" and "0 \<le> c0"
  shows "int (sc_done c) \<le> c0 + int (sc_signals c)"
proof -
  let ?v = "sint (sem_count (ss_sem (sc_sys c)))"
  have "- ?v \<le> pc_count is_taken (sc_pc c)"
    using sem_invD(4) [OF assms(1)] sem_queue_bounds(1) [OF assms(1)] pc_count_nonneg [of is_popping "sc_pc c"]
      max.cobounded2 [of "- ?v" 0] by linarith
  then show ?thesis using sem_invD(5) [OF assms(1)] by linarith
qed

text \<open>When nobody is in the middle of a call, the blocked tasks are those of the queue.\<close>

lemma sem_quiet:
  assumes "sem_inv c0 c" and "\<forall>p. sc_pc c p = SIdle \<or> (\<exists>a. sc_pc c p = SBlocked a)"
  shows "int (card {p. sc_pc c p \<noteq> SIdle \<and> sem_blocked (sc_sys c) p}) = max 0 (- sint (sem_count (ss_sem (sc_sys c))))"
    and "pc_count is_taken (sc_pc c) = int (card {p. sc_pc c p \<noteq> SIdle})"
proof -
  let ?q = "sem_waitq (ss_sem (sc_sys c))"
  note i = sem_invD [OF assms(1)]
  have pc: "\<not> is_pushed (sc_pc c p)" "\<not> is_popping (sc_pc c p)" "is_taken (sc_pc c p) \<longleftrightarrow> sc_pc c p \<noteq> SIdle" for p
    using assms(2) [rule_format, of p] by auto
  then show "pc_count is_taken (sc_pc c) = int (card {p. sc_pc c p \<noteq> SIdle})" by (simp add: pc_count_def)
  have len: "int (length ?q) = max 0 (- sint (sem_count (ss_sem (sc_sys c))))" using i(4) pc(1,2) by (simp add: pc_count_def)
  from i(2) obtain own where own: "\<And>a. a \<in> set ?q \<Longrightarrow> sem_queued (sc_sys c) (sc_pc c) (own a) a" by metis
  have inj: "inj_on own (set ?q)" using own sem_holds_unique by (intro inj_onI) (metis sem_queued_def)
  have "{p. sc_pc c p \<noteq> SIdle \<and> sem_blocked (sc_sys c) p} = own ` set ?q"
  proof (intro set_eqI iffI)
    fix p assume "p \<in> own ` set ?q"
    then show "p \<in> {p. sc_pc c p \<noteq> SIdle \<and> sem_blocked (sc_sys c) p}"
      using own by (fastforce simp: sem_queued_def sem_blocked_def prs_task_get_state_def)
  next
    fix p assume p: "p \<in> {p. sc_pc c p \<noteq> SIdle \<and> sem_blocked (sc_sys c) p}"
    then obtain a where "sem_holds (sc_pc c p) a" using assms(2) by (metis (mono_tags, lifting) mem_Collect_eq sem_holds.simps(3))
    then obtain b where b: "b \<in> set ?q" "sem_queued (sc_sys c) (sc_pc c) p b" using i(3) p by blast
    then have "own b = p" using own [OF b(1)] by (auto simp: sem_queued_def event_task_at_def)
    then show "p \<in> own ` set ?q" using b(1) by blast
  qed
  then show "int (card {p. sc_pc c p \<noteq> SIdle \<and> sem_blocked (sc_sys c) p}) = max 0 (- sint (sem_count (ss_sem (sc_sys c))))"
    using len inj i(1) by (simp add: card_image distinct_card)
qed

section \<open>Properties\<close>

text \<open>C20: From a new semaphore with a count of \<open>c0\<close> on, however any number of tasks interleave in prs_sem_wait and prs_sem_signal,
  step by step: the waits that have returned never outnumber \<open>c0\<close> and the signals together. Whenever no task is in the
  middle of a call, as many waiting tasks are still blocked as the waits outnumber \<open>c0\<close> and the signals, so that no
  signal is lost and every other waiting task can go on. (The signals stay below \<open>2 ^ 63\<close>.)\<close>

theorem sem_counts_waits:
  assumes "prs_sem_create god ops params memory waitq_memory = (god', Some sem, freed)" and "sint (sp_initial_count params) = int c0"
    and "(sem_step ops_of)\<^sup>*\<^sup>* (sem_start sem events dir) c" and "c0 + sc_signals c < 2 ^ 63"
  shows "sc_done c \<le> c0 + sc_signals c
    \<and> ((\<forall>p. sc_pc c p = SIdle \<or> (\<exists>a. sc_pc c p = SBlocked a)) \<longrightarrow>
        card {p. sc_pc c p \<noteq> SIdle \<and> sem_blocked (sc_sys c) p} = sc_done c + card {p. sc_pc c p \<noteq> SIdle} - (c0 + sc_signals c))"
proof -
  have st: "sem_inv (int c0) (sem_start sem events dir)" using sem_inv_start [OF assms(1), of events dir] assms(2) by simp
  have "int c0 + int (sc_signals c) < 2 ^ 63" using assms(4) by simp
  note inv = sem_inv_reach [OF assms(3) st this]
  have "card {p. sc_pc c p \<noteq> SIdle \<and> sem_blocked (sc_sys c) p} = sc_done c + card {p. sc_pc c p \<noteq> SIdle} - (c0 + sc_signals c)"
    if "\<forall>p. sc_pc c p = SIdle \<or> (\<exists>a. sc_pc c p = SBlocked a)"
    using sem_quiet [OF inv that] sem_invD(5) [OF inv] by (simp only: max_def split: if_splits)
  then show ?thesis using sem_done_bound [OF inv] by simp
qed

theorem sem_counts_waits_witness:
  "\<exists>god sem events dir c. prs_sem_create god_example 5 \<lparr>sp_max_count = 1, sp_initial_count = 0\<rparr> (Some 300) (Some 400) = (god, Some sem, [])
    \<and> (sem_step (\<lambda>_. \<lparr>op_destroy = None, op_free = None, op_print = None\<rparr>))\<^sup>*\<^sup>* (sem_start sem events dir) c
    \<and> card {p. sc_pc c p \<noteq> SIdle \<and> sem_blocked (sc_sys c) p} = 1"
proof -
  let ?ops = "\<lambda>_. \<lparr>op_destroy = None, op_free = None, op_print = None\<rparr>" and ?ev = "\<lambda>_. event_example"
  obtain god e where g: "god_wf god" "god_live god 1 = Some e" "goe_object e = 77" "god_refs (goe_header e) = 1"
    by (rule god_example_alloc) auto
  have "snd (prs_god_alloc_and_lock god_example 300 5) = 1" by code_simp
  then obtain god' where "prs_god_alloc_and_lock god_example 300 5 = (god', 1)" by (metis prod.collapse)
  then obtain sem where sem: "prs_sem_create god_example 5 \<lparr>sp_max_count = 1, sp_initial_count = 0\<rparr> (Some 300) (Some 400) = (god', Some sem, [])"
      "sem_waitq sem = []" "sem_count sem = 0" by (simp add: prs_sem_create_def PRS_OBJECT_ID_INVALID_def)
  define c0 where "c0 = sem_start sem ?ev (god, event_world_example)"
  have at: "event_task_at god (task_id (tw_tasks event_world_example 77)) 77"
    using g by (auto simp: event_task_at_def event_world_example_def task_example_def)
  obtain s1 where s1: "sem_wait_push (sem_as 77 (sc_sys c0)) 77 1 (Some 500) = Some (s1, 500)" "sem_count (ss_sem s1) = 0"
    using sem(3)
    by (cases "prs_task_block (tw_tasks event_world_example 77)") (simp add: c0_def sem_start_def sem_wait_push_def sem_as_def prs_event_create_def)
  define c1 where "c1 = c0\<lparr>sc_sys := s1, sc_pc := (sc_pc c0)(77 := SPushed 500)\<rparr>"
  have st1: "sem_step ?ops c0 c1" unfolding c1_def by (rule push) (use at s1(1) sem(2) in \<open>simp_all add: c0_def sem_start_def\<close>)
  obtain s2 where s2: "sem_fetch_sub (sc_sys c1) = (s2, 0)" using s1(2) by (simp add: c1_def sem_fetch_sub_def atomic_fetch_sub_def)
  define c2 where "c2 = c1\<lparr>sc_sys := s2, sc_pc := (sc_pc c1)(77 := SBlocked 500)\<rparr>"
  have st2: "sem_step ?ops c1 c2" unfolding c2_def using decrement [of c1 77 500 s2 0 ?ops] s2 by (simp add: c1_def)
  have reach: "(sem_step ?ops)\<^sup>*\<^sup>* (sem_start sem ?ev (god, event_world_example)) c2"
    using st1 st2 unfolding c0_def [symmetric] by (meson converse_rtranclp_into_rtranclp r_into_rtranclp)
  have pc: "sc_pc c2 = (\<lambda>_. SIdle)(77 := SBlocked 500)" "sc_signals c2 = 0" "sc_done c2 = 0"
    by (simp_all add: c2_def c1_def c0_def sem_start_def)
  have one: "{p. sc_pc c2 p \<noteq> SIdle} = {77}" by (auto simp: pc(1))
  have "card {p. sc_pc c2 p \<noteq> SIdle \<and> sem_blocked (sc_sys c2) p} = 1"
    using sem_counts_waits [OF sem(1) _ reach, of 0] one by (simp add: pc)
  then show ?thesis using sem(1) reach by blast
qed

text \<open>The timer's signal of an event.\<close>

definition sem_timer_signal :: "task_world god_ops \<Rightarrow> sem_system \<Rightarrow> ptr \<Rightarrow> sem_system \<times> ptr list" where
  "sem_timer_signal ops_of sys a =
     (case prs_event_signal ops_of (ss_dir sys) (ss_events sys a) PRS_SEM_EVENT_TYPE_TIMEOUT of
        (dir, event, _, freed) \<Rightarrow> (sys\<lparr>ss_events := (ss_events sys)(a := event), ss_dir := dir\<rparr>, freed))"

text \<open>The first signal of an event with two sources unblocks the task, and the second only frees the event.\<close>

lemma event_two_signals:
  assumes "event_task_at god (ev_task_id ev) p" and "task_token (tw_tasks w p) = ev_token ev" and "ev_refcnt ev = 2"
  obtains w' where "prs_event_signal ops_of (god, w) ev ty = ((god, w'), ev\<lparr>ev_refcnt := 1\<rparr>, 0, [])"
    "prs_task_get_last_unblock_cause (tw_tasks w' p) = ty"
    "\<forall>ty'. prs_event_signal ops_of (god, w') (ev\<lparr>ev_refcnt := 1\<rparr>) ty' =
      ((god, w'), ev\<lparr>ev_refcnt := 0\<rparr>, PRS_EVENT_STATE_FREED OR PRS_EVENT_STATE_SIGNALED, [ev_addr ev])"
proof -
  obtain t where t: "event_unblock w p (ev_token ev) ty = (w\<lparr>tw_tasks := (tw_tasks w)(p := t),
      tw_ready := (if p = tw_current w then tw_ready w else tw_ready w @ [p])\<rparr>, True)"
    "task_token t \<noteq> ev_token ev" "prs_task_get_last_unblock_cause t = ty"
    by (rule event_unblock_fresh [OF assms(2)])
  define w' where "w' = w\<lparr>tw_tasks := (tw_tasks w)(p := t), tw_ready := (if p = tw_current w then tw_ready w else tw_ready w @ [p])\<rparr>"
  have at: "event_task_at god (ev_task_id (ev\<lparr>ev_refcnt := 1\<rparr>)) p" using assms(1) by simp
  have "task_token (tw_tasks w' p) \<noteq> ev_token (ev\<lparr>ev_refcnt := 1\<rparr>)" using t(2) by (simp add: w'_def)
  note stale = event_unblock_stale [OF this]
  have "prs_event_signal ops_of (god, w) ev ty = ((god, w'), ev\<lparr>ev_refcnt := 1\<rparr>, 0, [])"
    unfolding prs_event_signal_def event_step [OF assms(1)] using t(1) assms(3) by (simp add: w'_def [symmetric] event_flags_def)
  moreover have "prs_event_signal ops_of (god, w') (ev\<lparr>ev_refcnt := 1\<rparr>) ty' =
      ((god, w'), ev\<lparr>ev_refcnt := 0\<rparr>, PRS_EVENT_STATE_FREED OR PRS_EVENT_STATE_SIGNALED, [ev_addr ev])" for ty'
    unfolding prs_event_signal_def event_step [OF at] using stale by (simp add: event_flags_def)
  ultimately show thesis using t(3) by (intro that [of w']) (simp_all add: w'_def)
qed

lemma sem_wait_timeout_blocks:
  assumes "sem_count (ss_sem sys) = 0" and "sem_waitq (ss_sem sys) = []" and "ss_dir sys = (god, w)" and "tw_current w = p"
    and "event_task_at god (task_id (tw_tasks w p)) p"
    and "prs_timer_queue timer clock a PRS_SEM_EVENT_TYPE_TIMEOUT timeout = Some (timer', n)"
  obtains sys' w' ev where "prs_sem_wait_timeout ops_of sys timer clock (Some a) True timeout = (sys', timer', SemSchedule (Some n), [])"
    "sem_count (ss_sem sys') = - 1" "sem_waitq (ss_sem sys') = [a]" "ss_dir sys' = (god, w')" "ss_events sys' a = ev"
    "event_task_at god (ev_task_id ev) p" "task_token (tw_tasks w' p) = ev_token ev" "ev_refcnt ev = 2" "ev_addr ev = a"
proof -
  obtain t tok where t: "prs_task_block (tw_tasks w p) = (t, tok)" by fastforce
  then have "task_token t = tok" "task_id t = task_id (tw_tasks w p)" by (auto simp: prs_task_block_def Let_def)
  note t' = this
  define ev where "ev = \<lparr>ev_addr = a, ev_task_id = task_id t, ev_token = tok, ev_initial_refcnt = 2, ev_refcnt = 2\<rparr>"
  define w' where "w' = w\<lparr>tw_tasks := (tw_tasks w)(p := t)\<rparr>"
  have "sem_wait_push sys p 2 (Some a) =
      Some (sys\<lparr>ss_sem := (ss_sem sys)\<lparr>sem_waitq := [a]\<rparr>, ss_events := (ss_events sys)(a := ev), ss_dir := (god, w')\<rparr>, a)"
    using assms(2,3) t by (simp add: sem_wait_push_def prs_event_create_def ev_def w'_def)
  then have run: "prs_sem_wait_timeout ops_of sys timer clock (Some a) True timeout =
      (sys\<lparr>ss_sem := (ss_sem sys)\<lparr>sem_waitq := [a], sem_count := - 1\<rparr>, ss_events := (ss_events sys)(a := ev), ss_dir := (god, w')\<rparr>,
       timer', SemSchedule (Some n), [])"
    using assms(1,3,4,6) by (simp add: prs_sem_wait_timeout_def sem_fetch_sub_def atomic_fetch_sub_def)
  show thesis by (rule that [of _ w' ev, OF run]) (use t' assms(5) in \<open>simp_all add: ev_def w'_def\<close>)
qed

text \<open>C21: A task that waits with a timeout on a semaphore whose count is zero is unblocked by whichever comes first. If a signal comes
  first, the wait returns PRS_OK, the count is zero again, and the timer's release frees the event. If the timer comes first, the wait returns
  PRS_TIMEOUT, but the decrement of the count stays: the next signal unblocks no task and only brings the count back to zero,
  so that the wait after it blocks although there was a signal for it.\<close>

theorem sem_timeout_outcomes:
  assumes "sem_count (ss_sem sys) = 0" and "sem_waitq (ss_sem sys) = []" and "ss_dir sys = (god, w)" and "tw_current w = p" and "a \<noteq> 0"
    and "event_task_at god (task_id (tw_tasks w p)) p"
    and "prs_timer_queue timer clock a PRS_SEM_EVENT_TYPE_TIMEOUT timeout = Some (timer', n)"
  shows "\<exists>sys'. prs_sem_wait_timeout ops_of sys timer clock (Some a) True timeout = (sys', timer', SemSchedule (Some n), [])
    \<and> (\<exists>sys1 sys2. prs_sem_signal ops_of sys' = (sys1, []) \<and> snd (sem_wait_timeout_resume sys1 timer' p n) = PRS_OK
        \<and> sem_count (ss_sem sys1) = 0 \<and> sem_waitq (ss_sem sys1) = [] \<and> sem_timer_signal ops_of sys1 a = (sys2, [a]) \<and> ss_dir sys2 = ss_dir sys1)
    \<and> (\<exists>sys1 sys2. sem_timer_signal ops_of sys' a = (sys1, []) \<and> snd (sem_wait_timeout_resume sys1 timer' p n) = PRS_TIMEOUT
        \<and> prs_sem_signal ops_of sys1 = (sys2, [a]) \<and> ss_dir sys2 = ss_dir sys1 \<and> sem_count (ss_sem sys2) = 0
        \<and> (\<forall>b. fst (snd (prs_sem_wait ops_of sys2 (Some b) True)) = SemSchedule None))"
proof -
  obtain sys' w' ev where s: "prs_sem_wait_timeout ops_of sys timer clock (Some a) True timeout = (sys', timer', SemSchedule (Some n), [])"
    "sem_count (ss_sem sys') = - 1" "sem_waitq (ss_sem sys') = [a]" "ss_dir sys' = (god, w')" "ss_events sys' a = ev"
    and ev: "event_task_at god (ev_task_id ev) p" "task_token (tw_tasks w' p) = ev_token ev" "ev_refcnt ev = 2" "ev_addr ev = a"
    by (rule sem_wait_timeout_blocks [OF assms(1-4,6,7)])
  obtain w1 where f1: "prs_event_signal ops_of (god, w') ev PRS_SEM_EVENT_TYPE_SIGNAL = ((god, w1), ev\<lparr>ev_refcnt := 1\<rparr>, 0, [])"
    "prs_task_get_last_unblock_cause (tw_tasks w1 p) = PRS_SEM_EVENT_TYPE_SIGNAL"
    "\<forall>ty'. prs_event_signal ops_of (god, w1) (ev\<lparr>ev_refcnt := 1\<rparr>) ty' =
      ((god, w1), ev\<lparr>ev_refcnt := 0\<rparr>, PRS_EVENT_STATE_FREED OR PRS_EVENT_STATE_SIGNALED, [ev_addr ev])"
    by (rule event_two_signals [OF ev(1-3)])
  obtain w2 where f2: "prs_event_signal ops_of (god, w') ev PRS_SEM_EVENT_TYPE_TIMEOUT = ((god, w2), ev\<lparr>ev_refcnt := 1\<rparr>, 0, [])"
    "prs_task_get_last_unblock_cause (tw_tasks w2 p) = PRS_SEM_EVENT_TYPE_TIMEOUT"
    "\<forall>ty'. prs_event_signal ops_of (god, w2) (ev\<lparr>ev_refcnt := 1\<rparr>) ty' =
      ((god, w2), ev\<lparr>ev_refcnt := 0\<rparr>, PRS_EVENT_STATE_FREED OR PRS_EVENT_STATE_SIGNALED, [ev_addr ev])"
    by (rule event_two_signals [OF ev(1-3)])
  have flags: "(PRS_EVENT_STATE_FREED OR PRS_EVENT_STATE_SIGNALED) AND PRS_EVENT_STATE_SIGNALED \<noteq> 0"
    by (simp add: PRS_EVENT_STATE_FREED_def PRS_EVENT_STATE_SIGNALED_def)
  have types: "PRS_SEM_EVENT_TYPE_TIMEOUT \<noteq> PRS_SEM_EVENT_TYPE_SIGNAL" by (simp add: PRS_SEM_EVENT_TYPE_TIMEOUT_def PRS_SEM_EVENT_TYPE_SIGNAL_def)
  let ?sem = "(ss_sem sys')\<lparr>sem_count := 0, sem_waitq := []\<rparr>"
  let ?ok = "sys'\<lparr>ss_sem := ?sem, ss_events := (ss_events sys')(a := ev\<lparr>ev_refcnt := 1\<rparr>), ss_dir := (god, w1)\<rparr>"
  let ?late = "sys'\<lparr>ss_events := (ss_events sys')(a := ev\<lparr>ev_refcnt := 1\<rparr>), ss_dir := (god, w2)\<rparr>"
  let ?lost = "sys'\<lparr>ss_sem := ?sem, ss_events := (ss_events sys')(a := ev\<lparr>ev_refcnt := 0\<rparr>), ss_dir := (god, w2)\<rparr>"
  have ok: "prs_sem_signal ops_of sys' = (?ok, [])"
    using s(2-5) f1(1) assms(5) by (simp add: prs_sem_signal_def sem_fetch_add_def atomic_fetch_add_def prs_sem_signal_once_def)
  have ok2: "sem_timer_signal ops_of ?ok a = (?ok\<lparr>ss_events := (ss_events ?ok)(a := ev\<lparr>ev_refcnt := 0\<rparr>), ss_dir := (god, w1)\<rparr>, [a])"
    using f1(3) ev(4) by (simp add: sem_timer_signal_def)
  have late: "sem_timer_signal ops_of sys' a = (?late, [])" using s(4,5) f2(1) by (simp add: sem_timer_signal_def)
  have lost: "prs_sem_signal ops_of ?late = (?lost, [a])"
    using s(2-5) f2(3) assms(5) ev(4) flags by (simp add: prs_sem_signal_def sem_fetch_add_def atomic_fetch_add_def prs_sem_signal_once_def)
  have blocks: "fst (snd (prs_sem_wait ops_of ?lost (Some b) True)) = SemSchedule None" for b
    by (cases "prs_task_block (tw_tasks w2 (tw_current w2))")
      (simp add: prs_sem_wait_def sem_wait_push_def prs_event_create_def sem_fetch_sub_def atomic_fetch_sub_def)
  have ret: "snd (sem_wait_timeout_resume ?ok timer' p n) = PRS_OK" "snd (sem_wait_timeout_resume ?late timer' p n) = PRS_TIMEOUT"
    using f1(2) f2(2) types by (simp_all add: sem_wait_timeout_resume_def)
  show ?thesis
    by (rule exI [of _ sys'], intro conjI, rule s(1), intro exI conjI, rule ok, rule ret, simp, simp, rule ok2, simp,
        intro exI conjI, rule late, rule ret, rule lost, simp, simp, simp add: blocks)
qed

theorem sem_timeout_outcomes_witness:
  "\<exists>god timer' sys' sys1 sys2.
     prs_sem_wait_timeout (\<lambda>_. \<lparr>op_destroy = None, op_free = None, op_print = None\<rparr>)
       \<lparr>ss_sem = \<lparr>sem_addr = 300, sem_id = 2, sem_max_count = 1, sem_count = 0, sem_waitq_addr = 400, sem_waitq = []\<rparr>,
        ss_events = (\<lambda>_. event_example), ss_dir = (god, event_world_example\<lparr>tw_current := 77\<rparr>)\<rparr>
       timer_example 1000 (Some 500) True 300 = (sys', timer', SemSchedule (Some 1), [])
     \<and> sem_timer_signal (\<lambda>_. \<lparr>op_destroy = None, op_free = None, op_print = None\<rparr>) sys' 500 = (sys1, [])
     \<and> prs_sem_signal (\<lambda>_. \<lparr>op_destroy = None, op_free = None, op_print = None\<rparr>) sys1 = (sys2, [500]) \<and> ss_dir sys2 = ss_dir sys1"
proof -
  let ?ops = "\<lambda>_. \<lparr>op_destroy = None, op_free = None, op_print = None\<rparr>"
  obtain god e where g: "god_wf god" "god_live god 1 = Some e" "goe_object e = 77" "god_refs (goe_header e) = 1"
    by (rule god_example_alloc) auto
  let ?w = "event_world_example\<lparr>tw_current := 77\<rparr>"
  define sys where "sys = \<lparr>ss_sem = \<lparr>sem_addr = 300, sem_id = 2, sem_max_count = 1, sem_count = 0, sem_waitq_addr = 400, sem_waitq = []\<rparr>,
        ss_events = (\<lambda>_. event_example), ss_dir = (god, ?w)\<rparr>"
  have at: "event_task_at god (task_id (tw_tasks ?w 77)) 77"
    using g by (auto simp: event_task_at_def event_world_example_def task_example_def)
  have "map_option snd (prs_timer_queue timer_example 1000 500 PRS_SEM_EVENT_TYPE_TIMEOUT 300) = Some 1" by code_simp
  then obtain timer' where q: "prs_timer_queue timer_example 1000 500 PRS_SEM_EVENT_TYPE_TIMEOUT 300 = Some (timer', 1)" by auto
  have s: "sem_count (ss_sem sys) = 0" "sem_waitq (ss_sem sys) = []" "ss_dir sys = (god, ?w)" "tw_current ?w = 77" "(500 :: ptr) \<noteq> 0"
    by (simp_all add: sys_def)
  from sem_timeout_outcomes [OF s at q, of ?ops] show ?thesis unfolding sys_def by blast
qed

end
