(* ===== verification/Name.thy ===== *)
theory Name
  imports God
begin

text \<open>
  The name resolver of \<^verbatim>\<open>prs/name.c\<close>: a hash table from the names of objects to their IDs. A bucket is the
  sequence of its nodes, each with its address and the ID it holds; nodes are appended and used again, but never
  taken out. The names are read from memory, a function from addresses to C strings, at the object's address
  plus an offset.
\<close>

section \<open>Operations\<close>

type_synonym name_node = "ptr \<times> prs_object_id_t"

record prs_name =
  nm_addr :: ptr
  nm_max_entries :: u64
  nm_string_offset :: u64
  nm_entries_addr :: ptr
  nm_entries :: "name_node list list"

record prs_name_create_params =
  np_max_entries :: u64
  np_string_offset :: u64

text \<open>A \<^verbatim>\<open>char\<close> is signed on amd64, so that it is extended with its sign before it meets the hash.\<close>

definition prs_name_hash :: "string \<Rightarrow> u32" where
  "prs_name_hash key = fold (\<lambda>c hash. (scast (of_char c :: u8) XOR hash) * 0x01000193) key 0x811C9DC5"

definition prs_name_get_key :: "prs_name \<Rightarrow> (ptr \<Rightarrow> string) \<Rightarrow> ptr \<Rightarrow> string" where
  "prs_name_get_key name mem obj = mem (obj + nm_string_offset name)"

text \<open>The index of the bucket.\<close>

definition prs_name_get_entry :: "prs_name \<Rightarrow> string \<Rightarrow> nat" where
  "prs_name_get_entry name key =
     (let hash = prs_name_hash key;
          entry_index = ucast (ucast hash mod nm_max_entries name :: u64) :: u32
      in unat entry_index)"

text \<open>Missing memory is fatal (\<open>None\<close>).\<close>

definition prs_name_create :: "prs_name_create_params \<Rightarrow> ptr option \<Rightarrow> ptr option \<Rightarrow> prs_name option" where
  "prs_name_create params memory entries_memory =
     (case memory of
        None \<Rightarrow> None
      | Some addr \<Rightarrow>
          (case entries_memory of
             None \<Rightarrow> None
           | Some entries_addr \<Rightarrow>
               Some \<lparr>nm_addr = addr, nm_max_entries = np_max_entries params, nm_string_offset = np_string_offset params,
                     nm_entries_addr = entries_addr, nm_entries = replicate (unat (np_max_entries params)) []\<rparr>))"

text \<open>What is freed.\<close>

definition prs_name_destroy :: "prs_name \<Rightarrow> ptr list" where
  "prs_name_destroy name = concat (map (map fst) (nm_entries name)) @ [nm_entries_addr name, nm_addr name]"

definition name_set_entry :: "prs_name \<Rightarrow> nat \<Rightarrow> name_node list \<Rightarrow> prs_name" where
  "name_set_entry name i nodes = name\<lparr>nm_entries := (nm_entries name)[i := nodes]\<rparr>"

text \<open>The loop of \<^verbatim>\<open>prs_name_alloc\<close> over the nodes of a bucket.\<close>

fun name_alloc_loop :: "prs_object_id_t \<Rightarrow> ptr option \<Rightarrow> name_node list \<Rightarrow> (name_node list \<times> prs_result) option" where
  "name_alloc_loop oid memory [] =
     (case memory of None \<Rightarrow> None | Some new_node \<Rightarrow> Some ([(new_node, oid)], PRS_OK))"
| "name_alloc_loop oid memory ((node, object_id) # nodes) =
     (if object_id = oid then Some ((node, object_id) # nodes, PRS_ALREADY_EXISTS)
      else if object_id = PRS_OBJECT_ID_INVALID then Some ((node, oid) # nodes, PRS_OK)
      else map_option (apfst (Cons (node, object_id))) (name_alloc_loop oid memory nodes))"

definition prs_name_alloc ::
  "'w god_ops \<Rightarrow> (ptr \<Rightarrow> string) \<Rightarrow> prs_name \<Rightarrow> 'w god_world \<Rightarrow> prs_object_id_t \<Rightarrow> ptr option
    \<Rightarrow> (prs_name \<times> 'w god_world \<times> prs_result) option" where
  "prs_name_alloc ops_of mem name s oid memory =
     (let (god, obj) = prs_god_lock (fst s) oid
      in if obj = 0 then Some (name, (god, snd s), PRS_NOT_FOUND)
         else
           (let str = prs_name_get_key name mem obj;
                entry = prs_name_get_entry name str
            in case name_alloc_loop oid memory (nm_entries name ! entry) of
                 None \<Rightarrow> None
               | Some (nodes, result) \<Rightarrow>
                   Some (name_set_entry name entry nodes, prs_god_unlock ops_of (god, snd s) oid, result)))"

fun name_free_loop :: "prs_object_id_t \<Rightarrow> name_node list \<Rightarrow> name_node list \<times> prs_result" where
  "name_free_loop oid [] = ([], PRS_NOT_FOUND)"
| "name_free_loop oid ((node, object_id) # nodes) =
     (if object_id = oid then ((node, PRS_OBJECT_ID_INVALID) # nodes, PRS_OK)
      else apfst (Cons (node, object_id)) (name_free_loop oid nodes))"

definition prs_name_free ::
  "'w god_ops \<Rightarrow> (ptr \<Rightarrow> string) \<Rightarrow> prs_name \<Rightarrow> 'w god_world \<Rightarrow> prs_object_id_t \<Rightarrow> prs_name \<times> 'w god_world \<times> prs_result" where
  "prs_name_free ops_of mem name s oid =
     (let (god, obj) = prs_god_lock (fst s) oid
      in if obj = 0 then (name, (god, snd s), PRS_NOT_FOUND)
         else
           (let str = prs_name_get_key name mem obj;
                entry = prs_name_get_entry name str;
                (nodes, result) = name_free_loop oid (nm_entries name ! entry)
            in (name_set_entry name entry nodes, prs_god_unlock ops_of (god, snd s) oid, result)))"

fun name_find_loop ::
  "'w god_ops \<Rightarrow> (ptr \<Rightarrow> string) \<Rightarrow> prs_name \<Rightarrow> string \<Rightarrow> bool \<Rightarrow> name_node list \<Rightarrow> 'w god_world
    \<Rightarrow> 'w god_world \<times> prs_object_id_t" where
  "name_find_loop ops_of mem name key keep_locked [] s = (s, PRS_OBJECT_ID_INVALID)"
| "name_find_loop ops_of mem name key keep_locked ((node, object_id) # nodes) s =
     (if object_id \<noteq> PRS_OBJECT_ID_INVALID
      then
        (let (god, obj) = prs_god_lock (fst s) object_id;
             s = (god, snd s)
         in if obj \<noteq> 0
            then
              (let str = prs_name_get_key name mem obj;
                   found = (str = key);
                   s = (if \<not> found \<or> \<not> keep_locked then prs_god_unlock ops_of s object_id else s)
               in if found then (s, object_id) else name_find_loop ops_of mem name key keep_locked nodes s)
            else name_find_loop ops_of mem name key keep_locked nodes s)
      else name_find_loop ops_of mem name key keep_locked nodes s)"

definition prs_name_find_internal ::
  "'w god_ops \<Rightarrow> (ptr \<Rightarrow> string) \<Rightarrow> prs_name \<Rightarrow> 'w god_world \<Rightarrow> string \<Rightarrow> bool \<Rightarrow> 'w god_world \<times> prs_object_id_t" where
  "prs_name_find_internal ops_of mem name s key keep_locked =
     name_find_loop ops_of mem name key keep_locked (nm_entries name ! prs_name_get_entry name key) s"

definition prs_name_find ::
  "'w god_ops \<Rightarrow> (ptr \<Rightarrow> string) \<Rightarrow> prs_name \<Rightarrow> 'w god_world \<Rightarrow> string \<Rightarrow> 'w god_world \<times> prs_object_id_t" where
  "prs_name_find ops_of mem name s key = prs_name_find_internal ops_of mem name s key False"

definition prs_name_find_and_lock ::
  "'w god_ops \<Rightarrow> (ptr \<Rightarrow> string) \<Rightarrow> prs_name \<Rightarrow> 'w god_world \<Rightarrow> string \<Rightarrow> 'w god_world \<times> prs_object_id_t" where
  "prs_name_find_and_lock ops_of mem name s key = prs_name_find_internal ops_of mem name s key True"

section \<open>The hash\<close>

text \<open>The 32-bit FNV-1a hash, on bytes.\<close>

definition fnv1a :: "u8 list \<Rightarrow> u32" where
  "fnv1a bytes = fold (\<lambda>b hash. (hash XOR ucast b) * 16777619) bytes 2166136261"

lemma scast_ascii:
  assumes "unat (b :: u8) < 128"
  shows "(scast b :: u32) = ucast b"
proof -
  have "take_bit 7 b = b"
    using assms by (simp add: word_eq_iff_unat unsigned_take_bit_eq take_bit_eq_mod unat_mod)
  then have "bit b n \<longleftrightarrow> n < 7 \<and> bit b n" for n by (metis bit_take_bit_iff)
  then have "bit b 7 = False" "bit b n = (n < 7 \<and> bit b n)" for n by blast+
  then show ?thesis by (intro bit_word_eqI) (simp add: bit_simps min_def, metis less_le_not_le)
qed

lemma name_hash_ascii:
  "\<forall>c \<in> set key. (of_char c :: nat) < 128 \<Longrightarrow> prs_name_hash key = fnv1a (map of_char key)"
proof -
  have step: "(scast (of_char c :: u8) XOR h) * 0x01000193 = (h XOR ucast (of_char c :: u8)) * 16777619" if "(of_char c :: nat) < 128" for c and h :: u32
  proof -
    have "(of_char c :: u8) = word_of_nat (of_char c :: nat)" by (rule of_nat_of_char [symmetric])
    then have "unat (of_char c :: u8) = of_char c" using that by (simp only: unat_of_nat) simp
    then show ?thesis using scast_ascii [of "of_char c"] that by (simp add: xor.commute)
  qed
  assume "\<forall>c \<in> set key. (of_char c :: nat) < 128"
  then show ?thesis unfolding prs_name_hash_def fnv1a_def by (induction key arbitrary: rule: rev_induct) (simp_all add: step)
qed

section \<open>Buckets\<close>

text \<open>The object of an ID carries a name.\<close>

definition name_named :: "(ptr \<Rightarrow> string) \<Rightarrow> prs_name \<Rightarrow> prs_god \<Rightarrow> prs_object_id_t \<Rightarrow> string \<Rightarrow> bool" where
  "name_named mem name god oid key \<longleftrightarrow> (\<exists>e. god_live god oid = Some e \<and> prs_name_get_key name mem (goe_object e) = key)"

text \<open>A directory whose references are not at their limit.\<close>

definition name_god_ok :: "prs_god \<Rightarrow> bool" where
  "name_god_ok god \<longleftrightarrow> god_wf god \<and> (\<forall>oid e. god_live god oid = Some e \<longrightarrow> god_refs (goe_header e) < 4095)"

lemma name_lock_cases:
  assumes "name_god_ok god"
  obtains (dead) "god_live god oid = None" "prs_god_lock god oid = (god, 0)"
  | (live) e god' where "god_live god oid = Some e" "prs_god_lock god oid = (god', goe_object e)" "goe_object e \<noteq> 0"
      "\<forall>w. prs_god_unlock ops_of (god', w) oid = (god, w :: 'w)"
proof (cases "god_live god oid")
  case None
  then show thesis using dead assms by (simp add: god_dead name_god_ok_def)
next
  case (Some e)
  have wf: "god_wf god" "god_refs (goe_header e) < 4095" using assms Some by (auto simp: name_god_ok_def)
  show thesis
    by (rule live [OF Some god_lock_entry_live(2) [OF wf(1) Some wf(2)]])
      (use god_live_fields(8) [OF wf(1) Some] god_lock_unlock [OF wf(1) Some wf(2), of ops_of] in simp_all)
qed

definition name_first :: "(ptr \<Rightarrow> string) \<Rightarrow> prs_name \<Rightarrow> prs_god \<Rightarrow> string \<Rightarrow> name_node list \<Rightarrow> prs_object_id_t" where
  "name_first mem name god key nodes =
     (case find (\<lambda>n. snd n \<noteq> 0 \<and> name_named mem name god (snd n) key) nodes of None \<Rightarrow> 0 | Some n \<Rightarrow> snd n)"

lemma name_find_loop_eq:
  assumes "name_god_ok god"
  shows "name_find_loop ops_of mem name key keep nodes (god, w) =
    (let oid = name_first mem name god key nodes in ((if keep \<and> oid \<noteq> 0 then fst (prs_god_lock god oid) else god, w), oid))"
proof (induction nodes)
  case Nil
  then show ?case by (simp add: name_first_def PRS_OBJECT_ID_INVALID_def)
next
  case (Cons n nodes)
  obtain a oid where n: "n = (a, oid)" by fastforce
  have skip: "name_first mem name god key (n # nodes) = name_first mem name god key nodes" if "\<not> (oid \<noteq> 0 \<and> name_named mem name god oid key)"
    using that n by (auto simp: name_first_def)
  have take: "name_first mem name god key (n # nodes) = oid" if "oid \<noteq> 0" "name_named mem name god oid key"
    using that n by (simp add: name_first_def)
  show ?case
  proof (cases "oid = 0")
    case True
    then show ?thesis using Cons.IH skip n by (simp add: PRS_OBJECT_ID_INVALID_def)
  next
    case False
    show ?thesis using assms
    proof (cases rule: name_lock_cases [where oid = oid and ops_of = ops_of])
      case dead
      then have "\<not> name_named mem name god oid key" by (simp add: name_named_def)
      then show ?thesis using Cons.IH skip n False dead(2) by (simp add: PRS_OBJECT_ID_INVALID_def)
    next
      case (live e god')
      then have nm: "name_named mem name god oid key \<longleftrightarrow> prs_name_get_key name mem (goe_object e) = key" by (simp add: name_named_def)
      show ?thesis
        using Cons.IH skip take n False live(2-4) nm
        by (cases "prs_name_get_key name mem (goe_object e) = key") (simp_all add: PRS_OBJECT_ID_INVALID_def)
    qed
  qed
qed

text \<open>The loops on the IDs of a bucket.\<close>

definition node_ids :: "name_node list \<Rightarrow> prs_object_id_t set" where
  "node_ids nodes = snd ` set nodes - {0}"

lemma name_alloc_loop_new:
  assumes "oid \<notin> node_ids nodes" and "oid \<noteq> 0"
  obtains nodes' where "name_alloc_loop oid (Some new) nodes = Some (nodes', PRS_OK)" "node_ids nodes' = insert oid (node_ids nodes)"
    "\<exists>before after. map snd nodes' = before @ oid # after \<and> (map snd nodes = before @ 0 # after \<or> map snd nodes = before \<and> after = [])"
proof -
  have "\<exists>nodes'. name_alloc_loop oid (Some new) nodes = Some (nodes', PRS_OK) \<and> node_ids nodes' = insert oid (node_ids nodes)
    \<and> (\<exists>before after. map snd nodes' = before @ oid # after \<and> (map snd nodes = before @ 0 # after \<or> map snd nodes = before \<and> after = []))"
    using assms
  proof (induction nodes)
    case Nil
    then show ?case by (auto simp: node_ids_def)
  next
    case (Cons n nodes)
    obtain a i where n: "n = (a, i)" by fastforce
    have ne: "i \<noteq> oid" using Cons.prems n by (auto simp: node_ids_def)
    show ?case
    proof (cases "i = 0")
      case True
      then show ?thesis using n ne Cons.prems(2)
        by (intro exI [of _ "(a, oid) # nodes"] conjI exI [of _ "[]"] exI [of _ "map snd nodes"])
          (auto simp: node_ids_def PRS_OBJECT_ID_INVALID_def)
    next
      case False
      have "oid \<notin> node_ids nodes" using Cons.prems(1) by (auto simp: node_ids_def)
      from Cons.IH [OF this Cons.prems(2)] obtain nodes' before after where
        IH: "name_alloc_loop oid (Some new) nodes = Some (nodes', PRS_OK)" "node_ids nodes' = insert oid (node_ids nodes)"
          "map snd nodes' = before @ oid # after" "map snd nodes = before @ 0 # after \<or> map snd nodes = before \<and> after = []" by blast
      show ?thesis
        by (intro exI [of _ "n # nodes'"] conjI exI [of _ "i # before"] exI [of _ after])
          (use IH n ne False in \<open>auto simp: node_ids_def PRS_OBJECT_ID_INVALID_def\<close>)
    qed
  qed
  then show thesis using that by blast
qed

lemma name_free_loop_ids:
  "snd (name_free_loop oid nodes) = (if oid \<in> snd ` set nodes then PRS_OK else PRS_NOT_FOUND)"
  "oid \<in> snd ` set nodes \<Longrightarrow> \<exists>before after. map snd nodes = before @ oid # after \<and> oid \<notin> set before
     \<and> map snd (fst (name_free_loop oid nodes)) = before @ 0 # after"
  "oid \<notin> snd ` set nodes \<Longrightarrow> fst (name_free_loop oid nodes) = nodes"
proof -
  show "snd (name_free_loop oid nodes) = (if oid \<in> snd ` set nodes then PRS_OK else PRS_NOT_FOUND)"
    by (induction oid nodes rule: name_free_loop.induct) auto
  show "oid \<notin> snd ` set nodes \<Longrightarrow> fst (name_free_loop oid nodes) = nodes"
    by (induction oid nodes rule: name_free_loop.induct) auto
  show "\<exists>before after. map snd nodes = before @ oid # after \<and> oid \<notin> set before
     \<and> map snd (fst (name_free_loop oid nodes)) = before @ 0 # after" if "oid \<in> snd ` set nodes"
    using that
  proof (induction oid nodes rule: name_free_loop.induct)
    case (2 oid node i nodes)
    show ?case
    proof (cases "i = oid")
      case True
      then show ?thesis by (intro exI [of _ "[]"] exI [of _ "map snd nodes"]) (simp add: PRS_OBJECT_ID_INVALID_def)
    next
      case False
      with 2 obtain before after where "map snd nodes = before @ oid # after" "oid \<notin> set before"
        "map snd (fst (name_free_loop oid nodes)) = before @ 0 # after" by auto
      then show ?thesis using False by (intro exI [of _ "i # before"] exI [of _ after]) simp
    qed
  qed simp
qed

section \<open>The table\<close>

definition name_wf :: "prs_name \<Rightarrow> bool" where
  "name_wf name \<longleftrightarrow> nm_max_entries name \<noteq> 0 \<and> length (nm_entries name) = unat (nm_max_entries name)"

text \<open>The IDs that are registered; those of objects that are alive are in the bucket of their name.\<close>

definition name_ids :: "prs_name \<Rightarrow> prs_object_id_t set" where
  "name_ids name = (\<Union>nodes \<in> set (nm_entries name). node_ids nodes)"

definition name_placed :: "(ptr \<Rightarrow> string) \<Rightarrow> prs_god \<Rightarrow> prs_name \<Rightarrow> bool" where
  "name_placed mem god name \<longleftrightarrow>
     (\<forall>i < length (nm_entries name). \<forall>oid \<in> node_ids (nm_entries name ! i). \<forall>key. name_named mem name god oid key \<longrightarrow> prs_name_get_entry name key = i)"

lemma name_entry_mod:
  assumes "nm_max_entries name \<noteq> 0"
  shows "prs_name_get_entry name key = unat (prs_name_hash key) mod unat (nm_max_entries name)"
proof -
  let ?h = "prs_name_hash key" and ?m = "nm_max_entries name"
  have u: "unat (ucast ?h mod ?m :: u64) = unat ?h mod unat ?m" proof -
    have "unat (ucast ?h :: u64) = unat ?h" using unsigned_less [of ?h, where ?'a = nat] by (simp add: unsigned_ucast_eq take_bit_nat_eq_self)
    then show ?thesis by (simp add: unat_mod)
  qed
  have "unat ?h mod unat ?m \<le> unat ?h" by simp
  also have "unat ?h < 2 ^ 32" using unsigned_less [of ?h, where ?'a = nat] by simp
  finally show ?thesis unfolding prs_name_get_entry_def Let_def using u by (simp add: unsigned_ucast_eq take_bit_nat_eq_self)
qed

lemma name_entry_less: "name_wf name \<Longrightarrow> prs_name_get_entry name key < length (nm_entries name)"
  using name_entry_mod [of name key] by (simp add: name_wf_def unat_gt_0)

lemma name_first_cases:
  assumes "name_wf name" and "name_placed mem god name"
  shows "case name_first mem name god key (nm_entries name ! prs_name_get_entry name key) of
      oid \<Rightarrow> if oid = 0 then \<forall>i \<in> name_ids name. \<not> name_named mem name god i key else oid \<in> name_ids name \<and> name_named mem name god oid key"
proof -
  let ?i = "prs_name_get_entry name key"
  let ?nodes = "nm_entries name ! ?i"
  have len: "?i < length (nm_entries name)" by (rule name_entry_less [OF assms(1)])
  show ?thesis
  proof (cases "find (\<lambda>n. snd n \<noteq> 0 \<and> name_named mem name god (snd n) key) ?nodes")
    case None
    then have none: "snd n = 0 \<or> \<not> name_named mem name god (snd n) key" if "n \<in> set ?nodes" for n
      using that unfolding find_None_iff by blast
    have "\<not> name_named mem name god oid key" if "oid \<in> name_ids name" for oid
    proof
      assume named: "name_named mem name god oid key"
      from that obtain j where j: "j < length (nm_entries name)" "oid \<in> node_ids (nm_entries name ! j)"
        unfolding name_ids_def by (metis (no_types, lifting) UN_E in_set_conv_nth)
      then have "?i = j" using assms(2) named unfolding name_placed_def by blast
      then show False using j(2) none named by (auto simp: node_ids_def)
    qed
    then show ?thesis using None by (simp add: name_first_def)
  next
    case (Some n)
    then have n: "n \<in> set ?nodes" "snd n \<noteq> 0" "name_named mem name god (snd n) key"
      unfolding find_Some_iff by (metis nth_mem)+
    have "node_ids ?nodes \<subseteq> name_ids name" unfolding name_ids_def using len nth_mem by blast
    then have "snd n \<in> name_ids name" using n(1,2) by (auto simp: node_ids_def)
    then show ?thesis using Some n(2,3) by (simp add: name_first_def)
  qed
qed

lemma name_first_ids:
  assumes "map snd nodes = map snd nodes'"
  shows "name_first mem name god key nodes = name_first mem name god key nodes'"
proof -
  have "name_first mem name god key ns = (case find (\<lambda>i. i \<noteq> 0 \<and> name_named mem name god i key) (map snd ns) of None \<Rightarrow> 0 | Some i \<Rightarrow> i)" for ns
    by (induction ns) (simp_all add: name_first_def)
  then show ?thesis using assms by simp
qed

lemma name_set_entry_same [simp]:
  "prs_name_get_key (name_set_entry name i nodes) = prs_name_get_key name"
  "prs_name_get_entry (name_set_entry name i nodes) = prs_name_get_entry name"
  "name_named mem (name_set_entry name i nodes) = name_named mem name"
  "name_first mem (name_set_entry name i nodes) = name_first mem name"
  "name_wf (name_set_entry name i nodes) = name_wf name"
  by (simp_all add: name_set_entry_def prs_name_get_key_def prs_name_get_entry_def name_named_def name_first_def name_wf_def fun_eq_iff)

lemma name_set_entry_nth:
  "nm_entries (name_set_entry name i nodes) ! j = (if j = i \<and> i < length (nm_entries name) then nodes else nm_entries name ! j)"
  "length (nm_entries (name_set_entry name i nodes)) = length (nm_entries name)"
  by (cases "i < length (nm_entries name)") (auto simp: name_set_entry_def list_update_beyond)

lemma name_ids_bucket: "oid \<in> name_ids name \<longleftrightarrow> (\<exists>i < length (nm_entries name). oid \<in> node_ids (nm_entries name ! i))"
  unfolding name_ids_def by (auto simp: in_set_conv_nth) (metis nth_mem)

lemma name_find_eq:
  assumes "name_god_ok god"
  shows "prs_name_find ops_of mem name (god, w) key = ((god, w), name_first mem name god key (nm_entries name ! prs_name_get_entry name key))"
    and "prs_name_find_and_lock ops_of mem name (god, w) key =
      (let oid = name_first mem name god key (nm_entries name ! prs_name_get_entry name key)
       in ((if oid \<noteq> 0 then fst (prs_god_lock god oid) else god, w), oid))"
  by (simp_all add: prs_name_find_def prs_name_find_and_lock_def prs_name_find_internal_def name_find_loop_eq [OF assms] Let_def)

lemma name_alloc_live:
  assumes "name_god_ok god" and "god_live god oid = Some e"
  shows "prs_name_alloc ops_of mem name (god, w) oid memory =
    (let entry = prs_name_get_entry name (prs_name_get_key name mem (goe_object e))
     in map_option (\<lambda>(nodes, r). (name_set_entry name entry nodes, (god, w), r)) (name_alloc_loop oid memory (nm_entries name ! entry)))"
    and "prs_name_free ops_of mem name (god, w) oid =
    (let entry = prs_name_get_entry name (prs_name_get_key name mem (goe_object e)); (nodes, r) = name_free_loop oid (nm_entries name ! entry)
     in (name_set_entry name entry nodes, (god, w), r))"
proof -
  obtain god' where l: "prs_god_lock god oid = (god', goe_object e)" "goe_object e \<noteq> 0" "\<forall>w. prs_god_unlock ops_of (god', w) oid = (god, w)"
    by (rule name_lock_cases [where oid = oid and ops_of = ops_of, OF assms(1)]) (use assms(2) in auto)
  then show "prs_name_alloc ops_of mem name (god, w) oid memory =
    (let entry = prs_name_get_entry name (prs_name_get_key name mem (goe_object e))
     in map_option (\<lambda>(nodes, r). (name_set_entry name entry nodes, (god, w), r)) (name_alloc_loop oid memory (nm_entries name ! entry)))"
    by (simp add: prs_name_alloc_def Let_def split: option.splits)
  show "prs_name_free ops_of mem name (god, w) oid =
    (let entry = prs_name_get_entry name (prs_name_get_key name mem (goe_object e)); (nodes, r) = name_free_loop oid (nm_entries name ! entry)
     in (name_set_entry name entry nodes, (god, w), r))"
    using l by (simp add: prs_name_free_def Let_def)
qed

text \<open>An ID that is put into a free place of its bucket, and taken out again, leaves every search as it was.\<close>

lemma name_first_free: "name_first mem name god key (filter (\<lambda>n. snd n \<noteq> 0) nodes) = name_first mem name god key nodes"
  by (induction nodes) (auto simp: name_first_def)

lemma name_first_filter:
  assumes "filter (\<lambda>i. i \<noteq> 0) (map snd nodes) = filter (\<lambda>i. i \<noteq> 0) (map snd nodes')"
  shows "name_first mem name god key nodes = name_first mem name god key nodes'"
proof -
  have "map snd (filter (\<lambda>n. snd n \<noteq> 0) nodes) = map snd (filter (\<lambda>n. snd n \<noteq> 0) nodes')"
    using assms by (simp add: filter_map comp_def)
  from name_first_ids [OF this, of mem name god key] show ?thesis by (simp add: name_first_free)
qed

lemma name_alloc_free_loop:
  assumes "oid \<notin> node_ids nodes" and "oid \<noteq> 0"
  obtains nodes' where "name_alloc_loop oid (Some a) nodes = Some (nodes', PRS_OK)" "node_ids nodes' = insert oid (node_ids nodes)"
    "filter (\<lambda>i. i \<noteq> 0) (map snd (fst (name_free_loop oid nodes'))) = filter (\<lambda>i. i \<noteq> 0) (map snd nodes)"
    "snd (name_free_loop oid nodes') = PRS_OK"
proof -
  obtain nodes' where n: "name_alloc_loop oid (Some a) nodes = Some (nodes', PRS_OK)" "node_ids nodes' = insert oid (node_ids nodes)"
    "\<exists>before after. map snd nodes' = before @ oid # after \<and> (map snd nodes = before @ 0 # after \<or> map snd nodes = before \<and> after = [])"
    by (rule name_alloc_loop_new [OF assms])
  from n(3) obtain before after where b: "map snd nodes' = before @ oid # after"
    "map snd nodes = before @ 0 # after \<or> map snd nodes = before \<and> after = []" by blast
  have out: "oid \<notin> set (map snd nodes)" using assms by (auto simp: node_ids_def)
  then have nb: "oid \<notin> set before" "oid \<notin> set after" using b(2) by (elim disjE; simp del: set_map)+
  have "oid \<in> snd ` set nodes'" using b(1) by (metis in_set_conv_decomp set_map)
  with name_free_loop_ids [of oid nodes'] obtain before' after' where f: "map snd nodes' = before' @ oid # after'" "oid \<notin> set before'"
    "map snd (fst (name_free_loop oid nodes')) = before' @ 0 # after'" "snd (name_free_loop oid nodes') = PRS_OK" by auto
  have "before' = before" "after' = after" using f(1,2) b(1) nb by (auto simp: append_eq_append_conv2 Cons_eq_append_conv append_eq_Cons_conv)
  then have "filter (\<lambda>i. i \<noteq> 0) (map snd (fst (name_free_loop oid nodes'))) = filter (\<lambda>i. i \<noteq> 0) (map snd nodes)"
    using f(3) b(2) by auto
  then show thesis using that n(1,2) f(4) by blast
qed

lemma name_set_entry_new:
  assumes "name_wf name" and "name_placed mem god name" and "name_named mem name god oid key"
    and "node_ids nodes' = insert oid (node_ids (nm_entries name ! prs_name_get_entry name key))" and "oid \<noteq> 0"
  defines "name' \<equiv> name_set_entry name (prs_name_get_entry name key) nodes'"
  shows "name_wf name'" and "name_placed mem god name'" and "name_ids name' = insert oid (name_ids name)"
proof -
  let ?i = "prs_name_get_entry name key"
  have i: "?i < length (nm_entries name)" by (rule name_entry_less [OF assms(1)])
  have only: "k = key" if "name_named mem name god oid k" for k using that assms(3) by (auto simp: name_named_def)
  have bucket: "node_ids (nm_entries name' ! j) = (if j = ?i then insert oid (node_ids (nm_entries name ! j)) else node_ids (nm_entries name ! j))" for j
    using i assms(4) by (simp add: name'_def name_set_entry_nth)
  have len: "length (nm_entries name') = length (nm_entries name)" by (simp add: name'_def name_set_entry_nth)
  show "name_wf name'" using assms(1) by (simp add: name'_def)
  show "name_ids name' = insert oid (name_ids name)"
  proof (rule set_eqI)
    show "x \<in> name_ids name' \<longleftrightarrow> x \<in> insert oid (name_ids name)" for x
      unfolding name_ids_bucket insert_iff len bucket using i by (metis insert_iff)
  qed
  have "prs_name_get_entry name k = j" if "j < length (nm_entries name)" "x \<in> node_ids (nm_entries name' ! j)" "name_named mem name god x k" for j x k
  proof (cases "x = oid \<and> j = ?i")
    case True
    then show ?thesis using that(3) only by simp
  next
    case False
    then have "x \<in> node_ids (nm_entries name ! j)" using that(2) bucket [of j] by (auto split: if_splits)
    then show ?thesis using assms(2) that unfolding name_placed_def by blast
  qed
  then show "name_placed mem god name'" unfolding name_placed_def len by (simp add: name'_def)
qed

section \<open>Properties\<close>

text \<open>On names of ASCII characters prs_name_hash is the 32-bit FNV-1a hash of their bytes. On others it is not: the sign of a character
  is extended before it is combined with the hash.\<close>

theorem name_hash_fnv1a:
  assumes "\<forall>c \<in> set key. (of_char c :: nat) < 128"
  shows "prs_name_hash key = fnv1a (map of_char key) \<and> prs_name_hash [CHR 0xE9] \<noteq> fnv1a [0xE9]"
proof
  show "prs_name_hash key = fnv1a (map of_char key)" by (rule name_hash_ascii [OF assms])
  show "prs_name_hash [CHR 0xE9] \<noteq> fnv1a [0xE9]" by code_simp
qed

theorem name_hash_fnv1a_witness: "prs_name_hash ''prs'' = fnv1a [0x70, 0x72, 0x73]"
  using name_hash_fnv1a [of "''prs''"] by simp


text \<open>C23: Registering the object of a live ID that is not registered succeeds and keeps the table well-formed; a search for its name then
  returns an object of that name, and the new one if it is the only one. Taking it out again succeeds, and every search returns what
  it returned before.\<close>

theorem name_alloc_free_roundtrip:
  assumes "name_wf name" and "name_placed mem god name" and "name_god_ok god"
    and "god_live god oid = Some e" and "oid \<notin> name_ids name" and "key = prs_name_get_key name mem (goe_object e)"
  shows "\<exists>name' found name''. prs_name_alloc ops_of mem name (god, w) oid (Some a) = Some (name', (god, w), PRS_OK)
    \<and> name_wf name' \<and> name_placed mem god name' \<and> name_ids name' = insert oid (name_ids name)
    \<and> prs_name_find ops_of mem name' (god, w) key = ((god, w), found) \<and> name_named mem name' god found key
    \<and> ((\<forall>i \<in> name_ids name. \<not> name_named mem name god i key) \<longrightarrow> found = oid)
    \<and> prs_name_free ops_of mem name' (god, w) oid = (name'', (god, w), PRS_OK)
    \<and> (\<forall>k. prs_name_find ops_of mem name'' (god, w) k = prs_name_find ops_of mem name (god, w) k)"
proof -
  let ?i = "prs_name_get_entry name key"
  let ?nodes = "nm_entries name ! ?i"
  have i: "?i < length (nm_entries name)" by (rule name_entry_less [OF assms(1)])
  have oid: "oid \<noteq> 0" using god_live_fields(1) assms(3,4) by (auto simp: name_god_ok_def)
  have named: "name_named mem name god oid key" using assms(4,6) by (auto simp: name_named_def)
  have fresh: "oid \<notin> node_ids ?nodes" using assms(5) i by (auto simp: name_ids_bucket)
  then obtain nodes' where n: "name_alloc_loop oid (Some a) ?nodes = Some (nodes', PRS_OK)" "node_ids nodes' = insert oid (node_ids ?nodes)"
    "filter (\<lambda>i. i \<noteq> 0) (map snd (fst (name_free_loop oid nodes'))) = filter (\<lambda>i. i \<noteq> 0) (map snd ?nodes)"
    "snd (name_free_loop oid nodes') = PRS_OK"
    by (rule name_alloc_free_loop [OF _ oid])
  define name' where "name' = name_set_entry name ?i nodes'"
  have alloc: "prs_name_alloc ops_of mem name (god, w) oid (Some a) = Some (name', (god, w), PRS_OK)"
    unfolding name_alloc_live(1) [OF assms(3,4)] using n(1) assms(6) by (simp add: name'_def)
  note new = name_set_entry_new [OF assms(1,2) named n(2) oid, folded name'_def]
  define found where "found = name_first mem name' god key (nm_entries name' ! prs_name_get_entry name' key)"
  have find: "prs_name_find ops_of mem name' (god, w) key = ((god, w), found)" unfolding found_def by (rule name_find_eq(1) [OF assms(3)])
  have same: "name_named mem name' = name_named mem name" by (simp add: name'_def)
  have f: "found \<in> insert oid (name_ids name)" "name_named mem name' god found key"
    using name_first_cases [OF new(1,2), of key] new(3) named same by (auto simp: found_def [symmetric] split: if_splits)
  define name'' where "name'' = name_set_entry name' ?i (fst (name_free_loop oid nodes'))"
  have free: "prs_name_free ops_of mem name' (god, w) oid = (name'', (god, w), PRS_OK)"
    unfolding name_alloc_live(2) [OF assms(3,4)] name''_def using n(4) i assms(6)
    by (simp add: name'_def name_set_entry_nth split_def Let_def)
  have "prs_name_find ops_of mem name'' (god, w) k = prs_name_find ops_of mem name (god, w) k" for k
    using i name_first_filter [OF n(3), of mem name god k]
    by (simp add: name_find_eq(1) [OF assms(3)] name''_def name'_def name_set_entry_nth)
  then have restored: "\<forall>k. prs_name_find ops_of mem name'' (god, w) k = prs_name_find ops_of mem name (god, w) k" by blast
  have "found = oid" if "\<forall>i \<in> name_ids name. \<not> name_named mem name god i key" using that f same by auto
  then show ?thesis using alloc new find f(2) free restored by blast
qed

text \<open>When a bucket has a free place before the node of an object, prs_name_alloc registers that object again and reports success: the search
  for a node with the ID ends at the free place. After the object is then taken out once, it is still registered.\<close>

theorem name_alloc_registers_twice:
  assumes "name_wf name" and "name_god_ok god" and "god_live god oid = Some e"
    and "nm_entries name ! prs_name_get_entry name (prs_name_get_key name mem (goe_object e)) = (node, PRS_OBJECT_ID_INVALID) # nodes"
    and "oid \<in> snd ` set nodes"
  shows "\<exists>name' name''. prs_name_alloc ops_of mem name (god, w) oid memory = Some (name', (god, w), PRS_OK)
    \<and> prs_name_free ops_of mem name' (god, w) oid = (name'', (god, w), PRS_OK) \<and> oid \<in> name_ids name''"
proof -
  let ?i = "prs_name_get_entry name (prs_name_get_key name mem (goe_object e))"
  have i: "?i < length (nm_entries name)" by (rule name_entry_less [OF assms(1)])
  have oid: "oid \<noteq> 0" using god_live_fields(1) assms(2,3) by (auto simp: name_god_ok_def)
  define name' where "name' = name_set_entry name ?i ((node, oid) # nodes)"
  define name'' where "name'' = name_set_entry name' ?i ((node, 0) # nodes)"
  have alloc: "prs_name_alloc ops_of mem name (god, w) oid memory = Some (name', (god, w), PRS_OK)"
    unfolding name_alloc_live(1) [OF assms(2,3)] using assms(4) oid by (simp add: name'_def PRS_OBJECT_ID_INVALID_def)
  have free: "prs_name_free ops_of mem name' (god, w) oid = (name'', (god, w), PRS_OK)"
    unfolding name_alloc_live(2) [OF assms(2,3)] using i
    by (simp add: name''_def name'_def name_set_entry_nth PRS_OBJECT_ID_INVALID_def Let_def)
  have "nm_entries name'' ! ?i = (node, 0) # nodes" "?i < length (nm_entries name'')" using i by (simp_all add: name''_def name'_def name_set_entry_nth)
  then have "oid \<in> name_ids name''" unfolding name_ids_bucket using assms(5) oid by (intro exI [of _ ?i]) (auto simp: node_ids_def)
  then show ?thesis using alloc free by blast
qed

section \<open>Examples\<close>

text \<open>A table of two buckets, for objects that carry their name at offset 8.\<close>

definition name_example :: prs_name where
  "name_example = the (prs_name_create \<lparr>np_max_entries = 2, np_string_offset = 8\<rparr> (Some 64) (Some 128))"

definition name_memory_example :: "ptr \<Rightarrow> string" where
  "name_memory_example p = (if p = 85 then ''main'' else [])"

lemma name_example_ok: "name_wf name_example" "name_ids name_example = {}" "name_placed mem god name_example"
  by (auto simp: name_example_def prs_name_create_def name_wf_def name_ids_def name_placed_def node_ids_def)

lemma name_example_god:
  obtains god e where "name_god_ok god" "god_live god 1 = Some e" "goe_object e = 77"
proof -
  obtain god e where g: "god_wf god" "god_live god = [1 \<mapsto> e]" "goe_object e = 77" "god_refs (goe_header e) = 1"
    by (rule god_example_alloc) auto
  have "god_refs (goe_header e') < 4095" if "god_live god oid = Some e'" for oid e'
    using that g(2,4) by (simp split: if_splits)
  then have "name_god_ok god" using g(1) by (simp add: name_god_ok_def)
  then show thesis using that [of god e] g(2,3) by simp
qed


theorem name_alloc_free_roundtrip_witness:
  "\<exists>god name'. prs_name_alloc (\<lambda>_. \<lparr>op_destroy = None, op_free = None, op_print = None\<rparr>) name_memory_example name_example (god, ()) 1 (Some 256)
      = Some (name', (god, ()), PRS_OK)
    \<and> prs_name_find (\<lambda>_. \<lparr>op_destroy = None, op_free = None, op_print = None\<rparr>) name_memory_example name' (god, ()) ''main'' = ((god, ()), 1)"
proof -
  obtain god e where g: "name_god_ok god" "god_live god 1 = Some e" "goe_object e = 77" by (rule name_example_god)
  have key: "''main'' = prs_name_get_key name_example name_memory_example (goe_object e)"
    using g(3) by (simp add: prs_name_get_key_def name_memory_example_def name_example_def prs_name_create_def)
  have new: "(1 :: prs_object_id_t) \<notin> name_ids name_example" using name_example_ok(2) by simp
  show ?thesis
    using name_alloc_free_roundtrip [OF name_example_ok(1,3) g(1,2) new key,
        of "\<lambda>_. \<lparr>op_destroy = None, op_free = None, op_print = None\<rparr>" "()" 256] name_example_ok(2) by auto
qed

theorem name_alloc_registers_twice_witness:
  "\<exists>god name'. prs_name_alloc (\<lambda>_. \<lparr>op_destroy = None, op_free = None, op_print = None\<rparr>) name_memory_example
      (name_example\<lparr>nm_entries := replicate 2 [(256, 0), (260, 1)]\<rparr>) (god, ()) 1 None = Some (name', (god, ()), PRS_OK)"
proof -
  obtain god e where g: "name_god_ok god" "god_live god 1 = Some e" "goe_object e = 77" by (rule name_example_god)
  let ?name = "name_example\<lparr>nm_entries := replicate 2 [(256, 0), (260, 1)]\<rparr>"
  have wf: "name_wf ?name" by (simp add: name_wf_def name_example_def prs_name_create_def)
  have "prs_name_get_entry ?name key < 2" for key using name_entry_less [OF wf, of key] by simp
  then have b: "nm_entries ?name ! prs_name_get_entry ?name (prs_name_get_key ?name name_memory_example (goe_object e)) = (256, PRS_OBJECT_ID_INVALID) # [(260, 1)]"
    by (simp add: PRS_OBJECT_ID_INVALID_def)
  show ?thesis
    using name_alloc_registers_twice [OF wf g(1,2) b, of "\<lambda>_. \<lparr>op_destroy = None, op_free = None, op_print = None\<rparr>" "()" None] by auto
qed

end
