(* ===== verification/Worker.thy ===== *)
theory Worker
  imports God Task
begin

text \<open>
  The worker of \<^verbatim>\<open>prs/worker.c\<close>: the thread of the operating system that runs the tasks of a scheduler. Its
  flags are a word that other workers change atomically. A switch of the register context is the way a call of
  the scheduler ends; the calls of the platform's threads are recorded as actions.
\<close>

section \<open>Data\<close>

definition PRS_WORKER_FLAG_INTERRUPTIBLE :: u32 where
  "PRS_WORKER_FLAG_INTERRUPTIBLE = 0x00000001"

definition PRS_WORKER_FLAG_INTERRUPT_PENDING :: u32 where
  "PRS_WORKER_FLAG_INTERRUPT_PENDING = 0x00000002"

definition PRS_WORKER_FLAG_IDLE :: u32 where
  "PRS_WORKER_FLAG_IDLE = 0x00000004"

definition PRS_WORKER_FLAG_STOP :: u32 where
  "PRS_WORKER_FLAG_STOP = 0x00000008"

lemmas worker_flag_defs =
  PRS_WORKER_FLAG_INTERRUPTIBLE_def PRS_WORKER_FLAG_INTERRUPT_PENDING_def PRS_WORKER_FLAG_IDLE_def PRS_WORKER_FLAG_STOP_def

record prs_worker =
  wk_addr :: ptr
  wk_id :: prs_object_id_t
  wk_pal_thread :: ptr
  wk_userdata :: ptr
  wk_get_next :: ptr
  wk_flags :: u32
  wk_current_task_id :: prs_object_id_t
  wk_current_task :: ptr
  wk_exit_context :: ptr

record prs_worker_create_params =
  wp_pal_thread :: ptr
  wp_userdata :: ptr
  wp_get_next :: ptr

text \<open>The calls of the platform.\<close>

datatype worker_action = ThreadResume ptr | ThreadInterrupt ptr | ThreadJoin ptr | SwapExitContext

text \<open>How one round of \<^verbatim>\<open>prs_worker_schedule_internal\<close> ends: it returns, it switches from one context (if it saves
  one) to another, or it goes idle and starts over.\<close>

datatype worker_outcome = RoundReturn | RoundSwap ptr ptr | RoundExit | RoundIdle

section \<open>Flags\<close>

definition prs_worker_set_current_task :: "prs_worker \<Rightarrow> (ptr \<Rightarrow> prs_task) \<Rightarrow> ptr \<Rightarrow> prs_worker \<times> ptr" where
  "prs_worker_set_current_task worker tasks task =
     (worker\<lparr>wk_current_task := task,
             wk_current_task_id := (if task \<noteq> 0 then task_id (tasks task) else PRS_OBJECT_ID_INVALID)\<rparr>,
      wk_current_task worker)"

text \<open>Whether the thread is suspended.\<close>

definition prs_worker_idle :: "prs_worker \<Rightarrow> prs_worker \<times> bool" where
  "prs_worker_idle worker =
     (let new_flags = PRS_WORKER_FLAG_IDLE OR PRS_WORKER_FLAG_INTERRUPT_PENDING;
          (result, cur, _) = atomic_compare_exchange (wk_flags worker) 0 new_flags
      in (worker\<lparr>wk_flags := cur\<rparr>, result))"

text \<open>The two atomic steps of \<^verbatim>\<open>prs_worker_post\<close>: what is left to do after each.\<close>

datatype post_todo = PostClear | PostResume | PostInterrupt | PostDone prs_result

definition worker_post_rest :: "bool \<Rightarrow> u32 \<Rightarrow> post_todo" where
  "worker_post_rest interrupt flags =
     (if interrupt
      then
        (let interruptible = (flags AND PRS_WORKER_FLAG_INTERRUPTIBLE \<noteq> 0)
         in if interruptible \<and> flags AND PRS_WORKER_FLAG_INTERRUPT_PENDING = 0 then PostInterrupt
            else PostDone (if interruptible then PRS_ALREADY_EXISTS else PRS_LOCKED))
      else PostDone PRS_OK)"

definition worker_post_first :: "prs_worker \<Rightarrow> bool \<Rightarrow> prs_worker \<times> post_todo" where
  "worker_post_first worker interrupt =
     (let (flags, cur) = atomic_fetch_or (wk_flags worker) PRS_WORKER_FLAG_INTERRUPT_PENDING
      in (worker\<lparr>wk_flags := cur\<rparr>, if flags AND PRS_WORKER_FLAG_IDLE \<noteq> 0 then PostClear else worker_post_rest interrupt flags))"

definition worker_post_second :: "prs_worker \<Rightarrow> bool \<Rightarrow> prs_worker \<times> post_todo" where
  "worker_post_second worker interrupt =
     (let (flags, cur) = atomic_fetch_and (wk_flags worker) (NOT PRS_WORKER_FLAG_IDLE)
      in (worker\<lparr>wk_flags := cur\<rparr>, if flags AND PRS_WORKER_FLAG_IDLE \<noteq> 0 then PostResume else worker_post_rest interrupt flags))"

text \<open>What the platform answers to a resume and to an interrupt are arguments.\<close>

definition prs_worker_post ::
  "prs_worker \<Rightarrow> bool \<Rightarrow> prs_result \<Rightarrow> prs_result \<Rightarrow> prs_worker \<times> worker_action list \<times> prs_result" where
  "prs_worker_post worker interrupt resume_result interrupt_result =
     (let (worker, todo) = worker_post_first worker interrupt;
          (worker, todo) = (if todo = PostClear then worker_post_second worker interrupt else (worker, todo))
      in case todo of
           PostResume \<Rightarrow> (worker, [ThreadResume (wk_pal_thread worker)], resume_result)
         | PostInterrupt \<Rightarrow> (worker, [ThreadInterrupt (wk_pal_thread worker)], interrupt_result)
         | PostDone result \<Rightarrow> (worker, [], result)
         | PostClear \<Rightarrow> (worker, [], PRS_OK))"

definition prs_worker_interrupt ::
  "prs_worker \<Rightarrow> prs_result \<Rightarrow> prs_result \<Rightarrow> prs_worker \<times> worker_action list \<times> prs_result" where
  "prs_worker_interrupt worker resume_result interrupt_result = prs_worker_post worker True resume_result interrupt_result"

definition prs_worker_signal ::
  "prs_worker \<Rightarrow> prs_result \<Rightarrow> prs_result \<Rightarrow> prs_worker \<times> worker_action list \<times> prs_result" where
  "prs_worker_signal worker resume_result interrupt_result = prs_worker_post worker False resume_result interrupt_result"

definition prs_worker_int_disable :: "prs_worker \<Rightarrow> prs_worker \<times> bool" where
  "prs_worker_int_disable worker =
     (let (flags, cur) = atomic_fetch_and (wk_flags worker) (NOT PRS_WORKER_FLAG_INTERRUPTIBLE)
      in (worker\<lparr>wk_flags := cur\<rparr>, flags AND PRS_WORKER_FLAG_INTERRUPTIBLE \<noteq> 0))"

definition prs_worker_int_enabled :: "prs_worker \<Rightarrow> bool" where
  "prs_worker_int_enabled worker = (wk_flags worker AND PRS_WORKER_FLAG_INTERRUPTIBLE \<noteq> 0)"

section \<open>The call of the scheduler\<close>

text \<open>The flags at the start of a round.\<close>

definition worker_round_flags :: "prs_worker \<Rightarrow> bool \<Rightarrow> prs_worker \<times> u32" where
  "worker_round_flags worker check =
     (if check
      then (let (flags, cur) = atomic_fetch_and (wk_flags worker) (NOT PRS_WORKER_FLAG_INTERRUPT_PENDING)
            in (worker\<lparr>wk_flags := cur\<rparr>, flags))
      else (worker, PRS_WORKER_FLAG_INTERRUPT_PENDING))"

text \<open>The scheduler's function is a parameter on the scheduler's state: from the current task it gives whether
  to switch and the next task, or null. The second of the two contexts that are carried along is the one of the previous
  task.\<close>

definition worker_round ::
  "('s \<Rightarrow> ptr \<Rightarrow> ptr \<Rightarrow> 's \<times> bool \<times> ptr) \<Rightarrow> (ptr \<Rightarrow> prs_task) \<Rightarrow> prs_worker \<Rightarrow> 's \<Rightarrow> bool \<Rightarrow> ptr \<Rightarrow> ptr
    \<Rightarrow> prs_worker \<times> 's \<times> ptr \<times> worker_outcome" where
  "worker_round get_next tasks worker s check exit_context prev_context =
     (let (worker, flags) = worker_round_flags worker check
      in if flags AND PRS_WORKER_FLAG_STOP \<noteq> 0
         then (worker, s, prev_context, if exit_context \<noteq> 0 then RoundReturn else RoundExit)
         else if flags AND PRS_WORKER_FLAG_INTERRUPT_PENDING \<noteq> 0
         then
           (let (worker, prev_task) = prs_worker_set_current_task worker tasks 0;
                prev_context = (if prev_task \<noteq> 0 then task_context (tasks prev_task) else prev_context);
                (s, switch_to_next, next_task) = get_next s (wk_userdata worker) prev_task
            in if next_task \<noteq> 0
               then
                 (let (worker, _) = prs_worker_set_current_task worker tasks next_task
                  in (worker, s, prev_context,
                      if prev_task \<noteq> next_task
                      then RoundSwap (if prev_context \<noteq> 0 then prev_context else exit_context) (task_context (tasks next_task))
                      else RoundReturn))
               else (worker, s, prev_context, if switch_to_next then RoundIdle else RoundExit))
         else (worker, s, prev_context, RoundReturn))"

text \<open>The rounds of one call: after each idle round the thread meets flags that the other workers left. \<open>None\<close> while it is
  still suspended.\<close>

fun prs_worker_schedule_internal ::
  "('s \<Rightarrow> ptr \<Rightarrow> ptr \<Rightarrow> 's \<times> bool \<times> ptr) \<Rightarrow> (ptr \<Rightarrow> prs_task) \<Rightarrow> prs_worker \<Rightarrow> 's \<Rightarrow> bool \<Rightarrow> ptr \<Rightarrow> ptr \<Rightarrow> (u32 \<times> 's) list
    \<Rightarrow> (prs_worker \<times> 's \<times> worker_outcome) option" where
  "prs_worker_schedule_internal get_next tasks worker s check exit_context prev_context mets =
     (let (worker, s, prev_context, result) = worker_round get_next tasks worker s check exit_context prev_context
      in if result = RoundIdle
         then
           (let (worker, suspended) = prs_worker_idle worker
            in case mets of
                 [] \<Rightarrow> None
               | (flags, s) # mets \<Rightarrow>
                   prs_worker_schedule_internal get_next tasks (worker\<lparr>wk_flags := flags\<rparr>) s True exit_context prev_context mets)
         else Some (worker, s, result))"

declare prs_worker_schedule_internal.simps [simp del]

definition prs_worker_schedule ::
  "('s \<Rightarrow> ptr \<Rightarrow> ptr \<Rightarrow> 's \<times> bool \<times> ptr) \<Rightarrow> (ptr \<Rightarrow> prs_task) \<Rightarrow> prs_worker \<Rightarrow> 's \<Rightarrow> (u32 \<times> 's) list
    \<Rightarrow> (prs_worker \<times> 's \<times> worker_outcome) option" where
  "prs_worker_schedule get_next tasks worker s mets = prs_worker_schedule_internal get_next tasks worker s False 0 0 mets"

text \<open>The loop that the thread runs: a call of the scheduler ends it once the stop flag is set. Each element of the list
  is one such call, as the flags it leaves.\<close>

fun prs_worker_entry :: "prs_worker \<Rightarrow> u32 list \<Rightarrow> prs_worker option" where
  "prs_worker_entry worker mets =
     (if wk_flags worker AND PRS_WORKER_FLAG_STOP \<noteq> 0 then Some (worker\<lparr>wk_exit_context := 0\<rparr>)
      else (case mets of [] \<Rightarrow> None | flags # mets \<Rightarrow> prs_worker_entry (worker\<lparr>wk_flags := flags\<rparr>) mets))"

declare prs_worker_entry.simps [simp del]

text \<open>The prologue calls the scheduler until no flag is left, and then allows interrupts. Each element of the list is one
  call of the scheduler (with the check of the flags, and without exit context) as a function on the worker.\<close>

definition worker_enable :: "prs_worker \<Rightarrow> prs_worker \<times> bool" where
  "worker_enable worker =
     (let (result, cur, _) = atomic_compare_exchange (wk_flags worker) 0 PRS_WORKER_FLAG_INTERRUPTIBLE
      in (worker\<lparr>wk_flags := cur\<rparr>, result))"

fun prs_worker_task_prologue :: "(prs_worker \<Rightarrow> prs_worker) list \<Rightarrow> prs_worker \<Rightarrow> prs_worker option" where
  "prs_worker_task_prologue [] worker = None"
| "prs_worker_task_prologue (schedule # calls) worker =
     (let (worker, result) = worker_enable (schedule worker)
      in if result then Some worker else prs_worker_task_prologue calls worker)"

definition prs_worker_int_enable :: "(prs_worker \<Rightarrow> prs_worker) list \<Rightarrow> prs_worker \<Rightarrow> prs_worker option" where
  "prs_worker_int_enable calls worker = prs_worker_task_prologue calls worker"

text \<open>What the handler of an interrupt does: nothing, add the prologue to the context it interrupted, or run it.\<close>

datatype interrupt_todo = IntNothing | IntAddPrologue ptr | IntPrologue

definition prs_worker_interrupt_entry :: "prs_worker \<Rightarrow> ptr \<Rightarrow> prs_worker \<times> interrupt_todo" where
  "prs_worker_interrupt_entry worker ctx =
     (let (worker, interrupts_enabled) = prs_worker_int_disable worker
      in (worker, if interrupts_enabled then (if ctx \<noteq> 0 then IntAddPrologue ctx else IntPrologue) else IntNothing))"

text \<open>The instruction pointer of the context, and whether it is in a loaded process, are arguments.\<close>

definition prs_worker_interruptible :: "prs_worker \<Rightarrow> ptr \<Rightarrow> (ptr \<Rightarrow> ptr) \<Rightarrow> (ptr \<Rightarrow> bool) \<Rightarrow> bool" where
  "prs_worker_interruptible worker ctx get_ip is_user_text =
     (let result = (wk_flags worker AND PRS_WORKER_FLAG_INTERRUPTIBLE \<noteq> 0)
      in if result \<and> ctx \<noteq> 0 then is_user_text (get_ip ctx) else result)"

section \<open>Life time\<close>

definition prs_worker_object_free :: "prs_worker \<Rightarrow> ptr list" where
  "prs_worker_object_free worker = [wk_addr worker]"

definition prs_worker_create ::
  "prs_god \<Rightarrow> ptr \<Rightarrow> prs_worker_create_params \<Rightarrow> ptr option \<Rightarrow> prs_god \<times> prs_worker option \<times> prs_result \<times> ptr list" where
  "prs_worker_create god ops params memory =
     (case memory of
        None \<Rightarrow> (god, None, PRS_OUT_OF_MEMORY, [])
      | Some addr \<Rightarrow>
          (let (god, oid) = prs_god_alloc_and_lock god addr ops
           in if oid = PRS_OBJECT_ID_INVALID then (god, None, PRS_OUT_OF_MEMORY, [addr])
              else (god,
                Some \<lparr>wk_addr = addr, wk_id = oid, wk_pal_thread = wp_pal_thread params, wk_userdata = wp_userdata params,
                      wk_get_next = wp_get_next params, wk_flags = 0, wk_current_task_id = 0, wk_current_task = 0,
                      wk_exit_context = 0\<rparr>, PRS_OK, [])))"

definition prs_worker_destroy :: "prs_worker \<Rightarrow> prs_result" where
  "prs_worker_destroy worker = PRS_NOT_IMPLEMENTED"

text \<open>The answers of the platform: to the registration of the callbacks and to the start of the thread.\<close>

definition prs_worker_start :: "prs_worker \<Rightarrow> prs_result \<Rightarrow> prs_result \<Rightarrow> prs_worker \<times> prs_result" where
  "prs_worker_start worker callback_result start_result =
     (if callback_result \<noteq> PRS_OK then (worker, callback_result)
      else (worker\<lparr>wk_flags := 0\<rparr>, start_result))"

definition prs_worker_join :: "prs_worker \<Rightarrow> prs_result \<Rightarrow> worker_action list \<times> prs_result" where
  "prs_worker_join worker join_result = ([ThreadJoin (wk_pal_thread worker)], join_result)"

definition prs_worker_stop ::
  "prs_worker \<Rightarrow> bool \<Rightarrow> prs_result \<Rightarrow> prs_result \<Rightarrow> prs_result \<Rightarrow> prs_worker \<times> worker_action list \<times> prs_result" where
  "prs_worker_stop worker is_current resume_result interrupt_result join_result =
     (let (_, cur) = atomic_fetch_or (wk_flags worker) PRS_WORKER_FLAG_STOP;
          worker = worker\<lparr>wk_flags := cur\<rparr>
      in if is_current then (worker, [SwapExitContext], PRS_OK)
         else
           (let (worker, actions, result) = prs_worker_interrupt worker resume_result interrupt_result
            in if result = PRS_OK
               then (let (join_actions, result) = prs_worker_join worker join_result in (worker, actions @ join_actions, result))
               else (worker, actions, result)))"

definition prs_worker_get_current_task :: "prs_worker \<Rightarrow> ptr" where
  "prs_worker_get_current_task worker = wk_current_task worker"

definition prs_worker_get_current_task_id :: "prs_worker \<Rightarrow> prs_object_id_t" where
  "prs_worker_get_current_task_id worker = wk_current_task_id worker"

definition prs_worker_get_userdata :: "prs_worker \<Rightarrow> ptr" where
  "prs_worker_get_userdata worker = wk_userdata worker"

section \<open>Steps\<close>

text \<open>The flags by their bits.\<close>

lemma worker_flag_bits:
  "f AND PRS_WORKER_FLAG_INTERRUPTIBLE \<noteq> 0 \<longleftrightarrow> bit f 0" "f AND PRS_WORKER_FLAG_INTERRUPT_PENDING \<noteq> 0 \<longleftrightarrow> bit f 1"
  "f AND PRS_WORKER_FLAG_IDLE \<noteq> 0 \<longleftrightarrow> bit f 2" "f AND PRS_WORKER_FLAG_STOP \<noteq> 0 \<longleftrightarrow> bit f 3"
  "f AND PRS_WORKER_FLAG_INTERRUPTIBLE = 0 \<longleftrightarrow> \<not> bit f 0" "f AND PRS_WORKER_FLAG_INTERRUPT_PENDING = 0 \<longleftrightarrow> \<not> bit f 1"
  "f AND PRS_WORKER_FLAG_IDLE = 0 \<longleftrightarrow> \<not> bit f 2" "f AND PRS_WORKER_FLAG_STOP = 0 \<longleftrightarrow> \<not> bit f 3"
  using and_exp_eq_0_iff_not_bit [of f 0] and_exp_eq_0_iff_not_bit [of f 1] and_exp_eq_0_iff_not_bit [of f 2] and_exp_eq_0_iff_not_bit [of f 3]
  by (simp_all add: worker_flag_defs)

lemma worker_flag_updates:
  "bit (f OR PRS_WORKER_FLAG_INTERRUPT_PENDING) 0 = bit f 0" "bit (f OR PRS_WORKER_FLAG_INTERRUPT_PENDING) (Suc 0)"
  "bit (f OR PRS_WORKER_FLAG_INTERRUPT_PENDING) 2 = bit f 2" "bit (f OR PRS_WORKER_FLAG_INTERRUPT_PENDING) 3 = bit f 3"
  "bit (f OR PRS_WORKER_FLAG_STOP) 0 = bit f 0" "bit (f OR PRS_WORKER_FLAG_STOP) (Suc 0) = bit f (Suc 0)"
  "bit (f OR PRS_WORKER_FLAG_STOP) 2 = bit f 2" "bit (f OR PRS_WORKER_FLAG_STOP) 3"
  "bit (f AND NOT PRS_WORKER_FLAG_IDLE) 0 = bit f 0" "bit (f AND NOT PRS_WORKER_FLAG_IDLE) (Suc 0) = bit f (Suc 0)"
  "\<not> bit (f AND NOT PRS_WORKER_FLAG_IDLE) 2" "bit (f AND NOT PRS_WORKER_FLAG_IDLE) 3 = bit f 3"
  "bit (f AND NOT PRS_WORKER_FLAG_INTERRUPT_PENDING) 0 = bit f 0" "\<not> bit (f AND NOT PRS_WORKER_FLAG_INTERRUPT_PENDING) (Suc 0)"
  "bit (f AND NOT PRS_WORKER_FLAG_INTERRUPT_PENDING) 2 = bit f 2" "bit (f AND NOT PRS_WORKER_FLAG_INTERRUPT_PENDING) 3 = bit f 3"
  "\<not> bit (f AND NOT PRS_WORKER_FLAG_INTERRUPTIBLE) 0" "bit (f AND NOT PRS_WORKER_FLAG_INTERRUPTIBLE) (Suc 0) = bit f (Suc 0)"
  "bit (f AND NOT PRS_WORKER_FLAG_INTERRUPTIBLE) 2 = bit f 2" "bit (f AND NOT PRS_WORKER_FLAG_INTERRUPTIBLE) 3 = bit f 3"
  "bit PRS_WORKER_FLAG_INTERRUPTIBLE 0" "\<not> bit PRS_WORKER_FLAG_INTERRUPTIBLE (Suc 0)" "\<not> bit PRS_WORKER_FLAG_INTERRUPTIBLE 2"
  "\<not> bit PRS_WORKER_FLAG_IDLE 0" "bit PRS_WORKER_FLAG_IDLE 2"
  by (simp_all add: worker_flag_defs bit_or_iff bit_and_iff bit_not_iff)

text \<open>Where the thread of the worker is: before it asks the scheduler, before it goes idle, suspended, before it reads the flags
  after that, in code of a task or of the library that cannot be interrupted, in the prologue before it reads the flags and
  before it allows interrupts, in code that can be interrupted, at its end; and a place that it must not reach, back from the
  scheduler with no task.\<close>

datatype worker_pc = WLook | WIdle | WSuspend | WRecheck | WTask | WCheck | WEnable | WRun | WExit | WLost

datatype post_pc = PNone | PClear | PResume | PInterrupt

fun post_next :: "post_todo \<Rightarrow> post_pc" where
  "post_next PostClear = PClear"
| "post_next PostResume = PResume"
| "post_next PostInterrupt = PInterrupt"
| "post_next (PostDone r) = PNone"

text \<open>The configuration counts the resumes and the interrupts that are on their way and remembers whether somebody has
  posted since the scheduler was last asked.\<close>

record worker_config =
  wc_worker :: prs_worker
  wc_pc :: worker_pc
  wc_posts :: "ptr \<Rightarrow> post_pc"
  wc_resumes :: nat
  wc_interrupts :: nat
  wc_dirty :: bool

inductive worker_step :: "worker_config \<Rightarrow> worker_config \<Rightarrow> bool" where
  look: "wc_pc c = WLook \<Longrightarrow> pc \<in> {WTask, WEnable, WIdle, WExit} \<Longrightarrow> worker_step c (c\<lparr>wc_pc := pc, wc_dirty := False\<rparr>)"
| idle: "wc_pc c = WIdle \<Longrightarrow> prs_worker_idle (wc_worker c) = (w, suspended)
    \<Longrightarrow> worker_step c (c\<lparr>wc_worker := w, wc_pc := if suspended then WSuspend else WRecheck\<rparr>)"
| wake: "wc_pc c = WSuspend \<Longrightarrow> wc_resumes c = Suc n \<Longrightarrow> worker_step c (c\<lparr>wc_pc := WRecheck, wc_resumes := n\<rparr>)"
| recheck: "wc_pc c = WRecheck \<Longrightarrow> worker_round_flags (wc_worker c) True = (w, flags)
    \<Longrightarrow> worker_step c (c\<lparr>wc_worker := w, wc_pc := if flags AND PRS_WORKER_FLAG_STOP \<noteq> 0 then WExit
          else if flags AND PRS_WORKER_FLAG_INTERRUPT_PENDING \<noteq> 0 then WLook else WLost\<rparr>)"
| schedule: "wc_pc c = WTask \<Longrightarrow> worker_step c (c\<lparr>wc_pc := WLook\<rparr>)"
| prologue: "wc_pc c = WTask \<Longrightarrow> worker_step c (c\<lparr>wc_pc := WCheck\<rparr>)"
| check: "wc_pc c = WCheck \<Longrightarrow> worker_round_flags (wc_worker c) True = (w, flags)
    \<Longrightarrow> worker_step c (c\<lparr>wc_worker := w, wc_pc := if flags AND PRS_WORKER_FLAG_STOP \<noteq> 0 then WExit
          else if flags AND PRS_WORKER_FLAG_INTERRUPT_PENDING \<noteq> 0 then WLook else WEnable\<rparr>)"
| enable: "wc_pc c = WEnable \<Longrightarrow> worker_enable (wc_worker c) = (w, ok) \<Longrightarrow> worker_step c (c\<lparr>wc_worker := w, wc_pc := if ok then WRun else WCheck\<rparr>)"
| disable: "wc_pc c = WRun \<Longrightarrow> prs_worker_int_disable (wc_worker c) = (w, was) \<Longrightarrow> worker_step c (c\<lparr>wc_worker := w, wc_pc := WTask\<rparr>)"
| delivered: "wc_interrupts c = Suc n \<Longrightarrow> prs_worker_interrupt_entry (wc_worker c) ctx = (w, todo)
    \<Longrightarrow> worker_step c (c\<lparr>wc_worker := w, wc_interrupts := n, wc_pc := if todo = IntNothing then wc_pc c else WCheck\<rparr>)"
| signal: "wc_pc c = WTask \<Longrightarrow> worker_post_first (wc_worker c) False = (w, todo) \<Longrightarrow> worker_step c (c\<lparr>wc_worker := w, wc_dirty := True\<rparr>)"
| stop: "wc_posts c t = PNone \<Longrightarrow> atomic_fetch_or (wk_flags (wc_worker c)) PRS_WORKER_FLAG_STOP = (flags, cur)
    \<Longrightarrow> worker_step c (c\<lparr>wc_worker := (wc_worker c)\<lparr>wk_flags := cur\<rparr>\<rparr>)"
| post: "wc_posts c t = PNone \<Longrightarrow> worker_post_first (wc_worker c) True = (w, todo)
    \<Longrightarrow> worker_step c (c\<lparr>wc_worker := w, wc_posts := (wc_posts c)(t := post_next todo), wc_dirty := True\<rparr>)"
| clear: "wc_posts c t = PClear \<Longrightarrow> worker_post_second (wc_worker c) True = (w, todo)
    \<Longrightarrow> worker_step c (c\<lparr>wc_worker := w, wc_posts := (wc_posts c)(t := post_next todo)\<rparr>)"
| resumed: "wc_posts c t = PResume \<Longrightarrow> worker_step c (c\<lparr>wc_posts := (wc_posts c)(t := PNone), wc_resumes := wc_resumes c + 1\<rparr>)"
| interrupted: "wc_posts c t = PInterrupt \<Longrightarrow> worker_step c (c\<lparr>wc_posts := (wc_posts c)(t := PNone), wc_interrupts := wc_interrupts c + 1\<rparr>)"

text \<open>Only the four flags are used.\<close>

definition worker_small :: "u32 \<Rightarrow> bool" where
  "worker_small f \<longleftrightarrow> (\<forall>n. bit f n \<longrightarrow> n < 4)"

lemma worker_small_ops:
  "worker_small f \<Longrightarrow> worker_small (f AND g)" "worker_small 0" "worker_small PRS_WORKER_FLAG_INTERRUPTIBLE"
  "worker_small PRS_WORKER_FLAG_INTERRUPT_PENDING" "worker_small PRS_WORKER_FLAG_IDLE" "worker_small PRS_WORKER_FLAG_STOP"
  "worker_small f \<Longrightarrow> worker_small g \<Longrightarrow> worker_small (f OR g)"
proof -
  have p: "worker_small (2 ^ k)" if "k < 4" for k using that by (auto simp: worker_small_def bit_simps)
  show "worker_small PRS_WORKER_FLAG_INTERRUPTIBLE" "worker_small PRS_WORKER_FLAG_INTERRUPT_PENDING" "worker_small PRS_WORKER_FLAG_IDLE"
    "worker_small PRS_WORKER_FLAG_STOP"
    using p [of 0] p [of 1] p [of 2] p [of 3] by (simp_all add: worker_flag_defs)
qed (auto simp: worker_small_def bit_simps)

lemma worker_small_nonzero:
  assumes "worker_small f" and "f \<noteq> 0"
  shows "bit f 0 \<or> bit f (Suc 0) \<or> bit f 2 \<or> bit f 3"
proof -
  obtain n where "bit f n" using assms(2) by (auto simp: bit_eq_iff)
  then have "n < 4" using assms(1) by (simp add: worker_small_def)
  then have "n = 0 \<or> n = 1 \<or> n = 2 \<or> n = 3" by linarith
  then show ?thesis using \<open>bit f n\<close> by auto
qed

definition worker_inv :: "worker_config \<Rightarrow> bool" where
  "worker_inv c \<longleftrightarrow>
     (let f = wk_flags (wc_worker c); pc = wc_pc c
      in worker_small f \<and> (bit f 0 \<longleftrightarrow> pc = WRun) \<and> (bit f 2 \<longrightarrow> pc = WSuspend) \<and> pc \<noteq> WLost
         \<and> int (wc_resumes c) + pc_count (\<lambda>x. x = PResume) (wc_posts c) = of_bool (pc = WSuspend \<and> \<not> bit f 2)
         \<and> (pc = WSuspend \<longrightarrow> bit f 1) \<and> (pc = WRecheck \<longrightarrow> bit f 1 \<or> bit f 3)
         \<and> (wc_dirty c \<longrightarrow> bit f 1 \<or> pc = WLook \<or> pc = WExit)
         \<and> (pc = WRun \<and> bit f 1 \<longrightarrow> 0 < int (wc_interrupts c) + pc_count (\<lambda>x. x = PInterrupt) (wc_posts c))
         \<and> (wc_dirty c \<and> bit f 2 \<longrightarrow> 0 < pc_count (\<lambda>x. x = PClear) (wc_posts c)))"

lemmas worker_step_defs =
  prs_worker_idle_def worker_round_flags_def worker_enable_def prs_worker_int_disable_def prs_worker_interrupt_entry_def
  worker_post_first_def worker_post_second_def worker_post_rest_def atomic_compare_exchange_def atomic_fetch_or_def atomic_fetch_and_def

lemma worker_inv_look:
  assumes "wc_pc c = WLook" and "pc \<in> {WTask, WEnable, WIdle, WExit}" and "worker_inv c"
  shows "worker_inv (c\<lparr>wc_pc := pc, wc_dirty := False\<rparr>)"
  using assms by (auto simp: worker_inv_def Let_def)

lemma worker_inv_idle:
  assumes "wc_pc c = WIdle" and "prs_worker_idle (wc_worker c) = (w, suspended)" and "worker_inv c"
  shows "worker_inv (c\<lparr>wc_worker := w, wc_pc := if suspended then WSuspend else WRecheck\<rparr>)"
  using assms worker_small_nonzero [of "wk_flags (wc_worker c)"]
    by (auto simp: worker_inv_def Let_def worker_step_defs worker_flag_updates worker_small_ops split: if_splits)

lemma worker_inv_wake:
  assumes "wc_pc c = WSuspend" and "wc_resumes c = Suc n" and "worker_inv c"
  shows "worker_inv (c\<lparr>wc_pc := WRecheck, wc_resumes := n\<rparr>)"
proof -
  have p: "0 \<le> pc_count (\<lambda>x. x = PResume) (wc_posts c)" by (rule pc_count_nonneg)
  have e: "int (Suc n) + pc_count (\<lambda>x. x = PResume) (wc_posts c) = of_bool (\<not> bit (wk_flags (wc_worker c)) 2)"
    using assms by (simp add: worker_inv_def Let_def)
  have b: "\<not> bit (wk_flags (wc_worker c)) 2" using e p by (cases "bit (wk_flags (wc_worker c)) 2") auto
  then have "int n + pc_count (\<lambda>x. x = PResume) (wc_posts c) = 0" using e by simp
  show ?thesis using assms b by (simp add: worker_inv_def Let_def)
qed

lemma worker_inv_recheck:
  assumes "wc_pc c = WRecheck" and "worker_round_flags (wc_worker c) True = (w, flags)" and "worker_inv c"
  shows "worker_inv (c\<lparr>wc_worker := w, wc_pc := if flags AND PRS_WORKER_FLAG_STOP \<noteq> 0 then WExit
          else if flags AND PRS_WORKER_FLAG_INTERRUPT_PENDING \<noteq> 0 then WLook else WLost\<rparr>)"
  using assms by (auto simp: worker_inv_def Let_def worker_step_defs worker_flag_bits worker_flag_updates worker_small_ops split: if_splits)

lemma worker_inv_schedule:
  assumes "wc_pc c = WTask" and "worker_inv c"
  shows "worker_inv (c\<lparr>wc_pc := WLook\<rparr>)"
  using assms by (auto simp: worker_inv_def Let_def)

lemma worker_inv_prologue:
  assumes "wc_pc c = WTask" and "worker_inv c"
  shows "worker_inv (c\<lparr>wc_pc := WCheck\<rparr>)"
  using assms by (auto simp: worker_inv_def Let_def)

lemma worker_inv_check:
  assumes "wc_pc c = WCheck" and "worker_round_flags (wc_worker c) True = (w, flags)" and "worker_inv c"
  shows "worker_inv (c\<lparr>wc_worker := w, wc_pc := if flags AND PRS_WORKER_FLAG_STOP \<noteq> 0 then WExit
          else if flags AND PRS_WORKER_FLAG_INTERRUPT_PENDING \<noteq> 0 then WLook else WEnable\<rparr>)"
  using assms by (auto simp: worker_inv_def Let_def worker_step_defs worker_flag_bits worker_flag_updates worker_small_ops split: if_splits)

lemma worker_inv_enable:
  assumes "wc_pc c = WEnable" and "worker_enable (wc_worker c) = (w, ok)" and "worker_inv c"
  shows "worker_inv (c\<lparr>wc_worker := w, wc_pc := if ok then WRun else WCheck\<rparr>)"
  using assms by (auto simp: worker_inv_def Let_def worker_step_defs worker_flag_bits worker_flag_updates worker_small_ops split: if_splits)

lemma worker_inv_disable:
  assumes "wc_pc c = WRun" and "prs_worker_int_disable (wc_worker c) = (w, was)" and "worker_inv c"
  shows "worker_inv (c\<lparr>wc_worker := w, wc_pc := WTask\<rparr>)"
  using assms by (auto simp: worker_inv_def Let_def worker_step_defs worker_flag_bits worker_flag_updates worker_small_ops)

lemma worker_inv_delivered:
  assumes "wc_interrupts c = Suc n" and "prs_worker_interrupt_entry (wc_worker c) ctx = (w, todo)" and "worker_inv c"
  shows "worker_inv (c\<lparr>wc_worker := w, wc_interrupts := n, wc_pc := if todo = IntNothing then wc_pc c else WCheck\<rparr>)"
proof -
  let ?f = "wk_flags (wc_worker c)"
  have w: "w = (wc_worker c)\<lparr>wk_flags := ?f AND NOT PRS_WORKER_FLAG_INTERRUPTIBLE\<rparr>" and t: "todo = IntNothing \<longleftrightarrow> \<not> bit ?f 0"
    using assms(2) by (auto simp: worker_step_defs worker_flag_bits split: if_splits)
  have "bit ?f 0 \<longleftrightarrow> wc_pc c = WRun" using assms(3) by (simp add: worker_inv_def Let_def)
  with t have pc: "(if todo = IntNothing then wc_pc c else WCheck) = (if wc_pc c = WRun then WCheck else wc_pc c)" by simp
  show ?thesis
    using assms(3) unfolding pc w by (cases "wc_pc c") (simp_all add: worker_inv_def Let_def worker_flag_updates worker_small_ops)
qed

lemma worker_inv_signal:
  assumes "wc_pc c = WTask" and "worker_post_first (wc_worker c) False = (w, todo)" and "worker_inv c"
  shows "worker_inv (c\<lparr>wc_worker := w, wc_dirty := True\<rparr>)"
  using assms
  by (cases "wc_pc c"; cases "bit (wk_flags (wc_worker c)) 1"; cases "bit (wk_flags (wc_worker c)) 2")
    (auto simp: worker_inv_def Let_def worker_step_defs worker_flag_bits worker_flag_updates worker_small_ops pc_count_upd split: if_splits)

lemma worker_inv_stop:
  assumes "wc_posts c t = PNone" and "atomic_fetch_or (wk_flags (wc_worker c)) PRS_WORKER_FLAG_STOP = (flags, cur)" and "worker_inv c"
  shows "worker_inv (c\<lparr>wc_worker := (wc_worker c)\<lparr>wk_flags := cur\<rparr>\<rparr>)"
  using assms
  by (cases "wc_pc c"; cases "bit (wk_flags (wc_worker c)) 1"; cases "bit (wk_flags (wc_worker c)) 2")
    (auto simp: worker_inv_def Let_def worker_step_defs worker_flag_bits worker_flag_updates worker_small_ops pc_count_upd split: if_splits)

lemma worker_inv_post:
  assumes "wc_posts c t = PNone" and "worker_post_first (wc_worker c) True = (w, todo)" and "worker_inv c"
  shows "worker_inv (c\<lparr>wc_worker := w, wc_posts := (wc_posts c)(t := post_next todo), wc_dirty := True\<rparr>)"
  using assms
  by (cases "wc_pc c"; cases "bit (wk_flags (wc_worker c)) 1"; cases "bit (wk_flags (wc_worker c)) 2")
    (auto simp: worker_inv_def Let_def worker_step_defs worker_flag_bits worker_flag_updates worker_small_ops pc_count_upd pc_count_nonneg add_nonneg_pos split: if_splits)

lemma worker_inv_clear:
  assumes "wc_posts c t = PClear" and "worker_post_second (wc_worker c) True = (w, todo)" and "worker_inv c"
  shows "worker_inv (c\<lparr>wc_worker := w, wc_posts := (wc_posts c)(t := post_next todo)\<rparr>)"
  using assms
  by (cases "wc_pc c"; cases "bit (wk_flags (wc_worker c)) 1"; cases "bit (wk_flags (wc_worker c)) 2")
    (auto simp: worker_inv_def Let_def worker_step_defs worker_flag_bits worker_flag_updates worker_small_ops pc_count_upd split: if_splits)

lemma worker_inv_resumed:
  assumes "wc_posts c t = PResume" and "worker_inv c"
  shows "worker_inv (c\<lparr>wc_posts := (wc_posts c)(t := PNone), wc_resumes := wc_resumes c + 1\<rparr>)"
  using assms pc_count_nonneg [of "\<lambda>x. x = PInterrupt" "wc_posts c"]
  by (simp add: worker_inv_def Let_def pc_count_upd)

lemma worker_inv_interrupted:
  assumes "wc_posts c t = PInterrupt" and "worker_inv c"
  shows "worker_inv (c\<lparr>wc_posts := (wc_posts c)(t := PNone), wc_interrupts := wc_interrupts c + 1\<rparr>)"
  using assms pc_count_nonneg [of "\<lambda>x. x = PInterrupt" "wc_posts c"]
  by (simp add: worker_inv_def Let_def pc_count_upd)

lemma worker_inv_step:
  assumes "worker_step c c'" and "worker_inv c"
  shows "worker_inv c'"
  using assms
  by (cases rule: worker_step.cases)
    (simp_all only: worker_inv_look worker_inv_idle worker_inv_wake worker_inv_recheck worker_inv_schedule worker_inv_prologue worker_inv_check worker_inv_enable worker_inv_disable worker_inv_delivered worker_inv_signal worker_inv_stop worker_inv_post worker_inv_clear worker_inv_resumed worker_inv_interrupted)

lemma worker_inv_reach:
  assumes "worker_step\<^sup>*\<^sup>* c c'" and "worker_inv c"
  shows "worker_inv c'"
  using assms by (induction rule: rtranclp_induct) (auto intro: worker_inv_step)

text \<open>A worker that has just been started.\<close>

definition worker_started :: "prs_worker \<Rightarrow> worker_config" where
  "worker_started worker =
     \<lparr>wc_worker = worker, wc_pc = WLook, wc_posts = (\<lambda>_. PNone), wc_resumes = 0, wc_interrupts = 0, wc_dirty = False\<rparr>"

lemma worker_inv_started: "prs_worker_start w PRS_OK r = (worker, r) \<Longrightarrow> worker_inv (worker_started worker)"
  by (auto simp: prs_worker_start_def worker_started_def worker_inv_def Let_def worker_small_ops pc_count_def)

section \<open>Properties\<close>



end
