(* ===== verification/Msgq.thy ===== *)
theory Msgq
  imports Pd Mpsciq Event Timer
begin

unbundle bit_operations_syntax

text \<open>
  The message queue of \<^verbatim>\<open>prs/msgq.c\<close>: any number of senders push messages into an intrusive queue and
  signal the event of the receiver's filter; the receiver, a single task, searches the queue, publishes a filter
  through the pointer directory and blocks. A filter function is a parameter that is applied to its address, the
  memory, the user data and the message; what the messages hold is part of it. The calls that enter the scheduler
  are cut there: what follows them is a definition of its own.
\<close>

section \<open>Data\<close>

definition PRS_MSGQ_EVENT_TYPE_SEND :: u8 where
  "PRS_MSGQ_EVENT_TYPE_SEND = 1"

definition PRS_MSGQ_EVENT_TYPE_TIMEOUT :: u8 where
  "PRS_MSGQ_EVENT_TYPE_TIMEOUT = 2"

definition PRS_MSGQ_EVENT_TYPE_FREE :: u8 where
  "PRS_MSGQ_EVENT_TYPE_FREE = 3"

text \<open>\<^verbatim>\<open>offsetof(struct prs_msg, node)\<close>: a message and its node have the same address.\<close>

definition msg_node_offset :: u64 where
  "msg_node_offset = 0"

record prs_msgq_filter =
  mf_id :: u64
  mf_event :: ptr
  mf_userdata :: ptr
  mf_userdata_size :: u64
  mf_function :: ptr

record prs_msgq =
  mq_addr :: ptr
  mq_queue :: prs_mpsciq
  mq_filter_id :: u64

text \<open>The pointer directory, the nodes, the filters and the events are shared memory.\<close>

record msgq_system =
  ms_msgq :: prs_msgq
  ms_nodes :: prs_mpsciq_nodes
  ms_pd :: prs_pd
  ms_filters :: "ptr \<Rightarrow> prs_msgq_filter"
  ms_events :: "ptr \<Rightarrow> prs_event"
  ms_mem :: "ptr \<Rightarrow> u8"
  ms_dir :: "task_world god_world"

type_synonym filter_fn = "ptr \<Rightarrow> (ptr \<Rightarrow> u8) \<Rightarrow> ptr \<Rightarrow> ptr \<Rightarrow> bool"

definition msgq_iq :: "msgq_system \<Rightarrow> iq_state" where
  "msgq_iq sys = (ms_nodes sys, mq_queue (ms_msgq sys))"

definition msgq_set_iq :: "msgq_system \<Rightarrow> iq_state \<Rightarrow> msgq_system" where
  "msgq_set_iq sys s = sys\<lparr>ms_nodes := fst s, ms_msgq := (ms_msgq sys)\<lparr>mq_queue := snd s\<rparr>\<rparr>"

definition msgq_set_filter :: "msgq_system \<Rightarrow> ptr \<Rightarrow> prs_msgq_filter \<Rightarrow> msgq_system" where
  "msgq_set_filter sys filt f = sys\<lparr>ms_filters := (ms_filters sys)(filt := f)\<rparr>"

text \<open>Whether a message passes: without a function every message does.\<close>

definition msgq_match :: "filter_fn \<Rightarrow> (ptr \<Rightarrow> u8) \<Rightarrow> ptr \<Rightarrow> ptr \<Rightarrow> ptr \<Rightarrow> bool" where
  "msgq_match fn mem function userdata msg = (if function \<noteq> 0 then fn function mem userdata msg else True)"

section \<open>Life time\<close>

text \<open>The queue starts with a filter ID of zero, as the memory is cleared. The second component is what the cleanup frees.\<close>

definition prs_msgq_create :: "ptr option \<Rightarrow> ptr option \<Rightarrow> prs_pd option \<Rightarrow> gpd_state \<Rightarrow> (prs_msgq \<times> prs_pd) option \<times> ptr list" where
  "prs_msgq_create memory queue_memory params_pd gpd =
     (case memory of
        None \<Rightarrow> (None, [])
      | Some addr \<Rightarrow>
          (case prs_mpsciq_create msg_node_offset queue_memory of
             None \<Rightarrow> (None, [addr])
           | Some queue \<Rightarrow>
               (case (case params_pd of Some pd \<Rightarrow> Some pd | None \<Rightarrow> prs_gpd_get gpd) of
                  None \<Rightarrow> (None, prs_mpsciq_destroy queue @ [addr])
                | Some pd \<Rightarrow> (Some (\<lparr>mq_addr = addr, mq_queue = queue, mq_filter_id = 0\<rparr>, pd), []))))"

definition prs_msgq_destroy :: "prs_msgq \<Rightarrow> ptr list" where
  "prs_msgq_destroy msgq = prs_mpsciq_destroy (mq_queue msgq) @ [mq_addr msgq]"

section \<open>Filters\<close>

text \<open>The \<^verbatim>\<open>memcpy\<close> of the user data.\<close>

definition msgq_memcpy :: "(ptr \<Rightarrow> u8) \<Rightarrow> ptr \<Rightarrow> ptr \<Rightarrow> u64 \<Rightarrow> ptr \<Rightarrow> u8" where
  "msgq_memcpy mem dst src n = (\<lambda>a. if a - dst < n then mem (src + (a - dst)) else mem a)"

text \<open>Every failure is fatal (\<open>None\<close>).\<close>

definition prs_msgq_filter_create ::
  "msgq_system \<Rightarrow> ptr \<Rightarrow> u64 \<Rightarrow> ptr \<Rightarrow> ptr option \<Rightarrow> ptr option \<Rightarrow> (msgq_system \<times> ptr) option" where
  "prs_msgq_filter_create sys userdata userdata_size function memory userdata_memory =
     (case memory of
        None \<Rightarrow> None
      | Some filt \<Rightarrow>
          (let (pd, result, fid) = prs_pd_alloc_and_lock (ms_pd sys) filt;
               f = \<lparr>mf_id = fid, mf_event = 0, mf_userdata = 0, mf_userdata_size = 0, mf_function = function\<rparr>;
               sys = sys\<lparr>ms_pd := pd\<rparr>
           in if result \<noteq> PRS_OK then None
              else if function \<noteq> 0
              then
                (if userdata_size > 0
                 then
                   (case userdata_memory of
                      None \<Rightarrow> None
                    | Some copy \<Rightarrow>
                        Some (msgq_set_filter (sys\<lparr>ms_mem := msgq_memcpy (ms_mem sys) copy userdata userdata_size\<rparr>) filt
                                (f\<lparr>mf_userdata_size := userdata_size, mf_userdata := copy\<rparr>), filt))
                 else Some (msgq_set_filter sys filt (f\<lparr>mf_userdata_size := userdata_size, mf_userdata := userdata\<rparr>), filt))
              else Some (msgq_set_filter sys filt f, filt)))"

definition prs_msgq_filter_unref :: "msgq_system \<Rightarrow> ptr \<Rightarrow> msgq_system \<times> ptr list" where
  "prs_msgq_filter_unref sys filt =
     (let f = ms_filters sys filt;
          (pd, must_free) = prs_pd_unlock (ms_pd sys) (mf_id f)
      in (sys\<lparr>ms_pd := pd\<rparr>,
          if must_free
          then (if mf_function f \<noteq> 0 then (if mf_userdata_size f > 0 then [mf_userdata f] else []) else []) @ [filt]
          else []))"

definition prs_msgq_alloc_event :: "msgq_system \<Rightarrow> ptr \<Rightarrow> u64 \<Rightarrow> ptr option \<Rightarrow> (msgq_system \<times> ptr) option" where
  "prs_msgq_alloc_event sys filt event_sources memory =
     (case prs_event_create (snd (ms_dir sys)) (tw_current (snd (ms_dir sys))) (event_sources + 1) memory of
        None \<Rightarrow> None
      | Some (w, event) \<Rightarrow>
          Some (msgq_set_filter (sys\<lparr>ms_dir := (fst (ms_dir sys), w), ms_events := (ms_events sys)(ev_addr event := event)\<rparr>)
                  filt ((ms_filters sys filt)\<lparr>mf_event := ev_addr event\<rparr>), ev_addr event))"

text \<open>The exchange that takes the event out of a filter; the senders and the receiver use it.\<close>

definition msgq_take_event :: "msgq_system \<Rightarrow> ptr \<Rightarrow> msgq_system \<times> ptr" where
  "msgq_take_event sys filt =
     (msgq_set_filter sys filt ((ms_filters sys filt)\<lparr>mf_event := 0\<rparr>), mf_event (ms_filters sys filt))"

definition msgq_signal :: "task_world god_ops \<Rightarrow> msgq_system \<Rightarrow> ptr \<Rightarrow> u8 \<Rightarrow> msgq_system \<times> u64 \<times> ptr list" where
  "msgq_signal ops_of sys event ty =
     (let (s, e, state, freed) = prs_event_signal ops_of (ms_dir sys) (ms_events sys event) ty
      in (sys\<lparr>ms_dir := s, ms_events := (ms_events sys)(event := e)\<rparr>, state, freed))"

definition msgq_unref_event :: "task_world god_ops \<Rightarrow> msgq_system \<Rightarrow> ptr \<Rightarrow> msgq_system \<times> ptr list" where
  "msgq_unref_event ops_of sys event =
     (let (s, e, state, freed) = prs_event_unref ops_of (ms_dir sys) (ms_events sys event)
      in (sys\<lparr>ms_dir := s, ms_events := (ms_events sys)(event := e)\<rparr>, freed))"

text \<open>What follows the exchange of \<^verbatim>\<open>prs_msgq_free_event\<close>.\<close>

definition msgq_release_event ::
  "task_world god_ops \<Rightarrow> msgq_system \<Rightarrow> ptr \<Rightarrow> ptr \<Rightarrow> msgq_system \<times> bool \<times> ptr list" where
  "msgq_release_event ops_of sys filter_event event =
     (let (sys, freed) = (if filter_event \<noteq> 0 then msgq_unref_event ops_of sys event else (sys, []));
          (sys, event_state, freed') = msgq_signal ops_of sys event PRS_MSGQ_EVENT_TYPE_FREE
      in (sys, event_state AND PRS_EVENT_STATE_SIGNALED \<noteq> 0, freed @ freed'))"

definition prs_msgq_free_event ::
  "task_world god_ops \<Rightarrow> msgq_system \<Rightarrow> ptr \<Rightarrow> ptr \<Rightarrow> msgq_system \<times> bool \<times> ptr list" where
  "prs_msgq_free_event ops_of sys filt event =
     (let (sys, filter_event) = msgq_take_event sys filt
      in msgq_release_event ops_of sys filter_event event)"

definition msgq_set_filter_id :: "msgq_system \<Rightarrow> u64 \<Rightarrow> msgq_system" where
  "msgq_set_filter_id sys fid = sys\<lparr>ms_msgq := (ms_msgq sys)\<lparr>mq_filter_id := fid\<rparr>\<rparr>"

definition prs_msgq_filter_reset :: "msgq_system \<Rightarrow> ptr \<Rightarrow> msgq_system \<times> ptr list" where
  "prs_msgq_filter_reset sys filt = prs_msgq_filter_unref (msgq_set_filter_id sys PRS_PD_ID_INVALID) filt"

definition prs_msgq_filter_set :: "msgq_system \<Rightarrow> ptr \<Rightarrow> msgq_system" where
  "prs_msgq_filter_set sys filt = msgq_set_filter_id sys (mf_id (ms_filters sys filt))"

section \<open>Sending\<close>

text \<open>The steps of \<^verbatim>\<open>prs_msgq_send\<close> on shared memory: the push, the load of the filter ID, the lock of the
  filter, the look at its event with the match, and the exchange of the event.\<close>

definition msgq_send_push :: "msgq_system \<Rightarrow> ptr \<Rightarrow> msgq_system" where
  "msgq_send_push sys msg = msgq_set_iq sys (prs_mpsciq_push (msgq_iq sys) (msg + msg_node_offset))"

definition msgq_send_lock :: "msgq_system \<Rightarrow> u64 \<Rightarrow> msgq_system \<times> ptr" where
  "msgq_send_lock sys filter_id =
     (if filter_id \<noteq> PRS_PD_ID_INVALID
      then (let (pd, filt) = prs_pd_lock (ms_pd sys) filter_id in (sys\<lparr>ms_pd := pd\<rparr>, filt))
      else (sys, 0))"

definition msgq_send_match :: "filter_fn \<Rightarrow> msgq_system \<Rightarrow> ptr \<Rightarrow> ptr \<Rightarrow> bool" where
  "msgq_send_match fn sys filt msg =
     (let f = ms_filters sys filt
      in if mf_event f \<noteq> 0 then msgq_match fn (ms_mem sys) (mf_function f) (mf_userdata f) msg else False)"

definition prs_msgq_send :: "filter_fn \<Rightarrow> task_world god_ops \<Rightarrow> msgq_system \<Rightarrow> ptr \<Rightarrow> msgq_system \<times> ptr list" where
  "prs_msgq_send fn ops_of sys msg =
     (let sys = msgq_send_push sys msg;
          filter_id = mq_filter_id (ms_msgq sys);
          (sys, filt) = msgq_send_lock sys filter_id
      in if filt \<noteq> 0
         then
           (let match = msgq_send_match fn sys filt msg;
                (sys, event) = (if match then msgq_take_event sys filt else (sys, 0));
                (sys, freed) = (if event \<noteq> 0
                  then (let (sys, _, freed) = msgq_signal ops_of sys event PRS_MSGQ_EVENT_TYPE_SEND in (sys, freed))
                  else (sys, []));
                (sys, freed') = prs_msgq_filter_unref sys filt
            in (sys, freed @ freed'))
         else (sys, []))"

section \<open>Receiving\<close>

text \<open>The loop of \<^verbatim>\<open>prs_msgq_search\<close>: the message, or null, and the last node that was looked at.\<close>

partial_function (option) msgq_search_loop :: "(ptr \<Rightarrow> bool) \<Rightarrow> iq_state \<Rightarrow> ptr \<Rightarrow> ptr \<Rightarrow> (ptr \<times> ptr) option" where
  "msgq_search_loop match s node prev =
     (if node \<noteq> 0
      then (let msg = prs_mpsciq_get_data (snd s) node
            in if match msg then Some (msg, prev) else msgq_search_loop match s (prs_mpsciq_next s node) node)
      else Some (0, prev))"

declare msgq_search_loop.simps [code]

text \<open>The queue, the message and the hint after the call.\<close>

definition prs_msgq_search ::
  "filter_fn \<Rightarrow> msgq_system \<Rightarrow> ptr \<Rightarrow> ptr \<Rightarrow> ptr \<Rightarrow> (msgq_system \<times> ptr \<times> ptr) option" where
  "prs_msgq_search fn sys userdata function hint =
     (case prs_mpsciq_begin (msgq_iq sys) of
        None \<Rightarrow> None
      | Some (s, node) \<Rightarrow>
          (let node = (if hint \<noteq> 0 then hint else node)
           in case msgq_search_loop (msgq_match fn (ms_mem sys) function userdata) s node node of
                None \<Rightarrow> None
              | Some (msg, prev) \<Rightarrow> Some (msgq_set_iq sys s, msg, if msg = 0 then prev else hint)))"

text \<open>What a call of \<^verbatim>\<open>prs_msgq_recv_internal\<close> keeps in its variables.\<close>

record msgq_recv =
  mr_userdata :: ptr
  mr_userdata_size :: u64
  mr_function :: ptr
  mr_use_timeout :: bool
  mr_wait_left :: prs_ticks_t
  mr_hint :: ptr
  mr_filter :: ptr
  mr_event :: ptr
  mr_timer_entry :: "u64 option"

text \<open>How a stretch of the call ends: a fatal error, a loop that does not end, the return with the message, or a call of the
  scheduler, once it is over with a message that is already found (the second argument) or with none.\<close>

datatype msgq_end = MsgqFatal | MsgqDiverge | MsgqReturn ptr | MsgqSchedule msgq_recv ptr | MsgqAgain msgq_recv

definition msgq_finish :: "msgq_system \<Rightarrow> ptr \<Rightarrow> msgq_system \<times> msgq_end" where
  "msgq_finish sys msg =
     (if msg \<noteq> 0
      then (case prs_mpsciq_remove (msgq_iq sys) (msg + msg_node_offset) of
              None \<Rightarrow> (sys, MsgqDiverge)
            | Some s \<Rightarrow> (msgq_set_iq sys s, MsgqReturn msg))
      else (sys, MsgqReturn 0))"

text \<open>The first search.\<close>

definition msgq_recv_first :: "filter_fn \<Rightarrow> msgq_system \<Rightarrow> msgq_recv \<Rightarrow> msgq_system \<times> msgq_end" where
  "msgq_recv_first fn sys r =
     (case prs_msgq_search fn sys (mr_userdata r) (mr_function r) 0 of
        None \<Rightarrow> (sys, MsgqDiverge)
      | Some (sys, msg, hint) \<Rightarrow> if msg \<noteq> 0 then msgq_finish sys msg else (sys, MsgqAgain (r\<lparr>mr_hint := hint\<rparr>)))"

text \<open>The beginning of a round, up to the point where the filter is published.\<close>

definition msgq_recv_publish ::
  "msgq_system \<Rightarrow> msgq_recv \<Rightarrow> ptr option \<Rightarrow> ptr option \<Rightarrow> ptr option \<Rightarrow> (msgq_system \<times> msgq_recv) option" where
  "msgq_recv_publish sys r memory userdata_memory event_memory =
     (case prs_msgq_filter_create sys (mr_userdata r) (mr_userdata_size r) (mr_function r) memory userdata_memory of
        None \<Rightarrow> None
      | Some (sys, filt) \<Rightarrow>
          (case prs_msgq_alloc_event sys filt (if mr_use_timeout r \<and> mr_wait_left r > 0 then 2 else 1) event_memory of
             None \<Rightarrow> None
           | Some (sys, event) \<Rightarrow> Some (prs_msgq_filter_set sys filt, r\<lparr>mr_filter := filt, mr_event := event\<rparr>)))"

text \<open>The search after that. Where nothing is found and there is a timeout, an entry of the timer is queued.\<close>

definition msgq_recv_wait ::
  "filter_fn \<Rightarrow> task_world god_ops \<Rightarrow> msgq_system \<Rightarrow> prs_timer \<Rightarrow> prs_ticks_t \<Rightarrow> msgq_recv
    \<Rightarrow> msgq_system \<times> prs_timer \<times> msgq_end \<times> ptr list" where
  "msgq_recv_wait fn ops_of sys timer clock r =
     (case prs_msgq_search fn sys (mr_userdata r) (mr_function r) (mr_hint r) of
        None \<Rightarrow> (sys, timer, MsgqDiverge, [])
      | Some (sys, msg, hint) \<Rightarrow>
          (let r = r\<lparr>mr_hint := hint\<rparr>
           in if msg \<noteq> 0
              then
                (let (sys, already_signaled, freed) = prs_msgq_free_event ops_of sys (mr_filter r) (mr_event r)
                 in if already_signaled then (sys, timer, MsgqSchedule r msg, freed)
                    else
                      (let (sys, freed') = prs_msgq_filter_reset sys (mr_filter r);
                           (sys, e) = msgq_finish sys msg
                       in (sys, timer, e, freed @ freed')))
              else if mr_use_timeout r \<and> mr_wait_left r > 0
              then
                (case prs_timer_queue timer clock (mr_event r) PRS_MSGQ_EVENT_TYPE_TIMEOUT (mr_wait_left r) of
                   None \<Rightarrow> (sys, timer, MsgqFatal, [])
                 | Some (timer, eid) \<Rightarrow> (sys, timer, MsgqSchedule (r\<lparr>mr_timer_entry := Some eid\<rparr>) 0, []))
              else (sys, timer, MsgqSchedule (r\<lparr>mr_timer_entry := None\<rparr>) 0, [])))"

text \<open>One round of the loop.\<close>

definition msgq_recv_round ::
  "filter_fn \<Rightarrow> task_world god_ops \<Rightarrow> msgq_system \<Rightarrow> prs_timer \<Rightarrow> prs_ticks_t \<Rightarrow> ptr option \<Rightarrow> ptr option \<Rightarrow> ptr option \<Rightarrow> msgq_recv
    \<Rightarrow> msgq_system \<times> prs_timer \<times> msgq_end \<times> ptr list" where
  "msgq_recv_round fn ops_of sys timer clock memory userdata_memory event_memory r =
     (if mr_use_timeout r \<and> \<not> mr_wait_left r > 0 then (sys, timer, MsgqReturn 0, [])
      else
        (case msgq_recv_publish sys r memory userdata_memory event_memory of
           None \<Rightarrow> (sys, timer, MsgqFatal, [])
         | Some (sys, r) \<Rightarrow> msgq_recv_wait fn ops_of sys timer clock r))"

text \<open>What follows the scheduler: with a message that was found before (\<open>msg\<close>), and with none.\<close>

definition msgq_wait_left :: "prs_timer \<Rightarrow> prs_ticks_t \<Rightarrow> msgq_recv \<Rightarrow> prs_timer \<times> prs_ticks_t" where
  "msgq_wait_left timer clock r =
     (case mr_timer_entry r of
        None \<Rightarrow> (timer, mr_wait_left r)
      | Some eid \<Rightarrow>
          (let diff = clock - prs_timer_get_start (Timer.timer_entry timer eid)
           in (prs_timer_cancel timer eid, if diff \<ge> mr_wait_left r then 0 else mr_wait_left r - diff)))"

definition msgq_recv_resume ::
  "filter_fn \<Rightarrow> task_world god_ops \<Rightarrow> msgq_system \<Rightarrow> prs_timer \<Rightarrow> prs_ticks_t \<Rightarrow> msgq_recv \<Rightarrow> ptr
    \<Rightarrow> msgq_system \<times> prs_timer \<times> msgq_end \<times> ptr list" where
  "msgq_recv_resume fn ops_of sys timer clock r msg =
     (if msg \<noteq> 0
      then
        (let (sys, freed) = prs_msgq_filter_reset sys (mr_filter r);
             (sys, e) = msgq_finish sys msg
         in (sys, timer, e, freed))
      else
        (let (timer, wait_left) = msgq_wait_left timer clock r;
             r = r\<lparr>mr_wait_left := wait_left\<rparr>;
             event_type = prs_task_get_last_unblock_cause (tw_tasks (snd (ms_dir sys)) (tw_current (snd (ms_dir sys))));
             msg_expected = (event_type = PRS_MSGQ_EVENT_TYPE_SEND)
         in case (if msg_expected then prs_msgq_search fn sys (mr_userdata r) (mr_function r) (mr_hint r)
                  else Some (sys, 0, mr_hint r)) of
              None \<Rightarrow> (sys, timer, MsgqDiverge, [])
            | Some (sys, msg, hint) \<Rightarrow>
                (let r = r\<lparr>mr_hint := hint\<rparr>;
                     (sys, _, freed) = prs_msgq_free_event ops_of sys (mr_filter r) (mr_event r);
                     (sys, freed') = prs_msgq_filter_reset sys (mr_filter r)
                 in if msg = 0 \<and> msg_expected then (sys, timer, MsgqAgain r, freed @ freed')
                    else (let (sys, e) = msgq_finish sys msg in (sys, timer, e, freed @ freed')))))"

text \<open>A call up to its first entry into the scheduler.\<close>

definition prs_msgq_recv_internal ::
  "filter_fn \<Rightarrow> task_world god_ops \<Rightarrow> msgq_system \<Rightarrow> prs_timer \<Rightarrow> prs_ticks_t \<Rightarrow> ptr option \<Rightarrow> ptr option \<Rightarrow> ptr option
    \<Rightarrow> ptr \<Rightarrow> u64 \<Rightarrow> ptr \<Rightarrow> prs_ticks_t \<Rightarrow> bool \<Rightarrow> msgq_system \<times> prs_timer \<times> msgq_end \<times> ptr list" where
  "prs_msgq_recv_internal fn ops_of sys timer clock memory userdata_memory event_memory userdata userdata_size function timeout use_timeout =
     (let r = \<lparr>mr_userdata = userdata, mr_userdata_size = userdata_size, mr_function = function, mr_use_timeout = use_timeout,
               mr_wait_left = timeout, mr_hint = 0, mr_filter = 0, mr_event = 0, mr_timer_entry = None\<rparr>
      in case msgq_recv_first fn sys r of
           (sys, MsgqAgain r) \<Rightarrow> msgq_recv_round fn ops_of sys timer clock memory userdata_memory event_memory r
         | (sys, e) \<Rightarrow> (sys, timer, e, []))"

definition prs_msgq_recv ::
  "filter_fn \<Rightarrow> task_world god_ops \<Rightarrow> msgq_system \<Rightarrow> prs_timer \<Rightarrow> prs_ticks_t \<Rightarrow> ptr option \<Rightarrow> ptr option \<Rightarrow> ptr option
    \<Rightarrow> msgq_system \<times> prs_timer \<times> msgq_end \<times> ptr list" where
  "prs_msgq_recv fn ops_of sys timer clock memory userdata_memory event_memory =
     prs_msgq_recv_internal fn ops_of sys timer clock memory userdata_memory event_memory 0 0 0 0 False"

definition prs_msgq_recv_timeout ::
  "filter_fn \<Rightarrow> task_world god_ops \<Rightarrow> msgq_system \<Rightarrow> prs_timer \<Rightarrow> prs_ticks_t \<Rightarrow> ptr option \<Rightarrow> ptr option \<Rightarrow> ptr option
    \<Rightarrow> prs_ticks_t \<Rightarrow> msgq_system \<times> prs_timer \<times> msgq_end \<times> ptr list" where
  "prs_msgq_recv_timeout fn ops_of sys timer clock memory userdata_memory event_memory timeout =
     prs_msgq_recv_internal fn ops_of sys timer clock memory userdata_memory event_memory 0 0 0 timeout True"

definition prs_msgq_recv_filter ::
  "filter_fn \<Rightarrow> task_world god_ops \<Rightarrow> msgq_system \<Rightarrow> prs_timer \<Rightarrow> prs_ticks_t \<Rightarrow> ptr option \<Rightarrow> ptr option \<Rightarrow> ptr option
    \<Rightarrow> ptr \<Rightarrow> u64 \<Rightarrow> ptr \<Rightarrow> msgq_system \<times> prs_timer \<times> msgq_end \<times> ptr list" where
  "prs_msgq_recv_filter fn ops_of sys timer clock memory userdata_memory event_memory userdata userdata_size function =
     prs_msgq_recv_internal fn ops_of sys timer clock memory userdata_memory event_memory userdata userdata_size function 0 False"

definition prs_msgq_recv_filter_timeout ::
  "filter_fn \<Rightarrow> task_world god_ops \<Rightarrow> msgq_system \<Rightarrow> prs_timer \<Rightarrow> prs_ticks_t \<Rightarrow> ptr option \<Rightarrow> ptr option \<Rightarrow> ptr option
    \<Rightarrow> ptr \<Rightarrow> u64 \<Rightarrow> ptr \<Rightarrow> prs_ticks_t \<Rightarrow> msgq_system \<times> prs_timer \<times> msgq_end \<times> ptr list" where
  "prs_msgq_recv_filter_timeout fn ops_of sys timer clock memory userdata_memory event_memory userdata userdata_size function timeout =
     prs_msgq_recv_internal fn ops_of sys timer clock memory userdata_memory event_memory userdata userdata_size function timeout True"

section \<open>Searching\<close>

lemma msgq_iq_simps [simp]:
  "msgq_iq (msgq_set_iq sys s) = s" "ms_pd (msgq_set_iq sys s) = ms_pd sys" "ms_filters (msgq_set_iq sys s) = ms_filters sys"
  "ms_events (msgq_set_iq sys s) = ms_events sys" "ms_mem (msgq_set_iq sys s) = ms_mem sys" "ms_dir (msgq_set_iq sys s) = ms_dir sys"
  "mq_filter_id (ms_msgq (msgq_set_iq sys s)) = mq_filter_id (ms_msgq sys)"
  by (simp_all add: msgq_iq_def msgq_set_iq_def)

text \<open>Systems that differ in the links of the queue only.\<close>

definition msgq_same :: "msgq_system \<Rightarrow> msgq_system \<Rightarrow> bool" where
  "msgq_same sys sys' \<longleftrightarrow> (\<exists>s. sys' = msgq_set_iq sys s)"

lemma msgq_same_fields:
  assumes "msgq_same sys sys'"
  shows "ms_pd sys' = ms_pd sys" "ms_filters sys' = ms_filters sys" "ms_events sys' = ms_events sys" "ms_mem sys' = ms_mem sys"
    "ms_dir sys' = ms_dir sys" "mq_filter_id (ms_msgq sys') = mq_filter_id (ms_msgq sys)"
  using assms by (auto simp: msgq_same_def)

lemma msgq_same_trans: "msgq_same sys sys' \<Longrightarrow> msgq_same sys' sys'' \<Longrightarrow> msgq_same sys sys''"
proof -
  have "msgq_set_iq (msgq_set_iq sys s) s' = msgq_set_iq sys s'" for s s' by (simp add: msgq_set_iq_def)
  then show "msgq_same sys sys' \<Longrightarrow> msgq_same sys' sys'' \<Longrightarrow> msgq_same sys sys''" unfolding msgq_same_def by metis
qed

text \<open>The queue holds the messages \<open>xs\<close>, the oldest first.\<close>

definition msgq_holds :: "msgq_system \<Rightarrow> ptr list \<Rightarrow> bool" where
  "msgq_holds sys xs \<longleftrightarrow> iq_rep (msgq_iq sys) xs \<and> iq_node_offset (mq_queue (ms_msgq sys)) = msg_node_offset"

definition first_match :: "(ptr \<Rightarrow> bool) \<Rightarrow> ptr list \<Rightarrow> ptr" where
  "first_match match xs = (case find match xs of None \<Rightarrow> 0 | Some m \<Rightarrow> m)"

lemma first_match_simps [simp]:
  "first_match match [] = 0" "first_match match (x # xs) = (if match x then x else first_match match xs)"
  by (simp_all add: first_match_def)

lemma first_match_skip: "\<forall>a \<in> set as. \<not> match a \<Longrightarrow> first_match match (as @ xs) = first_match match xs"
  by (induction as) simp_all

lemma first_match_zero: "0 \<notin> set xs \<Longrightarrow> first_match match xs = 0 \<longleftrightarrow> (\<forall>x \<in> set xs. \<not> match x)"
  by (induction xs) auto

lemma first_match_split:
  assumes "first_match match xs = m" and "m \<noteq> 0"
  obtains as bs where "xs = as @ m # bs" "match m" "\<forall>a \<in> set as. \<not> match a"
  using assms
proof (induction xs arbitrary: thesis)
  case (Cons x xs)
  show ?case
  proof (cases "match x")
    case True
    then show ?thesis using Cons.prems(1) [of "[]" xs] Cons.prems(2) by simp
  next
    case False
    then obtain as bs where "xs = as @ m # bs" "match m" "\<forall>a \<in> set as. \<not> match a"
      using Cons.IH Cons.prems(2,3) by auto
    then show ?thesis using Cons.prems(1) [of "x # as" bs] False by simp
  qed
qed simp

lemma msgq_search_loop_result:
  assumes "iq_settled s (as @ bs)" and "iq_node_offset (snd s) = msg_node_offset"
  shows "\<exists>prev'. msgq_search_loop match s (first_or bs 0) prev = Some (first_match match bs, prev')
    \<and> (first_match match bs = 0 \<longrightarrow> prev' = last_or bs prev)"
  using assms(1)
proof (induction bs arbitrary: as prev)
  case Nil
  then show ?case by (subst msgq_search_loop.simps) (simp add: last_or_def)
next
  case (Cons b bs)
  have b: "b \<noteq> 0" using iq_rep_nodes [OF iq_settled_rep [OF Cons.prems]] by auto
  have d: "prs_mpsciq_get_data (snd s) b = b" using assms(2) by (simp add: prs_mpsciq_get_data_def msg_node_offset_def)
  have "iq_settled s ((as @ [b]) @ bs)" using Cons.prems by simp
  from Cons.IH [OF this, of b] obtain prev' where
    r: "msgq_search_loop match s (first_or bs 0) b = Some (first_match match bs, prev')"
      "first_match match bs = 0 \<longrightarrow> prev' = last_or bs b" by blast
  show ?case
    using b d r iq_settled_next(1) [OF Cons.prems]
    by (subst msgq_search_loop.simps) (auto simp: last_or_def)
qed

text \<open>Where a hint may stand: nowhere, or at a message before which none matches.\<close>

definition hint_ok :: "(ptr \<Rightarrow> bool) \<Rightarrow> ptr list \<Rightarrow> ptr \<Rightarrow> bool" where
  "hint_ok match xs hint \<longleftrightarrow> hint = 0 \<or> (\<exists>as bs. xs = as @ hint # bs \<and> (\<forall>a \<in> set as. \<not> match a))"

lemma hint_ok_append: "hint_ok match xs hint \<Longrightarrow> hint_ok match (xs @ ys) hint"
  unfolding hint_ok_def by (metis append_Cons append_assoc)

lemma prs_msgq_search_result:
  assumes "msgq_holds sys xs" and "hint_ok (msgq_match fn (ms_mem sys) function userdata) xs hint"
  defines "m \<equiv> first_match (msgq_match fn (ms_mem sys) function userdata) xs"
  shows "\<exists>sys' hint'. prs_msgq_search fn sys userdata function hint = Some (sys', m, hint')
    \<and> msgq_holds sys' xs \<and> msgq_same sys sys' \<and> iq_same_outside (set xs) (ms_nodes sys) (ms_nodes sys')
    \<and> hint_ok (msgq_match fn (ms_mem sys) function userdata) xs hint'"
proof -
  let ?match = "msgq_match fn (ms_mem sys) function userdata"
  obtain s' where b: "prs_mpsciq_begin (msgq_iq sys) = Some (s', first_or xs 0)" "iq_settled s' xs"
      "iq_same_outside (set xs) (ms_nodes sys) (fst s')" "iq_node_offset (snd s') = iq_node_offset (mq_queue (ms_msgq sys))"
  proof -
    have "iq_rep (ms_nodes sys, mq_queue (ms_msgq sys)) xs" using assms(1) by (simp add: msgq_holds_def msgq_iq_def)
    then obtain nodes q where "prs_mpsciq_begin (ms_nodes sys, mq_queue (ms_msgq sys)) = Some ((nodes, q), first_or xs 0)"
      "iq_settled (nodes, q) xs" "iq_same_outside (set xs) (ms_nodes sys) nodes" "iq_node_offset q = iq_node_offset (mq_queue (ms_msgq sys))"
      by (rule iq_begin_rep)
    then show thesis using that [of "(nodes, q)"] by (simp add: msgq_iq_def)
  qed
  have off: "iq_node_offset (snd s') = msg_node_offset" using b(4) assms(1) by (simp add: msgq_holds_def)
  have z: "0 \<notin> set xs" using iq_rep_nodes [OF iq_settled_rep [OF b(2)]] by simp
  obtain as bs where ab: "xs = as @ bs" "(if hint \<noteq> 0 then hint else first_or xs 0) = first_or bs 0" "\<forall>a \<in> set as. \<not> ?match a"
    and ne: "bs = [] \<longrightarrow> xs = []"
  proof (cases "hint = 0")
    case True
    then show thesis using that [of "[]" xs] by simp
  next
    case False
    then obtain as bs where "xs = as @ hint # bs" "\<forall>a \<in> set as. \<not> ?match a" using assms(2) by (auto simp: hint_ok_def)
    then show thesis using that [of as "hint # bs"] False by simp
  qed
  have m: "m = first_match ?match bs" unfolding m_def ab(1) using ab(3) by (simp add: first_match_skip)
  obtain prev' where l: "msgq_search_loop ?match s' (first_or bs 0) (first_or bs 0) = Some (m, prev')"
      "m = 0 \<longrightarrow> prev' = last_or bs (first_or bs 0)"
    using msgq_search_loop_result [of s' as bs ?match "first_or bs 0"] b(2) off unfolding m ab(1) by blast
  have run: "prs_msgq_search fn sys userdata function hint = Some (msgq_set_iq sys s', m, if m = 0 then prev' else hint)"
    using b(1) l(1) ab(2) by (simp add: prs_msgq_search_def)
  have "hint_ok ?match xs prev'" if "m = 0"
  proof (cases "bs = []")
    case True
    then show ?thesis using l(2) that by (simp add: hint_ok_def last_or_def)
  next
    case False
    then have "prev' = last bs" "xs = (as @ butlast bs) @ last bs # []" using l(2) that ab(1) by (simp_all add: last_or_def)
    moreover have "\<forall>a \<in> set (as @ butlast bs). \<not> ?match a"
      using that m first_match_zero [of bs ?match] z ab(1,3) by (auto dest: in_set_butlastD)
    ultimately show ?thesis unfolding hint_ok_def by blast
  qed
  then have "hint_ok ?match xs (if m = 0 then prev' else hint)" using assms(2) by simp
  moreover have "msgq_holds (msgq_set_iq sys s') xs"
    using b(2) off by (simp add: msgq_holds_def iq_settled_rep) (simp add: msgq_set_iq_def)
  moreover have "msgq_same sys (msgq_set_iq sys s')" unfolding msgq_same_def by blast
  moreover have "ms_nodes (msgq_set_iq sys s') = fst s'" by (simp add: msgq_set_iq_def)
  ultimately show ?thesis using run b(3) by fastforce
qed

lemma msgq_finish_result:
  assumes "msgq_holds sys (as @ m # bs)"
  shows "\<exists>sys'. msgq_finish sys m = (sys', MsgqReturn m) \<and> msgq_holds sys' (as @ bs) \<and> msgq_same sys sys' \<and> iq_unlinked (ms_nodes sys') m"
proof -
  have "iq_rep (ms_nodes sys, mq_queue (ms_msgq sys)) (as @ m # bs)" using assms by (simp add: msgq_holds_def msgq_iq_def)
  then obtain nodes q where r: "prs_mpsciq_remove (ms_nodes sys, mq_queue (ms_msgq sys)) m = Some (nodes, q)" "iq_rep (nodes, q) (as @ bs)"
      "iq_unlinked nodes m" "iq_node_offset q = iq_node_offset (mq_queue (ms_msgq sys))" by (rule iq_remove_rep)
  have "m \<noteq> 0" using assms iq_rep_nodes by (fastforce simp: msgq_holds_def)
  then have "msgq_finish sys m = (msgq_set_iq sys (nodes, q), MsgqReturn m)"
    using r(1) by (simp add: msgq_finish_def msgq_iq_def msg_node_offset_def)
  moreover have "msgq_holds (msgq_set_iq sys (nodes, q)) (as @ bs)"
    using r(2,4) assms by (simp add: msgq_holds_def) (simp add: msgq_set_iq_def)
  moreover have "msgq_same sys (msgq_set_iq sys (nodes, q))" unfolding msgq_same_def by blast
  moreover have "iq_unlinked (ms_nodes (msgq_set_iq sys (nodes, q))) m" using r(3) by (simp add: msgq_set_iq_def)
  ultimately show ?thesis by blast
qed

section \<open>Senders and the receiver\<close>

text \<open>Where a sender is: outside, behind the push, with the filter ID, with the filter locked, before the exchange of
  the event, before the signal, and before it releases the filter.\<close>

datatype send_pc = SendIdle | SendPushed ptr | SendLoaded ptr u64 | SendLocked ptr ptr | SendMatched ptr ptr | SendSignal ptr ptr | SendUnref ptr

text \<open>Where the receiver is: outside, before a round, behind the publication of its filter, in the scheduler, and in the steps that take
  the event and the filter back; it has found a message, or none although one was sent (\<open>Some 0\<close>), or its time is over.\<close>

datatype recv_pc = RecvIdle | RecvReady msgq_recv | RecvPublished msgq_recv | RecvBlocked msgq_recv | RecvTake msgq_recv "ptr option"
  | RecvRelease msgq_recv ptr "ptr option" | RecvReset msgq_recv "ptr option" | RecvUnref msgq_recv "ptr option" | RecvFinish msgq_recv "ptr option"

text \<open>The configuration also holds the messages of the queue and the events that the timer will still signal or release.\<close>

record msgq_config =
  mc_sys :: msgq_system
  mc_queue :: "ptr list"
  mc_send :: "ptr \<Rightarrow> send_pc"
  mc_recv :: recv_pc
  mc_timers :: "ptr set"

fun send_holds :: "ptr \<Rightarrow> send_pc \<Rightarrow> bool" where
  "send_holds f (SendLocked m g) = (g = f)"
| "send_holds f (SendMatched m g) = (g = f)"
| "send_holds f (SendSignal g a) = (g = f)"
| "send_holds f (SendUnref g) = (g = f)"
| "send_holds f _ = False"

fun recv_of :: "recv_pc \<Rightarrow> msgq_recv option" where
  "recv_of (RecvPublished r) = Some r"
| "recv_of (RecvBlocked r) = Some r"
| "recv_of (RecvTake r found) = Some r"
| "recv_of (RecvRelease r a found) = Some r"
| "recv_of (RecvReset r found) = Some r"
| "recv_of (RecvUnref r found) = Some r"
| "recv_of _ = None"

definition recv_holds :: "recv_pc \<Rightarrow> ptr \<Rightarrow> bool" where
  "recv_holds recv f \<longleftrightarrow> (\<exists>r. recv_of recv = Some r \<and> mr_filter r = f)"

definition msgq_held :: "(ptr \<Rightarrow> send_pc) \<Rightarrow> recv_pc \<Rightarrow> ptr \<Rightarrow> int" where
  "msgq_held send recv f = pc_count (send_holds f) send + of_bool (recv_holds recv f)"

definition msgq_as :: "ptr \<Rightarrow> msgq_system \<Rightarrow> msgq_system" where
  "msgq_as p sys = sys\<lparr>ms_dir := (fst (ms_dir sys), (snd (ms_dir sys))\<lparr>tw_current := p\<rparr>)\<rparr>"

definition msgq_blocked :: "msgq_system \<Rightarrow> ptr \<Rightarrow> bool" where
  "msgq_blocked sys p \<longleftrightarrow> prs_task_get_state (tw_tasks (snd (ms_dir sys)) p) = task_state_code PRS_TASK_STATE_BLOCKED"

text \<open>What the code asks of a filter function: with data that is copied it looks at nothing but the data.\<close>

definition msgq_filter_reads :: "filter_fn \<Rightarrow> msgq_recv \<Rightarrow> bool" where
  "msgq_filter_reads fn r \<longleftrightarrow> (mr_function r \<noteq> 0 \<and> mr_userdata_size r > 0 \<longrightarrow>
     (\<forall>mem mem' u u' m. (\<forall>i < mr_userdata_size r. mem (u + i) = mem' (u' + i)) \<longrightarrow> fn (mr_function r) mem u m = fn (mr_function r) mem' u' m))"

text \<open>The memory that the allocations return is in nobody's use.\<close>

definition msgq_fresh :: "msgq_config \<Rightarrow> msgq_recv \<Rightarrow> ptr \<Rightarrow> ptr \<Rightarrow> ptr \<Rightarrow> bool" where
  "msgq_fresh c r filt copy event \<longleftrightarrow> filt \<noteq> 0 \<and> event \<noteq> 0 \<and> msgq_held (mc_send c) (mc_recv c) filt = 0
     \<and> (\<forall>i < mr_userdata_size r. \<forall>j < mr_userdata_size r. mr_userdata r + i \<noteq> copy + j)"

text \<open>The steps of the senders in \<open>T\<close>, of the receiver, which is the task at \<open>p\<close>, and of the timer.\<close>

inductive msgq_step :: "filter_fn \<Rightarrow> task_world god_ops \<Rightarrow> ptr set \<Rightarrow> ptr \<Rightarrow> msgq_config \<Rightarrow> msgq_config \<Rightarrow> bool" for fn ops_of T p where
  send_push: "t \<in> T \<Longrightarrow> mc_send c t = SendIdle \<Longrightarrow> msg \<notin> set (mc_queue c) \<Longrightarrow> iq_unlinked (ms_nodes (mc_sys c)) msg
    \<Longrightarrow> msgq_step fn ops_of T p c (c\<lparr>mc_sys := msgq_send_push (mc_sys c) msg, mc_queue := mc_queue c @ [msg], mc_send := (mc_send c)(t := SendPushed msg)\<rparr>)"
| send_load: "mc_send c t = SendPushed msg
    \<Longrightarrow> msgq_step fn ops_of T p c (c\<lparr>mc_send := (mc_send c)(t := SendLoaded msg (mq_filter_id (ms_msgq (mc_sys c))))\<rparr>)"
| send_lock: "mc_send c t = SendLoaded msg fid \<Longrightarrow> msgq_send_lock (mc_sys c) fid = (sys, filt)
    \<Longrightarrow> msgq_step fn ops_of T p c (c\<lparr>mc_sys := sys, mc_send := (mc_send c)(t := if filt \<noteq> 0 then SendLocked msg filt else SendIdle)\<rparr>)"
| send_match: "mc_send c t = SendLocked msg filt
    \<Longrightarrow> msgq_step fn ops_of T p c (c\<lparr>mc_send := (mc_send c)(t := if msgq_send_match fn (mc_sys c) filt msg then SendMatched msg filt else SendUnref filt)\<rparr>)"
| send_take: "mc_send c t = SendMatched msg filt \<Longrightarrow> msgq_take_event (mc_sys c) filt = (sys, event)
    \<Longrightarrow> msgq_step fn ops_of T p c (c\<lparr>mc_sys := sys, mc_send := (mc_send c)(t := if event \<noteq> 0 then SendSignal filt event else SendUnref filt)\<rparr>)"
| send_signal: "mc_send c t = SendSignal filt event \<Longrightarrow> msgq_signal ops_of (msgq_as t (mc_sys c)) event PRS_MSGQ_EVENT_TYPE_SEND = (sys, state, freed)
    \<Longrightarrow> msgq_step fn ops_of T p c (c\<lparr>mc_sys := sys, mc_send := (mc_send c)(t := SendUnref filt)\<rparr>)"
| send_unref: "mc_send c t = SendUnref filt \<Longrightarrow> prs_msgq_filter_unref (mc_sys c) filt = (sys, freed)
    \<Longrightarrow> msgq_step fn ops_of T p c (c\<lparr>mc_sys := sys, mc_send := (mc_send c)(t := SendIdle)\<rparr>)"
| recv_first: "mc_recv c = RecvIdle \<Longrightarrow> msgq_filter_reads fn r \<Longrightarrow> prs_msgq_search fn (mc_sys c) (mr_userdata r) (mr_function r) 0 = Some (sys, msg, hint)
    \<Longrightarrow> msgq_step fn ops_of T p c (c\<lparr>mc_sys := sys, mc_recv := if msg \<noteq> 0 then RecvFinish (r\<lparr>mr_hint := hint\<rparr>) (Some msg) else RecvReady (r\<lparr>mr_hint := hint\<rparr>)\<rparr>)"
| recv_expired: "mc_recv c = RecvReady r \<Longrightarrow> mr_use_timeout r \<and> \<not> mr_wait_left r > 0 \<Longrightarrow> msgq_step fn ops_of T p c (c\<lparr>mc_recv := RecvIdle\<rparr>)"
| recv_publish: "mc_recv c = RecvReady r \<Longrightarrow> \<not> (mr_use_timeout r \<and> \<not> mr_wait_left r > 0) \<Longrightarrow> msgq_fresh c r filt copy event \<Longrightarrow> pd_ids_left (ms_pd (mc_sys c))
    \<Longrightarrow> msgq_recv_publish (msgq_as p (mc_sys c)) r (Some filt) (Some copy) (Some event) = Some (sys, r')
    \<Longrightarrow> msgq_step fn ops_of T p c (c\<lparr>mc_sys := sys, mc_recv := RecvPublished r'\<rparr>)"
| recv_search: "mc_recv c = RecvPublished r \<Longrightarrow> prs_msgq_search fn (mc_sys c) (mr_userdata r) (mr_function r) (mr_hint r) = Some (sys, msg, hint)
    \<Longrightarrow> timers = (if mr_use_timeout r \<and> mr_wait_left r > 0 then insert (mr_event r) (mc_timers c) else mc_timers c)
    \<Longrightarrow> msgq_step fn ops_of T p c (if msg \<noteq> 0 then c\<lparr>mc_sys := sys, mc_recv := RecvTake (r\<lparr>mr_hint := hint\<rparr>) (Some msg)\<rparr>
          else c\<lparr>mc_sys := sys, mc_recv := RecvBlocked (r\<lparr>mr_hint := hint\<rparr>), mc_timers := timers\<rparr>)"
| timer_signal: "event \<in> mc_timers c \<Longrightarrow> msgq_signal ops_of (msgq_as t (mc_sys c)) event PRS_MSGQ_EVENT_TYPE_TIMEOUT = (sys, state, freed)
    \<Longrightarrow> msgq_step fn ops_of T p c (c\<lparr>mc_sys := sys, mc_timers := mc_timers c - {event}\<rparr>)"
| timer_unref: "event \<in> mc_timers c \<Longrightarrow> msgq_unref_event ops_of (mc_sys c) event = (sys, freed)
    \<Longrightarrow> msgq_step fn ops_of T p c (c\<lparr>mc_sys := sys, mc_timers := mc_timers c - {event}\<rparr>)"
| recv_resume: "mc_recv c = RecvBlocked r \<Longrightarrow> \<not> msgq_blocked (mc_sys c) p
    \<Longrightarrow> expected = (prs_task_get_last_unblock_cause (tw_tasks (snd (ms_dir (mc_sys c))) p) = PRS_MSGQ_EVENT_TYPE_SEND)
    \<Longrightarrow> (if expected then prs_msgq_search fn (mc_sys c) (mr_userdata r) (mr_function r) (mr_hint r) else Some (mc_sys c, 0, mr_hint r)) = Some (sys, msg, hint)
    \<Longrightarrow> msgq_step fn ops_of T p c (c\<lparr>mc_sys := sys, mc_recv := RecvTake (r\<lparr>mr_hint := hint, mr_wait_left := wait_left\<rparr>) (if expected then Some msg else None)\<rparr>)"
| recv_take: "mc_recv c = RecvTake r found \<Longrightarrow> msgq_take_event (mc_sys c) (mr_filter r) = (sys, event)
    \<Longrightarrow> msgq_step fn ops_of T p c (c\<lparr>mc_sys := sys, mc_recv := RecvRelease r event found\<rparr>)"
| recv_release: "mc_recv c = RecvRelease r event found \<Longrightarrow> msgq_release_event ops_of (msgq_as p (mc_sys c)) event (mr_event r) = (sys, signaled, freed)
    \<Longrightarrow> msgq_step fn ops_of T p c (c\<lparr>mc_sys := sys, mc_recv := RecvReset r found\<rparr>)"
| recv_reset: "mc_recv c = RecvReset r found
    \<Longrightarrow> msgq_step fn ops_of T p c (c\<lparr>mc_sys := msgq_set_filter_id (mc_sys c) PRS_PD_ID_INVALID, mc_recv := RecvUnref r found\<rparr>)"
| recv_unref: "mc_recv c = RecvUnref r found \<Longrightarrow> prs_msgq_filter_unref (mc_sys c) (mr_filter r) = (sys, freed)
    \<Longrightarrow> msgq_step fn ops_of T p c (c\<lparr>mc_sys := sys, mc_recv := RecvFinish r found\<rparr>)"
| recv_again: "mc_recv c = RecvFinish r (Some 0) \<Longrightarrow> msgq_step fn ops_of T p c (c\<lparr>mc_recv := RecvReady r\<rparr>)"
| recv_timeout: "mc_recv c = RecvFinish r None \<Longrightarrow> msgq_step fn ops_of T p c (c\<lparr>mc_recv := RecvIdle\<rparr>)"
| recv_finish: "mc_recv c = RecvFinish r (Some msg) \<Longrightarrow> msg \<noteq> 0 \<Longrightarrow> msgq_finish (mc_sys c) msg = (sys, MsgqReturn msg)
    \<Longrightarrow> msgq_step fn ops_of T p c (c\<lparr>mc_sys := sys, mc_queue := remove1 msg (mc_queue c), mc_recv := RecvIdle\<rparr>)"

subsection \<open>What the operations leave alone\<close>

definition msgq_rest :: "msgq_system \<Rightarrow> iq_state \<times> (ptr \<Rightarrow> u8) \<times> u64" where
  "msgq_rest sys = (msgq_iq sys, ms_mem sys, mq_filter_id (ms_msgq sys))"

lemma msgq_as_fields [simp]:
  "ms_msgq (msgq_as t sys) = ms_msgq sys" "ms_nodes (msgq_as t sys) = ms_nodes sys" "ms_pd (msgq_as t sys) = ms_pd sys"
  "ms_filters (msgq_as t sys) = ms_filters sys" "ms_events (msgq_as t sys) = ms_events sys" "ms_mem (msgq_as t sys) = ms_mem sys"
  "fst (ms_dir (msgq_as t sys)) = fst (ms_dir sys)" "tw_tasks (snd (ms_dir (msgq_as t sys))) = tw_tasks (snd (ms_dir sys))"
  "tw_current (snd (ms_dir (msgq_as t sys))) = t" "msgq_iq (msgq_as t sys) = msgq_iq sys"
  by (simp_all add: msgq_as_def msgq_iq_def)

lemma msgq_set_filter_fields [simp]:
  "ms_msgq (msgq_set_filter sys a f) = ms_msgq sys" "ms_nodes (msgq_set_filter sys a f) = ms_nodes sys" "ms_pd (msgq_set_filter sys a f) = ms_pd sys"
  "ms_filters (msgq_set_filter sys a f) = (ms_filters sys)(a := f)" "ms_events (msgq_set_filter sys a f) = ms_events sys"
  "ms_mem (msgq_set_filter sys a f) = ms_mem sys" "ms_dir (msgq_set_filter sys a f) = ms_dir sys" "msgq_iq (msgq_set_filter sys a f) = msgq_iq sys"
  by (simp_all add: msgq_set_filter_def msgq_iq_def)

lemma msgq_set_filter_id_fields [simp]:
  "ms_nodes (msgq_set_filter_id sys i) = ms_nodes sys" "ms_pd (msgq_set_filter_id sys i) = ms_pd sys"
  "ms_filters (msgq_set_filter_id sys i) = ms_filters sys" "ms_events (msgq_set_filter_id sys i) = ms_events sys"
  "ms_mem (msgq_set_filter_id sys i) = ms_mem sys" "ms_dir (msgq_set_filter_id sys i) = ms_dir sys" "msgq_iq (msgq_set_filter_id sys i) = msgq_iq sys"
  "mq_filter_id (ms_msgq (msgq_set_filter_id sys i)) = i" "mq_queue (ms_msgq (msgq_set_filter_id sys i)) = mq_queue (ms_msgq sys)"
  by (simp_all add: msgq_set_filter_id_def msgq_iq_def)

lemma msgq_holds_cong: "msgq_iq sys' = msgq_iq sys \<Longrightarrow> msgq_holds sys' xs = msgq_holds sys xs"
  by (simp add: msgq_holds_def msgq_iq_def)

lemma send_lock_fields:
  assumes "msgq_send_lock sys fid = (sys', filt)"
  shows "msgq_rest sys' = msgq_rest sys" "ms_filters sys' = ms_filters sys" "ms_events sys' = ms_events sys" "ms_dir sys' = ms_dir sys"
  using assms by (auto simp: msgq_send_lock_def msgq_rest_def msgq_iq_def split: if_splits prod.splits)

lemma take_event_fields:
  assumes "msgq_take_event sys filt = (sys', event)"
  shows "msgq_rest sys' = msgq_rest sys" "ms_pd sys' = ms_pd sys" "ms_events sys' = ms_events sys" "ms_dir sys' = ms_dir sys"
    "ms_filters sys' = (ms_filters sys)(filt := (ms_filters sys filt)\<lparr>mf_event := 0\<rparr>)" "event = mf_event (ms_filters sys filt)"
  using assms by (auto simp: msgq_take_event_def msgq_rest_def)

lemma signal_fields:
  assumes "msgq_signal ops_of sys event ty = (sys', state, freed)"
  shows "msgq_rest sys' = msgq_rest sys" "ms_pd sys' = ms_pd sys" "ms_filters sys' = ms_filters sys"
  using assms by (auto simp: msgq_signal_def msgq_rest_def msgq_iq_def split: prod.splits)

lemma unref_event_fields:
  assumes "msgq_unref_event ops_of sys event = (sys', freed)"
  shows "msgq_rest sys' = msgq_rest sys" "ms_pd sys' = ms_pd sys" "ms_filters sys' = ms_filters sys"
  using assms by (auto simp: msgq_unref_event_def msgq_rest_def msgq_iq_def split: prod.splits)

lemma release_event_fields:
  assumes "msgq_release_event ops_of sys a event = (sys', signaled, freed)"
  shows "msgq_rest sys' = msgq_rest sys" "ms_pd sys' = ms_pd sys" "ms_filters sys' = ms_filters sys"
proof -
  obtain sys1 freed1 where 1: "(if a \<noteq> 0 then msgq_unref_event ops_of sys event else (sys, [])) = (sys1, freed1)" by fastforce
  obtain sys2 st freed2 where 2: "msgq_signal ops_of sys1 event PRS_MSGQ_EVENT_TYPE_FREE = (sys2, st, freed2)" by (metis prod_cases3)
  have e: "sys' = sys2" using assms 1 2 by (simp add: msgq_release_event_def)
  have "msgq_rest sys1 = msgq_rest sys \<and> ms_pd sys1 = ms_pd sys \<and> ms_filters sys1 = ms_filters sys"
    using 1 unref_event_fields [of ops_of sys event sys1 freed1] by (auto split: if_splits)
  then show "msgq_rest sys' = msgq_rest sys" "ms_pd sys' = ms_pd sys" "ms_filters sys' = ms_filters sys"
    using signal_fields [OF 2] e by simp_all
qed

lemma filter_unref_fields:
  assumes "prs_msgq_filter_unref sys filt = (sys', freed)"
  shows "msgq_rest sys' = msgq_rest sys" "ms_filters sys' = ms_filters sys" "ms_events sys' = ms_events sys" "ms_dir sys' = ms_dir sys"
    "ms_pd sys' = fst (prs_pd_unlock (ms_pd sys) (mf_id (ms_filters sys filt)))"
  using assms by (auto simp: prs_msgq_filter_unref_def msgq_rest_def msgq_iq_def Let_def split: prod.splits)

lemma send_push_fields:
  "ms_pd (msgq_send_push sys msg) = ms_pd sys" "ms_filters (msgq_send_push sys msg) = ms_filters sys" "ms_events (msgq_send_push sys msg) = ms_events sys"
  "ms_mem (msgq_send_push sys msg) = ms_mem sys" "ms_dir (msgq_send_push sys msg) = ms_dir sys"
  "mq_filter_id (ms_msgq (msgq_send_push sys msg)) = mq_filter_id (ms_msgq sys)"
  by (simp_all add: msgq_send_push_def)

lemma msgq_restD:
  assumes "msgq_rest sys' = msgq_rest sys"
  shows "msgq_iq sys' = msgq_iq sys" "ms_mem sys' = ms_mem sys" "mq_filter_id (ms_msgq sys') = mq_filter_id (ms_msgq sys)"
  using assms by (simp_all add: msgq_rest_def)

text \<open>The publication of a filter.\<close>

definition msgq_refcnt :: "msgq_recv \<Rightarrow> u64" where
  "msgq_refcnt r = (if mr_use_timeout r \<and> mr_wait_left r > 0 then 3 else 2)"

definition msgq_published ::
  "msgq_system \<Rightarrow> msgq_recv \<Rightarrow> ptr \<Rightarrow> ptr \<Rightarrow> ptr \<Rightarrow> u64 \<Rightarrow> prs_task \<Rightarrow> msgq_system \<Rightarrow> msgq_recv \<Rightarrow> bool" where
  "msgq_published sys r filt copy event fid t sys' r' \<longleftrightarrow>
     pd_live (ms_pd sys) fid = None \<and> pd_wf (ms_pd sys')
     \<and> (\<exists>e. pd_live (ms_pd sys') = (pd_live (ms_pd sys))(fid \<mapsto> e) \<and> pde_ptr e = filt \<and> pd_refs (pde_header e) = 1)
     \<and> r' = r\<lparr>mr_filter := filt, mr_event := event\<rparr> \<and> mq_filter_id (ms_msgq sys') = fid \<and> msgq_iq sys' = msgq_iq sys
     \<and> ms_filters sys' = (ms_filters sys)(filt := \<lparr>mf_id = fid, mf_event = event,
         mf_userdata = (if mr_function r \<noteq> 0 then if mr_userdata_size r > 0 then copy else mr_userdata r else 0),
         mf_userdata_size = (if mr_function r \<noteq> 0 then mr_userdata_size r else 0), mf_function = mr_function r\<rparr>)
     \<and> ms_mem sys' = (if mr_function r \<noteq> 0 \<and> mr_userdata_size r > 0 then msgq_memcpy (ms_mem sys) copy (mr_userdata r) (mr_userdata_size r) else ms_mem sys)
     \<and> fst (ms_dir sys') = fst (ms_dir sys) \<and> prs_task_block (tw_tasks (snd (ms_dir sys)) (tw_current (snd (ms_dir sys)))) = (t, task_token t)
     \<and> tw_tasks (snd (ms_dir sys')) = (tw_tasks (snd (ms_dir sys)))(tw_current (snd (ms_dir sys)) := t)
     \<and> ms_events sys' = (ms_events sys)(event := \<lparr>ev_addr = event, ev_task_id = task_id t, ev_token = task_token t,
         ev_initial_refcnt = msgq_refcnt r, ev_refcnt = msgq_refcnt r\<rparr>)"

lemma msgq_publishedD:
  assumes "msgq_published sys r filt copy event fid t sys' r'"
  shows "pd_live (ms_pd sys) fid = None" and "pd_wf (ms_pd sys')"
    and "\<exists>e. pd_live (ms_pd sys') = (pd_live (ms_pd sys))(fid \<mapsto> e) \<and> pde_ptr e = filt \<and> pd_refs (pde_header e) = 1"
    and "r' = r\<lparr>mr_filter := filt, mr_event := event\<rparr>" and "mq_filter_id (ms_msgq sys') = fid" and "msgq_iq sys' = msgq_iq sys"
    and "ms_filters sys' = (ms_filters sys)(filt := \<lparr>mf_id = fid, mf_event = event,
         mf_userdata = (if mr_function r \<noteq> 0 then if mr_userdata_size r > 0 then copy else mr_userdata r else 0),
         mf_userdata_size = (if mr_function r \<noteq> 0 then mr_userdata_size r else 0), mf_function = mr_function r\<rparr>)"
    and "ms_mem sys' = (if mr_function r \<noteq> 0 \<and> mr_userdata_size r > 0 then msgq_memcpy (ms_mem sys) copy (mr_userdata r) (mr_userdata_size r) else ms_mem sys)"
    and "fst (ms_dir sys') = fst (ms_dir sys)" and "prs_task_block (tw_tasks (snd (ms_dir sys)) (tw_current (snd (ms_dir sys)))) = (t, task_token t)"
    and "tw_tasks (snd (ms_dir sys')) = (tw_tasks (snd (ms_dir sys)))(tw_current (snd (ms_dir sys)) := t)"
    and "ms_events sys' = (ms_events sys)(event := \<lparr>ev_addr = event, ev_task_id = task_id t, ev_token = task_token t,
         ev_initial_refcnt = msgq_refcnt r, ev_refcnt = msgq_refcnt r\<rparr>)"
  using assms unfolding msgq_published_def by blast+

lemma recv_publish_fields:
  assumes "msgq_recv_publish sys r (Some filt) (Some copy) (Some event) = Some (sys', r')"
    and "pd_wf (ms_pd sys)" and "pd_ids_left (ms_pd sys)" and "filt \<noteq> 0"
  obtains fid t where "msgq_published sys r filt copy event fid t sys' r'"
proof -
  from assms(2,3) show thesis
  proof (cases rule: prs_pd_alloc_cases [where p = filt])
    case full
    then show thesis using assms(1) by (simp add: msgq_recv_publish_def prs_msgq_filter_create_def)
  next
    case (found j)
    define t where "t = fst (prs_task_block (tw_tasks (snd (ms_dir sys)) (tw_current (snd (ms_dir sys)))))"
    have t: "prs_task_block (tw_tasks (snd (ms_dir sys)) (tw_current (snd (ms_dir sys)))) = (t, task_token t)"
      by (simp add: t_def prs_task_block_def Let_def)
    note al = pd_alloc_at_wf [OF assms(2,4) found(1-3)]
    note pub = msgq_recv_publish_def prs_msgq_filter_create_def prs_msgq_alloc_event_def prs_event_create_def prs_msgq_filter_set_def
      msgq_iq_def msgq_refcnt_def Let_def
    have pd: "ms_pd sys' = pd_alloc_at (ms_pd sys) filt j" using assms(1) found(4) t by (auto simp: pub split: if_splits)
    show thesis
    proof (rule that [of j t], unfold msgq_published_def, intro conjI)
      show "pd_live (ms_pd sys) j = None" by (rule al(2))
      show "pd_wf (ms_pd sys')" unfolding pd by (rule al(1))
      show "\<exists>e. pd_live (ms_pd sys') = (pd_live (ms_pd sys))(j \<mapsto> e) \<and> pde_ptr e = filt \<and> pd_refs (pde_header e) = 1"
        unfolding pd by (rule al(3))
    qed (use assms(1) found(4) t in \<open>auto simp: pub split: if_splits\<close>)
  qed
qed

subsection \<open>The references of the filters\<close>

text \<open>The directory holds the filters that somebody holds, each with as many references as there are holders.\<close>

definition msgq_dir_ok :: "prs_pd \<Rightarrow> (ptr \<Rightarrow> u64) \<Rightarrow> (ptr \<Rightarrow> int) \<Rightarrow> bool" where
  "msgq_dir_ok pd fid held \<longleftrightarrow> pd_wf pd
     \<and> (\<forall>f. 0 < held f \<longrightarrow> (\<exists>e. pd_live pd (fid f) = Some e \<and> pde_ptr e = f \<and> int (pd_refs (pde_header e)) = held f))
     \<and> (\<forall>i e. pd_live pd i = Some e \<longrightarrow> fid (pde_ptr e) = i \<and> 0 < held (pde_ptr e))"

lemma msgq_dir_okD:
  assumes "msgq_dir_ok pd fid held"
  shows "pd_wf pd" and "0 < held f \<Longrightarrow> \<exists>e. pd_live pd (fid f) = Some e \<and> pde_ptr e = f \<and> int (pd_refs (pde_header e)) = held f"
    and "pd_live pd i = Some e \<Longrightarrow> fid (pde_ptr e) = i" and "pd_live pd i = Some e \<Longrightarrow> 0 < held (pde_ptr e)"
  using assms by (simp_all add: msgq_dir_ok_def)

lemma pd_lock_full:
  assumes "pd_wf pd" and "pd_live pd i = Some e" and "\<not> pd_refs (pde_header e) < 4095"
  shows "prs_pd_lock pd i = (pd, 0)"
proof -
  have "pd_refs (pde_header e) = 4095" using assms(3) pd_refs_less [of "pde_header e"] by simp
  moreover have "e = pd_entries pd ! prs_pd_get_entry pd i" using assms(2) unfolding pd_live_Some [OF assms(1)] by blast
  ultimately show ?thesis by (auto simp: prs_pd_lock_def prs_pd_lock_body_def Let_def)
qed

lemma pd_lock_null:
  assumes "pd_wf pd" and "prs_pd_lock pd i = (pd', 0)"
  shows "pd' = pd"
proof (cases "pd_live pd i")
  case None
  then show ?thesis using pd_lock_dead(1) [OF assms(1)] assms(2) by simp
next
  case (Some e)
  then have "\<not> pd_refs (pde_header e) < 4095"
    using pd_lock_live [OF assms(1) Some] pd_live_ptr [OF assms(1) Some] assms(2) by auto
  then show ?thesis using pd_lock_full [OF assms(1) Some] assms(2) by simp
qed

lemma msgq_dir_ok_lock:
  assumes "msgq_dir_ok pd fid held" and "prs_pd_lock pd i = (pd', f)" and "f \<noteq> 0"
  shows "msgq_dir_ok pd' fid (held(f := held f + 1))" and "fid f = i" and "0 < held f"
proof -
  note d = msgq_dir_okD [OF assms(1)]
  obtain e where e: "pd_live pd i = Some e" using pd_lock_dead(1) [OF d(1), of i] assms(2,3) by (cases "pd_live pd i") auto
  have r: "pd_refs (pde_header e) < 4095" using pd_lock_full [OF d(1) e] assms(2,3) by auto
  let ?e = "e\<lparr>pde_header := pde_header e + PRS_PD_REFCNT_INC\<rparr>"
  have l: "f = pde_ptr e" "pd_wf pd'" "pd_live pd' = (pd_live pd)(i \<mapsto> ?e)" using pd_lock_live [OF d(1) e r] assms(2) by auto
  show fi: "fid f = i" and h: "0 < held f" using d(3,4) [OF e] l(1) by simp_all
  obtain e' where "pd_live pd (fid f) = Some e'" "int (pd_refs (pde_header e')) = held f" using d(2) [OF h] by blast
  then have "int (pd_refs (pde_header ?e)) = held f + 1" using e fi pd_inc_fields(1) [OF r] by simp
  note refs = this
  show "msgq_dir_ok pd' fid (held(f := held f + 1))"
    unfolding msgq_dir_ok_def
  proof (intro conjI allI impI)
    show "pd_wf pd'" by (rule l(2))
    fix g assume g: "0 < (held(f := held f + 1)) g"
    show "\<exists>e. pd_live pd' (fid g) = Some e \<and> pde_ptr e = g \<and> int (pd_refs (pde_header e)) = (held(f := held f + 1)) g"
    proof (cases "g = f")
      case True
      then show ?thesis using fi refs l(1) unfolding l(3) by simp
    next
      case False
      then have "0 < held g" using g by simp
      from d(2) [OF this] obtain x where x: "pd_live pd (fid g) = Some x" "pde_ptr x = g" "int (pd_refs (pde_header x)) = held g" by blast
      then have "fid g \<noteq> i" using e l(1) False by auto
      then show ?thesis using x False unfolding l(3) by simp
    qed
  next
    fix j x assume "pd_live pd' j = Some x"
    then have c: "(j = i \<and> x = ?e) \<or> pd_live pd j = Some x" unfolding l(3) by (auto split: if_splits)
    then show "fid (pde_ptr x) = j" using fi l(1) d(3) [of j x] by auto
    show "0 < (held(f := held f + 1)) (pde_ptr x)" using c l(1) h d(4) [of j x] by auto
  qed
qed

lemma msgq_dir_ok_lock_live:
  assumes "msgq_dir_ok pd fid held" and "0 < held f" and "held f < 4095"
  shows "snd (prs_pd_lock pd (fid f)) = f"
proof -
  note d = msgq_dir_okD [OF assms(1)]
  obtain e where e: "pd_live pd (fid f) = Some e" "pde_ptr e = f" "int (pd_refs (pde_header e)) = held f" using d(2) [OF assms(2)] by blast
  then have "pd_refs (pde_header e) < 4095" using assms(3) by linarith
  from pd_lock_live [OF d(1) e(1) this] show ?thesis using e(2) by auto
qed

lemma msgq_dir_ok_unlock:
  assumes "msgq_dir_ok pd fid held" and "0 < held f"
  shows "msgq_dir_ok (fst (prs_pd_unlock pd (fid f))) fid (held(f := held f - 1))"
proof -
  note d = msgq_dir_okD [OF assms(1)]
  obtain e where e: "pd_live pd (fid f) = Some e" "pde_ptr e = f" "int (pd_refs (pde_header e)) = held f" using d(2) [OF assms(2)] by blast
  let ?e = "e\<lparr>pde_header := pde_header e - PRS_PD_REFCNT_INC\<rparr>"
  obtain pd' where l: "prs_pd_unlock pd (fid f) = (pd', pd_refs (pde_header e) = 1)" "pd_wf pd'"
      "pd_live pd' = (pd_live pd)(fid f := (if pd_refs (pde_header e) = 1 then None else Some ?e))"
    using pd_unlock_live [OF d(1) e(1)] by blast
  have pos: "0 < pd_refs (pde_header e)" using e(3) assms(2) by linarith
  have refs: "int (pd_refs (pde_header ?e)) = held f - 1" using pd_dec_fields(1) [OF pos] pos e(3) by simp
  have other: "fid g \<noteq> fid f" if "0 < held g" "g \<noteq> f" for g using d(2) [OF that(1)] e(1,2) that(2) by auto
  have one: "pd_refs (pde_header e) = 1 \<longleftrightarrow> held f = 1" using e(3) by linarith
  show ?thesis
    unfolding msgq_dir_ok_def l(1) fst_conv
  proof (intro conjI allI impI)
    show "pd_wf pd'" by (rule l(2))
    fix g assume g: "0 < (held(f := held f - 1)) g"
    show "\<exists>e. pd_live pd' (fid g) = Some e \<and> pde_ptr e = g \<and> int (pd_refs (pde_header e)) = (held(f := held f - 1)) g"
    proof (cases "g = f")
      case True
      then have "held f \<noteq> 1" using g by auto
      then show ?thesis using True refs e(2) one unfolding l(3) by simp
    next
      case False
      then show ?thesis using g other [of g] d(2) [of g] unfolding l(3) by simp
    qed
  next
    fix i x assume "pd_live pd' i = Some x"
    then have c: "(i = fid f \<and> held f \<noteq> 1 \<and> x = ?e) \<or> (i \<noteq> fid f \<and> pd_live pd i = Some x)" unfolding l(3) one by (auto split: if_splits)
    then show "fid (pde_ptr x) = i" using e(2) d(3) by auto
    have "i \<noteq> fid f \<Longrightarrow> pde_ptr x \<noteq> f" using c d(3) [of i x] by blast
    then show "0 < (held(f := held f - 1)) (pde_ptr x)" using c e(2) d(4) [of i x] assms(2) by auto
  qed
qed

lemma msgq_dir_ok_alloc:
  assumes "msgq_dir_ok pd fid held" and "pd_live pd i = None" and "held f = 0" and "pd_wf pd'"
    and "\<exists>e. pd_live pd' = (pd_live pd)(i \<mapsto> e) \<and> pde_ptr e = f \<and> pd_refs (pde_header e) = 1"
  shows "msgq_dir_ok pd' (fid(f := i)) (held(f := 1))"
proof -
  note d = msgq_dir_okD [OF assms(1)]
  obtain e where e: "pd_live pd' = (pd_live pd)(i \<mapsto> e)" "pde_ptr e = f" "pd_refs (pde_header e) = 1" using assms(5) by blast
  have other: "fid g \<noteq> i" if "0 < held g" for g using d(2) [OF that] assms(2) by auto
  show ?thesis
    unfolding msgq_dir_ok_def
  proof (intro conjI allI impI)
    show "pd_wf pd'" by (rule assms(4))
    fix g assume g: "0 < (held(f := 1)) g"
    show "\<exists>e. pd_live pd' ((fid(f := i)) g) = Some e \<and> pde_ptr e = g \<and> int (pd_refs (pde_header e)) = (held(f := 1)) g"
      using g e other [of g] d(2) [of g] by (cases "g = f") auto
  next
    fix j x assume x: "pd_live pd' j = Some x"
    then have c: "(j = i \<and> x = e) \<or> (j \<noteq> i \<and> pd_live pd j = Some x \<and> pde_ptr x \<noteq> f)"
      using d(4) assms(3) unfolding e(1) by (fastforce split: if_splits)
    then show "(fid(f := i)) (pde_ptr x) = j" and "0 < (held(f := 1)) (pde_ptr x)" using e(2) d(3,4) by auto
  qed
qed

lemma msgq_held_send:
  "msgq_held (send(t := x)) recv f = msgq_held send recv f + of_bool (send_holds f x) - of_bool (send_holds f (send t))"
  by (simp add: msgq_held_def pc_count_upd)

lemma msgq_held_nonneg: "0 \<le> msgq_held send recv f"
  using pc_count_nonneg [of "send_holds f" send] by (simp add: msgq_held_def)

lemma msgq_held_pos: "send_holds f (send t) \<Longrightarrow> 0 < msgq_held send recv f"
  using pc_count_pos [of "send_holds f" send t] by (simp add: msgq_held_def)

subsection \<open>The structure\<close>

fun recv_armed :: "recv_pc \<Rightarrow> msgq_recv option" where
  "recv_armed (RecvPublished r) = Some r"
| "recv_armed (RecvBlocked r) = Some r"
| "recv_armed (RecvTake r found) = Some r"
| "recv_armed _ = None"

fun recv_shown :: "recv_pc \<Rightarrow> msgq_recv option" where
  "recv_shown (RecvUnref r found) = None"
| "recv_shown recv = recv_of recv"

fun recv_data :: "recv_pc \<Rightarrow> msgq_recv option" where
  "recv_data RecvIdle = None"
| "recv_data (RecvReady r) = Some r"
| "recv_data (RecvFinish r found) = Some r"
| "recv_data recv = recv_of recv"

fun recv_found :: "recv_pc \<Rightarrow> ptr option" where
  "recv_found (RecvTake r found) = found"
| "recv_found (RecvRelease r a found) = found"
| "recv_found (RecvReset r found) = found"
| "recv_found (RecvUnref r found) = found"
| "recv_found (RecvFinish r found) = found"
| "recv_found _ = None"

definition recv_match :: "filter_fn \<Rightarrow> msgq_system \<Rightarrow> msgq_recv \<Rightarrow> ptr \<Rightarrow> bool" where
  "recv_match fn sys r = msgq_match fn (ms_mem sys) (mr_function r) (mr_userdata r)"

lemma recv_match_cong: "ms_mem sys' = ms_mem sys \<Longrightarrow> recv_match fn sys' = recv_match fn sys"
  by (intro ext) (simp add: recv_match_def)

text \<open>The filter that is shown is that of the receiver.\<close>

definition msgq_shown_ok :: "filter_fn \<Rightarrow> msgq_system \<Rightarrow> msgq_recv \<Rightarrow> bool" where
  "msgq_shown_ok fn sys r \<longleftrightarrow>
     (let f = ms_filters sys (mr_filter r)
      in mq_filter_id (ms_msgq sys) = mf_id f \<and> mr_filter r \<noteq> 0 \<and> mr_event r \<noteq> 0
         \<and> msgq_match fn (ms_mem sys) (mf_function f) (mf_userdata f) = recv_match fn sys r)"

text \<open>The event is in the filter of the receiver only, and only until the receiver takes it back.\<close>

definition msgq_slots_ok :: "msgq_system \<Rightarrow> (ptr \<Rightarrow> send_pc) \<Rightarrow> recv_pc \<Rightarrow> bool" where
  "msgq_slots_ok sys send recv \<longleftrightarrow> (\<forall>f. 0 < msgq_held send recv f \<longrightarrow> mf_event (ms_filters sys f) = 0
     \<or> (\<exists>r. recv_armed recv = Some r \<and> mr_filter r = f \<and> mf_event (ms_filters sys f) = mr_event r))"

definition msgq_inv :: "filter_fn \<Rightarrow> ptr set \<Rightarrow> msgq_system \<Rightarrow> ptr list \<Rightarrow> (ptr \<Rightarrow> send_pc) \<Rightarrow> recv_pc \<Rightarrow> bool" where
  "msgq_inv fn T sys q send recv \<longleftrightarrow> msgq_holds sys q \<and> (\<forall>t. send t \<noteq> SendIdle \<longrightarrow> t \<in> T)
     \<and> msgq_dir_ok (ms_pd sys) (\<lambda>f. mf_id (ms_filters sys f)) (msgq_held send recv) \<and> msgq_slots_ok sys send recv
     \<and> (\<forall>r. recv_data recv = Some r \<longrightarrow> msgq_filter_reads fn r \<and> hint_ok (recv_match fn sys r) q (mr_hint r))
     \<and> (\<forall>m. recv_found recv = Some m \<longrightarrow> m = 0 \<or> m \<in> set q) \<and> (\<forall>r. recv_shown recv = Some r \<longrightarrow> msgq_shown_ok fn sys r)"

lemma msgq_inv_sys:
  assumes "msgq_inv fn T sys q send recv" and "msgq_rest sys' = msgq_rest sys" and "ms_pd sys' = ms_pd sys" and "ms_filters sys' = ms_filters sys"
  shows "msgq_inv fn T sys' q send recv"
proof -
  note r = msgq_restD [OF assms(2)]
  have "recv_match fn sys' = recv_match fn sys" by (rule recv_match_cong [OF r(2)])
  then show ?thesis
    using assms(1) unfolding msgq_inv_def msgq_slots_ok_def msgq_shown_ok_def assms(3,4) r(2,3) msgq_holds_cong [OF r(1)] by simp
qed

lemma msgq_inv_send:
  assumes "msgq_inv fn T sys q send recv" and "\<forall>f. send_holds f x = send_holds f (send t)" and "x = SendIdle \<or> send t \<noteq> SendIdle \<or> t \<in> T"
  shows "msgq_inv fn T sys q (send(t := x)) recv"
proof -
  have "msgq_held (send(t := x)) recv = msgq_held send recv" using assms(2) by (simp add: fun_eq_iff msgq_held_send)
  then show ?thesis using assms(1,3) by (auto simp: msgq_inv_def msgq_slots_ok_def)
qed

lemma msgq_holds_push:
  assumes "msgq_holds sys q" and "msg \<notin> set q" and "iq_unlinked (ms_nodes sys) msg"
  shows "msgq_holds (msgq_send_push sys msg) (q @ [msg])"
proof -
  let ?sys = "msgq_send_push sys msg"
  obtain nodes iq where r: "prs_mpsciq_push (ms_nodes sys, mq_queue (ms_msgq sys)) msg = (nodes, iq)" by fastforce
  have h: "iq_rep (ms_nodes sys, mq_queue (ms_msgq sys)) q" "iq_node_offset (mq_queue (ms_msgq sys)) = msg_node_offset"
    using assms(1) by (simp_all add: msgq_holds_def msgq_iq_def)
  note p = iq_push_rep [OF h(1) assms(3,2) r]
  have "msgq_iq ?sys = (nodes, iq)" using r by (simp add: msgq_send_push_def msgq_iq_def msgq_set_iq_def msg_node_offset_def)
  moreover from this have "mq_queue (ms_msgq ?sys) = iq" by (simp add: msgq_iq_def)
  ultimately show ?thesis using p(1,4) h(2) by (simp add: msgq_holds_def)
qed

lemma msgq_inv_push:
  assumes "msgq_inv fn T sys q send recv" and "msg \<notin> set q" and "iq_unlinked (ms_nodes sys) msg"
  shows "msgq_inv fn T (msgq_send_push sys msg) (q @ [msg]) send recv"
proof -
  have "msgq_holds (msgq_send_push sys msg) (q @ [msg])" using assms by (intro msgq_holds_push) (simp_all add: msgq_inv_def)
  moreover have "recv_match fn (msgq_send_push sys msg) = recv_match fn sys" by (rule recv_match_cong) (rule send_push_fields)
  ultimately show ?thesis
    using assms(1) unfolding msgq_inv_def msgq_slots_ok_def msgq_shown_ok_def send_push_fields by (auto intro: hint_ok_append)
qed

lemma msgq_inv_lock:
  assumes "msgq_inv fn T sys q send recv" and "send t = SendLoaded msg fid" and "msgq_send_lock sys fid = (sys', filt)"
  shows "msgq_inv fn T sys' q (send(t := if filt \<noteq> 0 then SendLocked msg filt else SendIdle)) recv"
proof (cases "filt = 0")
  case True
  have "ms_pd sys' = ms_pd sys"
  proof (cases "fid = PRS_PD_ID_INVALID")
    case False
    then obtain pd where l: "prs_pd_lock (ms_pd sys) fid = (pd, 0)" "ms_pd sys' = pd"
      using assms(3) True by (auto simp: msgq_send_lock_def split: prod.splits)
    moreover have "pd_wf (ms_pd sys)" using assms(1) by (simp add: msgq_inv_def msgq_dir_ok_def)
    ultimately show ?thesis using pd_lock_null by simp
  qed (use assms(3) in \<open>simp add: msgq_send_lock_def\<close>)
  note f = send_lock_fields [OF assms(3)]
  have "msgq_inv fn T sys' q send recv" by (rule msgq_inv_sys [OF assms(1) f(1) \<open>ms_pd sys' = ms_pd sys\<close> f(2)])
  from msgq_inv_send [OF this, of SendIdle t] show ?thesis using True assms(2) by simp
next
  case False
  note f = send_lock_fields [OF assms(3)]
  have l: "prs_pd_lock (ms_pd sys) fid = (ms_pd sys', filt)"
    using assms(3) False by (auto simp: msgq_send_lock_def split: prod.splits if_splits)
  have d: "msgq_dir_ok (ms_pd sys) (\<lambda>f. mf_id (ms_filters sys f)) (msgq_held send recv)" using assms(1) by (simp add: msgq_inv_def)
  note k = msgq_dir_ok_lock [OF d l False]
  have h: "msgq_held (send(t := SendLocked msg filt)) recv = (msgq_held send recv)(filt := msgq_held send recv filt + 1)"
    using assms(2) by (auto simp: fun_eq_iff msgq_held_send)
  have T: "t \<in> T" using assms(1,2) by (auto simp: msgq_inv_def)
  have "recv_match fn sys' = recv_match fn sys" by (rule recv_match_cong) (rule msgq_restD [OF f(1)])
  moreover have "msgq_slots_ok sys (send(t := SendLocked msg filt)) recv"
    using assms(1) k(3) unfolding msgq_inv_def msgq_slots_ok_def h by auto
  ultimately show ?thesis
    using assms(1) k(1) T msgq_holds_cong [OF msgq_restD(1) [OF f(1)], of q] False
    unfolding msgq_inv_def msgq_shown_ok_def msgq_slots_ok_def f(2) msgq_restD [OF f(1)] by (simp add: h)
qed

lemma msgq_inv_take:
  assumes "msgq_inv fn T sys q send recv" and "msgq_take_event sys filt = (sys', event)"
  shows "msgq_inv fn T sys' q send recv"
proof -
  note f = take_event_fields [OF assms(2)]
  have i: "mf_id (ms_filters sys' x) = mf_id (ms_filters sys x)" "mf_function (ms_filters sys' x) = mf_function (ms_filters sys x)"
    "mf_userdata (ms_filters sys' x) = mf_userdata (ms_filters sys x)" for x by (simp_all add: f(5))
  have m: "recv_match fn sys' = recv_match fn sys" by (rule recv_match_cong) (rule msgq_restD [OF f(1)])
  have s: "msgq_slots_ok sys' send recv" using assms(1) by (auto simp: msgq_inv_def msgq_slots_ok_def f(5))
  show ?thesis
    using assms(1) s msgq_holds_cong [OF msgq_restD(1) [OF f(1)], of q]
    unfolding msgq_inv_def msgq_shown_ok_def Let_def f(2) i m msgq_restD [OF f(1)] by simp
qed

lemma msgq_inv_same:
  assumes "msgq_inv fn T sys q send recv" and "msgq_same sys sys'" and "msgq_holds sys' q'"
    and "\<forall>r. recv_data recv = Some r \<longrightarrow> hint_ok (recv_match fn sys r) q' (mr_hint r)" and "\<forall>m. recv_found recv = Some m \<longrightarrow> m = 0 \<or> m \<in> set q'"
  shows "msgq_inv fn T sys' q' send recv"
proof -
  note f = msgq_same_fields [OF assms(2)]
  show ?thesis
    using assms(1,3,4,5) unfolding msgq_inv_def msgq_slots_ok_def msgq_shown_ok_def f recv_match_cong [OF f(4)] by simp
qed

lemma msgq_inv_recv:
  assumes "msgq_inv fn T sys q send recv" and "\<forall>f. recv_holds recv' f = recv_holds recv f"
    and "\<forall>r. recv_armed recv = Some r \<longrightarrow>
      mf_event (ms_filters sys (mr_filter r)) = 0 \<or> (\<exists>r'. recv_armed recv' = Some r' \<and> mr_filter r' = mr_filter r \<and> mr_event r' = mr_event r)"
    and "\<forall>r. recv_data recv' = Some r \<longrightarrow> msgq_filter_reads fn r \<and> hint_ok (recv_match fn sys r) q (mr_hint r)"
    and "\<forall>m. recv_found recv' = Some m \<longrightarrow> m = 0 \<or> m \<in> set q" and "\<forall>r. recv_shown recv' = Some r \<longrightarrow> msgq_shown_ok fn sys r"
  shows "msgq_inv fn T sys q send recv'"
proof -
  have h: "msgq_held send recv' = msgq_held send recv" using assms(2) by (simp add: fun_eq_iff msgq_held_def)
  have "msgq_slots_ok sys send recv'"
    unfolding msgq_slots_ok_def h
  proof (intro allI impI)
    fix f assume "0 < msgq_held send recv f"
    then have "mf_event (ms_filters sys f) = 0 \<or> (\<exists>r. recv_armed recv = Some r \<and> mr_filter r = f \<and> mf_event (ms_filters sys f) = mr_event r)"
      using assms(1) by (simp add: msgq_inv_def msgq_slots_ok_def)
    then show "mf_event (ms_filters sys f) = 0 \<or> (\<exists>r. recv_armed recv' = Some r \<and> mr_filter r = f \<and> mf_event (ms_filters sys f) = mr_event r)"
      using assms(3) by metis
  qed
  then show ?thesis using assms(1,4,5,6) by (simp add: msgq_inv_def h)
qed

text \<open>Releasing a filter: the holders are one fewer afterwards.\<close>

lemma msgq_inv_unref:
  assumes "msgq_inv fn T sys q send recv" and "prs_msgq_filter_unref sys filt = (sys', freed)" and "0 < msgq_held send recv filt"
    and "msgq_held send' recv' = (msgq_held send recv)(filt := msgq_held send recv filt - 1)" and "\<forall>t. send' t \<noteq> SendIdle \<longrightarrow> t \<in> T"
    and "recv_armed recv' = recv_armed recv" and "recv_data recv' = recv_data recv" and "recv_found recv' = recv_found recv"
    and "recv_shown recv' = recv_shown recv"
  shows "msgq_inv fn T sys' q send' recv'"
proof -
  note f = filter_unref_fields [OF assms(2)]
  have d: "msgq_dir_ok (ms_pd sys) (\<lambda>f. mf_id (ms_filters sys f)) (msgq_held send recv)" using assms(1) by (simp add: msgq_inv_def)
  note d' = msgq_dir_ok_unlock [OF d assms(3)]
  have s: "msgq_slots_ok sys send' recv'"
    unfolding msgq_slots_ok_def assms(4,6)
  proof (intro allI impI)
    fix g assume "0 < ((msgq_held send recv)(filt := msgq_held send recv filt - 1)) g"
    then have "0 < msgq_held send recv g" by (simp split: if_splits)
    then show "mf_event (ms_filters sys g) = 0 \<or> (\<exists>r. recv_armed recv = Some r \<and> mr_filter r = g \<and> mf_event (ms_filters sys g) = mr_event r)"
      using assms(1) by (simp add: msgq_inv_def msgq_slots_ok_def)
  qed
  have m: "recv_match fn sys' = recv_match fn sys" by (rule recv_match_cong) (rule msgq_restD [OF f(1)])
  show ?thesis
    using assms(1,5,7-9) s d' msgq_holds_cong [OF msgq_restD(1) [OF f(1)], of q]
    unfolding msgq_inv_def msgq_slots_ok_def msgq_shown_ok_def f(2,5) assms(4) m msgq_restD [OF f(1)] by simp
qed

text \<open>The copy of the user data gives the same matches.\<close>

lemma msgq_memcpy_match:
  assumes "msgq_filter_reads fn r" and "mr_function r \<noteq> 0" and "mr_userdata_size r > 0"
    and "\<forall>i < mr_userdata_size r. \<forall>j < mr_userdata_size r. mr_userdata r + i \<noteq> copy + j"
    and "mem' = msgq_memcpy mem copy (mr_userdata r) (mr_userdata_size r)"
  shows "msgq_match fn mem' (mr_function r) copy = msgq_match fn mem' (mr_function r) (mr_userdata r)"
    and "msgq_match fn mem' (mr_function r) (mr_userdata r) = msgq_match fn mem (mr_function r) (mr_userdata r)"
proof -
  have a: "mem' (mr_userdata r + i) = mem (mr_userdata r + i)" if "i < mr_userdata_size r" for i
  proof -
    have "\<not> mr_userdata r + i - copy < mr_userdata_size r"
    proof
      assume "mr_userdata r + i - copy < mr_userdata_size r"
      from assms(4) that this have "mr_userdata r + i \<noteq> copy + (mr_userdata r + i - copy)" by blast
      then show False by simp
    qed
    then show ?thesis by (simp add: assms(5) msgq_memcpy_def)
  qed
  have b: "mem' (copy + i) = mem (mr_userdata r + i)" if "i < mr_userdata_size r" for i
    using that by (simp add: assms(5) msgq_memcpy_def)
  have reads: "fn (mr_function r) m1 u1 msg = fn (mr_function r) m2 u2 msg"
    if "\<forall>i < mr_userdata_size r. m1 (u1 + i) = m2 (u2 + i)" for m1 m2 u1 u2 msg
    using assms(1-3) that unfolding msgq_filter_reads_def by blast
  show "msgq_match fn mem' (mr_function r) copy = msgq_match fn mem' (mr_function r) (mr_userdata r)"
    by (intro ext) (simp add: msgq_match_def, intro impI reads, simp add: a b)
  show "msgq_match fn mem' (mr_function r) (mr_userdata r) = msgq_match fn mem (mr_function r) (mr_userdata r)"
    by (intro ext) (simp add: msgq_match_def, intro impI reads, simp add: a)
qed

lemma msgq_inv_publish:
  assumes "msgq_inv fn T (mc_sys c) q send (RecvReady r)" and "msgq_fresh c r filt copy event" and "mc_send c = send" and "mc_recv c = RecvReady r"
    and "pd_ids_left (ms_pd (mc_sys c))" and "msgq_recv_publish (msgq_as p (mc_sys c)) r (Some filt) (Some copy) (Some event) = Some (sys', r')"
  shows "msgq_inv fn T sys' q send (RecvPublished r')"
proof -
  let ?sys = "msgq_as p (mc_sys c)" and ?held = "msgq_held send (RecvReady r)"
  have inv: "msgq_holds (mc_sys c) q" "\<forall>t. send t \<noteq> SendIdle \<longrightarrow> t \<in> T"
      "msgq_dir_ok (ms_pd ?sys) (\<lambda>f. mf_id (ms_filters ?sys f)) ?held" "msgq_slots_ok (mc_sys c) send (RecvReady r)"
      "msgq_filter_reads fn r" "hint_ok (recv_match fn (mc_sys c) r) q (mr_hint r)"
    using assms(1) by (simp_all add: msgq_inv_def)
  have fresh: "filt \<noteq> 0" "event \<noteq> 0" "?held filt = 0" "\<forall>i < mr_userdata_size r. \<forall>j < mr_userdata_size r. mr_userdata r + i \<noteq> copy + j"
    using assms(2-4) by (simp_all add: msgq_fresh_def)
  have wf: "pd_wf (ms_pd ?sys)" "pd_ids_left (ms_pd ?sys)" using inv(3) assms(5) by (simp_all add: msgq_dir_ok_def)
  from assms(6) wf fresh(1) obtain fid t where "msgq_published ?sys r filt copy event fid t sys' r'" by (rule recv_publish_fields)
  note p = msgq_publishedD [OF this]
  have rh: "recv_holds (RecvPublished r') f \<longleftrightarrow> f = filt" "\<not> recv_holds (RecvReady r) f" for f by (auto simp: recv_holds_def p(4))
  have held: "msgq_held send (RecvPublished r') = ?held(filt := 1)"
    using fresh(3) by (intro ext) (simp add: msgq_held_def rh)
  have ids: "(\<lambda>f. mf_id (ms_filters sys' f)) = (\<lambda>f. mf_id (ms_filters ?sys f))(filt := fid)" by (intro ext) (simp add: p(7))
  have dir: "msgq_dir_ok (ms_pd sys') (\<lambda>f. mf_id (ms_filters sys' f)) (msgq_held send (RecvPublished r'))"
    unfolding ids held by (rule msgq_dir_ok_alloc [OF inv(3) p(1) fresh(3) p(2,3)])
  have slots: "msgq_slots_ok sys' send (RecvPublished r')"
    unfolding msgq_slots_ok_def held
  proof (intro allI impI)
    fix f assume "0 < (?held(filt := 1)) f"
    then show "mf_event (ms_filters sys' f) = 0 \<or> (\<exists>r. recv_armed (RecvPublished r') = Some r \<and> mr_filter r = f \<and> mf_event (ms_filters sys' f) = mr_event r)"
      using inv(4) by (cases "f = filt") (simp_all add: p(4,7) msgq_slots_ok_def)
  qed
  have sm: "msgq_match fn (ms_mem sys') (mf_function (ms_filters sys' filt)) (mf_userdata (ms_filters sys' filt)) = recv_match fn sys' r'
    \<and> recv_match fn sys' r' = recv_match fn (mc_sys c) r"
  proof -
    have "?thesis" if "mr_function r \<noteq> 0" "mr_userdata_size r > 0"
      using msgq_memcpy_match [OF inv(5) that fresh(4) refl, of "ms_mem (mc_sys c)"] that by (simp add: p(4,7,8) recv_match_def)
    moreover have "?thesis" if "\<not> (mr_function r \<noteq> 0 \<and> mr_userdata_size r > 0)"
      using that by (cases "mr_function r = 0") (simp_all add: p(4,7,8) recv_match_def msgq_match_def fun_eq_iff)
    ultimately show ?thesis by blast
  qed
  note same = conjunct1 [OF sm] conjunct2 [OF sm]
  have "msgq_shown_ok fn sys' r'" using same(1) fresh(1,2) p(4,5) by (simp add: msgq_shown_ok_def p(7))
  moreover have "msgq_holds sys' q" using inv(1) msgq_holds_cong [of sys' "mc_sys c" q] p(6) by simp
  moreover have "msgq_filter_reads fn r'" "hint_ok (recv_match fn sys' r') q (mr_hint r')"
    using inv(5,6) unfolding same(2) by (simp_all add: p(4) msgq_filter_reads_def)
  ultimately show ?thesis using inv(2) dir slots by (simp add: msgq_inv_def)
qed

lemma msgq_search_inv:
  assumes "msgq_inv fn T sys q send recv" and "hint_ok (recv_match fn sys r) q hint"
    and "prs_msgq_search fn sys (mr_userdata r) (mr_function r) hint = Some (sys', msg, hint')"
  shows "msgq_inv fn T sys' q send recv" and "msg = first_match (recv_match fn sys r) q" and "hint_ok (recv_match fn sys' r) q hint'"
    and "msgq_same sys sys'" and "recv_match fn sys' = recv_match fn sys"
proof -
  have h: "msgq_holds sys q" using assms(1) by (simp add: msgq_inv_def)
  obtain s h' where r: "prs_msgq_search fn sys (mr_userdata r) (mr_function r) hint = Some (s, first_match (recv_match fn sys r) q, h')"
      "msgq_holds s q" "msgq_same sys s" "hint_ok (recv_match fn sys r) q h'"
    using prs_msgq_search_result [OF h, of fn "mr_function r" "mr_userdata r" hint] assms(2) unfolding recv_match_def by blast
  have e: "s = sys'" "first_match (recv_match fn sys r) q = msg" "h' = hint'" using r(1) assms(3) by simp_all
  show "msgq_inv fn T sys' q send recv"
    by (rule msgq_inv_same [OF assms(1) r(3)[unfolded e(1)] r(2)[unfolded e(1)]]) (use assms(1) in \<open>auto simp: msgq_inv_def\<close>)
  show m: "recv_match fn sys' = recv_match fn sys" by (rule recv_match_cong) (rule msgq_same_fields(4) [OF r(3)[unfolded e(1)]])
  show "msg = first_match (recv_match fn sys r) q" "msgq_same sys sys'" using e r(3) by simp_all
  show "hint_ok (recv_match fn sys' r) q hint'" unfolding m using r(4) e(3) by simp
qed

lemma first_match_in: "first_match match xs = 0 \<or> first_match match xs \<in> set xs"
  by (induction xs) auto

subsection \<open>The tasks\<close>

text \<open>What a signal or a release of an event may do to the receiver: nothing, or wake it up.\<close>

definition signal_effect :: "ptr \<Rightarrow> msgq_system \<Rightarrow> msgq_system \<Rightarrow> bool" where
  "signal_effect p sys sys' \<longleftrightarrow> fst (ms_dir sys') = fst (ms_dir sys)
     \<and> (\<forall>x. ev_token (ms_events sys' x) = ev_token (ms_events sys x) \<and> ev_task_id (ms_events sys' x) = ev_task_id (ms_events sys x))
     \<and> task_id (tw_tasks (snd (ms_dir sys')) p) = task_id (tw_tasks (snd (ms_dir sys)) p)
     \<and> (msgq_blocked sys' p \<longrightarrow> tw_tasks (snd (ms_dir sys')) p = tw_tasks (snd (ms_dir sys)) p)"

lemma signal_effect_refl: "signal_effect p sys sys"
  by (simp add: signal_effect_def)

lemma signal_effect_trans: "signal_effect p sys sys' \<Longrightarrow> signal_effect p sys' sys'' \<Longrightarrow> signal_effect p sys sys''"
  unfolding signal_effect_def by (metis (no_types, lifting) msgq_blocked_def)

lemma signal_effect_as: "signal_effect p (msgq_as t sys) sys' = signal_effect p sys sys'"
  by (simp add: signal_effect_def)

lemma unblocked_state:
  "PRS_TASK_GET_STATE (PRS_TASK_SET_TOKEN (task_state_code (if cur then PRS_TASK_STATE_RUNNING else PRS_TASK_STATE_READY)) ty n)
     \<noteq> task_state_code PRS_TASK_STATE_BLOCKED"
  by (simp add: GET_SET_TOKEN)

lemma msgq_signal_effect:
  assumes "msgq_signal ops_of sys a ty = (sys', st, freed)" and "event_task_at (fst (ms_dir sys)) (ev_task_id (ms_events sys a)) p"
  shows "signal_effect p sys sys'"
    and "task_token (tw_tasks (snd (ms_dir sys)) p) = ev_token (ms_events sys a) \<Longrightarrow> \<not> msgq_blocked sys' p"
proof -
  obtain god w where dir: "ms_dir sys = (god, w)" by fastforce
  obtain w' ok where u: "event_unblock w p (ev_token (ms_events sys a)) ty = (w', ok)" by fastforce
  have at: "event_task_at god (ev_task_id (ms_events sys a)) p" using assms(2) dir by simp
  note step = event_step [OF at, of ops_of w True ty]
  have sys': "sys' = sys\<lparr>ms_dir := (god, w'), ms_events := (ms_events sys)(a := (ms_events sys a)\<lparr>ev_refcnt := ev_refcnt (ms_events sys a) - 1\<rparr>)\<rparr>"
    using assms(1) step u dir by (simp add: msgq_signal_def prs_event_signal_def)
  have w': "task_token (tw_tasks w p) \<noteq> ev_token (ms_events sys a) \<Longrightarrow> w' = w" using u event_unblock_stale [of w p] by auto
  have woken: "PRS_TASK_GET_STATE (task_token (tw_tasks w' p)) \<noteq> task_state_code PRS_TASK_STATE_BLOCKED"
    if "task_token (tw_tasks w p) = ev_token (ms_events sys a)"
    using u that unblocked_state by (auto simp: event_unblock_def unblock_cases)
  have "task_id (tw_tasks w' p) = task_id (tw_tasks w p)" using u by (auto simp: event_unblock_def unblock_cases split: if_splits)
  then show "signal_effect p sys sys'"
    using w' woken by (auto simp: signal_effect_def sys' dir msgq_blocked_def prs_task_get_state_def)
  show "\<not> msgq_blocked sys' p" if "task_token (tw_tasks (snd (ms_dir sys)) p) = ev_token (ms_events sys a)"
    using woken that by (simp add: sys' dir msgq_blocked_def prs_task_get_state_def)
qed

lemma msgq_unref_effect:
  assumes "msgq_unref_event ops_of sys a = (sys', freed)"
  shows "signal_effect p sys sys'"
  using assms
  by (auto simp: msgq_unref_event_def prs_event_unref_def prs_event_unref_internal_def atomic_fetch_sub_def signal_effect_def Let_def split: if_splits)

lemma msgq_release_effect:
  assumes "msgq_release_event ops_of sys b a = (sys', signaled, freed)" and "event_task_at (fst (ms_dir sys)) (ev_task_id (ms_events sys a)) p"
  shows "signal_effect p sys sys'"
proof -
  obtain sys1 freed1 where 1: "(if b \<noteq> 0 then msgq_unref_event ops_of sys a else (sys, [])) = (sys1, freed1)" by fastforce
  obtain sys2 st freed2 where 2: "msgq_signal ops_of sys1 a PRS_MSGQ_EVENT_TYPE_FREE = (sys2, st, freed2)" by (metis prod_cases3)
  have e: "sys' = sys2" using assms 1 2 by (simp add: msgq_release_event_def)
  have s1: "signal_effect p sys sys1" using 1 msgq_unref_effect [of ops_of sys a sys1 freed1 p] signal_effect_refl by (auto split: if_splits)
  then have "event_task_at (fst (ms_dir sys1)) (ev_task_id (ms_events sys1 a)) p" using assms(2) by (simp add: signal_effect_def)
  from msgq_signal_effect(1) [OF 2 this] show ?thesis unfolding e using s1 signal_effect_trans by blast
qed

text \<open>The task is registered, and every event that is still to be signaled is one of it.\<close>

definition msgq_tasks_ok :: "ptr \<Rightarrow> prs_object_id_t \<Rightarrow> msgq_system \<Rightarrow> (ptr \<Rightarrow> send_pc) \<Rightarrow> recv_pc \<Rightarrow> ptr set \<Rightarrow> bool" where
  "msgq_tasks_ok p tid sys send recv timers \<longleftrightarrow> event_task_at (fst (ms_dir sys)) tid p \<and> task_id (tw_tasks (snd (ms_dir sys)) p) = tid
     \<and> (\<forall>t f a. send t = SendSignal f a \<longrightarrow> ev_task_id (ms_events sys a) = tid) \<and> (\<forall>a \<in> timers. ev_task_id (ms_events sys a) = tid)
     \<and> (\<forall>r. recv_of recv = Some r \<longrightarrow> ev_task_id (ms_events sys (mr_event r)) = tid)"

text \<open>A receiver that is blocked can still be woken up: its event is in its filter, or a sender has taken it and will signal it.\<close>

definition msgq_wake_ok :: "ptr \<Rightarrow> msgq_system \<Rightarrow> (ptr \<Rightarrow> send_pc) \<Rightarrow> recv_pc \<Rightarrow> bool" where
  "msgq_wake_ok p sys send recv \<longleftrightarrow> (\<forall>r. recv = RecvPublished r \<or> recv = RecvBlocked r \<longrightarrow> msgq_blocked sys p \<longrightarrow>
     task_token (tw_tasks (snd (ms_dir sys)) p) = ev_token (ms_events sys (mr_event r))
     \<and> (mf_event (ms_filters sys (mr_filter r)) = 0 \<longrightarrow> (\<exists>t. send t = SendSignal (mr_filter r) (mr_event r))))"

fun send_covers :: "u64 \<Rightarrow> ptr \<Rightarrow> ptr \<Rightarrow> send_pc \<Rightarrow> bool" where
  "send_covers i f m (SendPushed m') = (m' = m)"
| "send_covers i f m (SendLoaded m' j) = (m' = m \<and> j = i)"
| "send_covers i f m (SendLocked m' g) = (m' = m \<and> g = f)"
| "send_covers i f m (SendMatched m' g) = (m' = m \<and> g = f)"
| "send_covers i f m _ = False"

text \<open>While the receiver waits in the scheduler, a message that passes its filter has a sender that will find the filter, unless the event is taken.\<close>

definition msgq_cover_ok :: "filter_fn \<Rightarrow> ptr \<Rightarrow> msgq_system \<Rightarrow> ptr list \<Rightarrow> (ptr \<Rightarrow> send_pc) \<Rightarrow> recv_pc \<Rightarrow> bool" where
  "msgq_cover_ok fn p sys q send recv \<longleftrightarrow> (\<forall>r. recv = RecvBlocked r \<longrightarrow> msgq_blocked sys p \<longrightarrow> (\<forall>m \<in> set q. recv_match fn sys r m \<longrightarrow>
     mf_event (ms_filters sys (mr_filter r)) = 0 \<or> (\<exists>t. send_covers (mf_id (ms_filters sys (mr_filter r))) (mr_filter r) m (send t))))"

definition msgq_wait_ok :: "filter_fn \<Rightarrow> ptr \<Rightarrow> prs_object_id_t \<Rightarrow> msgq_system \<Rightarrow> ptr list \<Rightarrow> (ptr \<Rightarrow> send_pc) \<Rightarrow> recv_pc \<Rightarrow> ptr set \<Rightarrow> bool" where
  "msgq_wait_ok fn p tid sys q send recv timers \<longleftrightarrow>
     msgq_tasks_ok p tid sys send recv timers \<and> msgq_wake_ok p sys send recv \<and> msgq_cover_ok fn p sys q send recv"

lemmas msgq_wait_defs = msgq_wait_ok_def msgq_tasks_ok_def msgq_wake_ok_def msgq_cover_ok_def

lemma msgq_wait_signal:
  assumes "msgq_wait_ok fn p tid sys q send recv timers" and "signal_effect p sys sys'" and "ms_mem sys' = ms_mem sys" and "ms_filters sys' = ms_filters sys"
  shows "msgq_wait_ok fn p tid sys' q send recv timers"
proof -
  have e: "fst (ms_dir sys') = fst (ms_dir sys)" "ev_token (ms_events sys' x) = ev_token (ms_events sys x)"
    "ev_task_id (ms_events sys' x) = ev_task_id (ms_events sys x)" "task_id (tw_tasks (snd (ms_dir sys')) p) = task_id (tw_tasks (snd (ms_dir sys)) p)"
    "msgq_blocked sys' p \<Longrightarrow> tw_tasks (snd (ms_dir sys')) p = tw_tasks (snd (ms_dir sys)) p" for x
    using assms(2) by (simp_all add: signal_effect_def)
  have b: "msgq_blocked sys' p \<Longrightarrow> msgq_blocked sys p" using e(5) by (simp add: msgq_blocked_def)
  have "msgq_tasks_ok p tid sys' send recv timers" using assms(1) by (simp add: msgq_wait_ok_def msgq_tasks_ok_def e(1,3,4))
  moreover have "msgq_wake_ok p sys' send recv" using assms(1) b e(5) by (simp add: msgq_wait_ok_def msgq_wake_ok_def e(2) assms(4))
  moreover have "msgq_cover_ok fn p sys' q send recv"
    using assms(1) b by (simp add: msgq_wait_ok_def msgq_cover_ok_def assms(4) recv_match_cong [OF assms(3)])
  ultimately show ?thesis by (simp add: msgq_wait_ok_def)
qed

lemma msgq_wait_frame:
  assumes "msgq_wait_ok fn p tid sys q send recv timers" and "ms_dir sys' = ms_dir sys" and "ms_events sys' = ms_events sys"
    and "ms_mem sys' = ms_mem sys" and "ms_filters sys' = ms_filters sys"
  shows "msgq_wait_ok fn p tid sys' q send recv timers"
  using assms(1) by (rule msgq_wait_signal) (simp_all add: signal_effect_def assms msgq_blocked_def)

text \<open>A step of a sender that leaves the memory alone.\<close>

lemma msgq_wait_send:
  assumes "msgq_wait_ok fn p tid sys q send recv timers" and "\<forall>f a. x \<noteq> SendSignal f a" and "\<forall>f a. send t \<noteq> SendSignal f a"
    and "\<forall>r m. recv = RecvBlocked r \<longrightarrow> recv_match fn sys r m \<longrightarrow> send_covers (mf_id (ms_filters sys (mr_filter r))) (mr_filter r) m (send t)
      \<longrightarrow> mf_event (ms_filters sys (mr_filter r)) = 0 \<or> send_covers (mf_id (ms_filters sys (mr_filter r))) (mr_filter r) m x"
  shows "msgq_wait_ok fn p tid sys q (send(t := x)) recv timers"
proof -
  have "msgq_tasks_ok p tid sys (send(t := x)) recv timers" using assms(1,2) by (simp add: msgq_wait_ok_def msgq_tasks_ok_def)
  moreover have "msgq_wake_ok p sys (send(t := x)) recv"
    unfolding msgq_wake_ok_def
  proof (intro allI impI conjI)
    fix r assume r: "recv = RecvPublished r \<or> recv = RecvBlocked r" "msgq_blocked sys p"
    with assms(1) show "task_token (tw_tasks (snd (ms_dir sys)) p) = ev_token (ms_events sys (mr_event r))"
      unfolding msgq_wait_ok_def msgq_wake_ok_def by blast
    assume "mf_event (ms_filters sys (mr_filter r)) = 0"
    with assms(1) r obtain u where u: "send u = SendSignal (mr_filter r) (mr_event r)" unfolding msgq_wait_ok_def msgq_wake_ok_def by blast
    then have "u \<noteq> t" using assms(3) by auto
    then show "\<exists>u. (send(t := x)) u = SendSignal (mr_filter r) (mr_event r)" using u by (intro exI [of _ u]) simp
  qed
  moreover have "msgq_cover_ok fn p sys q (send(t := x)) recv"
    unfolding msgq_cover_ok_def
  proof (intro allI impI ballI)
    fix r m assume r: "recv = RecvBlocked r" "msgq_blocked sys p" "m \<in> set q" "recv_match fn sys r m"
    let ?i = "mf_id (ms_filters sys (mr_filter r))"
    from assms(1) r have "mf_event (ms_filters sys (mr_filter r)) = 0 \<or> (\<exists>u. send_covers ?i (mr_filter r) m (send u))"
      unfolding msgq_wait_ok_def msgq_cover_ok_def by blast
    then show "mf_event (ms_filters sys (mr_filter r)) = 0 \<or> (\<exists>u. send_covers ?i (mr_filter r) m ((send(t := x)) u))"
      using assms(4) r by (metis fun_upd_apply)
  qed
  ultimately show ?thesis by (simp add: msgq_wait_ok_def)
qed

lemma msgq_wait_push:
  assumes "msgq_wait_ok fn p tid sys q send recv timers" and "send t = SendIdle"
  shows "msgq_wait_ok fn p tid (msgq_send_push sys msg) (q @ [msg]) (send(t := SendPushed msg)) recv timers"
proof -
  have w: "msgq_wait_ok fn p tid (msgq_send_push sys msg) q (send(t := SendPushed msg)) recv timers"
    by (rule msgq_wait_send [OF msgq_wait_frame [OF assms(1)]]) (simp_all add: send_push_fields assms(2))
  then have "msgq_cover_ok fn p (msgq_send_push sys msg) (q @ [msg]) (send(t := SendPushed msg)) recv"
    unfolding msgq_wait_ok_def msgq_cover_ok_def by (auto intro: exI [of _ t])
  then show ?thesis using w by (simp add: msgq_wait_ok_def)
qed

lemma msgq_wait_lock:
  assumes "msgq_wait_ok fn p tid sys q send recv timers" and "msgq_inv fn T sys q send recv" and "send t = SendLoaded msg fid"
    and "msgq_send_lock sys fid = (sys', filt)" and "finite T" and "card T < 4094"
  shows "msgq_wait_ok fn p tid sys' q (send(t := if filt \<noteq> 0 then SendLocked msg filt else SendIdle)) recv timers"
proof -
  note f = send_lock_fields [OF assms(4)]
  have w: "msgq_wait_ok fn p tid sys' q send recv timers" by (rule msgq_wait_frame [OF assms(1)]) (simp_all add: f(2-4) msgq_restD [OF f(1)])
  have live: "filt = mr_filter r \<and> filt \<noteq> 0" if r: "recv = RecvBlocked r" and fid: "fid = mf_id (ms_filters sys (mr_filter r))" for r
  proof -
    have d: "msgq_dir_ok (ms_pd sys) (\<lambda>f. mf_id (ms_filters sys f)) (msgq_held send recv)" and sh: "msgq_shown_ok fn sys r"
      and T: "\<forall>t. send t \<noteq> SendIdle \<longrightarrow> t \<in> T" using assms(2) r by (simp_all add: msgq_inv_def)
    have "recv_holds recv (mr_filter r)" using r by (simp add: recv_holds_def)
    then have h1: "0 < msgq_held send recv (mr_filter r)" using pc_count_nonneg [of "send_holds (mr_filter r)" send] by (simp add: msgq_held_def)
    have "{u. send_holds (mr_filter r) (send u)} \<subseteq> T"
    proof
      fix u assume "u \<in> {u. send_holds (mr_filter r) (send u)}"
      then show "u \<in> T" using T by (cases "send u") auto
    qed
    then have "pc_count (send_holds (mr_filter r)) send \<le> int (card T)" using card_mono [OF assms(5)] by (simp add: pc_count_def)
    then have h2: "msgq_held send recv (mr_filter r) < 4095" using assms(6) by (simp add: msgq_held_def)
    have "fid \<noteq> PRS_PD_ID_INVALID"
      using msgq_dir_okD(2) [OF d h1] pd_live_invalid [of "ms_pd sys"] fid by auto
    then have "filt = mr_filter r"
      using msgq_dir_ok_lock_live [OF d h1 h2] assms(4) fid by (auto simp: msgq_send_lock_def split: prod.splits)
    then show ?thesis using sh by (simp add: msgq_shown_ok_def Let_def)
  qed
  show ?thesis
    by (rule msgq_wait_send [OF w]) (use assms(3) live in \<open>auto simp: f(2)\<close>)
qed

lemma msgq_wait_match:
  assumes "msgq_wait_ok fn p tid sys q send recv timers" and "msgq_inv fn T sys q send recv" and "send t = SendLocked msg filt"
  shows "msgq_wait_ok fn p tid sys q (send(t := if msgq_send_match fn sys filt msg then SendMatched msg filt else SendUnref filt)) recv timers"
proof (rule msgq_wait_send [OF assms(1)])
  show "\<forall>r m. recv = RecvBlocked r \<longrightarrow> recv_match fn sys r m \<longrightarrow> send_covers (mf_id (ms_filters sys (mr_filter r))) (mr_filter r) m (send t)
      \<longrightarrow> mf_event (ms_filters sys (mr_filter r)) = 0
        \<or> send_covers (mf_id (ms_filters sys (mr_filter r))) (mr_filter r) m (if msgq_send_match fn sys filt msg then SendMatched msg filt else SendUnref filt)"
  proof (intro allI impI)
    fix r m assume r: "recv = RecvBlocked r" "recv_match fn sys r m"
      and "send_covers (mf_id (ms_filters sys (mr_filter r))) (mr_filter r) m (send t)"
    then have e: "m = msg" "filt = mr_filter r" using assms(3) by simp_all
    have "msgq_shown_ok fn sys r" using assms(2) r(1) by (simp add: msgq_inv_def)
    then have "mf_event (ms_filters sys filt) \<noteq> 0 \<Longrightarrow> msgq_send_match fn sys filt msg"
      using r(2) e by (simp add: msgq_shown_ok_def msgq_send_match_def Let_def)
    then show "mf_event (ms_filters sys (mr_filter r)) = 0
        \<or> send_covers (mf_id (ms_filters sys (mr_filter r))) (mr_filter r) m (if msgq_send_match fn sys filt msg then SendMatched msg filt else SendUnref filt)"
      using e by auto
  qed
qed (use assms(3) in auto)

lemma recv_armed_of: "recv_armed recv = Some r \<Longrightarrow> recv_of recv = Some r"
  by (cases recv) simp_all

lemma msgq_wait_take:
  assumes "msgq_wait_ok fn p tid sys q send recv timers" and "msgq_inv fn T sys q send recv" and "send t = SendMatched msg filt"
    and "msgq_take_event sys filt = (sys', event)"
  shows "msgq_wait_ok fn p tid sys' q (send(t := if event \<noteq> 0 then SendSignal filt event else SendUnref filt)) recv timers"
proof (cases "event = 0")
  case True
  note f = take_event_fields [OF assms(4)]
  have "ms_filters sys' = ms_filters sys" using True f(6) by (intro ext) (simp add: f(5))
  then have "msgq_wait_ok fn p tid sys' q send recv timers"
    using assms(1) f by (intro msgq_wait_frame [OF assms(1)]) (simp_all add: msgq_restD [OF f(1)])
  then show ?thesis
    using True assms(3) f(6) \<open>ms_filters sys' = ms_filters sys\<close> by (intro msgq_wait_send) auto
next
  case False
  note f = take_event_fields [OF assms(4)]
  let ?send = "send(t := SendSignal filt event)"
  have "0 < msgq_held send recv filt" using msgq_held_pos [of filt send t recv] assms(3) by simp
  then obtain r0 where r0: "recv_armed recv = Some r0" "mr_filter r0 = filt" "event = mr_event r0"
    using assms(2) False f(6) unfolding msgq_inv_def msgq_slots_ok_def by metis
  have tasks: "msgq_tasks_ok p tid sys' ?send recv timers"
    using assms(1) r0(3) recv_armed_of [OF r0(1)] by (simp add: msgq_wait_ok_def msgq_tasks_ok_def f(3,4))
  have r: "r = r0" if "recv = RecvPublished r \<or> recv = RecvBlocked r" for r using r0(1) that by auto
  have tok: "task_token (tw_tasks (snd (ms_dir sys)) p) = ev_token (ms_events sys (mr_event r0))"
    if "recv = RecvPublished r0 \<or> recv = RecvBlocked r0" "msgq_blocked sys p"
    using assms(1) that unfolding msgq_wait_ok_def msgq_wake_ok_def by blast
  have b: "msgq_blocked sys' p = msgq_blocked sys p" by (simp add: msgq_blocked_def f(4))
  have "msgq_wake_ok p sys' ?send recv"
    unfolding msgq_wake_ok_def b f(3,4)
  proof (intro allI impI conjI)
    fix r' assume r': "recv = RecvPublished r' \<or> recv = RecvBlocked r'" "msgq_blocked sys p"
    show "task_token (tw_tasks (snd (ms_dir sys)) p) = ev_token (ms_events sys (mr_event r'))" using tok r' unfolding r [OF r'(1)] by blast
    show "\<exists>u. ?send u = SendSignal (mr_filter r') (mr_event r')" unfolding r [OF r'(1)] using r0 by (intro exI [of _ t]) simp
  qed
  moreover have "msgq_cover_ok fn p sys' q ?send recv" unfolding msgq_cover_ok_def using r r0(2) by (auto simp: f(5))
  ultimately show ?thesis using tasks False by (simp add: msgq_wait_ok_def)
qed

lemma msgq_wait_send_signal:
  assumes "msgq_wait_ok fn p tid sys q send recv timers" and "send t = SendSignal filt event"
    and "msgq_signal ops_of (msgq_as u sys) event ty = (sys', st, freed)"
  shows "msgq_wait_ok fn p tid sys' q (send(t := SendUnref filt)) recv timers"
proof -
  note f = signal_fields [OF assms(3)]
  have at: "event_task_at (fst (ms_dir (msgq_as u sys))) (ev_task_id (ms_events (msgq_as u sys) event)) p"
    using assms(1,2) by (simp add: msgq_wait_ok_def msgq_tasks_ok_def)
  have eff: "signal_effect p sys sys'" using msgq_signal_effect(1) [OF assms(3) at] by (simp add: signal_effect_as)
  have m: "ms_mem sys' = ms_mem sys" "ms_filters sys' = ms_filters sys" using msgq_restD(2) [OF f(1)] f(3) by simp_all
  note w = msgq_wait_signal [OF assms(1) eff m]
  have "msgq_tasks_ok p tid sys' (send(t := SendUnref filt)) recv timers" using w by (simp add: msgq_wait_ok_def msgq_tasks_ok_def)
  moreover have "msgq_wake_ok p sys' (send(t := SendUnref filt)) recv"
    unfolding msgq_wake_ok_def
  proof (intro allI impI conjI)
    fix r assume r: "recv = RecvPublished r \<or> recv = RecvBlocked r" "msgq_blocked sys' p"
    with w show tok: "task_token (tw_tasks (snd (ms_dir sys')) p) = ev_token (ms_events sys' (mr_event r))"
      unfolding msgq_wait_ok_def msgq_wake_ok_def by blast
    assume "mf_event (ms_filters sys' (mr_filter r)) = 0"
    with w r obtain v where v: "send v = SendSignal (mr_filter r) (mr_event r)" unfolding msgq_wait_ok_def msgq_wake_ok_def by blast
    have "v \<noteq> t"
    proof
      assume "v = t"
      then have e: "event = mr_event r" using v assms(2) by simp
      have "tw_tasks (snd (ms_dir sys')) p = tw_tasks (snd (ms_dir sys)) p" "ev_token (ms_events sys' event) = ev_token (ms_events sys event)"
        using eff r(2) by (simp_all add: signal_effect_def)
      then have "task_token (tw_tasks (snd (ms_dir (msgq_as u sys))) p) = ev_token (ms_events (msgq_as u sys) event)" using tok e by simp
      from msgq_signal_effect(2) [OF assms(3) at this] r(2) show False by simp
    qed
    then show "\<exists>v. (send(t := SendUnref filt)) v = SendSignal (mr_filter r) (mr_event r)" using v by (intro exI [of _ v]) simp
  qed
  moreover have "msgq_cover_ok fn p sys' q (send(t := SendUnref filt)) recv"
    unfolding msgq_cover_ok_def
  proof (intro allI impI ballI)
    fix r m assume r: "recv = RecvBlocked r" "msgq_blocked sys' p" "m \<in> set q" "recv_match fn sys' r m"
    let ?i = "mf_id (ms_filters sys' (mr_filter r))"
    from w r have "mf_event (ms_filters sys' (mr_filter r)) = 0 \<or> (\<exists>v. send_covers ?i (mr_filter r) m (send v))"
      unfolding msgq_wait_ok_def msgq_cover_ok_def by blast
    moreover have "\<not> send_covers ?i (mr_filter r) m (send t)" using assms(2) by simp
    ultimately show "mf_event (ms_filters sys' (mr_filter r)) = 0 \<or> (\<exists>v. send_covers ?i (mr_filter r) m ((send(t := SendUnref filt)) v))"
      by (metis fun_upd_apply)
  qed
  ultimately show ?thesis by (simp add: msgq_wait_ok_def)
qed

lemma msgq_wait_timers:
  "msgq_wait_ok fn p tid sys q send recv timers \<Longrightarrow> timers' \<subseteq> timers \<Longrightarrow> msgq_wait_ok fn p tid sys q send recv timers'"
  by (auto simp: msgq_wait_ok_def msgq_tasks_ok_def)

text \<open>A receiver that does not wait.\<close>

lemma msgq_wait_recv:
  assumes "msgq_wait_ok fn p tid sys q send recv timers" and "\<forall>r. recv' \<noteq> RecvPublished r \<and> recv' \<noteq> RecvBlocked r"
    and "\<forall>r'. recv_of recv' = Some r' \<longrightarrow> (\<exists>r. recv_of recv = Some r \<and> mr_event r' = mr_event r)"
  shows "msgq_wait_ok fn p tid sys q' send recv' timers"
  using assms by (fastforce simp: msgq_wait_defs)

lemma msgq_wait_take_recv:
  assumes "msgq_wait_ok fn p tid sys q send (RecvTake r found) timers" and "msgq_take_event sys (mr_filter r) = (sys', event)"
  shows "msgq_wait_ok fn p tid sys' q send (RecvRelease r event found) timers"
  using assms(1) take_event_fields [OF assms(2)] by (simp add: msgq_wait_defs)

lemma msgq_wait_publish:
  assumes "msgq_wait_ok fn p tid sys q send (RecvReady r) timers" and "msgq_published (msgq_as p sys) r filt copy event fid t sys' r'" and "event \<noteq> 0"
  shows "msgq_wait_ok fn p tid sys' q send (RecvPublished r') timers"
proof -
  note f = msgq_publishedD [OF assms(2)]
  have t: "task_id t = tid" using f(10) assms(1) by (auto simp: prs_task_block_def Let_def msgq_wait_defs)
  have e: "ms_events sys' = (ms_events sys)(event :=
      \<lparr>ev_addr = event, ev_task_id = task_id t, ev_token = task_token t, ev_initial_refcnt = msgq_refcnt r, ev_refcnt = msgq_refcnt r\<rparr>)" using f(12) by simp
  have tt: "tw_tasks (snd (ms_dir sys')) p = t" using f(11) by simp
  show ?thesis using assms(1,3) t f(9) by (auto simp: msgq_wait_defs e tt f(4) f(7))
qed

lemma msgq_wait_search:
  assumes "msgq_wait_ok fn p tid sys q send (RecvPublished r) timers" and "msgq_same sys sys'" and "\<forall>m \<in> set q. \<not> recv_match fn sys r m"
    and "timers' \<subseteq> insert (mr_event r) timers"
  shows "msgq_wait_ok fn p tid sys' q send (RecvBlocked (r\<lparr>mr_hint := hint\<rparr>)) timers'"
proof -
  note f = msgq_same_fields [OF assms(2)]
  have "recv_match fn sys' (r\<lparr>mr_hint := hint\<rparr>) = recv_match fn sys r" using f(4) by (simp add: recv_match_def)
  moreover have "msgq_blocked sys' p = msgq_blocked sys p" using f(5) by (simp add: msgq_blocked_def)
  ultimately show ?thesis using assms(1,3,4) f by (auto simp: msgq_wait_defs)
qed

subsection \<open>All steps\<close>

definition msgq_ok :: "filter_fn \<Rightarrow> ptr set \<Rightarrow> ptr \<Rightarrow> prs_object_id_t \<Rightarrow> msgq_config \<Rightarrow> bool" where
  "msgq_ok fn T p tid c \<longleftrightarrow> msgq_inv fn T (mc_sys c) (mc_queue c) (mc_send c) (mc_recv c)
     \<and> msgq_wait_ok fn p tid (mc_sys c) (mc_queue c) (mc_send c) (mc_recv c) (mc_timers c)"

lemma msgq_okI:
  assumes "mc_sys c = sys" and "mc_queue c = q" and "mc_send c = send" and "mc_recv c = recv" and "mc_timers c = timers"
    and "msgq_inv fn T sys q send recv" and "msgq_wait_ok fn p tid sys q send recv timers"
  shows "msgq_ok fn T p tid c"
  using assms by (simp add: msgq_ok_def)

lemma msgq_okD:
  assumes "msgq_ok fn T p tid c"
  shows "msgq_inv fn T (mc_sys c) (mc_queue c) (mc_send c) (mc_recv c)"
    and "msgq_wait_ok fn p tid (mc_sys c) (mc_queue c) (mc_send c) (mc_recv c) (mc_timers c)"
  using assms by (simp_all add: msgq_ok_def)

text \<open>The steps of a sender.\<close>

lemma msgq_ok_send_unref:
  assumes "msgq_ok fn T p tid c" and "mc_send c t = SendUnref filt" and "prs_msgq_filter_unref (mc_sys c) filt = (sys, freed)"
  shows "msgq_ok fn T p tid (c\<lparr>mc_sys := sys, mc_send := (mc_send c)(t := SendIdle)\<rparr>)"
proof -
  note k = msgq_okD [OF assms(1)]
  note f = filter_unref_fields [OF assms(3)]
  have held: "msgq_held ((mc_send c)(t := SendIdle)) (mc_recv c) = (msgq_held (mc_send c) (mc_recv c))(filt := msgq_held (mc_send c) (mc_recv c) filt - 1)"
    using assms(2) by (intro ext) (simp add: msgq_held_send)
  have pos: "0 < msgq_held (mc_send c) (mc_recv c) filt" using assms(2) by (intro msgq_held_pos [of _ _ t]) simp
  have "msgq_inv fn T sys (mc_queue c) ((mc_send c)(t := SendIdle)) (mc_recv c)"
    by (rule msgq_inv_unref [OF k(1) assms(3) pos held]) (use k(1) in \<open>simp_all add: msgq_inv_def\<close>)
  moreover have "msgq_wait_ok fn p tid sys (mc_queue c) ((mc_send c)(t := SendIdle)) (mc_recv c) (mc_timers c)"
    by (rule msgq_wait_send [OF msgq_wait_frame [OF k(2)]]) (simp_all add: f(2-4) msgq_restD [OF f(1)] assms(2))
  ultimately show ?thesis by (simp add: msgq_ok_def)
qed

lemma msgq_ok_send_signal:
  assumes "msgq_ok fn T p tid c" and "mc_send c t = SendSignal filt event" and "msgq_signal ops_of (msgq_as t (mc_sys c)) event ty = (sys, st, freed)"
  shows "msgq_ok fn T p tid (c\<lparr>mc_sys := sys, mc_send := (mc_send c)(t := SendUnref filt)\<rparr>)"
proof -
  note k = msgq_okD [OF assms(1)]
  note f = signal_fields [OF assms(3)]
  have "msgq_rest (msgq_as t (mc_sys c)) = msgq_rest (mc_sys c)" by (simp add: msgq_rest_def)
  then have "msgq_inv fn T sys (mc_queue c) (mc_send c) (mc_recv c)" using f by (intro msgq_inv_sys [OF k(1)]) simp_all
  then have "msgq_inv fn T sys (mc_queue c) ((mc_send c)(t := SendUnref filt)) (mc_recv c)"
    by (rule msgq_inv_send) (simp_all add: assms(2))
  moreover note msgq_wait_send_signal [OF k(2) assms(2,3)]
  ultimately show ?thesis by (simp add: msgq_ok_def)
qed

lemma msgq_ok_timer:
  assumes "msgq_ok fn T p tid c" and "signal_effect p (mc_sys c) sys" and "msgq_rest sys = msgq_rest (mc_sys c)" and "ms_pd sys = ms_pd (mc_sys c)"
    and "ms_filters sys = ms_filters (mc_sys c)"
  shows "msgq_ok fn T p tid (c\<lparr>mc_sys := sys, mc_timers := mc_timers c - {event}\<rparr>)"
proof -
  note k = msgq_okD [OF assms(1)]
  have "msgq_wait_ok fn p tid sys (mc_queue c) (mc_send c) (mc_recv c) (mc_timers c - {event})"
    by (rule msgq_wait_timers [OF msgq_wait_signal [OF k(2) assms(2) msgq_restD(2) [OF assms(3)] assms(5)]]) blast
  then show ?thesis using msgq_inv_sys [OF k(1) assms(3-5)] by (simp add: msgq_ok_def)
qed

text \<open>The steps of the receiver.\<close>

lemma msgq_ok_recv_search:
  assumes "msgq_ok fn T p tid c" and "mc_recv c = RecvPublished r"
    and "prs_msgq_search fn (mc_sys c) (mr_userdata r) (mr_function r) (mr_hint r) = Some (sys, msg, hint)"
    and "timers \<subseteq> insert (mr_event r) (mc_timers c)"
  shows "msgq_ok fn T p tid (if msg \<noteq> 0 then c\<lparr>mc_sys := sys, mc_recv := RecvTake (r\<lparr>mr_hint := hint\<rparr>) (Some msg)\<rparr>
          else c\<lparr>mc_sys := sys, mc_recv := RecvBlocked (r\<lparr>mr_hint := hint\<rparr>), mc_timers := timers\<rparr>)"
proof -
  note k = msgq_okD [OF assms(1), unfolded assms(2)]
  let ?r = "r\<lparr>mr_hint := hint\<rparr>"
  have rd: "hint_ok (recv_match fn (mc_sys c) r) (mc_queue c) (mr_hint r)" "msgq_filter_reads fn r" using k(1) by (simp_all add: msgq_inv_def)
  note s = msgq_search_inv [OF k(1) rd(1) assms(3)]
  have m: "recv_match fn sys ?r = recv_match fn sys r" by (simp add: recv_match_def)
  have sh: "msgq_shown_ok fn sys ?r" using s(1) by (simp add: msgq_inv_def msgq_shown_ok_def m)
  have reads: "msgq_filter_reads fn ?r" using rd(2) by (simp add: msgq_filter_reads_def)
  have holds: "recv_holds (RecvTake ?r found) f = recv_holds (RecvPublished r) f" "recv_holds (RecvBlocked ?r) f = recv_holds (RecvPublished r) f" for found f
    by (simp_all add: recv_holds_def)
  have z: "0 \<notin> set (mc_queue c)" using k(1) iq_rep_nodes [of "msgq_iq (mc_sys c)" "mc_queue c"] by (simp add: msgq_inv_def msgq_holds_def)
  show ?thesis
  proof (cases "msg = 0")
    case True
    then have none: "\<forall>m \<in> set (mc_queue c). \<not> recv_match fn (mc_sys c) r m" using s(2) first_match_zero [OF z] by simp
    have "msgq_inv fn T sys (mc_queue c) (mc_send c) (RecvBlocked ?r)"
      by (rule msgq_inv_recv [OF s(1)]) (use holds sh reads s(3) m in simp_all)
    then show ?thesis
      using True msgq_wait_search [OF k(2) s(4) none assms(4)] by (simp add: msgq_ok_def)
  next
    case False
    then have "msg \<in> set (mc_queue c)" using s(2) first_match_in [of "recv_match fn (mc_sys c) r" "mc_queue c"] by auto
    then have "msgq_inv fn T sys (mc_queue c) (mc_send c) (RecvTake ?r (Some msg))"
      by (intro msgq_inv_recv [OF s(1)]) (use holds sh reads s(3) m in simp_all)
    moreover have "msgq_wait_ok fn p tid sys (mc_queue c) (mc_send c) (RecvTake ?r (Some msg)) (mc_timers c)"
      by (rule msgq_wait_recv [OF msgq_wait_frame [OF k(2)]]) (simp_all add: msgq_same_fields [OF s(4)])
    ultimately show ?thesis using False by (simp add: msgq_ok_def)
  qed
qed

lemma msgq_ok_recv_first:
  assumes "msgq_ok fn T p tid c" and "mc_recv c = RecvIdle" and "msgq_filter_reads fn r"
    and "prs_msgq_search fn (mc_sys c) (mr_userdata r) (mr_function r) 0 = Some (sys, msg, hint)"
  shows "msgq_ok fn T p tid (c\<lparr>mc_sys := sys, mc_recv := if msg \<noteq> 0 then RecvFinish (r\<lparr>mr_hint := hint\<rparr>) (Some msg) else RecvReady (r\<lparr>mr_hint := hint\<rparr>)\<rparr>)"
proof -
  note k = msgq_okD [OF assms(1), unfolded assms(2)]
  let ?r = "r\<lparr>mr_hint := hint\<rparr>" and ?recv = "if msg \<noteq> 0 then RecvFinish (r\<lparr>mr_hint := hint\<rparr>) (Some msg) else RecvReady (r\<lparr>mr_hint := hint\<rparr>)"
  have "hint_ok (recv_match fn (mc_sys c) r) (mc_queue c) 0" by (simp add: hint_ok_def)
  note s = msgq_search_inv [OF k(1) this assms(4)]
  have m: "recv_match fn sys ?r = recv_match fn sys r" by (simp add: recv_match_def)
  have reads: "msgq_filter_reads fn ?r" using assms(3) by (simp add: msgq_filter_reads_def)
  have "msg = 0 \<or> msg \<in> set (mc_queue c)" using s(2) first_match_in [of "recv_match fn (mc_sys c) r" "mc_queue c"] by auto
  then have "msgq_inv fn T sys (mc_queue c) (mc_send c) ?recv"
    by (intro msgq_inv_recv [OF s(1)]) (use reads s(3) m in \<open>auto simp: recv_holds_def\<close>)
  moreover have "msgq_wait_ok fn p tid sys (mc_queue c) (mc_send c) ?recv (mc_timers c)"
    by (rule msgq_wait_recv [OF msgq_wait_frame [OF k(2)]]) (simp_all add: msgq_same_fields [OF s(4)])
  ultimately show ?thesis by (simp add: msgq_ok_def)
qed

lemma msgq_ok_recv_resume:
  assumes "msgq_ok fn T p tid c" and "mc_recv c = RecvBlocked r"
    and "(if expected then prs_msgq_search fn (mc_sys c) (mr_userdata r) (mr_function r) (mr_hint r) else Some (mc_sys c, 0, mr_hint r)) = Some (sys, msg, hint)"
  shows "msgq_ok fn T p tid (c\<lparr>mc_sys := sys, mc_recv := RecvTake (r\<lparr>mr_hint := hint, mr_wait_left := wait_left\<rparr>) (if expected then Some msg else None)\<rparr>)"
proof -
  note k = msgq_okD [OF assms(1), unfolded assms(2)]
  let ?r = "r\<lparr>mr_hint := hint, mr_wait_left := wait_left\<rparr>" and ?found = "if expected then Some msg else None"
  have rd: "hint_ok (recv_match fn (mc_sys c) r) (mc_queue c) (mr_hint r)" "msgq_filter_reads fn r" using k(1) by (simp_all add: msgq_inv_def)
  have s: "msgq_inv fn T sys (mc_queue c) (mc_send c) (RecvBlocked r) \<and> hint_ok (recv_match fn sys r) (mc_queue c) hint \<and> msgq_same (mc_sys c) sys
      \<and> (msg = 0 \<or> msg \<in> set (mc_queue c))"
  proof (cases expected)
    case True
    then have "prs_msgq_search fn (mc_sys c) (mr_userdata r) (mr_function r) (mr_hint r) = Some (sys, msg, hint)" using assms(3) by simp
    from msgq_search_inv [OF k(1) rd(1) this] show ?thesis using first_match_in [of "recv_match fn (mc_sys c) r" "mc_queue c"] by simp
  next
    case False
    moreover have "msgq_set_iq (mc_sys c) (msgq_iq (mc_sys c)) = mc_sys c" by (simp add: msgq_set_iq_def msgq_iq_def)
    ultimately show ?thesis using assms(3) k(1) rd(1) unfolding msgq_same_def by (metis Pair_inject option.inject)
  qed
  have m: "recv_match fn sys ?r = recv_match fn sys r" by (simp add: recv_match_def)
  have sh: "msgq_shown_ok fn sys ?r" using s by (simp add: msgq_inv_def msgq_shown_ok_def m)
  have "msgq_inv fn T sys (mc_queue c) (mc_send c) (RecvTake ?r ?found)"
    by (rule msgq_inv_recv [where recv = "RecvBlocked r"]) (use s sh m rd(2) in \<open>simp_all add: recv_holds_def msgq_filter_reads_def\<close>)
  moreover have "msgq_wait_ok fn p tid sys (mc_queue c) (mc_send c) (RecvTake ?r ?found) (mc_timers c)"
    by (rule msgq_wait_recv [OF msgq_wait_frame [OF k(2)]]) (use s in \<open>simp_all add: msgq_same_fields [of "mc_sys c" sys]\<close>)
  ultimately show ?thesis by (simp add: msgq_ok_def)
qed

lemma msgq_ok_recv_publish:
  assumes "msgq_ok fn T p tid c" and "mc_recv c = RecvReady r" and "msgq_fresh c r filt copy event" and "pd_ids_left (ms_pd (mc_sys c))"
    and "msgq_recv_publish (msgq_as p (mc_sys c)) r (Some filt) (Some copy) (Some event) = Some (sys, r')"
  shows "msgq_ok fn T p tid (c\<lparr>mc_sys := sys, mc_recv := RecvPublished r'\<rparr>)"
proof -
  note k = msgq_okD [OF assms(1), unfolded assms(2)]
  have fresh: "filt \<noteq> 0" "event \<noteq> 0" using assms(3) by (simp_all add: msgq_fresh_def)
  have "pd_wf (ms_pd (msgq_as p (mc_sys c)))" "pd_ids_left (ms_pd (msgq_as p (mc_sys c)))"
    using k(1) assms(4) by (simp_all add: msgq_inv_def msgq_dir_ok_def)
  with assms(5) fresh(1) obtain fid t where "msgq_published (msgq_as p (mc_sys c)) r filt copy event fid t sys r'" by (metis recv_publish_fields)
  from msgq_wait_publish [OF k(2) this fresh(2)] msgq_inv_publish [OF k(1) assms(3) refl assms(2,4,5)] show ?thesis by (simp add: msgq_ok_def)
qed

lemma msgq_ok_recv_take:
  assumes "msgq_ok fn T p tid c" and "mc_recv c = RecvTake r found" and "msgq_take_event (mc_sys c) (mr_filter r) = (sys, event)"
  shows "msgq_ok fn T p tid (c\<lparr>mc_sys := sys, mc_recv := RecvRelease r event found\<rparr>)"
proof -
  note k = msgq_okD [OF assms(1), unfolded assms(2)]
  have i: "msgq_inv fn T sys (mc_queue c) (mc_send c) (RecvTake r found)" by (rule msgq_inv_take [OF k(1) assms(3)])
  have "mf_event (ms_filters sys (mr_filter r)) = 0" using take_event_fields(5) [OF assms(3)] by simp
  then have "msgq_inv fn T sys (mc_queue c) (mc_send c) (RecvRelease r event found)"
    by (intro msgq_inv_recv [OF i]) (use i in \<open>simp_all add: recv_holds_def msgq_inv_def\<close>)
  then show ?thesis using msgq_wait_take_recv [OF k(2) assms(3)] by (simp add: msgq_ok_def)
qed

lemma msgq_ok_recv_release:
  assumes "msgq_ok fn T p tid c" and "mc_recv c = RecvRelease r event found"
    and "msgq_release_event ops_of (msgq_as p (mc_sys c)) event (mr_event r) = (sys, signaled, freed)"
  shows "msgq_ok fn T p tid (c\<lparr>mc_sys := sys, mc_recv := RecvReset r found\<rparr>)"
proof -
  note k = msgq_okD [OF assms(1), unfolded assms(2)]
  note f = release_event_fields [OF assms(3)]
  have rest: "msgq_rest sys = msgq_rest (mc_sys c)" using f(1) by (simp add: msgq_rest_def)
  have "event_task_at (fst (ms_dir (msgq_as p (mc_sys c)))) (ev_task_id (ms_events (msgq_as p (mc_sys c)) (mr_event r))) p"
    using k(2) by (simp add: msgq_wait_defs)
  then have e: "signal_effect p (mc_sys c) sys" using msgq_release_effect [OF assms(3)] by (simp add: signal_effect_as)
  have i: "msgq_inv fn T sys (mc_queue c) (mc_send c) (RecvRelease r event found)" using f by (intro msgq_inv_sys [OF k(1) rest]) simp_all
  have "msgq_inv fn T sys (mc_queue c) (mc_send c) (RecvReset r found)"
    by (rule msgq_inv_recv [OF i]) (use i in \<open>simp_all add: recv_holds_def msgq_inv_def\<close>)
  moreover have "msgq_wait_ok fn p tid sys (mc_queue c) (mc_send c) (RecvReset r found) (mc_timers c)"
    by (rule msgq_wait_recv [OF msgq_wait_signal [OF k(2) e msgq_restD(2) [OF rest]]]) (simp_all add: f(3))
  ultimately show ?thesis by (simp add: msgq_ok_def)
qed

lemma msgq_ok_recv_reset:
  assumes "msgq_ok fn T p tid c" and "mc_recv c = RecvReset r found"
  shows "msgq_ok fn T p tid (c\<lparr>mc_sys := msgq_set_filter_id (mc_sys c) PRS_PD_ID_INVALID, mc_recv := RecvUnref r found\<rparr>)"
proof -
  note k = msgq_okD [OF assms(1), unfolded assms(2)]
  let ?sys = "msgq_set_filter_id (mc_sys c) PRS_PD_ID_INVALID"
  have h: "msgq_held (mc_send c) (RecvUnref r found) = msgq_held (mc_send c) (RecvReset r found)" by (intro ext) (simp add: msgq_held_def recv_holds_def)
  have m: "recv_match fn ?sys = recv_match fn (mc_sys c)" by (rule recv_match_cong) simp
  have "msgq_holds ?sys (mc_queue c)" using k(1) msgq_holds_cong [of ?sys "mc_sys c" "mc_queue c"] by (simp add: msgq_inv_def)
  then have "msgq_inv fn T ?sys (mc_queue c) (mc_send c) (RecvUnref r found)"
    using k(1) by (simp add: msgq_inv_def msgq_slots_ok_def h m)
  moreover have "msgq_wait_ok fn p tid ?sys (mc_queue c) (mc_send c) (RecvUnref r found) (mc_timers c)"
    by (rule msgq_wait_recv [OF msgq_wait_frame [OF k(2)]]) simp_all
  ultimately show ?thesis by (simp add: msgq_ok_def)
qed

lemma msgq_ok_recv_unref:
  assumes "msgq_ok fn T p tid c" and "mc_recv c = RecvUnref r found" and "prs_msgq_filter_unref (mc_sys c) (mr_filter r) = (sys, freed)"
  shows "msgq_ok fn T p tid (c\<lparr>mc_sys := sys, mc_recv := RecvFinish r found\<rparr>)"
proof -
  note k = msgq_okD [OF assms(1), unfolded assms(2)]
  note f = filter_unref_fields [OF assms(3)]
  let ?h = "msgq_held (mc_send c) (RecvUnref r found)"
  have held: "msgq_held (mc_send c) (RecvFinish r found) = ?h(mr_filter r := ?h (mr_filter r) - 1)"
    by (intro ext) (simp add: msgq_held_def recv_holds_def)
  have pos: "0 < ?h (mr_filter r)" using pc_count_nonneg [of "send_holds (mr_filter r)" "mc_send c"] by (simp add: msgq_held_def recv_holds_def)
  have "msgq_inv fn T sys (mc_queue c) (mc_send c) (RecvFinish r found)"
    by (rule msgq_inv_unref [OF k(1) assms(3) pos held]) (use k(1) in \<open>simp_all add: msgq_inv_def\<close>)
  moreover have "msgq_wait_ok fn p tid sys (mc_queue c) (mc_send c) (RecvFinish r found) (mc_timers c)"
    by (rule msgq_wait_recv [OF msgq_wait_frame [OF k(2)]]) (simp_all add: f(2-4) msgq_restD [OF f(1)])
  ultimately show ?thesis by (simp add: msgq_ok_def)
qed

text \<open>A receiver without a filter.\<close>

lemma msgq_ok_recv_plain:
  assumes "msgq_ok fn T p tid c" and "recv_of (mc_recv c) = None" and "recv = RecvIdle \<or> (\<exists>r. recv_data (mc_recv c) = Some r \<and> recv = RecvReady r)"
  shows "msgq_ok fn T p tid (c\<lparr>mc_recv := recv\<rparr>)"
proof -
  note k = msgq_okD [OF assms(1)]
  have armed: "recv_armed (mc_recv c) = None" using assms(2) by (cases "mc_recv c") simp_all
  have "msgq_inv fn T (mc_sys c) (mc_queue c) (mc_send c) recv"
    by (rule msgq_inv_recv [OF k(1)]) (use k(1) assms(2,3) armed in \<open>auto simp: recv_holds_def msgq_inv_def\<close>)
  moreover have "msgq_wait_ok fn p tid (mc_sys c) (mc_queue c) (mc_send c) recv (mc_timers c)"
    by (rule msgq_wait_recv [OF k(2)]) (use assms(3) in auto)
  ultimately show ?thesis by (simp add: msgq_ok_def)
qed

lemma msgq_ok_recv_finish:
  assumes "msgq_ok fn T p tid c" and "mc_recv c = RecvFinish r (Some msg)" and "msg \<noteq> 0" and "msgq_finish (mc_sys c) msg = (sys, MsgqReturn msg)"
  shows "msgq_ok fn T p tid (c\<lparr>mc_sys := sys, mc_queue := remove1 msg (mc_queue c), mc_recv := RecvIdle\<rparr>)"
proof -
  have "msgq_ok fn T p tid (c\<lparr>mc_recv := RecvIdle\<rparr>)" by (rule msgq_ok_recv_plain [OF assms(1)]) (simp_all add: assms(2))
  note k = msgq_okD [OF this, simplified]
  have "msg \<in> set (mc_queue c)" using msgq_okD(1) [OF assms(1)] assms(2,3) by (simp add: msgq_inv_def)
  then obtain as bs where ab: "mc_queue c = as @ msg # bs" by (meson split_list)
  have h: "msgq_holds (mc_sys c) (as @ msg # bs)" using k(1) ab by (simp add: msgq_inv_def)
  then have "msg \<notin> set as" using iq_rep_nodes [of "msgq_iq (mc_sys c)" "as @ msg # bs"] by (simp add: msgq_holds_def)
  then have rm: "remove1 msg (mc_queue c) = as @ bs" using ab by (simp add: remove1_append)
  obtain sys1 where s: "msgq_finish (mc_sys c) msg = (sys1, MsgqReturn msg)" "msgq_holds sys1 (as @ bs)" "msgq_same (mc_sys c) sys1"
    using msgq_finish_result [OF h] by blast
  then have e: "sys1 = sys" using assms(4) by simp
  have "msgq_inv fn T sys (as @ bs) (mc_send c) RecvIdle" using s(2,3) unfolding e by (intro msgq_inv_same [OF k(1)]) simp_all
  moreover have "msgq_wait_ok fn p tid sys (as @ bs) (mc_send c) RecvIdle (mc_timers c)"
    using s(3) unfolding e by (intro msgq_wait_recv [OF msgq_wait_frame [OF k(2)]]) (simp_all add: msgq_same_fields)
  ultimately show ?thesis by (simp add: msgq_ok_def rm)
qed

lemma msgq_ok_step:
  assumes "msgq_step fn ops_of T p c c'" and "msgq_ok fn T p tid c" and "finite T" and "card T < 4094"
  shows "msgq_ok fn T p tid c'"
  using assms(1,2)
proof (induction rule: msgq_step.induct)
  case (send_push t c msg)
  note k = msgq_okD [OF send_push.prems]
  have "msgq_inv fn T (msgq_send_push (mc_sys c) msg) (mc_queue c @ [msg]) ((mc_send c)(t := SendPushed msg)) (mc_recv c)"
    by (rule msgq_inv_send [OF msgq_inv_push [OF k(1) send_push.hyps(3,4)]]) (simp_all add: send_push.hyps(1,2))
  then show ?case using msgq_wait_push [OF k(2) send_push.hyps(2), of msg] by (simp add: msgq_ok_def)
next
  case (send_load c t msg)
  note k = msgq_okD [OF send_load.prems]
  let ?x = "SendLoaded msg (mq_filter_id (ms_msgq (mc_sys c)))"
  have "msgq_inv fn T (mc_sys c) (mc_queue c) ((mc_send c)(t := ?x)) (mc_recv c)"
    by (rule msgq_inv_send [OF k(1)]) (simp_all add: send_load.hyps)
  moreover have "msgq_wait_ok fn p tid (mc_sys c) (mc_queue c) ((mc_send c)(t := ?x)) (mc_recv c) (mc_timers c)"
    by (rule msgq_wait_send [OF k(2)]) (use k(1) in \<open>auto simp: send_load.hyps msgq_inv_def msgq_shown_ok_def Let_def\<close>)
  ultimately show ?case by (simp add: msgq_ok_def)
next
  case (send_lock c t msg fid sys filt)
  note k = msgq_okD [OF send_lock.prems]
  from msgq_inv_lock [OF k(1) send_lock.hyps] msgq_wait_lock [OF k(2,1) send_lock.hyps assms(3,4)] show ?case by (simp add: msgq_ok_def)
next
  case (send_match c t msg filt)
  note k = msgq_okD [OF send_match.prems]
  let ?x = "if msgq_send_match fn (mc_sys c) filt msg then SendMatched msg filt else SendUnref filt"
  have "msgq_inv fn T (mc_sys c) (mc_queue c) ((mc_send c)(t := ?x)) (mc_recv c)"
    by (rule msgq_inv_send [OF k(1)]) (simp_all add: send_match.hyps)
  then show ?case using msgq_wait_match [OF k(2,1) send_match.hyps] by (simp add: msgq_ok_def)
next
  case (send_take c t msg filt sys event)
  note k = msgq_okD [OF send_take.prems]
  have "msgq_inv fn T sys (mc_queue c) ((mc_send c)(t := if event \<noteq> 0 then SendSignal filt event else SendUnref filt)) (mc_recv c)"
    by (rule msgq_inv_send [OF msgq_inv_take [OF k(1) send_take.hyps(2)]]) (simp_all add: send_take.hyps(1))
  then show ?case using msgq_wait_take [OF k(2,1) send_take.hyps] by (simp add: msgq_ok_def)
next
  case (send_signal c t filt event sys state freed)
  then show ?case by (intro msgq_ok_send_signal)
next
  case (send_unref c t filt sys freed)
  then show ?case by (intro msgq_ok_send_unref)
next
  case (recv_first c r sys msg hint)
  then show ?case by (intro msgq_ok_recv_first)
next
  case (recv_expired c r)
  then show ?case by (intro msgq_ok_recv_plain) simp_all
next
  case (recv_publish c r filt copy event sys r')
  then show ?case by (intro msgq_ok_recv_publish)
next
  case (recv_search c r sys msg hint timers)
  show ?case by (rule msgq_ok_recv_search [OF recv_search.prems recv_search.hyps(1,2)]) (auto simp: recv_search.hyps(3))
next
  case (timer_signal event c t sys state freed)
  note k = msgq_okD [OF timer_signal.prems]
  note f = signal_fields [OF timer_signal.hyps(2)]
  have "event_task_at (fst (ms_dir (msgq_as t (mc_sys c)))) (ev_task_id (ms_events (msgq_as t (mc_sys c)) event)) p"
    using k(2) timer_signal.hyps(1) by (simp add: msgq_wait_defs)
  from msgq_signal_effect(1) [OF timer_signal.hyps(2) this] show ?case
    using f by (intro msgq_ok_timer [OF timer_signal.prems]) (simp_all add: signal_effect_as msgq_rest_def)
next
  case (timer_unref event c sys freed)
  note f = unref_event_fields [OF timer_unref.hyps(2)]
  show ?case by (rule msgq_ok_timer [OF timer_unref.prems msgq_unref_effect [OF timer_unref.hyps(2)] f])
next
  case (recv_resume c r expected sys msg hint wait_left)
  show ?case by (rule msgq_ok_recv_resume [OF recv_resume.prems recv_resume.hyps(1,4)])
next
  case (recv_take c r found sys event)
  then show ?case by (intro msgq_ok_recv_take)
next
  case (recv_release c r event found sys signaled freed)
  then show ?case by (intro msgq_ok_recv_release)
next
  case (recv_reset c r found)
  then show ?case by (intro msgq_ok_recv_reset)
next
  case (recv_unref c r found sys freed)
  then show ?case by (intro msgq_ok_recv_unref)
next
  case (recv_again c r)
  then show ?case by (intro msgq_ok_recv_plain) simp_all
next
  case (recv_timeout c r)
  then show ?case by (intro msgq_ok_recv_plain) simp_all
next
  case (recv_finish c r msg sys)
  then show ?case by (intro msgq_ok_recv_finish)
qed

lemma msgq_ok_reach:
  assumes "(msgq_step fn ops_of T p)\<^sup>*\<^sup>* c c'" and "msgq_ok fn T p tid c" and "finite T" and "card T < 4094"
  shows "msgq_ok fn T p tid c'"
  using assms by (induction rule: rtranclp_induct) (auto intro: msgq_ok_step)

text \<open>A queue that was just created, with a directory of its own and nobody inside.\<close>

definition msgq_start :: "prs_msgq \<Rightarrow> prs_pd \<Rightarrow> msgq_system \<Rightarrow> msgq_config" where
  "msgq_start msgq pd sys =
     \<lparr>mc_sys = sys\<lparr>ms_msgq := msgq, ms_pd := pd\<rparr>, mc_queue = [], mc_send = (\<lambda>_. SendIdle), mc_recv = RecvIdle, mc_timers = {}\<rparr>"

lemma msgq_ok_start:
  assumes "prs_msgq_create memory queue_memory (Some pd) gpd = (Some (msgq, pd), freed)" and "pd_wf pd" and "pd_live pd = Map.empty"
    and "event_task_at (fst (ms_dir sys)) (task_id (tw_tasks (snd (ms_dir sys)) p)) p"
  shows "msgq_ok fn T p (task_id (tw_tasks (snd (ms_dir sys)) p)) (msgq_start msgq pd sys)"
proof -
  obtain a where q: "prs_mpsciq_create msg_node_offset (Some a) = Some (mq_queue msgq)"
    using assms(1) by (auto simp: prs_msgq_create_def prs_mpsciq_create_def split: option.splits)
  have "mq_queue msgq = \<lparr>iq_addr = a, iq_head = 0, iq_reverse_tail = 0, iq_reverse_head = 0, iq_node_offset = msg_node_offset\<rparr>"
    using q by (simp add: prs_mpsciq_create_def)
  then have "msgq_holds (sys\<lparr>ms_msgq := msgq, ms_pd := pd\<rparr>) []"
    using iq_rep_create [OF q] by (simp add: msgq_holds_def msgq_iq_def)
  then have "msgq_inv fn T (sys\<lparr>ms_msgq := msgq, ms_pd := pd\<rparr>) [] (\<lambda>_. SendIdle) RecvIdle"
    using assms(2,3) by (simp add: msgq_inv_def msgq_dir_ok_def msgq_slots_ok_def msgq_held_def recv_holds_def pc_count_def)
  then show ?thesis using assms(4) by (simp add: msgq_ok_def msgq_start_def msgq_wait_defs)
qed

section \<open>Properties\<close>

text \<open>C25: From the creation of a message queue on, however fewer than 4094 senders, the receiver and the timer interleave, step by step: the queue
  holds the messages that were sent and not received, in the order of the pushes; the filter that a sender has locked is
  registered, so it is not freed under the sender; and no message is lost: while the receiver is blocked in the scheduler and no sender
  is inside prs_msgq_send, no message of the queue passes its filter.\<close>

theorem msgq_no_lost_message:
  assumes "prs_msgq_create memory queue_memory (Some pd) gpd = (Some (msgq, pd), freed)" and "pd_wf pd" and "pd_live pd = Map.empty"
    and "event_task_at (fst (ms_dir sys)) (task_id (tw_tasks (snd (ms_dir sys)) p)) p" and "finite T" and "card T < 4094"
    and "(msgq_step fn ops_of T p)\<^sup>*\<^sup>* (msgq_start msgq pd sys) c"
  shows "msgq_holds (mc_sys c) (mc_queue c)
    \<and> (\<forall>t f. send_holds f (mc_send c t) \<longrightarrow> pd_pointer (ms_pd (mc_sys c)) (mf_id (ms_filters (mc_sys c) f)) = Some f)
    \<and> (\<forall>r. mc_recv c = RecvBlocked r \<and> msgq_blocked (mc_sys c) p \<and> (\<forall>t. mc_send c t = SendIdle) \<longrightarrow>
         (\<forall>m \<in> set (mc_queue c). \<not> msgq_match fn (ms_mem (mc_sys c)) (mr_function r) (mr_userdata r) m))"
proof -
  note k = msgq_okD [OF msgq_ok_reach [OF assms(7) msgq_ok_start [OF assms(1-4)] assms(5,6)]]
  have d: "msgq_dir_ok (ms_pd (mc_sys c)) (\<lambda>f. mf_id (ms_filters (mc_sys c) f)) (msgq_held (mc_send c) (mc_recv c))"
    and h: "msgq_holds (mc_sys c) (mc_queue c)" using k(1) by (simp_all add: msgq_inv_def)
  have "pd_pointer (ms_pd (mc_sys c)) (mf_id (ms_filters (mc_sys c) f)) = Some f" if "send_holds f (mc_send c t)" for t f
    using msgq_dir_okD(2) [OF d msgq_held_pos [where send = "mc_send c" and t = t, OF that]] by (auto simp: pd_pointer_def)
  moreover have "\<not> recv_match fn (mc_sys c) r m"
    if r: "mc_recv c = RecvBlocked r" "msgq_blocked (mc_sys c) p" "\<forall>t. mc_send c t = SendIdle" "m \<in> set (mc_queue c)" for r m
  proof
    assume "recv_match fn (mc_sys c) r m"
    then have "mf_event (ms_filters (mc_sys c) (mr_filter r)) = 0" using k(2) r by (auto simp: msgq_wait_ok_def msgq_cover_ok_def)
    then show False using k(2) r by (auto simp: msgq_wait_ok_def msgq_wake_ok_def)
  qed
  ultimately show ?thesis using h unfolding recv_match_def by blast
qed

text \<open>A queue, a task and a filter function that refuses every message.\<close>

definition msgq_example :: prs_msgq where
  "msgq_example = \<lparr>mq_addr = 64, mq_queue = \<lparr>iq_addr = 96, iq_head = 0, iq_reverse_tail = 0, iq_reverse_head = 0, iq_node_offset = 0\<rparr>, mq_filter_id = 0\<rparr>"

definition msgq_sys_example :: "prs_god \<Rightarrow> msgq_system" where
  "msgq_sys_example god = \<lparr>ms_msgq = msgq_example, ms_nodes = \<lparr>iqn_next = \<lambda>_. 0, iqn_prev = \<lambda>_. 0\<rparr>, ms_pd = pd_example,
     ms_filters = (\<lambda>_. \<lparr>mf_id = 0, mf_event = 0, mf_userdata = 0, mf_userdata_size = 0, mf_function = 0\<rparr>),
     ms_events = (\<lambda>_. event_example), ms_mem = (\<lambda>_. 0), ms_dir = (god, event_world_example)\<rparr>"

definition msgq_recv_example :: msgq_recv where
  "msgq_recv_example = \<lparr>mr_userdata = 0, mr_userdata_size = 0, mr_function = 9, mr_use_timeout = False, mr_wait_left = 0, mr_hint = 0,
     mr_filter = 0, mr_event = 0, mr_timer_entry = None\<rparr>"

lemma msgq_example_create: "prs_msgq_create (Some 64) (Some 96) (Some pd_example) None = (Some (msgq_example, pd_example), [])"
  by (simp add: prs_msgq_create_def prs_mpsciq_create_def msgq_example_def msg_node_offset_def)

lemma msgq_example_at: "\<exists>god. event_task_at god (task_id (tw_tasks event_world_example 77)) 77"
proof -
  obtain god e where "prs_god_alloc_and_lock god_example 77 5 = (god, 1)" "god_wf god"
      "god_live god 1 = Some e" "goe_object e = 77" "god_refs (goe_header e) = 1" by (rule god_example_alloc) auto
  then show ?thesis by (auto simp: event_task_at_def event_world_example_def task_example_def)
qed

lemma prs_pd_alloc_example: "\<exists>j. prs_pd_alloc_and_lock pd_example filt = (pd_alloc_at pd_example filt j, PRS_OK, j)"
proof -
  have "pd_entries pd_example \<noteq> []" "\<forall>e \<in> set (pd_entries pd_example). \<not> pde_taken e"
    by (simp_all add: pd_example_def prs_pd_create_def pde_taken_def pd_refs_def)
  then have "\<not> (\<forall>e \<in> set (pd_entries pd_example). pde_taken e)" by (cases "pd_entries pd_example") auto
  with pd_example_fresh(1,3) show ?thesis by (cases rule: prs_pd_alloc_cases [where p = filt]) auto
qed

lemma msgq_publish_example:
  assumes "ms_pd sys = pd_example"
  shows "\<exists>sys' r'. msgq_recv_publish sys r (Some filt) (Some copy) (Some event) = Some (sys', r')"
proof -
  obtain j where "prs_pd_alloc_and_lock pd_example filt = (pd_alloc_at pd_example filt j, PRS_OK, j)" using prs_pd_alloc_example by blast
  then show ?thesis
    using assms by (cases "prs_task_block (tw_tasks (snd (ms_dir sys)) (tw_current (snd (ms_dir sys))))")
      (simp add: msgq_recv_publish_def prs_msgq_filter_create_def prs_msgq_alloc_event_def prs_event_create_def Let_def)
qed

text \<open>From any state in which nobody is inside, and whose directory has an entry left, the receiver gets into the scheduler.\<close>

lemma msgq_example_blocks:
  fixes T :: "ptr set" and ops_of :: "task_world god_ops"
  defines "fn \<equiv> (\<lambda>_ _ _ _. False) :: filter_fn"
  assumes "msgq_ok fn T 77 tid c" and "mc_recv c = RecvIdle" and "mc_send c = (\<lambda>_. SendIdle)" and "ms_pd (mc_sys c) = pd_example"
  shows "\<exists>c' r. (msgq_step fn ops_of T 77)\<^sup>*\<^sup>* c c' \<and> mc_queue c' = mc_queue c \<and> mc_send c' = mc_send c \<and> mc_recv c' = RecvBlocked r \<and> msgq_blocked (mc_sys c') 77"
proof -
  let ?r = msgq_recv_example
  have none: "msgq_match fn mem (mr_function ?r) (mr_userdata ?r) = (\<lambda>_. False)" for mem
    by (intro ext) (simp add: msgq_match_def fn_def msgq_recv_example_def)
  have fm: "first_match (\<lambda>_. False) xs = 0" for xs by (induction xs) simp_all
  have "msgq_holds (mc_sys c) (mc_queue c)" using msgq_okD(1) [OF assms(2)] by (simp add: msgq_inv_def)
  from prs_msgq_search_result [OF this, of fn "mr_function ?r" "mr_userdata ?r" 0] obtain sys1 h1 where
    1: "prs_msgq_search fn (mc_sys c) (mr_userdata ?r) (mr_function ?r) 0 = Some (sys1, 0, h1)" "msgq_holds sys1 (mc_queue c)" "msgq_same (mc_sys c) sys1"
      "hint_ok (\<lambda>_. False) (mc_queue c) h1"
    unfolding none fm by (auto simp: hint_ok_def)
  define c1 where "c1 = c\<lparr>mc_sys := sys1, mc_recv := RecvReady (?r\<lparr>mr_hint := h1\<rparr>)\<rparr>"
  have "msgq_filter_reads fn ?r" by (simp add: msgq_filter_reads_def fn_def)
  from recv_first [where T = T and p = 77 and ops_of = ops_of, OF assms(3) this 1(1)] have s1: "msgq_step fn ops_of T 77 c c1" by (simp add: c1_def)
  have pd1: "ms_pd sys1 = pd_example" using msgq_same_fields(1) [OF 1(3)] assms(5) by simp
  then obtain sys2 r2 where 2: "msgq_recv_publish (msgq_as 77 sys1) (?r\<lparr>mr_hint := h1\<rparr>) (Some 600) (Some 800) (Some 900) = Some (sys2, r2)"
    using msgq_publish_example [of "msgq_as 77 sys1"] by fastforce
  have wf: "pd_wf (ms_pd (msgq_as 77 sys1))" "pd_ids_left (ms_pd (msgq_as 77 sys1))" using pd1 pd_example_fresh by simp_all
  from 2 wf obtain fid t where pub: "msgq_published (msgq_as 77 sys1) (?r\<lparr>mr_hint := h1\<rparr>) 600 800 900 fid t sys2 r2" by (rule recv_publish_fields) simp
  note f = msgq_publishedD [OF pub]
  define c2 where "c2 = c1\<lparr>mc_sys := sys2, mc_recv := RecvPublished r2\<rparr>"
  have "msgq_fresh c1 (?r\<lparr>mr_hint := h1\<rparr>) 600 800 900"
    using assms(4) by (simp add: msgq_fresh_def c1_def msgq_held_def recv_holds_def pc_count_def msgq_recv_example_def)
  from recv_publish [where fn = fn and ops_of = ops_of and T = T and p = 77, OF _ _ this _] have s2: "msgq_step fn ops_of T 77 c1 c2"
    using 2 wf(2) by (simp add: c1_def c2_def) (simp add: msgq_recv_example_def)
  have blocked: "msgq_blocked sys2 77"
    using f(10,11) by (auto simp: msgq_blocked_def prs_task_block_def prs_task_get_state_def GET_SET_TOKEN Let_def)
  have r2: "mr_function r2 = mr_function ?r" "mr_userdata r2 = mr_userdata ?r" "mr_hint r2 = h1" by (simp_all add: f(4))
  have "msgq_holds sys2 (mc_queue c)" using 1(2) f(6) msgq_holds_cong [of sys2 sys1 "mc_queue c"] by simp
  from prs_msgq_search_result [OF this, of fn "mr_function ?r" "mr_userdata ?r" h1] obtain sys3 h3 where
    3: "prs_msgq_search fn sys2 (mr_userdata ?r) (mr_function ?r) h1 = Some (sys3, 0, h3)" "msgq_same sys2 sys3"
    using 1(4) unfolding none fm by auto
  define c3 where "c3 = c2\<lparr>mc_sys := sys3, mc_recv := RecvBlocked (r2\<lparr>mr_hint := h3\<rparr>)\<rparr>"
  have "\<not> mr_use_timeout r2" by (simp add: f(4) msgq_recv_example_def)
  then have s3: "msgq_step fn ops_of T 77 c2 c3"
    using recv_search [where fn = fn and ops_of = ops_of and T = T and p = 77 and c = c2 and r = r2 and sys = sys3 and msg = 0 and hint = h3] 3(1)
    by (simp add: c2_def c3_def r2)
  have "msgq_blocked sys3 77" using blocked msgq_same_fields(5) [OF 3(2)] by (simp add: msgq_blocked_def)
  then show ?thesis
    using s1 s2 s3 by (intro exI [of _ c3] exI [of _ "r2\<lparr>mr_hint := h3\<rparr>"]) (auto simp: c1_def c2_def c3_def intro: rtranclp_trans)
qed

theorem msgq_no_lost_message_witness:
  "\<exists>god c r. (msgq_step (\<lambda>_ _ _ _. False) (\<lambda>_. \<lparr>op_destroy = None, op_free = None, op_print = None\<rparr>) {1} 77)\<^sup>*\<^sup>*
       (msgq_start msgq_example pd_example (msgq_sys_example god)) c
     \<and> mc_queue c = [700] \<and> mc_recv c = RecvBlocked r \<and> msgq_blocked (mc_sys c) 77 \<and> (\<forall>t. mc_send c t = SendIdle)
     \<and> \<not> msgq_match (\<lambda>_ _ _ _. False) (ms_mem (mc_sys c)) (mr_function r) (mr_userdata r) 700"
proof -
  let ?fn = "(\<lambda>_ _ _ _. False) :: filter_fn" and ?ops = "(\<lambda>_. \<lparr>op_destroy = None, op_free = None, op_print = None\<rparr>) :: task_world god_ops"
  let ?step = "msgq_step ?fn ?ops {1} 77" and ?r = msgq_recv_example
  obtain god where at: "event_task_at god (task_id (tw_tasks event_world_example 77)) 77" using msgq_example_at by blast
  define c0 where "c0 = msgq_start msgq_example pd_example (msgq_sys_example god)"
  define c1 where "c1 = c0\<lparr>mc_sys := msgq_send_push (mc_sys c0) 700, mc_queue := [700], mc_send := (mc_send c0)(1 := SendPushed 700)\<rparr>"
  define c2 where "c2 = c1\<lparr>mc_send := (mc_send c1)(1 := SendLoaded 700 0)\<rparr>"
  define c3 where "c3 = c2\<lparr>mc_send := (mc_send c2)(1 := SendIdle)\<rparr>"
  have dir: "event_task_at (fst (ms_dir (msgq_sys_example god))) (task_id (tw_tasks (snd (ms_dir (msgq_sys_example god))) 77)) 77"
    using at by (simp add: msgq_sys_example_def)
  have f0: "mc_sys c0 = msgq_sys_example god" "mc_queue c0 = []" "mc_send c0 = (\<lambda>_. SendIdle)" "mc_recv c0 = RecvIdle" "mc_timers c0 = {}"
    by (simp_all add: c0_def msgq_start_def msgq_sys_example_def)
  have f1: "ms_pd (mc_sys c1) = pd_example" "mq_filter_id (ms_msgq (mc_sys c1)) = 0" "ms_dir (mc_sys c1) = (god, event_world_example)"
    by (simp_all add: c1_def f0 send_push_fields) (simp_all add: msgq_sys_example_def msgq_example_def)
  have "iq_unlinked (ms_nodes (mc_sys c0)) 700" by (simp add: f0 msgq_sys_example_def iq_unlinked_def)
  then have s1: "?step c0 c1" using send_push [of 1 "{1}" c0 700 ?fn ?ops 77] by (simp add: c1_def f0)
  have s2: "?step c1 c2" using send_load [of c1 1 700 ?fn ?ops "{1}" 77] by (simp add: c2_def f1) (simp add: c1_def f0)
  have dead: "prs_pd_lock pd_example 0 = (pd_example, 0)" by (rule pd_lock_dead(1)) (simp_all add: pd_example_fresh)
  have "msgq_send_lock (mc_sys c2) 0 = (mc_sys c2, 0)"
    using dead f1(1) by (simp add: msgq_send_lock_def c2_def PRS_PD_ID_INVALID_def)
  from send_lock [where T = "{1}" and p = 77 and fn = ?fn and ops_of = ?ops and t = 1 and msg = 700, OF _ this] have s3: "?step c2 c3"
    by (simp add: c3_def) (simp add: c2_def)
  have r3: "?step\<^sup>*\<^sup>* c0 c3" using s1 s2 s3 by (meson converse_rtranclp_into_rtranclp r_into_rtranclp)
  have c3: "mc_sys c3 = mc_sys c1" "mc_queue c3 = [700]" "mc_send c3 = (\<lambda>_. SendIdle)" "mc_recv c3 = RecvIdle"
    by (simp_all add: c3_def c2_def c1_def f0 fun_eq_iff)
  have "msgq_ok ?fn {1} 77 (task_id (tw_tasks (snd (ms_dir (msgq_sys_example god))) 77)) c0"
    unfolding c0_def by (rule msgq_ok_start [OF msgq_example_create pd_example_fresh(1,2) dir])
  then have ok: "msgq_ok ?fn {1} 77 (task_id (tw_tasks (snd (ms_dir (msgq_sys_example god))) 77)) c3"
    by (rule msgq_ok_reach [OF r3]) simp_all
  obtain c6 r6 where c6: "?step\<^sup>*\<^sup>* c3 c6" "mc_queue c6 = [700]" "mc_send c6 = (\<lambda>_. SendIdle)" "mc_recv c6 = RecvBlocked r6" "msgq_blocked (mc_sys c6) 77"
    using msgq_example_blocks [OF ok c3(4,3), of ?ops] f1(1) c3 by auto
  have "?step\<^sup>*\<^sup>* c0 c6" using r3 c6(1) by (rule rtranclp_trans)
  note m = msgq_no_lost_message [OF msgq_example_create pd_example_fresh(1,2) dir _ _ this [unfolded c0_def]]
  show ?thesis
    by (rule exI [of _ god], rule exI [of _ c6], rule exI [of _ r6]) (use m c6 r3 \<open>?step\<^sup>*\<^sup>* c0 c6\<close> in \<open>simp add: c0_def\<close>)
qed

text \<open>A receive operation that finds its message at once, or has no time.\<close>

lemma msgq_recv_first_or_null:
  fixes fn :: filter_fn and func userdata :: ptr
  assumes "msgq_holds sys xs"
  defines "match \<equiv> msgq_match fn (ms_mem sys) func userdata"
  shows "case find match xs of
      Some m \<Rightarrow> \<exists>sys'. prs_msgq_recv_internal fn ops_of sys timer clock memory userdata_memory event_memory userdata userdata_size func timeout use_timeout
          = (sys', timer, MsgqReturn m, [])
        \<and> msgq_holds sys' (remove1 m xs) \<and> iq_unlinked (ms_nodes sys') m \<and> msgq_same sys sys'
    | None \<Rightarrow> use_timeout \<and> timeout = 0 \<longrightarrow>
        (\<exists>sys'. prs_msgq_recv_internal fn ops_of sys timer clock memory userdata_memory event_memory userdata userdata_size func timeout use_timeout
          = (sys', timer, MsgqReturn 0, []) \<and> msgq_holds sys' xs \<and> msgq_same sys sys')"
proof -
  have "hint_ok match xs 0" by (simp add: hint_ok_def)
  then obtain sys1 hint where s: "prs_msgq_search fn sys userdata func 0 = Some (sys1, first_match match xs, hint)" "msgq_holds sys1 xs" "msgq_same sys sys1"
    using prs_msgq_search_result [OF assms(1), of fn func userdata 0] unfolding match_def by blast
  have z: "0 \<notin> set xs" using iq_rep_nodes [of "msgq_iq sys" xs] assms(1) by (simp add: msgq_holds_def)
  show ?thesis
  proof (cases "find match xs")
    case None
    then have "first_match match xs = 0" by (simp add: first_match_def)
    then show ?thesis using None s by (auto simp: prs_msgq_recv_internal_def msgq_recv_first_def msgq_recv_round_def)
  next
    case (Some m)
    then have m: "first_match match xs = m" by (simp add: first_match_def)
    have "m \<in> set xs" using Some by (auto simp: find_Some_iff)
    then have nz: "m \<noteq> 0" using z by auto
    from first_match_split [OF m nz] obtain as bs where ab: "xs = as @ m # bs" by metis
    have "m \<notin> set as" using iq_rep_nodes [of "msgq_iq sys" xs] assms(1) ab by (auto simp: msgq_holds_def)
    then have rm: "remove1 m xs = as @ bs" by (simp add: ab remove1_append)
    obtain sys2 where f: "msgq_finish sys1 m = (sys2, MsgqReturn m)" "msgq_holds sys2 (as @ bs)" "msgq_same sys1 sys2" "iq_unlinked (ms_nodes sys2) m"
      using msgq_finish_result [of sys1 as m bs] s(2) ab by auto
    have "msgq_same sys sys2" by (rule msgq_same_trans [OF s(3) f(3)])
    then show ?thesis using Some s(1) m nz f rm by (auto simp: prs_msgq_recv_internal_def msgq_recv_first_def)
  qed
qed

text \<open>With a message in the queue that passes the filter, a receive operation returns at once, without a filter, an event or a timer
  entry: it takes out the oldest such message and leaves the others in their order; with none and a timeout of zero it returns null and leaves
  the queue as it is.\<close>

theorem msgq_recv_takes_first:
  fixes fn :: filter_fn and func userdata :: ptr
  assumes "msgq_holds sys xs"
  defines "match \<equiv> msgq_match fn (ms_mem sys) func userdata"
  shows "case find match xs of
      Some m \<Rightarrow> \<exists>sys'. prs_msgq_recv_internal fn ops_of sys timer clock memory userdata_memory event_memory userdata userdata_size func timeout use_timeout
          = (sys', timer, MsgqReturn m, [])
        \<and> msgq_holds sys' (remove1 m xs) \<and> iq_unlinked (ms_nodes sys') m \<and> msgq_same sys sys'
    | None \<Rightarrow> use_timeout \<and> timeout = 0 \<longrightarrow>
        (\<exists>sys'. prs_msgq_recv_internal fn ops_of sys timer clock memory userdata_memory event_memory userdata userdata_size func timeout use_timeout
          = (sys', timer, MsgqReturn 0, []) \<and> msgq_holds sys' xs \<and> msgq_same sys sys')"
  unfolding assms(2) by (rule msgq_recv_first_or_null [OF assms(1)])

theorem msgq_recv_takes_first_witness:
  "\<forall>ops_of god timer clock. \<exists>sys'. prs_msgq_recv (\<lambda>_ _ _ _. False) ops_of (msgq_send_push (msgq_send_push (msgq_sys_example god) 700) 800) timer clock None None None
      = (sys', timer, MsgqReturn 700, []) \<and> msgq_holds sys' [800]"
proof (intro allI)
  fix ops_of :: "task_world god_ops" and god timer clock
  let ?sys = "msgq_send_push (msgq_send_push (msgq_sys_example god) 700) 800"
  have "iq_rep (msgq_iq (msgq_sys_example god)) []" by (simp add: msgq_sys_example_def msgq_example_def msgq_iq_def iq_rep_def revq_def)
  from iq_fold_push [OF this, of "[700, 800]"] have "iq_rep (prs_mpsciq_push (prs_mpsciq_push (msgq_iq (msgq_sys_example god)) 700) 800) [700, 800]"
    by (simp add: iq_unlinked_def msgq_iq_def msgq_sys_example_def)
  then have "msgq_holds ?sys [700, 800]"
    by (simp add: msgq_holds_def msgq_send_push_def msg_node_offset_def)
      (simp add: msgq_set_iq_def msgq_iq_def prs_mpsciq_push_def prs_mpsciq_push_body_def msgq_sys_example_def msgq_example_def iq_unlinked_def)
  from msgq_recv_takes_first [OF this, where fn = "\<lambda>_ _ _ _. False" and func = 0 and userdata = 0 and ops_of = ops_of and timer = timer
      and clock = clock and memory = None and userdata_memory = None and event_memory = None and userdata_size = 0 and timeout = 0 and use_timeout = False]
  show "\<exists>sys'. prs_msgq_recv (\<lambda>_ _ _ _. False) ops_of ?sys timer clock None None None = (sys', timer, MsgqReturn 700, []) \<and> msgq_holds sys' [800]"
    by (auto simp: prs_msgq_recv_def msgq_match_def)
qed

text \<open>Where the event of a receive operation goes when the second search finds a message and no sender has reached it.\<close>

lemma msgq_free_event_count:
  assumes "event_task_at (fst (ms_dir sys)) (ev_task_id (ms_events sys a)) p" and "mf_event (ms_filters sys filt) = a" and "a \<noteq> 0"
    and "task_token (tw_tasks (snd (ms_dir sys)) p) = ev_token (ms_events sys a)" and "ev_refcnt (ms_events sys a) = 3"
  shows "\<exists>sys'. prs_msgq_free_event ops_of sys filt a = (sys', False, []) \<and> ev_refcnt (ms_events sys' a) = 1 \<and> mf_event (ms_filters sys' filt) = 0
    \<and> mf_function (ms_filters sys' filt) = mf_function (ms_filters sys filt) \<and> msgq_iq sys' = msgq_iq sys"
proof -
  obtain god w where dir: "ms_dir sys = (god, w)" by fastforce
  let ?e = "ms_events sys a"
  let ?e2 = "?e\<lparr>ev_refcnt := 2\<rparr>"
  have at: "event_task_at god (ev_task_id ?e) p" "event_task_at god (ev_task_id ?e2) p" using assms(1) dir by simp_all
  have tok: "task_token (tw_tasks w p) = ev_token ?e2" using assms(4) dir by simp
  from event_unblock_fresh [OF tok, of PRS_MSGQ_EVENT_TYPE_FREE] obtain w' where u: "event_unblock w p (ev_token ?e2) PRS_MSGQ_EVENT_TYPE_FREE = (w', True)" by metis
  have fl: "event_flags ?e2 = 0" by (simp add: event_flags_def)
  have e1: "prs_event_unref ops_of (god, w) ?e = ((god, w), ?e2, 0, [])"
    using assms(5) by (simp add: prs_event_unref_def prs_event_unref_internal_def atomic_fetch_sub_def)
  have e2: "prs_event_signal ops_of (god, w) ?e2 PRS_MSGQ_EVENT_TYPE_FREE = ((god, w'), ?e\<lparr>ev_refcnt := 1\<rparr>, 0, [])"
    using event_step [OF at(2), of ops_of w True PRS_MSGQ_EVENT_TYPE_FREE] u fl by (simp add: prs_event_signal_def)
  show ?thesis
    using assms(2,3) dir e1 e2
    by (simp add: prs_msgq_free_event_def msgq_take_event_def msgq_release_event_def msgq_unref_event_def msgq_signal_def msgq_iq_def)
qed

text \<open>A receive operation with a timeout that finds its message in the second search, after a sender has pushed it and before the
  sender looks at the filter, returns the message and never frees its event: the count includes the timer, which
  is never asked, and nothing refers to the event any more.\<close>

theorem msgq_timeout_leaks_event:
  assumes "msgq_holds sys []" and "pd_wf (ms_pd sys)" and "pd_ids_left (ms_pd sys)" and "filt \<noteq> 0" and "event \<noteq> 0"
    and "event_task_at (fst (ms_dir sys)) (task_id (tw_tasks (snd (ms_dir sys)) p)) p" and "tw_current (snd (ms_dir sys)) = p"
    and "mr_function r = 0" and "mr_hint r = 0" and "mr_use_timeout r" and "mr_wait_left r > 0" and "iq_unlinked (ms_nodes sys) msg"
    and "msgq_recv_publish sys r (Some filt) (Some copy) (Some event) = Some (sys1, r1)"
  shows "\<exists>sys' freed. msgq_recv_wait fn ops_of (msgq_send_push sys1 msg) timer clock r1 = (sys', timer, MsgqReturn msg, freed)
    \<and> set freed \<subseteq> {filt} \<and> ev_refcnt (ms_events sys' event) = 1 \<and> mf_event (ms_filters sys' filt) = 0"
proof -
  from assms(13,2-4) obtain fid t where "msgq_published sys r filt copy event fid t sys1 r1" by (rule recv_publish_fields)
  note f = msgq_publishedD [OF this]
  let ?sys = "msgq_send_push sys1 msg"
  have q1: "msgq_iq sys1 = msgq_iq sys" by (rule f(6))
  then have nodes: "ms_nodes sys1 = ms_nodes sys" by (simp add: msgq_iq_def)
  have "msgq_holds sys1 []" using assms(1) msgq_holds_cong [OF q1] by simp
  from msgq_holds_push [OF this, of msg] have h: "msgq_holds ?sys [msg]" using assms(12) nodes by simp
  have "msg \<noteq> 0" using assms(12) by (simp add: iq_unlinked_def)
  have "hint_ok (msgq_match fn (ms_mem ?sys) (mr_function r1) (mr_userdata r1)) [msg] (mr_hint r1)" using assms(9) by (simp add: hint_ok_def f(4))
  from prs_msgq_search_result [OF h this] obtain sys2 hint where
    s: "prs_msgq_search fn ?sys (mr_userdata r1) (mr_function r1) (mr_hint r1) = Some (sys2, msg, hint)" "msgq_holds sys2 [msg]" "msgq_same ?sys sys2"
    using assms(8) by (auto simp: msgq_match_def f(4))
  note g = msgq_same_fields [OF s(3)] send_push_fields
  have t: "task_id t = task_id (tw_tasks (snd (ms_dir sys)) p)" using f(10) assms(7) by (auto simp: prs_task_block_def Let_def)
  have "event_task_at (fst (ms_dir sys2)) (ev_task_id (ms_events sys2 event)) p" "mf_event (ms_filters sys2 filt) = event"
    "task_token (tw_tasks (snd (ms_dir sys2)) p) = ev_token (ms_events sys2 event)" "ev_refcnt (ms_events sys2 event) = 3"
    using assms(6,7,10,11) t by (simp_all add: g f(7,9,11,12) msgq_refcnt_def)
  from msgq_free_event_count [OF this(1,2) assms(5) this(3,4)] obtain sys3 where
    e: "prs_msgq_free_event ops_of sys2 filt event = (sys3, False, [])" "ev_refcnt (ms_events sys3 event) = 1" "mf_event (ms_filters sys3 filt) = 0"
      "mf_function (ms_filters sys3 filt) = mf_function (ms_filters sys2 filt)" "msgq_iq sys3 = msgq_iq sys2" by blast
  obtain sys4 freed where u: "prs_msgq_filter_reset sys3 filt = (sys4, freed)" by fastforce
  note v = filter_unref_fields [OF u [unfolded prs_msgq_filter_reset_def]]
  have "mf_function (ms_filters sys3 filt) = 0" using e(4) assms(8) by (simp add: g f(7))
  then have fr: "set freed \<subseteq> {filt}" using u by (auto simp: prs_msgq_filter_reset_def prs_msgq_filter_unref_def Let_def split: prod.splits)
  have "msgq_iq sys4 = msgq_iq sys2" using msgq_restD(1) [OF v(1)] e(5) by simp
  then have "msgq_holds sys4 ([] @ msg # [])" using s(2) msgq_holds_cong [of sys4 sys2 "[msg]"] by simp
  from msgq_finish_result [OF this] obtain sys5 where w: "msgq_finish sys4 msg = (sys5, MsgqReturn msg)" "msgq_same sys4 sys5" by blast
  have "ev_refcnt (ms_events sys5 event) = 1" "mf_event (ms_filters sys5 filt) = 0" using e(2,3) v by (simp_all add: msgq_same_fields [OF w(2)])
  then show ?thesis
    using s(1) \<open>msg \<noteq> 0\<close> e(1) u w(1) fr by (simp add: msgq_recv_wait_def f(4))
qed

theorem msgq_timeout_leaks_event_witness:
  "\<exists>god sys1 r1. msgq_recv_publish (msgq_as 77 (msgq_sys_example god))
       (msgq_recv_example\<lparr>mr_function := 0, mr_use_timeout := True, mr_wait_left := 10\<rparr>) (Some 600) (Some 800) (Some 900) = Some (sys1, r1)
     \<and> (\<forall>timer. \<exists>sys' freed. msgq_recv_wait (\<lambda>_ _ _ _. False) (\<lambda>_. \<lparr>op_destroy = None, op_free = None, op_print = None\<rparr>)
         (msgq_send_push sys1 700) timer 0 r1 = (sys', timer, MsgqReturn 700, freed) \<and> ev_refcnt (ms_events sys' 900) = 1 \<and> set freed \<subseteq> {600})"
proof -
  obtain god where at: "event_task_at god (task_id (tw_tasks event_world_example 77)) 77" using msgq_example_at by blast
  let ?sys = "msgq_as 77 (msgq_sys_example god)" and ?r = "msgq_recv_example\<lparr>mr_function := 0, mr_use_timeout := True, mr_wait_left := 10\<rparr>"
  have pd: "ms_pd ?sys = pd_example" by (simp add: msgq_sys_example_def)
  obtain sys1 r1 where 1: "msgq_recv_publish ?sys ?r (Some 600) (Some 800) (Some 900) = Some (sys1, r1)" using msgq_publish_example [OF pd] by blast
  have "msgq_holds ?sys []"
    by (simp add: msgq_holds_def msgq_sys_example_def msgq_example_def iq_rep_def revq_def msg_node_offset_def msgq_iq_def)
  moreover have "iq_unlinked (ms_nodes ?sys) 700" by (simp add: msgq_sys_example_def iq_unlinked_def)
  moreover have "event_task_at (fst (ms_dir ?sys)) (task_id (tw_tasks (snd (ms_dir ?sys)) 77)) 77" using at by (simp add: msgq_sys_example_def)
  ultimately have "\<exists>sys' freed. msgq_recv_wait (\<lambda>_ _ _ _. False) (\<lambda>_. \<lparr>op_destroy = None, op_free = None, op_print = None\<rparr>) (msgq_send_push sys1 700) timer 0 r1
      = (sys', timer, MsgqReturn 700, freed) \<and> set freed \<subseteq> {600} \<and> ev_refcnt (ms_events sys' 900) = 1 \<and> mf_event (ms_filters sys' 600) = 0" for timer
    using pd pd_example_fresh 1 by (intro msgq_timeout_leaks_event [where p = 77]) (simp_all add: msgq_recv_example_def)
  then show ?thesis using 1 by blast
qed

end
