(* ===== verification/Sched.thy ===== *)
theory Sched
  imports Name Worker Event Timer
begin

unbundle bit_operations_syntax

text \<open>
  The scheduler module of \<^verbatim>\<open>prs/sched.c\<close>: schedulers are objects with a name, an implementation behind a table
  of functions, and a list of workers; tasks are added to them and made ready through them. The implementations
  are a parameter, a function from the address of a table to its functions, which work on a state of their own.
  The lists of workers hold the node and the data of every element, the sequence that the list component
  implements. Calls that enter the scheduler end there.
\<close>

section \<open>Data\<close>

record 's prs_sched_ops =
  so_init :: "ptr \<Rightarrow> ptr \<Rightarrow> 's \<Rightarrow> 's \<times> prs_result"
  so_uninit :: "ptr \<Rightarrow> 's \<Rightarrow> 's \<times> prs_result"
  so_add :: "ptr \<Rightarrow> ptr \<Rightarrow> 's \<Rightarrow> 's \<times> prs_result"
  so_remove :: "ptr \<Rightarrow> ptr \<Rightarrow> 's \<Rightarrow> 's \<times> prs_result"
  so_get_next :: "ptr \<Rightarrow> ptr \<Rightarrow> 's \<Rightarrow> 's \<times> bool \<times> ptr"
  so_ready :: "ptr \<Rightarrow> ptr \<Rightarrow> 's \<Rightarrow> 's \<times> prs_result"

record prs_sched =
  sd_id :: prs_object_id_t
  sd_name :: string
  sd_ops :: ptr
  sd_workers_addr :: ptr
  sd_workers :: "(ptr \<times> ptr) list"

record prs_sched_worker =
  sw_sched :: ptr
  sw_sched_data :: ptr
  sw_worker :: ptr

record prs_sched_create_params =
  scp_name :: string
  scp_userdata :: ptr
  scp_ops :: ptr

text \<open>\<^verbatim>\<open>offsetof\<close> of the name and of the data of a scheduler.\<close>

definition sched_name_offset :: u64 where
  "sched_name_offset = 4"

definition sched_data_offset :: u64 where
  "sched_data_offset = 88"

text \<open>The memory of the module, the state of the implementations, and the pointers freed so far. The record can be extended: the
  operations are defined for every extension, so that modules that call the scheduler add their own memory.\<close>

record 's sched_mod =
  sm_name :: "prs_name option"
  sm_scheds :: "ptr \<Rightarrow> prs_sched"
  sm_sched_workers :: "ptr \<Rightarrow> prs_sched_worker"
  sm_workers :: "ptr \<Rightarrow> prs_worker"
  sm_tasks :: "ptr \<Rightarrow> prs_task"
  sm_impl :: 's
  sm_freed :: "ptr list"

type_synonym ('s, 'x) sched_state = "('s, 'x) sched_mod_scheme god_world"

definition sched_free :: "ptr list \<Rightarrow> ('s, 'x) sched_state \<Rightarrow> ('s, 'x) sched_state" where
  "sched_free ps s = (fst s, (snd s)\<lparr>sm_freed := sm_freed (snd s) @ ps\<rparr>)"

definition sched_set :: "ptr \<Rightarrow> prs_sched \<Rightarrow> ('s, 'x) sched_state \<Rightarrow> ('s, 'x) sched_state" where
  "sched_set p sched s = (fst s, (snd s)\<lparr>sm_scheds := (sm_scheds (snd s))(p := sched)\<rparr>)"

definition sched_set_worker :: "ptr \<Rightarrow> prs_worker \<Rightarrow> ('s, 'x) sched_state \<Rightarrow> ('s, 'x) sched_state" where
  "sched_set_worker p worker s = (fst s, (snd s)\<lparr>sm_workers := (sm_workers (snd s))(p := worker)\<rparr>)"

definition sched_mem :: "('s, 'x) sched_mod_scheme \<Rightarrow> ptr \<Rightarrow> string" where
  "sched_mem w a = sd_name (sm_scheds w (a - sched_name_offset))"

text \<open>A call of the implementation.\<close>

definition sched_call :: "('s \<Rightarrow> 's \<times> prs_result) \<Rightarrow> ('s, 'x) sched_state \<Rightarrow> ('s, 'x) sched_state \<times> prs_result" where
  "sched_call f s = (case f (sm_impl (snd s)) of (x, result) \<Rightarrow> ((fst s, (snd s)\<lparr>sm_impl := x\<rparr>), result))"

section \<open>Life time\<close>

definition prs_sched_object_free :: "ptr \<Rightarrow> ('s, 'x) sched_state \<Rightarrow> ('s, 'x) sched_state" where
  "prs_sched_object_free obj s = sched_free [obj] s"

definition s_prs_sched_object_ops :: "('s, 'x) sched_state prs_object_ops" where
  "s_prs_sched_object_ops = \<lparr>op_destroy = None, op_free = Some prs_sched_object_free, op_print = None\<rparr>"

definition prs_sched_get_next :: "(ptr \<Rightarrow> 's prs_sched_ops) \<Rightarrow> ('s, 'x) sched_state \<Rightarrow> ptr \<Rightarrow> ptr \<Rightarrow> ('s, 'x) sched_state \<times> bool \<times> ptr" where
  "prs_sched_get_next impl s userdata current_task =
     (let sched_worker = sm_sched_workers (snd s) userdata;
          sched = sm_scheds (snd s) (sw_sched sched_worker);
          (x, result, next_task) = so_get_next (impl (sd_ops sched)) userdata current_task (sm_impl (snd s))
      in ((fst s, (snd s)\<lparr>sm_impl := x\<rparr>), result, next_task))"

text \<open>The table of names is created by the first call.\<close>

definition sched_name_init :: "('s, 'x) sched_state \<Rightarrow> ptr option \<Rightarrow> ptr option \<Rightarrow> ('s, 'x) sched_state option" where
  "sched_name_init s name_memory entries_memory =
     (case sm_name (snd s) of
        Some _ \<Rightarrow> Some s
      | None \<Rightarrow>
          (case prs_name_create \<lparr>np_max_entries = PRS_MAX_OBJECTS * 4, np_string_offset = sched_name_offset\<rparr> name_memory entries_memory of
             None \<Rightarrow> None
           | Some name \<Rightarrow> Some (fst s, (snd s)\<lparr>sm_name := Some name\<rparr>)))"

definition sched_name_alloc :: "('s, 'x) sched_mod_scheme god_ops \<Rightarrow> ('s, 'x) sched_state \<Rightarrow> prs_object_id_t \<Rightarrow> ptr option \<Rightarrow> (('s, 'x) sched_state \<times> prs_result) option" where
  "sched_name_alloc ops_of s oid memory =
     (case sm_name (snd s) of
        None \<Rightarrow> None
      | Some name \<Rightarrow>
          (case prs_name_alloc ops_of (sched_mem (snd s)) name s oid memory of
             None \<Rightarrow> None
           | Some (name, s, result) \<Rightarrow> Some ((fst s, (snd s)\<lparr>sm_name := Some name\<rparr>), result)))"

definition sched_name_free :: "('s, 'x) sched_mod_scheme god_ops \<Rightarrow> ('s, 'x) sched_state \<Rightarrow> prs_object_id_t \<Rightarrow> ('s, 'x) sched_state" where
  "sched_name_free ops_of s oid =
     (case sm_name (snd s) of
        None \<Rightarrow> s
      | Some name \<Rightarrow>
          (case prs_name_free ops_of (sched_mem (snd s)) name s oid of
             (name, s, _) \<Rightarrow> (fst s, (snd s)\<lparr>sm_name := Some name\<rparr>)))"

text \<open>\<^verbatim>\<open>prs_dllist_destroy\<close> on the workers.\<close>

definition sched_workers_destroy :: "ptr \<Rightarrow> ('s, 'x) sched_state \<Rightarrow> ('s, 'x) sched_state" where
  "sched_workers_destroy sched s =
     sched_free (map fst (sd_workers (sm_scheds (snd s) sched)) @ [sd_workers_addr (sm_scheds (snd s) sched)]) s"

text \<open>The cleanup of \<^verbatim>\<open>prs_sched_create\<close>.\<close>

definition sched_create_cleanup :: "('s, 'x) sched_mod_scheme god_ops \<Rightarrow> ('s, 'x) sched_state \<Rightarrow> ptr \<Rightarrow> ('s, 'x) sched_state" where
  "sched_create_cleanup ops_of s sched =
     (let oid = sd_id (sm_scheds (snd s) sched);
          s = (if oid \<noteq> PRS_OBJECT_ID_INVALID then prs_god_unlock ops_of (sched_name_free ops_of s oid) oid else s);
          s = (if sd_workers_addr (sm_scheds (snd s) sched) \<noteq> 0 then sched_workers_destroy sched s else s)
      in sched_free [sched] s)"

text \<open>\<open>ops\<close> is the address of the module's table of object operations. The name is at most as long as the array for it.\<close>

definition prs_sched_create ::
  "('s, 'x) sched_mod_scheme god_ops \<Rightarrow> (ptr \<Rightarrow> 's prs_sched_ops) \<Rightarrow> ptr \<Rightarrow> ('s, 'x) sched_state \<Rightarrow> prs_sched_create_params
    \<Rightarrow> ptr option \<Rightarrow> ptr option \<Rightarrow> ptr option \<Rightarrow> ptr option \<Rightarrow> ptr option \<Rightarrow> (('s, 'x) sched_state \<times> prs_result \<times> prs_object_id_t) option" where
  "prs_sched_create ops_of impl ops s params name_memory entries_memory memory list_memory node_memory =
     (case sched_name_init s name_memory entries_memory of
        None \<Rightarrow> None
      | Some s \<Rightarrow>
          (case memory of
             None \<Rightarrow> Some (s, PRS_OUT_OF_MEMORY, PRS_OBJECT_ID_INVALID)
           | Some sched \<Rightarrow>
               (let d = \<lparr>sd_id = PRS_OBJECT_ID_INVALID, sd_name = '''', sd_ops = 0, sd_workers_addr = 0, sd_workers = []\<rparr>
                in case list_memory of
                     None \<Rightarrow> Some (sched_create_cleanup ops_of (sched_set sched d s) sched, PRS_OUT_OF_MEMORY, PRS_OBJECT_ID_INVALID)
                   | Some workers \<Rightarrow>
                       (let d = d\<lparr>sd_workers_addr := workers, sd_name := scp_name params, sd_ops := scp_ops params\<rparr>;
                            (god, oid) = prs_god_alloc_and_lock (fst s) sched ops;
                            s = sched_set sched (d\<lparr>sd_id := oid\<rparr>) (god, snd s)
                        in if oid = PRS_OBJECT_ID_INVALID
                           then Some (sched_create_cleanup ops_of s sched, PRS_OUT_OF_MEMORY, PRS_OBJECT_ID_INVALID)
                           else
                             (case sched_name_alloc ops_of s oid node_memory of
                                None \<Rightarrow> None
                              | Some (s, result) \<Rightarrow>
                                  if result \<noteq> PRS_OK
                                  then Some (sched_create_cleanup ops_of s sched, result, PRS_OBJECT_ID_INVALID)
                                  else
                                    (let (s, result) = sched_call (so_init (impl (scp_ops params)) (sched + sched_data_offset) (scp_userdata params)) s
                                     in if result \<noteq> PRS_OK
                                        then Some (sched_create_cleanup ops_of s sched, result, PRS_OBJECT_ID_INVALID)
                                        else Some (s, result, oid)))))))"

text \<open>The loops over the workers. What the platform answers is a parameter; \<open>current\<close> is the worker that makes the call. A worker
  that stops itself leaves the loop for its exit context (\<open>False\<close>).\<close>

fun sched_stop_loop ::
  "(ptr \<Rightarrow> prs_result \<times> prs_result \<times> prs_result) \<Rightarrow> ptr \<Rightarrow> (ptr \<times> ptr) list \<Rightarrow> ('s, 'x) sched_state \<Rightarrow> ('s, 'x) sched_state \<times> worker_action list \<times> bool" where
  "sched_stop_loop pal current [] s = (s, [], True)"
| "sched_stop_loop pal current ((node, data) # nodes) s =
     (let p = sw_worker (sm_sched_workers (snd s) data);
          (resume_result, interrupt_result, join_result) = pal p;
          (worker, actions, _) = prs_worker_stop (sm_workers (snd s) p) (p = current) resume_result interrupt_result join_result;
          s = sched_set_worker p worker s
      in if p = current then (s, actions, False)
         else (let (s, actions', finished) = sched_stop_loop pal current nodes s in (s, actions @ actions', finished)))"

definition prs_sched_stop ::
  "(ptr \<Rightarrow> prs_result \<times> prs_result \<times> prs_result) \<Rightarrow> ptr \<Rightarrow> ('s, 'x) sched_state \<Rightarrow> prs_object_id_t \<Rightarrow> ('s, 'x) sched_state \<times> prs_result \<times> worker_action list \<times> bool" where
  "prs_sched_stop pal current s oid =
     (let (god, sched) = prs_god_lock (fst s) oid;
          s = (god, snd s)
      in if sched = 0 then (s, PRS_UNKNOWN, [], True)
         else (let (s, actions, finished) = sched_stop_loop pal current (sd_workers (sm_scheds (snd s) sched)) s in (s, PRS_OK, actions, finished)))"

text \<open>\<^verbatim>\<open>prs_worker_destroy\<close> changes nothing.\<close>

definition prs_sched_destroy ::
  "('s, 'x) sched_mod_scheme god_ops \<Rightarrow> (ptr \<Rightarrow> 's prs_sched_ops) \<Rightarrow> ('s, 'x) sched_state \<Rightarrow> prs_object_id_t \<Rightarrow> ('s, 'x) sched_state \<times> prs_result" where
  "prs_sched_destroy ops_of impl s oid =
     (let (god, sched) = prs_god_lock (fst s) oid;
          s = (god, snd s)
      in if sched = 0 then (s, PRS_UNKNOWN)
         else
           (let (s, result) = sched_call (so_uninit (impl (sd_ops (sm_scheds (snd s) sched))) (sched + sched_data_offset)) s;
                s = sched_name_free ops_of s oid;
                s = prs_god_unlock ops_of s oid;
                s = sched_workers_destroy sched s
            in (sched_free [sched] s, result)))"

fun sched_start_loop :: "(ptr \<Rightarrow> prs_result \<times> prs_result) \<Rightarrow> (ptr \<times> ptr) list \<Rightarrow> ('s, 'x) sched_state \<Rightarrow> ('s, 'x) sched_state \<times> prs_result" where
  "sched_start_loop pal [] s = (s, PRS_OK)"
| "sched_start_loop pal ((node, data) # nodes) s =
     (let p = sw_worker (sm_sched_workers (snd s) data);
          (callback_result, start_result) = pal p;
          (worker, result) = prs_worker_start (sm_workers (snd s) p) callback_result start_result;
          s = sched_set_worker p worker s
      in if result \<noteq> PRS_OK then (s, result) else sched_start_loop pal nodes s)"

definition prs_sched_start ::
  "('s, 'x) sched_mod_scheme god_ops \<Rightarrow> (ptr \<Rightarrow> prs_result \<times> prs_result) \<Rightarrow> ('s, 'x) sched_state \<Rightarrow> prs_object_id_t \<Rightarrow> ('s, 'x) sched_state \<times> prs_result" where
  "prs_sched_start ops_of pal s oid =
     (let (god, sched) = prs_god_lock (fst s) oid;
          s = (god, snd s)
      in if sched = 0 then (s, PRS_UNKNOWN)
         else (let (s, result) = sched_start_loop pal (sd_workers (sm_scheds (snd s) sched)) s in (prs_god_unlock ops_of s oid, result)))"

section \<open>Workers and tasks\<close>

text \<open>\<open>worker_ops\<close> and \<open>get_next\<close> are the addresses of the workers' object operations and of \<^verbatim>\<open>prs_sched_get_next\<close>.
  The new element is the last of the list; the error path removes the first one. \<open>None\<close> is the fatal outcome of a
  worker that cannot be locked.\<close>

definition prs_sched_add_thread ::
  "('s, 'x) sched_mod_scheme god_ops \<Rightarrow> ptr \<Rightarrow> ptr \<Rightarrow> ('s, 'x) sched_state \<Rightarrow> prs_object_id_t \<Rightarrow> ptr \<Rightarrow> ptr option \<Rightarrow> ptr option \<Rightarrow> ptr option
    \<Rightarrow> (('s, 'x) sched_state \<times> prs_result) option" where
  "prs_sched_add_thread ops_of worker_ops get_next s oid pal_thread memory node_memory worker_memory =
     (let (god, sched) = prs_god_lock (fst s) oid;
          s = (god, snd s)
      in if sched = 0 then Some (s, PRS_UNKNOWN)
         else
           (case memory of
              None \<Rightarrow> Some (prs_god_unlock ops_of s oid, PRS_OUT_OF_MEMORY)
            | Some sched_worker \<Rightarrow>
                (case node_memory of
                   None \<Rightarrow> Some (prs_god_unlock ops_of s oid, PRS_OUT_OF_MEMORY)
                 | Some node \<Rightarrow>
                     (let d = sm_scheds (snd s) sched;
                          s = sched_set sched (d\<lparr>sd_workers := sd_workers d @ [(node, sched_worker)]\<rparr>) s;
                          sw = \<lparr>sw_sched = sched, sw_sched_data = 0, sw_worker = 0\<rparr>;
                          s = (fst s, (snd s)\<lparr>sm_sched_workers := (sm_sched_workers (snd s))(sched_worker := sw)\<rparr>);
                          (god, worker, result, freed) = prs_worker_create (fst s) worker_ops
                            \<lparr>wp_pal_thread = pal_thread, wp_userdata = sched_worker, wp_get_next = get_next\<rparr> worker_memory;
                          s = sched_free freed (god, snd s)
                      in case worker of
                           None \<Rightarrow>
                             (let d = sm_scheds (snd s) sched;
                                  s = sched_free [fst (hd (sd_workers d))] (sched_set sched (d\<lparr>sd_workers := tl (sd_workers d)\<rparr>) s);
                                  s = sched_free [sched_worker] s
                              in Some (prs_god_unlock ops_of s oid, result))
                         | Some worker \<Rightarrow>
                             (let s = sched_set_worker (wk_addr worker) worker s;
                                  (god, p) = prs_god_lock (fst s) (wk_id worker);
                                  sw = \<lparr>sw_sched = sched, sw_sched_data = sched + sched_data_offset, sw_worker = p\<rparr>;
                                  s = (god, (snd s)\<lparr>sm_sched_workers := (sm_sched_workers (snd s))(sched_worker := sw)\<rparr>)
                              in if p = 0 then None else Some (prs_god_unlock ops_of s oid, PRS_OK))))))"

definition prs_sched_add_task ::
  "('s, 'x) sched_mod_scheme god_ops \<Rightarrow> (ptr \<Rightarrow> 's prs_sched_ops) \<Rightarrow> ('s, 'x) sched_state \<Rightarrow> prs_object_id_t \<Rightarrow> prs_object_id_t \<Rightarrow> ('s, 'x) sched_state \<times> prs_result" where
  "prs_sched_add_task ops_of impl s oid tid =
     (let (god, sched) = prs_god_lock (fst s) oid;
          s = (god, snd s)
      in if sched = 0 then (s, PRS_UNKNOWN)
         else
           (let (god, task) = prs_god_lock (fst s) tid;
                s = (god, snd s)
            in if task = 0 then (prs_god_unlock ops_of s oid, PRS_UNKNOWN)
               else
                 (let (s, result) = sched_call (so_add (impl (sd_ops (sm_scheds (snd s) sched))) (sched + sched_data_offset) task) s
                  in if result \<noteq> PRS_OK then (prs_god_unlock ops_of (prs_god_unlock ops_of s tid) oid, result)
                     else
                       ((fst s, (snd s)\<lparr>sm_tasks := (sm_tasks (snd s))(task := (sm_tasks (snd s) task)\<lparr>task_sched_id := sd_id (sm_scheds (snd s) sched)\<rparr>)\<rparr>),
                        result))))"

definition prs_sched_remove_task ::
  "('s, 'x) sched_mod_scheme god_ops \<Rightarrow> (ptr \<Rightarrow> 's prs_sched_ops) \<Rightarrow> ('s, 'x) sched_state \<Rightarrow> prs_object_id_t \<Rightarrow> prs_object_id_t \<Rightarrow> ('s, 'x) sched_state \<times> prs_result" where
  "prs_sched_remove_task ops_of impl s oid tid =
     (let (god, sched) = prs_god_lock (fst s) oid;
          s = (god, snd s)
      in if sched = 0 then (s, PRS_UNKNOWN)
         else
           (let (god, task) = prs_god_lock (fst s) tid;
                s = (god, snd s)
            in if task = 0 then (prs_god_unlock ops_of s oid, PRS_UNKNOWN)
               else
                 (let (s, result) = sched_call (so_remove (impl (sd_ops (sm_scheds (snd s) sched))) (sched + sched_data_offset) task) s;
                      s = (if result = PRS_OK then prs_god_unlock ops_of (prs_god_unlock ops_of s tid) oid else s)
                  in (prs_god_unlock ops_of (prs_god_unlock ops_of s tid) oid, result))))"

section \<open>Scheduling\<close>

text \<open>The current worker runs the scheduler; \<open>mets\<close> is what other threads do between its rounds.\<close>

definition prs_sched_schedule ::
  "(ptr \<Rightarrow> 's prs_sched_ops) \<Rightarrow> ('s, 'x) sched_state \<Rightarrow> ptr \<Rightarrow> (u32 \<times> ('s, 'x) sched_state) list \<Rightarrow> (('s, 'x) sched_state \<times> worker_outcome) option" where
  "prs_sched_schedule impl s current mets =
     map_option (\<lambda>(worker, s, outcome). (sched_set_worker current worker s, outcome))
       (prs_worker_schedule (prs_sched_get_next impl) (sm_tasks (snd s)) (sm_workers (snd s) current) s mets)"

text \<open>\<open>None\<close> is the access through the null pointer where the scheduler is not found.\<close>

definition prs_sched_ready ::
  "('s, 'x) sched_mod_scheme god_ops \<Rightarrow> (ptr \<Rightarrow> 's prs_sched_ops) \<Rightarrow> ('s, 'x) sched_state \<Rightarrow> ptr \<Rightarrow> (('s, 'x) sched_state \<times> prs_result) option" where
  "prs_sched_ready ops_of impl s task =
     (let oid = task_sched_id (sm_tasks (snd s) task);
          (god, sched) = prs_god_lock (fst s) oid
      in if sched = 0 then None
         else
           (let (s, result) = sched_call (so_ready (impl (sd_ops (sm_scheds (snd s) sched))) (sched + sched_data_offset) task) (god, snd s)
            in Some (prs_god_unlock ops_of s oid, result)))"

definition sched_set_task :: "ptr \<Rightarrow> prs_task \<Rightarrow> ('s, 'x) sched_state \<Rightarrow> ('s, 'x) sched_state" where
  "sched_set_task p task s = (fst s, (snd s)\<lparr>sm_tasks := (sm_tasks (snd s))(p := task)\<rparr>)"

text \<open>What happens before \<^verbatim>\<open>prs_worker_schedule\<close> is called; \<open>task\<close> is the current task of the worker.\<close>

definition prs_sched_yield :: "('s, 'x) sched_mod_scheme god_ops \<Rightarrow> (ptr \<Rightarrow> 's prs_sched_ops) \<Rightarrow> ('s, 'x) sched_state \<Rightarrow> ptr \<Rightarrow> ('s, 'x) sched_state option" where
  "prs_sched_yield ops_of impl s task =
     (let (t, _) = prs_task_block (sm_tasks (snd s) task);
          t = prs_task_change_state t PRS_TASK_STATE_READY
      in map_option fst (prs_sched_ready ops_of impl (sched_set_task task t s) task))"

definition prs_sched_block :: "('s, 'x) sched_state \<Rightarrow> ptr \<Rightarrow> ('s, 'x) sched_state" where
  "prs_sched_block s task = sched_set_task task (prs_task_change_state (sm_tasks (snd s) task) PRS_TASK_STATE_BLOCKED) s"

text \<open>The event, the timer and the entry; a failed allocation is fatal. What follows the scheduler is the cancellation of the entry.\<close>

definition prs_sched_sleep ::
  "('s, 'x) sched_state \<Rightarrow> prs_timer \<Rightarrow> prs_ticks_t \<Rightarrow> ptr \<Rightarrow> prs_ticks_t \<Rightarrow> ptr option \<Rightarrow> (('s, 'x) sched_state \<times> prs_event \<times> prs_timer \<times> u64) option" where
  "prs_sched_sleep s timer clock task ticks memory =
     (case prs_event_create \<lparr>tw_tasks = sm_tasks (snd s), tw_ready = [], tw_current = task\<rparr> task 1 memory of
        None \<Rightarrow> None
      | Some (w, event) \<Rightarrow>
          (case prs_timer_queue timer clock (ev_addr event) 1 ticks of
             None \<Rightarrow> None
           | Some (timer, eid) \<Rightarrow> Some (sched_set_task task (tw_tasks w task) s, event, timer, eid)))"

definition sched_sleep_resume :: "prs_timer \<Rightarrow> u64 \<Rightarrow> prs_timer" where
  "sched_sleep_resume timer eid = prs_timer_cancel timer eid"

definition prs_sched_find :: "('s, 'x) sched_mod_scheme god_ops \<Rightarrow> ('s, 'x) sched_state \<Rightarrow> string \<Rightarrow> (('s, 'x) sched_state \<times> prs_object_id_t) option" where
  "prs_sched_find ops_of s key = map_option (\<lambda>name. prs_name_find ops_of (sched_mem (snd s)) name s key) (sm_name (snd s))"

definition prs_sched_find_and_lock :: "('s, 'x) sched_mod_scheme god_ops \<Rightarrow> ('s, 'x) sched_state \<Rightarrow> string \<Rightarrow> (('s, 'x) sched_state \<times> ptr) option" where
  "prs_sched_find_and_lock ops_of s key =
     (case sm_name (snd s) of
        None \<Rightarrow> None
      | Some name \<Rightarrow>
          (let (s, oid) = prs_name_find_and_lock ops_of (sched_mem (snd s)) name s key
           in Some (s, prs_god_find (fst s) oid)))"

section \<open>References\<close>

text \<open>The objects behind the live IDs.\<close>

definition god_obj :: "prs_god \<Rightarrow> prs_object_id_t \<rightharpoonup> ptr" where
  "god_obj god oid = map_option goe_object (god_live god oid)"

lemma god_lock_view:
  assumes "god_wf god" and "god_view god oid = Some n" and "n < 4095"
  obtains god' where "prs_god_lock god oid = (god', the (god_obj god oid))" "god_wf god'" "god_view god' = (god_view god)(oid \<mapsto> n + 1)"
    "god_obj god' = god_obj god" "the (god_obj god oid) \<noteq> 0" "\<forall>w. prs_god_unlock ops_of (god', w) oid = (god, w :: 'w)"
proof -
  obtain e where e: "god_live god oid = Some e" "god_refs (goe_header e) = n" using assms(2) by (auto simp: god_view_def)
  have n: "god_refs (goe_header e) < 4095" using e(2) assms(3) by simp
  let ?god = "god_set_header god oid (goe_header e + 1)"
  note l = god_lock_entry_live [OF assms(1) e(1) n]
  have "god_view ?god = (god_view god)(oid \<mapsto> n + 1)" using l(4) e(2) god_inc_fields(1) [OF n] by (auto simp: god_view_def fun_eq_iff)
  moreover have "god_obj ?god = god_obj god" using l(4) e(1) by (auto simp: god_obj_def fun_eq_iff)
  ultimately show thesis
    using that [of ?god] l god_live_fields(8) [OF assms(1) e(1)] god_lock_unlock [OF assms(1) e(1) n, of ops_of] e(1)
    by (simp add: god_obj_def god_evolves_def)
qed

lemma god_unlock_view:
  assumes "god_wf god" and "god_view god oid = Some n" and "1 < n"
  obtains god' where "\<forall>w. prs_god_unlock ops_of (god, w) oid = (god', w :: 'w)" "god_wf god'" "god_view god' = (god_view god)(oid \<mapsto> n - 1)" "god_obj god' = god_obj god"
proof -
  obtain e where e: "god_live god oid = Some e" "god_refs (goe_header e) = n" using assms(2) by (auto simp: god_view_def)
  have n: "1 < god_refs (goe_header e)" using e(2) assms(3) by simp
  let ?god = "god_set_header god oid (goe_header e - 1)"
  note u = god_unlock_shared [OF assms(1) e(1) n]
  have "god_refs (goe_header e - 1) = n - 1" using god_dec_fields(1) [of "goe_header e"] n e(2) by simp
  then have "god_view ?god = (god_view god)(oid \<mapsto> n - 1)" using u(4) by (auto simp: god_view_def fun_eq_iff)
  moreover have "god_obj ?god = god_obj god" using u(4) e(1) by (auto simp: god_obj_def fun_eq_iff)
  ultimately show thesis using that [of ?god] u(3) god_unlock_shared(1) [OF assms(1) e(1) n, of ops_of] by (simp add: god_evolves_def)
qed

lemma god_lock_none:
  assumes "god_wf god" and "god_view god oid = None"
  shows "prs_god_lock god oid = (god, 0)"
  using assms god_dead [of god oid] by (simp add: god_view_def)

lemma god_view_pos: "god_wf god \<Longrightarrow> god_view god oid = Some n \<Longrightarrow> 0 < n"
  using god_live_fields(6) by (fastforce simp: god_view_def)

text \<open>Adding and removing a task.\<close>

lemma sched_add_task_cases:
  assumes "god_wf god" and "god_view god oid = Some n" and "god_view god tid = Some m" and "oid \<noteq> tid" and "n < 4095" and "m < 4095"
  obtains god' where "god_wf god'" "god_view god' = (god_view god)(oid \<mapsto> n + 1, tid \<mapsto> m + 1)" "god_obj god' = god_obj god"
    "prs_sched_add_task ops_of impl (god, w) oid tid =
      (case so_add (impl (sd_ops (sm_scheds w (the (god_obj god oid))))) (the (god_obj god oid) + sched_data_offset) (the (god_obj god tid)) (sm_impl w) of
         (x, r) \<Rightarrow> if r = PRS_OK
           then ((god', w\<lparr>sm_impl := x, sm_tasks := (sm_tasks w)(the (god_obj god tid) :=
                   (sm_tasks w (the (god_obj god tid)))\<lparr>task_sched_id := sd_id (sm_scheds w (the (god_obj god oid)))\<rparr>)\<rparr>), PRS_OK)
           else ((god, w\<lparr>sm_impl := x\<rparr>), r))"
proof -
  obtain g1 where 1: "prs_god_lock god oid = (g1, the (god_obj god oid))" "god_wf g1" "god_view g1 = (god_view god)(oid \<mapsto> n + 1)" "god_obj g1 = god_obj god"
      "the (god_obj god oid) \<noteq> 0" "\<forall>w. prs_god_unlock ops_of (g1, w) oid = (god, w)"
    by (rule god_lock_view [OF assms(1,2,5), where ops_of = ops_of])
  have "god_view g1 tid = Some m" using 1(3) assms(3,4) by simp
  then obtain g2 where 2: "prs_god_lock g1 tid = (g2, the (god_obj g1 tid))" "god_wf g2" "god_view g2 = (god_view g1)(tid \<mapsto> m + 1)" "god_obj g2 = god_obj g1"
      "the (god_obj g1 tid) \<noteq> 0" "\<forall>w. prs_god_unlock ops_of (g2, w) tid = (g1, w)"
    by (rule god_lock_view [OF 1(2) _ assms(6), where ops_of = ops_of])
  obtain x r where c: "so_add (impl (sd_ops (sm_scheds w (the (god_obj god oid))))) (the (god_obj god oid) + sched_data_offset) (the (god_obj god tid)) (sm_impl w)
      = (x, r)" by fastforce
  show thesis
    by (rule that [of g2]) (use 1 2 c in \<open>simp_all add: prs_sched_add_task_def sched_call_def\<close>)
qed

lemma sched_remove_task_cases:
  assumes "god_wf god" and "god_view god oid = Some n" and "god_view god tid = Some m" and "oid \<noteq> tid" and "n < 4095" and "m < 4095" and "1 < n" and "1 < m"
  obtains god' where "god_wf god'" "god_view god' = (god_view god)(oid \<mapsto> n - 1, tid \<mapsto> m - 1)" "god_obj god' = god_obj god"
    "prs_sched_remove_task ops_of impl (god, w) oid tid =
      (case so_remove (impl (sd_ops (sm_scheds w (the (god_obj god oid))))) (the (god_obj god oid) + sched_data_offset) (the (god_obj god tid)) (sm_impl w) of
         (x, r) \<Rightarrow> ((if r = PRS_OK then god' else god, w\<lparr>sm_impl := x\<rparr>), r))"
proof -
  obtain g1 where 1: "prs_god_lock god oid = (g1, the (god_obj god oid))" "god_wf g1" "god_view g1 = (god_view god)(oid \<mapsto> n + 1)" "god_obj g1 = god_obj god"
      "the (god_obj god oid) \<noteq> 0" "\<forall>w. prs_god_unlock ops_of (g1, w) oid = (god, w)"
    by (rule god_lock_view [OF assms(1,2,5), where ops_of = ops_of])
  have "god_view g1 tid = Some m" using 1(3) assms(3,4) by simp
  then obtain g2 where 2: "prs_god_lock g1 tid = (g2, the (god_obj g1 tid))" "god_wf g2" "god_view g2 = (god_view g1)(tid \<mapsto> m + 1)" "god_obj g2 = god_obj g1"
      "the (god_obj g1 tid) \<noteq> 0" "\<forall>w. prs_god_unlock ops_of (g2, w) tid = (g1, w)"
    by (rule god_lock_view [OF 1(2) _ assms(6), where ops_of = ops_of])
  obtain x r where c: "so_remove (impl (sd_ops (sm_scheds w (the (god_obj god oid))))) (the (god_obj god oid) + sched_data_offset) (the (god_obj god tid)) (sm_impl w)
      = (x, r)" by fastforce
  have "god_view god tid = Some m" by (rule assms(3))
  obtain g4 where 4: "\<forall>w. prs_god_unlock ops_of (god, w) tid = (g4, w)" "god_wf g4" "god_view g4 = (god_view god)(tid \<mapsto> m - 1)" "god_obj g4 = god_obj god"
    by (rule god_unlock_view [OF assms(1,3,8), where ops_of = ops_of])
  have "god_view g4 oid = Some n" using 4(3) assms(2,4) by simp
  then obtain g5 where 5: "\<forall>w. prs_god_unlock ops_of (g4, w) oid = (g5, w)" "god_wf g5" "god_view g5 = (god_view g4)(oid \<mapsto> n - 1)" "god_obj g5 = god_obj g4"
    by (rule god_unlock_view [OF 4(2) _ assms(7), where ops_of = ops_of])
  show thesis
    by (rule that [of g5]) (use 1 2 4 5 c assms(4) in \<open>simp_all add: prs_sched_remove_task_def sched_call_def fun_upd_twist\<close>)
qed

text \<open>Registering and removing a name leaves the directory as it was.\<close>

lemma sched_name_free_same:
  assumes "god_wf god" and "god_view god oid = Some n" and "n < 4095"
  obtains name where "sched_name_free ops_of (god, w) oid = (god, w\<lparr>sm_name := name\<rparr>)"
proof -
  obtain g where g: "prs_god_lock god oid = (g, the (god_obj god oid))" "\<forall>w. prs_god_unlock ops_of (g, w) oid = (god, w)"
      "the (god_obj god oid) \<noteq> 0"
    by (rule god_lock_view [OF assms, where ops_of = ops_of])
  have "\<exists>name. sched_name_free ops_of (god, w) oid = (god, w\<lparr>sm_name := name\<rparr>)"
  proof (cases "sm_name w")
    case None
    then show ?thesis by (intro exI [of _ "None"]) (simp add: sched_name_free_def)
  next
    case (Some name)
    then show ?thesis using g by (auto simp: sched_name_free_def prs_name_free_def Let_def split: prod.splits)
  qed
  then show thesis using that by blast
qed

lemma sched_name_alloc_same:
  assumes "god_wf god" and "god_view god oid = Some n" and "n < 4095" and "sched_name_alloc ops_of (god, w) oid memory = Some (s, r)"
  obtains name where "s = (god, w\<lparr>sm_name := Some name\<rparr>)"
proof -
  obtain g where g: "prs_god_lock god oid = (g, the (god_obj god oid))" "\<forall>w. prs_god_unlock ops_of (g, w) oid = (god, w)"
      "the (god_obj god oid) \<noteq> 0"
    by (rule god_lock_view [OF assms(1-3), where ops_of = ops_of])
  have "\<exists>name. s = (god, w\<lparr>sm_name := Some name\<rparr>)"
    using assms(4) g by (auto simp: sched_name_alloc_def prs_name_alloc_def Let_def split: option.splits prod.splits)
  then show thesis using that by blast
qed

text \<open>A new object has its ID alone, and one reference.\<close>

lemma god_alloc_view:
  assumes "god_wf god" and "god_ids_left god" and "obj \<noteq> 0" and "prs_god_alloc_and_lock god obj ops = (god', oid)" and "oid \<noteq> PRS_OBJECT_ID_INVALID"
  shows "god_wf god' \<and> god_view god' = (god_view god)(oid \<mapsto> 1) \<and> god_obj god' = (god_obj god)(oid \<mapsto> obj) \<and> god_view god oid = None
    \<and> (\<exists>e. god_live god' oid = Some e \<and> goe_object e = obj \<and> goe_ops e = ops \<and> god_refs (goe_header e) = 1)"
  using assms(1,2)
proof (cases rule: prs_god_alloc_cases [where object = obj and ops = ops])
  case full
  then show ?thesis using assms(4,5) by simp
next
  case (found j)
  then have e: "god' = god_alloc_at god obj ops j" "oid = j" using assms(4) by simp_all
  note at = god_alloc_at_wf(1,4) [where ops = ops, OF assms(1,3) found(1-3)]
  have "god_live god j = None" using god_alloc_at_wf(2) [OF assms(1,3) found(1-3)] by (simp add: god_live_def)
  then show ?thesis using at by (auto simp: e god_view_def god_obj_def fun_eq_iff)
qed

text \<open>The cleanup of a scheduler that is registered with one reference.\<close>

lemma sched_create_cleanup_frees:
  assumes "god_wf god" and "god_live god oid = Some e" "goe_object e = sched" "goe_ops e = ops" "god_refs (goe_header e) = 1"
    and "god_ops_ok ops_of" and "ops_of ops = s_prs_sched_object_ops" and "oid \<noteq> PRS_OBJECT_ID_INVALID"
    and "sd_id (sm_scheds w sched) = oid" and "sd_workers_addr (sm_scheds w sched) = workers" and "workers \<noteq> 0" and "sd_workers (sm_scheds w sched) = []"
  shows "sm_freed (snd (sched_create_cleanup ops_of (god, w) sched)) = sm_freed w @ [sched, workers, sched]"
proof -
  have v: "god_view god oid = Some 1" using assms(2,5) by (simp add: god_view_def)
  obtain name where n: "sched_name_free ops_of (god, w) oid = (god, w\<lparr>sm_name := name\<rparr>)"
    by (rule sched_name_free_same [OF assms(1) v, where ops_of = ops_of and w = w]) simp_all
  obtain god' where u: "prs_god_unlock ops_of (god, w\<lparr>sm_name := name\<rparr>) oid = (god', w\<lparr>sm_name := name, sm_freed := sm_freed w @ [sched]\<rparr>)"
    using god_unlock_last(3,5) [OF assms(1,2,5,6), of "w\<lparr>sm_name := name\<rparr>"] assms(3,4,7)
    by (auto simp: god_free_call_def s_prs_sched_object_ops_def prs_sched_object_free_def sched_free_def)
  show ?thesis using n u assms(8-12) by (simp add: sched_create_cleanup_def sched_workers_destroy_def sched_free_def)
qed

text \<open>A directory with a scheduler (ID 1, at address 77) and a task (ID 2, at 99), and implementations that answer \<open>r\<close>.\<close>

definition sched_example_god :: prs_god where
  "sched_example_god = fst (prs_god_alloc_and_lock (fst (prs_god_alloc_and_lock god_example 77 5)) 99 6)"

definition sched_example_impl :: "prs_result \<Rightarrow> ptr \<Rightarrow> nat prs_sched_ops" where
  "sched_example_impl r p =
     \<lparr>so_init = \<lambda>_ _ x. (x, r), so_uninit = \<lambda>_ x. (x, r), so_add = \<lambda>_ _ x. (x + 1, r), so_remove = \<lambda>_ _ x. (x - 1, r),
      so_get_next = \<lambda>_ _ x. (x, False, 0), so_ready = \<lambda>_ _ x. (x, r)\<rparr>"

definition sched_example_ops :: "nat sched_mod god_ops" where
  "sched_example_ops p = s_prs_sched_object_ops"

lemma sched_example_ops_ok: "god_ops_ok sched_example_ops"
  by (simp add: god_ops_ok_def god_op_ok_def sched_example_ops_def s_prs_sched_object_ops_def prs_sched_object_free_def sched_free_def god_evolves_refl)

lemma sched_example_god:
  "god_wf sched_example_god" "god_view sched_example_god 1 = Some 1" "god_view sched_example_god 2 = Some 1" "god_obj sched_example_god 1 = Some 77"
proof -
  obtain god e where g: "prs_god_alloc_and_lock god_example 77 5 = (god, 1)" "god_wf god" "unat (god_write_index god) = 2"
      "god_live god = [1 \<mapsto> e]" "goe_object e = 77" "god_refs (goe_header e) = 1"
    by (rule god_example_alloc) blast
  have n: "snd (prs_god_alloc_and_lock (fst (prs_god_alloc_and_lock god_example 77 5)) 99 6) = 2"
    "god_max_entries (fst (prs_god_alloc_and_lock god_example 77 5)) = 4" by code_simp+
  have a: "prs_god_alloc_and_lock god 99 6 = (sched_example_god, 2)" using n(1) by (simp add: sched_example_god_def g(1) prod_eq_iff)
  have l: "god_ids_left god" using n(2) g(1,3) by (simp add: god_ids_left_def)
  have "god_wf sched_example_god \<and> god_view sched_example_god = (god_view god)(2 \<mapsto> 1) \<and> god_obj sched_example_god = (god_obj god)(2 \<mapsto> 99)"
    using god_alloc_view [OF g(2) l _ a] by (simp add: PRS_OBJECT_ID_INVALID_def)
  then show "god_wf sched_example_god" "god_view sched_example_god 1 = Some 1" "god_view sched_example_god 2 = Some 1" "god_obj sched_example_god 1 = Some 77"
    using g(4-6) by (auto simp: god_view_def god_obj_def)
qed

section \<open>Properties\<close>



text \<open>prs_sched_destroy frees the scheduler and never gives up the reference of its creation: the ID stays registered, the directory is
  as before, and the next lock of the ID returns the memory that was freed. prs_sched_stop does not give back its own reference.\<close>

theorem sched_destroy_leaves_id:
  assumes "god_wf god" and "god_view god oid = Some n" and "n < 4094" and "god_obj god oid = Some sched"
    and "prs_sched_destroy ops_of impl (god, w) oid = ((god', w'), r)"
  shows "sched \<in> set (sm_freed w') \<and> god' = god \<and> snd (prs_god_lock god' oid) = sched
    \<and> god_view (fst (fst (prs_sched_stop pal 0 (god, w\<lparr>sm_scheds := (sm_scheds w)(sched := (sm_scheds w sched)\<lparr>sd_workers := []\<rparr>)\<rparr>) oid))) oid = Some (n + 1)"
proof -
  have lim: "n < 4095" "n + 1 < 4095" using assms(3) by simp_all
  obtain g1 where 1: "prs_god_lock god oid = (g1, sched)" "god_wf g1" "god_view g1 = (god_view god)(oid \<mapsto> n + 1)" "god_obj g1 = god_obj god"
      "sched \<noteq> 0" "\<forall>w. prs_god_unlock ops_of (g1, w) oid = (god, w)"
    by (rule god_lock_view [OF assms(1,2) lim(1), where ops_of = ops_of]) (simp add: assms(4))
  obtain x r' where c: "so_uninit (impl (sd_ops (sm_scheds w sched))) (sched + sched_data_offset) (sm_impl w) = (x, r')" by fastforce
  have "god_view g1 oid = Some (n + 1)" using 1(3) by simp
  then obtain name' where n: "sched_name_free ops_of (g1, w\<lparr>sm_impl := x\<rparr>) oid = (g1, w\<lparr>sm_impl := x, sm_name := name'\<rparr>)"
    by (rule sched_name_free_same [OF 1(2) _ lim(2), where ops_of = ops_of and w = "w\<lparr>sm_impl := x\<rparr>"])
  have d: "god' = god \<and> sched \<in> set (sm_freed w')"
    using assms(5) 1 c n by (auto simp: prs_sched_destroy_def sched_call_def sched_workers_destroy_def sched_free_def)
  then show ?thesis using 1 by (simp add: prs_sched_stop_def)
qed

theorem sched_destroy_leaves_id_witness:
  "\<forall>w. case prs_sched_destroy sched_example_ops (sched_example_impl PRS_OK) (sched_example_god, w) 1 of
     ((god', w'), r) \<Rightarrow> 77 \<in> set (sm_freed w') \<and> snd (prs_god_lock god' 1) = 77"
proof
  fix w :: "nat sched_mod"
  obtain god' w' r where d: "prs_sched_destroy sched_example_ops (sched_example_impl PRS_OK) (sched_example_god, w) 1 = ((god', w'), r)"
    by (metis surj_pair)
  from sched_destroy_leaves_id [OF sched_example_god(1,2) _ sched_example_god(4) d, where pal = "\<lambda>_. (PRS_OK, PRS_OK, PRS_OK)"] d
  show "case prs_sched_destroy sched_example_ops (sched_example_impl PRS_OK) (sched_example_god, w) 1 of
     ((god', w'), r) \<Rightarrow> 77 \<in> set (sm_freed w') \<and> snd (prs_god_lock god' 1) = 77" by auto
qed

text \<open>When the name or the implementation refuses a scheduler that is already registered, prs_sched_create returns the error and
  frees the scheduler twice: giving up its only reference frees it through the object operations, and then the
  function frees its list of workers and the scheduler itself.\<close>

theorem sched_create_double_free:
  assumes "god_wf god" and "god_ids_left god" and "sched \<noteq> 0" and "workers \<noteq> 0" and "sm_name w = Some name"
    and "god_ops_ok ops_of" and "ops_of ops = s_prs_sched_object_ops"
    and "snd (prs_god_alloc_and_lock god sched ops) \<noteq> PRS_OBJECT_ID_INVALID"
    and "prs_sched_create ops_of impl ops (god, w) params None None (Some sched) (Some workers) node_memory = Some ((god', w'), r, oid')"
    and "r \<noteq> PRS_OK"
  shows "sm_freed w' = sm_freed w @ [sched, workers, sched] \<and> oid' = PRS_OBJECT_ID_INVALID"
proof -
  obtain g oid where g: "prs_god_alloc_and_lock god sched ops = (g, oid)" by fastforce
  have oid: "oid \<noteq> PRS_OBJECT_ID_INVALID" using assms(8) g by simp
  obtain e where e: "god_wf g" "god_view g oid = Some 1" "god_live g oid = Some e" "goe_object e = sched" "goe_ops e = ops" "god_refs (goe_header e) = 1"
    using god_alloc_view [OF assms(1,2,3) g oid] by auto
  let ?d = "\<lparr>sd_id = oid, sd_name = scp_name params, sd_ops = scp_ops params, sd_workers_addr = workers, sd_workers = []\<rparr>"
  let ?w = "w\<lparr>sm_scheds := (sm_scheds w)(sched := ?d)\<rparr>"
  obtain s1 r1 where na: "sched_name_alloc ops_of (g, ?w) oid node_memory = Some (s1, r1)"
    using assms(9) g oid by (auto simp: prs_sched_create_def sched_name_init_def assms(5) sched_set_def Let_def split: option.splits)
  obtain name1 where s1: "s1 = (g, ?w\<lparr>sm_name := Some name1\<rparr>)"
    by (rule sched_name_alloc_same [OF e(1,2) _ na]) simp_all
  note cl = sched_create_cleanup_frees [OF e(1,3-6) assms(6,7) oid, where workers = workers]
  obtain x r2 where c: "so_init (impl (scp_ops params)) (sched + sched_data_offset) (scp_userdata params) (sm_impl w) = (x, r2)" by fastforce
  have f1: "sm_freed (snd (sched_create_cleanup ops_of s1 sched)) = sm_freed w @ [sched, workers, sched]"
    using cl [of "?w\<lparr>sm_name := Some name1\<rparr>"] assms(4) by (simp add: s1)
  have f2: "sm_freed (snd (sched_create_cleanup ops_of (g, ?w\<lparr>sm_name := Some name1, sm_impl := x\<rparr>) sched)) = sm_freed w @ [sched, workers, sched]"
    using cl [of "?w\<lparr>sm_name := Some name1, sm_impl := x\<rparr>"] assms(4) by simp
  show ?thesis
    using assms(9,10) g oid na c f1 f2 s1
    by (auto simp: prs_sched_create_def sched_name_init_def assms(5) sched_set_def sched_call_def Let_def split: if_splits)
qed

text \<open>The example of a creation whose implementation refuses.\<close>

definition sched_example_mod :: "nat sched_mod" where
  "sched_example_mod =
     \<lparr>sm_name = prs_name_create \<lparr>np_max_entries = 4, np_string_offset = sched_name_offset\<rparr> (Some 1000) (Some 2000),
      sm_scheds = \<lambda>_. \<lparr>sd_id = 0, sd_name = ''a'', sd_ops = 0, sd_workers_addr = 0, sd_workers = []\<rparr>,
      sm_sched_workers = \<lambda>_. \<lparr>sw_sched = 0, sw_sched_data = 0, sw_worker = 0\<rparr>,
      sm_workers = \<lambda>_. \<lparr>wk_addr = 0, wk_id = 0, wk_pal_thread = 0, wk_userdata = 0, wk_get_next = 0, wk_flags = 0,
                        wk_current_task_id = 0, wk_current_task = 0, wk_exit_context = 0\<rparr>,
      sm_tasks = \<lambda>_. \<lparr>task_id = 0, task_name = [], task_userdata = 0, task_stack = 0, task_stack_size = 0, task_prio = 0, task_proc_id = 0,
                      task_sched_id = 0, task_sched_userdata = 0, task_token = 0, task_context = 0, task_entry = 0, task_msgq = 0\<rparr>,
      sm_impl = 0, sm_freed = []\<rparr>"

definition sched_example_create :: "((nat, unit) sched_state \<times> prs_result \<times> prs_object_id_t) option" where
  "sched_example_create =
     prs_sched_create sched_example_ops (sched_example_impl PRS_UNKNOWN) 5 (god_example, sched_example_mod)
       \<lparr>scp_name = ''s'', scp_userdata = 0, scp_ops = 0\<rparr> None None (Some 77) (Some 88) (Some 3000)"

theorem sched_create_double_free_witness:
  "case sched_example_create of Some ((god', w'), r, oid') \<Rightarrow> r = PRS_UNKNOWN \<and> sm_freed w' = [77, 88, 77] | None \<Rightarrow> False"
proof -
  have r: "map_option (fst \<circ> snd) sched_example_create = Some PRS_UNKNOWN" by code_simp
  then obtain god' w' oid' where c: "sched_example_create = Some ((god', w'), PRS_UNKNOWN, oid')" by auto
  have n: "sm_name sched_example_mod = Some (the (sm_name sched_example_mod))" by (simp add: sched_example_mod_def prs_name_create_def)
  have i: "snd (prs_god_alloc_and_lock god_example 77 5) \<noteq> PRS_OBJECT_ID_INVALID" by code_simp
  from sched_create_double_free [OF god_example_fresh(1,3) _ _ n sched_example_ops_ok _ i c [unfolded sched_example_create_def]]
  show ?thesis by (simp add: c sched_example_ops_def) (simp add: sched_example_mod_def)
qed

text \<open>When the worker of a further thread cannot be created, prs_sched_add_thread returns PRS_OUT_OF_MEMORY with the scheduler's reference
  given back, but it takes the first worker out of the list, not the one that it added: the scheduler loses a worker that runs, and its list
  keeps the structure that was freed.\<close>

theorem sched_add_thread_loses_worker:
  assumes "god_wf god" and "god_view god oid = Some n" and "n < 4095" and "god_obj god oid = Some sched"
    and "sd_workers (sm_scheds w sched) = (first_node, first_worker) # workers"
  shows "\<exists>w'. prs_sched_add_thread ops_of worker_ops get_next (god, w) oid pal_thread (Some sched_worker) (Some node) None = Some ((god, w'), PRS_OUT_OF_MEMORY)
    \<and> sd_workers (sm_scheds w' sched) = workers @ [(node, sched_worker)] \<and> sm_freed w' = sm_freed w @ [first_node, sched_worker]"
proof -
  obtain g1 where 1: "prs_god_lock god oid = (g1, sched)" "sched \<noteq> 0" "\<forall>w. prs_god_unlock ops_of (g1, w) oid = (god, w)"
    by (rule god_lock_view [OF assms(1-3), where ops_of = ops_of]) (simp add: assms(4))
  then show ?thesis using assms(5) by (simp add: prs_sched_add_thread_def sched_set_def sched_free_def prs_worker_create_def)
qed

theorem sched_add_thread_loses_worker_witness:
  "\<exists>w'. prs_sched_add_thread sched_example_ops 7 8
      (sched_example_god, sched_example_mod\<lparr>sm_scheds := \<lambda>_. \<lparr>sd_id = 1, sd_name = ''a'', sd_ops = 0, sd_workers_addr = 88, sd_workers = [(100, 101)]\<rparr>\<rparr>)
      1 9 (Some 201) (Some 200) None = Some ((sched_example_god, w'), PRS_OUT_OF_MEMORY)
    \<and> sd_workers (sm_scheds w' 77) = [(200, 201)] \<and> 201 \<in> set (sm_freed w')"
  using sched_add_thread_loses_worker [OF sched_example_god(1,2) _ sched_example_god(4),
      of "sched_example_mod\<lparr>sm_scheds := \<lambda>_. \<lparr>sd_id = 1, sd_name = ''a'', sd_ops = 0, sd_workers_addr = 88, sd_workers = [(100, 101)]\<rparr>\<rparr>"
        100 101 "[]" sched_example_ops 7 8 9 201 200] by auto
end
