(* ===== verification/Mpmcring.thy ===== *)
theory Mpmcring
  imports Pool
begin

text \<open>
  The multi-producer multi-consumer ring of \<^verbatim>\<open>prs/lib/ds/mpmcring.c\<close>: the elements are entries of a pool, linked by their
  IDs. The memory holds the pool and the two fields of each entry, by its address; the data of an element belong to the
  users of the ring. The operations are modelled for one thread at a time, with every atomic operation in its place.
  A locale states what the users of a ring rely on: an element is handed out by the allocation, goes through
  the queue, and comes back.
\<close>

section \<open>Data\<close>

record mpmcring_memory =
  rm_pool :: "unit prs_pool"
  rm_next :: "ptr \<Rightarrow> u64"
  rm_consumed :: "ptr \<Rightarrow> bool"

record prs_mpmcring =
  rg_addr :: ptr
  rg_head_id :: u64
  rg_tail_id :: u64

record prs_mpmcring_create_params =
  rgp_data_size :: u64
  rgp_max_entries :: u64

type_synonym rg_state = "mpmcring_memory \<times> prs_mpmcring"

text \<open>\<^verbatim>\<open>offsetof(struct prs_mpmcring_entry, data)\<close>: an ID and a byte.\<close>

definition mpmcring_data_offset :: u64 where
  "mpmcring_data_offset = 9"

definition prs_mpmcring_data_to_entry :: "ptr \<Rightarrow> ptr" where
  "prs_mpmcring_data_to_entry data = data - mpmcring_data_offset"

section \<open>Operations\<close>

text \<open>The three results of the allocator; the entries of the pool are zeroed memory. The result is the ring, or null, and what was freed.\<close>

definition prs_mpmcring_create ::
  "prs_mpmcring_create_params \<Rightarrow> ptr option \<Rightarrow> ptr option \<Rightarrow> ptr option \<Rightarrow> (prs_mpmcring \<times> unit prs_pool) option \<times> ptr list" where
  "prs_mpmcring_create params memory pool_mem entries_mem =
     (case memory of
        None \<Rightarrow> (None, [])
      | Some addr \<Rightarrow>
          (let pool_params = \<lparr>pp_max_entries = rgp_max_entries params, pp_data_size = rgp_data_size params, pp_area = None\<rparr>;
               initial = replicate (unat (rgp_max_entries params)) \<lparr>pe_header = 0, pe_data = ()\<rparr>
           in case prs_pool_create pool_params initial pool_mem entries_mem of
                (None, freed) \<Rightarrow> (None, freed @ [addr])
              | (Some pool, freed) \<Rightarrow>
                  (Some (\<lparr>rg_addr = addr, rg_head_id = PRS_POOL_ID_INVALID, rg_tail_id = PRS_POOL_ID_INVALID\<rparr>, pool), freed)))"

definition prs_mpmcring_destroy :: "rg_state \<Rightarrow> ptr list" where
  "prs_mpmcring_destroy s = prs_pool_destroy (rm_pool (fst s)) @ [rg_addr (snd s)]"

definition prs_mpmcring_alloc :: "rg_state \<Rightarrow> rg_state \<times> ptr option" where
  "prs_mpmcring_alloc s =
     (let (m, ring) = s; (pool, entry, pid) = prs_pool_alloc (rm_pool m); m = m\<lparr>rm_pool := pool\<rparr>
      in case entry of
           None \<Rightarrow> ((m, ring), None)
         | Some e \<Rightarrow>
             (let m = m\<lparr>rm_consumed := (rm_consumed m)(e := False)\<rparr>;
                  m = m\<lparr>rm_next := (rm_next m)(e := PRS_POOL_ID_INVALID)\<rparr>;
                  m = m\<lparr>rm_pool := prs_pool_lock_first (rm_pool m) pid\<rparr>
              in ((m, ring), Some (e + mpmcring_data_offset))))"

text \<open>The lock and the unlock of an ID in the ring's pool.\<close>

definition rg_lock :: "mpmcring_memory \<Rightarrow> u64 \<Rightarrow> mpmcring_memory \<times> ptr option" where
  "rg_lock m pid = (case prs_pool_lock (rm_pool m) pid of (pool, entry) \<Rightarrow> (m\<lparr>rm_pool := pool\<rparr>, entry))"

definition rg_unlock :: "mpmcring_memory \<Rightarrow> u64 \<Rightarrow> mpmcring_memory" where
  "rg_unlock m pid = m\<lparr>rm_pool := fst (prs_pool_unlock (rm_pool m) pid)\<rparr>"

definition prs_mpmcring_free :: "rg_state \<Rightarrow> ptr \<Rightarrow> rg_state" where
  "prs_mpmcring_free s data =
     (let (m, ring) = s; entry = prs_mpmcring_data_to_entry data
      in (rg_unlock m (prs_pool_get_id (rm_pool m) entry), ring))"

text \<open>The loop of the push, and the choice of a tail that is reloaded.\<close>

definition rg_load_tail :: "mpmcring_memory \<Rightarrow> u64 \<Rightarrow> ptr option \<Rightarrow> mpmcring_memory \<times> ptr option" where
  "rg_load_tail m tail_id tail_entry = (if tail_id \<noteq> PRS_POOL_ID_INVALID then rg_lock m tail_id else (m, tail_entry))"

partial_function (option) mpmcring_push_loop :: "u64 \<Rightarrow> rg_state \<Rightarrow> u64 \<Rightarrow> ptr option \<Rightarrow> rg_state option" where
  "mpmcring_push_loop pid s tail_id tail_entry =
     (let (m, ring) = s
      in case tail_entry of
           Some tail \<Rightarrow>
             (let next_id = rm_next m tail;
                  (m, next_entry) = (if next_id \<noteq> PRS_POOL_ID_INVALID then rg_lock m next_id else (m, None))
              in case next_entry of
                   Some nxt \<Rightarrow>
                     (let m = rg_unlock m tail_id;
                          (_, cell, _) = atomic_compare_exchange (rg_tail_id ring) tail_id next_id
                      in mpmcring_push_loop pid (m, ring\<lparr>rg_tail_id := cell\<rparr>) next_id (Some nxt))
                 | None \<Rightarrow>
                     (let (tail_next_set, cell, _) = atomic_compare_exchange (rm_next m tail) next_id pid;
                          m = rg_unlock (m\<lparr>rm_next := (rm_next m)(tail := cell)\<rparr>) tail_id
                      in if \<not> tail_next_set
                         then (let tail_id = rg_tail_id ring; (m, tail_entry) = rg_load_tail m tail_id (Some tail)
                               in mpmcring_push_loop pid (m, ring) tail_id tail_entry)
                         else (let (_, cell, _) = atomic_compare_exchange (rg_tail_id ring) tail_id pid
                               in Some (m, ring\<lparr>rg_tail_id := cell\<rparr>))))
         | None \<Rightarrow>
             (let (tail_set, cell, _) = atomic_compare_exchange (rg_tail_id ring) tail_id pid;
                  ring = ring\<lparr>rg_tail_id := cell\<rparr>
              in if tail_set then Some (m, ring\<lparr>rg_head_id := pid\<rparr>)
                 else (let tail_id = rg_tail_id ring; (m, tail_entry) = rg_load_tail m tail_id None
                       in mpmcring_push_loop pid (m, ring) tail_id tail_entry)))"

definition prs_mpmcring_push :: "rg_state \<Rightarrow> ptr \<Rightarrow> rg_state option" where
  "prs_mpmcring_push s data =
     (let (m, ring) = s;
          entry = prs_mpmcring_data_to_entry data;
          pid = prs_pool_get_id (rm_pool m) entry;
          tail_id = rg_tail_id ring;
          (m, tail_entry) = rg_load_tail m tail_id None
      in mpmcring_push_loop pid (m, ring) tail_id tail_entry)"

text \<open>The loop of the pop. A compare and exchange that succeeds leaves the expected value in \<open>prev_head_id\<close>.\<close>

partial_function (option) mpmcring_pop_loop :: "rg_state \<Rightarrow> u64 \<Rightarrow> ptr option \<Rightarrow> (rg_state \<times> ptr option) option" where
  "mpmcring_pop_loop s head_id head_entry =
     (let (m, ring) = s
      in case head_entry of
           Some e \<Rightarrow>
             (let (already_consumed, cell) = atomic_exchange (rm_consumed m e) True;
                  m = m\<lparr>rm_consumed := (rm_consumed m)(e := cell)\<rparr>;
                  next_id = rm_next m e
              in if next_id \<noteq> PRS_POOL_ID_INVALID
                 then
                   (let (success, cell, prev_head_id) = atomic_compare_exchange (rg_head_id ring) head_id next_id;
                        ring = ring\<lparr>rg_head_id := cell\<rparr>;
                        m = (if success then rg_unlock m head_id else m)
                    in if already_consumed
                       then (let (m, entry) = rg_lock (rg_unlock m head_id) prev_head_id in mpmcring_pop_loop (m, ring) prev_head_id entry)
                       else Some ((m, ring), Some (e + mpmcring_data_offset)))
                 else if already_consumed then Some ((rg_unlock m head_id, ring), None)
                 else Some ((m, ring), Some (e + mpmcring_data_offset)))
         | None \<Rightarrow>
             (let prev_head_id = head_id; head_id = rg_head_id ring
              in if head_id \<noteq> prev_head_id
                 then (let (m, entry) = rg_lock m head_id in mpmcring_pop_loop (m, ring) head_id entry)
                 else Some ((m, ring), None)))"

definition prs_mpmcring_pop :: "rg_state \<Rightarrow> (rg_state \<times> ptr option) option" where
  "prs_mpmcring_pop s =
     (let (m, ring) = s;
          head_id = rg_head_id ring;
          (m, head_entry) = (if head_id \<noteq> PRS_POOL_ID_INVALID then rg_lock m head_id else (m, None))
      in mpmcring_pop_loop (m, ring) head_id head_entry)"

declare mpmcring_push_loop.simps [code] mpmcring_pop_loop.simps [code]

section \<open>The pool as the ring sees it\<close>

text \<open>Every ID has the references that \<open>f\<close> counts; ID 0 is the reserved entry.\<close>

definition rg_view :: "(u64 \<Rightarrow> nat) \<Rightarrow> u64 \<rightharpoonup> nat" where
  "rg_view f i = (if i = 0 then Some 0 else if f i = 0 then None else Some (f i))"

definition rg_pool_ok :: "unit prs_pool \<Rightarrow> (u64 \<Rightarrow> nat) \<Rightarrow> bool" where
  "rg_pool_ok pool f \<longleftrightarrow> pool_wf pool \<and> pool_fits pool \<and> f 0 = 0 \<and> pool_view pool = rg_view f"

text \<open>The address of the entry of an ID.\<close>

definition rg_entry :: "unit prs_pool \<Rightarrow> u64 \<Rightarrow> ptr" where
  "rg_entry pool i = pool_data_ptr pool (prs_pool_get_entry pool i)"

text \<open>The operations on references change neither the addresses nor the number of IDs left.\<close>

definition rg_same :: "unit prs_pool \<Rightarrow> unit prs_pool \<Rightarrow> bool" where
  "rg_same pool pool' \<longleftrightarrow> rg_entry pool' = rg_entry pool \<and> pool_write_index pool' = pool_write_index pool \<and> pool_max_entries pool' = pool_max_entries pool
     \<and> length (pool_entries pool') = length (pool_entries pool)"

lemma rg_same_set_header: "rg_same pool (pool_set_header pool i h)"
  by (simp add: rg_same_def rg_entry_def fun_eq_iff)

lemma pool_fits_set_header [simp]: "pool_fits (pool_set_header pool i h) = pool_fits pool"
  by (simp add: pool_fits_def)

lemma rg_lock_ok:
  assumes "rg_pool_ok (rm_pool m) f" and "0 < f i" and "f i < 2047"
  obtains pool where "rg_lock m i = (m\<lparr>rm_pool := pool\<rparr>, Some (rg_entry (rm_pool m) i))" "rg_pool_ok pool (f(i := f i + 1))" "rg_same (rm_pool m) pool"
proof -
  have o: "pool_wf (rm_pool m)" "pool_fits (rm_pool m)" "f 0 = 0" "pool_view (rm_pool m) = rg_view f" using assms(1) by (simp_all add: rg_pool_ok_def)
  have i: "i \<noteq> 0" using o(3) assms(2) by auto
  then have v: "pool_view (rm_pool m) i = Some (f i)" using o(4) assms(2) by (simp add: rg_view_def)
  obtain pool where l: "prs_pool_lock (rm_pool m) i = (pool, Some (rg_entry (rm_pool m) i))" "pool_wf pool"
      "pool_view pool = (pool_view (rm_pool m))(i \<mapsto> f i + 1)"
    using lock_live [OF o(1) v assms(2,3)] by (auto simp: rg_entry_def)
  have "\<exists>h. pool = pool_set_header (rm_pool m) (prs_pool_get_entry (rm_pool m) i) h"
    using l(1) by (auto simp: prs_pool_lock_def Let_def split: if_splits prod.splits)
  then have s: "rg_same (rm_pool m) pool" "pool_fits pool" using rg_same_set_header o(2) by auto
  have "pool_view pool = rg_view (f(i := f i + 1))" using l(3) o(4) i by (auto simp: rg_view_def fun_eq_iff)
  then have "rg_pool_ok pool (f(i := f i + 1))" using l(2) s(2) o(3) i by (simp add: rg_pool_ok_def)
  then show thesis using that l(1) s(1) by (simp add: rg_lock_def)
qed

lemma rg_lock_dead:
  assumes "rg_pool_ok (rm_pool m) f" and "f i = 0"
  shows "rg_lock m i = (m, None)"
  using assms lock_dead [of "rm_pool m" i] by (simp add: rg_lock_def rg_pool_ok_def rg_view_def)

lemma rg_unlock_ok:
  assumes "rg_pool_ok (rm_pool m) f" and "0 < f i"
  obtains pool where "rg_unlock m i = m\<lparr>rm_pool := pool\<rparr>" "rg_pool_ok pool (f(i := f i - 1))" "rg_same (rm_pool m) pool"
proof -
  have o: "pool_wf (rm_pool m)" "pool_fits (rm_pool m)" "f 0 = 0" "pool_view (rm_pool m) = rg_view f" using assms(1) by (simp_all add: rg_pool_ok_def)
  have i: "i \<noteq> 0" using o(3) assms(2) by auto
  then have v: "pool_view (rm_pool m) i = Some (f i)" using o(4) assms(2) by (simp add: rg_view_def)
  obtain pool b where u: "prs_pool_unlock (rm_pool m) i = (pool, b)" "pool_wf pool"
      "pool_view pool = (pool_view (rm_pool m))(i := (if f i = 1 then None else Some (f i - 1)))"
    using unlock_internal_shared [OF o(1) v, of "()" None] unlock_internal_final [OF o(1), of i "()" False] v assms(2)
    by (cases "f i = 1") (auto simp: prs_pool_unlock_def)
  have "\<exists>h. pool = pool_set_header (rm_pool m) (prs_pool_get_entry (rm_pool m) i) h \<or> pool = rm_pool m"
    using u(1) by (auto simp: prs_pool_unlock_def prs_pool_unlock_internal_def Let_def split: if_splits prod.splits option.splits)
  then have s: "rg_same (rm_pool m) pool" "pool_fits pool" using rg_same_set_header o(2) by (auto simp: rg_same_def)
  have "pool_view pool = rg_view (f(i := f i - 1))" using u(3) o(4) i assms(2) by (auto simp: rg_view_def fun_eq_iff)
  then have "rg_pool_ok pool (f(i := f i - 1))" using u(2) s(2) o(3) i by (simp add: rg_pool_ok_def)
  then show thesis using that [of pool] u(1) s(1) by (simp add: rg_unlock_def)
qed

lemma rg_get_id:
  assumes "rg_pool_ok pool f" and "0 < f i"
  shows "prs_pool_get_id pool (rg_entry pool i) = i"
proof -
  have o: "pool_wf pool" "pool_fits pool" "f 0 = 0" "pool_view pool = rg_view f" using assms(1) by (simp_all add: rg_pool_ok_def)
  have "i \<noteq> 0" using o(3) assms(2) by auto
  then have "pool_view pool i = Some (f i)" using o(4) assms(2) by (simp add: rg_view_def)
  then show ?thesis using pool_index_of_data_ptr [OF o(2) get_entry_less [OF o(1)]]
    by (simp add: prs_pool_get_id_def rg_entry_def Let_def pool_view_Some_iff)
qed

lemma rg_entry_inj:
  assumes "rg_pool_ok pool f" and "0 < f i" and "0 < f j" and "rg_entry pool i = rg_entry pool j"
  shows "i = j"
  using rg_get_id [OF assms(1,2)] rg_get_id [OF assms(1,3)] unfolding assms(4) by (rule trans [OF sym])

text \<open>There is room while an entry of the pool is not allocated.\<close>

definition rg_room :: "unit prs_pool \<Rightarrow> bool" where
  "rg_room pool \<longleftrightarrow> (\<exists>e < length (pool_entries pool). \<not> hdr_alloc (pool_header pool e))"

lemma rg_alloc_ok:
  assumes "rg_pool_ok (rm_pool m) f" and "pool_ids_left (rm_pool m)" and "rg_room (rm_pool m)"
  obtains pool j where "prs_mpmcring_alloc (m, ring) =
      ((\<lparr>rm_pool = pool, rm_next = (rm_next m)(rg_entry (rm_pool m) j := PRS_POOL_ID_INVALID), rm_consumed = (rm_consumed m)(rg_entry (rm_pool m) j := False)\<rparr>, ring),
       Some (rg_entry (rm_pool m) j + mpmcring_data_offset))"
    "f j = 0" "j \<noteq> 0" "j \<noteq> PRS_POOL_ID_INVALID" "rg_pool_ok pool (f(j := 1))" "rg_entry pool = rg_entry (rm_pool m)"
proof -
  have o: "pool_wf (rm_pool m)" "pool_fits (rm_pool m)" "f 0 = 0" "pool_view (rm_pool m) = rg_view f" using assms(1) by (simp_all add: rg_pool_ok_def)
  from o(1) assms(2) show thesis
  proof (cases rule: prs_pool_alloc_cases)
    case full
    then show thesis using assms(3) by (auto simp: rg_room_def)
  next
    case (found j)
    let ?pool = "pool_alloc_at (rm_pool m) j"
    note w = pool_alloc_at_wf [OF o(1) found(1) [unfolded word_le_nat_alt] found(2,3)]
    have v: "pool_view (rm_pool m) j = None" using w(2) by simp
    then have j: "j \<noteq> 0" "f j = 0" using o(4) by (auto simp: rg_view_def split: if_splits)
    have vj: "pool_view ?pool j = Some 0" using w by simp
    have same: "rg_entry ?pool = rg_entry (rm_pool m)" "pool_fits ?pool" using o(2)
      by (simp_all add: rg_entry_def fun_eq_iff pool_alloc_at_def pool_data_ptr_def pool_entry_addr_def prs_pool_get_entry_def pool_fits_def pool_set_header_def)
    note l = lock_first_live [OF w(1) vj j(1)]
    have "\<exists>h. prs_pool_lock_first ?pool j = pool_set_header ?pool (prs_pool_get_entry ?pool j) h \<or> prs_pool_lock_first ?pool j = ?pool"
      by (auto simp: prs_pool_lock_first_def Let_def)
    then have s: "rg_entry (prs_pool_lock_first ?pool j) = rg_entry (rm_pool m)" "pool_fits (prs_pool_lock_first ?pool j)"
      using same rg_same_set_header by (auto simp: rg_same_def)
    have "pool_view (prs_pool_lock_first ?pool j) = rg_view (f(j := 1))" using l(2) w o(4) j by (auto simp: rg_view_def fun_eq_iff)
    then have "rg_pool_ok (prs_pool_lock_first ?pool j) (f(j := 1))" using l(1) s(2) o(3) j by (simp add: rg_pool_ok_def)
    moreover have "j \<noteq> PRS_POOL_ID_INVALID"
      using found(2) by (auto simp: PRS_POOL_ID_INVALID_def unsigned_minus_1_eq_mask mask_eq_exp_minus_1)
    ultimately show thesis using that [of "prs_pool_lock_first ?pool j" j] found(4) s(1) j
      by (simp add: prs_mpmcring_alloc_def rg_entry_def)
  qed
qed

section \<open>Rings in memory\<close>

text \<open>The linked IDs \<open>cs\<close>, the elements \<open>fr\<close> that were allocated and not pushed, and the elements \<open>pp\<close> that were popped and not freed. The
  ring holds one reference to each linked entry and the users one to each of theirs. Only the first entry may be consumed, and it may
  still be in use by the one who popped it. \<open>a\<close> gives the address of an ID.\<close>

definition rg_first :: "u64 list \<Rightarrow> u64" where
  "rg_first cs = (case cs of [] \<Rightarrow> PRS_POOL_ID_INVALID | i # _ \<Rightarrow> i)"

definition rg_last :: "u64 list \<Rightarrow> u64" where
  "rg_last cs = (if cs = [] then PRS_POOL_ID_INVALID else last cs)"

definition rg_refs :: "u64 list \<Rightarrow> u64 set \<Rightarrow> u64 \<Rightarrow> nat" where
  "rg_refs cs own i = of_bool (i \<in> set cs) + of_bool (i \<in> own)"

fun rg_links :: "(u64 \<Rightarrow> ptr) \<Rightarrow> (ptr \<Rightarrow> u64) \<Rightarrow> u64 list \<Rightarrow> bool" where
  "rg_links a nx [] \<longleftrightarrow> True"
| "rg_links a nx (i # cs) \<longleftrightarrow> nx (a i) = rg_first cs \<and> rg_links a nx cs"

definition rg_shape :: "(u64 \<Rightarrow> ptr) \<Rightarrow> (ptr \<Rightarrow> u64) \<Rightarrow> (ptr \<Rightarrow> bool) \<Rightarrow> prs_mpmcring \<Rightarrow> u64 list \<Rightarrow> u64 set \<Rightarrow> u64 set \<Rightarrow> bool" where
  "rg_shape a nx con ring cs fr pp \<longleftrightarrow> rg_links a nx cs \<and> distinct cs \<and> rg_head_id ring = rg_first cs \<and> rg_tail_id ring = rg_last cs
     \<and> (\<forall>i \<in> set (tl cs). \<not> con (a i)) \<and> set (tl cs) \<inter> pp = {} \<and> (\<forall>i \<in> set cs \<inter> pp. con (a i))
     \<and> fr \<inter> (set cs \<union> pp) = {} \<and> (\<forall>i \<in> fr. nx (a i) = PRS_POOL_ID_INVALID \<and> \<not> con (a i))"

definition rg_ids :: "rg_state \<Rightarrow> u64 list \<Rightarrow> u64 set \<Rightarrow> u64 set \<Rightarrow> bool" where
  "rg_ids s cs fr pp \<longleftrightarrow> rg_pool_ok (rm_pool (fst s)) (rg_refs cs (fr \<union> pp))
     \<and> rg_shape (rg_entry (rm_pool (fst s))) (rm_next (fst s)) (rm_consumed (fst s)) (snd s) cs fr pp"

lemma rg_first_simps [simp]: "rg_first [] = PRS_POOL_ID_INVALID" "rg_first (i # cs) = i"
  by (simp_all add: rg_first_def)

lemma rg_last_simps [simp]: "rg_last [] = PRS_POOL_ID_INVALID" "rg_last (cs @ [i]) = i" "rg_last (cs @ [j, i]) = i" "rg_last (i # j # cs) = rg_last (j # cs)"
  by (simp_all add: rg_last_def)

lemma rg_refs_less: "rg_refs cs own i \<le> 2"
  by (simp add: rg_refs_def)

lemma rg_invalid_dead: "rg_pool_ok pool f \<Longrightarrow> f PRS_POOL_ID_INVALID = 0"
  using pool_view_invalid [of pool] by (auto simp: rg_pool_ok_def rg_view_def split: if_splits)

lemma rg_inj: "rg_pool_ok pool f \<Longrightarrow> (\<And>i. i \<in> A \<Longrightarrow> 0 < f i) \<Longrightarrow> inj_on (rg_entry pool) A"
  using rg_entry_inj by (meson inj_onI)

lemma rg_links_cong:
  "(\<And>i. i \<in> set cs \<Longrightarrow> nx' (a i) = nx (a i)) \<Longrightarrow> rg_links a nx' cs = rg_links a nx cs"
  by (induction cs) auto

lemma rg_links_last: "rg_links a nx (cs @ [i]) \<Longrightarrow> nx (a i) = PRS_POOL_ID_INVALID"
  by (induction cs) auto

lemma rg_links_snoc:
  assumes "rg_links a nx (cs @ [t])" and "inj_on a (set (cs @ [t, i]))" and "distinct (cs @ [t, i])" and "nx (a i) = PRS_POOL_ID_INVALID"
  shows "rg_links a (nx(a t := i)) (cs @ [t, i])"
  using assms
proof (induction cs)
  case Nil
  then show ?case by (auto simp: inj_on_def)
next
  case (Cons c cs)
  have "rg_links a (nx(a t := i)) (cs @ [t, i])"
    by (rule Cons.IH) (use Cons.prems in \<open>auto intro: inj_on_subset\<close>)
  moreover have "a c \<noteq> a t" using Cons.prems(2,3) by (auto simp: inj_on_def)
  moreover have "rg_first (cs @ [t, i]) = rg_first (cs @ [t])" by (cases cs) simp_all
  ultimately show ?case using Cons.prems(1) by (simp add: fun_upd_def)
qed

text \<open>The changes of shape.\<close>

lemma rg_shape_alloc:
  assumes "rg_shape a nx con ring cs fr pp" and "j \<notin> set cs \<union> fr \<union> pp" and "inj_on a (insert j (set cs \<union> fr \<union> pp))"
  shows "rg_shape a (nx(a j := PRS_POOL_ID_INVALID)) (con(a j := False)) ring cs (insert j fr) pp"
proof -
  have ne: "a i \<noteq> a j" if "i \<in> set cs \<union> fr \<union> pp" for i using that assms(2,3) by (auto simp: inj_on_def)
  have l: "rg_links a (nx(a j := PRS_POOL_ID_INVALID)) cs = rg_links a nx cs" using ne by (intro rg_links_cong) auto
  have t: "i \<in> set (tl cs) \<Longrightarrow> i \<in> set cs" for i by (cases cs) auto
  show ?thesis using assms(1,2) ne t unfolding rg_shape_def l by auto
qed

lemma rg_shape_push:
  assumes "rg_shape a nx con ring cs fr pp" and "i \<in> fr" and "inj_on a (set cs \<union> fr \<union> pp)"
  shows "cs = [] \<Longrightarrow> rg_shape a nx con (ring\<lparr>rg_tail_id := i, rg_head_id := i\<rparr>) [i] (fr - {i}) pp"
    and "cs = cs' @ [t] \<Longrightarrow> rg_shape a (nx(a t := i)) con (ring\<lparr>rg_tail_id := i\<rparr>) (cs @ [i]) (fr - {i}) pp"
proof -
  have i: "i \<notin> set cs" "i \<notin> pp" "nx (a i) = PRS_POOL_ID_INVALID" "\<not> con (a i)" using assms(1,2) by (auto simp: rg_shape_def)
  show "cs = [] \<Longrightarrow> rg_shape a nx con (ring\<lparr>rg_tail_id := i, rg_head_id := i\<rparr>) [i] (fr - {i}) pp"
    using assms(1) i by (auto simp: rg_shape_def rg_last_def)
  assume c: "cs = cs' @ [t]"
  have n: "x \<in> fr \<Longrightarrow> a x \<noteq> a t" for x using assms(1,3) c by (auto simp: rg_shape_def inj_on_def)
  have j: "inj_on a (set (cs' @ [t, i]))" by (rule inj_on_subset [OF assms(3)]) (use assms(2) c in auto)
  have "rg_links a (nx(a t := i)) (cs' @ [t, i])"
    by (rule rg_links_snoc [OF _ j]) (use assms(1) i c in \<open>auto simp: rg_shape_def\<close>)
  moreover have "rg_first (cs @ [i]) = rg_first cs" "tl (cs @ [i]) = tl cs @ [i]" using c by (cases cs'; simp)+
  ultimately show "rg_shape a (nx(a t := i)) con (ring\<lparr>rg_tail_id := i\<rparr>) (cs @ [i]) (fr - {i}) pp"
    using assms(1) i n c by (auto simp: rg_shape_def)
qed

lemma rg_shape_take:
  assumes "rg_shape a nx con ring (h # cs) fr pp" and "inj_on a (set (h # cs) \<union> fr \<union> pp)"
  shows "rg_shape a nx (con(a h := True)) ring (h # cs) fr (insert h pp)" and "rg_shape a nx (con(a h := True)) ring (h # cs) fr pp"
proof -
  have ne: "a i \<noteq> a h" if "i \<in> set cs \<union> fr" for i using that assms by (auto simp: rg_shape_def inj_on_def)
  show "rg_shape a nx (con(a h := True)) ring (h # cs) fr (insert h pp)" "rg_shape a nx (con(a h := True)) ring (h # cs) fr pp"
    using assms(1) ne by (auto simp: rg_shape_def)
qed

lemma rg_shape_advance:
  assumes "rg_shape a nx con ring (h # n # cs) fr pp"
  shows "rg_shape a nx con (ring\<lparr>rg_head_id := n\<rparr>) (n # cs) fr pp"
  using assms by (auto simp: rg_shape_def)

lemma rg_shape_own:
  assumes "rg_shape a nx con ring cs fr pp" and "h \<notin> set cs" and "h \<notin> fr"
  shows "rg_shape a nx con ring cs fr (insert h pp)"
proof -
  have "i \<in> set (tl cs) \<Longrightarrow> i \<in> set cs" for i by (cases cs) auto
  then show ?thesis using assms by (auto simp: rg_shape_def)
qed

lemma rg_shape_free: "rg_shape a nx con ring cs fr pp \<Longrightarrow> rg_shape a nx con ring cs (fr - {p}) (pp - {p})"
  by (auto simp: rg_shape_def)

text \<open>What a ring in memory tells about its pool.\<close>

lemma rg_idsD:
  assumes "rg_ids (m, ring) cs fr pp"
  shows "rg_pool_ok (rm_pool m) (rg_refs cs (fr \<union> pp))" "rg_shape (rg_entry (rm_pool m)) (rm_next m) (rm_consumed m) ring cs fr pp"
    "inj_on (rg_entry (rm_pool m)) (set cs \<union> fr \<union> pp)" "PRS_POOL_ID_INVALID \<notin> set cs \<union> fr \<union> pp"
proof -
  show ok: "rg_pool_ok (rm_pool m) (rg_refs cs (fr \<union> pp))" and "rg_shape (rg_entry (rm_pool m)) (rm_next m) (rm_consumed m) ring cs fr pp"
    using assms by (simp_all add: rg_ids_def)
  show "inj_on (rg_entry (rm_pool m)) (set cs \<union> fr \<union> pp)"
    by (rule rg_inj [OF ok]) (auto simp: rg_refs_def)
  show "PRS_POOL_ID_INVALID \<notin> set cs \<union> fr \<union> pp"
    using rg_invalid_dead [OF ok] by (auto simp: rg_refs_def)
qed

section \<open>The operations on a ring in memory\<close>

lemma rg_alloc_ids:
  assumes "rg_ids (m, ring) cs fr pp" and "pool_ids_left (rm_pool m)" and "rg_room (rm_pool m)"
  obtains m' j where "prs_mpmcring_alloc (m, ring) = ((m', ring), Some (rg_entry (rm_pool m) j + mpmcring_data_offset))"
    "j \<notin> set cs \<union> fr \<union> pp" "rg_ids (m', ring) cs (insert j fr) pp" "rg_entry (rm_pool m') = rg_entry (rm_pool m)"
    "\<forall>i \<in> set cs. rm_consumed m' (rg_entry (rm_pool m) i) = rm_consumed m (rg_entry (rm_pool m) i)"
proof -
  note d = rg_idsD [OF assms(1)]
  obtain pool j where a: "prs_mpmcring_alloc (m, ring) =
      ((\<lparr>rm_pool = pool, rm_next = (rm_next m)(rg_entry (rm_pool m) j := PRS_POOL_ID_INVALID), rm_consumed = (rm_consumed m)(rg_entry (rm_pool m) j := False)\<rparr>, ring),
       Some (rg_entry (rm_pool m) j + mpmcring_data_offset))"
    "rg_refs cs (fr \<union> pp) j = 0" "rg_pool_ok pool ((rg_refs cs (fr \<union> pp))(j := 1))" "rg_entry pool = rg_entry (rm_pool m)"
    by (rule rg_alloc_ok [OF d(1) assms(2,3)])
  have j: "j \<notin> set cs \<union> fr \<union> pp" using a(2) by (auto simp: rg_refs_def)
  then have f: "(rg_refs cs (fr \<union> pp))(j := 1) = rg_refs cs (insert j fr \<union> pp)" by (auto simp: rg_refs_def fun_eq_iff)
  have inj: "inj_on (rg_entry (rm_pool m)) (insert j (set cs \<union> fr \<union> pp))"
    by (rule rg_inj [OF a(3), unfolded a(4)]) (auto simp: rg_refs_def)
  then have "rg_entry (rm_pool m) i \<noteq> rg_entry (rm_pool m) j" if "i \<in> set cs" for i using that j by (auto simp: inj_on_def)
  then show thesis using that [OF a(1) j] a(3,4) rg_shape_alloc [OF d(2) j inj] f by (simp add: rg_ids_def)
qed

lemma rg_free_ids:
  assumes "rg_ids (m, ring) cs fr pp" and "i \<in> fr \<union> pp"
  obtains m' where "prs_mpmcring_free (m, ring) (rg_entry (rm_pool m) i + mpmcring_data_offset) = (m', ring)" "rg_ids (m', ring) cs (fr - {i}) (pp - {i})"
    "rg_entry (rm_pool m') = rg_entry (rm_pool m)" "rm_consumed m' = rm_consumed m"
proof -
  note d = rg_idsD [OF assms(1)]
  have pos: "0 < rg_refs cs (fr \<union> pp) i" using assms(2) by (simp add: rg_refs_def)
  obtain pool where u: "rg_unlock m i = m\<lparr>rm_pool := pool\<rparr>" "rg_pool_ok pool ((rg_refs cs (fr \<union> pp))(i := rg_refs cs (fr \<union> pp) i - 1))" "rg_same (rm_pool m) pool"
    by (rule rg_unlock_ok [OF d(1) pos])
  have f: "(rg_refs cs (fr \<union> pp))(i := rg_refs cs (fr \<union> pp) i - 1) = rg_refs cs ((fr - {i}) \<union> (pp - {i}))"
    using assms(2) by (auto simp: rg_refs_def fun_eq_iff)
  show thesis
    using that [of "m\<lparr>rm_pool := pool\<rparr>"] u f rg_shape_free [OF d(2), of i] rg_get_id [OF d(1) pos]
    by (simp add: prs_mpmcring_free_def prs_mpmcring_data_to_entry_def rg_ids_def rg_same_def)
qed

lemma rg_push_ids:
  assumes "rg_ids (m, ring) cs fr pp" and "i \<in> fr"
  obtains m' ring' where "prs_mpmcring_push (m, ring) (rg_entry (rm_pool m) i + mpmcring_data_offset) = Some (m', ring')" "rg_ids (m', ring') (cs @ [i]) (fr - {i}) pp"
    "rg_entry (rm_pool m') = rg_entry (rm_pool m)" "rm_consumed m' = rm_consumed m"
proof -
  note d = rg_idsD [OF assms(1)]
  have i: "i \<notin> set cs" "i \<notin> pp" using d(2) assms(2) by (auto simp: rg_shape_def)
  have f: "rg_refs (cs @ [i]) ((fr - {i}) \<union> pp) = rg_refs cs (fr \<union> pp)" using assms(2) i by (auto simp: rg_refs_def fun_eq_iff)
  have gid: "prs_pool_get_id (rm_pool m) (rg_entry (rm_pool m) i) = i" using rg_get_id [OF d(1), of i] assms(2) by (simp add: rg_refs_def)
  have tl: "rg_tail_id ring = rg_last cs" using d(2) by (simp add: rg_shape_def)
  show thesis
  proof (cases cs rule: rev_cases)
    case Nil
    then have "prs_mpmcring_push (m, ring) (rg_entry (rm_pool m) i + mpmcring_data_offset) = Some (m, ring\<lparr>rg_tail_id := i, rg_head_id := i\<rparr>)"
      using gid tl by (simp add: prs_mpmcring_push_def prs_mpmcring_data_to_entry_def rg_load_tail_def) (subst mpmcring_push_loop.simps, simp add: atomic_compare_exchange_def)
    then show thesis using that [of m "ring\<lparr>rg_tail_id := i, rg_head_id := i\<rparr>"] rg_shape_push(1) [OF d(2) assms(2) d(3) Nil] d(1) f Nil by (simp add: rg_ids_def)
  next
    case (snoc cs' t)
    have t: "t \<noteq> PRS_POOL_ID_INVALID" "0 < rg_refs cs (fr \<union> pp) t" "rg_refs cs (fr \<union> pp) t < 2047" using d(4) snoc by (auto simp: rg_refs_def)
    have nx: "rm_next m (rg_entry (rm_pool m) t) = PRS_POOL_ID_INVALID" using d(2) snoc rg_links_last by (auto simp: rg_shape_def)
    obtain p1 where l: "rg_lock m t = (m\<lparr>rm_pool := p1\<rparr>, Some (rg_entry (rm_pool m) t))" "rg_pool_ok p1 ((rg_refs cs (fr \<union> pp))(t := rg_refs cs (fr \<union> pp) t + 1))"
        "rg_same (rm_pool m) p1"
      by (rule rg_lock_ok [OF d(1) t(2,3)])
    define m1 where "m1 = m\<lparr>rm_pool := p1, rm_next := (rm_next m)(rg_entry (rm_pool m) t := i)\<rparr>"
    have ok: "rg_pool_ok (rm_pool m1) ((rg_refs cs (fr \<union> pp))(t := rg_refs cs (fr \<union> pp) t + 1))" using l(2) by (simp add: m1_def)
    obtain p2 where u: "rg_unlock m1 t = m1\<lparr>rm_pool := p2\<rparr>" "rg_pool_ok p2 (rg_refs cs (fr \<union> pp))" "rg_same p1 p2"
      by (rule rg_unlock_ok [OF ok, of t]) (simp_all add: m1_def)
    have "prs_mpmcring_push (m, ring) (rg_entry (rm_pool m) i + mpmcring_data_offset) = Some (m1\<lparr>rm_pool := p2\<rparr>, ring\<lparr>rg_tail_id := i\<rparr>)"
      using gid tl snoc t(1) l(1) nx u(1)
      by (simp add: prs_mpmcring_push_def prs_mpmcring_data_to_entry_def rg_load_tail_def m1_def)
        (subst mpmcring_push_loop.simps, simp add: atomic_compare_exchange_def)
    moreover have "rg_ids (m1\<lparr>rm_pool := p2\<rparr>, ring\<lparr>rg_tail_id := i\<rparr>) (cs @ [i]) (fr - {i}) pp"
      using rg_shape_push(2) [OF d(2) assms(2) d(3) snoc] u(2,3) l(3) f by (simp add: rg_ids_def rg_same_def m1_def)
    ultimately show thesis using that l(3) u(3) by (simp add: rg_same_def m1_def)
  qed
qed

text \<open>A ring whose first entry is locked by the running pop.\<close>

definition rg_held :: "mpmcring_memory \<Rightarrow> prs_mpmcring \<Rightarrow> u64 \<Rightarrow> u64 list \<Rightarrow> u64 set \<Rightarrow> u64 set \<Rightarrow> bool" where
  "rg_held m ring h cs fr pp \<longleftrightarrow> rg_pool_ok (rm_pool m) ((rg_refs (h # cs) (fr \<union> pp))(h := rg_refs (h # cs) (fr \<union> pp) h + 1))
     \<and> rg_shape (rg_entry (rm_pool m)) (rm_next m) (rm_consumed m) ring (h # cs) fr pp"

lemma rg_heldD:
  assumes "rg_held m ring h cs fr pp"
  shows "rg_pool_ok (rm_pool m) ((rg_refs (h # cs) (fr \<union> pp))(h := rg_refs (h # cs) (fr \<union> pp) h + 1))"
    "rg_shape (rg_entry (rm_pool m)) (rm_next m) (rm_consumed m) ring (h # cs) fr pp"
    "inj_on (rg_entry (rm_pool m)) (set (h # cs) \<union> fr \<union> pp)" "PRS_POOL_ID_INVALID \<notin> set (h # cs) \<union> fr \<union> pp"
    "rm_next m (rg_entry (rm_pool m) h) = rg_first cs" "rg_head_id ring = h" "h \<notin> set cs" "h \<notin> fr" "set cs \<inter> (fr \<union> pp) = {}"
proof -
  show ok: "rg_pool_ok (rm_pool m) ((rg_refs (h # cs) (fr \<union> pp))(h := rg_refs (h # cs) (fr \<union> pp) h + 1))"
    and sh: "rg_shape (rg_entry (rm_pool m)) (rm_next m) (rm_consumed m) ring (h # cs) fr pp"
    using assms by (simp_all add: rg_held_def)
  show "inj_on (rg_entry (rm_pool m)) (set (h # cs) \<union> fr \<union> pp)" by (rule rg_inj [OF ok]) (auto simp: rg_refs_def)
  show "PRS_POOL_ID_INVALID \<notin> set (h # cs) \<union> fr \<union> pp" using rg_invalid_dead [OF ok] by (auto simp: rg_refs_def split: if_splits)
  show "rm_next m (rg_entry (rm_pool m) h) = rg_first cs" "rg_head_id ring = h" "h \<notin> set cs" "h \<notin> fr" "set cs \<inter> (fr \<union> pp) = {}"
    using sh by (auto simp: rg_shape_def)
qed

text \<open>The entry is taken: without a successor it stays linked, with one the ring gives up its reference.\<close>

lemma rg_pop_take:
  assumes "rg_held m ring h cs fr pp" and "\<not> rm_consumed m (rg_entry (rm_pool m) h)"
  obtains m' ring' where "mpmcring_pop_loop (m, ring) h (Some (rg_entry (rm_pool m) h)) = Some ((m', ring'), Some (rg_entry (rm_pool m) h + mpmcring_data_offset))"
    "rg_ids (m', ring') (if cs = [] then [h] else cs) fr (insert h pp)" "rg_entry (rm_pool m') = rg_entry (rm_pool m)"
    "rm_consumed m' = (rm_consumed m)(rg_entry (rm_pool m) h := True)"
proof -
  note d = rg_heldD [OF assms(1)]
  let ?e = "rg_entry (rm_pool m)"
  have h: "h \<notin> pp" using d(2) assms(2) by (auto simp: rg_shape_def)
  define m1 where "m1 = m\<lparr>rm_consumed := (rm_consumed m)(?e h := True)\<rparr>"
  have m1: "rm_pool m1 = rm_pool m" "rm_next m1 = rm_next m" "rm_consumed m1 = (rm_consumed m)(?e h := True)" by (simp_all add: m1_def)
  note sh = rg_shape_take [OF d(2,3)]
  show thesis
  proof (cases cs)
    case Nil
    have f: "(rg_refs (h # cs) (fr \<union> pp))(h := rg_refs (h # cs) (fr \<union> pp) h + 1) = rg_refs [h] (fr \<union> insert h pp)"
      using Nil h d(8) by (auto simp: rg_refs_def fun_eq_iff)
    have "mpmcring_pop_loop (m, ring) h (Some (?e h)) = Some ((m1, ring), Some (?e h + mpmcring_data_offset))"
      using d(5) Nil assms(2) by (subst mpmcring_pop_loop.simps) (simp add: atomic_exchange_def m1_def)
    then show thesis using that [of m1 ring] m1 d(1) f sh(1) Nil by (simp add: rg_ids_def)
  next
    case (Cons n cs2)
    have ok: "rg_pool_ok (rm_pool m1) ((rg_refs (h # cs) (fr \<union> pp))(h := rg_refs (h # cs) (fr \<union> pp) h + 1))" using d(1) by (simp add: m1)
    obtain pool where u: "rg_unlock m1 h = m1\<lparr>rm_pool := pool\<rparr>" "rg_pool_ok pool (rg_refs (h # cs) (fr \<union> pp))" "rg_same (rm_pool m) pool"
      by (rule rg_unlock_ok [OF ok, of h]) (simp_all add: m1)
    have f: "rg_refs (h # cs) (fr \<union> pp) = rg_refs cs (fr \<union> insert h pp)" using h d(7,8) by (auto simp: rg_refs_def fun_eq_iff)
    have n: "n \<noteq> PRS_POOL_ID_INVALID" using d(4) Cons by auto
    have "mpmcring_pop_loop (m, ring) h (Some (?e h)) = Some ((m1\<lparr>rm_pool := pool\<rparr>, ring\<lparr>rg_head_id := n\<rparr>), Some (?e h + mpmcring_data_offset))"
      using d(5,6) Cons n assms(2) u(1) by (subst mpmcring_pop_loop.simps) (simp add: atomic_exchange_def atomic_compare_exchange_def m1_def)
    moreover have "rg_shape ?e (rm_next m) (rm_consumed m1) (ring\<lparr>rg_head_id := n\<rparr>) cs fr (insert h pp)"
      using rg_shape_own [OF rg_shape_advance [OF sh(2) [unfolded Cons]]] d(7,8) Cons by (simp add: m1)
    ultimately show thesis using that [of "m1\<lparr>rm_pool := pool\<rparr>" "ring\<lparr>rg_head_id := n\<rparr>"] u(2,3) f m1 Cons by (simp add: rg_ids_def rg_same_def)
  qed
qed

text \<open>The entry was consumed before: without a successor the ring is empty, with one the search goes on there.\<close>

lemma rg_pop_empty:
  assumes "rg_held m ring h [] fr pp" and "rm_consumed m (rg_entry (rm_pool m) h)"
  obtains m' where "mpmcring_pop_loop (m, ring) h (Some (rg_entry (rm_pool m) h)) = Some ((m', ring), None)" "rg_ids (m', ring) [h] fr pp"
    "rg_entry (rm_pool m') = rg_entry (rm_pool m)" "rm_consumed m' = rm_consumed m"
proof -
  note d = rg_heldD [OF assms(1)]
  obtain pool where u: "rg_unlock m h = m\<lparr>rm_pool := pool\<rparr>" "rg_pool_ok pool (rg_refs [h] (fr \<union> pp))" "rg_same (rm_pool m) pool"
    by (rule rg_unlock_ok [OF d(1), of h]) simp_all
  have c: "(rm_consumed m)(rg_entry (rm_pool m) h := True) = rm_consumed m" using assms(2) by (auto simp: fun_eq_iff)
  have "mpmcring_pop_loop (m, ring) h (Some (rg_entry (rm_pool m) h)) = Some ((m\<lparr>rm_pool := pool\<rparr>, ring), None)"
    using d(5) assms(2) u(1) by (subst mpmcring_pop_loop.simps) (simp add: atomic_exchange_def c)
  then show thesis using that [of "m\<lparr>rm_pool := pool\<rparr>"] u d(2) by (simp add: rg_ids_def rg_same_def)
qed

lemma rg_pop_skip:
  assumes "rg_held m ring h (n # cs) fr pp" and "rm_consumed m (rg_entry (rm_pool m) h)"
  obtains m' where "mpmcring_pop_loop (m, ring) h (Some (rg_entry (rm_pool m) h)) = mpmcring_pop_loop (m', ring\<lparr>rg_head_id := n\<rparr>) n (Some (rg_entry (rm_pool m) n))"
    "rg_held m' (ring\<lparr>rg_head_id := n\<rparr>) n cs fr pp" "rg_entry (rm_pool m') = rg_entry (rm_pool m)" "rm_consumed m' = rm_consumed m"
proof -
  note d = rg_heldD [OF assms(1)]
  let ?e = "rg_entry (rm_pool m)" and ?ring = "ring\<lparr>rg_head_id := n\<rparr>"
  have nn: "n \<noteq> PRS_POOL_ID_INVALID" "h \<noteq> n" "n \<notin> pp" "n \<notin> fr" "n \<notin> set cs" using d(2,4,7,9) by (auto simp: rg_shape_def)
  have c: "(rm_consumed m)(?e h := True) = rm_consumed m" using assms(2) by (auto simp: fun_eq_iff)
  obtain p1 where u1: "rg_unlock m h = m\<lparr>rm_pool := p1\<rparr>" "rg_pool_ok p1 (rg_refs (h # n # cs) (fr \<union> pp))" "rg_same (rm_pool m) p1"
    by (rule rg_unlock_ok [OF d(1), of h]) simp_all
  define m1 where "m1 = m\<lparr>rm_pool := p1\<rparr>"
  have ok1: "rg_pool_ok (rm_pool m1) (rg_refs (h # n # cs) (fr \<union> pp))" using u1(2) by (simp add: m1_def)
  have f: "(rg_refs (h # n # cs) (fr \<union> pp))(h := rg_refs (h # n # cs) (fr \<union> pp) h - 1) = rg_refs (n # cs) (fr \<union> pp)"
    using d(7) by (auto simp: rg_refs_def fun_eq_iff)
  obtain p2 where u2: "rg_unlock m1 h = m1\<lparr>rm_pool := p2\<rparr>" "rg_pool_ok p2 (rg_refs (n # cs) (fr \<union> pp))" "rg_same p1 p2"
    by (rule rg_unlock_ok [OF ok1, of h]) (simp_all add: f [simplified], simp_all add: rg_refs_def m1_def)
  define m2 where "m2 = m1\<lparr>rm_pool := p2\<rparr>"
  have ok2: "rg_pool_ok (rm_pool m2) (rg_refs (n # cs) (fr \<union> pp))" using u2(2) by (simp add: m2_def)
  have step: "mpmcring_pop_loop (m, ring) h (Some (?e h)) = (let (m, entry) = rg_lock m2 h in mpmcring_pop_loop (m, ?ring) h entry)"
    using d(5,6) assms(2) u1(1) u2(1) nn
    by (subst mpmcring_pop_loop.simps) (simp add: atomic_exchange_def atomic_compare_exchange_def c m1_def m2_def)
  have same: "rg_entry (rm_pool m2) = ?e" "rm_next m2 = rm_next m" "rm_consumed m2 = rm_consumed m" using u1(3) u2(3) by (simp_all add: rg_same_def m1_def m2_def)
  have sh: "rg_shape ?e (rm_next m) (rm_consumed m) ?ring (n # cs) fr pp" by (rule rg_shape_advance [OF d(2)])
  have posn: "0 < rg_refs (n # cs) (fr \<union> pp) n" "rg_refs (n # cs) (fr \<union> pp) n < 2047" by (simp_all add: rg_refs_def)
  have fin: "\<exists>m'. rg_lock m3 n = (m', Some (?e n)) \<and> rg_held m' ?ring n cs fr pp \<and> rg_entry (rm_pool m') = ?e \<and> rm_consumed m' = rm_consumed m"
    if "rg_pool_ok (rm_pool m3) (rg_refs (n # cs) (fr \<union> pp))" "rg_entry (rm_pool m3) = ?e" "rm_next m3 = rm_next m" "rm_consumed m3 = rm_consumed m" for m3
    by (rule rg_lock_ok [OF that(1) posn]) (use that sh in \<open>auto simp: rg_held_def rg_same_def\<close>)
  show thesis
  proof (cases "rg_refs (n # cs) (fr \<union> pp) h")
    case 0
    obtain m' where m': "rg_lock m2 n = (m', Some (?e n))" "rg_held m' ?ring n cs fr pp" "rg_entry (rm_pool m') = ?e" "rm_consumed m' = rm_consumed m"
      using fin [OF ok2 same] by blast
    have "mpmcring_pop_loop (m2, ?ring) h None = mpmcring_pop_loop (m', ?ring) n (Some (?e n))"
      using nn m'(1) by (subst mpmcring_pop_loop.simps) (auto simp: Let_def)
    then show thesis using that [OF _ m'(2-4)] step rg_lock_dead [OF ok2 0] by simp
  next
    case (Suc k)
    then have pos: "0 < rg_refs (n # cs) (fr \<union> pp) h" "rg_refs (n # cs) (fr \<union> pp) h < 2047" using rg_refs_less [of "n # cs" "fr \<union> pp" h] by simp_all
    obtain p3 where l: "rg_lock m2 h = (m2\<lparr>rm_pool := p3\<rparr>, Some (?e h))"
        "rg_pool_ok p3 ((rg_refs (n # cs) (fr \<union> pp))(h := rg_refs (n # cs) (fr \<union> pp) h + 1))" "rg_same (rm_pool m2) p3"
      by (rule rg_lock_ok [OF ok2 pos]) (simp add: same)
    define m3 where "m3 = m2\<lparr>rm_pool := p3\<rparr>"
    have ok3: "rg_pool_ok (rm_pool m3) ((rg_refs (n # cs) (fr \<union> pp))(h := rg_refs (n # cs) (fr \<union> pp) h + 1))" using l(2) by (simp add: m3_def)
    obtain p4 where u: "rg_unlock m3 h = m3\<lparr>rm_pool := p4\<rparr>" "rg_pool_ok p4 (rg_refs (n # cs) (fr \<union> pp))" "rg_same p3 p4"
      by (rule rg_unlock_ok [OF ok3, of h]) (simp_all add: m3_def)
    have s4: "rg_entry p4 = ?e" using u(3) l(3) same(1) by (simp add: rg_same_def)
    obtain m' where m': "rg_lock (m3\<lparr>rm_pool := p4\<rparr>) n = (m', Some (?e n))" "rg_held m' ?ring n cs fr pp" "rg_entry (rm_pool m') = ?e" "rm_consumed m' = rm_consumed m"
      using fin [of "m3\<lparr>rm_pool := p4\<rparr>"] u(2) s4 same by (auto simp: m3_def)
    have s3: "rm_consumed m3 = rm_consumed m" "rm_next m3 = rm_next m" using same by (simp_all add: m3_def)
    have e3: "m3\<lparr>rm_consumed := rm_consumed m\<rparr> = m3" by (subst s3(1) [symmetric]) simp
    have "mpmcring_pop_loop (m3, ?ring) h (Some (?e h)) = mpmcring_pop_loop (m', ?ring) n (Some (?e n))"
      using nn u(1) m'(1) assms(2) d(5) c s3
      by (subst mpmcring_pop_loop.simps) (simp add: atomic_exchange_def atomic_compare_exchange_def e3)
    then show thesis using that [OF _ m'(2-4)] step l(1) by (simp add: m3_def)
  qed
qed

lemma rg_pop_ids:
  assumes "rg_ids (m, ring) cs fr pp"
  obtains (empty) m' ring' where "filter (\<lambda>i. \<not> rm_consumed m (rg_entry (rm_pool m) i)) cs = []" "prs_mpmcring_pop (m, ring) = Some ((m', ring'), None)"
      "rg_ids (m', ring') cs fr pp" "rg_entry (rm_pool m') = rg_entry (rm_pool m)" "rm_consumed m' = rm_consumed m"
  | (found) m' ring' cs' i where "filter (\<lambda>i. \<not> rm_consumed m (rg_entry (rm_pool m) i)) cs = i # filter (\<lambda>i. \<not> rm_consumed m' (rg_entry (rm_pool m) i)) cs'"
      "prs_mpmcring_pop (m, ring) = Some ((m', ring'), Some (rg_entry (rm_pool m) i + mpmcring_data_offset))"
      "rg_ids (m', ring') cs' fr (insert i pp)" "rg_entry (rm_pool m') = rg_entry (rm_pool m)" "i \<notin> fr \<union> pp"
proof (cases cs)
  case Nil
  have "rg_head_id ring = PRS_POOL_ID_INVALID" using assms Nil by (simp add: rg_ids_def rg_shape_def)
  then have "prs_mpmcring_pop (m, ring) = Some ((m, ring), None)"
    by (simp add: prs_mpmcring_pop_def) (subst mpmcring_pop_loop.simps, simp)
  then show thesis using empty [of m ring] Nil assms by simp
next
  case (Cons h cs1)
  note d = rg_idsD [OF assms]
  let ?e = "rg_entry (rm_pool m)"
  have h: "rg_head_id ring = h" "h \<noteq> PRS_POOL_ID_INVALID" using d(2,4) Cons by (auto simp: rg_shape_def)
  have tl: "\<forall>i \<in> set cs1. \<not> rm_consumed m (?e i)" using d(2) Cons by (simp add: rg_shape_def)
  have pos: "0 < rg_refs cs (fr \<union> pp) h" "rg_refs cs (fr \<union> pp) h < 2047" using Cons by (simp_all add: rg_refs_def)
  obtain p1 where l: "rg_lock m h = (m\<lparr>rm_pool := p1\<rparr>, Some (?e h))" "rg_pool_ok p1 ((rg_refs cs (fr \<union> pp))(h := rg_refs cs (fr \<union> pp) h + 1))" "rg_same (rm_pool m) p1"
    by (rule rg_lock_ok [OF d(1) pos])
  define m1 where "m1 = m\<lparr>rm_pool := p1\<rparr>"
  have m1: "rg_entry (rm_pool m1) = ?e" "rm_consumed m1 = rm_consumed m" "rg_held m1 ring h cs1 fr pp"
    using l(2,3) d(2) Cons by (simp_all add: m1_def rg_same_def rg_held_def)
  have run: "prs_mpmcring_pop (m, ring) = mpmcring_pop_loop (m1, ring) h (Some (?e h))" using h l(1) by (simp add: prs_mpmcring_pop_def m1_def)
  have take: thesis if held: "rg_held m2 ring2 i cs2 fr pp" "rg_entry (rm_pool m2) = ?e" "rm_consumed m2 = rm_consumed m"
      and u: "\<not> rm_consumed m (?e i)" "\<forall>i \<in> set cs2. \<not> rm_consumed m (?e i)"
      and fl: "filter (\<lambda>i. \<not> rm_consumed m (?e i)) cs = i # cs2" and run2: "prs_mpmcring_pop (m, ring) = mpmcring_pop_loop (m2, ring2) i (Some (?e i))"
    for m2 ring2 i cs2
  proof -
    note hd = rg_heldD [OF held(1)]
    have u2: "\<not> rm_consumed m2 (rg_entry (rm_pool m2) i)" using u(1) held(2,3) by simp
    obtain m' ring' where t: "mpmcring_pop_loop (m2, ring2) i (Some (rg_entry (rm_pool m2) i)) = Some ((m', ring'), Some (rg_entry (rm_pool m2) i + mpmcring_data_offset))"
        "rg_ids (m', ring') (if cs2 = [] then [i] else cs2) fr (insert i pp)" "rg_entry (rm_pool m') = rg_entry (rm_pool m2)"
        "rm_consumed m' = (rm_consumed m2)(rg_entry (rm_pool m2) i := True)"
      by (rule rg_pop_take [OF held(1) u2])
    have "?e j \<noteq> ?e i" if "j \<in> set cs2" for j using hd(3,7) that held(2) by (auto simp: inj_on_def)
    then have "filter (\<lambda>j. \<not> rm_consumed m' (?e j)) (if cs2 = [] then [i] else cs2) = cs2" using t(4) held(2,3) u(2) by (auto intro!: filter_True)
    moreover have "i \<notin> fr \<union> pp" using hd(2,8) u2 by (auto simp: rg_shape_def)
    ultimately show thesis using found [of i m' "if cs2 = [] then [i] else cs2" ring'] t fl run2 held(2) by simp
  qed
  consider "\<not> rm_consumed m (?e h)" | "rm_consumed m (?e h)" "cs1 = []" | n cs2 where "rm_consumed m (?e h)" "cs1 = n # cs2"
    by (cases cs1) auto
  then show thesis
  proof cases
    case 1
    then show thesis using take [OF m1(3,1,2) 1 tl _ run] Cons tl by (simp add: filter_id_conv)
  next
    case 2
    have c: "rm_consumed m1 (rg_entry (rm_pool m1) h)" using 2 m1 by simp
    obtain m' where e: "mpmcring_pop_loop (m1, ring) h (Some (rg_entry (rm_pool m1) h)) = Some ((m', ring), None)" "rg_ids (m', ring) [h] fr pp"
        "rg_entry (rm_pool m') = rg_entry (rm_pool m1)" "rm_consumed m' = rm_consumed m1"
      by (rule rg_pop_empty [OF m1(3) [unfolded 2(2)] c])
    then show thesis using empty [of m' ring] run Cons 2 m1 by simp
  next
    case 3
    have c: "rm_consumed m1 (rg_entry (rm_pool m1) h)" using 3 m1 by simp
    obtain m2 where e: "mpmcring_pop_loop (m1, ring) h (Some (rg_entry (rm_pool m1) h)) =
          mpmcring_pop_loop (m2, ring\<lparr>rg_head_id := n\<rparr>) n (Some (rg_entry (rm_pool m1) n))"
        "rg_held m2 (ring\<lparr>rg_head_id := n\<rparr>) n cs2 fr pp" "rg_entry (rm_pool m2) = rg_entry (rm_pool m1)" "rm_consumed m2 = rm_consumed m1"
      by (rule rg_pop_skip [OF m1(3) [unfolded 3(2)] c])
    show thesis using take [OF e(2)] e(1,3,4) run m1 Cons 3 tl by (simp add: filter_id_conv)
  qed
qed

section \<open>What a user of a ring relies on\<close>

text \<open>The abstract ring: the elements in the queue, those handed out by the allocation, and those popped and not freed yet.\<close>

locale element_ring =
  fixes rep :: "'s \<Rightarrow> ptr list \<Rightarrow> ptr set \<Rightarrow> ptr set \<Rightarrow> bool"
    and ids_left :: "'s \<Rightarrow> bool" and room :: "'s \<Rightarrow> bool"
    and alloc :: "'s \<Rightarrow> 's \<times> ptr option" and free :: "'s \<Rightarrow> ptr \<Rightarrow> 's"
    and push :: "'s \<Rightarrow> ptr \<Rightarrow> 's option" and pop :: "'s \<Rightarrow> ('s \<times> ptr option) option"
  assumes alloc_room: "rep s xs al po \<Longrightarrow> ids_left s \<Longrightarrow> room s \<Longrightarrow> \<exists>s' p. alloc s = (s', Some p) \<and> p \<notin> set xs \<union> al \<union> po \<and> rep s' xs (insert p al) po"
    and alloc_full: "rep s xs al po \<Longrightarrow> ids_left s \<Longrightarrow> \<not> room s \<Longrightarrow> alloc s = (s, None)"
    and push_own: "rep s xs al po \<Longrightarrow> p \<in> al \<Longrightarrow> \<exists>s'. push s p = Some s' \<and> rep s' (xs @ [p]) (al - {p}) po"
    and pop_first: "rep s xs al po \<Longrightarrow> \<exists>s'. case xs of [] \<Rightarrow> pop s = Some (s', None) \<and> rep s' [] al po
        | x # xs' \<Rightarrow> pop s = Some (s', Some x) \<and> rep s' xs' al (insert x po)"
    and free_own: "rep s xs al po \<Longrightarrow> p \<in> al \<union> po \<Longrightarrow> rep (free s p) xs (al - {p}) (po - {p})"
    and apart: "rep s xs al po \<Longrightarrow> distinct xs \<and> set xs \<inter> al = {} \<and> set xs \<inter> po = {} \<and> al \<inter> po = {}"
begin

text \<open>An element goes through the ring: allocated, pushed, popped in its turn and freed.\<close>

lemma travel:
  assumes "rep s xs al po" and "ids_left s" and "room s"
  shows "\<exists>s1 p s2. alloc s = (s1, Some p) \<and> p \<notin> set xs \<union> al \<union> po \<and> push s1 p = Some s2 \<and> rep s2 (xs @ [p]) al po"
proof -
  obtain s1 p where a: "alloc s = (s1, Some p)" "p \<notin> set xs \<union> al \<union> po" "rep s1 xs (insert p al) po" using alloc_room [OF assms] by blast
  obtain s2 where "push s1 p = Some s2" "rep s2 (xs @ [p]) (insert p al - {p}) po" using push_own [OF a(3), of p] by auto
  moreover have "insert p al - {p} = al" using a(2) by auto
  ultimately show ?thesis using a by auto
qed

lemma pop_free:
  assumes "rep s (x # xs) al po"
  shows "\<exists>s'. pop s = Some (s', Some x) \<and> rep (free s' x) xs al po"
proof -
  obtain s' where s': "pop s = Some (s', Some x)" "rep s' xs al (insert x po)" using pop_first [OF assms] by auto
  have "rep (free s' x) xs (al - {x}) (insert x po - {x})" using free_own [OF s'(2), of x] by simp
  moreover have "al - {x} = al" "insert x po - {x} = po" using apart [OF assms] by auto
  ultimately show ?thesis using s'(1) by auto
qed

end

text \<open>The ring of the program: its elements are the data pointers of the entries.\<close>

definition rg_data :: "rg_state \<Rightarrow> u64 \<Rightarrow> ptr" where
  "rg_data s i = rg_entry (rm_pool (fst s)) i + mpmcring_data_offset"

definition rg_rep :: "rg_state \<Rightarrow> ptr list \<Rightarrow> ptr set \<Rightarrow> ptr set \<Rightarrow> bool" where
  "rg_rep s xs al po \<longleftrightarrow> (\<exists>cs fr pp. rg_ids s cs fr pp
     \<and> xs = map (rg_data s) (filter (\<lambda>i. \<not> rm_consumed (fst s) (rg_entry (rm_pool (fst s)) i)) cs) \<and> al = rg_data s ` fr \<and> po = rg_data s ` pp)"

definition rg_left :: "rg_state \<Rightarrow> bool" where
  "rg_left s \<longleftrightarrow> pool_ids_left (rm_pool (fst s))"

definition rg_space :: "rg_state \<Rightarrow> bool" where
  "rg_space s \<longleftrightarrow> rg_room (rm_pool (fst s))"

lemma rg_repE:
  assumes "rg_rep s xs al po"
  obtains m ring cs fr pp where "s = (m, ring)" "rg_ids (m, ring) cs fr pp" "inj_on (rg_data s) (set cs \<union> fr \<union> pp)"
    "xs = map (rg_data s) (filter (\<lambda>i. \<not> rm_consumed m (rg_entry (rm_pool m) i)) cs)" "al = rg_data s ` fr" "po = rg_data s ` pp"
proof -
  obtain m ring cs fr pp where r: "s = (m, ring)" "rg_ids (m, ring) cs fr pp"
    "xs = map (rg_data s) (filter (\<lambda>i. \<not> rm_consumed m (rg_entry (rm_pool m) i)) cs)" "al = rg_data s ` fr" "po = rg_data s ` pp"
    using assms unfolding rg_rep_def by (cases s) auto
  have "inj_on (rg_data s) (set cs \<union> fr \<union> pp)" using rg_idsD(3) [OF r(2)] by (auto simp: r(1) rg_data_def inj_on_def)
  then show thesis using that r by blast
qed

lemma rg_data_eq: "rg_entry (rm_pool m') = rg_entry (rm_pool m) \<Longrightarrow> rg_data (m', ring') = rg_data (m, ring)"
  by (simp add: rg_data_def fun_eq_iff)

lemma rg_alloc_full:
  assumes "rg_ids (m, ring) cs fr pp" and "pool_ids_left (rm_pool m)" and "\<not> rg_room (rm_pool m)"
  shows "prs_mpmcring_alloc (m, ring) = ((m, ring), None)"
proof -
  have wf: "pool_wf (rm_pool m)" using rg_idsD(1) [OF assms(1)] by (simp add: rg_pool_ok_def)
  from wf assms(2) show ?thesis
  proof (cases rule: prs_pool_alloc_cases)
    case full
    then show ?thesis by (simp add: prs_mpmcring_alloc_def)
  next
    case (found j)
    then show ?thesis using assms(3) get_entry_less [OF wf, of j] by (auto simp: rg_room_def)
  qed
qed

lemma image_minus_single: "inj_on d (insert i A) \<Longrightarrow> d ` A - {d i} = d ` (A - {i})"
  by (auto simp: inj_on_def)

interpretation ring: element_ring rg_rep rg_left rg_space prs_mpmcring_alloc prs_mpmcring_free prs_mpmcring_push prs_mpmcring_pop
proof
  fix s xs al po p
  assume rep: "rg_rep s xs al po"
  obtain m ring cs fr pp where r: "s = (m, ring)" "rg_ids (m, ring) cs fr pp" "inj_on (rg_data s) (set cs \<union> fr \<union> pp)"
    "xs = map (rg_data s) (filter (\<lambda>i. \<not> rm_consumed m (rg_entry (rm_pool m) i)) cs)" "al = rg_data s ` fr" "po = rg_data s ` pp"
    by (rule rg_repE [OF rep])
  note sh = rg_idsD(2) [OF r(2)]
  have cs: "distinct cs" "\<forall>i \<in> set cs \<inter> pp. rm_consumed m (rg_entry (rm_pool m) i)" "fr \<inter> (set cs \<union> pp) = {}" using sh by (auto simp: rg_shape_def)
  show "distinct xs \<and> set xs \<inter> al = {} \<and> set xs \<inter> po = {} \<and> al \<inter> po = {}"
  proof (intro conjI)
    show "distinct xs" using cs(1) r(3) by (auto simp: r(4) distinct_map intro: inj_on_subset)
    show "set xs \<inter> al = {}" "set xs \<inter> po = {}" "al \<inter> po = {}" using cs r(3) by (auto simp: r(4-6) inj_on_def)
  qed
  {
    assume "rg_left s" "rg_space s"
    then have l: "pool_ids_left (rm_pool m)" "rg_room (rm_pool m)" by (simp_all add: r(1) rg_left_def rg_space_def)
    obtain m' j where a: "prs_mpmcring_alloc (m, ring) = ((m', ring), Some (rg_entry (rm_pool m) j + mpmcring_data_offset))"
      "j \<notin> set cs \<union> fr \<union> pp" "rg_ids (m', ring) cs (insert j fr) pp" "rg_entry (rm_pool m') = rg_entry (rm_pool m)"
      "\<forall>i \<in> set cs. rm_consumed m' (rg_entry (rm_pool m) i) = rm_consumed m (rg_entry (rm_pool m) i)"
      by (rule rg_alloc_ids [OF r(2) l])
    have d: "rg_data (m', ring) = rg_data s" using rg_data_eq [OF a(4)] by (simp add: r(1))
    have "inj_on (rg_data s) (set cs \<union> insert j fr \<union> pp)" using rg_idsD(3) [OF a(3)] a(4) by (auto simp: r(1) rg_data_def inj_on_def)
    then have n: "rg_data s j \<notin> set xs \<union> al \<union> po" using a(2) by (auto simp: r(4-6) inj_on_def)
    have "filter (\<lambda>i. \<not> rm_consumed m' (rg_entry (rm_pool m') i)) cs = filter (\<lambda>i. \<not> rm_consumed m (rg_entry (rm_pool m) i)) cs"
      using a(4,5) by (intro filter_cong) auto
    then have "rg_rep (m', ring) xs (insert (rg_data s j) al) po"
      unfolding rg_rep_def d r(4-6) by (intro exI [of _ cs] exI [of _ "insert j fr"] exI [of _ pp]) (use a(3) in simp)
    then show "\<exists>s' p. prs_mpmcring_alloc s = (s', Some p) \<and> p \<notin> set xs \<union> al \<union> po \<and> rg_rep s' xs (insert p al) po"
      using n a(1) by (auto simp: r(1) rg_data_def)
  }
  {
    assume "rg_left s" "\<not> rg_space s"
    then show "prs_mpmcring_alloc s = (s, None)" using rg_alloc_full [OF r(2)] by (simp add: r(1) rg_left_def rg_space_def)
  }
  {
    assume "p \<in> al"
    then obtain i where i: "i \<in> fr" "p = rg_data s i" by (auto simp: r(5))
    obtain m' ring' where u: "prs_mpmcring_push (m, ring) (rg_entry (rm_pool m) i + mpmcring_data_offset) = Some (m', ring')" "rg_ids (m', ring') (cs @ [i]) (fr - {i}) pp"
      "rg_entry (rm_pool m') = rg_entry (rm_pool m)" "rm_consumed m' = rm_consumed m"
      by (rule rg_push_ids [OF r(2) i(1)])
    have d: "rg_data (m', ring') = rg_data s" using rg_data_eq [OF u(3)] by (simp add: r(1))
    have ni: "\<not> rm_consumed m (rg_entry (rm_pool m) i)" using sh i(1) by (simp add: rg_shape_def)
    have "insert i fr = fr" using i(1) by auto
    then have al: "al - {rg_data s i} = rg_data s ` (fr - {i})" using image_minus_single [of "rg_data s" i fr] r(3) i by (auto simp: r(5) inj_on_def)
    have "rg_rep (m', ring') (xs @ [p]) (al - {p}) po"
      unfolding rg_rep_def d al r(4,6) i(2)
      by (intro exI [of _ "cs @ [i]"] exI [of _ "fr - {i}"] exI [of _ pp]) (use u(2-4) ni in simp)
    then show "\<exists>s'. prs_mpmcring_push s p = Some s' \<and> rg_rep s' (xs @ [p]) (al - {p}) po"
      using u(1) i(2) by (simp add: r(1) rg_data_def)
  }
  {
    assume "p \<in> al \<union> po"
    then obtain i where i: "i \<in> fr \<union> pp" "p = rg_data s i" by (auto simp: r(5,6))
    obtain m' where u: "prs_mpmcring_free (m, ring) (rg_entry (rm_pool m) i + mpmcring_data_offset) = (m', ring)" "rg_ids (m', ring) cs (fr - {i}) (pp - {i})"
      "rg_entry (rm_pool m') = rg_entry (rm_pool m)" "rm_consumed m' = rm_consumed m"
      by (rule rg_free_ids [OF r(2) i(1)])
    have d: "rg_data (m', ring) = rg_data s" using rg_data_eq [OF u(3)] by (simp add: r(1))
    have "al - {p} = rg_data s ` (fr - {i})" "po - {p} = rg_data s ` (pp - {i})" using r(3) i by (auto simp: r(5,6) inj_on_def)
    then have "rg_rep (m', ring) xs (al - {p}) (po - {p})"
      unfolding rg_rep_def d r(4) by (intro exI [of _ cs] exI [of _ "fr - {i}"] exI [of _ "pp - {i}"]) (use u(2-4) in simp)
    then show "rg_rep (prs_mpmcring_free s p) xs (al - {p}) (po - {p})" using u(1) i(2) by (simp add: r(1) rg_data_def)
  }
  show "\<exists>s'. case xs of [] \<Rightarrow> prs_mpmcring_pop s = Some (s', None) \<and> rg_rep s' [] al po
      | x # xs' \<Rightarrow> prs_mpmcring_pop s = Some (s', Some x) \<and> rg_rep s' xs' al (insert x po)"
    using r(2)
  proof (cases rule: rg_pop_ids)
    case (empty m' ring')
    have d: "rg_data (m', ring') = rg_data s" using rg_data_eq [OF empty(4)] by (simp add: r(1))
    have "rg_rep (m', ring') [] al po"
      unfolding rg_rep_def d r(5,6) by (intro exI [of _ cs] exI [of _ fr] exI [of _ pp]) (use empty in simp)
    then show ?thesis using empty(1,2) by (simp add: r(1,4))
  next
    case (found m' ring' cs' i)
    have d: "rg_data (m', ring') = rg_data s" using rg_data_eq [OF found(4)] by (simp add: r(1))
    have "rg_rep (m', ring') (tl xs) al (insert (rg_data s i) po)"
      unfolding rg_rep_def d r(4-6) by (intro exI [of _ cs'] exI [of _ fr] exI [of _ "insert i pp"]) (use found in simp)
    then show ?thesis using found(1,2) by (simp add: r(1,4) rg_data_def)
  qed
qed

section \<open>Creation\<close>

text \<open>A new ring is empty, has no user, and has room; \<open>next\<close> and \<open>consumed\<close> of the zeroed entries do not matter.\<close>

lemma rg_create_rep:
  assumes "unat (rgp_max_entries params) = 2 ^ k" and "0 < k" and "k < 52" and "rgp_data_size params + 8 \<noteq> 0"
    and "2 ^ k * unat (rgp_data_size params + 8) < 2 ^ 64"
  obtains ring pool where "prs_mpmcring_create params (Some addr) (Some pool_mem) (Some entries_addr) = (Some (ring, pool), [])"
    "\<And>nx con. rg_rep (\<lparr>rm_pool = pool, rm_next = nx, rm_consumed = con\<rparr>, ring) [] {} {}"
    "pool_ids_left pool" "rg_room pool" "pool_entry_size pool = rgp_data_size params + 8" "pool_entries_addr pool = entries_addr"
proof -
  let ?params = "\<lparr>pp_max_entries = rgp_max_entries params, pp_data_size = rgp_data_size params, pp_area = None\<rparr>"
  let ?init = "replicate (unat (rgp_max_entries params)) \<lparr>pe_header = 0, pe_data = ()\<rparr>"
  let ?ring = "\<lparr>rg_addr = addr, rg_head_id = PRS_POOL_ID_INVALID, rg_tail_id = PRS_POOL_ID_INVALID\<rparr>"
  obtain pool where p: "prs_pool_create ?params ?init (Some pool_mem) (Some entries_addr) = (Some pool, [])" "pool_wf pool" "pool_view pool = [0 \<mapsto> 0]"
      "pool_write_index pool = 1" "pool_max_entries pool = rgp_max_entries params"
      "\<forall>e. 0 < e \<and> e < length (pool_entries pool) \<longrightarrow> \<not> hdr_alloc (pool_header pool e)"
    using prs_pool_create_fresh [of ?params k ?init pool_mem entries_addr] assms(1-3) by auto
  have es: "pool_entry_size pool = rgp_data_size params + 8" "pool_entries_addr pool = entries_addr" "length (pool_entries pool) = 2 ^ k"
    using p(1) assms(1) by (auto simp: prs_pool_create_def pool_data_offset_def Let_def)
  have "pool_fits pool" using es assms(4,5) by (simp add: pool_fits_def word_neq_0_conv)
  moreover have "[0 \<mapsto> 0] = rg_view (rg_refs [] ({} \<union> {}))" by (auto simp: rg_view_def rg_refs_def fun_eq_iff)
  ultimately have ok: "rg_pool_ok pool (rg_refs [] ({} \<union> {}))" using p(2,3) by (simp add: rg_pool_ok_def rg_refs_def)
  have "rg_rep (\<lparr>rm_pool = pool, rm_next = nx, rm_consumed = con\<rparr>, ?ring) [] {} {}" for nx con
    unfolding rg_rep_def by (intro exI [of _ "[]"] exI [of _ "{}"]) (use ok in \<open>simp add: rg_ids_def rg_shape_def\<close>)
  moreover have "pool_ids_left pool"
  proof -
    have "(2 :: nat) ^ k \<le> 2 ^ 51" using assms(3) by (intro power_increasing) auto
    then show ?thesis using p(4,5) assms(1) by (simp add: pool_ids_left_def)
  qed
  moreover have "rg_room pool"
  proof -
    have "(2 :: nat) ^ 1 \<le> 2 ^ k" using assms(2) by (intro power_increasing) auto
    then show ?thesis unfolding rg_room_def using p(6) es(3) by (intro exI [of _ 1]) auto
  qed
  ultimately show thesis using that [of ?ring pool] p(1) es by (simp add: prs_mpmcring_create_def)
qed

section \<open>Properties\<close>


text \<open>The memory of a small ring, for the witnesses.\<close>

definition mpmcring_example :: rg_state where
  "mpmcring_example =
     (case prs_mpmcring_create \<lparr>rgp_data_size = 16, rgp_max_entries = 4\<rparr> (Some 512) (Some 1024) (Some 4096) of
        (Some (ring, pool), _) \<Rightarrow> (\<lparr>rm_pool = pool, rm_next = (\<lambda>_. 0), rm_consumed = (\<lambda>_. False)\<rparr>, ring)
      | _ \<Rightarrow> undefined)"

lemma mpmcring_example_rep: "rg_rep mpmcring_example [] {} {}" "rg_left mpmcring_example" "rg_space mpmcring_example"
proof -
  obtain ring pool where c: "prs_mpmcring_create \<lparr>rgp_data_size = 16, rgp_max_entries = 4\<rparr> (Some 512) (Some 1024) (Some 4096) = (Some (ring, pool), [])"
    "\<And>nx con. rg_rep (\<lparr>rm_pool = pool, rm_next = nx, rm_consumed = con\<rparr>, ring) [] {} {}" "pool_ids_left pool" "rg_room pool"
    by (rule rg_create_rep [of "\<lparr>rgp_data_size = 16, rgp_max_entries = 4\<rparr>" 2 512 1024 4096]) simp_all
  then show "rg_rep mpmcring_example [] {} {}" "rg_left mpmcring_example" "rg_space mpmcring_example"
    by (simp_all add: mpmcring_example_def rg_left_def rg_space_def)
qed


text \<open>The pool of a ring has no space for the two fields of the ring's entries: the last nine bytes of an element's data are the header of the next
  entry and the first byte behind it, so a user that fills its element overwrites the ID and the references of the neighbour.\<close>

theorem mpmcring_entries_overlap:
  assumes "prs_mpmcring_create params memory pool_mem entries_mem = (Some (ring, pool), freed)"
  shows "pool_data_ptr pool index + mpmcring_data_offset + rgp_data_size params = pool_entry_addr pool (index + 1) + 9"
proof -
  have "pool_entry_size pool = rgp_data_size params + 8"
    using assms by (auto simp: prs_mpmcring_create_def prs_pool_create_def pool_data_offset_def Let_def split: option.splits)
  then show ?thesis by (simp add: pool_data_ptr_def pool_entry_addr_def pool_data_offset_def mpmcring_data_offset_def algebra_simps)
qed

theorem mpmcring_entries_overlap_witness:
  "\<exists>pool ring freed. prs_mpmcring_create \<lparr>rgp_data_size = 264, rgp_max_entries = 4096\<rparr> (Some 512) (Some 1024) (Some 4096) = (Some (ring, pool), freed)
     \<and> pool_data_ptr pool 3 + 9 + 264 = pool_entry_addr pool 4 + 9"
proof -
  obtain ring pool where c: "prs_mpmcring_create \<lparr>rgp_data_size = 264, rgp_max_entries = 4096\<rparr> (Some 512) (Some 1024) (Some 4096) = (Some (ring, pool), [])"
    by (rule rg_create_rep [of "\<lparr>rgp_data_size = 264, rgp_max_entries = 4096\<rparr>" 12 512 1024 4096]) simp_all
  then show ?thesis using mpmcring_entries_overlap [OF c, of 3] by (auto simp: mpmcring_data_offset_def)
qed

end
