(* ===== verification/Log.thy ===== *)
theory Log
  imports Mpmcring Str Spinlock
begin

text \<open>
  The log of \<^verbatim>\<open>prs/log.c\<close>: traces are formatted into elements of the ring and wait there until they are flushed to the
  file. The state holds the ring, the entries that users write into its elements, the count of the traces that found no
  element, and what was written to the file. The formats of the traces that the module prints itself are written out;
  the text of a caller's format and arguments is an argument (\<open>None\<close> for a null format, and inside for an encoding error).
  The options for immediate printing, cycles and workers are off, as in the source.
\<close>

section \<open>Data\<close>

definition PRS_MAX_LOG_ENTRY_SIZE :: "32 word" where
  "PRS_MAX_LOG_ENTRY_SIZE = 256"

definition PRS_MAX_LOG_ENTRIES :: u64 where
  "PRS_MAX_LOG_ENTRIES = 4096"

record prs_log_entry =
  le_size :: u64
  le_buf :: "nat \<Rightarrow> char"

record prs_log =
  lg_ring :: rg_state
  lg_entries :: "ptr \<Rightarrow> prs_log_entry"
  lg_file :: string
  lg_overflow_count :: u64
  lg_spinlock :: prs_spinlock

text \<open>\<^verbatim>\<open>offsetof(struct prs_log_entry, buf)\<close>.\<close>

definition log_buf_offset :: u64 where
  "log_buf_offset = 8"

section \<open>Formats\<close>

text \<open>\<^verbatim>\<open>%u\<close> and \<^verbatim>\<open>%6u\<close>.\<close>

fun decimal :: "nat \<Rightarrow> string" where
  "decimal n = (if n < 10 then [char_of (48 + n)] else decimal (n div 10) @ [char_of (48 + n mod 10)])"

declare decimal.simps [simp del]

definition padded :: "nat \<Rightarrow> string \<Rightarrow> string" where
  "padded width t = replicate (width - length t) CHR '' '' @ t"

definition newline :: string where
  "newline = [CHR 0x0A]"

definition log_overflow_text :: "u64 \<Rightarrow> string" where
  "log_overflow_text overflow_count = ''OVF: '' @ decimal (unat (ucast overflow_count :: 32 word)) @ newline"

definition log_clock_text :: "prs_ticks_t \<Rightarrow> string" where
  "log_clock_text clock = ''['' @ padded 6 (decimal (unat clock)) @ ''] ''"

section \<open>Operations\<close>

text \<open>\<^verbatim>\<open>prs_str_append\<close> with the module's size and an \<^verbatim>\<open>int\<close> offset.\<close>

definition log_append :: "(nat \<Rightarrow> char) \<times> 32 word \<Rightarrow> string \<Rightarrow> (nat \<Rightarrow> char) \<times> 32 word" where
  "log_append s src = (case prs_str_append (fst s) src (unat (snd s)) (unat PRS_MAX_LOG_ENTRY_SIZE) of (buf, pos) \<Rightarrow> (buf, word_of_nat pos))"

definition log_printf :: "(nat \<Rightarrow> char) \<times> 32 word \<Rightarrow> string option \<Rightarrow> (nat \<Rightarrow> char) \<times> 32 word" where
  "log_printf s text = prs_str_append_printf (fst s) (snd s) PRS_MAX_LOG_ENTRY_SIZE text"

text \<open>The text of an entry.\<close>

definition log_format :: "(nat \<Rightarrow> char) \<Rightarrow> u64 \<Rightarrow> prs_ticks_t \<Rightarrow> string option \<Rightarrow> string option option \<Rightarrow> (nat \<Rightarrow> char) \<times> 32 word" where
  "log_format buf overflow_count clock func fmt =
     (let s = (buf, 0);
          s = (if overflow_count \<noteq> 0 then log_printf s (Some (log_overflow_text overflow_count)) else s);
          s = log_printf s (Some (log_clock_text clock));
          s = (case func of
                 None \<Rightarrow> s
               | Some f \<Rightarrow> (let s = log_append s f in if fmt \<noteq> None then log_append s '': '' else s));
          s = (case fmt of None \<Rightarrow> s | Some text \<Rightarrow> log_printf s text)
      in log_append s newline)"

definition prs_log_vprint :: "prs_ticks_t \<Rightarrow> string option \<Rightarrow> string option option \<Rightarrow> prs_log \<Rightarrow> prs_log option" where
  "prs_log_vprint clock func fmt log =
     (let (ring, p) = prs_mpmcring_alloc (lg_ring log)
      in case p of
           None \<Rightarrow> Some (log\<lparr>lg_ring := ring, lg_overflow_count := snd (atomic_fetch_add (lg_overflow_count log) 1)\<rparr>)
         | Some entry \<Rightarrow>
             (let (overflow_count, cell) = atomic_exchange (lg_overflow_count log) 0;
                  (buf, offset) = log_format (le_buf (lg_entries log entry)) overflow_count clock func fmt;
                  e = \<lparr>le_size = scast offset, le_buf = buf\<rparr>
              in map_option (\<lambda>ring. log\<lparr>lg_ring := ring, lg_entries := (lg_entries log)(entry := e), lg_overflow_count := cell\<rparr>)
                   (prs_mpmcring_push ring entry)))"

definition prs_log_print :: "prs_ticks_t \<Rightarrow> string option option \<Rightarrow> prs_log \<Rightarrow> prs_log option" where
  "prs_log_print clock fmt log = prs_log_vprint clock None fmt log"

definition prs_log_ftrace :: "prs_ticks_t \<Rightarrow> string option \<Rightarrow> string option option \<Rightarrow> prs_log \<Rightarrow> prs_log option" where
  "prs_log_ftrace clock func fmt log = prs_log_vprint clock func fmt log"

text \<open>The results of the allocator and whether the file opens. \<open>None\<close> is a fatal outcome, and \<open>Some None\<close> a log that stays off.\<close>

definition prs_log_init ::
  "ptr option \<Rightarrow> ptr option \<Rightarrow> ptr option \<Rightarrow> ptr option \<Rightarrow> bool \<Rightarrow> ptr option \<Rightarrow> (ptr \<Rightarrow> prs_log_entry) \<Rightarrow> prs_ticks_t \<Rightarrow> prs_log option option" where
  "prs_log_init memory ring_memory pool_mem entries_mem opened lock_memory entries clock =
     (case memory of
        None \<Rightarrow> Some None
      | Some _ \<Rightarrow>
          (case prs_mpmcring_create \<lparr>rgp_data_size = log_buf_offset + ucast PRS_MAX_LOG_ENTRY_SIZE, rgp_max_entries = PRS_MAX_LOG_ENTRIES\<rparr> ring_memory pool_mem entries_mem of
             (None, _) \<Rightarrow> None
           | (Some (ring, pool), _) \<Rightarrow>
               if \<not> opened then None
               else
                 (case prs_spinlock_create lock_memory of
                    None \<Rightarrow> None
                  | Some spinlock \<Rightarrow>
                      map_option Some
                        (prs_log_print clock (Some (Some (''Log initialized, '' @ decimal (unat PRS_MAX_LOG_ENTRIES) @ '' entries reserved'')))
                          \<lparr>lg_ring = (\<lparr>rm_pool = pool, rm_next = (\<lambda>_. 0), rm_consumed = (\<lambda>_. False)\<rparr>, ring), lg_entries = entries, lg_file = [],
                           lg_overflow_count = 0, lg_spinlock = spinlock\<rparr>))))"

definition prs_log_uninit :: "prs_log \<Rightarrow> prs_log" where
  "prs_log_uninit log = log"

text \<open>What an entry writes, and the loop of the flush.\<close>

definition log_entry_text :: "prs_log_entry \<Rightarrow> string" where
  "log_entry_text e = map (le_buf e) [0 ..< unat (le_size e)]"

partial_function (option) log_flush_loop :: "prs_log \<Rightarrow> int \<Rightarrow> (prs_log \<times> int) option" where
  "log_flush_loop log count =
     Option.bind (prs_mpmcring_pop (lg_ring log))
       (\<lambda>(ring, p). case p of
          None \<Rightarrow> Some (log\<lparr>lg_ring := ring\<rparr>, count)
        | Some entry \<Rightarrow>
            log_flush_loop (log\<lparr>lg_file := lg_file log @ log_entry_text (lg_entries log entry), lg_ring := prs_mpmcring_free ring entry\<rparr>) (count + 1))"

declare log_flush_loop.simps [code]

text \<open>\<open>mets\<close> is what the attempts to take the spinlock meet.\<close>

definition prs_log_flush :: "bool list \<Rightarrow> prs_log \<Rightarrow> (prs_log \<times> int) option" where
  "prs_log_flush mets log =
     (case prs_spinlock_lock (lg_spinlock log) mets of
        None \<Rightarrow> None
      | Some (spinlock, _) \<Rightarrow>
          map_option (\<lambda>(log, count). (log\<lparr>lg_spinlock := prs_spinlock_unlock (lg_spinlock log)\<rparr>, count))
            (log_flush_loop (log\<lparr>lg_spinlock := spinlock\<rparr>) 0))"

section \<open>Lines\<close>

text \<open>The buffer starts with the text \<open>t\<close>, and the offset is behind it.\<close>

definition log_holds :: "(nat \<Rightarrow> char) \<times> 32 word \<Rightarrow> string \<Rightarrow> bool" where
  "log_holds s t \<longleftrightarrow> length t < 256 \<and> unat (snd s) = length t \<and> (\<forall>k < length t. fst s k = t ! k)"

lemma log_holds_Nil: "log_holds (buf, 0) []"
  by (simp add: log_holds_def)

lemma write_string_holds:
  assumes "\<forall>k < length t. buf k = t ! k"
  shows "\<forall>k < length (t @ u). write_string buf (length t) (u @ v) k = (t @ u) ! k"
  using assms by (auto simp: write_string_def nth_append)

lemma log_append_holds:
  assumes "log_holds s t" and "length (t @ u) < 256"
  shows "log_holds (log_append s u) (t @ u)"
proof -
  have m: "min (length u) (256 - length t) = length u" "take (256 - length t) u = u" using assms(2) by auto
  have "log_append s u = (write_string (fst s) (length t) (u @ [CHR 0x00]), word_of_nat (length (t @ u)))"
    using assms by (simp add: log_append_def log_holds_def str_append_eq PRS_MAX_LOG_ENTRY_SIZE_def m)
  moreover have "unat (word_of_nat (length (t @ u)) :: 32 word) = length (t @ u)" using assms(2) by (simp only: unat_of_nat) simp
  ultimately show ?thesis using assms write_string_holds [of t "fst s" u "[CHR 0x00]"] by (simp add: log_holds_def)
qed

lemma log_holds_offset:
  assumes "log_holds s t"
  shows "snd s \<le> PRS_MAX_LOG_ENTRY_SIZE" "snd s \<noteq> PRS_MAX_LOG_ENTRY_SIZE"
  using assms by (auto simp: log_holds_def PRS_MAX_LOG_ENTRY_SIZE_def word_le_nat_alt)

lemma log_printf_holds:
  assumes "log_holds s t" and "length (t @ u) < 256"
  shows "log_holds (log_printf s (Some u)) (t @ u)"
proof -
  have m: "unat PRS_MAX_LOG_ENTRY_SIZE < 2 ^ 31" "unat PRS_MAX_LOG_ENTRY_SIZE + length u < 2 ^ 31" using assms(2) by (simp_all add: PRS_MAX_LOG_ENTRY_SIZE_def)
  note e = str_vprintf_eq [OF log_holds_offset(1) [OF assms(1)] m]
  have "log_printf s (Some u) = (write_string (fst s) (length t) (u @ [CHR 0x00]), snd s + word_of_nat (length u))"
    using e(1) [of "fst s"] log_holds_offset(2) [OF assms(1)] assms
    by (simp add: log_printf_def prs_str_append_printf_def log_holds_def PRS_MAX_LOG_ENTRY_SIZE_def)
  then show ?thesis using assms e(2) write_string_holds [of t "fst s" u "[CHR 0x00]"] by (simp add: log_holds_def)
qed

text \<open>A text that does not fit starts the buffer over.\<close>

lemma log_printf_cut:
  assumes "log_holds s t" and "256 \<le> length (t @ u)" and "length u < 2 ^ 30"
  shows "log_holds (log_printf s (Some u)) []"
proof -
  have m: "unat PRS_MAX_LOG_ENTRY_SIZE < 2 ^ 31" "unat PRS_MAX_LOG_ENTRY_SIZE + length u < 2 ^ 31" using assms(3) by (simp_all add: PRS_MAX_LOG_ENTRY_SIZE_def)
  have "snd (log_printf s (Some u)) = 0"
    using str_vprintf_eq(1) [OF log_holds_offset(1) [OF assms(1)] m, of "fst s"] log_holds_offset(2) [OF assms(1)] assms(1,2)
    by (simp add: log_printf_def prs_str_append_printf_def log_holds_def PRS_MAX_LOG_ENTRY_SIZE_def)
  then show ?thesis by (simp add: log_holds_def)
qed

text \<open>What stands before a caller's text, and the whole line.\<close>

definition log_prefix :: "u64 \<Rightarrow> prs_ticks_t \<Rightarrow> string option \<Rightarrow> bool \<Rightarrow> string" where
  "log_prefix overflow_count clock func has_text =
     (if overflow_count \<noteq> 0 then log_overflow_text overflow_count else []) @ log_clock_text clock
       @ (case func of None \<Rightarrow> [] | Some f \<Rightarrow> f @ (if has_text then '': '' else []))"

definition log_line :: "u64 \<Rightarrow> prs_ticks_t \<Rightarrow> string option \<Rightarrow> string option \<Rightarrow> string" where
  "log_line overflow_count clock func text =
     log_prefix overflow_count clock func (text \<noteq> None) @ (case text of None \<Rightarrow> [] | Some t \<Rightarrow> t) @ newline"

definition log_format_prefix :: "(nat \<Rightarrow> char) \<Rightarrow> u64 \<Rightarrow> prs_ticks_t \<Rightarrow> string option \<Rightarrow> bool \<Rightarrow> (nat \<Rightarrow> char) \<times> 32 word" where
  "log_format_prefix buf overflow_count clock func has_text =
     (let s = (buf, 0);
          s = (if overflow_count \<noteq> 0 then log_printf s (Some (log_overflow_text overflow_count)) else s);
          s = log_printf s (Some (log_clock_text clock))
      in case func of
           None \<Rightarrow> s
         | Some f \<Rightarrow> (let s = log_append s f in if has_text then log_append s '': '' else s))"

lemma log_format_eq:
  "log_format buf overflow_count clock func fmt =
     (let s = log_format_prefix buf overflow_count clock func (fmt \<noteq> None)
      in log_append (case fmt of None \<Rightarrow> s | Some text \<Rightarrow> log_printf s text) newline)"
  unfolding log_format_def log_format_prefix_def Let_def by (cases func; cases fmt) simp_all

lemma log_format_prefix_holds:
  assumes "length (log_prefix overflow_count clock func has_text) < 256"
  shows "log_holds (log_format_prefix buf overflow_count clock func has_text) (log_prefix overflow_count clock func has_text)"
proof -
  define ov where "ov = (if overflow_count \<noteq> 0 then log_overflow_text overflow_count else [])"
  define s1 where "s1 = (if overflow_count \<noteq> 0 then log_printf (buf, 0) (Some (log_overflow_text overflow_count)) else (buf, 0))"
  have len: "length ov + length (log_clock_text clock) + (case func of None \<Rightarrow> 0 | Some f \<Rightarrow> length f + (if has_text then 2 else 0)) < 256"
    using assms by (auto simp: log_prefix_def ov_def split: option.splits if_splits)
  have 1: "log_holds s1 ov"
    using log_printf_holds [OF log_holds_Nil, of "log_overflow_text overflow_count" buf] len by (auto simp: s1_def ov_def log_holds_Nil split: if_splits)
  have 2: "log_holds (log_printf s1 (Some (log_clock_text clock))) (ov @ log_clock_text clock)"
    by (rule log_printf_holds [OF 1]) (use len in simp)
  show ?thesis
  proof (cases func)
    case None
    then show ?thesis using 2 by (simp add: log_format_prefix_def log_prefix_def s1_def ov_def Let_def)
  next
    case (Some f)
    have 3: "log_holds (log_append (log_printf s1 (Some (log_clock_text clock))) f) ((ov @ log_clock_text clock) @ f)"
      by (rule log_append_holds [OF 2]) (use len Some in simp)
    have 4: "log_holds (log_append (log_append (log_printf s1 (Some (log_clock_text clock))) f) '': '') (((ov @ log_clock_text clock) @ f) @ '': '')" if has_text
      by (rule log_append_holds [OF 3]) (use len Some that in simp)
    show ?thesis using 3 4 Some by (cases has_text) (simp_all add: log_format_prefix_def log_prefix_def s1_def ov_def Let_def)
  qed
qed

lemma log_format_line:
  assumes "length (log_line overflow_count clock func text) < 256"
  shows "log_holds (log_format buf overflow_count clock func (map_option Some text)) (log_line overflow_count clock func text)"
proof -
  let ?p = "log_prefix overflow_count clock func (text \<noteq> None)" and ?t = "case text of None \<Rightarrow> [] | Some t \<Rightarrow> t"
  let ?s = "log_format_prefix buf overflow_count clock func (text \<noteq> None)"
  have len: "length ?p + length ?t + 1 < 256" using assms by (simp add: log_line_def newline_def)
  have 1: "log_holds ?s ?p" by (rule log_format_prefix_holds) (use len in simp)
  have 2: "log_holds (case text of None \<Rightarrow> ?s | Some t \<Rightarrow> log_printf ?s (Some t)) (?p @ ?t)"
    using 1 log_printf_holds [OF 1] len by (cases "text") auto
  have "log_holds (log_append (case text of None \<Rightarrow> ?s | Some t \<Rightarrow> log_printf ?s (Some t)) newline) ((?p @ ?t) @ newline)"
    by (rule log_append_holds [OF 2]) (use len in \<open>simp add: newline_def\<close>)
  then show ?thesis by (cases "text") (simp_all add: log_format_eq log_line_def Let_def)
qed

lemma log_format_cut:
  assumes "length (log_prefix overflow_count clock func True) < 256" and "256 \<le> length (log_prefix overflow_count clock func True) + length t"
    and "length t < 2 ^ 30"
  shows "log_holds (log_format buf overflow_count clock func (Some (Some t))) newline"
proof -
  have "log_holds (log_printf (log_format_prefix buf overflow_count clock func True) (Some t)) []"
    by (rule log_printf_cut [OF log_format_prefix_holds [OF assms(1)]]) (use assms(2,3) in simp_all)
  then have "log_holds (log_append (log_printf (log_format_prefix buf overflow_count clock func True) (Some t)) newline) ([] @ newline)"
    by (rule log_append_holds) (simp add: newline_def)
  then show ?thesis by (simp add: log_format_eq)
qed

lemma log_holds_text:
  assumes "log_holds (buf, offset) t"
  shows "log_entry_text \<lparr>le_size = scast offset, le_buf = buf\<rparr> = t"
proof -
  have "unat (scast offset :: u64) = length t" using assms scast_small [of offset] by (simp add: log_holds_def)
  then show ?thesis using assms by (auto simp: log_entry_text_def log_holds_def intro!: nth_equalityI)
qed

section \<open>The log as a list of lines\<close>

definition log_rep :: "prs_log \<Rightarrow> string list \<Rightarrow> bool" where
  "log_rep log lines \<longleftrightarrow> (\<exists>xs. rg_rep (lg_ring log) xs {} {} \<and> lines = map (\<lambda>p. log_entry_text (lg_entries log p)) xs)"

text \<open>A trace that finds an element.\<close>

lemma log_vprint_room:
  assumes "log_rep log lines" and "rg_left (lg_ring log)" and "rg_space (lg_ring log)"
    and "\<And>buf. log_holds (log_format buf (lg_overflow_count log) clock func fmt) line"
  shows "\<exists>log'. prs_log_vprint clock func fmt log = Some log' \<and> log_rep log' (lines @ [line]) \<and> lg_overflow_count log' = 0
    \<and> lg_file log' = lg_file log \<and> lg_spinlock log' = lg_spinlock log"
proof -
  obtain xs where xs: "rg_rep (lg_ring log) xs {} {}" "lines = map (\<lambda>p. log_entry_text (lg_entries log p)) xs"
    using assms(1) by (auto simp: log_rep_def)
  obtain r1 p r2 where r: "prs_mpmcring_alloc (lg_ring log) = (r1, Some p)" "p \<notin> set xs" "prs_mpmcring_push r1 p = Some r2" "rg_rep r2 (xs @ [p]) {} {}"
    using ring.travel [OF xs(1) assms(2,3)] by auto
  obtain buf offset where f: "log_format (le_buf (lg_entries log p)) (lg_overflow_count log) clock func fmt = (buf, offset)" by fastforce
  have "log_entry_text \<lparr>le_size = scast offset, le_buf = buf\<rparr> = line"
    by (rule log_holds_text) (use assms(4) [of "le_buf (lg_entries log p)"] f in simp)
  then show ?thesis
    using r xs(2) f
    by (auto simp: prs_log_vprint_def atomic_exchange_def log_rep_def intro!: exI [of _ "xs @ [p]"])
qed

lemma log_vprint_full:
  assumes "log_rep log lines" and "rg_left (lg_ring log)" and "\<not> rg_space (lg_ring log)"
  shows "prs_log_vprint clock func fmt log = Some (log\<lparr>lg_overflow_count := lg_overflow_count log + 1\<rparr>)"
proof -
  obtain xs where "rg_rep (lg_ring log) xs {} {}" using assms(1) by (auto simp: log_rep_def)
  then show ?thesis using ring.alloc_full [OF _ assms(2,3)] by (auto simp: prs_log_vprint_def atomic_fetch_add_def)
qed

text \<open>The loop of the flush ends, with every line written.\<close>

lemma log_flush_loop_all:
  assumes "rg_rep (lg_ring log) xs {} {}"
  shows "\<exists>ring. log_flush_loop log count =
      Some (log\<lparr>lg_file := lg_file log @ concat (map (\<lambda>p. log_entry_text (lg_entries log p)) xs), lg_ring := ring\<rparr>, count + int (length xs))
    \<and> rg_rep ring [] {} {}"
  using assms
proof (induction xs arbitrary: log count)
  case Nil
  then obtain ring where "prs_mpmcring_pop (lg_ring log) = Some (ring, None)" "rg_rep ring [] {} {}" using ring.pop_first by fastforce
  then show ?case by (intro exI [of _ ring], subst log_flush_loop.simps) simp
next
  case (Cons p xs)
  obtain ring where r: "prs_mpmcring_pop (lg_ring log) = Some (ring, Some p)" "rg_rep (prs_mpmcring_free ring p) xs {} {}"
    using ring.pop_free [OF Cons.prems] by blast
  let ?log = "log\<lparr>lg_file := lg_file log @ log_entry_text (lg_entries log p), lg_ring := prs_mpmcring_free ring p\<rparr>"
  have step: "log_flush_loop log count = log_flush_loop ?log (count + 1)" using r(1) by (subst log_flush_loop.simps) simp
  show ?case using Cons.IH [of ?log "count + 1"] r(2) by (simp add: step algebra_simps)
qed

section \<open>Properties\<close>

text \<open>C28: The log is a list of lines that wait for the file. A trace that fits its element appends one line: the number of traces lost before it, if any,
  the clock, the function, and the text; when the ring has no element left the trace is only counted, and the count goes into the next line. A
  flush that takes the spinlock returns: it writes every line in the order of the traces, returns their number, leaves the log empty and the
  spinlock free.\<close>

theorem log_refines_lines:
  assumes "log_rep log lines" and "rg_left (lg_ring log)" and "length (log_line (lg_overflow_count log) clock func txt) < 247"
    and "prs_spinlock_lock (lg_spinlock log) mets \<noteq> None"
  shows "(\<exists>log'. prs_log_vprint clock func (map_option Some txt) log = Some log' \<and> lg_file log' = lg_file log
       \<and> (if rg_space (lg_ring log) then log_rep log' (lines @ [log_line (lg_overflow_count log) clock func txt]) \<and> lg_overflow_count log' = 0
          else log_rep log' lines \<and> lg_overflow_count log' = lg_overflow_count log + 1))
    \<and> (\<exists>log'. prs_log_flush mets log = Some (log', int (length lines)) \<and> lg_file log' = lg_file log @ concat lines \<and> log_rep log' []
       \<and> \<not> sl_lock (lg_spinlock log'))"
proof
  show "\<exists>log'. prs_log_vprint clock func (map_option Some txt) log = Some log' \<and> lg_file log' = lg_file log
       \<and> (if rg_space (lg_ring log) then log_rep log' (lines @ [log_line (lg_overflow_count log) clock func txt]) \<and> lg_overflow_count log' = 0
          else log_rep log' lines \<and> lg_overflow_count log' = lg_overflow_count log + 1)"
  proof (cases "rg_space (lg_ring log)")
    case True
    have "length (log_line (lg_overflow_count log) clock func txt) < 256" using assms(3) by simp
    from log_vprint_room [OF assms(1,2) True log_format_line [OF this]] show ?thesis using True by auto
  next
    case False
    then show ?thesis using log_vprint_full [OF assms(1,2) False] assms(1) by (simp add: log_rep_def)
  qed
  obtain xs where xs: "rg_rep (lg_ring log) xs {} {}" "lines = map (\<lambda>p. log_entry_text (lg_entries log p)) xs"
    using assms(1) by (auto simp: log_rep_def)
  obtain spinlock n where l: "prs_spinlock_lock (lg_spinlock log) mets = Some (spinlock, n)" using assms(4) by auto
  have "rg_rep (lg_ring (log\<lparr>lg_spinlock := spinlock\<rparr>)) xs {} {}" using xs(1) by simp
  from log_flush_loop_all [OF this, of 0]
  show "\<exists>log'. prs_log_flush mets log = Some (log', int (length lines)) \<and> lg_file log' = lg_file log @ concat lines \<and> log_rep log' [] \<and> \<not> sl_lock (lg_spinlock log')"
    using l xs(2) by (auto simp: prs_log_flush_def log_rep_def prs_spinlock_unlock_def)
qed

text \<open>A log in an empty ring, for the witnesses.\<close>

definition log_example :: prs_log where
  "log_example = \<lparr>lg_ring = mpmcring_example, lg_entries = (\<lambda>_. \<lparr>le_size = 0, le_buf = (\<lambda>_. CHR 0x00)\<rparr>), lg_file = [], lg_overflow_count = 3,
     lg_spinlock = \<lparr>sl_addr = 64, sl_lock = False\<rparr>\<rparr>"

lemma log_example_rep: "log_rep log_example []" "rg_left (lg_ring log_example)" "rg_space (lg_ring log_example)"
  using mpmcring_example_rep by (simp_all add: log_example_def log_rep_def)

theorem log_refines_lines_witness:
  "\<exists>log'. prs_log_vprint 42 (Some ''f'') (Some (Some ''x'')) log_example = Some log'
     \<and> log_rep log' [''OVF: 3'' @ newline @ ''[    42] f: x'' @ newline] \<and> lg_overflow_count log' = 0"
proof -
  have line: "log_line 3 42 (Some ''f'') (Some ''x'') = ''OVF: 3'' @ newline @ ''[    42] f: x'' @ newline" by code_simp
  have len: "length (log_line (lg_overflow_count log_example) 42 (Some ''f'') (Some ''x'')) < 247" by code_simp
  have lock: "prs_spinlock_lock (lg_spinlock log_example) [False] \<noteq> None" by code_simp
  have ov: "lg_overflow_count log_example = 3" by (simp add: log_example_def)
  from log_refines_lines [OF log_example_rep(1,2) len lock] log_example_rep(3) show ?thesis
    by (auto simp only: ov line option.map if_True append_Nil)
qed

text \<open>A trace whose text does not fit the buffer behind its prefix is lost: the formatted append returns zero, so the line feed goes to the start of the buffer and
  the entry is an empty line, without the text, the prefix, and the number of lost traces that it had taken over.\<close>

theorem log_long_trace_lost:
  assumes "log_rep log lines" and "rg_left (lg_ring log)" and "rg_space (lg_ring log)"
    and "length (log_prefix (lg_overflow_count log) clock func True) < 256"
    and "256 \<le> length (log_prefix (lg_overflow_count log) clock func True) + length t" and "length t < 2 ^ 30"
  shows "\<exists>log'. prs_log_vprint clock func (Some (Some t)) log = Some log' \<and> log_rep log' (lines @ [newline]) \<and> lg_overflow_count log' = 0"
  using log_vprint_room [OF assms(1-3) log_format_cut [OF assms(4-6)]] by blast

theorem log_long_trace_lost_witness:
  "\<exists>log'. prs_log_vprint 42 None (Some (Some (replicate 250 CHR ''x''))) log_example = Some log' \<and> log_rep log' [newline]"
proof -
  have p: "length (log_prefix (lg_overflow_count log_example) 42 None True) = 16" by code_simp
  show ?thesis using log_long_trace_lost [OF log_example_rep, of 42 None "replicate 250 CHR ''x''"] by (auto simp: p)
qed

end
