(* ===== verification/Life.thy ===== *)
theory Life
  imports Sched Proc Stack Clock
begin

unbundle bit_operations_syntax

text \<open>
  The life of tasks and processes: the creation and destruction of \<^verbatim>\<open>prs/task.c\<close>, the objects, the execution, the
  destruction and the collection of processes of \<^verbatim>\<open>prs/proc.c\<close>, and the messages that \<^verbatim>\<open>prs/svc/proc.c\<close> handles. The
  memory extends that of the scheduler module. A task and a process are objects of the global directory; a task
  holds references to its process, and a process knows its tasks by their IDs. The queues of a process hold the
  sequences that their components implement. \<open>current\<close> is the current task, and \<open>None\<close> is a fatal outcome.
\<close>

section \<open>Data\<close>

record prs_proc =
  pc_id :: prs_object_id_t
  pc_filename :: string
  pc_main_params :: prs_proc_main_params
  pc_argv_addr :: ptr
  pc_pal_proc :: ptr
  pc_cmdline_buffer :: ptr
  pc_main_task :: ptr
  pc_range_table_index :: nat
  pc_objects_addr :: ptr
  pc_objects :: "(ptr \<times> prs_object_id_t) list"
  pc_atexit_addr :: ptr
  pc_atexit_callbacks :: "ptr list"
  pc_destroyed :: bool

record prs_task_create_params =
  tcp_name :: string
  tcp_userdata :: ptr
  tcp_stack_size :: u64
  tcp_prio :: prs_task_prio_t
  tcp_entry :: ptr

record prs_proc_exec_params =
  pep_filename :: string
  pep_cmdline :: string
  pep_main_task_params :: prs_task_create_params
  pep_sched_id :: prs_object_id_t

text \<open>The requests and responses of the process service, with the task they go to. A request tells whether its sender waits.\<close>

datatype proc_msg =
    ExecRequest prs_proc_exec_params | KillRequest prs_object_id_t bool | UnregObjectRequest prs_object_id_t prs_object_id_t bool
  | ExecResponse prs_object_id_t | KillResponse prs_object_id_t | UnregObjectResponse prs_object_id_t prs_object_id_t | OtherMsg

record 's life_mod = "'s sched_mod" +
  lf_task_name :: "prs_name option"
  lf_mem :: os_memory
  lf_procs :: "ptr \<Rightarrow> prs_proc"
  lf_list :: "ptr list"
  lf_data :: prs_proc_data
  lf_called :: "ptr list"
  lf_sent :: "(prs_object_id_t \<times> proc_msg) list"

type_synonym 's life_state = "'s life_mod god_world"
type_synonym 's life_ops = "'s life_mod god_ops"

text \<open>What the allocator and the system answer while a task is created.\<close>

record task_answers =
  ta_name_memory :: "ptr option"
  ta_entries_memory :: "ptr option"
  ta_memory :: "ptr option"
  ta_page_size :: u64
  ta_map_answer :: ptr
  ta_context :: "ptr option"
  ta_msgq :: "ptr option"
  ta_object_memory :: "ptr option"
  ta_node_memory :: "ptr option"

definition task_name_offset :: u64 where
  "task_name_offset = 4"

text \<open>The main parameters, after the list node, the ID and the file name.\<close>

definition proc_params_offset :: u64 where
  "proc_params_offset = 280"

definition PRS_PROC_SVC_NAME :: string where
  "PRS_PROC_SVC_NAME = ''prs_svc_proc''"

definition life_mem :: "'s life_mod \<Rightarrow> ptr \<Rightarrow> string" where
  "life_mem w a = task_name (sm_tasks w (a - task_name_offset))"

definition life_set_proc :: "ptr \<Rightarrow> prs_proc \<Rightarrow> 's life_state \<Rightarrow> 's life_state" where
  "life_set_proc p proc s = (fst s, (snd s)\<lparr>lf_procs := (lf_procs (snd s))(p := proc)\<rparr>)"

definition life_send :: "prs_object_id_t \<Rightarrow> proc_msg \<Rightarrow> 's life_state \<Rightarrow> 's life_state" where
  "life_send tid msg s = (fst s, (snd s)\<lparr>lf_sent := lf_sent (snd s) @ [(tid, msg)]\<rparr>)"

section \<open>Names of tasks\<close>

definition task_name_init :: "'s life_state \<Rightarrow> ptr option \<Rightarrow> ptr option \<Rightarrow> 's life_state option" where
  "task_name_init s name_memory entries_memory =
     (case lf_task_name (snd s) of
        Some _ \<Rightarrow> Some s
      | None \<Rightarrow>
          map_option (\<lambda>name. (fst s, (snd s)\<lparr>lf_task_name := Some name\<rparr>))
            (prs_name_create \<lparr>np_max_entries = PRS_MAX_OBJECTS * 4, np_string_offset = task_name_offset\<rparr> name_memory entries_memory))"

definition task_name_alloc :: "'s life_ops \<Rightarrow> 's life_state \<Rightarrow> prs_object_id_t \<Rightarrow> ptr option \<Rightarrow> ('s life_state \<times> prs_result) option" where
  "task_name_alloc ops_of s oid memory =
     (case lf_task_name (snd s) of
        None \<Rightarrow> None
      | Some name \<Rightarrow>
          map_option (\<lambda>(name, s, result). ((fst s, (snd s)\<lparr>lf_task_name := Some name\<rparr>), result))
            (prs_name_alloc ops_of (life_mem (snd s)) name s oid memory))"

definition task_name_free :: "'s life_ops \<Rightarrow> 's life_state \<Rightarrow> prs_object_id_t \<Rightarrow> ('s life_state \<times> prs_result) option" where
  "task_name_free ops_of s oid =
     (case lf_task_name (snd s) of
        None \<Rightarrow> None
      | Some name \<Rightarrow>
          (case prs_name_free ops_of (life_mem (snd s)) name s oid of
             (name, s, result) \<Rightarrow> Some ((fst s, (snd s)\<lparr>lf_task_name := Some name\<rparr>), result)))"

definition prs_task_find :: "'s life_ops \<Rightarrow> 's life_state \<Rightarrow> string \<Rightarrow> ('s life_state \<times> prs_object_id_t) option" where
  "prs_task_find ops_of s key = map_option (\<lambda>name. prs_name_find ops_of (life_mem (snd s)) name s key) (lf_task_name (snd s))"

definition prs_task_find_and_lock :: "'s life_ops \<Rightarrow> 's life_state \<Rightarrow> string \<Rightarrow> ('s life_state \<times> ptr) option" where
  "prs_task_find_and_lock ops_of s key =
     map_option (\<lambda>name. let (s, oid) = prs_name_find_and_lock ops_of (life_mem (snd s)) name s key in (s, prs_god_find (fst s) oid))
       (lf_task_name (snd s))"

section \<open>The objects of a process\<close>

definition prs_proc_register_object :: "'s life_state \<Rightarrow> ptr \<Rightarrow> prs_object_id_t \<Rightarrow> ptr option \<Rightarrow> 's life_state option" where
  "prs_proc_register_object s proc oid memory =
     (case memory of
        None \<Rightarrow> None
      | Some proc_object \<Rightarrow>
          (let p = lf_procs (snd s) proc;
               s = life_set_proc proc (p\<lparr>pc_objects := pc_objects p @ [(proc_object, oid)]\<rparr>) s;
               (god, ptr) = prs_god_lock (fst s) (pc_id p)
           in if ptr = 0 then None else Some (god, snd s)))"

text \<open>The first object with the ID; its memory is not freed.\<close>

fun proc_object_remove :: "prs_object_id_t \<Rightarrow> (ptr \<times> prs_object_id_t) list \<Rightarrow> (ptr \<times> prs_object_id_t) list option" where
  "proc_object_remove oid [] = None"
| "proc_object_remove oid ((node, object_id) # nodes) =
     (if object_id = oid then Some nodes else map_option (Cons (node, object_id)) (proc_object_remove oid nodes))"

definition prs_proc_unregister_object :: "'s life_ops \<Rightarrow> 's life_state \<Rightarrow> ptr \<Rightarrow> prs_object_id_t \<Rightarrow> 's life_state \<times> prs_result" where
  "prs_proc_unregister_object ops_of s proc oid =
     (let p = lf_procs (snd s) proc
      in case proc_object_remove oid (pc_objects p) of
           None \<Rightarrow> (s, PRS_NOT_FOUND)
         | Some nodes \<Rightarrow> (prs_god_unlock ops_of (life_set_proc proc (p\<lparr>pc_objects := nodes\<rparr>) s) (pc_id p), PRS_OK))"

text \<open>The process service unregisters an object itself, which is fatal without a process; every other task sends it a request. This is the code that
  \<^verbatim>\<open>prs_task_destroy\<close> and \<^verbatim>\<open>prs_task_set_proc\<close> share.\<close>

definition task_unregister :: "'s life_ops \<Rightarrow> 's life_state \<Rightarrow> ptr \<Rightarrow> ptr \<Rightarrow> prs_object_id_t \<Rightarrow> prs_object_id_t \<Rightarrow> 's life_state option" where
  "task_unregister ops_of s current proc proc_id oid =
     Option.bind (prs_task_find ops_of s PRS_PROC_SVC_NAME)
       (\<lambda>(s, proc_task_id).
          if proc_task_id = PRS_OBJECT_ID_INVALID then None
          else if proc_task_id = task_id (sm_tasks (snd s) current)
               then (if proc = 0 then None else Some (fst (prs_proc_unregister_object ops_of s proc oid)))
          else Some (life_send proc_task_id (UnregObjectRequest proc_id oid False) s))"

section \<open>Tasks\<close>

text \<open>The message queue, the context and the stack are handed to the functions that destroy them.\<close>

definition prs_task_object_free :: "ptr \<Rightarrow> 's life_state \<Rightarrow> 's life_state" where
  "prs_task_object_free obj s =
     (let task = sm_tasks (snd s) obj;
          s = sched_free (filter (\<lambda>p. p \<noteq> 0) [task_msgq task, task_context task]) s;
          s = (if task_stack task \<noteq> 0 then (fst s, (snd s)\<lparr>lf_mem := prs_stack_destroy (lf_mem (snd s)) False (task_stack task)\<rparr>) else s)
      in sched_free [obj] s)"

definition prs_task_set_proc :: "'s life_ops \<Rightarrow> 's life_state \<Rightarrow> ptr \<Rightarrow> ptr \<Rightarrow> prs_object_id_t \<Rightarrow> ptr option \<Rightarrow> ('s life_state \<times> prs_result) option" where
  "prs_task_set_proc ops_of s current task proc_id memory =
     (let (god, proc) = prs_god_lock (fst s) proc_id;
          s = (god, snd s);
          t = sm_tasks (snd s) task
      in if proc = 0 then Some (s, PRS_NOT_FOUND)
         else
           (case (if task_proc_id t \<noteq> 0
                  then map_option (\<lambda>s. prs_god_unlock ops_of s (task_proc_id t)) (task_unregister ops_of s current proc proc_id (task_id t))
                  else Some s) of
              None \<Rightarrow> None
            | Some s \<Rightarrow>
                map_option (\<lambda>s. (sched_set_task task ((sm_tasks (snd s) task)\<lparr>task_proc_id := proc_id\<rparr>) s, PRS_OK))
                  (prs_proc_register_object s proc (task_id t) memory)))"

text \<open>The fields that the zeroed structure gets before the process is inherited, and after.\<close>

definition task_zero :: "prs_object_id_t \<Rightarrow> prs_task" where
  "task_zero oid = \<lparr>task_id = oid, task_name = '''', task_userdata = 0, task_stack = 0, task_stack_size = 0, task_prio = 0, task_proc_id = 0,
     task_sched_id = 0, task_sched_userdata = 0, task_token = 0, task_context = 0, task_entry = 0, task_msgq = 0\<rparr>"

definition task_fill :: "prs_task_create_params \<Rightarrow> prs_task \<Rightarrow> prs_task" where
  "task_fill params t = prs_task_change_state
     (t\<lparr>task_name := tcp_name params, task_prio := tcp_prio params, task_userdata := tcp_userdata params, task_entry := tcp_entry params\<rparr>) PRS_TASK_STATE_STOPPED"

text \<open>The stack, the context and the message queue; \<open>False\<close> is the jump to the cleanup.\<close>

definition task_resources :: "'s life_state \<Rightarrow> ptr \<Rightarrow> prs_task_create_params \<Rightarrow> task_answers \<Rightarrow> 's life_state \<times> bool" where
  "task_resources s task params ans =
     (let stack_size = (if tcp_stack_size params \<noteq> 0 then tcp_stack_size params else ta_page_size ans);
          (mem, stack) = prs_stack_create (ta_page_size ans) (lf_mem (snd s)) (ta_map_answer ans) False stack_size;
          s = (fst s, (snd s)\<lparr>lf_mem := mem\<rparr>)
      in case stack of
           None \<Rightarrow> (s, False)
         | Some (p, n) \<Rightarrow>
             (let s = sched_set_task task ((sm_tasks (snd s) task)\<lparr>task_stack := p, task_stack_size := n\<rparr>) s
              in case ta_context ans of
                   None \<Rightarrow> (s, False)
                 | Some context_addr \<Rightarrow>
                     (sched_set_task task ((sm_tasks (snd s) task)\<lparr>task_context := context_addr,
                        task_msgq := (case ta_msgq ans of None \<Rightarrow> 0 | Some q \<Rightarrow> q)\<rparr>) s, True)))"

text \<open>\<open>current\<close> is 0 without a worker. The name fits the array for it.\<close>

definition task_inherit :: "'s life_ops \<Rightarrow> 's life_state \<Rightarrow> ptr \<Rightarrow> ptr \<Rightarrow> ptr option \<Rightarrow> ('s life_state \<times> prs_result) option" where
  "task_inherit ops_of s current task memory =
     (if current \<noteq> 0 \<and> task_proc_id (sm_tasks (snd s) current) \<noteq> 0
      then prs_task_set_proc ops_of s current task (task_proc_id (sm_tasks (snd s) current)) memory
      else Some (s, PRS_OK))"

definition prs_task_create ::
  "'s life_ops \<Rightarrow> ptr \<Rightarrow> 's life_state \<Rightarrow> ptr \<Rightarrow> prs_task_create_params \<Rightarrow> task_answers \<Rightarrow> ('s life_state \<times> ptr) option" where
  "prs_task_create ops_of ops s current params ans =
     Option.bind (task_name_init s (ta_name_memory ans) (ta_entries_memory ans)) (\<lambda>s.
       case ta_memory ans of
         None \<Rightarrow> Some (s, 0)
       | Some task \<Rightarrow>
           (let (god, oid) = prs_god_alloc_and_lock (fst s) task ops;
                s = sched_set_task task (task_zero oid) (god, snd s)
            in if oid = PRS_OBJECT_ID_INVALID then Some (sched_free [task] s, 0)
               else
                 (let (s, ok) = task_resources s task params ans
                  in if \<not> ok then Some (prs_god_unlock ops_of s oid, 0)
                     else
                       Option.bind (task_inherit ops_of s current task (ta_object_memory ans)) (\<lambda>(s, result).
                         if result \<noteq> PRS_OK then Some (prs_god_unlock ops_of s oid, 0)
                         else
                           Option.bind (task_name_alloc ops_of (sched_set_task task (task_fill params (sm_tasks (snd s) task)) s) oid (ta_node_memory ans)) (\<lambda>(s, result).
                             if result \<noteq> PRS_OK then Some (prs_god_unlock ops_of s oid, 0) else Some (s, task))))))"

text \<open>Only the first call finds the name.\<close>

definition prs_task_destroy ::
  "'s life_ops \<Rightarrow> (ptr \<Rightarrow> 's prs_sched_ops) \<Rightarrow> 's life_state \<Rightarrow> ptr \<Rightarrow> ptr \<Rightarrow> 's life_state option" where
  "prs_task_destroy ops_of impl s current task =
     Option.bind (task_name_free ops_of s (task_id (sm_tasks (snd s) task))) (\<lambda>(s, result).
       let t = sm_tasks (snd s) task
       in if result = PRS_OK
          then
            (let s = (if task_sched_id t \<noteq> 0 then fst (prs_sched_remove_task ops_of impl s (task_sched_id t) (task_id t)) else s)
             in Option.bind
                  (if task_proc_id t \<noteq> 0
                   then
                     (let (god, proc) = prs_god_lock (fst s) (task_proc_id t)
                      in map_option (\<lambda>s. prs_god_unlock ops_of (prs_god_unlock ops_of s (task_proc_id t)) (task_proc_id t))
                           (task_unregister ops_of (god, snd s) current proc (task_proc_id t) (task_id t)))
                   else Some s)
                  (\<lambda>s. Some (prs_god_unlock ops_of s (task_id t))))
          else Some s)"

text \<open>The function that a new task runs in: \<open>run\<close> is the effect of the entry function on its argument, and \<open>None\<close> that it does not
  return. The interrupts of the worker are on around the entry function; what follows the destruction is the scheduler.\<close>

definition prs_task_entry ::
  "'s life_ops \<Rightarrow> (ptr \<Rightarrow> 's prs_sched_ops) \<Rightarrow> (ptr \<Rightarrow> ptr \<Rightarrow> 's life_state \<Rightarrow> 's life_state option) \<Rightarrow> 's life_state \<Rightarrow> ptr \<Rightarrow> 's life_state option" where
  "prs_task_entry ops_of impl run s task =
     (let t = sm_tasks (snd s) task
      in Option.bind (run (task_entry t) (task_userdata t) s) (\<lambda>s. prs_task_destroy ops_of impl s task task))"

text \<open>The object operations; a fatal outcome of the destruction leaves the state.\<close>

definition prs_task_object_destroy ::
  "'s life_ops \<Rightarrow> (ptr \<Rightarrow> 's prs_sched_ops) \<Rightarrow> ptr \<Rightarrow> ptr \<Rightarrow> 's life_state \<Rightarrow> 's life_state" where
  "prs_task_object_destroy ops_of impl current obj s = (case prs_task_destroy ops_of impl s current obj of None \<Rightarrow> s | Some s \<Rightarrow> s)"

definition s_prs_task_object_ops :: "'s life_ops \<Rightarrow> (ptr \<Rightarrow> 's prs_sched_ops) \<Rightarrow> ptr \<Rightarrow> 's life_state prs_object_ops" where
  "s_prs_task_object_ops ops_of impl current =
     \<lparr>op_destroy = Some (prs_task_object_destroy ops_of impl current), op_free = Some prs_task_object_free, op_print = None\<rparr>"

section \<open>Processes\<close>

definition prs_proc_run_atexit_callbacks :: "ptr \<Rightarrow> 's life_state \<Rightarrow> 's life_state" where
  "prs_proc_run_atexit_callbacks proc s = (fst s, (snd s)\<lparr>lf_called := lf_called (snd s) @ pc_atexit_callbacks (lf_procs (snd s) proc)\<rparr>)"

definition prs_proc_object_free :: "ptr \<Rightarrow> 's life_state \<Rightarrow> 's life_state" where
  "prs_proc_object_free obj s =
     (let proc = lf_procs (snd s) obj;
          s = (if pc_atexit_addr proc \<noteq> 0 then sched_free [pc_atexit_addr proc] (prs_proc_run_atexit_callbacks obj s) else s);
          s = sched_free (filter (\<lambda>p. p \<noteq> 0) [pc_cmdline_buffer proc, pc_argv_addr proc, pc_pal_proc proc]) s;
          s = (if obj \<in> set (lf_list (snd s))
               then (fst s, (snd s)\<lparr>lf_list := remove1 obj (lf_list (snd s)),
                       lf_data := (case prs_proc_range_table_del (lf_data (snd s)) (pc_range_table_index proc) of None \<Rightarrow> lf_data (snd s) | Some d \<Rightarrow> d)\<rparr>)
               else s)
      in sched_free (filter (\<lambda>p. p \<noteq> 0) [pc_objects_addr proc] @ [obj]) s)"

definition s_prs_proc_object_ops :: "'s life_state prs_object_ops" where
  "s_prs_proc_object_ops = \<lparr>op_destroy = None, op_free = Some prs_proc_object_free, op_print = None\<rparr>"

text \<open>What the allocator and the loader answer: the loader gives the handle, the base, the size and the entry point.\<close>

record exec_answers =
  ea_memory :: "ptr option"
  ea_objects :: "ptr option"
  ea_atexit :: "ptr option"
  ea_buffer :: "ptr option"
  ea_argv :: ptr
  ea_pal_proc :: "(ptr \<times> u64 \<times> u64 \<times> ptr) option"
  ea_task :: task_answers
  ea_object_memory :: "ptr option"

definition proc_zero :: prs_proc where
  "proc_zero = \<lparr>pc_id = 0, pc_filename = [], pc_main_params = \<lparr>pm_argc = 0, pm_argv = [], pm_buffer = []\<rparr>, pc_argv_addr = 0, pc_pal_proc = 0,
     pc_cmdline_buffer = 0, pc_main_task = 0, pc_range_table_index = 0, pc_objects_addr = 0, pc_objects = [], pc_atexit_addr = 0,
     pc_atexit_callbacks = [], pc_destroyed = False\<rparr>"

text \<open>The entry of a process in the list and in the table of ranges.\<close>

definition proc_enlist :: "'s life_state \<Rightarrow> ptr \<Rightarrow> u64 \<Rightarrow> u64 \<Rightarrow> 's life_state option" where
  "proc_enlist s proc base bytes =
     map_option (\<lambda>(d, index).
         life_set_proc proc ((lf_procs (snd s) proc)\<lparr>pc_range_table_index := index\<rparr>) (fst s, (snd s)\<lparr>lf_list := lf_list (snd s) @ [proc], lf_data := d\<rparr>))
       (prs_proc_range_table_add (lf_data (snd s)) base bytes)"

text \<open>The structure with its ID, its queues and its command line.\<close>

definition proc_prepare :: "prs_object_id_t \<Rightarrow> string \<Rightarrow> string \<Rightarrow> exec_answers \<Rightarrow> prs_proc option" where
  "proc_prepare oid filename cmdline ans =
     (case (ea_objects ans, ea_atexit ans, prs_proc_parse_cmdline (ea_buffer ans) cmdline) of
        (Some objects, Some atexit, Some params) \<Rightarrow>
          Some (proc_zero\<lparr>pc_id := oid, pc_objects_addr := objects, pc_atexit_addr := atexit, pc_filename := filename,
            pc_cmdline_buffer := the (ea_buffer ans), pc_main_params := params, pc_argv_addr := ea_argv ans\<rparr>)
      | _ \<Rightarrow> None)"

text \<open>The main task of a process that is loaded; 0 is the jump to the cleanup.\<close>

definition proc_start_main ::
  "'s life_ops \<Rightarrow> (ptr \<Rightarrow> 's prs_sched_ops) \<Rightarrow> ptr \<Rightarrow> 's life_state \<Rightarrow> ptr \<Rightarrow> ptr \<Rightarrow> prs_proc_exec_params \<Rightarrow> ptr \<Rightarrow> exec_answers
    \<Rightarrow> ('s life_state \<times> bool) option" where
  "proc_start_main ops_of impl task_ops s current proc params entry ans =
     (let oid = pc_id (lf_procs (snd s) proc);
          task_params = (pep_main_task_params params)\<lparr>tcp_userdata := proc + proc_params_offset, tcp_entry := entry\<rparr>
      in Option.bind (prs_task_create ops_of task_ops s current task_params (ea_task ans)) (\<lambda>(s, task).
           let s = life_set_proc proc ((lf_procs (snd s) proc)\<lparr>pc_main_task := task\<rparr>) s
           in if task = 0 then Some (s, False)
              else
                (let s = sched_set_task task ((sm_tasks (snd s) task)\<lparr>task_proc_id := oid\<rparr>) s
                 in Option.bind (prs_task_set_proc ops_of s current task oid (ea_object_memory ans)) (\<lambda>(s, _).
                      let (s, result) = prs_sched_add_task ops_of impl s (pep_sched_id params) (task_id (sm_tasks (snd s) task))
                      in Some (s, result = PRS_OK)))))"

definition prs_proc_exec ::
  "'s life_ops \<Rightarrow> (ptr \<Rightarrow> 's prs_sched_ops) \<Rightarrow> ptr \<Rightarrow> ptr \<Rightarrow> 's life_state \<Rightarrow> ptr \<Rightarrow> prs_proc_exec_params \<Rightarrow> exec_answers
    \<Rightarrow> ('s life_state \<times> ptr) option" where
  "prs_proc_exec ops_of impl proc_ops task_ops s current params ans =
     Option.bind (ea_memory ans) (\<lambda>proc.
       let (god, oid) = prs_god_alloc_and_lock (fst s) proc proc_ops
       in if oid = PRS_OBJECT_ID_INVALID then None
          else
            Option.bind (proc_prepare oid (pep_filename params) (pep_cmdline params) ans) (\<lambda>p.
              let s = life_set_proc proc p (god, snd s)
              in case ea_pal_proc ans of
                   None \<Rightarrow> Some (prs_god_unlock ops_of s oid, 0)
                 | Some (pal_proc, base, bytes, entry) \<Rightarrow>
                     Option.bind (proc_enlist (life_set_proc proc (p\<lparr>pc_pal_proc := pal_proc\<rparr>) s) proc base bytes) (\<lambda>s.
                       Option.bind (proc_start_main ops_of impl task_ops s current proc params entry ans) (\<lambda>(s, started).
                         if started then Some (s, proc) else Some (prs_god_unlock ops_of s oid, 0)))))"

definition prs_proc_destroy :: "'s life_ops \<Rightarrow> 's life_state \<Rightarrow> ptr \<Rightarrow> 's life_state" where
  "prs_proc_destroy ops_of s proc =
     (let p = lf_procs (snd s) proc
      in if \<not> pc_destroyed p
         then (let s = fold (\<lambda>(_, object_id) s. fst (prs_god_object_destroy ops_of s object_id)) (pc_objects p) s
               in life_set_proc proc ((lf_procs (snd s) proc)\<lparr>pc_destroyed := True\<rparr>) s)
         else s)"

text \<open>\<open>memory\<close> is the node of the queue; without it nothing is added.\<close>

definition prs_proc_atexit :: "'s life_state \<Rightarrow> ptr \<Rightarrow> ptr \<Rightarrow> ptr option \<Rightarrow> 's life_state" where
  "prs_proc_atexit s proc func memory =
     (case memory of
        None \<Rightarrow> s
      | Some _ \<Rightarrow> life_set_proc proc ((lf_procs (snd s) proc)\<lparr>pc_atexit_callbacks := pc_atexit_callbacks (lf_procs (snd s) proc) @ [func]\<rparr>) s)"

text \<open>One pass over the list, up to the first process that is freed, and the loop.\<close>

fun proc_gc_pass :: "'s life_ops \<Rightarrow> ptr list \<Rightarrow> 's life_state \<Rightarrow> prs_result \<Rightarrow> 's life_state \<times> prs_result" where
  "proc_gc_pass ops_of [] s result = (s, result)"
| "proc_gc_pass ops_of (proc # procs) s result =
     (if pc_destroyed (lf_procs (snd s) proc)
      then (let (s, result) = prs_god_try_unlock_final ops_of s (pc_id (lf_procs (snd s) proc))
            in if result = PRS_OK then (s, result) else proc_gc_pass ops_of procs s result)
      else proc_gc_pass ops_of procs s result)"

partial_function (option) prs_proc_gc :: "'s life_ops \<Rightarrow> 's life_state \<Rightarrow> 's life_state option" where
  "prs_proc_gc ops_of s =
     (let (s, result) = proc_gc_pass ops_of (lf_list (snd s)) s PRS_EMPTY
      in if result = PRS_OK then prs_proc_gc ops_of s else Some s)"

declare prs_proc_gc.simps [code]

definition prs_proc_init_main ::
  "'s life_ops \<Rightarrow> ptr \<Rightarrow> 's life_state \<Rightarrow> ptr \<Rightarrow> string \<Rightarrow> string \<Rightarrow> exec_answers \<Rightarrow> 's life_state option" where
  "prs_proc_init_main ops_of proc_ops s current filename cmdline ans =
     Option.bind (ea_memory ans) (\<lambda>proc.
       Option.bind (proc_prepare 0 filename cmdline ans) (\<lambda>p.
         case ea_pal_proc ans of
           None \<Rightarrow> None
         | Some (pal_proc, base, bytes, _) \<Rightarrow>
             (let (god, oid) = prs_god_alloc_and_lock (fst s) proc proc_ops
              in if oid = PRS_OBJECT_ID_INVALID then None
                 else
                   (let s = life_set_proc proc (p\<lparr>pc_pal_proc := pal_proc, pc_id := oid, pc_main_task := current\<rparr>) (god, snd s)
                    in Option.bind (prs_task_set_proc ops_of s current current oid (ea_object_memory ans)) (\<lambda>(s, result).
                         if result \<noteq> PRS_OK then None else proc_enlist s proc base bytes)))))"

text \<open>The data of the module: no list and an empty table.\<close>

definition prs_proc_init ::
  "'s life_ops \<Rightarrow> ptr \<Rightarrow> 's life_state \<Rightarrow> ptr \<Rightarrow> string \<Rightarrow> string \<Rightarrow> ptr option \<Rightarrow> ptr option \<Rightarrow> exec_answers \<Rightarrow> 's life_state option" where
  "prs_proc_init ops_of proc_ops s current filename cmdline data_memory list_memory ans =
     (if data_memory = None \<or> list_memory = None then None
      else
        prs_proc_init_main ops_of proc_ops
          (fst s, (snd s)\<lparr>lf_list := [], lf_data := \<lparr>pd_range_table = replicate (unat PRS_MAX_OBJECTS) \<lparr>range_base = 0, range_size = 0\<rparr>, pd_range_table_count = 0\<rparr>\<rparr>)
          current filename cmdline ans)"

definition prs_proc_get_argc :: "'s life_ops \<Rightarrow> 's life_state \<Rightarrow> ptr \<Rightarrow> 's life_state \<times> nat" where
  "prs_proc_get_argc ops_of s current =
     (let proc_id = task_proc_id (sm_tasks (snd s) current);
          (god, proc) = prs_god_lock (fst s) proc_id
      in if proc = 0 then ((god, snd s), 0)
         else (prs_god_unlock ops_of (god, snd s) proc_id, pm_argc (pc_main_params (lf_procs (snd s) proc))))"

text \<open>The argument, or null; \<open>arg\<close> is not negative.\<close>

definition prs_proc_get_argv :: "'s life_ops \<Rightarrow> 's life_state \<Rightarrow> ptr \<Rightarrow> nat \<Rightarrow> 's life_state \<times> string option" where
  "prs_proc_get_argv ops_of s current arg =
     (let proc_id = task_proc_id (sm_tasks (snd s) current);
          (god, proc) = prs_god_lock (fst s) proc_id;
          params = pc_main_params (lf_procs (snd s) proc)
      in if proc = 0 then ((god, snd s), None)
         else if arg \<ge> pm_argc params then (prs_god_unlock ops_of (god, snd s) proc_id, None)
         else (prs_god_unlock ops_of (god, snd s) proc_id, Some (c_string_at (pm_buffer params) (pm_argv params ! arg))))"

section \<open>The process service\<close>

text \<open>One message, from the task \<open>sender\<close>. The service task is the current one.\<close>

definition svc_proc_handle ::
  "'s life_ops \<Rightarrow> (ptr \<Rightarrow> 's prs_sched_ops) \<Rightarrow> ptr \<Rightarrow> ptr \<Rightarrow> 's life_state \<Rightarrow> ptr \<Rightarrow> prs_object_id_t \<Rightarrow> proc_msg \<Rightarrow> exec_answers
    \<Rightarrow> 's life_state option" where
  "svc_proc_handle ops_of impl proc_ops task_ops s current sender msg ans =
     (case msg of
        ExecRequest params \<Rightarrow>
          map_option (\<lambda>(s, proc). life_send sender (ExecResponse (if proc \<noteq> 0 then pc_id (lf_procs (snd s) proc) else PRS_OBJECT_ID_INVALID)) s)
            (prs_proc_exec ops_of impl proc_ops task_ops s current params ans)
      | KillRequest proc_id respond \<Rightarrow>
          (let (god, proc) = prs_god_lock (fst s) proc_id;
               s = (god, snd s);
               s = (if proc \<noteq> 0 then prs_god_unlock ops_of (prs_proc_destroy ops_of s proc) proc_id else s)
           in Some (if respond then life_send sender (KillResponse proc_id) s else s))
      | UnregObjectRequest proc_id object_id respond \<Rightarrow>
          (let (god, proc) = prs_god_lock (fst s) proc_id;
               s = (god, snd s);
               s = (if proc \<noteq> 0 then prs_god_unlock ops_of (fst (prs_proc_unregister_object ops_of s proc object_id)) proc_id else s)
           in Some (if respond then life_send sender (UnregObjectResponse proc_id object_id) s else s))
      | _ \<Rightarrow> Some s)"

text \<open>The collection that the service runs once a second, the time of the last one, and how long it waits for a message.\<close>

definition svc_proc_tick :: "'s life_ops \<Rightarrow> 's life_state \<Rightarrow> prs_ticks_t \<Rightarrow> prs_ticks_t \<Rightarrow> ('s life_state \<times> prs_ticks_t \<times> prs_ticks_t) option" where
  "svc_proc_tick ops_of s now last_gc_ticks =
     (if now - last_gc_ticks \<ge> PRS_TICKS_FROM_SECS 1
      then map_option (\<lambda>s. (s, now, PRS_TICKS_FROM_SECS 1)) (prs_proc_gc ops_of s)
      else Some (s, last_gc_ticks, PRS_TICKS_FROM_SECS 1 - (now - last_gc_ticks)))"

definition prs_svc_proc_init ::
  "'s life_ops \<Rightarrow> (ptr \<Rightarrow> 's prs_sched_ops) \<Rightarrow> ptr \<Rightarrow> 's life_state \<Rightarrow> ptr \<Rightarrow> prs_object_id_t \<Rightarrow> prs_task_prio_t \<Rightarrow> ptr \<Rightarrow> task_answers
    \<Rightarrow> 's life_state option" where
  "prs_svc_proc_init ops_of impl task_ops s current sched_id prio entry ans =
     Option.bind (prs_task_create ops_of task_ops s current
        \<lparr>tcp_name = ''prs_svc_proc'', tcp_userdata = 0, tcp_stack_size = 16384, tcp_prio = prio, tcp_entry = entry\<rparr> ans) (\<lambda>(s, task).
       if task = 0 then None
       else (let (s, result) = prs_sched_add_task ops_of impl s sched_id (prs_task_get_id (sm_tasks (snd s) task)) in if result \<noteq> PRS_OK then None else Some s))"

section \<open>Collection\<close>

text \<open>A process that the collection frees: it is destroyed, and the reference of its creation is the only one. The processes of the
  list are objects of the directory, with the operations of a process, unless their IDs are dead.\<close>

definition proc_collectible :: "prs_god \<Rightarrow> 's life_mod \<Rightarrow> ptr \<Rightarrow> bool" where
  "proc_collectible god w proc \<longleftrightarrow> pc_destroyed (lf_procs w proc) \<and> god_view god (pc_id (lf_procs w proc)) = Some 1"

definition proc_list_ok :: "'s life_ops \<Rightarrow> prs_god \<Rightarrow> 's life_mod \<Rightarrow> bool" where
  "proc_list_ok ops_of god w \<longleftrightarrow> distinct (lf_list w)
     \<and> (\<forall>proc \<in> set (lf_list w). \<forall>e. god_live god (pc_id (lf_procs w proc)) = Some e
          \<longrightarrow> goe_object e = proc \<and> op_free (ops_of (goe_ops e)) = Some prs_proc_object_free)"

lemma proc_object_free_same [simp]:
  "fst (prs_proc_object_free proc s) = fst s"
  "lf_procs (snd (prs_proc_object_free proc s)) = lf_procs (snd s)"
  "lf_list (snd (prs_proc_object_free proc s)) = remove1 proc (lf_list (snd s))"
  by (simp_all add: prs_proc_object_free_def prs_proc_run_atexit_callbacks_def sched_free_def Let_def remove1_idem)

text \<open>Freeing a process depends on the directory in nothing.\<close>

lemma proc_object_free_world: "snd (prs_proc_object_free proc (god, w)) = snd (prs_proc_object_free proc (god', w))"
  by (cases "pc_atexit_addr (lf_procs w proc) = 0"; cases "proc \<in> set (lf_list w)")
    (simp_all add: prs_proc_object_free_def prs_proc_run_atexit_callbacks_def sched_free_def Let_def cong: option.case_cong split del: if_split)

lemma proc_try_free:
  assumes "god_wf god" and "god_ops_ok ops_of" and "proc_list_ok ops_of god w" and "proc \<in> set (lf_list w)" and "proc_collectible god w proc"
  obtains god' where "prs_god_try_unlock_final ops_of (god, w) (pc_id (lf_procs w proc)) = ((god', snd (prs_proc_object_free proc (god, w))), PRS_OK)"
    "god_wf god'" "god_live god' = (god_live god)(pc_id (lf_procs w proc) := None)"
proof -
  let ?i = "pc_id (lf_procs w proc)"
  obtain e where e: "god_live god ?i = Some e" "god_refs (goe_header e) = 1"
    using assms(5) by (auto simp: proc_collectible_def god_view_def)
  have c: "god_free_call ops_of e s = prs_proc_object_free proc s" for s
    using assms(3,4) e(1) by (simp add: proc_list_ok_def god_free_call_def)
  note u = god_unlock_last(1,2) [OF assms(1) e assms(2)] god_unlock_last(4,5) [where w = w, OF assms(1) e assms(2)]
  obtain god' where g: "prs_god_free ops_of (god_marked god ?i, w) ?i = (god', snd (prs_proc_object_free proc (god_marked god ?i, w)))"
      "god_evolves god god'" "god_live god' = god_live (god_marked god ?i)"
    using u(4) by (auto simp: c)
  show thesis
    by (rule that [of god']) (use g u(2,3) proc_object_free_world [of proc "god_marked god ?i" w god] in \<open>simp_all add: god_evolves_def\<close>)
qed

lemma proc_try_keep:
  assumes "god_wf god" and "pc_destroyed (lf_procs w proc)" and "\<not> proc_collectible god w proc"
  obtains r where "prs_god_try_unlock_final ops_of (god, w) (pc_id (lf_procs w proc)) = ((god, w), r)" "r \<noteq> PRS_OK"
proof (cases "god_live god (pc_id (lf_procs w proc))")
  case None
  obtain r where "snd (prs_god_try_unlock_final ops_of (god, w) (pc_id (lf_procs w proc))) = r" by blast
  then show thesis using that [of r] god_dead(4,5) [OF assms(1) None, where ops_of = ops_of and w = w] by (simp add: prod_eq_iff)
next
  case (Some e)
  then have "1 < god_refs (goe_header e)" using assms god_live_fields(6) [OF assms(1) Some] by (fastforce simp: proc_collectible_def god_view_def)
  then show thesis using that [of PRS_LOCKED] god_unlock_shared(2) [OF assms(1) Some, where ops_of = ops_of and w = w] by simp
qed

text \<open>A pass frees the first process that it can free, if there is one.\<close>

lemma proc_gc_pass_cases:
  assumes "god_wf god" and "god_ops_ok ops_of" and "proc_list_ok ops_of god w" and "set procs \<subseteq> set (lf_list w)" and "result \<noteq> PRS_OK"
  shows "case filter (proc_collectible god w) procs of
      [] \<Rightarrow> \<exists>r. proc_gc_pass ops_of procs (god, w) result = ((god, w), r) \<and> r \<noteq> PRS_OK
    | proc # _ \<Rightarrow> proc_gc_pass ops_of procs (god, w) result = prs_god_try_unlock_final ops_of (god, w) (pc_id (lf_procs w proc))"
  using assms(4,5)
proof (induction procs arbitrary: result)
  case Nil
  then show ?case by simp
next
  case (Cons proc procs)
  show ?case
  proof (cases "proc_collectible god w proc")
    case True
    then obtain god' where "prs_god_try_unlock_final ops_of (god, w) (pc_id (lf_procs w proc)) = ((god', snd (prs_proc_object_free proc (god, w))), PRS_OK)"
      using proc_try_free [OF assms(1-3)] Cons.prems(1) by (metis list.set_intros(1) subsetD)
    then show ?thesis using True by (simp add: proc_collectible_def)
  next
    case keep: False
    show ?thesis
    proof (cases "pc_destroyed (lf_procs w proc)")
      case True
      obtain r where "prs_god_try_unlock_final ops_of (god, w) (pc_id (lf_procs w proc)) = ((god, w), r)" "r \<noteq> PRS_OK"
        by (rule proc_try_keep [OF assms(1) True keep])
      then show ?thesis using Cons.IH [of r] Cons.prems keep True by (cases "filter (proc_collectible god w) procs") simp_all
    next
      case False
      then show ?thesis using Cons.IH [of result] Cons.prems keep by (cases "filter (proc_collectible god w) procs") simp_all
    qed
  qed
qed

text \<open>The loop, on any number of processes.\<close>

lemma proc_gc_step:
  assumes "god_wf god" and "god_ops_ok ops_of" and "proc_list_ok ops_of god w" and "filter (proc_collectible god w) (lf_list w) = proc # procs"
  obtains god' w' where "prs_proc_gc ops_of (god, w) = prs_proc_gc ops_of (god', w')" "w' = snd (prs_proc_object_free proc (god, w))"
    "god_wf god'" "god_live god' = (god_live god)(pc_id (lf_procs w proc) := None)" "proc_list_ok ops_of god' w'"
    "filter (proc_collectible god' w') (lf_list w') = procs"
proof -
  have p: "proc \<in> set (lf_list w)" "proc_collectible god w proc"
    using Cons_eq_filterD [OF assms(4) [symmetric]] by auto
  let ?i = "pc_id (lf_procs w proc)" and ?w = "snd (prs_proc_object_free proc (god, w))"
  obtain god' where g: "prs_god_try_unlock_final ops_of (god, w) ?i = ((god', ?w), PRS_OK)" "god_wf god'" "god_live god' = (god_live god)(?i := None)"
    by (rule proc_try_free [OF assms(1-3) p])
  have "proc_gc_pass ops_of (lf_list w) (god, w) PRS_EMPTY = ((god', ?w), PRS_OK)"
    using proc_gc_pass_cases [OF assms(1-3) subset_refl, of PRS_EMPTY] assms(4) g(1) by simp
  then have run: "prs_proc_gc ops_of (god, w) = prs_proc_gc ops_of (god', ?w)"
    by (subst prs_proc_gc.simps) simp
  have d: "distinct (lf_list w)" using assms(3) by (simp add: proc_list_ok_def)
  have ok: "proc_list_ok ops_of god' ?w" using assms(3) g(3) by (auto simp: proc_list_ok_def distinct_remove1 set_remove1_eq [OF d] split: if_splits)
  obtain e where e: "god_live god ?i = Some e" using p(2) by (auto simp: proc_collectible_def god_view_def)
  have other: "proc_collectible god' ?w q = proc_collectible god w q" if "q \<in> set (lf_list w)" "q \<noteq> proc" for q
  proof (cases "pc_id (lf_procs w q) = ?i")
    case True
    then have "goe_object e = q" "goe_object e = proc" using assms(3) p(1) that(1) e unfolding proc_list_ok_def by metis+
    then show ?thesis using that(2) by simp
  next
    case False
    then show ?thesis using g(3) by (simp add: proc_collectible_def god_view_def)
  qed
  have "filter (proc_collectible god' ?w) (lf_list ?w) = filter (proc_collectible god w) (remove1 proc (lf_list w))"
    by (rule filter_cong) (use other d in \<open>auto simp: set_remove1_eq\<close>)
  also have "\<dots> = procs" using assms(4) p(2) by (simp add: filter_remove1)
  finally show thesis using that [OF run refl g(2,3) ok] by blast
qed

lemma proc_gc_frees:
  assumes "god_wf god" and "god_ops_ok ops_of" and "proc_list_ok ops_of god w" and "filter (proc_collectible god w) (lf_list w) = procs"
  shows "\<exists>god'. prs_proc_gc ops_of (god, w) = Some (god', snd (fold prs_proc_object_free procs (god, w)))
    \<and> god_wf god' \<and> god_live god' = (\<lambda>oid. if oid \<in> (\<lambda>p. pc_id (lf_procs w p)) ` set procs then None else god_live god oid)"
  using assms(1,3,4)
proof (induction procs arbitrary: god w)
  case Nil
  obtain r where "proc_gc_pass ops_of (lf_list w) (god, w) PRS_EMPTY = ((god, w), r)" "r \<noteq> PRS_OK"
    using proc_gc_pass_cases [OF Nil(1) assms(2) Nil(2) subset_refl, of PRS_EMPTY] Nil(3) by auto
  then have "prs_proc_gc ops_of (god, w) = Some (god, w)" by (subst prs_proc_gc.simps) simp
  then show ?case using Nil(1) by simp
next
  case (Cons proc procs)
  obtain god1 w1 where 1: "prs_proc_gc ops_of (god, w) = prs_proc_gc ops_of (god1, w1)" "w1 = snd (prs_proc_object_free proc (god, w))"
      "god_wf god1" "god_live god1 = (god_live god)(pc_id (lf_procs w proc) := None)" "proc_list_ok ops_of god1 w1"
      "filter (proc_collectible god1 w1) (lf_list w1) = procs"
    by (rule proc_gc_step [OF Cons.prems(1) assms(2) Cons.prems(2,3)])
  obtain god' where g: "prs_proc_gc ops_of (god1, w1) = Some (god', snd (fold prs_proc_object_free procs (god1, w1)))" "god_wf god'"
      "god_live god' = (\<lambda>oid. if oid \<in> (\<lambda>p. pc_id (lf_procs w1 p)) ` set procs then None else god_live god1 oid)"
    using Cons.IH [OF 1(3,5,6)] by blast
  have "snd (fold prs_proc_object_free ps (ga, v)) = snd (fold prs_proc_object_free ps (gb, v))" for ps ga gb v
  proof (induction ps arbitrary: ga gb v)
    case (Cons p ps)
    have "prs_proc_object_free p (g, v) = (g, snd (prs_proc_object_free p (gb, v)))" for g
      using proc_object_free_world [of p g v gb] by (simp add: prod_eq_iff)
    then show ?case using Cons.IH by (metis fold_simps(2))
  qed simp
  moreover have "prs_proc_object_free proc (god, w) = (god, w1)" by (simp add: 1(2) prod_eq_iff)
  ultimately have f: "snd (fold prs_proc_object_free procs (god1, w1)) = snd (fold prs_proc_object_free (proc # procs) (god, w))" by simp
  have "lf_procs w1 = lf_procs w" by (simp add: 1(2))
  then have "god_live god' = (\<lambda>oid. if oid \<in> (\<lambda>p. pc_id (lf_procs w p)) ` set (proc # procs) then None else god_live god oid)"
    using g(3) 1(4) by (auto simp: fun_eq_iff)
  then show ?case using 1(1) g(1,2) f by auto
qed

text \<open>What the list and the calls become when processes are freed one after the other.\<close>

definition proc_exits :: "prs_proc \<Rightarrow> ptr list" where
  "proc_exits proc = (if pc_atexit_addr proc \<noteq> 0 then pc_atexit_callbacks proc else [])"

lemma proc_object_free_called:
  "lf_called (snd (prs_proc_object_free proc s)) = lf_called (snd s) @ proc_exits (lf_procs (snd s) proc)"
  by (simp add: proc_exits_def prs_proc_object_free_def prs_proc_run_atexit_callbacks_def sched_free_def Let_def)

lemma proc_free_fold_procs [simp]: "lf_procs (snd (fold prs_proc_object_free procs s)) = lf_procs (snd s)"
  by (induction procs arbitrary: s) simp_all

lemma proc_free_fold_list:
  assumes "distinct (lf_list (snd s))"
  shows "lf_list (snd (fold prs_proc_object_free procs s)) = filter (\<lambda>p. p \<notin> set procs) (lf_list (snd s))"
  using assms
proof (induction procs arbitrary: s)
  case (Cons p procs)
  have "remove1 p (lf_list (snd s)) = filter (\<lambda>q. q \<noteq> p) (lf_list (snd s))"
    using Cons.prems by (simp add: distinct_remove1_removeAll removeAll_filter_not_eq eq_commute)
  then show ?case using Cons.IH [of "prs_proc_object_free p s"] Cons.prems by simp
qed simp

lemma proc_free_fold_called:
  "lf_called (snd (fold prs_proc_object_free procs s)) = lf_called (snd s) @ concat (map (\<lambda>p. proc_exits (lf_procs (snd s) p)) procs)"
  by (induction procs arbitrary: s) (simp_all add: proc_object_free_called)

section \<open>References of a task to its process\<close>

text \<open>A directory with its counts and, for every ID, the object and its operations.\<close>

definition god_is :: "prs_god \<Rightarrow> (prs_object_id_t \<rightharpoonup> nat) \<Rightarrow> (prs_object_id_t \<rightharpoonup> ptr \<times> ptr) \<Rightarrow> bool" where
  "god_is god v k \<longleftrightarrow> god_wf god \<and> god_view god = v \<and> (\<forall>oid. map_option (\<lambda>e. (goe_object e, goe_ops e)) (god_live god oid) = k oid)"

lemma god_isD:
  assumes "god_is god v k" and "v oid = Some n"
  obtains e where "god_wf god" "god_live god oid = Some e" "god_refs (goe_header e) = n" "k oid = Some (goe_object e, goe_ops e)" "goe_object e \<noteq> 0"
    "god_obj god oid = Some (goe_object e)"
proof -
  have wf: "god_wf god" and v: "god_view god oid = Some n" and k: "k oid = map_option (\<lambda>e. (goe_object e, goe_ops e)) (god_live god oid)"
    using assms by (simp_all add: god_is_def)
  from v obtain e where e: "god_live god oid = Some e" "god_refs (goe_header e) = n" by (auto simp: god_view_def)
  show thesis by (rule that [OF wf e]) (use k e god_live_fields(8) [OF wf e(1)] in \<open>simp_all add: god_obj_def\<close>)
qed

lemma god_is_update:
  assumes "god_is god v k" and "god_wf god'" and "god_live god oid = Some e" and "god_live god' = (god_live god)(oid \<mapsto> e\<lparr>goe_header := h\<rparr>)"
  shows "god_is god' (v(oid \<mapsto> god_refs h)) k"
proof -
  have k: "k = (\<lambda>oid. map_option (\<lambda>e. (goe_object e, goe_ops e)) (god_live god oid))" and v: "v = god_view god"
    using assms(1) by (simp_all add: god_is_def fun_eq_iff)
  show ?thesis unfolding k v using assms(2-4) by (auto simp: god_is_def god_view_def fun_eq_iff)
qed

lemma god_is_lock:
  assumes "god_is god v k" and "v oid = Some n" and "n < 4095"
  obtains god' where "prs_god_lock god oid = (god', fst (the (k oid)))" "fst (the (k oid)) \<noteq> 0" "god_is god' (v(oid \<mapsto> n + 1)) k"
proof -
  obtain e where e: "god_wf god" "god_live god oid = Some e" "god_refs (goe_header e) = n" "k oid = Some (goe_object e, goe_ops e)" "goe_object e \<noteq> 0"
    by (rule god_isD [OF assms(1,2)])
  have lim: "god_refs (goe_header e) < 4095" using e(3) assms(3) by simp
  note l = god_lock_entry_live [OF e(1,2) lim]
  have "god_is (god_set_header god oid (goe_header e + 1)) (v(oid \<mapsto> n + 1)) k"
    using god_is_update [OF assms(1) _ e(2) l(4)] l(3) god_inc_fields(1) [OF lim] e(3) by (simp add: god_evolves_def)
  then show thesis using that l(2) e(4,5) by simp
qed

lemma god_is_unlock:
  assumes "god_is god v k" and "v oid = Some n" and "1 < n"
  obtains god' where "\<forall>w :: 'w. prs_god_unlock ops_of (god, w) oid = (god', w)" "god_is god' (v(oid \<mapsto> n - 1)) k"
proof -
  obtain e where e: "god_wf god" "god_live god oid = Some e" "god_refs (goe_header e) = n"
    by (rule god_isD [OF assms(1,2)])
  have lim: "1 < god_refs (goe_header e)" using e(3) assms(3) by simp
  note u = god_unlock_shared [OF e(1,2) lim]
  have "god_refs (goe_header e - 1) = n - 1" using god_dec_fields(1) [of "goe_header e"] lim e(3) by simp
  then have "god_is (god_set_header god oid (goe_header e - 1)) (v(oid \<mapsto> n - 1)) k"
    using god_is_update [OF assms(1) _ e(2) u(4)] u(3) by (simp add: god_evolves_def)
  then show thesis using that god_unlock_shared(1) [OF e(1,2) lim, of ops_of] by blast
qed

text \<open>The last unlock of an object whose free function leaves the directory alone.\<close>

lemma god_is_last:
  fixes w :: 'w
  assumes "god_is god v k" and "v oid = Some 1" and "k oid = Some (obj, ops)" and "god_ops_ok ops_of" and "op_free (ops_of ops) = Some f"
    and "\<And>s. fst (f obj s) = fst s" and "\<And>g g'. snd (f obj (g, w)) = snd (f obj (g', w))"
  obtains god' where "prs_god_unlock ops_of (god, w) oid = (god', snd (f obj (god, w)))" "god_is god' (v(oid := None)) (k(oid := None))"
proof -
  obtain e where e: "god_wf god" "god_live god oid = Some e" "god_refs (goe_header e) = 1" "k oid = Some (goe_object e, goe_ops e)"
    by (rule god_isD [OF assms(1,2)])
  have c: "god_free_call ops_of e s = f obj s" for s using e(4) assms(3,5) by (simp add: god_free_call_def)
  note u = god_unlock_last(2) [OF e(1-3) assms(4)] god_unlock_last(3,5) [where w = w, OF e(1-3) assms(4)]
  obtain god' where g: "prs_god_free ops_of (god_marked god oid, w) oid = (god', snd (f obj (god_marked god oid, w)))"
      "god_evolves god god'" "god_live god' = god_live (god_marked god oid)"
    using u(3) by (auto simp: c assms(6))
  have "god_is god' (v(oid := None)) (k(oid := None))"
    using assms(1) g(2,3) u(1) by (auto simp: god_is_def god_evolves_def god_view_def fun_eq_iff)
  moreover have "prs_god_unlock ops_of (god, w) oid = (god', snd (f obj (god, w)))"
    using u(2) g(1) assms(7) [of god "god_marked god oid"] by simp
  ultimately show thesis by (rule that [rotated])
qed

lemma task_object_free_same:
  "fst (prs_task_object_free obj s) = fst s" "snd (prs_task_object_free obj (god, w)) = snd (prs_task_object_free obj (god', w))"
  by (simp_all add: prs_task_object_free_def sched_free_def Let_def)

text \<open>Searches depend on the directory only through the objects of the IDs.\<close>

lemma name_god_is:
  assumes "god_is god v k" and "\<forall>oid n. v oid = Some n \<longrightarrow> n < 4095"
  shows "name_god_ok god" and "name_named mem name god oid key \<longleftrightarrow> (\<exists>e. k oid = Some e \<and> prs_name_get_key name mem (fst e) = key)"
proof -
  have k: "k oid = map_option (\<lambda>e. (goe_object e, goe_ops e)) (god_live god oid)" for oid using assms(1) by (simp add: god_is_def)
  have v: "god_wf god" "v oid = map_option (\<lambda>e. god_refs (goe_header e)) (god_live god oid)" for oid
    using assms(1) by (auto simp: god_is_def god_view_def fun_eq_iff)
  have "god_refs (goe_header e) < 4095" if "god_live god oid = Some e" for oid e
    by (rule assms(2) [rule_format, of oid]) (simp add: v(2) that)
  then show "name_god_ok god" using v(1) by (simp add: name_god_ok_def)
  show "name_named mem name god oid key \<longleftrightarrow> (\<exists>e. k oid = Some e \<and> prs_name_get_key name mem (fst e) = key)"
    by (auto simp: name_named_def k)
qed

definition task_found :: "(prs_object_id_t \<rightharpoonup> ptr \<times> ptr) \<Rightarrow> (ptr \<Rightarrow> string) \<Rightarrow> prs_name \<Rightarrow> string \<Rightarrow> prs_object_id_t" where
  "task_found k mem name key =
     (case find (\<lambda>n. snd n \<noteq> 0 \<and> (\<exists>e. k (snd n) = Some e \<and> prs_name_get_key name mem (fst e) = key)) (nm_entries name ! prs_name_get_entry name key) of
        None \<Rightarrow> 0 | Some n \<Rightarrow> snd n)"

lemma task_find_eq:
  assumes "god_is god v k" and "\<forall>oid n. v oid = Some n \<longrightarrow> n < 4095" and "lf_task_name w = Some name"
  shows "prs_task_find ops_of (god, w) key = Some ((god, w), task_found k (life_mem w) name key)"
  using name_find_eq(1) [OF name_god_is(1) [OF assms(1,2)]] name_god_is(2) [OF assms(1,2)]
  by (simp add: prs_task_find_def assms(3) task_found_def name_first_def)

text \<open>Taking another ID out of the table leaves what is found.\<close>

lemma find_name_free:
  assumes "(case find (\<lambda>n. snd n \<noteq> 0 \<and> P (snd n)) nodes of None \<Rightarrow> 0 | Some n \<Rightarrow> snd n) = svc" and "svc \<noteq> 0" and "svc \<noteq> oid"
  shows "(case find (\<lambda>n. snd n \<noteq> 0 \<and> P (snd n)) (fst (name_free_loop oid nodes)) of None \<Rightarrow> 0 | Some n \<Rightarrow> snd n) = svc"
  using assms
proof (induction nodes)
  case (Cons n nodes)
  then show ?case by (cases n) (auto simp: PRS_OBJECT_ID_INVALID_def split: if_splits)
qed simp

text \<open>Joining a process that the task does not belong to yet takes two references.\<close>

lemma task_set_proc_result:
  assumes "god_is god v k" and "v pid = Some n" and "n < 4094" and "k pid = Some (proc, pops)" and "pc_id (lf_procs w proc) = pid"
    and "task_proc_id (sm_tasks w task) = 0" and "task_id (sm_tasks w task) = tid"
  obtains god' where "god_is god' (v(pid \<mapsto> n + 2)) k"
    "prs_task_set_proc ops_of (god, w) current task pid (Some node) =
       Some ((god', w\<lparr>lf_procs := (lf_procs w)(proc := (lf_procs w proc)\<lparr>pc_objects := pc_objects (lf_procs w proc) @ [(node, tid)]\<rparr>),
         sm_tasks := (sm_tasks w)(task := (sm_tasks w task)\<lparr>task_proc_id := pid\<rparr>)\<rparr>), PRS_OK)"
proof -
  obtain g1 where 1: "prs_god_lock god pid = (g1, proc)" "proc \<noteq> 0" "god_is g1 (v(pid \<mapsto> n + 1)) k"
    by (rule god_is_lock [OF assms(1,2)]) (use assms(3,4) in simp_all)
  obtain g2 where 2: "prs_god_lock g1 pid = (g2, proc)" "god_is g2 (v(pid \<mapsto> n + 2)) k"
    by (rule god_is_lock [OF 1(3), of pid "n + 1"]) (use assms(3,4) in simp_all)
  show thesis
    by (rule that [OF 2(2)])
      (use 1 2 assms(5-7) in \<open>simp add: prs_task_set_proc_def prs_proc_register_object_def life_set_proc_def sched_set_task_def Let_def\<close>)
qed

text \<open>The object's own unregistration and the request, and what the process service does with it.\<close>

lemma proc_unregister_result:
  assumes "god_is god v k" and "v pid = Some n" and "1 < n" and "lf_procs w proc = p" and "pc_id p = pid" and "proc_object_remove tid (pc_objects p) = Some nodes"
  obtains god' where "god_is god' (v(pid \<mapsto> n - 1)) k"
    "prs_proc_unregister_object ops_of (god, w) proc tid = ((god', w\<lparr>lf_procs := (lf_procs w)(proc := p\<lparr>pc_objects := nodes\<rparr>)\<rparr>), PRS_OK)"
proof -
  obtain g where g: "\<forall>w. prs_god_unlock ops_of (god, w) pid = (g, w)" "god_is g (v(pid \<mapsto> n - 1)) k"
    by (rule god_is_unlock [OF assms(1-3), where ops_of = ops_of])
  then show thesis using that assms(4-6) by (simp add: prs_proc_unregister_object_def life_set_proc_def Let_def)
qed

lemma svc_proc_unreg_result:
  assumes "god_is god v k" and "v pid = Some n" and "1 < n" and "n < 4095" and "k pid = Some (proc, pops)"
    and "lf_procs w proc = p" and "pc_id p = pid" and "proc_object_remove tid (pc_objects p) = Some nodes"
  obtains god' where "god_is god' (v(pid \<mapsto> n - 1)) k"
    "svc_proc_handle ops_of impl proc_ops task_ops (god, w) current sender (UnregObjectRequest pid tid False) ans =
       Some (god', w\<lparr>lf_procs := (lf_procs w)(proc := p\<lparr>pc_objects := nodes\<rparr>)\<rparr>)"
proof -
  obtain g1 where 1: "prs_god_lock god pid = (g1, proc)" "proc \<noteq> 0" "god_is g1 (v(pid \<mapsto> n + 1)) k"
    by (rule god_is_lock [OF assms(1,2)]) (use assms(4,5) in simp_all)
  obtain g2 where 2: "god_is g2 (v(pid \<mapsto> n)) k"
      "prs_proc_unregister_object ops_of (g1, w) proc tid = ((g2, w\<lparr>lf_procs := (lf_procs w)(proc := p\<lparr>pc_objects := nodes\<rparr>)\<rparr>), PRS_OK)"
    by (rule proc_unregister_result [OF 1(3), where ops_of = ops_of and pid = pid and n = "n + 1"]) (use assms in simp_all)
  obtain g3 where 3: "\<forall>w. prs_god_unlock ops_of (g2, w) pid = (g3, w)" "god_is g3 (v(pid \<mapsto> n - 1)) k"
    by (rule god_is_unlock [OF 2(1), of pid n, where ops_of = ops_of]) (use assms(3) in simp_all)
  show thesis by (rule that [OF 3(2)]) (use 1 2 3 in \<open>simp add: svc_proc_handle_def\<close>)
qed

lemma task_name_free_result:
  assumes "god_is god v k" and "\<forall>oid n. v oid = Some n \<longrightarrow> n < 4095" and "v tid = Some m" and "k tid = Some (task, tops)" and "lf_task_name w = Some name"
    and "tid \<in> node_ids (nm_entries name ! prs_name_get_entry name (prs_name_get_key name (life_mem w) task))"
    and "task_found k (life_mem w) name key = svc" and "svc \<noteq> 0" and "svc \<noteq> tid"
  obtains name' where "task_name_free ops_of (god, w) tid = Some ((god, w\<lparr>lf_task_name := Some name'\<rparr>), PRS_OK)" "task_found k (life_mem w) name' key = svc"
proof -
  obtain e where e: "god_live god tid = Some e" "k tid = Some (goe_object e, goe_ops e)" by (rule god_isD [OF assms(1,3)])
  let ?i = "prs_name_get_entry name (prs_name_get_key name (life_mem w) task)"
  let ?nodes = "nm_entries name ! ?i"
  let ?name = "name_set_entry name ?i (fst (name_free_loop tid ?nodes))"
  have "tid \<in> snd ` set ?nodes" using assms(6) by (auto simp: node_ids_def)
  then have "snd (name_free_loop tid ?nodes) = PRS_OK" using name_free_loop_ids [of tid ?nodes] by auto
  then have f: "task_name_free ops_of (god, w) tid = Some ((god, w\<lparr>lf_task_name := Some ?name\<rparr>), PRS_OK)"
    using name_alloc_live(2) [OF name_god_is(1) [OF assms(1,2)] e(1), of ops_of "life_mem w" name w] e(2) assms(4)
    by (simp add: task_name_free_def assms(5) Let_def split_def)
  have "task_found k (life_mem w) ?name key = svc"
  proof (cases "prs_name_get_entry name key = ?i \<and> ?i < length (nm_entries name)")
    case True
    then show ?thesis using find_name_free [OF assms(7) [unfolded task_found_def] assms(8,9)] by (simp add: task_found_def name_set_entry_nth)
  next
    case False
    then show ?thesis using assms(7) by (auto simp: task_found_def name_set_entry_nth)
  qed
  then show thesis using that f by blast
qed

text \<open>Destroying a task that has its first reference only and belongs to a process: the task is freed, with its queue and its context, and
  the process loses two references when the process service destroys the task, and one and a request otherwise.\<close>

lemma task_destroy_result:
  fixes current :: ptr
  assumes "god_is god v k" and "\<forall>oid n. v oid = Some n \<longrightarrow> n < 4094" and "god_ops_ok ops_of" and "lf_task_name w = Some name"
    and "sm_tasks w task = t" and "task_id t = tid" and "task_sched_id t = 0" and "task_proc_id t = pid" and "pid \<noteq> 0" and "pid \<noteq> tid"
    and "v tid = Some 1" and "k tid = Some (task, tops)" and "op_free (ops_of tops) = Some prs_task_object_free"
    and "v pid = Some n" and "2 < n" and "k pid = Some (proc, pops)" and "lf_procs w proc = p" and "pc_id p = pid"
    and "proc_object_remove tid (pc_objects p) = Some nodes"
    and "tid \<in> node_ids (nm_entries name ! prs_name_get_entry name (prs_name_get_key name (life_mem w) task))"
    and "task_found k (life_mem w) name PRS_PROC_SVC_NAME = svc" and "svc \<noteq> 0" and "svc \<noteq> tid"
  defines "self \<equiv> task_id (sm_tasks w current) = svc"
  obtains god' w' where "prs_task_destroy ops_of impl (god, w) current task = Some (god', w')"
    "god_is god' (v(pid \<mapsto> (if self then n - 2 else n - 1), tid := None)) (k(tid := None))"
    "sm_freed w' = sm_freed w @ filter (\<lambda>p. p \<noteq> 0) [task_msgq t, task_context t] @ [task]"
    "lf_procs w' = (if self then (lf_procs w)(proc := p\<lparr>pc_objects := nodes\<rparr>) else lf_procs w)"
    "lf_sent w' = lf_sent w @ (if self then [] else [(svc, UnregObjectRequest pid tid False)])"
proof -
  have "m < 4095" if "v oid = Some m" for oid m using assms(2) [rule_format, OF that] by simp
  then have lim: "\<forall>oid n. v oid = Some n \<longrightarrow> n < 4095" by blast
  obtain name' where nf: "task_name_free ops_of (god, w) tid = Some ((god, w\<lparr>lf_task_name := Some name'\<rparr>), PRS_OK)"
      "task_found k (life_mem w) name' PRS_PROC_SVC_NAME = svc"
    by (rule task_name_free_result [OF assms(1) lim assms(11,12,4,20-23), where ops_of = ops_of])
  define w1 where "w1 = w\<lparr>lf_task_name := Some name'\<rparr>"
  have w1: "lf_task_name w1 = Some name'" "life_mem w1 = life_mem w" "sm_tasks w1 = sm_tasks w" "lf_procs w1 = lf_procs w" "lf_sent w1 = lf_sent w"
    "sm_freed w1 = sm_freed w"
    by (simp_all add: w1_def life_mem_def fun_eq_iff)
  have n: "n < 4094" using assms(2,14) by blast
  obtain g1 where 1: "prs_god_lock god pid = (g1, proc)" "proc \<noteq> 0" "god_is g1 (v(pid \<mapsto> n + 1)) k"
    by (rule god_is_lock [OF assms(1,14)]) (use n assms(16) in simp_all)
  have lim1: "\<forall>oid m. (v(pid \<mapsto> n + 1)) oid = Some m \<longrightarrow> m < 4095" using lim n by auto
  have find: "prs_task_find ops_of (g1, w1) PRS_PROC_SVC_NAME = Some ((g1, w1), svc)"
    using task_find_eq [OF 1(3) lim1 w1(1)] nf(2) w1(2) by simp
  define w2 where "w2 = (if self then w1\<lparr>lf_procs := (lf_procs w)(proc := p\<lparr>pc_objects := nodes\<rparr>)\<rparr>
    else w1\<lparr>lf_sent := lf_sent w @ [(svc, UnregObjectRequest pid tid False)]\<rparr>)"
  define m where "m = (if self then n else n + 1)"
  obtain g2 where 2: "god_is g2 (v(pid \<mapsto> m)) k" "task_unregister ops_of (g1, w1) current proc pid tid = Some (g2, w2)"
  proof (cases self)
    case True
    obtain g2 where "god_is g2 (v(pid \<mapsto> n)) k"
        "prs_proc_unregister_object ops_of (g1, w1) proc tid = ((g2, w1\<lparr>lf_procs := (lf_procs w1)(proc := p\<lparr>pc_objects := nodes\<rparr>)\<rparr>), PRS_OK)"
      by (rule proc_unregister_result [OF 1(3), where ops_of = ops_of and pid = pid and n = "n + 1" and w = w1]) (use assms w1 in simp_all)
    then show thesis using that True find assms(22) 1(2) w1 by (simp add: task_unregister_def PRS_OBJECT_ID_INVALID_def w2_def m_def self_def)
  next
    case False
    then show thesis using that [of g1] 1(3) find assms(22) w1 by (simp add: task_unregister_def PRS_OBJECT_ID_INVALID_def life_send_def w2_def m_def self_def)
  qed
  have m: "1 < m" "1 < m - 1" using assms(15) by (auto simp: m_def)
  obtain g3 where 3: "\<forall>w. prs_god_unlock ops_of (g2, w) pid = (g3, w)" "god_is g3 (v(pid \<mapsto> m - 1)) k"
    by (rule god_is_unlock [OF 2(1), of pid m, where ops_of = ops_of]) (use m in simp_all)
  have m1: "(v(pid \<mapsto> m - 1)) pid = Some (m - 1)" by simp
  obtain g4 where 4: "\<forall>w. prs_god_unlock ops_of (g3, w) pid = (g4, w)" "god_is g4 (v(pid \<mapsto> m - 1 - 1)) k"
    by (rule god_is_unlock [OF 3(2) m1 m(2), where ops_of = ops_of, unfolded fun_upd_upd])
  have t1: "(v(pid \<mapsto> m - 1 - 1)) tid = Some 1" using assms(10,11) by simp
  obtain g5 where 5: "prs_god_unlock ops_of (g4, w2) tid = (g5, snd (prs_task_object_free task (g4, w2)))" "god_is g5 (v(pid \<mapsto> m - 1 - 1, tid := None)) (k(tid := None))"
    by (rule god_is_last [OF 4(2) t1 assms(12,3,13) task_object_free_same(1), of w2]) (use task_object_free_same(2) in blast)
  have w2: "sm_tasks w2 = sm_tasks w" "sm_freed w2 = sm_freed w" by (simp_all add: w2_def w1)
  have d: "prs_task_destroy ops_of impl (god, w) current task = Some (g5, snd (prs_task_object_free task (g4, w2)))"
    using nf(1) 1 2(2) 3(1) 4(1) 5(1) assms(5-9) w1(3) by (simp add: prs_task_destroy_def w1_def)
  have v: "m - 1 - 1 = (if self then n - 2 else n - 1)" using assms(15) by (auto simp: m_def)
  show thesis
    by (rule that [OF d]) (use 5(2) v w2 assms(5) in \<open>simp_all add: prs_task_object_free_def sched_free_def Let_def w2_def w1\<close>)
qed

lemma proc_object_remove_last: "tid \<notin> snd ` set objs \<Longrightarrow> proc_object_remove tid (objs @ [(node, tid)]) = Some objs"
  by (induction objs) (auto split: if_splits)

text \<open>Joining a process and the destruction that follows.\<close>

lemma task_join_destroy:
  fixes current :: ptr
  assumes "god_is god v k" and "\<forall>oid n. v oid = Some n \<longrightarrow> n < 4090" and "god_ops_ok ops_of" and "lf_task_name w = Some name"
    and "sm_tasks w task = t" and "task_id t = tid" and "task_sched_id t = 0" and "task_proc_id t = 0" and "pid \<noteq> 0" and "pid \<noteq> tid"
    and "v tid = Some 1" and "k tid = Some (task, tops)" and "op_free (ops_of tops) = Some prs_task_object_free"
    and "v pid = Some n" and "0 < n" and "k pid = Some (proc, pops)" and "pc_id (lf_procs w proc) = pid" and "tid \<notin> snd ` set (pc_objects (lf_procs w proc))"
    and "tid \<in> node_ids (nm_entries name ! prs_name_get_entry name (prs_name_get_key name (life_mem w) task))"
    and "task_found k (life_mem w) name PRS_PROC_SVC_NAME = svc" and "svc \<noteq> 0" and "svc \<noteq> tid"
  defines "self \<equiv> task_id (sm_tasks w current) = svc" and "objs \<equiv> pc_objects (lf_procs w proc)"
  obtains god1 w1 god2 w2 where "prs_task_set_proc ops_of (god, w) current task pid (Some node) = Some ((god1, w1), PRS_OK)"
    "god_view god1 = v(pid \<mapsto> n + 2)" "pc_objects (lf_procs w1 proc) = objs @ [(node, tid)]"
    "prs_task_destroy ops_of impl (god1, w1) current task = Some (god2, w2)"
    "sm_freed w2 = sm_freed w @ filter (\<lambda>p. p \<noteq> 0) [task_msgq t, task_context t] @ [task]"
    "god_is god2 (v(pid \<mapsto> (if self then n else n + 1), tid := None)) (k(tid := None))"
    "lf_procs w2 proc = (lf_procs w proc)\<lparr>pc_objects := (if self then objs else objs @ [(node, tid)])\<rparr>"
    "lf_sent w2 = lf_sent w @ (if self then [] else [(svc, UnregObjectRequest pid tid False)])"
proof -
  have less: "x < 4090" if "v oid = Some x" for oid x using assms(2) that by blast
  have n: "n < 4094" using less [OF assms(14)] by simp
  define w1 where "w1 = w\<lparr>lf_procs := (lf_procs w)(proc := (lf_procs w proc)\<lparr>pc_objects := objs @ [(node, tid)]\<rparr>),
    sm_tasks := (sm_tasks w)(task := t\<lparr>task_proc_id := pid\<rparr>)\<rparr>"
  obtain god1 where 1: "god_is god1 (v(pid \<mapsto> n + 2)) k" "prs_task_set_proc ops_of (god, w) current task pid (Some node) = Some ((god1, w1), PRS_OK)"
    by (rule task_set_proc_result [OF assms(1,14) n assms(16,17), where ops_of = ops_of and current = current and task = task and node = node])
      (use assms(5,6,8) in \<open>simp_all add: w1_def objs_def\<close>)
  have mem: "life_mem w1 = life_mem w" using assms(5) by (simp add: life_mem_def w1_def fun_eq_iff)
  have w1: "lf_task_name w1 = Some name" "sm_tasks w1 task = t\<lparr>task_proc_id := pid\<rparr>" "lf_sent w1 = lf_sent w" "sm_freed w1 = sm_freed w"
    "lf_procs w1 proc = (lf_procs w proc)\<lparr>pc_objects := objs @ [(node, tid)]\<rparr>" and self: "task_id (sm_tasks w1 current) = svc \<longleftrightarrow> self"
    using assms(4,5) by (auto simp: w1_def self_def)
  have "x < 4094" if "(v(pid \<mapsto> n + 2)) oid = Some x" for oid x using that less [of oid x] less [OF assms(14)] by (auto split: if_splits)
  then have lim: "\<forall>oid x. (v(pid \<mapsto> n + 2)) oid = Some x \<longrightarrow> x < 4094" by blast
  have f: "task_id (t\<lparr>task_proc_id := pid\<rparr>) = tid" "task_sched_id (t\<lparr>task_proc_id := pid\<rparr>) = 0" "task_proc_id (t\<lparr>task_proc_id := pid\<rparr>) = pid"
    "(v(pid \<mapsto> n + 2)) tid = Some 1" "(v(pid \<mapsto> n + 2)) pid = Some (n + 2)" "2 < n + 2" "pc_id (lf_procs w1 proc) = pid"
    "proc_object_remove tid (pc_objects (lf_procs w1 proc)) = Some objs"
    using assms(6,7,10,11,15,17) w1(5) proc_object_remove_last [OF assms(18)] by (simp_all add: objs_def)
  obtain god2 w2 where 2: "prs_task_destroy ops_of impl (god1, w1) current task = Some (god2, w2)"
    "god_is god2 (v(pid \<mapsto> n + 2, pid \<mapsto> (if self then n + 2 - 2 else n + 2 - 1), tid := None)) (k(tid := None))"
    "sm_freed w2 = sm_freed w1 @ filter (\<lambda>p. p \<noteq> 0) [task_msgq (t\<lparr>task_proc_id := pid\<rparr>), task_context (t\<lparr>task_proc_id := pid\<rparr>)] @ [task]"
    "lf_procs w2 = (if self then (lf_procs w1)(proc := (lf_procs w1 proc)\<lparr>pc_objects := objs\<rparr>) else lf_procs w1)"
    "lf_sent w2 = lf_sent w1 @ (if self then [] else [(svc, UnregObjectRequest pid tid False)])"
    by (rule task_destroy_result [OF 1(1) lim assms(3) w1(1,2) f(1-3) assms(9,10) f(4) assms(12,13) f(5,6) assms(16) refl f(7,8)
        assms(19) [folded mem] assms(20) [folded mem] assms(21,22), where current = current and impl = impl, unfolded self])
  have "god_is god2 (v(pid \<mapsto> (if self then n else n + 1), tid := None)) (k(tid := None))" using 2(2) by (simp split: if_splits)
  moreover have "lf_procs w2 proc = (lf_procs w proc)\<lparr>pc_objects := (if self then objs else objs @ [(node, tid)])\<rparr>" using 2(4) w1(5) by simp
  ultimately show thesis using that [OF 1(2) _ _ 2(1)] 1(1) 2(3,5) w1(3-5) by (simp add: god_is_def)
qed

section \<open>Creation of tasks\<close>

lemma god_alloc_live:
  assumes "god_wf god" and "god_ids_left god" and "obj \<noteq> 0" and "prs_god_alloc_and_lock god obj ops = (god', oid)" and "oid \<noteq> PRS_OBJECT_ID_INVALID"
  obtains e where "god_wf god'" "god_live god' = (god_live god)(oid \<mapsto> e)" "goe_object e = obj" "goe_ops e = ops" "god_refs (goe_header e) = 1"
    "god_live god oid = None"
  using assms(1,2)
proof (cases rule: prs_god_alloc_cases [where object = obj and ops = ops])
  case full
  then show ?thesis using assms(4,5) by simp
next
  case (found j)
  then have e: "god' = god_alloc_at god obj ops j" "oid = j" using assms(4) by simp_all
  have "god_live god j = None" using god_alloc_at_wf(2) [OF assms(1,3) found(1-3)] by (simp add: god_live_def)
  then show ?thesis using that e god_alloc_at_wf(1,4) [where ops = ops, OF assms(1,3) found(1-3)] by auto
qed

lemma god_is_alloc:
  assumes "god_is god v k" and "god_ids_left god" and "obj \<noteq> 0" and "prs_god_alloc_and_lock god obj ops = (god', oid)" and "oid \<noteq> PRS_OBJECT_ID_INVALID"
  shows "god_is god' (v(oid \<mapsto> 1)) (k(oid \<mapsto> (obj, ops)))" and "v(oid := None) = v" and "k(oid := None) = k" and "oid \<noteq> 0"
proof -
  have g: "god_wf god" "v = god_view god" "k = (\<lambda>oid. map_option (\<lambda>e. (goe_object e, goe_ops e)) (god_live god oid))"
    using assms(1) by (simp_all add: god_is_def fun_eq_iff)
  obtain e where e: "god_wf god'" "god_live god' = (god_live god)(oid \<mapsto> e)" "goe_object e = obj" "goe_ops e = ops" "god_refs (goe_header e) = 1"
      "god_live god oid = None"
    by (rule god_alloc_live [OF g(1) assms(2-5)])
  show "god_is god' (v(oid \<mapsto> 1)) (k(oid \<mapsto> (obj, ops)))" "v(oid := None) = v" "k(oid := None) = k" "oid \<noteq> 0"
    using e assms(5) by (auto simp: g(2,3) god_is_def god_view_def fun_eq_iff PRS_OBJECT_ID_INVALID_def)
qed

text \<open>The only reference to a new task is given up.\<close>

lemma task_new_unlock:
  fixes w :: "'s life_mod"
  assumes "god_is god (v(oid \<mapsto> 1)) (k(oid \<mapsto> (task, ops)))" and "v(oid := None) = v" and "k(oid := None) = k"
    and "god_ops_ok ops_of" and "op_free (ops_of ops) = Some prs_task_object_free"
  obtains god' where "prs_god_unlock ops_of (god, w) oid = (god', snd (prs_task_object_free task (god, w)))" "god_is god' v k"
proof -
  have o: "(v(oid \<mapsto> 1)) oid = Some 1" "(k(oid \<mapsto> (task, ops))) oid = Some (task, ops)" by simp_all
  obtain god' where "prs_god_unlock ops_of (god, w) oid = (god', snd (prs_task_object_free task (god, w)))"
      "god_is god' (v(oid \<mapsto> 1, oid := None)) (k(oid \<mapsto> (task, ops), oid := None))"
    by (rule god_is_last [OF assms(1) o assms(4,5) task_object_free_same(1), of w]) (use task_object_free_same(2) in blast)
  then show thesis using that assms(2,3) by simp
qed

text \<open>A new task gets a name, and giving the name up succeeds.\<close>

lemma task_name_new:
  assumes "god_is god v k" and "\<forall>oid n. v oid = Some n \<longrightarrow> n < 4095" and "v oid = Some m" and "k oid = Some (task, ops)" and "oid \<noteq> 0"
    and "lf_task_name w = Some name" and "name_wf name" and "oid \<notin> name_ids name"
  obtains name' where "task_name_alloc ops_of (god, w) oid (Some node) = Some ((god, w\<lparr>lf_task_name := Some name'\<rparr>), PRS_OK)"
    "\<exists>name''. task_name_free ops_of (god, w\<lparr>lf_task_name := Some name'\<rparr>) oid = Some ((god, w\<lparr>lf_task_name := Some name''\<rparr>), PRS_OK)"
proof -
  obtain e where e: "god_live god oid = Some e" "k oid = Some (goe_object e, goe_ops e)" by (rule god_isD [OF assms(1,3)])
  let ?i = "prs_name_get_entry name (prs_name_get_key name (life_mem w) task)"
  have i: "?i < length (nm_entries name)" by (rule name_entry_less [OF assms(7)])
  have fresh: "oid \<notin> node_ids (nm_entries name ! ?i)" using assms(8) i by (auto simp: name_ids_bucket)
  obtain nodes where n: "name_alloc_loop oid (Some node) (nm_entries name ! ?i) = Some (nodes, PRS_OK)" "snd (name_free_loop oid nodes) = PRS_OK"
    by (rule name_alloc_free_loop [OF fresh assms(5), of node])
  let ?name = "name_set_entry name ?i nodes"
  note live = name_alloc_live [OF name_god_is(1) [OF assms(1,2)] e(1)]
  have obj: "goe_object e = task" using e(2) assms(4) by simp
  have a: "task_name_alloc ops_of (god, w) oid (Some node) = Some ((god, w\<lparr>lf_task_name := Some ?name\<rparr>), PRS_OK)"
    using live(1) [of ops_of "life_mem w" name w "Some node"] n(1) by (simp add: task_name_alloc_def assms(6) obj Let_def)
  have mem: "life_mem (w\<lparr>lf_task_name := Some ?name\<rparr>) = life_mem w" by (simp add: life_mem_def fun_eq_iff)
  have "\<exists>name''. task_name_free ops_of (god, w\<lparr>lf_task_name := Some ?name\<rparr>) oid = Some ((god, w\<lparr>lf_task_name := Some name''\<rparr>), PRS_OK)"
    using live(2) [of ops_of "life_mem w" ?name "w\<lparr>lf_task_name := Some ?name\<rparr>"] n(2) i
    by (auto simp: task_name_free_def mem obj Let_def split_def name_set_entry_nth)
  then show thesis using that a by blast
qed

text \<open>A new task, without a scheduler and a process, is named and destroyed.\<close>

lemma task_new_destroy:
  assumes "god_is god (v(oid \<mapsto> 1)) (k(oid \<mapsto> (task, ops)))" and "v(oid := None) = v" and "k(oid := None) = k" and "oid \<noteq> 0"
    and "\<forall>i n. (v(oid \<mapsto> 1)) i = Some n \<longrightarrow> n < 4095" and "lf_task_name u = Some name" and "name_wf name" and "oid \<notin> name_ids name"
    and "god_ops_ok ops_of" and "op_free (ops_of ops) = Some prs_task_object_free"
    and "sm_tasks u task = t" and "task_id t = oid" and "task_sched_id t = 0" and "task_proc_id t = 0" and "task_stack t \<noteq> 0"
  obtains name' god2 w2 where "task_name_alloc ops_of (god, u) oid (Some node) = Some ((god, u\<lparr>lf_task_name := Some name'\<rparr>), PRS_OK)"
    "prs_task_destroy ops_of impl (god, u\<lparr>lf_task_name := Some name'\<rparr>) destroyer task = Some (god2, w2)" "god_is god2 v k"
    "sm_freed w2 = sm_freed u @ filter (\<lambda>p. p \<noteq> 0) [task_msgq t, task_context t] @ [task]" "lf_mem w2 = prs_stack_destroy (lf_mem u) False (task_stack t)"
proof -
  have new: "(v(oid \<mapsto> 1)) oid = Some 1" "(k(oid \<mapsto> (task, ops))) oid = Some (task, ops)" by simp_all
  obtain name' where a: "task_name_alloc ops_of (god, u) oid (Some node) = Some ((god, u\<lparr>lf_task_name := Some name'\<rparr>), PRS_OK)"
    "\<exists>name''. task_name_free ops_of (god, u\<lparr>lf_task_name := Some name'\<rparr>) oid = Some ((god, u\<lparr>lf_task_name := Some name''\<rparr>), PRS_OK)"
    by (rule task_name_new [OF assms(1,5) new assms(4,6-8), where ops_of = ops_of and node = node])
  from a(2) obtain name'' where f: "task_name_free ops_of (god, u\<lparr>lf_task_name := Some name'\<rparr>) oid = Some ((god, u\<lparr>lf_task_name := Some name''\<rparr>), PRS_OK)"
    by blast
  let ?u = "u\<lparr>lf_task_name := Some name''\<rparr>"
  obtain god2 where 2: "prs_god_unlock ops_of (god, ?u) oid = (god2, snd (prs_task_object_free task (god, ?u)))" "god_is god2 v k"
    by (rule task_new_unlock [OF assms(1-3,9,10), where w = ?u])
  have d: "prs_task_destroy ops_of impl (god, u\<lparr>lf_task_name := Some name'\<rparr>) destroyer task = Some (god2, snd (prs_task_object_free task (god, ?u)))"
    using f 2(1) assms(11-14) by (simp add: prs_task_destroy_def)
  show thesis by (rule that [OF a(1) d 2(2)]) (use assms(11,15) in \<open>simp_all add: prs_task_object_free_def sched_free_def\<close>)
qed

lemma task_create_eq:
  assumes "lf_task_name w = Some name" and "ta_memory ans = Some task" and "prs_god_alloc_and_lock god task ops = (god1, oid)" and "oid \<noteq> PRS_OBJECT_ID_INVALID"
  shows "prs_task_create ops_of ops (god, w) current params ans =
    (let (s, ok) = task_resources (god1, w\<lparr>sm_tasks := (sm_tasks w)(task := task_zero oid)\<rparr>) task params ans
     in if \<not> ok then Some (prs_god_unlock ops_of s oid, 0)
        else
          Option.bind (task_inherit ops_of s current task (ta_object_memory ans)) (\<lambda>(s, result).
            if result \<noteq> PRS_OK then Some (prs_god_unlock ops_of s oid, 0)
            else
              Option.bind (task_name_alloc ops_of (sched_set_task task (task_fill params (sm_tasks (snd s) task)) s) oid (ta_node_memory ans)) (\<lambda>(s, result).
                if result \<noteq> PRS_OK then Some (prs_god_unlock ops_of s oid, 0) else Some (s, task))))"
  using assms by (simp add: prs_task_create_def task_name_init_def sched_set_task_def)

section \<open>Properties\<close>

text \<open>C29: prs_proc_gc returns, and it frees exactly the destroyed processes whose only reference is the one of their creation, in the order
  of the list: each is freed once, with its exit functions called, its ID is dead from then on, and no process is left that
  could be freed. The other processes stay in the list, and no other ID changes.\<close>

theorem proc_gc_collects:
  assumes "god_wf god" and "god_ops_ok ops_of" and "proc_list_ok ops_of god w"
  defines "procs \<equiv> filter (proc_collectible god w) (lf_list w)"
  shows "\<exists>god' w'. prs_proc_gc ops_of (god, w) = Some (god', w') \<and> w' = snd (fold prs_proc_object_free procs (god, w))
    \<and> lf_list w' = filter (\<lambda>p. \<not> proc_collectible god w p) (lf_list w)
    \<and> lf_called w' = lf_called w @ concat (map (\<lambda>p. proc_exits (lf_procs w p)) procs)
    \<and> god_view god' = (\<lambda>oid. if oid \<in> (\<lambda>p. pc_id (lf_procs w p)) ` set procs then None else god_view god oid)
    \<and> filter (proc_collectible god' w') (lf_list w') = []"
proof -
  let ?w = "snd (fold prs_proc_object_free procs (god, w))"
  have d: "distinct (lf_list (snd (god, w)))" using assms(3) by (simp add: proc_list_ok_def)
  obtain god' where g: "prs_proc_gc ops_of (god, w) = Some (god', ?w)"
      "god_live god' = (\<lambda>oid. if oid \<in> (\<lambda>p. pc_id (lf_procs w p)) ` set procs then None else god_live god oid)"
    using proc_gc_frees [OF assms(1-3), of procs] by (auto simp: procs_def)
  have v: "god_view god' = (\<lambda>oid. if oid \<in> (\<lambda>p. pc_id (lf_procs w p)) ` set procs then None else god_view god oid)"
    using g(2) by (auto simp: god_view_def fun_eq_iff)
  have l: "lf_list ?w = filter (\<lambda>p. \<not> proc_collectible god w p) (lf_list w)"
    using proc_free_fold_list [OF d, of procs] by (auto simp: procs_def intro: filter_cong)
  have "filter (proc_collectible god' ?w) (lf_list ?w) = []"
    unfolding l using v by (auto simp: filter_empty_conv proc_collectible_def split: if_splits)
  with g(1) v l show ?thesis by (intro exI [of _ god'] exI [of _ ?w] conjI) (simp_all only: proc_free_fold_called snd_conv)
qed



section \<open>Examples\<close>

text \<open>A directory with a process (ID 1, at address 77), the task of the process service (ID 2, at 99) and another task (ID 3, at 111).\<close>

definition life_example_god :: prs_god where
  "life_example_god = fst (prs_god_alloc_and_lock sched_example_god 111 6)"

definition life_example_task :: "ptr \<Rightarrow> prs_task" where
  "life_example_task p = (task_zero (if p = 99 then 2 else 3))\<lparr>task_name := if p = 99 then PRS_PROC_SVC_NAME else ''t'', task_msgq := 200, task_context := 201\<rparr>"

definition life_example_proc :: prs_proc where
  "life_example_proc = proc_zero\<lparr>pc_id := 1, pc_objects_addr := 300, pc_atexit_addr := 301, pc_atexit_callbacks := [400, 401]\<rparr>"

definition life_example_name :: prs_name where
  "life_example_name =
     \<lparr>nm_addr = 1000, nm_max_entries = 4, nm_string_offset = task_name_offset, nm_entries_addr = 2000, nm_entries = [[], [], [(600, 2)], [(601, 3)]]\<rparr>"

definition life_example_ops :: "nat life_ops" where
  "life_example_ops p = (if p = 5 then s_prs_proc_object_ops else \<lparr>op_destroy = None, op_free = Some prs_task_object_free, op_print = None\<rparr>)"

definition life_example_mod :: "nat life_mod" where
  "life_example_mod = sched_mod.extend (sched_example_mod\<lparr>sm_tasks := life_example_task\<rparr>)
     \<lparr>lf_task_name = Some life_example_name,
      lf_mem = \<lambda>_. None, lf_procs = (\<lambda>_. life_example_proc\<lparr>pc_id := 9\<rparr>)(77 := life_example_proc), lf_list = [500, 77],
      lf_data = \<lparr>pd_range_table = replicate 4 \<lparr>range_base = 16, range_size = 16\<rparr>, pd_range_table_count = 4\<rparr>,
      lf_called = [], lf_sent = []\<rparr>"

lemma life_example_mod_simps [simp]:
  "lf_list life_example_mod = [500, 77]" "lf_procs life_example_mod = (\<lambda>_. life_example_proc\<lparr>pc_id := 9\<rparr>)(77 := life_example_proc)"
  "lf_called life_example_mod = []" "lf_sent life_example_mod = []" "sm_tasks life_example_mod = life_example_task"
  "lf_task_name life_example_mod = Some life_example_name" "sm_freed life_example_mod = []"
  by (simp_all add: life_example_mod_def sched_mod.defs sched_example_mod_def)

lemma life_example_god:
  obtains e1 e2 e3 where "god_wf life_example_god" "god_live life_example_god = [1 \<mapsto> e1, 2 \<mapsto> e2, 3 \<mapsto> e3]"
    "goe_object e1 = 77" "goe_object e2 = 99" "goe_object e3 = 111" "goe_ops e1 = 5" "goe_ops e2 = 6" "goe_ops e3 = 6"
    "god_refs (goe_header e1) = 1" "god_refs (goe_header e2) = 1" "god_refs (goe_header e3) = 1"
proof -
  obtain god e1 where g: "prs_god_alloc_and_lock god_example 77 5 = (god, 1)" "god_wf god" "unat (god_write_index god) = 2"
      "god_live god = [1 \<mapsto> e1]" "goe_object e1 = 77" "goe_ops e1 = 5" "god_refs (goe_header e1) = 1"
    by (rule god_example_alloc) blast
  have n: "snd (prs_god_alloc_and_lock (fst (prs_god_alloc_and_lock god_example 77 5)) 99 6) = 2"
    "god_max_entries (fst (prs_god_alloc_and_lock god_example 77 5)) = 4" by code_simp+
  have m: "snd (prs_god_alloc_and_lock sched_example_god 111 6) = 3" "god_max_entries sched_example_god = 4" "god_write_index sched_example_god = 3"
    by code_simp+
  have a: "prs_god_alloc_and_lock god 99 6 = (sched_example_god, 2)" using n(1) by (simp add: sched_example_god_def g(1) prod_eq_iff)
  have b: "prs_god_alloc_and_lock sched_example_god 111 6 = (life_example_god, 3)" using m(1) by (simp add: life_example_god_def prod_eq_iff)
  have l: "god_ids_left god" "god_ids_left sched_example_god" using n(2) g(1,3) m(2,3) by (simp_all add: god_ids_left_def)
  obtain e2 where 2: "god_wf sched_example_god" "god_live sched_example_god = (god_live god)(2 \<mapsto> e2)" "goe_object e2 = 99" "goe_ops e2 = 6"
      "god_refs (goe_header e2) = 1"
    by (rule god_alloc_live [OF g(2) l(1) _ a]) (simp_all add: PRS_OBJECT_ID_INVALID_def)
  obtain e3 where 3: "god_wf life_example_god" "god_live life_example_god = (god_live sched_example_god)(3 \<mapsto> e3)" "goe_object e3 = 111" "goe_ops e3 = 6"
      "god_refs (goe_header e3) = 1"
    by (rule god_alloc_live [OF 2(1) l(2) _ b]) (simp_all add: PRS_OBJECT_ID_INVALID_def)
  show thesis by (rule that [of e1 e2 e3]) (use g(4-7) 2 3 in simp_all)
qed

lemma life_example_ops_ok: "god_ops_ok life_example_ops"
  by (simp add: god_ops_ok_def god_op_ok_def life_example_ops_def s_prs_proc_object_ops_def god_evolves_refl prs_task_object_free_def sched_free_def Let_def)

theorem proc_gc_collects_witness:
  "\<exists>god' w'. prs_proc_gc life_example_ops (life_example_god, life_example_mod\<lparr>lf_procs := (lf_procs life_example_mod)(77 := life_example_proc\<lparr>pc_destroyed := True\<rparr>)\<rparr>)
      = Some (god', w') \<and> lf_list w' = [500] \<and> lf_called w' = [400, 401] \<and> god_view god' 1 = None \<and> god_view god' 2 = Some 1"
proof -
  define w where "w = life_example_mod\<lparr>lf_procs := (lf_procs life_example_mod)(77 := life_example_proc\<lparr>pc_destroyed := True\<rparr>)\<rparr>"
  obtain e1 e2 e3 where e: "god_wf life_example_god" "god_live life_example_god = [1 \<mapsto> e1, 2 \<mapsto> e2, 3 \<mapsto> e3]"
    "goe_object e1 = 77" "goe_object e2 = 99" "goe_object e3 = 111" "goe_ops e1 = 5" "goe_ops e2 = 6" "goe_ops e3 = 6"
    "god_refs (goe_header e1) = 1" "god_refs (goe_header e2) = 1" "god_refs (goe_header e3) = 1"
    by (rule life_example_god)
  have procs: "lf_list w = [500, 77]" "lf_called w = []" "pc_id (lf_procs w 77) = 1" "pc_id (lf_procs w 500) = 9" "pc_destroyed (lf_procs w 77)"
      "\<not> pc_destroyed (lf_procs w 500)" "proc_exits (lf_procs w 77) = [400, 401]"
    by (simp_all add: w_def life_example_proc_def proc_zero_def proc_exits_def)
  have ok: "proc_list_ok life_example_ops life_example_god w"
    using e by (simp add: proc_list_ok_def procs life_example_ops_def s_prs_proc_object_ops_def)
  have c: "\<not> proc_collectible life_example_god w 500" "proc_collectible life_example_god w 77"
    using e by (simp_all add: proc_collectible_def procs god_view_def)
  have v: "god_view life_example_god 2 = Some 1" using e(2,10) by (simp add: god_view_def)
  from proc_gc_collects [OF e(1) life_example_ops_ok ok] c v show ?thesis unfolding w_def [symmetric] by (auto simp: procs)
qed

lemma life_example_find:
  "prs_task_find life_example_ops (life_example_god, life_example_mod) PRS_PROC_SVC_NAME = Some ((life_example_god, life_example_mod), 2)"
proof -
  obtain e1 e2 e3 where e: "god_wf life_example_god" "god_live life_example_god = [1 \<mapsto> e1, 2 \<mapsto> e2, 3 \<mapsto> e3]"
    "goe_object e1 = 77" "goe_object e2 = 99" "goe_object e3 = 111" "goe_ops e1 = 5" "goe_ops e2 = 6" "goe_ops e3 = 6"
    "god_refs (goe_header e1) = 1" "god_refs (goe_header e2) = 1" "god_refs (goe_header e3) = 1"
    by (rule life_example_god)
  let ?k = "[1 \<mapsto> (77, 5), 2 \<mapsto> (99, 6), 3 \<mapsto> (111, 6)] :: prs_object_id_t \<rightharpoonup> ptr \<times> ptr" and ?v = "[1 \<mapsto> 1, 2 \<mapsto> 1, 3 \<mapsto> 1] :: prs_object_id_t \<rightharpoonup> nat"
  have gi: "god_is life_example_god ?v ?k" using e by (auto simp: god_is_def god_view_def fun_eq_iff)
  have b: "prs_name_get_entry life_example_name PRS_PROC_SVC_NAME = 2" by code_simp
  have "task_found ?k (life_mem life_example_mod) life_example_name PRS_PROC_SVC_NAME = 2"
    unfolding task_found_def b by (simp add: life_example_name_def prs_name_get_key_def life_mem_def life_example_task_def)
  then show ?thesis using task_find_eq [OF gi, of life_example_mod life_example_name life_example_ops] by (simp split: if_splits)
qed


text \<open>A task of an empty directory (ID 1, at 222).\<close>

definition life_example_answers :: task_answers where
  "life_example_answers = \<lparr>ta_name_memory = None, ta_entries_memory = None, ta_memory = Some 222, ta_page_size = 4096, ta_map_answer = 0x10000000,
     ta_context = Some 223, ta_msgq = Some 224, ta_object_memory = None, ta_node_memory = Some 225\<rparr>"

definition life_example_params :: prs_task_create_params where
  "life_example_params = \<lparr>tcp_name = ''new'', tcp_userdata = 0, tcp_stack_size = 0, tcp_prio = 7, tcp_entry = 900\<rparr>"


end
