(* ===== verification/Thread.thy ===== *)
theory Thread
  imports Stack Clock
begin

unbundle bit_operations_syntax

text \<open>
  Threads, signals and the periodic timer of the platform: \<^verbatim>\<open>prs/pal/posix/signal.c\<close>, \<^verbatim>\<open>thread.c\<close> and \<^verbatim>\<open>pit.c\<close>. The results of
  the system calls are arguments, and their effects are the documented ones on the signal mask of a thread, the actions of the signals, a semaphore
  and the interval timer. \<open>None\<close> is a fatal outcome or a call that does not return.
\<close>

section \<open>Signals\<close>

definition SIGUSR1 :: int where "SIGUSR1 = 10"
definition SIGALRM :: int where "SIGALRM = 14"
definition SIGSTKSZ :: u64 where "SIGSTKSZ = 8192"

text \<open>What a thread has: whether its signals are set up, its signal stack and the signals that it blocks.\<close>

record signal_local =
  sg_initialized :: bool
  sg_stack :: ptr
  sg_blocked :: "int \<Rightarrow> bool"

record signal_answers =
  sa_page_size :: u64
  sa_map_answer :: ptr
  sa_commit_fails :: bool
  sa_altstack_error :: bool
  sa_fill_error :: bool
  sa_block_error :: bool
  sa_set_error :: bool
  sa_mask_error :: bool

definition prs_pal_signal_init :: "signal_answers \<Rightarrow> os_memory \<Rightarrow> signal_local \<Rightarrow> (os_memory \<times> signal_local \<times> prs_result) option" where
  "prs_pal_signal_init ans mem sg =
     (if sg_initialized sg then Some (mem, sg, PRS_OK)
      else
        (let (mem, stack) = prs_stack_create (sa_page_size ans) mem (sa_map_answer ans) (sa_commit_fails ans) SIGSTKSZ
         in map_option (\<lambda>(stack_top, stack_size).
                let sg = sg\<lparr>sg_stack := stack_top - stack_size\<rparr>
                in if sa_altstack_error ans \<or> sa_fill_error ans \<or> sa_block_error ans then (mem, sg, PRS_PLATFORM_ERROR)
                   else (mem, sg\<lparr>sg_blocked := \<lambda>_. True, sg_initialized := True\<rparr>, PRS_OK)) stack))"

definition prs_pal_signal_set :: "signal_answers \<Rightarrow> int \<Rightarrow> bool \<Rightarrow> os_memory \<times> signal_local \<Rightarrow> ((os_memory \<times> signal_local) \<times> prs_result) option" where
  "prs_pal_signal_set ans signum block s =
     map_option (\<lambda>(mem, sg, result).
         if result \<noteq> PRS_OK then ((mem, sg), result)
         else if sa_set_error ans \<or> sa_mask_error ans then ((mem, sg), PRS_PLATFORM_ERROR)
         else ((mem, sg\<lparr>sg_blocked := (sg_blocked sg)(signum := block)\<rparr>), PRS_OK))
       (prs_pal_signal_init ans (fst s) (snd s))"

definition prs_pal_signal_block :: "signal_answers \<Rightarrow> int \<Rightarrow> os_memory \<times> signal_local \<Rightarrow> ((os_memory \<times> signal_local) \<times> prs_result) option" where
  "prs_pal_signal_block ans signum s = prs_pal_signal_set ans signum True s"

definition prs_pal_signal_unblock :: "signal_answers \<Rightarrow> int \<Rightarrow> os_memory \<times> signal_local \<Rightarrow> ((os_memory \<times> signal_local) \<times> prs_result) option" where
  "prs_pal_signal_unblock ans signum s = prs_pal_signal_set ans signum False s"

record sigaction =
  sac_handler :: ptr
  sac_siginfo :: bool

definition prs_pal_signal_action :: "bool \<Rightarrow> bool \<Rightarrow> int \<Rightarrow> ptr \<Rightarrow> (int \<Rightarrow> sigaction) \<Rightarrow> sigaction \<Rightarrow> (int \<Rightarrow> sigaction) \<times> sigaction \<times> prs_result" where
  "prs_pal_signal_action fill_error action_error signum handler actions prev =
     (if fill_error \<or> action_error then (actions, prev, PRS_PLATFORM_ERROR)
      else (actions(signum := \<lparr>sac_handler = handler, sac_siginfo = True\<rparr>), actions signum, PRS_OK))"

datatype signal_call = CallSigaction ptr int | CallHandler ptr int

definition prs_pal_signal_chain :: "int \<Rightarrow> sigaction option \<Rightarrow> signal_call option" where
  "prs_pal_signal_chain signum action =
     (case action of
        None \<Rightarrow> None
      | Some a \<Rightarrow>
          if sac_siginfo a then (if sac_handler a \<noteq> 0 then Some (CallSigaction (sac_handler a) signum) else None)
          else (if sac_handler a \<noteq> 0 then Some (CallHandler (sac_handler a) signum) else None))"

section \<open>Threads\<close>

datatype prs_pal_thread_prio =
    PRS_PAL_THREAD_PRIO_IDLE | PRS_PAL_THREAD_PRIO_LOW | PRS_PAL_THREAD_PRIO_NORMAL | PRS_PAL_THREAD_PRIO_HIGH | PRS_PAL_THREAD_PRIO_REALTIME

datatype sched_policy = SCHED_IDLE | SCHED_BATCH | SCHED_OTHER | SCHED_RR | SCHED_FIFO

record prs_pal_thread_create_params =
  tp_stack_size :: u64
  tp_prio :: prs_pal_thread_prio
  tp_affinity :: u32
  tp_from_current :: bool

record prs_pal_thread_callback_params =
  tc_userdata :: ptr
  tc_entry :: ptr
  tc_interrupt :: ptr
  tc_interruptible :: ptr

record prs_pal_thread =
  th_thread :: u64
  th_prio :: prs_pal_thread_prio
  th_affinity :: u32
  th_from_current :: bool
  th_userdata :: ptr
  th_entry :: ptr
  th_interrupt :: ptr
  th_interruptible :: ptr
  th_started :: bool
  th_exited :: bool
  th_idle_sem :: nat

definition PRS_MAX_CPU :: nat where
  "PRS_MAX_CPU = 32"

text \<open>The cores that a thread may run on.\<close>

definition thread_cpuset :: "u32 \<Rightarrow> nat set" where
  "thread_cpuset affinity = {i \<in> {..<PRS_MAX_CPU}. affinity AND push_bit i 1 \<noteq> 0}"

definition thread_policy :: "int \<Rightarrow> int \<Rightarrow> prs_pal_thread_prio \<Rightarrow> sched_policy \<times> int" where
  "thread_policy rr_min fifo_max prio =
     (case prio of
        PRS_PAL_THREAD_PRIO_IDLE \<Rightarrow> (SCHED_IDLE, 0)
      | PRS_PAL_THREAD_PRIO_LOW \<Rightarrow> (SCHED_BATCH, 0)
      | PRS_PAL_THREAD_PRIO_NORMAL \<Rightarrow> (SCHED_OTHER, 0)
      | PRS_PAL_THREAD_PRIO_HIGH \<Rightarrow> (SCHED_RR, rr_min)
      | PRS_PAL_THREAD_PRIO_REALTIME \<Rightarrow> (SCHED_FIFO, fifo_max))"

text \<open>What the operating system knows of a thread.\<close>

record thread_local =
  tl_current :: ptr
  tl_cpuset :: "nat set"
  tl_policy :: "sched_policy \<times> int"
  tl_signals :: signal_local

definition prs_pal_thread_local_init ::
  "signal_answers \<Rightarrow> bool \<Rightarrow> bool \<Rightarrow> int \<Rightarrow> int \<Rightarrow> ptr \<Rightarrow> prs_pal_thread \<Rightarrow> os_memory \<times> thread_local \<Rightarrow> (os_memory \<times> thread_local) option" where
  "prs_pal_thread_local_init ans affinity_error sched_error rr_min fifo_max p th s =
     (let (mem, tl) = s;
          tl = tl\<lparr>tl_current := p\<rparr>
      in if affinity_error then None
         else if sched_error then None
         else
           Option.bind (prs_pal_signal_unblock ans SIGUSR1 (mem, tl_signals tl)) (\<lambda>((mem, sg), result).
             if result \<noteq> PRS_OK then None
             else Some (mem, tl\<lparr>tl_cpuset := thread_cpuset (th_affinity th), tl_policy := thread_policy rr_min fifo_max (th_prio th), tl_signals := sg\<rparr>)))"

text \<open>What the handler does on a thread: the previous action, nothing, or the callback of the thread.\<close>

datatype thread_signal = ThreadChain "signal_call option" | ThreadIgnored | ThreadInterrupted ptr ptr

definition prs_pal_thread_sighandler :: "int \<Rightarrow> sigaction \<Rightarrow> (ptr \<Rightarrow> ptr \<Rightarrow> bool) \<Rightarrow> prs_pal_thread option \<Rightarrow> ptr \<Rightarrow> thread_signal" where
  "prs_pal_thread_sighandler signo prev interruptible current ucontext =
     (case current of
        None \<Rightarrow> ThreadChain (prs_pal_signal_chain signo (Some prev))
      | Some th \<Rightarrow> if interruptible (th_userdata th) ucontext then ThreadInterrupted (th_userdata th) ucontext else ThreadIgnored)"

text \<open>A wait on a semaphore is interrupted by a signal, fails, or takes one from the value.\<close>

datatype sem_wait_answer = SemTaken | SemInterrupted | SemError

fun prs_pal_thread_suspend :: "sem_wait_answer list \<Rightarrow> prs_pal_thread \<Rightarrow> (prs_pal_thread \<times> prs_result) option" where
  "prs_pal_thread_suspend [] th = None"
| "prs_pal_thread_suspend (SemTaken # ws) th = (if th_idle_sem th = 0 then None else Some (th\<lparr>th_idle_sem := th_idle_sem th - 1\<rparr>, PRS_OK))"
| "prs_pal_thread_suspend (SemInterrupted # ws) th = prs_pal_thread_suspend ws th"
| "prs_pal_thread_suspend (SemError # ws) th = Some (th, PRS_PLATFORM_ERROR)"

definition prs_pal_thread_resume :: "bool \<Rightarrow> prs_pal_thread \<Rightarrow> prs_pal_thread \<times> prs_result" where
  "prs_pal_thread_resume post_error th =
     (if post_error then (th, PRS_PLATFORM_ERROR) else (th\<lparr>th_idle_sem := th_idle_sem th + 1\<rparr>, PRS_OK))"

text \<open>The function of a thread, up to the call of its entry point and from its return on.\<close>

definition thread_entry_start :: "sem_wait_answer list \<Rightarrow> prs_pal_thread \<Rightarrow> prs_pal_thread option" where
  "thread_entry_start ws th = map_option (\<lambda>(th, _). th\<lparr>th_started := True\<rparr>) (prs_pal_thread_suspend ws th)"

definition thread_entry_end :: "prs_pal_thread \<Rightarrow> prs_pal_thread" where
  "thread_entry_end th = th\<lparr>th_exited := True\<rparr>"

record thread_create_answers =
  tca_memory :: "ptr option"
  tca_sem_error :: bool
  tca_fill_error :: bool
  tca_action_error :: bool
  tca_create_error :: bool
  tca_self :: u64
  tca_thread :: u64

text \<open>The static state: whether the action is installed, the actions, and the previous action of the signal. The result is the
  thread with its address, and the pointers that are freed.\<close>

record thread_static =
  ts_sigaction_done :: bool
  ts_actions :: "int \<Rightarrow> sigaction"
  ts_prev :: sigaction

definition prs_pal_thread_create ::
  "ptr \<Rightarrow> prs_pal_thread_create_params \<Rightarrow> thread_create_answers \<Rightarrow> thread_static \<Rightarrow> thread_static \<times> (ptr \<times> prs_pal_thread) option \<times> ptr list" where
  "prs_pal_thread_create sighandler params ans st =
     (case tca_memory ans of
        None \<Rightarrow> (st, None, [])
      | Some p \<Rightarrow>
          if tca_sem_error ans then (st, None, [p])
          else
            (let th = \<lparr>th_thread = 0, th_prio = tp_prio params, th_affinity = tp_affinity params, th_from_current = tp_from_current params,
                       th_userdata = 0, th_entry = 0, th_interrupt = 0, th_interruptible = 0, th_started = False, th_exited = False, th_idle_sem = 0\<rparr>;
                 installed = ts_sigaction_done st;
                 st = st\<lparr>ts_sigaction_done := True\<rparr>;
                 (actions, prev, result) =
                   (if installed then (ts_actions st, ts_prev st, PRS_OK)
                    else prs_pal_signal_action (tca_fill_error ans) (tca_action_error ans) SIGUSR1 sighandler (ts_actions st) (ts_prev st));
                 st = st\<lparr>ts_actions := actions, ts_prev := prev\<rparr>
             in if result \<noteq> PRS_OK then (st, None, [p])
                else if th_from_current th then (st, Some (p, th\<lparr>th_thread := tca_self ans\<rparr>), [])
                else if tca_create_error ans then (st, None, [p])
                else (st, Some (p, th\<lparr>th_thread := tca_thread ans\<rparr>), [])))"

definition prs_pal_thread_destroy :: "ptr \<Rightarrow> prs_pal_thread \<Rightarrow> prs_result \<times> ptr list" where
  "prs_pal_thread_destroy p th =
     (if th_started th then (if \<not> th_exited th then (PRS_INVALID_STATE, []) else (PRS_OK, [p])) else (PRS_INVALID_STATE, []))"

definition prs_pal_thread_set_callback_params :: "prs_pal_thread \<Rightarrow> prs_pal_thread_callback_params \<Rightarrow> prs_pal_thread \<times> prs_result" where
  "prs_pal_thread_set_callback_params th params =
     (th\<lparr>th_userdata := tc_userdata params, th_entry := tc_entry params, th_interrupt := tc_interrupt params, th_interruptible := tc_interruptible params\<rparr>, PRS_OK)"

text \<open>\<open>run\<close> is the entry point, on the state of the rest of the program; \<open>init\<close> the local initialization. A thread of its own is only resumed.\<close>

definition prs_pal_thread_start ::
  "bool \<Rightarrow> ('s \<Rightarrow> 's option) \<Rightarrow> (ptr \<Rightarrow> ptr \<Rightarrow> 's \<Rightarrow> 's option) \<Rightarrow> prs_pal_thread \<times> 's \<Rightarrow> ((prs_pal_thread \<times> 's) \<times> prs_result) option" where
  "prs_pal_thread_start post_error init run s =
     (let (th, t) = s
      in if th_from_current th
         then
           (let th = th\<lparr>th_started := True\<rparr>
            in Option.bind (init t) (\<lambda>t. Option.bind (run (th_entry th) (th_userdata th) t) (\<lambda>t.
                 Some ((th\<lparr>th_exited := True, th_started := False\<rparr>, t), PRS_OK))))
         else (let (th, result) = prs_pal_thread_resume post_error th in Some ((th, t), result)))"

text \<open>\<open>joined\<close> is the thread after the system has waited for it; \<open>None\<close> that it does not end.\<close>

definition prs_pal_thread_join :: "prs_pal_thread option \<Rightarrow> prs_pal_thread \<Rightarrow> (prs_pal_thread \<times> prs_result) option" where
  "prs_pal_thread_join joined th =
     (if th_from_current th then Some (th, if th_exited th then PRS_OK else PRS_INVALID_STATE)
      else if \<not> th_exited th then map_option (\<lambda>th. (th, PRS_OK)) joined
      else Some (th, PRS_OK))"

datatype kill_answer = KillOk | KillNoThread | KillError

definition prs_pal_thread_interrupt :: "kill_answer \<Rightarrow> prs_result" where
  "prs_pal_thread_interrupt answer = (case answer of KillOk \<Rightarrow> PRS_OK | KillNoThread \<Rightarrow> PRS_INVALID_STATE | KillError \<Rightarrow> PRS_PLATFORM_ERROR)"

section \<open>The periodic timer\<close>

record prs_pal_pit_create_params =
  pp_period :: prs_ticks_t
  pp_use_current_thread :: bool
  pp_affinity :: u32
  pp_prio :: prs_pal_thread_prio
  pp_userdata :: ptr
  pp_callback :: ptr

record prs_pal_pit =
  pt_userdata :: ptr
  pt_callback :: ptr
  pt_period :: prs_ticks_t
  pt_use_current_thread :: bool
  pt_thread :: "(ptr \<times> prs_pal_thread) option"
  pt_exit_sem :: nat

text \<open>The interval timer of the process: its period in microseconds, if it runs. The handler calls the callback or the previous action.\<close>

datatype pit_signal = PitChain "signal_call option" | PitCallback ptr ptr

definition prs_pal_pit_sighandler :: "int \<Rightarrow> sigaction \<Rightarrow> prs_pal_pit option \<Rightarrow> pit_signal" where
  "prs_pal_pit_sighandler signo prev current =
     (case current of
        None \<Rightarrow> PitChain (prs_pal_signal_chain signo (Some prev))
      | Some pit \<Rightarrow> PitCallback (pt_callback pit) (pt_userdata pit))"

record pit_os =
  po_itimer :: "u32 option"
  po_mem :: os_memory
  po_signals :: signal_local

definition prs_pal_pit_init_timer :: "signal_answers \<Rightarrow> bool \<Rightarrow> prs_pal_pit \<Rightarrow> pit_os \<Rightarrow> (pit_os \<times> prs_result) option" where
  "prs_pal_pit_init_timer ans timer_error pit os =
     map_option (\<lambda>((mem, sg), result).
         let os = os\<lparr>po_mem := mem, po_signals := sg\<rparr>
         in if result \<noteq> PRS_OK then (os, result)
            else if timer_error then (os, PRS_PLATFORM_ERROR)
            else (os\<lparr>po_itimer := (if PRS_TICKS_TO_US (pt_period pit) = 0 then None else Some (PRS_TICKS_TO_US (pt_period pit)))\<rparr>, PRS_OK))
       (prs_pal_signal_unblock ans SIGALRM (po_mem os, po_signals os))"

definition prs_pal_pit_uninit_timer :: "signal_answers \<Rightarrow> bool \<Rightarrow> pit_os \<Rightarrow> (pit_os \<times> prs_result) option" where
  "prs_pal_pit_uninit_timer ans timer_error os =
     (if timer_error then Some (os, PRS_PLATFORM_ERROR)
      else
        (let os = os\<lparr>po_itimer := None\<rparr>
         in map_option (\<lambda>((mem, sg), result). (os\<lparr>po_mem := mem, po_signals := sg\<rparr>, result)) (prs_pal_signal_block ans SIGALRM (po_mem os, po_signals os))))"

fun pit_wait_exit :: "sem_wait_answer list \<Rightarrow> prs_pal_pit \<Rightarrow> prs_pal_pit option" where
  "pit_wait_exit [] pit = None"
| "pit_wait_exit (SemTaken # ws) pit = (if pt_exit_sem pit = 0 then None else Some (pit\<lparr>pt_exit_sem := pt_exit_sem pit - 1\<rparr>))"
| "pit_wait_exit (SemInterrupted # ws) pit = pit_wait_exit ws pit"
| "pit_wait_exit (SemError # ws) pit = Some pit"

text \<open>The answers for the start and for the end of the thread's function; the state has the thread's own signals.\<close>

definition prs_pal_pit_thread_entry ::
  "signal_answers \<Rightarrow> bool \<Rightarrow> bool \<Rightarrow> sem_wait_answer list \<Rightarrow> prs_pal_pit \<times> pit_os \<Rightarrow> (prs_pal_pit \<times> pit_os) option" where
  "prs_pal_pit_thread_entry ans init_error uninit_error ws s =
     Option.bind (prs_pal_pit_init_timer ans init_error (fst s) (snd s)) (\<lambda>(os, result).
       if result \<noteq> PRS_OK then None
       else
         Option.bind (pit_wait_exit ws (fst s)) (\<lambda>pit.
           map_option (\<lambda>(os, _). (pit, os)) (prs_pal_pit_uninit_timer ans uninit_error os)))"

record pit_create_answers =
  pca_memory :: "ptr option"
  pca_fill_error :: bool
  pca_action_error :: bool
  pca_signals :: signal_answers
  pca_timer_error :: bool
  pca_uninit_error :: bool
  pca_sem_error :: bool
  pca_thread :: thread_create_answers
  pca_post_error :: bool

record pit_static =
  ps_sigaction_done :: bool
  ps_actions :: "int \<Rightarrow> sigaction"
  ps_prev :: sigaction
  ps_threads :: thread_static

text \<open>The new timer with its address, and the pointers that are freed. \<open>entry\<close>, \<open>sighandler\<close> and \<open>thread_sighandler\<close> are addresses of functions.\<close>

definition prs_pal_pit_create ::
  "ptr \<Rightarrow> ptr \<Rightarrow> ptr \<Rightarrow> prs_pal_pit_create_params \<Rightarrow> pit_create_answers \<Rightarrow> pit_static \<times> pit_os
    \<Rightarrow> ((pit_static \<times> pit_os) \<times> (ptr \<times> prs_pal_pit) option \<times> ptr list) option" where
  "prs_pal_pit_create sighandler thread_sighandler entry params ans s =
     (case pca_memory ans of
        None \<Rightarrow> Some (s, None, [])
      | Some p \<Rightarrow>
          (let (st, os) = s;
               pit = \<lparr>pt_userdata = pp_userdata params, pt_callback = pp_callback params, pt_period = pp_period params,
                      pt_use_current_thread = pp_use_current_thread params, pt_thread = None, pt_exit_sem = 0\<rparr>;
               installed = ps_sigaction_done st;
               st = st\<lparr>ps_sigaction_done := True\<rparr>;
               (actions, prev, result) =
                 (if installed then (ps_actions st, ps_prev st, PRS_OK)
                  else prs_pal_signal_action (pca_fill_error ans) (pca_action_error ans) SIGALRM sighandler (ps_actions st) (ps_prev st));
               st = st\<lparr>ps_actions := actions, ps_prev := prev\<rparr>;
               cleanup = (\<lambda>st os freed.
                 if pt_use_current_thread pit
                 then map_option (\<lambda>(os, _). ((st, os), None, freed @ [p])) (prs_pal_pit_uninit_timer (pca_signals ans) (pca_uninit_error ans) os)
                 else Some ((st, os), None, freed @ [p]))
           in if result \<noteq> PRS_OK then cleanup st os []
              else if pt_use_current_thread pit
              then
                Option.bind (prs_pal_pit_init_timer (pca_signals ans) (pca_timer_error ans) pit os) (\<lambda>(os, result).
                  if result \<noteq> PRS_OK then cleanup st os [] else Some ((st, os), Some (p, pit), []))
              else if pca_sem_error ans then cleanup st os []
              else
                (let (threads, thread, freed) = prs_pal_thread_create thread_sighandler
                       \<lparr>tp_stack_size = 4096, tp_prio = pp_prio params, tp_affinity = pp_affinity params, tp_from_current = False\<rparr> (pca_thread ans) (ps_threads st);
                     st = st\<lparr>ps_threads := threads\<rparr>
                 in case thread of
                      None \<Rightarrow> cleanup st os freed
                    | Some (q, th) \<Rightarrow>
                        (let th = fst (prs_pal_thread_set_callback_params th
                               \<lparr>tc_userdata = p, tc_entry = entry, tc_interrupt = 0, tc_interruptible = 0\<rparr>);
                             th = (case prs_pal_thread_start (pca_post_error ans) Some (\<lambda>_ _. Some) (th, ()) of Some ((th, _), _) \<Rightarrow> th | None \<Rightarrow> th)
                         in Some ((st, os), Some (p, pit\<lparr>pt_thread := Some (q, th)\<rparr>), freed)))))"

text \<open>The timer is freed, and its thread if it has ended.\<close>

definition prs_pal_pit_destroy :: "signal_answers \<Rightarrow> bool \<Rightarrow> ptr \<Rightarrow> prs_pal_pit \<Rightarrow> pit_os \<Rightarrow> (pit_os \<times> prs_pal_pit \<times> ptr list) option" where
  "prs_pal_pit_destroy ans timer_error p pit os =
     (if pt_use_current_thread pit then map_option (\<lambda>(os, _). (os, pit, [p])) (prs_pal_pit_uninit_timer ans timer_error os)
      else
        map_option (\<lambda>(q, th). (os, pit\<lparr>pt_exit_sem := pt_exit_sem pit + 1\<rparr>, snd (prs_pal_thread_destroy q th) @ [p])) (pt_thread pit))"

section \<open>The life of a thread\<close>

text \<open>A thread of its own with the other threads that resume it. The numbers of posts and of waits that returned are recorded.\<close>

datatype thread_phase = ThreadWaiting | ThreadRunning | ThreadEnded

record thread_conf =
  tf_thread :: prs_pal_thread
  tf_phase :: thread_phase
  tf_posts :: nat
  tf_waits :: nat

inductive thread_step :: "thread_conf \<Rightarrow> thread_conf \<Rightarrow> bool" where
  resume: "thread_step c (c\<lparr>tf_thread := fst (prs_pal_thread_resume False (tf_thread c)), tf_posts := Suc (tf_posts c)\<rparr>)"
| enter: "tf_phase c = ThreadWaiting \<Longrightarrow> SemError \<notin> set ws \<Longrightarrow> thread_entry_start ws (tf_thread c) = Some th
    \<Longrightarrow> thread_step c (c\<lparr>tf_thread := th, tf_phase := ThreadRunning, tf_waits := Suc (tf_waits c)\<rparr>)"
| suspend: "tf_phase c = ThreadRunning \<Longrightarrow> SemError \<notin> set ws \<Longrightarrow> prs_pal_thread_suspend ws (tf_thread c) = Some (th, result)
    \<Longrightarrow> thread_step c (c\<lparr>tf_thread := th, tf_waits := Suc (tf_waits c)\<rparr>)"
| leave: "tf_phase c = ThreadRunning \<Longrightarrow> thread_step c (c\<lparr>tf_thread := thread_entry_end (tf_thread c), tf_phase := ThreadEnded\<rparr>)"

definition thread_inv :: "thread_conf \<Rightarrow> bool" where
  "thread_inv c \<longleftrightarrow> tf_waits c + th_idle_sem (tf_thread c) = tf_posts c
     \<and> (th_started (tf_thread c) \<longleftrightarrow> tf_phase c \<noteq> ThreadWaiting) \<and> (th_exited (tf_thread c) \<longleftrightarrow> tf_phase c = ThreadEnded)
     \<and> (tf_phase c \<noteq> ThreadWaiting \<longrightarrow> tf_waits c > 0)"

lemma thread_suspend_takes:
  "SemError \<notin> set ws \<Longrightarrow> prs_pal_thread_suspend ws th = Some (th', result)
    \<Longrightarrow> th_idle_sem th = Suc (th_idle_sem th') \<and> th' = th\<lparr>th_idle_sem := th_idle_sem th'\<rparr> \<and> result = PRS_OK"
  by (induction ws th rule: prs_pal_thread_suspend.induct) (auto split: if_splits)

lemma thread_inv_step: "thread_step c c' \<Longrightarrow> thread_inv c \<Longrightarrow> thread_inv c'"
proof (induction rule: thread_step.induct)
  case (resume c)
  then show ?case by (simp add: thread_inv_def prs_pal_thread_resume_def)
next
  case (enter c ws th)
  then obtain th' r where t: "prs_pal_thread_suspend ws (tf_thread c) = Some (th', r)" "th = th'\<lparr>th_started := True\<rparr>"
    by (auto simp: thread_entry_start_def)
  from thread_suspend_takes [OF enter.hyps(2) t(1)] enter.hyps(1) enter.prems show ?case
    by (simp add: thread_inv_def t(2)) (metis prs_pal_thread.select_convs(10) prs_pal_thread.surjective prs_pal_thread.update_convs(11))
next
  case (suspend c ws th result)
  from thread_suspend_takes [OF suspend.hyps(2,3)] suspend.hyps(1) suspend.prems show ?case
    by (simp add: thread_inv_def) (metis prs_pal_thread.select_convs(9,10) prs_pal_thread.surjective prs_pal_thread.update_convs(11))
next
  case (leave c)
  then show ?case by (simp add: thread_inv_def thread_entry_end_def)
qed


definition thread_example :: prs_pal_thread where
  "thread_example = \<lparr>th_thread = 7, th_prio = PRS_PAL_THREAD_PRIO_NORMAL, th_affinity = 1, th_from_current = False, th_userdata = 0, th_entry = 70,
     th_interrupt = 71, th_interruptible = 72, th_started = False, th_exited = False, th_idle_sem = 0\<rparr>"


text \<open>A thread that runs on its creator's is over when the start returns, and can be joined but never destroyed: its start flag is cleared.\<close>

theorem thread_current_not_destroyed:
  assumes "th_from_current th" and "prs_pal_thread_start post_error init run (th, t) = Some ((th', t'), result)"
  shows "result = PRS_OK \<and> prs_pal_thread_join joined th' = Some (th', PRS_OK) \<and> prs_pal_thread_destroy p th' = (PRS_INVALID_STATE, [])"
  using assms by (auto simp: prs_pal_thread_start_def Let_def Option.bind_eq_Some_conv prs_pal_thread_join_def prs_pal_thread_destroy_def)

text \<open>The timer of a thread of its own is freed even if the thread, which still uses it, has not ended.\<close>

lemma pit_destroy_under_thread:
  assumes "\<not> pt_use_current_thread pit" and "pt_thread pit = Some (q, th)" and "\<not> (th_started th \<and> th_exited th)"
  shows "\<exists>pit'. prs_pal_pit_destroy ans timer_error p pit os = Some (os, pit', [p])"
  using assms by (auto simp: prs_pal_pit_destroy_def prs_pal_thread_destroy_def)

lemma signal_init_ok: "prs_pal_signal_init ans mem sg = Some (mem', sg', PRS_OK) \<Longrightarrow> sg_initialized sg'"
  by (auto simp: prs_pal_signal_init_def Let_def split: if_splits prod.splits)

lemma signal_set_ok:
  assumes "prs_pal_signal_set ans signum block s = Some ((mem, sg), PRS_OK)"
  shows "sg_blocked sg signum = block \<and> sg_initialized sg \<and> \<not> sa_set_error ans \<and> \<not> sa_mask_error ans"
proof -
  from assms obtain mem0 sg0 r where i: "prs_pal_signal_init ans (fst s) (snd s) = Some (mem0, sg0, r)" by (auto simp: prs_pal_signal_set_def)
  with assms have "r = PRS_OK \<and> \<not> sa_set_error ans \<and> \<not> sa_mask_error ans \<and> sg = sg0\<lparr>sg_blocked := (sg_blocked sg0)(signum := block)\<rparr>"
    by (cases "r = PRS_OK"; cases "sa_set_error ans \<or> sa_mask_error ans") (auto simp: prs_pal_signal_set_def)
  then show ?thesis using signal_init_ok [of ans "fst s" "snd s" mem0 sg0] i by simp
qed

lemma signal_set_initialized:
  assumes "sg_initialized sg" and "\<not> sa_set_error ans" and "\<not> sa_mask_error ans"
  shows "prs_pal_signal_set ans signum block (mem, sg) = Some ((mem, sg\<lparr>sg_blocked := (sg_blocked sg)(signum := block)\<rparr>), PRS_OK)"
  using assms by (simp add: prs_pal_signal_set_def prs_pal_signal_init_def)

lemma pit_init_ok:
  assumes "prs_pal_pit_init_timer ans timer_error pit os = Some (os', PRS_OK)" and "PRS_TICKS_TO_US (pt_period pit) \<noteq> 0"
  shows "po_itimer os' = Some (PRS_TICKS_TO_US (pt_period pit)) \<and> \<not> sg_blocked (po_signals os') SIGALRM \<and> sg_initialized (po_signals os')
    \<and> \<not> sa_set_error ans \<and> \<not> sa_mask_error ans"
proof -
  from assms(1) obtain mem sg result where u: "prs_pal_signal_unblock ans SIGALRM (po_mem os, po_signals os) = Some ((mem, sg), result)"
    by (auto simp: prs_pal_pit_init_timer_def)
  with assms have "result = PRS_OK \<and> po_itimer os' = Some (PRS_TICKS_TO_US (pt_period pit)) \<and> po_signals os' = sg"
    by (cases "result = PRS_OK"; cases timer_error) (auto simp: prs_pal_pit_init_timer_def Let_def)
  then show ?thesis using signal_set_ok [of ans SIGALRM False "(po_mem os, po_signals os)" mem sg] u by (simp add: prs_pal_signal_unblock_def)
qed

text \<open>On the current thread, from its creation to its destruction the timer has the period in microseconds, its signal is let through, and the
  handler calls the callback; after that the signal is blocked and the timer is off.\<close>

theorem pit_current_runs:
  assumes "prs_pal_pit_create sighandler thread_sighandler entry params ans (st, os) = Some ((st1, os1), Some (p, pit), freed)"
    and "pp_use_current_thread params" and "PRS_TICKS_TO_US (pp_period params) \<noteq> 0"
    and "prs_pal_pit_destroy (pca_signals ans) False p pit os1 = Some (os2, pit', freed')"
  shows "po_itimer os1 = Some (PRS_TICKS_TO_US (pp_period params)) \<and> \<not> sg_blocked (po_signals os1) SIGALRM
    \<and> prs_pal_pit_sighandler SIGALRM prev (Some pit) = PitCallback (pp_callback params) (pp_userdata params) \<and> freed = []
    \<and> po_itimer os2 = None \<and> sg_blocked (po_signals os2) SIGALRM \<and> freed' = [p]"
proof -
  from assms(1,2) obtain os0 where pit: "pit = \<lparr>pt_userdata = pp_userdata params, pt_callback = pp_callback params, pt_period = pp_period params,
        pt_use_current_thread = True, pt_thread = None, pt_exit_sem = 0\<rparr>" "freed = []"
      and i: "prs_pal_pit_init_timer (pca_signals ans) (pca_timer_error ans) pit os0 = Some (os1, PRS_OK)"
    by (auto simp: prs_pal_pit_create_def Let_def Option.bind_eq_Some_conv split: option.splits prod.splits if_splits)
  from pit_init_ok [OF i] assms(3) have o1: "po_itimer os1 = Some (PRS_TICKS_TO_US (pp_period params))" "\<not> sg_blocked (po_signals os1) SIGALRM"
      "sg_initialized (po_signals os1)" "\<not> sa_set_error (pca_signals ans)" "\<not> sa_mask_error (pca_signals ans)"
    by (simp_all add: pit(1))
  with assms(4) have "po_itimer os2 = None \<and> sg_blocked (po_signals os2) SIGALRM \<and> freed' = [p]"
    by (auto simp: prs_pal_pit_destroy_def prs_pal_pit_uninit_timer_def prs_pal_signal_block_def signal_set_initialized pit(1))
  then show ?thesis using o1 pit by (simp add: prs_pal_pit_sighandler_def)
qed

end
