(* ===== verification/Boot.thy ===== *)
theory Boot
  imports Life Log Thread
begin

unbundle bit_operations_syntax

text \<open>
  Start and end of the system, \<^verbatim>\<open>prs/init.c\<close>, the log service, \<^verbatim>\<open>prs/svc/log.c\<close>, the system information, \<^verbatim>\<open>prs/systeminfo.c\<close>, and the information of the
  operating system, \<^verbatim>\<open>prs/pal/linux/os.c\<close>. What init does to the other components are the calls that it makes on them, in their order, with their
  results as arguments; \<open>None\<close> is a fatal outcome.
\<close>

section \<open>The log service\<close>

text \<open>The ticks to wait after \<open>entries_written\<close> lines in \<open>ticks_to_wait\<close> ticks. The lines are fewer than those of the ring, so that the products stay in 64 bits.\<close>

definition svc_log_wait :: "prs_ticks_t \<Rightarrow> int \<Rightarrow> prs_ticks_t" where
  "svc_log_wait ticks_to_wait entries_written =
     (let max_ticks_to_wait = PRS_TICKS_FROM_MS 1000;
          min_ticks_to_wait = PRS_TICKS_FROM_MS 100;
          entries_per_second = 1000 * entries_written div int (unat (PRS_TICKS_TO_MS ticks_to_wait));
          ticks_to_wait = word_of_int (1000 div (if entries_per_second \<noteq> 0 then entries_per_second else 1) * int PRS_HZ div 1000);
          ticks_to_wait = (if ticks_to_wait > max_ticks_to_wait then max_ticks_to_wait else ticks_to_wait)
      in if ticks_to_wait < min_ticks_to_wait then min_ticks_to_wait else ticks_to_wait)"

text \<open>One round of the task, after its sleep.\<close>

definition svc_log_round :: "bool list \<Rightarrow> prs_log \<times> prs_ticks_t \<Rightarrow> (prs_log \<times> prs_ticks_t) option" where
  "svc_log_round mets s = map_option (\<lambda>(log, entries_written). (log, svc_log_wait (snd s) entries_written)) (prs_log_flush mets (fst s))"

definition prs_svc_log_init ::
  "'s life_ops \<Rightarrow> (ptr \<Rightarrow> 's prs_sched_ops) \<Rightarrow> ptr \<Rightarrow> 's life_state \<Rightarrow> ptr \<Rightarrow> prs_object_id_t \<Rightarrow> prs_task_prio_t \<Rightarrow> ptr \<Rightarrow> task_answers
    \<Rightarrow> 's life_state option" where
  "prs_svc_log_init ops_of impl task_ops s current sched_id prio entry ans =
     Option.bind (prs_task_create ops_of task_ops s current
        \<lparr>tcp_name = ''prs_svc_log'', tcp_userdata = 0, tcp_stack_size = 8192, tcp_prio = prio, tcp_entry = entry\<rparr> ans) (\<lambda>(s, task).
       if task = 0 then None
       else (let (s, result) = prs_sched_add_task ops_of impl s sched_id (task_id (sm_tasks (snd s) task)) in if result \<noteq> PRS_OK then None else Some s))"

section \<open>Information\<close>

record os_info =
  oi_release :: string
  oi_nodename :: string
  oi_core_count :: nat
  oi_page_size :: u64
  oi_huge_page_size :: u64

definition SIGINT :: int where "SIGINT = 2"

text \<open>The answers of \<^verbatim>\<open>uname\<close> and \<^verbatim>\<open>sysconf\<close>; \<open>None\<close> is an exit. The result has the actions of the signals and the signals of the thread.\<close>

definition prs_pal_os_init ::
  "ptr \<Rightarrow> (string \<times> string) option \<Rightarrow> nat \<Rightarrow> u64 \<Rightarrow> bool \<Rightarrow> bool \<Rightarrow> signal_answers \<Rightarrow> (int \<Rightarrow> sigaction) \<Rightarrow> os_memory \<times> signal_local
    \<Rightarrow> (os_info \<times> (int \<Rightarrow> sigaction) \<times> os_memory \<times> signal_local) option" where
  "prs_pal_os_init handler uname nproc page_size fill_error action_error ans actions s =
     (case uname of
        None \<Rightarrow> None
      | Some (release, nodename) \<Rightarrow>
          (let info = \<lparr>oi_release = release, oi_nodename = nodename, oi_core_count = nproc, oi_page_size = page_size, oi_huge_page_size = 0\<rparr>;
               (actions, _, result) = prs_pal_signal_action fill_error action_error SIGINT handler actions (actions SIGINT)
           in if result \<noteq> PRS_OK then None
              else Option.bind (prs_pal_signal_unblock ans SIGINT s) (\<lambda>(s, result). if result \<noteq> PRS_OK then None else Some (info, actions, s))))"

definition prs_pal_os_get_core_count :: "os_info \<Rightarrow> nat" where "prs_pal_os_get_core_count info = oi_core_count info"
definition prs_pal_os_get_page_size :: "os_info \<Rightarrow> u64" where "prs_pal_os_get_page_size info = oi_page_size info"
definition prs_pal_os_get_huge_page_size :: "os_info \<Rightarrow> u64" where "prs_pal_os_get_huge_page_size info = oi_huge_page_size info"
definition prs_pal_os_get_version :: "os_info \<Rightarrow> string" where "prs_pal_os_get_version info = oi_release info"
definition prs_pal_os_get_computer :: "os_info \<Rightarrow> string" where "prs_pal_os_get_computer info = oi_nodename info"

text \<open>The fields that are not constants of the build.\<close>

record prs_systeminfo =
  si_os_version :: string
  si_computer :: string
  si_core_count :: nat

definition prs_systeminfo_get :: "os_info \<Rightarrow> prs_systeminfo option \<Rightarrow> prs_systeminfo" where
  "prs_systeminfo_get info s_systeminfo =
     (case s_systeminfo of
        Some si \<Rightarrow> si
      | None \<Rightarrow>
          (let core_count = prs_pal_os_get_core_count info;
               core_count = (if core_count > PRS_MAX_CPU then PRS_MAX_CPU else core_count)
           in \<lparr>si_os_version = prs_pal_os_get_version info, si_computer = prs_pal_os_get_computer info, si_core_count = core_count\<rparr>))"

section \<open>Initialization\<close>

record prs_init_params =
  ip_use_current_thread :: bool
  ip_core_mask :: u32

datatype init_call =
    OsInit | WlsInit | GodCreate u64 | GpdInit | LogInit | ExcpInit | ClockInit bool
  | ThreadCreate nat bool | SchedCreate string | SchedAddThread prs_object_id_t nat | TaskCreate string | SchedAddTask prs_object_id_t prs_object_id_t
  | SchedStart prs_object_id_t | SchedStop prs_object_id_t | SchedDestroy prs_object_id_t | LogFlush | ClockUninit | IntEnable | FastExit int
  | IntDisable | SvcLogInit prs_object_id_t prs_task_prio_t | ProcInit | SvcProcInit prs_object_id_t prs_task_prio_t
  | SendExec prs_object_id_t string string prs_task_create_params prs_object_id_t

record init_answers =
  ia_god :: prs_result
  ia_thread :: "nat \<Rightarrow> bool"
  ia_sched :: "nat \<Rightarrow> prs_result \<times> prs_object_id_t"
  ia_add_thread :: "nat \<Rightarrow> prs_result"
  ia_task :: "prs_object_id_t option"
  ia_add_task :: prs_result
  ia_start :: "nat \<Rightarrow> prs_result"

record init_static =
  is_core_count :: nat
  is_scheduler_ids :: "nat \<Rightarrow> prs_object_id_t"
  is_uninit :: bool
  is_main_sched_id :: prs_object_id_t
  is_main_exit :: bool
  is_exit_status :: int

text \<open>How a function ends: it returns, it waits for ever, or the process exits.\<close>

datatype init_end = InitReturn int | InitForever | InitExit int

fun prs_find_last_sched :: "(string \<Rightarrow> prs_object_id_t) \<Rightarrow> nat \<Rightarrow> prs_object_id_t" where
  "prs_find_last_sched find_sched 0 = 0"
| "prs_find_last_sched find_sched (Suc i) =
     (let sched_id = find_sched (''swprio'' @ decimal i) in if sched_id \<noteq> 0 then sched_id else prs_find_last_sched find_sched i)"

definition core_enabled :: "prs_init_params \<Rightarrow> nat \<Rightarrow> bool" where
  "core_enabled params i \<longleftrightarrow> ip_core_mask params AND push_bit i 1 \<noteq> 0"

text \<open>One core of the first loop: the static state, the calls and whether the next core is still the first.\<close>

definition init_core :: "prs_init_params \<Rightarrow> init_answers \<Rightarrow> nat \<Rightarrow> init_static \<times> init_call list \<times> bool \<Rightarrow> (init_static \<times> init_call list \<times> bool) option" where
  "init_core params ans i s =
     (let (st, calls, first) = s
      in if \<not> core_enabled params i then Some (st\<lparr>is_scheduler_ids := (is_scheduler_ids st)(i := PRS_OBJECT_ID_INVALID)\<rparr>, calls, first)
         else
           (let from_current = (if first then ip_use_current_thread params else False);
                calls = calls @ [ThreadCreate i from_current]
            in if \<not> ia_thread ans i then None
               else
                 (let calls = calls @ [SchedCreate (''swprio'' @ decimal i)];
                      (result, sched_id) = ia_sched ans i
                  in if result \<noteq> PRS_OK then None
                     else
                       (let st = st\<lparr>is_scheduler_ids := (is_scheduler_ids st)(i := sched_id)\<rparr>;
                            st = (if from_current then st\<lparr>is_main_sched_id := sched_id, is_main_exit := False\<rparr> else st);
                            calls = calls @ [SchedAddThread sched_id i]
                        in if ia_add_thread ans i \<noteq> PRS_OK then None
                           else if first
                           then (case ia_task ans of
                                   None \<Rightarrow> None
                                 | Some tid \<Rightarrow>
                                     if ia_add_task ans \<noteq> PRS_OK then None
                                     else Some (st, calls @ [TaskCreate ''init1'', SchedAddTask sched_id tid], False))
                           else Some (st, calls, first)))))"

fun init_cores :: "prs_init_params \<Rightarrow> init_answers \<Rightarrow> nat list \<Rightarrow> init_static \<times> init_call list \<times> bool \<Rightarrow> (init_static \<times> init_call list \<times> bool) option" where
  "init_cores params ans [] s = Some s"
| "init_cores params ans (i # js) s = Option.bind (init_core params ans i s) (init_cores params ans js)"

fun init_starts :: "prs_init_params \<Rightarrow> init_answers \<Rightarrow> (nat \<Rightarrow> prs_object_id_t) \<Rightarrow> nat list \<Rightarrow> init_call list option" where
  "init_starts params ans ids [] = Some []"
| "init_starts params ans ids (i # js) =
     (if \<not> core_enabled params i then init_starts params ans ids js
      else if ia_start ans i \<noteq> PRS_OK then None
      else map_option (Cons (SchedStart (ids i))) (init_starts params ans ids js))"

definition init_uninit_calls :: "init_static \<Rightarrow> prs_object_id_t \<Rightarrow> (prs_object_id_t \<Rightarrow> init_call) \<Rightarrow> init_call list" where
  "init_uninit_calls st except_id call =
     map (\<lambda>i. call (is_scheduler_ids st i))
       (filter (\<lambda>i. is_scheduler_ids st i \<noteq> PRS_OBJECT_ID_INVALID \<and> is_scheduler_ids st i \<noteq> except_id) (rev [0..<is_core_count st]))"

definition prs_uninit_final :: "init_static \<Rightarrow> prs_object_id_t \<Rightarrow> init_call list" where
  "prs_uninit_final st except_id = init_uninit_calls st except_id SchedStop @ init_uninit_calls st except_id SchedDestroy @ [LogFlush]"

text \<open>\<open>main_exit\<close> is the flag, as another thread may have left it when the scheduler of the current thread has ended. The program is built
  with \<^verbatim>\<open>PRS_EXIT\<close>.\<close>

definition prs_init ::
  "prs_init_params \<Rightarrow> init_answers \<Rightarrow> nat \<Rightarrow> bool \<Rightarrow> init_static \<Rightarrow> (init_static \<times> init_call list \<times> init_end) option" where
  "prs_init params ans core_count main_exit st =
     (let st = st\<lparr>is_main_sched_id := PRS_OBJECT_ID_INVALID\<rparr>
      in if ia_god ans \<noteq> PRS_OK then None
         else
           (let calls = [OsInit, WlsInit, GodCreate PRS_MAX_OBJECTS, GpdInit, LogInit, ExcpInit, ClockInit (ip_use_current_thread params)];
                st = st\<lparr>is_core_count := (if core_count \<ge> PRS_MAX_CPU then PRS_MAX_CPU else core_count)\<rparr>
            in Option.bind (init_cores params ans [0..<is_core_count st] (st, calls, True)) (\<lambda>(st, calls, first).
                 let st = st\<lparr>is_uninit := False\<rparr>
                 in map_option (\<lambda>starts.
                        if ip_use_current_thread params
                        then
                          (let st = st\<lparr>is_main_exit := main_exit\<rparr>
                           in if \<not> main_exit then (st, calls @ starts, InitForever)
                              else (st, calls @ starts @ prs_uninit_final st (is_main_sched_id st) @ [FastExit (is_exit_status st)], InitExit (is_exit_status st)))
                        else (st, calls @ starts, InitReturn 0))
                      (init_starts params ans (is_scheduler_ids st) (rev [0..<is_core_count st])))))"

section \<open>Exit\<close>

text \<open>\<open>worker\<close> says whether the thread has a worker, and \<open>current_sched_id\<close> is the scheduler of the current task, or the invalid ID. The wait
  turns the interrupts on first.\<close>

definition prs_uninit :: "bool \<Rightarrow> bool \<Rightarrow> prs_object_id_t \<Rightarrow> init_static \<Rightarrow> init_static \<times> init_call list \<times> init_end" where
  "prs_uninit from_excp worker current_sched_id st =
     (let (already_uninitializing, cell) = atomic_exchange (is_uninit st) True;
          st = st\<lparr>is_uninit := cell\<rparr>
      in if already_uninitializing
         then if from_excp then (st, [LogFlush], InitReturn 0)
              else if \<not> worker then (st, [LogFlush], InitReturn 0)
              else (st, [LogFlush, IntEnable], InitForever)
         else
           (let calls = [ClockUninit]
            in if \<not> from_excp \<and> is_main_sched_id st \<noteq> PRS_OBJECT_ID_INVALID \<and> is_main_sched_id st \<noteq> current_sched_id
               then (st\<lparr>is_main_exit := True\<rparr>, calls @ [SchedDestroy (is_main_sched_id st), IntEnable], InitForever)
               else (st, calls @ prs_uninit_final st current_sched_id, InitReturn 0)))"

definition prs_fast_exit :: "int \<Rightarrow> init_call list \<times> init_end" where
  "prs_fast_exit status = ([FastExit status], InitExit status)"

definition init_exit :: "bool \<Rightarrow> bool \<Rightarrow> prs_object_id_t \<Rightarrow> int \<Rightarrow> init_static \<Rightarrow> init_static \<times> init_call list \<times> init_end" where
  "init_exit from_excp worker current_sched_id status st =
     (case prs_uninit from_excp worker current_sched_id st of
        (st, calls, InitReturn _) \<Rightarrow> (let (exit_calls, e) = prs_fast_exit status in (st, calls @ exit_calls, e))
      | r \<Rightarrow> r)"

definition prs_exit :: "bool \<Rightarrow> prs_object_id_t \<Rightarrow> int \<Rightarrow> init_static \<Rightarrow> init_static \<times> init_call list \<times> init_end" where
  "prs_exit worker current_sched_id status st = init_exit False worker current_sched_id status st"

definition prs_exit_from_excp :: "bool \<Rightarrow> prs_object_id_t \<Rightarrow> int \<Rightarrow> init_static \<Rightarrow> init_static \<times> init_call list \<times> init_end" where
  "prs_exit_from_excp worker current_sched_id status st = init_exit True worker current_sched_id status st"

section \<open>The first task\<close>

text \<open>\<open>sched_id\<close> is the scheduler of the task, \<open>argv\<close> are the arguments of the program, \<open>find_sched\<close> and \<open>find_task\<close> are the searches by name, \<open>proc_id\<close> is the
  answer of the process service, and \<open>st\<close> is the static state when the task exits. The \<^verbatim>\<open>argv\<close> that are logged change no state.\<close>

definition prs_init1_task ::
  "(string \<Rightarrow> prs_object_id_t) \<Rightarrow> (string \<Rightarrow> prs_object_id_t) \<Rightarrow> string list \<Rightarrow> prs_object_id_t \<Rightarrow> prs_object_id_t \<Rightarrow> init_static
    \<Rightarrow> (init_static \<times> init_call list \<times> init_end) option" where
  "prs_init1_task find_sched find_task argv sched_id proc_id st =
     (let prio = word_of_nat PRS_MAX_TASK_PRIO - 1;
          calls = [IntDisable, IntEnable, SvcLogInit (prs_find_last_sched find_sched PRS_MAX_CPU) prio, ProcInit, SvcProcInit sched_id prio];
          proc_task_id = find_task PRS_PROC_SVC_NAME
      in if proc_task_id = 0 then None
         else
           (let filename = (if length argv > 1 then argv ! 1 else ''init2.exe'');
                cmdline = filename;
                init2_task_params = \<lparr>tcp_name = ''init2'', tcp_userdata = 0, tcp_stack_size = 16384, tcp_prio = prio, tcp_entry = 0\<rparr>;
                calls = calls @ [SendExec proc_task_id filename cmdline init2_task_params sched_id]
            in if proc_id = 0
               then (let (st, exit_calls, e) = prs_exit True sched_id (-1) st in Some (st, calls @ exit_calls, e))
               else Some (st, calls @ [IntDisable, IntEnable], InitReturn 0)))"

section \<open>The log service\<close>

lemma ticks_to_ms_small: "unat t \<le> 1000 \<Longrightarrow> PRS_TICKS_TO_MS t = t"
proof -
  assume t: "unat t \<le> 1000"
  have "unat (PRS_TICKS_TO_MS t) = unat t"
    using t by (simp add: PRS_TICKS_TO_MS_def PRS_HZ_def unat_div unat_mult_mod)
  then show ?thesis by (simp add: word_unat_eq_iff)
qed

lemma svc_log_wait_value:
  assumes "100 \<le> unat t" and "unat t \<le> 1000" and "0 \<le> n"
  defines "eps \<equiv> 1000 * n div int (unat t)"
  shows "unat (svc_log_wait t n) = (if eps \<le> 1 then 1000 else if eps \<ge> 10 then 100 else nat (1000 div eps))"
proof -
  define k where "k = int (unat t)"
  have k: "0 < k" unfolding k_def using assms(1) by linarith
  have e: "0 \<le> eps" unfolding eps_def k_def [symmetric] using k assms(3) by (simp add: pos_imp_zdiv_nonneg_iff)
  let ?d = "if eps \<noteq> 0 then eps else 1"
  have d: "0 < ?d" using e by simp
  have q: "0 \<le> 1000 div ?d \<and> 1000 div ?d \<le> 1000" using d by (auto simp: pos_imp_zdiv_nonneg_iff intro: zdiv_mono2 [of 1000 1, simplified])
  define w where "w = (word_of_int (1000 div ?d * int PRS_HZ div 1000) :: prs_ticks_t)"
  have w: "unat w = nat (1000 div ?d)"
    using q by (simp add: w_def PRS_HZ_def unsigned_of_int take_bit_int_eq_self)
  have c: "PRS_TICKS_FROM_MS 1000 = 1000" "PRS_TICKS_FROM_MS 100 = 100" by (simp_all add: PRS_TICKS_FROM_MS_def PRS_HZ_def)
  have "svc_log_wait t n = (if w < 100 then 100 else w)"
    using q w unfolding svc_log_wait_def Let_def c ticks_to_ms_small [OF assms(2)] eps_def [symmetric] w_def [symmetric]
    by (auto simp: word_less_nat_alt word_le_nat_alt)
  moreover have "1000 div eps < 100 \<or> 1000 div eps = 100 \<and> eps = 10" if "10 \<le> eps"
    using that zdiv_mono2 [of 1000 11 eps] by (cases "eps = 10") auto
  moreover have "100 \<le> 1000 div eps" if "1 < eps" "eps < 10" using that zdiv_mono2 [of 1000 eps 9] by auto
  ultimately show ?thesis using w e by (cases "eps = 0"; cases "eps = 1"; cases "eps < 10") (auto simp: word_less_nat_alt)
qed

section \<open>The calls of init\<close>

text \<open>The calls for one core, and for the cores in their order.\<close>

definition boot_core :: "bool \<Rightarrow> prs_object_id_t \<Rightarrow> (nat \<Rightarrow> prs_object_id_t) \<Rightarrow> bool \<Rightarrow> nat \<Rightarrow> init_call list" where
  "boot_core use_current tid ids first i =
     [ThreadCreate i (first \<and> use_current), SchedCreate (''swprio'' @ decimal i), SchedAddThread (ids i) i]
     @ (if first then [TaskCreate ''init1'', SchedAddTask (ids i) tid] else [])"

fun boot_cores :: "bool \<Rightarrow> prs_object_id_t \<Rightarrow> (nat \<Rightarrow> prs_object_id_t) \<Rightarrow> bool \<Rightarrow> nat list \<Rightarrow> init_call list" where
  "boot_cores use_current tid ids first [] = []"
| "boot_cores use_current tid ids first (i # js) = boot_core use_current tid ids first i @ boot_cores use_current tid ids False js"

definition sched_of :: "init_answers \<Rightarrow> nat \<Rightarrow> prs_object_id_t" where
  "sched_of ans i = snd (ia_sched ans i)"

lemma init_core_off:
  "\<not> core_enabled params i \<Longrightarrow> init_core params ans i (st, calls, first) = Some (st\<lparr>is_scheduler_ids := (is_scheduler_ids st)(i := 0)\<rparr>, calls, first)"
  by (simp add: init_core_def PRS_OBJECT_ID_INVALID_def)

lemma init_core_on:
  assumes "core_enabled params i" and "init_core params ans i (st, calls, first) = Some (st', calls', first')" and "tid = the (ia_task ans)"
  shows "calls' = calls @ boot_core (ip_use_current_thread params) tid (sched_of ans) first i \<and> \<not> first'
    \<and> is_scheduler_ids st' = (is_scheduler_ids st)(i := sched_of ans i)
    \<and> is_main_sched_id st' = (if first \<and> ip_use_current_thread params then sched_of ans i else is_main_sched_id st)
    \<and> is_core_count st' = is_core_count st \<and> is_exit_status st' = is_exit_status st"
  using assms(1,2) unfolding init_core_def assms(3)
  by (auto simp: Let_def boot_core_def sched_of_def split: prod.splits if_splits option.splits)

lemma init_cores_trace:
  assumes "init_cores params ans js (st, calls, first) = Some (st', calls', first')" and "tid = the (ia_task ans)" and "distinct js"
  defines "cs \<equiv> filter (core_enabled params) js"
  shows "calls' = calls @ boot_cores (ip_use_current_thread params) tid (sched_of ans) first cs
    \<and> (\<forall>i. is_scheduler_ids st' i = (if i \<in> set js then if core_enabled params i then sched_of ans i else 0 else is_scheduler_ids st i))
    \<and> is_main_sched_id st' = (if first \<and> ip_use_current_thread params \<and> cs \<noteq> [] then sched_of ans (hd cs) else is_main_sched_id st)
    \<and> is_core_count st' = is_core_count st \<and> is_exit_status st' = is_exit_status st"
  using assms(1,3) unfolding cs_def
proof (induction js arbitrary: st calls first)
  case (Cons i js)
  from Cons.prems(1) obtain st1 calls1 first1 where 1: "init_core params ans i (st, calls, first) = Some (st1, calls1, first1)"
    "init_cores params ans js (st1, calls1, first1) = Some (st', calls', first')" by (auto simp: Option.bind_eq_Some_conv)
  note ih = Cons.IH [OF 1(2)]
  show ?case
  proof (cases "core_enabled params i")
    case True
    from init_core_on [OF True 1(1) assms(2)] ih Cons.prems(2) True show ?thesis by auto
  next
    case False
    with 1(1) have "st1 = st\<lparr>is_scheduler_ids := (is_scheduler_ids st)(i := 0)\<rparr>" "calls1 = calls" "first1 = first" by (simp_all add: init_core_off)
    with ih Cons.prems(2) False show ?thesis by auto
  qed
qed simp

lemma init_starts_trace:
  "init_starts params ans ids js = Some calls \<Longrightarrow> calls = map (SchedStart \<circ> ids) (filter (core_enabled params) js)"
  by (induction js arbitrary: calls) (auto split: if_splits)

section \<open>Properties\<close>

text \<open>C39: A start of the system that does not fail makes, in this order, the directories of objects and of pointers, the log, the exceptions and the clock; on every core of the
  mask, from the first on, a thread and a scheduler, the first of them with the task that goes on with the start; and then starts the
  schedulers from the last to the first, so that the one that runs on the current thread, whose start does not return, comes last.\<close>

theorem init_boot_order:
  assumes "prs_init params ans core_count main_exit st = Some (st', calls, e)"
    and "cores = filter (core_enabled params) [0..<min core_count PRS_MAX_CPU]" and "ids = sched_of ans" and "tid = the (ia_task ans)"
  shows "\<exists>rest. calls = [OsInit, WlsInit, GodCreate PRS_MAX_OBJECTS, GpdInit, LogInit, ExcpInit, ClockInit (ip_use_current_thread params)]
      @ boot_cores (ip_use_current_thread params) tid ids True cores @ map (SchedStart \<circ> ids) (rev cores) @ rest
    \<and> (ip_use_current_thread params \<and> cores \<noteq> [] \<longrightarrow> is_main_sched_id st' = ids (hd cores) \<and> last (map (SchedStart \<circ> ids) (rev cores)) = SchedStart (is_main_sched_id st'))
    \<and> (\<forall>i < is_core_count st'. is_scheduler_ids st' i = (if i \<in> set cores then ids i else PRS_OBJECT_ID_INVALID))"
proof -
  define n where "n = min core_count PRS_MAX_CPU"
  define st0 where "st0 = st\<lparr>is_main_sched_id := PRS_OBJECT_ID_INVALID, is_core_count := n\<rparr>"
  let ?calls = "[OsInit, WlsInit, GodCreate PRS_MAX_OBJECTS, GpdInit, LogInit, ExcpInit, ClockInit (ip_use_current_thread params)]"
  have n: "(if core_count \<ge> PRS_MAX_CPU then PRS_MAX_CPU else core_count) = n" by (simp add: n_def)
  from assms(1) obtain st1 calls1 first1 starts rest where 1: "init_cores params ans [0..<n] (st0, ?calls, True) = Some (st1, calls1, first1)"
      and 2: "init_starts params ans (is_scheduler_ids st1) (rev [0..<is_core_count st1]) = Some starts"
      and 3: "calls = calls1 @ starts @ rest" "is_main_sched_id st' = is_main_sched_id st1" "is_scheduler_ids st' = is_scheduler_ids st1" "is_core_count st' = is_core_count st1"
    unfolding prs_init_def Let_def n st0_def
    by (auto simp: Option.bind_eq_Some_conv split: if_splits prod.splits)
  note t = init_cores_trace [OF 1 assms(4), folded n_def, unfolded st0_def, simplified]
  have cores: "cores = filter (core_enabled params) [0..<n]" using assms(2) by (simp add: n_def)
  have "starts = map (SchedStart \<circ> is_scheduler_ids st1) (rev cores)" using init_starts_trace [OF 2] t by (simp add: cores rev_filter)
  moreover have "map (SchedStart \<circ> is_scheduler_ids st1) (rev cores) = map (SchedStart \<circ> ids) (rev cores)" using t by (simp add: cores assms(3))
  ultimately have "calls = ?calls @ boot_cores (ip_use_current_thread params) tid ids True cores @ map (SchedStart \<circ> ids) (rev cores) @ rest"
    using t 3(1) by (simp add: cores assms(3))
  moreover have "last (map (SchedStart \<circ> ids) (rev cores)) = SchedStart (ids (hd cores))" if "cores \<noteq> []" using that by (simp add: last_map last_rev)
  ultimately show ?thesis using t 3(2-4) by (intro exI [of _ rest]) (auto simp: cores assms(3) PRS_OBJECT_ID_INVALID_def)
qed

definition boot_params_example :: prs_init_params where
  "boot_params_example = \<lparr>ip_use_current_thread = True, ip_core_mask = 6\<rparr>"

definition boot_answers_example :: init_answers where
  "boot_answers_example = \<lparr>ia_god = PRS_OK, ia_thread = \<lambda>_. True, ia_sched = \<lambda>i. (PRS_OK, word_of_nat (10 + i)), ia_add_thread = \<lambda>_. PRS_OK,
     ia_task = Some 30, ia_add_task = PRS_OK, ia_start = \<lambda>_. PRS_OK\<rparr>"

definition boot_static_example :: init_static where
  "boot_static_example = \<lparr>is_core_count = 0, is_scheduler_ids = \<lambda>_. 0, is_uninit = False, is_main_sched_id = 0, is_main_exit = False, is_exit_status = 0\<rparr>"

lemma boot_example:
  "\<exists>st' calls. prs_init boot_params_example boot_answers_example 3 True boot_static_example = Some (st', calls, InitExit 0)"
  by (simp add: prs_init_def init_core_def Let_def core_enabled_def boot_params_example_def boot_answers_example_def boot_static_example_def PRS_MAX_CPU_def
      upt_rec)

theorem init_boot_order_witness:
  "\<exists>st' calls rest. prs_init boot_params_example boot_answers_example 3 True boot_static_example = Some (st', calls, InitExit 0)
     \<and> calls = [OsInit, WlsInit, GodCreate PRS_MAX_OBJECTS, GpdInit, LogInit, ExcpInit, ClockInit True, ThreadCreate 1 True, SchedCreate ''swprio1'', SchedAddThread 11 1,
         TaskCreate ''init1'', SchedAddTask 11 30, ThreadCreate 2 False, SchedCreate ''swprio2'', SchedAddThread 12 2, SchedStart 12, SchedStart 11] @ rest"
proof -
  obtain st' calls where p: "prs_init boot_params_example boot_answers_example 3 True boot_static_example = Some (st', calls, InitExit 0)"
    using boot_example by blast
  have c: "[1, 2] = filter (core_enabled boot_params_example) [0..<min 3 PRS_MAX_CPU]"
    by (simp add: PRS_MAX_CPU_def upt_rec core_enabled_def boot_params_example_def)
  have d: "decimal 1 = ''1''" "decimal 2 = ''2''" by code_simp+
  from init_boot_order [OF p c refl refl] obtain rest where "calls = [OsInit, WlsInit, GodCreate PRS_MAX_OBJECTS, GpdInit, LogInit, ExcpInit, ClockInit (ip_use_current_thread boot_params_example)]
      @ boot_cores (ip_use_current_thread boot_params_example) (the (ia_task boot_answers_example)) (sched_of boot_answers_example) True [1, 2]
      @ map (SchedStart \<circ> sched_of boot_answers_example) (rev [1, 2]) @ rest" by blast
  then show ?thesis
    using p d by (auto simp: boot_core_def sched_of_def boot_params_example_def boot_answers_example_def)
qed

text \<open>C40: An exit that is asked for on another thread than the one that started the system, when the start uses the current thread, stops the clock, tells the main
  thread to end its scheduler and waits; the status that it was given is stored nowhere, and the main thread exits with the one that was there at the start.\<close>

theorem exit_status_lost:
  assumes "\<not> is_uninit st" and "is_main_sched_id st \<notin> {PRS_OBJECT_ID_INVALID, current_sched_id}"
    and "prs_init params ans core_count True st0 = Some (st', calls, e)" and "ip_use_current_thread params"
  shows "(\<exists>st1. prs_exit worker current_sched_id status st = (st1, [ClockUninit, SchedDestroy (is_main_sched_id st), IntEnable], InitForever)
      \<and> is_main_exit st1 \<and> is_exit_status st1 = is_exit_status st) \<and> e = InitExit (is_exit_status st0)"
proof
  show "\<exists>st1. prs_exit worker current_sched_id status st = (st1, [ClockUninit, SchedDestroy (is_main_sched_id st), IntEnable], InitForever)
      \<and> is_main_exit st1 \<and> is_exit_status st1 = is_exit_status st"
    using assms(1,2) by (simp add: prs_exit_def init_exit_def prs_uninit_def atomic_exchange_def Let_def)
  define n where "n = (if core_count \<ge> PRS_MAX_CPU then PRS_MAX_CPU else core_count)"
  from assms(3,4) obtain st1 calls1 first1 where 1: "init_cores params ans [0..<n] (st0\<lparr>is_main_sched_id := PRS_OBJECT_ID_INVALID, is_core_count := n\<rparr>,
        [OsInit, WlsInit, GodCreate PRS_MAX_OBJECTS, GpdInit, LogInit, ExcpInit, ClockInit (ip_use_current_thread params)], True) = Some (st1, calls1, first1)"
      and e: "e = InitExit (is_exit_status st1)"
    unfolding prs_init_def Let_def n_def [symmetric] by (auto simp: Option.bind_eq_Some_conv split: if_splits prod.splits)
  show "e = InitExit (is_exit_status st0)" using init_cores_trace [OF 1 refl] e by simp
qed

theorem exit_status_lost_witness:
  "\<exists>st1. prs_exit True 12 5 (boot_static_example\<lparr>is_main_sched_id := 11\<rparr>) = (st1, [ClockUninit, SchedDestroy 11, IntEnable], InitForever) \<and> is_main_exit st1
    \<and> is_exit_status st1 = 0"
proof -
  obtain st' calls where p: "prs_init boot_params_example boot_answers_example 3 True boot_static_example = Some (st', calls, InitExit 0)"
    using boot_example by blast
  from exit_status_lost [OF _ _ p, of "boot_static_example\<lparr>is_main_sched_id := 11\<rparr>" 12 True 5]
  show ?thesis by (simp add: boot_static_example_def boot_params_example_def PRS_OBJECT_ID_INVALID_def)
qed

text \<open>The search for a scheduler finds the one with the highest number, or none if there is none; the log service runs there. When the process service does
  not answer with a process, the first task ends the system or, with a main thread that is not its own, leaves that to it.\<close>

lemma find_last_sched_highest:
  "prs_find_last_sched f n = (case filter (\<lambda>i. f (''swprio'' @ decimal i) \<noteq> 0) (rev [0..<n]) of [] \<Rightarrow> 0 | i # _ \<Rightarrow> f (''swprio'' @ decimal i))"
  by (induction n) (auto simp: Let_def)

theorem init1_starts_services:
  assumes "find_task PRS_PROC_SVC_NAME \<noteq> 0" and "i < PRS_MAX_CPU" and "find_sched (''swprio'' @ decimal i) \<noteq> 0"
    and "\<forall>j < PRS_MAX_CPU. i < j \<longrightarrow> find_sched (''swprio'' @ decimal j) = 0"
  shows "\<exists>st' calls e. prs_init1_task find_sched find_task argv sched_id proc_id st = Some (st', calls, e)
    \<and> SvcLogInit (find_sched (''swprio'' @ decimal i)) (word_of_nat PRS_MAX_TASK_PRIO - 1) \<in> set calls
    \<and> (proc_id \<noteq> 0 \<longrightarrow> st' = st \<and> e = InitReturn 0)
    \<and> (proc_id = 0 \<and> \<not> is_uninit st \<longrightarrow> e = (if is_main_sched_id st \<in> {PRS_OBJECT_ID_INVALID, sched_id} then InitExit (-1) else InitForever))"
proof -
  have "[0..<PRS_MAX_CPU] = [0..<i] @ i # [Suc i..<PRS_MAX_CPU]"
    using assms(2) upt_add_eq_append [of 0 i "PRS_MAX_CPU - i"] upt_conv_Cons [of i PRS_MAX_CPU] by simp
  then have "prs_find_last_sched find_sched PRS_MAX_CPU = find_sched (''swprio'' @ decimal i)"
    using assms(3,4) by (auto simp: find_last_sched_highest filter_empty_conv [THEN iffD2] split: list.splits)
  then show ?thesis
    using assms(1)
    by (auto simp: prs_init1_task_def prs_exit_def init_exit_def prs_uninit_def prs_fast_exit_def atomic_exchange_def Let_def split: prod.splits)
qed

text \<open>Only the first of the calls that end the system tears it down, and it stops all schedulers but its own before it destroys the first.\<close>

theorem uninit_once_in_order:
  assumes "prs_uninit from_excp worker sid st = (st1, calls1, e1)" and "prs_uninit from_excp' worker' sid' st1 = (st2, calls2, e2)"
    and "ss = filter (\<lambda>i. i \<noteq> PRS_OBJECT_ID_INVALID \<and> i \<noteq> sid) (map (is_scheduler_ids st) (rev [0..<is_core_count st]))"
  shows "is_uninit st1 \<and> set calls2 \<subseteq> {LogFlush, IntEnable}
    \<and> (\<not> is_uninit st \<and> (from_excp \<or> is_main_sched_id st \<in> {PRS_OBJECT_ID_INVALID, sid}) \<longrightarrow>
        calls1 = ClockUninit # map SchedStop ss @ map SchedDestroy ss @ [LogFlush])"
proof -
  have "is_uninit st1" using assms(1) by (auto simp: prs_uninit_def atomic_exchange_def Let_def split: if_splits)
  moreover from this have "set calls2 \<subseteq> {LogFlush, IntEnable}" using assms(2) by (auto simp: prs_uninit_def atomic_exchange_def Let_def split: if_splits)
  moreover have "calls1 = ClockUninit # map SchedStop ss @ map SchedDestroy ss @ [LogFlush]"
    if "\<not> is_uninit st \<and> (from_excp \<or> is_main_sched_id st \<in> {PRS_OBJECT_ID_INVALID, sid})"
    using assms(1) that unfolding assms(3)
    by (auto simp: prs_uninit_def atomic_exchange_def Let_def prs_uninit_final_def init_uninit_calls_def filter_map comp_def split: if_splits)
  ultimately show ?thesis by blast
qed

end
