(* ===== verification/Api.thy ===== *)
theory Api
  imports Boot Sem Msgq Excp
begin

unbundle bit_operations_syntax

text \<open>
  The interface for processes, \<^verbatim>\<open>prs/pr.c\<close>. Every call runs with the interrupts of the current worker off, and turns them
  on again if they were on; objects are named by their IDs and locked while they are used. A state is the worker of
  the current thread, if it has one, and the state of the component that the call is about. Turning the interrupts on may
  call the scheduler: \<open>calls\<close> are the effects of these calls on the worker, as in the theory of the worker. A call that blocks goes
  through \<open>rest\<close>, which is what happens until its task runs again. \<open>None\<close> is a fatal outcome, or no return.
\<close>

section \<open>Interrupts\<close>

type_synonym 's api_state = "prs_worker option \<times> 's"
type_synonym sched_calls = "(prs_worker \<Rightarrow> prs_worker) list"

definition PR_INT_DISABLE :: "prs_worker option \<Rightarrow> prs_worker option \<times> bool" where
  "PR_INT_DISABLE worker = (case worker of None \<Rightarrow> (None, False) | Some w \<Rightarrow> apfst Some (prs_worker_int_disable w))"

definition PR_INT_ENABLE :: "sched_calls \<Rightarrow> prs_worker option \<Rightarrow> bool \<Rightarrow> prs_worker option option" where
  "PR_INT_ENABLE calls worker int_disabled =
     (if int_disabled then (case worker of None \<Rightarrow> None | Some w \<Rightarrow> map_option Some (prs_worker_int_enable calls w)) else Some worker)"

definition pr_bracket :: "sched_calls \<Rightarrow> ('s api_state \<Rightarrow> ('s api_state \<times> 'r) option) \<Rightarrow> 's api_state \<Rightarrow> ('s api_state \<times> 'r) option" where
  "pr_bracket calls body s =
     (let (worker, int_disabled) = PR_INT_DISABLE (fst s)
      in Option.bind (body (worker, snd s)) (\<lambda>((worker, t), r). map_option (\<lambda>worker. ((worker, t), r)) (PR_INT_ENABLE calls worker int_disabled)))"

text \<open>A body that leaves the worker alone.\<close>

definition pr_plain :: "('s \<Rightarrow> ('s \<times> 'r) option) \<Rightarrow> 's api_state \<Rightarrow> ('s api_state \<times> 'r) option" where
  "pr_plain f s = map_option (\<lambda>(t, r). ((fst s, t), r)) (f (snd s))"

definition pr_get_current_worker :: "'s api_state \<Rightarrow> prs_worker option" where
  "pr_get_current_worker s = fst s"

definition pr_get_current_task :: "'s api_state \<Rightarrow> ptr option" where
  "pr_get_current_task s =
     (case fst s of
        None \<Rightarrow> None
      | Some worker \<Rightarrow> (let task = prs_worker_get_current_task worker in if task = 0 then None else Some task))"

definition pr_int_disable :: "'s api_state \<Rightarrow> ('s api_state \<times> bool) option" where
  "pr_int_disable s =
     map_option (\<lambda>w. let (w, r) = prs_worker_int_disable w in ((Some w, snd s), r)) (pr_get_current_worker s)"

definition pr_int_enable :: "sched_calls \<Rightarrow> 's api_state \<Rightarrow> 's api_state option" where
  "pr_int_enable calls s =
     Option.bind (pr_get_current_worker s) (\<lambda>w. map_option (\<lambda>w. (Some w, snd s)) (prs_worker_int_enable calls w))"

definition pr_ticks_get :: "clock_state \<Rightarrow> prs_ticks_t" where
  "pr_ticks_get clock = prs_clock_get clock"

definition pr_ticks_per_second :: prs_ticks_t where
  "pr_ticks_per_second = word_of_nat PRS_HZ"

section \<open>Memory\<close>

text \<open>The answer of the allocator, and the pointers that are given to it.\<close>

definition pr_malloc :: "sched_calls \<Rightarrow> ptr option \<Rightarrow> 's api_state \<Rightarrow> ('s api_state \<times> ptr option) option" where
  "pr_malloc calls memory = pr_bracket calls (pr_plain (\<lambda>t. Some (t, memory)))"

definition pr_free :: "sched_calls \<Rightarrow> ptr \<Rightarrow> 's api_state \<Rightarrow> ('s api_state \<times> ptr list) option" where
  "pr_free calls p = pr_bracket calls (pr_plain (\<lambda>t. Some (t, [p])))"

definition pr_malloc_global :: "sched_calls \<Rightarrow> ptr option \<Rightarrow> 's api_state \<Rightarrow> ('s api_state \<times> ptr option) option" where
  "pr_malloc_global calls memory = pr_malloc calls memory"

definition pr_free_global :: "sched_calls \<Rightarrow> ptr \<Rightarrow> 's api_state \<Rightarrow> ('s api_state \<times> ptr list) option" where
  "pr_free_global calls p = pr_free calls p"

text \<open>\<open>fmt\<close> is the text that the caller's format produces, and \<open>None\<close> inside when it does not fit.\<close>

definition pr_log :: "sched_calls \<Rightarrow> prs_ticks_t \<Rightarrow> string option \<Rightarrow> prs_log api_state \<Rightarrow> (prs_log api_state \<times> unit) option" where
  "pr_log calls clock fmt = pr_bracket calls (pr_plain (\<lambda>log. map_option (\<lambda>log. (log, ())) (prs_log_vprint clock None (Some fmt) log)))"

section \<open>Tasks and schedulers\<close>

definition pr_sched_get_current :: "'s life_state api_state \<Rightarrow> prs_object_id_t option" where
  "pr_sched_get_current s = map_option (\<lambda>task. task_sched_id (sm_tasks (snd (snd s)) task)) (pr_get_current_task s)"

definition pr_sched_find :: "'s life_ops \<Rightarrow> sched_calls \<Rightarrow> string \<Rightarrow> 's life_state api_state \<Rightarrow> ('s life_state api_state \<times> prs_object_id_t) option" where
  "pr_sched_find ops_of calls name = pr_bracket calls (pr_plain (\<lambda>t. prs_sched_find ops_of t name))"

definition pr_task_get_current :: "'s life_state api_state \<Rightarrow> prs_object_id_t option" where
  "pr_task_get_current s =
     map_option (\<lambda>worker. task_id (sm_tasks (snd (snd s)) (prs_worker_get_current_task worker))) (pr_get_current_worker s)"

text \<open>An object that is locked while it is used; \<open>none\<close> is the result for an ID that cannot be locked.\<close>

definition pr_locked :: "'w god_ops \<Rightarrow> prs_object_id_t \<Rightarrow> 'r \<Rightarrow> (ptr \<Rightarrow> 'w god_world api_state \<Rightarrow> ('w god_world api_state \<times> 'r) option)
    \<Rightarrow> 'w god_world api_state \<Rightarrow> ('w god_world api_state \<times> 'r) option" where
  "pr_locked ops_of oid none use s =
     (let (god, obj) = prs_god_lock (fst (snd s)) oid;
          s = (fst s, god, snd (snd s))
      in if obj = 0 then Some (s, none)
         else map_option (\<lambda>((worker, t), r). ((worker, prs_god_unlock ops_of t oid), r)) (use obj s))"

definition pr_task_get_prio ::
  "'s life_ops \<Rightarrow> sched_calls \<Rightarrow> prs_object_id_t \<Rightarrow> 's life_state api_state \<Rightarrow> ('s life_state api_state \<times> prs_result \<times> prs_task_prio_t option) option" where
  "pr_task_get_prio ops_of calls tid =
     pr_bracket calls (pr_locked ops_of tid (PRS_NOT_FOUND, None)
       (\<lambda>task s. Some (s, PRS_OK, Some (prs_task_get_prio (sm_tasks (snd (snd s)) task)))))"

definition pr_task_set_prio ::
  "'s life_ops \<Rightarrow> sched_calls \<Rightarrow> prs_object_id_t \<Rightarrow> prs_task_prio_t \<Rightarrow> 's life_state api_state \<Rightarrow> ('s life_state api_state \<times> prs_result) option" where
  "pr_task_set_prio ops_of calls tid prio =
     pr_bracket calls (pr_locked ops_of tid PRS_NOT_FOUND
       (\<lambda>task s. case fst s of
            None \<Rightarrow> None
          | Some w \<Rightarrow>
              (let (t, signal) = prs_task_set_prio (sm_tasks (snd (snd s)) task) prio (prs_worker_get_current_task w = task);
                   w = (if signal then fst (prs_worker_signal w PRS_OK PRS_OK) else w)
               in Some ((Some w, sched_set_task task t (snd s)), PRS_OK))))"

definition pr_task_get_stack_size ::
  "'s life_ops \<Rightarrow> sched_calls \<Rightarrow> prs_object_id_t \<Rightarrow> 's life_state api_state \<Rightarrow> ('s life_state api_state \<times> u64) option" where
  "pr_task_get_stack_size ops_of calls tid =
     pr_bracket calls (pr_locked ops_of tid 0 (\<lambda>task s. Some (s, task_stack_size (sm_tasks (snd (snd s)) task))))"

record pr_task_create_params =
  ptp_name :: string
  ptp_userdata :: ptr
  ptp_stack_size :: u64
  ptp_prio :: prs_task_prio_t
  ptp_entry :: ptr
  ptp_sched_id :: prs_object_id_t

text \<open>The result of \<^verbatim>\<open>prs_sched_add_task\<close> is not looked at.\<close>

definition pr_task_create ::
  "'s life_ops \<Rightarrow> (ptr \<Rightarrow> 's prs_sched_ops) \<Rightarrow> ptr \<Rightarrow> sched_calls \<Rightarrow> pr_task_create_params \<Rightarrow> task_answers
    \<Rightarrow> 's life_state api_state \<Rightarrow> ('s life_state api_state \<times> prs_object_id_t) option" where
  "pr_task_create ops_of impl ops calls params ans =
     pr_bracket calls (\<lambda>s.
       let current = (case fst s of None \<Rightarrow> 0 | Some w \<Rightarrow> prs_worker_get_current_task w);
           task_params = \<lparr>tcp_name = ptp_name params, tcp_userdata = ptp_userdata params, tcp_stack_size = ptp_stack_size params,
                          tcp_prio = ptp_prio params, tcp_entry = ptp_entry params\<rparr>
       in map_option (\<lambda>(t, task).
              if task = 0 then ((fst s, t), PRS_OBJECT_ID_INVALID)
              else (let oid = task_id (sm_tasks (snd t) task); (t, _) = prs_sched_add_task ops_of impl t (ptp_sched_id params) oid
                    in ((fst s, t), oid)))
            (prs_task_create ops_of ops (snd s) current task_params ans))"

definition pr_task_find :: "'s life_ops \<Rightarrow> sched_calls \<Rightarrow> string \<Rightarrow> 's life_state api_state \<Rightarrow> ('s life_state api_state \<times> prs_object_id_t) option" where
  "pr_task_find ops_of calls name = pr_bracket calls (pr_plain (\<lambda>t. prs_task_find ops_of t name))"

definition pr_yield ::
  "'s life_ops \<Rightarrow> (ptr \<Rightarrow> 's prs_sched_ops) \<Rightarrow> sched_calls \<Rightarrow> ('s life_state api_state \<Rightarrow> 's life_state api_state option)
    \<Rightarrow> 's life_state api_state \<Rightarrow> ('s life_state api_state \<times> unit) option" where
  "pr_yield ops_of impl calls rest =
     pr_bracket calls (\<lambda>s. Option.bind (pr_get_current_task s) (\<lambda>task.
       Option.bind (prs_sched_yield ops_of impl (snd s) task) (\<lambda>t. map_option (\<lambda>s. (s, ())) (rest (fst s, t)))))"

definition pr_stop ::
  "sched_calls \<Rightarrow> ('s life_state api_state \<Rightarrow> 's life_state api_state option) \<Rightarrow> 's life_state api_state \<Rightarrow> ('s life_state api_state \<times> unit) option" where
  "pr_stop calls rest =
     pr_bracket calls (\<lambda>s. Option.bind (pr_get_current_task s) (\<lambda>task. map_option (\<lambda>s. (s, ())) (rest (fst s, prs_sched_block (snd s) task))))"

text \<open>The state has the timer of the clock beside the schedulers; the result is the event of the sleep.\<close>

definition pr_sleep_ticks ::
  "sched_calls \<Rightarrow> (('s life_state \<times> prs_timer) api_state \<Rightarrow> ('s life_state \<times> prs_timer) api_state option) \<Rightarrow> prs_ticks_t \<Rightarrow> ptr option \<Rightarrow> prs_ticks_t
    \<Rightarrow> ('s life_state \<times> prs_timer) api_state \<Rightarrow> (('s life_state \<times> prs_timer) api_state \<times> prs_event) option" where
  "pr_sleep_ticks calls rest clock memory ticks =
     pr_bracket calls (\<lambda>(worker, t, timer). Option.bind (pr_get_current_task (worker, t, timer)) (\<lambda>task.
       Option.bind (prs_sched_sleep t timer clock task ticks memory) (\<lambda>(t, event, timer, eid).
         map_option (\<lambda>(worker, t, timer). ((worker, t, sched_sleep_resume timer eid), event)) (rest (worker, t, timer)))))"

definition pr_sleep_ms ::
  "sched_calls \<Rightarrow> (('s life_state \<times> prs_timer) api_state \<Rightarrow> ('s life_state \<times> prs_timer) api_state option) \<Rightarrow> prs_ticks_t \<Rightarrow> ptr option \<Rightarrow> 32 word
    \<Rightarrow> ('s life_state \<times> prs_timer) api_state \<Rightarrow> (('s life_state \<times> prs_timer) api_state \<times> prs_event) option" where
  "pr_sleep_ms calls rest clock memory ms = pr_sleep_ticks calls rest clock memory (PRS_TICKS_FROM_MS ms)"

definition pr_sleep_us ::
  "sched_calls \<Rightarrow> (('s life_state \<times> prs_timer) api_state \<Rightarrow> ('s life_state \<times> prs_timer) api_state option) \<Rightarrow> prs_ticks_t \<Rightarrow> ptr option \<Rightarrow> 32 word
    \<Rightarrow> ('s life_state \<times> prs_timer) api_state \<Rightarrow> (('s life_state \<times> prs_timer) api_state \<times> prs_event) option" where
  "pr_sleep_us calls rest clock memory us = pr_sleep_ticks calls rest clock memory (PRS_TICKS_FROM_US us)"

section \<open>Errors\<close>

datatype pr_error_type = PR_ERROR_TYPE_CONTINUE | PR_ERROR_TYPE_KILL_TASK | PR_ERROR_TYPE_FATAL

fun pr_error_behavior :: "pr_error_type \<Rightarrow> prs_error_type" where
  "pr_error_behavior PR_ERROR_TYPE_CONTINUE = PRS_ERROR_TYPE_CONTINUE"
| "pr_error_behavior PR_ERROR_TYPE_KILL_TASK = PRS_ERROR_TYPE_KILL_TASK"
| "pr_error_behavior PR_ERROR_TYPE_FATAL = PRS_ERROR_TYPE_FATAL"

text \<open>The default branch of the source is for numbers that are none of the three. \<open>current_worker\<close> is the address of the worker, and \<open>info\<close> that of the record that describes the error.\<close>

definition pr_error ::
  "u64 \<Rightarrow> bool \<Rightarrow> (ptr \<Rightarrow> prs_excp_handler_t) \<Rightarrow> mq_state option \<Rightarrow> (ptr \<Rightarrow> ptr) \<Rightarrow> sched_calls \<Rightarrow> ptr \<Rightarrow> ptr \<Rightarrow> pr_error_type \<Rightarrow> string \<Rightarrow> string \<Rightarrow> int
    \<Rightarrow> excp_world api_state \<Rightarrow> (excp_world api_state \<times> unit) option" where
  "pr_error page_size commit_fails handler_of s_prs_excp task_of calls current_worker info error expr file line =
     pr_bracket calls (pr_plain (\<lambda>w. map_option (\<lambda>w. (w, ()))
       (prs_error page_size commit_fails handler_of s_prs_excp task_of current_worker info (pr_error_behavior error) expr file line w)))"

section \<open>Processes\<close>

text \<open>The request to the process service, the wait for its response, and the destruction of the task, which is not expected to be reached.\<close>

definition pr_exit ::
  "'s life_ops \<Rightarrow> (ptr \<Rightarrow> 's prs_sched_ops) \<Rightarrow> sched_calls \<Rightarrow> ('s life_state api_state \<Rightarrow> 's life_state api_state option)
    \<Rightarrow> 's life_state api_state \<Rightarrow> ('s life_state api_state \<times> unit) option" where
  "pr_exit ops_of impl calls rest =
     pr_bracket calls (\<lambda>s. Option.bind (pr_get_current_task s) (\<lambda>task.
       Option.bind (prs_task_find ops_of (snd s) PRS_PROC_SVC_NAME) (\<lambda>(t, proc_task_id).
         let t = (if proc_task_id = PRS_OBJECT_ID_INVALID then t else life_send proc_task_id (KillRequest (task_proc_id (sm_tasks (snd t) task)) True) t)
         in Option.bind (rest (fst s, t)) (\<lambda>s. map_option (\<lambda>t. ((fst s, t), ())) (prs_task_destroy ops_of impl (snd s) task task)))))"

text \<open>The result is always -1.\<close>

definition pr_atexit ::
  "'s life_ops \<Rightarrow> sched_calls \<Rightarrow> ptr \<Rightarrow> ptr option \<Rightarrow> 's life_state api_state \<Rightarrow> ('s life_state api_state \<times> int) option" where
  "pr_atexit ops_of calls func memory =
     pr_bracket calls (\<lambda>s. Option.bind (pr_get_current_task s) (\<lambda>task.
       pr_locked ops_of (task_proc_id (sm_tasks (snd (snd s)) task)) (- 1)
         (\<lambda>proc s. Some ((fst s, prs_proc_atexit (snd s) proc func memory), - 1)) s))"

text \<open>The exit of the system does not return; \<open>current_sched_id\<close> is the scheduler of the current task.\<close>

definition pr_system_exit :: "prs_object_id_t \<Rightarrow> int \<Rightarrow> init_static api_state \<Rightarrow> init_static \<times> init_call list \<times> init_end" where
  "pr_system_exit current_sched_id status s =
     (let (worker, _) = PR_INT_DISABLE (fst s) in prs_exit (worker \<noteq> None) current_sched_id status (snd s))"

definition pr_systeminfo_get :: "sched_calls \<Rightarrow> os_info \<Rightarrow> prs_systeminfo option api_state \<Rightarrow> (prs_systeminfo option api_state \<times> prs_systeminfo) option" where
  "pr_systeminfo_get calls info =
     pr_bracket calls (pr_plain (\<lambda>s. let systeminfo = prs_systeminfo_get info s in Some (Some systeminfo, systeminfo)))"

section \<open>Semaphores\<close>

text \<open>The system is that of the semaphore with the ID, with the timer of the clock.\<close>

type_synonym sem_state = "sem_system \<times> prs_timer"

definition pr_sem_locked :: "task_world god_ops \<Rightarrow> prs_object_id_t \<Rightarrow> 'r \<Rightarrow> (sem_state api_state \<Rightarrow> (sem_state api_state \<times> 'r) option)
    \<Rightarrow> sem_state api_state \<Rightarrow> (sem_state api_state \<times> 'r) option" where
  "pr_sem_locked ops_of oid none use s =
     (let (worker, sys, timer) = s;
          (god, obj) = prs_god_lock (fst (ss_dir sys)) oid;
          s = (worker, sys\<lparr>ss_dir := (god, snd (ss_dir sys))\<rparr>, timer)
      in if obj = 0 then Some (s, none)
         else map_option (\<lambda>((worker, sys, timer), r). ((worker, sys\<lparr>ss_dir := prs_god_unlock ops_of (ss_dir sys) oid\<rparr>, timer), r)) (use s))"

record pr_sem_create_params =
  psp_max_count :: u64
  psp_initial_count :: u64

text \<open>The result is the semaphore with its ID. A missing semaphore is dereferenced.\<close>

definition pr_sem_create ::
  "ptr \<Rightarrow> sched_calls \<Rightarrow> pr_sem_create_params \<Rightarrow> ptr option \<Rightarrow> ptr option \<Rightarrow> prs_god api_state
    \<Rightarrow> (prs_god api_state \<times> prs_sem \<times> prs_object_id_t) option" where
  "pr_sem_create ops calls params memory waitq_memory =
     pr_bracket calls (\<lambda>(worker, god).
       let (god, sem, _) = prs_sem_create god ops \<lparr>sp_max_count = psp_max_count params, sp_initial_count = psp_initial_count params\<rparr> memory waitq_memory
       in map_option (\<lambda>sem. ((worker, god), sem, sem_id sem)) sem)"

definition pr_sem_destroy :: "task_world god_ops \<Rightarrow> sched_calls \<Rightarrow> prs_object_id_t \<Rightarrow> sem_state api_state \<Rightarrow> (sem_state api_state \<times> unit) option" where
  "pr_sem_destroy ops_of calls oid =
     pr_bracket calls (pr_sem_locked ops_of oid ()
       (\<lambda>(worker, sys, timer). Some ((worker, sys\<lparr>ss_dir := prs_sem_destroy ops_of (ss_dir sys) (ss_sem sys)\<rparr>, timer), ())))"

definition pr_sem_wait ::
  "task_world god_ops \<Rightarrow> sched_calls \<Rightarrow> (sem_state api_state \<Rightarrow> sem_state api_state option) \<Rightarrow> prs_object_id_t \<Rightarrow> ptr option \<Rightarrow> bool
    \<Rightarrow> sem_state api_state \<Rightarrow> (sem_state api_state \<times> unit) option" where
  "pr_sem_wait ops_of calls rest oid memory push_ok =
     pr_bracket calls (pr_sem_locked ops_of oid ()
       (\<lambda>(worker, sys, timer).
          case prs_sem_wait ops_of sys memory push_ok of
            (sys, SemReturn _, _) \<Rightarrow> Some ((worker, sys, timer), ())
          | (sys, SemSchedule _, _) \<Rightarrow> map_option (\<lambda>s. (s, ())) (rest (worker, sys, timer))
          | _ \<Rightarrow> None))"

definition pr_sem_wait_timeout ::
  "task_world god_ops \<Rightarrow> sched_calls \<Rightarrow> (sem_state api_state \<Rightarrow> sem_state api_state option) \<Rightarrow> prs_object_id_t \<Rightarrow> prs_ticks_t \<Rightarrow> prs_ticks_t \<Rightarrow> ptr option
    \<Rightarrow> bool \<Rightarrow> sem_state api_state \<Rightarrow> (sem_state api_state \<times> prs_result) option" where
  "pr_sem_wait_timeout ops_of calls rest oid timeout clock memory push_ok =
     pr_bracket calls (pr_sem_locked ops_of oid PRS_NOT_FOUND
       (\<lambda>(worker, sys, timer).
          let task = tw_current (snd (ss_dir sys))
          in case prs_sem_wait_timeout ops_of sys timer clock memory push_ok timeout of
               (sys, timer, SemReturn r, _) \<Rightarrow> Some ((worker, sys, timer), r)
             | (sys, timer, SemSchedule (Some entry_id), _) \<Rightarrow>
                 map_option (\<lambda>(worker, sys, timer). let (timer, r) = sem_wait_timeout_resume sys timer task entry_id in ((worker, sys, timer), r))
                   (rest (worker, sys, timer))
             | _ \<Rightarrow> None))"

definition pr_sem_signal :: "task_world god_ops \<Rightarrow> sched_calls \<Rightarrow> prs_object_id_t \<Rightarrow> sem_state api_state \<Rightarrow> (sem_state api_state \<times> ptr list) option" where
  "pr_sem_signal ops_of calls oid =
     pr_bracket calls (pr_sem_locked ops_of oid []
       (\<lambda>(worker, sys, timer). let (sys, freed) = prs_sem_signal ops_of sys in Some ((worker, sys, timer), freed)))"

section \<open>Messages\<close>

text \<open>Integers of 32 bits in memory. A message has its node, its owner, its sender and its data.\<close>

definition mem_u32 :: "(ptr \<Rightarrow> u8) \<Rightarrow> ptr \<Rightarrow> u32" where
  "mem_u32 mem a = ucast (mem a) OR push_bit 8 (ucast (mem (a + 1))) OR push_bit 16 (ucast (mem (a + 2))) OR push_bit 24 (ucast (mem (a + 3)))"

definition set_mem_u32 :: "(ptr \<Rightarrow> u8) \<Rightarrow> ptr \<Rightarrow> u32 \<Rightarrow> ptr \<Rightarrow> u8" where
  "set_mem_u32 mem a v = mem(a := ucast v, a + 1 := ucast (drop_bit 8 v), a + 2 := ucast (drop_bit 16 v), a + 3 := ucast (drop_bit 24 v))"

definition msg_owner_offset :: u64 where "msg_owner_offset = 16"
definition msg_sender_offset :: u64 where "msg_sender_offset = 20"

definition PRS_MSG_OVERHEAD :: u64 where
  "PRS_MSG_OVERHEAD = 24"

definition PRS_MSG_FROM_DATA :: "ptr \<Rightarrow> ptr" where
  "PRS_MSG_FROM_DATA data = data - PRS_MSG_OVERHEAD"

definition PR_ID_CLASS :: "u32 \<Rightarrow> u32" where
  "PR_ID_CLASS class = push_bit 24 class"

definition PR_ID_SVC :: "u32 \<Rightarrow> u32" where
  "PR_ID_SVC svc = push_bit 16 svc"

definition PR_ID_CREATE :: "u32 \<Rightarrow> u32 \<Rightarrow> u32 \<Rightarrow> u32" where
  "PR_ID_CREATE class svc i = PR_ID_CLASS class OR PR_ID_SVC svc OR i"

type_synonym msg_state = "msgq_system \<times> prs_timer"

definition msg_current :: "msg_state api_state \<Rightarrow> prs_object_id_t option" where
  "msg_current s = map_option (\<lambda>task. task_id (tw_tasks (snd (ms_dir (fst (snd s)))) task)) (pr_get_current_task s)"

definition pr_msg_alloc :: "sched_calls \<Rightarrow> u32 \<Rightarrow> ptr option \<Rightarrow> msg_state api_state \<Rightarrow> (msg_state api_state \<times> ptr) option" where
  "pr_msg_alloc calls msg_id memory s =
     Option.bind (msg_current s) (\<lambda>task_id.
       pr_bracket calls (\<lambda>s.
         Option.bind (pr_malloc_global calls memory s) (\<lambda>((worker, sys, timer), p).
           map_option (\<lambda>pmsg.
               let nodes = ms_nodes sys;
                   mem = set_mem_u32 (set_mem_u32 (set_mem_u32 (ms_mem sys) (pmsg + msg_owner_offset) task_id) (pmsg + msg_sender_offset) task_id)
                           (pmsg + PRS_MSG_OVERHEAD) msg_id
               in ((worker, sys\<lparr>ms_nodes := nodes\<lparr>iqn_next := (iqn_next nodes)(pmsg := 0), iqn_prev := (iqn_prev nodes)(pmsg := 0)\<rparr>, ms_mem := mem\<rparr>, timer),
                   pmsg + PRS_MSG_OVERHEAD))
             p)) s)"

definition pr_msg_free :: "sched_calls \<Rightarrow> ptr \<Rightarrow> 's api_state \<Rightarrow> ('s api_state \<times> ptr list) option" where
  "pr_msg_free calls msg = pr_bracket calls (pr_free_global calls (PRS_MSG_FROM_DATA msg))"

text \<open>The queue of the system is that of the task with the ID.\<close>

definition pr_msg_send ::
  "filter_fn \<Rightarrow> task_world god_ops \<Rightarrow> sched_calls \<Rightarrow> prs_object_id_t \<Rightarrow> ptr \<Rightarrow> msg_state api_state \<Rightarrow> (msg_state api_state \<times> ptr list) option" where
  "pr_msg_send fn ops_of calls tid msg =
     pr_bracket calls (\<lambda>(worker, sys, timer).
       let pmsg = PRS_MSG_FROM_DATA msg;
           (god, task) = prs_god_lock (fst (ms_dir sys)) tid;
           sys = sys\<lparr>ms_dir := (god, snd (ms_dir sys))\<rparr>
       in if task = 0 then pr_msg_free calls msg (worker, sys, timer)
          else
            map_option (\<lambda>current.
                let mem = set_mem_u32 (set_mem_u32 (ms_mem sys) (pmsg + msg_owner_offset) (task_id (tw_tasks (snd (ms_dir sys)) task)))
                            (pmsg + msg_sender_offset) current;
                    (sys, freed) = prs_msgq_send fn ops_of (sys\<lparr>ms_mem := mem\<rparr>) pmsg
                in ((worker, sys\<lparr>ms_dir := prs_god_unlock ops_of (ms_dir sys) tid\<rparr>, timer), freed))
              (msg_current (worker, sys, timer)))"

definition pr_msg_get_sender :: "msgq_system \<Rightarrow> ptr \<Rightarrow> prs_object_id_t" where
  "pr_msg_get_sender sys msg = mem_u32 (ms_mem sys) (PRS_MSG_FROM_DATA msg + msg_sender_offset)"

text \<open>The filter is an array: the number of message IDs, and the IDs. The calls below refuse more than 16.\<close>

fun pr_filter_loop :: "(ptr \<Rightarrow> u8) \<Rightarrow> ptr \<Rightarrow> u32 \<Rightarrow> u32 \<Rightarrow> nat \<Rightarrow> bool" where
  "pr_filter_loop mem filt msg_id i 0 = False"
| "pr_filter_loop mem filt msg_id i (Suc n) = (if mem_u32 mem (filt + ucast i * 4) = msg_id then True else pr_filter_loop mem filt msg_id (i + 1) n)"

definition pr_msgq_filter_function :: "(ptr \<Rightarrow> u8) \<Rightarrow> ptr \<Rightarrow> ptr \<Rightarrow> bool" where
  "pr_msgq_filter_function mem userdata msg =
     (let msg_id = mem_u32 mem (msg + PRS_MSG_OVERHEAD); count = mem_u32 mem userdata
      in pr_filter_loop mem userdata msg_id 1 (unat count))"

text \<open>The end of a receive operation; \<open>rest\<close> goes from a call of the scheduler to the message that the operation returns.\<close>

definition pr_recv_end ::
  "(msgq_end \<Rightarrow> msg_state api_state \<Rightarrow> (msg_state api_state \<times> ptr) option) \<Rightarrow> prs_worker option \<Rightarrow> msgq_system \<times> prs_timer \<times> msgq_end \<times> ptr list
    \<Rightarrow> (msg_state api_state \<times> ptr) option" where
  "pr_recv_end rest worker r =
     (case r of
        (sys, timer, MsgqReturn msg, _) \<Rightarrow> Some ((worker, sys, timer), msg)
      | (sys, timer, MsgqFatal, _) \<Rightarrow> None
      | (sys, timer, MsgqDiverge, _) \<Rightarrow> None
      | (sys, timer, e, _) \<Rightarrow> rest e (worker, sys, timer))"

text \<open>The results of the allocator for the filter, its user data and the event.\<close>

type_synonym recv_answers = "ptr option \<times> ptr option \<times> ptr option"

definition pr_msg_recv ::
  "filter_fn \<Rightarrow> task_world god_ops \<Rightarrow> sched_calls \<Rightarrow> (msgq_end \<Rightarrow> msg_state api_state \<Rightarrow> (msg_state api_state \<times> ptr) option) \<Rightarrow> prs_ticks_t \<Rightarrow> recv_answers
    \<Rightarrow> msg_state api_state \<Rightarrow> (msg_state api_state \<times> ptr) option" where
  "pr_msg_recv fn ops_of calls rest clock ans s =
     (case ans of (a, b, c) \<Rightarrow>
        Option.bind (pr_get_current_task s) (\<lambda>_.
          map_option (\<lambda>(s, pmsg). (s, pmsg + PRS_MSG_OVERHEAD))
            (pr_bracket calls (\<lambda>(worker, sys, timer). pr_recv_end rest worker (prs_msgq_recv fn ops_of sys timer clock a b c)) s)))"

text \<open>\<open>func\<close> is the address of the filter function. A null filter or one with more than 16 IDs kills the task.\<close>

definition pr_filter_refused :: "msgq_system \<Rightarrow> ptr \<Rightarrow> bool" where
  "pr_filter_refused sys filt \<longleftrightarrow> filt = 0 \<or> mem_u32 (ms_mem sys) filt > 16"

definition pr_filter_size :: "msgq_system \<Rightarrow> ptr \<Rightarrow> u64" where
  "pr_filter_size sys filt = ucast (mem_u32 (ms_mem sys) filt + 1) * 4"

definition pr_msg_recv_filter ::
  "ptr \<Rightarrow> task_world god_ops \<Rightarrow> sched_calls \<Rightarrow> (msgq_end \<Rightarrow> msg_state api_state \<Rightarrow> (msg_state api_state \<times> ptr) option) \<Rightarrow> prs_ticks_t \<Rightarrow> recv_answers
    \<Rightarrow> ptr \<Rightarrow> msg_state api_state \<Rightarrow> (msg_state api_state \<times> ptr) option" where
  "pr_msg_recv_filter func ops_of calls rest clock ans filt s =
     (case ans of (a, b, c) \<Rightarrow>
        if pr_filter_refused (fst (snd s)) filt then None
        else
          Option.bind (pr_get_current_task s) (\<lambda>_.
            map_option (\<lambda>(s, pmsg). (s, pmsg + PRS_MSG_OVERHEAD))
              (pr_bracket calls (\<lambda>(worker, sys, timer). pr_recv_end rest worker
                 (prs_msgq_recv_filter (\<lambda>_. pr_msgq_filter_function) ops_of sys timer clock a b c filt (pr_filter_size sys filt) func)) s)))"

definition pr_msg_recv_timeout ::
  "filter_fn \<Rightarrow> task_world god_ops \<Rightarrow> sched_calls \<Rightarrow> (msgq_end \<Rightarrow> msg_state api_state \<Rightarrow> (msg_state api_state \<times> ptr) option) \<Rightarrow> prs_ticks_t \<Rightarrow> recv_answers
    \<Rightarrow> prs_ticks_t \<Rightarrow> msg_state api_state \<Rightarrow> (msg_state api_state \<times> ptr) option" where
  "pr_msg_recv_timeout fn ops_of calls rest clock ans ticks s =
     (case ans of (a, b, c) \<Rightarrow>
        Option.bind (pr_get_current_task s) (\<lambda>_.
          pr_bracket calls (\<lambda>(worker, sys, timer).
            map_option (\<lambda>(s, pmsg). (s, if pmsg \<noteq> 0 then pmsg + PRS_MSG_OVERHEAD else 0))
              (pr_recv_end rest worker (prs_msgq_recv_timeout fn ops_of sys timer clock a b c ticks))) s))"

definition pr_msg_recv_filter_timeout ::
  "ptr \<Rightarrow> task_world god_ops \<Rightarrow> sched_calls \<Rightarrow> (msgq_end \<Rightarrow> msg_state api_state \<Rightarrow> (msg_state api_state \<times> ptr) option) \<Rightarrow> prs_ticks_t \<Rightarrow> recv_answers
    \<Rightarrow> ptr \<Rightarrow> prs_ticks_t \<Rightarrow> msg_state api_state \<Rightarrow> (msg_state api_state \<times> ptr) option" where
  "pr_msg_recv_filter_timeout func ops_of calls rest clock ans filt ticks s =
     (case ans of (a, b, c) \<Rightarrow>
        if pr_filter_refused (fst (snd s)) filt then None
        else
          Option.bind (pr_get_current_task s) (\<lambda>_.
            pr_bracket calls (\<lambda>(worker, sys, timer).
              map_option (\<lambda>(s, pmsg). (s, if pmsg \<noteq> 0 then pmsg + PRS_MSG_OVERHEAD else 0))
                (pr_recv_end rest worker
                   (prs_msgq_recv_filter_timeout (\<lambda>_. pr_msgq_filter_function) ops_of sys timer clock a b c filt (pr_filter_size sys filt) func ticks))) s))"

section \<open>The interrupts of a call\<close>

text \<open>What a call that leaves the worker alone makes of it.\<close>

definition pr_returns :: "sched_calls \<Rightarrow> prs_worker option \<Rightarrow> prs_worker option \<Rightarrow> bool" where
  "pr_returns calls worker worker' \<longleftrightarrow> (case PR_INT_DISABLE worker of (w, int_disabled) \<Rightarrow> PR_INT_ENABLE calls w int_disabled = Some worker')"

lemma pr_bracket_result:
  assumes "pr_returns calls worker worker'" and "body (fst (PR_INT_DISABLE worker), t) = Some ((fst (PR_INT_DISABLE worker), t'), r)"
  shows "pr_bracket calls body (worker, t) = Some ((worker', t'), r)"
  using assms by (auto simp: pr_returns_def pr_bracket_def split: prod.splits)

lemma worker_int_disable_eq:
  "prs_worker_int_disable w = (w\<lparr>wk_flags := wk_flags w AND NOT PRS_WORKER_FLAG_INTERRUPTIBLE\<rparr>, prs_worker_int_enabled w)"
  by (simp add: prs_worker_int_disable_def prs_worker_int_enabled_def atomic_fetch_and_def)

lemma worker_int_enable_on: "prs_worker_int_enable calls w = Some w' \<Longrightarrow> prs_worker_int_enabled w'"
proof (induction calls arbitrary: w)
  case (Cons schedule calls)
  then show ?case
    by (auto simp: prs_worker_int_enable_def worker_enable_def atomic_compare_exchange_def prs_worker_int_enabled_def worker_flag_defs split: if_splits)
qed (simp add: prs_worker_int_enable_def)

lemma pr_current_task_disabled:
  "pr_get_current_task (fst (PR_INT_DISABLE worker), t) = pr_get_current_task (worker, t')"
  by (cases worker) (simp_all add: pr_get_current_task_def PR_INT_DISABLE_def worker_int_disable_eq prs_worker_get_current_task_def)

text \<open>The interrupts are on after a call exactly when they were on before.\<close>

lemma pr_returns_restores:
  assumes "pr_returns calls worker worker'"
  shows "map_option prs_worker_int_enabled worker' = map_option prs_worker_int_enabled worker"
proof (cases worker)
  case None
  then show ?thesis using assms by (simp add: pr_returns_def PR_INT_DISABLE_def PR_INT_ENABLE_def)
next
  case (Some w)
  show ?thesis
  proof (cases "prs_worker_int_enabled w")
    case True
    then obtain w' where "prs_worker_int_enable calls (fst (prs_worker_int_disable w)) = Some w'" "worker' = Some w'"
      using assms Some by (auto simp: pr_returns_def PR_INT_DISABLE_def PR_INT_ENABLE_def worker_int_disable_eq)
    then show ?thesis using Some True worker_int_enable_on by simp
  next
    case False
    then have "wk_flags w AND NOT PRS_WORKER_FLAG_INTERRUPTIBLE = wk_flags w"
      by (auto simp: prs_worker_int_enabled_def bit_eq_iff bit_simps)
    then show ?thesis using assms Some False by (simp add: pr_returns_def PR_INT_DISABLE_def PR_INT_ENABLE_def worker_int_disable_eq)
  qed
qed

lemma pr_locked_live:
  assumes "god_wf god" and "god_view god oid = Some n" and "n < 4095" and "god_obj god oid = Some obj"
    and "\<And>g. use obj (worker, g, w) = Some ((worker, g, w'), r)"
  shows "pr_locked ops_of oid none use (worker, god, w) = Some ((worker, god, w'), r)"
proof -
  obtain g where "prs_god_lock god oid = (g, obj)" "obj \<noteq> 0" "\<forall>w. prs_god_unlock ops_of (g, w) oid = (god, w)"
    by (rule god_lock_view [OF assms(1-3), where ops_of = ops_of]) (simp add: assms(4))
  then show ?thesis using assms(5) by (simp add: pr_locked_def)
qed

lemma pr_locked_none:
  assumes "god_wf god" and "god_view god oid = None"
  shows "pr_locked ops_of oid none use (worker, god, w) = Some ((worker, god, w), none)"
  using god_lock_none [OF assms] by (simp add: pr_locked_def)

section \<open>Filters\<close>

lemma pr_filter_loop_iff:
  "pr_filter_loop mem filt msg_id i n \<longleftrightarrow> (\<exists>j < n. mem_u32 mem (filt + ucast (i + word_of_nat j) * 4) = msg_id)"
proof (induction n arbitrary: i)
  case (Suc n)
  have "(\<exists>j < Suc n. mem_u32 mem (filt + ucast (i + word_of_nat j) * 4) = msg_id) \<longleftrightarrow>
      mem_u32 mem (filt + ucast i * 4) = msg_id \<or> (\<exists>j < n. mem_u32 mem (filt + ucast (i + word_of_nat (Suc j)) * 4) = msg_id)"
    by (subst Ex_less_Suc2) simp
  then show ?case using Suc.IH [of "i + 1"] by (simp add: add.assoc)
qed simp

lemma filter_index: "j < 16 \<Longrightarrow> (ucast (1 + word_of_nat j :: u32) :: u64) * 4 = word_of_nat (4 * Suc j)"
proof -
  assume "j < 16"
  then have "j \<in> set [0 ..< 16]" by simp
  then show ?thesis by (auto simp: upt_rec)
qed

lemma pr_filter_function_ids:
  assumes "length ids \<le> 16" and "mem_u32 mem filt = word_of_nat (length ids)" and "\<forall>j < length ids. mem_u32 mem (filt + word_of_nat (4 * Suc j)) = ids ! j"
  shows "pr_msgq_filter_function mem filt msg \<longleftrightarrow> mem_u32 mem (msg + PRS_MSG_OVERHEAD) \<in> set ids"
proof -
  have n: "unat (word_of_nat (length ids) :: u32) = length ids" using assms(1) by (simp only: unat_of_nat) simp
  have "mem_u32 mem (filt + ucast (1 + word_of_nat j :: u32) * 4) = ids ! j" if "j < length ids" for j
    using filter_index [of j] assms(1,3) that by simp
  then show ?thesis unfolding pr_msgq_filter_function_def Let_def pr_filter_loop_iff assms(2) n in_set_conv_nth by auto
qed

section \<open>Properties\<close>

text \<open>C32: With a filter of message IDs, a receive operation of the interface returns at once the oldest message whose ID is in the filter, and leaves
  the others in their order; with a timeout of zero and no such message it returns null and the queue is as before. The call
  leaves the interrupts of the worker on if they were on and off if they were off.\<close>

theorem pr_filter_receives:
  assumes "msgq_holds sys xs" and "filt \<noteq> 0" and "func \<noteq> 0" and "length ids \<le> 16" and "mem_u32 (ms_mem sys) filt = word_of_nat (length ids)"
    and "\<forall>j < length ids. mem_u32 (ms_mem sys) (filt + word_of_nat (4 * Suc j)) = ids ! j"
    and "pr_get_current_task (worker, sys, timer) = Some task" and "pr_returns calls worker worker'"
  shows "map_option prs_worker_int_enabled worker' = map_option prs_worker_int_enabled worker
    \<and> (case find (\<lambda>m. mem_u32 (ms_mem sys) (m + PRS_MSG_OVERHEAD) \<in> set ids) xs of
      Some m \<Rightarrow> (\<exists>sys'. pr_msg_recv_filter func ops_of calls rest clock ans filt (worker, sys, timer) = Some ((worker', sys', timer), m + PRS_MSG_OVERHEAD)
            \<and> msgq_holds sys' (remove1 m xs))
        \<and> (\<exists>sys'. pr_msg_recv_filter_timeout func ops_of calls rest clock ans filt ticks (worker, sys, timer) = Some ((worker', sys', timer), m + PRS_MSG_OVERHEAD)
            \<and> msgq_holds sys' (remove1 m xs))
    | None \<Rightarrow> \<exists>sys'. pr_msg_recv_filter_timeout func ops_of calls rest clock ans filt 0 (worker, sys, timer) = Some ((worker', sys', timer), 0)
            \<and> msgq_holds sys' xs)"
proof (rule conjI)
  show "map_option prs_worker_int_enabled worker' = map_option prs_worker_int_enabled worker" by (rule pr_returns_restores [OF assms(8)])
  obtain a b c where ans: "ans = (a, b, c)" by (cases ans)
  let ?fn = "\<lambda>_ :: ptr. pr_msgq_filter_function" and ?P = "\<lambda>m. mem_u32 (ms_mem sys) (m + PRS_MSG_OVERHEAD) \<in> set ids"
  have match: "msgq_match ?fn (ms_mem sys) func filt = ?P"
    using assms(3) pr_filter_function_ids [OF assms(4-6)] by (simp add: msgq_match_def fun_eq_iff)
  note recv = msgq_recv_first_or_null [OF assms(1), where fn = ?fn and func = func and userdata = filt and ops_of = ops_of and timer = timer and clock = clock
      and memory = a and userdata_memory = b and event_memory = c and userdata_size = "pr_filter_size sys filt", unfolded match]
  have few: "\<not> pr_filter_refused sys filt"
  proof -
    have "unat (word_of_nat (length ids) :: u32) = length ids" using assms(4) by (simp only: unat_of_nat) simp
    then show ?thesis using assms(2,4) by (simp add: pr_filter_refused_def assms(5) word_less_nat_alt)
  qed
  have z: "0 \<notin> set xs" using iq_rep_nodes [of "msgq_iq sys" xs] assms(1) by (simp add: msgq_holds_def)
  show "case find ?P xs of
      Some m \<Rightarrow> (\<exists>sys'. pr_msg_recv_filter func ops_of calls rest clock ans filt (worker, sys, timer) = Some ((worker', sys', timer), m + PRS_MSG_OVERHEAD)
            \<and> msgq_holds sys' (remove1 m xs))
        \<and> (\<exists>sys'. pr_msg_recv_filter_timeout func ops_of calls rest clock ans filt ticks (worker, sys, timer) = Some ((worker', sys', timer), m + PRS_MSG_OVERHEAD)
            \<and> msgq_holds sys' (remove1 m xs))
    | None \<Rightarrow> \<exists>sys'. pr_msg_recv_filter_timeout func ops_of calls rest clock ans filt 0 (worker, sys, timer) = Some ((worker', sys', timer), 0)
            \<and> msgq_holds sys' xs"
  proof (cases "find ?P xs")
    case None
    then show ?thesis
      using recv [where timeout = 0 and use_timeout = True] few assms(7)
      by (auto simp: pr_msg_recv_filter_timeout_def ans prs_msgq_recv_filter_timeout_def pr_recv_end_def intro!: pr_bracket_result [OF assms(8)])
  next
    case (Some m)
    then have "m \<in> set xs" unfolding find_Some_iff by auto
    then have "m \<noteq> 0" using z by auto
    then show ?thesis
      using Some recv [where timeout = 0 and use_timeout = False] recv [where timeout = ticks and use_timeout = True] few assms(7)
      by (auto simp: pr_msg_recv_filter_def pr_msg_recv_filter_timeout_def ans prs_msgq_recv_filter_def prs_msgq_recv_filter_timeout_def pr_recv_end_def
          pr_bracket_result [OF assms(8)])
  qed
qed

definition api_worker_example :: prs_worker where
  "api_worker_example = \<lparr>wk_addr = 40, wk_id = 9, wk_pal_thread = 41, wk_userdata = 0, wk_get_next = 42, wk_flags = PRS_WORKER_FLAG_INTERRUPTIBLE,
     wk_current_task_id = 2, wk_current_task = 99, wk_exit_context = 43\<rparr>"

lemma api_worker_example_returns: "pr_returns [id] (Some api_worker_example) (Some api_worker_example)"
  by (simp add: pr_returns_def PR_INT_DISABLE_def PR_INT_ENABLE_def worker_int_disable_eq prs_worker_int_enabled_def prs_worker_int_enable_def worker_enable_def
      atomic_compare_exchange_def api_worker_example_def worker_flag_defs)

lemma api_worker_example_task: "pr_get_current_task (Some api_worker_example, t) = Some 99"
  by (simp add: pr_get_current_task_def prs_worker_get_current_task_def api_worker_example_def)

definition api_msg_example :: "prs_god \<Rightarrow> msgq_system" where
  "api_msg_example god = msgq_send_push (msgq_send_push (msgq_sys_example god) 700) 800
     \<lparr>ms_mem := set_mem_u32 (set_mem_u32 (set_mem_u32 (\<lambda>_. 0) 500 1) 504 7) 824 7\<rparr>"

lemma api_msg_example_holds: "msgq_holds (api_msg_example god) [700, 800]"
proof -
  have "iq_rep (msgq_iq (msgq_sys_example god)) []" by (simp add: msgq_sys_example_def msgq_example_def msgq_iq_def iq_rep_def revq_def)
  from iq_fold_push [OF this, of "[700, 800]"] have "iq_rep (prs_mpsciq_push (prs_mpsciq_push (msgq_iq (msgq_sys_example god)) 700) 800) [700, 800]"
    by (simp add: iq_unlinked_def msgq_iq_def msgq_sys_example_def)
  then show ?thesis
    by (simp add: msgq_holds_def msgq_send_push_def msg_node_offset_def api_msg_example_def)
      (simp add: msgq_set_iq_def msgq_iq_def prs_mpsciq_push_def prs_mpsciq_push_body_def msgq_sys_example_def msgq_example_def iq_unlinked_def)
qed

theorem pr_filter_receives_witness:
  "\<forall>ops_of god timer clock. \<exists>sys'. pr_msg_recv_filter 9 ops_of [id] (\<lambda>_ _. None) clock (None, None, None) 500 (Some api_worker_example, api_msg_example god, timer)
      = Some ((Some api_worker_example, sys', timer), 824) \<and> msgq_holds sys' [700]"
proof (intro allI)
  fix ops_of :: "task_world god_ops" and god timer clock
  have "mem_u32 (ms_mem (api_msg_example god)) 500 = 1" "mem_u32 (ms_mem (api_msg_example god)) 504 = 7" "mem_u32 (ms_mem (api_msg_example god)) 724 = 0"
      "mem_u32 (ms_mem (api_msg_example god)) 824 = 7"
    by (simp_all add: api_msg_example_def mem_u32_def set_mem_u32_def)
  then show "\<exists>sys'. pr_msg_recv_filter 9 ops_of [id] (\<lambda>_ _. None) clock (None, None, None) 500 (Some api_worker_example, api_msg_example god, timer)
      = Some ((Some api_worker_example, sys', timer), 824) \<and> msgq_holds sys' [700]"
    using pr_filter_receives [OF api_msg_example_holds [of god], where filt = 500 and func = 9 and ids = "[7]" and timer = timer and task = 99 and calls = "[id]"
        and worker = "Some api_worker_example" and worker' = "Some api_worker_example" and ops_of = ops_of and rest = "\<lambda>_ _. None" and clock = clock
        and ans = "(None, None, None)" and ticks = 0] api_worker_example_returns api_worker_example_task [of "(api_msg_example god, timer)"]
    by (simp add: PRS_MSG_OVERHEAD_def)
qed


text \<open>A task of the process 77 that is the current one.\<close>

definition api_mod_example :: "nat life_mod" where
  "api_mod_example = life_example_mod\<lparr>sm_tasks := (\<lambda>p. (life_example_task p)\<lparr>task_proc_id := 1\<rparr>)\<rparr>"


end
