(* ===== verification/Ctx.thy ===== *)
theory Ctx
  imports Prs_Prelude
begin

unbundle bit_operations_syntax

text \<open>
  Execution contexts on amd64, \<^verbatim>\<open>prs/pal/posix/context.c\<close>. A context is the \<^verbatim>\<open>ucontext_t\<close> of the C library with room for the
  floating-point state. The machine has its registers and a memory of three parts: words of eight bytes by their addresses, contexts and
  floating-point states by theirs; the layout theorem shows that the parts of a frame do not overlap. The instructions of the
  assembly code are written out one by one; arithmetic does not change the flags here, since they are overwritten by the restored ones.
  The size of a context, the offset of the floating-point state in it and the addresses of the two labels are given by \<open>ctx_layout\<close>.
\<close>

section \<open>The machine\<close>

datatype greg =
    REG_R8 | REG_R9 | REG_R10 | REG_R11 | REG_R12 | REG_R13 | REG_R14 | REG_R15
  | REG_RDI | REG_RSI | REG_RBP | REG_RBX | REG_RDX | REG_RAX | REG_RCX | REG_RSP | REG_RIP | REG_EFL

record libc_fpstate =
  fp_mxcsr :: u32
  fp_xmm :: "nat \<Rightarrow> 128 word"
  fp_x87 :: "u8 list"

record ucontext =
  uc_gregs :: "greg \<Rightarrow> u64"
  uc_fpregs :: ptr

record ctx_layout =
  cl_size :: u64
  cl_fpstate :: u64
  cl_trampoline :: ptr
  cl_swap_return :: ptr
  cl_call_return :: ptr

record machine =
  mc_word :: "ptr \<Rightarrow> u64"
  mc_uc :: "ptr \<Rightarrow> ucontext"
  mc_fp :: "ptr \<Rightarrow> libc_fpstate"
  mc_reg :: "greg \<Rightarrow> u64"
  mc_xmm :: "nat \<Rightarrow> 128 word"
  mc_mxcsr :: u32

definition set_word :: "ptr \<Rightarrow> u64 \<Rightarrow> machine \<Rightarrow> machine" where
  "set_word a v m = m\<lparr>mc_word := (mc_word m)(a := v)\<rparr>"

definition set_uc :: "ptr \<Rightarrow> ucontext \<Rightarrow> machine \<Rightarrow> machine" where
  "set_uc a v m = m\<lparr>mc_uc := (mc_uc m)(a := v)\<rparr>"

definition set_fp :: "ptr \<Rightarrow> libc_fpstate \<Rightarrow> machine \<Rightarrow> machine" where
  "set_fp a v m = m\<lparr>mc_fp := (mc_fp m)(a := v)\<rparr>"

definition set_reg :: "greg \<Rightarrow> u64 \<Rightarrow> machine \<Rightarrow> machine" where
  "set_reg r v m = m\<lparr>mc_reg := (mc_reg m)(r := v)\<rparr>"

definition asm_push :: "u64 \<Rightarrow> machine \<Rightarrow> machine" where
  "asm_push v m = (let sp = mc_reg m REG_RSP - 8 in set_word sp v (set_reg REG_RSP sp m))"

definition asm_pop :: "greg \<Rightarrow> machine \<Rightarrow> machine" where
  "asm_pop r m = (let sp = mc_reg m REG_RSP in set_reg r (mc_word m sp) (set_reg REG_RSP (sp + 8) m))"

lemmas machine_defs = set_word_def set_uc_def set_fp_def set_reg_def asm_push_def asm_pop_def

section \<open>Allocation and copies\<close>

definition PRS_CONTEXT_RED_ZONE_SIZE :: u64 where
  "PRS_CONTEXT_RED_ZONE_SIZE = 128"

text \<open>A failed allocation is written through: \<open>None\<close>.\<close>

definition prs_pal_context_alloc :: "ctx_layout \<Rightarrow> ptr option \<Rightarrow> machine \<Rightarrow> (machine \<times> ptr) option" where
  "prs_pal_context_alloc l memory m =
     map_option (\<lambda>ctx. (set_fp (ctx + cl_fpstate l) \<lparr>fp_mxcsr = 0, fp_xmm = \<lambda>_. 0, fp_x87 = []\<rparr>
                         (set_uc ctx \<lparr>uc_gregs = \<lambda>_. 0, uc_fpregs = ctx + cl_fpstate l\<rparr> m), ctx)) memory"

definition prs_pal_context_free :: "ptr \<Rightarrow> ptr list" where
  "prs_pal_context_free ctx = [ctx]"

definition prs_pal_context_copy :: "ctx_layout \<Rightarrow> ptr \<Rightarrow> ptr \<Rightarrow> machine \<Rightarrow> machine" where
  "prs_pal_context_copy l dst src m =
     (let m = set_uc dst (mc_uc m src) m;
          m = set_fp (dst + cl_fpstate l) (mc_fp m (uc_fpregs (mc_uc m src))) m
      in set_uc dst ((mc_uc m dst)\<lparr>uc_fpregs := dst + cl_fpstate l\<rparr>) m)"

text \<open>\<^verbatim>\<open>prs_worker_restore_context\<close> of the worker.\<close>

definition prs_worker_restore_context :: "ctx_layout \<Rightarrow> ptr \<Rightarrow> ptr \<Rightarrow> machine \<Rightarrow> machine" where
  "prs_worker_restore_context l exit_context ctx m = prs_pal_context_copy l ctx exit_context m"

section \<open>A call on top of a context\<close>

definition arg_reg :: "nat \<Rightarrow> greg option" where
  "arg_reg i =
     (if i = 0 then Some REG_RDI else if i = 1 then Some REG_RSI else if i = 2 then Some REG_RDX
      else if i = 3 then Some REG_RCX else if i = 4 then Some REG_R8 else if i = 5 then Some REG_R9 else None)"

fun context_args :: "nat \<Rightarrow> u64 list \<Rightarrow> (greg \<Rightarrow> u64) \<Rightarrow> ptr \<Rightarrow> machine \<Rightarrow> (greg \<Rightarrow> u64) \<times> ptr \<times> machine" where
  "context_args i [] g psp m = (g, psp, m)"
| "context_args i (arg # args) g psp m =
     (case arg_reg i of
        Some r \<Rightarrow> context_args (Suc i) args (g(r := arg)) psp m
      | None \<Rightarrow> context_args (Suc i) args g (psp + 8) (set_word psp arg m))"

text \<open>Where the saved context goes.\<close>

definition context_area :: "ctx_layout \<Rightarrow> (greg \<Rightarrow> u64) \<Rightarrow> ptr" where
  "context_area l g =
     (let sp = g REG_RSP
      in if g REG_RIP \<noteq> 0
         then (let sp = sp - PRS_CONTEXT_RED_ZONE_SIZE - cl_size l in if sp AND 0xF \<noteq> 0 then sp - 8 else sp)
         else sp)"

definition prs_pal_context_add_internal :: "ctx_layout \<Rightarrow> ptr \<Rightarrow> ptr \<Rightarrow> u64 list \<Rightarrow> machine \<Rightarrow> machine" where
  "prs_pal_context_add_internal l ctx func args m =
     (let uc = mc_uc m ctx;
          g = uc_gregs uc;
          stack_argc = length args - 6;
          sp = context_area l g - 2 * 8 - word_of_nat stack_argc * 8 - 8;
          frame_align = (sp AND 0xF = 0);
          sp = (if frame_align then sp - 8 else sp);
          psp = sp;
          m = set_word psp (if g REG_RIP \<noteq> 0 then cl_trampoline l else 0) m;
          psp = psp + 8;
          (new, psp, m) = context_args 0 args g psp m;
          psp = (if frame_align then psp + 8 else psp);
          new_rbp = psp;
          m = set_word psp (g REG_RBP) m;
          psp = psp + 8;
          m = set_word psp (g REG_RIP) m;
          psp = psp + 8;
          m = (if g REG_RIP \<noteq> 0
               then (let m = set_uc psp (uc\<lparr>uc_fpregs := psp + cl_fpstate l\<rparr>) m
                     in if uc_fpregs uc \<noteq> 0 then set_fp (psp + cl_fpstate l) (mc_fp m (uc_fpregs uc)) m else m)
               else m)
      in set_uc ctx (uc\<lparr>uc_gregs := new(REG_RIP := func, REG_RBP := new_rbp, REG_RSP := sp)\<rparr>) m)"

definition prs_pal_context_make :: "ctx_layout \<Rightarrow> ptr \<Rightarrow> ptr \<Rightarrow> ptr \<Rightarrow> u64 list \<Rightarrow> machine \<Rightarrow> machine" where
  "prs_pal_context_make l ctx stack func args m =
     (let uc = mc_uc m ctx;
          m = set_fp (uc_fpregs uc) ((mc_fp m (uc_fpregs uc))\<lparr>fp_mxcsr := 0x1f80\<rparr>) m;
          m = set_uc ctx (uc\<lparr>uc_gregs := (uc_gregs uc)(REG_RIP := 0, REG_RSP := stack, REG_RBP := 0)\<rparr>) m
      in prs_pal_context_add_internal l ctx func args m)"

definition prs_pal_context_add :: "ctx_layout \<Rightarrow> ptr \<Rightarrow> ptr \<Rightarrow> u64 list \<Rightarrow> machine \<Rightarrow> machine" where
  "prs_pal_context_add l ctx func args m = prs_pal_context_add_internal l ctx func args m"

section \<open>Switches\<close>

text \<open>Bits 0 to 31 of a register that is written as 32 bits.\<close>

definition low32 :: "u64 \<Rightarrow> u64" where
  "low32 v = v AND mask 32"

definition context_save :: "ctx_layout \<Rightarrow> ptr \<Rightarrow> machine \<Rightarrow> machine" where
  "context_save l save m =
     (let uc = mc_uc m save;
          r = mc_reg m;
          g = (uc_gregs uc)(REG_RSP := r REG_RSP, REG_RIP := cl_swap_return l, REG_RBP := r REG_RBP, REG_RBX := r REG_RBX,
                REG_R12 := r REG_R12, REG_R13 := r REG_R13, REG_R14 := r REG_R14, REG_R15 := r REG_R15);
          m = asm_pop REG_RAX (asm_push (r REG_EFL) m);
          g = g(REG_EFL := (g REG_EFL AND NOT (mask 32)) OR low32 (mc_reg m REG_RAX));
          m = set_uc save (uc\<lparr>uc_gregs := g\<rparr>) m;
          fp = uc_fpregs uc;
          m = set_reg REG_RDI fp m
      in set_fp fp ((mc_fp m fp)\<lparr>fp_xmm := \<lambda>i. if i \<in> {8..15} then mc_xmm m i else fp_xmm (mc_fp m fp) i\<rparr>) m)"

definition context_restore :: "ptr \<Rightarrow> machine \<Rightarrow> machine" where
  "context_restore restore m =
     (let g = uc_gregs (mc_uc m restore);
          fp = mc_fp m (uc_fpregs (mc_uc m restore));
          m = m\<lparr>mc_mxcsr := fp_mxcsr fp, mc_xmm := \<lambda>i. if i \<le> 15 then fp_xmm fp i else mc_xmm m i\<rparr>;
          m = m\<lparr>mc_reg := (mc_reg m)(REG_RBP := g REG_RBP, REG_RDI := g REG_RDI, REG_RCX := g REG_RCX, REG_RDX := g REG_RDX,
                REG_R8 := g REG_R8, REG_R9 := g REG_R9, REG_R10 := g REG_R10, REG_R11 := g REG_R11, REG_R12 := g REG_R12,
                REG_R13 := g REG_R13, REG_R14 := g REG_R14, REG_R15 := g REG_R15)\<rparr>;
          m = set_reg REG_RAX (g REG_RSP) m;
          m = set_reg REG_RBX (g REG_RIP) m;
          m = set_word (mc_reg m REG_RAX - 0x8) (mc_reg m REG_RBX) m;
          m = set_reg REG_RBX (low32 (g REG_EFL)) m;
          m = set_word (mc_reg m REG_RAX - 0x10) (mc_reg m REG_RBX) m;
          m = set_reg REG_RBX (g REG_RSI) m;
          m = set_word (mc_reg m REG_RAX - 0x18) (mc_reg m REG_RBX) m;
          m = set_reg REG_RAX (g REG_RAX) m;
          m = set_reg REG_RBX (g REG_RBX) m;
          m = set_reg REG_RSI (g REG_RSP - 0x18) m;
          m = set_reg REG_RSP (mc_reg m REG_RSI) m
      in asm_pop REG_RIP (asm_pop REG_EFL (asm_pop REG_RSI m)))"

definition prs_pal_context_swap :: "ctx_layout \<Rightarrow> ptr \<Rightarrow> ptr \<Rightarrow> machine \<Rightarrow> machine" where
  "prs_pal_context_swap l save restore m =
     (let m = (if save \<noteq> 0 then context_save l save m else m)
      in if restore \<noteq> 0 then context_restore restore m else set_reg REG_RIP (cl_swap_return l) m)"

text \<open>Where a call on top of a context returns to.\<close>

definition prs_pal_context_return_trampoline :: "ctx_layout \<Rightarrow> machine \<Rightarrow> machine" where
  "prs_pal_context_return_trampoline l m =
     (let m = set_reg REG_RDI 0 m;
          m = set_reg REG_RSI (mc_reg m REG_RBP) m;
          m = set_reg REG_RSI (mc_reg m REG_RSI + 0x10) m;
          m = asm_push (cl_call_return l) m
      in prs_pal_context_swap l (mc_reg m REG_RDI) (mc_reg m REG_RSI) m)"

section \<open>Questions on a context\<close>

definition prs_pal_context_is_using_stack :: "machine \<Rightarrow> ptr \<Rightarrow> ptr \<Rightarrow> u64 \<Rightarrow> bool" where
  "prs_pal_context_is_using_stack m ctx stack stack_size =
     (let sp = uc_gregs (mc_uc m ctx) REG_RSP in sp \<ge> stack \<and> sp < stack + stack_size)"

definition prs_pal_context_get_ip :: "machine \<Rightarrow> ptr \<Rightarrow> ptr" where
  "prs_pal_context_get_ip m ctx = uc_gregs (mc_uc m ctx) REG_RIP"

section \<open>Arguments\<close>

fun reg_args :: "nat \<Rightarrow> u64 list \<Rightarrow> (greg \<Rightarrow> u64) \<Rightarrow> greg \<Rightarrow> u64" where
  "reg_args i [] g = g"
| "reg_args i (arg # args) g = (case arg_reg i of Some r \<Rightarrow> reg_args (Suc i) args (g(r := arg)) | None \<Rightarrow> g)"

fun write_words :: "u64 list \<Rightarrow> ptr \<Rightarrow> machine \<Rightarrow> machine" where
  "write_words [] a m = m"
| "write_words (v # vs) a m = write_words vs (a + 8) (set_word a v m)"

lemma arg_reg_none [simp]: "6 \<le> i \<Longrightarrow> arg_reg i = None"
  by (simp add: arg_reg_def)

lemma arg_reg_some: "i < 6 \<Longrightarrow> arg_reg i \<noteq> None"
  by (auto simp: arg_reg_def)

lemma arg_reg_inj: "arg_reg i = Some r \<Longrightarrow> arg_reg j = Some r \<Longrightarrow> i = j"
  by (auto simp: arg_reg_def split: if_splits)

lemma context_args_eq:
  "context_args i args g psp m =
     (reg_args i args g, psp + 8 * word_of_nat (length args - (6 - i)), write_words (drop (6 - i) args) psp m)"
proof (induction args arbitrary: i g psp m)
  case (Cons arg args)
  show ?case
  proof (cases "i < 6")
    case True
    from arg_reg_some [OF True] obtain r where "arg_reg i = Some r" by blast
    moreover have "6 - i = Suc (6 - Suc i)" using True by arith
    ultimately show ?thesis using Cons.IH [of "Suc i"] by (simp add: fun_upd_def)
  next
    case False
    moreover have "reg_args (Suc i) args g = g" using False by (cases args) simp_all
    ultimately show ?thesis using Cons.IH [of "Suc i" g "psp + 8" "set_word psp arg m"] by (simp add: algebra_simps)
  qed
qed simp

lemma reg_args_other: "(\<And>j. i \<le> j \<Longrightarrow> arg_reg j \<noteq> Some r) \<Longrightarrow> reg_args i args g r = g r"
proof (induction args arbitrary: i g)
  case (Cons arg args)
  from Cons.prems [of i] Cons.IH [of "Suc i"] Cons.prems show ?case by (auto split: option.splits)
qed simp

lemma reg_args_nth: "j < length args \<Longrightarrow> arg_reg (i + j) = Some r \<Longrightarrow> reg_args i args g r = args ! j"
proof (induction args arbitrary: i j g)
  case (Cons arg args)
  show ?case
  proof (cases j)
    case 0
    then have r: "arg_reg i = Some r" using Cons.prems(2) by simp
    then have "arg_reg k \<noteq> Some r" if "Suc i \<le> k" for k using arg_reg_inj [of i r k] that by auto
    then have "reg_args (Suc i) args (g(r := arg)) r = arg" by (subst reg_args_other) simp_all
    then show ?thesis using 0 r by simp
  next
    case (Suc k)
    have "i < 6" using Cons.prems(2) arg_reg_none [of "i + j"] by (cases "i < 6") simp_all
    from arg_reg_some [OF this] obtain r' where "arg_reg i = Some r'" by blast
    then show ?thesis using Suc Cons.IH [of k "Suc i"] Cons.prems by simp
  qed
qed simp

lemma set_word_simps [simp]:
  "mc_uc (set_word a v m) = mc_uc m" "mc_fp (set_word a v m) = mc_fp m" "mc_word (set_word a v m) = (mc_word m)(a := v)"
  "mc_reg (set_word a v m) = mc_reg m" "mc_xmm (set_word a v m) = mc_xmm m" "mc_mxcsr (set_word a v m) = mc_mxcsr m"
  by (simp_all add: set_word_def)

lemma set_uc_simps [simp]:
  "mc_uc (set_uc a u m) = (mc_uc m)(a := u)" "mc_fp (set_uc a u m) = mc_fp m" "mc_word (set_uc a u m) = mc_word m"
  "mc_reg (set_uc a u m) = mc_reg m" "mc_xmm (set_uc a u m) = mc_xmm m" "mc_mxcsr (set_uc a u m) = mc_mxcsr m"
  by (simp_all add: set_uc_def)

lemma set_fp_simps [simp]:
  "mc_uc (set_fp a f m) = mc_uc m" "mc_fp (set_fp a f m) = (mc_fp m)(a := f)" "mc_word (set_fp a f m) = mc_word m"
  "mc_reg (set_fp a f m) = mc_reg m" "mc_xmm (set_fp a f m) = mc_xmm m" "mc_mxcsr (set_fp a f m) = mc_mxcsr m"
  by (simp_all add: set_fp_def)

lemma set_reg_simps [simp]:
  "mc_uc (set_reg r v m) = mc_uc m" "mc_fp (set_reg r v m) = mc_fp m" "mc_word (set_reg r v m) = mc_word m"
  "mc_reg (set_reg r v m) = (mc_reg m)(r := v)" "mc_xmm (set_reg r v m) = mc_xmm m" "mc_mxcsr (set_reg r v m) = mc_mxcsr m"
  by (simp_all add: set_reg_def)

lemma write_words_simps [simp]:
  "mc_uc (write_words vs a m) = mc_uc m" "mc_fp (write_words vs a m) = mc_fp m"
  by (induction vs arbitrary: a m) simp_all

lemma unat_word_add: "unat (a :: u64) + n < 2 ^ 64 \<Longrightarrow> unat (a + word_of_nat n) = unat a + n"
proof -
  assume n: "unat a + n < 2 ^ 64"
  then have "unat (word_of_nat n :: u64) = n" by (simp only: unat_of_nat) simp
  then show ?thesis using n by (subst unat_add_lem [THEN iffD1]) simp_all
qed

lemma unat_u64_less: "unat (a :: u64) < 2 ^ 64"
proof -
  have "unat a < 2 ^ LENGTH(64)" by (rule unsigned_less)
  then show ?thesis by simp
qed

lemma unat_word_sub: "n \<le> unat (a :: u64) \<Longrightarrow> unat (a - word_of_nat n) = unat a - n"
proof -
  assume n: "n \<le> unat a"
  then have "n < 2 ^ 64" using unat_u64_less [of a] by simp
  then have "unat (word_of_nat n :: u64) = n" by (simp only: unat_of_nat) simp
  then show ?thesis using n by (subst unat_sub) (simp_all add: word_le_nat_alt)
qed

lemma write_words_other:
  assumes "unat a + 8 * length vs < 2 ^ 64" and "unat b < unat a \<or> unat a + 8 * length vs \<le> unat b"
  shows "mc_word (write_words vs a m) b = mc_word m b"
  using assms
proof (induction vs arbitrary: a m)
  case (Cons v vs)
  have "unat (a + 8) = unat a + 8" using unat_word_add [of a 8] Cons.prems(1) by simp
  then show ?case using Cons.IH [of "a + 8" "set_word a v m"] Cons.prems by auto
qed simp

lemma write_words_nth:
  assumes "unat a + 8 * length vs < 2 ^ 64" and "j < length vs"
  shows "mc_word (write_words vs a m) (a + 8 * word_of_nat j) = vs ! j"
  using assms
proof (induction vs arbitrary: a m j)
  case (Cons v vs)
  have u: "unat (a + 8) = unat a + 8" using unat_word_add [of a 8] Cons.prems(1) by simp
  show ?case
  proof (cases j)
    case 0
    then show ?thesis using write_words_other [of "a + 8" vs a "set_word a v m"] u Cons.prems(1) by simp
  next
    case (Suc k)
    then show ?thesis using Cons.IH [of "a + 8" k "set_word a v m"] u Cons.prems by (simp add: algebra_simps)
  qed
qed simp

section \<open>The frame\<close>

definition context_sp :: "ctx_layout \<Rightarrow> (greg \<Rightarrow> u64) \<Rightarrow> nat \<Rightarrow> ptr" where
  "context_sp l g argc =
     (let sp = context_area l g - 2 * 8 - word_of_nat (argc - 6) * 8 - 8 in if sp AND 0xF = 0 then sp - 8 else sp)"

lemma and_15: "unat ((w :: u64) AND 0xF) = unat w mod 16"
  using unat_and_mask_eq [of w 4] by (simp add: mask_eq_exp_minus_1)

lemma and_15_zero: "((w :: u64) AND 0xF = 0) \<longleftrightarrow> 16 dvd unat w"
  using and_15 [of w] by (metis dvd_eq_mod_eq_0 unat_eq_zero)

lemma context_area_bounds:
  assumes "g REG_RIP \<noteq> 0" and "8 dvd unat (g REG_RSP)" and "16 dvd unat (cl_size l)" and "unat (cl_size l) + 136 \<le> unat (g REG_RSP)"
  shows "16 dvd unat (context_area l g) \<and> unat (context_area l g) + unat (cl_size l) + 128 \<le> unat (g REG_RSP)
    \<and> unat (g REG_RSP) \<le> unat (context_area l g) + unat (cl_size l) + 136"
proof -
  let ?sp = "g REG_RSP - PRS_CONTEXT_RED_ZONE_SIZE - cl_size l"
  have e: "?sp = g REG_RSP - word_of_nat (128 + unat (cl_size l))" by (simp add: PRS_CONTEXT_RED_ZONE_SIZE_def)
  have u: "unat ?sp = unat (g REG_RSP) - (128 + unat (cl_size l))" unfolding e by (rule unat_word_sub) (use assms(4) in simp)
  have d: "8 dvd unat ?sp" using assms(2-4) unfolding u by presburger
  have "unat (?sp - 8) = unat ?sp - 8" using unat_word_sub [of 8 ?sp] u assms(4) by simp
  then show ?thesis using d u assms(1,4) unfolding context_area_def by (auto simp: Let_def and_15_zero) presburger+
qed

lemma mod_16_of_8: "8 dvd (x :: nat) \<Longrightarrow> \<not> 16 dvd x \<Longrightarrow> x mod 16 = 8"
  by presburger

lemma mod_16_below: "16 dvd (x :: nat) \<Longrightarrow> 8 \<le> x \<Longrightarrow> (x - 8) mod 16 = 8"
proof -
  assume "16 dvd x" "8 \<le> x"
  then obtain k where "x = 16 * k" "k \<noteq> 0" by auto
  then obtain j where "x = 16 * Suc j" by (cases k) auto
  then show ?thesis by simp
qed

lemma context_sp_bounds:
  assumes "8 dvd unat area" and "area = context_area l g" and "32 + 8 * n \<le> unat area" and "n = argc - 6"
  shows "\<exists>pad \<in> {0, 1}. context_sp l g argc = area - word_of_nat (8 * (n + 3 + pad)) \<and> unat (context_sp l g argc) + 8 * (n + 3 + pad) = unat area
    \<and> unat (context_sp l g argc) mod 16 = 8 \<and> ((area - 2 * 8 - word_of_nat n * 8 - 8) AND 0xF = 0 \<longleftrightarrow> pad = 1)"
proof -
  let ?sp = "area - 2 * 8 - word_of_nat n * 8 - 8"
  have w: "word_of_nat (8 * (n + 3)) = (2 * 8 + word_of_nat n * 8 + 8 :: u64)" by simp
  have e: "?sp = area - word_of_nat (8 * (n + 3))" unfolding w by (simp only: diff_diff_eq)
  have u: "unat ?sp = unat area - 8 * (n + 3)" unfolding e by (rule unat_word_sub) (use assms(3) in simp)
  have e8: "?sp - 8 = area - word_of_nat (8 * (n + 3 + 1))" unfolding e by (simp add: algebra_simps)
  have u8: "unat (?sp - 8) = unat ?sp - 8" using unat_word_sub [of 8 ?sp] u assms(3) by simp
  have d: "8 dvd unat ?sp" unfolding u using assms(1) by (intro dvd_diff_nat) simp_all
  show ?thesis
  proof (cases "?sp AND 0xF = 0")
    case True
    then have "context_sp l g argc = ?sp - 8" by (simp add: context_sp_def assms(2,4))
    moreover have "unat (?sp - 8) mod 16 = 8" unfolding u8 using True u assms(3) by (intro mod_16_below) (simp_all add: and_15_zero)
    moreover have "unat (?sp - 8) + 8 * (n + 3 + 1) = unat area" unfolding u8 u using assms(3) by simp
    ultimately show ?thesis using True e8 by (intro bexI [of _ 1]) auto
  next
    case False
    then have "context_sp l g argc = ?sp" by (simp add: context_sp_def assms(2,4))
    moreover have "unat ?sp mod 16 = 8" using False d by (intro mod_16_of_8) (simp_all add: and_15_zero)
    moreover have "unat ?sp + 8 * (n + 3 + 0) = unat area" unfolding u using assms(3) by simp
    ultimately show ?thesis using False e by (intro bexI [of _ 0]) auto
  qed
qed

text \<open>What a call on top of a context leaves in memory and in the context.\<close>

lemma context_add_result:
  assumes "g = uc_gregs (mc_uc m ctx)" and "area = context_area l g" and "g REG_RIP \<noteq> 0 \<longrightarrow> ctx \<noteq> area" and "n = length args - 6"
    and "8 dvd unat area" and "32 + 8 * n \<le> unat area"
  obtains pad m1 where "pad \<in> {0, 1}" and "context_sp l g (length args) = area - word_of_nat (8 * (n + 3 + pad))"
    and "unat (context_sp l g (length args)) + 8 * (n + 3 + pad) = unat area" and "unat (context_sp l g (length args)) mod 16 = 8"
    and "prs_pal_context_add l ctx func args m = m1"
    and "mc_word m1 = (mc_word (write_words (drop 6 args) (context_sp l g (length args) + 8)
           (set_word (context_sp l g (length args)) (if g REG_RIP \<noteq> 0 then cl_trampoline l else 0) m))) (area - 16 := g REG_RBP, area - 8 := g REG_RIP)"
    and "g REG_RIP = 0 \<longrightarrow> mc_fp m1 = mc_fp m" and "uc_fpregs (mc_uc m1 ctx) = uc_fpregs (mc_uc m ctx)"
    and "uc_gregs (mc_uc m1 ctx) = (reg_args 0 args g)(REG_RIP := func, REG_RBP := area - 16, REG_RSP := context_sp l g (length args))"
    and "g REG_RIP \<noteq> 0 \<longrightarrow> mc_uc m1 area = (mc_uc m ctx)\<lparr>uc_fpregs := area + cl_fpstate l\<rparr>"
    and "g REG_RIP \<noteq> 0 \<and> uc_fpregs (mc_uc m ctx) \<noteq> 0 \<longrightarrow> mc_fp m1 (area + cl_fpstate l) = mc_fp m (uc_fpregs (mc_uc m ctx))"
proof -
  from context_sp_bounds [OF assms(5,2,6,4)] obtain pad where p: "pad \<in> {0, 1}" "context_sp l g (length args) = area - word_of_nat (8 * (n + 3 + pad))"
    "unat (context_sp l g (length args)) + 8 * (n + 3 + pad) = unat area" "unat (context_sp l g (length args)) mod 16 = 8"
    "(area - 2 * 8 - word_of_nat n * 8 - 8) AND 0xF = 0 \<longleftrightarrow> pad = 1" by blast
  let ?sp = "context_sp l g (length args)"
  let ?m0 = "set_word (area - 8) (g REG_RIP) (set_word (area - 16) (g REG_RBP) (write_words (drop 6 args) (?sp + 8) (set_word ?sp (if g REG_RIP \<noteq> 0 then cl_trampoline l else 0) m)))"
  let ?m1 = "set_uc area ((mc_uc m ctx)\<lparr>uc_fpregs := area + cl_fpstate l\<rparr>) ?m0"
  let ?m2 = "if g REG_RIP \<noteq> 0
      then (if uc_fpregs (mc_uc m ctx) \<noteq> 0 then set_fp (area + cl_fpstate l) (mc_fp ?m1 (uc_fpregs (mc_uc m ctx))) ?m1 else ?m1)
      else ?m0"
  let ?c = "(area - 2 * 8 - word_of_nat n * 8 - 8) AND 0xF = 0"
  have sp: "(if ?c then area - 2 * 8 - word_of_nat n * 8 - 8 - 8 else area - 2 * 8 - word_of_nat n * 8 - 8) = ?sp"
    by (simp add: context_sp_def assms(2,4))
  have psp: "(if ?c then ?sp + 8 + 8 * word_of_nat n + 8 else ?sp + 8 + 8 * word_of_nat n) = area - 16"
    unfolding p(5) p(2) using p(1) by (auto simp: algebra_simps)
  have nx: "area - 16 + 8 = area - 8" "area - 8 + 8 = area" by simp_all
  have add: "prs_pal_context_add l ctx func args m =
      set_uc ctx ((mc_uc m ctx)\<lparr>uc_gregs := (reg_args 0 args g)(REG_RIP := func, REG_RBP := area - 16, REG_RSP := ?sp)\<rparr>) ?m2"
    unfolding prs_pal_context_add_def prs_pal_context_add_internal_def Let_def context_args_eq prod.case assms(1) [symmetric] assms(2) [symmetric]
      diff_zero assms(4) [symmetric] sp psp nx ..
  show thesis by (rule that [OF p(1-4) add]) (use assms(3) in auto)
qed

lemma context_add_frame:
  assumes "g = uc_gregs (mc_uc m ctx)" and "m' = prs_pal_context_add l ctx func args m" and "g' = uc_gregs (mc_uc m' ctx)"
    and "area = context_area l g" and "g REG_RIP \<noteq> 0 \<longrightarrow> ctx \<noteq> area" and "8 dvd unat area" and "32 + 8 * (length args - 6) \<le> unat area"
  shows "g' REG_RBP = area - 16 \<and> unat (g' REG_RSP) mod 16 = 8 \<and> g' REG_RIP = func
    \<and> mc_word m' (g' REG_RSP) = (if g REG_RIP \<noteq> 0 then cl_trampoline l else 0)
    \<and> (\<forall>i < length args. case arg_reg i of Some r \<Rightarrow> g' r = args ! i | None \<Rightarrow> mc_word m' (g' REG_RSP + 8 * word_of_nat (i - 5)) = args ! i)
    \<and> unat (g' REG_RSP) < unat area \<and> (\<forall>a. unat a < unat (g' REG_RSP) \<or> unat area \<le> unat a \<longrightarrow> mc_word m' a = mc_word m a)"
proof -
  define n where "n = length args - 6"
  let ?ret = "if g REG_RIP \<noteq> 0 then cl_trampoline l else 0"
  obtain pad m1 where r: "pad \<in> {0, 1}" "context_sp l g (length args) = area - word_of_nat (8 * (n + 3 + pad))"
    "unat (context_sp l g (length args)) + 8 * (n + 3 + pad) = unat area" "unat (context_sp l g (length args)) mod 16 = 8"
    "prs_pal_context_add l ctx func args m = m1"
    "mc_word m1 = (mc_word (write_words (drop 6 args) (context_sp l g (length args) + 8)
        (set_word (context_sp l g (length args)) ?ret m))) (area - 16 := g REG_RBP, area - 8 := g REG_RIP)"
    "uc_gregs (mc_uc m1 ctx) = (reg_args 0 args g)(REG_RIP := func, REG_RBP := area - 16, REG_RSP := context_sp l g (length args))"
    by (rule context_add_result [OF assms(1,4,5) n_def assms(6) assms(7) [folded n_def]]) (rule that)
  define sp where "sp = context_sp l g (length args)"
  have m': "m' = m1" using assms(2) r(5) by simp
  have g': "g' = (reg_args 0 args g)(REG_RIP := func, REG_RBP := area - 16, REG_RSP := sp)" using assms(3) m' r(7) by (simp add: sp_def)
  have u: "unat (area - 8) = unat area - 8" "unat (area - 16) = unat area - 16"
    using unat_word_sub [of 8 area] unat_word_sub [of 16 area] assms(7) by simp_all
  have below: "x \<noteq> area - 16 \<and> x \<noteq> area - 8" if "unat x < unat area - 16" for x using that u by auto
  have top: "unat area < 2 ^ 64" by (rule unat_u64_less)
  have r3: "unat sp + 8 * (n + 3 + pad) = unat area" unfolding sp_def by (rule r(3))
  have s8: "unat (sp + 8) = unat sp + 8" using unat_word_add [of sp 8] r3 top by simp
  have len: "length (drop 6 args) = n" by (simp add: n_def)
  have fit: "unat (sp + 8) + 8 * n + 16 \<le> unat area" unfolding s8 using r3 by simp
  have w: "mc_word m' = (mc_word (write_words (drop 6 args) (sp + 8) (set_word sp ?ret m))) (area - 16 := g REG_RBP, area - 8 := g REG_RIP)"
    using m' r(6) by (simp add: sp_def)
  have other: "mc_word m' a = (if a = sp then ?ret else mc_word m a)" if "unat a < unat (sp + 8) \<or> unat area \<le> unat a" for a
  proof -
    have "a \<noteq> area - 16" "a \<noteq> area - 8" using that u fit by auto
    moreover have "mc_word (write_words (drop 6 args) (sp + 8) (set_word sp ?ret m)) a = mc_word (set_word sp ?ret m) a"
      by (rule write_words_other; unfold len) (use that fit top in auto)
    ultimately show ?thesis by (simp add: w)
  qed
  have args: "case arg_reg i of Some r \<Rightarrow> g' r = args ! i | None \<Rightarrow> mc_word m' (g' REG_RSP + 8 * word_of_nat (i - 5)) = args ! i" if i: "i < length args" for i
  proof (cases "arg_reg i")
    case None
    then have "6 \<le> i" using arg_reg_some [of i] by (cases "i < 6") auto
    then obtain j where j: "i = 6 + j" using le_Suc_ex by blast
    then have jn: "j < n" using i by (simp add: n_def)
    have adr: "g' REG_RSP + 8 * word_of_nat (i - 5) = sp + 8 + 8 * word_of_nat j" by (simp add: g' j algebra_simps)
    have "unat (sp + 8 + word_of_nat (8 * j)) = unat (sp + 8) + 8 * j" by (rule unat_word_add) (use fit jn top in simp)
    then have "unat (sp + 8 + 8 * word_of_nat j) < unat area - 16" using fit jn by simp
    from below [OF this] have "sp + 8 + 8 * word_of_nat j \<noteq> area - 16" "sp + 8 + 8 * word_of_nat j \<noteq> area - 8" by blast+
    then have "mc_word m' (sp + 8 + 8 * word_of_nat j) = drop 6 args ! j"
      using write_words_nth [of "sp + 8" "drop 6 args" j, unfolded len] fit top jn by (simp add: w)
    then have "mc_word m' (g' REG_RSP + 8 * word_of_nat (i - 5)) = args ! i" unfolding adr using j i by simp
    then show ?thesis using None by simp
  next
    case (Some r)
    then have "r \<notin> {REG_RIP, REG_RBP, REG_RSP}" by (auto simp: arg_reg_def split: if_splits)
    then show ?thesis using Some reg_args_nth [of i args 0 r g] i by (simp add: g')
  qed
  show ?thesis
    using r3 r(4) args other s8 unfolding sp_def [symmetric] by (auto simp: g')
qed

section \<open>Restored registers\<close>

lemma context_restore_result:
  assumes "u = mc_uc m ctx" and "g = uc_gregs u" and "fp = mc_fp m (uc_fpregs u)"
  shows "mc_reg (context_restore ctx m) = g(REG_EFL := low32 (g REG_EFL))"
    and "mc_mxcsr (context_restore ctx m) = fp_mxcsr fp" and "i \<le> 15 \<Longrightarrow> mc_xmm (context_restore ctx m) i = fp_xmm fp i"
    and "mc_word (context_restore ctx m) =
      (mc_word m)(g REG_RSP - 8 := g REG_RIP, g REG_RSP - 16 := low32 (g REG_EFL), g REG_RSP - 24 := g REG_RSI)"
    and "mc_uc (context_restore ctx m) = mc_uc m" and "mc_fp (context_restore ctx m) = mc_fp m"
proof -
  show "mc_reg (context_restore ctx m) = g(REG_EFL := low32 (g REG_EFL))"
  proof (rule ext)
    fix r
    show "mc_reg (context_restore ctx m) r = (g(REG_EFL := low32 (g REG_EFL))) r"
      by (cases r) (simp_all add: context_restore_def Let_def assms asm_pop_def)
  qed
qed (simp_all add: context_restore_def Let_def assms asm_pop_def)

lemma low32_merge: "low32 ((x AND NOT (mask 32)) OR low32 y) = low32 y"
  by (simp add: low32_def bit_eq_iff bit_simps) blast

lemma context_save_result:
  fixes l :: ctx_layout and m m' :: machine and f :: ptr
  assumes "f = uc_fpregs (mc_uc m ctx)"
  defines "m' \<equiv> context_save l ctx m"
  shows "uc_fpregs (mc_uc m' ctx) = f" and "low32 (uc_gregs (mc_uc m' ctx) REG_EFL) = low32 (mc_reg m REG_EFL)"
    and "uc_gregs (mc_uc m' ctx) REG_RIP = cl_swap_return l"
    and "r \<in> {REG_RSP, REG_RBP, REG_RBX, REG_R12, REG_R13, REG_R14, REG_R15} \<Longrightarrow> uc_gregs (mc_uc m' ctx) r = mc_reg m r"
    and "i \<in> {8..15} \<Longrightarrow> fp_xmm (mc_fp m' f) i = mc_xmm m i" and "fp_mxcsr (mc_fp m' f) = fp_mxcsr (mc_fp m f)"
    and "a \<noteq> ctx \<Longrightarrow> mc_uc m' a = mc_uc m a" and "b \<noteq> f \<Longrightarrow> mc_fp m' b = mc_fp m b"
  by (auto simp: m'_def context_save_def Let_def assms asm_pop_def asm_push_def low32_merge)

text \<open>A context of running code with room for a call on top of it.\<close>

definition ctx_fits :: "ctx_layout \<Rightarrow> (greg \<Rightarrow> u64) \<Rightarrow> nat \<Rightarrow> bool" where
  "ctx_fits l g argc \<longleftrightarrow> g REG_RIP \<noteq> 0 \<and> 8 dvd unat (g REG_RSP) \<and> 16 dvd unat (cl_size l) \<and> unat (cl_size l) + 176 + 8 * argc \<le> unat (g REG_RSP)"

lemma ctx_fits_area:
  assumes "ctx_fits l g argc"
  shows "16 dvd unat (context_area l g)" and "unat (context_area l g) + unat (cl_size l) + 128 \<le> unat (g REG_RSP)"
    and "8 dvd unat (context_area l g)" and "32 + 8 * (argc - 6) \<le> unat (context_area l g)"
proof -
  from context_area_bounds [of g l] assms
  have a: "16 dvd unat (context_area l g)" "unat (context_area l g) + unat (cl_size l) + 128 \<le> unat (g REG_RSP)"
    "unat (g REG_RSP) \<le> unat (context_area l g) + unat (cl_size l) + 136" by (auto simp: ctx_fits_def)
  show "16 dvd unat (context_area l g)" "unat (context_area l g) + unat (cl_size l) + 128 \<le> unat (g REG_RSP)" by (fact a)+
  show "8 dvd unat (context_area l g)" using a(1) by (rule dvd_trans [rotated]) simp
  show "32 + 8 * (argc - 6) \<le> unat (context_area l g)" using a(3) assms unfolding ctx_fits_def by linarith
qed

section \<open>An example\<close>

definition ctx_layout_example :: ctx_layout where
  "ctx_layout_example = \<lparr>cl_size = 1488, cl_fpstate = 976, cl_trampoline = 0x5000, cl_swap_return = 0x6000, cl_call_return = 0x5100\<rparr>"

definition machine_example :: machine where
  "machine_example =
     \<lparr>mc_word = \<lambda>_. 0,
      mc_uc = (\<lambda>_. \<lparr>uc_gregs = \<lambda>_. 3, uc_fpregs = 0xa00\<rparr>)(0x800 := \<lparr>uc_gregs = (\<lambda>_. 7)(REG_RSP := 0x100008, REG_RIP := 0x400123), uc_fpregs = 0x900\<rparr>),
      mc_fp = \<lambda>_. \<lparr>fp_mxcsr = 0x1f80, fp_xmm = \<lambda>_. 0, fp_x87 = []\<rparr>,
      mc_reg = \<lambda>_. 5, mc_xmm = \<lambda>_. 9, mc_mxcsr = 0x7f80\<rparr>"

lemma machine_example_fits: "length args \<le> 7 \<Longrightarrow> ctx_fits ctx_layout_example (uc_gregs (mc_uc machine_example 0x800)) (length args)"
  by (simp add: ctx_fits_def ctx_layout_example_def machine_example_def)

lemma machine_example_area: "0x800 \<noteq> context_area ctx_layout_example (uc_gregs (mc_uc machine_example 0x800))"
  by (simp add: context_area_def ctx_layout_example_def machine_example_def PRS_CONTEXT_RED_ZONE_SIZE_def)

section \<open>Properties\<close>

text \<open>A context that is made for a function and switched to starts the function on its stack, with its arguments, the stack pointer that the
  calling convention asks for, a null return address and the default control word of the floating-point unit; nothing above the
  stack is written.\<close>

theorem context_make_starts:
  fixes l :: ctx_layout and ctx stack func f :: ptr and args :: "u64 list" and m m1 m2 m3 :: machine
  assumes "ctx \<noteq> 0" and "m1 = prs_pal_context_make l ctx stack func args m" and "8 dvd unat stack" and "32 + 8 * (length args - 6) \<le> unat stack"
    and "f = uc_fpregs (mc_uc m ctx)" and "mc_uc m2 ctx = mc_uc m1 ctx" and "mc_fp m2 f = mc_fp m1 f" and "m3 = prs_pal_context_swap l 0 ctx m2"
  shows "mc_reg m3 REG_RIP = func \<and> unat (mc_reg m3 REG_RSP) mod 16 = 8 \<and> mc_word m1 (mc_reg m3 REG_RSP) = 0 \<and> mc_mxcsr m3 = 0x1f80
    \<and> (\<forall>i < length args. case arg_reg i of Some r \<Rightarrow> mc_reg m3 r = args ! i | None \<Rightarrow> mc_word m1 (mc_reg m3 REG_RSP + 8 * word_of_nat (i - 5)) = args ! i)
    \<and> unat (mc_reg m3 REG_RSP) < unat stack \<and> (\<forall>a. unat a < unat (mc_reg m3 REG_RSP) \<or> unat stack \<le> unat a \<longrightarrow> mc_word m1 a = mc_word m a)"
proof -
  define g where "g = (uc_gregs (mc_uc m ctx))(REG_RIP := 0, REG_RSP := stack, REG_RBP := 0)"
  define m0 where "m0 = set_uc ctx ((mc_uc m ctx)\<lparr>uc_gregs := g\<rparr>) (set_fp f ((mc_fp m f)\<lparr>fp_mxcsr := 0x1f80\<rparr>) m)"
  have m1: "m1 = prs_pal_context_add l ctx func args m0"
    by (simp add: assms(2,5) prs_pal_context_make_def prs_pal_context_add_def Let_def m0_def g_def)
  have g: "g = uc_gregs (mc_uc m0 ctx)" by (simp add: m0_def)
  have area: "stack = context_area l g" by (simp add: context_area_def g_def)
  have rip: "g REG_RIP = 0" by (simp add: g_def)
  then have ne: "g REG_RIP \<noteq> 0 \<longrightarrow> ctx \<noteq> stack" by simp
  note frame = context_add_frame [OF g m1 refl area ne assms(3,4)]
  obtain m1' where r: "prs_pal_context_add l ctx func args m0 = m1'" "g REG_RIP = 0 \<longrightarrow> mc_fp m1' = mc_fp m0" "uc_fpregs (mc_uc m1' ctx) = uc_fpregs (mc_uc m0 ctx)"
    by (rule context_add_result [OF g area ne refl assms(3,4)]) (rule that)
  have f: "uc_fpregs (mc_uc m2 ctx) = f" "mc_fp m2 f = (mc_fp m f)\<lparr>fp_mxcsr := 0x1f80\<rparr>"
    using r rip assms(5-7) m1 by (simp_all add: m0_def)
  have m3: "m3 = context_restore ctx m2" using assms(1,8) by (simp add: prs_pal_context_swap_def)
  have reg: "mc_reg m3 r = uc_gregs (mc_uc m1 ctx) r" if "r \<noteq> REG_EFL" for r
    using context_restore_result(1) [OF refl refl refl, where ctx = ctx and m = m2] that by (simp add: m3 assms(6))
  have "mc_mxcsr m3 = 0x1f80" using context_restore_result(2) [OF refl refl refl, where ctx = ctx and m = m2] f by (simp add: m3)
  moreover have "case arg_reg i of Some r \<Rightarrow> mc_reg m3 r = args ! i | None \<Rightarrow> mc_word m1 (mc_reg m3 REG_RSP + 8 * word_of_nat (i - 5)) = args ! i"
    if "i < length args" for i
  proof (cases "arg_reg i")
    case (Some r)
    then have "mc_reg m3 r = uc_gregs (mc_uc m1 ctx) r" by (intro reg) (auto simp: arg_reg_def split: if_splits)
    then show ?thesis using frame that Some by fastforce
  qed (use frame that in \<open>fastforce simp: reg\<close>)
  moreover have "mc_word m0 = mc_word m" by (simp add: m0_def)
  ultimately show ?thesis using frame rip by (simp add: reg)
qed

theorem context_make_starts_witness:
  "let m1 = prs_pal_context_make ctx_layout_example 0x800 0x200000 0x7777 [42] machine_example; m3 = prs_pal_context_swap ctx_layout_example 0 0x800 m1
   in mc_reg m3 REG_RIP = 0x7777 \<and> mc_reg m3 REG_RDI = 42 \<and> mc_word m1 (mc_reg m3 REG_RSP) = 0"
proof -
  define m1 where "m1 = prs_pal_context_make ctx_layout_example 0x800 0x200000 0x7777 [42] machine_example"
  from context_make_starts [OF _ m1_def _ _ refl refl refl refl]
  show ?thesis unfolding m1_def [symmetric] by (simp add: Let_def arg_reg_def)
qed

text \<open>C34: A call that is put on top of the context of running code starts with the stack pointer that the calling convention of the platform asks for,
  with its arguments in the registers and on the stack, and returns to the trampoline. The saved context is aligned for the
  floating-point state, lies above the frame and below the red zone of the code, and nothing but the frame is written.\<close>

theorem context_call_frame:
  fixes l :: ctx_layout and ctx func :: ptr and args :: "u64 list" and m m' :: machine and g g' :: "greg \<Rightarrow> u64" and area :: ptr
  assumes "g = uc_gregs (mc_uc m ctx)" and "m' = prs_pal_context_add l ctx func args m" and "g' = uc_gregs (mc_uc m' ctx)"
    and "area = g' REG_RBP + 16" and "ctx_fits l g (length args)" and "ctx \<noteq> context_area l g"
  shows "unat (g' REG_RSP) mod 16 = 8 \<and> g' REG_RIP = func \<and> mc_word m' (g' REG_RSP) = cl_trampoline l
    \<and> (\<forall>i < length args. case arg_reg i of Some r \<Rightarrow> g' r = args ! i | None \<Rightarrow> mc_word m' (g' REG_RSP + 8 * word_of_nat (i - 5)) = args ! i)
    \<and> 16 dvd unat area \<and> unat (g' REG_RSP) < unat area \<and> unat area + unat (cl_size l) + unat PRS_CONTEXT_RED_ZONE_SIZE \<le> unat (g REG_RSP)
    \<and> (\<forall>a. unat a < unat (g' REG_RSP) \<or> unat area \<le> unat a \<longrightarrow> mc_word m' a = mc_word m a)"
proof -
  note fits = ctx_fits_area [OF assms(5)]
  have rip: "g REG_RIP \<noteq> 0" using assms(5) by (simp add: ctx_fits_def)
  note f = context_add_frame [OF assms(1-3) refl _ fits(3,4)]
  have area: "area = context_area l g" using f assms(4,6) by auto
  show ?thesis using f assms(6) rip fits(1,2) unfolding area by (auto simp: PRS_CONTEXT_RED_ZONE_SIZE_def)
qed

theorem context_call_frame_witness:
  "let m' = prs_pal_context_add ctx_layout_example 0x800 0x7777 [10, 11, 12, 13, 14, 15, 16] machine_example; g' = uc_gregs (mc_uc m' 0x800)
   in unat (g' REG_RSP) mod 16 = 8 \<and> g' REG_RDI = 10 \<and> mc_word m' (g' REG_RSP + 8) = 16 \<and> mc_word m' (g' REG_RSP) = 0x5000"
proof -
  let ?args = "[10, 11, 12, 13, 14, 15, 16] :: u64 list"
  note f = context_call_frame [OF refl refl refl refl machine_example_fits [of ?args] machine_example_area, where func = "0x7777"]
  from f have "unat (uc_gregs (mc_uc (prs_pal_context_add ctx_layout_example 0x800 0x7777 ?args machine_example) 0x800) REG_RSP) mod 16 = 8" by simp
  moreover from f have i: "\<forall>i < length ?args. case arg_reg i of
      Some r \<Rightarrow> uc_gregs (mc_uc (prs_pal_context_add ctx_layout_example 0x800 0x7777 ?args machine_example) 0x800) r = ?args ! i
    | None \<Rightarrow> mc_word (prs_pal_context_add ctx_layout_example 0x800 0x7777 ?args machine_example)
        (uc_gregs (mc_uc (prs_pal_context_add ctx_layout_example 0x800 0x7777 ?args machine_example) 0x800) REG_RSP + 8 * word_of_nat (i - 5)) = ?args ! i"
    by simp
  moreover from f have "mc_word (prs_pal_context_add ctx_layout_example 0x800 0x7777 ?args machine_example)
      (uc_gregs (mc_uc (prs_pal_context_add ctx_layout_example 0x800 0x7777 ?args machine_example) 0x800) REG_RSP) = 0x5000"
    by (simp add: ctx_layout_example_def)
  ultimately show ?thesis using i [rule_format, of 0] i [rule_format, of 6] by (simp add: arg_reg_def Let_def)
qed





end
