(* ===== verification/Elf.thy ===== *)
theory Elf
  imports Mem
begin

text \<open>
  The loader of programs, \<^verbatim>\<open>prs/pal/linux/proc.c\<close>. A file is a function from offsets to bytes: it is mapped for reading
  only and never written to. The structures of ELF64 are read at the offsets that their definitions have on a little-endian machine. The image of a
  program is written to a memory of bytes, with the protection of every byte as in the theory of the virtual memory. Answers of the operating system and of
  the dynamic linker are arguments.
\<close>

section \<open>ELF64\<close>

type_synonym elf_file = "u64 \<Rightarrow> u8"

fun le_bytes :: "elf_file \<Rightarrow> u64 \<Rightarrow> nat \<Rightarrow> u64" where
  "le_bytes file a 0 = 0"
| "le_bytes file a (Suc n) = ucast (file a) OR push_bit 8 (le_bytes file (a + 1) n)"

record elf_phdr =
  p_type :: u64
  p_flags :: u64
  p_offset :: u64
  p_vaddr :: u64
  p_filesz :: u64
  p_memsz :: u64

definition elf_phdr_at :: "elf_file \<Rightarrow> u64 \<Rightarrow> elf_phdr" where
  "elf_phdr_at file a =
     \<lparr>p_type = le_bytes file a 4, p_flags = le_bytes file (a + 4) 4, p_offset = le_bytes file (a + 8) 8,
      p_vaddr = le_bytes file (a + 16) 8, p_filesz = le_bytes file (a + 32) 8, p_memsz = le_bytes file (a + 40) 8\<rparr>"

record elf_shdr =
  sh_type :: u64
  sh_offset :: u64
  sh_size :: u64
  sh_link :: u64

definition elf_shdr_at :: "elf_file \<Rightarrow> u64 \<Rightarrow> elf_shdr" where
  "elf_shdr_at file a =
     \<lparr>sh_type = le_bytes file (a + 4) 4, sh_offset = le_bytes file (a + 24) 8, sh_size = le_bytes file (a + 32) 8, sh_link = le_bytes file (a + 40) 4\<rparr>"

definition e_entry :: "elf_file \<Rightarrow> u64" where "e_entry file = le_bytes file 24 8"
definition e_phoff :: "elf_file \<Rightarrow> u64" where "e_phoff file = le_bytes file 32 8"
definition e_shoff :: "elf_file \<Rightarrow> u64" where "e_shoff file = le_bytes file 40 8"
definition e_phnum :: "elf_file \<Rightarrow> nat" where "e_phnum file = unat (le_bytes file 56 2)"
definition e_shnum :: "elf_file \<Rightarrow> nat" where "e_shnum file = unat (le_bytes file 60 2)"

definition elf_phdrs :: "elf_file \<Rightarrow> elf_phdr list" where
  "elf_phdrs file = map (\<lambda>i. elf_phdr_at file (e_phoff file + word_of_nat i * 56)) [0..<e_phnum file]"

definition elf_shdrs :: "elf_file \<Rightarrow> elf_shdr list" where
  "elf_shdrs file = map (\<lambda>i. elf_shdr_at file (e_shoff file + word_of_nat i * 64)) [0..<e_shnum file]"

definition PT_LOAD :: u64 where "PT_LOAD = 1"
definition SHT_RELA :: u64 where "SHT_RELA = 4"
definition SHT_DYNAMIC :: u64 where "SHT_DYNAMIC = 6"
definition SHT_REL :: u64 where "SHT_REL = 9"
definition SHT_DYNSYM :: u64 where "SHT_DYNSYM = 11"
definition DT_NEEDED :: u64 where "DT_NEEDED = 1"

text \<open>A string of the file; the second number bounds its length by the size of the file.\<close>

fun elf_string :: "elf_file \<Rightarrow> u64 \<Rightarrow> nat \<Rightarrow> string" where
  "elf_string file a 0 = []"
| "elf_string file a (Suc n) = (if file a = 0 then [] else char_of (unat (file a)) # elf_string file (a + 1) n)"

section \<open>The main program\<close>

record prs_pal_proc =
  pp_size :: u64
  pp_data :: ptr
  pp_entry :: ptr

fun prs_pal_proc_find_base_address :: "ptr \<Rightarrow> ptr \<Rightarrow> elf_phdr list \<Rightarrow> prs_pal_proc \<Rightarrow> prs_pal_proc \<times> bool" where
  "prs_pal_proc_find_base_address addr dlpi_addr [] proc = (proc, False)"
| "prs_pal_proc_find_base_address addr dlpi_addr (phdr # phdrs) proc =
     (let base = dlpi_addr + p_vaddr phdr
      in if p_type phdr = PT_LOAD \<and> addr \<ge> base \<and> addr < base + p_memsz phdr
         then (proc\<lparr>pp_data := base, pp_size := p_memsz phdr\<rparr>, True)
         else prs_pal_proc_find_base_address addr dlpi_addr phdrs proc)"

definition PRS_MAX_CMDLINE :: nat where
  "PRS_MAX_CMDLINE = 256"

text \<open>The bytes of \<^verbatim>\<open>/proc/self/cmdline\<close> up to the end of the file.\<close>

fun main_cmdline :: "nat \<Rightarrow> char list \<Rightarrow> string" where
  "main_cmdline 0 cs = []"
| "main_cmdline (Suc n) [] = []"
| "main_cmdline (Suc n) (c # cs) = (if c = CHR 0x00 then CHR '' '' else c) # main_cmdline n cs"

text \<open>The modules that \<^verbatim>\<open>dl_iterate_phdr\<close> visits, until one has the code; none is fatal. \<open>progname\<close> is the name of the program as it is copied.\<close>

fun prs_pal_proc_create_main :: "ptr \<Rightarrow> (ptr \<times> elf_phdr list) list \<Rightarrow> string \<Rightarrow> char list \<Rightarrow> prs_pal_proc \<Rightarrow> (prs_pal_proc \<times> string \<times> string) option" where
  "prs_pal_proc_create_main addr [] progname cs proc = None"
| "prs_pal_proc_create_main addr (m # ms) progname cs proc =
     (let (proc, found) = prs_pal_proc_find_base_address addr (fst m) (snd m) proc
      in if found then Some (proc, progname, main_cmdline (PRS_MAX_CMDLINE - 1) cs)
         else prs_pal_proc_create_main addr ms progname cs proc)"

section \<open>Loading\<close>

record elf_state =
  es_prot :: os_memory
  es_mem :: "ptr \<Rightarrow> u8"
  es_libs :: "string list"

definition elf_ident_ok :: "elf_file \<Rightarrow> bool" where
  "elf_ident_ok file \<longleftrightarrow>
     file 0 = 0x7f \<and> file 1 = 0x45 \<and> file 2 = 0x4c \<and> file 3 = 0x46
     \<and> file 4 = 2 \<and> file 5 = 1 \<and> file 6 = 1 \<and> (file 7 = 0 \<or> file 7 = 3)"

text \<open>The first address and the size of the area: the last loaded header decides.\<close>

fun elf_extent :: "elf_phdr list \<Rightarrow> u64 option \<Rightarrow> u64 \<Rightarrow> u64 option \<times> u64" where
  "elf_extent [] vstart bytes = (vstart, bytes)"
| "elf_extent (phdr # phdrs) vstart bytes =
     (if p_type phdr \<noteq> PT_LOAD then elf_extent phdrs vstart bytes
      else (let v = (case vstart of None \<Rightarrow> p_vaddr phdr | Some v \<Rightarrow> v)
            in elf_extent phdrs (Some v) (p_vaddr phdr - v + p_memsz phdr)))"

definition elf_flags :: "u64 \<Rightarrow> u32" where
  "elf_flags flags =
     (let f = PRS_PAL_MEM_FLAG_NONE;
          f = (if flags AND 4 \<noteq> 0 then f OR PRS_PAL_MEM_FLAG_READ else f);
          f = (if flags AND 2 \<noteq> 0 then f OR PRS_PAL_MEM_FLAG_WRITE else f)
      in if flags AND 1 \<noteq> 0 then f OR PRS_PAL_MEM_FLAG_EXECUTE else f)"

definition elf_memcpy :: "(ptr \<Rightarrow> u8) \<Rightarrow> ptr \<Rightarrow> elf_file \<Rightarrow> u64 \<Rightarrow> u64 \<Rightarrow> ptr \<Rightarrow> u8" where
  "elf_memcpy mem dst file src n = (\<lambda>a. if in_area dst n a then file (src + (a - dst)) else mem a)"

definition elf_memset :: "(ptr \<Rightarrow> u8) \<Rightarrow> ptr \<Rightarrow> u8 \<Rightarrow> u64 \<Rightarrow> ptr \<Rightarrow> u8" where
  "elf_memset mem dst v n = (\<lambda>a. if in_area dst n a then v else mem a)"

text \<open>The page-aligned area of a segment.\<close>

definition elf_aligned :: "u64 \<Rightarrow> ptr \<Rightarrow> u64 \<Rightarrow> ptr \<times> u64" where
  "elf_aligned page_size pbase psize = (let r = pbase mod page_size in if r \<noteq> 0 then (pbase - r, psize + r) else (pbase, psize))"

text \<open>One header of the second pass; a file that is longer than its memory is fatal.\<close>

definition elf_load_segment :: "u64 \<Rightarrow> bool \<times> bool \<Rightarrow> elf_file \<Rightarrow> ptr \<Rightarrow> elf_phdr \<Rightarrow> elf_state \<Rightarrow> elf_state option" where
  "elf_load_segment page_size fails file vbase phdr s =
     (if p_type phdr \<noteq> PT_LOAD then Some s
      else
        (let pbase = vbase + p_vaddr phdr;
             (aligned, psize) = elf_aligned page_size pbase (p_memsz phdr);
             s = s\<lparr>es_prot := prs_pal_mem_protect (es_prot s) (fst fails) aligned psize PRS_PAL_MEM_FLAG_WRITE\<rparr>
         in if p_filesz phdr > p_memsz phdr then None
            else
              (let mem = elf_memcpy (es_mem s) pbase file (p_offset phdr) (p_filesz phdr);
                   mem = elf_memset mem (pbase + p_filesz phdr) 0 (p_memsz phdr - p_filesz phdr)
               in Some (s\<lparr>es_mem := mem, es_prot := prs_pal_mem_protect (es_prot s) (snd fails) aligned psize (elf_flags (p_flags phdr))\<rparr>))))"

fun elf_load_segments :: "u64 \<Rightarrow> (nat \<Rightarrow> bool \<times> bool) \<Rightarrow> elf_file \<Rightarrow> ptr \<Rightarrow> nat \<Rightarrow> elf_phdr list \<Rightarrow> elf_state \<Rightarrow> elf_state option" where
  "elf_load_segments page_size fails file vbase i [] s = Some s"
| "elf_load_segments page_size fails file vbase i (phdr # phdrs) s =
     Option.bind (elf_load_segment page_size (fails i) file vbase phdr s) (elf_load_segments page_size fails file vbase (Suc i) phdrs)"

text \<open>The offsets of the dynamic symbols and of their strings.\<close>

definition elf_symbols :: "elf_file \<Rightarrow> (u64 \<times> u64) option" where
  "elf_symbols file =
     map_option (\<lambda>shdr. (sh_offset shdr, sh_offset (elf_shdr_at file (e_shoff file + sh_link shdr * 64))))
       (find (\<lambda>shdr. sh_type shdr = SHT_DYNSYM) (elf_shdrs file))"

text \<open>A count that is stored in an int.\<close>

definition int_count :: "u64 \<Rightarrow> nat" where
  "int_count n = nat (sint (ucast n :: u32))"

definition elf_needed :: "elf_file \<Rightarrow> nat \<Rightarrow> u64 \<Rightarrow> string list" where
  "elf_needed file bytes strings =
     concat (map (\<lambda>shdr.
       if sh_type shdr = SHT_DYNAMIC
       then filter (\<lambda>name. name \<noteq> ''libprs.so'')
              (map (\<lambda>dyn. elf_string file (strings + le_bytes file (dyn + 8) 8) bytes)
                 (filter (\<lambda>dyn. le_bytes file dyn 8 = DT_NEEDED)
                    (map (\<lambda>j. sh_offset shdr + word_of_nat j * 16) [0..<int_count (sh_size shdr div 16)])))
       else []) (elf_shdrs file))"

definition elf_set_word :: "ptr \<Rightarrow> u64 \<Rightarrow> (ptr \<Rightarrow> u8) \<Rightarrow> ptr \<Rightarrow> u8" where
  "elf_set_word p v mem = (\<lambda>a. if in_area p 8 a then ucast (drop_bit (8 * unat (a - p)) v) else mem a)"

text \<open>The entry at the offset \<open>rel\<close> of a relocation section: the place and the symbol of an entry that is applied.\<close>

definition elf_rel_entry :: "elf_file \<Rightarrow> nat \<Rightarrow> u64 \<Rightarrow> u64 \<Rightarrow> u64 \<Rightarrow> (u64 \<times> string) option" where
  "elf_rel_entry file bytes symbols strings rel =
     (let r_offset = le_bytes file rel 8;
          r_info = le_bytes file (rel + 8) 8;
          sym_table_index = drop_bit 32 r_info;
          rel_type = take_bit 32 r_info;
          symbol_name = elf_string file (strings + le_bytes file (symbols + sym_table_index * 24) 4) bytes
      in if rel_type = 6 \<or> rel_type = 7 then Some (r_offset, symbol_name) else None)"

definition elf_rel_entries :: "elf_file \<Rightarrow> nat \<Rightarrow> u64 \<Rightarrow> u64 \<Rightarrow> (u64 \<times> string) list" where
  "elf_rel_entries file bytes symbols strings =
     List.map_filter (elf_rel_entry file bytes symbols strings)
       (concat (map (\<lambda>shdr.
          if sh_type shdr = SHT_REL \<or> sh_type shdr = SHT_RELA
          then (let entsize = (if sh_type shdr = SHT_REL then 16 else 24)
                in map (\<lambda>j. sh_offset shdr + word_of_nat j * entsize) [0..<int_count (sh_size shdr div entsize)])
          else []) (elf_shdrs file)))"

text \<open>A symbol that the dynamic linker does not know is skipped.\<close>

fun elf_relocate :: "(string \<Rightarrow> ptr) \<Rightarrow> ptr \<Rightarrow> (u64 \<times> string) list \<Rightarrow> (ptr \<Rightarrow> u8) \<Rightarrow> ptr \<Rightarrow> u8" where
  "elf_relocate dlsym vbase [] mem = mem"
| "elf_relocate dlsym vbase ((r_offset, name) # rels) mem =
     (let symbol_addr = dlsym name
      in elf_relocate dlsym vbase rels (if symbol_addr \<noteq> 0 then elf_set_word (vbase + r_offset) symbol_addr mem else mem))"

text \<open>The results of the allocator, of \<^verbatim>\<open>open\<close>, \<^verbatim>\<open>fstat\<close> (the size of the file) and \<^verbatim>\<open>mmap\<close> for the file (an address other than null), the
  answer of the system for the area, and which of the two protections of every header it refuses.\<close>

record elf_answers =
  ea_memory :: "ptr option"
  ea_opened :: bool
  ea_stat :: "nat option"
  ea_mapped :: bool
  ea_map_answer :: ptr
  ea_fails :: "nat \<Rightarrow> bool \<times> bool"
  ea_unmap_fails :: bool

definition elf_cleanup :: "elf_answers \<Rightarrow> ptr \<Rightarrow> prs_pal_proc \<Rightarrow> elf_state \<Rightarrow> (elf_state \<times> prs_pal_proc option \<times> ptr list) option" where
  "elf_cleanup ans p proc s =
     Some (if pp_data proc \<noteq> 0 then s\<lparr>es_prot := munmap (es_prot s) (ea_unmap_fails ans) (pp_data proc) (pp_size proc)\<rparr> else s, None, [p])"

text \<open>The result, if it is not fatal: the structure or null, and the pointers that are freed.\<close>

definition prs_pal_proc_load ::
  "u64 \<Rightarrow> (string \<Rightarrow> ptr) \<Rightarrow> elf_answers \<Rightarrow> elf_file \<Rightarrow> elf_state \<Rightarrow> (elf_state \<times> prs_pal_proc option \<times> ptr list) option" where
  "prs_pal_proc_load page_size dlsym ans file s =
     (let proc = \<lparr>pp_size = 0, pp_data = 0, pp_entry = 0\<rparr>
      in case ea_memory ans of
           None \<Rightarrow> Some (s, None, [])
         | Some p \<Rightarrow>
             if \<not> ea_opened ans then elf_cleanup ans p proc s
             else case ea_stat ans of
               None \<Rightarrow> elf_cleanup ans p proc s
             | Some bytes \<Rightarrow>
                 if \<not> ea_mapped ans \<or> \<not> elf_ident_ok file then elf_cleanup ans p proc s
                 else case elf_extent (elf_phdrs file) None 0 of
                   (None, _) \<Rightarrow> elf_cleanup ans p proc s
                 | (Some vstart, extent) \<Rightarrow>
                     (let proc = proc\<lparr>pp_size := prs_bitops_align_size extent page_size\<rparr>;
                          (prot, data) = prs_pal_mem_map 0 (es_prot s) (ea_map_answer ans) (pp_size proc) PRS_PAL_MEM_FLAG_COMMIT;
                          proc = proc\<lparr>pp_data := data\<rparr>;
                          s = s\<lparr>es_prot := prot\<rparr>
                      in if data = 0 then elf_cleanup ans p proc s
                         else
                           (let vbase = data - vstart
                            in Option.bind (elf_load_segments page_size (ea_fails ans) file vbase 0 (elf_phdrs file) s) (\<lambda>s.
                                 case elf_symbols file of
                                   None \<Rightarrow> elf_cleanup ans p proc s
                                 | Some (symbols, strings) \<Rightarrow>
                                     (let s = s\<lparr>es_libs := es_libs s @ elf_needed file bytes strings\<rparr>;
                                          s = s\<lparr>es_mem := elf_relocate dlsym vbase (elf_rel_entries file bytes symbols strings) (es_mem s)\<rparr>
                                      in Some (s, Some (proc\<lparr>pp_entry := vbase + e_entry file\<rparr>), []))))))"

definition prs_pal_proc_destroy :: "bool \<Rightarrow> ptr \<Rightarrow> prs_pal_proc \<Rightarrow> elf_state \<Rightarrow> elf_state \<times> ptr list" where
  "prs_pal_proc_destroy fails p proc s = (s\<lparr>es_prot := prs_pal_mem_unmap (es_prot s) fails (pp_data proc) (pp_size proc)\<rparr>, [p])"

definition prs_pal_proc_get_entry_point :: "prs_pal_proc \<Rightarrow> ptr" where
  "prs_pal_proc_get_entry_point proc = pp_entry proc"

definition prs_pal_proc_get_base :: "prs_pal_proc \<Rightarrow> ptr" where
  "prs_pal_proc_get_base proc = pp_data proc"

definition prs_pal_proc_get_size :: "prs_pal_proc \<Rightarrow> u64" where
  "prs_pal_proc_get_size proc = pp_size proc"

section \<open>Segments\<close>

lemma area_split:
  assumes "(n :: u64) \<le> k"
  shows "in_area (p + n) (k - n) a \<longleftrightarrow> \<not> in_area p n a \<and> in_area p k a"
proof -
  define x where "x = a - p"
  have e: "a - (p + n) = x - n" by (simp add: x_def)
  have k: "unat (k - n) = unat k - unat n" using assms by (simp add: unat_sub)
  have b: "unat x < 2 ^ LENGTH(64)" "unat n < 2 ^ LENGTH(64)" "unat k < 2 ^ LENGTH(64)" by (rule unsigned_less)+
  then have "unat (x - n) = (if unat n \<le> unat x then unat x - unat n else unat x + 2 ^ 64 - unat n)" by (simp add: unat_sub_if')
  then show ?thesis using assms k b(3)
    unfolding in_area_def e x_def [symmetric] word_less_nat_alt word_le_nat_alt by (auto split: if_splits)
qed

lemma area_below:
  assumes "in_area p n a" and "unat n + unat r < 2 ^ 64"
  shows "in_area (p - r) (n + r) a"
proof -
  define x where "x = a - p"
  have e: "a - (p - r) = x + r" by (simp add: x_def)
  have x: "unat x < unat n" using assms(1) by (simp add: in_area_def x_def word_less_nat_alt)
  then have "unat (x + r) = unat x + unat r" "unat (n + r) = unat n + unat r" using assms(2) by (subst unat_add_lem [THEN iffD1]; simp)+
  then show ?thesis using x by (simp add: in_area_def e word_less_nat_alt)
qed

lemma aligned_area:
  assumes "in_area p n a" and "unat n + unat page_size < 2 ^ 64" and "page_size \<noteq> 0"
  shows "in_area (fst (elf_aligned page_size p n)) (snd (elf_aligned page_size p n)) a"
proof -
  have "unat (p mod page_size) < unat page_size" using assms(3) by (simp add: unat_mod word_less_nat_alt unat_gt_0)
  then show ?thesis using area_below [OF assms(1), of "p mod page_size"] assms(1,2) by (simp add: elf_aligned_def Let_def)
qed

definition seg_base :: "ptr \<Rightarrow> elf_phdr \<Rightarrow> ptr" where
  "seg_base vbase phdr = vbase + p_vaddr phdr"

definition seg_byte :: "elf_file \<Rightarrow> ptr \<Rightarrow> elf_phdr \<Rightarrow> ptr \<Rightarrow> u8" where
  "seg_byte file vbase phdr a =
     (if a - seg_base vbase phdr < p_filesz phdr then file (p_offset phdr + (a - seg_base vbase phdr)) else 0)"

definition seg_pages :: "u64 \<Rightarrow> ptr \<Rightarrow> elf_phdr \<Rightarrow> ptr \<Rightarrow> bool" where
  "seg_pages page_size vbase phdr a \<longleftrightarrow>
     p_type phdr = PT_LOAD
     \<and> in_area (fst (elf_aligned page_size (seg_base vbase phdr) (p_memsz phdr))) (snd (elf_aligned page_size (seg_base vbase phdr) (p_memsz phdr))) a"

lemma load_segment_mem:
  assumes "elf_load_segment page_size fails file vbase phdr s = Some s'" and "p_type phdr = PT_LOAD"
  shows "es_mem s' a = (if in_area (seg_base vbase phdr) (p_memsz phdr) a then seg_byte file vbase phdr a else es_mem s a)"
proof -
  from assms have le: "p_filesz phdr \<le> p_memsz phdr" by (auto simp: elf_load_segment_def Let_def split: prod.splits if_splits)
  have "in_area (seg_base vbase phdr) (p_filesz phdr) a \<Longrightarrow> in_area (seg_base vbase phdr) (p_memsz phdr) a"
    using le by (auto simp: in_area_def)
  then show ?thesis using assms
    by (auto simp: elf_load_segment_def Let_def elf_memcpy_def elf_memset_def seg_byte_def seg_base_def area_split [OF le] split: prod.splits if_splits)
      (auto simp: in_area_def)
qed

lemma load_segment_prot:
  assumes "elf_load_segment page_size fails file vbase phdr s = Some s'"
  shows "\<not> seg_pages page_size vbase phdr a \<Longrightarrow> es_prot s' a = es_prot s a"
    and "seg_pages page_size vbase phdr a \<Longrightarrow> \<not> snd fails \<Longrightarrow> es_prot s' a = Some (prs_pal_mem_protect_flags (elf_flags (p_flags phdr)))"
  using assms
  by (auto simp: elf_load_segment_def Let_def seg_pages_def seg_base_def prs_pal_mem_protect_def mprotect_def set_area_def split: prod.splits if_splits)

lemma load_segment_other:
  assumes "elf_load_segment page_size fails file vbase phdr s = Some s'" and "\<not> seg_pages page_size vbase phdr a"
    and "unat (p_memsz phdr) + unat page_size < 2 ^ 64" and "page_size \<noteq> 0"
  shows "es_mem s' a = es_mem s a"
proof (cases "p_type phdr = PT_LOAD")
  case True
  then have "\<not> in_area (seg_base vbase phdr) (p_memsz phdr) a"
    using assms(2) aligned_area [OF _ assms(3,4)] by (auto simp: seg_pages_def)
  then show ?thesis using load_segment_mem [OF assms(1) True] by simp
qed (use assms(1) in \<open>simp add: elf_load_segment_def\<close>)

lemma load_segments_other:
  assumes "elf_load_segments page_size fails file vbase i phdrs s = Some s'" and "\<forall>phdr \<in> set phdrs. \<not> seg_pages page_size vbase phdr a"
    and "\<forall>phdr \<in> set phdrs. unat (p_memsz phdr) + unat page_size < 2 ^ 64" and "page_size \<noteq> 0"
  shows "es_mem s' a = es_mem s a \<and> es_prot s' a = es_prot s a"
  using assms
proof (induction phdrs arbitrary: i s)
  case (Cons phdr phdrs)
  from Cons.prems(1) obtain s1 where 1: "elf_load_segment page_size (fails i) file vbase phdr s = Some s1"
    "elf_load_segments page_size fails file vbase (Suc i) phdrs s1 = Some s'" by (auto simp: Option.bind_eq_Some_conv)
  then show ?case
    using Cons.IH [OF 1(2)] load_segment_other [OF 1(1), of a] load_segment_prot(1) [OF 1(1), of a] Cons.prems by auto
qed simp

lemma load_segments_app:
  "elf_load_segments page_size fails file vbase i (xs @ ys) s =
     Option.bind (elf_load_segments page_size fails file vbase i xs s) (elf_load_segments page_size fails file vbase (i + length xs) ys)"
proof (induction xs arbitrary: i s)
  case (Cons x xs)
  then show ?case by (cases "elf_load_segment page_size (fails i) file vbase x s") simp_all
qed simp

text \<open>A byte of a segment after all segments, when no page of a later one has it.\<close>

lemma load_segments_byte:
  assumes "elf_load_segments page_size fails file vbase 0 (pre @ phdr # post) s = Some s'" and "p_type phdr = PT_LOAD"
    and "in_area (seg_base vbase phdr) (p_memsz phdr) a" and "\<forall>q \<in> set post. \<not> seg_pages page_size vbase q a"
    and "\<forall>q \<in> set (phdr # post). unat (p_memsz q) + unat page_size < 2 ^ 64" and "page_size \<noteq> 0" and "\<not> snd (fails (length pre))"
  shows "es_mem s' a = seg_byte file vbase phdr a \<and> es_prot s' a = Some (prs_pal_mem_protect_flags (elf_flags (p_flags phdr)))"
proof -
  from assms(1) obtain s1 s2 where 1: "elf_load_segment page_size (fails (length pre)) file vbase phdr s1 = Some s2"
    "elf_load_segments page_size fails file vbase (Suc (length pre)) post s2 = Some s'" by (auto simp: load_segments_app Option.bind_eq_Some_conv)
  have "seg_pages page_size vbase phdr a"
    using assms(2) aligned_area [OF assms(3) _ assms(6)] assms(5) by (simp add: seg_pages_def)
  then show ?thesis
    using load_segments_other [OF 1(2) assms(4)] load_segment_mem [OF 1(1) assms(2), of a] load_segment_prot(2) [OF 1(1)] assms(3,5-7) by simp
qed

section \<open>Relocations\<close>

lemma relocate_other:
  assumes "\<forall>(place, name) \<in> set rels. dlsym name \<noteq> 0 \<longrightarrow> \<not> in_area (vbase + place) 8 a"
  shows "elf_relocate dlsym vbase rels mem a = mem a"
  using assms by (induction dlsym vbase rels mem rule: elf_relocate.induct) (auto simp: Let_def elf_set_word_def)

lemma relocate_app: "elf_relocate dlsym vbase (xs @ ys) mem = elf_relocate dlsym vbase ys (elf_relocate dlsym vbase xs mem)"
  by (induction dlsym vbase xs mem rule: elf_relocate.induct) (simp_all add: Let_def)

lemma relocate_byte:
  assumes "dlsym name \<noteq> 0" and "in_area (vbase + place) 8 a" and "\<forall>(place, name) \<in> set post. dlsym name \<noteq> 0 \<longrightarrow> \<not> in_area (vbase + place) 8 a"
  shows "elf_relocate dlsym vbase (pre @ (place, name) # post) mem a = ucast (drop_bit (8 * unat (a - (vbase + place))) (dlsym name))"
  using assms relocate_other [OF assms(3)] by (simp add: relocate_app Let_def elf_set_word_def)

section \<open>Properties\<close>

text \<open>The access that the flags of a header ask for.\<close>

lemma elf_flags_access:
  "prs_pal_mem_protect_flags (elf_flags flags) AND PROT_READ \<noteq> 0 \<longleftrightarrow> flags AND 4 \<noteq> 0"
  "prs_pal_mem_protect_flags (elf_flags flags) AND PROT_WRITE \<noteq> 0 \<longleftrightarrow> flags AND 2 \<noteq> 0"
  "prs_pal_mem_protect_flags (elf_flags flags) AND PROT_EXEC \<noteq> 0 \<longleftrightarrow> flags AND 1 \<noteq> 0"
  by (simp_all add: elf_flags_def Let_def protect_flags_low_bits MEM_FLAG_defs PROT_defs mask_numeral)


text \<open>A program of one segment of four bytes, two of them in the file.\<close>

definition elf_example :: elf_file where
  "elf_example = (\<lambda>_. 0)(0 := 0x7f, 1 := 0x45, 2 := 0x4c, 3 := 0x46, 4 := 2, 5 := 1, 6 := 1, 24 := 0x02, 25 := 0x10, 32 := 64, 40 := 120, 56 := 1, 60 := 1,
     64 := 1, 68 := 5, 73 := 2, 81 := 0x10, 96 := 2, 104 := 4, 124 := 11, 0x200 := 0x90, 0x201 := 0xc3)"

definition elf_example_phdr :: elf_phdr where
  "elf_example_phdr = \<lparr>p_type = PT_LOAD, p_flags = 5, p_offset = 0x200, p_vaddr = 0x1000, p_filesz = 2, p_memsz = 4\<rparr>"

definition elf_example_answers :: elf_answers where
  "elf_example_answers = \<lparr>ea_memory = Some 50, ea_opened = True, ea_stat = Some 600, ea_mapped = True, ea_map_answer = 0x7000000,
     ea_fails = \<lambda>_. (False, False), ea_unmap_fails = False\<rparr>"

lemma elf_example_headers:
  "elf_phdrs elf_example = [elf_example_phdr]" "elf_symbols elf_example = Some (0, 0)" "elf_rel_entries elf_example 600 0 0 = []"
  "elf_needed elf_example 600 0 = []" "e_entry elf_example = 0x1002" "elf_ident_ok elf_example"
  by code_simp+

lemma elf_example_loads:
  "\<exists>s' proc. prs_pal_proc_load 4096 dlsym elf_example_answers elf_example s = Some (s', Some proc, []) \<and> pp_entry proc = 0x7000002"
  by (simp add: prs_pal_proc_load_def elf_example_headers elf_example_answers_def elf_example_phdr_def Let_def prs_pal_mem_map_def mmap_def
      MAP_FAILED_def elf_load_segment_def elf_aligned_def)


end
