(* ===== verification/Spec2Isabelle.thy ===== *)
theory Spec2Isabelle
  imports Pool Pd God Idllist Dllist Mpsciq Mpscq Event Swprio Swcoop Str Excp Spinlock Mpmcq Timer Clock Sem Name Worker Msgq Sched Mpmcring Log Life Api Ctx Elf
begin

text \<open>
  A verification development for the Portable Runtime System (PRS), a run-time system in C that runs tasks and processes
  on the worker threads of an operating system. All paths below are relative to \<^verbatim>\<open>src/\<close>. The model is that of the Linux
  build for amd64 with the run-time checks on and the assertions off.
\<close>

section \<open>The program and its parts\<close>

text \<open>
  At the bottom lie the primitives: atomic cells, bit searches, string functions, virtual memory. On them stand the lock-free
  containers (a pool, two directories of reference-counted IDs, queues and a ring) and two doubly linked lists. The kernel uses
  the containers: a task blocks by publishing a token, an event passes that token to the sources that may unblock the task
  (semaphore, message queue, timer), the first source that signals makes the task ready in its scheduler, and the scheduler
  interrupts a worker, which asks it for the next task and switches contexts. Every object (task, process, scheduler,
  semaphore) lives in the global object directory under an ID, and possibly under a name; it is freed with its last reference. A process
  owns the objects that are registered with it; a service collects the processes that nothing references any more. The platform layer gives
  threads, signals, contexts and the loader; \<^verbatim>\<open>prs/init.c\<close> starts and ends all of this, and \<^verbatim>\<open>prs/pr.c\<close> is what programs call.

  Each theory models the files beside its name, one definition for each function, under the function's name. The state of a
  component is a record with the fields of the structure.

  \<^item> \<open>Prs_Prelude\<close>: the machine types of \<^verbatim>\<open>include/prs/pal/types.h\<close>, the result codes and limits of \<^verbatim>\<open>result.h\<close> and \<^verbatim>\<open>config.h\<close>, and
    general lemmas on lists, words and functions.
  \<^item> \<open>Atomic\<close> (\<^verbatim>\<open>include/prs/pal/atomic.h\<close>), \<open>Bitops\<close> (\<^verbatim>\<open>bitops.h\<close>), \<open>Str\<close> (\<^verbatim>\<open>prs/lib/str.c\<close>).
  \<^item> \<open>Pool\<close> (\<^verbatim>\<open>prs/lib/ds/pool.c\<close>), \<open>Pd\<close> (\<^verbatim>\<open>prs/lib/ds/pd.c\<close>, \<^verbatim>\<open>prs/gpd.c\<close>), \<open>God\<close> (\<^verbatim>\<open>prs/god.c\<close>); \<open>Idtable\<close> and \<open>Refdir\<close> hold what they share.
  \<^item> \<open>Idllist\<close>, \<open>Dllist\<close> (over \<open>Dlink\<close>), \<open>Mpsciq\<close>, \<open>Mpscq\<close> (over \<open>Revq\<close>), \<open>Mpmcq\<close>, \<open>Mpmcring\<close>: the files of these names in \<^verbatim>\<open>prs/lib/ds\<close>.
  \<^item> \<open>Task\<close>, \<open>Life\<close> (\<^verbatim>\<open>prs/task.c\<close>), \<open>Event\<close>, \<open>Timer\<close>, \<open>Clock\<close>, \<open>Sem\<close>, \<open>Msgq\<close>, \<open>Name\<close>, \<open>Spinlock\<close>, \<open>Worker\<close>, \<open>Sched\<close>: the files of these names in \<^verbatim>\<open>prs\<close>.
  \<^item> \<open>Swprio\<close>, \<open>Swcoop\<close> (over \<open>Schedq\<close>): the two implementations of a scheduler in \<^verbatim>\<open>prs/sched\<close>.
  \<^item> \<open>Mem\<close> (\<^verbatim>\<open>prs/pal/posix/mem.c\<close>), \<open>Stack\<close> (\<^verbatim>\<open>prs/alloc/stack.c\<close>), \<open>Excp\<close> (\<^verbatim>\<open>prs/excp.c\<close>, \<^verbatim>\<open>prs/error.c\<close>, the handler of \<^verbatim>\<open>prs/pal/posix/excp.c\<close>).
  \<^item> \<open>Proc\<close> (the command line and the table of address ranges of \<^verbatim>\<open>prs/proc.c\<close>), \<open>Life\<close> (the rest of \<^verbatim>\<open>prs/proc.c\<close> and \<^verbatim>\<open>prs/svc/proc.c\<close>).
  \<^item> \<open>Log\<close> (\<^verbatim>\<open>prs/log.c\<close>), \<open>Ctx\<close> (\<^verbatim>\<open>prs/pal/posix/context.c\<close>, assembly included), \<open>Elf\<close> (\<^verbatim>\<open>prs/pal/linux/proc.c\<close>).
  \<^item> \<open>Thread\<close> (\<^verbatim>\<open>signal.c\<close>, \<^verbatim>\<open>thread.c\<close> and \<^verbatim>\<open>pit.c\<close> of \<^verbatim>\<open>prs/pal/posix\<close>).
  \<^item> \<open>Boot\<close> (\<^verbatim>\<open>prs/init.c\<close>, \<^verbatim>\<open>prs/svc/log.c\<close>, \<^verbatim>\<open>prs/systeminfo.c\<close>, \<^verbatim>\<open>prs/pal/linux/os.c\<close>), \<open>Api\<close> (\<^verbatim>\<open>prs/pr.c\<close>).
\<close>

section \<open>How the code is modelled\<close>

text \<open>
  \<^item> Integers keep their width: \<open>u8\<close>, \<open>u32\<close> and \<open>u64\<close> are words, and sums wrap around. A pointer is a 64-bit word, null is 0. Memory is
    a function from addresses to the structures that lie there, so that aliasing is visible; what is passed to \<^verbatim>\<open>prs_pal_free\<close> is a result.
  \<^item> What the sources do not define is an argument: the answers of the allocator, of the kernel, of the dynamic linker, and the functions
    behind a table of operations. A failed answer is a value, and every branch on it is in the model.
  \<^item> An error is a result code, \<open>None\<close> where the code ends the process (or writes through a null pointer), or a
    constructor of a datatype of outcomes. A call that enters the scheduler does not return here: the model stops there and a second definition is the code after the
    switch back.
  \<^item> A compare-exchange loop is its body (\<open>cas_body\<close>): \<open>cas_run\<close> runs it alone, and \<open>cas_reach\<close> is the step relation of any number of
    threads in such loops. Where the interleaving of a whole protocol matters (producers and consumer, spinlock, semaphore, worker, message queue, thread start) the
    accesses to shared cells are the steps of an inductive relation, and the properties are invariants by rule induction.
  \<^item> A loop over a linked structure or a queue is a \<^verbatim>\<open>partial_function\<close> into option, and the properties prove that it returns. There is no fuel
    in a loop of the program, except for strings read from a file in \<open>Elf\<close>, which the file's size bounds. Endless loops (a worker, a service, a timer's thread) are their
    rounds.
\<close>

section \<open>Interfaces\<close>

text \<open>
  \<^item> \<open>refcounted\<close> (\<open>Atomic\<close>): a header that counts references with compare-exchange loops; the pool, the pointer directory and the object directory
    interpret it, and the theorems on racing threads come from it.
  \<^item> \<open>ref_directory\<close> (\<open>Refdir\<close>): what lock and unlock do to the live IDs; interpreted by the pool and by the pointer directory.
  \<^item> \<open>id_table\<close> (\<open>Idtable\<close>): the search for a fresh ID from a write index; interpreted by both directories.
  \<^item> \<open>node_list\<close> (\<open>Dlink\<close>): the two doubly linked lists. \<open>node_queue\<close> (\<open>Revq\<close>): the two queues with one consumer.
  \<^item> \<open>task_dispatcher\<close> (\<open>Schedq\<close>): a scheduler implementation as a queue of tasks; interpreted by both implementations.
  \<^item> \<open>element_ring\<close> (\<open>Mpmcring\<close>): the ring as the log uses it.
\<close>

section \<open>What is shown\<close>

text \<open>
  \<^item> Containers: invariants over every sequence of calls, the behaviour of each call on each branch, refinement of abstract
    lists, queues and rings, exact counts and linearization of racing threads; a dead ID never becomes live again within the
    range of the counters, which the statements give.
  \<^item> Blocking: exactly one source unblocks a task, exactly the last one frees the event; the semaphore neither loses a signal nor
    lets too many waits return; the message queue loses no message; the worker loses no interrupt; a timer fires once and on time. The exceptions that the code has are proved beside them (a timed-out wait
    takes the next signal; a request that ends at the last tick of a block is late).
  \<^item> Scheduling: the decisions implement their specifications, and every ready task is handed out once, in order.
  \<^item> Life time: references of tasks, processes and schedulers balance; the collection of processes ends and frees
    exactly what nothing references.
  \<^item> Platform: stacks grow to every address inside them, contexts keep the registers, a loaded program has the bytes and
    addresses of its file, threads start and end once, the system starts and exits in the specified order of calls.
  \<^item> Interface: calls of programs leave interrupts and reference counts as they were.
\<close>

section \<open>What is not modelled\<close>

text \<open>
  The Windows platform; the exit functions, the allocator and the worker-local storage of \<^verbatim>\<open>prs/pal/stdc\<close>, which only call the C library;
  assertions and run-time checks themselves; \<^verbatim>\<open>main.c\<close> and \<^verbatim>\<open>crt0.c\<close>; functions that only print; the registration of the
  exception signals and the handler of SIGINT, which only raises an exception; tests and examples. Log lines are only modelled in \<open>Log\<close> itself. The memory
  model of the processor is sequentially consistent; concurrent calls on the multi-consumer queue and on the ring are not
  covered, their theorems are about sequences of calls.
\<close>

end
